(* ===== verification/Prelude.thy ===== *)
theory Prelude
  imports Main "HOL-Library.Word"
begin

text \<open>
  Shared ground of the development: the machine types of the firmware (the
  \<open>u8_t\<close>, \<open>u16_t\<close>, \<open>u32_t\<close> of \<open>port/arch/cc.h\<close>), the lwIP error codes with the
  order that \<open>ERR_IS_FATAL\<close> compares by, NUL terminated C strings, the decimal
  rendering of \<open>sprintf\<close>, and the lemmas on lists, words and bytes that several
  components use.

  A C computation that may leave its objects (an out-of-range write, a NULL
  dereference, a use after free) has an \<open>option\<close> result; \<open>None\<close> is that undefined
  behaviour.  It is never a value the code tests for.
\<close>

unbundle bit_operations_syntax

section \<open>Machine types\<close>

type_synonym u8 = "8 word"
type_synonym u16 = "16 word"
type_synonym u32 = "32 word"

named_theorems byte_simps \<open>facts that reduce word and byte expressions\<close>
named_theorems chain_simps \<open>facts about linked chains in a store\<close>

section \<open>Error codes\<close>

text \<open>The codes of \<open>lwip/err.h\<close>; \<open>err_t\<close> is a signed 8 bit number.\<close>

datatype err_t =
    ERR_OK | ERR_MEM | ERR_BUF | ERR_TIMEOUT | ERR_RTE | ERR_ABRT | ERR_RST
  | ERR_CLSD | ERR_CONN | ERR_VAL | ERR_ARG | ERR_USE | ERR_IF | ERR_ISCONN
  | ERR_INPROGRESS

primrec err_code :: "err_t \<Rightarrow> int" where
  "err_code ERR_OK = 0"
| "err_code ERR_MEM = -1"
| "err_code ERR_BUF = -2"
| "err_code ERR_TIMEOUT = -3"
| "err_code ERR_RTE = -4"
| "err_code ERR_ABRT = -5"
| "err_code ERR_RST = -6"
| "err_code ERR_CLSD = -7"
| "err_code ERR_CONN = -8"
| "err_code ERR_VAL = -9"
| "err_code ERR_ARG = -10"
| "err_code ERR_USE = -11"
| "err_code ERR_IF = -12"
| "err_code ERR_ISCONN = -13"
| "err_code ERR_INPROGRESS = -14"

lemma err_code_inject [simp]: "err_code a = err_code b \<longleftrightarrow> a = b"
  by (cases a; cases b) simp_all

text \<open>
  The order of the codes is the order of the numbers, so \<open>e < ERR_RTE\<close> below is the
  comparison the macro makes.
\<close>

instantiation err_t :: linorder
begin

definition less_eq_err_t :: "err_t \<Rightarrow> err_t \<Rightarrow> bool" where
  "less_eq_err_t a b \<longleftrightarrow> err_code a \<le> err_code b"

definition less_err_t :: "err_t \<Rightarrow> err_t \<Rightarrow> bool" where
  "less_err_t a b \<longleftrightarrow> err_code a < err_code b"

instance
  by standard (auto simp: less_eq_err_t_def less_err_t_def)

end

definition ERR_IS_FATAL :: "err_t \<Rightarrow> bool" where
  "ERR_IS_FATAL e \<longleftrightarrow> e < ERR_RTE"

lemma err_ok_not_fatal [simp]: "\<not> ERR_IS_FATAL ERR_OK" "\<not> ERR_IS_FATAL ERR_MEM"
  by (simp_all add: ERR_IS_FATAL_def less_err_t_def)

section \<open>Lists\<close>

lemma take_drop_split [simp]: "take n xs @ drop n xs = xs"
  by simp

lemma nth_append_right' [simp]: "(xs @ ys) ! (length xs + i) = ys ! i"
  by (simp add: nth_append)

text \<open>
  \<open>overwrite off src dst\<close> is \<open>memcpy (dst + off, src, length src)\<close> into a buffer;
  it is defined when the copied bytes stay inside it.
\<close>

definition overwrite :: "nat \<Rightarrow> 'a list \<Rightarrow> 'a list \<Rightarrow> 'a list" where
  "overwrite off src dst = take off dst @ src @ drop (off + length src) dst"

lemma length_overwrite [simp]:
  "off + length src \<le> length dst \<Longrightarrow> length (overwrite off src dst) = length dst"
  by (simp add: overwrite_def)

lemma take_overwrite:
  "off + length src \<le> length dst \<Longrightarrow>
   take (off + length src) (overwrite off src dst) = take off dst @ src"
  by (simp add: overwrite_def)

lemma overwrite_get:
  "off + length src \<le> length dst \<Longrightarrow>
   take (length src) (drop off (overwrite off src dst)) = src"
  by (simp add: overwrite_def)

lemma nth_overwrite:
  assumes "off + length src \<le> length dst" "i < length dst"
  shows "overwrite off src dst ! i =
    (if off \<le> i \<and> i < off + length src then src ! (i - off) else dst ! i)"
  using assms by (auto simp: overwrite_def nth_append)

section \<open>Strings and their decimal rendering\<close>

text \<open>
  A C string is the list of its characters without the terminating NUL; a buffer
  that holds it needs \<open>cstr_size\<close> bytes.
\<close>

definition cstr_size :: "string \<Rightarrow> nat" where
  "cstr_size s = length s + 1"

definition digit_char :: "nat \<Rightarrow> char" where
  "digit_char d = char_of (48 + d)"

text \<open>The conversion \<open>%d\<close> of a non-negative number.\<close>

fun dec :: "nat \<Rightarrow> string" where
  "dec n = (if n < 10 then [digit_char n] else dec (n div 10) @ [digit_char (n mod 10)])"

declare dec.simps [simp del]

lemma dec_small: "n < 10 \<Longrightarrow> dec n = [digit_char n]"
  by (simp add: dec.simps)

lemma dec_two: "10 \<le> n \<Longrightarrow> n < 100 \<Longrightarrow> dec n = [digit_char (n div 10), digit_char (n mod 10)]"
  by (subst dec.simps) (simp add: dec_small)

lemma dec_three:
  "100 \<le> n \<Longrightarrow> n < 1000 \<Longrightarrow>
   dec n = [digit_char (n div 100), digit_char (n div 10 mod 10), digit_char (n mod 10)]"
  by (subst dec.simps) (simp add: dec_two div_mult2_eq [symmetric])

text \<open>The conversion \<open>%0.2d\<close>: at least two digits.\<close>

definition dec2 :: "nat \<Rightarrow> string" where
  "dec2 n = (if n < 10 then digit_char 0 # dec n else dec n)"

lemma length_dec_byte:
  "n < 256 \<Longrightarrow> length (dec n) = (if n < 10 then 1 else if n < 100 then 2 else 3)"
  by (auto simp: dec_small dec_two dec_three)

lemma dec_nonempty [simp]: "dec n \<noteq> []"
  by (subst dec.simps) simp

lemma length_dec2 [simp]: "n < 100 \<Longrightarrow> length (dec2 n) = 2"
  by (cases "n < 10") (auto simp: dec2_def dec_small dec_two)

section \<open>Words\<close>

lemma unat_less_256 [simp]: "unat (x :: u8) < 256"
  using unsigned_less [of x, where 'a = nat] by simp

lemma unat_less_65536 [simp]: "unat (x :: u16) < 65536"
  using unsigned_less [of x, where 'a = nat] by simp

lemma unat_u16_le [simp]: "unat (x :: u16) \<le> 65535"
  using unat_less_65536 [of x] by linarith

lemma unat_ucast_u8 [byte_simps]: "unat (ucast (x :: u8) :: u32) = unat x"
  by (simp add: unsigned_ucast_eq take_bit_nat_eq_self less_trans [OF unat_less_256])

lemma unat_ucast_u8_u16 [byte_simps]: "unat (ucast (x :: u8) :: u16) = unat x"
  by (simp add: unsigned_ucast_eq take_bit_nat_eq_self less_trans [OF unat_less_256])

lemma unat_ucast_u16 [byte_simps]: "unat (ucast (x :: u16) :: u32) = unat x"
  by (simp add: unsigned_ucast_eq take_bit_nat_eq_self less_trans [OF unat_less_65536])

lemma unat_of_nat_u16 [byte_simps]: "unat (of_nat n :: u16) = n mod 65536"
  by (simp add: unat_of_nat)

lemma unat_of_nat_u32 [byte_simps]: "unat (of_nat n :: u32) = n mod 4294967296"
  by (simp add: unat_of_nat)

lemma unat_of_nat_u8 [byte_simps]: "unat (of_nat n :: u8) = n mod 256"
  by (simp add: unat_of_nat)

end
