(* ===== verification/Inet.thy ===== *)
theory Inet
  imports Prelude
begin

text \<open>
  Byte order and IPv4 addresses: \<open>src/core/ipv4/inet.c\<close>, the address macros of
  \<open>ip_addr.h\<close>, \<open>ip_addr_isbroadcast\<close> of \<open>ip_addr.c\<close> and the application's own
  \<open>SET_IP4_ADDR\<close> of \<open>port/client.c\<close>.  An address (\<open>struct ip_addr\<close>) is its \<open>u32\<close>
  field, in network order; the CPU is little-endian (\<open>port/arch/cpu.h\<close>), so the four
  bytes of that word in memory are \<open>mem_bytes\<close>.
\<close>

section \<open>Byte order\<close>

definition htons :: "u16 \<Rightarrow> u16" where
  "htons n = push_bit 8 (n AND 0xff) OR drop_bit 8 (n AND 0xff00)"

definition ntohs :: "u16 \<Rightarrow> u16" where
  "ntohs n = htons n"

definition htonl :: "u32 \<Rightarrow> u32" where
  "htonl n = push_bit 24 (n AND 0xff) OR push_bit 8 (n AND 0xff00)
     OR drop_bit 8 (n AND 0xff0000) OR drop_bit 24 (n AND 0xff000000)"

definition ntohl :: "u32 \<Rightarrow> u32" where
  "ntohl n = htonl n"

text \<open>
  What the stack relies on: the conversion to network order undoes itself, hence
  is a bijection and never confuses two values.
\<close>

locale byte_order =
  fixes hton :: "'w \<Rightarrow> 'w" and ntoh :: "'w \<Rightarrow> 'w"
  assumes ntoh_hton: "ntoh (hton n) = n"
    and hton_ntoh: "hton (ntoh n) = n"
begin

lemma hton_inject: "hton a = hton b \<longleftrightarrow> a = b"
  by (metis ntoh_hton)

lemma hton_eq_iff: "hton a = b \<longleftrightarrow> a = ntoh b"
  by (metis ntoh_hton hton_ntoh)

lemma hton_bij: "bij hton"
  by (rule o_bij [of ntoh]) (auto simp: fun_eq_iff ntoh_hton hton_ntoh)

end

lemma byte_masks16: "(0xff :: u16) = mask 8" "(0xff00 :: u16) = push_bit 8 (mask 8)"
  by (simp_all add: mask_eq_exp_minus_1 push_bit_eq_mult)

lemma byte_masks32:
  "(0xff :: u32) = mask 8" "(0xff00 :: u32) = push_bit 8 (mask 8)"
  "(0xff0000 :: u32) = push_bit 16 (mask 8)" "(0xff000000 :: u32) = push_bit 24 (mask 8)"
  by (simp_all add: mask_eq_exp_minus_1 push_bit_eq_mult)

lemma htons_bit: "bit (htons n) i \<longleftrightarrow> i < 16 \<and> bit n (if i < 8 then i + 8 else i - 8)"
  unfolding htons_def byte_masks16
  by (auto simp: bit_push_bit_iff bit_drop_bit_eq bit_and_iff bit_or_iff bit_mask_iff add.commute
        dest: bit_imp_le_length)

lemma htonl_bit:
  "bit (htonl n) i \<longleftrightarrow> i < 32 \<and>
     bit n (if i < 8 then i + 24 else if i < 16 then i + 8 else if i < 24 then i - 8 else i - 24)"
  unfolding htonl_def byte_masks32
  by (auto simp: bit_push_bit_iff bit_drop_bit_eq bit_and_iff bit_or_iff bit_mask_iff add.commute
        dest: bit_imp_le_length)

lemma htons_htons [simp]: "htons (htons n) = n"
  by (rule bit_word_eqI) (auto simp: htons_bit)

lemma htonl_htonl [simp]: "htonl (htonl n) = n"
  by (rule bit_word_eqI) (auto simp: htonl_bit)

interpretation bo16: byte_order htons ntohs
  by unfold_locales (simp_all add: ntohs_def)

interpretation bo32: byte_order htonl ntohl
  by unfold_locales (simp_all add: ntohl_def)

section \<open>Addresses\<close>

text \<open>The macro \<open>IP4_ADDR\<close> of \<open>ip_addr.h\<close>; \<open>SET_IP4_ADDR\<close> of \<open>client.c\<close> is its copy.\<close>

definition IP4_ADDR :: "u8 \<Rightarrow> u8 \<Rightarrow> u8 \<Rightarrow> u8 \<Rightarrow> u32" where
  "IP4_ADDR a b c d = htonl (push_bit 24 (ucast a AND 0xff) OR push_bit 16 (ucast b AND 0xff)
     OR push_bit 8 (ucast c AND 0xff) OR (ucast d AND 0xff))"

definition SET_IP4_ADDR :: "u8 \<Rightarrow> u8 \<Rightarrow> u8 \<Rightarrow> u8 \<Rightarrow> u32" where
  "SET_IP4_ADDR a b c d = htonl (push_bit 24 (ucast a AND 0xff) OR push_bit 16 (ucast b AND 0xff)
     OR push_bit 8 (ucast c AND 0xff) OR (ucast d AND 0xff))"

definition mem_bytes :: "u32 \<Rightarrow> u8 list" where
  "mem_bytes w = [ucast w, ucast (drop_bit 8 w), ucast (drop_bit 16 w), ucast (drop_bit 24 w)]"

lemma length_mem_bytes [simp]: "length (mem_bytes w) = 4"
  by (simp add: mem_bytes_def)

text \<open>In memory an address is its four octets in the order they are written.\<close>

lemma mem_bytes_IP4_ADDR: "mem_bytes (IP4_ADDR a b c d) = [a, b, c, d]"
  unfolding mem_bytes_def IP4_ADDR_def byte_masks32
  by (auto intro!: bit_word_eqI simp: bit_ucast_iff htonl_bit bit_push_bit_iff bit_drop_bit_eq
        bit_and_iff bit_or_iff bit_mask_iff dest: bit_imp_le_length)

lemma mem_bytes_inject: "mem_bytes v = mem_bytes w \<longleftrightarrow> v = w"
proof
  assume eq: "mem_bytes v = mem_bytes w"
  show "v = w"
  proof (rule bit_word_eqI)
    fix n :: nat
    assume "n < LENGTH(32)"
    then have n: "n < 32" by simp
    define k where "k = n div 8"
    define j where "j = n mod 8"
    have nk: "n = 8 * k + j" "j < 8" "k < 4" using n by (auto simp: k_def j_def)
    have get: "mem_bytes x ! k = ucast (drop_bit (8 * k) x)" for x
      using \<open>k < 4\<close> by (auto simp: mem_bytes_def nth_Cons' numeral_eq_Suc less_Suc_eq)
    have "bit (mem_bytes v ! k) j = bit (mem_bytes w ! k) j" by (simp add: eq)
    then show "bit v n = bit w n"
      using nk by (simp add: get bit_ucast_iff bit_drop_bit_eq add.commute)
  qed
qed simp

text \<open>
  The application shows an address through \<open>iptab\<close>, most significant byte first,
  printed from the last entry to the first.
\<close>

definition iptab :: "u32 \<Rightarrow> u8 list" where
  "iptab a = [ucast (drop_bit 24 a), ucast (drop_bit 16 a), ucast (drop_bit 8 a), ucast a]"

definition sprint_ip :: "u32 \<Rightarrow> string" where
  "sprint_ip a = dec (unat (iptab a ! 3)) @ ''.'' @ dec (unat (iptab a ! 2)) @ ''.''
     @ dec (unat (iptab a ! 1)) @ ''.'' @ dec (unat (iptab a ! 0))"

lemma length_dec_u8: "1 \<le> length (dec (unat (b :: u8)))" "length (dec (unat (b :: u8))) \<le> 3"
  using length_dec_byte [of "unat b"] by simp_all

lemma length_sprint_ip: "7 \<le> length (sprint_ip a)" "length (sprint_ip a) \<le> 15"
  using length_dec_u8 [of "iptab a ! 0"] length_dec_u8 [of "iptab a ! 1"]
    length_dec_u8 [of "iptab a ! 2"] length_dec_u8 [of "iptab a ! 3"]
  by (simp_all add: sprint_ip_def)

section \<open>Numbers and dots: inet_ntoa\<close>

text \<open>
  The inner \<open>do\<close> loop writes the digits of one octet into \<open>inv\<close>, last digit first;
  the \<open>while (i--)\<close> loop copies them out backwards, and a dot follows each octet.  The
  last dot is overwritten by the NUL.
\<close>

fun inv_digits :: "nat \<Rightarrow> string" where
  "inv_digits b = digit_char (b mod 10) # (if b div 10 = 0 then [] else inv_digits (b div 10))"

declare inv_digits.simps [simp del]

definition inet_ntoa :: "u32 \<Rightarrow> string" where
  "inet_ntoa addr =
     butlast (concat (map (\<lambda>b. rev (inv_digits (unat b)) @ ''.'') (mem_bytes addr)))"

lemma rev_inv_digits: "rev (inv_digits n) = dec n"
proof (induction n rule: inv_digits.induct)
  case (1 n)
  show ?case
  proof (cases "n div 10 = 0")
    case True
    then show ?thesis by (simp add: inv_digits.simps [of n] dec_small div_eq_0_iff)
  next
    case False
    with "1" have "rev (inv_digits (n div 10)) = dec (n div 10)" by simp
    with False show ?thesis
      by (simp add: inv_digits.simps [of n] dec.simps [of n] div_eq_0_iff)
  qed
qed

lemma inet_ntoa_eq: "inet_ntoa a = sprint_ip a"
  by (simp add: inet_ntoa_def sprint_ip_def mem_bytes_def iptab_def rev_inv_digits butlast_append)

section \<open>Reading an address: inet_aton\<close>

text \<open>
  The string is the rest of the C string from \<open>cp\<close> on; its first character is \<open>c\<close>,
  the NUL at its end.  The character classes are the macros of \<open>inet.c\<close>.
\<close>

definition code :: "char \<Rightarrow> nat" where
  "code c = of_char c"

definition cur :: "string \<Rightarrow> char" where
  "cur s = (case s of [] \<Rightarrow> char_of (0 :: nat) | c # _ \<Rightarrow> c)"

definition isdigit :: "char \<Rightarrow> bool" where
  "isdigit c \<longleftrightarrow> 48 \<le> code c \<and> code c \<le> 57"

definition islower :: "char \<Rightarrow> bool" where
  "islower c \<longleftrightarrow> 97 \<le> code c \<and> code c \<le> 122"

definition isxdigit :: "char \<Rightarrow> bool" where
  "isxdigit c \<longleftrightarrow> isdigit c \<or> (97 \<le> code c \<and> code c \<le> 102) \<or> (65 \<le> code c \<and> code c \<le> 70)"

definition isspace :: "char \<Rightarrow> bool" where
  "isspace c \<longleftrightarrow> code c \<in> {32, 12, 10, 13, 9, 11}"

fun aton_digits :: "nat \<Rightarrow> u32 \<Rightarrow> string \<Rightarrow> u32 \<times> string" where
  "aton_digits base val [] = (val, [])"
| "aton_digits base val (c # cp) =
     (if isdigit c then aton_digits base (val * of_nat base + of_nat (code c - 48)) cp
      else if base = 16 \<and> isxdigit c
      then aton_digits base (push_bit 4 val OR of_nat (code c + 10 - (if islower c then 97 else 65))) cp
      else (val, c # cp))"

definition aton_number :: "string \<Rightarrow> (u32 \<times> string) option" where
  "aton_number cp =
     (if \<not> isdigit (cur cp) then None
      else if cur cp = CHR ''0''
      then (if cur (tl cp) = CHR ''x'' \<or> cur (tl cp) = CHR ''X''
            then Some (aton_digits 16 0 (tl (tl cp)))
            else Some (aton_digits 8 0 (tl cp)))
      else Some (aton_digits 10 0 cp))"

text \<open>
  The outer loop: \<open>parts\<close> holds the numbers before a dot, at most three; the result
  is those, the last number and the rest of the string.
\<close>

function aton_parts :: "u32 list \<Rightarrow> string \<Rightarrow> (u32 list \<times> u32 \<times> string) option" where
  "aton_parts parts cp =
     (case aton_number cp of None \<Rightarrow> None
      | Some (val, cp') \<Rightarrow>
          if cur cp' = CHR ''.''
          then (if 3 \<le> length parts then None else aton_parts (parts @ [val]) (tl cp'))
          else Some (parts, val, cp'))"
  by pat_completeness auto
termination
  by (relation "measure (\<lambda>(parts, cp). 3 - length parts)") auto

declare aton_parts.simps [simp del]

definition inet_aton :: "string \<Rightarrow> u32 option" where
  "inet_aton cp =
     (case aton_parts [] cp of None \<Rightarrow> None
      | Some (parts, val, rest) \<Rightarrow>
          if code (cur rest) \<noteq> 0 \<and> \<not> isspace (cur rest) then None
          else (case parts of
              [] \<Rightarrow> Some (htonl val)
            | [p0] \<Rightarrow> (if val > 0xffffff then None else Some (htonl (val OR push_bit 24 p0)))
            | [p0, p1] \<Rightarrow>
                (if val > 0xffff then None
                 else Some (htonl (val OR (push_bit 24 p0 OR push_bit 16 p1))))
            | [p0, p1, p2] \<Rightarrow>
                (if val > 0xff then None
                 else Some (htonl (val OR (push_bit 24 p0 OR push_bit 16 p1 OR push_bit 8 p2))))
            | _ \<Rightarrow> Some (htonl val)))"

definition INADDR_NONE :: u32 where
  "INADDR_NONE = 0xffffffff"

definition inet_addr :: "string \<Rightarrow> u32" where
  "inet_addr cp = (case inet_aton cp of Some a \<Rightarrow> a | None \<Rightarrow> INADDR_NONE)"

subsection \<open>Printing and reading back\<close>

lemma code_digit [simp]: "d < 10 \<Longrightarrow> code (digit_char d) = 48 + d"
  by (simp add: code_def digit_char_def)

lemma isdigit_digit [simp]: "d < 10 \<Longrightarrow> isdigit (digit_char d)"
  by (simp add: isdigit_def)

lemma code_inject: "c = c' \<longleftrightarrow> code c = code c'"
  by (simp add: code_def)

lemma digit_char_zero [simp]: "d < 10 \<Longrightarrow> digit_char d = CHR ''0'' \<longleftrightarrow> d = 0"
  by (simp add: code_inject code_def [of "CHR ''0''"])

lemma cur_Cons [simp]: "cur (c # s) = c"
  by (simp add: cur_def)

lemma aton_digits_stop: "\<not> isdigit (cur s) \<Longrightarrow> base \<noteq> 16 \<Longrightarrow> aton_digits base v s = (v, s)"
  by (cases s) auto

lemma aton_number_dec:
  assumes n: "n < 256" and stop: "\<not> isdigit (cur s)" "cur s \<noteq> CHR ''x''" "cur s \<noteq> CHR ''X''"
  shows "aton_number (dec n @ s) = Some (of_nat n, s)"
proof -
  consider "n < 10" | "10 \<le> n" "n < 100" | "100 \<le> n" "n < 1000" using n by linarith
  then show ?thesis
  proof cases
    case 1
    then show ?thesis using stop
      by (auto simp: aton_number_def dec_small aton_digits_stop)
  next
    case 2
    then have d: "n div 10 < 10" "n div 10 \<noteq> 0" by auto
    have v: "of_nat (n div 10) * 10 + of_nat (n mod 10) = (of_nat n :: u32)"
      by (metis mult.commute of_nat_add of_nat_mult of_nat_numeral mult_div_mod_eq)
    show ?thesis using 2 d stop
      by (simp add: aton_number_def dec_two aton_digits_stop v)
  next
    case 3
    then have d: "n div 100 < 10" "n div 100 \<noteq> 0" by auto
    have "n div 100 * 10 + n div 10 mod 10 = n div 10"
      by (simp add: div_mult2_eq [of n 10 10, simplified])
    then have v1: "of_nat (n div 100) * 10 + of_nat (n div 10 mod 10) = (of_nat (n div 10) :: u32)"
      by (metis of_nat_add of_nat_mult of_nat_numeral)
    have v2: "of_nat (n div 10) * 10 + of_nat (n mod 10) = (of_nat n :: u32)"
      by (metis mult.commute of_nat_add of_nat_mult of_nat_numeral mult_div_mod_eq)
    show ?thesis using 3 d stop
      by (simp add: aton_number_def dec_three aton_digits_stop v1 v2)
  qed
qed

lemma cur_append_dec: "cur (dec n @ s) = hd (dec n)"
  by (cases "dec n") simp_all

lemma aton_octet:
  assumes "length parts < 3"
  shows "aton_parts parts (dec (unat (b :: u8)) @ ''.'' @ s) = aton_parts (parts @ [of_nat (unat b)]) s"
proof -
  have "aton_number (dec (unat b) @ ''.'' @ s) = Some (of_nat (unat b), ''.'' @ s)"
    by (rule aton_number_dec) (simp_all add: isdigit_def code_def)
  then show ?thesis using assms by (simp add: aton_parts.simps [of parts])
qed

lemma aton_last: "aton_parts parts (dec (unat (b :: u8))) = Some (parts, of_nat (unat b), [])"
proof -
  have "aton_number (dec (unat b) @ []) = Some (of_nat (unat b), [])"
    by (rule aton_number_dec) (simp_all add: isdigit_def code_def cur_def code_inject)
  then show ?thesis by (simp add: aton_parts.simps [of parts] cur_def code_inject code_def)
qed

lemma of_nat_unat_u8: "of_nat (unat (b :: u8)) = (ucast b :: u32)"
  by (rule word_unat_eq_iff [THEN iffD2]) (simp add: unat_of_nat unat_ucast_u8)

lemma iptab_join:
  "htonl (ucast (iptab a ! 0) OR (push_bit 24 (ucast (iptab a ! 3))
     OR push_bit 16 (ucast (iptab a ! 2)) OR push_bit 8 (ucast (iptab a ! 1)))) = a"
  unfolding bo32.hton_eq_iff ntohl_def iptab_def
  by (rule bit_word_eqI)
    (auto simp: htonl_bit bit_or_iff bit_push_bit_iff bit_drop_bit_eq bit_ucast_iff
        add.commute dest: bit_imp_le_length)

text \<open>
  C34: Printing an IPv4 address with \<open>inet_ntoa\<close> and reading the text back with
  \<open>inet_aton\<close> gives the address, for every address.
\<close>

theorem inet_aton_inet_ntoa: "inet_aton (inet_ntoa a) = Some a"
proof -
  let ?b = "\<lambda>i. ucast (iptab a ! i) :: u32"
  have parts: "aton_parts [] (sprint_ip a) = Some ([?b 3, ?b 2, ?b 1], ?b 0, [])"
    by (simp add: sprint_ip_def aton_octet aton_last of_nat_unat_u8 del: append.simps)
  have "\<not> ?b 0 > 0xff" using unat_less_256 [of "iptab a ! 0"]
    by (simp add: word_less_nat_alt unat_ucast_u8 del: unat_less_256)
  with parts show ?thesis
    using iptab_join [of a] by (simp add: inet_ntoa_eq inet_aton_def cur_def code_def)
qed

section \<open>Network interfaces and broadcast addresses\<close>

text \<open>
  \<open>struct netif\<close> as far as this library uses it: its addresses, the hardware address
  and its length, the MTU, the flags and the DHCP client's \<open>tries\<close> counter (the
  pointer \<open>netif->dhcp\<close> is \<open>None\<close> until \<open>dhcp_start\<close>).
\<close>

record netif =
  ip_addr :: u32
  netmask :: u32
  gw :: u32
  hwaddr_len :: u8
  hwaddr :: "u8 list"
  mtu :: u16
  flags :: u8
  dhcp_tries :: "u8 option"

definition NETIF_FLAG_UP :: u8 where "NETIF_FLAG_UP = 0x01"
definition NETIF_FLAG_BROADCAST :: u8 where "NETIF_FLAG_BROADCAST = 0x02"
definition NETIF_FLAG_ETHARP :: u8 where "NETIF_FLAG_ETHARP = 0x20"
definition NETIF_FLAG_LINK_UP :: u8 where "NETIF_FLAG_LINK_UP = 0x10"

definition ip_addr_isany :: "u32 \<Rightarrow> bool" where
  "ip_addr_isany a \<longleftrightarrow> a = 0"

definition ip_addr_ismulticast :: "u32 \<Rightarrow> bool" where
  "ip_addr_ismulticast a \<longleftrightarrow> a AND ntohl 0xf0000000 = ntohl 0xe0000000"

definition ip_addr_netcmp :: "u32 \<Rightarrow> u32 \<Rightarrow> u32 \<Rightarrow> bool" where
  "ip_addr_netcmp a b m \<longleftrightarrow> a AND m = b AND m"

definition ip_addr_isbroadcast :: "u32 \<Rightarrow> netif \<Rightarrow> bool" where
  "ip_addr_isbroadcast addr n =
     (if NOT addr = 0 \<or> addr = 0 then True
      else if flags n AND NETIF_FLAG_BROADCAST = 0 then False
      else if addr = ip_addr n then False
      else if ip_addr_netcmp addr (ip_addr n) (netmask n)
              \<and> addr AND NOT (netmask n) = 0xffffffff AND NOT (netmask n) then True
      else False)"

lemma all_ones: "(0xffffffff :: u32) = -1" "(-4294967296 :: u32) = 0"
  by (simp_all add: word_eq_iff_unsigned unsigned_minus_1_eq_mask mask_eq_exp_minus_1)

lemma split_by_mask:
  "(a AND m = b AND m \<and> a AND NOT m = NOT m) \<longleftrightarrow> a = b OR NOT (m :: u32)"
  by (auto simp: bit_eq_iff bit_simps)

text \<open>
  An interface that supports broadcast recognises exactly these addresses: all
  ones, all zeroes, and its own address with every host bit set, unless that is the
  interface's own address.  Without broadcast support only the first two remain.
\<close>

theorem ip_addr_isbroadcast_iff:
  "ip_addr_isbroadcast addr n =
     (addr \<in> {0, 0xffffffff}
      \<or> (bit (flags n) 1 \<and> addr = ip_addr n OR NOT (netmask n) \<and> addr \<noteq> ip_addr n))"
proof -
  have flag: "flags n AND NETIF_FLAG_BROADCAST = 0 \<longleftrightarrow> \<not> bit (flags n) 1"
    using and_exp_eq_0_iff_not_bit [of "flags n" 1] by (simp add: NETIF_FLAG_BROADCAST_def)
  have ones: "NOT addr = 0 \<longleftrightarrow> addr = 0xffffffff"
    using bit.compl_eq_compl_iff [of addr "0xffffffff"] bit.double_compl [of "0 :: u32"]
    by (simp add: all_ones)
  have all: "0xffffffff AND NOT (netmask n) = NOT (netmask n)"
    by (simp add: all_ones)
  show ?thesis
    unfolding ip_addr_isbroadcast_def ip_addr_netcmp_def flag ones all
    using split_by_mask [of addr "netmask n" "ip_addr n"] by auto
qed

end
