(* ===== verification/Chksum.thy ===== *)
theory Chksum
  imports Inet
begin

text \<open>
  The Internet checksum: \<open>src/core/ipv4/inet_chksum.c\<close> with the algorithm the build
  selects (version 1).  A buffer of \<open>len\<close> bytes is a list of that length; a pbuf
  chain is the list of its buffers' bytes.  The reference is \<open>bytes_val\<close>, the number
  the bytes spell least significant first, reduced by \<open>ones_sum\<close>: the ones' complement
  sum of RFC 1071 on the values, without words, folding or byte swapping.
\<close>

section \<open>The code\<close>

definition SWAP_BYTES_IN_WORD :: "u32 \<Rightarrow> u32" where
  "SWAP_BYTES_IN_WORD w = push_bit 8 (w AND 0xff) OR drop_bit 8 (w AND 0xff00)"

definition FOLD_U32T :: "u32 \<Rightarrow> u32" where
  "FOLD_U32T u = drop_bit 16 u + (u AND 0xffff)"

fun sum_octets :: "u32 \<Rightarrow> u8 list \<Rightarrow> u32" where
  "sum_octets acc (a # b # octetptr) =
     sum_octets (acc + ucast (push_bit 8 (ucast a) OR ucast b :: u16)) octetptr"
| "sum_octets acc [a] = acc + ucast (push_bit 8 (ucast a) :: u16)"
| "sum_octets acc [] = acc"

definition lwip_standard_chksum :: "u8 list \<Rightarrow> u16" where
  "lwip_standard_chksum data =
     (let acc = sum_octets 0 data;
          acc = drop_bit 16 acc + (acc AND 0xffff);
          acc = (if acc AND 0xffff0000 \<noteq> 0 then drop_bit 16 acc + (acc AND 0xffff) else acc)
      in htons (ucast acc))"

text \<open>The loop over the chain, with its accumulator and \<open>swapped\<close>.\<close>

fun chksum_chain :: "u32 \<Rightarrow> bool \<Rightarrow> u8 list list \<Rightarrow> u32 \<times> bool" where
  "chksum_chain acc swapped [] = (acc, swapped)"
| "chksum_chain acc swapped (q # qs) =
     (let acc = FOLD_U32T (acc + ucast (lwip_standard_chksum q)) in
      if length q mod 2 \<noteq> 0 then chksum_chain (SWAP_BYTES_IN_WORD acc) (\<not> swapped) qs
      else chksum_chain acc swapped qs)"

definition inet_chksum :: "u8 list \<Rightarrow> u16" where
  "inet_chksum data = NOT (lwip_standard_chksum data)"

definition inet_chksum_pbuf :: "u8 list list \<Rightarrow> u16" where
  "inet_chksum_pbuf p =
     (let (acc, swapped) = chksum_chain 0 False p;
          acc = (if swapped then SWAP_BYTES_IN_WORD acc else acc)
      in ucast (NOT (acc AND 0xffff)))"

definition inet_chksum_pseudo :: "u8 list list \<Rightarrow> u32 \<Rightarrow> u32 \<Rightarrow> u8 \<Rightarrow> u16 \<Rightarrow> u16" where
  "inet_chksum_pseudo p src dest proto proto_len =
     (let (acc, swapped) = chksum_chain 0 False p;
          acc = (if swapped then SWAP_BYTES_IN_WORD acc else acc);
          acc = acc + (src AND 0xffff);
          acc = acc + (drop_bit 16 src AND 0xffff);
          acc = acc + (dest AND 0xffff);
          acc = acc + (drop_bit 16 dest AND 0xffff);
          acc = acc + ucast (htons (ucast proto));
          acc = acc + ucast (htons proto_len);
          acc = FOLD_U32T acc;
          acc = FOLD_U32T acc
      in ucast (NOT (acc AND 0xffff)))"

section \<open>The reference: ones' complement sums\<close>

primrec bytes_val :: "u8 list \<Rightarrow> nat" where
  "bytes_val [] = 0"
| "bytes_val (b # bs) = unat b + 256 * bytes_val bs"

definition ones_sum :: "nat \<Rightarrow> nat" where
  "ones_sum n = (if n = 0 then 0 else if n mod 65535 = 0 then 65535 else n mod 65535)"

lemma bytes_val_append: "bytes_val (xs @ ys) = bytes_val xs + 256 ^ length xs * bytes_val ys"
  by (induction xs) (simp_all add: algebra_simps)

lemma ones_sum_le [simp]: "ones_sum n \<le> 65535"
  by (simp add: ones_sum_def)

lemma ones_sum_mod [simp]: "ones_sum n mod 65535 = n mod 65535"
  by (simp add: ones_sum_def)

lemma ones_sum_zero [simp]: "ones_sum n = 0 \<longleftrightarrow> n = 0"
  by (simp add: ones_sum_def)

text \<open>A number of 16 bits is the sum of \<open>n\<close> if it agrees with it modulo 65535 and on being zero.\<close>

lemma ones_sum_unique:
  assumes "x \<le> 65535" "x mod 65535 = n mod 65535" "x = 0 \<longleftrightarrow> n = 0"
  shows "x = ones_sum n"
proof (cases "x = 65535")
  case False
  with assms have "x mod 65535 = x" by simp
  with assms show ?thesis by (auto simp: ones_sum_def)
qed (use assms in \<open>auto simp: ones_sum_def\<close>)

lemma ones_sum_cong:
  "m mod 65535 = n mod 65535 \<Longrightarrow> m = 0 \<longleftrightarrow> n = 0 \<Longrightarrow> ones_sum m = ones_sum n"
  by (simp add: ones_sum_def)

lemma ones_sum_small: "n \<le> 65535 \<Longrightarrow> ones_sum n = n"
  by (rule ones_sum_unique [symmetric]) simp_all

lemma pow256_mod: "256 ^ k mod 65535 = (if even k then 1 else 256 :: nat)"
proof (induction k)
  case (Suc k)
  have "256 ^ Suc k mod 65535 = (256 * (256 ^ k mod 65535)) mod (65535 :: nat)"
    by (simp add: mod_mult_right_eq)
  with Suc show ?case by simp
qed simp

lemma ones_sum_add: "ones_sum (ones_sum m + n) = ones_sum (m + n)"
  by (rule ones_sum_cong) (metis mod_add_left_eq ones_sum_mod, simp)

lemma ones_sum_mult: "ones_sum (k * ones_sum m) = ones_sum (k * m)"
  by (rule ones_sum_cong) (metis mod_mult_right_eq ones_sum_mod, simp)

section \<open>The code computes ones' complement sums\<close>

lemma unat_fold: "unat (drop_bit 16 u + (u AND 0xffff) :: u32) = unat u div 65536 + unat u mod 65536"
proof -
  have u: "unat u < 4294967296" using unsigned_less [of u, where 'a = nat] by simp
  have "u AND 0xffff = take_bit 16 u" by (simp add: take_bit_eq_mask mask_eq_exp_minus_1)
  then have m: "unat (u AND 0xffff) = unat u mod 65536"
    using unsigned_take_bit_eq [of 16 u, where 'a = nat] by (simp add: take_bit_eq_mod [of 16 "unat u"])
  have d: "unat (drop_bit 16 u) = unat u div 65536"
    using unat_drop_bit_eq [of 16 u] by (simp add: drop_bit_eq_div [of 16 "unat u"])
  have "unat u div 65536 \<le> 65535" using u by (simp add: less_mult_imp_div_less Suc_leI)
  then show ?thesis using m d by (simp add: unat_word_ariths)
qed

lemma unat_FOLD: "unat (FOLD_U32T u) = unat u div 65536 + unat u mod 65536"
  by (simp add: FOLD_U32T_def unat_fold)

lemma fold_mod: "(n div 65536 + n mod 65536) mod 65535 = n mod (65535 :: nat)"
proof -
  have "n = n div 65536 + n mod 65536 + 65535 * (n div 65536)" by simp
  then show ?thesis by (metis mod_mult_self2)
qed

lemma fold_zero: "n div 65536 + n mod 65536 = 0 \<longleftrightarrow> n = (0 :: nat)"
  using div_mult_mod_eq [of n 65536] by auto

lemma high_half_zero: "(w AND 0xffff0000 = (0 :: u32)) \<longleftrightarrow> unat w \<le> 65535"
proof -
  have m: "(0xffff0000 :: u32) = push_bit 16 (mask 16)"
    by (simp add: mask_eq_exp_minus_1 push_bit_eq_mult)
  have "w AND 0xffff0000 = push_bit 16 (drop_bit 16 w)"
    unfolding m
    by (auto intro!: bit_word_eqI
        simp: bit_push_bit_iff bit_drop_bit_eq bit_and_iff bit_mask_iff dest: bit_imp_le_length)
  moreover have "drop_bit 16 (w AND 0xffff0000) = drop_bit 16 w"
    unfolding m
    by (rule bit_word_eqI)
      (auto simp: bit_push_bit_iff bit_drop_bit_eq bit_and_iff bit_mask_iff dest: bit_imp_le_length)
  moreover have "drop_bit 16 w = 0 \<longleftrightarrow> unat w div 65536 = 0"
    using unat_drop_bit_eq [of 16 w] unsigned_eq_0_iff [of "drop_bit 16 w", where 'a = nat]
    by (simp only: drop_bit_eq_div) simp
  ultimately have "w AND 0xffff0000 = 0 \<longleftrightarrow> unat w div 65536 = 0"
    by (metis drop_bit_of_0 push_bit_of_0)
  then show ?thesis by (auto simp: div_eq_0_iff)
qed

lemma fold_once:
  assumes "unat u \<le> 131070"
  shows "unat (FOLD_U32T u) = ones_sum (unat u)"
proof (rule ones_sum_unique)
  have "n \<le> 131070 \<Longrightarrow> n div 65536 + n mod 65536 \<le> 65535" for n :: nat
    by (cases "n < 65536") (simp_all add: le_div_geq le_mod_geq not_less)
  with assms show "unat (FOLD_U32T u) \<le> 65535" by (simp add: unat_FOLD)
qed (simp_all only: unat_FOLD fold_mod fold_zero)

lemma fold_twice: "unat (FOLD_U32T (FOLD_U32T u)) = ones_sum (unat u)"
proof -
  have "unat u < 4294967296" using unsigned_less [of u, where 'a = nat] by simp
  then have "unat u div 65536 \<le> 65535" by (simp add: less_mult_imp_div_less Suc_leI)
  moreover have "unat u mod 65536 \<le> 65535" using mod_less_divisor [of 65536 "unat u"] by linarith
  ultimately have "unat (FOLD_U32T u) \<le> 131070" by (simp add: unat_FOLD)
  from fold_once [OF this] show ?thesis
    by (metis fold_mod fold_zero ones_sum_cong unat_FOLD)
qed

lemma bytes_val_pair:
  "(256 * (256 * unat a + unat b + 256 * m)) mod 65535 = (unat a + 256 * (unat b + 256 * m)) mod 65535"
proof -
  have "256 * (256 * unat a + unat b + 256 * m) = unat a + 256 * (unat b + 256 * m) + 65535 * unat a"
    by simp
  then show ?thesis by (metis mod_mult_self2)
qed

text \<open>The 16 bit big-endian sum of the loop, as a number.\<close>

fun octets_val :: "u8 list \<Rightarrow> nat" where
  "octets_val (a # b # bs) = 256 * unat a + unat b + octets_val bs"
| "octets_val [a] = 256 * unat a"
| "octets_val [] = 0"

lemma octets_val_mod: "(256 * octets_val bs) mod 65535 = bytes_val bs mod 65535"
proof (induction bs rule: octets_val.induct)
  case (1 a b bs)
  have "256 * octets_val (a # b # bs) = 256 * (256 * unat a + unat b) + 256 * octets_val bs"
    by simp
  then have "(256 * octets_val (a # b # bs)) mod 65535
      = (256 * (256 * unat a + unat b) + (256 * octets_val bs) mod 65535) mod 65535"
    by (simp only: mod_add_right_eq)
  also have "\<dots> = (256 * (256 * unat a + unat b) + bytes_val bs mod 65535) mod 65535"
    using "1" by simp
  also have "\<dots> = (256 * (256 * unat a + unat b) + bytes_val bs) mod 65535"
    by (simp add: mod_add_right_eq)
  also have "\<dots> = (256 * (256 * unat a + unat b) + bytes_val bs + 65535 * bytes_val bs) mod 65535"
    by (rule mod_mult_self2 [symmetric])
  also have "256 * (256 * unat a + unat b) + bytes_val bs + 65535 * bytes_val bs
      = bytes_val (a # b # bs) + 65535 * unat a"
    by simp
  finally show ?case by (simp only: mod_mult_self2)
next
  case (2 a)
  have "256 * octets_val [a] = bytes_val [a] + 65535 * unat a" by simp
  then show ?case by (metis mod_mult_self2)
qed simp

lemma octets_val_zero: "octets_val bs = 0 \<longleftrightarrow> bytes_val bs = 0"
  by (induction bs rule: octets_val.induct) auto

lemma octets_val_bound: "octets_val bs \<le> 65535 * ((length bs + 1) div 2)"
proof (induction bs rule: octets_val.induct)
  case (1 a b bs)
  have "unat a \<le> 255" "unat b \<le> 255" using unat_less_256 [of a] unat_less_256 [of b] by linarith+
  with "1" show ?case by simp
next
  case (2 a)
  have "unat a \<le> 255" using unat_less_256 [of a] by linarith
  then show ?case by simp
qed simp

lemma unat_octet_pair:
  "unat (push_bit 8 (ucast (a :: u8)) OR ucast (b :: u8) :: u16) = 256 * unat a + unat b"
proof -
  have "push_bit 8 (ucast a) OR ucast b = (push_bit 8 (ucast a) + ucast b :: u16)"
    by (rule disjunctive_add [symmetric]) (auto simp: bit_simps dest: bit_imp_le_length)
  then show ?thesis
    using unat_less_256 [of a] unat_less_256 [of b]
    by (simp add: unat_word_ariths push_bit_eq_mult unat_ucast_u8_u16 del: unat_less_256)
qed

lemma unat_sum_octets:
  assumes "unat acc + octets_val bs < 4294967296"
  shows "unat (sum_octets acc bs) = unat acc + octets_val bs"
  using assms
proof (induction acc bs rule: sum_octets.induct)
  case (1 acc a b bs)
  have "unat (acc + ucast (push_bit 8 (ucast a) OR ucast b :: u16)) = unat acc + (256 * unat a + unat b)"
    using "1.prems" by (simp add: unat_word_ariths unat_octet_pair unat_ucast_u16)
  with "1" show ?case by simp
next
  case (2 acc a)
  have "unat (push_bit 8 (ucast a) :: u16) = 256 * unat a"
    using unat_octet_pair [of a 0] by simp
  with "2" show ?case by (simp add: unat_word_ariths unat_ucast_u16)
qed simp

subsection \<open>Byte order\<close>

lemma unat_htons: "unat (htons n) = 256 * (unat n mod 256) + unat n div 256"
proof -
  have "htons n = push_bit 8 (ucast (ucast n :: u8)) OR ucast (ucast (drop_bit 8 n) :: u8)"
    by (rule bit_word_eqI) (auto simp: htons_bit bit_simps add.commute dest: bit_imp_le_length)
  moreover have "unat (ucast n :: u8) = unat n mod 256"
    by (simp add: unsigned_ucast_eq take_bit_eq_mod)
  moreover have "unat (ucast (drop_bit 8 n) :: u8) = unat n div 256"
  proof -
    have "unat n div 256 < 256" using unat_less_65536 [of n] by (simp add: less_mult_imp_div_less)
    then show ?thesis
      using unat_drop_bit_eq [of 8 n]
      by (simp add: unsigned_ucast_eq take_bit_nat_eq_self drop_bit_eq_div [of 8 "unat n"])
  qed
  ultimately show ?thesis by (simp only: unat_octet_pair)
qed

lemma htons_sum: "unat (htons n) = ones_sum (256 * unat n)"
proof (rule ones_sum_unique)
  have n: "unat n = 256 * (unat n div 256) + unat n mod 256" by simp
  have "256 * unat n = unat (htons n) + 65535 * (unat n div 256)"
    unfolding unat_htons using n by linarith
  then show "unat (htons n) mod 65535 = 256 * unat n mod 65535" by (metis mod_mult_self2)
  show "unat (htons n) = 0 \<longleftrightarrow> 256 * unat n = 0"
    using n by (auto simp: unat_htons)
qed simp

lemma SWAP_sum:
  assumes "unat w \<le> 65535"
  shows "unat (SWAP_BYTES_IN_WORD w) = ones_sum (256 * unat w)"
proof -
  have u: "unat (ucast w :: u16) = unat w"
    using assms by (simp add: unsigned_ucast_eq take_bit_nat_eq_self)
  have "SWAP_BYTES_IN_WORD w = ucast (htons (ucast w))"
    unfolding SWAP_BYTES_IN_WORD_def byte_masks32
    by (rule bit_word_eqI)
      (auto simp: htons_bit bit_push_bit_iff bit_drop_bit_eq bit_and_iff bit_or_iff bit_mask_iff
        bit_ucast_iff add.commute dest: bit_imp_le_length)
  then show ?thesis by (simp add: unat_ucast_u16 htons_sum u)
qed

subsection \<open>One buffer\<close>

lemma lwip_standard_chksum_sum:
  assumes "length data \<le> 65535"
  shows "unat (lwip_standard_chksum data) = ones_sum (bytes_val data)"
proof -
  let ?a = "sum_octets 0 data"
  have "octets_val data \<le> 65535 * 32768"
    using octets_val_bound [of data] assms by (simp add: order_trans)
  then have a: "unat ?a = octets_val data" by (simp add: unat_sum_octets)
  let ?f = "FOLD_U32T ?a"
  define acc where "acc = (if ?f AND 0xffff0000 \<noteq> 0 then FOLD_U32T ?f else ?f)"
  have "unat acc = ones_sum (unat ?a)"
  proof (cases "unat ?f \<le> 65535")
    case True
    then have "unat ?f = ones_sum (unat ?f)" by (simp add: ones_sum_small)
    also have "\<dots> = ones_sum (unat ?a)"
      by (rule ones_sum_cong) (simp_all only: unat_FOLD fold_mod fold_zero)
    finally show ?thesis using True by (simp add: acc_def high_half_zero)
  next
    case False
    then show ?thesis by (simp add: acc_def high_half_zero fold_twice)
  qed
  then have "unat (ucast acc :: u16) = ones_sum (octets_val data)"
    using ones_sum_le [of "octets_val data"]
    by (simp add: unsigned_ucast_eq take_bit_nat_eq_self a del: ones_sum_le)
  moreover have "lwip_standard_chksum data = htons (ucast acc)"
    unfolding lwip_standard_chksum_def Let_def FOLD_U32T_def [symmetric] acc_def ..
  ultimately have "unat (lwip_standard_chksum data) = ones_sum (256 * ones_sum (octets_val data))"
    by (simp add: htons_sum)
  also have "\<dots> = ones_sum (bytes_val data)"
    unfolding ones_sum_mult
    by (rule ones_sum_cong) (simp_all add: octets_val_mod octets_val_zero)
  finally show ?thesis .
qed

lemma unat_not_u16: "unat (NOT (x :: u16)) = 65535 - unat x"
proof -
  have "NOT x = 65535 - x" by (simp add: not_eq_complement)
  moreover have "x \<le> 65535" using unat_u16_le [of x] by (simp add: word_le_nat_alt)
  ultimately show ?thesis by (simp add: unat_sub)
qed

lemma inet_chksum_sum:
  assumes "length data \<le> 65535"
  shows "unat (inet_chksum data) = 65535 - ones_sum (bytes_val data)"
  using lwip_standard_chksum_sum [OF assms] by (simp add: inet_chksum_def unat_not_u16)

text \<open>
  C35: The checksum of a buffer is the complement of the ones' complement sum of
  RFC 1071: the byte string read as a number, modulo 65535, where a non-zero
  multiple of 65535 sums to 65535 and only all zero bytes sum to 0.
\<close>

theorem inet_chksum_spec:
  "length data \<le> 65535 \<Longrightarrow>
   inet_chksum data = of_nat (65535 - (if \<forall>b \<in> set data. b = 0 then 0
      else if bytes_val data mod 65535 = 0 then 65535 else bytes_val data mod 65535))"
proof -
  assume len: "length data \<le> 65535"
  have z: "bytes_val data = 0 \<longleftrightarrow> (\<forall>b \<in> set data. b = 0)"
    by (induction data) (auto simp: unsigned_eq_0_iff)
  have "inet_chksum data = of_nat (unat (inet_chksum data))" by simp
  then show ?thesis
    by (simp only: inet_chksum_sum [OF len] ones_sum_def z)
qed

theorem inet_chksum_spec_witness:
  "inet_chksum [0x45, 0, 0, 1] = of_nat (65535 - (0x45 + 256 * (0 + 256 * (0 + 256 * 1))) mod 65535)"
proof -
  have "length [0x45, 0, 0, 1 :: u8] \<le> 65535" by simp
  from inet_chksum_spec [OF this] show ?thesis by simp
qed

subsection \<open>Chains\<close>

lemma SWAP_le: "unat w \<le> 65535 \<Longrightarrow> unat (SWAP_BYTES_IN_WORD w) \<le> 65535"
  by (simp add: SWAP_sum)

text \<open>
  The loop invariant: after the buffers \<open>done\<close>, the accumulator is the sum of their
  concatenation, shifted by one byte when \<open>swapped\<close> is set, and \<open>swapped\<close> is the
  parity of its length.
\<close>

definition chain_inv :: "u32 \<Rightarrow> bool \<Rightarrow> u8 list \<Rightarrow> bool" where
  "chain_inv acc swapped bs \<longleftrightarrow> swapped = odd (length bs) \<and>
     unat acc = ones_sum (256 ^ length bs * bytes_val bs)"

lemma shift_twice: "ones_sum (256 ^ (a + a) * v) = ones_sum v"
  by (rule ones_sum_cong)
    (simp_all add: pow256_mod mod_mult_left_eq [of "256 ^ (a + a)", symmetric])

lemma chain_inv_step:
  assumes inv: "chain_inv acc swapped bs" and q: "length q \<le> 65535"
  defines "acc' \<equiv> FOLD_U32T (acc + ucast (lwip_standard_chksum q))"
  shows "chain_inv (if odd (length q) then SWAP_BYTES_IN_WORD acc' else acc')
    (swapped \<noteq> odd (length q)) (bs @ q)"
proof -
  let ?L = "256 ^ length bs :: nat"
  have qs: "unat (ucast (lwip_standard_chksum q) :: u32) = ones_sum (bytes_val q)"
    by (simp add: unat_ucast_u16 lwip_standard_chksum_sum q)
  have a: "unat acc = ones_sum (?L * bytes_val bs)" using inv by (simp add: chain_inv_def)
  have le: "unat acc \<le> 65535" "unat (ucast (lwip_standard_chksum q) :: u32) \<le> 65535"
    unfolding qs a by simp_all
  then have sum: "unat (acc + ucast (lwip_standard_chksum q))
      = ones_sum (?L * bytes_val bs) + ones_sum (bytes_val q)"
    using qs a ones_sum_le [of "?L * bytes_val bs"] ones_sum_le [of "bytes_val q"]
    by (simp add: unat_word_ariths del: ones_sum_le)
  have "unat (acc + ucast (lwip_standard_chksum q)) \<le> 131070"
    unfolding sum using ones_sum_le [of "?L * bytes_val bs"] ones_sum_le [of "bytes_val q"]
    by linarith
  then have "unat acc' = ones_sum (ones_sum (?L * bytes_val bs) + ones_sum (bytes_val q))"
    unfolding acc'_def by (simp add: fold_once sum)
  also have "\<dots> = ones_sum (?L * bytes_val bs + bytes_val q)"
    by (metis ones_sum_add add.commute)
  finally have acc': "unat acc' = ones_sum (?L * bytes_val bs + bytes_val q)" .
  have "ones_sum (?L * bytes_val bs + bytes_val q)
      = ones_sum (?L * bytes_val bs + 256 ^ (length bs + length bs) * bytes_val q)"
    using ones_sum_add [of "bytes_val q" "?L * bytes_val bs"]
      ones_sum_add [of "256 ^ (length bs + length bs) * bytes_val q" "?L * bytes_val bs"]
    by (simp only: shift_twice add.commute)
  also have "?L * bytes_val bs + 256 ^ (length bs + length bs) * bytes_val q = ?L * bytes_val (bs @ q)"
    by (simp add: bytes_val_append power_add algebra_simps)
  finally have acc'': "unat acc' = ones_sum (?L * bytes_val (bs @ q))" using acc' by simp
  have swap: "unat (SWAP_BYTES_IN_WORD acc') = ones_sum (256 * (?L * bytes_val (bs @ q)))"
    by (subst SWAP_sum) (simp_all add: acc'' ones_sum_mult)
  have par: "ones_sum (256 ^ k * v) = ones_sum (256 ^ (k mod 2) * v)" for k v
    by (rule ones_sum_cong)
      (simp_all add: mod_mult_left_eq [of "256 ^ k", symmetric] pow256_mod
        mod_mult_left_eq [of "256 ^ (k mod 2)", symmetric] even_iff_mod_2_eq_zero)
  show ?thesis
  proof (cases "odd (length q)")
    case True
    then have "Suc (length bs) mod 2 = (length bs + length q) mod 2" by presburger
    then have "ones_sum (256 ^ Suc (length bs) * v) = ones_sum (256 ^ (length bs + length q) * v)" for v
      by (metis par)
    then show ?thesis using inv swap True by (simp add: chain_inv_def mult.assoc)
  next
    case False
    then have "length bs mod 2 = (length bs + length q) mod 2" by presburger
    then have "ones_sum (256 ^ length bs * v) = ones_sum (256 ^ (length bs + length q) * v)" for v
      by (metis par)
    then show ?thesis using inv acc'' False by (simp add: chain_inv_def)
  qed
qed

lemma chksum_chain_inv:
  assumes "chain_inv acc swapped bs" "\<forall>q \<in> set qs. length q \<le> 65535"
  shows "case chksum_chain acc swapped qs of (acc', swapped') \<Rightarrow>
    chain_inv acc' swapped' (bs @ concat qs)"
  using assms
proof (induction qs arbitrary: acc swapped bs)
  case (Cons q qs)
  let ?acc = "FOLD_U32T (acc + ucast (lwip_standard_chksum q))"
  let ?acc' = "if odd (length q) then SWAP_BYTES_IN_WORD ?acc else ?acc"
  have "chain_inv ?acc' (swapped \<noteq> odd (length q)) (bs @ q)"
    by (rule chain_inv_step) (use Cons.prems in simp_all)
  from Cons.IH [OF this] Cons.prems
  show ?case by (auto simp: Let_def odd_iff_mod_2_eq_one split: if_splits)
qed simp

definition chain_sum :: "u8 list list \<Rightarrow> u32" where
  "chain_sum p = (let (acc, swapped) = chksum_chain 0 False p in
     if swapped then SWAP_BYTES_IN_WORD acc else acc)"

lemma chain_sum:
  assumes "\<forall>q \<in> set p. length q \<le> 65535"
  shows "unat (chain_sum p) = ones_sum (bytes_val (concat p))"
proof -
  obtain acc swapped where c: "chksum_chain 0 False p = (acc, swapped)" by force
  have "chain_inv 0 False []" by (simp add: chain_inv_def)
  from chksum_chain_inv [OF this assms] c
  have inv: "chain_inv acc swapped (concat p)" by simp
  let ?n = "length (concat p)" and ?v = "bytes_val (concat p)"
  show ?thesis
  proof (cases "even ?n")
    case True
    then obtain k where "?n = k + k" by (auto elim!: evenE simp: mult_2)
    with inv c True shift_twice [of k ?v] show ?thesis
      by (simp add: chain_sum_def chain_inv_def del: length_concat)
  next
    case False
    with inv have a: "swapped" "unat acc = ones_sum (256 ^ ?n * ?v)"
      by (simp_all add: chain_inv_def)
    from False obtain k where "Suc ?n = k + k" by (metis even_Suc evenE mult_2)
    then have "ones_sum (256 * (256 ^ ?n * ?v)) = ones_sum ?v"
      using shift_twice [of k ?v] by (metis mult.assoc power_Suc)
    then show ?thesis using a c
      by (simp add: chain_sum_def SWAP_sum ones_sum_mult del: length_concat)
  qed
qed

lemma ucast_not_low: "ucast (NOT (w AND 0xffff) :: u32) = (NOT (ucast w) :: u16)"
proof -
  have m: "(0xffff :: u32) = mask 16" by (simp add: mask_eq_exp_minus_1)
  show ?thesis unfolding m
    by (rule bit_word_eqI) (auto simp: bit_simps)
qed

lemma inet_chksum_pbuf_sum:
  assumes "\<forall>q \<in> set p. length q \<le> 65535"
  shows "unat (inet_chksum_pbuf p) = 65535 - ones_sum (bytes_val (concat p))"
proof -
  have "inet_chksum_pbuf p = NOT (ucast (chain_sum p))"
    unfolding inet_chksum_pbuf_def chain_sum_def Let_def ucast_not_low
    by (cases "chksum_chain 0 False p") (simp only: prod.case)
  then show ?thesis
    using ones_sum_le [of "bytes_val (concat p)"]
    by (simp add: unat_not_u16 unsigned_ucast_eq chain_sum [OF assms] take_bit_nat_eq_self
        del: ones_sum_le)
qed

lemma length_le_concat: "q \<in> set p \<Longrightarrow> length q \<le> length (concat p)"
  by (induction p) auto

text \<open>
  C27: However a datagram is split over a pbuf chain, odd lengths included, the
  checksum over the chain is the checksum of the contiguous bytes.
\<close>

theorem inet_chksum_pbuf_concat:
  assumes "length (concat p) \<le> 65535"
  shows "inet_chksum_pbuf p = inet_chksum (concat p)"
proof -
  have "\<forall>q \<in> set p. length q \<le> 65535"
    using assms length_le_concat order_trans by blast
  then show ?thesis
    using inet_chksum_sum [OF assms] by (simp add: word_unat_eq_iff inet_chksum_pbuf_sum)
qed

theorem inet_chksum_pbuf_concat_witness:
  "inet_chksum_pbuf [[1, 2, 3], [], [4], [5, 6]] = inet_chksum [1, 2, 3, 4, 5, 6]"
  using inet_chksum_pbuf_concat [of "[[1, 2, 3], [], [4], [5, 6]]"] by simp

text \<open>The checksum as it is stored in a little-endian memory.\<close>

definition u16_bytes :: "u16 \<Rightarrow> u8 list" where
  "u16_bytes w = [ucast w, ucast (drop_bit 8 w)]"

lemma length_u16_bytes [simp]: "length (u16_bytes w) = 2"
  by (simp add: u16_bytes_def)

lemma unat_low_byte: "unat (ucast (n :: u16) :: u8) = unat n mod 256"
  by (simp add: unsigned_ucast_eq take_bit_eq_mod)

lemma unat_high_byte: "unat (ucast (drop_bit 8 (n :: u16)) :: u8) = unat n div 256"
proof -
  have "unat n div 256 < 256" using unat_less_65536 [of n] by (simp add: less_mult_imp_div_less)
  then show ?thesis
    using unat_drop_bit_eq [of 8 n]
    by (simp add: unsigned_ucast_eq take_bit_nat_eq_self drop_bit_eq_div [of 8 "unat n"])
qed

lemma bytes_val_u16: "bytes_val (u16_bytes w) = unat w"
  using unat_low_byte [of w] unat_high_byte [of w]
  by (simp only: u16_bytes_def bytes_val.simps) simp

lemma even_pow256: "even k \<Longrightarrow> (a + 256 ^ k * b) mod 65535 = (a + b) mod (65535 :: nat)"
proof -
  assume "even k"
  then have "(256 ^ k * b) mod 65535 = (1 * b) mod (65535 :: nat)"
    by (metis mod_mult_left_eq pow256_mod)
  then show ?thesis by (metis mod_add_right_eq mult.left_neutral)
qed

text \<open>
  A header whose checksum field, at an even offset, is cleared, checksummed and
  filled with the result verifies: the receiver's checksum over all of it is 0.
\<close>

theorem inet_chksum_verifies:
  assumes "length (hdr @ [0, 0] @ data) \<le> 65535" "even (length hdr)"
  shows "inet_chksum (hdr @ u16_bytes (inet_chksum (hdr @ [0, 0] @ data)) @ data) = 0"
proof -
  let ?c = "inet_chksum (hdr @ [0, 0] @ data)"
  let ?v = "bytes_val (hdr @ [0, 0] @ data)"
  let ?m = "hdr @ u16_bytes ?c @ data"
  have c: "unat ?c = 65535 - ones_sum ?v" by (rule inet_chksum_sum) (use assms in simp)
  have m: "bytes_val ?m = ?v + 256 ^ length hdr * unat ?c"
    by (simp add: bytes_val_append bytes_val_u16 algebra_simps)
  have "(?v + unat ?c) mod 65535 = (ones_sum ?v + unat ?c) mod 65535"
    using mod_add_left_eq [of ?v 65535 "unat ?c"] mod_add_left_eq [of "ones_sum ?v" 65535 "unat ?c"]
    by (simp only: ones_sum_mod)
  also have "ones_sum ?v + unat ?c = 65535" using ones_sum_le [of ?v] c by linarith
  finally have z: "bytes_val ?m mod 65535 = 0"
    unfolding m even_pow256 [OF assms(2)] by simp
  have "bytes_val ?m \<noteq> 0"
  proof
    assume "bytes_val ?m = 0"
    then have "?v = 0" "unat ?c = 0" unfolding m by simp_all
    then show False using c by (simp add: ones_sum_def)
  qed
  with z have "ones_sum (bytes_val ?m) = 65535" by (simp add: ones_sum_def)
  then have "unat (inet_chksum ?m) = 0" using assms by (subst inet_chksum_sum) simp_all
  then show ?thesis by (simp add: unsigned_eq_0_iff)
qed

theorem inet_chksum_verifies_witness:
  "inet_chksum ([0x45, 0] @ u16_bytes (inet_chksum ([0x45, 0] @ [0, 0] @ [7])) @ [7]) = 0"
  by (rule inet_chksum_verifies) simp_all

subsection \<open>The pseudo header of UDP and TCP\<close>

definition pseudo_header :: "u32 \<Rightarrow> u32 \<Rightarrow> u8 \<Rightarrow> u16 \<Rightarrow> u8 list" where
  "pseudo_header src dest proto len =
     mem_bytes src @ mem_bytes dest @ [0, proto] @ u16_bytes (htons len)"

lemma unat_low_half: "unat (w AND 0xffff) = unat (w :: u32) mod 65536"
proof -
  have "w AND 0xffff = take_bit 16 w" by (simp add: take_bit_eq_mask mask_eq_exp_minus_1)
  then show ?thesis
    using unsigned_take_bit_eq [of 16 w, where 'a = nat] by (simp add: take_bit_eq_mod [of 16 "unat w"])
qed

lemma unat_high_half: "unat (drop_bit 16 w AND 0xffff) = unat (w :: u32) div 65536"
proof -
  have "unat w < 4294967296" using unsigned_less [of w, where 'a = nat] by simp
  then have "unat w div 65536 < 65536" by (simp add: less_mult_imp_div_less)
  then show ?thesis
    using unat_drop_bit_eq [of 16 w] by (simp only: unat_low_half drop_bit_eq_div) simp
qed

lemma bytes_val_mem_bytes: "bytes_val (mem_bytes w) = unat w"
proof -
  have k: "unat (ucast (drop_bit k w) :: u8) = unat w div 2 ^ k mod 256" for k
    by (simp only: unsigned_ucast_eq unat_drop_bit_eq) (simp add: take_bit_eq_mod drop_bit_eq_div)
  have "unat w < 4294967296" using unsigned_less [of w, where 'a = nat] by simp
  then have "unat w div 16777216 < 256" by (simp add: less_mult_imp_div_less)
  then have "unat w mod 256 + 256 * (unat w div 256 mod 256 + 256 * (unat w div 65536 mod 256
      + 256 * (unat w div 16777216 mod 256))) = unat w"
    by (simp add: div_mult2_eq [of _ 256 256, simplified] div_mult2_eq [of _ 256 65536, simplified])
  then show ?thesis
    using k [of 0] k [of 8] k [of 16] k [of 24]
    by (simp only: mem_bytes_def bytes_val.simps) simp
qed

lemma proto_bytes: "unat (ucast (htons (ucast p)) :: u32) = bytes_val [0, p :: u8]"
  by (simp add: unat_ucast_u16 unat_htons unat_ucast_u8_u16)

lemma pseudo_header_sum:
  "(unat src mod 65536 + unat src div 65536 + unat dest mod 65536 + unat dest div 65536
     + bytes_val [0, proto] + unat (htons len)) mod 65535
   = bytes_val (pseudo_header src dest proto len) mod 65535"
  (is "?l mod _ = _")
proof -
  have h: "bytes_val (pseudo_header src dest proto len)
     = unat src + 4294967296 * (unat dest + 4294967296 * (bytes_val [0, proto] + 65536 * unat (htons len)))"
    by (simp add: pseudo_header_def bytes_val_append bytes_val_mem_bytes bytes_val_u16)
  have arith: "ls + 65536 * hs + 4294967296 * (ld + 65536 * hd + 4294967296 * (p + 65536 * l))
    = ls + hs + ld + hd + p + l + 65535 * (hs + hd
      + 65537 * (ld + 65536 * hd + 4294967296 * (p + 65536 * l)) + 65537 * (p + 65536 * l) + l)"
    for ls hs ld hd p l :: nat
    by simp
  have s: "unat w = unat w mod 65536 + 65536 * (unat w div 65536)" for w :: u32 by simp
  have "\<exists>k. bytes_val (pseudo_header src dest proto len) = ?l + 65535 * k"
    unfolding h by (subst s [of src], subst s [of dest], subst arith) blast
  then show ?thesis by (auto simp only: mod_mult_self2)
qed

lemma pseudo_header_zero:
  "unat src mod 65536 + unat src div 65536 + unat dest mod 65536 + unat dest div 65536
     + bytes_val [0, proto] + unat (htons len) = 0 \<longleftrightarrow>
   bytes_val (pseudo_header src dest proto len) = 0"
proof -
  have z: "n mod 65536 + n div 65536 = 0 \<longleftrightarrow> n = 0" for n :: nat
    using fold_zero [of n] by (simp only: add.commute)
  show ?thesis
    using z [of "unat src"] z [of "unat dest"]
    by (auto simp: pseudo_header_def bytes_val_append bytes_val_mem_bytes bytes_val_u16)
qed

lemma unat_sum_list:
  "sum_list (map unat ws) < 4294967296 \<Longrightarrow> unat (sum_list (ws :: u32 list)) = sum_list (map unat ws)"
  by (induction ws) (simp_all add: unat_word_ariths)

lemma unat_sum_small:
  assumes "\<forall>w \<in> set ws. unat (w :: u32) \<le> 65535" "length ws \<le> 65536"
  shows "unat (sum_list ws) = sum_list (map unat ws)"
proof -
  have "sum_list (map unat ws) \<le> 65535 * length ws" using assms(1) by (induction ws) auto
  with assms(2) show ?thesis by (intro unat_sum_list) simp
qed

lemma inet_chksum_pseudo_sum:
  assumes "\<forall>q \<in> set p. length q \<le> 65535"
  shows "unat (inet_chksum_pseudo p src dest proto len)
    = 65535 - ones_sum (bytes_val (pseudo_header src dest proto len) + bytes_val (concat p))"
proof -
  let ?h = "unat src mod 65536 + unat src div 65536 + unat dest mod 65536 + unat dest div 65536
     + bytes_val [0, proto] + unat (htons len)"
  define acc where "acc = chain_sum p + (src AND 0xffff) + (drop_bit 16 src AND 0xffff)
     + (dest AND 0xffff) + (drop_bit 16 dest AND 0xffff) + ucast (htons (ucast proto)) + ucast (htons len)"
  have code: "inet_chksum_pseudo p src dest proto len = NOT (ucast (FOLD_U32T (FOLD_U32T acc)))"
    unfolding inet_chksum_pseudo_def chain_sum_def Let_def ucast_not_low acc_def
    by (cases "chksum_chain 0 False p") (simp only: prod.case)
  note terms = chain_sum [OF assms] unat_low_half [of src] unat_high_half [of src]
    unat_low_half [of dest] unat_high_half [of dest] proto_bytes [of proto] unat_ucast_u16 [of "htons len"]
  have low: "unat (w AND 0xffff) \<le> 65535" for w :: u32
    unfolding unat_low_half using mod_less_divisor [of 65536 "unat w"] by linarith
  have small: "unat (ucast x :: u32) \<le> 65535" for x :: u16 unfolding unat_ucast_u16 by simp
  have chain: "unat (chain_sum p) \<le> 65535" unfolding terms by simp
  let ?ws = "[chain_sum p, src AND 0xffff, drop_bit 16 src AND 0xffff, dest AND 0xffff,
     drop_bit 16 dest AND 0xffff, ucast (htons (ucast proto)), ucast (htons len)]"
  have "acc = sum_list ?ws" unfolding acc_def by simp
  moreover have "\<forall>w \<in> set ?ws. unat w \<le> 65535"
    using low small chain by auto
  ultimately have "unat acc = sum_list (map unat ?ws)" using unat_sum_small [of ?ws] by simp
  then have acc: "unat acc = ones_sum (bytes_val (concat p)) + ?h"
    by (simp only: list.map sum_list.Cons sum_list.Nil terms)
  have "ones_sum (unat acc) = ones_sum (bytes_val (pseudo_header src dest proto len) + bytes_val (concat p))"
  proof (rule ones_sum_cong)
    let ?c = "bytes_val (concat p)"
    have "unat acc mod 65535 = (ones_sum ?c mod 65535 + ?h mod 65535) mod 65535"
      unfolding acc by (rule mod_add_eq [symmetric])
    then show "unat acc mod 65535
        = (bytes_val (pseudo_header src dest proto len) + ?c) mod 65535"
      unfolding pseudo_header_sum ones_sum_mod
      by (simp only: mod_add_eq add.commute [of ?c])
    show "unat acc = 0 \<longleftrightarrow> bytes_val (pseudo_header src dest proto len) + bytes_val (concat p) = 0"
      unfolding acc by (simp only: add_is_0 ones_sum_zero pseudo_header_zero [symmetric] conj_ac)
  qed
  then have "unat (ucast (FOLD_U32T (FOLD_U32T acc)) :: u16)
      = ones_sum (bytes_val (pseudo_header src dest proto len) + bytes_val (concat p))"
    using ones_sum_le [of "unat acc"]
    by (simp add: unsigned_ucast_eq fold_twice take_bit_nat_eq_self del: ones_sum_le)
  then show ?thesis unfolding code unat_not_u16 by simp
qed

text \<open>
  The UDP and TCP checksum over a pbuf chain is the checksum of one contiguous
  buffer: source address, destination address, a zero byte, the protocol, the length
  in network order, and then the segment.
\<close>

theorem inet_chksum_pseudo_concat:
  assumes "length (pseudo_header src dest proto len @ concat p) \<le> 65535"
  shows "inet_chksum_pseudo p src dest proto len
    = inet_chksum (pseudo_header src dest proto len @ concat p)"
proof -
  let ?h = "pseudo_header src dest proto len"
  have "length (concat p) \<le> 65535" using assms by simp
  then have p: "\<forall>q \<in> set p. length q \<le> 65535"
    using length_le_concat order_trans by blast
  have "length ?h = 12" by (simp add: pseudo_header_def)
  then have e: "even (length ?h)" by simp
  have "ones_sum (bytes_val (?h @ concat p)) = ones_sum (bytes_val ?h + bytes_val (concat p))"
    unfolding bytes_val_append by (rule ones_sum_cong) (simp_all add: even_pow256 [OF e])
  then show ?thesis
    using inet_chksum_sum [OF assms] by (simp add: word_unat_eq_iff inet_chksum_pseudo_sum [OF p])
qed

theorem inet_chksum_pseudo_concat_witness:
  "inet_chksum_pseudo [[1, 2, 3], [4]] 0x0601a8c0 0x0101a8c0 17 4
    = inet_chksum (pseudo_header 0x0601a8c0 0x0101a8c0 17 4 @ concat [[1, 2, 3], [4]])"
  by (rule inet_chksum_pseudo_concat) (simp add: pseudo_header_def)

lemma mod_add_cancel_left: "(c + a) mod m = (c + b) mod m \<longleftrightarrow> a mod m = b mod (m :: nat)"
proof
  assume eq: "(c + a) mod m = (c + b) mod m"
  show "a mod m = b mod m"
  proof (cases m)
    case (Suc k)
    have add: "c + x + k * c = x + m * c" for x using Suc by simp
    have "(c + a + k * c) mod m = (c + b + k * c) mod m" by (rule mod_add_cong [OF eq refl])
    then show ?thesis unfolding add by (simp only: mod_mult_self2)
  qed (use eq in simp)
next
  assume "a mod m = b mod m"
  then show "(c + a) mod m = (c + b) mod m" by (rule mod_add_cong [OF refl])
qed

text \<open>
  A single corrupted byte never goes unnoticed: two buffers that differ in one
  byte have different checksums.
\<close>

theorem inet_chksum_detects_byte:
  assumes "length (xs @ [a] @ ys) \<le> 65535"
  shows "inet_chksum (xs @ [a] @ ys) = inet_chksum (xs @ [b] @ ys) \<longleftrightarrow> a = b"
proof
  let ?v = "\<lambda>c. bytes_val (xs @ [c] @ ys)"
  let ?k = "if even (length xs) then 1 else 256 :: nat"
  assume "inet_chksum (xs @ [a] @ ys) = inet_chksum (xs @ [b] @ ys)"
  moreover have s: "unat (inet_chksum (xs @ [c] @ ys)) = 65535 - ones_sum (?v c)" for c
    using assms by (intro inet_chksum_sum) simp
  ultimately have "65535 - ones_sum (?v a) = 65535 - ones_sum (?v b)" by metis
  then have "ones_sum (?v a) = ones_sum (?v b)"
    using ones_sum_le [of "?v a"] ones_sum_le [of "?v b"] by linarith
  then have eq: "?v a mod 65535 = ?v b mod 65535" by (metis ones_sum_mod)
  have v: "?v c = bytes_val (xs @ [0] @ ys) + 256 ^ length xs * unat c" for c
    by (simp add: bytes_val_append algebra_simps)
  have "(256 ^ length xs * unat a) mod 65535 = (256 ^ length xs * unat b) mod 65535"
    using eq unfolding v [of a] v [of b] mod_add_cancel_left .
  moreover have "(256 ^ length xs * n) mod 65535 = (?k * n) mod (65535 :: nat)" for n
    using mod_mult_left_eq [of "256 ^ length xs :: nat" 65535 n] by (simp only: pow256_mod)
  ultimately have "(?k * unat a) mod 65535 = (?k * unat b) mod 65535" by simp
  moreover have "?k * unat c < 65535" for c :: u8
    using unat_less_256 [of c] by (auto simp del: unat_less_256)
  ultimately have "?k * unat a = ?k * unat b" by simp
  then show "a = b" by (simp add: word_unat_eq_iff split: if_splits)
qed simp

theorem inet_chksum_detects_byte_witness:
  "inet_chksum ([1, 2] @ [3] @ [4]) \<noteq> inet_chksum ([1, 2] @ [5] @ [4])"
proof -
  have "length ([1, 2] @ [3 :: u8] @ [4]) \<le> 65535" by simp
  from inet_chksum_detects_byte [OF this, of 5] show ?thesis by simp
qed

end
