(* ===== verification/Eeprom.thy ===== *)
theory Eeprom
  imports Prelude
begin

text \<open>
  The AT24C02 driver, \<open>Project/src/i2c_ee.c\<close>.  \<open>pBuffer\<close> points into the RAM, a
  function from addresses to bytes; \<open>I2C_EE_BufferWrite\<close> gives the sequence of page
  writes and standby waits it makes, and each of those the sequence of operations on
  the I2C peripheral.  The memory chip is not code of the repository: what it does with
  a page write and a sequential read are the parameters \<open>wr\<close> and \<open>rd\<close>, which
  \<open>page_device\<close> and \<open>read_device\<close> constrain to what its data sheet says.
\<close>

section \<open>Operations on the bus\<close>

datatype i2c_event = MASTER_MODE_SELECT | MASTER_TRANSMITTER_MODE_SELECTED
  | MASTER_RECEIVER_MODE_SELECTED | MASTER_BYTE_TRANSMITTED

text \<open>\<open>I2C_WAIT\<close> is a busy wait for an event, \<open>I2C_WAIT_IDLE\<close> that for the BUSY flag to clear.\<close>

datatype i2c_op =
    I2C_START | I2C_STOP | I2C_WAIT i2c_event | I2C_WAIT_IDLE
  | I2C_Transmitter u16 | I2C_Receiver u16
  | I2C_SendData u8 | I2C_ReceiveData u8 | I2C_Ack bool | I2C_CmdEnable
  | I2C_ReadSR1 | I2C_ClearAF

definition EEPROM_ADDRESS :: u16 where "EEPROM_ADDRESS = 0xA0"
definition I2C_PageSize :: nat where "I2C_PageSize = 8"

definition I2C_EE_ByteWrite :: "(nat \<Rightarrow> u8) \<Rightarrow> nat \<Rightarrow> u8 \<Rightarrow> i2c_op list" where
  "I2C_EE_ByteWrite ram pBuffer WriteAddr =
     [I2C_START, I2C_WAIT MASTER_MODE_SELECT,
      I2C_Transmitter EEPROM_ADDRESS, I2C_WAIT MASTER_TRANSMITTER_MODE_SELECTED,
      I2C_SendData WriteAddr, I2C_WAIT MASTER_BYTE_TRANSMITTED,
      I2C_SendData (ram pBuffer), I2C_WAIT MASTER_BYTE_TRANSMITTED,
      I2C_STOP]"

fun send_bytes :: "(nat \<Rightarrow> u8) \<Rightarrow> nat \<Rightarrow> nat \<Rightarrow> i2c_op list" where
  "send_bytes ram pBuffer 0 = []"
| "send_bytes ram pBuffer (Suc n) =
     [I2C_SendData (ram pBuffer), I2C_WAIT MASTER_BYTE_TRANSMITTED]
     @ send_bytes ram (pBuffer + 1) n"

definition I2C_EE_PageWrite :: "(nat \<Rightarrow> u8) \<Rightarrow> nat \<Rightarrow> u8 \<Rightarrow> u8 \<Rightarrow> i2c_op list" where
  "I2C_EE_PageWrite ram pBuffer WriteAddr NumByteToWrite =
     [I2C_WAIT_IDLE, I2C_START, I2C_WAIT MASTER_MODE_SELECT,
      I2C_Transmitter EEPROM_ADDRESS, I2C_WAIT MASTER_TRANSMITTER_MODE_SELECTED,
      I2C_SendData WriteAddr, I2C_WAIT MASTER_BYTE_TRANSMITTED]
     @ send_bytes ram pBuffer (unat NumByteToWrite) @ [I2C_STOP]"

text \<open>
  The standby wait polls until the chip acknowledges its address: the bit 1 (ADDR) of
  the values of SR1 that the end of each round reads.  It has not returned when the
  reads known so far have all been without it.
\<close>

fun standby_poll :: "u16 list \<Rightarrow> i2c_op list option" where
  "standby_poll [] = None"
| "standby_poll (sr1 # reads) =
     (let round = [I2C_START, I2C_ReadSR1, I2C_Transmitter EEPROM_ADDRESS, I2C_ReadSR1] in
      if sr1 AND 0x0002 \<noteq> 0 then Some round else map_option (append round) (standby_poll reads))"

definition I2C_EE_WaitEepromStandbyState :: "u16 list \<Rightarrow> i2c_op list option" where
  "I2C_EE_WaitEepromStandbyState reads =
     map_option (\<lambda>ops. ops @ [I2C_ClearAF, I2C_STOP]) (standby_poll reads)"

section \<open>Writing a buffer\<close>

datatype ee_call = PageWrite nat u8 u8 | WaitEepromStandbyState

text \<open>The loop \<open>while(NumOfPage--)\<close>: its calls, the pointer and the address after it.\<close>

fun page_loop :: "nat \<Rightarrow> nat \<Rightarrow> u8 \<Rightarrow> ee_call list \<times> nat \<times> u8" where
  "page_loop 0 pBuffer WriteAddr = ([], pBuffer, WriteAddr)"
| "page_loop (Suc NumOfPage) pBuffer WriteAddr =
     (let (calls, p, a) = page_loop NumOfPage (pBuffer + I2C_PageSize) (WriteAddr + of_nat I2C_PageSize)
      in (PageWrite pBuffer WriteAddr (of_nat I2C_PageSize) # WaitEepromStandbyState # calls, p, a))"

definition pages_and_rest :: "nat \<Rightarrow> u8 \<Rightarrow> u8 \<Rightarrow> u8 \<Rightarrow> ee_call list" where
  "pages_and_rest pBuffer WriteAddr NumOfPage NumOfSingle =
     (let (calls, p, a) = page_loop (unat NumOfPage) pBuffer WriteAddr
      in calls @ (if NumOfSingle \<noteq> 0 then [PageWrite p a NumOfSingle, WaitEepromStandbyState] else []))"

definition I2C_EE_BufferWrite :: "nat \<Rightarrow> u8 \<Rightarrow> u16 \<Rightarrow> ee_call list" where
  "I2C_EE_BufferWrite pBuffer WriteAddr NumByteToWrite =
     (let Addr = WriteAddr mod of_nat I2C_PageSize;
          count = of_nat I2C_PageSize - Addr;
          NumOfPage = ucast (NumByteToWrite div of_nat I2C_PageSize) :: u8;
          NumOfSingle = ucast (NumByteToWrite mod of_nat I2C_PageSize) :: u8
      in if Addr = 0
         then (if NumOfPage = 0
               then [PageWrite pBuffer WriteAddr NumOfSingle, WaitEepromStandbyState]
               else pages_and_rest pBuffer WriteAddr NumOfPage NumOfSingle)
         else (if NumOfPage = 0
               then [PageWrite pBuffer WriteAddr NumOfSingle, WaitEepromStandbyState]
               else (let NumByteToWrite = NumByteToWrite - ucast count;
                         NumOfPage = ucast (NumByteToWrite div of_nat I2C_PageSize);
                         NumOfSingle = ucast (NumByteToWrite mod of_nat I2C_PageSize)
                     in if count \<noteq> 0
                        then [PageWrite pBuffer WriteAddr count, WaitEepromStandbyState]
                          @ pages_and_rest (pBuffer + unat count) (WriteAddr + count) NumOfPage NumOfSingle
                        else pages_and_rest pBuffer WriteAddr NumOfPage NumOfSingle)))"

section \<open>Reading and comparing\<close>

text \<open>
  The receive loop, on the outcomes of its \<open>I2C_CheckEvent\<close> polls and the bytes that
  arrive.  Every round with one byte to go refuses the acknowledge and asks for the
  STOP, also the rounds that find no byte yet.
\<close>

fun read_loop :: "nat \<Rightarrow> bool list \<Rightarrow> u8 list \<Rightarrow> (i2c_op list \<times> u8 list) option" where
  "read_loop 0 polls rx = Some ([], [])"
| "read_loop (Suc n) [] rx = None"
| "read_loop (Suc n) (received # polls) rx =
     (let last_byte = (if Suc n = 1 then [I2C_Ack False, I2C_STOP] else []) in
      if received
      then (case rx of [] \<Rightarrow> None
            | b # rx' \<Rightarrow> map_option (\<lambda>(ops, bs). (last_byte @ I2C_ReceiveData b # ops, b # bs))
                          (read_loop n polls rx'))
      else map_option (\<lambda>(ops, bs). (last_byte @ ops, bs)) (read_loop (Suc n) polls rx))"

definition I2C_EE_BufferRead :: "u8 \<Rightarrow> u16 \<Rightarrow> bool list \<Rightarrow> u8 list \<Rightarrow> (i2c_op list \<times> u8 list) option" where
  "I2C_EE_BufferRead ReadAddr NumByteToRead polls rx =
     map_option (\<lambda>(ops, bs).
       ([I2C_WAIT_IDLE, I2C_START, I2C_WAIT MASTER_MODE_SELECT,
         I2C_Transmitter EEPROM_ADDRESS, I2C_WAIT MASTER_TRANSMITTER_MODE_SELECTED,
         I2C_CmdEnable, I2C_SendData ReadAddr, I2C_WAIT MASTER_BYTE_TRANSMITTED,
         I2C_START, I2C_WAIT MASTER_MODE_SELECT,
         I2C_Receiver EEPROM_ADDRESS, I2C_WAIT MASTER_RECEIVER_MODE_SELECTED]
        @ ops @ [I2C_Ack True], bs))
     (read_loop (unat NumByteToRead) polls rx)"

datatype TestStatus = FAILED | PASSED

fun Buffercmp :: "(nat \<Rightarrow> u8) \<Rightarrow> nat \<Rightarrow> nat \<Rightarrow> nat \<Rightarrow> TestStatus" where
  "Buffercmp ram p1 p2 0 = PASSED"
| "Buffercmp ram p1 p2 (Suc n) = (if ram p1 \<noteq> ram p2 then FAILED else Buffercmp ram (p1 + 1) (p2 + 1) n)"

section \<open>The chip, and what the calls leave in it\<close>

type_synonym chip = "u8 \<Rightarrow> u8"

text \<open>A page write that stays inside its page stores its bytes at consecutive addresses.\<close>

definition page_device :: "(u8 \<Rightarrow> u8 list \<Rightarrow> chip \<Rightarrow> chip) \<Rightarrow> bool" where
  "page_device wr \<longleftrightarrow> (\<forall>a bs m. unat a mod I2C_PageSize + length bs \<le> I2C_PageSize \<longrightarrow>
     wr a bs m = (\<lambda>b. if unat a \<le> unat b \<and> unat b < unat a + length bs
                      then bs ! (unat b - unat a) else m b))"

text \<open>A sequential read delivers consecutive bytes, starting over after the last address.\<close>

definition read_device :: "(chip \<Rightarrow> u8 \<Rightarrow> nat \<Rightarrow> u8 list) \<Rightarrow> bool" where
  "read_device rd \<longleftrightarrow> (\<forall>m a n. rd m a n = map (\<lambda>i. m (a + of_nat i)) [0..<n])"

definition sent :: "(nat \<Rightarrow> u8) \<Rightarrow> nat \<Rightarrow> nat \<Rightarrow> u8 list" where
  "sent ram p n = map ram [p..<p + n]"

fun ee_run :: "(u8 \<Rightarrow> u8 list \<Rightarrow> chip \<Rightarrow> chip) \<Rightarrow> (nat \<Rightarrow> u8) \<Rightarrow> ee_call list \<Rightarrow> chip \<Rightarrow> chip" where
  "ee_run wr ram [] m = m"
| "ee_run wr ram (PageWrite p a n # calls) m = ee_run wr ram calls (wr a (sent ram p (unat n)) m)"
| "ee_run wr ram (WaitEepromStandbyState # calls) m = ee_run wr ram calls m"

fun stays_in_page :: "ee_call \<Rightarrow> bool" where
  "stays_in_page (PageWrite p a n) \<longleftrightarrow> unat a mod I2C_PageSize + unat n \<le> I2C_PageSize"
| "stays_in_page WaitEepromStandbyState \<longleftrightarrow> True"

definition stored :: "chip \<Rightarrow> nat \<Rightarrow> (nat \<Rightarrow> u8) \<Rightarrow> nat \<Rightarrow> nat \<Rightarrow> chip" where
  "stored m a ram p n = (\<lambda>b. if a \<le> unat b \<and> unat b < a + n then ram (p + (unat b - a)) else m b)"

lemma send_bytes_sent:
  "send_bytes ram p n = concat (map (\<lambda>b. [I2C_SendData b, I2C_WAIT MASTER_BYTE_TRANSMITTED]) (sent ram p n))"
  by (induction n arbitrary: p) (simp_all add: sent_def upt_conv_Cons del: upt_Suc)

lemma ee_run_append: "ee_run wr ram (xs @ ys) m = ee_run wr ram ys (ee_run wr ram xs m)"
  by (induction wr ram xs m rule: ee_run.induct) auto

lemma stored_zero [simp]: "stored m a ram p 0 = m"
  by (auto simp: stored_def fun_eq_iff)

lemma stored_stored: "stored (stored m a ram p n) (a + n) ram (p + n) k = stored m a ram p (n + k)"
  by (auto simp: stored_def fun_eq_iff)

lemma page_write_stored:
  assumes "page_device wr" "unat a mod I2C_PageSize + n \<le> I2C_PageSize"
  shows "wr a (sent ram p n) m = stored m (unat a) ram p n"
  using assms unfolding page_device_def
  by (auto simp: stored_def sent_def fun_eq_iff)

lemma page_loop_run:
  assumes "page_device wr" "unat a mod I2C_PageSize = 0" "unat a + I2C_PageSize * k \<le> 256"
  shows "case page_loop k p a of (calls, p', a') \<Rightarrow>
    list_all stays_in_page calls \<and> ee_run wr ram calls m = stored m (unat a) ram p (I2C_PageSize * k)
    \<and> p' = p + I2C_PageSize * k \<and> a' = a + of_nat (I2C_PageSize * k)"
  using assms(2,3)
proof (induction k arbitrary: p a m)
  case (Suc k)
  obtain calls p' a' where l: "page_loop k (p + I2C_PageSize) (a + of_nat I2C_PageSize) = (calls, p', a')"
    by (metis prod_cases3)
  show ?case
  proof (cases "unat a + I2C_PageSize = 256")
    case True
    then have "k = 0" using Suc.prems by (simp add: I2C_PageSize_def)
    with l Suc.prems page_write_stored [OF assms(1), of a I2C_PageSize]
    show ?thesis by (auto simp: I2C_PageSize_def)
  next
    case False
    then have a8: "unat (a + 8) = unat a + 8"
      using Suc.prems by (simp add: I2C_PageSize_def unat_word_ariths)
    have "list_all stays_in_page calls
        \<and> ee_run wr ram calls (stored m (unat a) ram p I2C_PageSize)
          = stored (stored m (unat a) ram p I2C_PageSize) (unat a + I2C_PageSize) ram (p + I2C_PageSize) (I2C_PageSize * k)
        \<and> p' = p + I2C_PageSize + I2C_PageSize * k
        \<and> a' = a + of_nat I2C_PageSize + of_nat (I2C_PageSize * k)"
      using Suc.IH [of "a + of_nat I2C_PageSize" "stored m (unat a) ram p I2C_PageSize" "p + I2C_PageSize"] Suc.prems l
      by (simp add: a8 I2C_PageSize_def)
    with l Suc.prems page_write_stored [OF assms(1), of a I2C_PageSize]
    show ?thesis by (simp add: stored_stored) (simp add: I2C_PageSize_def)
  qed
qed simp

lemma pages_and_rest_run:
  assumes dev: "page_device wr" and a: "unat a mod I2C_PageSize = 0"
    and fit: "unat a + (I2C_PageSize * unat k + unat r) \<le> 256" and r: "unat r < I2C_PageSize"
  shows "list_all stays_in_page (pages_and_rest p a k r)"
    and "ee_run wr ram (pages_and_rest p a k r) m = stored m (unat a) ram p (I2C_PageSize * unat k + unat r)"
proof -
  obtain calls p' a' where l: "page_loop (unat k) p a = (calls, p', a')" by (metis prod_cases3)
  have run: "list_all stays_in_page calls"
      "ee_run wr ram calls m = stored m (unat a) ram p (I2C_PageSize * unat k)"
      "p' = p + I2C_PageSize * unat k" "a' = a + of_nat (I2C_PageSize * unat k)" for m
    using page_loop_run [OF dev a, of "unat k" ram _ p] l fit by auto
  have "r \<noteq> 0 \<Longrightarrow> unat a' = unat a + I2C_PageSize * unat k"
  proof -
    assume "r \<noteq> 0"
    then have "0 < unat r" by (simp add: unat_gt_0)
    with fit show ?thesis by (simp add: run(4) I2C_PageSize_def unat_word_ariths unat_of_nat)
  qed
  moreover from this have "r \<noteq> 0 \<Longrightarrow> unat a' mod I2C_PageSize + unat r \<le> I2C_PageSize"
    using a r by (simp add: I2C_PageSize_def)
  ultimately show "list_all stays_in_page (pages_and_rest p a k r)"
    and "ee_run wr ram (pages_and_rest p a k r) m = stored m (unat a) ram p (I2C_PageSize * unat k + unat r)"
    using run page_write_stored [OF dev, of a' "unat r" ram p']
    by (auto simp: pages_and_rest_def l ee_run_append stored_stored)
qed

lemma unat_mod_page: "unat ((w :: u8) mod of_nat I2C_PageSize) = unat w mod I2C_PageSize"
  by (simp add: I2C_PageSize_def unat_mod_distrib)

lemma BufferWrite_pages:
  assumes "unat (n :: u16) < 2048"
  shows "unat (ucast (n div of_nat I2C_PageSize) :: u8) = unat n div I2C_PageSize"
    and "unat (ucast (n mod of_nat I2C_PageSize) :: u8) = unat n mod I2C_PageSize"
proof -
  have "unat (n div of_nat I2C_PageSize) = unat n div 8" "unat (n mod of_nat I2C_PageSize) = unat n mod 8"
    by (simp_all add: I2C_PageSize_def unat_div_distrib unat_mod_distrib)
  moreover have "unat n div 8 < 256" using assms by (simp add: less_mult_imp_div_less)
  ultimately show "unat (ucast (n div of_nat I2C_PageSize) :: u8) = unat n div I2C_PageSize"
    and "unat (ucast (n mod of_nat I2C_PageSize) :: u8) = unat n mod I2C_PageSize"
    by (simp_all only: unsigned_ucast_eq) (simp_all add: I2C_PageSize_def take_bit_nat_eq_self)
qed

text \<open>The three shapes of \<open>I2C_EE_BufferWrite\<close>, as sequences of whole pages and a rest.\<close>

lemma unat_zero_iff: "(w :: u8) = 0 \<longleftrightarrow> unat w = 0"
  by (simp add: unsigned_eq_0_iff)

lemma BufferWrite_aligned:
  assumes "unat a mod I2C_PageSize = 0" "unat n < 2048"
  shows "\<exists>k r. unat n = I2C_PageSize * unat k + unat r \<and> unat r < I2C_PageSize \<and>
    (unat k = 0 \<and> I2C_EE_BufferWrite p a n = [PageWrite p a r, WaitEepromStandbyState]
     \<or> unat k \<noteq> 0 \<and> I2C_EE_BufferWrite p a n = pages_and_rest p a k r)"
proof -
  let ?k = "ucast (n div of_nat I2C_PageSize) :: u8" and ?r = "ucast (n mod of_nat I2C_PageSize) :: u8"
  note kr = BufferWrite_pages [OF assms(2)]
  have "a mod of_nat I2C_PageSize = 0" by (simp add: unat_zero_iff unat_mod_page assms(1))
  then have "unat ?k = 0 \<and> I2C_EE_BufferWrite p a n = [PageWrite p a ?r, WaitEepromStandbyState]
     \<or> unat ?k \<noteq> 0 \<and> I2C_EE_BufferWrite p a n = pages_and_rest p a ?k ?r"
    by (auto simp: I2C_EE_BufferWrite_def Let_def unat_zero_iff [of ?k])
  moreover have "unat n = I2C_PageSize * unat ?k + unat ?r" unfolding kr by simp
  moreover have "unat ?r < I2C_PageSize" unfolding kr by (simp add: I2C_PageSize_def)
  ultimately show ?thesis by blast
qed

lemma BufferWrite_short:
  assumes "unat a mod I2C_PageSize \<noteq> 0" "unat n < I2C_PageSize"
  shows "\<exists>r. unat r = unat n \<and> I2C_EE_BufferWrite p a n = [PageWrite p a r, WaitEepromStandbyState]"
proof -
  let ?k = "ucast (n div of_nat I2C_PageSize) :: u8" and ?r = "ucast (n mod of_nat I2C_PageSize) :: u8"
  have "unat n < 2048" using assms by (simp add: I2C_PageSize_def)
  note kr = BufferWrite_pages [OF this]
  have "unat ?k = 0" "unat ?r = unat n" unfolding kr using assms(2) by simp_all
  moreover have "a mod of_nat I2C_PageSize \<noteq> 0" by (simp add: unat_zero_iff unat_mod_page assms(1))
  ultimately show ?thesis
    by (intro exI [of _ ?r]) (auto simp: I2C_EE_BufferWrite_def Let_def unat_zero_iff [of ?k])
qed

lemma BufferWrite_long:
  assumes "unat a mod I2C_PageSize \<noteq> 0" "I2C_PageSize \<le> unat n" "unat n < 2048"
  shows "\<exists>c k r. unat c = I2C_PageSize - unat a mod I2C_PageSize \<and> unat r < I2C_PageSize \<and>
    unat n = unat c + (I2C_PageSize * unat k + unat r) \<and>
    I2C_EE_BufferWrite p a n = [PageWrite p a c, WaitEepromStandbyState]
      @ pages_and_rest (p + unat c) (a + c) k r"
proof -
  let ?c = "of_nat I2C_PageSize - a mod of_nat I2C_PageSize :: u8"
  let ?n = "n - ucast ?c"
  let ?k = "ucast (?n div of_nat I2C_PageSize) :: u8" and ?r = "ucast (?n mod of_nat I2C_PageSize) :: u8"
  have lt: "unat a mod I2C_PageSize < I2C_PageSize" by (simp add: I2C_PageSize_def)
  have "unat (of_nat I2C_PageSize :: u8) = I2C_PageSize" by (simp add: I2C_PageSize_def)
  then have c: "unat ?c = I2C_PageSize - unat a mod I2C_PageSize"
    using lt unat_sub [of "a mod of_nat I2C_PageSize" "of_nat I2C_PageSize"]
    by (simp add: word_le_nat_alt unat_mod_page)
  then have c': "unat (ucast ?c :: u16) = I2C_PageSize - unat a mod I2C_PageSize"
    by (simp only: unat_ucast_u8_u16)
  then have n: "unat ?n = unat n - unat ?c"
    using assms(2) c by (subst unat_sub) (simp_all add: word_le_nat_alt)
  then have "unat ?n < 2048" using assms(3) by simp
  note kr = BufferWrite_pages [OF this]
  have "unat ?r < I2C_PageSize" unfolding kr by (simp add: I2C_PageSize_def)
  moreover have "unat n = unat ?c + (I2C_PageSize * unat ?k + unat ?r)"
    unfolding kr using n c assms(2) lt by simp
  moreover have "a mod of_nat I2C_PageSize \<noteq> 0" by (simp add: unat_zero_iff unat_mod_page assms(1))
  moreover have "?c \<noteq> 0" using c lt by (auto simp: unat_zero_iff)
  moreover have "unat (ucast (n div of_nat I2C_PageSize) :: u8) \<noteq> 0"
    unfolding BufferWrite_pages [OF assms(3)] using assms(2) by (simp add: I2C_PageSize_def div_greater_zero_iff)
  ultimately show ?thesis using c
    by (intro exI [of _ ?c] exI [of _ ?k] exI [of _ ?r])
      (simp add: I2C_EE_BufferWrite_def Let_def unat_zero_iff [of "ucast (n div of_nat I2C_PageSize)"])
qed

lemma BufferWrite_stored:
  assumes dev: "page_device wr" and fit: "unat a + unat n \<le> 256"
    and short: "unat n < I2C_PageSize \<longrightarrow> unat a mod I2C_PageSize + unat n \<le> I2C_PageSize"
  shows "ee_run wr ram (I2C_EE_BufferWrite p a n) m b =
    (if unat a \<le> unat b \<and> unat b < unat a + unat n then ram (p + (unat b - unat a)) else m b)"
proof -
  have n: "unat n < 2048" using fit by simp
  have "ee_run wr ram (I2C_EE_BufferWrite p a n) m = stored m (unat a) ram p (unat n)"
  proof (cases "unat a mod I2C_PageSize = 0")
    case True
    with BufferWrite_aligned [OF True n, of p] fit pages_and_rest_run(2) [OF dev, of a _ _ ram p m]
      page_write_stored [OF dev, of a _ ram p m]
    show ?thesis by auto
  next
    case False
    show ?thesis
    proof (cases "unat n < I2C_PageSize")
      case True
      with BufferWrite_short [OF False True, of p] short page_write_stored [OF dev, of a "unat n" ram p m]
      show ?thesis by auto
    next
      case n8: False
      then obtain c k r where c: "unat c = I2C_PageSize - unat a mod I2C_PageSize"
        and r: "unat r < I2C_PageSize" and sum: "unat n = unat c + (I2C_PageSize * unat k + unat r)"
        and calls: "I2C_EE_BufferWrite p a n = [PageWrite p a c, WaitEepromStandbyState]
          @ pages_and_rest (p + unat c) (a + c) k r"
        using BufferWrite_long [OF False, of n p] n by auto
      have ac: "(unat a + unat c) mod I2C_PageSize = 0"
        unfolding c I2C_PageSize_def by presburger
      have first: "wr a (sent ram p (unat c)) m = stored m (unat a) ram p (unat c)"
        by (rule page_write_stored [OF dev]) (simp add: c I2C_PageSize_def)
      show ?thesis
      proof (cases "unat a + unat c = 256")
        case True
        then have "unat k = 0" "unat r = 0" using fit sum by (simp_all add: I2C_PageSize_def)
        then show ?thesis using calls first sum
          by (simp add: pages_and_rest_def unat_zero_iff)
      next
        case False
        then have u: "unat (a + c) = unat a + unat c"
          using fit sum by (simp add: unat_word_ariths)
        with pages_and_rest_run(2) [OF dev, of "a + c" k r ram "p + unat c"] ac fit sum r
        show ?thesis by (simp add: calls first stored_stored)
      qed
    qed
  qed
  then show ?thesis by (simp add: stored_def)
qed

text \<open>
  C30: A buffer write sends exactly the requested bytes to the requested addresses
  and leaves every other cell alone, for any chip that honours page writes within a
  page, unless an unaligned write of fewer than eight bytes crosses a page boundary: there the driver
  fails (\<open>i2c_ee.c\<close> line 187; \<open>I2C_EE_BufferWrite_in_page\<close>).
\<close>

theorem I2C_EE_BufferWrite_stores:
  assumes dev: "page_device wr" and fit: "unat a + unat n \<le> 256"
    and short: "unat n < I2C_PageSize \<longrightarrow> unat a mod I2C_PageSize + unat n \<le> I2C_PageSize"
  shows "ee_run wr ram (I2C_EE_BufferWrite p a n) m b =
    (if unat a \<le> unat b \<and> unat b < unat a + unat n then ram (p + (unat b - unat a)) else m b)"
  using BufferWrite_stored [OF assms] .

text \<open>A chip as its data sheet describes it: the address counter wraps inside the page.\<close>

definition at24_cell :: "u8 \<Rightarrow> nat \<Rightarrow> u8" where
  "at24_cell a i = of_nat (unat a div I2C_PageSize * I2C_PageSize + (unat a + i) mod I2C_PageSize)"

fun at24_write :: "u8 \<Rightarrow> u8 list \<Rightarrow> chip \<Rightarrow> chip" where
  "at24_write a [] m = m"
| "at24_write a (b # bs) m = at24_write (at24_cell a 1) bs (m(a := b))"

lemma at24_cell_next:
  "unat a mod I2C_PageSize + 1 < I2C_PageSize \<Longrightarrow> unat (at24_cell a 1) = unat a + 1"
proof -
  assume a: "unat a mod I2C_PageSize + 1 < I2C_PageSize"
  have "(unat a + 1) mod 8 = unat a mod 8 + 1" using a by (simp add: I2C_PageSize_def mod_Suc)
  then have "unat a div 8 * 8 + (unat a + 1) mod 8 = unat a + 1" by simp
  moreover have "unat a + 1 < 256" using a unat_less_256 [of a] unfolding I2C_PageSize_def by presburger
  moreover have "at24_cell a 1 = of_nat (unat a div 8 * 8 + (unat a + 1) mod 8)"
    by (simp only: at24_cell_def I2C_PageSize_def)
  ultimately show ?thesis by (simp only: unat_of_nat_u8) simp
qed

lemma at24_page_device: "page_device at24_write"
proof -
  have "unat a mod I2C_PageSize + length bs \<le> I2C_PageSize \<Longrightarrow>
     at24_write a bs m b = (if unat a \<le> unat b \<and> unat b < unat a + length bs
        then bs ! (unat b - unat a) else m b)" for a bs m b
  proof (induction a bs m rule: at24_write.induct)
    case (2 a x bs m)
    show ?case
    proof (cases bs)
      case Nil
      then show ?thesis by (auto simp: word_unat_eq_iff)
    next
      case (Cons y ys)
      with "2.prems" have "unat a mod I2C_PageSize + 1 < I2C_PageSize" by simp
      then have nx: "unat (at24_cell a 1) = unat a + 1" by (rule at24_cell_next)
      have "(unat a + 1) mod I2C_PageSize + length bs \<le> I2C_PageSize"
        using "2.prems" Cons by (auto simp: I2C_PageSize_def mod_Suc)
      then have IH: "at24_write (at24_cell a 1) bs (m(a := x)) b =
          (if unat a + 1 \<le> unat b \<and> unat b < unat a + 1 + length bs
           then bs ! (unat b - (unat a + 1)) else (m(a := x)) b)"
        using "2.IH" by (simp only: nx)
      show ?thesis
      proof (cases "b = a")
        case False
        then have "unat b \<noteq> unat a" by (simp add: word_unat_eq_iff)
        then show ?thesis using IH False by (auto simp: nth_Cons')
      qed (use IH in simp)
    qed
  qed auto
  then show ?thesis by (auto simp: page_device_def fun_eq_iff)
qed

theorem I2C_EE_BufferWrite_stores_witness:
  "ee_run at24_write of_nat (I2C_EE_BufferWrite 100 6 10) (\<lambda>_. 0) 9 = 103"
proof -
  have "unat (6 :: u8) + unat (10 :: u16) \<le> 256"
    "unat (10 :: u16) < I2C_PageSize \<longrightarrow> unat (6 :: u8) mod I2C_PageSize + unat (10 :: u16) \<le> I2C_PageSize"
    by (simp_all add: I2C_PageSize_def)
  from I2C_EE_BufferWrite_stores [OF at24_page_device this, of of_nat 100 "\<lambda>_. 0" 9]
  show ?thesis by simp
qed

lemma stays_pages_and_rest:
  assumes "unat a mod I2C_PageSize = 0" "unat a + (I2C_PageSize * unat k + unat r) \<le> 256"
    "unat r < I2C_PageSize"
  shows "list_all stays_in_page (pages_and_rest p a k r)"
  by (rule pages_and_rest_run(1) [OF at24_page_device assms])

text \<open>
  Every page write the driver makes stays inside one page of the chip, as the chip
  requires, except in one case: the unaligned write of fewer than eight bytes over a
  page boundary is sent as a single page write that crosses it.
\<close>

theorem I2C_EE_BufferWrite_in_page:
  assumes fit: "unat a + unat n \<le> 256"
  shows "list_all stays_in_page (I2C_EE_BufferWrite p a n) \<longleftrightarrow>
    I2C_PageSize \<le> unat n \<or> unat a mod I2C_PageSize + unat n \<le> I2C_PageSize"
proof (cases "unat a mod I2C_PageSize = 0")
  case True
  have "unat n < 2048" using fit by simp
  from BufferWrite_aligned [OF True this, of p] obtain k r
    where n: "unat n = I2C_PageSize * unat k + unat r" "unat r < I2C_PageSize"
    and calls: "unat k = 0 \<and> I2C_EE_BufferWrite p a n = [PageWrite p a r, WaitEepromStandbyState]
       \<or> unat k \<noteq> 0 \<and> I2C_EE_BufferWrite p a n = pages_and_rest p a k r"
    by blast
  have "list_all stays_in_page (I2C_EE_BufferWrite p a n)"
    using calls n True stays_pages_and_rest [OF True, of k r p] fit by auto
  then show ?thesis using True by auto
next
  case False
  show ?thesis
  proof (cases "unat n < I2C_PageSize")
    case True
    with BufferWrite_short [OF False True, of p] show ?thesis by auto
  next
    case n8: False
    then obtain c k r where c: "unat c = I2C_PageSize - unat a mod I2C_PageSize"
      and r: "unat r < I2C_PageSize" and sum: "unat n = unat c + (I2C_PageSize * unat k + unat r)"
      and calls: "I2C_EE_BufferWrite p a n = [PageWrite p a c, WaitEepromStandbyState]
        @ pages_and_rest (p + unat c) (a + c) k r"
      using BufferWrite_long [OF False, of n p] fit by auto
    have ac: "(unat a + unat c) mod I2C_PageSize = 0"
      unfolding c I2C_PageSize_def by presburger
    have "list_all stays_in_page (pages_and_rest (p + unat c) (a + c) k r)"
    proof (cases "unat a + unat c = 256")
      case True
      then have "unat k = 0" "unat r = 0" using fit sum by (simp_all add: I2C_PageSize_def)
      then show ?thesis by (simp add: pages_and_rest_def unat_zero_iff)
    next
      case False
      then have "unat (a + c) = unat a + unat c" using fit sum by (simp add: unat_word_ariths)
      with stays_pages_and_rest [of "a + c" k r] ac fit sum r show ?thesis by simp
    qed
    then show ?thesis using n8 c by (auto simp: calls I2C_PageSize_def)
  qed
qed

theorem I2C_EE_BufferWrite_in_page_witness:
  "\<not> list_all stays_in_page (I2C_EE_BufferWrite 0 6 4)"
  using I2C_EE_BufferWrite_in_page [of 6 4 0] by (simp add: I2C_PageSize_def)

section \<open>Reading back\<close>

lemma read_loop_returns:
  assumes "n \<le> count_list polls True" "n \<le> length rx"
  shows "\<exists>ops. read_loop n polls rx = Some (ops, take n rx) \<and>
    (I2C_STOP \<in> set ops \<longleftrightarrow> 0 < n) \<and> (I2C_Ack False \<in> set ops \<longleftrightarrow> 0 < n) \<and>
    filter (\<lambda>op. case op of I2C_ReceiveData b \<Rightarrow> True | _ \<Rightarrow> False) ops = map I2C_ReceiveData (take n rx)"
  using assms
proof (induction n polls rx rule: read_loop.induct)
  case (3 n received polls rx)
  show ?case
  proof (cases received)
    case True
    with "3.prems" obtain b rx' where rx: "rx = b # rx'" by (cases rx) auto
    with "3.IH"(1) [OF refl True] "3.prems" True show ?thesis by fastforce
  next
    case False
    with "3.IH"(2) [OF refl False] "3.prems" show ?thesis by fastforce
  qed
qed auto

text \<open>
  A buffer read returns once the bus has delivered as many bytes as asked for,
  with exactly those bytes in order, each read once; it ends with the acknowledge
  re-enabled, and it releases the bus with a STOP if and only if the count is not 0.
\<close>

theorem I2C_EE_BufferRead_returns:
  assumes "unat n \<le> count_list polls True" "unat n \<le> length rx"
  shows "\<exists>ops. I2C_EE_BufferRead a n polls rx = Some (ops, take (unat n) rx) \<and>
    (I2C_STOP \<in> set ops \<longleftrightarrow> n \<noteq> 0) \<and> last ops = I2C_Ack True \<and>
    filter (\<lambda>op. case op of I2C_ReceiveData b \<Rightarrow> True | _ \<Rightarrow> False) ops
      = map I2C_ReceiveData (take (unat n) rx)"
proof -
  from read_loop_returns [OF assms] obtain ops where
    r: "read_loop (unat n) polls rx = Some (ops, take (unat n) rx)"
      "I2C_STOP \<in> set ops \<longleftrightarrow> 0 < unat n"
      "filter (\<lambda>op. case op of I2C_ReceiveData b \<Rightarrow> True | _ \<Rightarrow> False) ops
        = map I2C_ReceiveData (take (unat n) rx)"
    by (elim exE conjE) (rule that)
  have "0 < unat n \<longleftrightarrow> n \<noteq> 0" by (simp add: unat_gt_0)
  then show ?thesis by (simp add: I2C_EE_BufferRead_def r)
qed

theorem I2C_EE_BufferRead_returns_witness:
  "\<exists>ops. I2C_EE_BufferRead 0 2 [False, True, False, True] [10, 20, 30] = Some (ops, [10, 20])
     \<and> I2C_STOP \<in> set ops"
proof -
  have "unat (2 :: u16) \<le> count_list [False, True, False, True] True"
    "unat (2 :: u16) \<le> length [10, 20, 30 :: u8]" by simp_all
  from I2C_EE_BufferRead_returns [OF this, of 0] show ?thesis by auto
qed

lemma Buffercmp_eq: "Buffercmp ram p1 p2 n = PASSED \<longleftrightarrow> (\<forall>i < n. ram (p1 + i) = ram (p2 + i))"
proof (induction n arbitrary: p1 p2)
  case (Suc n)
  have "(\<forall>i < Suc n. ram (p1 + i) = ram (p2 + i)) \<longleftrightarrow>
      ram p1 = ram p2 \<and> (\<forall>i < n. ram (p1 + 1 + i) = ram (p2 + 1 + i))"
    by (auto simp: less_Suc_eq_0_disj)
  then show ?case by (simp add: Suc.IH)
qed simp

text \<open>
  The self test at start-up: the text is written and read back twice, at address 0 and
  at address 6.  The transmit buffer lies at 0 of the RAM, the receive buffer at 64.
  Setting up the port and printing the outcome are left out.
\<close>

definition EEP_Tx_Buffer :: "u8 list" where
  "EEP_Tx_Buffer = map of_char ''WWW.ARMJISHU.COM  I2C EEPROM AT24C02 Test''"

definition EEP_Firstpage :: u8 where "EEP_Firstpage = 0x00"
definition EEP_Randompage :: u8 where "EEP_Randompage = 0x06"

definition put_ram :: "nat \<Rightarrow> u8 list \<Rightarrow> (nat \<Rightarrow> u8) \<Rightarrow> nat \<Rightarrow> u8" where
  "put_ram p bs ram = (\<lambda>i. if p \<le> i \<and> i < p + length bs then bs ! (i - p) else ram i)"

definition status_and :: "TestStatus \<Rightarrow> TestStatus \<Rightarrow> TestStatus" where
  "status_and a b = (if a = PASSED \<and> b = PASSED then PASSED else FAILED)"

definition ARMJISHU_EEPROM_TEST ::
    "(u8 \<Rightarrow> u8 list \<Rightarrow> chip \<Rightarrow> chip) \<Rightarrow> (chip \<Rightarrow> u8 \<Rightarrow> nat \<Rightarrow> u8 list) \<Rightarrow> chip \<Rightarrow> TestStatus \<times> chip" where
  "ARMJISHU_EEPROM_TEST wr rd m =
     (let tx = 0; rx = 64; n = length EEP_Tx_Buffer;
          ram = put_ram tx EEP_Tx_Buffer (\<lambda>_. 0);
          m = ee_run wr ram (I2C_EE_BufferWrite tx EEP_Firstpage (of_nat n)) m;
          ram = put_ram rx (rd m EEP_Firstpage n) ram;
          EepromTestStatus = Buffercmp ram tx rx n;
          m = ee_run wr ram (I2C_EE_BufferWrite tx EEP_Randompage (of_nat n)) m;
          ram = put_ram rx (rd m EEP_Randompage n) ram;
          EepromTestStatus = status_and EepromTestStatus (Buffercmp ram tx rx n)
      in (EepromTestStatus, m))"

lemma length_tx: "length EEP_Tx_Buffer = 41"
  by (simp add: EEP_Tx_Buffer_def)

lemma write_read_back:
  assumes dev: "page_device wr" and rd: "read_device rd" and n: "n \<ge> 8" "unat a + n \<le> 256" "n \<le> 64"
  shows "Buffercmp (put_ram 64 (rd (ee_run wr ram (I2C_EE_BufferWrite 0 a (of_nat n)) m) a n) ram) 0 64 n = PASSED"
proof -
  have u: "unat (of_nat n :: u16) = n" using n by (simp add: unat_of_nat)
  have cell: "ee_run wr ram (I2C_EE_BufferWrite 0 a (of_nat n)) m (a + of_nat i) = ram i" if "i < n" for i
  proof -
    have "unat (a + of_nat i :: u8) = unat a + i"
      using that n by (simp add: unat_word_ariths unat_of_nat)
    then show ?thesis
      using that n by (subst BufferWrite_stored [OF dev]) (simp_all add: u I2C_PageSize_def)
  qed
  then show ?thesis using rd n by (auto simp: Buffercmp_eq put_ram_def read_device_def)
qed

text \<open>
  The start-up self test passes on every memory chip that honours page writes and
  sequential reads, whatever it held before.
\<close>

theorem ARMJISHU_EEPROM_TEST_passes:
  assumes dev: "page_device wr" and rd: "read_device rd"
  shows "fst (ARMJISHU_EEPROM_TEST wr rd m) = PASSED"
proof -
  have tx: "Buffercmp (put_ram 64 (rd (ee_run wr ram (I2C_EE_BufferWrite 0 a (of_nat 41)) m') a 41) ram) 0 64 41
      = PASSED" if "unat a \<le> 6" for a ram m'
    by (rule write_read_back [OF dev rd]) (use that in simp_all)
  show ?thesis
    using tx [of 0] tx [of 6]
    by (simp add: ARMJISHU_EEPROM_TEST_def Let_def length_tx status_and_def
        EEP_Firstpage_def EEP_Randompage_def)
qed

theorem ARMJISHU_EEPROM_TEST_passes_witness:
  "fst (ARMJISHU_EEPROM_TEST at24_write (\<lambda>m a n. map (\<lambda>i. m (a + of_nat i)) [0..<n]) (\<lambda>_. 0)) = PASSED"
  by (rule ARMJISHU_EEPROM_TEST_passes [OF at24_page_device]) (simp add: read_device_def)

end
