(* ===== verification/Touch.thy ===== *)
theory Touch
  imports Prelude "HOL-Library.Signed_Division"
begin

text \<open>
  The touch screen, \<open>Project/src/ARMJISHU_TouchScreen.c\<close>: the bit-banged SPI link to the
  ADS7843 converter as a sequence of operations on port C, the sampling and averaging
  of the coordinates, and the pixels drawn.  What the hardware answers is a parameter:
  \<open>pen k\<close> is the outcome of the k-th test of the pen interrupt pin, \<open>miso k\<close> the level
  of the data line at its k-th reading.
\<close>

section \<open>The link\<close>

datatype gpio_op = SetBits u16 | ResetBits u16

definition SPI1_SCK :: u16 where "SPI1_SCK = 0x0400"
definition SPI1_MOSI :: u16 where "SPI1_MOSI = 0x1000"

text \<open>The macros that drive the chip select pass this clock constant as the pin mask.\<close>

definition RCC_ADS7843_CS :: u16 where "RCC_ADS7843_CS = 0x0010"
definition GPIO_ADS7843_CS :: u16 where "GPIO_ADS7843_CS = 0x0200"

definition ADS7843_CS_LOW :: gpio_op where "ADS7843_CS_LOW = ResetBits RCC_ADS7843_CS"
definition ADS7843_CS_HIGH :: gpio_op where "ADS7843_CS_HIGH = SetBits RCC_ADS7843_CS"
definition SPI1_SCK_LOW :: gpio_op where "SPI1_SCK_LOW = ResetBits SPI1_SCK"
definition SPI1_SCK_HIGH :: gpio_op where "SPI1_SCK_HIGH = SetBits SPI1_SCK"

definition SPI_MOSI :: "u8 \<Rightarrow> gpio_op" where
  "SPI_MOSI data = (if data \<noteq> 0 then SetBits SPI1_MOSI else ResetBits SPI1_MOSI)"

definition ADS7843_SPI_Start :: "gpio_op list" where
  "ADS7843_SPI_Start = [ADS7843_CS_HIGH, SetBits SPI1_MOSI, SPI1_SCK_LOW, ADS7843_CS_LOW]"

definition ADS7843_WrCmd :: "u8 \<Rightarrow> gpio_op list" where
  "ADS7843_WrCmd cmd = concat (map (\<lambda>i. [SPI_MOSI (drop_bit (7 - i) cmd AND 0x1),
     SPI1_SCK_HIGH, SPI1_SCK_LOW]) [0..<8])"

text \<open>
  Twelve bits are read, the first from the k-th reading of the line on; the clock
  pulses are the operations.
\<close>

fun read_bits :: "(nat \<Rightarrow> bool) \<Rightarrow> nat \<Rightarrow> nat \<Rightarrow> u16 \<Rightarrow> u16" where
  "read_bits miso k 0 buf = buf"
| "read_bits miso k (Suc n) buf =
     read_bits miso (k + 1) n (push_bit 1 buf + (if miso k then 1 else 0))"

definition clock_pulses :: "nat \<Rightarrow> gpio_op list" where
  "clock_pulses n = concat (replicate n [SPI1_SCK_HIGH, SPI1_SCK_LOW])"

definition ADS7843_Read :: "(nat \<Rightarrow> bool) \<Rightarrow> nat \<Rightarrow> u16 \<times> gpio_op list" where
  "ADS7843_Read miso k = (read_bits miso k 12 0, clock_pulses 1 @ clock_pulses 12 @ clock_pulses 3)"

section \<open>Sampling\<close>

definition CHX :: u8 where "CHX = 0x90"
definition CHY :: u8 where "CHY = 0xD0"
definition READ_TIMES :: nat where "READ_TIMES = 10"
definition VALID_TIMES :: nat where "VALID_TIMES = (READ_TIMES - 1) div 2 - 1"

text \<open>
  The sampling loop: how often it went round, the two arrays as filled so far and the
  operations on the port.  Round \<open>i\<close> reads the line 24 times.
\<close>

function sample_loop ::
    "(nat \<Rightarrow> bool) \<Rightarrow> (nat \<Rightarrow> bool) \<Rightarrow> nat \<Rightarrow> u16 list \<Rightarrow> u16 list \<Rightarrow> gpio_op list
     \<Rightarrow> nat \<times> u16 list \<times> u16 list \<times> gpio_op list" where
  "sample_loop pen miso i xs ys ops =
     (if pen i \<and> i < READ_TIMES
      then (let (x, opsx) = ADS7843_Read miso (24 * i);
                (y, opsy) = ADS7843_Read miso (24 * i + 12)
            in sample_loop pen miso (i + 1) (xs @ [x]) (ys @ [y])
                 (ops @ ADS7843_SPI_Start @ ADS7843_WrCmd CHX @ opsx @ [ADS7843_CS_HIGH]
                  @ ADS7843_SPI_Start @ ADS7843_WrCmd CHY @ opsy @ [ADS7843_CS_HIGH]))
      else (i, xs, ys, ops))"
  by pat_completeness auto
termination
  by (relation "measure (\<lambda>(pen, miso, i, xs, ys, ops). READ_TIMES - i)") auto

declare sample_loop.simps [simp del]

text \<open>The two nested loops under the heading of sorting, with the bounds they have.\<close>

function inner_loop :: "nat \<Rightarrow> nat \<Rightarrow> u16 list \<Rightarrow> u16 list" where
  "inner_loop i j a =
     (if j < READ_TIMES - 1
      then inner_loop i (j + 1) (if a ! j > a ! i then a[j := a ! i, i := a ! j] else a)
      else a)"
  by pat_completeness auto
termination
  by (relation "measure (\<lambda>(i, j, a). READ_TIMES - 1 - j)") auto

declare inner_loop.simps [simp del]

definition sort_loops :: "u16 list \<Rightarrow> u16 list" where
  "sort_loops a = fold (\<lambda>i a. inner_loop i READ_TIMES a) [0..<READ_TIMES] a"

definition average4 :: "u16 list \<Rightarrow> u16" where
  "average4 a = of_nat ((unat (a ! VALID_TIMES) + unat (a ! (VALID_TIMES + 1))
     + unat (a ! (VALID_TIMES + 2)) + unat (a ! (VALID_TIMES + 3))) div 2 ^ 2)"

text \<open>The coordinates when all the samples were taken (the return value 1), \<open>None\<close> for 0.\<close>

definition ADS7843_Rd_Addata :: "(nat \<Rightarrow> bool) \<Rightarrow> (nat \<Rightarrow> bool) \<Rightarrow> (u16 \<times> u16) option \<times> gpio_op list" where
  "ADS7843_Rd_Addata pen miso =
     (let (i, xs, ys, ops) = sample_loop pen miso 0 [] [] []
      in (if i = READ_TIMES then Some (average4 (sort_loops xs), average4 (sort_loops ys)) else None, ops))"

section \<open>From readings to pixels\<close>

definition AD2Y :: "u16 \<Rightarrow> u16" where
  "AD2Y adx = (let r = (int (unat adx) - 200) * 240;
                   sx = of_int (r sdiv (4000 - 280)) :: u16
               in if sx \<le> 0 \<or> sx > 240 then 0 else sx)"

definition AD2X :: "u16 \<Rightarrow> u16" where
  "AD2X ady = (let r = (int (unat ady) - 260) * 320;
                   sy = of_int (r sdiv (3960 - 360)) :: u16
               in if sy \<le> 0 \<or> sy > 320 then 0 else sy)"

definition distence :: "u16 \<Rightarrow> u16 \<Rightarrow> bool" where
  "distence data1 data2 =
     (if int (unat data2) > int (unat data1) + 2 \<or> int (unat data1) > int (unat data2) + 2
      then False else True)"

text \<open>The calls of \<open>LCD_SetPoint\<close>, whose first argument is a byte.\<close>

definition LCD_SMALL_POINT :: "u16 \<Rightarrow> u16 \<Rightarrow> (u8 \<times> u16) list" where
  "LCD_SMALL_POINT x y = [(ucast x, y), (ucast (x - 1), y), (ucast (x - 1), y - 1), (ucast x, y - 1)]"

definition LCD_BIG_POINT :: "u16 \<Rightarrow> u16 \<Rightarrow> (u8 \<times> u16) list" where
  "LCD_BIG_POINT x y = [(ucast x, y), (ucast (x - 1), y), (ucast (x + 1), y), (ucast x, y - 1),
     (ucast x, y + 1), (ucast (x - 1), y - 1), (ucast (x - 1), y + 1), (ucast (x + 1), y - 1),
     (ucast (x + 1), y + 1)]"

record touch = sDataX :: u16  sDataY :: u16

definition ARMJISHU_TouchScreen ::
    "(nat \<Rightarrow> bool) \<Rightarrow> (nat \<Rightarrow> bool) \<Rightarrow> touch \<Rightarrow> touch \<times> (u8 \<times> u16) list" where
  "ARMJISHU_TouchScreen pen miso t =
     (case fst (ADS7843_Rd_Addata pen miso) of
        None \<Rightarrow> (t, [])
      | Some (xdata, ydata) \<Rightarrow>
          (let xScreen = AD2X xdata; yScreen = AD2Y ydata in
           if xScreen > 1 \<and> yScreen > 1 \<and> xScreen < 320 - 1 \<and> yScreen < 240 - 1
           then (\<lparr>sDataX = xScreen, sDataY = yScreen\<rparr>,
                 if pen (READ_TIMES + 1) \<and> distence (sDataX t) xScreen \<and> distence (sDataY t) yScreen
                 then LCD_SMALL_POINT yScreen xScreen else [])
           else (t, [])))"

section \<open>The link as the converter sees it\<close>

fun apply_op :: "u16 \<Rightarrow> gpio_op \<Rightarrow> u16" where
  "apply_op odr (SetBits m) = odr OR m"
| "apply_op odr (ResetBits m) = odr AND NOT m"

text \<open>The converter takes the level of MOSI at each rising edge of the clock.\<close>

fun latched :: "u16 \<Rightarrow> gpio_op list \<Rightarrow> bool list" where
  "latched odr [] = []"
| "latched odr (op # ops) =
     (let odr' = apply_op odr op in
      (if \<not> bit odr 10 \<and> bit odr' 10 then [bit odr' 12] else []) @ latched odr' ops)"

lemma pin_masks:
  "bit SPI1_SCK n \<longleftrightarrow> n = 10" "bit SPI1_MOSI n \<longleftrightarrow> n = 12" "bit RCC_ADS7843_CS n \<longleftrightarrow> n = 4"
proof -
  have m: "SPI1_SCK = push_bit 10 1" "SPI1_MOSI = push_bit 12 1" "RCC_ADS7843_CS = push_bit 4 1"
    by (simp_all add: SPI1_SCK_def SPI1_MOSI_def RCC_ADS7843_CS_def push_bit_eq_mult)
  show "bit SPI1_SCK n \<longleftrightarrow> n = 10" "bit SPI1_MOSI n \<longleftrightarrow> n = 12" "bit RCC_ADS7843_CS n \<longleftrightarrow> n = 4"
    by (simp_all only: m bit_push_bit_iff bit_1_iff) auto
qed

lemma latched_bits:
  "\<not> bit odr 10 \<Longrightarrow>
   latched odr (concat (map (\<lambda>i. [SPI_MOSI (f i), SPI1_SCK_HIGH, SPI1_SCK_LOW]) is)) = map (\<lambda>i. f i \<noteq> 0) is"
  by (induction "is" arbitrary: odr)
    (simp_all add: SPI_MOSI_def SPI1_SCK_HIGH_def SPI1_SCK_LOW_def bit_simps pin_masks Let_def)

lemma and_1_bit: "drop_bit k (c :: u8) AND 1 \<noteq> 0 \<longleftrightarrow> bit c k"
  by (simp only: and_one_eq bit_iff_odd_drop_bit odd_iff_mod_2_eq_one) simp

lemma latched_WrCmd:
  assumes "\<not> bit odr 10"
  shows "latched odr (ADS7843_WrCmd cmd) = map (\<lambda>i. bit cmd (7 - i)) [0..<8]"
  unfolding ADS7843_WrCmd_def latched_bits [OF assms] and_1_bit ..

text \<open>No operation of a sampling run touches the pin the chip select is wired to.\<close>

definition avoids_cs :: "gpio_op \<Rightarrow> bool" where
  "avoids_cs op \<longleftrightarrow> (\<forall>odr. bit (apply_op odr op) 9 = bit odr 9)"

lemma avoids_cs_ops [simp]:
  "avoids_cs ADS7843_CS_LOW" "avoids_cs ADS7843_CS_HIGH" "avoids_cs SPI1_SCK_LOW"
  "avoids_cs SPI1_SCK_HIGH" "avoids_cs (SPI_MOSI d)" "avoids_cs (SetBits SPI1_MOSI)"
  by (auto simp: avoids_cs_def ADS7843_CS_LOW_def ADS7843_CS_HIGH_def SPI1_SCK_LOW_def
      SPI1_SCK_HIGH_def SPI_MOSI_def bit_simps pin_masks)

lemma avoids_cs_link [simp]:
  "list_all avoids_cs ADS7843_SPI_Start" "list_all avoids_cs (ADS7843_WrCmd cmd)"
  "list_all avoids_cs (snd (ADS7843_Read miso k))"
proof -
  have "list_all avoids_cs (clock_pulses n)" for n
    by (induction n) (simp_all add: clock_pulses_def)
  then show "list_all avoids_cs (snd (ADS7843_Read miso k))" by (simp add: ADS7843_Read_def)
qed (auto simp: ADS7843_SPI_Start_def ADS7843_WrCmd_def list_all_iff)

section \<open>What the sampling delivers\<close>

text \<open>Sample \<open>i\<close> of each coordinate.\<close>

definition sample_x :: "(nat \<Rightarrow> bool) \<Rightarrow> nat \<Rightarrow> u16" where
  "sample_x miso i = fst (ADS7843_Read miso (24 * i))"

definition sample_y :: "(nat \<Rightarrow> bool) \<Rightarrow> nat \<Rightarrow> u16" where
  "sample_y miso i = fst (ADS7843_Read miso (24 * i + 12))"

lemma read_bits_bound:
  "unat buf < 2 ^ m \<Longrightarrow> m + n \<le> 15 \<Longrightarrow> unat (read_bits miso k n buf) < 2 ^ (m + n)"
proof (induction miso k n buf arbitrary: m rule: read_bits.induct)
  case (2 miso k n buf)
  have "2 ^ m \<le> (2 ^ 14 :: nat)" using "2.prems" by (intro power_increasing) simp_all
  then have "2 * unat buf + 1 < 65536" using "2.prems" by simp
  then have "unat (push_bit 1 buf + (if miso k then 1 else 0)) = 2 * unat buf + (if miso k then 1 else 0)"
    by (simp add: push_bit_eq_mult unat_word_ariths)
  then have "unat (push_bit 1 buf + (if miso k then 1 else 0)) < 2 ^ Suc m" using "2.prems" by simp
  from "2.IH" [OF this] "2.prems" show ?case by simp
qed simp

lemma sample_bound: "unat (sample_x miso i) < 4096" "unat (sample_y miso i) < 4096"
  using read_bits_bound [of 0 0 12 miso] by (simp_all add: sample_x_def sample_y_def ADS7843_Read_def)

lemma sort_loops_id: "sort_loops a = a"
proof -
  have inner: "inner_loop i READ_TIMES a = a" for i a
    by (subst inner_loop.simps) (simp add: READ_TIMES_def)
  have "fold (\<lambda>i a. inner_loop i READ_TIMES a) is a = a" for "is" :: "nat list"
    by (induction "is" arbitrary: a) (simp_all add: inner)
  then show ?thesis by (simp add: sort_loops_def)
qed

lemma sample_loop_spec:
  assumes "length xs = i" "i \<le> READ_TIMES" "list_all avoids_cs ops"
    "xs = map (sample_x miso) [0..<i]" "ys = map (sample_y miso) [0..<i]"
  shows "case sample_loop pen miso i xs ys ops of (i', xs', ys', ops') \<Rightarrow>
    i' \<le> READ_TIMES \<and> (i' = READ_TIMES \<longleftrightarrow> (\<forall>k. i \<le> k \<and> k < READ_TIMES \<longrightarrow> pen k)) \<and>
    xs' = map (sample_x miso) [0..<i'] \<and> ys' = map (sample_y miso) [0..<i'] \<and> list_all avoids_cs ops'"
  using assms
proof (induction pen miso i xs ys ops rule: sample_loop.induct)
  case (1 pen miso i xs ys ops)
  obtain x opsx where x: "ADS7843_Read miso (24 * i) = (x, opsx)" by force
  obtain y opsy where y: "ADS7843_Read miso (24 * i + 12) = (y, opsy)" by force
  have sx: "x = sample_x miso i" "y = sample_y miso i" by (simp_all add: sample_x_def sample_y_def x y)
  have ops: "list_all avoids_cs opsx" "list_all avoids_cs opsy"
    using avoids_cs_link(3) [of miso "24 * i"] avoids_cs_link(3) [of miso "24 * i + 12"] x y by simp_all
  show ?case
  proof (cases "pen i \<and> i < READ_TIMES")
    case True
    have all: "(\<forall>k. i \<le> k \<and> k < READ_TIMES \<longrightarrow> pen k) \<longleftrightarrow> (\<forall>k. i + 1 \<le> k \<and> k < READ_TIMES \<longrightarrow> pen k)"
      using True by (metis Suc_eq_plus1 le_SucI le_antisym not_less_eq_eq)
    show ?thesis
      unfolding sample_loop.simps [of pen miso i] all
      using "1.IH" [OF True x [symmetric] refl y [symmetric] refl] "1.prems" True
      by (simp add: x y sx ops)
  next
    case False
    then show ?thesis
      using "1.prems" by (auto simp: sample_loop.simps [of pen miso i])
  qed
qed

lemma Rd_Addata_spec:
  "fst (ADS7843_Rd_Addata pen miso) =
     (if \<forall>k < 10. pen k
      then Some (average4 (map (sample_x miso) [0..<10]), average4 (map (sample_y miso) [0..<10]))
      else None)"
  "list_all avoids_cs (snd (ADS7843_Rd_Addata pen miso))"
proof -
  obtain i xs ys ops where l: "sample_loop pen miso 0 [] [] [] = (i, xs, ys, ops)"
    by (metis prod_cases4)
  have spec: "i \<le> 10" "i = 10 \<longleftrightarrow> (\<forall>k < 10. pen k)" "list_all avoids_cs ops"
      "xs = map (sample_x miso) [0..<i]" "ys = map (sample_y miso) [0..<i]"
    using sample_loop_spec [of "[]" 0 "[]" miso "[]" pen] by (auto simp: l READ_TIMES_def)
  then show "fst (ADS7843_Rd_Addata pen miso) =
     (if \<forall>k < 10. pen k
      then Some (average4 (map (sample_x miso) [0..<10]), average4 (map (sample_y miso) [0..<10]))
      else None)"
    by (cases "i = 10") (auto simp: ADS7843_Rd_Addata_def l sort_loops_id READ_TIMES_def)
  show "list_all avoids_cs (snd (ADS7843_Rd_Addata pen miso))"
    using spec(3) by (simp add: ADS7843_Rd_Addata_def l)
qed

lemma average4_samples:
  assumes "\<And>i. unat (f i) < 4096"
  shows "unat (average4 (map f [0..<10])) =
    (unat (f 3) + unat (f 4) + unat (f 5) + unat (f 6)) div 4"
proof -
  have "(unat (f 3) + unat (f 4) + unat (f 5) + unat (f 6)) div 4 < 65536"
    using assms [of 3] assms [of 4] assms [of 5] assms [of 6] by simp
  moreover have "map f [0..<10] ! i = f i" if "i < 10" for i using that by simp
  ultimately show ?thesis
    by (simp add: average4_def VALID_TIMES_def READ_TIMES_def unat_of_nat)
qed

text \<open>
  A touch is accepted exactly when the pen is down at the first ten checks, and the
  coordinate is then the mean of the samples number 3 to 6 in the order they were
  taken, an outlier among them included: the loops that should sort them do nothing.
\<close>

theorem ADS7843_Rd_Addata_means:
  "case fst (ADS7843_Rd_Addata pen miso) of
     None \<Rightarrow> \<exists>k < 10. \<not> pen k
   | Some (x, y) \<Rightarrow> (\<forall>k < 10. pen k)
       \<and> unat x = (\<Sum>i \<in> {3..6}. unat (sample_x miso i)) div 4
       \<and> unat y = (\<Sum>i \<in> {3..6}. unat (sample_y miso i)) div 4"
proof -
  have sum: "(\<Sum>i \<in> {3..6}. f i) = f 3 + f 4 + f 5 + f (6 :: nat)" for f :: "nat \<Rightarrow> nat"
    by (simp add: eval_nat_numeral sum.atLeast_Suc_atMost)
  show ?thesis
    unfolding Rd_Addata_spec(1) sum
    using average4_samples [of "sample_x miso", OF sample_bound(1)]
      average4_samples [of "sample_y miso", OF sample_bound(2)]
    by auto
qed

theorem ADS7843_Rd_Addata_means_witness:
  "fst (ADS7843_Rd_Addata (\<lambda>k. k < 5) (\<lambda>_. True)) = None \<and> fst (ADS7843_Rd_Addata (\<lambda>_. True) (\<lambda>_. False)) \<noteq> None"
proof (rule conjI)
  show "fst (ADS7843_Rd_Addata (\<lambda>k. k < 5) (\<lambda>_. True)) = None"
  proof (cases "fst (ADS7843_Rd_Addata (\<lambda>k. k < 5) (\<lambda>_. True))")
    case (Some r)
    then have "\<forall>k < 10. k < (5 :: nat)"
      using ADS7843_Rd_Addata_means [of "\<lambda>k. k < 5" "\<lambda>_. True"] by (cases r) simp
    then have "(7 :: nat) < 5" by (rule allE [of _ 7]) simp
    then show ?thesis by simp
  qed simp
  show "fst (ADS7843_Rd_Addata (\<lambda>_. True) (\<lambda>_. False)) \<noteq> None"
    using ADS7843_Rd_Addata_means [of "\<lambda>_. True" "\<lambda>_. False"] by (cases "fst (ADS7843_Rd_Addata (\<lambda>_. True) (\<lambda>_. False))") simp_all
qed

text \<open>
  The whole conversation with the converter leaves its chip select line, pin 9 of
  port C, as it was: the macros drive pin 4 instead.
\<close>

theorem chip_select_never_driven:
  "bit (foldl apply_op odr (snd (ADS7843_Rd_Addata pen miso))) 9 = bit odr 9"
proof -
  have "list_all avoids_cs ops \<Longrightarrow> bit (foldl apply_op odr ops) 9 = bit odr 9" for ops
    by (induction ops arbitrary: odr) (simp_all add: avoids_cs_def)
  then show ?thesis using Rd_Addata_spec(2) by blast
qed

text \<open>
  The command byte reaches the converter bit by bit, most significant bit first,
  one bit per rising edge of the clock.
\<close>

theorem ADS7843_WrCmd_latched:
  "\<not> bit odr 10 \<Longrightarrow>
   latched odr (ADS7843_WrCmd cmd) =
     [bit cmd 7, bit cmd 6, bit cmd 5, bit cmd 4, bit cmd 3, bit cmd 2, bit cmd 1, bit cmd 0]"
  by (subst latched_WrCmd) (simp_all add: upt_rec)

theorem ADS7843_WrCmd_latched_witness:
  "latched 0 (ADS7843_WrCmd 0x90) = [True, False, False, True, False, False, False, False]"
proof -
  have "\<not> bit (0 :: u16) 10" by simp
  from ADS7843_WrCmd_latched [OF this, of "0x90"] show ?thesis by simp
qed

section \<open>Pixels\<close>

lemma clip:
  assumes "-1000 \<le> v" "v < 60000"
  shows "(of_int v :: u16) \<le> 0 \<or> (of_int v :: u16) > of_nat m \<Longrightarrow> m < 1000 \<Longrightarrow> \<not> (0 < v \<and> v \<le> int m)"
    and "\<not> ((of_int v :: u16) \<le> 0 \<or> (of_int v :: u16) > of_nat m) \<Longrightarrow> m < 1000 \<Longrightarrow>
      0 < v \<and> v \<le> int m \<and> unat (of_int v :: u16) = nat v"
proof -
  have u: "uint (of_int v :: u16) = v mod 65536" by (simp add: uint_word_of_int)
  have c: "v mod 65536 = (if v < 0 then v + 65536 else v)"
    using assms mod_pos_pos_trivial [of "v + 65536" 65536] mod_add_self2 [of v 65536] by auto
  have m: "m < 1000 \<Longrightarrow> uint (of_nat m :: u16) = int m"
    by (simp add: uint_nat unat_of_nat)
  show "(of_int v :: u16) \<le> 0 \<or> (of_int v :: u16) > of_nat m \<Longrightarrow> m < 1000 \<Longrightarrow> \<not> (0 < v \<and> v \<le> int m)"
    by (auto simp: word_le_def word_less_def u c m split: if_splits)
  show "\<not> ((of_int v :: u16) \<le> 0 \<or> (of_int v :: u16) > of_nat m) \<Longrightarrow> m < 1000 \<Longrightarrow>
      0 < v \<and> v \<le> int m \<and> unat (of_int v :: u16) = nat v"
    using assms by (auto simp: word_le_def word_less_def u c m unat_eq_nat_uint split: if_splits)
qed

lemma unat_clip:
  "-1000 \<le> v \<Longrightarrow> v < 60000 \<Longrightarrow> m < 1000 \<Longrightarrow>
   unat (let sx = of_int v :: u16 in if sx \<le> 0 \<or> sx > of_nat m then 0 else sx)
     = (if 0 < v \<and> v \<le> int m then nat v else 0)"
  using clip [of v m] by (auto simp: Let_def)

lemma sdiv_scaled:
  assumes "0 < d"
  shows "((int n - int o') * int c) sdiv int d
    = (if o' \<le> n then int ((n - o') * c div d) else - int ((o' - n) * c div d))"
proof (cases "o' \<le> n")
  case True
  then have "(int n - int o') * int c = int ((n - o') * c)" by (simp add: of_nat_diff)
  then show ?thesis using True assms by (simp add: signed_divide_int_def sgn_if zdiv_int)
next
  case False
  then have "(int n - int o') * int c = - int ((o' - n) * c)" by (simp add: of_nat_diff algebra_simps)
  then show ?thesis using False assms by (simp add: signed_divide_int_def sgn_if zdiv_int)
qed

text \<open>The conversion of a reading: \<open>o'\<close> the offset, \<open>c\<close> the range, \<open>d\<close> the span.\<close>

lemma unat_scaled:
  assumes "0 < d" "o' * c div d \<le> 1000" "65535 * c div d < 60000" "m < 1000"
  shows "unat (let sx = of_int (((int (unat (a :: u16)) - int o') * int c) sdiv int d) :: u16
               in if sx \<le> 0 \<or> sx > of_nat m then 0 else sx)
    = (let q = (unat a - o') * c div d in if q \<le> m then q else 0)"
proof -
  define n where "n = unat a"
  define v where "v = ((int n - int o') * int c) sdiv int d"
  have v: "v = (if o' \<le> n then int ((n - o') * c div d) else - int ((o' - n) * c div d))"
    unfolding v_def by (rule sdiv_scaled [OF assms(1)])
  have "(n - o') * c div d \<le> 65535 * c div d" "(o' - n) * c div d \<le> o' * c div d"
    by (intro div_le_mono mult_le_mono1; simp add: n_def; use unat_u16_le [of a] in linarith)+
  then have b: "-1000 \<le> v" "v < 60000" unfolding v using assms by auto
  have "unat (let sx = of_int v :: u16 in if sx \<le> 0 \<or> sx > of_nat m then 0 else sx)
      = (if 0 < v \<and> v \<le> int m then nat v else 0)"
    using unat_clip [OF b assms(4)] .
  also have "\<dots> = (let q = (n - o') * c div d in if q \<le> m then q else 0)"
    unfolding v Let_def by (cases "o' \<le> n") (simp_all del: of_nat_mult of_nat_div)
  finally show ?thesis by (simp only: n_def v_def)
qed

lemma unat_AD2Y: "unat (AD2Y a) = (let q = (unat a - 200) * 240 div 3720 in if q \<le> 240 then q else 0)"
  using unat_scaled [of 3720 200 240 240 a] by (simp add: AD2Y_def)

lemma unat_AD2X: "unat (AD2X a) = (let q = (unat a - 260) * 320 div 3600 in if q \<le> 320 then q else 0)"
  using unat_scaled [of 3600 260 320 320 a] by (simp add: AD2X_def)

text \<open>
  Readings become screen coordinates by a linear scale that is cut off at the
  panel: nothing outside 0 to 320 and 0 to 240 is produced, negative offsets included.
\<close>

theorem AD2_scales:
  "unat (AD2X a) = (let q = (unat a - 260) * 320 div 3600 in if q \<le> 320 then q else 0)
   \<and> unat (AD2Y b) = (let q = (unat b - 200) * 240 div 3720 in if q \<le> 240 then q else 0)"
  by (simp only: unat_AD2X unat_AD2Y)

lemma distence_iff:
  "distence a b \<longleftrightarrow> unat a \<le> unat b + 2 \<and> unat b \<le> unat a + 2"
  by (auto simp: distence_def simp del: of_nat_unat)

lemma small_point_on_panel:
  assumes "1 < x" "x < 240 - 1" "1 < y" "y < 320 - 1" "p \<in> set (LCD_SMALL_POINT x y)"
  shows "unat (fst p) < 240 \<and> unat (snd p) < 320"
proof -
  have b: "1 < unat x" "unat x < 239" "1 < unat y" "unat y < 319"
    using assms(1-4) by (simp_all add: word_less_nat_alt)
  then have "x \<noteq> 0" "y \<noteq> 0" by auto
  then have m: "unat (x - 1) = unat x - 1" "unat (y - 1) = unat y - 1"
    using unat_minus_one [of x] unat_minus_one [of y] by auto
  have u: "unat w < 256 \<Longrightarrow> unat (ucast w :: u8) = unat w" for w :: u16
    by (simp add: unsigned_ucast_eq take_bit_nat_eq_self)
  show ?thesis using assms(5) b m u [of x] u [of "x - 1"] by (auto simp: LCD_SMALL_POINT_def)
qed

lemma read_bits_numeral:
  "read_bits miso k (numeral w) buf =
     read_bits miso (Suc k) (pred_numeral w) (push_bit 1 buf + (if miso k then 1 else 0))"
  by (simp add: numeral_eq_Suc)

text \<open>
  C36: Every pixel the touch screen draws is on the 240 by 320 panel, and it draws only
  while the pen is down and within two units of the last position in both directions.
\<close>

theorem ARMJISHU_TouchScreen_pixels:
  assumes "ARMJISHU_TouchScreen pen miso t = (t', ps)" "p \<in> set ps"
  shows "unat (fst p) < 240 \<and> unat (snd p) < 320 \<and> (\<forall>k < 10. pen k) \<and> pen 11
    \<and> unat (sDataX t') \<le> unat (sDataX t) + 2 \<and> unat (sDataX t) \<le> unat (sDataX t') + 2
    \<and> unat (sDataY t') \<le> unat (sDataY t) + 2 \<and> unat (sDataY t) \<le> unat (sDataY t') + 2"
proof -
  from assms obtain xd yd where rd: "fst (ADS7843_Rd_Addata pen miso) = Some (xd, yd)"
    by (auto simp: ARMJISHU_TouchScreen_def split: option.splits)
  let ?x = "AD2X xd" and ?y = "AD2Y yd"
  have in_range: "?x > 1" "?y > 1" "?x < 320 - 1" "?y < 240 - 1"
    and pen: "pen (READ_TIMES + 1)" and d: "distence (sDataX t) ?x" "distence (sDataY t) ?y"
    and ps: "ps = LCD_SMALL_POINT ?y ?x" and t': "t' = \<lparr>sDataX = ?x, sDataY = ?y\<rparr>"
    using assms by (auto simp: ARMJISHU_TouchScreen_def rd Let_def split: if_splits)
  have "\<forall>k < 10. pen k" using rd by (simp add: Rd_Addata_spec(1) split: if_splits)
  moreover have "unat (fst p) < 240 \<and> unat (snd p) < 320"
    by (rule small_point_on_panel [of ?y ?x]) (use in_range assms(2) ps in simp_all)
  ultimately show ?thesis using d pen by (simp add: t' distence_iff READ_TIMES_def)
qed

theorem ARMJISHU_TouchScreen_pixels_witness:
  "\<exists>t' ps p. ARMJISHU_TouchScreen (\<lambda>_. True) even \<lparr>sDataX = 218, sDataY = 162\<rparr> = (t', ps) \<and> t' = \<lparr>sDataX = 219, sDataY = 163\<rparr>
    \<and> p \<in> set ps \<and> p = (163, 219) \<and> unat (fst p) < 240 \<and> unat (snd p) < 320"
proof -
  let ?miso = "even :: nat \<Rightarrow> bool" and ?t = "\<lparr>sDataX = 218, sDataY = 162\<rparr>"
  have bits: "read_bits ?miso k 12 0 = 2730" if "even k" for k
    using that by (simp add: read_bits_numeral)
  have "sample_x ?miso i = 2730" "sample_y ?miso i = 2730" for i
    by (simp_all add: sample_x_def sample_y_def ADS7843_Read_def bits)
  then have avg: "unat (average4 (map (sample_x ?miso) [0..<10])) = 2730"
    "unat (average4 (map (sample_y ?miso) [0..<10])) = 2730"
    using average4_samples [of "sample_x ?miso"] average4_samples [of "sample_y ?miso"] by simp_all
  have rd: "fst (ADS7843_Rd_Addata (\<lambda>_. True) ?miso) = Some (2730, 2730)"
    using avg by (simp add: Rd_Addata_spec(1) word_unat_eq_iff)
  have xy: "AD2X 2730 = 219" "AD2Y 2730 = 163"
    by (simp_all add: word_unat_eq_iff unat_AD2X unat_AD2Y)
  have run: "ARMJISHU_TouchScreen (\<lambda>_. True) ?miso ?t
      = (\<lparr>sDataX = 219, sDataY = 163\<rparr>, LCD_SMALL_POINT 163 219)"
    by (simp add: ARMJISHU_TouchScreen_def rd xy distence_iff)
  have p: "(163, 219) \<in> set (LCD_SMALL_POINT 163 219)" by (simp add: LCD_SMALL_POINT_def)
  from ARMJISHU_TouchScreen_pixels [OF run p] show ?thesis using run p by blast
qed

end
