(* ===== verification/Board.thy ===== *)
theory Board
  imports Prelude
begin

text \<open>
  The board's own tasks: the keys and the 315 MHz remote control
  (\<open>Project/src/stm32f107.c\<close>), the clock displays of \<open>stm32f107.c\<close> and \<open>main.c\<close>, and the
  millisecond clock \<open>LocalTime\<close> with the timers that run on it.  The last are stated as
  an interface, \<open>periodic\<close>, for the timers of the network stack.
\<close>

section \<open>Keys\<close>

datatype key = NOKEY | KEY1 | KEY2 | KEY3 | KEY4

text \<open>
  The levels of the four key pins; a pressed key pulls its pin low.  Each reading of
  the pins is an input of its own.
\<close>

type_synonym pins = "bool \<times> bool \<times> bool \<times> bool"

definition Check_315M_Wireless :: "bool \<Rightarrow> bool" where
  "Check_315M_Wireless pin = (if \<not> pin then True else False)"

fun ReadKeyDown :: "pins \<Rightarrow> key" where
  "ReadKeyDown (p1, p2, p3, p4) =
     (if \<not> p1 then KEY1
      else if \<not> p2 then KEY2
      else if \<not> p3 then KEY3
      else if \<not> p4 then KEY4
      else NOKEY)"

record debounce =
  Wireless_Debounce :: u16
  Key_Debounce :: u16

primrec wireless_text :: "key \<Rightarrow> string option" where
  "wireless_text NOKEY = None"
| "wireless_text KEY1 = Some '' 315M Wireless Key1 ''"
| "wireless_text KEY2 = Some '' 315M Wireless Key2 ''"
| "wireless_text KEY3 = Some '' 315M Wireless Key3 ''"
| "wireless_text KEY4 = Some '' 315M Wireless Key4 ''"

primrec key_text :: "key \<Rightarrow> string option" where
  "key_text NOKEY = None"
| "key_text KEY1 = Some '' Key1               ''"
| "key_text KEY2 = Some ''      Key2          ''"
| "key_text KEY3 = Some ''           Key3     ''"
| "key_text KEY4 = Some ''               Key4 ''"

text \<open>
  One call: the radio pin, the pins at the first and at the second reading; the result
  is the new counters and the text put on line 3, if any.
\<close>

definition Key_315M_Wireless_Display ::
    "bool \<Rightarrow> pins \<Rightarrow> pins \<Rightarrow> debounce \<Rightarrow> debounce \<times> string option" where
  "Key_315M_Wireless_Display radio first second s =
     (if Check_315M_Wireless radio
      then (if 1 = Wireless_Debounce s
            then (let s = s\<lparr>Wireless_Debounce := Wireless_Debounce s + 1\<rparr> in
                  case wireless_text (ReadKeyDown first) of
                    Some text \<Rightarrow> (s, Some text)
                  | None \<Rightarrow> (s\<lparr>Wireless_Debounce := 0\<rparr>, None))
            else (s\<lparr>Wireless_Debounce := 1\<rparr>, None))
      else (let s = s\<lparr>Wireless_Debounce := 0\<rparr> in
            if NOKEY \<noteq> ReadKeyDown first
            then (if 0 = Key_Debounce s then (s\<lparr>Key_Debounce := 1\<rparr>, None)
                  else if 1 = Key_Debounce s
                  then (let s = s\<lparr>Key_Debounce := Key_Debounce s + 1\<rparr> in
                        case key_text (ReadKeyDown second) of
                          Some text \<Rightarrow> (s, Some text)
                        | None \<Rightarrow> (s\<lparr>Key_Debounce := 0\<rparr>, None))
                  else (s, None))
            else (s\<lparr>Key_Debounce := 0\<rparr>, None)))"

text \<open>A sequence of calls and the texts shown.\<close>

fun key_run :: "(bool \<times> pins \<times> pins) list \<Rightarrow> debounce \<Rightarrow> string option list" where
  "key_run [] s = []"
| "key_run ((radio, first, second) # ins) s =
     (let (s', out) = Key_315M_Wireless_Display radio first second s in out # key_run ins s')"

definition pressed :: "pins \<Rightarrow> bool" where
  "pressed p \<longleftrightarrow> ReadKeyDown p \<noteq> NOKEY"

lemma key_text_pressed: "key_text (ReadKeyDown p) = None \<longleftrightarrow> \<not> pressed p"
  unfolding pressed_def by (cases "ReadKeyDown p") simp_all

lemma key_held:
  "pressed p \<Longrightarrow> Key_Debounce s = 2 \<Longrightarrow>
   key_run (replicate n (True, p, p)) s = replicate n None"
  by (induction n arbitrary: s)
    (simp_all add: Key_315M_Wireless_Display_def Check_315M_Wireless_def pressed_def Let_def)

text \<open>
  A wired key that goes down and stays down is shown exactly once, at the second
  call: not at the first, which may be a bounce, and never again while it is held.
\<close>

theorem key_shown_once:
  assumes "pressed p" "Key_Debounce s = 0"
  shows "key_run (replicate (n + 2) (True, p, p)) s
    = None # key_text (ReadKeyDown p) # replicate n None"
proof -
  obtain t where t: "key_text (ReadKeyDown p) = Some t"
    using assms(1) key_text_pressed [of p] by auto
  let ?s = "s\<lparr>Wireless_Debounce := 0, Key_Debounce := 1\<rparr>"
  have "key_run (replicate (n + 2) (True, p, p)) s
      = None # Some t # key_run (replicate n (True, p, p)) (?s\<lparr>Key_Debounce := 2\<rparr>)"
    using assms t by (simp add: Key_315M_Wireless_Display_def Check_315M_Wireless_def pressed_def Let_def)
  with assms(1) t show ?thesis by (simp add: key_held)
qed

theorem key_shown_once_witness:
  "key_run (replicate 4 (True, (True, False, True, True), (True, False, True, True)))
     \<lparr>Wireless_Debounce = 0, Key_Debounce = 0\<rparr>
   = [None, Some ''      Key2          '', None, None]"
proof -
  let ?p = "(True, False, True, True)"
  have "pressed ?p" "Key_Debounce \<lparr>Wireless_Debounce = 0, Key_Debounce = 0\<rparr> = 0"
    by (simp_all add: pressed_def)
  from key_shown_once [OF this, of 2] show ?thesis by (simp add: numeral_eq_Suc)
qed

section \<open>The clock and its displays\<close>

definition SYSTEMTICK_PERIOD_MS :: u32 where "SYSTEMTICK_PERIOD_MS = 10"

definition Time_Update :: "u32 \<Rightarrow> u32" where
  "Time_Update LocalTime = LocalTime + SYSTEMTICK_PERIOD_MS"

definition hh_mm_ss :: "u32 \<Rightarrow> string" where
  "hh_mm_ss TimeVar =
     (let THH = (TimeVar div 3600) mod 24; TMM = (TimeVar mod 3600) div 60; TSS = (TimeVar mod 3600) mod 60
      in dec2 (unat THH) @ '':'' @ dec2 (unat TMM) @ '':'' @ dec2 (unat TSS))"

text \<open>\<open>store_text\<close> is a \<open>sprintf\<close> into a buffer of so many bytes.\<close>

definition store_text :: "nat \<Rightarrow> string \<Rightarrow> string option" where
  "store_text n s = (if cstr_size s \<le> n then Some s else None)"

definition Time_Display :: "u32 \<Rightarrow> string option" where
  "Time_Display TimeVar =
     store_text (cstr_size (replicate 20 (CHR '' ''))) (''  Time:  '' @ hh_mm_ss TimeVar @ ''  '')"

text \<open>The timer after the call and what is displayed, if anything; \<open>None\<close> is the overrun of \<open>TimeStr\<close>.\<close>

definition LCD_Time_Update :: "u32 \<Rightarrow> u32 \<Rightarrow> (u32 \<times> string option) option" where
  "LCD_Time_Update localtime LcdDisplayTimer =
     (if localtime \<ge> LcdDisplayTimer + 1000
      then (case store_text 20 ('' Run Time: '' @ hh_mm_ss (localtime div 1000) @ '' '') of
              None \<Rightarrow> None
            | Some text \<Rightarrow> Some (localtime, Some text))
      else Some (LcdDisplayTimer, None))"

lemma length_hh_mm_ss [simp]: "length (hh_mm_ss t) = 8"
proof -
  have "unat t mod 3600 div 60 < 60"
    by (rule less_mult_imp_div_less) simp
  then have "unat ((t mod 3600) div 60) < 100"
    by (simp add: unat_mod_distrib unat_div_distrib)
  moreover have "unat (x mod 60) < 100" "unat (x mod 24) < 100" for x :: u32
    using mod_less_divisor [of 60 "unat x"] mod_less_divisor [of 24 "unat x"]
    by (simp_all add: unat_mod_distrib)
  ultimately show ?thesis by (simp add: hh_mm_ss_def Let_def)
qed

lemma Time_Display_fits: "Time_Display t = Some (''  Time:  '' @ hh_mm_ss t @ ''  '')"
  by (simp add: Time_Display_def store_text_def cstr_size_def)

text \<open>The text with the running time is 20 characters and needs 21 bytes; the buffer has 20.\<close>

lemma LCD_Time_Update_overruns:
  "LCD_Time_Update localtime timer = None \<longleftrightarrow> localtime \<ge> timer + 1000"
  by (simp add: LCD_Time_Update_def store_text_def cstr_size_def)

section \<open>Periodic tasks\<close>

text \<open>
  A task on the millisecond clock: it keeps the time of its last run and runs again
  once \<open>period\<close> has gone by, by an unsigned difference.  The client polls it at every
  advance of the clock.
\<close>

locale periodic =
  fixes stamp :: "'s \<Rightarrow> u32" and run :: "u32 \<Rightarrow> 's \<Rightarrow> 's" and runs :: "u32 \<Rightarrow> 's \<Rightarrow> bool"
    and period :: nat
  assumes runs_iff: "runs now s \<longleftrightarrow> period \<le> unat (now - stamp s)"
    and stamp_run: "stamp (run now s) = (if runs now s then now else stamp s)"
begin

text \<open>\<open>n\<close> ticks of the clock, each followed by a poll: the state and the number of runs.\<close>

primrec ticks :: "nat \<Rightarrow> u32 \<Rightarrow> 's \<Rightarrow> 's \<times> nat" where
  "ticks 0 now s = (s, 0)"
| "ticks (Suc n) now s =
     (let (s', k) = ticks n now s; t = now + of_nat (10 * Suc n)
      in (run t s', k + (if runs t s' then 1 else 0)))"

lemma not_early: "now - stamp s = of_nat d \<Longrightarrow> d < period \<Longrightarrow> period \<le> 4294967296 \<Longrightarrow> \<not> runs now s"
  by (simp add: runs_iff unat_of_nat)

text \<open>
  Polled at every tick, the task runs exactly once per period, also across the wrap of
  the clock.
\<close>

lemma exact_rate:
  assumes "stamp s = now" "period = 10 * m" "0 < m" "10 * m < 4294967296"
  shows "stamp (fst (ticks n now s)) = now + of_nat (10 * m * (n div m)) \<and> snd (ticks n now s) = n div m"
proof (induction n)
  case (Suc n)
  define q where "q = n div m"
  define s' where "s' = fst (ticks n now s)"
  let ?t = "now + of_nat (10 * Suc n)"
  have IH: "stamp s' = now + of_nat (10 * m * q)" "snd (ticks n now s) = q"
    using Suc by (simp_all add: s'_def q_def)
  have le: "m * q \<le> n" by (simp add: q_def)
  have lt: "n < m * q + m"
    using mult_div_mod_eq [of m n] mod_less_divisor [of m n] assms(3) unfolding q_def by linarith
  have "?t - stamp s' = of_nat (10 * Suc n) - of_nat (10 * m * q)" by (simp add: IH)
  also have "\<dots> = of_nat (10 * Suc n - 10 * m * q)" using le by (intro of_nat_diff [symmetric]) simp
  finally have "unat (?t - stamp s') = (10 * Suc n - 10 * m * q) mod 4294967296"
    by (simp only: unat_of_nat_u32)
  then have d: "unat (?t - stamp s') = 10 * Suc n - 10 * m * q"
    using lt assms(4) by simp
  obtain k where k: "n = m * q + k" using le le_Suc_ex by blast
  then have "10 * Suc n - 10 * m * q = 10 * (k + 1)" by simp
  then have r: "runs ?t s' \<longleftrightarrow> Suc n = m * q + m"
    unfolding runs_iff d assms(2) using lt k by auto
  have div_next: "Suc n div m = (if Suc n = m * q + m then Suc q else q)"
  proof (cases "Suc n = m * q + m")
    case True
    then have "Suc n = m * Suc q" by simp
    then show ?thesis using True assms(3) by simp
  next
    case False
    then have "m * q \<le> Suc n" "Suc n < m * Suc q" using le lt by auto
    then have "Suc n div m = q" by (intro div_nat_eqI) (simp_all add: mult.commute)
    then show ?thesis using False by simp
  qed
  have split: "ticks (Suc n) now s = (run ?t s', q + (if runs ?t s' then 1 else 0))"
    using IH(2) by (cases "ticks n now s") (simp add: s'_def Let_def)
  show ?case
  proof (cases "Suc n = m * q + m")
    case True
    then have "10 * m * Suc q = 10 * Suc n" by simp
    then show ?thesis using True r unfolding split div_next
      by (simp only: stamp_run if_True fst_conv snd_conv) simp
  next
    case False
    then show ?thesis using r IH unfolding split div_next
      by (simp only: stamp_run if_False fst_conv snd_conv) simp
  qed
qed (use assms in simp)

end

end
