(* ===== verification/Netconf.thy ===== *)
theory Netconf
  imports Inet Board
begin

text \<open>
  The network configuration of the application, \<open>Project/src/netconf.c\<close>, and the main
  loop's periodic handler, \<open>Project/src/main.c\<close>: the five timers, the display of a new
  address, the start of the applications and the fall-back to a static address when no
  DHCP server answers.  The calls into the LCD, the stack and the applications are the
  outputs, in their order; the text sent to the serial port is left out.
\<close>

section \<open>State\<close>

record netconf =
  TCPTimer :: u32
  ARPTimer :: u32
  DHCPfineTimer :: u32
  DHCPcoarseTimer :: u32
  IPaddress :: u32
  DisplayTimer :: u32
  LedToggle :: u8
  Server :: u8
  iface :: netif

datatype call =
    Tcp_tmr | Etharp_tmr | Dhcp_fine_tmr | Dhcp_coarse_tmr
  | LCD_DisplayStringLine nat string | LCD_DisplayWelcomeStr nat | LCD_Clear | LCD_SetColors
  | STM_EVAL_LEDToggle u8 | Delay_ARMJISHU
  | Server_init | Client_init | Dhcp_start | Dhcp_stop
  | Mem_init | Memp_init | Set_MAC_Address "u8 list" | Netif_add | Netif_set_default | Netif_set_up

section \<open>LwIP_Init\<close>

definition CLIENTMAC6 :: u8 where "CLIENTMAC6 = 2"
definition NETIF_FLAG_DHCP :: u8 where "NETIF_FLAG_DHCP = 0x08"

text \<open>
  With DHCP the interface starts with cleared addresses.  \<open>netif_add\<close>, \<open>dhcp_start\<close> and
  \<open>netif_set_up\<close> belong to the stack and are only called here.
\<close>

definition LwIP_Init :: "netconf \<Rightarrow> netconf \<times> call list" where
  "LwIP_Init s =
     (let macaddress = [0xcc, 0xbb, 0xaa, 0x99, 0x88, 0x1] :: u8 list;
          macaddress = macaddress[5 := CLIENTMAC6]
      in (s\<lparr>Server := 0, iface := (iface s)\<lparr>ip_addr := 0, netmask := 0, gw := 0\<rparr>\<rparr>,
          [Mem_init, Memp_init,
           LCD_DisplayStringLine 5 ''  Keep Key2 button  '',
           LCD_DisplayStringLine 6 ''pressed to activate '',
           LCD_DisplayStringLine 7 ''     the Client     '',
           LCD_DisplayStringLine 5 ''                    '',
           LCD_DisplayStringLine 6 ''  Client selected   '',
           LCD_DisplayStringLine 7 ''                    '',
           Set_MAC_Address macaddress, Netif_add, Netif_set_default, Dhcp_start, Netif_set_up]))"

section \<open>LwIP_Periodic_Handle\<close>

definition TCP_TMR_INTERVAL :: u32 where "TCP_TMR_INTERVAL = 250"
definition ARP_TMR_INTERVAL :: u32 where "ARP_TMR_INTERVAL = 5000"
definition DHCP_FINE_TIMER_MSECS :: u32 where "DHCP_FINE_TIMER_MSECS = 500"
definition DHCP_COARSE_TIMER_MSECS :: u32 where "DHCP_COARSE_TIMER_MSECS = 60 * 1000"

definition LwIP_Periodic_Handle :: "u32 \<Rightarrow> netconf \<Rightarrow> netconf \<times> call list" where
  "LwIP_Periodic_Handle localtime s =
     (let (s, calls) = (if localtime - TCPTimer s \<ge> TCP_TMR_INTERVAL
                        then (s\<lparr>TCPTimer := localtime\<rparr>, [Tcp_tmr]) else (s, []));
          (s, calls) = (if localtime - ARPTimer s \<ge> ARP_TMR_INTERVAL
                        then (s\<lparr>ARPTimer := localtime\<rparr>, calls @ [Etharp_tmr]) else (s, calls));
          (s, calls) = (if localtime - DHCPfineTimer s \<ge> DHCP_FINE_TIMER_MSECS
                        then (s\<lparr>DHCPfineTimer := localtime\<rparr>, calls @ [Dhcp_fine_tmr]) else (s, calls));
          (s, calls) = (if localtime - DHCPcoarseTimer s \<ge> DHCP_COARSE_TIMER_MSECS
                        then (s\<lparr>DHCPcoarseTimer := localtime\<rparr>, calls @ [Dhcp_coarse_tmr]) else (s, calls))
      in (s, calls))"

definition periodic_run :: "u32 \<Rightarrow> netconf \<Rightarrow> netconf" where
  "periodic_run now s = fst (LwIP_Periodic_Handle now s)"

definition calls_made :: "call \<Rightarrow> u32 \<Rightarrow> netconf \<Rightarrow> bool" where
  "calls_made c now s \<longleftrightarrow> c \<in> set (snd (LwIP_Periodic_Handle now s))"

lemmas periodic_defs = LwIP_Periodic_Handle_def periodic_run_def calls_made_def
  TCP_TMR_INTERVAL_def ARP_TMR_INTERVAL_def DHCP_FINE_TIMER_MSECS_def DHCP_COARSE_TIMER_MSECS_def

interpretation tcp_timer: periodic TCPTimer periodic_run "calls_made Tcp_tmr" 250
  by unfold_locales (auto simp: periodic_defs word_le_nat_alt Let_def)

interpretation arp_timer: periodic ARPTimer periodic_run "calls_made Etharp_tmr" 5000
  by unfold_locales (auto simp: periodic_defs word_le_nat_alt Let_def)

interpretation dhcp_fine_timer: periodic DHCPfineTimer periodic_run "calls_made Dhcp_fine_tmr" 500
  by unfold_locales (auto simp: periodic_defs word_le_nat_alt Let_def)

interpretation dhcp_coarse_timer: periodic DHCPcoarseTimer periodic_run "calls_made Dhcp_coarse_tmr" 60000
  by unfold_locales (auto simp: periodic_defs word_le_nat_alt Let_def)

text \<open>The main loop over \<open>n\<close> ticks of the clock: the calls of all polls.\<close>

primrec poll_ticks :: "nat \<Rightarrow> u32 \<Rightarrow> netconf \<Rightarrow> netconf \<times> call list" where
  "poll_ticks 0 now s = (s, [])"
| "poll_ticks (Suc n) now s =
     (let (s', calls) = poll_ticks n now s;
          (s'', more) = LwIP_Periodic_Handle (now + of_nat (10 * Suc n)) s'
      in (s'', calls @ more))"

lemma count_list_append [simp]: "count_list (xs @ ys) a = count_list xs a + count_list ys a"
  by (induction xs) auto

lemma count_calls:
  assumes "c \<in> {Tcp_tmr, Etharp_tmr, Dhcp_fine_tmr, Dhcp_coarse_tmr}"
  shows "count_list (snd (LwIP_Periodic_Handle now s)) c = (if calls_made c now s then 1 else 0)"
  using assms by (auto simp: LwIP_Periodic_Handle_def calls_made_def Let_def)

lemma poll_ticks_eq:
  assumes "\<And>now s. count_list (snd (LwIP_Periodic_Handle now s)) c = (if calls_made c now s then 1 else 0)"
    and "t 0 now s = (s, 0)"
    and "\<And>n. t (Suc n) now s = (let (s', k) = t n now s; u = now + of_nat (10 * Suc n)
      in (periodic_run u s', k + (if calls_made c u s' then 1 else 0)))"
  shows "fst (poll_ticks n now s) = fst (t n now s) \<and>
    count_list (snd (poll_ticks n now s)) c = snd (t n now s)"
proof (induction n)
  case (Suc n)
  then show ?case
    by (simp add: assms(1,3) periodic_run_def Let_def split_beta)
qed (simp add: assms(2))

text \<open>
  With the main loop polled at every tick of 10 ms, each service of the stack runs
  exactly once per period, TCP every 25 ticks, ARP every 500, DHCP every 50 and every
  6000, for ever, the wrap of the 32 bit clock included.
\<close>

theorem periodic_services_on_time:
  assumes "TCPTimer s = now" "ARPTimer s = now" "DHCPfineTimer s = now" "DHCPcoarseTimer s = now"
  shows "count_list (snd (poll_ticks n now s)) Tcp_tmr = n div 25
    \<and> count_list (snd (poll_ticks n now s)) Etharp_tmr = n div 500
    \<and> count_list (snd (poll_ticks n now s)) Dhcp_fine_tmr = n div 50
    \<and> count_list (snd (poll_ticks n now s)) Dhcp_coarse_tmr = n div 6000"
  using poll_ticks_eq [of Tcp_tmr tcp_timer.ticks now s n]
    poll_ticks_eq [of Etharp_tmr arp_timer.ticks now s n]
    poll_ticks_eq [of Dhcp_fine_tmr dhcp_fine_timer.ticks now s n]
    poll_ticks_eq [of Dhcp_coarse_tmr dhcp_coarse_timer.ticks now s n]
    tcp_timer.exact_rate [OF assms(1), of 25 n] arp_timer.exact_rate [OF assms(2), of 500 n]
    dhcp_fine_timer.exact_rate [OF assms(3), of 50 n] dhcp_coarse_timer.exact_rate [OF assms(4), of 6000 n]
  by (simp add: count_calls)

definition netconf0 :: netconf where
  "netconf0 = \<lparr>TCPTimer = 0, ARPTimer = 0, DHCPfineTimer = 0, DHCPcoarseTimer = 0, IPaddress = 0,
     DisplayTimer = 0, LedToggle = 4, Server = 0,
     iface = \<lparr>ip_addr = 0, netmask = 0, gw = 0, hwaddr_len = 6, hwaddr = [], mtu = 1500, flags = 0,
       dhcp_tries = Some 0\<rparr>\<rparr>"

theorem periodic_services_on_time_witness:
  "count_list (snd (poll_ticks 1000 0 netconf0)) Tcp_tmr = 40"
  using periodic_services_on_time [of netconf0 0 1000] by (simp add: netconf0_def)

section \<open>Display_Periodic_Handle\<close>

definition LCD_TIMER_MSECS :: u32 where "LCD_TIMER_MSECS = 250"
definition MAX_DHCP_TRIES :: u8 where "MAX_DHCP_TRIES = 4"

text \<open>
  What is shown and started after an address change.  \<open>phy\<close> is the value of PHY
  register 17.  Three texts go through the 20 byte buffer \<open>iptxt\<close>: \<open>None\<close> is the overrun
  of one of them.
\<close>

definition show_address :: "u16 \<Rightarrow> netif \<Rightarrow> call list option" where
  "show_address phy n =
     (case store_text 20 (''   '' @ sprint_ip (ip_addr n) @ ''    '') of None \<Rightarrow> None | Some iptxt \<Rightarrow>
      let assigned = (if flags n AND NETIF_FLAG_DHCP \<noteq> 0
            then [LCD_DisplayStringLine 7 ''IP address assigned '',
                  LCD_DisplayStringLine 8 ''  by a DHCP server  '',
                  LCD_DisplayStringLine 9 iptxt, Delay_ARMJISHU]
            else [LCD_DisplayStringLine 8 ''  Static IP address   '',
                  LCD_DisplayStringLine 9 iptxt]);
          clear = [LCD_Clear, LCD_SetColors, LCD_DisplayStringLine 8 ''  www.armjishu.com  '',
                   LCD_DisplayWelcomeStr 9];
          speed = LCD_DisplayStringLine 5 (if phy AND 0x3000 \<noteq> 0
            then ''   ETH_Speed_10M    '' else ''   ETH_Speed_100M   '');
          duplex = LCD_DisplayStringLine 6 (if phy AND 0xA000 \<noteq> 0
            then '' ETH_Mode_FullDuplex'' else '' ETH_Mode_HalfDuplex'')
      in case store_text 20 (''ip: '' @ sprint_ip (ip_addr n) @ '' '') of None \<Rightarrow> None | Some iptxt \<Rightarrow>
         case store_text 20 (''gw: '' @ sprint_ip (gw n) @ ''  '') of None \<Rightarrow> None | Some gwtxt \<Rightarrow>
         Some (assigned @ clear @ [speed, duplex, LCD_DisplayWelcomeStr 0, LCD_DisplayStringLine 2 iptxt,
           LCD_DisplayStringLine 1 ''  You are a server  '', Server_init,
           LCD_DisplayStringLine 1 ''  You are a client  '', Client_init,
           LCD_DisplayStringLine 3 gwtxt]))"

definition netif_addr_set :: "u32 \<Rightarrow> u32 \<Rightarrow> u32 \<Rightarrow> netif \<Rightarrow> netif" where
  "netif_addr_set a m g n = n\<lparr>ip_addr := a, netmask := m, gw := g\<rparr>"

text \<open>
  Waiting for the DHCP server.  The first line is chosen by the toggle counter; the
  dereference of \<open>netif.dhcp\<close> needs a started client.
\<close>

definition wait_for_dhcp :: "netconf \<Rightarrow> (netconf \<times> call list) option" where
  "wait_for_dhcp s =
     (let t = LedToggle s AND 3;
          line7 = (if t = 0 then [LCD_DisplayWelcomeStr 7]
             else if t = 1 then [LCD_DisplayStringLine 7 ''  ***************** '']
             else if t = 2 then [LCD_DisplayStringLine 7 ''  %%%%%%%%%%%%%%%%% '']
             else if t = 3 then [LCD_DisplayStringLine 7 ''  ################# ''] else []);
          calls = [LCD_DisplayStringLine 4 ''     Looking for    '',
             LCD_DisplayStringLine 5 ''     DHCP server    '',
             LCD_DisplayStringLine 6 ''     please wait... ''] @ line7 @ [STM_EVAL_LEDToggle t];
          s = s\<lparr>LedToggle := t + 1\<rparr>
      in case dhcp_tries (iface s) of None \<Rightarrow> None
         | Some tries \<Rightarrow>
             if tries > MAX_DHCP_TRIES
             then Some (s\<lparr>iface := netif_addr_set (IP4_ADDR 192 168 1 6) (IP4_ADDR 255 255 255 0)
                           (IP4_ADDR 192 168 1 1) (iface s)\<rparr>,
                        calls @ [LCD_DisplayStringLine 7 ''    DHCP timeout    '', Dhcp_stop])
             else Some (s, calls))"

definition Display_Periodic_Handle :: "u16 \<Rightarrow> u32 \<Rightarrow> netconf \<Rightarrow> (netconf \<times> call list) option" where
  "Display_Periodic_Handle phy localtime s =
     (if localtime - DisplayTimer s \<ge> LCD_TIMER_MSECS
      then (let s = s\<lparr>DisplayTimer := localtime\<rparr> in
            if IPaddress s \<noteq> ip_addr (iface s)
            then (case show_address phy (iface s) of None \<Rightarrow> None
                  | Some calls \<Rightarrow> Some (s\<lparr>IPaddress := ip_addr (iface s)\<rparr>, calls))
            else if IPaddress s = 0 then wait_for_dhcp s
            else Some (s, []))
      else Some (s, []))"

lemma store_text_None [simp]: "store_text n t = None \<longleftrightarrow> n \<le> length t"
  by (auto simp: store_text_def cstr_size_def)

lemma show_address_None:
  "show_address phy n = None \<longleftrightarrow> 12 < length (sprint_ip (ip_addr n)) \<or> 13 < length (sprint_ip (gw n))"
  by (auto simp: show_address_def Let_def store_text_def cstr_size_def split: option.splits)

text \<open>
  The display handler stays inside its text buffer and never follows a missing DHCP
  client, except in these cases, all of which need the 250 ms to be over: a new address
  is longer than 12 characters or its gateway's longer than 13, as 192.168.100.100
  is, or no address was ever assigned and the DHCP client was not started.
\<close>

theorem Display_Periodic_Handle_defined:
  "Display_Periodic_Handle phy localtime s \<noteq> None \<longleftrightarrow>
     \<not> (250 \<le> unat (localtime - DisplayTimer s) \<and>
        ((IPaddress s \<noteq> ip_addr (iface s)
          \<and> (12 < length (sprint_ip (ip_addr (iface s))) \<or> 13 < length (sprint_ip (gw (iface s)))))
         \<or> (IPaddress s = 0 \<and> ip_addr (iface s) = 0 \<and> dhcp_tries (iface s) = None)))"
  using show_address_None [of phy "iface s"]
  by (auto simp: Display_Periodic_Handle_def wait_for_dhcp_def LCD_TIMER_MSECS_def word_le_nat_alt Let_def
      split: option.splits)

lemma static_texts:
  "sprint_ip (IP4_ADDR 192 168 1 6) = ''192.168.1.6''" "sprint_ip (IP4_ADDR 192 168 1 1) = ''192.168.1.1''"
proof -
  have t: "iptab (IP4_ADDR a b c d) = [d, c, b, a]" for a b c d
    using mem_bytes_IP4_ADDR [of a b c d] by (simp add: iptab_def mem_bytes_def)
  have d: "dec 192 = ''192''" "dec 168 = ''168''" "dec (Suc 0) = ''1''" "dec 6 = ''6''"
    by (simp_all add: dec_three dec_small digit_char_def code_inject code_def)
  show "sprint_ip (IP4_ADDR 192 168 1 6) = ''192.168.1.6''" "sprint_ip (IP4_ADDR 192 168 1 1) = ''192.168.1.1''"
    by (simp_all add: sprint_ip_def t d)
qed

lemma static_not_zero: "IP4_ADDR 192 168 1 6 \<noteq> 0"
proof
  assume "IP4_ADDR 192 168 1 6 = 0"
  then have "mem_bytes (IP4_ADDR 192 168 1 6) = mem_bytes 0" by simp
  then show False unfolding mem_bytes_IP4_ADDR by (simp add: mem_bytes_def)
qed

text \<open>
  When no DHCP server has answered after more than four tries, the next display
  period stops the client and gives the interface 192.168.1.6, the period after
  that starts the server and the client application, once each, and from then on
  nothing is started again.
\<close>

theorem static_fallback:
  assumes "IPaddress s = 0" "ip_addr (iface s) = 0" "dhcp_tries (iface s) = Some t" "4 < t"
    and "250 \<le> unat (t1 - DisplayTimer s)" "250 \<le> unat (t2 - t1)"
  shows "\<exists>s1 c1 s2 c2. Display_Periodic_Handle phy t1 s = Some (s1, c1) \<and> last c1 = Dhcp_stop
    \<and> ip_addr (iface s1) = IP4_ADDR 192 168 1 6 \<and> netmask (iface s1) = IP4_ADDR 255 255 255 0
    \<and> gw (iface s1) = IP4_ADDR 192 168 1 1
    \<and> Display_Periodic_Handle phy t2 s1 = Some (s2, c2)
    \<and> count_list c2 Server_init = 1 \<and> count_list c2 Client_init = 1
    \<and> (\<forall>t3. \<exists>s3. Display_Periodic_Handle phy t3 s2 = Some (s3, []))"
proof -
  let ?n = "netif_addr_set (IP4_ADDR 192 168 1 6) (IP4_ADDR 255 255 255 0) (IP4_ADDR 192 168 1 1) (iface s)"
  define s1 where "s1 = s\<lparr>DisplayTimer := t1, LedToggle := (LedToggle s AND 3) + 1, iface := ?n\<rparr>"
  define s2 where "s2 = s1\<lparr>DisplayTimer := t2, IPaddress := IP4_ADDR 192 168 1 6\<rparr>"
  obtain c1 where first: "Display_Periodic_Handle phy t1 s = Some (s1, c1)" "last c1 = Dhcp_stop"
    using assms by (auto simp: Display_Periodic_Handle_def wait_for_dhcp_def Let_def s1_def
        LCD_TIMER_MSECS_def MAX_DHCP_TRIES_def word_le_nat_alt)
  have n1: "iface s1 = ?n" "IPaddress s1 = 0" using assms by (simp_all add: s1_def)
  obtain c2 where show2: "show_address phy ?n = Some c2"
      "count_list c2 Server_init = 1" "count_list c2 Client_init = 1"
    by (auto simp: show_address_def Let_def store_text_def cstr_size_def netif_addr_set_def static_texts)
  have "Display_Periodic_Handle phy t2 s1 = Some (s2, c2)"
    using assms(1,6) show2(1) static_not_zero
    by (simp add: Display_Periodic_Handle_def Let_def n1 LCD_TIMER_MSECS_def word_le_nat_alt s2_def s1_def
        netif_addr_set_def)
  moreover have "\<exists>s3. Display_Periodic_Handle phy t3 s2 = Some (s3, [])" for t3
    using static_not_zero
    by (auto simp: Display_Periodic_Handle_def Let_def s2_def s1_def netif_addr_set_def)
  ultimately show ?thesis
    using first show2 by (intro exI [of _ s1] exI [of _ c1] exI [of _ s2] exI [of _ c2])
      (simp add: n1 netif_addr_set_def)
qed

theorem static_fallback_witness:
  "\<exists>s1 c1. Display_Periodic_Handle 0 1000
     (netconf0\<lparr>iface := (iface netconf0)\<lparr>dhcp_tries := Some 5\<rparr>\<rparr>) = Some (s1, c1) \<and> last c1 = Dhcp_stop"
  using static_fallback [of "netconf0\<lparr>iface := (iface netconf0)\<lparr>dhcp_tries := Some 5\<rparr>\<rparr>" 5 1000 2000 0]
  by (auto simp: netconf0_def)

section \<open>System_Periodic_Handle\<close>

text \<open>One round of the main loop's handler, with the LCD timer of \<open>main.c\<close>.\<close>

definition System_Periodic_Handle ::
    "u16 \<Rightarrow> u32 \<Rightarrow> u32 \<times> netconf \<Rightarrow> ((u32 \<times> netconf) \<times> call list) option" where
  "System_Periodic_Handle phy LocalTime st =
     (case Display_Periodic_Handle phy LocalTime (snd st) of None \<Rightarrow> None
      | Some (s, calls) \<Rightarrow>
          (case LCD_Time_Update LocalTime (fst st) of None \<Rightarrow> None
           | Some (timer, text) \<Rightarrow>
               (let (s, more) = LwIP_Periodic_Handle LocalTime s
                in Some ((timer, s), calls @ (case text of None \<Rightarrow> [] | Some t \<Rightarrow> [LCD_DisplayStringLine 0 t]) @ more))))"

text \<open>
  The main loop's handler completes only while the running time is not due for
  display: from the moment the clock reaches the LCD timer plus 1000 ms, 21 seconds after
  the start, it overruns the 20 byte time buffer by the terminating NUL.
\<close>

theorem System_Periodic_Handle_overruns:
  "System_Periodic_Handle phy t (timer, s) \<noteq> None \<longleftrightarrow>
     \<not> timer + 1000 \<le> t \<and> Display_Periodic_Handle phy t s \<noteq> None"
  using LCD_Time_Update_overruns [of t timer]
  by (auto simp: System_Periodic_Handle_def split: option.splits prod.splits)

end
