(* ===== verification/Httpd.thy ===== *)
theory Httpd
  imports Inet Board
begin

text \<open>
  The web server, \<open>port/httpd.c\<close>: the state of a connection (what is left to send of the
  file), the callbacks of the TCP layer, the requests it understands and the look-up
  in the file system image.  What the TCP layer does is a parameter: the room in the
  send buffer and the result of \<open>tcp_write\<close> at each call.  The image (\<open>fsdata.c\<close>, a
  generated array) is a list of names and contents.
\<close>

section \<open>State and effects\<close>

text \<open>
  \<open>hs_file\<close> is the content from the pointer \<open>hs->file\<close> on, \<open>None\<close> for NULL; \<open>hs_left\<close> the
  number of bytes still to be sent.
\<close>

record http_state =
  hs_file :: "u8 list option"
  hs_left :: u32

datatype http_op =
    Tcp_write "u8 list" err_t | Tcp_recved u16 | Pbuf_free | Set_sent
  | Set_arg_null | Set_sent_null | Set_recv_null | Mem_free_hs | Tcp_close
  | LEDOff nat | LEDOn nat | ADC_Digits u8 u8 u8 | LCD_Line6 string
  | Mem_malloc_hs | Set_arg | Set_recv | Set_err | Set_poll

definition conn_err :: "http_op list" where
  "conn_err = [Mem_free_hs]"

definition close_conn :: "http_op list" where
  "close_conn = [Set_arg_null, Set_sent_null, Set_recv_null, Mem_free_hs, Tcp_close]"

definition file_bytes :: "http_state \<Rightarrow> u8 list" where
  "file_bytes hs = (case hs_file hs of None \<Rightarrow> [] | Some d \<Rightarrow> d)"

definition send_data :: "u16 \<Rightarrow> err_t \<Rightarrow> http_state \<Rightarrow> http_state \<times> http_op list" where
  "send_data sndbuf err hs =
     (let len = (if ucast sndbuf < hs_left hs then sndbuf else ucast (hs_left hs));
          out = [Tcp_write (take (unat len) (file_bytes hs)) err]
      in if err = ERR_OK
         then (hs\<lparr>hs_file := map_option (drop (unat len)) (hs_file hs), hs_left := hs_left hs - ucast len\<rparr>, out)
         else (hs, out))"

text \<open>
  The state handed to the callbacks is the connection's argument: \<open>None\<close> after it was
  reset to NULL.  \<open>http_sent\<close> dereferences it without a test.
\<close>

definition http_poll :: "u16 \<Rightarrow> err_t \<Rightarrow> http_state option \<Rightarrow> http_state option \<times> http_op list" where
  "http_poll sndbuf err arg =
     (case arg of None \<Rightarrow> (None, [Tcp_close])
      | Some hs \<Rightarrow> (let (hs, out) = send_data sndbuf err hs in (Some hs, out)))"

definition http_sent :: "u16 \<Rightarrow> err_t \<Rightarrow> http_state option \<Rightarrow> (http_state option \<times> http_op list) option" where
  "http_sent sndbuf err arg =
     (case arg of None \<Rightarrow> None
      | Some hs \<Rightarrow>
          Some (if hs_left hs > 0
                then (let (hs, out) = send_data sndbuf err hs in (Some hs, out))
                else (None, close_conn)))"

section \<open>Requests\<close>

text \<open>
  \<open>data\<close> is the memory from the payload pointer to the end of its buffer.  A read
  behind it is \<open>None\<close>.  \<open>strncmp_eq data s\<close> is \<open>strncmp (data, s, strlen s) == 0\<close>.
\<close>

definition at :: "u8 list \<Rightarrow> nat \<Rightarrow> u8 option" where
  "at data i = (if i < length data then Some (data ! i) else None)"

fun strncmp_eq :: "u8 list \<Rightarrow> string \<Rightarrow> bool option" where
  "strncmp_eq data [] = Some True"
| "strncmp_eq [] (c # cs) = None"
| "strncmp_eq (b # data) (c # cs) = (if b \<noteq> of_char c then Some False else strncmp_eq data cs)"

fun fs_open :: "(string \<times> u8 list) list \<Rightarrow> string \<Rightarrow> u8 list option" where
  "fs_open [] name = None"
| "fs_open ((n, d) # root) name = (if name = n then Some d else fs_open root name)"

text \<open>The digits of the ADC page: \<open>ADCVal\<close> after the division by 8.\<close>

definition adc_digits :: "nat \<Rightarrow> u8 \<times> u8 \<times> u8" where
  "adc_digits adc =
     (let ADCVal = adc div 8; Digit1 = ADCVal div 100; Digit2 = (ADCVal - Digit1 * 100) div 10;
          Digit3 = ADCVal - Digit1 * 100 - Digit2 * 10
      in (of_nat (0x30 + Digit1), of_nat (0x30 + Digit2), of_nat (0x30 + Digit3)))"

text \<open>The loop over the query of \<open>/method=get\<close>: the LEDs it switches on, in order.\<close>

definition led_of :: "u8 \<Rightarrow> nat list" where
  "led_of b = (if b = 0x31 then [1] else []) @ (if b = 0x32 then [2] else [])
     @ (if b = 0x33 then [3] else []) @ (if b = 0x34 then [4] else [])"

function led_loop :: "u8 list \<Rightarrow> nat \<Rightarrow> nat list option" where
  "led_loop data i =
     (case at data i of None \<Rightarrow> None | Some b \<Rightarrow>
      if b = 0x20 then Some []
      else case at data (i + 1) of None \<Rightarrow> None | Some b \<Rightarrow>
        if b \<noteq> 0x6C then led_loop data (i + 1)
        else case at data (i + 2) of None \<Rightarrow> None | Some b \<Rightarrow>
          if b \<noteq> 0x65 then led_loop data (i + 2)
          else case at data (i + 3) of None \<Rightarrow> None | Some b \<Rightarrow>
            if b \<noteq> 0x64 then led_loop data (i + 3)
            else case at data (i + 5) of None \<Rightarrow> None | Some b \<Rightarrow>
              map_option (append (led_of b)) (led_loop data (i + 5)))"
  by pat_completeness auto
termination
  by (relation "measure (\<lambda>(data, i). length data - i)") (auto simp: at_def split: if_splits)

declare led_loop.simps [simp del]

text \<open>
  The name of a plain request: up to 40 bytes from the fourth on; a blank, CR or LF
  among them ends it.
\<close>

definition terminate_name :: "u8 list \<Rightarrow> u8 list" where
  "terminate_name bs = map (\<lambda>b. if b = 0x20 \<or> b = 0x0D \<or> b = 0x0A then 0 else b) bs"

definition request_name :: "u8 list \<Rightarrow> string option" where
  "request_name data =
     (if 44 \<le> length data
      then Some (map (\<lambda>b. char_of (unat b)) (takeWhile (\<lambda>b. b \<noteq> 0) (terminate_name (take 40 (drop 4 data)))))
      else None)"

text \<open>
  \<open>http_recv\<close> with the ADC value, the image, the TCP layer's answers and the segment:
  its total length and memory.  The connection's argument is dereferenced at once.
\<close>

definition open_page :: "string \<Rightarrow> (string \<times> u8 list) list \<Rightarrow> u8 list option" where
  "open_page name root = fs_open root name"

definition set_file :: "u8 list option \<Rightarrow> http_state \<Rightarrow> http_state" where
  "set_file d hs = hs\<lparr>hs_file := d, hs_left := of_nat (length (case d of None \<Rightarrow> [] | Some x \<Rightarrow> x))\<rparr>"

definition serve :: "u16 \<Rightarrow> err_t \<Rightarrow> u8 list option \<Rightarrow> http_state \<Rightarrow> http_state \<times> http_op list" where
  "serve sndbuf werr d hs =
     (let (hs, out) = send_data sndbuf werr (set_file d hs) in (hs, out @ [Set_sent]))"

definition put_adc :: "u8 \<times> u8 \<times> u8 \<Rightarrow> u8 list \<Rightarrow> u8 list" where
  "put_adc ds d = (case ds of (d1, d2, d3) \<Rightarrow> d[0xE90 := d1, 0xE91 := d2, 0xE92 := d3])"

text \<open>The three digits are stored in the page itself, so the image changes.\<close>

definition update_page :: "string \<Rightarrow> (u8 list \<Rightarrow> u8 list) \<Rightarrow> (string \<times> u8 list) list \<Rightarrow> (string \<times> u8 list) list" where
  "update_page name f root = map (\<lambda>(n, d). (n, if n = name then f d else d)) root"

definition http_request ::
    "nat \<Rightarrow> u16 \<Rightarrow> err_t \<Rightarrow> (string \<times> u8 list) list \<Rightarrow> u8 list \<Rightarrow> http_state
     \<Rightarrow> (http_state option \<times> (string \<times> u8 list) list \<times> http_op list) option" where
  "http_request adc sndbuf werr root data hs =
     (case strncmp_eq data ''GET /STM32F107ADC'' of None \<Rightarrow> None | Some True \<Rightarrow>
        let root = update_page ''/STM32F107ADC.html'' (put_adc (adc_digits adc)) root;
            (hs, out) = serve sndbuf werr (open_page ''/STM32F107ADC.html'' root) hs
        in (case adc_digits adc of (d1, d2, d3) \<Rightarrow>
              Some (Some hs, root, [Pbuf_free, ADC_Digits d1 d2 d3] @ out))
      | Some False \<Rightarrow>
      case strncmp_eq data ''GET /method=get'' of None \<Rightarrow> None | Some True \<Rightarrow>
        (case led_loop data 15 of None \<Rightarrow> None | Some leds \<Rightarrow>
           let (hs, out) = serve sndbuf werr (open_page ''/STM32F107LED.html'' root) hs
           in Some (Some hs, root, map LEDOff [1, 2, 3, 4] @ map LEDOn leds @ [Pbuf_free] @ out))
      | Some False \<Rightarrow>
      case strncmp_eq data ''GET '' of None \<Rightarrow> None | Some True \<Rightarrow>
        (case request_name data of None \<Rightarrow> None | Some fname \<Rightarrow>
           let (hs, out) = serve sndbuf werr
                 (case open_page fname root of Some d \<Rightarrow> Some d | None \<Rightarrow> open_page ''/STM32F107.html'' root) hs
           in Some (Some hs, root, [Pbuf_free] @ out))
      | Some False \<Rightarrow> Some (None, root, close_conn))"

definition http_recv ::
    "nat \<Rightarrow> u16 \<Rightarrow> err_t \<Rightarrow> (string \<times> u8 list) list \<Rightarrow> http_state option \<Rightarrow> (u16 \<times> u8 list) option \<Rightarrow> err_t
     \<Rightarrow> (http_state option \<times> (string \<times> u8 list) list \<times> http_op list) option" where
  "http_recv adc sndbuf werr root arg p err =
     (if err = ERR_OK
      then (case p of
              Some (tot_len, data) \<Rightarrow>
                (case arg of None \<Rightarrow> None | Some hs \<Rightarrow>
                   if hs_file hs = None
                   then map_option (\<lambda>(hs, root, out). (hs, root, Tcp_recved tot_len # out))
                          (http_request adc sndbuf werr root data hs)
                   else Some (Some hs, root, [Tcp_recved tot_len, Pbuf_free]))
            | None \<Rightarrow> Some (None, root, close_conn))
      else Some (arg, root, []))"

definition http_accept :: "u32 \<Rightarrow> bool \<Rightarrow> (err_t \<times> http_state option \<times> http_op list) option" where
  "http_accept remote_ip malloc_ok =
     (case store_text 20 (''Http: '' @ sprint_ip remote_ip @ ''   '') of None \<Rightarrow> None
      | Some iptxt \<Rightarrow>
          Some (if \<not> malloc_ok then (ERR_MEM, None, [LCD_Line6 iptxt, Mem_malloc_hs])
                else (ERR_OK, Some \<lparr>hs_file = None, hs_left = 0\<rparr>,
                      [LCD_Line6 iptxt, Mem_malloc_hs, Set_arg, Set_recv, Set_err, Set_poll])))"

section \<open>Sending a file\<close>

datatype http_event = Sent u16 err_t | Poll u16 err_t

definition http_event :: "http_event \<Rightarrow> http_state option \<Rightarrow> (http_state option \<times> http_op list) option" where
  "http_event e arg = (case e of Sent b err \<Rightarrow> http_sent b err arg | Poll b err \<Rightarrow> Some (http_poll b err arg))"

text \<open>A connection after its request: events until the server closes it.\<close>

fun http_run :: "http_event list \<Rightarrow> http_state option \<Rightarrow> http_op list \<Rightarrow> http_state option \<times> http_op list" where
  "http_run [] arg out = (arg, out)"
| "http_run (e # es) None out = (None, out)"
| "http_run (e # es) (Some hs) out =
     (case http_event e (Some hs) of None \<Rightarrow> (None, out)
      | Some (arg, ops) \<Rightarrow> http_run es arg (out @ ops))"

text \<open>The bytes the TCP layer accepted.\<close>

fun accepted :: "http_op list \<Rightarrow> u8 list" where
  "accepted [] = []"
| "accepted (Tcp_write bs err # ops) = (if err = ERR_OK then bs else []) @ accepted ops"
| "accepted (_ # ops) = accepted ops"

lemma accepted_append [simp]: "accepted (xs @ ys) = accepted xs @ accepted ys"
  by (induction xs rule: accepted.induct) auto

definition sending :: "u8 list \<Rightarrow> http_state \<Rightarrow> http_op list \<Rightarrow> bool" where
  "sending d hs out \<longleftrightarrow> accepted out @ file_bytes hs = d \<and> unat (hs_left hs) = length (file_bytes hs)
     \<and> hs_file hs \<noteq> None \<and> Tcp_close \<notin> set out"

lemma send_data_sending:
  assumes "sending d hs out" "send_data b err hs = (hs', ops)"
  shows "sending d hs' (out @ ops)"
proof -
  define len where "len = (if ucast b < hs_left hs then b else ucast (hs_left hs))"
  have len: "unat len = min (unat b) (unat (hs_left hs))"
  proof (cases "ucast b < hs_left hs")
    case True
    then have "unat b < unat (hs_left hs)" by (simp add: word_less_nat_alt unat_ucast_u16)
    then show ?thesis using True by (simp add: len_def)
  next
    case False
    then have "unat (hs_left hs) \<le> unat b" by (simp add: word_less_nat_alt unat_ucast_u16)
    moreover from this have "unat (hs_left hs) < 65536" using unat_less_65536 [of b] by linarith
    ultimately show ?thesis using False
      by (simp add: len_def unsigned_ucast_eq take_bit_nat_eq_self)
  qed
  obtain rest where f: "hs_file hs = Some rest" using assms(1) by (auto simp: sending_def)
  have left: "unat (hs_left hs) = length rest" using assms(1) f by (simp add: sending_def file_bytes_def)
  have ops: "ops = [Tcp_write (take (unat len) rest) err]"
    and hs': "hs' = (if err = ERR_OK
      then hs\<lparr>hs_file := Some (drop (unat len) rest), hs_left := hs_left hs - ucast len\<rparr> else hs)"
    using assms(2) f by (auto simp: send_data_def Let_def len_def file_bytes_def split: if_splits)
  have "unat (hs_left hs - ucast len) = length rest - unat len"
    using left len by (subst unat_sub) (simp_all add: word_le_nat_alt unat_ucast_u16)
  then show ?thesis using assms(1) f left
    by (auto simp: sending_def file_bytes_def ops hs')
qed

lemma close_conn_accepted [simp]: "accepted close_conn = []" "Tcp_close \<in> set close_conn"
  by (simp_all add: close_conn_def)

lemma http_event_defined: "http_event e (Some hs) \<noteq> None"
  by (cases e) (simp_all add: http_event_def http_sent_def)

text \<open>One event while the page is being sent.\<close>

lemma http_event_sending:
  assumes "sending d hs out" "http_event e (Some hs) = Some (arg, ops)"
  shows "case arg of Some hs' \<Rightarrow> sending d hs' (out @ ops)
    | None \<Rightarrow> accepted (out @ ops) = d \<and> Tcp_close \<in> set (out @ ops)"
proof (cases e)
  case (Sent b err)
  show ?thesis
  proof (cases "hs_left hs > 0")
    case True
    then show ?thesis using assms Sent send_data_sending [OF assms(1), of b err]
      by (auto simp: http_event_def http_sent_def split: prod.splits)
  next
    case False
    then have "hs_left hs = 0" by (simp add: word_gt_0)
    with assms(1) have "file_bytes hs = []" by (simp add: sending_def)
    then show ?thesis using assms Sent False by (auto simp: http_event_def http_sent_def sending_def)
  qed
next
  case (Poll b err)
  then show ?thesis using assms send_data_sending [OF assms(1), of b err]
    by (auto simp: http_event_def http_poll_def split: prod.splits)
qed

lemma http_run_sending:
  assumes "sending d hs out" "http_run es (Some hs) out = (arg, out')"
  shows "case arg of Some hs' \<Rightarrow> sending d hs' out' | None \<Rightarrow> accepted out' = d \<and> Tcp_close \<in> set out'"
  using assms
proof (induction es arbitrary: hs out)
  case (Cons e es)
  obtain arg1 ops where e: "http_event e (Some hs) = Some (arg1, ops)"
    using http_event_defined [of e hs] by (cases "http_event e (Some hs)") auto
  note step = http_event_sending [OF Cons.prems(1) e]
  show ?case
  proof (cases arg1)
    case None
    then show ?thesis using step Cons.prems(2) e by (cases es) auto
  next
    case (Some hs1)
    then show ?thesis using step Cons.prems(2) e Cons.IH [of hs1 "out @ ops"] by simp
  qed
qed auto

text \<open>An acknowledgement that finds room and a willing TCP layer.\<close>

definition good_sent :: "http_event \<Rightarrow> bool" where
  "good_sent e = (case e of Sent b err \<Rightarrow> b \<noteq> 0 \<and> err = ERR_OK | Poll _ _ \<Rightarrow> False)"

lemma file_bytes_shrink:
  assumes "sending d hs out" "http_event e (Some hs) = Some (Some hs', ops)"
  shows "length (file_bytes hs') + (if good_sent e then 1 else 0) \<le> length (file_bytes hs)"
proof -
  have len: "length (file_bytes hs') \<le> length (file_bytes hs)" if "send_data b err hs = (hs', ops)" for b err
    using that by (auto simp: send_data_def Let_def file_bytes_def split: if_splits option.splits)
  have less: "length (file_bytes hs') < length (file_bytes hs)"
    if "send_data b ERR_OK hs = (hs', ops)" "b \<noteq> 0" "hs_left hs > 0" for b
  proof -
    define l where "l = (if ucast b < hs_left hs then b else ucast (hs_left hs))"
    obtain f where f: "hs_file hs = Some f" "unat (hs_left hs) = length f"
      using assms(1) by (auto simp: sending_def file_bytes_def)
    have "0 < length f" using that(3) f(2) by (metis unat_gt_0 word_gt_0)
    moreover have "unat l \<noteq> 0"
    proof (cases "ucast b < hs_left hs")
      case False
      then have le: "unat (hs_left hs) \<le> unat b" by (simp add: word_less_nat_alt unat_ucast_u16)
      then have "unat (hs_left hs) < 65536" using unat_less_65536 [of b] by linarith
      then show ?thesis using False f(2) \<open>0 < length f\<close>
        by (simp add: l_def unsigned_ucast_eq take_bit_nat_eq_self)
    qed (use that(2) in \<open>simp add: l_def unsigned_eq_0_iff\<close>)
    moreover have "file_bytes hs' = drop (unat l) f"
      using that(1) f(1) by (auto simp: send_data_def Let_def l_def file_bytes_def)
    ultimately show ?thesis using f(1) by (simp add: file_bytes_def)
  qed
  show ?thesis using assms(2) len less
    by (cases e) (fastforce simp: http_event_def http_sent_def http_poll_def good_sent_def
        split: prod.splits if_splits)+
qed

lemma http_run_finishes:
  assumes "sending d hs out" "length (file_bytes hs) < length (filter good_sent es)"
  shows "fst (http_run es (Some hs) out) = None"
  using assms
proof (induction es arbitrary: hs out)
  case (Cons e es)
  obtain arg1 ops where e: "http_event e (Some hs) = Some (arg1, ops)"
    using http_event_defined [of e hs] by (cases "http_event e (Some hs)") auto
  show ?case
  proof (cases arg1)
    case None
    then show ?thesis using e by (cases es) simp_all
  next
    case (Some hs1)
    have "sending d hs1 (out @ ops)" using http_event_sending [OF Cons.prems(1) e] Some by simp
    moreover have "length (file_bytes hs1) < length (filter good_sent es)"
      using file_bytes_shrink [OF Cons.prems(1)] e Some Cons.prems(2) by (fastforce split: if_splits)
    ultimately show ?thesis using Cons.IH e Some by simp
  qed
qed simp

text \<open>
  C25: Whatever room the TCP layer has and however often it refuses a write, what it
  accepted of a page is at every moment a beginning of the page, without gaps or
  repetitions; the server closes the connection only when the whole page was accepted,
  and it does close it once there have been more useful acknowledgements than bytes.
\<close>

theorem http_page_complete:
  assumes "length d < 4294967296" "serve b0 err0 (Some d) hs = (hs1, out1)"
    and "http_run es (Some hs1) out1 = (arg, out)"
  shows "(\<exists>rest. d = accepted out @ rest) \<and> (Tcp_close \<in> set out \<longleftrightarrow> arg = None)
    \<and> (arg = None \<longrightarrow> accepted out = d) \<and> (length d < length (filter good_sent es) \<longrightarrow> arg = None)"
proof -
  obtain ops where sd: "send_data b0 err0 (set_file (Some d) hs) = (hs1, ops)" "out1 = ops @ [Set_sent]"
    using assms(2) by (auto simp: serve_def split: prod.splits)
  have "sending d (set_file (Some d) hs) []"
    using assms(1) by (simp add: sending_def set_file_def file_bytes_def unat_of_nat_u32)
  from send_data_sending [OF this sd(1)] have s1: "sending d hs1 out1"
    by (auto simp: sd(2) sending_def)
  then have "length (file_bytes hs1) \<le> length d" by (auto simp: sending_def)
  with http_run_finishes [OF s1, of es] assms(3)
  have "length d < length (filter good_sent es) \<longrightarrow> arg = None" by auto
  with http_run_sending [OF s1 assms(3)] show ?thesis
    by (cases arg) (auto simp: sending_def)
qed

theorem http_page_complete_witness:
  "accepted (snd (http_run [Sent 2 ERR_OK, Sent 2 ERR_MEM, Sent 9 ERR_OK, Sent 9 ERR_OK]
     (Some (fst (serve 1 ERR_OK (Some [1, 2, 3, 4, 5]) \<lparr>hs_file = None, hs_left = 0\<rparr>)))
     (snd (serve 1 ERR_OK (Some [1, 2, 3, 4, 5]) \<lparr>hs_file = None, hs_left = 0\<rparr>)))) = [1, 2, 3, 4, 5]"
proof -
  let ?s = "serve 1 ERR_OK (Some [1, 2, 3, 4, 5]) \<lparr>hs_file = None, hs_left = 0\<rparr>"
  let ?es = "[Sent 2 ERR_OK, Sent 2 ERR_MEM, Sent 9 ERR_OK, Sent 9 ERR_OK]"
  let ?r = "http_run ?es (Some (fst ?s)) (snd ?s)"
  have s: "?s = (fst ?s, snd ?s)" and r: "?r = (fst ?r, snd ?r)" by simp_all
  have "length [1, 2, 3, 4, 5 :: u8] < 4294967296" by simp
  from http_page_complete [OF this s r]
  have "fst ?r = None \<longrightarrow> accepted (snd ?r) = [1, 2, 3, 4, 5]" by blast
  moreover have "fst ?r = None"
    by (simp add: serve_def set_file_def send_data_def http_event_def http_sent_def)
  ultimately show ?thesis by blast
qed

section \<open>The LED page\<close>

lemma at_append: "at (xs @ ys) (length xs + i) = at ys i"
  by (simp add: at_def nth_append)

definition led_param :: "u8 \<Rightarrow> nat \<Rightarrow> u8 list" where
  "led_param sep d = [sep, 0x6C, 0x65, 0x64, 0x3D, of_nat (0x30 + d)]"

lemma led_of_digit: "d \<in> {1, 2, 3, 4} \<Longrightarrow> led_of (of_nat (0x30 + d)) = [d]"
  by (auto simp: led_of_def)

lemma at_simps:
  "at (xs @ b # ys) (length xs) = Some b"
  by (simp add: at_def)

lemma led_loop_param:
  assumes "sep \<noteq> 0x20"
  shows "led_loop (p @ led_param sep d @ rest) (length p)
    = map_option (append (led_of (of_nat (0x30 + d)))) (led_loop (p @ led_param sep d @ rest) (length p + 5))"
  using assms at_append [of p "led_param sep d @ rest" 0]
    at_append [of p "led_param sep d @ rest" 1] at_append [of p "led_param sep d @ rest" 2]
    at_append [of p "led_param sep d @ rest" 3] at_append [of p "led_param sep d @ rest" 5]
  by (subst led_loop.simps) (simp add: led_param_def at_def numeral_eq_Suc)

lemma led_loop_step:
  assumes "at data i = Some b" "b \<noteq> 0x20" "at data (i + 1) = Some c" "c \<noteq> 0x6C"
  shows "led_loop data i = led_loop data (i + 1)"
  using assms by (subst led_loop.simps) simp

lemma led_loop_params:
  assumes "\<forall>(sep, d) \<in> set ps. sep \<noteq> 0x20 \<and> sep \<noteq> 0x6C \<and> d \<in> {1, 2, 3, 4}"
  shows "led_loop (p @ concat (map (\<lambda>(sep, d). led_param sep d) ps) @ 0x20 # rest) (length p)
    = Some (map snd ps)"
  using assms
proof (induction ps arbitrary: p)
  case Nil
  then show ?case by (subst led_loop.simps) (simp add: at_simps)
next
  case (Cons q ps)
  obtain sep d where q: "q = (sep, d)" by force
  let ?tail = "concat (map (\<lambda>(sep, d). led_param sep d) ps) @ 0x20 # rest"
  let ?data = "p @ led_param sep d @ ?tail"
  note prems = Cons.prems
  have ok: "sep \<noteq> 0x20" "d \<in> {1, 2, 3, 4}" using Cons.prems q by auto
  have digit: "at ?data (length p + 5) = Some (of_nat (0x30 + d))"
    using at_append [of p "led_param sep d @ ?tail" 5] by (simp add: led_param_def at_def)
  have digit_nb: "(of_nat (0x30 + d) :: u8) \<noteq> 0x20" using ok(2) by auto
  obtain c where c: "at ?tail 0 = Some c" "c \<noteq> 0x6C"
  proof (cases ps)
    case Nil
    then show ?thesis using that by (simp add: at_def)
  next
    case (Cons q' ps')
    then show ?thesis using that prems
      by (cases q') (auto simp: at_def led_param_def)
  qed
  have len: "length (p @ led_param sep d) = length p + 6" by (simp add: led_param_def)
  have "at ?data (length p + 5 + 1) = Some c"
    using at_append [of "p @ led_param sep d" ?tail 0] c(1) len by (simp add: add.commute)
  from led_loop_step [OF digit digit_nb this c(2)]
  have "led_loop ?data (length p + 5) = led_loop ((p @ led_param sep d) @ ?tail) (length (p @ led_param sep d))"
    using len by (simp add: add.commute)
  also have "\<dots> = Some (map snd ps)" using Cons.IH [of "p @ led_param sep d"] Cons.prems by simp
  finally show ?case
    using led_loop_param [OF ok(1), of p d ?tail] led_of_digit [OF ok(2)] by (simp add: q)
qed

lemma strncmp_prefix: "strncmp_eq (map of_char s @ data) s = Some True"
  by (induction s) simp_all

lemma strncmp_first_differs:
  "strncmp_eq (map of_char (s @ [c]) @ data) (s @ c' # t) = Some False" if "(of_char c :: u8) \<noteq> of_char c'"
  using that by (induction s) simp_all

text \<open>
  The query \<open>/method=get\<close> with parameters \<open>led=1\<close> to \<open>led=4\<close>, after any separators,
  switches all LEDs off and then exactly the named ones on, in the order of the query.
\<close>

theorem http_recv_leds:
  assumes "\<forall>(sep, d) \<in> set ps. sep \<noteq> 0x20 \<and> sep \<noteq> 0x6C \<and> d \<in> {1, 2, 3, 4}" "hs_file hs = None"
    and "data = map of_char ''GET /method=get'' @ concat (map (\<lambda>(sep, d). led_param sep d) ps) @ 0x20 # rest"
  shows "\<exists>hs' ops. http_recv adc sndbuf werr root (Some hs) (Some (n, data)) ERR_OK
      = Some (Some hs', root, Tcp_recved n # map LEDOff [1, 2, 3, 4] @ map (LEDOn \<circ> snd) ps @ Pbuf_free # ops)"
proof -
  let ?rest = "concat (map (\<lambda>(sep, d). led_param sep d) ps) @ 0x20 # rest"
  have leds: "led_loop data 15 = Some (map snd ps)"
  proof -
    have len: "length (map of_char ''GET /method=get'' :: u8 list) = 15" by simp
    show ?thesis
      using led_loop_params [OF assms(1), of "map of_char ''GET /method=get''" rest]
      unfolding assms(3) len .
  qed
  have "strncmp_eq data ''GET /method=get'' = Some True"
    unfolding assms(3) by (rule strncmp_prefix)
  moreover have "strncmp_eq data ''GET /STM32F107ADC'' = Some False"
    unfolding assms(3) by simp
  ultimately show ?thesis
    using assms(2) leds by (auto simp: http_recv_def http_request_def split: prod.splits)
qed

theorem http_recv_leds_witness:
  "\<exists>hs' ops. http_recv 0 100 ERR_OK [] (Some \<lparr>hs_file = None, hs_left = 0\<rparr>)
      (Some (30, map of_char ''GET /method=get?led=3&led=1 HTTP'')) ERR_OK
    = Some (Some hs', [], [Tcp_recved 30, LEDOff 1, LEDOff 2, LEDOff 3, LEDOff 4, LEDOn 3, LEDOn 1, Pbuf_free] @ ops)"
proof -
  let ?ps = "[(0x3F, 3), (0x26, 1)] :: (u8 \<times> nat) list"
  have "\<forall>(sep, d) \<in> set ?ps. sep \<noteq> 0x20 \<and> sep \<noteq> 0x6C \<and> d \<in> {1, 2, 3, 4}"
    "hs_file \<lparr>hs_file = None, hs_left = 0\<rparr> = None"
    "map of_char ''GET /method=get?led=3&led=1 HTTP''
       = map of_char ''GET /method=get'' @ concat (map (\<lambda>(sep, d). led_param sep d) ?ps)
         @ 0x20 # map of_char ''HTTP''"
    by (simp_all add: led_param_def)
  from http_recv_leds [OF this, of 0 100 ERR_OK "[]" 30] show ?thesis by simp
qed

section \<open>Received buffers\<close>

lemma strncmp_longer: "strncmp_eq data (s @ t) = Some True \<Longrightarrow> strncmp_eq data s = Some True"
  by (induction data s rule: strncmp_eq.induct) (auto split: if_splits)

lemma serve_frees: "count_list (snd (serve b e d hs)) Pbuf_free = 0"
  by (simp add: serve_def send_data_def Let_def split: prod.splits)

lemma count_leds: "count_list (map LEDOff xs) Pbuf_free = 0" "count_list (map LEDOn xs) Pbuf_free = 0"
  by (induction xs) simp_all

lemma serve_frees': "serve b e d hs = (hs', out) \<Longrightarrow> count_list out Pbuf_free = 0"
  using serve_frees [of b e d hs] by simp

lemma http_request_frees:
  assumes "http_request adc b e root data hs = Some (arg, root', out)"
  shows "count_list out Pbuf_free = (if strncmp_eq data ''GET '' = Some False then 0 else 1)"
proof -
  consider (adc) "strncmp_eq data ''GET /STM32F107ADC'' = Some True"
    | (led) "strncmp_eq data ''GET /STM32F107ADC'' = Some False" "strncmp_eq data ''GET /method=get'' = Some True"
    | (get) "strncmp_eq data ''GET /STM32F107ADC'' = Some False" "strncmp_eq data ''GET /method=get'' = Some False"
        "strncmp_eq data ''GET '' = Some True"
    | (other) "strncmp_eq data ''GET /STM32F107ADC'' = Some False" "strncmp_eq data ''GET /method=get'' = Some False"
        "strncmp_eq data ''GET '' = Some False"
    using assms by (auto simp: http_request_def split: option.splits bool.splits)
  then show ?thesis
  proof cases
    case adc
    then have "strncmp_eq data ''GET '' = Some True" using strncmp_longer [of data "''GET ''"] by simp
    then show ?thesis using assms adc
      by (auto simp: http_request_def Let_def serve_frees' split: prod.splits)
  next
    case led
    then have "strncmp_eq data ''GET '' = Some True" using strncmp_longer [of data "''GET ''"] by simp
    then show ?thesis using assms led
      by (auto simp: http_request_def serve_frees' count_leds split: option.splits prod.splits)
  next
    case get
    then show ?thesis using assms
      by (auto simp: http_request_def serve_frees' split: option.splits prod.splits)
  next
    case other
    then show ?thesis using assms by (auto simp: http_request_def close_conn_def)
  qed
qed

text \<open>
  A received segment is given back exactly once, with one exception: the
  connection that opens with anything but a GET request is closed and its segment
  is never freed.
\<close>

theorem http_recv_frees:
  assumes "http_recv adc sndbuf werr root (Some hs) (Some (n, data)) ERR_OK = Some (arg, root', out)"
  shows "count_list out Pbuf_free
    = (if hs_file hs = None \<and> strncmp_eq data ''GET '' = Some False then 0 else 1)"
  using assms http_request_frees by (cases "hs_file hs") (fastforce simp: http_recv_def)+

theorem http_recv_frees_witness:
  "count_list close_conn Pbuf_free = 0"
proof -
  have "http_recv 0 0 ERR_OK [] (Some \<lparr>hs_file = None, hs_left = 0\<rparr>) (Some (4, map of_char ''PUT '')) ERR_OK
      = Some (None, [], Tcp_recved 4 # close_conn)"
    by (simp add: http_recv_def http_request_def)
  from http_recv_frees [OF this] show ?thesis by simp
qed

end
