(* ===== verification/Telnet.thy ===== *)
theory Telnet
  imports Inet Board
begin

text \<open>
  The greeting server, \<open>port/helloworld.c\<close> on port 23 and its copy
  \<open>port/helloarmjishu.c\<close> on port 8000: it collects a line from the segments of a
  connection and answers with a greeting and the line.  The texts are in a Chinese
  encoding and are parameters, as are the outcomes of the allocation and of \<open>tcp_close\<close>.
\<close>

definition MAX_NAME_SIZE :: nat where "MAX_NAME_SIZE = 32"

record name =
  name_length :: nat
  bytes :: "u8 list"

datatype telnet_op =
    Tcp_recved nat | Pbuf_free | Tcp_write "u8 list" | Mem_free_name | Tcp_close
  | LCD_Line5 string | Set_arg "name option" | Set_err | Set_recv

definition CR :: u8 where "CR = 0x0D"
definition LF :: u8 where "LF = 0x0A"

text \<open>
  The array follows the 32 bit \<open>length\<close> in the structure, so the index -1 the code uses
  on a name of one character reads the top byte of the length.
\<close>

definition name_byte :: "name \<Rightarrow> int \<Rightarrow> u8" where
  "name_byte n i = (if i = -1 then of_nat (name_length n div 2 ^ 24) else bytes n ! nat i)"

text \<open>The loop over the bytes of one buffer and the loop over the chain.\<close>

fun collect :: "u8 list \<Rightarrow> name \<Rightarrow> bool \<Rightarrow> name \<times> bool" where
  "collect [] n is_done = (n, is_done)"
| "collect (c # cs) n is_done =
     (if is_done then (n, is_done)
      else (let is_done = (c = CR \<or> c = LF);
                n = (if name_length n < MAX_NAME_SIZE
                     then n\<lparr>bytes := (bytes n)[name_length n := c], name_length := name_length n + 1\<rparr> else n)
            in collect cs n is_done))"

fun collect_chain :: "u8 list list \<Rightarrow> name \<Rightarrow> bool \<Rightarrow> name \<times> bool" where
  "collect_chain [] n is_done = (n, is_done)"
| "collect_chain (q # qs) n is_done =
     (let (n, is_done) = collect q n is_done in collect_chain qs n is_done)"

text \<open>The end of a line is made CR LF.\<close>

definition end_line :: "name \<Rightarrow> name" where
  "end_line n =
     (let len = int (name_length n) in
      if name_byte n (len - 2) \<noteq> CR \<or> name_byte n (len - 1) \<noteq> LF
      then (let len = (if (name_byte n (len - 1) = CR \<or> name_byte n (len - 1) = LF)
                          \<and> name_length n + 1 \<le> MAX_NAME_SIZE then name_length n + 1
                       else if name_length n + 2 \<le> MAX_NAME_SIZE then name_length n + 2
                       else MAX_NAME_SIZE)
            in n\<lparr>name_length := len, bytes := (bytes n)[len - 2 := CR, len - 1 := LF]\<rparr>)
      else n)"

definition HelloWorld_recv ::
    "u8 list \<Rightarrow> err_t \<Rightarrow> name option \<Rightarrow> u8 list list option \<Rightarrow> err_t \<Rightarrow> err_t \<times> name option \<times> telnet_op list" where
  "HelloWorld_recv hello close_err arg p err =
     (case p of
        Some chain \<Rightarrow>
          (let recved = Tcp_recved (length (concat chain)) in
           case arg of
             None \<Rightarrow> (ERR_ARG, None, [recved, Pbuf_free])
           | Some n \<Rightarrow>
               (let (n, is_done) = collect_chain chain n False in
                if is_done
                then (let n = end_line n in
                      (ERR_OK, Some (n\<lparr>name_length := 0\<rparr>),
                       [recved, Tcp_write hello, Tcp_write (take (name_length n) (bytes n)), Pbuf_free]))
                else (ERR_OK, Some n, [recved, Pbuf_free])))
      | None \<Rightarrow> (if err = ERR_OK then (close_err, None, [Mem_free_name, Tcp_close]) else (ERR_OK, arg, [])))"

definition HelloWorld_accept ::
    "u8 list \<Rightarrow> string \<Rightarrow> u8 list \<Rightarrow> u32 \<Rightarrow> bool \<Rightarrow> telnet_op list option" where
  "HelloWorld_accept title login greeting remote_ip calloc_ok =
     (case store_text 50 (''Telnet:'' @ sprint_ip remote_ip @ ''   '') of None \<Rightarrow> None | Some iptxt \<Rightarrow>
      case store_text 50 (login @ sprint_ip remote_ip @ [CHR 0x0A]) of None \<Rightarrow> None | Some welcome \<Rightarrow>
      Some [LCD_Line5 iptxt,
            Set_arg (if calloc_ok then Some \<lparr>name_length = 0, bytes = replicate MAX_NAME_SIZE 0\<rparr> else None),
            Set_err, Set_recv,
            Tcp_write title, Tcp_write (map of_char welcome), Tcp_write greeting])"

definition HelloWorld_conn_err :: "telnet_op list" where
  "HelloWorld_conn_err = [Mem_free_name]"

text \<open>
  The copy for port 8000 receives the same way; on a new connection it sends the address it has
  shown, not the welcome text, which it only prepares.
\<close>

definition helloarmjishu_recv ::
    "u8 list \<Rightarrow> err_t \<Rightarrow> name option \<Rightarrow> u8 list list option \<Rightarrow> err_t \<Rightarrow> err_t \<times> name option \<times> telnet_op list" where
  "helloarmjishu_recv = HelloWorld_recv"

definition helloarmjishu_accept ::
    "u8 list \<Rightarrow> string \<Rightarrow> u8 list \<Rightarrow> u32 \<Rightarrow> bool \<Rightarrow> telnet_op list option" where
  "helloarmjishu_accept title login greeting remote_ip calloc_ok =
     (case store_text 50 (''Telnet:'' @ sprint_ip remote_ip @ ''   '') of None \<Rightarrow> None | Some iptxt \<Rightarrow>
      case store_text 50 (login @ sprint_ip remote_ip @ [CHR 0x0A]) of None \<Rightarrow> None | Some welcome \<Rightarrow>
      Some [LCD_Line5 iptxt,
            Set_arg (if calloc_ok then Some \<lparr>name_length = 0, bytes = replicate MAX_NAME_SIZE 0\<rparr> else None),
            Set_err, Set_recv,
            Tcp_write (map of_char iptxt), Tcp_write title, Tcp_write greeting])"

definition helloarmjishu_conn_err :: "telnet_op list" where
  "helloarmjishu_conn_err = [Mem_free_name]"

section \<open>Lines\<close>

text \<open>\<open>holding cs n\<close>: the bytes \<open>cs\<close> were received since the last line, the first 32 are kept.\<close>

definition holding :: "u8 list \<Rightarrow> name \<Rightarrow> bool" where
  "holding cs n \<longleftrightarrow> length (bytes n) = MAX_NAME_SIZE \<and>
     name_length n = min (length cs) MAX_NAME_SIZE \<and> take (name_length n) (bytes n) = take MAX_NAME_SIZE cs"

definition no_eol :: "u8 list \<Rightarrow> bool" where
  "no_eol cs \<longleftrightarrow> CR \<notin> set cs \<and> LF \<notin> set cs"

lemma holding_add:
  assumes "holding cs n"
  shows "holding (cs @ [c]) (if name_length n < MAX_NAME_SIZE
    then n\<lparr>bytes := (bytes n)[name_length n := c], name_length := name_length n + 1\<rparr> else n)"
  using assms by (auto simp: holding_def take_Suc_conv_app_nth min_def)

lemma collect_no_eol:
  "holding cs n \<Longrightarrow> no_eol q \<Longrightarrow> holding (cs @ q) (fst (collect q n False)) \<and> \<not> snd (collect q n False)"
proof (induction q arbitrary: cs n)
  case (Cons c q)
  then show ?case using Cons.IH [OF holding_add [OF Cons.prems(1), of c]] by (auto simp: no_eol_def Let_def)
qed simp

lemma collect_append:
  "collect (xs @ ys) n d = (let (n', d') = collect xs n d in collect ys n' d')"
proof (induction xs n d rule: collect.induct)
  case (1 n is_done)
  then show ?case by simp
next
  case (2 c cs n is_done)
  then show ?case by (cases ys) (auto simp: Let_def split: prod.splits)
qed

lemma collect_chain_concat: "collect_chain qs n d = collect (concat qs) n d"
  by (induction qs arbitrary: n d) (auto simp: collect_append split: prod.splits)

lemma collect_done: "collect q n True = (n, True)"
  by (cases q) simp_all

lemma collect_eol:
  assumes "holding cs n" "no_eol xs" "e \<in> {CR, LF}"
  obtains n' where "collect (xs @ e # rest) n False = (n', True)" "holding (cs @ xs @ [e]) n'"
proof -
  obtain n1 where c: "collect xs n False = (n1, False)" "holding (cs @ xs) n1"
    using collect_no_eol [OF assms(1,2)] by (cases "collect xs n False") auto
  let ?n' = "if name_length n1 < MAX_NAME_SIZE
    then n1\<lparr>bytes := (bytes n1)[name_length n1 := e], name_length := name_length n1 + 1\<rparr> else n1"
  have "collect (xs @ e # rest) n False = (?n', True)"
    using assms(3) by (auto simp: collect_append c(1) Let_def collect_done)
  with holding_add [OF c(2), of e] that show thesis by simp
qed

lemma holding_nth:
  assumes "holding cs n" "i < name_length n"
  shows "bytes n ! i = cs ! i"
proof -
  have eq: "take (name_length n) (bytes n) = take MAX_NAME_SIZE cs"
    using assms(1) unfolding holding_def by (elim conjE)
  have lt: "i < MAX_NAME_SIZE" using assms by (simp add: holding_def)
  show ?thesis by (metis assms(2) eq lt nth_take)
qed

lemma end_line_holding:
  assumes h: "holding (l @ [e]) n" and l: "no_eol l" and e: "e \<in> {CR, LF}"
  shows "take (name_length (end_line n)) (bytes (end_line n)) = take 30 l @ [CR, LF]"
    and "length (bytes (end_line n)) = MAX_NAME_SIZE"
proof -
  let ?k = "length l"
  have b: "length (bytes n) = 32" "name_length n = min (?k + 1) 32"
    "take (name_length n) (bytes n) = take 32 (l @ [e])"
    using h [unfolded holding_def MAX_NAME_SIZE_def] by (auto simp only: length_append list.size)
  have crlf: "CR \<noteq> LF" "CR \<noteq> 0" "LF \<noteq> 0" by (simp_all add: CR_def LF_def)
  have last2: "name_byte n (int (name_length n) - 2) \<noteq> CR"
  proof (cases "?k = 0")
    case True
    then show ?thesis using b crlf by (simp add: name_byte_def)
  next
    case False
    then have i: "nat (int (name_length n) - 2) = name_length n - 2" "name_length n - 2 < ?k"
      "name_length n - 2 < name_length n" "2 \<le> name_length n"
      using b(2) by (cases l; auto simp: min_def)+
    then have "bytes n ! (name_length n - 2) = l ! (name_length n - 2)"
      using holding_nth [OF h i(3)] by (simp add: nth_append)
    moreover have "l ! (name_length n - 2) \<in> set l" using i(2) by simp
    ultimately have "bytes n ! (name_length n - 2) \<noteq> CR" using l by (metis no_eol_def)
    then show ?thesis using i by (simp add: name_byte_def)
  qed
  have last1: "(name_byte n (int (name_length n) - 1) = CR \<or> name_byte n (int (name_length n) - 1) = LF)
      \<longleftrightarrow> ?k \<le> 31"
  proof -
    have i: "nat (int (name_length n) - 1) = name_length n - 1" "name_length n - 1 < name_length n"
      using b(2) by auto
    have v: "bytes n ! (name_length n - 1) = (l @ [e]) ! (name_length n - 1)"
      using holding_nth [OF h i(2)] .
    show ?thesis
    proof (cases "?k \<le> 31")
      case True
      then have "name_length n - 1 = ?k" using b(2) by simp
      then show ?thesis using True i v e by (auto simp: name_byte_def)
    next
      case False
      then have "name_length n - 1 < ?k" using b(2) by simp
      then have "l ! (name_length n - 1) \<in> set l" "(l @ [e]) ! (name_length n - 1) = l ! (name_length n - 1)"
        by (simp_all add: nth_append)
      then have "bytes n ! (name_length n - 1) \<noteq> CR" "bytes n ! (name_length n - 1) \<noteq> LF"
        using v l by (metis no_eol_def)+
      then show ?thesis using False i by (auto simp: name_byte_def)
    qed
  qed
  define len where "len = (if ?k \<le> 30 then ?k + 2 else 32)"
  have el: "end_line n = n\<lparr>name_length := len, bytes := (bytes n)[len - 2 := CR, len - 1 := LF]\<rparr>"
    unfolding end_line_def Let_def using last2 last1 b(2)
    by (auto simp: len_def MAX_NAME_SIZE_def)
  have pre: "take (len - 2) (bytes n) = take 30 l"
  proof -
    have "len - 2 \<le> name_length n" using b(2) by (auto simp: len_def)
    then have "take (len - 2) (bytes n) = take (len - 2) (take (name_length n) (bytes n))" by (simp add: min_def)
    also have "\<dots> = take (len - 2) (l @ [e])" unfolding b(3) by (auto simp: len_def min_def)
    also have "\<dots> = take 30 l" by (auto simp: len_def)
    finally show ?thesis .
  qed
  have len: "2 \<le> len" "len \<le> 32" "len \<le> length (bytes n)" using b(1) by (auto simp: len_def)
  have "take len ((bytes n)[len - 2 := CR, len - 1 := LF]) = take (len - 2) (bytes n) @ [CR, LF]"
  proof -
    obtain m where m: "len = m + 2" using len(1) by (metis add.commute le_Suc_ex)
    show ?thesis using len(3)
      by (simp add: m numeral_2_eq_2 take_Suc_conv_app_nth take_update_swap nth_list_update
          list_update_append min_def)
  qed
  then show "take (name_length (end_line n)) (bytes (end_line n)) = take 30 l @ [CR, LF]"
    by (simp add: el pre)
  show "length (bytes (end_line n)) = MAX_NAME_SIZE" using b(1) by (simp add: el MAX_NAME_SIZE_def)
qed

text \<open>A connection: the segments in turn, each without an error, and what is written back.\<close>

fun writes :: "telnet_op list \<Rightarrow> u8 list list" where
  "writes [] = []"
| "writes (Tcp_write bs # ops) = bs # writes ops"
| "writes (_ # ops) = writes ops"

fun telnet_run :: "u8 list \<Rightarrow> u8 list list list \<Rightarrow> name option \<Rightarrow> u8 list list \<times> name option" where
  "telnet_run hello [] arg = ([], arg)"
| "telnet_run hello (seg # segs) arg =
     (let (r, arg, ops) = HelloWorld_recv hello ERR_OK arg (Some seg) ERR_OK;
          (ws, arg) = telnet_run hello segs arg
      in (writes ops @ ws, arg))"

definition fresh :: "name \<Rightarrow> bool" where
  "fresh n \<longleftrightarrow> name_length n = 0 \<and> length (bytes n) = MAX_NAME_SIZE"

lemma fresh_holding: "fresh n \<Longrightarrow> holding [] n"
  by (simp add: fresh_def holding_def)

lemma telnet_run_line:
  assumes "holding cs n" "no_eol (concat (concat segs))"
    and "concat seg = xs @ e # rest" "no_eol (cs @ xs)" "e \<in> {CR, LF}"
  shows "\<exists>n'. fresh n' \<and> telnet_run hello (segs @ [seg]) (Some n)
    = ([hello, take 30 (cs @ concat (concat segs) @ xs) @ [CR, LF]], Some n')"
  using assms
proof (induction segs arbitrary: cs n)
  case Nil
  have xs: "no_eol xs" using Nil.prems(4) by (simp add: no_eol_def)
  obtain n1 where c: "collect (concat seg) n False = (n1, True)" "holding (cs @ xs @ [e]) n1"
    unfolding assms(3) by (rule collect_eol [OF Nil.prems(1) xs assms(5)])
  have "holding ((cs @ xs) @ [e]) n1" using c(2) by simp
  from end_line_holding [OF this Nil.prems(4) assms(5)] c(1)
  show ?case
    by (intro exI [of _ "end_line n1\<lparr>name_length := 0\<rparr>"])
      (simp add: HelloWorld_recv_def collect_chain_concat fresh_def)
next
  case (Cons s segs)
  have s: "no_eol (concat s)" "no_eol (concat (concat segs))"
    using Cons.prems(2) by (auto simp: no_eol_def)
  obtain n1 where c: "collect (concat s) n False = (n1, False)" "holding (cs @ concat s) n1"
    using collect_no_eol [OF Cons.prems(1) s(1)] by (cases "collect (concat s) n False") auto
  have "no_eol ((cs @ concat s) @ xs)" using s(1) Cons.prems(4) by (auto simp: no_eol_def)
  from Cons.IH [OF c(2) s(2) assms(3) this assms(5)] c(1)
  show ?case by (auto simp: HelloWorld_recv_def collect_chain_concat)
qed

text \<open>
  However a line is cut into segments and pbufs, the answer to it is the greeting
  followed by the first 30 bytes of the line and CR LF, and the server is ready for
  the next line; a line ends at its first CR or LF, and what follows it in the same
  segment is dropped.
\<close>

theorem HelloWorld_answers_line:
  assumes "fresh n" "no_eol (concat (concat segs))" "concat seg = xs @ e # rest" "no_eol xs" "e \<in> {CR, LF}"
  shows "\<exists>n'. fresh n' \<and> telnet_run hello (segs @ [seg]) (Some n)
    = ([hello, take 30 (concat (concat segs) @ xs) @ [CR, LF]], Some n')"
  using telnet_run_line [OF fresh_holding [OF assms(1)] assms(2,3) _ assms(5)] assms(4) by simp

theorem HelloWorld_answers_line_witness:
  "fst (telnet_run [7] [[[0x41], [0x42]], [[0x43, 0x0D, 0x0A]]]
     (Some \<lparr>name_length = 0, bytes = replicate 32 0\<rparr>)) = [[7], [0x41, 0x42, 0x43, 0x0D, 0x0A]]"
proof -
  let ?n = "\<lparr>name_length = 0, bytes = replicate 32 0\<rparr>"
  have "fresh ?n" "no_eol (concat (concat [[[0x41], [0x42]]]))" "concat [[0x43, 0x0D, 0x0A]] = [0x43] @ CR # [LF]"
    "no_eol [0x43]" "CR \<in> {CR, LF}"
    by (simp_all add: fresh_def MAX_NAME_SIZE_def no_eol_def CR_def LF_def)
  from HelloWorld_answers_line [OF this, of "[7]"] show ?thesis by (auto simp: CR_def LF_def)
qed

end
