(* ===== verification/Tftp.thy ===== *)
theory Tftp
  imports Chksum Board
begin

text \<open>
  The TFTP server, \<open>port/tftpserver.c\<close> and \<open>port/tftputils.c\<close>: the packets, the read
  and the write transfer and the dispatch of a request.  The file system (EFSL), the UDP
  layer and the heap are called; what they answer is an argument of the definitions.
  \<open>None\<close> is a step that uses memory it has freed or leaves a buffer.
\<close>

section \<open>Packets\<close>

definition TFTP_RRQ :: u8 where "TFTP_RRQ = 1"
definition TFTP_WRQ :: u8 where "TFTP_WRQ = 2"
definition TFTP_DATA :: u8 where "TFTP_DATA = 3"
definition TFTP_ACK :: u8 where "TFTP_ACK = 4"
definition TFTP_ERROR :: u8 where "TFTP_ERROR = 5"

datatype tftp_errorcode =
    TFTP_ERR_NOTDEFINED | TFTP_ERR_FILE_NOT_FOUND | TFTP_ERR_ACCESS_VIOLATION | TFTP_ERR_DISKFULL
  | TFTP_ERR_ILLEGALOP | TFTP_ERR_UKNOWN_TRANSFER_ID | TFTP_ERR_FILE_ALREADY_EXISTS | TFTP_ERR_NO_SUCH_USER

primrec errcode :: "tftp_errorcode \<Rightarrow> u8" where
  "errcode TFTP_ERR_NOTDEFINED = 0"
| "errcode TFTP_ERR_FILE_NOT_FOUND = 1"
| "errcode TFTP_ERR_ACCESS_VIOLATION = 2"
| "errcode TFTP_ERR_DISKFULL = 3"
| "errcode TFTP_ERR_ILLEGALOP = 4"
| "errcode TFTP_ERR_UKNOWN_TRANSFER_ID = 5"
| "errcode TFTP_ERR_FILE_ALREADY_EXISTS = 6"
| "errcode TFTP_ERR_NO_SUCH_USER = 7"

primrec tftp_errorcode_string :: "tftp_errorcode \<Rightarrow> string" where
  "tftp_errorcode_string TFTP_ERR_NOTDEFINED = ''not defined''"
| "tftp_errorcode_string TFTP_ERR_FILE_NOT_FOUND = ''file not found''"
| "tftp_errorcode_string TFTP_ERR_ACCESS_VIOLATION = ''access violation''"
| "tftp_errorcode_string TFTP_ERR_DISKFULL = ''disk full''"
| "tftp_errorcode_string TFTP_ERR_ILLEGALOP = ''illegal operation''"
| "tftp_errorcode_string TFTP_ERR_UKNOWN_TRANSFER_ID = ''unknown transfer id''"
| "tftp_errorcode_string TFTP_ERR_FILE_ALREADY_EXISTS = ''file already exists''"
| "tftp_errorcode_string TFTP_ERR_NO_SUCH_USER = ''no such user''"

definition TFTP_DATA_LEN_MAX :: nat where "TFTP_DATA_LEN_MAX = 512"
definition TFTP_DATA_PKT_HDR_LEN :: nat where "TFTP_DATA_PKT_HDR_LEN = 4"
definition TFTP_ACK_PKT_LEN :: nat where "TFTP_ACK_PKT_LEN = 4"
definition TFTP_DATA_PKT_LEN_MAX :: nat where
  "TFTP_DATA_PKT_LEN_MAX = TFTP_DATA_PKT_HDR_LEN + TFTP_DATA_LEN_MAX"

text \<open>A packet is read through a pointer, hence from a memory of which \<open>len\<close> bytes are its own.\<close>

definition tftp_decode_op :: "(nat \<Rightarrow> u8) \<Rightarrow> u8" where
  "tftp_decode_op buf = buf 1"

definition tftp_extract_block :: "(nat \<Rightarrow> u8) \<Rightarrow> u16" where
  "tftp_extract_block buf = ntohs (push_bit 8 (ucast (buf 3)) OR ucast (buf 2))"

definition tftp_set_opcode :: "u8 \<Rightarrow> u8 list \<Rightarrow> u8 list" where
  "tftp_set_opcode opcode buffer = buffer[0 := 0, 1 := opcode]"

definition tftp_set_errorcode :: "tftp_errorcode \<Rightarrow> u8 list \<Rightarrow> u8 list" where
  "tftp_set_errorcode e buffer = buffer[2 := 0, 3 := errcode e]"

definition tftp_set_errormsg :: "string \<Rightarrow> u8 list \<Rightarrow> u8 list" where
  "tftp_set_errormsg errormsg buffer = overwrite 4 (map of_char errormsg @ [0]) buffer"

definition tftp_set_block :: "u16 \<Rightarrow> u8 list \<Rightarrow> u8 list" where
  "tftp_set_block block packet =
     (let b = u16_bytes (htons block) in packet[2 := b ! 0, 3 := b ! 1])"

definition tftp_set_data_message :: "u8 list \<Rightarrow> u8 list \<Rightarrow> u8 list" where
  "tftp_set_data_message buf packet = overwrite 4 buf packet"

definition tftp_is_correct_ack :: "(nat \<Rightarrow> u8) \<Rightarrow> int \<Rightarrow> bool" where
  "tftp_is_correct_ack buf block =
     (if tftp_decode_op buf \<noteq> TFTP_ACK then False
      else if block \<noteq> int (unat (tftp_extract_block buf)) then False
      else True)"

text \<open>
  The local arrays are not initialised; every byte that is sent has been set, so their
  initial content is taken as zero.
\<close>

definition tftp_construct_error_message :: "tftp_errorcode \<Rightarrow> u8 list \<times> nat" where
  "tftp_construct_error_message e =
     (let buf = tftp_set_opcode TFTP_ERROR (replicate 512 0);
          buf = tftp_set_errorcode e buf;
          buf = tftp_set_errormsg (tftp_errorcode_string e) buf
      in (buf, 4 + length (tftp_errorcode_string e) + 1))"

definition error_packet :: "tftp_errorcode \<Rightarrow> u8 list" where
  "error_packet e = (let (buf, n) = tftp_construct_error_message e in take n buf)"

definition tftp_send_data_packet :: "int \<Rightarrow> u8 list \<Rightarrow> u8 list" where
  "tftp_send_data_packet block buf =
     (let packet = tftp_set_opcode TFTP_DATA (replicate TFTP_DATA_PKT_LEN_MAX 0);
          packet = tftp_set_block (of_int block) packet;
          packet = tftp_set_data_message buf packet
      in take (length buf + 4) packet)"

definition tftp_send_ack_packet :: "int \<Rightarrow> u8 list" where
  "tftp_send_ack_packet block =
     (let packet = tftp_set_opcode TFTP_ACK (replicate TFTP_ACK_PKT_LEN 0);
          packet = tftp_set_block (of_int block) packet
      in take TFTP_ACK_PKT_LEN packet)"

text \<open>The effects on the UDP layer, the heap and the files.\<close>

datatype tftp_op =
    Send "u8 list" | Send_failed | Pbuf_free | Mem_free_args | File_close | Fs_umount
  | Udp_disconnect | Udp_remove | Udp_recv_main | Udp_recv_rrq | Udp_recv_wrq
  | File_write "u8 list" | Udp_new | Udp_bind | LCD_Line7 string

text \<open>\<open>tftp_send_message\<close>, with the outcome of the allocation of the packet buffer.\<close>

definition tftp_send_message :: "bool \<Rightarrow> u8 list \<Rightarrow> tftp_op list" where
  "tftp_send_message alloc_ok buf = (if \<not> alloc_ok then [Send_failed] else [Send buf])"

definition tftp_send_error_message :: "bool \<Rightarrow> tftp_errorcode \<Rightarrow> tftp_op list" where
  "tftp_send_error_message alloc_ok e = tftp_send_message alloc_ok (error_packet e)"

definition tftp_cleanup :: "tftp_op list" where
  "tftp_cleanup = [File_close, Fs_umount, Mem_free_args, Udp_disconnect, Udp_remove, Udp_recv_main]"

section \<open>The read transfer\<close>

record tftp_args =
  data :: "u8 list"
  block :: int
  tot_bytes :: nat

text \<open>\<open>chunk\<close> is what \<open>file_read\<close> has stored, its length the value it returned.\<close>

definition tftp_send_next_block :: "bool \<Rightarrow> u8 list \<Rightarrow> tftp_args \<Rightarrow> tftp_args \<times> tftp_op list" where
  "tftp_send_next_block alloc_ok chunk args =
     (let args = args\<lparr>data := chunk\<rparr>
      in (args, tftp_send_message alloc_ok (tftp_send_data_packet (block args) chunk)))"

text \<open>
  The callback for a packet at \<open>p\<close>.  When the last block was short, the arguments are freed
  and then used by the code that follows, so the step is undefined.
\<close>

definition rrq_recv_callback ::
    "bool \<Rightarrow> u8 list \<Rightarrow> (nat \<Rightarrow> u8) \<Rightarrow> tftp_args \<Rightarrow> (tftp_args \<times> tftp_op list) option" where
  "rrq_recv_callback alloc_ok chunk p args =
     (let args = (if tftp_is_correct_ack p (block args) then args\<lparr>block := block args + 1\<rparr> else args)
      in if length (data args) < TFTP_DATA_LEN_MAX then None
         else (let (args, out) = tftp_send_next_block alloc_ok chunk args in Some (args, out @ [Pbuf_free])))"

definition tftp_process_read ::
    "bool \<Rightarrow> bool \<Rightarrow> bool \<Rightarrow> u8 list \<Rightarrow> tftp_args option \<times> tftp_op list" where
  "tftp_process_read fopen_ok malloc_ok alloc_ok chunk =
     (if \<not> fopen_ok then (None, tftp_send_error_message alloc_ok TFTP_ERR_FILE_NOT_FOUND @ tftp_cleanup)
      else if \<not> malloc_ok then (None, tftp_send_error_message alloc_ok TFTP_ERR_NOTDEFINED @ tftp_cleanup)
      else (let (args, out) = tftp_send_next_block alloc_ok chunk \<lparr>data = [], block = 1, tot_bytes = 0\<rparr>
            in (Some args, Udp_recv_rrq # out)))"

section \<open>The write transfer\<close>

text \<open>
  \<open>len\<close> and \<open>tot_len\<close> are those of the packet's first pbuf, \<open>n\<close> the value \<open>file_write\<close>
  returns.  The arguments are gone (\<open>None\<close> in the result) after the clean-up.
\<close>

definition wrq_recv_callback ::
    "bool \<Rightarrow> int \<Rightarrow> nat \<Rightarrow> nat \<Rightarrow> (nat \<Rightarrow> u8) \<Rightarrow> tftp_args \<Rightarrow> (tftp_args option \<times> tftp_op list) option" where
  "wrq_recv_callback alloc_ok n len tot_len p args =
     (if len \<noteq> tot_len then Some (Some args, [])
      else (let next_block = (int (unat (tftp_extract_block p)) = block args + 1);
                written = (TFTP_DATA_PKT_HDR_LEN < len \<and> next_block)
            in if written \<and> n \<le> 0 then None
               else (let (args, out) =
                       (if written
                        then (args\<lparr>block := block args + 1, tot_bytes := tot_bytes args + (len - TFTP_DATA_PKT_HDR_LEN)\<rparr>,
                              [File_write (map p [TFTP_DATA_PKT_HDR_LEN..<len])])
                        else if next_block then (args\<lparr>block := block args + 1\<rparr>, [])
                        else (args, []));
                         out = out @ tftp_send_message alloc_ok (tftp_send_ack_packet (block args))
                     in if len < TFTP_DATA_PKT_LEN_MAX then Some (None, out @ tftp_cleanup @ [Pbuf_free])
                        else Some (Some args, out @ [Pbuf_free]))))"

definition tftp_process_write :: "bool \<Rightarrow> bool \<Rightarrow> bool \<Rightarrow> tftp_args option \<times> tftp_op list" where
  "tftp_process_write fopen_ok malloc_ok alloc_ok =
     (if \<not> fopen_ok then (None, tftp_send_error_message alloc_ok TFTP_ERR_FILE_ALREADY_EXISTS @ tftp_cleanup)
      else if \<not> malloc_ok then (None, tftp_send_error_message alloc_ok TFTP_ERR_NOTDEFINED @ tftp_cleanup)
      else (Some \<lparr>data = [], block = 0, tot_bytes = 0\<rparr>,
            Udp_recv_wrq # tftp_send_message alloc_ok (tftp_send_ack_packet 0)))"

section \<open>Requests\<close>

text \<open>\<open>strcpy\<close> of the name behind the opcode into the 30 byte array.\<close>

definition tftp_extract_filename :: "u8 list \<Rightarrow> string option" where
  "tftp_extract_filename pkt =
     (if 0 \<in> set (drop 2 pkt)
      then store_text 30 (map (\<lambda>b. char_of (unat b)) (takeWhile (\<lambda>b. b \<noteq> 0) (drop 2 pkt)))
      else None)"

text \<open>
  The memory of a packet with content \<open>xs\<close>; the transfer started, if any, and the
  effects of \<open>process_tftp_request\<close>.
\<close>

definition mem_of :: "u8 list \<Rightarrow> nat \<Rightarrow> u8" where
  "mem_of xs i = (if i < length xs then xs ! i else 0)"

definition process_tftp_request ::
    "u32 \<Rightarrow> u8 list \<Rightarrow> bool \<Rightarrow> err_t \<Rightarrow> bool \<Rightarrow> bool \<Rightarrow> bool \<Rightarrow> bool \<Rightarrow> bool \<Rightarrow> u8 list
     \<Rightarrow> (tftp_args option \<times> tftp_op list) option" where
  "process_tftp_request addr pkt new_ok bind_err efs_ok dir_ok fopen_ok malloc_ok alloc_ok chunk =
     (let op = tftp_decode_op (mem_of pkt) in
      case store_text 20 (''TFTP: '' @ sprint_ip addr @ ''   '') of None \<Rightarrow> None | Some iptxt \<Rightarrow>
      let out = [LCD_Line7 iptxt, Udp_new] in
      if \<not> new_ok then Some (None, out)
      else if bind_err \<noteq> ERR_OK then Some (None, out @ [Udp_bind])
      else let out = out @ [Udp_bind] in
        if op = TFTP_RRQ
        then (case tftp_extract_filename pkt of None \<Rightarrow> None | Some FileName \<Rightarrow>
              if \<not> efs_ok \<or> \<not> dir_ok then Some (None, out)
              else (let (args, more) = tftp_process_read fopen_ok malloc_ok alloc_ok chunk
                    in Some (args, out @ more)))
        else if op = TFTP_WRQ
        then (case tftp_extract_filename pkt of None \<Rightarrow> None | Some FileName \<Rightarrow>
              if \<not> efs_ok \<or> \<not> dir_ok then Some (None, out)
              else (let (args, more) = tftp_process_write fopen_ok malloc_ok alloc_ok
                    in Some (args, out @ more)))
        else Some (None, out @ tftp_send_error_message alloc_ok TFTP_ERR_ACCESS_VIOLATION @ [Udp_remove]))"

definition recv_callback_tftp ::
    "u32 \<Rightarrow> u8 list \<Rightarrow> bool \<Rightarrow> err_t \<Rightarrow> bool \<Rightarrow> bool \<Rightarrow> bool \<Rightarrow> bool \<Rightarrow> bool \<Rightarrow> u8 list
     \<Rightarrow> (tftp_args option \<times> tftp_op list) option" where
  "recv_callback_tftp addr pkt new_ok bind_err efs_ok dir_ok fopen_ok malloc_ok alloc_ok chunk =
     map_option (\<lambda>(args, out). (args, out @ [Pbuf_free]))
       (process_tftp_request addr pkt new_ok bind_err efs_ok dir_ok fopen_ok malloc_ok alloc_ok chunk)"

text \<open>A request that finds no file system keeps the control block it took: it is never removed.\<close>

lemma request_leaks_pcb:
  assumes "tftp_decode_op (mem_of pkt) \<in> {TFTP_RRQ, TFTP_WRQ}"
    and "recv_callback_tftp addr pkt True ERR_OK False dir_ok fopen_ok malloc_ok alloc_ok chunk = Some (args, out)"
  shows "Udp_new \<in> set out \<and> Udp_remove \<notin> set out \<and> args = None"
  using assms by (auto simp: recv_callback_tftp_def process_tftp_request_def Let_def TFTP_RRQ_def TFTP_WRQ_def
      split: option.splits)

section \<open>Packets are read as they were built\<close>

lemma data_packet_bytes:
  assumes "length d \<le> TFTP_DATA_LEN_MAX"
  shows "tftp_send_data_packet b d = [0, TFTP_DATA] @ u16_bytes (htons (of_int b)) @ d"
proof -
  have "replicate TFTP_DATA_PKT_LEN_MAX (0 :: u8) = [0, 0, 0, 0] @ replicate 512 0"
    by (simp add: TFTP_DATA_PKT_LEN_MAX_def TFTP_DATA_PKT_HDR_LEN_def TFTP_DATA_LEN_MAX_def numeral_eq_Suc)
  then show ?thesis
    by (simp add: tftp_send_data_packet_def tftp_set_opcode_def tftp_set_block_def tftp_set_data_message_def
        overwrite_def u16_bytes_def Let_def numeral_eq_Suc)
qed

lemma ack_packet_bytes: "tftp_send_ack_packet b = [0, TFTP_ACK] @ u16_bytes (htons (of_int b))"
  by (simp add: tftp_send_ack_packet_def tftp_set_opcode_def tftp_set_block_def u16_bytes_def
      Let_def TFTP_ACK_PKT_LEN_def numeral_eq_Suc)

lemma u16_from_bytes: "push_bit 8 (ucast (u16_bytes w ! 1)) OR ucast (u16_bytes w ! 0) = (w :: u16)"
  unfolding u16_bytes_def
  by (rule bit_word_eqI) (auto simp: bit_simps dest: bit_imp_le_length)

lemma extract_block_built:
  "tftp_extract_block (mem_of ([x, y] @ u16_bytes (htons w) @ d)) = w"
proof -
  have "mem_of ([x, y] @ u16_bytes (htons w) @ d) 2 = u16_bytes (htons w) ! 0"
    "mem_of ([x, y] @ u16_bytes (htons w) @ d) 3 = u16_bytes (htons w) ! 1"
    by (simp_all add: mem_of_def u16_bytes_def)
  then show ?thesis by (simp only: tftp_extract_block_def u16_from_bytes ntohs_def htons_htons)
qed

lemma correct_ack_built:
  assumes "0 \<le> b" "b < 65536"
  shows "tftp_is_correct_ack (mem_of (tftp_send_ack_packet c)) b \<longleftrightarrow> b = c mod 65536"
proof -
  have op: "tftp_decode_op (mem_of (tftp_send_ack_packet c)) = TFTP_ACK"
    by (simp add: ack_packet_bytes tftp_decode_op_def mem_of_def)
  have "tftp_extract_block (mem_of (tftp_send_ack_packet c)) = of_int c"
    unfolding ack_packet_bytes using extract_block_built [of 0 TFTP_ACK "of_int c" "[]"] by simp
  moreover have "int (unat (of_int c :: u16)) = c mod 65536"
    by (simp add: uint_word_of_int)
  ultimately show ?thesis by (simp add: tftp_is_correct_ack_def op)
qed

section \<open>Whole transfers\<close>

text \<open>
  A file is read sequentially: \<open>rest f\<close> is what is still unread of it, and
  \<open>fread n f\<close> delivers the next bytes.
\<close>

definition sequential_file :: "(nat \<Rightarrow> 'f \<Rightarrow> u8 list \<times> 'f) \<Rightarrow> ('f \<Rightarrow> u8 list) \<Rightarrow> bool" where
  "sequential_file fread rest \<longleftrightarrow>
     (\<forall>n f. fst (fread n f) = take n (rest f) \<and> rest (snd (fread n f)) = drop n (rest f))"

text \<open>The packets of a client, one after the other: what is sent, and the state and file after them.\<close>

fun rrq_run :: "(nat \<Rightarrow> 'f \<Rightarrow> u8 list \<times> 'f) \<Rightarrow> (nat \<Rightarrow> u8) list \<Rightarrow> tftp_args \<Rightarrow> 'f
    \<Rightarrow> (tftp_op list \<times> tftp_args \<times> 'f) option" where
  "rrq_run fread [] args f = Some ([], args, f)"
| "rrq_run fread (p # ps) args f =
     (let (chunk, f) = fread TFTP_DATA_LEN_MAX f in
      case rrq_recv_callback True chunk p args of None \<Rightarrow> None
      | Some (args, out) \<Rightarrow> map_option (\<lambda>(out', r). (out @ out', r)) (rrq_run fread ps args f))"

definition slice :: "u8 list \<Rightarrow> nat \<Rightarrow> u8 list" where
  "slice d k = take TFTP_DATA_LEN_MAX (drop (TFTP_DATA_LEN_MAX * k) d)"

lemma slices_concat: "concat (map (slice d) [0..<k]) = take (TFTP_DATA_LEN_MAX * k) d"
proof (induction k)
  case (Suc k)
  have "take (TFTP_DATA_LEN_MAX * Suc k) d = take (TFTP_DATA_LEN_MAX * k) d @ slice d k"
  proof -
    have "TFTP_DATA_LEN_MAX * Suc k = TFTP_DATA_LEN_MAX * k + TFTP_DATA_LEN_MAX" by simp
    then show ?thesis by (simp only: take_add slice_def)
  qed
  with Suc show ?case by simp
qed simp

lemma slice_full: "TFTP_DATA_LEN_MAX * Suc k \<le> length d \<Longrightarrow> length (slice d k) = TFTP_DATA_LEN_MAX"
  by (simp add: slice_def)

text \<open>From block \<open>b\<close> on, \<open>n\<close> correct acknowledgements send the next \<open>n\<close> blocks.\<close>

lemma rrq_run_acks:
  assumes seq: "sequential_file fread rest" and b: "b + n < 65536" and rest: "rest f = drop (TFTP_DATA_LEN_MAX * b) d"
    and args: "block args = int b" "data args = slice d (b - 1)" "0 < b"
    and len: "n \<noteq> 0 \<longrightarrow> TFTP_DATA_LEN_MAX * (b + n - 1) \<le> length d"
  shows "\<exists>args' f'. rrq_run fread (map (\<lambda>i. mem_of (tftp_send_ack_packet (int i))) [b..<b + n]) args f
    = Some (concat (map (\<lambda>i. [Send (tftp_send_data_packet (int i + 1) (slice d i)), Pbuf_free]) [b..<b + n]), args', f')
    \<and> block args' = int (b + n) \<and> data args' = slice d (b + n - 1)"
  using b rest args len
proof (induction n arbitrary: b args f)
  case (Suc n)
  let ?p = "mem_of (tftp_send_ack_packet (int b))"
  obtain f1 where f1: "fread TFTP_DATA_LEN_MAX f = (slice d b, f1)" "rest f1 = drop (TFTP_DATA_LEN_MAX * Suc b) d"
    using seq Suc.prems(2) unfolding sequential_file_def slice_def
    by (cases "fread TFTP_DATA_LEN_MAX f") (metis add.commute drop_drop fst_conv mult_Suc_right snd_conv)
  have ack: "tftp_is_correct_ack ?p (block args)"
    using Suc.prems(1,3) by (simp add: correct_ack_built)
  have "TFTP_DATA_LEN_MAX * b \<le> length d" using Suc.prems(6) by (simp add: TFTP_DATA_LEN_MAX_def)
  then have "length (data args) = TFTP_DATA_LEN_MAX"
    using slice_full [of "b - 1" d] Suc.prems(4,5) by simp
  then have cb: "rrq_recv_callback True (slice d b) ?p args
      = Some (args\<lparr>block := int b + 1, data := slice d b\<rparr>,
          [Send (tftp_send_data_packet (int b + 1) (slice d b)), Pbuf_free])"
    using ack Suc.prems(3)
    by (simp add: rrq_recv_callback_def Let_def tftp_send_next_block_def tftp_send_message_def)
  have "\<exists>args' f'. rrq_run fread (map (\<lambda>i. mem_of (tftp_send_ack_packet (int i))) [Suc b..<Suc b + n])
        (args\<lparr>block := int b + 1, data := slice d b\<rparr>) f1
      = Some (concat (map (\<lambda>i. [Send (tftp_send_data_packet (int i + 1) (slice d i)), Pbuf_free]) [Suc b..<Suc b + n]), args', f')
      \<and> block args' = int (Suc b + n) \<and> data args' = slice d (Suc b + n - 1)"
    by (rule Suc.IH) (use Suc.prems f1(2) in \<open>simp_all add: TFTP_DATA_LEN_MAX_def\<close>)
  moreover have "[b..<b + Suc n] = b # [Suc b..<Suc b + n]" by (simp add: upt_conv_Cons del: upt_Suc)
  ultimately show ?case using f1(1) cb by auto
qed simp

text \<open>
  C37: A read transfer whose client acknowledges every block delivers the whole file: the
  blocks go out in order, numbered from 1, each with the next 512 bytes, the last
  one short, and together they are the file.  The acknowledgement of the last block
  is then an undefined step: the callback goes on with the arguments it has freed.
\<close>

theorem read_transfer_delivers:
  fixes d :: "u8 list"
  defines "k \<equiv> length d div 512"
  assumes "sequential_file fread rest" "rest f = d" "k < 65535"
    and "fread 512 f = (chunk, f1)" "tftp_process_read True True True chunk = (Some args, out)"
  shows "\<exists>args' f'. rrq_run fread (map (\<lambda>i. mem_of (tftp_send_ack_packet (int i))) [1..<k + 1]) args f1
      = Some (concat (map (\<lambda>i. [Send (tftp_send_data_packet (int i + 1) (slice d i)), Pbuf_free]) [1..<k + 1]), args', f')
    \<and> out = [Udp_recv_rrq, Send (tftp_send_data_packet 1 (slice d 0))]
    \<and> concat (map (slice d) [0..<k + 1]) = d \<and> length (slice d k) < 512
    \<and> rrq_recv_callback alloc_ok chunk' p args' = None"
proof -
  have k: "512 * k \<le> length d" "length d < 512 * k + 512"
    using mult_div_mod_eq [of 512 "length d"] mod_less_divisor [of 512 "length d"] by (simp_all add: k_def)
  have chunk: "chunk = slice d 0" "rest f1 = drop (TFTP_DATA_LEN_MAX * 1) d"
    using assms(2,3,5) unfolding sequential_file_def slice_def TFTP_DATA_LEN_MAX_def
    by (metis drop0 fst_conv mult_0_right, metis mult.right_neutral snd_conv)
  have start: "args = \<lparr>data = slice d 0, block = 1, tot_bytes = 0\<rparr>"
      "out = [Udp_recv_rrq, Send (tftp_send_data_packet 1 (slice d 0))]"
    using assms(6) chunk(1)
    by (auto simp: tftp_process_read_def tftp_send_next_block_def tftp_send_message_def Let_def)
  obtain args' f' where run: "rrq_run fread (map (\<lambda>i. mem_of (tftp_send_ack_packet (int i))) [1..<1 + k]) args f1
      = Some (concat (map (\<lambda>i. [Send (tftp_send_data_packet (int i + 1) (slice d i)), Pbuf_free]) [1..<1 + k]), args', f')"
      and last: "data args' = slice d (1 + k - 1)"
    using rrq_run_acks [OF assms(2), of 1 k f1 d args] chunk(2) k assms(4)
    by (auto simp: start TFTP_DATA_LEN_MAX_def)
  have short: "length (slice d k) < 512" using k by (simp add: slice_def TFTP_DATA_LEN_MAX_def)
  have "concat (map (slice d) [0..<k + 1]) = d"
    unfolding slices_concat using k by (simp add: TFTP_DATA_LEN_MAX_def)
  moreover have "rrq_recv_callback alloc_ok chunk' p args' = None"
    using short last by (simp add: rrq_recv_callback_def Let_def TFTP_DATA_LEN_MAX_def)
  ultimately show ?thesis using run start short by (auto simp: add.commute)
qed

text \<open>A file that is a list.\<close>

lemma list_file: "sequential_file (\<lambda>n f. (take n f, drop n f)) (\<lambda>f. f)"
  by (simp add: sequential_file_def)

theorem read_transfer_delivers_witness:
  "\<exists>args args' f'. tftp_process_read True True True (take 512 (replicate 600 7))
      = (Some args, [Udp_recv_rrq, Send (tftp_send_data_packet 1 (replicate 512 7))])
    \<and> rrq_run (\<lambda>n f. (take n f, drop n f)) [mem_of (tftp_send_ack_packet 1)] args (drop 512 (replicate 600 7))
      = Some ([Send (tftp_send_data_packet 2 (replicate 88 7)), Pbuf_free], args', f')
    \<and> rrq_recv_callback True [] (mem_of (tftp_send_ack_packet 2)) args' = None"
proof -
  let ?fread = "\<lambda>n f. (take n f, drop n f) :: u8 list \<times> u8 list" and ?d = "replicate 600 (7 :: u8)"
  let ?args = "\<lparr>data = take 512 ?d, block = 1, tot_bytes = 0\<rparr>"
  have k: "length ?d div 512 = 1" by simp
  have lt: "length ?d div 512 < 65535" unfolding k by simp
  have rd: "?fread 512 ?d = (take 512 ?d, drop 512 ?d)" ..
  have pr: "tftp_process_read True True True (take 512 ?d)
      = (Some ?args, [Udp_recv_rrq, Send (tftp_send_data_packet 1 (take 512 ?d))])"
    by (simp only: tftp_process_read_def tftp_send_next_block_def tftp_send_message_def Let_def) simp
  have s: "take 512 ?d = replicate 512 7" "slice ?d 1 = replicate 88 7" "[1..<1 + 1] = [1 :: nat]"
    by (simp_all add: slice_def TFTP_DATA_LEN_MAX_def)
  from read_transfer_delivers [OF list_file refl lt rd pr, where alloc_ok = True and chunk' = "[]" and p = "mem_of (tftp_send_ack_packet 2)", unfolded k s(3)]
  obtain args' f' where "rrq_run ?fread (map (\<lambda>i. mem_of (tftp_send_ack_packet (int i))) [1]) ?args (drop 512 ?d)
      = Some (concat (map (\<lambda>i. [Send (tftp_send_data_packet (int i + 1) (slice ?d i)), Pbuf_free]) [1]), args', f')"
    "rrq_recv_callback True [] (mem_of (tftp_send_ack_packet 2)) args' = None" by (elim exE conjE) (rule that; assumption)
  moreover have "map (\<lambda>i. mem_of (tftp_send_ack_packet (int i))) [1] = [mem_of (tftp_send_ack_packet 1)]"
    "concat (map (\<lambda>i. [Send (tftp_send_data_packet (int i + 1) (slice ?d i)), Pbuf_free]) [1])
      = [Send (tftp_send_data_packet 2 (replicate 88 7)), Pbuf_free]" by (simp_all flip: s(2))
  ultimately have "rrq_run ?fread [mem_of (tftp_send_ack_packet 1)] ?args (drop 512 ?d)
      = Some ([Send (tftp_send_data_packet 2 (replicate 88 7)), Pbuf_free], args', f')"
    "rrq_recv_callback True [] (mem_of (tftp_send_ack_packet 2)) args' = None" by (simp_all only:)
  with pr [unfolded s(1)] show ?thesis unfolding s(1) by blast
qed

text \<open>
  An acknowledgement that is not the expected one does not repeat the block: the same
  number goes out again with the next part of the file.
\<close>

lemma rrq_wrong_ack_skips:
  assumes "\<not> tftp_is_correct_ack p (block args)" "length (data args) = TFTP_DATA_LEN_MAX"
  shows "rrq_recv_callback True chunk p args
    = Some (args\<lparr>data := chunk\<rparr>, [Send (tftp_send_data_packet (block args) chunk), Pbuf_free])"
  using assms by (simp add: rrq_recv_callback_def tftp_send_next_block_def tftp_send_message_def Let_def)

section \<open>A write transfer\<close>

text \<open>
  The packets of a client until the server gives its arguments up; \<open>file_write\<close> takes
  all it is given.
\<close>

fun wrq_run :: "u8 list list \<Rightarrow> tftp_args option \<Rightarrow> (tftp_args option \<times> tftp_op list) option" where
  "wrq_run [] args = Some (args, [])"
| "wrq_run (pkt # pkts) None = Some (None, [])"
| "wrq_run (pkt # pkts) (Some args) =
     (case wrq_recv_callback True (int (length pkt - 4)) (length pkt) (length pkt) (mem_of pkt) args of
        None \<Rightarrow> None
      | Some (args, out) \<Rightarrow> map_option (\<lambda>(a, out'). (a, out @ out')) (wrq_run pkts args))"

fun file_written :: "tftp_op list \<Rightarrow> u8 list" where
  "file_written [] = []"
| "file_written (File_write bs # ops) = bs @ file_written ops"
| "file_written (_ # ops) = file_written ops"

lemma file_written_append [simp]: "file_written (xs @ ys) = file_written xs @ file_written ys"
  by (induction xs rule: file_written.induct) auto

lemma length_data_packet: "length d \<le> TFTP_DATA_LEN_MAX \<Longrightarrow> length (tftp_send_data_packet b d) = 4 + length d"
  by (simp add: data_packet_bytes)

lemma data_packet_block:
  assumes "0 \<le> b" "b < 65536" "length d \<le> TFTP_DATA_LEN_MAX"
  shows "int (unat (tftp_extract_block (mem_of (tftp_send_data_packet b d)))) = b"
proof -
  have "tftp_extract_block (mem_of (tftp_send_data_packet b d)) = of_int b"
    unfolding data_packet_bytes [OF assms(3)] using extract_block_built [of 0 TFTP_DATA "of_int b" d] by simp
  then show ?thesis using assms(1,2) by (simp add: uint_word_of_int)
qed

lemma data_packet_payload:
  assumes "length d \<le> TFTP_DATA_LEN_MAX"
  shows "map (mem_of (tftp_send_data_packet b d)) [4..<4 + length d] = d"
  unfolding data_packet_bytes [OF assms]
  by (rule nth_equalityI) (simp_all add: mem_of_def u16_bytes_def)

text \<open>The next block, and a block received before.\<close>

lemma wrq_next:
  assumes "0 \<le> block args" "block args + 1 < 65536" "length d = TFTP_DATA_LEN_MAX"
  shows "\<exists>out. wrq_recv_callback True 512 516 516 (mem_of (tftp_send_data_packet (block args + 1) d)) args
    = Some (Some (args\<lparr>block := block args + 1, tot_bytes := tot_bytes args + 512\<rparr>), out) \<and> file_written out = d"
proof -
  have le: "length d \<le> TFTP_DATA_LEN_MAX" using assms(3) by simp
  show ?thesis
    using data_packet_block [of "block args + 1" d] assms data_packet_payload [OF le, of "block args + 1"]
    by (simp add: wrq_recv_callback_def Let_def tftp_send_message_def TFTP_DATA_PKT_HDR_LEN_def
        TFTP_DATA_PKT_LEN_MAX_def TFTP_DATA_LEN_MAX_def)
qed

lemma wrq_repeated:
  assumes "0 \<le> b" "b < 65536" "b \<noteq> block args + 1" "length d = TFTP_DATA_LEN_MAX"
  shows "\<exists>out. wrq_recv_callback True 512 516 516 (mem_of (tftp_send_data_packet b d)) args
    = Some (Some args, out) \<and> file_written out = []"
  using data_packet_block [of b d] assms
  by (simp add: wrq_recv_callback_def Let_def tftp_send_message_def TFTP_DATA_PKT_HDR_LEN_def
      TFTP_DATA_PKT_LEN_MAX_def TFTP_DATA_LEN_MAX_def)

lemma wrq_last:
  assumes "0 \<le> block args" "block args + 1 < 65536" "length d < TFTP_DATA_LEN_MAX"
  shows "\<exists>out. wrq_recv_callback True (int (length d)) (4 + length d) (4 + length d)
      (mem_of (tftp_send_data_packet (block args + 1) d)) args = Some (None, out) \<and> file_written out = d"
proof -
  have le: "length d \<le> TFTP_DATA_LEN_MAX" using assms(3) by simp
  show ?thesis
    using data_packet_block [of "block args + 1" d] assms data_packet_payload [OF le, of "block args + 1"]
    by (simp add: wrq_recv_callback_def Let_def tftp_send_message_def tftp_cleanup_def TFTP_DATA_PKT_HDR_LEN_def
        TFTP_DATA_PKT_LEN_MAX_def TFTP_DATA_LEN_MAX_def)
qed

text \<open>
  The packets of a client that sends the file \<open>concat ds @ d\<close>: block \<open>i + 1\<close> carries the
  \<open>i\<close>-th full block, and after each of them any of the blocks sent so far may be repeated.
\<close>

definition data_packets :: "u8 list list \<Rightarrow> u8 list \<Rightarrow> (nat \<Rightarrow> nat list) \<Rightarrow> u8 list list" where
  "data_packets ds d again =
     concat (map (\<lambda>i. map (\<lambda>j. tftp_send_data_packet (int j + 1) (ds ! j)) (i # again i)) [0..<length ds])
     @ [tftp_send_data_packet (int (length ds) + 1) d]"

lemma wrq_run_append:
  "wrq_run xs args = Some (args', out) \<Longrightarrow> wrq_run (xs @ ys) args
    = map_option (\<lambda>(a, out'). (a, out @ out')) (wrq_run ys args')"
proof (induction xs args arbitrary: out rule: wrq_run.induct)
  case (1 args)
  then show ?case by (cases "wrq_run ys args'") auto
next
  case (2 pkt pkts)
  then show ?case by (cases ys) auto
next
  case (3 pkt pkts args)
  from 3(2) obtain a o1 o2
    where cb: "wrq_recv_callback True (int (length pkt - 4)) (length pkt) (length pkt) (mem_of pkt) args = Some (a, o1)"
      and rest: "wrq_run pkts a = Some (args', o2)" and out: "out = o1 @ o2"
    by (auto split: option.splits)
  show ?case
    using 3(1) [OF cb refl rest] cb out by (cases "wrq_run ys args'") auto
qed

lemma wrq_run_again:
  assumes "\<And>j. j \<in> set js \<Longrightarrow> int j + 1 \<le> block args \<and> length (ds ! j) = TFTP_DATA_LEN_MAX" "block args < 65536"
  shows "\<exists>out. wrq_run (map (\<lambda>j. tftp_send_data_packet (int j + 1) (ds ! j)) js) (Some args) = Some (Some args, out)
    \<and> file_written out = []"
  using assms(1)
proof (induction js)
  case (Cons j js)
  obtain out where "wrq_recv_callback True 512 516 516 (mem_of (tftp_send_data_packet (int j + 1) (ds ! j))) args
      = Some (Some args, out)" "file_written out = []"
    using wrq_repeated [of "int j + 1" args "ds ! j"] Cons.prems [of j] assms(2) by auto
  moreover have "length (tftp_send_data_packet (int j + 1) (ds ! j)) = 516"
    using Cons.prems [of j] by (simp add: length_data_packet TFTP_DATA_LEN_MAX_def)
  ultimately show ?case using Cons by auto
qed simp

lemma wrq_run_blocks:
  assumes "\<forall>i<k. length (ds ! i) = TFTP_DATA_LEN_MAX \<and> (\<forall>j\<in>set (again i). j \<le> i)" "k < 65535"
  shows "\<exists>out t. wrq_run (concat (map (\<lambda>i. map (\<lambda>j. tftp_send_data_packet (int j + 1) (ds ! j)) (i # again i)) [0..<k]))
      (Some \<lparr>data = [], block = 0, tot_bytes = 0\<rparr>) = Some (Some \<lparr>data = [], block = int k, tot_bytes = t\<rparr>, out)
    \<and> file_written out = concat (map ((!) ds) [0..<k])"
  using assms
proof (induction k)
  case (Suc k)
  let ?pk = "\<lambda>j. tftp_send_data_packet (int j + 1) (ds ! j)"
  obtain out t where ih: "wrq_run (concat (map (\<lambda>i. map ?pk (i # again i)) [0..<k]))
      (Some \<lparr>data = [], block = 0, tot_bytes = 0\<rparr>) = Some (Some \<lparr>data = [], block = int k, tot_bytes = t\<rparr>, out)"
      "file_written out = concat (map ((!) ds) [0..<k])"
    using Suc by auto
  let ?a = "\<lparr>data = [], block = int k + 1, tot_bytes = t + 512\<rparr>"
  have len: "length (ds ! k) = TFTP_DATA_LEN_MAX" "length (?pk k) = 516"
    using Suc.prems(1) by (simp_all add: length_data_packet TFTP_DATA_LEN_MAX_def)
  obtain out1 where o1: "wrq_recv_callback True 512 516 516 (mem_of (?pk k)) \<lparr>data = [], block = int k, tot_bytes = t\<rparr>
      = Some (Some ?a, out1)" "file_written out1 = ds ! k"
    using wrq_next [of "\<lparr>data = [], block = int k, tot_bytes = t\<rparr>" "ds ! k"] len(1) Suc.prems(2) by auto
  obtain out2 where o2: "wrq_run (map ?pk (again k)) (Some ?a) = Some (Some ?a, out2)" "file_written out2 = []"
  proof -
    have "int j + 1 \<le> block ?a \<and> length (ds ! j) = TFTP_DATA_LEN_MAX" if "j \<in> set (again k)" for j
    proof -
      have "j \<le> k" using Suc.prems(1) that by blast
      then show ?thesis using Suc.prems(1) by simp
    qed
    then show thesis using wrq_run_again [of "again k" ?a ds] Suc.prems(2) that by auto
  qed
  have "wrq_run (map ?pk (k # again k)) (Some \<lparr>data = [], block = int k, tot_bytes = t\<rparr>) = Some (Some ?a, out1 @ out2)"
    using o1(1) o2(1) len(2) by simp
  then have "wrq_run (concat (map (\<lambda>i. map ?pk (i # again i)) [0..<Suc k]))
      (Some \<lparr>data = [], block = 0, tot_bytes = 0\<rparr>) = Some (Some ?a, out @ out1 @ out2)"
    using wrq_run_append [OF ih(1), of "map ?pk (k # again k)"] by simp
  then show ?case using ih(2) o1(2) o2(2) by (auto simp: add.commute)
qed simp

text \<open>
  C24: A write transfer stores exactly the file the client sends: blocks of 512 bytes in order, of
  which any may arrive again later (a lost acknowledgement), and a short block that ends
  the transfer, after which the arguments are given up.  No step on the way is undefined,
  for up to 65534 full blocks.
\<close>

theorem write_transfer_stores:
  assumes "\<forall>i<length ds. length (ds ! i) = 512 \<and> (\<forall>j\<in>set (again i). j \<le> i)" "length ds < 65535" "length d < 512"
    and "tftp_process_write True True True = (Some args, out0)"
  shows "\<exists>out. wrq_run (data_packets ds d again) (Some args) = Some (None, out)
    \<and> file_written out = concat ds @ d \<and> out0 = [Udp_recv_wrq, Send (tftp_send_ack_packet 0)]"
proof -
  have start: "args = \<lparr>data = [], block = 0, tot_bytes = 0\<rparr>" "out0 = [Udp_recv_wrq, Send (tftp_send_ack_packet 0)]"
    using assms(4) by (auto simp: tftp_process_write_def tftp_send_message_def)
  let ?k = "length ds" and ?p = "tftp_send_data_packet (int (length ds) + 1) d"
  obtain out t where run: "wrq_run (concat (map (\<lambda>i. map (\<lambda>j. tftp_send_data_packet (int j + 1) (ds ! j)) (i # again i)) [0..<?k]))
      (Some args) = Some (Some \<lparr>data = [], block = int ?k, tot_bytes = t\<rparr>, out)"
      "file_written out = concat ds"
    using wrq_run_blocks [of ?k ds again] assms(1,2) by (auto simp: start TFTP_DATA_LEN_MAX_def map_nth)
  have "length ?p = 4 + length d" using assms(3) by (simp add: length_data_packet TFTP_DATA_LEN_MAX_def)
  moreover obtain out1 where "wrq_recv_callback True (int (length d)) (4 + length d) (4 + length d) (mem_of ?p)
      \<lparr>data = [], block = int ?k, tot_bytes = t\<rparr> = Some (None, out1)" "file_written out1 = d"
    using wrq_last [of "\<lparr>data = [], block = int ?k, tot_bytes = t\<rparr>" d] assms(2,3) by (auto simp: TFTP_DATA_LEN_MAX_def)
  ultimately have "wrq_run [?p] (Some \<lparr>data = [], block = int ?k, tot_bytes = t\<rparr>) = Some (None, out1)"
    by simp
  then have "wrq_run (data_packets ds d again) (Some args) = Some (None, out @ out1)"
    unfolding data_packets_def using wrq_run_append [OF run(1), of "[?p]"] by simp
  then show ?thesis using run(2) \<open>file_written out1 = d\<close> start(2) by auto
qed

theorem write_transfer_stores_witness:
  "\<exists>out. wrq_run (data_packets [replicate 512 5] [6] (\<lambda>_. [0, 0])) (Some \<lparr>data = [], block = 0, tot_bytes = 0\<rparr>)
    = Some (None, out) \<and> file_written out = replicate 512 5 @ [6]"
  using write_transfer_stores [of "[replicate 512 5]" "\<lambda>_. [0, 0]" "[6]" "\<lparr>data = [], block = 0, tot_bytes = 0\<rparr>"
      "[Udp_recv_wrq, Send (tftp_send_ack_packet 0)]"]
  by (auto simp: tftp_process_write_def tftp_send_message_def)

end
