(* ===== verification/TcpListen.thy ===== *)
theory TcpListen
  imports Inet
begin

text \<open>
  Local ports of TCP, \<open>core/tcp.c\<close> (\<open>tcp_new_port\<close>, \<open>tcp_bind\<close>, \<open>tcp_listen_with_backlog\<close>)
  and the search of a listening control block for a segment in \<open>core/tcp_in.c\<close>.  A
  control block is its address in memory and the two fields these functions use; the lists are the
  linked lists of \<open>tcp.c\<close>, first element first.
\<close>

record tcp_pcb =
  pcb_at :: nat
  local_ip :: u32
  local_port :: u16

record tcp_pcbs =
  listen_pcbs :: "tcp_pcb list"
  active_pcbs :: "tcp_pcb list"
  bound_pcbs :: "tcp_pcb list"
  tw_pcbs :: "tcp_pcb list"
  last_port :: u16

definition TCP_LOCAL_PORT_RANGE_START :: u16 where "TCP_LOCAL_PORT_RANGE_START = 4096"
definition TCP_LOCAL_PORT_RANGE_END :: u16 where "TCP_LOCAL_PORT_RANGE_END = 0x7fff"

section \<open>Operations\<close>

text \<open>The jumps back to \<open>again\<close>, \<open>n\<close> at most: \<open>None\<close> when all of these ports are taken.\<close>

definition next_port :: "u16 \<Rightarrow> u16" where
  "next_port port = (if TCP_LOCAL_PORT_RANGE_END < port + 1 then TCP_LOCAL_PORT_RANGE_START else port + 1)"

fun tcp_new_port :: "nat \<Rightarrow> tcp_pcbs \<Rightarrow> (u16 \<times> tcp_pcbs) option" where
  "tcp_new_port 0 s = None"
| "tcp_new_port (Suc n) s =
     (let port = next_port (last_port s); s = s\<lparr>last_port := port\<rparr> in
      if \<exists>pcb\<in>set (active_pcbs s). local_port pcb = port then tcp_new_port n s
      else if \<exists>pcb\<in>set (tw_pcbs s). local_port pcb = port then tcp_new_port n s
      else if \<exists>pcb\<in>set (listen_pcbs s). local_port pcb = port then tcp_new_port n s
      else Some (port, s))"

text \<open>After as many rounds as the range has ports the search has seen all of them.\<close>

definition port_count :: nat where "port_count = 28672"

definition taken :: "u32 \<Rightarrow> u16 \<Rightarrow> tcp_pcb \<Rightarrow> bool" where
  "taken ipaddr port cpcb \<longleftrightarrow> local_port cpcb = port \<and>
     (ip_addr_isany (local_ip cpcb) \<or> ip_addr_isany ipaddr \<or> local_ip cpcb = ipaddr)"

definition tcp_bind :: "bool \<Rightarrow> tcp_pcb \<Rightarrow> u32 \<Rightarrow> u16 \<Rightarrow> tcp_pcbs \<Rightarrow> (err_t \<times> tcp_pcb \<times> tcp_pcbs) option" where
  "tcp_bind closed pcb ipaddr port s =
     (if \<not> closed then Some (ERR_ISCONN, pcb, s)
      else case (if port = 0 then tcp_new_port port_count s else Some (port, s)) of
        None \<Rightarrow> None
      | Some (port, s) \<Rightarrow>
          if \<exists>cpcb\<in>set (listen_pcbs s). taken ipaddr port cpcb then Some (ERR_USE, pcb, s)
          else if \<exists>cpcb\<in>set (active_pcbs s). taken ipaddr port cpcb then Some (ERR_USE, pcb, s)
          else if \<exists>cpcb\<in>set (bound_pcbs s). taken ipaddr port cpcb then Some (ERR_USE, pcb, s)
          else if \<exists>cpcb\<in>set (tw_pcbs s). local_port cpcb = port \<and> local_ip cpcb = ipaddr
          then Some (ERR_USE, pcb, s)
          else (let pcb = (if \<not> ip_addr_isany ipaddr then pcb\<lparr>local_ip := ipaddr\<rparr> else pcb);
                    pcb = pcb\<lparr>local_port := port\<rparr>
                in Some (ERR_OK, pcb, s\<lparr>bound_pcbs := pcb # bound_pcbs s\<rparr>)))"

text \<open>\<open>TCP_RMV\<close> unlinks the first element at the given address.\<close>

fun TCP_RMV :: "nat \<Rightarrow> tcp_pcb list \<Rightarrow> tcp_pcb list" where
  "TCP_RMV a [] = []"
| "TCP_RMV a (p # ps) = (if pcb_at p = a then ps else p # TCP_RMV a ps)"

text \<open>\<open>lpcb\<close> is the address of the control block the pool gave, if any.\<close>

definition tcp_listen_with_backlog ::
    "bool \<Rightarrow> nat option \<Rightarrow> tcp_pcb \<Rightarrow> tcp_pcbs \<Rightarrow> tcp_pcb option \<times> tcp_pcbs" where
  "tcp_listen_with_backlog closed lpcb pcb s =
     (if \<not> closed then (None, s)
      else case lpcb of None \<Rightarrow> (None, s)
      | Some at \<Rightarrow>
          (let l = \<lparr>pcb_at = at, local_ip = local_ip pcb, local_port = local_port pcb\<rparr>
           in (Some l, s\<lparr>bound_pcbs := TCP_RMV (pcb_at pcb) (bound_pcbs s),
                         listen_pcbs := l # listen_pcbs s\<rparr>)))"

text \<open>The first listening block for a segment, and the list with it moved to the front.\<close>

definition accepts :: "u32 \<Rightarrow> u16 \<Rightarrow> tcp_pcb \<Rightarrow> bool" where
  "accepts dest port lpcb \<longleftrightarrow>
     (ip_addr_isany (local_ip lpcb) \<or> local_ip lpcb = dest) \<and> local_port lpcb = port"

fun listen_lookup :: "u32 \<Rightarrow> u16 \<Rightarrow> tcp_pcb list \<Rightarrow> tcp_pcb list \<Rightarrow> (tcp_pcb \<times> tcp_pcb list) option" where
  "listen_lookup dest port prev [] = None"
| "listen_lookup dest port prev (lpcb # next) =
     (if accepts dest port lpcb then Some (lpcb, lpcb # prev @ next)
      else listen_lookup dest port (prev @ [lpcb]) next)"

section \<open>A free port\<close>

lemma next_port_iter:
  assumes "4096 \<le> unat p" "unat p \<le> 0x7fff"
  shows "unat ((next_port ^^ k) p) = 4096 + (unat p - 4096 + k) mod 28672"
proof (induction k)
  case (Suc k)
  define q M where "q = (next_port ^^ k) p" and "M = (unat p - 4096 + k) mod 28672"
  have m: "M < 28672" by (simp add: M_def)
  have q: "unat q = 4096 + M" using Suc.IH by (simp add: q_def M_def)
  have "unat (q + 1) = unat q + unat (1 :: u16)" by (rule unat_add_lem [THEN iffD1]) (use q m in simp)
  then have s: "unat (q + 1) = 4097 + M" using q by simp
  have "(unat p - 4096 + Suc k) mod 28672 = (if M + 1 = 28672 then 0 else M + 1)"
    unfolding M_def by (metis Suc_eq_plus1 add_Suc_right mod_Suc)
  moreover have "(0x7fff < q + 1) = (M + 1 = 28672)"
    using s m by (auto simp: word_less_nat_alt)
  ultimately have "unat (next_port q) = 4096 + (unat p - 4096 + Suc k) mod 28672"
    using s by (simp add: next_port_def TCP_LOCAL_PORT_RANGE_END_def TCP_LOCAL_PORT_RANGE_START_def)
  then show ?case by (simp add: q_def)
qed (use assms in simp)

lemma shift_mod_inj:
  assumes "(a + Suc i) mod m = (a + Suc j) mod m" "i < m" "j < (m :: nat)"
  shows "i = j"
proof -
  have "\<not> x < y" if "(a + Suc x) mod m = (a + Suc y) mod m" "y < m" for x y
  proof
    assume "x < y"
    moreover have "m dvd (a + Suc y) - (a + Suc x)"
      using that(1) \<open>x < y\<close> by (subst mod_eq_dvd_iff_nat [symmetric]) auto
    ultimately show False using that(2) by (auto dest: dvd_imp_le)
  qed
  then show ?thesis using assms by (metis linorder_neqE_nat)
qed

definition used_port :: "tcp_pcbs \<Rightarrow> u16 \<Rightarrow> bool" where
  "used_port s port \<longleftrightarrow> (\<exists>pcb\<in>set (active_pcbs s @ tw_pcbs s @ listen_pcbs s). local_port pcb = port)"

lemma tcp_new_port_step:
  "tcp_new_port (Suc n) s = (let port = next_port (last_port s) in
     if used_port s port then tcp_new_port n (s\<lparr>last_port := port\<rparr>) else Some (port, s\<lparr>last_port := port\<rparr>))"
  by (simp add: used_port_def Let_def bex_Un)

lemma tcp_new_port_None:
  "tcp_new_port n s = None \<Longrightarrow> k < n \<Longrightarrow> used_port s ((next_port ^^ Suc k) (last_port s))"
proof (induction n arbitrary: s k)
  case (Suc n)
  let ?s = "s\<lparr>last_port := next_port (last_port s)\<rparr>"
  have u: "used_port s (next_port (last_port s))" and n: "tcp_new_port n ?s = None"
    using Suc.prems(1) unfolding tcp_new_port_step by (auto simp: Let_def split: if_splits)
  show ?case
  proof (cases k)
    case (Suc j)
    then have "used_port ?s ((next_port ^^ Suc j) (last_port ?s))" using Suc.IH n Suc.prems(2) by blast
    then show ?thesis unfolding Suc by (simp add: used_port_def funpow_swap1)
  qed (use u in simp)
qed simp

lemma tcp_new_port_unused:
  "tcp_new_port n s = Some (port, s') \<Longrightarrow> \<not> used_port s port \<and> s' = s\<lparr>last_port := port\<rparr>"
proof (induction n arbitrary: s)
  case (Suc n)
  let ?s = "s\<lparr>last_port := next_port (last_port s)\<rparr>"
  show ?case
  proof (cases "used_port s (next_port (last_port s))")
    case True
    then have "tcp_new_port n ?s = Some (port, s')" using Suc.prems unfolding tcp_new_port_step by (simp add: Let_def)
    then show ?thesis using Suc.IH [of ?s] by (simp add: used_port_def)
  next
    case False
    then show ?thesis using Suc.prems unfolding tcp_new_port_step by (auto simp: Let_def)
  qed
qed simp

text \<open>
  C38: The search for a local port ends: with fewer control blocks than ports in the range it
  gives a port no active, waiting or listening block uses.
\<close>

theorem tcp_new_port_returns:
  assumes "TCP_LOCAL_PORT_RANGE_START \<le> last_port s" "last_port s \<le> TCP_LOCAL_PORT_RANGE_END"
    and "length (active_pcbs s @ tw_pcbs s @ listen_pcbs s) < port_count"
  shows "\<exists>port. tcp_new_port port_count s = Some (port, s\<lparr>last_port := port\<rparr>)
    \<and> port \<notin> local_port ` set (active_pcbs s @ tw_pcbs s @ listen_pcbs s)"
proof (cases "tcp_new_port port_count s")
  case None
  let ?f = "\<lambda>k. (next_port ^^ Suc k) (last_port s)" and ?L = "active_pcbs s @ tw_pcbs s @ listen_pcbs s"
  have lp: "4096 \<le> unat (last_port s)" "unat (last_port s) \<le> 0x7fff"
    using assms(1,2) by (simp_all add: word_le_nat_alt TCP_LOCAL_PORT_RANGE_START_def TCP_LOCAL_PORT_RANGE_END_def)
  have "inj_on ?f {..<port_count}"
  proof (rule inj_onI)
    fix i j assume ij: "i \<in> {..<port_count}" "j \<in> {..<port_count}" "?f i = ?f j"
    have "(unat (last_port s) - 4096 + Suc i) mod 28672 = (unat (last_port s) - 4096 + Suc j) mod 28672"
      using arg_cong [OF ij(3), of unat] unfolding next_port_iter [OF lp] by (rule add_left_imp_eq)
    then show "i = j" by (rule shift_mod_inj) (use ij(1,2) in \<open>simp_all add: port_count_def\<close>)
  qed
  then have "card (?f ` {..<port_count}) = port_count" by (simp add: card_image)
  moreover have "?f ` {..<port_count} \<subseteq> local_port ` set ?L"
  proof (rule image_subsetI)
    fix k assume "k \<in> {..<port_count}"
    then show "?f k \<in> local_port ` set ?L"
      using tcp_new_port_None [OF None, of k] unfolding used_port_def by (metis imageI lessThan_iff)
  qed
  then have "card (?f ` {..<port_count}) \<le> card (local_port ` set ?L)" by (rule card_mono [OF finite_imageI [OF finite_set]])
  moreover have "card (local_port ` set ?L) \<le> length ?L"
    using card_image_le [OF finite_set] card_length le_trans by blast
  ultimately show ?thesis using assms(3) by linarith
next
  case (Some r)
  then show ?thesis using tcp_new_port_unused [of port_count s "fst r" "snd r"]
    by (cases r) (auto simp: used_port_def)
qed

definition no_pcbs :: tcp_pcbs where
  "no_pcbs = \<lparr>listen_pcbs = [], active_pcbs = [], bound_pcbs = [], tw_pcbs = [], last_port = TCP_LOCAL_PORT_RANGE_START\<rparr>"

theorem tcp_new_port_returns_witness: "\<exists>port. tcp_new_port port_count no_pcbs = Some (port, no_pcbs\<lparr>last_port := port\<rparr>)"
  using tcp_new_port_returns [of no_pcbs]
  by (auto simp: no_pcbs_def port_count_def TCP_LOCAL_PORT_RANGE_START_def TCP_LOCAL_PORT_RANGE_END_def simp del: tcp_new_port.simps)

section \<open>Segments find at most one listener\<close>

text \<open>Two control blocks that could be meant by the same segment.\<close>

definition clash :: "tcp_pcb \<Rightarrow> tcp_pcb \<Rightarrow> bool" where
  "clash a b \<longleftrightarrow> taken (local_ip a) (local_port a) b"

lemma clash_sym: "clash a b \<longleftrightarrow> clash b a"
  by (auto simp: clash_def taken_def)

definition ports_ok :: "tcp_pcbs \<Rightarrow> bool" where
  "ports_ok s \<longleftrightarrow> sorted_wrt (\<lambda>a b. \<not> clash a b) (listen_pcbs s @ bound_pcbs s)
     \<and> distinct (map pcb_at (bound_pcbs s))"

text \<open>
  What the stack does with the lists: a new control block (its address is not in use, its
  address field zero) is bound, a bound one is made to listen, a segment is looked up; the lists of
  connections change in ways that do not matter here.
\<close>

inductive tcp_reach :: "tcp_pcbs \<Rightarrow> bool" where
  start: "tcp_reach no_pcbs"
| bind: "tcp_reach s \<Longrightarrow> pcb_at pcb \<notin> pcb_at ` set (bound_pcbs s) \<Longrightarrow> local_ip pcb = 0
    \<Longrightarrow> tcp_bind closed pcb ipaddr port s = Some (err, pcb', s') \<Longrightarrow> tcp_reach s'"
| listen: "tcp_reach s \<Longrightarrow> pcb \<in> set (bound_pcbs s)
    \<Longrightarrow> tcp_listen_with_backlog closed lpcb pcb s = (r, s') \<Longrightarrow> tcp_reach s'"
| segment: "tcp_reach s \<Longrightarrow> listen_lookup dest port [] (listen_pcbs s) = Some (l, ls)
    \<Longrightarrow> tcp_reach (s\<lparr>listen_pcbs := ls\<rparr>)"
| connections: "tcp_reach s \<Longrightarrow> tcp_reach (s\<lparr>active_pcbs := as, tw_pcbs := ts\<rparr>)"

lemma tcp_bind_ok:
  assumes "ports_ok s" "pcb_at pcb \<notin> pcb_at ` set (bound_pcbs s)" "local_ip pcb = 0"
    and "tcp_bind closed pcb ipaddr port s = Some (err, pcb', s')"
  shows "ports_ok s'"
proof -
  have old: "ports_ok (s\<lparr>last_port := p\<rparr>)" for p using assms(1) by (simp add: ports_ok_def)
  have new: "ports_ok (t\<lparr>bound_pcbs := q # bound_pcbs t\<rparr>)"
    if "ports_ok t" "bound_pcbs t = bound_pcbs s" "pcb_at q = pcb_at pcb" "local_ip q = ipaddr"
      "\<forall>c\<in>set (listen_pcbs t). \<not> taken ipaddr (local_port q) c" "\<forall>c\<in>set (bound_pcbs t). \<not> taken ipaddr (local_port q) c" for t q
    using that assms(2) unfolding ports_ok_def
    by (auto simp: sorted_wrt_append clash_def [of q]) (metis clash_def clash_sym)
  have new': "ports_ok (s\<lparr>last_port := p, bound_pcbs := q # bound_pcbs s\<rparr>)"
    if "pcb_at q = pcb_at pcb" "local_ip q = ipaddr"
      "\<forall>c\<in>set (listen_pcbs s). \<not> taken ipaddr (local_port q) c" "\<forall>c\<in>set (bound_pcbs s). \<not> taken ipaddr (local_port q) c" for p q
    using new [of "s\<lparr>last_port := p\<rparr>" q] old [of p] that by simp
  show ?thesis
  proof (cases "port = 0")
    case True
    then show ?thesis using assms
      by (auto simp: tcp_bind_def Let_def ip_addr_isany_def split: if_splits option.splits
          dest!: tcp_new_port_unused intro!: new' old)
  next
    case False
    then show ?thesis using assms
      by (auto simp: tcp_bind_def Let_def ip_addr_isany_def split: if_splits option.splits intro!: new)
  qed
qed

lemma TCP_RMV_split:
  "pcb \<in> set ps \<Longrightarrow> distinct (map pcb_at ps) \<Longrightarrow>
    \<exists>xs ys. ps = xs @ pcb # ys \<and> TCP_RMV (pcb_at pcb) ps = xs @ ys"
proof (induction ps)
  case (Cons p ps)
  show ?case
  proof (cases "p = pcb")
    case True
    then show ?thesis by (intro exI [of _ "[]"] exI [of _ ps]) simp
  next
    case False
    then obtain xs ys where "ps = xs @ pcb # ys" "TCP_RMV (pcb_at pcb) ps = xs @ ys" using Cons by auto
    moreover have "pcb_at p \<noteq> pcb_at pcb" using Cons.prems False by (auto simp: image_iff)
    ultimately show ?thesis by (intro exI [of _ "p # xs"] exI [of _ ys]) simp
  qed
qed simp

lemma tcp_listen_ok:
  assumes "ports_ok s" "pcb \<in> set (bound_pcbs s)" "tcp_listen_with_backlog closed lpcb pcb s = (r, s')"
  shows "ports_ok s'"
proof -
  obtain xs ys where B: "bound_pcbs s = xs @ pcb # ys" "TCP_RMV (pcb_at pcb) (bound_pcbs s) = xs @ ys"
    using TCP_RMV_split [OF assms(2)] assms(1) by (auto simp: ports_ok_def)
  show ?thesis
  proof (cases "closed \<and> lpcb \<noteq> None")
    case True
    then obtain a where a: "lpcb = Some a" and c: closed by auto
    let ?l = "\<lparr>pcb_at = a, local_ip = local_ip pcb, local_port = local_port pcb\<rparr>"
    have "s' = s\<lparr>bound_pcbs := xs @ ys, listen_pcbs := ?l # listen_pcbs s\<rparr>"
      using assms(3) by (simp add: tcp_listen_with_backlog_def a c B(2) Let_def)
    moreover have "clash ?l = clash pcb" by (simp add: clash_def fun_eq_iff)
    moreover have "\<forall>c\<in>set (listen_pcbs s @ xs @ ys). \<not> clash pcb c"
      using assms(1) B(1) by (auto simp: ports_ok_def sorted_wrt_append clash_sym [of pcb])
    ultimately show ?thesis using assms(1) B(1) by (auto simp: ports_ok_def sorted_wrt_append)
  next
    case False
    then have "s' = s" using assms(3) by (auto simp: tcp_listen_with_backlog_def split: if_splits)
    then show ?thesis using assms(1) by simp
  qed
qed

lemma listen_lookup_split:
  "listen_lookup dest port prev ls = Some (l, ls') \<Longrightarrow>
    \<exists>xs ys. ls = xs @ l # ys \<and> ls' = l # prev @ xs @ ys \<and> accepts dest port l"
proof (induction ls arbitrary: prev)
  case (Cons a ls)
  show ?case
  proof (cases "accepts dest port a")
    case True
    then show ?thesis using Cons.prems by (intro exI [of _ "[]"] exI [of _ ls]) auto
  next
    case False
    then obtain xs ys where "ls = xs @ l # ys" "ls' = l # (prev @ [a]) @ xs @ ys" "accepts dest port l"
      using Cons.IH [of "prev @ [a]"] Cons.prems by auto
    then show ?thesis by (intro exI [of _ "a # xs"] exI [of _ ys]) simp
  qed
qed simp

lemma segment_ok:
  assumes "ports_ok s" "listen_lookup dest port [] (listen_pcbs s) = Some (l, ls)"
  shows "ports_ok (s\<lparr>listen_pcbs := ls\<rparr>)"
proof -
  obtain xs ys where "listen_pcbs s = xs @ l # ys" "ls = l # xs @ ys"
    using listen_lookup_split [OF assms(2)] by auto
  then show ?thesis using assms(1)
    by (auto simp: ports_ok_def sorted_wrt_append) (metis clash_sym)+
qed

lemma tcp_reach_ok: "tcp_reach s \<Longrightarrow> ports_ok s"
proof (induction rule: tcp_reach.induct)
  case start
  show ?case by (simp add: ports_ok_def no_pcbs_def)
next
  case (connections s as ts)
  then show ?case by (simp add: ports_ok_def)
qed (blast intro: tcp_bind_ok tcp_listen_ok segment_ok)+

lemma pairwise_filter:
  "sorted_wrt (\<lambda>a b. \<not> R a b) xs \<Longrightarrow> (\<And>a b. P a \<Longrightarrow> P b \<Longrightarrow> R a b) \<Longrightarrow> length (filter P xs) \<le> 1"
  by (induction xs) (auto simp: filter_empty_conv)

text \<open>
  Whatever is bound, made to listen and received in whatever order, a segment has at most one
  listening control block: which one answers does not depend on the order of the list, which
  changes with every segment.
\<close>

theorem one_listener:
  assumes "tcp_reach s"
  shows "length (filter (accepts dest port) (listen_pcbs s)) \<le> 1"
proof (rule pairwise_filter)
  show "sorted_wrt (\<lambda>a b. \<not> clash a b) (listen_pcbs s)"
    using tcp_reach_ok [OF assms] by (simp add: ports_ok_def sorted_wrt_append)
qed (auto simp: accepts_def clash_def taken_def)

text \<open>Binding the wildcard address to port 23 and listening on it.\<close>

lemma telnet_reachable:
  "tcp_reach (no_pcbs\<lparr>listen_pcbs := [\<lparr>pcb_at = 2, local_ip = 0, local_port = 23\<rparr>]\<rparr>)"
proof -
  let ?p = "\<lparr>pcb_at = 1, local_ip = 0, local_port = 23\<rparr>"
  have "tcp_bind True (?p\<lparr>local_port := 0\<rparr>) 0 23 no_pcbs = Some (ERR_OK, ?p, no_pcbs\<lparr>bound_pcbs := [?p]\<rparr>)"
    by (simp add: tcp_bind_def no_pcbs_def ip_addr_isany_def Let_def)
  then have b: "tcp_reach (no_pcbs\<lparr>bound_pcbs := [?p]\<rparr>)"
    by (rule tcp_reach.bind [OF tcp_reach.start, rotated 2]) (simp_all add: no_pcbs_def)
  show ?thesis
    by (rule tcp_reach.listen [OF b, of ?p True "Some 2" "Some \<lparr>pcb_at = 2, local_ip = 0, local_port = 23\<rparr>"])
       (simp_all add: tcp_listen_with_backlog_def no_pcbs_def Let_def)
qed

theorem one_listener_witness:
  "length (filter (accepts 0x0A00A8C0 23) [\<lparr>pcb_at = 2, local_ip = 0, local_port = 23\<rparr>]) \<le> 1"
  using one_listener [OF telnet_reachable, of "0x0A00A8C0" 23] by (simp add: no_pcbs_def)

end
