(* ===== verification/LedApp.thy ===== *)
theory LedApp
  imports TcpListen Board
begin

text \<open>
  The LED application, \<open>port/server.c\<close> and \<open>port/client.c\<close>, and the start of the other
  servers (\<open>HelloWorld_init\<close>, \<open>helloarmjishu_init\<close>, \<open>httpd_init\<close>, \<open>tftpd_init\<close>).  The outcome
  of an allocation is an argument; \<open>None\<close> is the use of a null pointer or of more than a
  local buffer.
\<close>

section \<open>Server\<close>

definition UDP_SERVER_PORT :: u16 where "UDP_SERVER_PORT = 8"
definition UDP_CLIENT_PORT :: u16 where "UDP_CLIENT_PORT = 4"
definition TCP_PORT :: u16 where "TCP_PORT = 4"

datatype app_op =
    Udp_bind u32 u16 | Udp_recv | Udp_connect u32 u16 | Udp_send "u8 list" | Udp_disconnect
  | Tcp_accept tcp_pcb | Tcp_close tcp_pcb | Tcp_recv | Tcp_connect u32 u16 | Tcp_write "u8 list" | Tcp_output
  | LCD_DisplayStringLine nat string | LCD_DrawRect nat nat nat nat | LEDToggle nat | Pbuf_free

definition server_init :: "bool \<Rightarrow> app_op list option" where
  "server_init udp_new_ok =
     (if udp_new_ok then Some [Udp_bind 0 UDP_SERVER_PORT, Udp_recv] else None)"

text \<open>\<open>pcb\<close> and \<open>lpcb\<close> are the addresses of the control blocks that were allocated.\<close>

definition udp_server_callback ::
    "u32 \<Rightarrow> u8 list \<Rightarrow> nat option \<Rightarrow> nat option \<Rightarrow> tcp_pcbs \<Rightarrow> (tcp_pcbs \<times> app_op list) option" where
  "udp_server_callback addr p pcb lpcb s =
     (case store_text 20 (''is: '' @ sprint_ip addr @ ''     '') of None \<Rightarrow> None | Some iptxt \<Rightarrow>
      let out = [LCD_DisplayStringLine 4 (''Client'' @ [CHR 0x27] @ ''s IP address''),
                 LCD_DisplayStringLine 5 iptxt,
                 Udp_connect addr UDP_CLIENT_PORT, Udp_send p, Udp_disconnect,
                 Udp_bind 0 UDP_SERVER_PORT, Udp_recv]
      in case pcb of None \<Rightarrow> Some (s, out @ [Pbuf_free])
         | Some at \<Rightarrow>
             (case tcp_bind True \<lparr>pcb_at = at, local_ip = 0, local_port = 0\<rparr> addr TCP_PORT s of None \<Rightarrow> None
              | Some (err, pcb, s) \<Rightarrow>
                  if err \<noteq> ERR_USE
                  then (case tcp_listen_with_backlog True lpcb pcb s of
                          (None, s) \<Rightarrow> None
                        | (Some l, s) \<Rightarrow> Some (s, out @ [Tcp_accept l, Pbuf_free]))
                  else Some (s, out @ [Tcp_close pcb, Pbuf_free])))"

definition tcp_server_accept :: "err_t \<times> app_op list" where
  "tcp_server_accept = (ERR_OK, [Tcp_recv])"

text \<open>\<open>p\<close> is the content of the first buffer: \<open>None\<close> when the connection is closed by the peer.\<close>

definition tcp_server_recv :: "u8 list option \<Rightarrow> (err_t \<times> app_op list) option" where
  "tcp_server_recv p =
     (case p of None \<Rightarrow> None | Some [] \<Rightarrow> None
      | Some (data # _) \<Rightarrow>
          Some (ERR_OK, (if unat data < 4 then [LEDToggle (unat data)] else []) @ [Pbuf_free]))"

section \<open>Client\<close>

definition client_server_port :: u16 where "client_server_port = 8006"

definition Sent :: "u8 list" where
  "Sent = map of_char ''fanqh test udp client'' @ [13, 10, 0]"

definition client_init :: "bool \<Rightarrow> bool \<Rightarrow> app_op list option" where
  "client_init udp_new_ok pbuf_ok =
     (if udp_new_ok \<and> pbuf_ok
      then Some [Udp_connect (SET_IP4_ADDR 192 168 0 101) client_server_port, Udp_send Sent, Udp_disconnect,
                 Udp_bind 0 5, Udp_recv, Pbuf_free]
      else None)"

text \<open>The new control block is bound to the local port of the application before it connects.\<close>

definition udp_client_callback :: "u32 \<Rightarrow> nat option \<Rightarrow> tcp_pcbs \<Rightarrow> (tcp_pcbs \<times> app_op list) option" where
  "udp_client_callback addr pcb s =
     (case store_text 20 (''is: '' @ sprint_ip addr @ ''     '') of None \<Rightarrow> None | Some iptxt \<Rightarrow>
      case pcb of None \<Rightarrow> None
      | Some at \<Rightarrow>
          (case tcp_bind True \<lparr>pcb_at = at, local_ip = 0, local_port = 0\<rparr> 0 TCP_PORT s of None \<Rightarrow> None
           | Some (err, pcb, s) \<Rightarrow>
               Some (s, [LCD_DisplayStringLine 3 (''The server'' @ [CHR 0x27] @ ''s IP add.''),
                         LCD_DisplayStringLine 4 iptxt, Tcp_connect addr TCP_PORT, Pbuf_free])))"

definition tcp_client_connected :: "err_t \<times> app_op list" where
  "tcp_client_connected =
     (ERR_OK, [LCD_DisplayStringLine 5 ''Led control started '',
               LCD_DrawRect 180 310 40 60, LCD_DrawRect 180 230 40 60,
               LCD_DrawRect 180 150 40 60, LCD_DrawRect 180 70 40 60,
               Tcp_write Sent, Tcp_recv])"

definition tcp_client_recv :: "err_t \<times> app_op list" where
  "tcp_client_recv = (ERR_OK, [Pbuf_free])"

definition tcp_led_control :: "nat \<Rightarrow> app_op list" where
  "tcp_led_control Led = [Tcp_write [of_nat Led], Tcp_output]"

section \<open>The other servers\<close>

text \<open>A listening server on a port of any local address; a null control block is not tested for.\<close>

definition tcp_serve :: "u16 \<Rightarrow> nat option \<Rightarrow> nat option \<Rightarrow> tcp_pcbs \<Rightarrow> (tcp_pcbs \<times> app_op list) option" where
  "tcp_serve port pcb lpcb s =
     (case pcb of None \<Rightarrow> None
      | Some at \<Rightarrow>
          (case tcp_bind True \<lparr>pcb_at = at, local_ip = 0, local_port = 0\<rparr> 0 port s of None \<Rightarrow> None
           | Some (err, pcb, s) \<Rightarrow>
               (case tcp_listen_with_backlog True lpcb pcb s of
                  (None, s) \<Rightarrow> None
                | (Some l, s) \<Rightarrow> Some (s, [Tcp_accept l]))))"

definition HelloWorld_init :: "nat option \<Rightarrow> nat option \<Rightarrow> tcp_pcbs \<Rightarrow> (tcp_pcbs \<times> app_op list) option" where
  "HelloWorld_init = tcp_serve 23"

definition helloarmjishu_init :: "nat option \<Rightarrow> nat option \<Rightarrow> tcp_pcbs \<Rightarrow> (tcp_pcbs \<times> app_op list) option" where
  "helloarmjishu_init = tcp_serve 8000"

definition httpd_init :: "nat option \<Rightarrow> nat option \<Rightarrow> tcp_pcbs \<Rightarrow> (tcp_pcbs \<times> app_op list) option" where
  "httpd_init = tcp_serve 80"

definition tftpd_init :: "bool \<Rightarrow> err_t \<Rightarrow> app_op list" where
  "tftpd_init udp_new_ok bind_err =
     (if \<not> udp_new_ok then []
      else if bind_err \<noteq> ERR_OK then [Udp_bind 0 69]
      else [Udp_bind 0 69, Udp_recv])"

section \<open>What the LED application does\<close>

text \<open>
  The server listens where no client can reach it: it binds the new listener to the
  client's address, so a connection to the server's own address, or to any other
  address but the client's, finds the listener it found before the request.
\<close>

theorem udp_server_callback_unreachable:
  assumes "udp_server_callback addr p pcb lpcb s = Some (s', out)" "addr \<noteq> 0" "own \<noteq> addr"
  shows "map_option fst (listen_lookup own port [] (listen_pcbs s'))
    = map_option fst (listen_lookup own port [] (listen_pcbs s))"
proof -
  have skip: "map_option fst (listen_lookup own port prev ls) = map_option fst (listen_lookup own port prev' ls)" for prev prev' ls
    by (induction ls arbitrary: prev prev') auto
  have "listen_pcbs s' = listen_pcbs s \<or> (\<exists>a. listen_pcbs s' = \<lparr>pcb_at = a, local_ip = addr, local_port = TCP_PORT\<rparr> # listen_pcbs s)"
    using assms(1,2)
    by (auto simp: udp_server_callback_def tcp_bind_def tcp_listen_with_backlog_def Let_def TCP_PORT_def
        ip_addr_isany_def split: option.splits if_splits prod.splits)
  then show ?thesis
    using assms(2,3) skip [of "[_]" _ "[]"] by (auto simp: accepts_def ip_addr_isany_def)
qed

theorem udp_server_callback_unreachable_witness:
  "map_option fst (listen_lookup 0x0A00A8C0 4 [] [\<lparr>pcb_at = 2, local_ip = 0x04030201, local_port = 4\<rparr>]) = None"
proof -
  let ?l = "\<lparr>pcb_at = 2, local_ip = 0x04030201, local_port = 4\<rparr>"
  have "sprint_ip 0x04030201 = ''1.2.3.4''"
    by (simp add: sprint_ip_def iptab_def dec_small digit_char_def drop_bit_eq_div char_of_def bit_0)
  then have "\<exists>out. udp_server_callback 0x04030201 [1] (Some 1) (Some 2) no_pcbs = Some (no_pcbs\<lparr>listen_pcbs := [?l]\<rparr>, out)"
    by (simp add: udp_server_callback_def store_text_def cstr_size_def tcp_bind_def tcp_listen_with_backlog_def
        no_pcbs_def TCP_PORT_def ip_addr_isany_def Let_def)
  then obtain out where "udp_server_callback 0x04030201 [1] (Some 1) (Some 2) no_pcbs = Some (no_pcbs\<lparr>listen_pcbs := [?l]\<rparr>, out)" ..
  from udp_server_callback_unreachable [OF this, of "0x0A00A8C0" 4] show ?thesis
    by (simp add: no_pcbs_def)
qed

text \<open>The LED the client names is the one the server toggles.\<close>

lemma led_command: "Led < 4 \<Longrightarrow> \<exists>bs. tcp_led_control Led = [Tcp_write bs, Tcp_output]
    \<and> tcp_server_recv (Some (bs @ rest)) = Some (ERR_OK, [LEDToggle Led, Pbuf_free])"
  by (simp add: tcp_led_control_def tcp_server_recv_def unat_of_nat_u8)

end
