(* ===== verification/Allocator.thy ===== *)
theory Allocator
  imports Prelude
begin

text \<open>
  What the stack relies on in its two allocators, the heap (\<open>mem.c\<close>) and the pools
  (\<open>memp.c\<close>): \<open>rep s L\<close> says that in the state \<open>s\<close> the objects in \<open>L\<close> are handed out.
  \<open>alloc_run\<close> is a client that keeps what it gets in a list and returns elements of it.
\<close>

datatype client_step = Get | Put nat

fun alloc_run :: "('s \<Rightarrow> 'p option \<times> 's) \<Rightarrow> ('p \<Rightarrow> 's \<Rightarrow> 's) \<Rightarrow> client_step list \<Rightarrow> 'p list \<Rightarrow> 's \<Rightarrow> 'p list \<times> 's" where
  "alloc_run alloc release [] held s = (held, s)"
| "alloc_run alloc release (Get # rs) held s =
     (case alloc s of (None, s) \<Rightarrow> alloc_run alloc release rs held s
      | (Some p, s) \<Rightarrow> alloc_run alloc release rs (p # held) s)"
| "alloc_run alloc release (Put i # rs) held s =
     (if i < length held
      then alloc_run alloc release rs (take i held @ drop (Suc i) held) (release (held ! i) s)
      else alloc_run alloc release rs held s)"

lemma remove_nth_distinct:
  assumes "distinct xs" "i < length xs"
  shows "distinct (take i xs @ drop (Suc i) xs)" "set (take i xs @ drop (Suc i) xs) = set xs - {xs ! i}"
proof -
  have "xs = take i xs @ xs ! i # drop (Suc i) xs" using assms(2) by (rule id_take_nth_drop)
  then have "distinct (take i xs @ xs ! i # drop (Suc i) xs)" "set xs = set (take i xs @ xs ! i # drop (Suc i) xs)"
    using assms(1) by metis+
  then show "distinct (take i xs @ drop (Suc i) xs)" "set (take i xs @ drop (Suc i) xs) = set xs - {xs ! i}"
    by auto
qed

locale allocator =
  fixes rep :: "'s \<Rightarrow> 'p set \<Rightarrow> bool"
    and alloc :: "'s \<Rightarrow> 'p option \<times> 's"
    and release :: "'p \<Rightarrow> 's \<Rightarrow> 's"
  assumes alloc_Some: "rep s L \<Longrightarrow> alloc s = (Some p, s') \<Longrightarrow> p \<notin> L \<and> rep s' (insert p L)"
    and alloc_None: "rep s L \<Longrightarrow> alloc s = (None, s') \<Longrightarrow> rep s' L"
    and release_live: "rep s L \<Longrightarrow> p \<in> L \<Longrightarrow> rep (release p s) (L - {p})"
begin

text \<open>Nothing is handed out twice, and what is handed out is what the client holds.\<close>

lemma run_distinct:
  "rep s (set held) \<Longrightarrow> distinct held \<Longrightarrow> alloc_run alloc release rs held s = (held', s')
    \<Longrightarrow> distinct held' \<and> rep s' (set held')"
proof (induction rs arbitrary: held s)
  case (Cons r rs)
  show ?case
  proof (cases r)
    case Get
    obtain q t where a: "alloc s = (q, t)" by (cases "alloc s")
    show ?thesis
    proof (cases q)
      case None
      then have "rep t (set held)" using alloc_None Cons.prems(1) a by blast
      then show ?thesis using Cons Get a None by simp
    next
      case (Some p)
      then have "distinct (p # held)" "rep t (set (p # held))"
        using alloc_Some [OF Cons.prems(1)] a Cons.prems(2) by auto
      then show ?thesis using Cons.IH [of t "p # held"] Cons.prems(3) Get a Some by simp
    qed
  next
    case (Put i)
    show ?thesis
    proof (cases "i < length held")
      case True
      note d = remove_nth_distinct [OF Cons.prems(2) True]
      have "rep (release (held ! i) s) (set held - {held ! i})" using release_live [OF Cons.prems(1)] True by simp
      then show ?thesis using Cons.IH [OF _ d(1)] Cons.prems(3) Put True d(2) by simp
    qed (use Cons Put in simp)
  qed
qed simp

end

text \<open>An allocator with a fixed number of objects.\<close>

locale pool_allocator = allocator rep alloc release
  for rep :: "'s \<Rightarrow> 'p set \<Rightarrow> bool" and alloc and release +
  fixes capacity :: nat
  assumes bounded: "rep s L \<Longrightarrow> finite L \<and> card L \<le> capacity"
    and exhausted: "rep s L \<Longrightarrow> fst (alloc s) = None \<longleftrightarrow> card L = capacity"
begin

lemma run_bounded:
  assumes "rep s (set held)" "distinct held" "alloc_run alloc release rs held s = (held', s')"
  shows "length held' \<le> capacity \<and> (fst (alloc s') = None \<longleftrightarrow> length held' = capacity)"
  using run_distinct [OF assms] bounded exhausted distinct_card by metis

end

end
