(* ===== verification/Heap.thy ===== *)
theory Heap
  imports Allocator
begin

text \<open>
  The heap of lwIP, \<open>core/mem.c\<close>, in the configuration of the build: \<open>MEM_SIZE\<close> 20480,
  alignment 4, no pools, no frees from interrupts.  A block is named by the offset of its header from
  \<open>ram\<close>; \<open>ram_end\<close> is the header at \<open>MEM_SIZE_ALIGNED\<close>.  A pointer handed out is the offset of
  the data, the header's plus \<open>SIZEOF_STRUCT_MEM\<close>.
\<close>

record mem =
  mem_next :: nat
  mem_prev :: nat
  used :: bool

record heap =
  ram :: "nat \<Rightarrow> mem"
  lfree :: nat

definition SIZEOF_STRUCT_MEM :: nat where "SIZEOF_STRUCT_MEM = 8"
definition MIN_SIZE_ALIGNED :: nat where "MIN_SIZE_ALIGNED = 12"
definition MEM_SIZE_ALIGNED :: nat where "MEM_SIZE_ALIGNED = 20480"

lemmas mem_consts = SIZEOF_STRUCT_MEM_def MIN_SIZE_ALIGNED_def MEM_SIZE_ALIGNED_def

text \<open>\<open>mem_size_t\<close> has 16 bits: the aligned size wraps to 0 for the three largest sizes.\<close>

definition LWIP_MEM_ALIGN_SIZE :: "u16 \<Rightarrow> u16" where
  "LWIP_MEM_ALIGN_SIZE n = (n + 4 - 1) AND NOT 3"

definition request :: "u16 \<Rightarrow> nat" where
  "request n = (let sz = unat (LWIP_MEM_ALIGN_SIZE n) in
     if sz < MIN_SIZE_ALIGNED then MIN_SIZE_ALIGNED else sz)"

definition set_mem :: "nat \<Rightarrow> (mem \<Rightarrow> mem) \<Rightarrow> heap \<Rightarrow> heap" where
  "set_mem a f h = h\<lparr>ram := (ram h)(a := f (ram h a))\<rparr>"

section \<open>Operations\<close>

definition mem_init :: heap where
  "mem_init = \<lparr>ram = (\<lambda>_. \<lparr>mem_next = 0, mem_prev = 0, used = False\<rparr>)
       (0 := \<lparr>mem_next = MEM_SIZE_ALIGNED, mem_prev = 0, used = False\<rparr>,
        MEM_SIZE_ALIGNED := \<lparr>mem_next = MEM_SIZE_ALIGNED, mem_prev = MEM_SIZE_ALIGNED, used = True\<rparr>),
     lfree = 0\<rparr>"

definition plug_forward :: "nat \<Rightarrow> heap \<Rightarrow> heap" where
  "plug_forward mem h =
     (let nmem = mem_next (ram h mem) in
      if mem \<noteq> nmem \<and> \<not> used (ram h nmem) \<and> nmem \<noteq> MEM_SIZE_ALIGNED
      then (let h = (if lfree h = nmem then h\<lparr>lfree := mem\<rparr> else h);
                h = set_mem mem (mem_next_update (\<lambda>_. mem_next (ram h nmem))) h
            in set_mem (mem_next (ram h nmem)) (mem_prev_update (\<lambda>_. mem)) h)
      else h)"

definition plug_backward :: "nat \<Rightarrow> heap \<Rightarrow> heap" where
  "plug_backward mem h =
     (let pmem = mem_prev (ram h mem) in
      if pmem \<noteq> mem \<and> \<not> used (ram h pmem)
      then (let h = (if lfree h = mem then h\<lparr>lfree := pmem\<rparr> else h);
                h = set_mem pmem (mem_next_update (\<lambda>_. mem_next (ram h mem))) h
            in set_mem (mem_next (ram h mem)) (mem_prev_update (\<lambda>_. pmem)) h)
      else h)"

definition plug_holes :: "nat \<Rightarrow> heap \<Rightarrow> heap" where
  "plug_holes mem h = plug_backward mem (plug_forward mem h)"

text \<open>\<open>None\<close> is the null pointer; a pointer outside the heap is ignored.\<close>

definition mem_free :: "nat option \<Rightarrow> heap \<Rightarrow> heap" where
  "mem_free rmem h =
     (case rmem of None \<Rightarrow> h
      | Some rmem \<Rightarrow>
          if MEM_SIZE_ALIGNED \<le> rmem then h
          else (let mem = rmem - SIZEOF_STRUCT_MEM;
                    h = set_mem mem (used_update (\<lambda>_. False)) h;
                    h = (if mem < lfree h then h\<lparr>lfree := mem\<rparr> else h)
                in plug_holes mem h))"

text \<open>The data size of a block, in the unsigned arithmetic of the code.\<close>

definition room :: "heap \<Rightarrow> nat \<Rightarrow> nat" where
  "room h ptr = nat ((int (mem_next (ram h ptr)) - int (ptr + SIZEOF_STRUCT_MEM)) mod 2 ^ 32)"

text \<open>The block is taken, and what is left of it becomes a new one if that is big enough.\<close>

definition take_block :: "nat \<Rightarrow> nat \<Rightarrow> heap \<Rightarrow> heap" where
  "take_block sz ptr h =
     (if sz + SIZEOF_STRUCT_MEM + MIN_SIZE_ALIGNED \<le> room h ptr
      then (let ptr2 = ptr + SIZEOF_STRUCT_MEM + sz;
                h = set_mem ptr2 (\<lambda>_. \<lparr>mem_next = mem_next (ram h ptr), mem_prev = ptr, used = False\<rparr>) h;
                h = set_mem ptr (\<lambda>m. m\<lparr>mem_next := ptr2, used := True\<rparr>) h
            in if mem_next (ram h ptr2) \<noteq> MEM_SIZE_ALIGNED
               then set_mem (mem_next (ram h ptr2)) (mem_prev_update (\<lambda>_. ptr2)) h else h)
      else set_mem ptr (used_update (\<lambda>_. True)) h)"

text \<open>
  The loops run over the list of blocks, which has fewer than \<open>MEM_SIZE_ALIGNED\<close> elements: with
  that many rounds they have ended.
\<close>

fun next_free :: "nat \<Rightarrow> heap \<Rightarrow> nat \<Rightarrow> nat" where
  "next_free 0 h p = p"
| "next_free (Suc n) h p =
     (if used (ram h p) \<and> p \<noteq> MEM_SIZE_ALIGNED then next_free n h (mem_next (ram h p)) else p)"

fun find_block :: "nat \<Rightarrow> nat \<Rightarrow> heap \<Rightarrow> nat \<Rightarrow> nat option" where
  "find_block 0 sz h ptr = None"
| "find_block (Suc n) sz h ptr =
     (if ptr < MEM_SIZE_ALIGNED - sz
      then if \<not> used (ram h ptr) \<and> sz \<le> room h ptr then Some ptr
           else find_block n sz h (mem_next (ram h ptr))
      else None)"

definition mem_malloc :: "u16 \<Rightarrow> heap \<Rightarrow> nat option \<times> heap" where
  "mem_malloc sz h =
     (if sz = 0 then (None, h)
      else let sz = request sz in
        if MEM_SIZE_ALIGNED < sz then (None, h)
        else (case find_block MEM_SIZE_ALIGNED sz h (lfree h) of
                None \<Rightarrow> (None, h)
              | Some mem \<Rightarrow>
                  (let h = take_block sz mem h;
                       h = (if mem = lfree h then h\<lparr>lfree := next_free MEM_SIZE_ALIGNED h (lfree h)\<rparr> else h)
                   in (Some (mem + SIZEOF_STRUCT_MEM), h))))"

text \<open>\<open>mem_realloc\<close> shrinks a block in place; \<open>None\<close> is the null pointer it returns when it cannot.\<close>

definition mem_realloc :: "nat \<Rightarrow> u16 \<Rightarrow> heap \<Rightarrow> nat option \<times> heap" where
  "mem_realloc rmem newsize h =
     (let newsize = request newsize in
      if MEM_SIZE_ALIGNED < newsize then (None, h)
      else if MEM_SIZE_ALIGNED \<le> rmem then (Some rmem, h)
      else let ptr = rmem - SIZEOF_STRUCT_MEM;
               sz = room h ptr mod 65536
           in if sz < newsize then (None, h)
              else if newsize = sz then (Some rmem, h)
              else (let mem2 = mem_next (ram h ptr) in
                if \<not> used (ram h mem2)
                then (let nxt = mem_next (ram h mem2);
                          ptr2 = ptr + SIZEOF_STRUCT_MEM + newsize;
                          h = (if lfree h = mem2 then h\<lparr>lfree := ptr2\<rparr> else h);
                          h = set_mem ptr2 (\<lambda>_. \<lparr>mem_next = nxt, mem_prev = ptr, used = False\<rparr>) h;
                          h = set_mem ptr (mem_next_update (\<lambda>_. ptr2)) h
                      in (Some rmem, if nxt \<noteq> MEM_SIZE_ALIGNED then set_mem nxt (mem_prev_update (\<lambda>_. ptr2)) h else h))
                else if newsize + SIZEOF_STRUCT_MEM + MIN_SIZE_ALIGNED \<le> sz
                then (let ptr2 = ptr + SIZEOF_STRUCT_MEM + newsize;
                          h = (if ptr2 < lfree h then h\<lparr>lfree := ptr2\<rparr> else h);
                          h = set_mem ptr2 (\<lambda>_. \<lparr>mem_next = mem2, mem_prev = ptr, used = False\<rparr>) h;
                          h = set_mem ptr (mem_next_update (\<lambda>_. ptr2)) h
                      in (Some rmem, if mem2 \<noteq> MEM_SIZE_ALIGNED then set_mem mem2 (mem_prev_update (\<lambda>_. ptr2)) h else h))
                else (Some rmem, h)))"

text \<open>
  \<open>count * size\<close> is passed as a \<open>mem_size_t\<close>, then filled with zeros as an \<open>int\<close>: \<open>None\<close> is the
  filling beyond the block.
\<close>

definition mem_calloc :: "u16 \<Rightarrow> u16 \<Rightarrow> heap \<Rightarrow> (nat option \<times> heap) option" where
  "mem_calloc count sz h =
     (case mem_malloc (count * sz) h of
        (None, h) \<Rightarrow> Some (None, h)
      | (Some p, h) \<Rightarrow>
          if unat count * unat sz \<le> room h (p - SIZEOF_STRUCT_MEM) then Some (Some p, h) else None)"

section \<open>The list of blocks\<close>

text \<open>
  The heap implements a list of blocks, each with its length, header included, and its use:
  \<open>seg r p k bs\<close> says that from offset \<open>k\<close> on, with \<open>p\<close> before it, the headers link \<open>bs\<close>.
\<close>

type_synonym block = "nat \<times> bool"

fun seg :: "(nat \<Rightarrow> mem) \<Rightarrow> nat \<Rightarrow> nat \<Rightarrow> block list \<Rightarrow> bool" where
  "seg r p k [] = True"
| "seg r p k ((n, u) # bs) =
     (mem_next (r k) = k + n \<and> mem_prev (r k) = p \<and> used (r k) = u \<and> seg r k (k + n) bs)"

definition total :: "block list \<Rightarrow> nat" where
  "total bs = sum_list (map fst bs)"

fun last_block :: "nat \<Rightarrow> nat \<Rightarrow> block list \<Rightarrow> nat" where
  "last_block p k [] = p"
| "last_block p k ((n, u) # bs) = last_block k (k + n) bs"

fun lowest_free :: "nat \<Rightarrow> block list \<Rightarrow> nat" where
  "lowest_free k [] = k"
| "lowest_free k ((n, u) # bs) = (if u then lowest_free (k + n) bs else k)"

definition block_ok :: "block \<Rightarrow> bool" where
  "block_ok b \<longleftrightarrow> SIZEOF_STRUCT_MEM + MIN_SIZE_ALIGNED \<le> fst b \<and> 4 dvd fst b"

definition end_mark :: "heap \<Rightarrow> bool" where
  "end_mark h \<longleftrightarrow> used (ram h MEM_SIZE_ALIGNED) \<and> mem_next (ram h MEM_SIZE_ALIGNED) = MEM_SIZE_ALIGNED"

definition blocks_ok :: "block list \<Rightarrow> bool" where
  "blocks_ok bs \<longleftrightarrow> list_all block_ok bs \<and> total bs = MEM_SIZE_ALIGNED"

text \<open>No two free blocks are neighbours.\<close>

abbreviation plugged :: "block list \<Rightarrow> bool" where
  "plugged \<equiv> successively (\<lambda>a b. snd a \<or> snd b)"

definition heap_pre :: "heap \<Rightarrow> block list \<Rightarrow> bool" where
  "heap_pre h bs \<longleftrightarrow> seg (ram h) 0 0 bs \<and> blocks_ok bs \<and> lfree h = lowest_free 0 bs \<and> end_mark h"

definition heap_is :: "heap \<Rightarrow> block list \<Rightarrow> bool" where
  "heap_is h bs \<longleftrightarrow> heap_pre h bs \<and> plugged bs"

lemma total_simps [simp]:
  "total [] = 0" "total ((n, u) # bs) = n + total bs" "total (xs @ ys) = total xs + total ys"
  by (simp_all add: total_def)

lemma seg_append [simp]:
  "seg r p k (xs @ ys) \<longleftrightarrow> seg r p k xs \<and> seg r (last_block p k xs) (k + total xs) ys"
  by (induction r p k xs rule: seg.induct) (auto simp: add.assoc)

lemma lowest_free_append:
  "lowest_free k (xs @ ys) = (if list_all snd xs then lowest_free (k + total xs) ys else lowest_free k xs)"
  by (induction k xs rule: lowest_free.induct) (auto simp: add.assoc)

lemma block_ok_pos: "block_ok (n, u) \<Longrightarrow> 20 \<le> n"
  by (simp add: block_ok_def mem_consts)

text \<open>A segment depends on its own headers only, and on the link back at its start.\<close>

lemma seg_cong:
  "list_all block_ok bs \<Longrightarrow> (\<And>a. k \<le> a \<Longrightarrow> a < k + total bs \<Longrightarrow> r' a = r a) \<Longrightarrow> seg r' p k bs = seg r p k bs"
proof (induction r p k bs rule: seg.induct)
  case (2 r p k n u bs)
  have "r' k = r k" using 2(2,3) block_ok_pos [of n u] by simp
  moreover have "seg r' k (k + n) bs = seg r k (k + n) bs"
    by (rule 2(1)) (use 2(2,3) in auto)
  ultimately show ?case by simp
qed simp

lemma seg_relink:
  assumes "seg r p k bs" "list_all block_ok bs" "\<And>a. k < a \<Longrightarrow> a < k + total bs \<Longrightarrow> r' a = r a"
    and "bs \<noteq> [] \<Longrightarrow> r' k = (r k)\<lparr>mem_prev := p'\<rparr>"
  shows "seg r' p' k bs"
proof (cases bs)
  case (Cons b cs)
  obtain n u where b: "b = (n, u)" by (cases b)
  have "20 \<le> n" using assms(2) Cons b block_ok_pos [of n u] by simp
  then have "seg r' k (k + n) cs = seg r k (k + n) cs"
    by (intro seg_cong) (use assms(2,3) Cons b in auto)
  then show ?thesis using assms(1,4) by (simp add: Cons b)
qed simp

lemma blocks_pos: "list_all block_ok bs \<Longrightarrow> bs \<noteq> [] \<Longrightarrow> 20 \<le> total bs"
  by (cases bs) (auto dest: block_ok_pos)

lemma length_total: "list_all block_ok bs \<Longrightarrow> 20 * length bs \<le> total bs"
  by (induction bs) (auto dest!: block_ok_pos)

text \<open>What a header says.\<close>

lemma seg_head:
  assumes "seg r p k ((n, u) # ys)"
  shows "mem_next (r k) = k + n" "mem_prev (r k) = p" "used (r k) = u"
  using assms by simp_all

lemma room_block:
  assumes "mem_next (ram h k) = k + n" "block_ok (n, u)" "k + n \<le> MEM_SIZE_ALIGNED"
  shows "room h k = n - SIZEOF_STRUCT_MEM"
proof -
  have n: "8 \<le> n" "n \<le> 20480" using assms(2,3) block_ok_pos [of n u] by (simp_all add: mem_consts)
  then have "int (k + n) - int (k + 8) = int (n - 8)" by simp
  moreover have "int (n - 8) mod 2 ^ 32 = int (n - 8)" using n by simp
  ultimately show ?thesis by (simp only: room_def assms(1) SIZEOF_STRUCT_MEM_def nat_int)
qed

section \<open>Searching\<close>

lemma next_free_lowest:
  assumes "seg (ram h) p k bs" "list_all block_ok bs" "k + total bs = MEM_SIZE_ALIGNED" "length bs < fuel"
  shows "next_free fuel h k = lowest_free k bs"
  using assms
proof (induction "ram h" p k bs arbitrary: fuel rule: seg.induct)
  case (1 p k)
  then show ?case by (cases fuel) auto
next
  case (2 p k n u bs)
  have "k \<noteq> MEM_SIZE_ALIGNED" using 2(3,4) block_ok_pos [of n u] by auto
  then show ?case using 2 by (cases fuel) (auto simp: add.assoc)
qed

fun first_fit :: "nat \<Rightarrow> nat \<Rightarrow> block list \<Rightarrow> nat option" where
  "first_fit sz k [] = None"
| "first_fit sz k ((n, u) # bs) =
     (if \<not> u \<and> sz + SIZEOF_STRUCT_MEM \<le> n then Some k else first_fit sz (k + n) bs)"

lemma first_fit_full: "total bs \<le> sz \<Longrightarrow> first_fit sz k bs = None"
  by (induction sz k bs rule: first_fit.induct) (auto simp: mem_consts)

lemma find_block_first_fit:
  assumes "seg (ram h) p k bs" "list_all block_ok bs" "k + total bs = MEM_SIZE_ALIGNED" "length bs < fuel"
    and "sz \<le> MEM_SIZE_ALIGNED"
  shows "find_block fuel sz h k = first_fit sz k bs"
  using assms
proof (induction "ram h" p k bs arbitrary: fuel rule: seg.induct)
  case (1 p k)
  then show ?case by (cases fuel) auto
next
  case (2 p k n u bs)
  obtain f where f: "fuel = Suc f" using 2(5) by (cases fuel) auto
  have r: "room h k = n - SIZEOF_STRUCT_MEM"
    by (rule room_block [of _ _ _ u]) (use 2 in auto)
  have fits: "(sz \<le> n - SIZEOF_STRUCT_MEM) = (sz + SIZEOF_STRUCT_MEM \<le> n)"
    using 2(3) block_ok_pos [of n u] by (auto simp: mem_consts)
  show ?case
  proof (cases "k < MEM_SIZE_ALIGNED - sz")
    case True
    then show ?thesis using 2 by (auto simp: f r fits add.assoc)
  next
    case False
    then have "total ((n, u) # bs) \<le> sz" using 2(4) by linarith
    then show ?thesis using False first_fit_full by (simp add: f del: first_fit.simps)
  qed
qed

lemma first_fit_used: "list_all snd xs \<Longrightarrow> first_fit sz k (xs @ ys) = first_fit sz (k + total xs) ys"
  by (induction sz k xs rule: first_fit.induct) (auto simp: add.assoc)

lemma lowest_free_split:
  "\<exists>xs ys. bs = xs @ ys \<and> list_all snd xs \<and> lowest_free k bs = k + total xs"
proof (induction k bs rule: lowest_free.induct)
  case (2 k n u bs)
  show ?case
  proof (cases u)
    case True
    then obtain xs ys where "bs = xs @ ys" "list_all snd xs" "lowest_free (k + n) bs = k + n + total xs"
      using 2 by blast
    with True show ?thesis by (intro exI [of _ "(n, u) # xs"] exI [of _ ys]) simp
  qed (intro exI [of _ "[]"] exI [of _ "(n, u) # bs"], simp)
qed simp

lemma find_block_is:
  assumes "heap_is h bs" "sz \<le> MEM_SIZE_ALIGNED"
  shows "find_block MEM_SIZE_ALIGNED sz h (lfree h) = first_fit sz 0 bs"
proof -
  obtain xs ys where b: "bs = xs @ ys" "list_all snd xs" "lowest_free 0 bs = total xs"
    using lowest_free_split [of bs 0] by auto
  have ok: "list_all block_ok ys" "total xs + total ys = MEM_SIZE_ALIGNED"
    using assms(1) b(1) by (auto simp: heap_is_def heap_pre_def blocks_ok_def)
  have "length ys < MEM_SIZE_ALIGNED" using ok length_total [of ys] unfolding MEM_SIZE_ALIGNED_def by linarith
  then show ?thesis
    using find_block_first_fit [of h _ "total xs" ys MEM_SIZE_ALIGNED sz] assms b ok first_fit_used [OF b(2), of sz 0 ys]
    by (auto simp: heap_is_def heap_pre_def)
qed

lemma first_fit_Some:
  "first_fit sz k bs = Some a \<Longrightarrow> \<exists>xs n ys. bs = xs @ (n, False) # ys \<and> a = k + total xs
     \<and> sz + SIZEOF_STRUCT_MEM \<le> n"
proof (induction sz k bs rule: first_fit.induct)
  case (2 sz k n u bs)
  show ?case
  proof (cases "\<not> u \<and> sz + SIZEOF_STRUCT_MEM \<le> n")
    case True
    then show ?thesis using 2(2) by (intro exI [of _ "[]"]) auto
  next
    case False
    then obtain xs m ys where "bs = xs @ (m, False) # ys" "a = k + n + total xs" "sz + SIZEOF_STRUCT_MEM \<le> m"
      using 2 by auto
    then show ?thesis by (intro exI [of _ "(n, u) # xs"]) auto
  qed
qed simp

lemma first_fit_None:
  "first_fit sz k bs = None \<longleftrightarrow> list_all (\<lambda>(n, u). u \<or> n < sz + SIZEOF_STRUCT_MEM) bs"
  by (induction sz k bs rule: first_fit.induct) auto

section \<open>Refinement\<close>

text \<open>Exchanging a run of blocks for another of the same length.\<close>

lemma seg_put:
  assumes "seg r 0 0 (xs @ old @ ys)" "list_all block_ok (xs @ old @ ys)" "total mid = total old"
    and "\<And>a. a < total xs \<Longrightarrow> r' a = r a"
    and "\<And>a. total xs + total old < a \<Longrightarrow> a < total (xs @ old @ ys) \<Longrightarrow> r' a = r a"
    and "ys \<noteq> [] \<Longrightarrow> r' (total xs + total old)
      = (r (total xs + total old))\<lparr>mem_prev := last_block (last_block 0 0 xs) (total xs) mid\<rparr>"
    and "seg r' (last_block 0 0 xs) (total xs) mid"
  shows "seg r' 0 0 (xs @ mid @ ys)"
proof -
  have "seg r' 0 0 xs" using seg_cong [of xs 0 r' r 0] assms(1,2,4) by simp
  moreover have "seg r' (last_block (last_block 0 0 xs) (total xs) mid) (total xs + total old) ys"
    by (rule seg_relink [of r]) (use assms in auto)
  ultimately show ?thesis using assms(3,7) by simp
qed

definition split_block :: "nat \<Rightarrow> nat \<Rightarrow> block list" where
  "split_block sz n = (if sz + 2 * SIZEOF_STRUCT_MEM + MIN_SIZE_ALIGNED \<le> n
     then [(SIZEOF_STRUCT_MEM + sz, True), (n - SIZEOF_STRUCT_MEM - sz, False)] else [(n, True)])"

lemma total_split: "sz + SIZEOF_STRUCT_MEM \<le> n \<Longrightarrow> total (split_block sz n) = n"
  by (simp add: split_block_def mem_consts)

lemma take_block_is:
  assumes r: "seg (ram h) 0 0 (xs @ (n, False) # ys)" and ok: "list_all block_ok (xs @ (n, False) # ys)"
    and tot: "total (xs @ (n, False) # ys) = MEM_SIZE_ALIGNED" and sz: "MIN_SIZE_ALIGNED \<le> sz" "sz + SIZEOF_STRUCT_MEM \<le> n"
    and fin: "end_mark h"
  shows "seg (ram (take_block sz (total xs) h)) 0 0 (xs @ split_block sz n @ ys)"
    "lfree (take_block sz (total xs) h) = lfree h" "end_mark (take_block sz (total xs) h)"
proof -
  let ?k = "total xs" and ?h = "take_block sz (total xs) h"
  have nxt: "mem_next (ram h ?k) = ?k + n" "mem_prev (ram h ?k) = last_block 0 0 xs" using r by simp_all
  have room: "room h ?k = n - SIZEOF_STRUCT_MEM"
    by (rule room_block [OF nxt(1), of False]) (use ok tot in simp_all)
  have last: "?k + n \<noteq> MEM_SIZE_ALIGNED \<longleftrightarrow> ys \<noteq> []"
    using ok tot blocks_pos [of ys] by (cases ys) auto
  have fits: "(sz + SIZEOF_STRUCT_MEM + MIN_SIZE_ALIGNED \<le> n - SIZEOF_STRUCT_MEM)
      = (sz + 2 * SIZEOF_STRUCT_MEM + MIN_SIZE_ALIGNED \<le> n)"
    by (auto simp: mem_consts)
  have n: "20 \<le> n" using ok block_ok_pos [of n False] by simp
  show "lfree ?h = lfree h" by (simp add: take_block_def set_mem_def Let_def)
  show "end_mark ?h"
    using fin tot n sz
    by (auto simp: take_block_def room nxt fits end_mark_def set_mem_def Let_def mem_consts)
  show "seg (ram ?h) 0 0 (xs @ split_block sz n @ ys)"
  proof (rule seg_put [of "ram h" xs "[(n, False)]" ys])
    show "total (split_block sz n) = total [(n, False)]" using total_split [OF sz(2)] by simp
    show "ram ?h a = ram h a" if "a < ?k" for a
      using that n by (simp add: take_block_def room nxt fits set_mem_def Let_def)
    show "ram ?h a = ram h a" if "?k + total [(n, False)] < a" for a
      using that n sz by (simp add: take_block_def room nxt fits set_mem_def Let_def mem_consts)
    show "ram ?h (?k + total [(n, False)]) = (ram h (?k + total [(n, False)]))
        \<lparr>mem_prev := last_block (last_block 0 0 xs) ?k (split_block sz n)\<rparr>" if "ys \<noteq> []"
      using that n sz last r
      by (cases ys) (auto simp: take_block_def room nxt fits set_mem_def Let_def split_block_def mem_consts)
    show "seg (ram ?h) (last_block 0 0 xs) ?k (split_block sz n)"
      using n sz by (auto simp: take_block_def room nxt fits set_mem_def Let_def split_block_def mem_consts)
  qed (use r ok in simp_all)
qed

lemma lowest_free_lt: "\<not> list_all snd xs \<Longrightarrow> list_all block_ok xs \<Longrightarrow> lowest_free k xs < k + total xs"
proof (induction k xs rule: lowest_free.induct)
  case (2 k n u bs)
  then show ?case using block_ok_pos [of n u] by (auto simp: add.assoc)
qed simp

lemma lowest_free_ge: "k \<le> lowest_free k xs"
  by (induction k xs rule: lowest_free.induct) auto

lemma align_size: "unat (LWIP_MEM_ALIGN_SIZE n) = (unat n + 3) mod 65536 div 4 * 4"
proof -
  have "(n + 3) AND NOT 3 = push_bit 2 (drop_bit 2 (n + 3))" (is "?a = ?b")
  proof (rule bit_word_eqI)
    have m: "(3 :: u16) = mask 2" by (simp add: mask_eq_exp_minus_1)
    fix i assume "i < LENGTH(16)"
    then show "bit ?a i = bit ?b i"
      unfolding m by (cases "2 \<le> i") (auto simp: bit_simps bit_mask_iff dest!: le_Suc_ex)
  qed
  moreover have "unat (drop_bit 2 (n + 3)) = (unat n + 3) mod 65536 div 4"
    by (simp add: unat_drop_bit_eq drop_bit_eq_div unat_word_ariths)
  moreover have "(unat n + 3) mod 65536 div 4 * 4 < 65536"
    using div_times_less_eq_dividend [of "(unat n + 3) mod 65536" 4] mod_less_divisor [of 65536 "unat n + 3"] by linarith
  moreover have "LWIP_MEM_ALIGN_SIZE n = drop_bit 2 (n + 3) * 4"
    unfolding LWIP_MEM_ALIGN_SIZE_def using calculation(1) by (simp add: push_bit_eq_mult add.commute)
  ultimately show ?thesis by (simp add: unat_word_ariths)
qed

lemma request_ok: "MIN_SIZE_ALIGNED \<le> request n" "4 dvd request n"
  by (auto simp: request_def align_size mem_consts Let_def)

lemma request_ge: "unat n \<le> 65532 \<Longrightarrow> unat n \<le> request n"
  unfolding request_def align_size Let_def MIN_SIZE_ALIGNED_def by auto

section \<open>Allocation\<close>

lemma split_plugged:
  assumes "plugged (xs @ (n, False) # ys)"
  shows "plugged (xs @ split_block sz n @ ys)"
  using assms by (auto simp: split_block_def successively_append_iff successively_Cons)

lemma split_blocks_ok:
  assumes "blocks_ok (xs @ (n, False) # ys)" "MIN_SIZE_ALIGNED \<le> sz" "sz + SIZEOF_STRUCT_MEM \<le> n" "4 dvd sz"
  shows "blocks_ok (xs @ split_block sz n @ ys)"
proof -
  have "list_all block_ok (split_block sz n)"
    using assms by (auto simp: split_block_def blocks_ok_def block_ok_def mem_consts intro!: dvd_diff_nat)
  then show ?thesis using assms(1) total_split [OF assms(3)] by (simp add: blocks_ok_def)
qed

lemma mem_malloc_Some:
  assumes h: "heap_is h bs" and size: "sz \<noteq> 0" "request sz \<le> MEM_SIZE_ALIGNED"
    and ff: "first_fit (request sz) 0 bs = Some k"
  shows "\<exists>xs n ys h'. bs = xs @ (n, False) # ys \<and> k = total xs \<and> request sz + SIZEOF_STRUCT_MEM \<le> n
    \<and> mem_malloc sz h = (Some (k + SIZEOF_STRUCT_MEM), h') \<and> heap_is h' (xs @ split_block (request sz) n @ ys)"
proof -
  let ?sz = "request sz"
  obtain xs n ys where bs: "bs = xs @ (n, False) # ys" and k: "k = total xs" and fit: "?sz + SIZEOF_STRUCT_MEM \<le> n"
    using first_fit_Some [OF ff] by auto
  let ?bs = "xs @ split_block ?sz n @ ys" and ?t = "take_block ?sz k h"
  have pre: "seg (ram h) 0 0 bs" "blocks_ok bs" "lfree h = lowest_free 0 bs" "end_mark h" "plugged bs"
    using h by (auto simp: heap_is_def heap_pre_def)
  have t: "seg (ram ?t) 0 0 ?bs" "lfree ?t = lfree h" "end_mark ?t"
    using take_block_is [of h xs n ys ?sz] pre(1,2,4) fit request_ok(1) unfolding bs k blocks_ok_def by auto
  have ok: "blocks_ok ?bs" by (rule split_blocks_ok) (use pre(2) bs fit request_ok in auto)
  have low: "k = lfree h \<longleftrightarrow> list_all snd xs"
    using lowest_free_lt [of xs 0] pre(2,3) by (auto simp: bs k lowest_free_append blocks_ok_def)
  let ?h' = "if k = lfree h then ?t\<lparr>lfree := next_free MEM_SIZE_ALIGNED ?t (lfree h)\<rparr> else ?t"
  have "lfree ?h' = lowest_free 0 ?bs"
  proof (cases "list_all snd xs")
    case True
    let ?cs = "split_block ?sz n @ ys"
    have "list_all block_ok ?cs" "total xs + total ?cs = MEM_SIZE_ALIGNED" using ok by (auto simp: blocks_ok_def)
    moreover from this have "length ?cs < MEM_SIZE_ALIGNED"
      using length_total [of ?cs] unfolding MEM_SIZE_ALIGNED_def by linarith
    ultimately have "next_free MEM_SIZE_ALIGNED ?t (total xs) = lowest_free (total xs) ?cs"
      using next_free_lowest [of ?t "last_block 0 0 xs" "total xs" ?cs] t(1) by simp
    then show ?thesis using True low k by (auto simp: lowest_free_append)
  next
    case False
    then show ?thesis using low t(2) pre(3) by (auto simp: bs lowest_free_append)
  qed
  then have "heap_is ?h' ?bs"
    using t ok split_plugged pre(5) bs by (auto simp: heap_is_def heap_pre_def end_mark_def)
  moreover have "mem_malloc sz h = (Some (k + SIZEOF_STRUCT_MEM), ?h')"
    using size ff find_block_is [OF h size(2)] t(2)
    by (cases "k = lfree h") (simp_all add: mem_malloc_def Let_def)
  ultimately show ?thesis using bs k fit by blast
qed

lemma mem_malloc_None:
  assumes "heap_is h bs" "request sz \<le> MEM_SIZE_ALIGNED" "first_fit (request sz) 0 bs = None"
  shows "mem_malloc sz h = (None, h)"
  using assms find_block_is [OF assms(1,2)] by (simp add: mem_malloc_def Let_def)

section \<open>Release\<close>

definition merge_next :: "nat \<Rightarrow> block list \<Rightarrow> block list" where
  "merge_next n ys = (case ys of (m, False) # zs \<Rightarrow> (n + m, False) # zs | _ \<Rightarrow> (n, False) # ys)"

definition merge_prev :: "block list \<Rightarrow> nat \<Rightarrow> block list \<Rightarrow> block list" where
  "merge_prev xs n ys =
     (if xs \<noteq> [] \<and> \<not> snd (last xs) then butlast xs @ (fst (last xs) + n, False) # ys
      else xs @ (n, False) # ys)"

definition free_block :: "block list \<Rightarrow> nat \<Rightarrow> block list \<Rightarrow> block list" where
  "free_block xs n ys = (case merge_next n ys of [] \<Rightarrow> [] | (m, _) # zs \<Rightarrow> merge_prev xs m zs)"

lemma last_block_snoc [simp]: "last_block p k (xs @ [(n, u)]) = k + total xs"
  by (induction p k xs rule: last_block.induct) (auto simp: add.assoc)

lemma heap_preD:
  assumes "heap_pre h (xs @ (n, u) # ys)"
  shows "mem_next (ram h (total xs)) = total xs + n" "mem_prev (ram h (total xs)) = last_block 0 0 xs"
    "used (ram h (total xs)) = u" "20 \<le> n" "total xs < MEM_SIZE_ALIGNED" "total xs + n \<le> MEM_SIZE_ALIGNED"
    "total xs + n \<noteq> MEM_SIZE_ALIGNED \<longleftrightarrow> ys \<noteq> []" "lfree h = lowest_free 0 (xs @ (n, u) # ys)" "end_mark h"
    "seg (ram h) 0 0 (xs @ (n, u) # ys)" "list_all block_ok (xs @ (n, u) # ys)"
    "total xs + n + total ys = MEM_SIZE_ALIGNED"
proof -
  show "20 \<le> n" using assms block_ok_pos [of n u] by (simp add: heap_pre_def blocks_ok_def)
  then show "total xs < MEM_SIZE_ALIGNED" "total xs + n \<le> MEM_SIZE_ALIGNED"
    using assms by (simp_all add: heap_pre_def blocks_ok_def)
  show "total xs + n \<noteq> MEM_SIZE_ALIGNED \<longleftrightarrow> ys \<noteq> []"
    using assms blocks_pos [of ys] by (cases ys) (auto simp: heap_pre_def blocks_ok_def)
qed (use assms in \<open>simp_all add: heap_pre_def blocks_ok_def\<close>)

text \<open>The freed block becomes unused and, if it is now the lowest, the place to search from.\<close>

lemma mark_free:
  assumes h: "heap_pre h (xs @ (n, True) # ys)"
    and h': "h' = (let h = set_mem (total xs) (used_update (\<lambda>_. False)) h
                   in if total xs < lfree h then h\<lparr>lfree := total xs\<rparr> else h)"
  shows "heap_pre h' (xs @ (n, False) # ys)"
proof -
  let ?k = "total xs"
  note d = heap_preD [OF h]
  have ram: "ram h' = (ram h)(?k := (ram h ?k)\<lparr>used := False\<rparr>)" by (simp add: h' set_mem_def Let_def)
  have "seg (ram h') 0 0 (xs @ [(n, False)] @ ys)"
    by (rule seg_put [of "ram h" _ "[(n, True)]"]) (use d in \<open>auto simp: ram neq_Nil_conv\<close>)
  moreover have "lfree h' = lowest_free 0 (xs @ (n, False) # ys)"
  proof (cases "list_all snd xs")
    case True
    then have "?k < lfree h" using d(4,8) lowest_free_ge [of "?k + n" ys] by (simp add: lowest_free_append)
    then show ?thesis using True by (simp add: h' set_mem_def Let_def lowest_free_append)
  next
    case False
    then have "lfree h < ?k" using d(8,11) lowest_free_lt [of xs 0] by (simp add: lowest_free_append)
    then show ?thesis using False d(8) by (simp add: h' set_mem_def Let_def lowest_free_append)
  qed
  moreover have "end_mark h'" using d(5,9) by (simp add: end_mark_def ram)
  ultimately show ?thesis using h by (simp add: heap_pre_def blocks_ok_def block_ok_def)
qed

lemma plug_forward_is:
  assumes h: "heap_pre h (xs @ (n, False) # ys)"
  shows "heap_pre (plug_forward (total xs) h) (xs @ merge_next n ys)"
proof (cases "\<exists>m zs. ys = (m, False) # zs")
  case False
  note d = heap_preD [OF h]
  have "used (ram h (total xs + n))"
    using False d(9,10,12) by (cases ys) (auto simp: end_mark_def)
  then have "plug_forward (total xs) h = h" by (simp add: plug_forward_def d(1))
  moreover have "merge_next n ys = (n, False) # ys"
    using False by (auto simp: merge_next_def split: list.splits bool.splits)
  ultimately show ?thesis using h by simp
next
  case True
  then obtain m zs where ys: "ys = (m, False) # zs" by blast
  note d = heap_preD [OF h]
  have h2: "heap_pre h ((xs @ [(n, False)]) @ (m, False) # zs)" using h by (simp add: ys)
  note e = heap_preD [OF h2]
  let ?k = "total xs" and ?h = "plug_forward (total xs) h"
  have low: "lfree h \<noteq> ?k + n"
    using d(4,8,11) lowest_free_lt [of xs 0] by (auto simp: lowest_free_append ys)
  have ram: "ram ?h = (let r = (ram h)(?k := (ram h ?k)\<lparr>mem_next := ?k + n + m\<rparr>)
      in r(?k + n + m := (r (?k + n + m))\<lparr>mem_prev := ?k\<rparr>))" "lfree ?h = lfree h"
    using d(1,4) e(1,3,5) low by (simp_all add: plug_forward_def set_mem_def Let_def)
  have "seg (ram ?h) 0 0 (xs @ [(n + m, False)] @ zs)"
    by (rule seg_put [of "ram h" _ "[(n, False), (m, False)]"])
       (use d(2-4,10,11) e(4) ys in \<open>auto simp: ram Let_def add.assoc\<close>)
  moreover have "end_mark ?h" using d(5,9) by (auto simp: end_mark_def ram(1) Let_def)
  moreover have "block_ok (n + m, False)" using d(11) ys by (auto simp: block_ok_def)
  ultimately show ?thesis
    using d(8,11,12) ram(2) by (simp add: merge_next_def ys heap_pre_def blocks_ok_def lowest_free_append)
qed

lemma plug_backward_is:
  assumes h: "heap_pre h (xs @ (n, False) # ys)"
  shows "heap_pre (plug_backward (total xs) h) (merge_prev xs n ys)"
proof (cases "xs = []")
  case True
  then have "plug_backward (total xs) h = h"
    using heap_preD(2) [OF h] by (simp add: plug_backward_def)
  then show ?thesis using h True by (simp add: merge_prev_def)
next
  case False
  then obtain xs0 m u where xs: "xs = xs0 @ [(m, u)]" by (metis append_butlast_last_id prod.exhaust)
  note d = heap_preD [OF h]
  have h2: "heap_pre h (xs0 @ (m, u) # (n, False) # ys)" using h by (simp add: xs)
  note e = heap_preD [OF h2]
  let ?k = "total xs" and ?p = "total xs0" and ?h = "plug_backward (total xs) h"
  have prev: "mem_prev (ram h ?k) = ?p" "?p \<noteq> ?k" using d(2) e(4) by (simp_all add: xs)
  show ?thesis
  proof (cases u)
    case True
    then have "?h = h" using prev e(3) by (simp add: plug_backward_def)
    then show ?thesis using h True xs by (simp add: merge_prev_def)
  next
    case free: False
    have low: "lfree h \<noteq> ?k"
      using e(4,8,11) lowest_free_lt [of xs0 0] free by (auto simp: lowest_free_append xs)
    define h' where "h' = ?h"
    have ram: "ram h' = (let r = (ram h)(?p := (ram h ?p)\<lparr>mem_next := ?p + m + n\<rparr>)
        in r(?p + m + n := (r (?p + m + n))\<lparr>mem_prev := ?p\<rparr>))" "lfree h' = lfree h"
      using d(1) prev e(3) low free by (simp_all add: h'_def plug_backward_def set_mem_def Let_def xs)
    have "seg (ram h') 0 0 (xs0 @ [(m + n, False)] @ ys)"
      by (rule seg_put [of "ram h" _ "[(m, u), (n, False)]"])
         (use d(4) e(2-4,10,11) free in \<open>auto simp: ram Let_def add.assoc\<close>)
    moreover have "end_mark h'" using e(5,9) by (auto simp: end_mark_def ram(1) Let_def)
    moreover have "block_ok (m + n, False)" using e(11) by (auto simp: block_ok_def)
    ultimately have "heap_pre h' (merge_prev xs n ys)"
      using e(8,11,12) ram(2) free xs
      by (simp add: merge_prev_def heap_pre_def blocks_ok_def lowest_free_append)
    then show ?thesis by (simp add: h'_def)
  qed
qed

lemma merge_next_cons: "\<exists>m zs. merge_next n ys = (m, False) # zs"
  by (auto simp: merge_next_def split: list.splits bool.splits)

lemma merge_plugged:
  assumes "plugged (xs @ (n, True) # ys)"
  shows "plugged (free_block xs n ys)"
proof -
  have "\<exists>m zs. merge_next n ys = (m, False) # zs \<and> (zs = [] \<or> snd (hd zs)) \<and> plugged zs"
    using assms by (auto simp: merge_next_def successively_append_iff successively_Cons split: list.splits bool.splits)
  then obtain m zs where m: "merge_next n ys = (m, False) # zs" "zs = [] \<or> snd (hd zs)" "plugged zs" by blast
  show ?thesis
  proof (cases xs rule: rev_cases)
    case Nil
    then show ?thesis using m by (cases zs) (auto simp: free_block_def merge_prev_def)
  next
    case (snoc xs0 b)
    then have "plugged xs0" "xs0 = [] \<or> snd (last xs0) \<or> snd b"
      using assms by (auto simp: successively_append_iff)
    then show ?thesis using m snoc
      by (cases zs) (auto simp: free_block_def merge_prev_def successively_append_iff successively_Cons)
  qed
qed

lemma mem_free_is:
  assumes h: "heap_is h (xs @ (n, True) # ys)"
  shows "heap_is (mem_free (Some (total xs + SIZEOF_STRUCT_MEM)) h) (free_block xs n ys)"
proof -
  have pre: "heap_pre h (xs @ (n, True) # ys)" "plugged (xs @ (n, True) # ys)" using h by (simp_all add: heap_is_def)
  note d = heap_preD [OF pre(1)]
  define h1 where "h1 = (let h = set_mem (total xs) (used_update (\<lambda>_. False)) h
    in if total xs < lfree h then h\<lparr>lfree := total xs\<rparr> else h)"
  have "heap_pre h1 (xs @ (n, False) # ys)" by (rule mark_free [OF pre(1) h1_def])
  then have 2: "heap_pre (plug_forward (total xs) h1) (xs @ merge_next n ys)" by (rule plug_forward_is)
  obtain m zs where m: "merge_next n ys = (m, False) # zs"
    using merge_next_cons by blast
  have "heap_pre (plug_holes (total xs) h1) (merge_prev xs m zs)"
    unfolding plug_holes_def by (rule plug_backward_is) (use 2 m in simp)
  moreover have "mem_free (Some (total xs + SIZEOF_STRUCT_MEM)) h = plug_holes (total xs) h1"
    using d(4,6) by (simp add: mem_free_def h1_def Let_def SIZEOF_STRUCT_MEM_def)
  ultimately show ?thesis using merge_plugged [OF pre(2)] m by (simp add: heap_is_def free_block_def)
qed

section \<open>Shrinking\<close>

text \<open>The blocks after the block \<open>(n, True)\<close> has been shrunk to \<open>sz\<close> bytes of data.\<close>

definition shrink_block :: "nat \<Rightarrow> nat \<Rightarrow> block list \<Rightarrow> block list" where
  "shrink_block sz n ys =
     (if n = sz + SIZEOF_STRUCT_MEM then (n, True) # ys
      else case ys of
        (m, False) # zs \<Rightarrow> (SIZEOF_STRUCT_MEM + sz, True) # (m + (n - SIZEOF_STRUCT_MEM - sz), False) # zs
      | _ \<Rightarrow> split_block sz n @ ys)"

lemma shrink_next_free:
  assumes h: "heap_pre h (xs @ (n, True) # (m, False) # zs)" and sz: "sz + SIZEOF_STRUCT_MEM < n" "MIN_SIZE_ALIGNED \<le> sz" "4 dvd sz"
    and h': "h' = (let ptr = total xs; mem2 = ptr + n; nxt = mem2 + m; ptr2 = ptr + SIZEOF_STRUCT_MEM + sz;
         h = (if lfree h = mem2 then h\<lparr>lfree := ptr2\<rparr> else h);
         h = set_mem ptr2 (\<lambda>_. \<lparr>mem_next = nxt, mem_prev = ptr, used = False\<rparr>) h;
         h = set_mem ptr (mem_next_update (\<lambda>_. ptr2)) h
       in if nxt \<noteq> MEM_SIZE_ALIGNED then set_mem nxt (mem_prev_update (\<lambda>_. ptr2)) h else h)"
  shows "heap_pre h' (xs @ (SIZEOF_STRUCT_MEM + sz, True) # (m + (n - SIZEOF_STRUCT_MEM - sz), False) # zs)"
proof -
  let ?k = "total xs" and ?p = "total xs + SIZEOF_STRUCT_MEM + sz"
  note d = heap_preD [OF h]
  have h2: "heap_pre h ((xs @ [(n, True)]) @ (m, False) # zs)" using h by simp
  note e = heap_preD [OF h2]
  have p: "?k < ?p" "?p < ?k + n" using sz by (simp_all add: mem_consts)
  have ram: "ram h' a = (if a = ?k + n + m \<and> ?k + n + m \<noteq> MEM_SIZE_ALIGNED then (ram h a)\<lparr>mem_prev := ?p\<rparr>
      else if a = ?k then (ram h a)\<lparr>mem_next := ?p\<rparr>
      else if a = ?p then \<lparr>mem_next = ?k + n + m, mem_prev = ?k, used = False\<rparr> else ram h a)" for a
    using p d(4) e(4) by (auto simp: h' set_mem_def Let_def)
  have "seg (ram h') 0 0 (xs @ [(SIZEOF_STRUCT_MEM + sz, True), (m + (n - SIZEOF_STRUCT_MEM - sz), False)] @ zs)"
    by (rule seg_put [of "ram h" _ "[(n, True), (m, False)]"])
       (use d(1-4,10,11) e(4,7) p in \<open>auto simp: ram add.assoc\<close>)
  moreover have "end_mark h'" using d(5,9) e(4,6,12) p by (auto simp: end_mark_def ram)
  moreover have "lfree h' = lowest_free 0 (xs @ (SIZEOF_STRUCT_MEM + sz, True) # (m + (n - SIZEOF_STRUCT_MEM - sz), False) # zs)"
    using d(4,8,11) lowest_free_lt [of xs 0] by (auto simp: h' set_mem_def Let_def lowest_free_append add.assoc)
  moreover have "block_ok (SIZEOF_STRUCT_MEM + sz, True)" "block_ok (m + (n - SIZEOF_STRUCT_MEM - sz), False)"
    using d(11) sz by (auto simp: block_ok_def mem_consts intro!: dvd_diff_nat dvd_add)
  ultimately show ?thesis using d(11,12) p by (simp add: heap_pre_def blocks_ok_def)
qed

lemma shrink_next_used:
  assumes h: "heap_pre h (xs @ (n, True) # ys)"
    and sz: "sz + 2 * SIZEOF_STRUCT_MEM + MIN_SIZE_ALIGNED \<le> n" "MIN_SIZE_ALIGNED \<le> sz" "4 dvd sz"
    and h': "h' = (let ptr = total xs; mem2 = ptr + n; ptr2 = ptr + SIZEOF_STRUCT_MEM + sz;
         h = (if ptr2 < lfree h then h\<lparr>lfree := ptr2\<rparr> else h);
         h = set_mem ptr2 (\<lambda>_. \<lparr>mem_next = mem2, mem_prev = ptr, used = False\<rparr>) h;
         h = set_mem ptr (mem_next_update (\<lambda>_. ptr2)) h
       in if mem2 \<noteq> MEM_SIZE_ALIGNED then set_mem mem2 (mem_prev_update (\<lambda>_. ptr2)) h else h)"
  shows "heap_pre h' (xs @ split_block sz n @ ys)"
proof -
  let ?k = "total xs" and ?p = "total xs + SIZEOF_STRUCT_MEM + sz"
  note d = heap_preD [OF h]
  have sp: "split_block sz n = [(SIZEOF_STRUCT_MEM + sz, True), (n - SIZEOF_STRUCT_MEM - sz, False)]"
    using sz(1) by (simp add: split_block_def)
  have p: "?k < ?p" "?p < ?k + n" using sz by (simp_all add: mem_consts)
  have ram: "ram h' a = (if a = ?k + n \<and> ?k + n \<noteq> MEM_SIZE_ALIGNED then (ram h a)\<lparr>mem_prev := ?p\<rparr>
      else if a = ?k then (ram h a)\<lparr>mem_next := ?p\<rparr>
      else if a = ?p then \<lparr>mem_next = ?k + n, mem_prev = ?k, used = False\<rparr> else ram h a)" for a
    using p d(4) by (auto simp: h' set_mem_def Let_def)
  have "seg (ram h') 0 0 (xs @ split_block sz n @ ys)"
    unfolding sp by (rule seg_put [of "ram h" _ "[(n, True)]"])
       (use d(1-4,7,10,11) p in \<open>auto simp: ram add.assoc\<close>)
  moreover have "end_mark h'" using d(5,6,9) p by (auto simp: end_mark_def ram)
  moreover have "lfree h' = lowest_free 0 (xs @ split_block sz n @ ys)"
  proof (cases "list_all snd xs")
    case True
    then have "?p < lfree h" using d(8) p lowest_free_ge [of "?k + n" ys] by (simp add: lowest_free_append)
    then show ?thesis using True by (simp add: h' set_mem_def Let_def lowest_free_append sp)
  next
    case False
    then have "lfree h < ?k" using d(8,11) lowest_free_lt [of xs 0] by (simp add: lowest_free_append)
    then show ?thesis using False d(8) p by (simp add: h' set_mem_def Let_def lowest_free_append)
  qed
  moreover have "list_all block_ok (split_block sz n)"
    unfolding sp using d(11) sz by (auto simp: block_ok_def mem_consts intro!: dvd_diff_nat dvd_add)
  moreover have "total (split_block sz n) = n" by (rule total_split) (use sz in simp)
  ultimately show ?thesis using d(11,12) by (simp add: heap_pre_def blocks_ok_def)
qed

lemma mem_realloc_is:
  assumes h: "heap_is h (xs @ (n, True) # ys)" and sz: "request new + SIZEOF_STRUCT_MEM \<le> n"
  shows "\<exists>h'. mem_realloc (total xs + SIZEOF_STRUCT_MEM) new h = (Some (total xs + SIZEOF_STRUCT_MEM), h')
    \<and> heap_is h' (xs @ shrink_block (request new) n ys)"
proof -
  let ?k = "total xs" and ?sz = "request new"
  have pre: "heap_pre h (xs @ (n, True) # ys)" "plugged (xs @ (n, True) # ys)" using h by (simp_all add: heap_is_def)
  note d = heap_preD [OF pre(1)]
  have room: "room h ?k mod 65536 = n - SIZEOF_STRUCT_MEM"
    using room_block [OF d(1), of True] d(6,11) by (simp add: mem_consts)
  have legal: "\<not> MEM_SIZE_ALIGNED < ?sz" "\<not> MEM_SIZE_ALIGNED \<le> ?k + SIZEOF_STRUCT_MEM"
    using sz d(4,6) by (simp_all add: mem_consts)
  note unfold = mem_realloc_def Let_def legal room add_diff_cancel_right' if_False
  note rq = request_ok [of new]
  consider (same) "n = ?sz + SIZEOF_STRUCT_MEM" | (free) m zs where "ys = (m, False) # zs" "?sz + SIZEOF_STRUCT_MEM < n"
    | (used) "\<nexists>m zs. ys = (m, False) # zs" "?sz + SIZEOF_STRUCT_MEM < n"
    using sz by fastforce
  then show ?thesis
  proof cases
    case same
    then show ?thesis using h by (simp add: unfold shrink_block_def)
  next
    case free
    have sh: "shrink_block ?sz n ys = (SIZEOF_STRUCT_MEM + ?sz, True) # (m + (n - SIZEOF_STRUCT_MEM - ?sz), False) # zs"
      using free by (simp add: shrink_block_def)
    have nxt: "\<not> used (ram h (?k + n))" "mem_next (ram h (?k + n)) = ?k + n + m"
      using d(10) free(1) by simp_all
    have pl: "plugged (xs @ shrink_block ?sz n ys)"
      using pre(2) free(1) unfolding sh by (auto simp: successively_append_iff successively_Cons)
    have c: "\<not> n - SIZEOF_STRUCT_MEM < ?sz" "?sz \<noteq> n - SIZEOF_STRUCT_MEM" using free(2) by auto
    show ?thesis
      using pl shrink_next_free [OF pre(1) [unfolded free(1)] free(2) rq refl]
      unfolding unfold sh d(1) nxt(2) by (simp only: legal c nxt(1) if_False if_True not_False_eq_True heap_is_def) blast
  next
    case used
    have mem2: "used (ram h (?k + n))"
      using used(1) d(9,10,12) by (cases ys) (auto simp: end_mark_def)
    have sh: "shrink_block ?sz n ys = split_block ?sz n @ ys"
      using used by (auto simp: shrink_block_def split: list.splits bool.splits)
    show ?thesis
    proof (cases "?sz + 2 * SIZEOF_STRUCT_MEM + MIN_SIZE_ALIGNED \<le> n")
      case True
      have pl: "plugged (xs @ shrink_block ?sz n ys)"
        using pre(2) used(1) unfolding sh
        by (cases ys) (auto simp: split_block_def successively_append_iff successively_Cons)
      have c: "\<not> n - SIZEOF_STRUCT_MEM < ?sz" "?sz \<noteq> n - SIZEOF_STRUCT_MEM"
          "?sz + SIZEOF_STRUCT_MEM + MIN_SIZE_ALIGNED \<le> n - SIZEOF_STRUCT_MEM" using used(2) True by auto
      show ?thesis
        using pl shrink_next_used [OF pre(1) True rq refl]
        unfolding unfold sh d(1) by (simp only: legal c mem2 if_False if_True not_True_eq_False heap_is_def) blast
    next
      case False
      then have "split_block ?sz n = [(n, True)]" by (simp add: split_block_def)
      moreover have "\<not> n - SIZEOF_STRUCT_MEM < ?sz" "?sz \<noteq> n - SIZEOF_STRUCT_MEM"
          "\<not> ?sz + SIZEOF_STRUCT_MEM + MIN_SIZE_ALIGNED \<le> n - SIZEOF_STRUCT_MEM" using used(2) False by auto
      ultimately show ?thesis using d(1) mem2 h legal by (simp add: unfold sh)
    qed
  qed
qed

section \<open>What is handed out\<close>

text \<open>The pointers to the used blocks, and a client's record \<open>m\<close> of the sizes it asked for.\<close>

fun handed :: "nat \<Rightarrow> block list \<Rightarrow> nat set" where
  "handed k [] = {}"
| "handed k ((n, u) # bs) = (if u then {k + SIZEOF_STRUCT_MEM} else {}) \<union> handed (k + n) bs"

fun sizes_ok :: "nat \<Rightarrow> block list \<Rightarrow> (nat \<rightharpoonup> nat) \<Rightarrow> bool" where
  "sizes_ok k [] m = True"
| "sizes_ok k ((n, u) # bs) m =
     ((u \<longrightarrow> (\<exists>s. m (k + SIZEOF_STRUCT_MEM) = Some s \<and> s + SIZEOF_STRUCT_MEM \<le> n)) \<and> sizes_ok (k + n) bs m)"

lemma handed_append [simp]: "handed k (xs @ ys) = handed k xs \<union> handed (k + total xs) ys"
  by (induction k xs rule: handed.induct) (auto simp: add.assoc)

lemma sizes_ok_append [simp]: "sizes_ok k (xs @ ys) m \<longleftrightarrow> sizes_ok k xs m \<and> sizes_ok (k + total xs) ys m"
  by (induction k xs m rule: sizes_ok.induct) (auto simp: add.assoc)

lemma handed_range:
  "list_all block_ok bs \<Longrightarrow> p \<in> handed k bs \<Longrightarrow> k + SIZEOF_STRUCT_MEM \<le> p \<and> p < k + total bs"
proof (induction k bs rule: handed.induct)
  case (2 k n u bs)
  then show ?case using block_ok_pos [of n u] by (auto simp: mem_consts split: if_splits)
qed simp

lemma handed_split:
  "p \<in> handed k bs \<Longrightarrow> \<exists>xs n ys. bs = xs @ (n, True) # ys \<and> p = k + total xs + SIZEOF_STRUCT_MEM"
proof (induction k bs rule: handed.induct)
  case (2 k n u bs)
  show ?case
  proof (cases "p \<in> handed (k + n) bs")
    case True
    then obtain xs m ys where "bs = xs @ (m, True) # ys" "p = k + n + total xs + SIZEOF_STRUCT_MEM" using 2 by blast
    then show ?thesis by (intro exI [of _ "(n, u) # xs"]) auto
  next
    case False
    then show ?thesis using 2(2) by (intro exI [of _ "[]"]) (auto split: if_splits)
  qed
qed simp

lemma sizes_ok_upd:
  "list_all block_ok bs \<Longrightarrow> p < k + SIZEOF_STRUCT_MEM \<or> k + total bs \<le> p \<Longrightarrow> sizes_ok k bs (m(p := v)) = sizes_ok k bs m"
proof (induction k bs m rule: sizes_ok.induct)
  case (2 k n u bs m)
  then show ?case using block_ok_pos [of n u] by (auto simp: mem_consts)
qed simp

text \<open>A used block among its neighbours.\<close>

lemma handed_others:
  assumes "list_all block_ok (xs @ (n, u) # ys)"
  shows "total xs + SIZEOF_STRUCT_MEM \<notin> handed 0 xs \<union> handed (total xs + n) ys"
proof -
  have "20 \<le> n" using assms block_ok_pos [of n u] by simp
  then show ?thesis using handed_range [of xs _ 0] handed_range [of ys _ "total xs + n"] assms
    by (fastforce simp: mem_consts)
qed

lemma merge_next_handed:
  "handed k (merge_next n ys) = handed (k + n) ys" "sizes_ok k (merge_next n ys) m = sizes_ok (k + n) ys m"
  by (auto simp: merge_next_def add.assoc split: list.splits bool.splits)

lemma free_block_handed:
  "handed 0 (free_block xs n ys) = handed 0 xs \<union> handed (total xs + n) ys"
  "sizes_ok 0 (free_block xs n ys) m \<longleftrightarrow> sizes_ok 0 xs m \<and> sizes_ok (total xs + n) ys m"
proof -
  obtain l zs where l: "merge_next n ys = (l, False) # zs" using merge_next_cons by blast
  have y: "handed (total xs + n) ys = handed (total xs + l) zs"
    "sizes_ok (total xs + n) ys m = sizes_ok (total xs + l) zs m"
    using merge_next_handed [of "total xs" n ys] l by simp_all
  show "handed 0 (free_block xs n ys) = handed 0 xs \<union> handed (total xs + n) ys"
    "sizes_ok 0 (free_block xs n ys) m \<longleftrightarrow> sizes_ok 0 xs m \<and> sizes_ok (total xs + n) ys m"
    unfolding y by (cases xs rule: rev_cases; auto simp: free_block_def l merge_prev_def add.assoc)+
qed

lemma split_block_handed:
  "handed k (split_block sz n) = {k + SIZEOF_STRUCT_MEM}"
  by (simp add: split_block_def)

definition heap_rep :: "heap \<Rightarrow> nat set \<Rightarrow> bool" where
  "heap_rep h L \<longleftrightarrow> (\<exists>bs. heap_is h bs \<and> L = handed 0 bs)"

lemma malloc_cases:
  assumes "heap_is h bs" "mem_malloc sz h = (r, h')"
  shows "r = None \<and> h' = h \<or> (\<exists>xs n ys. bs = xs @ (n, False) # ys \<and> request sz + SIZEOF_STRUCT_MEM \<le> n
    \<and> r = Some (total xs + SIZEOF_STRUCT_MEM) \<and> heap_is h' (xs @ split_block (request sz) n @ ys))"
proof (cases "sz = 0 \<or> MEM_SIZE_ALIGNED < request sz")
  case True
  then have "mem_malloc sz h = (None, h)" by (auto simp: mem_malloc_def Let_def)
  then show ?thesis using assms(2) by simp
next
  case False
  then have sz: "sz \<noteq> 0" "request sz \<le> MEM_SIZE_ALIGNED" by auto
  show ?thesis
  proof (cases "first_fit (request sz) 0 bs")
    case None
    then show ?thesis using mem_malloc_None [OF assms(1) sz(2)] assms(2) by simp
  next
    case (Some k)
    then show ?thesis using mem_malloc_Some [OF assms(1) sz Some] assms(2) by auto
  qed
qed

lemma heap_is_blocks: "heap_is h bs \<Longrightarrow> list_all block_ok bs" "heap_is h bs \<Longrightarrow> total bs = MEM_SIZE_ALIGNED"
  by (simp_all add: heap_is_def heap_pre_def blocks_ok_def)

interpretation heap: allocator heap_rep "mem_malloc sz" "\<lambda>p. mem_free (Some p)" for sz
proof unfold_locales
  fix s L p s'
  assume r: "heap_rep s L" and a: "mem_malloc sz s = (Some p, s')"
  then obtain bs xs n ys where b: "heap_is s bs" "L = handed 0 bs" "bs = xs @ (n, False) # ys"
      "request sz + SIZEOF_STRUCT_MEM \<le> n" "p = total xs + SIZEOF_STRUCT_MEM" "heap_is s' (xs @ split_block (request sz) n @ ys)"
    using malloc_cases [OF _ a] unfolding heap_rep_def by blast
  have "L = handed 0 xs \<union> handed (total xs + n) ys" using b(2,3) by simp
  moreover have "p \<notin> L" using handed_others [of xs n False ys] heap_is_blocks(1) [OF b(1)] b(3,5) calculation by simp
  moreover have "insert p L = handed 0 (xs @ split_block (request sz) n @ ys)"
    using calculation(1) b(5) total_split [OF b(4)] by (auto simp: split_block_handed)
  ultimately show "p \<notin> L \<and> heap_rep s' (insert p L)" using b(6) unfolding heap_rep_def by auto
next
  fix s L s'
  assume "heap_rep s L" "mem_malloc sz s = (None, s')"
  then show "heap_rep s' L" using malloc_cases unfolding heap_rep_def by blast
next
  fix s L p
  assume r: "heap_rep s L" and p: "p \<in> L"
  then obtain bs where bs: "heap_is s bs" "L = handed 0 bs" unfolding heap_rep_def by blast
  then obtain xs n ys where "bs = xs @ (n, True) # ys" "p = total xs + SIZEOF_STRUCT_MEM"
    using handed_split [of p 0 bs] p by auto
  note b = bs this
  have "heap_is (mem_free (Some p) s) (free_block xs n ys)" using mem_free_is b(1,3,4) by blast
  moreover have "L - {p} = handed 0 (free_block xs n ys)"
    using handed_others [of xs n True ys] heap_is_blocks(1) [OF b(1)] b by (auto simp: free_block_handed)
  ultimately show "heap_rep (mem_free (Some p) s) (L - {p})" unfolding heap_rep_def by blast
qed

lemma mem_init_is: "heap_is mem_init [(MEM_SIZE_ALIGNED, False)]"
  by (simp add: heap_is_def heap_pre_def blocks_ok_def block_ok_def mem_init_def end_mark_def mem_consts)

section \<open>Programs that use the heap\<close>

text \<open>
  A program allocates, releases what it was given and shrinks it; \<open>m\<close> records what it holds
  and with which sizes.
\<close>

inductive heap_reach :: "heap \<Rightarrow> (nat \<rightharpoonup> nat) \<Rightarrow> bool" where
  init: "heap_reach mem_init Map.empty"
| malloc: "heap_reach h m \<Longrightarrow> unat sz \<le> 65532 \<Longrightarrow> mem_malloc sz h = (Some p, h')
    \<Longrightarrow> heap_reach h' (m(p \<mapsto> unat sz))"
| malloc_fails: "heap_reach h m \<Longrightarrow> mem_malloc sz h = (None, h') \<Longrightarrow> heap_reach h' m"
| free: "heap_reach h m \<Longrightarrow> m p = Some s \<Longrightarrow> heap_reach (mem_free (Some p) h) (m(p := None))"
| realloc: "heap_reach h m \<Longrightarrow> m p = Some s \<Longrightarrow> unat new \<le> s \<Longrightarrow> mem_realloc p new h = (r, h')
    \<Longrightarrow> heap_reach h' (m(p \<mapsto> unat new))"

definition heap_inv :: "heap \<Rightarrow> (nat \<rightharpoonup> nat) \<Rightarrow> block list \<Rightarrow> bool" where
  "heap_inv h m bs \<longleftrightarrow> heap_is h bs \<and> dom m = handed 0 bs \<and> sizes_ok 0 bs m"

lemma inv_block:
  assumes "heap_inv h m bs" "m p = Some s"
  shows "\<exists>xs n ys. bs = xs @ (n, True) # ys \<and> p = total xs + SIZEOF_STRUCT_MEM \<and> s + SIZEOF_STRUCT_MEM \<le> n"
proof -
  have "p \<in> handed 0 bs" using assms by (auto simp: heap_inv_def)
  then obtain xs n ys where "bs = xs @ (n, True) # ys" "p = total xs + SIZEOF_STRUCT_MEM" using handed_split [of p 0 bs] by auto
  then show ?thesis using assms by (auto simp: heap_inv_def)
qed

lemma inv_malloc:
  assumes "heap_inv h m bs" "unat sz \<le> 65532" "mem_malloc sz h = (Some p, h')"
  shows "\<exists>bs. heap_inv h' (m(p \<mapsto> unat sz)) bs"
proof -
  have h: "heap_is h bs" "dom m = handed 0 bs" "sizes_ok 0 bs m" using assms(1) by (simp_all add: heap_inv_def)
  obtain xs n ys where b: "bs = xs @ (n, False) # ys" "request sz + SIZEOF_STRUCT_MEM \<le> n"
      "p = total xs + SIZEOF_STRUCT_MEM" "heap_is h' (xs @ split_block (request sz) n @ ys)"
    using malloc_cases [OF h(1) assms(3)] by auto
  have ok: "list_all block_ok (xs @ (n, False) # ys)" using heap_is_blocks(1) [OF h(1)] b(1) by simp
  have n: "20 \<le> n" using ok block_ok_pos [of n False] by simp
  have "dom (m(p \<mapsto> unat sz)) = handed 0 (xs @ split_block (request sz) n @ ys)"
    using h(2) b total_split [OF b(2)] by (auto simp: split_block_handed)
  moreover have "sizes_ok 0 xs (m(p \<mapsto> unat sz))" "sizes_ok (total xs + n) ys (m(p \<mapsto> unat sz))"
    using h(3) b(1,3) ok n by (auto simp: sizes_ok_upd mem_consts)
  moreover have "sizes_ok (total xs) (split_block (request sz) n) (m(p \<mapsto> unat sz))"
    using request_ge [OF assms(2)] b(2,3) by (auto simp: split_block_def)
  ultimately have "heap_inv h' (m(p \<mapsto> unat sz)) (xs @ split_block (request sz) n @ ys)"
    using b(4) total_split [OF b(2)] by (simp add: heap_inv_def)
  then show ?thesis ..
qed

lemma inv_free:
  assumes "heap_inv h m bs" "m p = Some s"
  shows "\<exists>bs. heap_inv (mem_free (Some p) h) (m(p := None)) bs"
proof -
  obtain xs n ys where b: "bs = xs @ (n, True) # ys" "p = total xs + SIZEOF_STRUCT_MEM" using inv_block [OF assms] by blast
  have h: "heap_is h bs" "dom m = handed 0 bs" "sizes_ok 0 bs m" using assms(1) by (simp_all add: heap_inv_def)
  have ok: "list_all block_ok (xs @ (n, True) # ys)" using heap_is_blocks(1) [OF h(1)] b(1) by simp
  have n: "20 \<le> n" using ok block_ok_pos [of n True] by simp
  have "dom (m(p := None)) = handed 0 (free_block xs n ys)"
    using h(2) b handed_others [OF ok] by (auto simp: free_block_handed)
  moreover have "sizes_ok 0 (free_block xs n ys) (m(p := None))"
    using h(3) b ok n by (auto simp: free_block_handed sizes_ok_upd mem_consts)
  ultimately show ?thesis using mem_free_is [of h xs n ys] h(1) b unfolding heap_inv_def by blast
qed

lemma shrink_handed:
  assumes "sz + SIZEOF_STRUCT_MEM \<le> n"
  shows "handed k (shrink_block sz n ys) = insert (k + SIZEOF_STRUCT_MEM) (handed (k + n) ys)"
    "sizes_ok k (shrink_block sz n ys) m \<longleftrightarrow> (\<exists>s. m (k + SIZEOF_STRUCT_MEM) = Some s \<and> s + SIZEOF_STRUCT_MEM
        \<le> fst (hd (shrink_block sz n ys))) \<and> sizes_ok (k + n) ys m"
  using assms
  by (auto simp: shrink_block_def split_block_def mem_consts ac_simps split: list.splits bool.splits)

lemma shrink_hd: "sz + SIZEOF_STRUCT_MEM \<le> n \<Longrightarrow> sz + SIZEOF_STRUCT_MEM \<le> fst (hd (shrink_block sz n ys))"
  by (auto simp: shrink_block_def split_block_def split: list.splits bool.splits)

lemma round_up_le:
  assumes "a \<le> n - 8" "4 dvd (n :: nat)"
  shows "(a + 3) div 4 * 4 \<le> n - 8"
proof -
  have "4 dvd n - 8" using assms(2) by (simp add: dvd_diff_nat)
  then obtain k where k: "n - 8 = 4 * k" by (elim dvdE)
  have "(a + 3) div 4 \<le> (4 * k + 3) div 4" by (rule div_le_mono) (use assms(1) k in simp)
  then show ?thesis using k by simp
qed

lemma inv_realloc:
  assumes "heap_inv h m bs" "m p = Some s" "unat new \<le> s" "mem_realloc p new h = (r, h')"
  shows "r = Some p \<and> (\<exists>bs. heap_inv h' (m(p \<mapsto> unat new)) bs)"
proof -
  obtain xs n ys where b: "bs = xs @ (n, True) # ys" "p = total xs + SIZEOF_STRUCT_MEM" "s + SIZEOF_STRUCT_MEM \<le> n"
    using inv_block [OF assms(1,2)] by blast
  have h: "heap_is h bs" "dom m = handed 0 bs" "sizes_ok 0 bs m" using assms(1) by (simp_all add: heap_inv_def)
  have ok: "list_all block_ok (xs @ (n, True) # ys)" "total bs = MEM_SIZE_ALIGNED" using heap_is_blocks [OF h(1)] b(1) by simp_all
  have n: "20 \<le> n" "4 dvd n" using ok(1) block_ok_pos [of n True] by (simp_all add: block_ok_def)
  have small: "unat new \<le> 65532" using assms(3) b(1,3) ok(2) by (simp add: mem_consts)
  have "request new + SIZEOF_STRUCT_MEM \<le> n"
  proof -
    have "(unat new + 3) div 4 * 4 \<le> n - 8"
      by (rule round_up_le) (use assms(3) b(3) n in \<open>simp_all add: SIZEOF_STRUCT_MEM_def\<close>)
    then have "(unat new + 3) div 4 * 4 + 8 \<le> n" using n(1) by linarith
    then show ?thesis using n small by (simp add: request_def align_size Let_def mem_consts)
  qed
  note fit = this
  obtain h1 where "mem_realloc p new h = (Some p, h1)" "heap_is h1 (xs @ shrink_block (request new) n ys)"
    using mem_realloc_is [OF h(1) [unfolded b(1)] fit] b(2) by auto
  then have r: "r = Some p" "heap_is h' (xs @ shrink_block (request new) n ys)" using assms(4) by simp_all
  have "dom (m(p \<mapsto> unat new)) = handed 0 (xs @ shrink_block (request new) n ys)"
    using h(2) b by (auto simp: shrink_handed [OF fit])
  moreover have "sizes_ok 0 (xs @ shrink_block (request new) n ys) (m(p \<mapsto> unat new))"
    using h(3) b ok n request_ge [OF small] shrink_hd [OF fit, of ys]
    by (auto simp: shrink_handed [OF fit] sizes_ok_upd mem_consts)
  ultimately show ?thesis using r unfolding heap_inv_def by blast
qed

lemma heap_reach_inv: "heap_reach h m \<Longrightarrow> \<exists>bs. heap_inv h m bs"
proof (induction rule: heap_reach.induct)
  case init
  have "heap_inv mem_init Map.empty [(MEM_SIZE_ALIGNED, False)]" using mem_init_is by (simp add: heap_inv_def)
  then show ?case ..
next
  case (malloc h m sz p h')
  then show ?case using inv_malloc by blast
next
  case (malloc_fails h m sz h')
  then obtain bs where "heap_inv h m bs" by blast
  then show ?case using malloc_cases [of h bs sz None h'] malloc_fails(2) by (auto simp: heap_inv_def)
next
  case (free h m p s)
  then show ?case using inv_free by blast
next
  case (realloc h m p s new r h')
  then show ?case using inv_realloc by blast
qed

text \<open>
  C14: Whatever a program allocates, shrinks and releases, the blocks it holds lie in the
  heap, are aligned, hold the sizes asked for and are apart from each other by at
  least the header of the later one.
\<close>

theorem heap_blocks_apart:
  assumes "heap_reach h m" "m p = Some s"
  shows "SIZEOF_STRUCT_MEM \<le> p \<and> p + s \<le> MEM_SIZE_ALIGNED \<and> 4 dvd p
    \<and> (\<forall>q t. m q = Some t \<and> p < q \<longrightarrow> p + s + SIZEOF_STRUCT_MEM \<le> q)"
proof -
  obtain bs where i: "heap_inv h m bs" using heap_reach_inv [OF assms(1)] ..
  obtain xs n ys where b: "bs = xs @ (n, True) # ys" "p = total xs + SIZEOF_STRUCT_MEM" "s + SIZEOF_STRUCT_MEM \<le> n"
    using inv_block [OF i assms(2)] by blast
  have ok: "list_all block_ok (xs @ (n, True) # ys)" "total xs + n + total ys = MEM_SIZE_ALIGNED"
    using i b(1) heap_is_blocks [of h bs] by (simp_all add: heap_inv_def)
  have "4 dvd total xs" using ok(1) by (induction xs) (auto simp: block_ok_def)
  then have "4 dvd p" using b(2) by (simp add: SIZEOF_STRUCT_MEM_def)
  moreover have "p + s + SIZEOF_STRUCT_MEM \<le> q" if q: "m q = Some t" "p < q" for q t
  proof -
    have "q \<in> handed 0 bs" using i q(1) by (auto simp: heap_inv_def)
    moreover have "q \<notin> handed 0 xs" using handed_range [of xs q 0] ok(1) q(2) b(2) by (auto simp: mem_consts)
    ultimately have "q \<in> handed (total xs + n) ys" using b q(2) by auto
    then show ?thesis using handed_range [of ys q "total xs + n"] ok(1) b(2,3) by auto
  qed
  ultimately show ?thesis using b(2,3) ok(2) by auto
qed

lemma malloc_init:
  "\<exists>h'. mem_malloc 100 mem_init = (Some 8, h')"
proof -
  have rq: "request 100 = 100" by (simp add: request_def align_size mem_consts)
  have "first_fit (request 100) 0 [(MEM_SIZE_ALIGNED, False)] = Some 0" by (simp add: rq mem_consts)
  from mem_malloc_Some [OF mem_init_is _ _ this] show ?thesis by (auto simp: rq mem_consts)
qed

theorem heap_blocks_apart_witness: "\<exists>h m. heap_reach h m \<and> m 8 = Some 100 \<and> (8 :: nat) + 100 \<le> MEM_SIZE_ALIGNED"
proof -
  obtain h' where "mem_malloc 100 mem_init = (Some 8, h')" using malloc_init by blast
  then have r: "heap_reach h' (Map.empty(8 \<mapsto> unat (100 :: u16)))"
    using heap_reach.malloc [OF heap_reach.init, of 100 8 h'] by simp
  have "(8 :: nat) + 100 \<le> MEM_SIZE_ALIGNED" using heap_blocks_apart [OF r, of 8 100] by simp
  moreover have "(Map.empty(8 \<mapsto> unat (100 :: u16))) 8 = Some 100" by simp
  ultimately show ?thesis using r by blast
qed

text \<open>
  C23: The heap does not decay: once everything has been released, in whatever order, it is
  one free block again and the largest possible request succeeds.
\<close>

theorem heap_whole_again:
  assumes "heap_reach h Map.empty"
  shows "fst (mem_malloc 20472 h) = Some 8"
proof -
  obtain bs where i: "heap_is h bs" "handed 0 bs = {}" using heap_reach_inv [OF assms] by (auto simp: heap_inv_def)
  have "\<not> list_ex snd bs" using i(2)
  proof -
    have "handed k bs = {} \<Longrightarrow> \<not> list_ex snd bs" for k by (induction k bs rule: handed.induct) auto
    then show ?thesis using i(2) by blast
  qed
  moreover have "plugged bs" "total bs = MEM_SIZE_ALIGNED" using i(1) heap_is_blocks by (auto simp: heap_is_def)
  ultimately have bs: "bs = [(MEM_SIZE_ALIGNED, False)]"
    by (cases bs; cases "tl bs") (auto simp: mem_consts)
  have rq: "request 20472 = 20472" by (simp add: request_def align_size mem_consts)
  have "first_fit (request 20472) 0 bs = Some 0" by (simp add: rq bs mem_consts)
  from mem_malloc_Some [OF i(1) _ _ this] show ?thesis by (auto simp: rq mem_consts)
qed

theorem heap_whole_again_witness: "fst (mem_malloc 20472 mem_init) = Some 8"
  using heap_whole_again [OF heap_reach.init] .

text \<open>
  An allocation of at most 65532 bytes fails only when no free block can hold the
  request, and above that size the aligned length wraps to zero: a request of 65533
  bytes or more gets a block of 12.
\<close>

theorem mem_malloc_fails:
  assumes "heap_is h bs" "sz \<noteq> 0"
  shows "(fst (mem_malloc sz h) = None \<longleftrightarrow> (\<forall>(n, u) \<in> set bs. u \<or> n < request sz + SIZEOF_STRUCT_MEM))
    \<and> (if unat sz \<le> 65532 then unat sz \<le> request sz \<and> request sz \<le> unat sz + 11 else request sz = 12)"
proof
  have len: "n \<le> MEM_SIZE_ALIGNED" if "(n, u) \<in> set bs" for n u
    using heap_is_blocks(2) [OF assms(1)] that member_le_sum_list [of n "map fst bs"] by (force simp: total_def)
  show "fst (mem_malloc sz h) = None \<longleftrightarrow> (\<forall>(n, u) \<in> set bs. u \<or> n < request sz + SIZEOF_STRUCT_MEM)"
  proof (cases "MEM_SIZE_ALIGNED < request sz")
    case True
    then have "fst (mem_malloc sz h) = None" by (simp add: mem_malloc_def Let_def)
    moreover have "\<forall>(n, u) \<in> set bs. u \<or> n < request sz + SIZEOF_STRUCT_MEM" using True len by fastforce
    ultimately show ?thesis by simp
  next
    case False
    then show ?thesis
      using mem_malloc_None [OF assms(1), of sz] mem_malloc_Some [OF assms(1,2)] first_fit_None [of "request sz" 0 bs]
      by (cases "first_fit (request sz) 0 bs") (auto simp: list_all_iff)
  qed
  show "if unat sz \<le> 65532 then unat sz \<le> request sz \<and> request sz \<le> unat sz + 11 else request sz = 12"
  proof (cases "unat sz \<le> 65532")
    case True
    then show ?thesis using request_ge [of sz] assms(2) unat_eq_0 [of sz]
      by (auto simp: request_def align_size Let_def MIN_SIZE_ALIGNED_def)
  next
    case False
    moreover have "unat sz < 65536" by (rule unat_less_65536)
    ultimately have "unat sz = 65533 \<or> unat sz = 65534 \<or> unat sz = 65535" by linarith
    then show ?thesis by (elim disjE) (simp_all add: request_def align_size MIN_SIZE_ALIGNED_def)
  qed
qed

theorem mem_malloc_fails_witness: "fst (mem_malloc 20473 mem_init) = None"
  using mem_malloc_fails [OF mem_init_is, of 20473] by (simp add: request_def align_size mem_consts)

text \<open>\<open>mem_calloc\<close> passes the product on in 16 bits and clears it in full.\<close>

lemma mem_calloc_overruns: "mem_calloc 256 257 mem_init = None"
proof -
  have rq: "request 256 = 256" by (simp add: request_def align_size mem_consts)
  have "first_fit (request 256) 0 [(MEM_SIZE_ALIGNED, False)] = Some 0" by (simp add: rq mem_consts)
  from mem_malloc_Some [OF mem_init_is _ _ this]
  obtain n h' where m: "mem_malloc 256 mem_init = (Some 8, h')" and n: "n = MEM_SIZE_ALIGNED"
    "heap_is h' (split_block 256 n)" by (auto simp: rq mem_consts Cons_eq_append_conv)
  have "mem_next (ram h' 0) = 0 + 264" using n by (simp add: heap_is_def heap_pre_def split_block_def mem_consts)
  then have "room h' 0 = 256" using room_block [of h' 0 264 True] by (simp add: block_ok_def mem_consts)
  moreover have "(256 :: u16) * 257 = 256" by (simp add: word_unat_eq_iff)
  moreover have "\<not> unat (256 :: u16) * unat (257 :: u16) \<le> 256" by simp
  ultimately show ?thesis
    by (simp only: mem_calloc_def m SIZEOF_STRUCT_MEM_def prod.case option.case if_False diff_self_eq_0)
qed

end
