(* ===== verification/Memp.thy ===== *)
theory Memp
  imports Allocator
begin

text \<open>
  The fixed size pools, \<open>core/memp.c\<close>.  A pool configuration is the list of the pairs
  (number, aligned size) that \<open>memp_std.h\<close> expands to, in which the sizes are the compiler's.
  An element is named by its address; \<open>memp_next\<close> is the link stored in a free element.
\<close>

type_synonym pools = "(nat \<times> nat) list"

record memps =
  memp_tab :: "nat \<Rightarrow> nat option"
  memp_next :: "nat \<Rightarrow> nat option"

section \<open>Operations\<close>

text \<open>The inner and the outer loop of \<open>memp_init\<close>, with the pointer \<open>memp\<close> that moves on.\<close>

fun link_pool :: "nat \<Rightarrow> nat \<Rightarrow> nat \<Rightarrow> nat \<Rightarrow> memps \<Rightarrow> nat \<times> memps" where
  "link_pool 0 sz i memp s = (memp, s)"
| "link_pool (Suc n) sz i memp s =
     link_pool n sz i (memp + sz)
       (s\<lparr>memp_next := (memp_next s)(memp := memp_tab s i), memp_tab := (memp_tab s)(i \<mapsto> memp)\<rparr>)"

fun link_pools :: "pools \<Rightarrow> nat \<Rightarrow> nat \<Rightarrow> memps \<Rightarrow> memps" where
  "link_pools [] i memp s = s"
| "link_pools ((num, sz) # ps) i memp s =
     (let (memp, s) = link_pool num sz i memp (s\<lparr>memp_tab := (memp_tab s)(i := None)\<rparr>)
      in link_pools ps (Suc i) memp s)"

definition memp_init :: "pools \<Rightarrow> nat \<Rightarrow> memps \<Rightarrow> memps" where
  "memp_init ps memory s = link_pools ps 0 ((memory + 3) div 4 * 4) s"

definition memp_malloc :: "pools \<Rightarrow> nat \<Rightarrow> memps \<Rightarrow> nat option \<times> memps" where
  "memp_malloc ps type s =
     (if \<not> type < length ps then (None, s)
      else case memp_tab s type of
        None \<Rightarrow> (None, s)
      | Some memp \<Rightarrow> (Some memp, s\<lparr>memp_tab := (memp_tab s)(type := memp_next s memp)\<rparr>))"

definition memp_free :: "nat \<Rightarrow> nat option \<Rightarrow> memps \<Rightarrow> memps" where
  "memp_free type mem s =
     (case mem of None \<Rightarrow> s
      | Some memp \<Rightarrow> s\<lparr>memp_next := (memp_next s)(memp := memp_tab s type),
                      memp_tab := (memp_tab s)(type \<mapsto> memp)\<rparr>)"

section \<open>Free lists\<close>

fun linked :: "(nat \<Rightarrow> nat option) \<Rightarrow> nat option \<Rightarrow> nat list \<Rightarrow> bool" where
  "linked nxt p [] = (p = None)"
| "linked nxt p (x # xs) = (p = Some x \<and> linked nxt (nxt x) xs)"

lemma linked_upd: "a \<notin> set xs \<Longrightarrow> linked (nxt(a := v)) p xs = linked nxt p xs"
  by (induction xs arbitrary: p) auto

text \<open>The addresses of the elements of pool \<open>i\<close>.\<close>

fun elements :: "pools \<Rightarrow> nat \<Rightarrow> nat \<Rightarrow> nat list" where
  "elements [] memp i = []"
| "elements ((num, sz) # ps) memp i =
     (case i of 0 \<Rightarrow> map (\<lambda>j. memp + j * sz) [0..<num] | Suc i \<Rightarrow> elements ps (memp + num * sz) i)"

definition pool_elements :: "pools \<Rightarrow> nat \<Rightarrow> nat \<Rightarrow> nat list" where
  "pool_elements ps memory = elements ps ((memory + 3) div 4 * 4)"

text \<open>Every pool has a list of distinct free elements of its own.\<close>

definition pools_are :: "pools \<Rightarrow> nat \<Rightarrow> memps \<Rightarrow> (nat \<Rightarrow> nat list) \<Rightarrow> bool" where
  "pools_are ps memory s fl \<longleftrightarrow> (\<forall>i<length ps. linked (memp_next s) (memp_tab s i) (fl i)
     \<and> distinct (fl i) \<and> set (fl i) \<subseteq> set (pool_elements ps memory i))"

lemma elements_ge:
  "a \<in> set (elements ps memp i) \<Longrightarrow> memp \<le> a"
  by (induction ps memp i rule: elements.induct) (auto split: nat.splits)

lemma elements_distinct: "\<forall>p\<in>set ps. 0 < snd p \<Longrightarrow> distinct (elements ps memp i)"
  by (induction ps memp i rule: elements.induct) (auto simp: distinct_map inj_on_def split: nat.splits)

lemma multiple_of: "a \<in> (\<lambda>j. memp + j * sz) ` {0..<num} \<Longrightarrow> \<exists>j<num. a = memp + j * (sz :: nat)"
  by auto

lemma elements_disjoint:
  "\<forall>p\<in>set ps. 0 < snd p \<Longrightarrow> i < j \<Longrightarrow> a \<in> set (elements ps memp i) \<Longrightarrow> b \<in> set (elements ps memp j) \<Longrightarrow> a < b"
proof (induction ps memp i arbitrary: j rule: elements.induct)
  case (2 num sz ps memp i)
  show ?case
  proof (cases i)
    case 0
    then obtain k where k: "j = Suc k" using 2(3) by (cases j) auto
    have "a \<in> (\<lambda>m. memp + m * sz) ` {0..<num}" using 2(4) 0 by simp
    then obtain m where "a = memp + m * sz" "m < num" using multiple_of by blast
    moreover have "m * sz < num * sz" using \<open>m < num\<close> 2(2) by simp
    moreover have "memp + num * sz \<le> b" using 2(5) k elements_ge by fastforce
    ultimately show ?thesis by linarith
  next
    case (Suc i')
    then obtain k where "j = Suc k" "i' < k" using 2(3) by (cases j) auto
    then show ?thesis using 2 Suc by (auto simp: Suc)
  qed
qed simp

lemma link_pool_spec:
  "linked (memp_next s) (memp_tab s i) xs \<Longrightarrow> \<forall>x\<in>set xs. x < memp \<Longrightarrow> 0 < sz
    \<Longrightarrow> link_pool n sz i memp s = (memp', s')
    \<Longrightarrow> memp' = memp + n * sz
      \<and> linked (memp_next s') (memp_tab s' i) (rev (map (\<lambda>j. memp + j * sz) [0..<n]) @ xs)
      \<and> (\<forall>k. k \<noteq> i \<longrightarrow> memp_tab s' k = memp_tab s k) \<and> (\<forall>a. a < memp \<longrightarrow> memp_next s' a = memp_next s a)"
proof (induction n sz i memp s arbitrary: xs rule: link_pool.induct)
  case (2 n sz i memp s)
  let ?s = "s\<lparr>memp_next := (memp_next s)(memp := memp_tab s i), memp_tab := (memp_tab s)(i \<mapsto> memp)\<rparr>"
  have l: "linked (memp_next ?s) (memp_tab ?s i) (memp # xs)"
    using 2(2,3) by (auto simp: linked_upd)
  have "[0..<Suc n] = 0 # map Suc [0..<n]" by (simp add: upt_conv_Cons map_Suc_upt del: upt_Suc)
  then have "rev (map (\<lambda>j. memp + j * sz) [0..<Suc n]) @ xs
      = rev (map (\<lambda>j. memp + sz + j * sz) [0..<n]) @ memp # xs"
    by (simp add: comp_def add.assoc del: upt_Suc)
  moreover have "memp + Suc n * sz = memp + sz + n * sz" by simp
  moreover have "\<forall>x\<in>set (memp # xs). x < memp + sz" using 2(3,4) by auto
  note 2(1) [OF l this 2(4) 2(5) [unfolded link_pool.simps]]
  ultimately show ?case using 2(4) by (simp del: upt_Suc)
qed auto

lemma linked_cong: "(\<And>a. a \<in> set xs \<Longrightarrow> nxt' a = nxt a) \<Longrightarrow> linked nxt p xs \<Longrightarrow> linked nxt' p xs"
  by (induction nxt p xs rule: linked.induct) auto

lemma link_pools_spec:
  "\<forall>p\<in>set ps. 0 < snd p \<Longrightarrow> link_pools ps i memp s = s'
    \<Longrightarrow> (\<forall>k<length ps. linked (memp_next s') (memp_tab s' (i + k)) (rev (elements ps memp k)))
      \<and> (\<forall>k<i. memp_tab s' k = memp_tab s k) \<and> (\<forall>a<memp. memp_next s' a = memp_next s a)"
proof (induction ps i memp s rule: link_pools.induct)
  case (2 num sz ps i memp s)
  let ?s = "s\<lparr>memp_tab := (memp_tab s)(i := None)\<rparr>"
  obtain memp1 s1 where l: "link_pool num sz i memp ?s = (memp1, s1)" by (cases "link_pool num sz i memp ?s")
  have 1: "memp1 = memp + num * sz" "linked (memp_next s1) (memp_tab s1 i) (rev (elements ((num, sz) # ps) memp 0))"
      "\<forall>k. k \<noteq> i \<longrightarrow> memp_tab s1 k = memp_tab s k" "\<forall>a<memp. memp_next s1 a = memp_next s a"
    using link_pool_spec [of ?s i "[]" memp sz num memp1 s1] l 2(2) by auto
  have s': "link_pools ps (Suc i) memp1 s1 = s'" using 2(3) l by simp
  have ih: "\<forall>k<length ps. linked (memp_next s') (memp_tab s' (Suc i + k)) (rev (elements ps memp1 k))"
      "\<forall>k<Suc i. memp_tab s' k = memp_tab s1 k" "\<forall>a<memp1. memp_next s' a = memp_next s1 a"
    using 2(1) [OF l [symmetric] refl _ s'] 2(2) by auto
  have head: "linked (memp_next s') (memp_tab s' i) (rev (elements ((num, sz) # ps) memp 0))"
  proof (rule linked_cong)
    show "linked (memp_next s1) (memp_tab s' i) (rev (elements ((num, sz) # ps) memp 0))"
      using 1(2) ih(2) by simp
    fix a assume "a \<in> set (rev (elements ((num, sz) # ps) memp 0))"
    then have "a \<in> (\<lambda>j. memp + j * sz) ` {0..<num}" by simp
    then obtain j where "a = memp + j * sz" "j < num" using multiple_of by blast
    then have "a < memp1" using 1(1) 2(2) by simp
    then show "memp_next s' a = memp_next s1 a" using ih(3) by simp
  qed
  show ?case
  proof (intro conjI allI impI)
    fix k assume "k < length ((num, sz) # ps)"
    then show "linked (memp_next s') (memp_tab s' (i + k)) (rev (elements ((num, sz) # ps) memp k))"
      using head ih(1) 1(1) by (cases k) auto
  qed (use ih(2,3) 1 in auto)
qed auto

section \<open>The pools as allocators\<close>

definition pools_wf :: "pools \<Rightarrow> bool" where
  "pools_wf ps \<longleftrightarrow> (\<forall>p\<in>set ps. 0 < snd p)"

text \<open>The elements of pool \<open>t\<close> that are handed out; the free lists of the other pools are \<open>fl\<close>.\<close>

definition pool_rep :: "pools \<Rightarrow> nat \<Rightarrow> nat \<Rightarrow> (nat \<Rightarrow> nat list) \<Rightarrow> memps \<Rightarrow> nat set \<Rightarrow> bool" where
  "pool_rep ps memory t fl s L \<longleftrightarrow> (\<exists>free. pools_wf ps \<and> t < length ps \<and> pools_are ps memory s (fl(t := free))
     \<and> L = set (pool_elements ps memory t) - set free)"

lemma init_rep:
  assumes "pools_wf ps" "t < length ps"
  shows "pool_rep ps memory t (\<lambda>i. rev (pool_elements ps memory i)) (memp_init ps memory s) {}"
proof -
  let ?fl = "\<lambda>i. rev (pool_elements ps memory i)"
  have "pools_are ps memory (memp_init ps memory s) ?fl"
    using link_pools_spec [of ps 0 "(memory + 3) div 4 * 4" s] assms(1) elements_distinct
    by (auto simp: pools_are_def memp_init_def pool_elements_def pools_wf_def)
  moreover have "?fl(t := ?fl t) = ?fl" by (rule fun_upd_triv)
  ultimately show ?thesis
    unfolding pool_rep_def using assms by (intro exI [of _ "?fl t"]) auto
qed

lemma pool_elements_disjoint:
  assumes "pools_wf ps" "i \<noteq> j" "a \<in> set (pool_elements ps memory i)"
  shows "a \<notin> set (pool_elements ps memory j)"
  using elements_disjoint [of ps] assms unfolding pools_wf_def pool_elements_def
  by (metis linorder_neqE_nat less_irrefl)

interpretation pool: pool_allocator "pool_rep ps memory t fl" "memp_malloc ps t" "\<lambda>p. memp_free t (Some p)"
    "length (pool_elements ps memory t)"
  for ps memory t fl
proof unfold_locales
  fix s L p s'
  assume r: "pool_rep ps memory t fl s L" and a: "memp_malloc ps t s = (Some p, s')"
  from r obtain free where f: "pools_wf ps" "t < length ps" "pools_are ps memory s (fl(t := free))"
      "L = set (pool_elements ps memory t) - set free" by (auto simp: pool_rep_def)
  obtain xs where xs: "free = p # xs" and s': "s' = s\<lparr>memp_tab := (memp_tab s)(t := memp_next s p)\<rparr>"
    using a f(2,3) by (cases free) (auto simp: memp_malloc_def pools_are_def split: option.splits)
  have "pools_are ps memory s' (fl(t := xs))"
    unfolding pools_are_def
  proof (intro allI impI)
    fix i assume i: "i < length ps"
    from f(3) i have "linked (memp_next s) (memp_tab s i) ((fl(t := p # xs)) i)" "distinct ((fl(t := p # xs)) i)"
        "set ((fl(t := p # xs)) i) \<subseteq> set (pool_elements ps memory i)"
      unfolding pools_are_def xs by blast+
    then show "linked (memp_next s') (memp_tab s' i) ((fl(t := xs)) i) \<and> distinct ((fl(t := xs)) i)
        \<and> set ((fl(t := xs)) i) \<subseteq> set (pool_elements ps memory i)"
      by (cases "i = t") (simp_all add: s')
  qed
  moreover have "p \<notin> set xs" "p \<in> set (pool_elements ps memory t)" using f(2,3) xs by (auto simp: pools_are_def)
  ultimately show "p \<notin> L \<and> pool_rep ps memory t fl s' (insert p L)"
  proof (intro conjI)
    assume "pools_are ps memory s' (fl(t := xs))" "p \<notin> set xs" "p \<in> set (pool_elements ps memory t)"
    moreover from this have "insert p L = set (pool_elements ps memory t) - set xs" using f(4) xs by auto
    ultimately show "pool_rep ps memory t fl s' (insert p L)" unfolding pool_rep_def using f(1,2) by blast
  qed (use f(4) xs in simp)
next
  fix s L s'
  assume "pool_rep ps memory t fl s L" "memp_malloc ps t s = (None, s')"
  then show "pool_rep ps memory t fl s' L" by (auto simp: memp_malloc_def split: if_splits option.splits)
next
  fix s L p
  assume r: "pool_rep ps memory t fl s L" and p: "p \<in> L"
  from r obtain free where f: "pools_wf ps" "t < length ps" "pools_are ps memory s (fl(t := free))"
      "L = set (pool_elements ps memory t) - set free" by (auto simp: pool_rep_def)
  have el: "p \<in> set (pool_elements ps memory t)" "p \<notin> set free" using p f(4) by auto
  have fresh: "p \<notin> set ((fl(t := free)) i)" if "i < length ps" for i
  proof -
    have "set ((fl(t := free)) i) \<subseteq> set (pool_elements ps memory i)" using f(3) that by (simp add: pools_are_def)
    then show ?thesis using el pool_elements_disjoint [OF f(1), of t i p] by (cases "i = t") auto
  qed
  have "pools_are ps memory (memp_free t (Some p) s) (fl(t := p # free))"
    unfolding pools_are_def
  proof (intro allI impI)
    fix i assume i: "i < length ps"
    have "linked (memp_next s) (memp_tab s i) ((fl(t := free)) i)" "distinct ((fl(t := free)) i)"
        "set ((fl(t := free)) i) \<subseteq> set (pool_elements ps memory i)" "p \<notin> set ((fl(t := free)) i)"
      using f(3) i fresh unfolding pools_are_def by blast+
    then show "linked (memp_next (memp_free t (Some p) s)) (memp_tab (memp_free t (Some p) s) i) ((fl(t := p # free)) i)
        \<and> distinct ((fl(t := p # free)) i) \<and> set ((fl(t := p # free)) i) \<subseteq> set (pool_elements ps memory i)"
      using el by (cases "i = t") (simp_all add: memp_free_def linked_upd)
  qed
  then show "pool_rep ps memory t fl (memp_free t (Some p) s) (L - {p})"
    unfolding pool_rep_def using f by (intro exI [of _ "p # free"]) auto
next
  fix s L
  assume r: "pool_rep ps memory t fl s L"
  then obtain free where f: "pools_wf ps" "t < length ps" "pools_are ps memory s (fl(t := free))"
      "L = set (pool_elements ps memory t) - set free" by (auto simp: pool_rep_def)
  have d: "distinct (pool_elements ps memory t)"
    using elements_distinct f(1) by (simp add: pools_wf_def pool_elements_def)
  have "linked (memp_next s) (memp_tab s t) ((fl(t := free)) t)" "distinct ((fl(t := free)) t)"
      "set ((fl(t := free)) t) \<subseteq> set (pool_elements ps memory t)"
    using f(2,3) unfolding pools_are_def by blast+
  then have free: "linked (memp_next s) (memp_tab s t) free" "distinct free"
      "set free \<subseteq> set (pool_elements ps memory t)" by simp_all
  have card: "card L = length (pool_elements ps memory t) - length free" "length free \<le> length (pool_elements ps memory t)"
    using d free f(4) by (simp_all add: card_Diff_subset distinct_card) (metis card_mono distinct_card finite_set)
  show "finite L \<and> card L \<le> length (pool_elements ps memory t)" using f(4) card by simp
  show "fst (memp_malloc ps t s) = None \<longleftrightarrow> card L = length (pool_elements ps memory t)"
    using free(1) f(2) card by (cases free) (auto simp: memp_malloc_def)
qed

text \<open>
  C28: From initialisation on, whatever sequence of allocations and releases a user of a
  pool makes, the elements it holds are distinct elements of that pool, and an allocation
  fails exactly when it holds all of them.
\<close>

theorem memp_pool_safe:
  assumes "\<forall>p\<in>set ps. 0 < snd p" "t < length ps"
    and "alloc_run (memp_malloc ps t) (\<lambda>p. memp_free t (Some p)) rs [] (memp_init ps memory s) = (held, s')"
  shows "distinct held \<and> set held \<subseteq> set (pool_elements ps memory t)
    \<and> length held \<le> fst (ps ! t) \<and> (fst (memp_malloc ps t s') = None \<longleftrightarrow> length held = fst (ps ! t))"
proof -
  have "length (elements ps memp t) = fst (ps ! t)" for memp
    using assms(2) by (induction ps memp t rule: elements.induct) (auto split: nat.splits)
  then have len: "length (pool_elements ps memory t) = fst (ps ! t)" by (simp add: pool_elements_def)
  have wf: "pools_wf ps" using assms(1) by (simp add: pools_wf_def)
  have i: "pool_rep ps memory t (\<lambda>i. rev (pool_elements ps memory i)) (memp_init ps memory s) (set [])"
    using init_rep [OF wf assms(2)] by simp
  have "distinct held \<and> pool_rep ps memory t (\<lambda>i. rev (pool_elements ps memory i)) s' (set held)"
    by (rule pool.run_distinct [OF i _ assms(3)]) simp
  moreover have "length held \<le> length (pool_elements ps memory t)
      \<and> (fst (memp_malloc ps t s') = None \<longleftrightarrow> length held = length (pool_elements ps memory t))"
    by (rule pool.run_bounded [OF i _ assms(3)]) simp
  ultimately show ?thesis unfolding len by (auto simp: pool_rep_def)
qed

theorem memp_pool_safe_witness:
  "let s = \<lparr>memp_tab = (\<lambda>_. None), memp_next = (\<lambda>_. None)\<rparr>; ps = [(2, 16)];
       (held, s') = alloc_run (memp_malloc ps 0) (\<lambda>p. memp_free 0 (Some p)) [Get, Get, Get] [] (memp_init ps 1 s)
   in held = [4, 20] \<and> distinct held \<and> fst (memp_malloc ps 0 s') = None"
  using memp_pool_safe [of "[(2, 16)]" 0 "[Get, Get, Get]" 1 "\<lparr>memp_tab = (\<lambda>_. None), memp_next = (\<lambda>_. None)\<rparr>"]
  by (simp add: memp_init_def memp_malloc_def Let_def numeral_2_eq_2)

end
