(* ===== verification/Pbuf.thy ===== *)
theory Pbuf
  imports Heap Memp
begin

text \<open>
  Packet buffers, \<open>core/pbuf.c\<close>.  A pbuf is named by its address; the structures are a store of
  records, the data a memory of bytes, and the two allocators are those of \<open>Heap\<close> and
  \<open>Memp\<close>.  \<open>None\<close> is the use of a null pointer or a walk that never ends.
\<close>

datatype pbuf_type = PBUF_RAM | PBUF_ROM | PBUF_REF | PBUF_POOL
datatype pbuf_layer = PBUF_TRANSPORT | PBUF_IP | PBUF_LINK | PBUF_RAW

record pbuf =
  pnext :: "nat option"
  payload :: nat
  tot_len :: u16
  plen :: u16
  ptype :: pbuf_type
  pflags :: u8
  pref :: u16

record pstate =
  pbs :: "nat \<Rightarrow> pbuf"
  bytes :: "nat \<Rightarrow> u8"
  mem_heap :: heap
  mem_pools :: memps

text \<open>
  Where the linker and the configuration put things: the pools of \<open>memp_std.h\<close>, the numbers of
  the two pools of pbufs, and the address of \<open>ram\<close>.
\<close>

record env =
  pools :: pools
  MEMP_PBUF :: nat
  MEMP_PBUF_POOL :: nat
  ram_base :: nat

definition SIZEOF_STRUCT_PBUF :: nat where "SIZEOF_STRUCT_PBUF = 16"
definition PBUF_POOL_BUFSIZE_ALIGNED :: nat where "PBUF_POOL_BUFSIZE_ALIGNED = 1500"
definition PBUF_TRANSPORT_HLEN :: nat where "PBUF_TRANSPORT_HLEN = 20"
definition PBUF_IP_HLEN :: nat where "PBUF_IP_HLEN = 20"
definition PBUF_LINK_HLEN :: nat where "PBUF_LINK_HLEN = 14"

definition align4 :: "nat \<Rightarrow> nat" where
  "align4 n = (n + 3) div 4 * 4"

definition set_pbuf :: "nat \<Rightarrow> (pbuf \<Rightarrow> pbuf) \<Rightarrow> pstate \<Rightarrow> pstate" where
  "set_pbuf a f s = s\<lparr>pbs := (pbs s)(a := f (pbs s a))\<rparr>"

text \<open>\<open>memcpy\<close> of a list of bytes, and the bytes of an area.\<close>

definition put_bytes :: "nat \<Rightarrow> u8 list \<Rightarrow> pstate \<Rightarrow> pstate" where
  "put_bytes d xs s = s\<lparr>bytes := (\<lambda>a. if d \<le> a \<and> a < d + length xs then xs ! (a - d) else bytes s a)\<rparr>"

definition area :: "pstate \<Rightarrow> nat \<Rightarrow> nat \<Rightarrow> u8 list" where
  "area s a n = map (bytes s) [a..<a + n]"

section \<open>Release and references\<close>

text \<open>The structure goes back to where its type says it came from.\<close>

definition dealloc :: "env \<Rightarrow> nat \<Rightarrow> pstate \<Rightarrow> pstate" where
  "dealloc e p s =
     (case ptype (pbs s p) of
        PBUF_POOL \<Rightarrow> s\<lparr>mem_pools := memp_free (MEMP_PBUF_POOL e) (Some p) (mem_pools s)\<rparr>
      | PBUF_ROM \<Rightarrow> s\<lparr>mem_pools := memp_free (MEMP_PBUF e) (Some p) (mem_pools s)\<rparr>
      | PBUF_REF \<Rightarrow> s\<lparr>mem_pools := memp_free (MEMP_PBUF e) (Some p) (mem_pools s)\<rparr>
      | PBUF_RAM \<Rightarrow> if p < ram_base e then s
                    else s\<lparr>mem_heap := mem_free (Some (p - ram_base e)) (mem_heap s)\<rparr>)"

partial_function (option) free_loop :: "env \<Rightarrow> nat option \<Rightarrow> u8 \<Rightarrow> pstate \<Rightarrow> (u8 \<times> pstate) option" where
  "free_loop e p count s =
     (case p of None \<Rightarrow> Some (count, s)
      | Some a \<Rightarrow>
          (let ref = pref (pbs s a) - 1;
               s = set_pbuf a (pref_update (\<lambda>_. ref)) s
           in if ref = 0 then free_loop e (pnext (pbs s a)) (count + 1) (dealloc e a s)
              else Some (count, s)))"

definition pbuf_free :: "env \<Rightarrow> nat option \<Rightarrow> pstate \<Rightarrow> (u8 \<times> pstate) option" where
  "pbuf_free e p s = free_loop e p 0 s"

partial_function (option) clen_loop :: "nat option \<Rightarrow> u8 \<Rightarrow> pstate \<Rightarrow> u8 option" where
  "clen_loop p len s =
     (case p of None \<Rightarrow> Some len | Some a \<Rightarrow> clen_loop (pnext (pbs s a)) (len + 1) s)"

definition pbuf_clen :: "nat option \<Rightarrow> pstate \<Rightarrow> u8 option" where
  "pbuf_clen p s = clen_loop p 0 s"

definition pbuf_ref :: "nat option \<Rightarrow> pstate \<Rightarrow> pstate" where
  "pbuf_ref p s = (case p of None \<Rightarrow> s | Some a \<Rightarrow> set_pbuf a (pref_update (\<lambda>r. r + 1)) s)"

section \<open>Allocation\<close>

definition header_offset :: "pbuf_layer \<Rightarrow> nat" where
  "header_offset layer =
     (case layer of
        PBUF_TRANSPORT \<Rightarrow> PBUF_TRANSPORT_HLEN + PBUF_IP_HLEN + PBUF_LINK_HLEN
      | PBUF_IP \<Rightarrow> PBUF_IP_HLEN + PBUF_LINK_HLEN
      | PBUF_LINK \<Rightarrow> PBUF_LINK_HLEN
      | PBUF_RAW \<Rightarrow> 0)"

text \<open>
  The rest of a chain from the pool: \<open>p\<close> is its head, \<open>r\<close> the last pbuf so far, \<open>rem\<close> the
  length still to be allocated.
\<close>

function alloc_tail :: "env \<Rightarrow> nat \<Rightarrow> nat \<Rightarrow> nat \<Rightarrow> pstate \<Rightarrow> (nat option \<times> pstate) option" where
  "alloc_tail e p r rem s =
     (if rem = 0 then Some (Some p, s)
      else case memp_malloc (pools e) (MEMP_PBUF_POOL e) (mem_pools s) of
        (None, mp) \<Rightarrow> map_option (\<lambda>(_, s). (None, s)) (pbuf_free e (Some p) (s\<lparr>mem_pools := mp\<rparr>))
      | (Some q, mp) \<Rightarrow>
          (let len = min rem PBUF_POOL_BUFSIZE_ALIGNED;
               s = set_pbuf q (\<lambda>b. \<lparr>pnext = None, payload = q + SIZEOF_STRUCT_PBUF, tot_len = of_nat rem,
                     plen = of_nat len, ptype = PBUF_POOL, pflags = 0, pref = 1\<rparr>) (s\<lparr>mem_pools := mp\<rparr>);
               s = set_pbuf r (pnext_update (\<lambda>_. Some q)) s
           in alloc_tail e p q (rem - len) s))"
  by pat_completeness auto
termination by (relation "measure (\<lambda>(e, p, r, rem, s). rem)") (auto simp: PBUF_POOL_BUFSIZE_ALIGNED_def)

text \<open>
  The size of a \<open>PBUF_RAM\<close> is passed on in 16 bits.  The payload of a \<open>PBUF_ROM\<close> or \<open>PBUF_REF\<close> is
  the null pointer until the caller sets it.
\<close>

definition pbuf_alloc :: "env \<Rightarrow> pbuf_layer \<Rightarrow> u16 \<Rightarrow> pbuf_type \<Rightarrow> pstate \<Rightarrow> (nat option \<times> pstate) option" where
  "pbuf_alloc e layer n type s =
     (let offset = header_offset layer;
          done = (\<lambda>p s. set_pbuf p (\<lambda>b. b\<lparr>pref := 1, pflags := 0\<rparr>) s)
      in case type of
        PBUF_POOL \<Rightarrow>
          (case memp_malloc (pools e) (MEMP_PBUF_POOL e) (mem_pools s) of
             (None, mp) \<Rightarrow> Some (None, s\<lparr>mem_pools := mp\<rparr>)
           | (Some p, mp) \<Rightarrow>
               (let len = min (unat n) (PBUF_POOL_BUFSIZE_ALIGNED - align4 offset);
                    s = set_pbuf p (\<lambda>b. b\<lparr>ptype := type, pnext := None, payload := align4 (p + SIZEOF_STRUCT_PBUF + offset),
                          tot_len := n, plen := of_nat len, pref := 1\<rparr>) (s\<lparr>mem_pools := mp\<rparr>)
                in case alloc_tail e p p (unat n - len) s of
                     None \<Rightarrow> None
                   | Some (None, s) \<Rightarrow> Some (None, s)
                   | Some (Some p, s) \<Rightarrow> Some (Some p, done p s)))
      | PBUF_RAM \<Rightarrow>
          (case mem_malloc (of_nat (align4 (SIZEOF_STRUCT_PBUF + offset) + align4 (unat n))) (mem_heap s) of
             (None, hp) \<Rightarrow> Some (None, s\<lparr>mem_heap := hp\<rparr>)
           | (Some k, hp) \<Rightarrow>
               (let p = ram_base e + k;
                    s = set_pbuf p (\<lambda>b. b\<lparr>payload := align4 (p + SIZEOF_STRUCT_PBUF + offset), plen := n, tot_len := n,
                          pnext := None, ptype := type\<rparr>) (s\<lparr>mem_heap := hp\<rparr>)
                in Some (Some p, done p s)))
      | _ \<Rightarrow>
          (case memp_malloc (pools e) (MEMP_PBUF e) (mem_pools s) of
             (None, mp) \<Rightarrow> Some (None, s\<lparr>mem_pools := mp\<rparr>)
           | (Some p, mp) \<Rightarrow>
               (let s = set_pbuf p (\<lambda>b. b\<lparr>payload := 0, plen := n, tot_len := n, pnext := None, ptype := type\<rparr>)
                      (s\<lparr>mem_pools := mp\<rparr>)
                in Some (Some p, done p s))))"

section \<open>Changing a buffer\<close>

text \<open>
  The pbufs that stay are stepped over; \<open>grow\<close> is added to their total lengths.
\<close>

partial_function (option) keep_loop :: "nat option \<Rightarrow> u16 \<Rightarrow> u16 \<Rightarrow> pstate \<Rightarrow> (nat \<times> u16 \<times> pstate) option" where
  "keep_loop q rem_len grow s =
     (case q of None \<Rightarrow> None
      | Some a \<Rightarrow>
          if plen (pbs s a) < rem_len
          then (let rem_len = rem_len - plen (pbs s a);
                    s = set_pbuf a (tot_len_update (\<lambda>n. n + grow)) s
                in keep_loop (pnext (pbs s a)) rem_len grow s)
          else Some (a, rem_len, s))"

definition shrink_ram :: "env \<Rightarrow> nat \<Rightarrow> u16 \<Rightarrow> pstate \<Rightarrow> (nat \<times> pstate) option" where
  "shrink_ram e q rem_len s =
     (let newsize = of_int (int (payload (pbs s q)) - int q + int (unat rem_len)) in
      if q < ram_base e then Some (q, s)
      else case mem_realloc (q - ram_base e) newsize (mem_heap s) of
        (None, hp) \<Rightarrow> None
      | (Some k, hp) \<Rightarrow> Some (ram_base e + k, s\<lparr>mem_heap := hp\<rparr>))"

definition pbuf_realloc :: "env \<Rightarrow> nat \<Rightarrow> u16 \<Rightarrow> pstate \<Rightarrow> pstate option" where
  "pbuf_realloc e p new_len s =
     (if tot_len (pbs s p) \<le> new_len then Some s
      else case keep_loop (Some p) new_len (new_len - tot_len (pbs s p)) s of
        None \<Rightarrow> None
      | Some (q, rem_len, s) \<Rightarrow>
          (case (if ptype (pbs s q) = PBUF_RAM \<and> rem_len \<noteq> plen (pbs s q) then shrink_ram e q rem_len s
                 else Some (q, s)) of
             None \<Rightarrow> None
           | Some (q, s) \<Rightarrow>
               (let s = set_pbuf q (\<lambda>b. b\<lparr>plen := rem_len, tot_len := rem_len\<rparr>) s;
                    r = (case pnext (pbs s q) of None \<Rightarrow> Some s
                         | Some n \<Rightarrow> map_option snd (pbuf_free e (Some n) s))
                in map_option (set_pbuf q (pnext_update (\<lambda>_. None))) r)))"

definition pbuf_header :: "nat option \<Rightarrow> u16 \<Rightarrow> pstate \<Rightarrow> u8 \<times> pstate" where
  "pbuf_header p inc s =
     (case p of None \<Rightarrow> (0, s)
      | Some a \<Rightarrow>
          if inc = 0 then (0, s)
          else let b = pbs s a; magnitude = (if sint inc < 0 then - inc else inc);
                   moved = int (payload b) - sint inc;
                   fin = (\<lambda>pl. (0, set_pbuf a (\<lambda>b. b\<lparr>payload := pl, plen := plen b + inc, tot_len := tot_len b + inc\<rparr>) s))
               in if sint inc < 0 \<and> \<not> magnitude \<le> plen b then (1, s)
                  else case ptype b of
                    PBUF_RAM \<Rightarrow> if moved < int (a + SIZEOF_STRUCT_PBUF) then (1, s) else fin (nat moved)
                  | PBUF_POOL \<Rightarrow> if moved < int (a + SIZEOF_STRUCT_PBUF) then (1, s) else fin (nat moved)
                  | _ \<Rightarrow> if sint inc < 0 \<and> magnitude \<le> plen b then fin (nat moved) else (1, s))"

section \<open>Chains\<close>

partial_function (option) cat_loop :: "nat \<Rightarrow> nat \<Rightarrow> pstate \<Rightarrow> (nat \<times> pstate) option" where
  "cat_loop p t s =
     (case pnext (pbs s p) of None \<Rightarrow> Some (p, s)
      | Some n \<Rightarrow> cat_loop n t (set_pbuf p (tot_len_update (\<lambda>l. l + tot_len (pbs s t))) s))"

definition pbuf_cat :: "nat option \<Rightarrow> nat option \<Rightarrow> pstate \<Rightarrow> pstate option" where
  "pbuf_cat h t s =
     (case (h, t) of
        (Some h, Some t) \<Rightarrow>
          map_option (\<lambda>(p, s). set_pbuf p (pnext_update (\<lambda>_. Some t))
              (set_pbuf p (tot_len_update (\<lambda>l. l + tot_len (pbs s t))) s)) (cat_loop h t s)
      | _ \<Rightarrow> Some s)"

definition pbuf_chain :: "nat option \<Rightarrow> nat option \<Rightarrow> pstate \<Rightarrow> pstate option" where
  "pbuf_chain h t s = map_option (pbuf_ref t) (pbuf_cat h t s)"

definition pbuf_dechain :: "env \<Rightarrow> nat \<Rightarrow> pstate \<Rightarrow> (nat option \<times> pstate) option" where
  "pbuf_dechain e p s =
     (case pnext (pbs s p) of None \<Rightarrow> Some (None, s)
      | Some q \<Rightarrow>
          (let s = set_pbuf q (tot_len_update (\<lambda>_. tot_len (pbs s p) - plen (pbs s p))) s;
               s = set_pbuf p (\<lambda>b. b\<lparr>pnext := None, tot_len := plen b\<rparr>) s
           in map_option (\<lambda>(tail_gone, s). (if 0 < tail_gone then None else Some q, s)) (pbuf_free e (Some q) s)))"

section \<open>Copying\<close>

definition one_packet :: "nat option \<Rightarrow> pstate \<Rightarrow> bool" where
  "one_packet p s = (case p of None \<Rightarrow> True
     | Some a \<Rightarrow> plen (pbs s a) = tot_len (pbs s a) \<longrightarrow> pnext (pbs s a) = None)"

partial_function (option) copy_loop ::
    "nat option \<Rightarrow> nat option \<Rightarrow> u16 \<Rightarrow> u16 \<Rightarrow> pstate \<Rightarrow> (err_t \<times> pstate) option" where
  "copy_loop p_to p_from offset_to offset_from s =
     (case p_to of None \<Rightarrow> None
      | Some t \<Rightarrow>
      case p_from of None \<Rightarrow> None
      | Some f \<Rightarrow>
          (let len = (if int (unat (plen (pbs s f))) - int (unat offset_from) \<le> int (unat (plen (pbs s t))) - int (unat offset_to)
                      then plen (pbs s f) - offset_from else plen (pbs s t) - offset_to);
               s = put_bytes (payload (pbs s t) + unat offset_to)
                     (area s (payload (pbs s f) + unat offset_from) (unat len)) s;
               offset_to = offset_to + len; offset_from = offset_from + len;
               (offset_to, p_to) = (if offset_to = plen (pbs s t) then (0, pnext (pbs s t)) else (offset_to, p_to));
               (offset_from, p_from) = (if plen (pbs s f) \<le> offset_from then (0, pnext (pbs s f)) else (offset_from, p_from))
           in if \<not> one_packet p_from s then Some (ERR_VAL, s)
              else if \<not> one_packet p_to s then Some (ERR_VAL, s)
              else if p_from \<noteq> None then copy_loop p_to p_from offset_to offset_from s
              else Some (ERR_OK, s)))"

definition pbuf_copy :: "nat option \<Rightarrow> nat option \<Rightarrow> pstate \<Rightarrow> (err_t \<times> pstate) option" where
  "pbuf_copy p_to p_from s =
     (case (p_to, p_from) of
        (Some t, Some f) \<Rightarrow>
          if tot_len (pbs s f) \<le> tot_len (pbs s t) then copy_loop p_to p_from 0 0 s else Some (ERR_ARG, s)
      | _ \<Rightarrow> Some (ERR_ARG, s))"

text \<open>What is copied to \<open>dataptr\<close>, from its first byte on, is the result.\<close>

partial_function (option) partial_loop :: "nat option \<Rightarrow> u16 \<Rightarrow> u16 \<Rightarrow> pstate \<Rightarrow> u8 list option" where
  "partial_loop p len offset s =
     (if len = 0 then Some []
      else case p of None \<Rightarrow> Some []
      | Some a \<Rightarrow>
          if offset \<noteq> 0 \<and> plen (pbs s a) \<le> offset
          then partial_loop (pnext (pbs s a)) len (offset - plen (pbs s a)) s
          else (let n = plen (pbs s a) - offset; n = (if len < n then len else n)
                in Option.bind (partial_loop (pnext (pbs s a)) (len - n) 0 s)
                     (\<lambda>rest. Some (area s (payload (pbs s a) + unat offset) (unat n) @ rest))))"

definition pbuf_copy_partial :: "nat option \<Rightarrow> bool \<Rightarrow> u16 \<Rightarrow> u16 \<Rightarrow> pstate \<Rightarrow> u8 list option" where
  "pbuf_copy_partial buf dataptr len offset s =
     (if buf = None \<or> \<not> dataptr then Some [] else partial_loop buf len offset s)"

partial_function (option) take_loop :: "nat option \<Rightarrow> u8 list \<Rightarrow> pstate \<Rightarrow> pstate option" where
  "take_loop p xs s =
     (if xs = [] then Some s
      else case p of None \<Rightarrow> None
      | Some a \<Rightarrow>
          (let n = min (length xs) (unat (plen (pbs s a))) in
           take_loop (pnext (pbs s a)) (drop n xs) (put_bytes (payload (pbs s a)) (take n xs) s)))"

text \<open>For a missing argument the code returns 0, which is \<open>ERR_OK\<close>.\<close>

definition pbuf_take :: "nat option \<Rightarrow> u8 list option \<Rightarrow> pstate \<Rightarrow> (err_t \<times> pstate) option" where
  "pbuf_take buf dataptr s =
     (case (buf, dataptr) of
        (Some a, Some xs) \<Rightarrow>
          if unat (tot_len (pbs s a)) < length xs then Some (ERR_ARG, s)
          else map_option (Pair ERR_OK) (take_loop buf xs s)
      | _ \<Rightarrow> Some (ERR_OK, s))"

definition pbuf_coalesce :: "env \<Rightarrow> nat \<Rightarrow> pbuf_layer \<Rightarrow> pstate \<Rightarrow> (nat \<times> pstate) option" where
  "pbuf_coalesce e p layer s =
     (if pnext (pbs s p) = None then Some (p, s)
      else case pbuf_alloc e layer (tot_len (pbs s p)) PBUF_RAM s of
        None \<Rightarrow> None
      | Some (None, s) \<Rightarrow> Some (p, s)
      | Some (Some q, s) \<Rightarrow>
          (case pbuf_copy (Some q) (Some p) s of None \<Rightarrow> None
           | Some (err, s) \<Rightarrow> map_option (\<lambda>(_, s). (q, s)) (pbuf_free e (Some p) s)))"

section \<open>Chains as lists\<close>

abbreviation chained :: "pstate \<Rightarrow> nat option \<Rightarrow> nat list \<Rightarrow> bool" where
  "chained s \<equiv> linked (\<lambda>a. pnext (pbs s a))"

definition content :: "pstate \<Rightarrow> nat list \<Rightarrow> u8 list" where
  "content s ps = concat (map (\<lambda>a. area s (payload (pbs s a)) (unat (plen (pbs s a)))) ps)"

lemma content_simps [simp]:
  "content s [] = []"
  "content s (a # ps) = area s (payload (pbs s a)) (unat (plen (pbs s a))) @ content s ps"
  by (simp_all add: content_def)

lemma length_area [simp]: "length (area s a n) = n"
  by (simp add: area_def)

text \<open>The total length of a pbuf counts its own bytes and those after it.\<close>

fun tots :: "pstate \<Rightarrow> nat list \<Rightarrow> bool" where
  "tots s [] = True"
| "tots s (a # ps) = (unat (tot_len (pbs s a)) = unat (plen (pbs s a)) + length (content s ps) \<and> tots s ps)"

lemma pbs_set_pbuf: "pbs (set_pbuf a f s) b = (if b = a then f (pbs s a) else pbs s b)"
  by (simp add: set_pbuf_def)

lemma pbs_dealloc [simp]: "pbs (dealloc e a s) = pbs s" "bytes (dealloc e a s) = bytes s"
  by (simp_all add: dealloc_def split: pbuf_type.splits)

lemma bytes_set_pbuf [simp]: "bytes (set_pbuf a f s) = bytes s"
  by (simp add: set_pbuf_def)

lemma chained_cong:
  "(\<And>a. a \<in> set ps \<Longrightarrow> pnext (pbs s' a) = pnext (pbs s a)) \<Longrightarrow> chained s p ps \<Longrightarrow> chained s' p ps"
  by (rule linked_cong)

text \<open>A chain of two buffers of 2 and 3 bytes, for the examples below.\<close>

definition two_pbufs :: pstate where
  "two_pbufs = \<lparr>pbs = (\<lambda>a. if a = 100
       then \<lparr>pnext = Some 200, payload = 116, tot_len = 5, plen = 2, ptype = PBUF_POOL, pflags = 0, pref = 1\<rparr>
       else \<lparr>pnext = None, payload = 216, tot_len = 3, plen = 3, ptype = PBUF_POOL, pflags = 0, pref = 2\<rparr>),
     bytes = (\<lambda>a. of_nat a), mem_heap = mem_init, mem_pools = \<lparr>memp_tab = (\<lambda>_. None), memp_next = (\<lambda>_. None)\<rparr>\<rparr>"

lemma two_pbufs_chain: "chained two_pbufs (Some 100) [100, 200]" "tots two_pbufs [100, 200]"
  "length (content two_pbufs [100, 200]) = 5"
  by (simp_all add: two_pbufs_def)

section \<open>Releasing a chain\<close>

definition free_one :: "env \<Rightarrow> nat \<Rightarrow> pstate \<Rightarrow> pstate" where
  "free_one e a s = dealloc e a (set_pbuf a (pref_update (\<lambda>_. 0)) s)"

lemma pbs_free_one: "pbs (free_one e a s) b = (if b = a then (pbs s a)\<lparr>pref := 0\<rparr> else pbs s b)"
  by (simp add: free_one_def pbs_set_pbuf)

lemma pref_dec: "pref_update (\<lambda>r. r - 1) b = b\<lparr>pref := pref b - 1\<rparr>"
  by (cases b) simp

lemma free_loop_chain:
  assumes "chained s p ps" "distinct ps"
  shows "free_loop e p c s =
    (let gone = takeWhile (\<lambda>a. pref (pbs s a) = 1) ps; s1 = fold (free_one e) gone s
     in Some (c + of_nat (length gone),
          case drop (length gone) ps of [] \<Rightarrow> s1 | a # _ \<Rightarrow> set_pbuf a (pref_update (\<lambda>r. r - 1)) s1))"
  using assms
proof (induction ps arbitrary: p c s)
  case Nil
  then show ?case by (simp add: free_loop.simps)
next
  case (Cons a ps)
  have p: "p = Some a" and rest: "chained s (pnext (pbs s a)) ps" using Cons.prems(1) by simp_all
  show ?case
  proof (cases "pref (pbs s a) = 1")
    case True
    let ?s = "free_one e a s"
    have "chained ?s (pnext (pbs s a)) ps"
      by (rule chained_cong [OF _ rest]) (simp add: pbs_free_one)
    moreover have "takeWhile (\<lambda>b. pref (pbs ?s b) = 1) ps = takeWhile (\<lambda>b. pref (pbs s b) = 1) ps"
      by (rule takeWhile_cong) (use Cons.prems(2) in \<open>auto simp: pbs_free_one\<close>)
    ultimately have ih: "free_loop e (pnext (pbs s a)) (c + 1) ?s =
      (let gone = takeWhile (\<lambda>a. pref (pbs s a) = 1) ps; s1 = fold (free_one e) gone ?s
       in Some (c + 1 + of_nat (length gone),
            case drop (length gone) ps of [] \<Rightarrow> s1 | a # _ \<Rightarrow> set_pbuf a (pref_update (\<lambda>r. r - 1)) s1))"
      using Cons.IH [of ?s "pnext (pbs s a)" "c + 1"] Cons.prems(2) by simp
    have step: "free_loop e p c s = free_loop e (pnext (pbs s a)) (c + 1) ?s"
      using True by (subst free_loop.simps) (simp add: p Let_def pbs_set_pbuf free_one_def)
    show ?thesis unfolding step ih using True by (simp add: Let_def add.assoc cong: list.case_cong)
  next
    case False
    then have "pref (pbs s a) - 1 \<noteq> 0" by simp
    then show ?thesis
      using False by (subst free_loop.simps) (simp add: p Let_def set_pbuf_def pref_dec)
  qed
qed

text \<open>
  Releasing a chain deallocates exactly its longest prefix of buffers with a single
  reference, each to the allocator its type names and in the order of the chain, takes one
  reference from the buffer after that prefix, leaves the rest alone, and
  returns the length of the prefix (in 8 bits).
\<close>

theorem pbuf_free_prefix:
  assumes "linked (\<lambda>a. pnext (pbs s a)) (Some p) ps" "distinct ps"
  shows "\<exists>n s'. pbuf_free e (Some p) s = Some (of_nat n, s') \<and> n \<le> length ps
    \<and> (\<forall>i<n. pref (pbs s (ps ! i)) = 1) \<and> (n < length ps \<longrightarrow> pref (pbs s (ps ! n)) \<noteq> 1)
    \<and> mem_heap s' = mem_heap (fold (free_one e) (take n ps) s)
    \<and> mem_pools s' = mem_pools (fold (free_one e) (take n ps) s)
    \<and> (\<forall>i<length ps. n \<le> i \<longrightarrow> pbs s' (ps ! i)
          = (if i = n then (pbs s (ps ! i))\<lparr>pref := pref (pbs s (ps ! i)) - 1\<rparr> else pbs s (ps ! i)))"
proof -
  let ?P = "\<lambda>a. pref (pbs s a) = 1"
  define n where "n = length (takeWhile ?P ps)"
  have gone: "takeWhile ?P ps = take n ps" unfolding n_def by (rule takeWhile_eq_take)
  have n: "n \<le> length ps" unfolding n_def by (rule length_takeWhile_le)
  define s1 where "s1 = fold (free_one e) (take n ps) s"
  define s' where "s' = (case drop n ps of [] \<Rightarrow> s1 | a # _ \<Rightarrow> set_pbuf a (pref_update (\<lambda>r. r - 1)) s1)"
  have "pbuf_free e (Some p) s = Some (of_nat n, s')"
    unfolding pbuf_free_def free_loop_chain [OF assms(1,2)] s'_def s1_def gone [symmetric]
    by (simp add: Let_def n_def cong: list.case_cong)
  moreover have "\<forall>i<n. ?P (ps ! i)"
    using nth_mem [of _ "take n ps"] set_takeWhileD [of _ ?P ps] n unfolding gone [symmetric]
    by (metis gone length_take min.absorb2 nth_take)
  moreover have "n < length ps \<longrightarrow> \<not> ?P (ps ! n)" unfolding n_def using nth_length_takeWhile [of ?P ps] by blast
  moreover have mem: "mem_heap s' = mem_heap s1" "mem_pools s' = mem_pools s1"
    by (simp_all add: s'_def set_pbuf_def split: list.splits)
  moreover have "pbs s' (ps ! i) = (if i = n then (pbs s (ps ! i))\<lparr>pref := pref (pbs s (ps ! i)) - 1\<rparr> else pbs s (ps ! i))"
    if i: "i < length ps" "n \<le> i" for i
  proof -
    have keep: "pbs (fold (free_one e) xs t) b = pbs t b" if "b \<notin> set xs" for xs t b
      using that by (induction xs arbitrary: t) (auto simp: pbs_free_one)
    have "ps ! i \<notin> set (take n ps)"
      using assms(2) i by (auto simp: in_set_conv_nth nth_eq_iff_index_eq)
    then have k: "pbs s1 (ps ! i) = pbs s (ps ! i)" unfolding s1_def by (rule keep)
    have "drop n ps = ps ! n # drop (Suc n) ps" using i by (simp add: Cons_nth_drop_Suc)
    then have "s' = set_pbuf (ps ! n) (pref_update (\<lambda>r. r - 1)) s1" by (simp add: s'_def)
    moreover have "ps ! i = ps ! n \<longleftrightarrow> i = n" using assms(2) i by (simp add: nth_eq_iff_index_eq)
    ultimately show ?thesis using k by (auto simp: pbs_set_pbuf)
  qed
  ultimately show ?thesis using n unfolding s1_def by blast
qed

theorem pbuf_free_prefix_witness:
  "\<forall>e. \<exists>n s'. pbuf_free e (Some 100) two_pbufs = Some (of_nat n, s') \<and> n = 1 \<and> pref (pbs s' 200) = 1"
proof
  fix e :: env
  have "linked (\<lambda>a. pnext (pbs two_pbufs a)) (Some 100) [100, 200]" by (rule two_pbufs_chain)
  then obtain n s' where n: "pbuf_free e (Some 100) two_pbufs = Some (of_nat n, s')" "n \<le> 2"
      "\<forall>i<n. pref (pbs two_pbufs ([100, 200] ! i)) = 1" "n < 2 \<longrightarrow> pref (pbs two_pbufs ([100, 200] ! n)) \<noteq> 1"
      "\<forall>i<2. n \<le> i \<longrightarrow> pbs s' ([100, 200] ! i) = (if i = n then (pbs two_pbufs ([100, 200] ! i))
          \<lparr>pref := pref (pbs two_pbufs ([100, 200] ! i)) - 1\<rparr> else pbs two_pbufs ([100, 200] ! i))"
    using pbuf_free_prefix [of two_pbufs 100 "[100, 200]" e] by (auto simp: numeral_2_eq_2)
  have "n \<noteq> 0" using n(4) by (cases n) (auto simp: two_pbufs_def)
  moreover have "n \<noteq> 2" using n(3) by (auto simp: two_pbufs_def dest: spec [of _ 1])
  ultimately have "n = 1" using n(2) by linarith
  then show "\<exists>n s'. pbuf_free e (Some 100) two_pbufs = Some (of_nat n, s') \<and> n = 1 \<and> pref (pbs s' 200) = 1"
    using n(1) n(5) [rule_format, of 1] by (auto simp: two_pbufs_def)
qed

section \<open>Copying in and out\<close>

lemma partial_loop_chain:
  "chained s p ps \<Longrightarrow> partial_loop p len off s = Some (take (unat len) (drop (unat off) (content s ps)))"
proof (induction ps arbitrary: p len off)
  case Nil
  then show ?case by (simp add: partial_loop.simps)
next
  case (Cons a ps)
  let ?n = "plen (pbs s a)"
  have p: "p = Some a" and rest: "chained s (pnext (pbs s a)) ps" using Cons.prems by simp_all
  note ih = Cons.IH [OF rest]
  have area_drop: "area s (x + i) (m - i) = drop i (area s x m)" for x i m
    by (cases "i \<le> m") (simp_all add: area_def drop_map)
  have area_take: "take i (area s x m) = area s x (min i m)" for x i m
    by (cases "i \<le> m") (simp_all add: area_def take_map min_def)
  show ?case
  proof (cases "len = 0")
    case True
    then show ?thesis by (simp add: partial_loop.simps)
  next
    case len: False
    show ?thesis
    proof (cases "off \<noteq> 0 \<and> ?n \<le> off")
      case True
      then have "unat (off - ?n) = unat off - unat ?n" by (simp add: unat_sub word_le_nat_alt)
      then show ?thesis using len True ih by (subst partial_loop.simps) (simp add: p word_le_nat_alt)
    next
      case False
      then have le: "unat off \<le> unat ?n" by (auto simp: word_le_nat_alt)
      then have m: "unat (?n - off) = unat ?n - unat off" by (simp add: unat_sub word_le_nat_alt)
      define k where "k = (if len < ?n - off then len else ?n - off)"
      have k: "unat k = min (unat len) (unat ?n - unat off)" using m by (auto simp: k_def word_less_nat_alt)
      then have "unat (len - k) = unat len - unat k" by (simp add: unat_sub word_le_nat_alt)
      then have "partial_loop p len off s = Some (area s (payload (pbs s a) + unat off) (unat k)
          @ take (unat len - unat k) (content s ps))"
        using len False ih by (subst partial_loop.simps) (auto simp: p Let_def k_def)
      moreover have "area s (payload (pbs s a) + unat off) (unat k)
          = take (unat len) (drop (unat off) (area s (payload (pbs s a)) (unat ?n)))"
        unfolding area_drop [symmetric] area_take k ..
      ultimately show ?thesis using le k by (simp add: min_def)
    qed
  qed
qed

text \<open>The bytes of the buffers of a chain do not overlap.\<close>

definition apart :: "pstate \<Rightarrow> nat \<Rightarrow> nat \<Rightarrow> bool" where
  "apart s a b \<longleftrightarrow> payload (pbs s a) + unat (plen (pbs s a)) \<le> payload (pbs s b)
     \<or> payload (pbs s b) + unat (plen (pbs s b)) \<le> payload (pbs s a)"

lemma area_put_other:
  "x + n \<le> d \<or> d + length xs \<le> x \<Longrightarrow> area (put_bytes d xs s) x n = area s x n"
  by (auto simp: area_def put_bytes_def)

lemma area_put_same:
  "length xs \<le> n \<Longrightarrow> area (put_bytes x xs s) x n = xs @ drop (length xs) (area s x n)"
  by (rule nth_equalityI) (auto simp: area_def put_bytes_def nth_append)

lemma pbs_put [simp]: "pbs (put_bytes d xs s) = pbs s"
  by (simp add: put_bytes_def)

lemma content_put_other:
  "\<forall>b\<in>set ps. payload (pbs s b) + unat (plen (pbs s b)) \<le> d \<or> d + length xs \<le> payload (pbs s b)
    \<Longrightarrow> content (put_bytes d xs s) ps = content s ps"
  by (induction ps) (auto simp: area_put_other)

lemma take_loop_chain:
  assumes "chained s p ps" "sorted_wrt (apart s) ps" "length xs \<le> length (content s ps)"
  shows "\<exists>s'. take_loop p xs s = Some s' \<and> pbs s' = pbs s \<and> content s' ps = xs @ drop (length xs) (content s ps)
    \<and> (\<forall>x n. (\<forall>b\<in>set ps. payload (pbs s b) + unat (plen (pbs s b)) \<le> x \<or> x + n \<le> payload (pbs s b))
          \<longrightarrow> area s' x n = area s x n)"
  using assms
proof (induction ps arbitrary: p xs s)
  case Nil
  then show ?case by (simp add: take_loop.simps)
next
  case (Cons a ps)
  let ?n = "unat (plen (pbs s a))" and ?x = "payload (pbs s a)"
  have p: "p = Some a" and rest: "chained s (pnext (pbs s a)) ps" using Cons.prems(1) by simp_all
  show ?case
  proof (cases "xs = []")
    case True
    then show ?thesis by (simp add: take_loop.simps)
  next
    case ne: False
    define k where "k = min (length xs) ?n"
    define t where "t = put_bytes ?x (take k xs) s"
    have k: "length (take k xs) = k" "k \<le> ?n" by (simp_all add: k_def)
    have others: "content t ps = content s ps"
      unfolding t_def by (rule content_put_other) (use Cons.prems(2) k in \<open>fastforce simp: apart_def\<close>)
    have "chained t (pnext (pbs s a)) ps" "sorted_wrt (apart t) ps" "length (drop k xs) \<le> length (content t ps)"
    proof -
      have ap: "apart t = apart s" by (simp add: t_def apart_def fun_eq_iff)
      show "chained t (pnext (pbs s a)) ps" using rest by (simp add: t_def)
      show "sorted_wrt (apart t) ps" unfolding ap using Cons.prems(2) by simp
      show "length (drop k xs) \<le> length (content t ps)"
        unfolding others using Cons.prems(3) by (simp add: k_def)
    qed
    from Cons.IH [OF this] obtain s' where s': "take_loop (pnext (pbs s a)) (drop k xs) t = Some s'" "pbs s' = pbs t"
        "content s' ps = drop k xs @ drop (length xs - k) (content s ps)"
        "\<And>x n. \<forall>b\<in>set ps. payload (pbs t b) + unat (plen (pbs t b)) \<le> x \<or> x + n \<le> payload (pbs t b)
          \<Longrightarrow> area s' x n = area t x n"
      using others by auto
    have "area s' ?x ?n = area t ?x ?n"
      by (rule s'(4)) (use Cons.prems(2) in \<open>auto simp: t_def apart_def\<close>)
    also have "\<dots> = take k xs @ drop k (area s ?x ?n)"
      unfolding t_def using area_put_same [of "take k xs" ?n ?x s] k by simp
    finally have head: "area s' ?x ?n = take k xs @ drop k (area s ?x ?n)" .
    have "content s' (a # ps) = xs @ drop (length xs) (content s (a # ps))"
    proof (cases "length xs \<le> ?n")
      case True
      then show ?thesis using head s'(2,3) by (simp add: k_def t_def)
    next
      case False
      then show ?thesis using head s'(2,3) by (simp add: k_def t_def)
    qed
    moreover have "area s' x n = area s x n"
      if "\<forall>b\<in>set (a # ps). payload (pbs s b) + unat (plen (pbs s b)) \<le> x \<or> x + n \<le> payload (pbs s b)" for x n
    proof -
      have "area s' x n = area t x n" by (rule s'(4)) (use that in \<open>simp add: t_def\<close>)
      also have "\<dots> = area s x n" unfolding t_def by (rule area_put_other) (use that k in auto)
      finally show ?thesis .
    qed
    moreover have "take_loop p xs s = Some s'"
      using s'(1) ne by (subst take_loop.simps) (simp add: p Let_def k_def t_def)
    ultimately show ?thesis using s'(2) by (simp add: t_def)
  qed
qed

text \<open>
  C26: Data copied into a chain comes out again: after \<open>pbuf_take\<close> the chain holds the data
  followed by what it held behind it, however it is cut into buffers, and
  \<open>pbuf_copy_partial\<close> delivers any part of that.
\<close>

theorem pbuf_take_copy_partial:
  assumes "linked (\<lambda>a. pnext (pbs s a)) (Some p) ps" "sorted_wrt (apart s) ps"
    and "unat (tot_len (pbs s p)) = length (content s ps)" "length xs \<le> length (content s ps)"
  shows "\<exists>s'. pbuf_take (Some p) (Some xs) s = Some (ERR_OK, s') \<and> pbs s' = pbs s
    \<and> pbuf_copy_partial (Some p) True len off s'
        = Some (take (unat len) (drop (unat off) (xs @ drop (length xs) (content s ps))))"
proof -
  obtain s' where s': "take_loop (Some p) xs s = Some s'" "pbs s' = pbs s"
      "content s' ps = xs @ drop (length xs) (content s ps)"
    using take_loop_chain [OF assms(1,2,4)] by blast
  have "chained s' (Some p) ps" using assms(1) s'(2) by simp
  then have "partial_loop (Some p) len off s' = Some (take (unat len) (drop (unat off) (content s' ps)))"
    by (rule partial_loop_chain)
  then show ?thesis using s' assms(3,4) by (simp add: pbuf_take_def pbuf_copy_partial_def)
qed

theorem pbuf_take_copy_partial_witness:
  "\<exists>s'. pbuf_take (Some 100) (Some [7, 8, 9]) two_pbufs = Some (ERR_OK, s')
    \<and> pbuf_copy_partial (Some 100) True 3 1 s' = Some [8, 9, 217]"
proof -
  have ap: "sorted_wrt (apart two_pbufs) [100, 200]" by (simp add: apart_def two_pbufs_def)
  have c: "content two_pbufs [100, 200] = [116, 117, 216, 217, 218]"
    by (simp add: two_pbufs_def area_def upt_rec)
  show ?thesis
    using pbuf_take_copy_partial [OF two_pbufs_chain(1) ap, of "[7, 8, 9]" 3 1] unfolding c
    by (auto simp: two_pbufs_def)
qed

section \<open>Headers\<close>

lemma sint_neg_hdr: "0 < sint (w :: u16) \<Longrightarrow> sint (- w) = - sint w"
proof -
  assume "0 < sint w"
  moreover have "sint w < 2 ^ 15" using sint_lt [of w] by simp
  ultimately show ?thesis by (simp add: sint_word_minus signed_take_bit_int_eq_self)
qed

lemma unat_sint_hdr: "0 < sint (w :: u16) \<Longrightarrow> unat w = nat (sint w)"
proof -
  assume p: "0 < sint w"
  have "uint w = uint (word_of_int (sint w) :: u16)" by simp
  also have "\<dots> = sint w mod 2 ^ 16" by (simp only: uint_word_of_int len_num1 len_num0 len_bit0) simp
  also have "\<dots> = sint w" using p sint_lt [of w] by simp
  finally show ?thesis by (simp add: unat_eq_nat_uint)
qed

text \<open>
  Making room for a header either fails and changes nothing, exactly when the room in front
  of the data is too small (or the buffer refers to foreign memory), or moves the start of the
  data back by that much; removing the header again restores the buffer.
\<close>

theorem pbuf_header_roundtrip:
  assumes "0 < sint inc" "unat (plen (pbs s p)) + nat (sint inc) < 65536"
  shows "case pbuf_header (Some p) inc s of (r, s') \<Rightarrow>
     if ptype (pbs s p) \<in> {PBUF_RAM, PBUF_POOL} \<and> p + SIZEOF_STRUCT_PBUF + nat (sint inc) \<le> payload (pbs s p)
     then r = 0 \<and> payload (pbs s' p) + nat (sint inc) = payload (pbs s p)
       \<and> unat (plen (pbs s' p)) = unat (plen (pbs s p)) + nat (sint inc)
       \<and> pbuf_header (Some p) (- inc) s' = (0, s)
     else r = 1 \<and> s' = s"
proof -
  let ?b = "pbs s p" and ?n = "nat (sint inc)"
  have u: "unat inc = ?n" "int ?n = sint inc"
    using assms(1) unat_sint_hdr [of inc] by simp_all
  have neg: "sint (- inc) = - sint inc"
    using sint_neg_hdr assms(1) by blast
  have len: "unat (plen ?b + inc) = unat (plen ?b) + ?n"
    using assms(2) u(1) by (simp add: unat_word_ariths)
  have nz: "inc \<noteq> 0" "- inc \<noteq> 0" using assms(1) by auto
  show ?thesis
  proof (cases "ptype ?b \<in> {PBUF_RAM, PBUF_POOL}")
    case False
    then have "pbuf_header (Some p) inc s = (1, s)"
      using assms(1) nz by (cases "ptype ?b") (simp_all add: pbuf_header_def Let_def)
    then show ?thesis using False by simp
  next
    case True
    let ?m = "int (payload ?b) - sint inc"
    show ?thesis
    proof (cases "?m < int (p + SIZEOF_STRUCT_PBUF)")
      case low: True
      then have "pbuf_header (Some p) inc s = (1, s)"
        using assms(1) nz True by (cases "ptype ?b") (simp_all add: pbuf_header_def Let_def)
      moreover have "\<not> p + SIZEOF_STRUCT_PBUF + ?n \<le> payload ?b" using low u(2) by linarith
      ultimately show ?thesis by simp
    next
      case high: False
      let ?s = "set_pbuf p (\<lambda>b. b\<lparr>payload := nat ?m, plen := plen ?b + inc, tot_len := tot_len ?b + inc\<rparr>) s"
      have r: "pbuf_header (Some p) inc s = (0, ?s)"
        using assms(1) nz True high by (cases "ptype ?b") (simp_all add: pbuf_header_def Let_def set_pbuf_def)
      have ge: "p + SIZEOF_STRUCT_PBUF + ?n \<le> payload ?b" using high u(2) by linarith
      have b: "pbs ?s p = ?b\<lparr>payload := nat ?m, plen := plen ?b + inc, tot_len := tot_len ?b + inc\<rparr>"
        by (simp add: set_pbuf_def)
      have m: "int (nat ?m) = ?m" using high by simp
      have restored: "int (nat ?m) - sint (- inc) = int (payload ?b)" unfolding m neg by simp
      have le: "inc \<le> plen ?b + inc" using len u(1) by (simp add: word_le_nat_alt)
      have "pbuf_header (Some p) (- inc) ?s = (0, set_pbuf p (\<lambda>b. b\<lparr>payload := payload ?b, plen := plen ?b, tot_len := tot_len ?b\<rparr>) ?s)"
        using True nz assms(1) le high ge u(2)
        by (cases "ptype ?b") (simp_all add: pbuf_header_def Let_def b restored neg set_pbuf_def)
      also have "\<dots> = (0, s)" by (simp add: set_pbuf_def fun_upd_idem)
      finally have undone: "pbuf_header (Some p) (- inc) ?s = (0, s)" .
      have "nat ?m + ?n = payload ?b" using m u(2) by linarith
      then have "payload (pbs ?s p) + ?n = payload ?b" unfolding b by simp
      then show ?thesis using r undone len True ge b by simp
    qed
  qed
qed

theorem pbuf_header_roundtrip_witness:
  "pbuf_header (Some 100) 20 (set_pbuf 100 (payload_update (\<lambda>_. 170)) two_pbufs)
     \<noteq> (1, set_pbuf 100 (payload_update (\<lambda>_. 170)) two_pbufs)"
  using pbuf_header_roundtrip [of 20 "set_pbuf 100 (payload_update (\<lambda>_. 170)) two_pbufs" 100]
  by (auto simp: two_pbufs_def set_pbuf_def SIZEOF_STRUCT_PBUF_def split: prod.splits)

section \<open>Trimming\<close>

text \<open>The buffers that stay get the new total lengths; the new last one is found with the rest of the length.\<close>

lemma tots_cong:
  "(\<And>a. a \<in> set ps \<Longrightarrow> tot_len (pbs s' a) = tot_len (pbs s a) \<and> plen (pbs s' a) = plen (pbs s a))
    \<Longrightarrow> tots s' ps = tots s ps"
proof (induction ps)
  case (Cons a ps)
  have "length (content s' qs) = length (content s qs)" if "set qs \<subseteq> set ps" for qs
    using that Cons.prems by (induction qs) auto
  then show ?case using Cons by auto
qed simp

lemma tots_head: "tots s (a # ps) \<Longrightarrow> unat (tot_len (pbs s a)) = length (content s (a # ps))"
  by simp

lemma keep_loop_chain:
  assumes "chained s (Some p) (p # ps)" "distinct (p # ps)" "tots s (p # ps)"
    and "unat rem < length (content s (p # ps))" "unat grow = (65536 - (length (content s (p # ps)) - unat rem)) mod 65536"
  shows "\<exists>xs q ys r s'. p # ps = xs @ q # ys \<and> keep_loop (Some p) rem grow s = Some (q, r, s')
    \<and> unat r \<le> unat (plen (pbs s q)) \<and> unat rem = length (content s xs) + unat r
    \<and> bytes s' = bytes s \<and> mem_heap s' = mem_heap s \<and> mem_pools s' = mem_pools s
    \<and> (\<forall>a. pbs s' a = (if a \<in> set xs then (pbs s a)\<lparr>tot_len := tot_len (pbs s a) + grow\<rparr> else pbs s a))"
  using assms
proof (induction ps arbitrary: p rem s)
  case Nil
  then have "\<not> plen (pbs s p) < rem" by (simp add: word_less_nat_alt)
  then show ?case using Nil
    by (intro exI [of _ "[]"]) (auto simp: keep_loop.simps word_less_nat_alt)
next
  case (Cons n ps)
  show ?case
  proof (cases "plen (pbs s p) < rem")
    case False
    then show ?thesis using Cons.prems
      by (intro exI [of _ "[]"]) (auto simp: keep_loop.simps word_less_nat_alt)
  next
    case True
    let ?l = "plen (pbs s p)" and ?s = "set_pbuf p (tot_len_update (\<lambda>n. n + grow)) s"
    have lt: "unat ?l < unat rem" using True by (simp add: word_less_nat_alt)
    have r: "unat (rem - ?l) = unat rem - unat ?l" using lt by (simp add: unat_sub word_le_nat_alt)
    have same: "pbs ?s a = pbs s a" if "a \<in> set (n # ps)" for a
      using that Cons.prems(2) by (auto simp: pbs_set_pbuf)
    have c: "content ?s qs = content s qs" if "set qs \<subseteq> set (n # ps)" for qs
      using that by (induction qs) (auto simp: same area_def)
    have ch: "chained ?s (Some n) (n # ps)"
      by (rule chained_cong [of _ _ s]) (use Cons.prems(1) same in auto)
    have tt: "tots ?s (n # ps)" using Cons.prems(3) tots_cong [of "n # ps" ?s s] same by simp
    have len: "length (content s (p # n # ps)) - unat rem = length (content s (n # ps)) - (unat rem - unat ?l)"
      using lt by simp
    have "unat (rem - ?l) < length (content ?s (n # ps))" "unat grow = (65536 - (length (content ?s (n # ps)) - unat (rem - ?l))) mod 65536"
      using Cons.prems(4,5) lt unfolding len r c [OF order_refl] by simp_all
    from Cons.IH [OF ch _ tt this] Cons.prems(2) obtain xs q ys r' s' where
      ih: "n # ps = xs @ q # ys" "keep_loop (Some n) (rem - ?l) grow ?s = Some (q, r', s')"
        "unat r' \<le> unat (plen (pbs ?s q))" "unat (rem - ?l) = length (content ?s xs) + unat r'"
        "bytes s' = bytes ?s" "mem_heap s' = mem_heap ?s" "mem_pools s' = mem_pools ?s"
        "\<forall>a. pbs s' a = (if a \<in> set xs then (pbs ?s a)\<lparr>tot_len := tot_len (pbs ?s a) + grow\<rparr> else pbs ?s a)"
      by (auto simp: r)
    have q: "q \<in> set (n # ps)" "set xs \<subseteq> set (n # ps)" using ih(1) by (metis in_set_conv_decomp, metis set_append Un_upper1)
    have px: "p \<notin> set xs" using Cons.prems(2) q(2) by auto
    have step: "keep_loop (Some p) rem grow s = Some (q, r', s')"
      using True ih(2) Cons.prems(1) by (subst keep_loop.simps) (simp add: Let_def pbs_set_pbuf)
    have upd: "tot_len_update (\<lambda>n. n + grow) b = b\<lparr>tot_len := tot_len b + grow\<rparr>" for b :: pbuf
      by (cases b) simp
    show ?thesis
    proof (intro exI conjI)
      show "p # n # ps = (p # xs) @ q # ys" using ih(1) by simp
      show "keep_loop (Some p) rem grow s = Some (q, r', s')" by (rule step)
      show "unat r' \<le> unat (plen (pbs s q))" using ih(3) same [OF q(1)] by simp
      show "unat rem = length (content s (p # xs)) + unat r'" using ih(4) r lt c [OF q(2)] by simp
      show "bytes s' = bytes s" "mem_heap s' = mem_heap s" "mem_pools s' = mem_pools s"
        using ih(5-7) by (simp_all add: set_pbuf_def)
      show "\<forall>a. pbs s' a = (if a \<in> set (p # xs) then (pbs s a)\<lparr>tot_len := tot_len (pbs s a) + grow\<rparr> else pbs s a)"
        using ih(8) px by (auto simp: pbs_set_pbuf upd)
    qed
  qed
qed

lemma keep_chain_free:
  assumes "chained s p ps" "distinct ps"
  shows "\<exists>n s'. pbuf_free e p s = Some (n, s') \<and> bytes s' = bytes s
    \<and> (\<forall>a. a \<notin> set ps \<longrightarrow> pbs s' a = pbs s a) \<and> (\<forall>a. pnext (pbs s' a) = pnext (pbs s a))
    \<and> mem_pools s' = mem_pools (fold (free_one e) (takeWhile (\<lambda>a. pref (pbs s a) = 1) ps) s)"
proof -
  let ?gone = "takeWhile (\<lambda>a. pref (pbs s a) = 1) ps"
  have keep: "pbs (fold (free_one e) xs t) b = pbs t b" if "b \<notin> set xs" for xs t b
    using that by (induction xs arbitrary: t) (auto simp: pbs_free_one)
  have nx: "pnext (pbs (fold (free_one e) xs t) b) = pnext (pbs t b)" for xs t b
    by (induction xs arbitrary: t) (auto simp: pbs_free_one)
  have by': "bytes (fold (free_one e) xs t) = bytes t" for xs t
    by (induction xs arbitrary: t) (auto simp: free_one_def)
  have sub: "set ?gone \<subseteq> set ps" by (auto dest: set_takeWhileD)
  have tl: "drop (length ?gone) ps = a # x \<Longrightarrow> a \<in> set ps" for a x by (metis in_set_dropD list.set_intros(1))
  have gone: "pbs (fold (free_one e) ?gone s) a = pbs s a" if "a \<notin> set ps" for a
    by (rule keep) (use sub that in blast)
  show ?thesis
    unfolding pbuf_free_def free_loop_chain [OF assms] Let_def
    using tl by (auto simp: gone nx by' pbs_set_pbuf set_pbuf_def split: list.splits)
qed

lemma mem_pools_free_one:
  "mem_pools (free_one e a s) =
    (case ptype (pbs s a) of
       PBUF_POOL \<Rightarrow> memp_free (MEMP_PBUF_POOL e) (Some a) (mem_pools s)
     | PBUF_RAM \<Rightarrow> mem_pools s
     | _ \<Rightarrow> memp_free (MEMP_PBUF e) (Some a) (mem_pools s))"
proof -
  let ?t = "set_pbuf a (pref_update (\<lambda>_. 0)) s"
  have "ptype (pbs ?t a) = ptype (pbs s a)" "mem_pools ?t = mem_pools s"
    by (simp_all add: set_pbuf_def)
  moreover have "mem_pools (dealloc e a t) =
    (case ptype (pbs t a) of
       PBUF_POOL \<Rightarrow> memp_free (MEMP_PBUF_POOL e) (Some a) (mem_pools t)
     | PBUF_RAM \<Rightarrow> mem_pools t
     | _ \<Rightarrow> memp_free (MEMP_PBUF e) (Some a) (mem_pools t))" for t
    by (cases "ptype (pbs t a)") (simp_all add: dealloc_def)
  ultimately show ?thesis by (simp only: free_one_def)
qed

lemma fold_free_pools:
  assumes "mem_pools s = mem_pools t" "\<forall>a\<in>set xs. ptype (pbs s a) = ptype (pbs t a)"
  shows "mem_pools (fold (free_one e) xs s) = mem_pools (fold (free_one e) xs t)"
  using assms
proof (induction xs arbitrary: s t)
  case (Cons a xs)
  have "mem_pools (free_one e a s) = mem_pools (free_one e a t)"
  proof -
    have "ptype (pbs s a) = ptype (pbs t a)" using Cons.prems(2) by simp
    then show ?thesis by (simp only: mem_pools_free_one Cons.prems(1))
  qed
  moreover have "\<forall>b\<in>set xs. ptype (pbs (free_one e a s) b) = ptype (pbs (free_one e a t) b)"
    using Cons.prems(2) by (auto simp: pbs_free_one)
  ultimately show ?case unfolding fold_simps by (rule Cons.IH)
qed simp

lemma content_cong:
  "bytes s' = bytes s \<Longrightarrow> (\<And>a. a \<in> set ps \<Longrightarrow> payload (pbs s' a) = payload (pbs s a) \<and> plen (pbs s' a) = plen (pbs s a))
    \<Longrightarrow> content s' ps = content s ps"
  by (induction ps) (auto simp: area_def)

lemma linked_append: "linked nxt p (xs @ q # ys) \<Longrightarrow> linked nxt (nxt q) ys"
  by (induction nxt p xs rule: linked.induct) auto

lemma linked_prefix:
  "linked nxt p (xs @ q # ys) \<Longrightarrow> distinct (xs @ [q]) \<Longrightarrow> linked (nxt(q := None)) p (xs @ [q])"
  by (induction nxt p xs rule: linked.induct) (auto simp: linked_upd)

lemma area_prefix: "k \<le> n \<Longrightarrow> area s a k = take k (area s a n)"
  by (simp add: area_def take_map)

text \<open>The total lengths after the trim: \<open>grow\<close> is negative, as a wrapped \<open>u16\<close>.\<close>

lemma wrap_back:
  fixes c d n :: nat
  assumes "d \<le> c" "n + c < 65536"
  shows "(n + c + (65536 - (c - d)) mod 65536) mod 65536 = n + d"
proof (cases "c = d")
  case False
  then have "(65536 - (c - d)) mod 65536 = 65536 - (c - d)" using assms by (intro mod_less) linarith
  moreover have "n + c + (65536 - (c - d)) = n + d + 65536" using assms by linarith
  moreover have "(n + d) mod 65536 = n + d" using assms by (intro mod_less) linarith
  ultimately show ?thesis by (simp only: mod_add_self2)
qed (use assms in simp)

lemma unat_minus_wrap:
  fixes a b :: u16
  assumes "a < b"
  shows "unat (a - b) = (65536 - (unat b - unat a)) mod 65536"
proof -
  have lt: "unat a < unat b" using assms by (simp add: word_less_nat_alt)
  have "unat b < 65536" by (rule unat_less_65536)
  then show ?thesis using lt assms by (simp add: unat_sub_if' word_le_nat_alt)
qed

lemma trimmed_tots:
  assumes "tots s (xs @ q # ys)" "distinct (xs @ [q])" "r \<le> unat (plen (pbs s q))"
    and "unat grow = (65536 - (length (content s (xs @ q # ys)) - (length (content s xs) + r))) mod 65536"
    and "\<And>a. a \<in> set xs \<Longrightarrow> tot_len (pbs s' a) = tot_len (pbs s a) + grow \<and> plen (pbs s' a) = plen (pbs s a)"
    and "unat (tot_len (pbs s' q)) = r" "unat (plen (pbs s' q)) = r"
  shows "tots s' (xs @ [q])"
  using assms
proof (induction xs)
  case (Cons a xs)
  let ?c = "length (content s (xs @ q # ys))" and ?d = "length (content s xs) + r" and ?n = "unat (plen (pbs s a))"
  have len: "length (content s (xs @ q # ys)) = length (content s xs) + unat (plen (pbs s q)) + length (content s ys)"
    by (induction xs) auto
  have same: "length (content s (a # xs @ q # ys)) - (length (content s (a # xs)) + r) = ?c - ?d" by simp
  have tl: "tots s' (xs @ [q])"
    by (rule Cons.IH) (use Cons.prems in \<open>simp_all add: same\<close>)
  have t: "unat (tot_len (pbs s a)) = ?n + ?c" using Cons.prems(1) by simp
  have "length (content s' (xs @ [q])) = ?d"
  proof -
    have "length (content s' zs) = length (content s zs)" if "set zs \<subseteq> set xs" for zs
      using that Cons.prems(5) by (induction zs) auto
    then have "length (content s' xs) = length (content s xs)" by blast
    moreover have "length (content s' (xs @ [q])) = length (content s' xs) + r"
      using Cons.prems(7) by (induction xs) auto
    ultimately show ?thesis by simp
  qed
  moreover have "unat (tot_len (pbs s a) + grow) = ?n + ?d"
  proof -
    have le: "?d \<le> ?c" "?n + ?c < 65536"
      using len Cons.prems(3) t unat_less_65536 [of "tot_len (pbs s a)"] by linarith+
    show ?thesis using wrap_back [OF le] Cons.prems(4) t by (simp add: unat_word_ariths same)
  qed
  ultimately show ?case using tl Cons.prems(5) by simp
qed simp

text \<open>
  Trimming a received chain to a shorter length leaves a well-formed chain of its first
  buffers with the total lengths corrected, whose content is that much of the old content,
  and gives the buffers behind it back as \<open>pbuf_free\<close> does.
\<close>

theorem pbuf_realloc_trims:
  assumes "linked (\<lambda>a. pnext (pbs s a)) (Some p) (p # ps)" "distinct (p # ps)" "tots s (p # ps)"
    and "\<forall>a\<in>set (p # ps). ptype (pbs s a) \<noteq> PBUF_RAM" "new_len < tot_len (pbs s p)"
  shows "\<exists>n s'. pbuf_realloc e p new_len s = Some s' \<and> 0 < n \<and> n \<le> length (p # ps)
    \<and> linked (\<lambda>a. pnext (pbs s' a)) (Some p) (take n (p # ps)) \<and> tots s' (take n (p # ps))
    \<and> content s' (take n (p # ps)) = take (unat new_len) (content s (p # ps))
    \<and> mem_pools s' = mem_pools (fold (free_one e) (takeWhile (\<lambda>a. pref (pbs s a) = 1) (drop n (p # ps))) s)"
proof -
  let ?grow = "new_len - tot_len (pbs s p)" and ?L = "length (content s (p # ps))"
  have tot: "unat (tot_len (pbs s p)) = ?L" using assms(3) by simp
  have lt: "unat new_len < ?L" using assms(5) tot by (simp add: word_less_nat_alt)
  have L: "?L < 65536" using tot unat_less_65536 [of "tot_len (pbs s p)"] by linarith
  have grow: "unat ?grow = (65536 - (?L - unat new_len)) mod 65536"
    using unat_minus_wrap [OF assms(5)] unfolding tot .
  obtain xs q ys r s1 where k: "p # ps = xs @ q # ys" "keep_loop (Some p) new_len ?grow s = Some (q, r, s1)"
      "unat r \<le> unat (plen (pbs s q))" "unat new_len = length (content s xs) + unat r"
      "bytes s1 = bytes s" "mem_pools s1 = mem_pools s"
      "\<forall>a. pbs s1 a = (if a \<in> set xs then (pbs s a)\<lparr>tot_len := tot_len (pbs s a) + ?grow\<rparr> else pbs s a)"
    using keep_loop_chain [OF assms(1-3) lt grow] by blast
  have d: "distinct (xs @ q # ys)" using assms(2) k(1) by simp
  have qx: "q \<notin> set xs" "q \<notin> set ys" "set xs \<inter> set ys = {}" using d by auto
  have ram: "ptype (pbs s1 q) \<noteq> PBUF_RAM" using assms(4) k(1,7) qx by auto
  define s2 where "s2 = set_pbuf q (\<lambda>b. b\<lparr>plen := r, tot_len := r\<rparr>) s1"
  have p2: "pbs s2 a = (if a = q then (pbs s q)\<lparr>plen := r, tot_len := r\<rparr>
      else if a \<in> set xs then (pbs s a)\<lparr>tot_len := tot_len (pbs s a) + ?grow\<rparr> else pbs s a)" for a
    using k(7) qx by (simp add: s2_def pbs_set_pbuf)
  have nx: "pnext (pbs s2 a) = pnext (pbs s a)" for a by (simp add: p2)
  have ch: "chained s2 (pnext (pbs s2 q)) ys"
    using linked_append [of "\<lambda>a. pnext (pbs s a)" "Some p" xs q ys] assms(1) k(1) by (simp add: nx)
  obtain m s3 where f: "pbuf_free e (pnext (pbs s2 q)) s2 = Some (m, s3)" "bytes s3 = bytes s2"
      "\<forall>a. a \<notin> set ys \<longrightarrow> pbs s3 a = pbs s2 a" "\<forall>a. pnext (pbs s3 a) = pnext (pbs s2 a)"
      "mem_pools s3 = mem_pools (fold (free_one e) (takeWhile (\<lambda>a. pref (pbs s2 a) = 1) ys) s2)"
    using keep_chain_free [OF ch, of e] d by auto
  define s' where "s' = set_pbuf q (pnext_update (\<lambda>_. None)) s3"
  have none: "pbuf_free e None s2 = Some (0, s2)" by (simp add: pbuf_free_def free_loop.simps)
  have r: "(case pnext (pbs s2 q) of None \<Rightarrow> Some s2 | Some n \<Rightarrow> map_option snd (pbuf_free e (Some n) s2)) = Some s3"
    using f(1) none by (cases "pnext (pbs s2 q)") auto
  have "pbuf_realloc e p new_len s = Some s'"
    using assms(5) k(2) ram r unfolding s2_def by (simp add: pbuf_realloc_def Let_def s'_def)
  moreover have take: "take (Suc (length xs)) (p # ps) = xs @ [q]" "drop (Suc (length xs)) (p # ps) = ys"
    unfolding k(1) by simp_all
  moreover have "chained s' (Some p) (xs @ [q])"
  proof (rule linked_cong)
    show "linked ((\<lambda>a. pnext (pbs s a))(q := None)) (Some p) (xs @ [q])"
      by (rule linked_prefix) (use assms(1) k(1) d in auto)
    show "pnext (pbs s' a) = ((\<lambda>a. pnext (pbs s a))(q := None)) a" for a
      using f(4) nx by (simp add: s'_def pbs_set_pbuf)
  qed
  moreover have pb: "pbs s' a = (if a = q then (pbs s q)\<lparr>plen := r, tot_len := r, pnext := None\<rparr>
      else (pbs s a)\<lparr>tot_len := tot_len (pbs s a) + ?grow\<rparr>)" if "a \<in> set (xs @ [q])" for a
    using that f(3) qx by (auto simp: s'_def pbs_set_pbuf p2)
  have "tots s' (xs @ [q])"
  proof (rule trimmed_tots [of s xs q ys "unat r" ?grow])
    show "unat ?grow = (65536 - (length (content s (xs @ q # ys)) - (length (content s xs) + unat r))) mod 65536"
      using grow k(1,4) by simp
  qed (use assms(3) k(1,3) d pb qx in auto)
  moreover have "content s' (xs @ [q]) = take (unat new_len) (content s (p # ps))"
  proof -
    have b: "bytes s' = bytes s" using f(2) k(5) by (simp add: s'_def s2_def)
    have cx: "content s' xs = content s xs" by (rule content_cong [OF b]) (use pb qx in auto)
    have app: "content t (us @ vs) = content t us @ content t vs" for t us vs by (simp add: content_def)
    have "area s' (payload (pbs s' q)) (unat (plen (pbs s' q))) = area s (payload (pbs s q)) (unat r)"
      using pb [of q] b by (simp add: area_def)
    then show ?thesis unfolding k(1) app cx k(4) using area_prefix [OF k(3), of s "payload (pbs s q)"] k(3) by simp
  qed
  moreover have "mem_pools s' = mem_pools (fold (free_one e) (takeWhile (\<lambda>a. pref (pbs s a) = 1) ys) s)"
  proof -
    have "takeWhile (\<lambda>a. pref (pbs s2 a) = 1) ys = takeWhile (\<lambda>a. pref (pbs s a) = 1) ys"
      by (rule takeWhile_cong) (use qx in \<open>auto simp: p2\<close>)
    moreover have "mem_pools (fold (free_one e) zs s2) = mem_pools (fold (free_one e) zs s)" for zs
      by (rule fold_free_pools) (use k(6) in \<open>auto simp: s2_def set_pbuf_def k(7)\<close>)
    ultimately show ?thesis using f(5) by (simp add: s'_def set_pbuf_def)
  qed
  moreover have "Suc (length xs) \<le> length (p # ps)" unfolding k(1) by simp
  ultimately show ?thesis
    by (intro exI [of _ "Suc (length xs)"] exI [of _ s']) (simp only: take zero_less_Suc simp_thms)
qed

theorem pbuf_realloc_trims_witness:
  "\<forall>e. \<exists>n s'. pbuf_realloc e 100 1 two_pbufs = Some s' \<and> 0 < n \<and> content s' (take n [100, 200]) = [116]"
proof
  fix e :: env
  have c: "content two_pbufs [100, 200] = [116, 117, 216, 217, 218]"
    by (simp add: two_pbufs_def area_def upt_rec)
  have "\<forall>a\<in>set [100, 200]. ptype (pbs two_pbufs a) \<noteq> PBUF_RAM" "1 < tot_len (pbs two_pbufs 100)"
    by (simp_all add: two_pbufs_def)
  from pbuf_realloc_trims [OF two_pbufs_chain(1) _ two_pbufs_chain(2) this, of e]
  show "\<exists>n s'. pbuf_realloc e 100 1 two_pbufs = Some s' \<and> 0 < n \<and> content s' (take n [100, 200]) = [116]"
    unfolding c by auto
qed

end
