(* ===== verification/PbufPool.thy ===== *)
theory PbufPool
  imports Pbuf
begin

text \<open>
  Allocation from the pool: \<open>pbuf_alloc\<close> with \<open>PBUF_POOL\<close> takes as many elements as the length
  needs from the front of the free list and links them into a chain, or, when there are too
  few, gives back those it had taken.
\<close>

declare alloc_tail.simps [simp del]

definition pool_free :: "env \<Rightarrow> memps \<Rightarrow> nat list \<Rightarrow> bool" where
  "pool_free e mp fl \<longleftrightarrow> MEMP_PBUF_POOL e < length (pools e) \<and> distinct fl
     \<and> linked (memp_next mp) (memp_tab mp (MEMP_PBUF_POOL e)) fl"

lemma pool_free_malloc:
  "pool_free e mp [] \<Longrightarrow> memp_malloc (pools e) (MEMP_PBUF_POOL e) mp = (None, mp)"
  "pool_free e mp (q # fl) \<Longrightarrow> \<exists>mp'. memp_malloc (pools e) (MEMP_PBUF_POOL e) mp = (Some q, mp') \<and> pool_free e mp' fl"
  by (auto simp: pool_free_def memp_malloc_def)

lemma pool_free_free:
  "pool_free e mp fl \<Longrightarrow> p \<notin> set fl \<Longrightarrow> pool_free e (memp_free (MEMP_PBUF_POOL e) (Some p) mp) (p # fl)"
  by (auto simp: pool_free_def memp_free_def linked_upd)

lemma fold_free_pool:
  "pool_free e (mem_pools s) fl \<Longrightarrow> distinct (ps @ fl) \<Longrightarrow> \<forall>a\<in>set ps. ptype (pbs s a) = PBUF_POOL
    \<Longrightarrow> pool_free e (mem_pools (fold (free_one e) ps s)) (rev ps @ fl)"
proof (induction ps arbitrary: s fl)
  case (Cons a ps)
  have "pool_free e (mem_pools (free_one e a s)) (a # fl)"
    using Cons.prems pool_free_free by (simp add: mem_pools_free_one)
  moreover have "\<forall>b\<in>set ps. ptype (pbs (free_one e a s) b) = PBUF_POOL"
    using Cons.prems(3) by (simp add: pbs_free_one)
  ultimately show ?case using Cons.IH [of "free_one e a s" "a # fl"] Cons.prems(2) by simp
qed simp

text \<open>What a chain of pool buffers with one reference each gives back.\<close>

definition owned :: "pstate \<Rightarrow> nat list \<Rightarrow> bool" where
  "owned s ps \<longleftrightarrow> (\<forall>a\<in>set ps. ptype (pbs s a) = PBUF_POOL \<and> pref (pbs s a) = 1)"

lemma free_owned:
  assumes "chained s (Some p) ps" "owned s ps" "pool_free e (mem_pools s) fl" "distinct (ps @ fl)"
  shows "\<exists>n s'. pbuf_free e (Some p) s = Some (n, s') \<and> pool_free e (mem_pools s') (rev ps @ fl)"
proof -
  have all: "takeWhile (\<lambda>a. pref (pbs s a) = 1) ps = ps" using assms(2) by (simp add: owned_def takeWhile_eq_all_conv)
  have "pool_free e (mem_pools (fold (free_one e) ps s)) (rev ps @ fl)"
    using fold_free_pool assms(2-4) by (simp add: owned_def)
  then show ?thesis
    using keep_chain_free [OF assms(1), of e] assms(4) unfolding all by auto
qed

lemma linked_snoc:
  "linked nxt p (xs @ [r]) \<Longrightarrow> distinct (xs @ [r]) \<Longrightarrow> q \<notin> set (xs @ [r])
    \<Longrightarrow> linked (nxt(r := Some q, q := None)) p (xs @ [r, q])"
  by (induction nxt p xs rule: linked.induct) (auto simp: linked_upd)

definition pool_pbuf :: "nat \<Rightarrow> nat \<Rightarrow> nat \<Rightarrow> pbuf" where
  "pool_pbuf q rem len = \<lparr>pnext = None, payload = q + SIZEOF_STRUCT_PBUF, tot_len = of_nat rem,
     plen = of_nat len, ptype = PBUF_POOL, pflags = 0, pref = 1\<rparr>"

lemma alloc_tail_Cons:
  assumes "pool_free e (mem_pools s) (q # fl)" "rem \<noteq> 0" "q \<noteq> r"
  obtains s2 where "alloc_tail e p r rem s = alloc_tail e p q (rem - min rem PBUF_POOL_BUFSIZE_ALIGNED) s2"
    "pool_free e (mem_pools s2) fl" "bytes s2 = bytes s" "mem_heap s2 = mem_heap s"
    "pbs s2 = (pbs s)(q := pool_pbuf q rem (min rem PBUF_POOL_BUFSIZE_ALIGNED), r := (pbs s r)\<lparr>pnext := Some q\<rparr>)"
proof -
  obtain mp where mp: "memp_malloc (pools e) (MEMP_PBUF_POOL e) (mem_pools s) = (Some q, mp)" "pool_free e mp fl"
    using pool_free_malloc(2) [OF assms(1)] by blast
  define s2 where "s2 = set_pbuf r (pnext_update (\<lambda>_. Some q))
    (set_pbuf q (\<lambda>_. pool_pbuf q rem (min rem PBUF_POOL_BUFSIZE_ALIGNED)) (s\<lparr>mem_pools := mp\<rparr>))"
  show ?thesis
  proof (rule that)
    show "alloc_tail e p r rem s = alloc_tail e p q (rem - min rem PBUF_POOL_BUFSIZE_ALIGNED) s2"
      using assms(2) mp(1) by (subst alloc_tail.simps) (simp add: s2_def Let_def pool_pbuf_def)
    show "pbs s2 = (pbs s)(q := pool_pbuf q rem (min rem PBUF_POOL_BUFSIZE_ALIGNED), r := (pbs s r)\<lparr>pnext := Some q\<rparr>)"
      using assms(3) by (simp add: s2_def set_pbuf_def fun_eq_iff)
  qed (use mp(2) in \<open>simp_all add: s2_def set_pbuf_def\<close>)
qed

lemma alloc_tail_fails:
  assumes "chained s (Some p) (qs @ [r])" "owned s (qs @ [r])" "distinct (qs @ r # fl)"
    and "pool_free e (mem_pools s) fl" "PBUF_POOL_BUFSIZE_ALIGNED * length fl < rem"
  shows "\<exists>s' fl'. alloc_tail e p r rem s = Some (None, s') \<and> pool_free e (mem_pools s') fl'
    \<and> set fl' = set (qs @ r # fl)"
  using assms
proof (induction fl arbitrary: qs r rem s)
  case Nil
  have m: "memp_malloc (pools e) (MEMP_PBUF_POOL e) (mem_pools s) = (None, mem_pools s)"
    using pool_free_malloc(1) Nil.prems(4) by simp
  obtain n s' where "pbuf_free e (Some p) s = Some (n, s')" "pool_free e (mem_pools s') (rev (qs @ [r]) @ [])"
    using free_owned [OF Nil.prems(1,2,4)] Nil.prems(3) by auto
  then show ?case using Nil.prems(5) m
    by (subst alloc_tail.simps) (auto intro!: exI [of _ "rev (qs @ [r]) @ []"])
next
  case (Cons q fl)
  have q: "q \<noteq> r" "rem \<noteq> 0" "PBUF_POOL_BUFSIZE_ALIGNED \<le> rem" using Cons.prems(3,5) by auto
  obtain s2 where s2: "alloc_tail e p r rem s = alloc_tail e p q (rem - min rem PBUF_POOL_BUFSIZE_ALIGNED) s2"
      "pool_free e (mem_pools s2) fl"
      "pbs s2 = (pbs s)(q := pool_pbuf q rem (min rem PBUF_POOL_BUFSIZE_ALIGNED), r := (pbs s r)\<lparr>pnext := Some q\<rparr>)"
    using alloc_tail_Cons [OF Cons.prems(4) q(2,1)] by metis
  have "linked ((\<lambda>a. pnext (pbs s a))(r := Some q, q := None)) (Some p) (qs @ [r, q])"
    by (rule linked_snoc) (use Cons.prems(1,3) in auto)
  moreover have "(\<lambda>a. pnext (pbs s a))(r := Some q, q := None) = (\<lambda>a. pnext (pbs s2 a))"
    using q(1) by (auto simp: s2(3) pool_pbuf_def fun_eq_iff)
  ultimately have "chained s2 (Some p) ((qs @ [r]) @ [q])" by simp
  moreover have "owned s2 ((qs @ [r]) @ [q])"
    using Cons.prems(2) q(1) by (auto simp: owned_def s2(3) pool_pbuf_def)
  moreover have "distinct ((qs @ [r]) @ q # fl)" using Cons.prems(3) by auto
  moreover have "PBUF_POOL_BUFSIZE_ALIGNED * length fl < rem - min rem PBUF_POOL_BUFSIZE_ALIGNED"
    using Cons.prems(5) q(3) by simp
  ultimately have "\<exists>s' fl'. alloc_tail e p q (rem - min rem PBUF_POOL_BUFSIZE_ALIGNED) s2 = Some (None, s')
      \<and> pool_free e (mem_pools s') fl' \<and> set fl' = set ((qs @ [r]) @ q # fl)"
    using s2(2) by (intro Cons.IH)
  then show ?case unfolding s2(1) by simp
qed

lemma length_content: "length (content s ps) = sum_list (map (\<lambda>a. unat (plen (pbs s a))) ps)"
  by (induction ps) simp_all

text \<open>A new buffer: its data lie behind its structure, one caller holds it.\<close>

definition fresh :: "pstate \<Rightarrow> nat list \<Rightarrow> bool" where
  "fresh s ps \<longleftrightarrow> (\<forall>a\<in>set ps. payload (pbs s a) = a + SIZEOF_STRUCT_PBUF
     \<and> unat (plen (pbs s a)) \<le> PBUF_POOL_BUFSIZE_ALIGNED) \<and> owned s ps"

lemma alloc_tail_chain:
  assumes "pool_free e (mem_pools s) fl" "r \<notin> set fl" "pnext (pbs s r) = None"
    and "rem \<le> PBUF_POOL_BUFSIZE_ALIGNED * length fl" "rem < 65536"
  shows "\<exists>ps rest s'. alloc_tail e p r rem s = Some (Some p, s') \<and> fl = ps @ rest
    \<and> pool_free e (mem_pools s') rest \<and> bytes s' = bytes s \<and> mem_heap s' = mem_heap s
    \<and> (\<forall>a. a \<notin> set ps \<longrightarrow> a \<noteq> r \<longrightarrow> pbs s' a = pbs s a)
    \<and> (\<exists>v. pbs s' r = (pbs s r)\<lparr>pnext := v\<rparr>) \<and> chained s' (pnext (pbs s' r)) ps
    \<and> fresh s' ps \<and> length (content s' ps) = rem \<and> tots s' ps"
  using assms
proof (induction fl arbitrary: r rem s)
  case Nil
  have self: "\<exists>v. b = b\<lparr>pnext := v\<rparr>" for b :: pbuf by (rule exI [of _ "pnext b"]) simp
  show ?case
    by (intro exI [of _ "[]"] exI [of _ s], subst alloc_tail.simps)
      (use Nil.prems self in \<open>simp add: fresh_def owned_def\<close>)
next
  case (Cons q fl)
  have self: "\<exists>v. b = b\<lparr>pnext := v\<rparr>" for b :: pbuf by (rule exI [of _ "pnext b"]) simp
  show ?case
  proof (cases "rem = 0")
    case True
    show ?thesis
      by (intro exI [of _ "[]"] exI [of _ "q # fl"] exI [of _ s], subst alloc_tail.simps)
        (use True Cons.prems(1,3) self in \<open>simp add: fresh_def owned_def\<close>)
  next
    case False
    let ?len = "min rem PBUF_POOL_BUFSIZE_ALIGNED"
    have q: "q \<noteq> r" "q \<notin> set fl" using Cons.prems(1,2) by (auto simp: pool_free_def)
    obtain s2 where s2: "alloc_tail e p r rem s = alloc_tail e p q (rem - ?len) s2"
        "pool_free e (mem_pools s2) fl" "bytes s2 = bytes s" "mem_heap s2 = mem_heap s"
        "pbs s2 = (pbs s)(q := pool_pbuf q rem ?len, r := (pbs s r)\<lparr>pnext := Some q\<rparr>)"
      using alloc_tail_Cons [OF Cons.prems(1) False q(1)] by metis
    have "pnext (pbs s2 q) = None" "rem - ?len \<le> PBUF_POOL_BUFSIZE_ALIGNED * length fl" "rem - ?len < 65536"
      using q Cons.prems(4,5) by (auto simp: s2(5) pool_pbuf_def)
    from Cons.IH [OF s2(2) q(2) this] obtain ps rest s' where
      ih: "alloc_tail e p q (rem - ?len) s2 = Some (Some p, s')" "fl = ps @ rest"
        "pool_free e (mem_pools s') rest" "bytes s' = bytes s2" "mem_heap s' = mem_heap s2"
        "\<forall>a. a \<notin> set ps \<longrightarrow> a \<noteq> q \<longrightarrow> pbs s' a = pbs s2 a" "\<exists>v. pbs s' q = (pbs s2 q)\<lparr>pnext := v\<rparr>"
        "chained s' (pnext (pbs s' q)) ps" "fresh s' ps" "length (content s' ps) = rem - ?len" "tots s' ps"
      by metis
    have r: "r \<notin> set ps" using Cons.prems(2) ih(2) by auto
    then have rr: "pbs s' r = (pbs s r)\<lparr>pnext := Some q\<rparr>" using ih(6) q(1) by (simp add: s2(5))
    obtain v where "pbs s' q = (pbs s2 q)\<lparr>pnext := v\<rparr>" using ih(7) ..
    then have sq: "pbs s' q = (pool_pbuf q rem ?len)\<lparr>pnext := v\<rparr>" using q(1) by (simp add: s2(5))
    have lens: "unat (plen (pbs s' q)) = ?len" "unat (tot_len (pbs s' q)) = rem"
      using Cons.prems(5) by (simp_all add: sq pool_pbuf_def unat_of_nat)
    show ?thesis
    proof (intro exI conjI)
      show "alloc_tail e p r rem s = Some (Some p, s')" using s2(1) ih(1) by simp
      show "q # fl = (q # ps) @ rest" using ih(2) by simp
      show "chained s' (pnext (pbs s' r)) (q # ps)" using ih(8) rr by simp
      show "\<forall>a. a \<notin> set (q # ps) \<longrightarrow> a \<noteq> r \<longrightarrow> pbs s' a = pbs s a" using ih(6) by (simp add: s2(5))
      show "fresh s' (q # ps)" using ih(9) lens(1) by (simp add: fresh_def owned_def sq pool_pbuf_def)
      show "length (content s' (q # ps)) = rem" using ih(10) lens(1) by simp
      show "tots s' (q # ps)" using ih(10,11) lens by simp
    qed (use ih(3-5) s2(3,4) rr in simp_all)
  qed
qed

lemma align4_aligned: "4 dvd n \<Longrightarrow> align4 n = n"
  by (auto simp: align4_def elim!: dvdE)

text \<open>Enough free elements: the chain holds as many bytes as were asked for.\<close>

lemma pbuf_alloc_pool:
  assumes "pool_free e (mem_pools s) fl" "fl \<noteq> []" "unat n \<le> PBUF_POOL_BUFSIZE_ALIGNED * length fl" "4 dvd hd fl"
  shows "\<exists>p ps rest s'. pbuf_alloc e PBUF_RAW n PBUF_POOL s = Some (Some p, s') \<and> fl = p # ps @ rest
    \<and> pool_free e (mem_pools s') rest \<and> bytes s' = bytes s \<and> mem_heap s' = mem_heap s
    \<and> (\<forall>a. a \<notin> set (p # ps) \<longrightarrow> pbs s' a = pbs s a)
    \<and> chained s' (Some p) (p # ps) \<and> fresh s' (p # ps)
    \<and> length (content s' (p # ps)) = unat n \<and> tots s' (p # ps)"
proof -
  obtain p fl' where fl: "fl = p # fl'" using assms(2) by (cases fl) auto
  let ?len = "min (unat n) PBUF_POOL_BUFSIZE_ALIGNED"
  obtain mp where mp: "memp_malloc (pools e) (MEMP_PBUF_POOL e) (mem_pools s) = (Some p, mp)" "pool_free e mp fl'"
    using pool_free_malloc(2) assms(1) unfolding fl by blast
  define s1 where "s1 = set_pbuf p (\<lambda>b. b\<lparr>ptype := PBUF_POOL, pnext := None, payload := align4 (p + SIZEOF_STRUCT_PBUF),
    tot_len := n, plen := of_nat ?len, pref := 1\<rparr>) (s\<lparr>mem_pools := mp\<rparr>)"
  have al: "align4 (p + SIZEOF_STRUCT_PBUF) = p + SIZEOF_STRUCT_PBUF" "align4 0 = 0"
    using assms(4) by (auto simp: fl SIZEOF_STRUCT_PBUF_def align4_def elim!: dvdE)
  have s1: "pool_free e (mem_pools s1) fl'" "pnext (pbs s1 p) = None" "bytes s1 = bytes s" "mem_heap s1 = mem_heap s"
    using mp(2) by (simp_all add: s1_def set_pbuf_def)
  have "p \<notin> set fl'" using assms(1) by (simp add: fl pool_free_def)
  moreover have "unat n - ?len \<le> PBUF_POOL_BUFSIZE_ALIGNED * length fl'" using assms(3) by (simp add: fl)
  moreover have "unat n - ?len < 65536" using unat_less_65536 [of n] by (rule less_imp_diff_less)
  ultimately obtain ps rest s2 where
    t: "alloc_tail e p p (unat n - ?len) s1 = Some (Some p, s2)" "fl' = ps @ rest"
      "pool_free e (mem_pools s2) rest" "bytes s2 = bytes s1" "mem_heap s2 = mem_heap s1"
      "\<forall>a. a \<notin> set ps \<longrightarrow> a \<noteq> p \<longrightarrow> pbs s2 a = pbs s1 a" "\<exists>v. pbs s2 p = (pbs s1 p)\<lparr>pnext := v\<rparr>"
      "chained s2 (pnext (pbs s2 p)) ps" "fresh s2 ps" "length (content s2 ps) = unat n - ?len" "tots s2 ps"
    using alloc_tail_chain [OF s1(1) _ s1(2)] by metis
  define s' where "s' = set_pbuf p (\<lambda>b. b\<lparr>pref := 1, pflags := 0\<rparr>) s2"
  have pps: "p \<notin> set ps" using \<open>p \<notin> set fl'\<close> t(2) by simp
  then have same: "pbs s' a = pbs s2 a" if "a \<in> set ps" for a using that by (auto simp: s'_def pbs_set_pbuf)
  have by': "bytes s' = bytes s2" by (simp add: s'_def)
  have c: "content s' ps = content s2 ps" by (rule content_cong [OF by']) (simp add: same)
  have tt: "tots s' qs = tots s2 qs" if "set qs \<subseteq> set ps" for qs
    using that
  proof (induction qs)
    case (Cons a qs)
    have "content s' qs = content s2 qs" by (rule content_cong [OF by']) (use Cons.prems same in auto)
    then show ?case using Cons same by auto
  qed simp
  obtain v where v: "pbs s2 p = (pbs s1 p)\<lparr>pnext := v\<rparr>" using t(7) ..
  have len: "unat (plen (pbs s' p)) = ?len" "tot_len (pbs s' p) = n"
    using min.strict_coboundedI1 [OF unat_less_65536 [of n], of PBUF_POOL_BUFSIZE_ALIGNED]
    by (simp_all add: s'_def pbs_set_pbuf v s1_def unat_of_nat)
  have "pbuf_alloc e PBUF_RAW n PBUF_POOL s = Some (Some p, s')"
    using mp(1) t(1) al by (simp add: pbuf_alloc_def header_offset_def Let_def s1_def s'_def)
  moreover have "chained s' (Some p) (p # ps)"
  proof -
    have "pnext (pbs s' a) = pnext (pbs s2 a)" for a by (simp add: s'_def pbs_set_pbuf)
    then show ?thesis using t(8) by simp
  qed
  moreover have "fresh s' (p # ps)"
    using t(9) len(1) same al by (simp add: fresh_def owned_def s'_def pbs_set_pbuf v s1_def)
  moreover have "length (content s' (p # ps)) = unat n" using len(1) c t(10) by simp
  moreover have "tots s' (p # ps)" using len c t(10,11) tt [of ps] by simp
  moreover have "\<forall>a. a \<notin> set (p # ps) \<longrightarrow> pbs s' a = pbs s a"
    using t(6) by (simp add: s'_def pbs_set_pbuf s1_def)
  ultimately show ?thesis using t(2-5) s1(3,4)
    by (intro exI [of _ p] exI [of _ ps] exI [of _ rest] exI [of _ s']) (simp add: fl s'_def set_pbuf_def)
qed

text \<open>Whatever the pool has left, the allocation ends and leaves a well-formed pool.\<close>

lemma pbuf_alloc_fails:
  assumes "pool_free e (mem_pools s) fl" "fl = [] \<or> PBUF_POOL_BUFSIZE_ALIGNED * length fl < unat n"
  shows "\<exists>s' fl'. pbuf_alloc e PBUF_RAW n PBUF_POOL s = Some (None, s') \<and> pool_free e (mem_pools s') fl'
    \<and> set fl' = set fl"
proof (cases fl)
  case Nil
  then show ?thesis using pool_free_malloc(1) assms(1) by (auto simp: pbuf_alloc_def Let_def)
next
  case (Cons p fl')
  let ?len = "min (unat n) PBUF_POOL_BUFSIZE_ALIGNED"
  obtain mp where mp: "memp_malloc (pools e) (MEMP_PBUF_POOL e) (mem_pools s) = (Some p, mp)" "pool_free e mp fl'"
    using pool_free_malloc(2) assms(1) unfolding Cons by blast
  define s1 where "s1 = set_pbuf p (\<lambda>b. b\<lparr>ptype := PBUF_POOL, pnext := None, payload := align4 (p + SIZEOF_STRUCT_PBUF),
    tot_len := n, plen := of_nat ?len, pref := 1\<rparr>) (s\<lparr>mem_pools := mp\<rparr>)"
  have "\<exists>s' fl''. alloc_tail e p p (unat n - ?len) s1 = Some (None, s') \<and> pool_free e (mem_pools s') fl''
      \<and> set fl'' = set ([] @ p # fl')"
  proof (rule alloc_tail_fails [of s1 p "[]" p fl'])
    show "distinct ([] @ p # fl')" using assms(1) by (simp add: Cons pool_free_def)
    show "PBUF_POOL_BUFSIZE_ALIGNED * length fl' < unat n - ?len" using assms(2) by (simp add: Cons)
  qed (use mp(2) in \<open>simp_all add: s1_def set_pbuf_def owned_def\<close>)
  then obtain s' fl'' where t: "alloc_tail e p p (unat n - ?len) s1 = Some (None, s')" "pool_free e (mem_pools s') fl''"
    "set fl'' = set fl" unfolding Cons by auto
  have "align4 0 = 0" by (simp add: align4_def)
  then have "pbuf_alloc e PBUF_RAW n PBUF_POOL s = Some (None, s')"
    using mp(1) t(1) by (simp add: pbuf_alloc_def header_offset_def Let_def s1_def)
  then show ?thesis using t(2,3) by blast
qed

end
