(* ===== verification/Ethernet.thy ===== *)
theory Ethernet
  imports PbufPool Inet
begin

text \<open>
  The Ethernet driver: \<open>port/ethernetif.c\<close>, what it calls of \<open>stm32_eth.c\<close>, and the interrupt
  handler of \<open>stm32f10x_it.c\<close>.  The descriptors of the DMA are records in memory, linked in a ring
  by \<open>Buffer2NextDescAddr\<close>; the data of frames and of pbufs lie in the one byte memory of
  \<open>stack\<close>.  Of the registers the model has the DMA status, whose bits are cleared by writing
  ones, the two list addresses, the MAC address registers, and the order of the poll
  demands.  \<open>None\<close> is the use of a null pointer or a list that never ends.
\<close>

record dma_desc =
  Status :: u32
  ControlBufferSize :: u32
  Buffer1Addr :: nat
  Buffer2NextDescAddr :: nat

datatype poll_demand = DMATPDR | DMARPDR

record eth =
  stack :: pstate
  descs :: "nat \<Rightarrow> dma_desc"
  DMATxDescToSet :: nat
  DMARxDescToGet :: nat
  DMASR :: u32
  DMATDLAR :: nat
  DMARDLAR :: nat
  MACregs :: "u32 \<Rightarrow> u32"
  polls :: "poll_demand list"
  MACaddr :: "u8 list"

text \<open>The addresses the linker gives the arrays of \<open>ethernetif.c\<close>.\<close>

record eth_layout =
  DMARxDscrTab :: nat
  DMATxDscrTab :: nat
  Rx_Buff :: nat
  Tx_Buff :: nat

definition ETH_DMATxDesc_OWN :: u32 where "ETH_DMATxDesc_OWN = 0x80000000"
definition ETH_DMATxDesc_LS :: u32 where "ETH_DMATxDesc_LS = 0x20000000"
definition ETH_DMATxDesc_FS :: u32 where "ETH_DMATxDesc_FS = 0x10000000"
definition ETH_DMATxDesc_TCH :: u32 where "ETH_DMATxDesc_TCH = 0x00100000"
definition ETH_DMATxDesc_TBS1 :: u32 where "ETH_DMATxDesc_TBS1 = 0x00001FFF"
definition ETH_DMATxDesc_ChecksumTCPUDPICMPFull :: u32 where "ETH_DMATxDesc_ChecksumTCPUDPICMPFull = 0x00C00000"
definition ETH_DMARxDesc_OWN :: u32 where "ETH_DMARxDesc_OWN = 0x80000000"
definition ETH_DMARxDesc_FL :: u32 where "ETH_DMARxDesc_FL = 0x3FFF0000"
definition ETH_DMARxDesc_ES :: u32 where "ETH_DMARxDesc_ES = 0x00008000"
definition ETH_DMARxDesc_FS :: u32 where "ETH_DMARxDesc_FS = 0x00000200"
definition ETH_DMARxDesc_LS :: u32 where "ETH_DMARxDesc_LS = 0x00000100"
definition ETH_DMARxDesc_DIC :: u32 where "ETH_DMARxDesc_DIC = 0x80000000"
definition ETH_DMARxDesc_RCH :: u32 where "ETH_DMARxDesc_RCH = 0x00004000"
definition ETH_DMASR_RBUS :: u32 where "ETH_DMASR_RBUS = 0x00000080"
definition ETH_DMASR_TBUS :: u32 where "ETH_DMASR_TBUS = 0x00000004"
definition ETH_DMA_IT_R :: u32 where "ETH_DMA_IT_R = 0x00000040"
definition ETH_DMA_IT_NIS :: u32 where "ETH_DMA_IT_NIS = 0x00010000"
definition ETH_MAX_PACKET_SIZE :: nat where "ETH_MAX_PACKET_SIZE = 1520"
definition ETH_RXBUFNB :: nat where "ETH_RXBUFNB = 4"
definition ETH_TXBUFNB :: nat where "ETH_TXBUFNB = 2"
definition ETH_ERROR :: u32 where "ETH_ERROR = 0"
definition ETH_SUCCESS :: u32 where "ETH_SUCCESS = 1"
definition ETH_DMARxDesc_FrameLengthShift :: nat where "ETH_DMARxDesc_FrameLengthShift = 16"

lemmas desc_bits = ETH_DMATxDesc_OWN_def ETH_DMATxDesc_LS_def ETH_DMATxDesc_FS_def ETH_DMATxDesc_TCH_def
  ETH_DMATxDesc_TBS1_def ETH_DMATxDesc_ChecksumTCPUDPICMPFull_def ETH_DMARxDesc_OWN_def ETH_DMARxDesc_FL_def
  ETH_DMARxDesc_ES_def ETH_DMARxDesc_FS_def ETH_DMARxDesc_LS_def ETH_DMARxDesc_DIC_def ETH_DMARxDesc_RCH_def

section \<open>MAC addresses\<close>

definition ETH_MAC_ADDR_HBASE :: u32 where "ETH_MAC_ADDR_HBASE = 0x40028040"
definition ETH_MAC_ADDR_LBASE :: u32 where "ETH_MAC_ADDR_LBASE = 0x40028044"

definition ETH_MACAddressConfig :: "u32 \<Rightarrow> u8 list \<Rightarrow> eth \<Rightarrow> eth" where
  "ETH_MACAddressConfig MacAddr Addr s =
     (let h = push_bit 8 (ucast (Addr ! 5)) OR ucast (Addr ! 4);
          l = push_bit 24 (ucast (Addr ! 3)) OR push_bit 16 (ucast (Addr ! 2)) OR push_bit 8 (ucast (Addr ! 1)) OR ucast (Addr ! 0)
      in s\<lparr>MACregs := (MACregs s)(ETH_MAC_ADDR_HBASE + MacAddr := h, ETH_MAC_ADDR_LBASE + MacAddr := l)\<rparr>)"

definition ETH_GetMACAddress :: "u32 \<Rightarrow> eth \<Rightarrow> u8 list" where
  "ETH_GetMACAddress MacAddr s =
     (let h = MACregs s (ETH_MAC_ADDR_HBASE + MacAddr); l = MACregs s (ETH_MAC_ADDR_LBASE + MacAddr)
      in [ucast (l AND 0xFF), ucast (drop_bit 8 l AND 0xFF), ucast (drop_bit 16 l AND 0xFF), ucast (drop_bit 24 l AND 0xFF),
          ucast (h AND 0xFF), ucast (drop_bit 8 h AND 0xFF)])"

definition Set_MAC_Address :: "u8 list \<Rightarrow> eth \<Rightarrow> eth" where
  "Set_MAC_Address macadd s = ETH_MACAddressConfig 0 macadd (s\<lparr>MACaddr := take 6 macadd\<rparr>)"

section \<open>Descriptors\<close>

definition set_desc :: "nat \<Rightarrow> (dma_desc \<Rightarrow> dma_desc) \<Rightarrow> eth \<Rightarrow> eth" where
  "set_desc d f s = s\<lparr>descs := (descs s)(d := f (descs s d))\<rparr>"

text \<open>A descriptor has 16 bytes: \<open>DMATxDescTab + i\<close> is 16 * i bytes further on.\<close>

definition ETH_DMATxDescChainInit :: "nat \<Rightarrow> nat \<Rightarrow> nat \<Rightarrow> eth \<Rightarrow> eth" where
  "ETH_DMATxDescChainInit tab buf count s =
     (let s = s\<lparr>DMATxDescToSet := tab\<rparr>;
          s = fold (\<lambda>i. set_desc (tab + 16 * i) (\<lambda>d. d\<lparr>Status := ETH_DMATxDesc_TCH,
                 Buffer1Addr := buf + i * ETH_MAX_PACKET_SIZE,
                 Buffer2NextDescAddr := (if i < count - 1 then tab + 16 * (i + 1) else tab)\<rparr>)) [0..<count] s
      in s\<lparr>DMATDLAR := tab\<rparr>)"

definition ETH_DMARxDescChainInit :: "nat \<Rightarrow> nat \<Rightarrow> nat \<Rightarrow> eth \<Rightarrow> eth" where
  "ETH_DMARxDescChainInit tab buf count s =
     (let s = s\<lparr>DMARxDescToGet := tab\<rparr>;
          s = fold (\<lambda>i. set_desc (tab + 16 * i) (\<lambda>d. d\<lparr>Status := ETH_DMARxDesc_OWN,
                 ControlBufferSize := ETH_DMARxDesc_RCH OR of_nat ETH_MAX_PACKET_SIZE,
                 Buffer1Addr := buf + i * ETH_MAX_PACKET_SIZE,
                 Buffer2NextDescAddr := (if i < count - 1 then tab + 16 * (i + 1) else tab)\<rparr>)) [0..<count] s
      in s\<lparr>DMARDLAR := tab\<rparr>)"

definition ETH_DMARxDescReceiveITConfig :: "nat \<Rightarrow> bool \<Rightarrow> eth \<Rightarrow> eth" where
  "ETH_DMARxDescReceiveITConfig d enable =
     set_desc d (ControlBufferSize_update (\<lambda>c. if enable then c AND NOT ETH_DMARxDesc_DIC else c OR ETH_DMARxDesc_DIC))"

definition ETH_DMATxDescChecksumInsertionConfig :: "nat \<Rightarrow> u32 \<Rightarrow> eth \<Rightarrow> eth" where
  "ETH_DMATxDescChecksumInsertionConfig d checksum = set_desc d (Status_update (\<lambda>s. s OR checksum))"

text \<open>\<open>ETH_Start\<close> switches the MAC and the DMA on in registers the model does not have.\<close>

definition low_level_init :: "eth_layout \<Rightarrow> netif \<Rightarrow> eth \<Rightarrow> netif \<times> eth" where
  "low_level_init L n s =
     (let n = n\<lparr>hwaddr_len := 6, hwaddr := MACaddr s, mtu := 1500,
                flags := NETIF_FLAG_BROADCAST OR NETIF_FLAG_ETHARP OR NETIF_FLAG_LINK_UP\<rparr>;
          s = ETH_DMATxDescChainInit (DMATxDscrTab L) (Tx_Buff L) ETH_TXBUFNB s;
          s = ETH_DMARxDescChainInit (DMARxDscrTab L) (Rx_Buff L) ETH_RXBUFNB s;
          s = fold (\<lambda>i. ETH_DMARxDescReceiveITConfig (DMARxDscrTab L + 16 * i) True) [0..<ETH_RXBUFNB] s;
          s = fold (\<lambda>i. ETH_DMATxDescChecksumInsertionConfig (DMATxDscrTab L + 16 * i)
                 ETH_DMATxDesc_ChecksumTCPUDPICMPFull) [0..<ETH_TXBUFNB] s
      in (n, s))"

text \<open>
  The names and function pointers that \<open>ethernetif_init\<close> stores are constants; its private
  structure has 8 bytes.
\<close>

definition ethernetif_init :: "eth_layout \<Rightarrow> netif \<Rightarrow> eth \<Rightarrow> err_t \<times> netif \<times> eth" where
  "ethernetif_init L n s =
     (case mem_malloc 8 (mem_heap (stack s)) of
        (None, h) \<Rightarrow> (ERR_MEM, n, s\<lparr>stack := (stack s)\<lparr>mem_heap := h\<rparr>\<rparr>)
      | (Some _, h) \<Rightarrow> (ERR_OK, low_level_init L n (s\<lparr>stack := (stack s)\<lparr>mem_heap := h\<rparr>\<rparr>)))"

section \<open>Receiving\<close>

definition resume_rx :: "eth \<Rightarrow> eth" where
  "resume_rx s = (if DMASR s AND ETH_DMASR_RBUS \<noteq> 0
     then s\<lparr>DMASR := DMASR s AND NOT ETH_DMASR_RBUS, polls := polls s @ [DMARPDR]\<rparr> else s)"

record FrameTypeDef =
  frame_length :: u32
  frame_buffer :: nat
  frame_descriptor :: "nat option"

definition good_frame :: "u32 \<Rightarrow> bool" where
  "good_frame st \<longleftrightarrow> st AND ETH_DMARxDesc_ES = 0 \<and> st AND ETH_DMARxDesc_LS \<noteq> 0 \<and> st AND ETH_DMARxDesc_FS \<noteq> 0"

definition ETH_RxPkt_ChainMode :: "eth \<Rightarrow> FrameTypeDef \<times> eth" where
  "ETH_RxPkt_ChainMode s =
     (let d = DMARxDescToGet s; st = Status (descs s d) in
      if st AND ETH_DMARxDesc_OWN \<noteq> 0
      then (\<lparr>frame_length = ETH_ERROR, frame_buffer = 0, frame_descriptor = None\<rparr>, resume_rx s)
      else (if good_frame st
            then \<lparr>frame_length = drop_bit ETH_DMARxDesc_FrameLengthShift (st AND ETH_DMARxDesc_FL) - 4,
                  frame_buffer = Buffer1Addr (descs s d), frame_descriptor = Some d\<rparr>
            else \<lparr>frame_length = ETH_ERROR, frame_buffer = 0, frame_descriptor = Some d\<rparr>,
            s\<lparr>DMARxDescToGet := Buffer2NextDescAddr (descs s d)\<rparr>))"

partial_function (option) copy_in :: "nat option \<Rightarrow> nat \<Rightarrow> nat \<Rightarrow> pstate \<Rightarrow> pstate option" where
  "copy_in q buffer l s =
     (case q of None \<Rightarrow> Some s
      | Some a \<Rightarrow>
          (let n = unat (plen (pbs s a)) in
           copy_in (pnext (pbs s a)) buffer (l + n) (put_bytes (payload (pbs s a)) (area s (buffer + l) n) s)))"

text \<open>With nothing to receive the code writes through the null descriptor.\<close>

definition low_level_input :: "env \<Rightarrow> eth \<Rightarrow> (nat option \<times> eth) option" where
  "low_level_input e s =
     (let (frame, s) = ETH_RxPkt_ChainMode s in
      case pbuf_alloc e PBUF_RAW (ucast (frame_length frame)) PBUF_POOL (stack s) of
        None \<Rightarrow> None
      | Some (p, st) \<Rightarrow>
          (case copy_in p (frame_buffer frame) 0 st of
             None \<Rightarrow> None
           | Some st \<Rightarrow>
               (case frame_descriptor frame of
                  None \<Rightarrow> None
                | Some d \<Rightarrow> Some (p, resume_rx (set_desc d (Status_update (\<lambda>_. ETH_DMARxDesc_OWN)) (s\<lparr>stack := st\<rparr>))))))"

text \<open>\<open>input\<close> is \<open>netif->input\<close>, the entry of the stack.\<close>

definition ethernetif_input ::
  "env \<Rightarrow> (nat \<Rightarrow> pstate \<Rightarrow> (err_t \<times> pstate) option) \<Rightarrow> eth \<Rightarrow> (err_t \<times> eth) option" where
  "ethernetif_input e input s =
     (case low_level_input e s of
        None \<Rightarrow> None
      | Some (None, s) \<Rightarrow> Some (ERR_MEM, s)
      | Some (Some p, s) \<Rightarrow>
          (case input p (stack s) of
             None \<Rightarrow> None
           | Some (err, st) \<Rightarrow>
               if err \<noteq> ERR_OK
               then map_option (\<lambda>(_, st). (err, s\<lparr>stack := st\<rparr>)) (pbuf_free e (Some p) st)
               else Some (err, s\<lparr>stack := st\<rparr>)))"

definition ETH_GetDMARxDescFrameLength :: "dma_desc \<Rightarrow> u32" where
  "ETH_GetDMARxDescFrameLength d = drop_bit ETH_DMARxDesc_FrameLengthShift (Status d AND ETH_DMARxDesc_FL)"

definition ETH_GetRxPktSize :: "eth \<Rightarrow> u32" where
  "ETH_GetRxPktSize s =
     (let d = descs s (DMARxDescToGet s) in
      if Status d AND ETH_DMARxDesc_OWN = 0 \<and> good_frame (Status d) then ETH_GetDMARxDescFrameLength d else 0)"

partial_function (option) irq_loop ::
  "env \<Rightarrow> (nat \<Rightarrow> pstate \<Rightarrow> (err_t \<times> pstate) option) \<Rightarrow> eth \<Rightarrow> eth option" where
  "irq_loop e input s =
     (if ETH_GetRxPktSize s \<noteq> 0
      then Option.bind (ethernetif_input e input s) (\<lambda>(err, s). irq_loop e input s)
      else Some s)"

definition ETH_DMAClearITPendingBit :: "u32 \<Rightarrow> eth \<Rightarrow> eth" where
  "ETH_DMAClearITPendingBit it s = s\<lparr>DMASR := DMASR s AND NOT it\<rparr>"

definition ETH_IRQHandler ::
  "env \<Rightarrow> (nat \<Rightarrow> pstate \<Rightarrow> (err_t \<times> pstate) option) \<Rightarrow> eth \<Rightarrow> eth option" where
  "ETH_IRQHandler e input s =
     map_option (\<lambda>s. ETH_DMAClearITPendingBit ETH_DMA_IT_NIS (ETH_DMAClearITPendingBit ETH_DMA_IT_R s))
       (irq_loop e input s)"

section \<open>Sending\<close>

definition ETH_GetCurrentTxBuffer :: "eth \<Rightarrow> nat" where
  "ETH_GetCurrentTxBuffer s = Buffer1Addr (descs s (DMATxDescToSet s))"

definition ETH_TxPkt_ChainMode :: "u16 \<Rightarrow> eth \<Rightarrow> u32 \<times> eth" where
  "ETH_TxPkt_ChainMode FrameLength s =
     (let d = DMATxDescToSet s in
      if Status (descs s d) AND ETH_DMATxDesc_OWN \<noteq> 0 then (ETH_ERROR, s)
      else let s = set_desc d (ControlBufferSize_update (\<lambda>_. ucast FrameLength AND ETH_DMATxDesc_TBS1)) s;
               s = set_desc d (Status_update (\<lambda>st. st OR (ETH_DMATxDesc_LS OR ETH_DMATxDesc_FS))) s;
               s = set_desc d (Status_update (\<lambda>st. st OR ETH_DMATxDesc_OWN)) s;
               s = (if DMASR s AND ETH_DMASR_TBUS \<noteq> 0
                    then s\<lparr>DMASR := DMASR s AND NOT ETH_DMASR_TBUS, polls := polls s @ [DMATPDR]\<rparr> else s)
           in (ETH_SUCCESS, s\<lparr>DMATxDescToSet := Buffer2NextDescAddr (descs s d)\<rparr>))"

partial_function (option) copy_out :: "nat option \<Rightarrow> nat \<Rightarrow> nat \<Rightarrow> pstate \<Rightarrow> (nat \<times> pstate) option" where
  "copy_out q buffer l s =
     (case q of None \<Rightarrow> Some (l, s)
      | Some a \<Rightarrow>
          (let n = unat (plen (pbs s a)) in
           copy_out (pnext (pbs s a)) buffer (l + n) (put_bytes (buffer + l) (area s (payload (pbs s a)) n) s)))"

definition low_level_output :: "nat option \<Rightarrow> eth \<Rightarrow> (err_t \<times> eth) option" where
  "low_level_output p s =
     (case copy_out p (ETH_GetCurrentTxBuffer s) 0 (stack s) of
        None \<Rightarrow> None
      | Some (l, st) \<Rightarrow> Some (ERR_OK, snd (ETH_TxPkt_ChainMode (of_nat l) (s\<lparr>stack := st\<rparr>))))"

section \<open>Copying between frames and chains\<close>

text \<open>The data of a chain lie outside a region of memory.\<close>

definition clear_of :: "pstate \<Rightarrow> nat list \<Rightarrow> nat \<Rightarrow> nat \<Rightarrow> bool" where
  "clear_of s ps x n \<longleftrightarrow> (\<forall>b\<in>set ps. payload (pbs s b) + unat (plen (pbs s b)) \<le> x \<or> x + n \<le> payload (pbs s b))"

lemma put_bytes_Nil [simp]: "put_bytes d [] s = s"
proof -
  have "(\<lambda>a. if d \<le> a \<and> a < d + length ([] :: u8 list) then [] ! (a - d) else bytes s a) = bytes s"
    by (auto simp: fun_eq_iff)
  then show ?thesis unfolding put_bytes_def by simp
qed

lemma put_bytes_append: "put_bytes (d + length xs) ys (put_bytes d xs s) = put_bytes d (xs @ ys) s"
proof -
  have "bytes (put_bytes (d + length xs) ys (put_bytes d xs s)) = bytes (put_bytes d (xs @ ys) s)"
    by (auto simp: put_bytes_def fun_eq_iff nth_append diff_diff_left)
  then show ?thesis by (simp add: put_bytes_def)
qed

lemma area_append: "area s x (n + m) = area s x n @ area s (x + n) m"
proof -
  have "[x..<x + (n + m)] = [x..<x + n] @ [x + n..<x + n + m]"
    unfolding add.assoc [symmetric] by (rule upt_add_eq_append) simp
  then show ?thesis by (simp add: area_def)
qed

lemma area_0 [simp]: "area s x 0 = []"
  by (simp add: area_def)

lemma copy_in_ends:
  "chained s q ps \<Longrightarrow> \<exists>s'. copy_in q x l s = Some s' \<and> pbs s' = pbs s \<and> mem_pools s' = mem_pools s"
proof (induction ps arbitrary: q l s)
  case Nil
  then show ?case by (simp add: copy_in.simps)
next
  case (Cons a ps)
  let ?t = "put_bytes (payload (pbs s a)) (area s (x + l) (unat (plen (pbs s a)))) s"
  have "chained ?t (pnext (pbs s a)) ps" using Cons.prems by simp
  from Cons.IH [OF this] show ?case
    using Cons.prems by (subst copy_in.simps) (auto simp: Let_def put_bytes_def)
qed

lemma copy_in_take:
  "chained s q ps \<Longrightarrow> sorted_wrt (apart s) ps \<Longrightarrow> clear_of s ps (x + l) (length (content s ps))
    \<Longrightarrow> copy_in q x l s = take_loop q (area s (x + l) (length (content s ps))) s"
proof (induction ps arbitrary: q l s)
  case Nil
  then show ?case by (simp add: copy_in.simps take_loop.simps)
next
  case (Cons a ps)
  let ?n = "unat (plen (pbs s a))" and ?m = "length (content s ps)" and ?y = "payload (pbs s a)"
  define t where "t = put_bytes ?y (area s (x + l) ?n) s"
  have q: "q = Some a" and nx: "pnext (pbs t a) = pnext (pbs s a)" using Cons.prems(1) by (simp_all add: t_def)
  have c: "content t ps = content s ps"
    unfolding t_def by (rule content_put_other) (use Cons.prems(2) in \<open>fastforce simp: apart_def\<close>)
  have ar: "area t (x + (l + ?n)) ?m = area s (x + l + ?n) ?m"
    unfolding t_def add.assoc [symmetric]
    by (rule area_put_other) (use Cons.prems(3) in \<open>auto simp: clear_of_def add.assoc\<close>)
  have "apart t = apart s" by (simp add: t_def apart_def fun_eq_iff)
  then have "copy_in (pnext (pbs s a)) x (l + ?n) t = take_loop (pnext (pbs s a)) (area t (x + (l + ?n)) (length (content t ps))) t"
    using Cons.prems by (intro Cons.IH) (auto simp: t_def c [unfolded t_def] clear_of_def)
  also have "\<dots> = take_loop (pnext (pbs s a)) (area s (x + l + ?n) ?m) t" unfolding c ar ..
  finally have ih: "copy_in (pnext (pbs s a)) x (l + ?n) t = take_loop (pnext (pbs s a)) (area s (x + l + ?n) ?m) t" .
  have xs: "area s (x + l) (length (content s (a # ps))) = area s (x + l) ?n @ area s (x + l + ?n) ?m"
    by (simp add: area_append)
  have l1: "copy_in q x l s = take_loop (pnext (pbs s a)) (area s (x + l + ?n) ?m) t"
    using ih by (subst copy_in.simps) (simp add: q Let_def t_def)
  show ?case
  proof (cases "?n + ?m = 0")
    case True
    then show ?thesis using l1 unfolding xs by (simp add: take_loop.simps area_def t_def)
  next
    case False
    then have "take_loop q (area s (x + l) ?n @ area s (x + l + ?n) ?m) s = take_loop (pnext (pbs s a)) (area s (x + l + ?n) ?m) t"
      by (subst take_loop.simps) (auto simp: q Let_def t_def area_def)
    then show ?thesis using l1 unfolding xs by simp
  qed
qed

lemma copy_out_put:
  "chained s q ps \<Longrightarrow> clear_of s ps x (l + length (content s ps))
    \<Longrightarrow> copy_out q x l s = Some (l + length (content s ps), put_bytes (x + l) (content s ps) s)"
proof (induction ps arbitrary: q l s)
  case Nil
  then show ?case by (simp add: copy_out.simps)
next
  case (Cons a ps)
  let ?n = "unat (plen (pbs s a))" and ?xs = "area s (payload (pbs s a)) (unat (plen (pbs s a)))"
  let ?t = "put_bytes (x + l) ?xs s"
  have c: "content ?t ps = content s ps"
    by (rule content_put_other) (use Cons.prems(2) in \<open>auto simp: clear_of_def\<close>)
  have "copy_out (pnext (pbs s a)) x (l + ?n) ?t = Some (l + ?n + length (content ?t ps), put_bytes (x + (l + ?n)) (content ?t ps) ?t)"
    using Cons.prems c by (intro Cons.IH) (auto simp: clear_of_def)
  moreover have "put_bytes (x + (l + ?n)) (content s ps) ?t = put_bytes (x + l) (?xs @ content s ps) s"
    using put_bytes_append [of "x + l" ?xs] by (simp add: add.assoc)
  ultimately show ?case
    using Cons.prems(1) c by (subst copy_out.simps) (simp add: Let_def add.assoc)
qed

section \<open>A frame becomes a chain\<close>

definition rx_ready :: "dma_desc \<Rightarrow> bool" where
  "rx_ready d \<longleftrightarrow> Status d AND ETH_DMARxDesc_OWN = 0 \<and> good_frame (Status d) \<and> ETH_GetDMARxDescFrameLength d \<noteq> 0"

lemma GetRxPktSize_ready: "ETH_GetRxPktSize s \<noteq> 0 \<longleftrightarrow> rx_ready (descs s (DMARxDescToGet s))"
  by (auto simp: ETH_GetRxPktSize_def rx_ready_def Let_def)

lemma frame_length_less: "unat (ETH_GetDMARxDescFrameLength d) < 16384"
proof -
  have "unat (Status d AND ETH_DMARxDesc_FL) \<le> unat ETH_DMARxDesc_FL"
    using word_and_le1 [of "Status d" ETH_DMARxDesc_FL] by (simp add: word_le_nat_alt)
  then show ?thesis
    by (simp add: ETH_GetDMARxDescFrameLength_def ETH_DMARxDesc_FrameLengthShift_def ETH_DMARxDesc_FL_def
        drop_bit_eq_div unat_div)
qed

lemma payload_length:
  assumes "4 \<le> unat (ETH_GetDMARxDescFrameLength d)"
  shows "unat (ucast (ETH_GetDMARxDescFrameLength d - 4) :: u16) = unat (ETH_GetDMARxDescFrameLength d) - 4"
proof -
  have "unat (ETH_GetDMARxDescFrameLength d - 4) = unat (ETH_GetDMARxDescFrameLength d) - 4"
    using assms by (simp add: unat_sub word_le_nat_alt)
  then show ?thesis using frame_length_less [of d] by (simp add: unsigned_ucast_eq take_bit_eq_mod)
qed

lemma RxPkt_ready:
  assumes "rx_ready (descs s (DMARxDescToGet s))"
  shows "ETH_RxPkt_ChainMode s =
    (let d = descs s (DMARxDescToGet s) in
     (\<lparr>frame_length = ETH_GetDMARxDescFrameLength d - 4, frame_buffer = Buffer1Addr d, frame_descriptor = Some (DMARxDescToGet s)\<rparr>,
      s\<lparr>DMARxDescToGet := Buffer2NextDescAddr d\<rparr>))"
  using assms by (simp add: ETH_RxPkt_ChainMode_def rx_ready_def Let_def ETH_GetDMARxDescFrameLength_def)

lemma resume_rx_simps [simp]:
  "descs (resume_rx s) = descs s" "stack (resume_rx s) = stack s" "DMARxDescToGet (resume_rx s) = DMARxDescToGet s"
  by (simp_all add: resume_rx_def)

lemma set_desc_simps [simp]:
  "descs (set_desc d f s) = (descs s)(d := f (descs s d))" "stack (set_desc d f s) = stack s"
  "DMARxDescToGet (set_desc d f s) = DMARxDescToGet s" "DMATxDescToSet (set_desc d f s) = DMATxDescToSet s"
  "DMASR (set_desc d f s) = DMASR s"
  by (simp_all add: set_desc_def)

text \<open>The data areas of the pool's elements are apart from each other and from a region.\<close>

definition spaced :: "nat list \<Rightarrow> nat \<Rightarrow> nat \<Rightarrow> bool" where
  "spaced fl x n \<longleftrightarrow> (\<forall>a\<in>set fl. 4 dvd a \<and> (a + SIZEOF_STRUCT_PBUF + PBUF_POOL_BUFSIZE_ALIGNED \<le> x \<or> x + n \<le> a + SIZEOF_STRUCT_PBUF))
     \<and> sorted_wrt (\<lambda>a b. a + SIZEOF_STRUCT_PBUF + PBUF_POOL_BUFSIZE_ALIGNED \<le> b \<or> b + SIZEOF_STRUCT_PBUF + PBUF_POOL_BUFSIZE_ALIGNED \<le> a) fl"

lemma spaced_fresh:
  assumes "fresh s ps" "spaced (ps @ rest) x n"
  shows "sorted_wrt (apart s) ps" "clear_of s ps x n"
proof -
  have "sorted_wrt (\<lambda>a b. a + SIZEOF_STRUCT_PBUF + PBUF_POOL_BUFSIZE_ALIGNED \<le> b
      \<or> b + SIZEOF_STRUCT_PBUF + PBUF_POOL_BUFSIZE_ALIGNED \<le> a) ps"
    using assms(2) by (simp add: spaced_def sorted_wrt_append)
  then show "sorted_wrt (apart s) ps"
  proof (rule sorted_wrt_mono_rel [rotated])
    fix a b assume "a \<in> set ps" "b \<in> set ps"
      and ab: "a + SIZEOF_STRUCT_PBUF + PBUF_POOL_BUFSIZE_ALIGNED \<le> b \<or> b + SIZEOF_STRUCT_PBUF + PBUF_POOL_BUFSIZE_ALIGNED \<le> a"
    then have "payload (pbs s a) = a + SIZEOF_STRUCT_PBUF" "unat (plen (pbs s a)) \<le> PBUF_POOL_BUFSIZE_ALIGNED"
        "payload (pbs s b) = b + SIZEOF_STRUCT_PBUF" "unat (plen (pbs s b)) \<le> PBUF_POOL_BUFSIZE_ALIGNED"
      using assms(1) by (simp_all add: fresh_def)
    then show "apart s a b" using ab unfolding apart_def by linarith
  qed
  show "clear_of s ps x n"
    unfolding clear_of_def
  proof
    fix b assume b: "b \<in> set ps"
    then have "payload (pbs s b) = b + SIZEOF_STRUCT_PBUF" "unat (plen (pbs s b)) \<le> PBUF_POOL_BUFSIZE_ALIGNED"
      using assms(1) by (simp_all add: fresh_def)
    moreover have "b + SIZEOF_STRUCT_PBUF + PBUF_POOL_BUFSIZE_ALIGNED \<le> x \<or> x + n \<le> b + SIZEOF_STRUCT_PBUF"
      using assms(2) b by (simp add: spaced_def)
    ultimately show "payload (pbs s b) + unat (plen (pbs s b)) \<le> x \<or> x + n \<le> payload (pbs s b)" by linarith
  qed
qed

text \<open>
  C39: A frame the DMA has delivered becomes a chain of pool buffers that holds exactly the bytes
  of the frame without its checksum, over as many buffers as it needs; the descriptor
  goes back to the DMA and the next one becomes current.
\<close>

theorem low_level_input_delivers:
  assumes "rx_ready (descs s (DMARxDescToGet s))" "4 \<le> unat (ETH_GetDMARxDescFrameLength (descs s (DMARxDescToGet s)))"
    and "pool_free e (mem_pools (stack s)) fl" "fl \<noteq> []"
    and "n = unat (ETH_GetDMARxDescFrameLength (descs s (DMARxDescToGet s))) - 4" "n \<le> PBUF_POOL_BUFSIZE_ALIGNED * length fl"
    and "spaced fl (Buffer1Addr (descs s (DMARxDescToGet s))) n"
  shows "\<exists>p ps rest s'. low_level_input e s = Some (Some p, s') \<and> fl = p # ps @ rest \<and> pool_free e (mem_pools (stack s')) rest
    \<and> linked (\<lambda>a. pnext (pbs (stack s') a)) (Some p) (p # ps) \<and> tots (stack s') (p # ps)
    \<and> content (stack s') (p # ps) = area (stack s) (Buffer1Addr (descs s (DMARxDescToGet s))) n
    \<and> descs s' = (descs s)(DMARxDescToGet s := (descs s (DMARxDescToGet s))\<lparr>Status := ETH_DMARxDesc_OWN\<rparr>)
    \<and> DMARxDescToGet s' = Buffer2NextDescAddr (descs s (DMARxDescToGet s))"
proof -
  let ?d = "descs s (DMARxDescToGet s)"
  let ?len = "ucast (ETH_GetDMARxDescFrameLength ?d - 4) :: u16" and ?x = "Buffer1Addr ?d"
  have len: "unat ?len = n" using payload_length [OF assms(2)] assms(5) by simp
  have "unat ?len \<le> PBUF_POOL_BUFSIZE_ALIGNED * length fl" "4 dvd hd fl"
    using assms(4,6,7) len by (auto simp: spaced_def)
  from pbuf_alloc_pool [OF assms(3,4) this] obtain p ps rest t where
    a: "pbuf_alloc e PBUF_RAW ?len PBUF_POOL (stack s) = Some (Some p, t)" "fl = p # ps @ rest"
      "pool_free e (mem_pools t) rest" "bytes t = bytes (stack s)" "chained t (Some p) (p # ps)"
      "fresh t (p # ps)" "length (content t (p # ps)) = unat ?len" "tots t (p # ps)"
    by metis
  have sp: "spaced ((p # ps) @ rest) ?x n" using assms(7) a(2) by simp
  note ap = spaced_fresh [OF a(6) sp]
  have take: "copy_in (Some p) ?x 0 t = take_loop (Some p) (area t ?x n) t"
    using copy_in_take [OF a(5) ap(1), of ?x 0] ap(2) a(7) len by simp
  obtain t' where t': "take_loop (Some p) (area t ?x n) t = Some t'" "pbs t' = pbs t"
      "content t' (p # ps) = area t ?x n @ drop (length (area t ?x n)) (content t (p # ps))"
    using take_loop_chain [OF a(5) ap(1), of "area t ?x n"] a(7) len by auto
  have mp: "mem_pools t' = mem_pools t"
    using copy_in_ends [OF a(5), of ?x 0] take t'(1) by auto
  have c: "content t' (p # ps) = area (stack s) ?x n"
    using t'(3) a(4,7) len by (simp add: area_def)
  have len': "length (content t' zs) = length (content t zs)" for zs by (simp add: length_content t'(2))
  have tt: "tots t' zs = tots t zs" for zs by (induction zs) (simp_all add: t'(2) len')
  define s' where "s' = resume_rx (set_desc (DMARxDescToGet s) (Status_update (\<lambda>_. ETH_DMARxDesc_OWN))
      (s\<lparr>DMARxDescToGet := Buffer2NextDescAddr ?d, stack := t'\<rparr>))"
  have "low_level_input e s = Some (Some p, s')"
    using a(1) take t'(1) unfolding low_level_input_def RxPkt_ready [OF assms(1)]
    by (simp add: Let_def s'_def)
  moreover have "stack s' = t'" by (simp add: s'_def)
  moreover have "descs s' = (descs s)(DMARxDescToGet s := ?d\<lparr>Status := ETH_DMARxDesc_OWN\<rparr>)"
      "DMARxDescToGet s' = Buffer2NextDescAddr ?d"
    by (simp_all add: s'_def)
  moreover have "chained t' (Some p) (p # ps)" using a(5) t'(2) by simp
  moreover have "tots t' (p # ps)" using a(8) tt by blast
  moreover have "pool_free e (mem_pools t') rest" using a(3) mp by simp
  ultimately show ?thesis using a(2) c by blast
qed

text \<open>One descriptor with a frame of 3 bytes, its only neighbour itself, and a pool of one buffer.\<close>

definition rx_env :: env where
  "rx_env = \<lparr>pools = [(1, 1516)], MEMP_PBUF = 0, MEMP_PBUF_POOL = 0, ram_base = 10000\<rparr>"

definition rx_example :: eth where
  "rx_example = \<lparr>stack = two_pbufs\<lparr>mem_pools := \<lparr>memp_tab = (\<lambda>_. Some 100), memp_next = (\<lambda>_. None)\<rparr>\<rparr>,
     descs = (\<lambda>_. \<lparr>Status = 0x00070300, ControlBufferSize = 0x45F0, Buffer1Addr = 4000, Buffer2NextDescAddr = 16\<rparr>),
     DMATxDescToSet = 32, DMARxDescToGet = 16, DMASR = 0, DMATDLAR = 32, DMARDLAR = 16, MACregs = (\<lambda>_. 0),
     polls = [], MACaddr = []\<rparr>"

lemma rx_example_ready: "rx_ready (descs rx_example 16)" "ETH_GetDMARxDescFrameLength (descs rx_example 16) = 7"
  by (simp_all add: rx_example_def rx_ready_def good_frame_def desc_bits ETH_GetDMARxDescFrameLength_def
      ETH_DMARxDesc_FrameLengthShift_def)

lemma rx_example_pool: "pool_free rx_env (mem_pools (stack rx_example)) [100]"
  by (simp add: pool_free_def rx_env_def rx_example_def)

theorem low_level_input_delivers_witness:
  "\<exists>p s'. low_level_input rx_env rx_example = Some (Some p, s') \<and> content (stack s') [p] = [160, 161, 162]"
proof -
  have r: "DMARxDescToGet rx_example = 16" "Buffer1Addr (descs rx_example 16) = 4000" by (simp_all add: rx_example_def)
  have sp: "spaced [100] 4000 3" by (simp add: spaced_def SIZEOF_STRUCT_PBUF_def PBUF_POOL_BUFSIZE_ALIGNED_def)
  have c: "area (stack rx_example) 4000 3 = [160, 161, 162]"
    by (simp add: rx_example_def two_pbufs_def area_def upt_rec)
  show ?thesis
    using low_level_input_delivers [of rx_example rx_env "[100]" 3, unfolded r rx_example_ready(2) c]
      rx_example_ready(1) rx_example_pool sp
    by (auto simp: PBUF_POOL_BUFSIZE_ALIGNED_def)
qed

section \<open>The interrupt handler\<close>

text \<open>
  What \<open>netif->input\<close> gets: a chain of pool buffers of its own, apart from the free ones.  It keeps
  the chain or releases it and in any case answers \<open>ERR_OK\<close>, as \<open>ethernet_input\<close> does.
\<close>

definition pool_ok :: "env \<Rightarrow> pstate \<Rightarrow> bool" where
  "pool_ok e st \<longleftrightarrow> (\<exists>fl. pool_free e (mem_pools st) fl \<and> (\<forall>a\<in>set fl. 4 dvd a))"

definition takes_chain :: "env \<Rightarrow> (nat \<Rightarrow> pstate \<Rightarrow> (err_t \<times> pstate) option) \<Rightarrow> bool" where
  "takes_chain e input \<longleftrightarrow> (\<forall>p ps fl st. chained st (Some p) (p # ps) \<and> owned st (p # ps) \<and> pool_free e (mem_pools st) fl
      \<and> distinct (p # ps @ fl) \<and> (\<forall>a\<in>set (p # ps @ fl). 4 dvd a)
    \<longrightarrow> (\<exists>st'. input p st = Some (ERR_OK, st') \<and> pool_ok e st'))"

lemma pbuf_free_takes_chain:
  "takes_chain e (\<lambda>p st. map_option (\<lambda>(n, st). (ERR_OK, st)) (pbuf_free e (Some p) st))"
  unfolding takes_chain_def
proof (intro allI impI)
  fix p ps fl st
  assume a: "chained st (Some p) (p # ps) \<and> owned st (p # ps) \<and> pool_free e (mem_pools st) fl
      \<and> distinct (p # ps @ fl) \<and> (\<forall>a\<in>set (p # ps @ fl). 4 dvd a)"
  then obtain n st' where "pbuf_free e (Some p) st = Some (n, st')" "pool_free e (mem_pools st') (rev (p # ps) @ fl)"
    using free_owned [of st p "p # ps" e fl] by auto
  moreover from this a have "pool_ok e st'" unfolding pool_ok_def by (intro exI [of _ "rev (p # ps) @ fl"]) auto
  ultimately show "\<exists>st'. map_option (\<lambda>(n, st). (ERR_OK, st)) (pbuf_free e (Some p) st) = Some (ERR_OK, st') \<and> pool_ok e st'"
    by simp
qed

text \<open>One frame: whether the pool has room or not, its descriptor goes back and the next is current.\<close>

lemma ethernetif_input_step:
  assumes "rx_ready (descs s (DMARxDescToGet s))" "pool_ok e (stack s)" "takes_chain e input"
  shows "\<exists>err s'. ethernetif_input e input s = Some (err, s') \<and> pool_ok e (stack s')
    \<and> descs s' = (descs s)(DMARxDescToGet s := (descs s (DMARxDescToGet s))\<lparr>Status := ETH_DMARxDesc_OWN\<rparr>)
    \<and> DMARxDescToGet s' = Buffer2NextDescAddr (descs s (DMARxDescToGet s))"
proof -
  let ?d = "descs s (DMARxDescToGet s)"
  let ?len = "ucast (ETH_GetDMARxDescFrameLength ?d - 4) :: u16" and ?x = "Buffer1Addr ?d"
  define up where "up t = resume_rx (set_desc (DMARxDescToGet s) (Status_update (\<lambda>_. ETH_DMARxDesc_OWN))
      (s\<lparr>DMARxDescToGet := Buffer2NextDescAddr ?d, stack := t\<rparr>))" for t
  have up: "descs (up t) = (descs s)(DMARxDescToGet s := ?d\<lparr>Status := ETH_DMARxDesc_OWN\<rparr>)"
      "DMARxDescToGet (up t) = Buffer2NextDescAddr ?d" "stack (up t) = t" for t
    by (simp_all add: up_def)
  obtain fl where fl: "pool_free e (mem_pools (stack s)) fl" "\<forall>a\<in>set fl. 4 dvd a"
    using assms(2) by (auto simp: pool_ok_def)
  show ?thesis
  proof (cases "fl = [] \<or> PBUF_POOL_BUFSIZE_ALIGNED * length fl < unat ?len")
    case True
    from pbuf_alloc_fails [OF fl(1) True] obtain t fl' where
      t: "pbuf_alloc e PBUF_RAW ?len PBUF_POOL (stack s) = Some (None, t)" "pool_free e (mem_pools t) fl'" "set fl' = set fl"
      by blast
    have "ethernetif_input e input s = Some (ERR_MEM, up t)"
      using t(1) unfolding ethernetif_input_def low_level_input_def RxPkt_ready [OF assms(1)]
      by (simp add: Let_def copy_in.simps up_def)
    moreover have "pool_ok e t" using t(2,3) fl(2) by (auto simp: pool_ok_def)
    ultimately show ?thesis using up by auto
  next
    case False
    then have "fl \<noteq> []" "unat ?len \<le> PBUF_POOL_BUFSIZE_ALIGNED * length fl" "4 dvd hd fl"
      using fl(2) by auto
    from pbuf_alloc_pool [OF fl(1) this] obtain p ps rest t where
      a: "pbuf_alloc e PBUF_RAW ?len PBUF_POOL (stack s) = Some (Some p, t)" "fl = p # ps @ rest"
        "pool_free e (mem_pools t) rest" "chained t (Some p) (p # ps)" "fresh t (p # ps)"
      by metis
    obtain t' where t': "copy_in (Some p) ?x 0 t = Some t'" "pbs t' = pbs t" "mem_pools t' = mem_pools t"
      using copy_in_ends [OF a(4)] by blast
    have "\<exists>st'. input p t' = Some (ERR_OK, st') \<and> pool_ok e st'"
      using assms(3) a fl t'(2,3) unfolding takes_chain_def
      by (elim allE [of _ p] allE [of _ ps] allE [of _ rest] allE [of _ t'] impE)
        (auto simp: fresh_def owned_def pool_free_def)
    then obtain st' where st': "input p t' = Some (ERR_OK, st')" "pool_ok e st'" by blast
    have "low_level_input e s = Some (Some p, up t')"
      using a(1) t'(1) unfolding low_level_input_def RxPkt_ready [OF assms(1)] by (simp add: Let_def up_def)
    then have "ethernetif_input e input s = Some (ERR_OK, (up t')\<lparr>stack := st'\<rparr>)"
      using st'(1) by (simp add: ethernetif_input_def up)
    then show ?thesis using st'(2) up by auto
  qed
qed

text \<open>A path of descriptors, as the next pointers link them.\<close>

fun walk :: "(nat \<Rightarrow> nat) \<Rightarrow> nat \<Rightarrow> nat list \<Rightarrow> nat \<Rightarrow> bool" where
  "walk nxt a [] b = (a = b)"
| "walk nxt a (x # xs) b = (a = x \<and> walk nxt (nxt x) xs b)"

lemma walk_append: "walk nxt a (xs @ y # ys) b \<longleftrightarrow> walk nxt a xs y \<and> walk nxt (nxt y) ys b"
  by (induction xs arbitrary: a) auto

lemma owned_not_ready: "\<not> rx_ready (d\<lparr>Status := ETH_DMARxDesc_OWN\<rparr>)"
  by (simp add: rx_ready_def desc_bits)

lemma irq_loop_walk:
  assumes "walk (\<lambda>d. Buffer2NextDescAddr (descs s d)) (DMARxDescToGet s) xs y" "distinct xs"
    and "\<forall>d\<in>set xs. rx_ready (descs s d)" "y \<in> set xs \<or> \<not> rx_ready (descs s y)"
    and "pool_ok e (stack s)" "takes_chain e input"
  shows "\<exists>s'. irq_loop e input s = Some s' \<and> DMARxDescToGet s' = y \<and> pool_ok e (stack s')
    \<and> descs s' = (\<lambda>d. if d \<in> set xs then (descs s d)\<lparr>Status := ETH_DMARxDesc_OWN\<rparr> else descs s d)"
  using assms
proof (induction xs arbitrary: s)
  case Nil
  then show ?case by (subst irq_loop.simps) (simp add: GetRxPktSize_ready)
next
  case (Cons x xs)
  have x: "DMARxDescToGet s = x" "rx_ready (descs s x)" using Cons.prems(1,3) by auto
  obtain err t where t: "ethernetif_input e input s = Some (err, t)" "pool_ok e (stack t)"
      "descs t = (descs s)(x := (descs s x)\<lparr>Status := ETH_DMARxDesc_OWN\<rparr>)"
      "DMARxDescToGet t = Buffer2NextDescAddr (descs s x)"
    using ethernetif_input_step [of s e input] x Cons.prems(5,6) by auto
  have nxt: "(\<lambda>d. Buffer2NextDescAddr (descs t d)) = (\<lambda>d. Buffer2NextDescAddr (descs s d))" by (auto simp: t(3))
  have "\<exists>s'. irq_loop e input t = Some s' \<and> DMARxDescToGet s' = y \<and> pool_ok e (stack s')
    \<and> descs s' = (\<lambda>d. if d \<in> set xs then (descs t d)\<lparr>Status := ETH_DMARxDesc_OWN\<rparr> else descs t d)"
  proof (rule Cons.IH)
    show "walk (\<lambda>d. Buffer2NextDescAddr (descs t d)) (DMARxDescToGet t) xs y"
      unfolding nxt t(4) using Cons.prems(1) by simp
    show "\<forall>d\<in>set xs. rx_ready (descs t d)" using Cons.prems(2,3) by (auto simp: t(3))
    show "y \<in> set xs \<or> \<not> rx_ready (descs t y)" using Cons.prems(4) owned_not_ready by (auto simp: t(3))
  qed (use Cons.prems t(2) in auto)
  moreover have "irq_loop e input s = irq_loop e input t"
    using x t(1) by (subst irq_loop.simps) (simp add: GetRxPktSize_ready)
  ultimately show ?case using Cons.prems(2) by (auto simp: t(3) fun_eq_iff)
qed

text \<open>
  The interrupt handler returns, and has then taken exactly the frames that lie before the
  first descriptor that is not a complete good frame, at most one round of the ring: those
  descriptors are the DMA's again, all others are as they were.  In particular a descriptor that
  the DMA gave back with an error, or with a part of a longer frame, is never passed.
\<close>

theorem ETH_IRQHandler_takes_ready:
  assumes "walk (\<lambda>d. Buffer2NextDescAddr (descs s d)) (DMARxDescToGet s) ds (DMARxDescToGet s)" "distinct ds" "ds \<noteq> []"
    and "pool_ok e (stack s)" "takes_chain e input"
  shows "\<exists>s'. ETH_IRQHandler e input s = Some s'
    \<and> (let k = length (takeWhile (\<lambda>d. rx_ready (descs s d)) ds) in
       DMARxDescToGet s' = (if k < length ds then ds ! k else hd ds)
       \<and> descs s' = (\<lambda>d. if d \<in> set (take k ds) then (descs s d)\<lparr>Status := ETH_DMARxDesc_OWN\<rparr> else descs s d)
       \<and> (\<not> rx_ready (descs s (hd ds)) \<longrightarrow> DMARxDescToGet s' = DMARxDescToGet s \<and> descs s' = descs s))"
proof -
  let ?P = "\<lambda>d. rx_ready (descs s d)" and ?nxt = "\<lambda>d. Buffer2NextDescAddr (descs s d)"
  define k where "k = length (takeWhile ?P ds)"
  have tk: "takeWhile ?P ds = take k ds" unfolding k_def by (rule takeWhile_eq_take)
  have ready: "\<forall>d\<in>set (take k ds). ?P d" unfolding tk [symmetric] by (auto dest: set_takeWhileD)
  have hd: "DMARxDescToGet s = hd ds" using assms(1,3) by (cases ds) auto
  let ?y = "if k < length ds then ds ! k else hd ds"
  have "walk ?nxt (DMARxDescToGet s) (take k ds) ?y \<and> (?y \<in> set (take k ds) \<or> \<not> ?P ?y)"
  proof (cases "k < length ds")
    case True
    then have "ds = take k ds @ ds ! k # drop (Suc k) ds" by (rule id_take_nth_drop)
    then have "walk ?nxt (DMARxDescToGet s) (take k ds) (ds ! k)" using assms(1) walk_append by metis
    moreover have "\<not> ?P (ds ! k)" using nth_length_takeWhile [of ?P ds] True by (simp add: k_def)
    ultimately show ?thesis using True by simp
  next
    case False
    then show ?thesis using assms(1,3) hd by simp
  qed
  then obtain s1 where s1: "irq_loop e input s = Some s1" "DMARxDescToGet s1 = ?y"
      "descs s1 = (\<lambda>d. if d \<in> set (take k ds) then (descs s d)\<lparr>Status := ETH_DMARxDesc_OWN\<rparr> else descs s d)"
    using irq_loop_walk [of s "take k ds" ?y e input] assms(2,4,5) ready by auto
  have "k = 0" if "\<not> ?P (hd ds)" using that assms(3) unfolding k_def by (cases ds) auto
  then show ?thesis
    using s1 hd assms(3) unfolding k_def [symmetric] Let_def
    by (auto simp: ETH_IRQHandler_def ETH_DMAClearITPendingBit_def hd_conv_nth)
qed

theorem ETH_IRQHandler_takes_ready_witness:
  "\<exists>s'. ETH_IRQHandler rx_env (\<lambda>p st. map_option (\<lambda>(n, st). (ERR_OK, st)) (pbuf_free rx_env (Some p) st)) rx_example = Some s'
    \<and> DMARxDescToGet s' = 16 \<and> Status (descs s' 16) = ETH_DMARxDesc_OWN"
proof -
  have w: "walk (\<lambda>d. Buffer2NextDescAddr (descs rx_example d)) (DMARxDescToGet rx_example) [16] (DMARxDescToGet rx_example)"
    by (simp add: rx_example_def)
  have p: "pool_ok rx_env (stack rx_example)"
    unfolding pool_ok_def using rx_example_pool by (intro exI [of _ "[100]"]) simp
  show ?thesis
    using ETH_IRQHandler_takes_ready [OF w _ _ p pbuf_free_takes_chain] rx_example_ready(1)
    by (auto simp: Let_def)
qed

section \<open>A chain becomes a frame\<close>

text \<open>
  C40: \<open>low_level_output\<close> writes the bytes of the chain to the current transmit buffer in any
  case.  If the descriptor is the driver's, it is handed to the DMA as one whole frame of that
  length, its checksum insertion kept, and the next descriptor becomes current.  If the DMA still
  owns it, the frame being sent has been overwritten and none is queued; the answer is
  \<open>ERR_OK\<close> all the same.
\<close>

theorem low_level_output_queues:
  assumes "linked (\<lambda>a. pnext (pbs (stack s) a)) p ps" "length (content (stack s) ps) \<le> ETH_MAX_PACKET_SIZE"
    and "clear_of (stack s) ps (ETH_GetCurrentTxBuffer s) (length (content (stack s) ps))"
  shows "\<exists>s'. low_level_output p s = Some (ERR_OK, s')
    \<and> area (stack s') (ETH_GetCurrentTxBuffer s) (length (content (stack s) ps)) = content (stack s) ps
    \<and> (let d = DMATxDescToSet s in
       if Status (descs s d) AND ETH_DMATxDesc_OWN = 0
       then descs s' = (descs s)(d := (descs s d)\<lparr>ControlBufferSize := of_nat (length (content (stack s) ps)),
                Status := Status (descs s d) OR ETH_DMATxDesc_OWN OR ETH_DMATxDesc_LS OR ETH_DMATxDesc_FS\<rparr>)
            \<and> DMATxDescToSet s' = Buffer2NextDescAddr (descs s d)
       else descs s' = descs s \<and> DMATxDescToSet s' = d)"
proof -
  let ?d = "DMATxDescToSet s" and ?x = "ETH_GetCurrentTxBuffer s" and ?xs = "content (stack s) ps"
  define st where "st = put_bytes ?x ?xs (stack s)"
  define s' where "s' = snd (ETH_TxPkt_ChainMode (of_nat (length ?xs)) (s\<lparr>stack := st\<rparr>))"
  have "copy_out p ?x 0 (stack s) = Some (length ?xs, st)"
    using copy_out_put [OF assms(1), of ?x 0] assms(3) by (simp add: st_def)
  then have out: "low_level_output p s = Some (ERR_OK, s')" by (simp add: low_level_output_def s'_def)
  have "stack s' = st" by (simp add: s'_def ETH_TxPkt_ChainMode_def Let_def)
  then have mem: "area (stack s') ?x (length ?xs) = ?xs" using area_put_same [of ?xs "length ?xs" ?x] by (simp add: st_def)
  have mask: "(ucast (of_nat (length ?xs) :: u16) :: u32) AND ETH_DMATxDesc_TBS1 = of_nat (length ?xs)"
  proof -
    have l: "length ?xs < 8192" using assms(2) by (simp add: ETH_MAX_PACKET_SIZE_def)
    have "ETH_DMATxDesc_TBS1 = mask 13" by (simp add: ETH_DMATxDesc_TBS1_def mask_eq_exp_minus_1)
    then have "(ucast (of_nat (length ?xs) :: u16) :: u32) AND ETH_DMATxDesc_TBS1
        = take_bit 13 (ucast (of_nat (length ?xs) :: u16) :: u32)" by (simp add: take_bit_eq_mask)
    also have "\<dots> = of_nat (length ?xs)"
      using l unfolding word_unat_eq_iff unsigned_take_bit_eq unsigned_ucast_eq
      by (simp add: take_bit_eq_mod unat_of_nat)
    finally show ?thesis .
  qed
  show ?thesis
  proof (intro exI conjI)
    show "let d = ?d in
       if Status (descs s d) AND ETH_DMATxDesc_OWN = 0
       then descs s' = (descs s)(d := (descs s d)\<lparr>ControlBufferSize := of_nat (length ?xs),
                Status := Status (descs s d) OR ETH_DMATxDesc_OWN OR ETH_DMATxDesc_LS OR ETH_DMATxDesc_FS\<rparr>)
            \<and> DMATxDescToSet s' = Buffer2NextDescAddr (descs s d)
       else descs s' = descs s \<and> DMATxDescToSet s' = d"
    proof (cases "Status (descs s ?d) AND ETH_DMATxDesc_OWN = 0")
      case True
      then show ?thesis using mask
        by (cases "descs s ?d") (simp add: s'_def ETH_TxPkt_ChainMode_def Let_def or.assoc or.left_commute or.commute)
    qed (simp add: s'_def ETH_TxPkt_ChainMode_def Let_def)
  qed (use out mem in auto)
qed

definition tx_example :: eth where
  "tx_example = rx_example\<lparr>stack := two_pbufs, descs := (\<lambda>_. \<lparr>Status = 0x00D00000, ControlBufferSize = 0,
     Buffer1Addr = 4000, Buffer2NextDescAddr = 48\<rparr>)\<rparr>"

theorem low_level_output_queues_witness:
  "\<exists>s'. low_level_output (Some 100) tx_example = Some (ERR_OK, s')
    \<and> area (stack s') 4000 5 = [116, 117, 216, 217, 218] \<and> Status (descs s' 32) = 0xB0D00000 \<and> DMATxDescToSet s' = 48"
proof -
  have st: "stack tx_example = two_pbufs" "ETH_GetCurrentTxBuffer tx_example = 4000" "DMATxDescToSet tx_example = 32"
      "descs tx_example 32 = \<lparr>Status = 0x00D00000, ControlBufferSize = 0, Buffer1Addr = 4000, Buffer2NextDescAddr = 48\<rparr>"
    by (simp_all add: tx_example_def ETH_GetCurrentTxBuffer_def rx_example_def)
  have c: "content two_pbufs [100, 200] = [116, 117, 216, 217, 218]"
    by (simp add: two_pbufs_def area_def upt_rec)
  have cl: "clear_of two_pbufs [100, 200] 4000 5" by (simp add: clear_of_def two_pbufs_def)
  have l: "length [116, 117, 216, 217, 218 :: u8] = 5" by simp
  from low_level_output_queues [of tx_example "Some 100" "[100, 200]", unfolded st c l, OF two_pbufs_chain(1) _ cl]
  obtain s' where "low_level_output (Some 100) tx_example = Some (ERR_OK, s')"
      "area (stack s') 4000 5 = [116, 117, 216, 217, 218]"
      "Status (descs s' 32) = 0xB0D00000 \<and> DMATxDescToSet s' = 48"
    by (auto simp: ETH_MAX_PACKET_SIZE_def desc_bits Let_def st(4))
  then show ?thesis by blast
qed

section \<open>Addresses and the initial ring\<close>

text \<open>The MAC address registers give back the address they were set to, and leave the other three alone.\<close>

lemma MAC_address_back:
  assumes "length a = 6"
  shows "ETH_GetMACAddress m (ETH_MACAddressConfig m a s) = a"
proof -
  obtain b0 b1 b2 b3 b4 b5 where a: "a = [b0, b1, b2, b3, b4, b5]"
    using assms by (auto simp: length_Suc_conv eval_nat_numeral)
  have ff: "(0xFF :: u32) = mask 8" by (simp add: mask_eq_exp_minus_1)
  define h l where "h = (push_bit 8 (ucast b5) OR ucast b4 :: u32)"
    and "l = (push_bit 24 (ucast b3) OR push_bit 16 (ucast b2) OR push_bit 8 (ucast b1) OR ucast b0 :: u32)"
  have "(ucast (h AND 0xFF) :: u8) = b4" "(ucast (drop_bit 8 h AND 0xFF) :: u8) = b5"
      "(ucast (l AND 0xFF) :: u8) = b0" "(ucast (drop_bit 8 l AND 0xFF) :: u8) = b1"
      "(ucast (drop_bit 16 l AND 0xFF) :: u8) = b2" "(ucast (drop_bit 24 l AND 0xFF) :: u8) = b3"
    unfolding ff h_def l_def by (rule bit_word_eqI; auto simp: bit_simps dest: bit_imp_le_length)+
  moreover have "ETH_MAC_ADDR_HBASE + m \<noteq> ETH_MAC_ADDR_LBASE + m"
    by (simp add: ETH_MAC_ADDR_HBASE_def ETH_MAC_ADDR_LBASE_def)
  ultimately show ?thesis
    by (simp add: a ETH_GetMACAddress_def ETH_MACAddressConfig_def Let_def h_def l_def)
qed

text \<open>After initialisation the four receive descriptors form a ring that belongs to the DMA.\<close>

lemma fold_set_desc:
  assumes "\<And>i j. i \<in> set xs \<Longrightarrow> j \<in> set xs \<Longrightarrow> a i = a j \<Longrightarrow> i = j" "distinct xs" "i \<in> set xs"
  shows "descs (fold (\<lambda>i. set_desc (a i) (f i)) xs s) (a i) = f i (descs s (a i))"
  using assms
proof (induction xs arbitrary: s)
  case (Cons x xs)
  have other: "descs (fold (\<lambda>i. set_desc (a i) (f i)) ys t) d = descs t d" if "d \<notin> a ` set ys" for ys t d
    using that by (induction ys arbitrary: t) auto
  show ?case
  proof (cases "i = x")
    case True
    have "a x \<notin> a ` set xs" using Cons.prems(1,2) by force
    then show ?thesis using True other by simp
  next
    case False
    then have "i \<in> set xs" "a i \<noteq> a x" using Cons.prems by auto
    then show ?thesis using Cons.IH [of "set_desc (a x) (f x) s"] Cons.prems(1,2) by auto
  qed
qed simp

lemma rx_ring_init:
  assumes "i < n"
  shows "descs (ETH_DMARxDescChainInit tab buf n s) (tab + 16 * i) = \<lparr>Status = ETH_DMARxDesc_OWN,
    ControlBufferSize = ETH_DMARxDesc_RCH OR of_nat ETH_MAX_PACKET_SIZE, Buffer1Addr = buf + i * ETH_MAX_PACKET_SIZE,
    Buffer2NextDescAddr = tab + 16 * (if i < n - 1 then i + 1 else 0)\<rparr>"
  using fold_set_desc [of "[0..<n]" "\<lambda>i. tab + 16 * i" i] assms
  by (simp add: ETH_DMARxDescChainInit_def Let_def)

lemma tx_ring_init:
  assumes "i < n"
  shows "descs (ETH_DMATxDescChainInit tab buf n s) (tab + 16 * i) = \<lparr>Status = ETH_DMATxDesc_TCH,
    ControlBufferSize = ControlBufferSize (descs s (tab + 16 * i)), Buffer1Addr = buf + i * ETH_MAX_PACKET_SIZE,
    Buffer2NextDescAddr = tab + 16 * (if i < n - 1 then i + 1 else 0)\<rparr>"
  using fold_set_desc [of "[0..<n]" "\<lambda>i. tab + 16 * i" i] assms
  by (simp add: ETH_DMATxDescChainInit_def Let_def)

lemma rx_ring_walk:
  assumes "0 < n"
  shows "walk (\<lambda>d. Buffer2NextDescAddr (descs (ETH_DMARxDescChainInit tab buf n s) d)) tab
    (map (\<lambda>i. tab + 16 * i) [0..<n]) tab"
proof -
  let ?nxt = "\<lambda>d. Buffer2NextDescAddr (descs (ETH_DMARxDescChainInit tab buf n s) d)"
  have "walk ?nxt (tab + 16 * k) (map (\<lambda>i. tab + 16 * i) [k..<n]) tab" if "k < n" for k
    using that
  proof (induction "n - k" arbitrary: k)
    case (Suc m)
    show ?case
    proof (cases "Suc k < n")
      case True
      then show ?thesis using Suc.hyps(1) [of "Suc k"] Suc.hyps(2) Suc.prems rx_ring_init [of k n tab buf s]
        by (simp add: upt_conv_Cons)
    next
      case False
      then have "n = Suc k" using Suc.prems by simp
      then show ?thesis using rx_ring_init [of k n tab buf s] by simp
    qed
  qed simp
  from this [OF assms] show ?thesis by simp
qed

end
