(* ===== verification/Wire.thy ===== *)
theory Wire
  imports Inet
begin

text \<open>
  Header fields in a packet: 16 and 32 bit values as the little-endian CPU reads and writes them
  at an offset of the bytes.  The stack keeps them in network order and converts with
  \<open>htons\<close> and \<open>htonl\<close>.
\<close>

definition bytes16 :: "u16 \<Rightarrow> u8 list" where
  "bytes16 w = [ucast w, ucast (drop_bit 8 w)]"

definition word16 :: "u8 list \<Rightarrow> nat \<Rightarrow> u16" where
  "word16 xs i = ucast (xs ! i) OR push_bit 8 (ucast (xs ! (i + 1)))"

definition word32 :: "u8 list \<Rightarrow> nat \<Rightarrow> u32" where
  "word32 xs i = ucast (xs ! i) OR push_bit 8 (ucast (xs ! (i + 1)))
     OR push_bit 16 (ucast (xs ! (i + 2))) OR push_bit 24 (ucast (xs ! (i + 3)))"

definition field :: "u8 list \<Rightarrow> nat \<Rightarrow> nat \<Rightarrow> u8 list" where
  "field xs i n = take n (drop i xs)"

lemma length_bytes16 [simp]: "length (bytes16 w) = 2"
  by (simp add: bytes16_def)

lemma word16_bytes16: "word16 (bytes16 w) 0 = w"
  by (rule bit_word_eqI) (auto simp: word16_def bytes16_def bit_simps dest: bit_imp_le_length)

lemma word32_mem_bytes: "word32 (mem_bytes w) 0 = w"
proof -
  have nth: "mem_bytes w ! 0 = ucast w" "mem_bytes w ! 1 = ucast (drop_bit 8 w)"
      "mem_bytes w ! 2 = ucast (drop_bit 16 w)" "mem_bytes w ! 3 = ucast (drop_bit 24 w)"
    by (simp_all add: mem_bytes_def)
  show ?thesis
    unfolding word32_def add_0 nth
  proof (rule bit_word_eqI)
    fix n :: nat assume n: "n < LENGTH(32)"
    then consider "n < 8" | "8 \<le> n \<and> n < 16" | "16 \<le> n \<and> n < 24" | "24 \<le> n \<and> n < 32" by fastforce
    then show "bit (ucast (ucast w :: u8) OR push_bit 8 (ucast (ucast (drop_bit 8 w) :: u8))
        OR push_bit 16 (ucast (ucast (drop_bit 16 w) :: u8)) OR push_bit 24 (ucast (ucast (drop_bit 24 w) :: u8)) :: u32) n = bit w n"
      using n by cases (auto simp: bit_simps)
  qed
qed

text \<open>A field behind a prefix.\<close>

lemma word16_shift: "word16 (xs @ ys) (length xs + i) = word16 ys i"
  by (simp add: word16_def nth_append)

lemma word32_shift: "word32 (xs @ ys) (length xs + i) = word32 ys i"
  by (simp add: word32_def nth_append)

lemma word16_prefix: "i + 1 < length xs \<Longrightarrow> word16 (xs @ ys) i = word16 xs i"
  by (simp add: word16_def nth_append)

lemma word32_prefix: "i + 3 < length xs \<Longrightarrow> word32 (xs @ ys) i = word32 xs i"
  by (simp add: word32_def nth_append)

lemma word16_at: "length xs = i \<Longrightarrow> word16 (xs @ bytes16 w @ ys) i = w"
  using word16_shift [of xs "bytes16 w @ ys" 0] word16_prefix [of 0 "bytes16 w" ys] word16_bytes16 by simp

lemma word32_at: "length xs = i \<Longrightarrow> word32 (xs @ mem_bytes w @ ys) i = w"
  using word32_shift [of xs "mem_bytes w @ ys" 0] word32_prefix [of 0 "mem_bytes w" ys] word32_mem_bytes by simp

lemma field_at: "length xs = i \<Longrightarrow> length zs = n \<Longrightarrow> field (xs @ zs @ ys) i n = zs"
  by (simp add: field_def)

end
