(* ===== verification/Etharp.thy ===== *)
theory Etharp
  imports Wire Pbuf
begin

text \<open>
  Address resolution, \<open>netif/etharp.c\<close>, with queues (\<open>ARP_QUEUEING\<close>), trust in the addresses of
  received IP packets (\<open>ETHARP_TRUST_IP_MAC\<close>) and the table size of \<open>opt.h\<close>.  A packet is the
  list of its buffers, each with its type and data; what the driver, the IP layer
  and DHCP get is recorded in the order of the calls.  The outcomes of the allocations and
  the driver's answer are arguments.
\<close>

type_synonym packet = "(pbuf_type \<times> u8 list) list"

datatype etharp_state = ETHARP_STATE_EMPTY | ETHARP_STATE_PENDING | ETHARP_STATE_STABLE

text \<open>The interface of an entry is only used for SNMP and is left out.\<close>

record etharp_entry =
  arp_q :: "packet list"
  arp_ip :: u32
  arp_hw :: "u8 list"
  arp_state :: etharp_state
  ctime :: u8

datatype arp_op = Linkoutput packet | Free packet | Dhcp_arp_reply u32 | Ip_input packet

record arp =
  arp_table :: "etharp_entry list"
  etharp_cached_entry :: nat
  arp_ops :: "arp_op list"

text \<open>The answers of the environment: three allocations and the driver.\<close>

record arp_env =
  request_pbuf :: bool
  copy_pbuf :: bool
  queue_entry :: bool
  linkoutput :: "packet \<Rightarrow> err_t"

definition ARP_MAXAGE :: u8 where "ARP_MAXAGE = 240"
definition ARP_MAXPENDING :: u8 where "ARP_MAXPENDING = 2"
definition ARP_TABLE_SIZE :: nat where "ARP_TABLE_SIZE = 10"
definition HWTYPE_ETHERNET :: u16 where "HWTYPE_ETHERNET = 1"
definition ETHTYPE_ARP :: u16 where "ETHTYPE_ARP = 0x0806"
definition ETHTYPE_IP :: u16 where "ETHTYPE_IP = 0x0800"
definition ARP_REQUEST :: u16 where "ARP_REQUEST = 1"
definition ARP_REPLY :: u16 where "ARP_REPLY = 2"
definition ethbroadcast :: "u8 list" where "ethbroadcast = replicate 6 0xff"
definition ethzero :: "u8 list" where "ethzero = replicate 6 0"
definition ETHARP_TRY_HARD :: u8 where "ETHARP_TRY_HARD = 1"
definition ETHARP_FIND_ONLY :: u8 where "ETHARP_FIND_ONLY = 2"

definition emit :: "arp_op list \<Rightarrow> arp \<Rightarrow> arp" where
  "emit xs s = s\<lparr>arp_ops := arp_ops s @ xs\<rparr>"

definition set_entry :: "nat \<Rightarrow> (etharp_entry \<Rightarrow> etharp_entry) \<Rightarrow> arp \<Rightarrow> arp" where
  "set_entry i f s = s\<lparr>arp_table := (arp_table s)[i := f (arp_table s ! i)]\<rparr>"

definition free_etharp_q :: "packet list \<Rightarrow> arp \<Rightarrow> arp" where
  "free_etharp_q q = emit (map Free q)"

section \<open>The table\<close>

text \<open>One round of the timer's loop; the entry's age is a \<open>u8\<close>.\<close>

definition expired :: "etharp_entry \<Rightarrow> bool" where
  "expired e \<longleftrightarrow> arp_state e = ETHARP_STATE_STABLE \<and> ARP_MAXAGE \<le> ctime e
     \<or> arp_state e = ETHARP_STATE_PENDING \<and> ARP_MAXPENDING \<le> ctime e"

definition tmr_entry :: "nat \<Rightarrow> arp \<Rightarrow> arp" where
  "tmr_entry i s =
     (let s = set_entry i (ctime_update (\<lambda>c. c + 1)) s; e = arp_table s ! i in
      if expired e
      then set_entry i (\<lambda>e. e\<lparr>arp_q := [], arp_state := ETHARP_STATE_EMPTY\<rparr>) (free_etharp_q (arp_q e) s)
      else s)"

definition etharp_tmr :: "arp \<Rightarrow> arp" where
  "etharp_tmr s = fold tmr_entry [0..<ARP_TABLE_SIZE] s"

text \<open>The candidates the search remembers; \<open>ARP_TABLE_SIZE\<close> is none.\<close>

record candidates =
  cand_empty :: nat
  old_stable :: nat
  old_pending :: nat
  old_queue :: nat
  age_stable :: u8
  age_pending :: u8
  age_queue :: u8

definition no_candidates :: candidates where
  "no_candidates = \<lparr>cand_empty = ARP_TABLE_SIZE, old_stable = ARP_TABLE_SIZE, old_pending = ARP_TABLE_SIZE,
     old_queue = ARP_TABLE_SIZE, age_stable = 0, age_pending = 0, age_queue = 0\<rparr>"

definition remember :: "nat \<Rightarrow> etharp_entry \<Rightarrow> candidates \<Rightarrow> candidates" where
  "remember i e c =
     (if cand_empty c = ARP_TABLE_SIZE \<and> arp_state e = ETHARP_STATE_EMPTY then c\<lparr>cand_empty := i\<rparr>
      else if arp_state e = ETHARP_STATE_PENDING
      then if arp_q e \<noteq> []
           then if age_queue c \<le> ctime e then c\<lparr>old_queue := i, age_queue := ctime e\<rparr> else c
           else if age_pending c \<le> ctime e then c\<lparr>old_pending := i, age_pending := ctime e\<rparr> else c
      else if arp_state e = ETHARP_STATE_STABLE
      then if age_stable c \<le> ctime e then c\<lparr>old_stable := i, age_stable := ctime e\<rparr> else c
      else c)"

fun scan :: "u32 \<Rightarrow> nat \<Rightarrow> etharp_entry list \<Rightarrow> candidates \<Rightarrow> nat + candidates" where
  "scan ipaddr i [] c = Inr c"
| "scan ipaddr i (e # es) c =
     (if arp_state e \<noteq> ETHARP_STATE_EMPTY \<and> ipaddr = arp_ip e then Inl i
      else scan ipaddr (i + 1) es (remember i e c))"

text \<open>The entry is cleared and gets the address.\<close>

definition recycle :: "nat \<Rightarrow> u32 \<Rightarrow> arp \<Rightarrow> arp" where
  "recycle i ipaddr s = (set_entry i (\<lambda>e. e\<lparr>arp_state := ETHARP_STATE_EMPTY, arp_ip := ipaddr, ctime := 0\<rparr>) s)
     \<lparr>etharp_cached_entry := i\<rparr>"

text \<open>Every caller gives an address; \<open>None\<close> is \<open>ERR_MEM\<close>.\<close>

definition find_entry :: "u32 \<Rightarrow> u8 \<Rightarrow> arp \<Rightarrow> nat option \<times> arp" where
  "find_entry ipaddr mode s =
     (let ce = arp_table s ! etharp_cached_entry s in
      if arp_state ce = ETHARP_STATE_STABLE \<and> ipaddr = arp_ip ce then (Some (etharp_cached_entry s), s)
      else case scan ipaddr 0 (arp_table s) no_candidates of
        Inl i \<Rightarrow> (Some i, s\<lparr>etharp_cached_entry := i\<rparr>)
      | Inr c \<Rightarrow>
          if (cand_empty c = ARP_TABLE_SIZE \<and> mode AND ETHARP_TRY_HARD = 0) \<or> mode AND ETHARP_FIND_ONLY \<noteq> 0
          then (None, s)
          else if cand_empty c < ARP_TABLE_SIZE then (Some (cand_empty c), recycle (cand_empty c) ipaddr s)
          else if old_stable c < ARP_TABLE_SIZE then (Some (old_stable c), recycle (old_stable c) ipaddr s)
          else if old_pending c < ARP_TABLE_SIZE then (Some (old_pending c), recycle (old_pending c) ipaddr s)
          else if old_queue c < ARP_TABLE_SIZE
          then let i = old_queue c in
            (Some i, recycle i ipaddr (set_entry i (arp_q_update (\<lambda>_. [])) (free_etharp_q (arp_q (arp_table s ! i)) s)))
          else (None, s))"

text \<open>The Ethernet header is written over the first 14 bytes of the first buffer.\<close>

definition with_header :: "u8 list \<Rightarrow> u8 list \<Rightarrow> packet \<Rightarrow> packet" where
  "with_header dst src p =
     (case p of [] \<Rightarrow> [] | (t, xs) # bs \<Rightarrow> (t, dst @ src @ bytes16 (htons ETHTYPE_IP) @ drop 14 xs) # bs)"

definition etharp_send_ip :: "arp_env \<Rightarrow> packet \<Rightarrow> u8 list \<Rightarrow> u8 list \<Rightarrow> arp \<Rightarrow> err_t \<times> arp" where
  "etharp_send_ip E p src dst s =
     (linkoutput E (with_header dst src p), emit [Linkoutput (with_header dst src p)] s)"

fun send_queue :: "arp_env \<Rightarrow> nat \<Rightarrow> u8 list \<Rightarrow> u8 list \<Rightarrow> packet list \<Rightarrow> arp \<Rightarrow> arp" where
  "send_queue E i src dst [] s = s"
| "send_queue E i src dst (p # ps) s =
     (let s = set_entry i (arp_q_update (\<lambda>_. ps)) s; (err, s) = etharp_send_ip E p src dst s
      in send_queue E i src dst ps (emit [Free p] s))"

definition update_arp_entry :: "arp_env \<Rightarrow> netif \<Rightarrow> u32 \<Rightarrow> u8 list \<Rightarrow> u8 \<Rightarrow> arp \<Rightarrow> err_t \<times> arp" where
  "update_arp_entry E n ipaddr hw mode s =
     (if ipaddr = 0 \<or> ip_addr_isbroadcast ipaddr n \<or> ip_addr_ismulticast ipaddr then (ERR_ARG, s)
      else case find_entry ipaddr mode s of
        (None, s) \<Rightarrow> (ERR_MEM, s)
      | (Some i, s) \<Rightarrow>
          (let s = set_entry i (\<lambda>e. e\<lparr>arp_state := ETHARP_STATE_STABLE, arp_hw := hw, ctime := 0\<rparr>) s
           in (ERR_OK, send_queue E i (hwaddr n) hw (arp_q (arp_table s ! i)) s)))"

text \<open>The index and the two addresses that are returned through pointers, or nothing for -1.\<close>

definition etharp_find_addr :: "u32 \<Rightarrow> arp \<Rightarrow> (nat \<times> u8 list \<times> u32) option \<times> arp" where
  "etharp_find_addr ipaddr s =
     (case find_entry ipaddr ETHARP_FIND_ONLY s of
        (Some i, s) \<Rightarrow>
          (let e = arp_table s ! i in
           (if arp_state e = ETHARP_STATE_STABLE then Some (i, arp_hw e, arp_ip e) else None, s))
      | (None, s) \<Rightarrow> (None, s))"

section \<open>ARP packets\<close>

text \<open>\<open>sizeof(struct etharp_hdr)\<close> is 42: the fields of RFC 826 behind an Ethernet header.\<close>

definition arp_frame :: "u8 list \<Rightarrow> u8 list \<Rightarrow> u8 list \<Rightarrow> u32 \<Rightarrow> u8 list \<Rightarrow> u32 \<Rightarrow> u16 \<Rightarrow> u8 list" where
  "arp_frame ethsrc ethdst hwsrc ipsrc hwdst ipdst opcode =
     ethdst @ ethsrc @ bytes16 (htons ETHTYPE_ARP) @ bytes16 (htons HWTYPE_ETHERNET) @ bytes16 (htons ETHTYPE_IP)
       @ bytes16 (htons 0x0604) @ bytes16 (htons opcode) @ hwsrc @ mem_bytes ipsrc @ hwdst @ mem_bytes ipdst"

definition etharp_raw ::
  "arp_env \<Rightarrow> u8 list \<Rightarrow> u8 list \<Rightarrow> u8 list \<Rightarrow> u32 \<Rightarrow> u8 list \<Rightarrow> u32 \<Rightarrow> u16 \<Rightarrow> arp \<Rightarrow> err_t \<times> arp" where
  "etharp_raw E ethsrc ethdst hwsrc ipsrc hwdst ipdst opcode s =
     (if \<not> request_pbuf E then (ERR_MEM, s)
      else let p = [(PBUF_RAM, arp_frame ethsrc ethdst hwsrc ipsrc hwdst ipdst opcode)]
           in (linkoutput E p, emit [Linkoutput p, Free p] s))"

definition etharp_request :: "arp_env \<Rightarrow> netif \<Rightarrow> u32 \<Rightarrow> arp \<Rightarrow> err_t \<times> arp" where
  "etharp_request E n ipaddr =
     etharp_raw E (hwaddr n) ethbroadcast (hwaddr n) (ip_addr n) ethzero ipaddr ARP_REQUEST"

definition packet_len :: "packet \<Rightarrow> nat" where
  "packet_len p = length (concat (map snd p))"

text \<open>
  The packet that is queued: the packet itself when all its buffers are in ROM, else a copy in one
  buffer, for which the code allocates what remains of the packet from the first
  buffer that is not in ROM on, and into which \<open>pbuf_copy\<close> only copies if the whole fits.
\<close>

definition take_over :: "arp_env \<Rightarrow> packet \<Rightarrow> packet option" where
  "take_over E q =
     (case dropWhile (\<lambda>(t, xs). t = PBUF_ROM) q of
        [] \<Rightarrow> Some q
      | p \<Rightarrow> if copy_pbuf E \<and> packet_len q \<le> packet_len p then Some [(PBUF_RAM, concat (map snd q))] else None)"

definition etharp_query :: "arp_env \<Rightarrow> netif \<Rightarrow> u32 \<Rightarrow> packet option \<Rightarrow> arp \<Rightarrow> err_t \<times> arp" where
  "etharp_query E n ipaddr q s =
     (if ip_addr_isbroadcast ipaddr n \<or> ip_addr_ismulticast ipaddr \<or> ipaddr = 0 then (ERR_ARG, s)
      else case find_entry ipaddr ETHARP_TRY_HARD s of
        (None, s) \<Rightarrow> (ERR_MEM, s)
      | (Some i, s) \<Rightarrow>
          (let s = (if arp_state (arp_table s ! i) = ETHARP_STATE_EMPTY
                    then set_entry i (arp_state_update (\<lambda>_. ETHARP_STATE_PENDING)) s else s);
               (result, s) = (if arp_state (arp_table s ! i) = ETHARP_STATE_PENDING \<or> q = None
                              then etharp_request E n ipaddr s else (ERR_MEM, s))
           in case q of None \<Rightarrow> (result, s)
              | Some q \<Rightarrow>
                  if arp_state (arp_table s ! i) = ETHARP_STATE_STABLE
                  then etharp_send_ip E q (hwaddr n) (arp_hw (arp_table s ! i)) s
                  else if arp_state (arp_table s ! i) = ETHARP_STATE_PENDING
                  then (case take_over E q of
                          None \<Rightarrow> (result, s)
                        | Some p \<Rightarrow>
                            if queue_entry E then (ERR_OK, set_entry i (arp_q_update (\<lambda>ps. ps @ [p])) s)
                            else (result, emit [Free p] s))
                  else (result, s)))"

text \<open>\<open>header_room\<close> tells whether \<open>pbuf_header\<close> finds 14 bytes in front of the packet; \<open>q\<close> has them in front then.\<close>

definition etharp_output :: "arp_env \<Rightarrow> netif \<Rightarrow> bool \<Rightarrow> packet \<Rightarrow> u32 \<Rightarrow> arp \<Rightarrow> err_t \<times> arp" where
  "etharp_output E n header_room q ipaddr s =
     (if \<not> header_room then (ERR_BUF, s)
      else if ip_addr_isbroadcast ipaddr n then etharp_send_ip E q (hwaddr n) ethbroadcast s
      else if ip_addr_ismulticast ipaddr
      then etharp_send_ip E q (hwaddr n) [0x01, 0x00, 0x5e, ucast (drop_bit 16 (ntohl ipaddr) AND 0xff) AND 0x7f,
             ucast (drop_bit 8 (ntohl ipaddr) AND 0xff), ucast (ntohl ipaddr AND 0xff)] s
      else if \<not> ip_addr_netcmp ipaddr (ip_addr n) (netmask n)
      then if gw n \<noteq> 0 then etharp_query E n (gw n) (Some q) s else (ERR_RTE, s)
      else etharp_query E n ipaddr (Some q) s)"

section \<open>Input\<close>

text \<open>The source addresses of an IP packet: bytes 6 and 26 of the frame.\<close>

definition etharp_ip_input :: "arp_env \<Rightarrow> netif \<Rightarrow> packet \<Rightarrow> arp \<Rightarrow> arp" where
  "etharp_ip_input E n p s =
     (let hdr = snd (hd p); src = word32 hdr 26 in
      if ip_addr_netcmp src (ip_addr n) (netmask n) then snd (update_arp_entry E n src (field hdr 6 6) 0 s) else s)"

definition etharp_arp_input :: "arp_env \<Rightarrow> netif \<Rightarrow> u8 list \<Rightarrow> packet \<Rightarrow> arp \<Rightarrow> arp" where
  "etharp_arp_input E n hw p s =
     (let hdr = snd (hd p) in
      if length hdr < 42 then emit [Free p] s
      else if word16 hdr 14 \<noteq> htons HWTYPE_ETHERNET \<or> word16 hdr 18 \<noteq> htons 0x0604
              \<or> word16 hdr 16 \<noteq> htons ETHTYPE_IP \<or> word16 hdr 12 \<noteq> htons ETHTYPE_ARP
      then emit [Free p] s
      else let sipaddr = word32 hdr 28; dipaddr = word32 hdr 38; shwaddr = field hdr 22 6;
               for_us = (if ip_addr n = 0 then False else dipaddr = ip_addr n);
               s = snd (update_arp_entry E n sipaddr shwaddr (if for_us then ETHARP_TRY_HARD else 0) s)
           in if htons (word16 hdr 20) = ARP_REQUEST
              then if for_us
                   then let p = (fst (hd p), shwaddr @ hw @ field hdr 12 8 @ bytes16 (htons ARP_REPLY) @ hw @ mem_bytes (ip_addr n)
                              @ shwaddr @ field hdr 28 4 @ drop 42 hdr) # tl p
                        in emit [Linkoutput p, Free p] s
                   else emit [Free p] s
              else if htons (word16 hdr 20) = ARP_REPLY then emit [Dhcp_arp_reply sipaddr, Free p] s
              else emit [Free p] s)"

text \<open>\<open>pbuf_header\<close> moves over the Ethernet header, which fails when the first buffer is shorter.\<close>

definition ethernet_input :: "arp_env \<Rightarrow> netif \<Rightarrow> packet \<Rightarrow> arp \<Rightarrow> err_t \<times> arp" where
  "ethernet_input E n p s =
     (let hdr = snd (hd p); type = htons (word16 hdr 12) in
      if type = ETHTYPE_IP
      then let s = etharp_ip_input E n p s in
        (ERR_OK, emit [if length hdr < 14 then Free p else Ip_input ((fst (hd p), drop 14 hdr) # tl p)] s)
      else if type = ETHTYPE_ARP then (ERR_OK, etharp_arp_input E n (hwaddr n) p s)
      else (ERR_OK, emit [Free p] s))"

section \<open>Choosing an entry\<close>

abbreviation live :: "etharp_entry \<Rightarrow> bool" where
  "live e \<equiv> arp_state e \<noteq> ETHARP_STATE_EMPTY"

text \<open>The oldest of the entries with a property, or none.\<close>

definition oldest :: "(etharp_entry \<Rightarrow> bool) \<Rightarrow> etharp_entry list \<Rightarrow> nat \<Rightarrow> u8 \<Rightarrow> bool" where
  "oldest P es i age \<longleftrightarrow> (i = ARP_TABLE_SIZE \<and> age = 0 \<and> (\<forall>e\<in>set es. \<not> P e))
     \<or> (i < length es \<and> P (es ! i) \<and> age = ctime (es ! i) \<and> (\<forall>e\<in>set es. P e \<longrightarrow> ctime e \<le> age))"

definition is_stable :: "etharp_entry \<Rightarrow> bool" where
  "is_stable e \<longleftrightarrow> arp_state e = ETHARP_STATE_STABLE"

definition is_waiting :: "bool \<Rightarrow> etharp_entry \<Rightarrow> bool" where
  "is_waiting queued e \<longleftrightarrow> arp_state e = ETHARP_STATE_PENDING \<and> (arp_q e \<noteq> []) = queued"

definition candidates_ok :: "etharp_entry list \<Rightarrow> candidates \<Rightarrow> bool" where
  "candidates_ok es c \<longleftrightarrow>
     (cand_empty c = ARP_TABLE_SIZE \<and> (\<forall>e\<in>set es. live e) \<or> cand_empty c < length es \<and> \<not> live (es ! cand_empty c))
     \<and> oldest is_stable es (old_stable c) (age_stable c)
     \<and> oldest (is_waiting False) es (old_pending c) (age_pending c)
     \<and> oldest (is_waiting True) es (old_queue c) (age_queue c)"

lemma oldest_snoc:
  assumes "oldest P es i age" "length es < ARP_TABLE_SIZE"
  shows "oldest P (es @ [e]) (if P e \<and> age \<le> ctime e then length es else i) (if P e \<and> age \<le> ctime e then ctime e else age)"
  using assms by (auto simp: oldest_def nth_append)

lemma remember_fields:
  "cand_empty (remember i e c) = (if \<not> live e \<and> cand_empty c = ARP_TABLE_SIZE then i else cand_empty c)"
  "old_stable (remember i e c) = (if is_stable e \<and> age_stable c \<le> ctime e then i else old_stable c)"
  "age_stable (remember i e c) = (if is_stable e \<and> age_stable c \<le> ctime e then ctime e else age_stable c)"
  "old_pending (remember i e c) = (if is_waiting False e \<and> age_pending c \<le> ctime e then i else old_pending c)"
  "age_pending (remember i e c) = (if is_waiting False e \<and> age_pending c \<le> ctime e then ctime e else age_pending c)"
  "old_queue (remember i e c) = (if is_waiting True e \<and> age_queue c \<le> ctime e then i else old_queue c)"
  "age_queue (remember i e c) = (if is_waiting True e \<and> age_queue c \<le> ctime e then ctime e else age_queue c)"
  by (cases "arp_state e"; simp add: remember_def is_stable_def is_waiting_def)+

lemma remember_ok:
  assumes "candidates_ok es c" "length es < ARP_TABLE_SIZE"
  shows "candidates_ok (es @ [e]) (remember (length es) e c)"
  using assms(1) unfolding candidates_ok_def remember_fields
  by (intro conjI oldest_snoc [OF _ assms(2)]) (use assms(2) in \<open>auto simp: nth_append\<close>)

lemma scan_Inr:
  assumes "scan ip (length pre) es c = Inr c'" "candidates_ok pre c" "length (pre @ es) \<le> ARP_TABLE_SIZE"
  shows "candidates_ok (pre @ es) c' \<and> (\<forall>e\<in>set es. live e \<longrightarrow> arp_ip e \<noteq> ip)"
  using assms
proof (induction es arbitrary: pre c)
  case (Cons e es)
  then have "\<not> (live e \<and> ip = arp_ip e)" "scan ip (length (pre @ [e])) es (remember (length pre) e c) = Inr c'"
    by (auto split: if_splits)
  moreover have "candidates_ok (pre @ [e]) (remember (length pre) e c)" using remember_ok Cons.prems by simp
  ultimately show ?case using Cons.IH [of "pre @ [e]"] Cons.prems(3) by auto
qed simp

lemma scan_Inl:
  "scan ip k es c = Inl i \<Longrightarrow> k \<le> i \<and> i < k + length es \<and> live (es ! (i - k)) \<and> arp_ip (es ! (i - k)) = ip"
  by (induction ip k es c rule: scan.induct) (auto split: if_splits simp: nth_Cons' Suc_diff_le)

text \<open>
  The invariant of the table: an address has at most one live entry, packets wait only on pending
  entries, and nothing has reached its age limit.
\<close>

definition entry_ok :: "etharp_entry \<Rightarrow> bool" where
  "entry_ok e \<longleftrightarrow> (arp_q e \<noteq> [] \<longrightarrow> arp_state e = ETHARP_STATE_PENDING) \<and> \<not> expired e"

definition arp_inv :: "arp \<Rightarrow> bool" where
  "arp_inv s \<longleftrightarrow> length (arp_table s) = ARP_TABLE_SIZE \<and> etharp_cached_entry s < ARP_TABLE_SIZE
     \<and> (\<forall>e\<in>set (arp_table s). entry_ok e)
     \<and> (\<forall>i<ARP_TABLE_SIZE. \<forall>j<ARP_TABLE_SIZE. live (arp_table s ! i) \<and> live (arp_table s ! j)
          \<and> arp_ip (arp_table s ! i) = arp_ip (arp_table s ! j) \<longrightarrow> i = j)"

lemma table_set_entry [simp]:
  "arp_table (set_entry i f s) = (arp_table s)[i := f (arp_table s ! i)]"
  "etharp_cached_entry (set_entry i f s) = etharp_cached_entry s" "arp_ops (set_entry i f s) = arp_ops s"
  by (simp_all add: set_entry_def)

lemma emit_simps [simp]:
  "arp_table (emit xs s) = arp_table s" "etharp_cached_entry (emit xs s) = etharp_cached_entry s"
  "arp_ops (emit xs s) = arp_ops s @ xs"
  by (simp_all add: emit_def)

text \<open>An entry may be replaced by one that is in order and has an address of its own.\<close>

lemma arp_inv_update:
  assumes "arp_inv s" "i < ARP_TABLE_SIZE" "entry_ok e" "arp_table t = (arp_table s)[i := e]"
    and "etharp_cached_entry t < ARP_TABLE_SIZE"
    and "live e \<Longrightarrow> \<forall>j<ARP_TABLE_SIZE. j \<noteq> i \<longrightarrow> live (arp_table s ! j) \<longrightarrow> arp_ip (arp_table s ! j) \<noteq> arp_ip e"
  shows "arp_inv t"
proof -
  let ?T = "arp_table s"
  have len: "length ?T = ARP_TABLE_SIZE" and ok: "\<forall>e\<in>set ?T. entry_ok e"
    and uniq: "\<And>a b. a < ARP_TABLE_SIZE \<Longrightarrow> b < ARP_TABLE_SIZE \<Longrightarrow> live (?T ! a) \<Longrightarrow> live (?T ! b)
      \<Longrightarrow> arp_ip (?T ! a) = arp_ip (?T ! b) \<Longrightarrow> a = b"
    using assms(1) by (auto simp: arp_inv_def)
  have "\<forall>e'\<in>set (?T[i := e]). entry_ok e'" using ok assms(3) set_update_subset_insert [of ?T i e] by blast
  moreover have "a = b" if ab: "a < ARP_TABLE_SIZE" "b < ARP_TABLE_SIZE" "live (?T[i := e] ! a)" "live (?T[i := e] ! b)"
      "arp_ip (?T[i := e] ! a) = arp_ip (?T[i := e] ! b)" for a b
  proof -
    have e: "?T[i := e] ! i = e" using len assms(2) by simp
    have other: False if "c < ARP_TABLE_SIZE" "c \<noteq> i" "live (?T ! c)" "live e" "arp_ip (?T ! c) = arp_ip e" for c
      using assms(6) that by blast
    consider "a = i" "b = i" | "a = i" "b \<noteq> i" | "a \<noteq> i" "b = i" | "a \<noteq> i" "b \<noteq> i" by blast
    then show ?thesis
    proof cases
      case 2
      then show ?thesis using other [of b] ab e by simp
    next
      case 3
      then show ?thesis using other [of a] ab e by simp
    next
      case 4
      then show ?thesis using uniq [of a b] ab by simp
    qed simp
  qed
  ultimately show ?thesis using len assms(4,5) by (auto simp: arp_inv_def)
qed

lemma cached_only: "arp_inv s \<Longrightarrow> arp_table t = arp_table s \<Longrightarrow> etharp_cached_entry t < ARP_TABLE_SIZE \<Longrightarrow> arp_inv t"
  by (simp add: arp_inv_def)

text \<open>What the search returns: the live entry of the address, or a cleared one for it.\<close>

definition cleared :: "etharp_entry \<Rightarrow> u32 \<Rightarrow> etharp_entry" where
  "cleared e ip = e\<lparr>arp_q := [], arp_state := ETHARP_STATE_EMPTY, arp_ip := ip, ctime := 0\<rparr>"

definition unknown :: "u32 \<Rightarrow> arp \<Rightarrow> bool" where
  "unknown ip s \<longleftrightarrow> (\<forall>e\<in>set (arp_table s). live e \<longrightarrow> arp_ip e \<noteq> ip)"

definition victim :: "arp \<Rightarrow> nat \<Rightarrow> bool" where
  "victim s i \<longleftrightarrow> i < ARP_TABLE_SIZE \<and> (\<not> live (arp_table s ! i)
     \<or> (\<forall>e\<in>set (arp_table s). live e)
       \<and> ((\<exists>e\<in>set (arp_table s). is_stable e) \<longrightarrow> is_stable (arp_table s ! i)
            \<and> (\<forall>e\<in>set (arp_table s). is_stable e \<longrightarrow> ctime e \<le> ctime (arp_table s ! i))))"

lemma recycled:
  assumes "arp_inv s" "victim s i" "unknown ip s" "arp_state (arp_table s ! i) = ETHARP_STATE_PENDING \<longrightarrow> arp_q (arp_table s ! i) = []"
  shows "arp_inv (recycle i ip s) \<and> arp_table (recycle i ip s) = (arp_table s)[i := cleared (arp_table s ! i) ip]
    \<and> arp_ops (recycle i ip s) = arp_ops s @ map Free (arp_q (arp_table s ! i))"
proof -
  have i: "i < ARP_TABLE_SIZE" "i < length (arp_table s)" using assms(1,2) by (auto simp: victim_def arp_inv_def)
  then have "entry_ok (arp_table s ! i)" using assms(1) by (simp add: arp_inv_def)
  then have q: "arp_q (arp_table s ! i) = []" using assms(4) by (auto simp: entry_ok_def)
  then have c: "(arp_table s ! i)\<lparr>arp_state := ETHARP_STATE_EMPTY, arp_ip := ip, ctime := 0\<rparr> = cleared (arp_table s ! i) ip"
    by (cases "arp_table s ! i") (simp add: cleared_def)
  have t: "arp_table (recycle i ip s) = (arp_table s)[i := cleared (arp_table s ! i) ip]" by (simp add: recycle_def c)
  moreover have "arp_inv (recycle i ip s)"
    by (rule arp_inv_update [OF assms(1) i(1) _ t]) (use i in \<open>auto simp: entry_ok_def expired_def cleared_def recycle_def\<close>)
  ultimately show ?thesis using q by (simp add: recycle_def)
qed

lemma some_candidate:
  assumes "candidates_ok es c" "length es = ARP_TABLE_SIZE" "cand_empty c = ARP_TABLE_SIZE"
  shows "old_stable c < ARP_TABLE_SIZE \<or> old_pending c < ARP_TABLE_SIZE \<or> old_queue c < ARP_TABLE_SIZE"
proof -
  have "es \<noteq> []" using assms(2) by (auto simp: ARP_TABLE_SIZE_def)
  then obtain e where e: "e \<in> set es" by (cases es) auto
  moreover have "\<forall>e\<in>set es. live e" using assms by (auto simp: candidates_ok_def)
  ultimately have "is_stable e \<or> is_waiting False e \<or> is_waiting True e"
    by (cases "arp_state e") (auto simp: is_stable_def is_waiting_def)
  then show ?thesis using assms(1,2) e by (auto simp: candidates_ok_def oldest_def)
qed

lemma found_live:
  assumes "arp_inv s" "unknown ip s" "candidates_ok (arp_table s) c" "cand_empty c = ARP_TABLE_SIZE"
  shows "old_stable c < ARP_TABLE_SIZE \<Longrightarrow> victim s (old_stable c) \<and> is_stable (arp_table s ! old_stable c)"
    and "\<not> old_stable c < ARP_TABLE_SIZE \<Longrightarrow> old_pending c < ARP_TABLE_SIZE \<Longrightarrow> victim s (old_pending c) \<and> is_waiting False (arp_table s ! old_pending c)"
    and "\<not> old_stable c < ARP_TABLE_SIZE \<Longrightarrow> old_queue c < ARP_TABLE_SIZE \<Longrightarrow> victim s (old_queue c) \<and> is_waiting True (arp_table s ! old_queue c)"
proof -
  have len: "length (arp_table s) = ARP_TABLE_SIZE" using assms(1) by (simp add: arp_inv_def)
  have all: "\<forall>e\<in>set (arp_table s). live e" using assms(3,4) len by (auto simp: candidates_ok_def)
  have st: "oldest is_stable (arp_table s) (old_stable c) (age_stable c)"
    "oldest (is_waiting False) (arp_table s) (old_pending c) (age_pending c)"
    "oldest (is_waiting True) (arp_table s) (old_queue c) (age_queue c)"
    using assms(3) by (simp_all add: candidates_ok_def)
  show "old_stable c < ARP_TABLE_SIZE \<Longrightarrow> victim s (old_stable c) \<and> is_stable (arp_table s ! old_stable c)"
    using st(1) all by (auto simp: oldest_def victim_def)
  show "\<not> old_stable c < ARP_TABLE_SIZE \<Longrightarrow> old_pending c < ARP_TABLE_SIZE \<Longrightarrow> victim s (old_pending c) \<and> is_waiting False (arp_table s ! old_pending c)"
    using st(1,2) all len by (auto simp: oldest_def victim_def)
  show "\<not> old_stable c < ARP_TABLE_SIZE \<Longrightarrow> old_queue c < ARP_TABLE_SIZE \<Longrightarrow> victim s (old_queue c) \<and> is_waiting True (arp_table s ! old_queue c)"
    using st(1,3) all len by (auto simp: oldest_def victim_def)
qed

definition is_new :: "u32 \<Rightarrow> nat \<Rightarrow> arp \<Rightarrow> arp \<Rightarrow> bool" where
  "is_new ip i s s' \<longleftrightarrow> unknown ip s \<and> victim s i \<and> arp_table s' = (arp_table s)[i := cleared (arp_table s ! i) ip]
     \<and> arp_ops s' = arp_ops s @ map Free (arp_q (arp_table s ! i))"

definition is_known :: "u32 \<Rightarrow> nat \<Rightarrow> arp \<Rightarrow> arp \<Rightarrow> bool" where
  "is_known ip i s s' \<longleftrightarrow> i < ARP_TABLE_SIZE \<and> live (arp_table s ! i) \<and> arp_ip (arp_table s ! i) = ip
     \<and> arp_table s' = arp_table s \<and> arp_ops s' = arp_ops s"

lemma find_entry_cases:
  assumes inv: "arp_inv s"
  shows "case find_entry ip mode s of
      (None, s') \<Rightarrow> s' = s \<and> unknown ip s \<and> (mode AND ETHARP_FIND_ONLY \<noteq> 0 \<or> mode AND ETHARP_TRY_HARD = 0)
    | (Some i, s') \<Rightarrow> arp_inv s' \<and> (is_known ip i s s'
        \<or> is_new ip i s s' \<and> mode AND ETHARP_FIND_ONLY = 0 \<and> (mode AND ETHARP_TRY_HARD = 0 \<longrightarrow> \<not> live (arp_table s ! i)))"
proof -
  let ?T = "arp_table s" and ?k = "etharp_cached_entry s"
  have len: "length ?T = ARP_TABLE_SIZE" and k: "?k < ARP_TABLE_SIZE" using inv by (auto simp: arp_inv_def)
  show ?thesis
  proof (cases "arp_state (?T ! ?k) = ETHARP_STATE_STABLE \<and> ip = arp_ip (?T ! ?k)")
    case True
    then show ?thesis using inv k by (simp add: find_entry_def Let_def is_known_def)
  next
    case miss: False
    show ?thesis
    proof (cases "scan ip 0 ?T no_candidates")
      case (Inl i)
      from scan_Inl [OF Inl] have i: "i < ARP_TABLE_SIZE" "live (?T ! i)" "arp_ip (?T ! i) = ip" using len by auto
      then have "arp_inv (s\<lparr>etharp_cached_entry := i\<rparr>)" using cached_only [OF inv] by simp
      then show ?thesis using miss Inl i by (auto simp: find_entry_def Let_def is_known_def)
    next
      case (Inr c)
      have "candidates_ok [] no_candidates" by (simp add: candidates_ok_def no_candidates_def oldest_def)
      from scan_Inr [of ip "[]" ?T, OF _ this] Inr len
      have c: "candidates_ok ?T c" and u: "unknown ip s" by (auto simp: unknown_def)
      note new = recycled [OF inv _ u]
      show ?thesis
      proof (cases "cand_empty c < ARP_TABLE_SIZE")
        case True
        then have e: "victim s (cand_empty c)" "\<not> live (?T ! cand_empty c)"
          using c len by (auto simp: candidates_ok_def victim_def)
        then show ?thesis
          using miss Inr True u new [OF e(1)] by (auto simp: find_entry_def Let_def is_new_def)
      next
        case False
        then have none: "cand_empty c = ARP_TABLE_SIZE" using c len by (auto simp: candidates_ok_def)
        note f = found_live [OF inv u c none]
        consider "old_stable c < ARP_TABLE_SIZE"
          | "\<not> old_stable c < ARP_TABLE_SIZE" "old_pending c < ARP_TABLE_SIZE"
          | "\<not> old_stable c < ARP_TABLE_SIZE" "\<not> old_pending c < ARP_TABLE_SIZE" "old_queue c < ARP_TABLE_SIZE"
          using some_candidate [OF c len none] by blast
        then show ?thesis
        proof cases
          case 1
          then show ?thesis using miss Inr none u f(1) new [of "old_stable c"]
            by (auto simp: find_entry_def Let_def is_new_def is_stable_def)
        next
          case 2
          then show ?thesis using miss Inr none u f(2) new [of "old_pending c"]
            by (auto simp: find_entry_def Let_def is_new_def is_waiting_def)
        next
          case 3
          let ?i = "old_queue c"
          let ?e = "(?T ! ?i)\<lparr>arp_q := []\<rparr>"
          define t where "t = set_entry ?i (arp_q_update (\<lambda>_. [])) (free_etharp_q (arp_q (?T ! ?i)) s)"
          have w: "victim s ?i" "is_waiting True (?T ! ?i)" using f(3) 3 by auto
          have tt: "arp_table t = ?T[?i := ?e]" "arp_ops t = arp_ops s @ map Free (arp_q (?T ! ?i))"
              "etharp_cached_entry t = ?k" by (simp_all add: t_def free_etharp_q_def)
          have e: "?T[?i := ?e] ! ?i = ?e" using 3 len by simp
          have "entry_ok (?T ! ?i)" using inv 3 len by (simp add: arp_inv_def)
          then have ok: "entry_ok ?e" using w(2) by (auto simp: entry_ok_def expired_def is_waiting_def)
          have un: "\<forall>j<ARP_TABLE_SIZE. j \<noteq> ?i \<longrightarrow> live (?T ! j) \<longrightarrow> arp_ip (?T ! j) \<noteq> arp_ip ?e"
            using inv 3 w(2) by (auto simp: arp_inv_def is_waiting_def)
          have it: "arp_inv t" by (rule arp_inv_update [OF inv 3(3) ok tt(1)]) (use un tt(3) k in auto)
          have sub: "set (?T[?i := ?e]) \<subseteq> insert ?e (set ?T)" by (rule set_update_subset_insert)
          have all: "\<forall>e\<in>set ?T. live e" using none c len by (auto simp: candidates_ok_def)
          have nost: "\<forall>e\<in>set ?T. \<not> is_stable e"
            using c 3(1) len by (auto simp: candidates_ok_def oldest_def)
          have "live ?e" "\<not> is_stable ?e" using w(2) by (simp_all add: is_waiting_def is_stable_def)
          then have "victim t ?i" using 3 all nost sub by (auto simp: victim_def tt(1))
          moreover have "unknown ip t"
          proof -
            have "arp_ip (?T ! ?i) \<noteq> ip" using u w(2) 3 len by (auto simp: unknown_def is_waiting_def)
            then show ?thesis using u sub by (auto simp: unknown_def tt(1))
          qed
          ultimately have "arp_inv (recycle ?i ip t) \<and> arp_table (recycle ?i ip t) = ?T[?i := cleared ?e ip]
              \<and> arp_ops (recycle ?i ip t) = arp_ops t"
            using recycled [OF it, of ?i ip] e by (simp add: tt(1))
          moreover have "cleared ?e ip = cleared (?T ! ?i) ip" by (cases "?T ! ?i") (simp add: cleared_def)
          ultimately show ?thesis using miss Inr none u 3 w(1) tt(2)
            by (auto simp: find_entry_def Let_def is_new_def t_def)
        qed
      qed
    qed
  qed
qed

section \<open>Every operation keeps the table in order\<close>

definition sends :: "u8 list \<Rightarrow> u8 list \<Rightarrow> packet list \<Rightarrow> arp_op list" where
  "sends dst src ps = concat (map (\<lambda>p. [Linkoutput (with_header dst src p), Free p]) ps)"

lemma send_queue_all:
  assumes "arp_q (arp_table s ! i) = ps" "i < length (arp_table s)"
  shows "arp_table (send_queue E i src dst ps s) = (arp_table s)[i := (arp_table s ! i)\<lparr>arp_q := []\<rparr>]
    \<and> arp_ops (send_queue E i src dst ps s) = arp_ops s @ sends dst src ps
    \<and> etharp_cached_entry (send_queue E i src dst ps s) = etharp_cached_entry s"
  using assms
proof (induction ps arbitrary: s)
  case Nil
  then have "(arp_table s ! i)\<lparr>arp_q := []\<rparr> = arp_table s ! i" by simp
  then show ?case by (simp add: sends_def)
next
  case (Cons p ps)
  let ?t = "emit [Free p] (snd (etharp_send_ip E p src dst (set_entry i (arp_q_update (\<lambda>_. ps)) s)))"
  have "arp_table ?t ! i = (arp_table s ! i)\<lparr>arp_q := ps\<rparr>" using Cons.prems(2) by (simp add: etharp_send_ip_def)
  then show ?case
    using Cons.IH [of ?t] Cons.prems(2) by (simp add: etharp_send_ip_def sends_def Let_def)
qed

definition mapped :: "etharp_entry \<Rightarrow> u32 \<Rightarrow> u8 list \<Rightarrow> etharp_entry" where
  "mapped e ip hw = e\<lparr>arp_q := [], arp_ip := ip, arp_hw := hw, arp_state := ETHARP_STATE_STABLE, ctime := 0\<rparr>"

definition unicast :: "netif \<Rightarrow> u32 \<Rightarrow> bool" where
  "unicast n ip \<longleftrightarrow> ip \<noteq> 0 \<and> \<not> ip_addr_isbroadcast ip n \<and> \<not> ip_addr_ismulticast ip"

lemma other_address:
  assumes "arp_inv s" "is_known ip i s t \<or> is_new ip i s t" "j < ARP_TABLE_SIZE" "j \<noteq> i" "live (arp_table s ! j)"
  shows "arp_ip (arp_table s ! j) \<noteq> ip"
proof -
  have "length (arp_table s) = ARP_TABLE_SIZE" using assms(1) by (simp add: arp_inv_def)
  then show ?thesis using assms unfolding is_known_def is_new_def unknown_def arp_inv_def by (metis nth_mem)
qed

lemma update_arp_entry_cases:
  assumes inv: "arp_inv s" and u: "unicast n ip"
  shows "case update_arp_entry E n ip hw mode s of (r, s') \<Rightarrow>
      (r = ERR_MEM \<and> s' = s \<and> unknown ip s \<and> (mode AND ETHARP_FIND_ONLY \<noteq> 0 \<or> mode AND ETHARP_TRY_HARD = 0))
    \<or> (r = ERR_OK \<and> arp_inv s' \<and> (\<exists>i<ARP_TABLE_SIZE. arp_table s' = (arp_table s)[i := mapped (arp_table s ! i) ip hw]
        \<and> (live (arp_table s ! i) \<and> arp_ip (arp_table s ! i) = ip \<and> arp_ops s' = arp_ops s @ sends hw (hwaddr n) (arp_q (arp_table s ! i))
           \<or> unknown ip s \<and> victim s i \<and> (mode AND ETHARP_TRY_HARD = 0 \<longrightarrow> \<not> live (arp_table s ! i))
             \<and> arp_ops s' = arp_ops s @ map Free (arp_q (arp_table s ! i)))))"
proof -
  note u = u [unfolded unicast_def]
  note f = find_entry_cases [OF inv, of ip mode]
  show ?thesis
  proof (cases "find_entry ip mode s")
    case (Pair r t)
    show ?thesis
    proof (cases r)
      case None
      then show ?thesis using u f Pair by (auto simp: update_arp_entry_def)
    next
      case (Some i)
      then have t: "arp_inv t" "is_known ip i s t \<or> is_new ip i s t"
          "is_known ip i s t \<or> is_new ip i s t \<and> (mode AND ETHARP_TRY_HARD = 0 \<longrightarrow> \<not> live (arp_table s ! i))"
        using f Pair by auto
      have len: "length (arp_table s) = ARP_TABLE_SIZE" "length (arp_table t) = ARP_TABLE_SIZE"
        using inv t(1) by (auto simp: arp_inv_def)
      have i: "i < ARP_TABLE_SIZE" using t(2) by (auto simp: is_known_def is_new_def victim_def)
      let ?t1 = "set_entry i (\<lambda>e. e\<lparr>arp_state := ETHARP_STATE_STABLE, arp_hw := hw, ctime := 0\<rparr>) t"
      define s' where "s' = send_queue E i (hwaddr n) hw (arp_q (arp_table t ! i)) ?t1"
      have q: "arp_q (arp_table ?t1 ! i) = arp_q (arp_table t ! i)" using i len by simp
      have m: "(arp_table t ! i)\<lparr>arp_state := ETHARP_STATE_STABLE, arp_hw := hw, ctime := 0, arp_q := []\<rparr> = mapped (arp_table s ! i) ip hw"
        using t(2) i len by (cases "arp_table s ! i") (auto simp: is_known_def is_new_def mapped_def cleared_def)
      have s': "arp_table s' = (arp_table t)[i := mapped (arp_table s ! i) ip hw]"
          "arp_ops s' = arp_ops t @ sends hw (hwaddr n) (arp_q (arp_table t ! i))"
          "etharp_cached_entry s' = etharp_cached_entry t"
        using send_queue_all [of ?t1 i _ E "hwaddr n" hw, OF q] i len m by (simp_all add: s'_def)
      have tab: "arp_table s' = (arp_table s)[i := mapped (arp_table s ! i) ip hw]"
        using t(2) s'(1) by (auto simp: is_known_def is_new_def)
      have "arp_inv s'"
      proof (rule arp_inv_update [OF inv i _ tab])
        show "entry_ok (mapped (arp_table s ! i) ip hw)" by (simp add: entry_ok_def expired_def mapped_def ARP_MAXAGE_def)
        show "etharp_cached_entry s' < ARP_TABLE_SIZE" using t(1) s'(3) by (simp add: arp_inv_def)
        show "\<forall>j<ARP_TABLE_SIZE. j \<noteq> i \<longrightarrow> live (arp_table s ! j) \<longrightarrow> arp_ip (arp_table s ! j) \<noteq> arp_ip (mapped (arp_table s ! i) ip hw)"
          using other_address [OF inv t(2)] by (simp add: mapped_def)
      qed
      moreover have "update_arp_entry E n ip hw mode s = (ERR_OK, s')"
        using u Pair Some by (simp add: update_arp_entry_def s'_def Let_def i len)
      moreover have "live (arp_table s ! i) \<and> arp_ip (arp_table s ! i) = ip \<and> arp_ops s' = arp_ops s @ sends hw (hwaddr n) (arp_q (arp_table s ! i))
           \<or> unknown ip s \<and> victim s i \<and> (mode AND ETHARP_TRY_HARD = 0 \<longrightarrow> \<not> live (arp_table s ! i))
             \<and> arp_ops s' = arp_ops s @ map Free (arp_q (arp_table s ! i))"
        using t(3) s'(2) i len by (auto simp: is_known_def is_new_def cleared_def sends_def)
      ultimately show ?thesis using i tab by auto
    qed
  qed
qed

lemma update_arp_entry_inv: "arp_inv s \<Longrightarrow> arp_inv (snd (update_arp_entry E n ip hw mode s))"
proof (cases "unicast n ip")
  case True
  moreover assume "arp_inv s"
  ultimately show ?thesis using update_arp_entry_cases [of s n ip, where E = E and hw = hw and mode = mode] by (auto split: prod.splits)
next
  case False
  moreover assume "arp_inv s"
  ultimately show ?thesis by (auto simp: update_arp_entry_def unicast_def)
qed

lemma emit_inv [simp]: "arp_inv (emit xs s) = arp_inv s"
  by (simp add: arp_inv_def)

lemma etharp_ip_input_inv: "arp_inv s \<Longrightarrow> arp_inv (etharp_ip_input E n p s)"
  by (simp add: etharp_ip_input_def Let_def update_arp_entry_inv)

lemma etharp_arp_input_inv: "arp_inv s \<Longrightarrow> arp_inv (etharp_arp_input E n hw p s)"
  by (simp add: etharp_arp_input_def Let_def update_arp_entry_inv)

lemma ethernet_input_inv: "arp_inv s \<Longrightarrow> arp_inv (snd (ethernet_input E n p s))"
  by (simp add: ethernet_input_def Let_def etharp_ip_input_inv etharp_arp_input_inv)

lemma request_simps [simp]:
  "arp_table (snd (etharp_request E n ip s)) = arp_table s"
  "etharp_cached_entry (snd (etharp_request E n ip s)) = etharp_cached_entry s"
  by (simp_all add: etharp_request_def etharp_raw_def Let_def)

text \<open>One entry of the table at each step of the query.\<close>

definition waiting :: "etharp_entry \<Rightarrow> packet list \<Rightarrow> etharp_entry" where
  "waiting e ps = e\<lparr>arp_state := ETHARP_STATE_PENDING, arp_q := ps\<rparr>"

lemma etharp_query_inv:
  assumes inv: "arp_inv s"
  shows "arp_inv (snd (etharp_query E n ip q s))"
proof (cases "unicast n ip")
  case True
  note u = True [unfolded unicast_def]
  note f = find_entry_cases [OF inv, of ip ETHARP_TRY_HARD]
  obtain r t where rt: "find_entry ip ETHARP_TRY_HARD s = (r, t)" by (cases "find_entry ip ETHARP_TRY_HARD s")
  show ?thesis
  proof (cases r)
    case None
    then show ?thesis using u f rt inv by (auto simp: etharp_query_def)
  next
    case (Some i)
    then have t: "arp_inv t" "is_known ip i s t \<or> is_new ip i s t" using f rt by auto
    have i: "i < ARP_TABLE_SIZE" using t(2) by (auto simp: is_known_def is_new_def victim_def)
    have len: "length (arp_table s) = ARP_TABLE_SIZE" "length (arp_table t) = ARP_TABLE_SIZE"
      using inv t(1) by (auto simp: arp_inv_def)
    have ip: "arp_ip (arp_table t ! i) = ip" using t(2) i len by (auto simp: is_known_def is_new_def cleared_def)
    have ok: "entry_ok (arp_table t ! i)" using t(1) i len by (simp add: arp_inv_def)
    have other: "\<forall>j<ARP_TABLE_SIZE. j \<noteq> i \<longrightarrow> live (arp_table t ! j) \<longrightarrow> arp_ip (arp_table t ! j) \<noteq> ip"
    proof (intro allI impI)
      fix j assume j: "j < ARP_TABLE_SIZE" "j \<noteq> i" "live (arp_table t ! j)"
      then have "live (arp_table s ! j)" "arp_table t ! j = arp_table s ! j"
        using t(2) by (auto simp: is_known_def is_new_def)
      then show "arp_ip (arp_table t ! j) \<noteq> ip" using other_address [OF inv t(2) j(1,2)] by simp
    qed
    have e2: "(arp_table t ! i)\<lparr>arp_state := ETHARP_STATE_PENDING\<rparr> = waiting (arp_table t ! i) (arp_q (arp_table t ! i))"
      by (cases "arp_table t ! i") (simp add: waiting_def)
    have young: "ctime (arp_table t ! i) < ARP_MAXPENDING" if "arp_state (arp_table t ! i) \<noteq> ETHARP_STATE_STABLE"
    proof (cases "arp_state (arp_table t ! i)")
      case ETHARP_STATE_EMPTY
      then have "is_new ip i s t" using t(2) by (auto simp: is_known_def)
      then show ?thesis using i len by (simp add: is_new_def cleared_def ARP_MAXPENDING_def)
    next
      case ETHARP_STATE_PENDING
      then show ?thesis using ok by (simp add: entry_ok_def expired_def not_le)
    qed (use that in simp)
    have w: "arp_inv v" if "arp_state (arp_table t ! i) \<noteq> ETHARP_STATE_STABLE"
        "arp_table v = (arp_table t)[i := waiting (arp_table t ! i) ps]" "etharp_cached_entry v = etharp_cached_entry t" for v ps
    proof (rule arp_inv_update [OF t(1) i _ that(2)])
      show "entry_ok (waiting (arp_table t ! i) ps)"
        using young [OF that(1)] by (simp add: entry_ok_def expired_def waiting_def not_le)
      show "etharp_cached_entry v < ARP_TABLE_SIZE" using t(1) that(3) by (simp add: arp_inv_def)
    qed (use other ip in \<open>simp add: waiting_def\<close>)
    define t1 where "t1 = (if arp_state (arp_table t ! i) = ETHARP_STATE_EMPTY
      then set_entry i (arp_state_update (\<lambda>_. ETHARP_STATE_PENDING)) t else t)"
    have c1: "etharp_cached_entry t1 = etharp_cached_entry t" by (simp add: t1_def)
    show ?thesis
    proof (cases "arp_state (arp_table t ! i) = ETHARP_STATE_STABLE")
      case True
      then show ?thesis using u rt Some t(1)
        by (cases q) (auto simp: etharp_query_def etharp_request_def etharp_raw_def etharp_send_ip_def Let_def)
    next
      case False
      have t1: "arp_table t1 = (arp_table t)[i := waiting (arp_table t ! i) (arp_q (arp_table t ! i))]"
      proof (cases "arp_state (arp_table t ! i)")
        case ETHARP_STATE_PENDING
        then have "waiting (arp_table t ! i) (arp_q (arp_table t ! i)) = arp_table t ! i"
          by (cases "arp_table t ! i") (simp add: waiting_def)
        then show ?thesis using ETHARP_STATE_PENDING by (simp add: t1_def)
      qed (use False e2 in \<open>simp_all add: t1_def\<close>)
      have st: "arp_state (arp_table t1 ! i) = ETHARP_STATE_PENDING" using t1 i len by (simp add: waiting_def)
      obtain res t2 where r2: "etharp_request E n ip t1 = (res, t2)" by (cases "etharp_request E n ip t1")
      have t2: "arp_table t2 = arp_table t1" "etharp_cached_entry t2 = etharp_cached_entry t1"
        using r2 request_simps [of E n ip t1] by simp_all
      have i2: "arp_inv t2" using w [OF False] t1 t2 c1 by simp
      have q2: "arp_inv (set_entry i (arp_q_update (\<lambda>ps. ps @ [p])) t2)" for p
      proof (rule w [OF False])
        have "(waiting (arp_table t ! i) (arp_q (arp_table t ! i)))\<lparr>arp_q := arp_q (arp_table t ! i) @ [p]\<rparr>
            = waiting (arp_table t ! i) (arp_q (arp_table t ! i) @ [p])" by (simp add: waiting_def)
        then show "arp_table (set_entry i (arp_q_update (\<lambda>ps. ps @ [p])) t2)
            = (arp_table t)[i := waiting (arp_table t ! i) (arp_q (arp_table t ! i) @ [p])]"
          using i len by (cases "arp_table t ! i") (simp add: t2 t1 waiting_def)
      qed (use t2 c1 in simp)
      show ?thesis
      proof (cases q)
        case None
        then show ?thesis using u rt Some st r2 i2 by (simp add: etharp_query_def flip: t1_def)
      next
        case (Some p)
        then show ?thesis using u rt \<open>r = Some i\<close> st r2 i2 q2 t2
          by (auto simp: etharp_query_def Let_def split: option.splits simp flip: t1_def)
      qed
    qed
  qed
next
  case False
  then show ?thesis using inv by (auto simp: etharp_query_def unicast_def)
qed

text \<open>The timer ages every entry by one and empties those that reach their limit.\<close>

definition tick :: "etharp_entry \<Rightarrow> etharp_entry" where
  "tick e = (let e = ctime_update (\<lambda>c. c + 1) e in if expired e then e\<lparr>arp_q := [], arp_state := ETHARP_STATE_EMPTY\<rparr> else e)"

lemma tmr_entry_table:
  "i < length (arp_table s) \<Longrightarrow> arp_table (tmr_entry i s) = (arp_table s)[i := tick (arp_table s ! i)]
    \<and> etharp_cached_entry (tmr_entry i s) = etharp_cached_entry s"
  by (simp add: tmr_entry_def tick_def free_etharp_q_def Let_def)

lemma etharp_tmr_table:
  assumes "length (arp_table s) = ARP_TABLE_SIZE"
  shows "arp_table (etharp_tmr s) = map tick (arp_table s)" "etharp_cached_entry (etharp_tmr s) = etharp_cached_entry s"
proof -
  have "arp_table (fold tmr_entry [0..<k] s) = map tick (take k (arp_table s)) @ drop k (arp_table s)
      \<and> etharp_cached_entry (fold tmr_entry [0..<k] s) = etharp_cached_entry s" if "k \<le> ARP_TABLE_SIZE" for k
    using that
  proof (induction k)
    case (Suc k)
    have k: "k < length (arp_table s)" using Suc.prems assms by simp
    let ?s = "fold tmr_entry [0..<k] s"
    have t: "arp_table ?s = map tick (take k (arp_table s)) @ drop k (arp_table s)"
        "etharp_cached_entry ?s = etharp_cached_entry s" using Suc by simp_all
    have d: "drop k (arp_table s) = arp_table s ! k # drop (Suc k) (arp_table s)" using k by (simp add: Cons_nth_drop_Suc)
    have "k < length (arp_table ?s)" using k by (simp add: t(1))
    from tmr_entry_table [OF this] show ?case
      using k by (simp add: t d take_Suc_conv_app_nth nth_append list_update_append)
  qed simp
  from this [of ARP_TABLE_SIZE] assms show "arp_table (etharp_tmr s) = map tick (arp_table s)"
      "etharp_cached_entry (etharp_tmr s) = etharp_cached_entry s"
    by (simp_all add: etharp_tmr_def)
qed

lemma tick_live: "live (tick e) \<Longrightarrow> live e \<and> arp_ip (tick e) = arp_ip e"
  by (auto simp: tick_def Let_def split: if_splits)

lemma tick_ok: "entry_ok e \<Longrightarrow> entry_ok (tick e)"
  by (auto simp: tick_def Let_def entry_ok_def expired_def)

lemma etharp_tmr_inv:
  assumes "arp_inv s"
  shows "arp_inv (etharp_tmr s)"
proof -
  have len: "length (arp_table s) = ARP_TABLE_SIZE" using assms by (simp add: arp_inv_def)
  have "i = j" if "i < ARP_TABLE_SIZE" "j < ARP_TABLE_SIZE" "live (map tick (arp_table s) ! i)" "live (map tick (arp_table s) ! j)"
      "arp_ip (map tick (arp_table s) ! i) = arp_ip (map tick (arp_table s) ! j)" for i j
  proof -
    have "live (arp_table s ! i)" "live (arp_table s ! j)" "arp_ip (arp_table s ! i) = arp_ip (arp_table s ! j)"
      using that tick_live [of "arp_table s ! i"] tick_live [of "arp_table s ! j"] len by auto
    then show ?thesis using assms that(1,2) by (auto simp: arp_inv_def)
  qed
  moreover have "\<forall>e\<in>set (map tick (arp_table s)). entry_ok e" using assms tick_ok by (auto simp: arp_inv_def)
  ultimately show ?thesis
    using assms len unfolding arp_inv_def etharp_tmr_table [OF len] by simp
qed

lemma etharp_output_inv: "arp_inv s \<Longrightarrow> arp_inv (snd (etharp_output E n header_room q ip s))"
  by (simp add: etharp_output_def etharp_send_ip_def etharp_query_inv)

text \<open>The states the cache can get into: the interface and the environment may differ at each step.\<close>

inductive arp_reach :: "arp \<Rightarrow> bool" where
  init: "arp_reach \<lparr>arp_table = replicate ARP_TABLE_SIZE
      \<lparr>arp_q = [], arp_ip = 0, arp_hw = [], arp_state = ETHARP_STATE_EMPTY, ctime = 0\<rparr>, etharp_cached_entry = 0, arp_ops = []\<rparr>"
| tmr: "arp_reach s \<Longrightarrow> arp_reach (etharp_tmr s)"
| input: "arp_reach s \<Longrightarrow> arp_reach (snd (ethernet_input E n p s))"
| send: "arp_reach s \<Longrightarrow> arp_reach (snd (etharp_output E n header_room q ip s))"
| query: "arp_reach s \<Longrightarrow> arp_reach (snd (etharp_query E n ip q s))"
| lookup: "arp_reach s \<Longrightarrow> arp_reach (snd (etharp_find_addr ip s))"

lemma etharp_find_addr_known:
  assumes "arp_inv s"
  shows "arp_inv (snd (etharp_find_addr ip s))"
    and "fst (etharp_find_addr ip s) = Some (i, hw, a) \<longleftrightarrow>
      i < ARP_TABLE_SIZE \<and> is_stable (arp_table s ! i) \<and> arp_ip (arp_table s ! i) = ip \<and> a = ip \<and> hw = arp_hw (arp_table s ! i)"
proof -
  have fo: "ETHARP_FIND_ONLY AND ETHARP_FIND_ONLY \<noteq> 0" by (simp add: ETHARP_FIND_ONLY_def)
  obtain r t where rt: "find_entry ip ETHARP_FIND_ONLY s = (r, t)" by (cases "find_entry ip ETHARP_FIND_ONLY s")
  note f = find_entry_cases [OF assms, of ip ETHARP_FIND_ONLY]
  have r: "r = None \<and> t = s \<and> unknown ip s \<or> (\<exists>j. r = Some j \<and> is_known ip j s t \<and> arp_inv t)"
    using f fo rt by (cases r) auto
  show "arp_inv (snd (etharp_find_addr ip s))" using r rt assms by (auto simp: etharp_find_addr_def Let_def)
  have one: "i = j" if "i < ARP_TABLE_SIZE" "is_stable (arp_table s ! i)" "arp_ip (arp_table s ! i) = ip"
      "is_known ip j s t" for j
    using assms that unfolding arp_inv_def is_known_def is_stable_def
    by (metis etharp_state.distinct(3))
  have "\<not> unknown ip s" if "i < ARP_TABLE_SIZE" "is_stable (arp_table s ! i)" "arp_ip (arp_table s ! i) = ip"
    using assms that by (auto simp: unknown_def arp_inv_def is_stable_def intro!: bexI [of _ "arp_table s ! i"])
  then show "fst (etharp_find_addr ip s) = Some (i, hw, a) \<longleftrightarrow>
      i < ARP_TABLE_SIZE \<and> is_stable (arp_table s ! i) \<and> arp_ip (arp_table s ! i) = ip \<and> a = ip \<and> hw = arp_hw (arp_table s ! i)"
  proof (cases "\<exists>j. r = Some j")
    case True
    then obtain j where j: "r = Some j" "is_known ip j s t" using r by auto
    show ?thesis
    proof (cases "i = j")
      case True
      then show ?thesis using rt j by (auto simp: etharp_find_addr_def Let_def is_known_def is_stable_def)
    next
      case False
      then show ?thesis using rt j one [OF _ _ _ j(2)] by (auto simp: etharp_find_addr_def Let_def)
    qed
  next
    case False
    then have "r = None" "unknown ip s" using r by auto
    then show ?thesis using rt \<open>i < ARP_TABLE_SIZE \<Longrightarrow> is_stable (arp_table s ! i) \<Longrightarrow> arp_ip (arp_table s ! i) = ip \<Longrightarrow> \<not> unknown ip s\<close>
      by (auto simp: etharp_find_addr_def)
  qed
qed

lemma arp_reach_inv: "arp_reach s \<Longrightarrow> arp_inv s"
proof (induction rule: arp_reach.induct)
  case init
  show ?case by (simp add: arp_inv_def ARP_TABLE_SIZE_def entry_ok_def expired_def)
qed (simp_all add: etharp_tmr_inv ethernet_input_inv etharp_output_inv etharp_query_inv etharp_find_addr_known(1))

text \<open>
  C15: Whatever arrives, is sent, is looked up or times out, the cache never has two live entries
  for one address, packets wait only on entries whose resolution is pending, and every
  mapping in use is younger than its limit.
\<close>

theorem arp_cache_invariant:
  assumes "arp_reach s"
  shows "length (arp_table s) = ARP_TABLE_SIZE
    \<and> (\<forall>i<ARP_TABLE_SIZE. \<forall>j<ARP_TABLE_SIZE. live (arp_table s ! i) \<and> live (arp_table s ! j)
         \<and> arp_ip (arp_table s ! i) = arp_ip (arp_table s ! j) \<longrightarrow> i = j)
    \<and> (\<forall>e\<in>set (arp_table s). (arp_q e \<noteq> [] \<longrightarrow> arp_state e = ETHARP_STATE_PENDING)
         \<and> (arp_state e = ETHARP_STATE_STABLE \<longrightarrow> ctime e < ARP_MAXAGE)
         \<and> (arp_state e = ETHARP_STATE_PENDING \<longrightarrow> ctime e < ARP_MAXPENDING))"
  using arp_reach_inv [OF assms] by (auto simp: arp_inv_def entry_ok_def expired_def not_le)

theorem arp_cache_invariant_witness:
  "\<exists>s. arp_reach s \<and> length (arp_table s) = 10 \<and> (\<forall>i<10. \<forall>j<10. live (arp_table s ! i) \<and> live (arp_table s ! j)
         \<and> arp_ip (arp_table s ! i) = arp_ip (arp_table s ! j) \<longrightarrow> i = j)"
  using arp_cache_invariant [OF arp_reach.tmr [OF arp_reach.init], unfolded ARP_TABLE_SIZE_def]
    arp_reach.tmr [OF arp_reach.init] unfolding ARP_TABLE_SIZE_def by blast

lemma try_hard [simp]: "ETHARP_TRY_HARD AND ETHARP_FIND_ONLY = 0" "ETHARP_TRY_HARD \<noteq> 0"
  by (simp_all add: ETHARP_TRY_HARD_def ETHARP_FIND_ONLY_def)

lemma learned:
  assumes "arp_inv s" "unicast n ip" "update_arp_entry E n ip hw ETHARP_TRY_HARD s = (r, s')"
  shows "\<exists>i. r = ERR_OK \<and> arp_inv s' \<and> i < ARP_TABLE_SIZE \<and> arp_table s' = (arp_table s)[i := mapped (arp_table s ! i) ip hw]
    \<and> (live (arp_table s ! i) \<and> arp_ip (arp_table s ! i) = ip \<and> arp_ops s' = arp_ops s @ sends hw (hwaddr n) (arp_q (arp_table s ! i))
       \<or> unknown ip s \<and> victim s i \<and> arp_ops s' = arp_ops s @ map Free (arp_q (arp_table s ! i))) \<and> fst (etharp_find_addr ip s') = Some (i, hw, ip)"
proof -
  obtain i where r: "r = ERR_OK" "arp_inv s'" "i < ARP_TABLE_SIZE"
      "arp_table s' = (arp_table s)[i := mapped (arp_table s ! i) ip hw]"
      "live (arp_table s ! i) \<and> arp_ip (arp_table s ! i) = ip \<and> arp_ops s' = arp_ops s @ sends hw (hwaddr n) (arp_q (arp_table s ! i))
       \<or> unknown ip s \<and> victim s i \<and> arp_ops s' = arp_ops s @ map Free (arp_q (arp_table s ! i))"
    using update_arp_entry_cases [OF assms(1,2), where E = E and hw = hw and mode = ETHARP_TRY_HARD] assms(3) by auto
  have len: "length (arp_table s) = ARP_TABLE_SIZE" using assms(1) by (simp add: arp_inv_def)
  have "fst (etharp_find_addr ip s') = Some (i, hw, ip)"
    unfolding etharp_find_addr_known(2) [OF r(2)] using r(3,4) len by (simp add: mapped_def is_stable_def)
  then show ?thesis using r by blast
qed

text \<open>
  C22: With \<open>ETHARP_TRY_HARD\<close>, an address that can be a station's is always learned and found again at once.  The packets that wait for it are sent to
  the station in their order, each released after it was sent; when the address was not in the table nothing is sent.  Another
  confirmed mapping is lost only when no entry is empty, and then the one that has not been confirmed for the
  longest time; all the others stay as they are.
\<close>

theorem update_arp_entry_learns:
  assumes "arp_reach s" "ip \<noteq> 0" "\<not> ip_addr_isbroadcast ip n" "\<not> ip_addr_ismulticast ip"
    and "update_arp_entry E n ip hw ETHARP_TRY_HARD s = (r, s')"
  shows "r = ERR_OK \<and> (\<exists>i. fst (etharp_find_addr ip s') = Some (i, hw, ip))
    \<and> (\<forall>e\<in>set (arp_table s). arp_state e \<noteq> ETHARP_STATE_EMPTY \<and> arp_ip e = ip \<longrightarrow>
         arp_ops s' = arp_ops s @ concat (map (\<lambda>p. [Linkoutput (with_header hw (hwaddr n) p), Free p]) (arp_q e)))
    \<and> ((\<forall>e\<in>set (arp_table s). arp_state e \<noteq> ETHARP_STATE_EMPTY \<longrightarrow> arp_ip e \<noteq> ip) \<longrightarrow>
         (\<exists>ps. arp_ops s' = arp_ops s @ map Free ps))
    \<and> (\<forall>ip' j hw'. ip' \<noteq> ip \<and> fst (etharp_find_addr ip' s) = Some (j, hw', ip') \<longrightarrow>
         fst (etharp_find_addr ip' s') = Some (j, hw', ip')
         \<or> (\<forall>e\<in>set (arp_table s). arp_state e \<noteq> ETHARP_STATE_EMPTY \<and> (arp_state e = ETHARP_STATE_STABLE
              \<longrightarrow> ctime e \<le> ctime (arp_table s ! j))))"
proof -
  have inv: "arp_inv s" by (rule arp_reach_inv [OF assms(1)])
  have u: "unicast n ip" using assms(2-4) by (simp add: unicast_def)
  obtain i where r: "r = ERR_OK" "arp_inv s'" "i < ARP_TABLE_SIZE"
      "arp_table s' = (arp_table s)[i := mapped (arp_table s ! i) ip hw]"
      "live (arp_table s ! i) \<and> arp_ip (arp_table s ! i) = ip \<or> victim s i" "fst (etharp_find_addr ip s') = Some (i, hw, ip)"
      "live (arp_table s ! i) \<and> arp_ip (arp_table s ! i) = ip \<and> arp_ops s' = arp_ops s @ sends hw (hwaddr n) (arp_q (arp_table s ! i))
       \<or> unknown ip s \<and> arp_ops s' = arp_ops s @ map Free (arp_q (arp_table s ! i))"
    using learned [OF inv u assms(5)] by blast
  have len: "length (arp_table s) = ARP_TABLE_SIZE" using inv by (simp add: arp_inv_def)
  have "arp_ops s' = arp_ops s @ concat (map (\<lambda>p. [Linkoutput (with_header hw (hwaddr n) p), Free p]) (arp_q e))"
    if e: "e \<in> set (arp_table s)" "arp_state e \<noteq> ETHARP_STATE_EMPTY" "arp_ip e = ip" for e
  proof -
    obtain j where j: "j < ARP_TABLE_SIZE" "arp_table s ! j = e" using e(1) len by (auto simp: in_set_conv_nth)
    have "\<not> unknown ip s" using e by (auto simp: unknown_def)
    then have k: "live (arp_table s ! i)" "arp_ip (arp_table s ! i) = ip" "arp_ops s' = arp_ops s @ sends hw (hwaddr n) (arp_q (arp_table s ! i))"
      using r(7) by blast+
    have "i = j" using inv j k(1,2) r(3) e by (auto simp: arp_inv_def)
    then show ?thesis using k(3) j(2) by (simp add: sends_def)
  qed
  moreover have "\<exists>ps. arp_ops s' = arp_ops s @ map Free ps" if "\<forall>e\<in>set (arp_table s). arp_state e \<noteq> ETHARP_STATE_EMPTY \<longrightarrow> arp_ip e \<noteq> ip"
  proof -
    have "arp_table s ! i \<in> set (arp_table s)" using r(3) len by simp
    then show ?thesis using r(7) that by auto
  qed
  moreover note r(6)
  moreover have "fst (etharp_find_addr ip' s') = Some (j, hw', ip')
         \<or> (\<forall>e\<in>set (arp_table s). arp_state e \<noteq> ETHARP_STATE_EMPTY \<and> (arp_state e = ETHARP_STATE_STABLE
              \<longrightarrow> ctime e \<le> ctime (arp_table s ! j)))"
    if o: "ip' \<noteq> ip" "fst (etharp_find_addr ip' s) = Some (j, hw', ip')" for ip' j hw'
  proof (cases "i = j")
    case True
    then have "is_stable (arp_table s ! i)" "arp_ip (arp_table s ! i) = ip'"
      using o(2) unfolding etharp_find_addr_known(2) [OF inv] by auto
    moreover from this have "arp_table s ! i \<in> set (arp_table s)" using r(3) len by simp
    ultimately show ?thesis using r(5) o(1) True by (auto simp: victim_def is_stable_def)
  next
    case False
    then have "fst (etharp_find_addr ip' s') = Some (j, hw', ip')"
      using o(2) r(4) unfolding etharp_find_addr_known(2) [OF inv] etharp_find_addr_known(2) [OF r(2)] by simp
    then show ?thesis ..
  qed
  ultimately show ?thesis using r(1) by blast
qed

text \<open>A cache that knows one address, and an interface 192.168.1.1 / 24.\<close>

definition arp_example :: arp where
  "arp_example = \<lparr>arp_table = replicate ARP_TABLE_SIZE
      \<lparr>arp_q = [], arp_ip = 0, arp_hw = [], arp_state = ETHARP_STATE_EMPTY, ctime = 0\<rparr>, etharp_cached_entry = 0, arp_ops = []\<rparr>"

definition lan :: netif where
  "lan = \<lparr>ip_addr = IP4_ADDR 192 168 1 1, netmask = IP4_ADDR 255 255 255 0, gw = IP4_ADDR 192 168 1 254, hwaddr_len = 6,
     hwaddr = [2, 0, 0, 0, 0, 1], mtu = 1500, flags = 0x33, dhcp_tries = None\<rparr>"

lemma lan_host: "IP4_ADDR 192 168 1 7 \<noteq> 0 \<and> \<not> ip_addr_isbroadcast (IP4_ADDR 192 168 1 7) lan
    \<and> \<not> ip_addr_ismulticast (IP4_ADDR 192 168 1 7)"
  by (simp add: IP4_ADDR_def htonl_def lan_def ip_addr_isbroadcast_def ip_addr_netcmp_def ip_addr_ismulticast_def
      ntohl_def NETIF_FLAG_BROADCAST_def push_bit_eq_mult drop_bit_eq_div)

theorem update_arp_entry_learns_witness:
  "\<forall>E. \<exists>s' i. update_arp_entry E lan (IP4_ADDR 192 168 1 7) [1, 2, 3, 4, 5, 6] ETHARP_TRY_HARD arp_example = (ERR_OK, s')
    \<and> fst (etharp_find_addr (IP4_ADDR 192 168 1 7) s') = Some (i, [1, 2, 3, 4, 5, 6], IP4_ADDR 192 168 1 7)"
proof
  fix E :: arp_env
  have r: "arp_reach arp_example" unfolding arp_example_def by (rule arp_reach.init)
  obtain e s' where u: "update_arp_entry E lan (IP4_ADDR 192 168 1 7) [1, 2, 3, 4, 5, 6] ETHARP_TRY_HARD arp_example = (e, s')"
    by (cases "update_arp_entry E lan (IP4_ADDR 192 168 1 7) [1, 2, 3, 4, 5, 6] ETHARP_TRY_HARD arp_example")
  show "\<exists>s' i. update_arp_entry E lan (IP4_ADDR 192 168 1 7) [1, 2, 3, 4, 5, 6] ETHARP_TRY_HARD arp_example = (ERR_OK, s')
    \<and> fst (etharp_find_addr (IP4_ADDR 192 168 1 7) s') = Some (i, [1, 2, 3, 4, 5, 6], IP4_ADDR 192 168 1 7)"
    using update_arp_entry_learns [OF r _ _ _ u] lan_host u by blast
qed

section \<open>Reading an ARP packet\<close>

lemma arp_frame_fields:
  assumes "length ethsrc = 6" "length ethdst = 6" "length hwsrc = 6" "length hwdst = 6"
  shows "length (arp_frame ethsrc ethdst hwsrc ipsrc hwdst ipdst opcode) = 42"
    and "word16 (arp_frame ethsrc ethdst hwsrc ipsrc hwdst ipdst opcode) 12 = htons ETHTYPE_ARP"
    and "word16 (arp_frame ethsrc ethdst hwsrc ipsrc hwdst ipdst opcode) 14 = htons HWTYPE_ETHERNET"
    and "word16 (arp_frame ethsrc ethdst hwsrc ipsrc hwdst ipdst opcode) 16 = htons ETHTYPE_IP"
    and "word16 (arp_frame ethsrc ethdst hwsrc ipsrc hwdst ipdst opcode) 18 = htons 0x0604"
    and "word16 (arp_frame ethsrc ethdst hwsrc ipsrc hwdst ipdst opcode) 20 = htons opcode"
    and "field (arp_frame ethsrc ethdst hwsrc ipsrc hwdst ipdst opcode) 22 6 = hwsrc"
    and "word32 (arp_frame ethsrc ethdst hwsrc ipsrc hwdst ipdst opcode) 28 = ipsrc"
    and "word32 (arp_frame ethsrc ethdst hwsrc ipsrc hwdst ipdst opcode) 38 = ipdst"
proof -
  let ?t = "ethdst @ ethsrc" and ?f = "arp_frame ethsrc ethdst hwsrc ipsrc hwdst ipdst opcode"
  let ?a = "bytes16 (htons ETHTYPE_ARP)" and ?b = "bytes16 (htons HWTYPE_ETHERNET)" and ?c = "bytes16 (htons ETHTYPE_IP)"
    and ?d = "bytes16 (htons 0x0604)" and ?e = "bytes16 (htons opcode)"
  show "length ?f = 42" using assms by (simp add: arp_frame_def)
  show "word16 ?f 12 = htons ETHTYPE_ARP" using word16_at [of ?t 12] assms by (simp add: arp_frame_def)
  show "word16 ?f 14 = htons HWTYPE_ETHERNET" using word16_at [of "?t @ ?a" 14] assms by (simp add: arp_frame_def)
  show "word16 ?f 16 = htons ETHTYPE_IP" using word16_at [of "?t @ ?a @ ?b" 16] assms by (simp add: arp_frame_def)
  show "word16 ?f 18 = htons 0x0604" using word16_at [of "?t @ ?a @ ?b @ ?c" 18] assms by (simp add: arp_frame_def)
  show "word16 ?f 20 = htons opcode" using word16_at [of "?t @ ?a @ ?b @ ?c @ ?d" 20] assms by (simp add: arp_frame_def)
  show "field ?f 22 6 = hwsrc" using field_at [of "?t @ ?a @ ?b @ ?c @ ?d @ ?e" 22 hwsrc 6] assms by (simp add: arp_frame_def)
  show "word32 ?f 28 = ipsrc" using word32_at [of "?t @ ?a @ ?b @ ?c @ ?d @ ?e @ hwsrc" 28] assms by (simp add: arp_frame_def)
  show "word32 ?f 38 = ipdst"
    using word32_at [of "?t @ ?a @ ?b @ ?c @ ?d @ ?e @ hwsrc @ mem_bytes ipsrc @ hwdst" 38 ipdst "[]"] assms
    by (simp add: arp_frame_def)
qed

lemma reply_for_us:
  assumes "length ethsrc = 6" "length ethdst = 6" "length hwsrc = 6" "length hwdst = 6" "ip_addr n \<noteq> 0"
  shows "etharp_arp_input E n hw [(t, arp_frame ethsrc ethdst hwsrc ipsrc hwdst (ip_addr n) ARP_REPLY)] s =
    emit [Dhcp_arp_reply ipsrc, Free [(t, arp_frame ethsrc ethdst hwsrc ipsrc hwdst (ip_addr n) ARP_REPLY)]]
      (snd (update_arp_entry E n ipsrc hwsrc ETHARP_TRY_HARD s))"
  using assms(5) by (simp add: etharp_arp_input_def Let_def arp_frame_fields [OF assms(1-4)] ARP_REPLY_def ARP_REQUEST_def)

lemma find_addr_emit [simp]: "fst (etharp_find_addr ip (emit xs s)) = fst (etharp_find_addr ip s)"
proof -
  have "fst (find_entry ip m (emit xs s)) = fst (find_entry ip m s)
      \<and> arp_table (snd (find_entry ip m (emit xs s))) = arp_table (snd (find_entry ip m s))" for m
    by (auto simp: find_entry_def Let_def recycle_def free_etharp_q_def split: sum.splits)
  then show ?thesis
    by (auto simp: etharp_find_addr_def Let_def split: prod.splits option.splits) (metis fst_conv snd_conv option.distinct(1) option.inject)+
qed

section \<open>Ageing\<close>

lemma tick_live_funpow: "live ((tick ^^ k) e) \<Longrightarrow> live e \<and> arp_ip ((tick ^^ k) e) = arp_ip e"
  by (induction k) (auto dest: tick_live)

lemma tick_stable:
  assumes "is_stable e" "unat (ctime e) + k < 240"
  shows "(tick ^^ k) e = e\<lparr>ctime := ctime e + of_nat k\<rparr>"
  using assms(2)
proof (induction k)
  case (Suc k)
  have "unat (ctime e + of_nat k) = unat (ctime e) + k" "unat (ctime e + of_nat k + 1) = unat (ctime e) + k + 1"
    using Suc.prems by (simp_all add: unat_word_ariths unat_of_nat mod_add_right_eq)
  then have "\<not> ARP_MAXAGE \<le> ctime e + of_nat k + 1"
    using Suc.prems by (simp add: word_le_nat_alt ARP_MAXAGE_def)
  then show ?case using Suc assms(1)
    by (cases e) (auto simp: tick_def Let_def expired_def is_stable_def ac_simps)
qed simp

lemma tick_expires:
  assumes "is_stable e" "unat (ctime e) < 240" "240 \<le> unat (ctime e) + k"
  shows "\<not> live ((tick ^^ k) e)"
proof
  assume l: "live ((tick ^^ k) e)"
  define m where "m = 239 - unat (ctime e)"
  have m: "unat (ctime e) + m = 239" "Suc m \<le> k" using assms(2,3) by (auto simp: m_def)
  have "(tick ^^ m) e = e\<lparr>ctime := ctime e + of_nat m\<rparr>" using tick_stable [OF assms(1)] m(1) by simp
  moreover have "unat (ctime e + of_nat m + 1) = 240" using m(1) by (simp add: unat_word_ariths unat_of_nat mod_add_right_eq)
  then have "ARP_MAXAGE \<le> ctime e + of_nat m + 1" by (simp add: word_le_nat_alt ARP_MAXAGE_def)
  ultimately have "\<not> live ((tick ^^ Suc m) e)"
    using assms(1) by (cases e) (auto simp: tick_def Let_def expired_def is_stable_def ac_simps)
  moreover have "(tick ^^ k) e = (tick ^^ (k - Suc m)) ((tick ^^ Suc m) e)"
    using m(2) funpow_add [of "k - Suc m" "Suc m" tick] by simp
  ultimately show False using tick_live_funpow l by metis
qed

lemma etharp_tmr_funpow:
  "arp_inv s \<Longrightarrow> arp_inv ((etharp_tmr ^^ k) s) \<and> arp_table ((etharp_tmr ^^ k) s) = map (tick ^^ k) (arp_table s)"
proof (induction k)
  case (Suc k)
  then have i: "arp_inv ((etharp_tmr ^^ k) s)" and t: "arp_table ((etharp_tmr ^^ k) s) = map (tick ^^ k) (arp_table s)" by auto
  then have "length (arp_table ((etharp_tmr ^^ k) s)) = ARP_TABLE_SIZE" by (simp add: arp_inv_def)
  then show ?case using etharp_tmr_inv [OF i] etharp_tmr_table(1) t by simp
qed simp

text \<open>
  C31: A mapping that is not confirmed stays in use for exactly 240 calls of the timer (of 5
  seconds each) from its last confirmation, and is not found afterwards.
\<close>

theorem arp_mapping_age:
  assumes "arp_reach s" "fst (etharp_find_addr ip s) = Some (i, hw, ip)"
  shows "fst (etharp_find_addr ip ((etharp_tmr ^^ k) s)) =
    (if unat (ctime (arp_table s ! i)) + k < 240 then Some (i, hw, ip) else None)"
proof -
  have inv: "arp_inv s" by (rule arp_reach_inv [OF assms(1)])
  have len: "length (arp_table s) = ARP_TABLE_SIZE" using inv by (simp add: arp_inv_def)
  have i: "i < ARP_TABLE_SIZE" "is_stable (arp_table s ! i)" "arp_ip (arp_table s ! i) = ip" "hw = arp_hw (arp_table s ! i)"
    using assms(2) unfolding etharp_find_addr_known(2) [OF inv] by auto
  let ?t = "(etharp_tmr ^^ k) s"
  have inv': "arp_inv ?t" and tab: "arp_table ?t = map (tick ^^ k) (arp_table s)"
    using etharp_tmr_funpow [OF inv] by auto
  have ti: "arp_table ?t ! j = (tick ^^ k) (arp_table s ! j)" if "j < ARP_TABLE_SIZE" for j using that len by (simp add: tab)
  have "entry_ok (arp_table s ! i)" using inv i(1) len by (simp add: arp_inv_def)
  then have young: "unat (ctime (arp_table s ! i)) < 240"
    using i(2) by (simp add: entry_ok_def expired_def is_stable_def word_le_nat_alt ARP_MAXAGE_def)
  show ?thesis
  proof (cases "unat (ctime (arp_table s ! i)) + k < 240")
    case True
    then have "fst (etharp_find_addr ip ?t) = Some (i, hw, ip)"
      unfolding etharp_find_addr_known(2) [OF inv'] using i tick_stable [OF i(2) True] by (simp add: ti is_stable_def)
    then show ?thesis using True by simp
  next
    case False
    have "fst (etharp_find_addr ip ?t) \<noteq> Some (j, hw', a)" for j hw' a
    proof
      assume "fst (etharp_find_addr ip ?t) = Some (j, hw', a)"
      then have j: "j < ARP_TABLE_SIZE" "live (arp_table ?t ! j)" "arp_ip (arp_table ?t ! j) = ip"
        unfolding etharp_find_addr_known(2) [OF inv'] by (auto simp: is_stable_def)
      then have "live (arp_table s ! j)" "arp_ip (arp_table s ! j) = ip"
        using tick_live_funpow [of k "arp_table s ! j"] ti by auto
      then have "j = i" using inv i j(1) by (auto simp: arp_inv_def is_stable_def)
      then show False using tick_expires [OF i(2) young] False j(1,2) ti by auto
    qed
    then show ?thesis using False by (cases "fst (etharp_find_addr ip ?t)") auto
  qed
qed

theorem arp_mapping_age_witness:
  "\<forall>E. \<exists>s i. fst (etharp_find_addr (IP4_ADDR 192 168 1 7) s) = Some (i, [1, 2, 3, 4, 5, 6], IP4_ADDR 192 168 1 7)
    \<and> fst (etharp_find_addr (IP4_ADDR 192 168 1 7) ((etharp_tmr ^^ 240) s)) = None"
proof
  fix E :: arp_env
  let ?ip = "IP4_ADDR 192 168 1 7" and ?hw = "[1, 2, 3, 4, 5, 6] :: u8 list"
  let ?p = "[(PBUF_POOL, arp_frame ?hw (hwaddr lan) ?hw ?ip (hwaddr lan) (ip_addr lan) ARP_REPLY)]"
  define s where "s = snd (ethernet_input E lan ?p arp_example)"
  have r0: "arp_reach arp_example" unfolding arp_example_def by (rule arp_reach.init)
  then have r: "arp_reach s" unfolding s_def by (rule arp_reach.input)
  obtain e s1 where u: "update_arp_entry E lan ?ip ?hw ETHARP_TRY_HARD arp_example = (e, s1)"
    by (cases "update_arp_entry E lan ?ip ?hw ETHARP_TRY_HARD arp_example")
  have us: "ip_addr lan \<noteq> 0" "length (hwaddr lan) = 6"
    by (simp_all add: lan_def IP4_ADDR_def htonl_def push_bit_eq_mult drop_bit_eq_div)
  then have "s = emit [Dhcp_arp_reply ?ip, Free ?p] s1"
    using reply_for_us [of ?hw "hwaddr lan" ?hw "hwaddr lan" lan E] u
    by (simp add: s_def ethernet_input_def Let_def arp_frame_fields ETHTYPE_ARP_def ETHTYPE_IP_def)
  moreover obtain i where "fst (etharp_find_addr ?ip s1) = Some (i, ?hw, ?ip)"
    using learned [OF arp_reach_inv [OF r0] _ u] lan_host by (auto simp: unicast_def)
  ultimately have "fst (etharp_find_addr ?ip s) = Some (i, ?hw, ?ip)" by simp
  moreover from arp_mapping_age [OF r this, of 240] have "fst (etharp_find_addr ?ip ((etharp_tmr ^^ 240) s)) = None" by simp
  ultimately show "\<exists>s i. fst (etharp_find_addr ?ip s) = Some (i, ?hw, ?ip)
    \<and> fst (etharp_find_addr ?ip ((etharp_tmr ^^ 240) s)) = None" by blast
qed

section \<open>Packets that wait for an address\<close>

definition waits :: "u32 \<Rightarrow> packet list \<Rightarrow> arp \<Rightarrow> bool" where
  "waits ip ps s \<longleftrightarrow> (\<exists>i<ARP_TABLE_SIZE. arp_state (arp_table s ! i) = ETHARP_STATE_PENDING
     \<and> arp_ip (arp_table s ! i) = ip \<and> arp_q (arp_table s ! i) = ps)"

text \<open>The copy the cache keeps of a packet that does not start in ROM.\<close>

definition copy_of :: "packet \<Rightarrow> packet" where
  "copy_of q = [(PBUF_RAM, concat (map snd q))]"

lemma etharp_query_waits:
  assumes inv: "arp_inv s" and u: "unicast n ip" and w: "unknown ip s \<and> ps = [] \<or> waits ip ps s"
    and E: "copy_pbuf E" "queue_entry E" and q: "q \<noteq> []" "fst (hd q) \<noteq> PBUF_ROM"
  shows "waits ip (ps @ [copy_of q]) (snd (etharp_query E n ip (Some q) s))"
proof -
  note uu = u [unfolded unicast_def]
  obtain r t where rt: "find_entry ip ETHARP_TRY_HARD s = (r, t)" by (cases "find_entry ip ETHARP_TRY_HARD s")
  note f = find_entry_cases [OF inv, of ip ETHARP_TRY_HARD]
  obtain i where i: "r = Some i" "arp_inv t" "is_known ip i s t \<or> is_new ip i s t" using f rt by (cases r) auto
  have i10: "i < ARP_TABLE_SIZE" using i(3) by (auto simp: is_known_def is_new_def victim_def)
  have len: "length (arp_table s) = ARP_TABLE_SIZE" "length (arp_table t) = ARP_TABLE_SIZE"
    using inv i(2) by (auto simp: arp_inv_def)
  have e: "arp_state (arp_table t ! i) \<noteq> ETHARP_STATE_STABLE \<and> arp_ip (arp_table t ! i) = ip \<and> arp_q (arp_table t ! i) = ps"
    using i(3)
  proof
    assume k: "is_known ip i s t"
    then have "arp_table s ! i \<in> set (arp_table s)" using len by (simp add: is_known_def)
    then have "\<not> unknown ip s" using k by (auto simp: is_known_def unknown_def)
    then obtain j where j: "j < ARP_TABLE_SIZE" "arp_state (arp_table s ! j) = ETHARP_STATE_PENDING"
        "arp_ip (arp_table s ! j) = ip" "arp_q (arp_table s ! j) = ps" using w by (auto simp: waits_def)
    then have "i = j" using inv k by (auto simp: arp_inv_def is_known_def)
    then show ?thesis using j k by (simp add: is_known_def)
  next
    assume k: "is_new ip i s t"
    have "\<not> waits ip ps s"
    proof
      assume "waits ip ps s"
      then obtain j where "j < ARP_TABLE_SIZE" "live (arp_table s ! j)" "arp_ip (arp_table s ! j) = ip" by (auto simp: waits_def)
      moreover from this have "arp_table s ! j \<in> set (arp_table s)" using len by simp
      ultimately show False using k by (auto simp: is_new_def unknown_def)
    qed
    then show ?thesis using w k i10 len by (auto simp: is_new_def cleared_def)
  qed
  have tk: "take_over E q = Some (copy_of q)"
  proof -
    have "dropWhile (\<lambda>(t, xs). t = PBUF_ROM) q = q" using q by (cases q) (auto split: prod.splits)
    then show ?thesis using q E(1) by (cases q) (auto simp: take_over_def copy_of_def)
  qed
  define t1 where "t1 = (if arp_state (arp_table t ! i) = ETHARP_STATE_EMPTY
    then set_entry i (arp_state_update (\<lambda>_. ETHARP_STATE_PENDING)) t else t)"
  have t1: "arp_state (arp_table t1 ! i) = ETHARP_STATE_PENDING" "arp_ip (arp_table t1 ! i) = ip" "arp_q (arp_table t1 ! i) = ps"
      "length (arp_table t1) = ARP_TABLE_SIZE"
    using e i10 len by (cases "arp_state (arp_table t ! i)"; simp add: t1_def)+
  have "waits ip (ps @ [copy_of q]) (set_entry i (arp_q_update (\<lambda>ps. ps @ [copy_of q])) (snd (etharp_request E n ip t1)))"
    unfolding waits_def by (rule exI [of _ i]) (use i10 t1 in simp)
  then show ?thesis using uu rt i(1) t1(1) tk E(2)
    by (auto simp: etharp_query_def Let_def split_beta simp flip: t1_def)
qed

lemma queries_wait:
  assumes "arp_inv s" "unicast n ip" "unknown ip s \<and> ps = [] \<or> waits ip ps s" "copy_pbuf E" "queue_entry E"
    and "\<forall>q\<in>set qs. q \<noteq> [] \<and> fst (hd q) \<noteq> PBUF_ROM"
  shows "arp_inv (fold (\<lambda>q s. snd (etharp_query E n ip (Some q) s)) qs s)
    \<and> (qs \<noteq> [] \<or> ps \<noteq> [] \<longrightarrow> waits ip (ps @ map copy_of qs) (fold (\<lambda>q s. snd (etharp_query E n ip (Some q) s)) qs s))"
  using assms
proof (induction qs arbitrary: s ps)
  case Nil
  then show ?case by auto
next
  case (Cons q qs)
  let ?t = "snd (etharp_query E n ip (Some q) s)"
  have "waits ip (ps @ [copy_of q]) ?t" using etharp_query_waits Cons.prems by simp
  then show ?case using Cons.IH [of ?t "ps @ [copy_of q]"] etharp_query_inv Cons.prems by simp
qed

text \<open>
  C29: Packets for an address that is not resolved yet wait, and the reply sends them: all of
  them, in the order they were given, as full copies with the Ethernet header of the answering
  station, each released after it was sent.
\<close>

theorem arp_reply_sends_queue:
  assumes "arp_reach s" "\<forall>e\<in>set (arp_table s). arp_state e \<noteq> ETHARP_STATE_EMPTY \<longrightarrow> arp_ip e \<noteq> ip"
    and "ip \<noteq> 0" "\<not> ip_addr_isbroadcast ip n" "\<not> ip_addr_ismulticast ip" "ip_addr n \<noteq> 0"
    and "copy_pbuf E" "queue_entry E" "qs \<noteq> []" "\<forall>q\<in>set qs. q \<noteq> [] \<and> fst (hd q) \<noteq> PBUF_ROM"
    and "length hw = 6" "length (hwaddr n) = 6"
    and "s1 = fold (\<lambda>q s. snd (etharp_query E n ip (Some q) s)) qs s"
    and "reply = [(PBUF_POOL, arp_frame hw (hwaddr n) hw ip (hwaddr n) (ip_addr n) ARP_REPLY)]"
    and "s2 = snd (ethernet_input E n reply s1)"
  shows "arp_ops s2 = arp_ops s1
      @ concat (map (\<lambda>q. let p = with_header hw (hwaddr n) [(PBUF_RAM, concat (map snd q))]
                          in [Linkoutput p, Free [(PBUF_RAM, concat (map snd q))]]) qs)
      @ [Dhcp_arp_reply ip, Free reply]
    \<and> (\<exists>i. fst (etharp_find_addr ip s2) = Some (i, hw, ip))"
proof -
  have inv: "arp_inv s" by (rule arp_reach_inv [OF assms(1)])
  have u: "unicast n ip" using assms(3-5) by (simp add: unicast_def)
  have "unknown ip s" using assms(2) by (simp add: unknown_def)
  then have w: "waits ip (map copy_of qs) s1" and i1: "arp_inv s1"
    using queries_wait [OF inv u _ assms(7,8,10), of "[]"] assms(9) unfolding assms(13) by auto
  obtain r t where ut: "update_arp_entry E n ip hw ETHARP_TRY_HARD s1 = (r, t)"
    by (cases "update_arp_entry E n ip hw ETHARP_TRY_HARD s1")
  from learned [OF i1 u ut] obtain i where i: "i < ARP_TABLE_SIZE"
      "live (arp_table s1 ! i) \<and> arp_ip (arp_table s1 ! i) = ip \<and> arp_ops t = arp_ops s1 @ sends hw (hwaddr n) (arp_q (arp_table s1 ! i))
       \<or> unknown ip s1 \<and> victim s1 i" "fst (etharp_find_addr ip t) = Some (i, hw, ip)" by blast
  have len: "length (arp_table s1) = ARP_TABLE_SIZE" using i1 by (simp add: arp_inv_def)
  obtain j where j: "j < ARP_TABLE_SIZE" "arp_state (arp_table s1 ! j) = ETHARP_STATE_PENDING"
      "arp_ip (arp_table s1 ! j) = ip" "arp_q (arp_table s1 ! j) = map copy_of qs" using w by (auto simp: waits_def)
  then have "\<not> unknown ip s1" using len by (auto simp: unknown_def intro!: bexI [of _ "arp_table s1 ! j"])
  then have k: "live (arp_table s1 ! i)" "arp_ip (arp_table s1 ! i) = ip"
      "arp_ops t = arp_ops s1 @ sends hw (hwaddr n) (arp_q (arp_table s1 ! i))" using i(2) by auto
  then have "i = j" using i1 j i(1) by (auto simp: arp_inv_def)
  then have ops: "arp_ops t = arp_ops s1 @ sends hw (hwaddr n) (map copy_of qs)" using k(3) j(4) by simp
  have s2: "s2 = emit [Dhcp_arp_reply ip, Free reply] t"
    using reply_for_us [OF assms(11,12,11,12,6), of E "hwaddr n" PBUF_POOL ip s1] ut
    by (simp add: assms(14,15) ethernet_input_def Let_def arp_frame_fields assms(11,12) ETHTYPE_ARP_def ETHTYPE_IP_def)
  have "sends hw (hwaddr n) (map copy_of qs) = concat (map (\<lambda>q. let p = with_header hw (hwaddr n) [(PBUF_RAM, concat (map snd q))]
      in [Linkoutput p, Free [(PBUF_RAM, concat (map snd q))]]) qs)"
    by (simp add: sends_def copy_of_def comp_def Let_def)
  then show ?thesis using ops i(3) by (simp add: s2)
qed

theorem arp_reply_sends_queue_witness:
  "let E = \<lparr>request_pbuf = True, copy_pbuf = True, queue_entry = True, linkoutput = (\<lambda>_. ERR_OK)\<rparr>;
       reply = [(PBUF_POOL, arp_frame [1, 2, 3, 4, 5, 6] (hwaddr lan) [1, 2, 3, 4, 5, 6] (IP4_ADDR 192 168 1 7) (hwaddr lan) (ip_addr lan) ARP_REPLY)];
       s1 = snd (etharp_query E lan (IP4_ADDR 192 168 1 7) (Some [(PBUF_RAM, replicate 14 0 @ [69, 0])]) arp_example);
       s2 = snd (ethernet_input E lan reply s1)
   in arp_ops s2 = arp_ops s1 @ [Linkoutput [(PBUF_RAM, [1, 2, 3, 4, 5, 6, 2, 0, 0, 0, 0, 1, 8, 0, 69, 0])],
        Free [(PBUF_RAM, replicate 14 0 @ [69, 0])], Dhcp_arp_reply (IP4_ADDR 192 168 1 7), Free reply]"
proof -
  let ?E = "\<lparr>request_pbuf = True, copy_pbuf = True, queue_entry = True, linkoutput = (\<lambda>_. ERR_OK)\<rparr>"
  let ?q = "[(PBUF_RAM, replicate 14 0 @ [69, 0])] :: packet"
  have r: "arp_reach arp_example" unfolding arp_example_def by (rule arp_reach.init)
  have un: "\<forall>e\<in>set (arp_table arp_example). arp_state e \<noteq> ETHARP_STATE_EMPTY \<longrightarrow> arp_ip e \<noteq> IP4_ADDR 192 168 1 7"
    by (simp add: arp_example_def)
  have us: "ip_addr lan \<noteq> 0" "hwaddr lan = [2, 0, 0, 0, 0, 1]"
    by (simp_all add: lan_def IP4_ADDR_def htonl_def push_bit_eq_mult drop_bit_eq_div)
  have h: "with_header [1, 2, 3, 4, 5, 6] [2, 0, 0, 0, 0, 1] ?q = [(PBUF_RAM, [1, 2, 3, 4, 5, 6, 2, 0, 0, 0, 0, 1, 8, 0, 69, 0])]"
  proof -
    have "drop 14 (replicate 14 0 @ [69, 0 :: u8]) = [69, 0]" by simp
    moreover have "bytes16 (htons ETHTYPE_IP) = [8, 0]"
      by (simp add: bytes16_def ETHTYPE_IP_def htons_def push_bit_eq_mult drop_bit_eq_div)
    ultimately show ?thesis by (simp add: with_header_def)
  qed
  define s1 where "s1 = snd (etharp_query ?E lan (IP4_ADDR 192 168 1 7) (Some ?q) arp_example)"
  define s2 where "s2 = snd (ethernet_input ?E lan [(PBUF_POOL, arp_frame [1, 2, 3, 4, 5, 6] (hwaddr lan) [1, 2, 3, 4, 5, 6]
    (IP4_ADDR 192 168 1 7) (hwaddr lan) (ip_addr lan) ARP_REPLY)] s1)"
  have "arp_ops s2 = arp_ops s1 @ [Linkoutput [(PBUF_RAM, [1, 2, 3, 4, 5, 6, 2, 0, 0, 0, 0, 1, 8, 0, 69, 0])],
        Free ?q, Dhcp_arp_reply (IP4_ADDR 192 168 1 7),
        Free [(PBUF_POOL, arp_frame [1, 2, 3, 4, 5, 6] (hwaddr lan) [1, 2, 3, 4, 5, 6] (IP4_ADDR 192 168 1 7) (hwaddr lan) (ip_addr lan) ARP_REPLY)]]"
  proof -
    have m: "copy_pbuf ?E" "queue_entry ?E" "[?q] \<noteq> []" "\<forall>q\<in>set [?q]. q \<noteq> [] \<and> fst (hd q) \<noteq> PBUF_ROM"
        "length [1, 2, 3, 4, 5, 6 :: u8] = 6" "length (hwaddr lan) = 6" by (simp_all add: us(2))
    have s1: "s1 = fold (\<lambda>q s. snd (etharp_query ?E lan (IP4_ADDR 192 168 1 7) (Some q) s)) [?q] arp_example"
      by (simp add: s1_def)
    have h': "with_header [1, 2, 3, 4, 5, 6] (hwaddr lan) ?q = [(PBUF_RAM, [1, 2, 3, 4, 5, 6, 2, 0, 0, 0, 0, 1, 8, 0, 69, 0])]"
      unfolding us(2) by (rule h)
    note l = lan_host [THEN conjunct1] lan_host [THEN conjunct2, THEN conjunct1] lan_host [THEN conjunct2, THEN conjunct2]
    from arp_reply_sends_queue [OF r un l us(1) m s1 refl s2_def]
    show ?thesis unfolding list.map Let_def concat.simps snd_conv append_Nil2 h' by (simp only: append.simps)
  qed
  then show ?thesis unfolding Let_def s1_def s2_def .
qed

section \<open>Packets that get lost\<close>

lemma take_over_drops:
  assumes "t \<noteq> PBUF_ROM" "hdr \<noteq> []"
  shows "take_over E ((PBUF_ROM, hdr) # (t, xs) # bs) = None"
  using assms by (cases hdr) (simp_all add: take_over_def packet_len_def)

text \<open>A packet that cannot be queued is reported as sent as soon as the request was sent.\<close>

lemma etharp_query_loses:
  assumes "arp_inv s" "unicast n ip" "unknown ip s" "\<not> queue_entry E" "request_pbuf E" "linkoutput E = (\<lambda>_. ERR_OK)"
  shows "fst (etharp_query E n ip (Some q) s) = ERR_OK \<and> waits ip [] (snd (etharp_query E n ip (Some q) s))"
proof -
  obtain r t where rt: "find_entry ip ETHARP_TRY_HARD s = (r, t)" by (cases "find_entry ip ETHARP_TRY_HARD s")
  obtain i where i: "r = Some i" "arp_inv t" "is_known ip i s t \<or> is_new ip i s t"
    using find_entry_cases [OF assms(1), of ip ETHARP_TRY_HARD] rt by (cases r) auto
  have len: "length (arp_table s) = ARP_TABLE_SIZE" using assms(1) by (simp add: arp_inv_def)
  have "\<not> is_known ip i s t" using assms(3) len by (auto simp: is_known_def unknown_def)
  then have new: "is_new ip i s t" using i(3) by simp
  then have i10: "i < ARP_TABLE_SIZE" by (simp add: is_new_def victim_def)
  let ?t = "set_entry i (arp_state_update (\<lambda>_. ETHARP_STATE_PENDING)) t"
  have e: "arp_state (arp_table t ! i) = ETHARP_STATE_EMPTY" "arp_q (arp_table t ! i) = []" "arp_ip (arp_table t ! i) = ip"
      "length (arp_table t) = ARP_TABLE_SIZE"
    using new i10 len by (simp_all add: is_new_def cleared_def)
  then have p: "arp_state (arp_table ?t ! i) = ETHARP_STATE_PENDING" "arp_q (arp_table ?t ! i) = []" "arp_ip (arp_table ?t ! i) = ip"
    using i10 by simp_all
  have w: "waits ip [] (emit xs ?t)" for xs unfolding waits_def by (rule exI [of _ i]) (use i10 p in simp)
  have "fst (etharp_request E n ip ?t) = ERR_OK" "\<exists>xs. snd (etharp_request E n ip ?t) = emit xs ?t"
    using assms(5,6) by (auto simp: etharp_request_def etharp_raw_def Let_def)
  then obtain xs where rq: "etharp_request E n ip ?t = (ERR_OK, emit xs ?t)" by (metis prod.collapse)
  have "etharp_query E n ip (Some q) s = (case take_over E q of None \<Rightarrow> (ERR_OK, emit xs ?t)
      | Some p \<Rightarrow> (ERR_OK, emit [Free p] (emit xs ?t)))"
    using assms(2,4) rt i(1) e(1) p(1) rq by (simp add: etharp_query_def unicast_def Let_def split: option.split)
  then show ?thesis using w by (auto split: option.split simp: emit_def waits_def)
qed

end
