(* ===== verification/Packet.thy ===== *)
theory Packet
  imports Wire Chksum Pbuf
begin

text \<open>
  Packets as the protocols see them: the buffers of a chain, each with its type, the room in
  front of its data and the data.  \<open>pbuf_header\<close> moves the border between the two, so a header
  that was taken away can be put back unchanged.  The view of the memory of \<open>Pbuf\<close> as such a
  chain is \<open>view\<close>; that \<open>chain_header\<close> is what \<open>pbuf_header\<close> does there is proved below.
\<close>

record buf =
  btype :: pbuf_type
  front :: "u8 list"
  body :: "u8 list"

type_synonym chain = "buf list"

abbreviation has_room :: "pbuf_type \<Rightarrow> bool" where
  "has_room t \<equiv> t = PBUF_RAM \<or> t = PBUF_POOL"

text \<open>\<open>None\<close> is the answer 1.  Data in ROM or referred to cannot grow, and what is in front of it is not known.\<close>

definition buf_header :: "int \<Rightarrow> buf \<Rightarrow> buf option" where
  "buf_header n b =
     (if n = 0 then Some b
      else if n < 0
      then if nat (- n) \<le> length (body b)
           then Some (b\<lparr>front := (if has_room (btype b) then front b @ take (nat (- n)) (body b) else front b),
                        body := drop (nat (- n)) (body b)\<rparr>)
           else None
      else if has_room (btype b) \<and> nat n \<le> length (front b)
      then (let k = length (front b) - nat n in
            Some (b\<lparr>front := take k (front b), body := drop k (front b) @ body b\<rparr>))
      else None)"

definition chain_header :: "int \<Rightarrow> chain \<Rightarrow> chain option" where
  "chain_header n c = (case c of [] \<Rightarrow> Some [] | b # bs \<Rightarrow> map_option (\<lambda>b. b # bs) (buf_header n b))"

text \<open>The contents and the total length.\<close>

definition contents :: "chain \<Rightarrow> u8 list" where
  "contents c = concat (map body c)"

definition chain_len :: "chain \<Rightarrow> u16" where
  "chain_len c = of_nat (length (contents c))"

abbreviation first :: "chain \<Rightarrow> u8 list" where
  "first c \<equiv> body (hd c)"

text \<open>Writing at an offset of the first buffer.\<close>

definition write_first :: "nat \<Rightarrow> u8 list \<Rightarrow> chain \<Rightarrow> chain" where
  "write_first i xs c = (case c of [] \<Rightarrow> [] | b # bs \<Rightarrow> b\<lparr>body := overwrite i xs (body b)\<rparr> # bs)"

text \<open>
  A new buffer in RAM has the room its layer asks for, rounded up, and holds what the memory
  happened to hold.
\<close>

definition ram_buf :: "(nat \<Rightarrow> u8) \<Rightarrow> pbuf_layer \<Rightarrow> nat \<Rightarrow> buf" where
  "ram_buf garbage layer n =
     (let room = align4 (SIZEOF_STRUCT_PBUF + header_offset layer) - SIZEOF_STRUCT_PBUF in
      \<lparr>btype = PBUF_RAM, front = map garbage [0..<room], body = map garbage [room..<room + n]\<rparr>)"

section \<open>The view of a memory\<close>

definition view :: "pstate \<Rightarrow> nat \<Rightarrow> buf" where
  "view s a =
     (let b = pbs s a; base = a + SIZEOF_STRUCT_PBUF in
      \<lparr>btype = ptype b, front = (if has_room (ptype b) then area s base (payload b - base) else []),
       body = area s (payload b) (unat (plen b))\<rparr>)"

lemma area_split: "area s a (m + n) = area s a m @ area s (a + m) n"
  using upt_add_eq_append [of a "a + m" n] by (simp add: area_def add.assoc)

lemma length_area' [simp]: "length (area s a n) = n"
  by (simp add: area_def)

lemma area_set_pbuf [simp]: "area (set_pbuf p f s) a n = area s a n"
  by (simp add: area_def set_pbuf_def)

lemma unat_sint_neg: "sint (w :: u16) < 0 \<Longrightarrow> unat (- w) = nat (- sint w)"
proof -
  assume n: "sint w < 0"
  have "- w = word_of_int (- sint w)" by simp
  then have "uint (- w) = (- sint w) mod 2 ^ 16" by (simp only: uint_word_of_int len_num1 len_num0 len_bit0) simp
  also have "\<dots> = - sint w" using n sint_ge [of w] by simp
  finally show ?thesis by (simp add: unat_eq_nat_uint)
qed

lemma view_set_pbuf: "view (set_pbuf p f s) p =
  (let b = f (pbs s p); base = p + SIZEOF_STRUCT_PBUF in
    \<lparr>btype = ptype b, front = (if has_room (ptype b) then area s base (payload b - base) else []),
     body = area s (payload b) (unat (plen b))\<rparr>)"
  by (simp add: view_def Let_def) (simp add: set_pbuf_def)

lemma view_other: "a \<noteq> p \<Longrightarrow> view (set_pbuf p f s) a = view s a"
  by (simp add: view_def Let_def) (simp add: set_pbuf_def)

text \<open>What moving the start of the data does to the view of the buffer.\<close>

lemma buf_header_grow:
  "has_room t \<Longrightarrow> buf_header (int (length m)) \<lparr>btype = t, front = f @ m, body = b\<rparr> = Some \<lparr>btype = t, front = f, body = m @ b\<rparr>"
  by (auto simp: buf_header_def)

lemma buf_header_shrink:
  "buf_header (- int (length m)) \<lparr>btype = t, front = f, body = m @ b\<rparr>
    = Some \<lparr>btype = t, front = (if has_room t then f @ m else f), body = b\<rparr>"
  by (auto simp: buf_header_def)

lemma view_grow:
  assumes "has_room (ptype (pbs s p))" "p + SIZEOF_STRUCT_PBUF + n \<le> payload (pbs s p)"
    and "unat (plen (pbs s p) + inc) = unat (plen (pbs s p)) + n"
  shows "buf_header (int n) (view s p) =
    Some (view (set_pbuf p (\<lambda>b. b\<lparr>payload := payload b - n, plen := plen b + inc, tot_len := tot_len b + inc\<rparr>) s) p)"
proof -
  let ?b = "pbs s p" and ?base = "p + SIZEOF_STRUCT_PBUF"
  let ?m = "area s (payload ?b - n) n" and ?f = "area s ?base (payload ?b - n - ?base)"
  have f: "area s ?base (payload ?b - ?base) = ?f @ ?m"
    using area_split [of s ?base "payload ?b - n - ?base" n] assms(2) by simp
  have b: "area s (payload ?b - n) (unat (plen ?b) + n) = ?m @ area s (payload ?b) (unat (plen ?b))"
    using area_split [of s "payload ?b - n" n "unat (plen ?b)"] assms(2) by (simp add: add.commute)
  have "view s p = \<lparr>btype = ptype ?b, front = ?f @ ?m, body = area s (payload ?b) (unat (plen ?b))\<rparr>"
    using assms(1) f by (simp add: view_def Let_def)
  moreover have "view (set_pbuf p (\<lambda>b. b\<lparr>payload := payload b - n, plen := plen b + inc, tot_len := tot_len b + inc\<rparr>) s) p
      = \<lparr>btype = ptype ?b, front = ?f, body = ?m @ area s (payload ?b) (unat (plen ?b))\<rparr>"
    unfolding view_set_pbuf Let_def using assms(1,3) b by simp
  moreover have "buf_header (int n) \<lparr>btype = ptype ?b, front = ?f @ ?m, body = area s (payload ?b) (unat (plen ?b))\<rparr>
      = Some \<lparr>btype = ptype ?b, front = ?f, body = ?m @ area s (payload ?b) (unat (plen ?b))\<rparr>"
    using buf_header_grow [OF assms(1), of ?m] by simp
  ultimately show ?thesis by simp
qed

lemma view_shrink:
  assumes "has_room (ptype (pbs s p)) \<Longrightarrow> p + SIZEOF_STRUCT_PBUF \<le> payload (pbs s p)" "n \<le> unat (plen (pbs s p))"
    and "unat (plen (pbs s p) + inc) = unat (plen (pbs s p)) - n"
  shows "buf_header (- int n) (view s p) =
    Some (view (set_pbuf p (\<lambda>b. b\<lparr>payload := payload b + n, plen := plen b + inc, tot_len := tot_len b + inc\<rparr>) s) p)"
proof -
  let ?b = "pbs s p" and ?base = "p + SIZEOF_STRUCT_PBUF"
  let ?m = "area s (payload ?b) n" and ?r = "area s (payload ?b + n) (unat (plen ?b) - n)"
    and ?f = "if has_room (ptype ?b) then area s ?base (payload ?b - ?base) else []"
  have b: "area s (payload ?b) (unat (plen ?b)) = ?m @ ?r"
    using area_split [of s "payload ?b" n "unat (plen ?b) - n"] assms(2) by simp
  have f: "area s ?base (payload ?b + n - ?base) = area s ?base (payload ?b - ?base) @ ?m" if "has_room (ptype ?b)"
    using area_split [of s ?base "payload ?b - ?base" n] assms(1) [OF that] by simp
  have "view s p = \<lparr>btype = ptype ?b, front = ?f, body = ?m @ ?r\<rparr>"
    unfolding view_def Let_def b ..
  moreover have "view (set_pbuf p (\<lambda>b. b\<lparr>payload := payload b + n, plen := plen b + inc, tot_len := tot_len b + inc\<rparr>) s) p
      = \<lparr>btype = ptype ?b, front = (if has_room (ptype ?b) then ?f @ ?m else ?f), body = ?r\<rparr>"
    unfolding view_set_pbuf Let_def using assms(3) f by simp
  moreover have "buf_header (- int n) \<lparr>btype = ptype ?b, front = ?f, body = ?m @ ?r\<rparr>
      = Some \<lparr>btype = ptype ?b, front = (if has_room (ptype ?b) then ?f @ ?m else ?f), body = ?r\<rparr>"
    using buf_header_shrink [of ?m] by simp
  ultimately show ?thesis by simp
qed

text \<open>
  C32: On a chain whose head is well formed, \<open>pbuf_header\<close> in memory does to the view of the chain what
  \<open>chain_header\<close> says: it fails in the same cases, changing nothing, and otherwise moves the same bytes
  between the room in front and the data and keeps the total length true.
\<close>

theorem pbuf_header_refines:
  assumes "has_room (ptype (pbs s p)) \<Longrightarrow> p + SIZEOF_STRUCT_PBUF \<le> payload (pbs s p)"
    and "p \<notin> set ps" "int (unat (plen (pbs s p))) + sint inc < 65536"
  shows "case pbuf_header (Some p) inc s of (r, s') \<Rightarrow>
    (case chain_header (sint inc) (map (view s) (p # ps)) of
       None \<Rightarrow> r = 1 \<and> s' = s
     | Some c \<Rightarrow> r = 0 \<and> map (view s') (p # ps) = c
         \<and> (tot_len (pbs s p) = chain_len (map (view s) (p # ps)) \<longrightarrow> tot_len (pbs s' p) = chain_len c))"
proof -
  let ?b = "pbs s p"
  have others: "map (view (set_pbuf p f s)) ps = map (view s) ps" for f
    using assms(2) by (intro map_cong refl view_other) auto
  have moved: ?thesis
    if r: "pbuf_header (Some p) inc s = (0, set_pbuf p f s)"
      and b: "buf_header (sint inc) (view s p) = Some (view (set_pbuf p f s) p)"
      and f: "\<And>b. tot_len (f b) = tot_len b + inc" "\<And>b. plen (f b) = plen b + inc" for f
  proof -
    have "(of_nat (unat (plen ?b + inc)) :: u16) = plen ?b + inc" "(of_nat (unat (plen ?b)) :: u16) = plen ?b" by simp_all
    moreover have "length (body (view (set_pbuf p f s) p)) = unat (plen ?b + inc)"
      unfolding view_set_pbuf Let_def by (simp add: f)
    moreover have "length (body (view s p)) = unat (plen ?b)" by (simp add: view_def Let_def)
    ultimately show ?thesis using r b others
      by (simp add: chain_header_def chain_len_def contents_def f set_pbuf_def)
  qed
  consider "sint inc = 0" | "0 < sint inc" | "sint inc < 0" by linarith
  then show ?thesis
  proof cases
    case 1
    then have "inc = 0" using signed_word_eqI [of inc 0] by simp
    then show ?thesis by (simp add: pbuf_header_def chain_header_def buf_header_def)
  next
    case 2
    let ?n = "nat (sint inc)"
    have u: "unat inc = ?n" "int ?n = sint inc" using 2 unat_sint_hdr by simp_all
    have "unat (plen ?b) + ?n < 65536" using assms(3) u(2) by linarith
    then have len: "unat (plen ?b + inc) = unat (plen ?b) + ?n" using u(1) by (simp add: unat_word_ariths)
    show ?thesis
    proof (cases "has_room (ptype ?b) \<and> p + SIZEOF_STRUCT_PBUF + ?n \<le> payload ?b")
      case True
      have "\<not> int (payload ?b) - sint inc < int (p + SIZEOF_STRUCT_PBUF)" using True u(2) by linarith
      moreover have "nat (int (payload ?b) - sint inc) = payload ?b - ?n" using True u(2) by linarith
      ultimately have "pbuf_header (Some p) inc s = (0, set_pbuf p (\<lambda>b. b\<lparr>payload := payload b - ?n, plen := plen b + inc, tot_len := tot_len b + inc\<rparr>) s)"
        using 2 True by (auto simp: pbuf_header_def Let_def set_pbuf_def)
      from moved [OF this] show ?thesis using view_grow [OF _ _ len] True u(2) by simp
    next
      case False
      have "length (front (view s p)) < ?n" if "has_room (ptype ?b)"
        using assms(1) [OF that] False that 2 by (auto simp: view_def Let_def)
      then have "chain_header (sint inc) (map (view s) (p # ps)) = None"
        using 2 by (auto simp: chain_header_def buf_header_def view_def Let_def)
      moreover have "pbuf_header (Some p) inc s = (1, s)"
      proof (cases "has_room (ptype ?b)")
        case True
        then have "int (payload ?b) - sint inc < int (p + SIZEOF_STRUCT_PBUF)" using False u(2) by linarith
        then show ?thesis using True 2 by (auto simp: pbuf_header_def Let_def)
      next
        case False
        then show ?thesis using 2 by (cases "ptype ?b") (auto simp: pbuf_header_def Let_def)
      qed
      ultimately show ?thesis by simp
    qed
  next
    case 3
    let ?n = "nat (- sint inc)"
    have u: "unat (- inc) = ?n" "sint inc = - int ?n" using 3 unat_sint_neg by simp_all
    show ?thesis
    proof (cases "?n \<le> unat (plen ?b)")
      case True
      then have le: "- inc \<le> plen ?b" using u by (simp add: word_le_nat_alt)
      have len: "unat (plen ?b + inc) = unat (plen ?b) - ?n"
        using unat_sub [OF le] u by simp
      have "nat (int (payload ?b) - sint inc) = payload ?b + ?n" using u(2) by linarith
      moreover have "\<not> int (payload ?b) - sint inc < int (p + SIZEOF_STRUCT_PBUF)" if "has_room (ptype ?b)"
        using assms(1) [OF that] 3 by linarith
      ultimately have "pbuf_header (Some p) inc s = (0, set_pbuf p (\<lambda>b. b\<lparr>payload := payload b + ?n, plen := plen b + inc, tot_len := tot_len b + inc\<rparr>) s)"
        using 3 le by (cases "ptype ?b") (auto simp: pbuf_header_def Let_def set_pbuf_def)
      from moved [OF this] show ?thesis using view_shrink [OF assms(1) True len] u(2) by simp
    next
      case False
      then have "\<not> - inc \<le> plen ?b" using u by (simp add: word_le_nat_alt)
      then have "pbuf_header (Some p) inc s = (1, s)" using 3 by (auto simp: pbuf_header_def Let_def)
      moreover have "buf_header (sint inc) (view s p) = None"
        using 3 False by (simp add: buf_header_def view_def Let_def)
      ultimately show ?thesis by (simp add: chain_header_def)
    qed
  qed
qed

theorem pbuf_header_refines_witness:
  "let s = set_pbuf 100 (payload_update (\<lambda>_. 170)) two_pbufs in
    chain_header 20 [view s 100] = Some [view (snd (pbuf_header (Some 100) 20 s)) 100]"
proof -
  let ?s = "set_pbuf 100 (payload_update (\<lambda>_. 170)) two_pbufs"
  have h: "has_room (ptype (pbs ?s 100)) \<Longrightarrow> 100 + SIZEOF_STRUCT_PBUF \<le> payload (pbs ?s 100)" "100 \<notin> set ([] :: nat list)"
    "int (unat (plen (pbs ?s 100))) + sint (20 :: u16) < 65536"
    by (simp_all add: two_pbufs_def set_pbuf_def SIZEOF_STRUCT_PBUF_def)
  have "fst (pbuf_header (Some 100) 20 ?s) = 0"
    by (simp add: pbuf_header_def two_pbufs_def set_pbuf_def SIZEOF_STRUCT_PBUF_def Let_def)
  then show ?thesis using pbuf_header_refines [OF h]
    by (auto simp: Let_def split: prod.splits option.splits)
qed

end
