(* ===== verification/Ip.thy ===== *)
theory Ip
  imports Packet
begin

text \<open>
  The IP layer's state and its sending side: \<open>ip.c\<close> and \<open>ip_frag.c\<close> (with the static
  buffer), over chains of buffers.  Checksums of IP headers are left to the hardware by
  \<open>ip_output_if\<close> (\<open>CHECKSUM_BY_HARDWARE\<close>); \<open>ip_frag\<close> always computes them.  What the
  layer passes on is recorded in the order of the calls.  Outcomes of allocations and the answers of
  the interface are taken from two lists, which stand for any outcome; when a list is used up, the
  answers are success.
\<close>

section \<open>State\<close>

text \<open>
  A fragment that waits is its chain and the two numbers of the helper that the code keeps in
  the place of its IP header.
\<close>

record fragment =
  frag_start :: u16
  frag_end :: u16
  frag_chain :: chain

record ip_reassdata =
  ipr_p :: "fragment list"
  ipr_iphdr :: "u8 list"
  datagram_len :: u16
  ipr_flags :: u8
  ipr_timer :: u8

record udp_pcb =
  udp_local_ip :: u32
  udp_remote_ip :: u32
  udp_tos :: u8
  udp_ttl :: u8
  udp_flags :: u8
  udp_local_port :: u16
  udp_remote_port :: u16
  udp_recv_set :: bool

text \<open>The callback of a raw control block is the answer it gives to a packet: whether it eats it.\<close>

record raw_pcb =
  raw_local_ip :: u32
  raw_remote_ip :: u32
  raw_tos :: u8
  raw_ttl :: u8
  raw_protocol :: u8
  raw_callback :: "(chain \<Rightarrow> u32 \<Rightarrow> bool) option"

datatype ip_op =
    Netif_output nat chain u32
  | Free_chain chain
  | Lcd_line string
  | Udp_callback nat chain u32 u16
  | Raw_callback nat chain u32
  | Tcp_input chain nat
  | Arp_query nat u32
  | Arp_gratuitous nat u32

text \<open>
  Interfaces are named by their position in \<open>netif_list\<close>; \<open>dhcp_pcb\<close> is the control block of the
  DHCP client of each.  Control blocks are named by their address: their fields, the list of those in use, and
  the free ones of their pool.
\<close>

record stack =
  netif_list :: "netif list"
  netif_default :: "nat option"
  dhcp_pcb :: "nat \<Rightarrow> nat option"
  ip_id :: u16
  frag_buf :: "u8 list"
  reassdatagrams :: "ip_reassdata list"
  ip_reass_pbufcount :: u16
  udp_mem :: "nat \<Rightarrow> udp_pcb"
  udp_pcbs :: "nat list"
  udp_free :: "nat list"
  raw_mem :: "nat \<Rightarrow> raw_pcb"
  raw_pcbs :: "nat list"
  raw_free :: "nat list"
  allocs :: "bool list"
  answers :: "err_t list"
  garbage :: "nat \<Rightarrow> u8"
  ip_ops :: "ip_op list"

definition log_op :: "ip_op \<Rightarrow> stack \<Rightarrow> stack" where
  "log_op x s = s\<lparr>ip_ops := ip_ops s @ [x]\<rparr>"

lemma log_op_simps [simp]:
  "netif_list (log_op x s) = netif_list s" "netif_default (log_op x s) = netif_default s" "dhcp_pcb (log_op x s) = dhcp_pcb s"
  "ip_id (log_op x s) = ip_id s" "frag_buf (log_op x s) = frag_buf s" "reassdatagrams (log_op x s) = reassdatagrams s"
  "ip_reass_pbufcount (log_op x s) = ip_reass_pbufcount s" "udp_pcbs (log_op x s) = udp_pcbs s"
  "udp_mem (log_op x s) = udp_mem s" "udp_free (log_op x s) = udp_free s" "raw_mem (log_op x s) = raw_mem s"
  "raw_pcbs (log_op x s) = raw_pcbs s" "raw_free (log_op x s) = raw_free s" "allocs (log_op x s) = allocs s"
  "answers (log_op x s) = answers s" "garbage (log_op x s) = garbage s" "ip_ops (log_op x s) = ip_ops s @ [x]"
  by (simp_all add: log_op_def)

definition try_alloc :: "stack \<Rightarrow> bool \<times> stack" where
  "try_alloc s = (case allocs s of [] \<Rightarrow> (True, s) | b # bs \<Rightarrow> (b, s\<lparr>allocs := bs\<rparr>))"

definition netif_output :: "nat \<Rightarrow> chain \<Rightarrow> u32 \<Rightarrow> stack \<Rightarrow> err_t \<times> stack" where
  "netif_output n p dest s =
     (case answers s of
        [] \<Rightarrow> (ERR_OK, log_op (Netif_output n p dest) s)
      | e # es \<Rightarrow> (e, log_op (Netif_output n p dest) (s\<lparr>answers := es\<rparr>)))"

section \<open>Headers\<close>

definition IP_HLEN :: nat where "IP_HLEN = 20"
definition IP_DF :: u16 where "IP_DF = 0x4000"
definition IP_MF :: u16 where "IP_MF = 0x2000"
definition IP_OFFMASK :: u16 where "IP_OFFMASK = 0x1fff"
definition IP_PROTO_ICMP :: u8 where "IP_PROTO_ICMP = 1"
definition IP_PROTO_UDP :: u8 where "IP_PROTO_UDP = 17"
definition IP_PROTO_TCP :: u8 where "IP_PROTO_TCP = 6"

definition IPH_V :: "u8 list \<Rightarrow> u16" where "IPH_V hdr = drop_bit 12 (ntohs (word16 hdr 0))"
definition IPH_HL :: "u8 list \<Rightarrow> u16" where "IPH_HL hdr = drop_bit 8 (ntohs (word16 hdr 0)) AND 0x0f"
definition IPH_LEN :: "u8 list \<Rightarrow> u16" where "IPH_LEN hdr = word16 hdr 2"
definition IPH_ID :: "u8 list \<Rightarrow> u16" where "IPH_ID hdr = word16 hdr 4"
definition IPH_OFFSET :: "u8 list \<Rightarrow> u16" where "IPH_OFFSET hdr = word16 hdr 6"
definition IPH_TTL :: "u8 list \<Rightarrow> u16" where "IPH_TTL hdr = drop_bit 8 (ntohs (word16 hdr 8))"
definition IPH_PROTO :: "u8 list \<Rightarrow> u16" where "IPH_PROTO hdr = ntohs (word16 hdr 8) AND 0xff"

text \<open>The addresses of \<open>struct ip_hdr\<close>.\<close>

definition IPH_SRC :: "u8 list \<Rightarrow> u32" where "IPH_SRC hdr = word32 hdr 12"
definition IPH_DEST :: "u8 list \<Rightarrow> u32" where "IPH_DEST hdr = word32 hdr 16"

definition IPH_LEN_SET :: "u16 \<Rightarrow> u8 list \<Rightarrow> u8 list" where "IPH_LEN_SET len = overwrite 2 (bytes16 len)"
definition IPH_OFFSET_SET :: "u16 \<Rightarrow> u8 list \<Rightarrow> u8 list" where "IPH_OFFSET_SET off = overwrite 6 (bytes16 off)"
definition IPH_CHKSUM_SET :: "u16 \<Rightarrow> u8 list \<Rightarrow> u8 list" where "IPH_CHKSUM_SET chksum = overwrite 10 (bytes16 chksum)"
definition IPH_TTL_SET :: "u8 \<Rightarrow> u8 list \<Rightarrow> u8 list" where
  "IPH_TTL_SET ttl hdr = overwrite 8 (bytes16 (htons (IPH_PROTO hdr OR push_bit 8 (ucast ttl)))) hdr"

text \<open>All twenty bytes of a generated header, in the order of the fields.\<close>

definition ip_header :: "u8 \<Rightarrow> u16 \<Rightarrow> u16 \<Rightarrow> u8 \<Rightarrow> u8 \<Rightarrow> u32 \<Rightarrow> u32 \<Rightarrow> u8 list" where
  "ip_header tos len ident ttl proto src dest =
     bytes16 (htons (push_bit 12 4 OR push_bit 8 5 OR ucast tos)) @ bytes16 (htons len) @ bytes16 (htons ident)
       @ bytes16 0 @ bytes16 (htons (ucast proto OR push_bit 8 (ucast ttl))) @ bytes16 0
       @ mem_bytes src @ mem_bytes dest"

section \<open>Routing\<close>

definition netif_is_up :: "netif \<Rightarrow> bool" where
  "netif_is_up n \<longleftrightarrow> flags n AND NETIF_FLAG_UP \<noteq> 0"

definition ip_route :: "u32 \<Rightarrow> stack \<Rightarrow> nat option" where
  "ip_route dest s =
     (case List.find (\<lambda>i. let n = netif_list s ! i in netif_is_up n \<and> ip_addr_netcmp dest (ip_addr n) (netmask n))
             [0..<length (netif_list s)] of
        Some i \<Rightarrow> Some i
      | None \<Rightarrow> (case netif_default s of
          None \<Rightarrow> None
        | Some d \<Rightarrow> if netif_is_up (netif_list s ! d) then Some d else None))"

section \<open>Fragments\<close>

definition IP_FRAG_MAX_MTU :: nat where "IP_FRAG_MAX_MTU = 1500"

text \<open>
  The loop that sends the fragments.  It does not end when no eight bytes fit behind a header, and
  leaves the static buffer when the MTU is larger than that.
\<close>

partial_function (option) frag_loop ::
  "chain \<Rightarrow> nat \<Rightarrow> u32 \<Rightarrow> u16 \<Rightarrow> u16 \<Rightarrow> u16 \<Rightarrow> u16 \<Rightarrow> u16 \<Rightarrow> u16 \<Rightarrow> stack \<Rightarrow> (err_t \<times> stack) option" where
  "frag_loop p n dest m nfb omf left ofo poff s =
     (if left = 0 then Some (ERR_OK, s)
      else
        let is_last = int (unat left) \<le> int (unat m) - int IP_HLEN;
            tmp = omf OR (IP_OFFMASK AND ofo);
            tmp = (if is_last then tmp else tmp OR IP_MF);
            cop = (if is_last then left else nfb * 8);
            copied = take (unat cop) (drop (unat poff) (contents p));
            len = (if is_last then left + of_nat IP_HLEN else m)
        in if IP_FRAG_MAX_MTU < IP_HLEN + length copied \<or> IP_FRAG_MAX_MTU < unat len then None
           else
             let iphdr = overwrite IP_HLEN copied (frag_buf s);
                 iphdr = IPH_OFFSET_SET (htons tmp) iphdr;
                 iphdr = IPH_LEN_SET (htons (cop + of_nat IP_HLEN)) iphdr;
                 iphdr = IPH_CHKSUM_SET 0 iphdr;
                 iphdr = IPH_CHKSUM_SET (inet_chksum (take IP_HLEN iphdr)) iphdr;
                 (ok, s) = try_alloc (s\<lparr>frag_buf := iphdr\<rparr>)
             in if \<not> ok then Some (ERR_MEM, s)
                else
                  let header = ram_buf (garbage s) PBUF_LINK 0;
                      rambuf = \<lparr>btype = PBUF_REF, front = [], body = take (unat len) iphdr\<rparr>;
                      (err, s) = netif_output n [header, rambuf] dest s
                  in frag_loop p n dest m nfb omf (left - cop) (ofo + nfb) (poff + of_nat (length copied)) s)"

definition ip_frag :: "chain \<Rightarrow> nat \<Rightarrow> u32 \<Rightarrow> stack \<Rightarrow> (err_t \<times> stack) option" where
  "ip_frag p n dest s =
     (let (ok, s) = try_alloc s in
      if \<not> ok then Some (ERR_MEM, s)
      else
        let m = mtu (netif_list s ! n);
            s = s\<lparr>frag_buf := overwrite 0 (take IP_HLEN (first p)) (frag_buf s)\<rparr>;
            tmp = ntohs (IPH_OFFSET (frag_buf s));
            ofo = tmp AND IP_OFFMASK; omf = tmp AND IP_MF;
            left = chain_len p - of_nat IP_HLEN;
            nfb = (if unat m < IP_HLEN then - of_nat ((IP_HLEN - unat m) div 8) else of_nat ((unat m - IP_HLEN) div 8))
        in frag_loop p n dest m nfb omf left ofo (of_nat IP_HLEN) s)"

section \<open>Output\<close>

text \<open>
  A null source is the address 0.  No destination means that the packet has its header already
  (\<open>IP_HDRINCL\<close>).
\<close>

definition ip_output_if ::
  "chain \<Rightarrow> u32 \<Rightarrow> u32 option \<Rightarrow> u8 \<Rightarrow> u8 \<Rightarrow> u8 \<Rightarrow> nat \<Rightarrow> stack \<Rightarrow> (err_t \<times> stack) option" where
  "ip_output_if p src dest ttl tos proto n s =
     (let netif = netif_list s ! n;
          send = (\<lambda>p dest s. if mtu netif \<noteq> 0 \<and> mtu netif < chain_len p then ip_frag p n dest s
                             else Some (netif_output n p dest s))
      in case dest of
        None \<Rightarrow> send p (IPH_DEST (first p)) s
      | Some dest \<Rightarrow>
          (case chain_header (int IP_HLEN) p of
             None \<Rightarrow> Some (ERR_BUF, s)
           | Some p \<Rightarrow>
               let src = (if ip_addr_isany src then ip_addr netif else src)
               in send (write_first 0 (ip_header tos (chain_len p) (ip_id s) ttl proto src dest) p) dest
                    (s\<lparr>ip_id := ip_id s + 1\<rparr>)))"

definition ip_output :: "chain \<Rightarrow> u32 \<Rightarrow> u32 \<Rightarrow> u8 \<Rightarrow> u8 \<Rightarrow> u8 \<Rightarrow> stack \<Rightarrow> (err_t \<times> stack) option" where
  "ip_output p src dest ttl tos proto s =
     (case ip_route dest s of
        None \<Rightarrow> Some (ERR_RTE, s)
      | Some n \<Rightarrow> ip_output_if p src (Some dest) ttl tos proto n s)"

section \<open>Reading a header\<close>

lemma ntohs_htons [simp]: "ntohs (htons w) = w" "htons (ntohs w) = w"
  by (simp_all add: ntohs_def)

lemma length_ip_header [simp]: "length (ip_header tos len ident ttl proto src dest) = 20"
  by (simp add: ip_header_def)

lemma bit_u8_high [simp]: "8 \<le> n \<Longrightarrow> \<not> bit (a :: u8) n"
  using bit_imp_le_length [of a n] by auto

lemma bit_u8_low: "bit (a :: u8) n \<Longrightarrow> n < 8"
  using bit_imp_le_length [of a n] by auto

lemma two_bytes: "drop_bit 8 (ucast (a :: u8) OR push_bit 8 (ucast (b :: u8)) :: u16) = ucast b"
    "(ucast (a :: u8) OR push_bit 8 (ucast (b :: u8)) :: u16) AND 0xff = ucast a"
  by (auto intro!: bit_word_eqI simp: bit_simps byte_masks16 dest: bit_u8_low)

lemma version_word:
  "drop_bit 12 (push_bit 12 4 OR push_bit 8 5 OR ucast (tos :: u8) :: u16) = 4"
  "drop_bit 8 (push_bit 12 4 OR push_bit 8 5 OR ucast (tos :: u8) :: u16) AND 0x0f = 5"
proof -
  have z: "drop_bit 8 (ucast tos :: u16) = 0" "drop_bit 12 (ucast tos :: u16) = 0"
    by (auto intro!: bit_word_eqI simp: bit_simps)
  show "drop_bit 12 (push_bit 12 4 OR push_bit 8 5 OR ucast tos :: u16) = 4"
    by (simp add: drop_bit_or z)
  show "drop_bit 8 (push_bit 12 4 OR push_bit 8 5 OR ucast tos :: u16) AND 0x0f = 5"
    by (simp add: drop_bit_or z)
qed

text \<open>A generated header in front of anything reads back as it was written.\<close>

lemma ip_header_fields_of:
  assumes h_def: "h = ip_header tos len ident ttl proto src dest"
  shows "IPH_V (h @ xs) = 4" "IPH_HL (h @ xs) = 5" "IPH_LEN (h @ xs) = htons len" "IPH_ID (h @ xs) = htons ident"
    "IPH_OFFSET (h @ xs) = 0" "IPH_TTL (h @ xs) = ucast ttl" "IPH_PROTO (h @ xs) = ucast proto"
    "IPH_SRC (h @ xs) = src" "IPH_DEST (h @ xs) = dest"
proof -
  have w: "word16 (h @ xs) 0 = htons (push_bit 12 4 OR push_bit 8 5 OR ucast tos)"
    unfolding h_def ip_header_def append_assoc by (rule word16_at [of "[]" 0, simplified])
  show "IPH_V (h @ xs) = 4" "IPH_HL (h @ xs) = 5" unfolding IPH_V_def IPH_HL_def w ntohs_htons by (rule version_word)+
  let ?f = "bytes16 (htons (push_bit 12 4 OR push_bit 8 5 OR ucast tos))"
  have "word16 ((?f) @ bytes16 (htons len) @ ys) 2 = htons len" for ys by (rule word16_at) simp
  then show "IPH_LEN (h @ xs) = htons len" by (simp add: IPH_LEN_def h_def ip_header_def)
  have "word16 ((?f @ bytes16 (htons len)) @ bytes16 (htons ident) @ ys) 4 = htons ident" for ys by (rule word16_at) simp
  then show "IPH_ID (h @ xs) = htons ident" by (simp add: IPH_ID_def h_def ip_header_def)
  have "word16 ((?f @ bytes16 (htons len) @ bytes16 (htons ident)) @ bytes16 0 @ ys) 6 = 0" for ys by (rule word16_at) simp
  then show "IPH_OFFSET (h @ xs) = 0" by (simp add: IPH_OFFSET_def h_def ip_header_def)
  let ?p = "ucast proto OR push_bit 8 (ucast ttl) :: u16"
  have "word16 ((?f @ bytes16 (htons len) @ bytes16 (htons ident) @ bytes16 0) @ bytes16 (htons ?p) @ ys) 8 = htons ?p" for ys
    by (rule word16_at) simp
  then have p: "word16 (h @ xs) 8 = htons ?p" by (simp add: h_def ip_header_def)
  show "IPH_TTL (h @ xs) = ucast ttl" "IPH_PROTO (h @ xs) = ucast proto"
    unfolding IPH_TTL_def IPH_PROTO_def p ntohs_htons by (rule two_bytes)+
  let ?g = "?f @ bytes16 (htons len) @ bytes16 (htons ident) @ bytes16 0 @ bytes16 (htons ?p) @ bytes16 0"
  have "word32 (?g @ mem_bytes src @ ys) 12 = src" for ys by (rule word32_at) simp
  then show "IPH_SRC (h @ xs) = src" by (simp add: IPH_SRC_def h_def ip_header_def)
  have "word32 ((?g @ mem_bytes src) @ mem_bytes dest @ ys) 16 = dest" for ys by (rule word32_at) simp
  then show "IPH_DEST (h @ xs) = dest" by (simp add: IPH_DEST_def h_def ip_header_def)
qed

lemmas ip_header_fields [simp] = ip_header_fields_of [OF refl]

text \<open>Changing a field of a header.\<close>

lemma word16_overwrite: "i + 2 \<le> length xs \<Longrightarrow> word16 (overwrite i (bytes16 w) xs) i = w"
  unfolding overwrite_def by (rule word16_at) simp

lemma word16_overwrite_other:
  "i + 2 \<le> length xs \<Longrightarrow> j + length ys \<le> length xs \<Longrightarrow> i + 2 \<le> j \<or> j + length ys \<le> i \<Longrightarrow>
    word16 (overwrite j ys xs) i = word16 xs i"
  by (auto simp: word16_def nth_overwrite)

lemma word32_overwrite_other:
  "i + 4 \<le> length xs \<Longrightarrow> j + length ys \<le> length xs \<Longrightarrow> i + 4 \<le> j \<or> j + length ys \<le> i \<Longrightarrow>
    word32 (overwrite j ys xs) i = word32 xs i"
  by (auto simp: word32_def nth_overwrite)

lemma overwrite_append: "i + length ys \<le> length xs \<Longrightarrow> overwrite i ys (xs @ zs) = overwrite i ys xs @ zs"
  by (simp add: overwrite_def)

lemma overwrite_behind: "length xs \<le> i \<Longrightarrow> overwrite i ys (xs @ zs) = xs @ overwrite (i - length xs) ys zs"
  by (simp add: overwrite_def)

section \<open>The fragments of a packet\<close>

text \<open>
  The pieces of the data, with their offsets and whether another one follows: \<open>step\<close> bytes each,
  and the last one takes what is left once it fits into \<open>cap\<close>.
\<close>

function frag_list :: "nat \<Rightarrow> nat \<Rightarrow> nat \<Rightarrow> u8 list \<Rightarrow> (nat \<times> bool \<times> u8 list) list" where
  "frag_list cap step off xs =
     (if step = 0 \<or> length xs \<le> cap then if xs = [] then [] else [(off, False, xs)]
      else (off, True, take step xs) # frag_list cap step (off + step) (drop step xs))"
  by pat_completeness auto
termination by (relation "measure (\<lambda>(_, _, _, xs). length xs)") auto

declare frag_list.simps [simp del]

text \<open>The header of a fragment.\<close>

definition frag_header :: "u8 list \<Rightarrow> u16 \<Rightarrow> u16 \<Rightarrow> u8 list" where
  "frag_header hdr off len =
     (let h = IPH_CHKSUM_SET 0 (IPH_LEN_SET (htons len) (IPH_OFFSET_SET (htons off) hdr))
      in IPH_CHKSUM_SET (inet_chksum h) h)"

lemmas header_sets = IPH_CHKSUM_SET_def IPH_LEN_SET_def IPH_OFFSET_SET_def IPH_TTL_SET_def

lemma length_frag_header [simp]: "20 \<le> length hdr \<Longrightarrow> length (frag_header hdr off len) = length hdr"
  by (simp add: frag_header_def header_sets Let_def)

lemma frag_header_again:
  assumes "20 \<le> length h"
  shows "frag_header (frag_header h a b) c d = frag_header h c d"
proof -
  have "IPH_CHKSUM_SET 0 (IPH_LEN_SET (htons d) (IPH_OFFSET_SET (htons c) (frag_header h a b)))
      = IPH_CHKSUM_SET 0 (IPH_LEN_SET (htons d) (IPH_OFFSET_SET (htons c) h))"
    by (rule nth_equalityI) (use assms in \<open>auto simp: frag_header_def header_sets Let_def nth_overwrite\<close>)
  then show ?thesis by (simp add: frag_header_def Let_def)
qed

lemma frag_header_fields:
  assumes "20 \<le> length h"
  shows "IPH_LEN (frag_header h off len @ xs) = htons len" "IPH_OFFSET (frag_header h off len @ xs) = htons off"
    "IPH_V (frag_header h off len @ xs) = IPH_V h" "IPH_HL (frag_header h off len @ xs) = IPH_HL h"
    "IPH_ID (frag_header h off len @ xs) = IPH_ID h" "IPH_PROTO (frag_header h off len @ xs) = IPH_PROTO h"
    "IPH_TTL (frag_header h off len @ xs) = IPH_TTL h"
    "IPH_SRC (frag_header h off len @ xs) = IPH_SRC h" "IPH_DEST (frag_header h off len @ xs) = IPH_DEST h"
  using assms
  by (simp_all add: IPH_LEN_def IPH_OFFSET_def IPH_V_def IPH_HL_def IPH_ID_def IPH_PROTO_def IPH_TTL_def
      IPH_SRC_def IPH_DEST_def frag_header_def header_sets Let_def word16_prefix word32_prefix
      word16_overwrite word16_overwrite_other word32_overwrite_other)

text \<open>What the loop makes of the static buffer.\<close>

lemma frame_bytes:
  assumes "IP_HLEN + length xs \<le> length buf"
    and h_def: "h = IPH_CHKSUM_SET 0 (IPH_LEN_SET (htons len) (IPH_OFFSET_SET (htons off) (overwrite IP_HLEN xs buf)))"
  shows "IPH_CHKSUM_SET (inet_chksum (take IP_HLEN h)) h = frag_header (take 20 buf) off len @ xs @ drop (20 + length xs) buf"
proof -
  let ?t = "xs @ drop (20 + length xs) buf" and ?b = "take 20 buf"
  have b: "length ?b = 20" using assms(1) by (simp add: IP_HLEN_def)
  have "overwrite IP_HLEN xs buf = ?b @ ?t" by (simp add: overwrite_def IP_HLEN_def)
  then have h: "h = IPH_CHKSUM_SET 0 (IPH_LEN_SET (htons len) (IPH_OFFSET_SET (htons off) ?b)) @ ?t"
    using b by (simp add: h_def header_sets overwrite_append)
  have "length (IPH_CHKSUM_SET 0 (IPH_LEN_SET (htons len) (IPH_OFFSET_SET (htons off) ?b))) = 20"
    using b by (simp add: header_sets)
  then show ?thesis unfolding h by (simp add: frag_header_def Let_def IP_HLEN_def) (simp add: IPH_CHKSUM_SET_def overwrite_append)
qed

definition frag_bytes :: "u8 list \<Rightarrow> u16 \<Rightarrow> nat \<times> bool \<times> u8 list \<Rightarrow> u8 list" where
  "frag_bytes hdr omf x =
     (let (off, more, piece) = x; tmp = omf OR (IP_OFFMASK AND of_nat (off div 8))
      in frag_header hdr (if more then tmp OR IP_MF else tmp) (of_nat (length piece + 20)) @ piece)"

text \<open>A frame that carries a piece: the link header's buffer, and the bytes, perhaps with some behind them.\<close>

definition carries :: "nat \<Rightarrow> buf \<Rightarrow> u32 \<Rightarrow> nat \<Rightarrow> u8 list \<Rightarrow> u16 \<Rightarrow> ip_op \<Rightarrow> nat \<times> bool \<times> u8 list \<Rightarrow> bool" where
  "carries n link dest m hdr omf x l \<longleftrightarrow>
     (\<exists>pad. x = Netif_output n [link, \<lparr>btype = PBUF_REF, front = [], body = frag_bytes hdr omf l @ pad\<rparr>] dest
        \<and> length (frag_bytes hdr omf l @ pad) \<le> m \<and> (fst (snd l) \<or> pad = []))"

lemma drop_Suc_answers: "netif_output n p dest s =
  (case answers s of [] \<Rightarrow> ERR_OK | e # es \<Rightarrow> e, log_op (Netif_output n p dest) (s\<lparr>answers := drop 1 (answers s)\<rparr>))"
  by (cases s; cases "answers s") (simp_all add: netif_output_def)

lemma frag_loop_frames:
  fixes s :: stack
  assumes m: "28 \<le> unat m" "unat m \<le> 1500" and len: "length (contents p) < 65536" and hdr: "length hdr = 20"
    and cap: "cap = unat m - 20" and step: "step = cap div 8 * 8"
  shows "unat left = length xs \<Longrightarrow> xs = drop (20 + off) (contents p) \<Longrightarrow> 20 + off + length xs = length (contents p) \<Longrightarrow>
    unat poff = 20 + off \<Longrightarrow> unat ofo * 8 = off \<Longrightarrow> allocs s = [] \<Longrightarrow> 1500 \<le> length (frag_buf s) \<Longrightarrow>
    \<forall>a b. frag_header (take 20 (frag_buf s)) a b = frag_header hdr a b \<Longrightarrow>
    \<exists>buf F. length buf = length (frag_buf s)
      \<and> list_all2 (carries n (ram_buf (garbage s) PBUF_LINK 0) dest (unat m) hdr omf) F (frag_list cap step off xs)
      \<and> frag_loop p n dest m (of_nat (cap div 8)) omf left ofo poff s
        = Some (ERR_OK, s\<lparr>frag_buf := buf, answers := drop (length F) (answers s), ip_ops := ip_ops s @ F\<rparr>)"
  using cap step
proof (induction cap step off xs arbitrary: left ofo poff s rule: frag_list.induct)
  case (1 cap step off xs)
  note prems = 1(2-)
  have c8: "8 \<le> cap" "cap \<le> 1480" using m prems(9) by simp_all
  then have st: "0 < step" "step \<le> cap" "step = cap div 8 * 8" using prems(10) by (auto simp: div_greater_zero_iff)
  have u: "unat (of_nat (cap div 8) :: u16) = cap div 8" "unat (of_nat (cap div 8) * 8 :: u16) = step"
    using c8 st(3) by (simp_all add: unat_word_ariths unat_of_nat)
  have poff: "drop (unat poff) (contents p) = xs" using prems(2,4) by simp
  have is_last: "int (unat left) \<le> int (unat m) - int IP_HLEN \<longleftrightarrow> length xs \<le> cap"
    unfolding IP_HLEN_def prems(1,9) using m by linarith
  show ?case
  proof (cases "xs = []")
    case True
    then have "left = 0" using prems(1) by (simp add: unat_eq_zero)
    then show ?thesis using True
      by (intro exI [of _ "frag_buf s"] exI [of _ "[]"]) (simp add: frag_list.simps frag_loop.simps)
  next
    case False
    then have nz: "left \<noteq> 0" using prems(1) by auto
    let ?fin = "length xs \<le> cap"
    let ?piece = "if ?fin then xs else take step xs"
    let ?cop = "if ?fin then left else of_nat (cap div 8) * 8"
    let ?tmp = "omf OR (IP_OFFMASK AND ofo)"
    let ?t = "if ?fin then ?tmp else ?tmp OR IP_MF"
    have cop: "unat ?cop = length ?piece" using u(2) prems(1) st(2) by auto
    have copied: "take (unat ?cop) (drop (unat poff) (contents p)) = ?piece" using cop poff prems(1) u(2) by auto
    have plen: "length ?piece \<le> cap" using st(2) by auto
    have ofo: "of_nat (off div 8) = ofo" unfolding prems(5) [symmetric] by simp
    define h where "h = IPH_CHKSUM_SET 0 (IPH_LEN_SET (htons (?cop + of_nat IP_HLEN)) (IPH_OFFSET_SET (htons ?t) (overwrite IP_HLEN ?piece (frag_buf s))))"
    define hdr' where "hdr' = IPH_CHKSUM_SET (inet_chksum (take IP_HLEN h)) h"
    have cop16: "?cop + of_nat IP_HLEN = of_nat (length ?piece + 20)"
      unfolding IP_HLEN_def of_nat_add cop [symmetric] of_nat_unat ucast_id by simp
    have "hdr' = frag_header (take 20 (frag_buf s)) ?t (?cop + of_nat IP_HLEN) @ ?piece @ drop (20 + length ?piece) (frag_buf s)"
      unfolding hdr'_def by (rule frame_bytes [OF _ h_def]) (use plen c8 prems(7) in \<open>simp add: IP_HLEN_def\<close>)
    also have "\<dots> = frag_bytes hdr omf (off, \<not> ?fin, ?piece) @ drop (20 + length ?piece) (frag_buf s)"
      using prems(8) by (simp add: frag_bytes_def ofo Let_def cop16)
    finally have h': "hdr' = frag_bytes hdr omf (off, \<not> ?fin, ?piece) @ drop (20 + length ?piece) (frag_buf s)" .
    let ?len = "if ?fin then left + of_nat IP_HLEN else m"
    have len: "unat ?len = (if ?fin then length ?piece + 20 else unat m)"
    proof (cases ?fin)
      case True
      then have "left + of_nat IP_HLEN = (of_nat (length xs + 20) :: u16)" using cop16 by (simp del: of_nat_add)
      then have "unat (left + of_nat IP_HLEN) = (length xs + 20) mod 65536" by (simp only: unat_of_nat_u16)
      then show ?thesis using True c8 by simp
    qed simp
    let ?x = "Netif_output n [ram_buf (garbage s) PBUF_LINK 0, \<lparr>btype = PBUF_REF, front = [], body = take (unat ?len) hdr'\<rparr>] dest"
    define s1 where "s1 = s\<lparr>frag_buf := hdr', answers := drop 1 (answers s), ip_ops := ip_ops s @ [?x]\<rparr>"
    have fits: "\<not> (IP_FRAG_MAX_MTU < IP_HLEN + length ?piece \<or> IP_FRAG_MAX_MTU < unat ?len)"
      using plen c8 m len by (auto simp: IP_FRAG_MAX_MTU_def IP_HLEN_def)
    have alloc: "try_alloc (s\<lparr>frag_buf := hdr'\<rparr>) = (True, s\<lparr>frag_buf := hdr'\<rparr>)" using prems(6) by (simp add: try_alloc_def)
    have out: "snd (netif_output n [ram_buf (garbage (s\<lparr>frag_buf := hdr'\<rparr>)) PBUF_LINK 0, \<lparr>btype = PBUF_REF, front = [], body = take (unat ?len) hdr'\<rparr>] dest
        (s\<lparr>frag_buf := hdr'\<rparr>)) = s1"
      by (simp add: drop_Suc_answers log_op_def s1_def)
    have step1: "frag_loop p n dest m (of_nat (cap div 8)) omf left ofo poff s
        = frag_loop p n dest m (of_nat (cap div 8)) omf (left - ?cop) (ofo + of_nat (cap div 8)) (poff + of_nat (length ?piece)) s1"
      unfolding out [symmetric]
      apply (subst frag_loop.simps)
      unfolding Let_def is_last copied if_not_P [OF fits] h_def [symmetric] hdr'_def [symmetric] alloc prod.case
      using nz by (simp split: prod.split)
    have x: "carries n (ram_buf (garbage s) PBUF_LINK 0) dest (unat m) hdr omf ?x (off, \<not> ?fin, ?piece)"
    proof -
      let ?fb = "frag_bytes hdr omf (off, \<not> ?fin, ?piece)"
      have fb: "length ?fb = length ?piece + 20" using hdr by (simp add: frag_bytes_def Let_def)
      show ?thesis
      proof (cases ?fin)
        case True
        then have "take (unat ?len) hdr' = ?fb @ []" using len fb h' by simp
        then show ?thesis unfolding carries_def using True fb plen c8 prems(9) by (intro exI [of _ "[]"]) auto
      next
        case False
        let ?pad = "take (unat m - length ?fb) (drop (20 + length ?piece) (frag_buf s))"
        have "take (unat ?len) hdr' = ?fb @ ?pad" using len fb h' False st(2) m prems(9) by simp
        moreover have "length (?fb @ ?pad) \<le> unat m" using fb False st(2) prems(9) m by simp
        ultimately show ?thesis unfolding carries_def using False by (intro exI [of _ ?pad]) auto
      qed
    qed
    show ?thesis
    proof (cases ?fin)
      case True
      then have "frag_loop p n dest m (of_nat (cap div 8)) omf left ofo poff s = Some (ERR_OK, s1)"
        unfolding step1 by (subst frag_loop.simps) simp
      moreover have "frag_list cap step off xs = [(off, \<not> ?fin, ?piece)]" using True False by (simp add: frag_list.simps)
      moreover have "length hdr' = length (frag_buf s)" using h' hdr plen c8 prems(7) by (simp add: frag_bytes_def Let_def)
      ultimately show ?thesis using x by (intro exI [of _ hdr'] exI [of _ "[?x]"]) (simp add: s1_def)
    next
      case more: False
      have cut: "length xs \<ge> step" using more st(2) by simp
      have "\<exists>buf F. length buf = length (frag_buf s1)
          \<and> list_all2 (carries n (ram_buf (garbage s1) PBUF_LINK 0) dest (unat m) hdr omf) F (frag_list cap step (off + step) (drop step xs))
          \<and> frag_loop p n dest m (of_nat (cap div 8)) omf (left - ?cop) (ofo + of_nat (cap div 8)) (poff + of_nat (length ?piece)) s1
            = Some (ERR_OK, s1\<lparr>frag_buf := buf, answers := drop (length F) (answers s1), ip_ops := ip_ops s1 @ F\<rparr>)"
      proof (rule 1(1))
        show "\<not> (step = 0 \<or> length xs \<le> cap)" using more st(1) by simp
        have "?cop \<le> left" using cop more cut prems(1) by (simp add: word_le_nat_alt)
        then show "unat (left - ?cop) = length (drop step xs)"
          using unat_sub [of ?cop left] cop more cut prems(1) by simp
        show "drop step xs = drop (20 + (off + step)) (contents p)" by (simp add: prems(2) ac_simps)
        show "20 + (off + step) + length (drop step xs) = length (contents p)" using prems(3) cut by simp
        have "unat poff + length ?piece < 65536" using prems(3,4) len more cut \<open>length (contents p) < 65536\<close> by simp
        then show "unat (poff + of_nat (length ?piece)) = 20 + (off + step)"
          using prems(4) more cut by (simp add: unat_word_ariths unat_of_nat)
        have "unat ofo + cap div 8 < 65536" using prems(3,5) c8 \<open>length (contents p) < 65536\<close> by simp
        then have "unat (ofo + of_nat (cap div 8)) = unat ofo + cap div 8" using u(1) by (simp add: unat_word_ariths)
        then show "unat (ofo + of_nat (cap div 8)) * 8 = off + step" using prems(5) st(3) by simp
        show "allocs s1 = []" using prems(6) by (simp add: s1_def)
        show "1500 \<le> length (frag_buf s1)" using prems(7) h' hdr plen c8 by (simp add: s1_def frag_bytes_def Let_def)
        show "\<forall>a b. frag_header (take 20 (frag_buf s1)) a b = frag_header hdr a b"
          using hdr by (simp add: s1_def h' frag_bytes_def Let_def frag_header_again)
      qed (use prems(9,10) in simp_all)
      then obtain buf F where IH: "length buf = length (frag_buf s1)"
        "list_all2 (carries n (ram_buf (garbage s) PBUF_LINK 0) dest (unat m) hdr omf) F (frag_list cap step (off + step) (drop step xs))"
        "frag_loop p n dest m (of_nat (cap div 8)) omf left ofo poff s
            = Some (ERR_OK, s1\<lparr>frag_buf := buf, answers := drop (length F) (answers s1), ip_ops := ip_ops s1 @ F\<rparr>)"
        unfolding step1 by (auto simp: s1_def)
      have "frag_list cap step off xs = (off, \<not> ?fin, ?piece) # frag_list cap step (off + step) (drop step xs)"
        using more st(1) by (subst frag_list.simps) simp
      moreover have "length hdr' = length (frag_buf s)" using h' hdr plen c8 prems(7) by (simp add: frag_bytes_def Let_def)
      ultimately show ?thesis using x IH by (intro exI [of _ buf] exI [of _ "?x # F"]) (simp add: s1_def)
    qed
  qed
qed

text \<open>What the receiver reads in a fragment: the offset in bytes, whether more follow, and the data.\<close>

definition frag_off :: "u8 list \<Rightarrow> nat" where
  "frag_off x = unat (ntohs (IPH_OFFSET x) AND IP_OFFMASK) * 8"

definition frag_more :: "u8 list \<Rightarrow> bool" where
  "frag_more x \<longleftrightarrow> ntohs (IPH_OFFSET x) AND IP_MF \<noteq> 0"

definition frag_data :: "u8 list \<Rightarrow> u8 list" where
  "frag_data x = take (unat (ntohs (IPH_LEN x)) - 20) (drop 20 x)"

lemma offset_masks:
  fixes w :: u16
  assumes "unat w < 8192"
  shows "(IP_OFFMASK AND w) AND IP_OFFMASK = w" "((IP_OFFMASK AND w) OR IP_MF) AND IP_OFFMASK = w"
    "(IP_OFFMASK AND w) AND IP_MF = 0" "((IP_OFFMASK AND w) OR IP_MF) AND IP_MF \<noteq> 0"
proof -
  have m: "IP_OFFMASK = mask 13" "IP_MF = push_bit 13 1" by (simp_all add: IP_OFFMASK_def IP_MF_def mask_eq_exp_minus_1)
  have "take_bit 13 (unat w) = unat w" using assms by (simp add: take_bit_nat_eq_self)
  then have "take_bit 13 w = w" by (simp only: word_unat_eq_iff unsigned_take_bit_eq)
  then have w: "w AND mask 13 = w" by (simp add: take_bit_eq_mask)
  then show "(IP_OFFMASK AND w) AND IP_OFFMASK = w" by (simp add: m ac_simps)
  have z: "push_bit 13 1 AND mask 13 = (0 :: u16)" by (simp add: mask_eq_exp_minus_1)
  have "((mask 13 AND w) OR push_bit 13 1) AND mask 13 = (w AND mask 13) OR (push_bit 13 1 AND mask 13 :: u16)"
    by (rule bit_word_eqI) (auto simp only: bit_and_iff bit_or_iff)
  then show "((IP_OFFMASK AND w) OR IP_MF) AND IP_OFFMASK = w" unfolding m w z by simp
  have "(mask 13 AND w) AND push_bit 13 1 = w AND (push_bit 13 1 AND mask 13)" by (simp only: ac_simps)
  then show "(IP_OFFMASK AND w) AND IP_MF = 0" unfolding m z by simp
  have "bit (push_bit 13 1 :: u16) 13" by (simp add: bit_iff_odd)
  then have "bit ((mask 13 AND w OR push_bit 13 1) AND push_bit 13 1 :: u16) 13" by (simp only: bit_and_iff bit_or_iff simp_thms)
  then show "((IP_OFFMASK AND w) OR IP_MF) AND IP_MF \<noteq> 0" unfolding m by (metis bit_0_eq bot_apply bot_bool_def)
qed

lemma frag_bytes_reads:
  assumes "length hdr = 20" "off mod 8 = 0" "off < 65536" "length piece + 20 < 65536"
    and x_def: "x = frag_bytes hdr 0 (off, mf, piece) @ pad"
  shows "frag_off x = off" "frag_more x = mf" "frag_data x = piece"
    "IPH_LEN x = htons (of_nat (length piece + 20))"
    "IPH_V x = IPH_V hdr" "IPH_HL x = IPH_HL hdr" "IPH_ID x = IPH_ID hdr" "IPH_PROTO x = IPH_PROTO hdr" "IPH_TTL x = IPH_TTL hdr"
    "IPH_SRC x = IPH_SRC hdr" "IPH_DEST x = IPH_DEST hdr"
proof -
  note f = frag_header_fields [of hdr, OF eq_imp_le [OF assms(1) [symmetric]]]
  have u: "unat (of_nat (off div 8) :: u16) = off div 8" using assms(3) by (simp add: unat_of_nat)
  then have o8: "unat (of_nat (off div 8) :: u16) < 8192" using assms(3) by simp
  show "frag_off x = off"
    using offset_masks(1,2) [OF o8] u assms(2)
    by (simp add: x_def frag_bytes_def Let_def frag_off_def f) auto
  show "frag_more x = mf"
    using offset_masks(3,4) [OF o8] by (simp add: x_def frag_bytes_def Let_def frag_more_def f)
  show len: "IPH_LEN x = htons (of_nat (length piece + 20))"
    by (simp add: x_def frag_bytes_def Let_def f)
  show "frag_data x = piece"
    unfolding frag_data_def len using assms(1,4) by (simp add: x_def frag_bytes_def Let_def unat_of_nat del: of_nat_add)
qed (simp_all add: x_def frag_bytes_def Let_def frag_header_fields assms(1))

lemma frag_list_concat: "0 < step \<Longrightarrow> concat (map (snd \<circ> snd) (frag_list cap step off xs)) = xs"
proof (induction cap step off xs rule: frag_list.induct)
  case (1 cap step off xs)
  then show ?case by (subst frag_list.simps) (auto simp: comp_def)
qed

lemma frag_list_nth:
  "0 < step \<Longrightarrow> step \<le> cap \<Longrightarrow> k < length (frag_list cap step off xs) \<Longrightarrow>
    (case frag_list cap step off xs ! k of (o', mf, piece) \<Rightarrow>
      o' = off + k * step \<and> (mf \<longleftrightarrow> k + 1 < length (frag_list cap step off xs)) \<and> piece \<noteq> [] \<and> length piece \<le> cap
      \<and> (mf \<longrightarrow> length piece = step) \<and> o' - off + length piece \<le> length xs)"
proof (induction cap step off xs arbitrary: k rule: frag_list.induct)
  case (1 cap step off xs)
  show ?case
  proof (cases "length xs \<le> cap")
    case True
    then show ?thesis using 1(2-) by (auto simp: frag_list.simps split: if_splits)
  next
    case False
    then have l: "frag_list cap step off xs = (off, True, take step xs) # frag_list cap step (off + step) (drop step xs)"
      using 1(2) by (subst frag_list.simps) simp
    have ne: "frag_list cap step (off + step) (drop step xs) \<noteq> []"
      using False 1(2,3) by (subst frag_list.simps) auto
    show ?thesis
    proof (cases k)
      case 0
      then show ?thesis using False 1(2,3) ne by (auto simp: l)
    next
      case (Suc j)
      have "\<not> (step = 0 \<or> length xs \<le> cap)" using False 1(2) by simp
      from 1(1) [OF this 1(2,3), of j] show ?thesis using 1(4) Suc False 1(3)
        by (auto simp: l split: prod.splits)
    qed
  qed
qed

lemma header_take:
  assumes "20 \<le> length xs"
  shows "IPH_V (take 20 xs) = IPH_V xs" "IPH_HL (take 20 xs) = IPH_HL xs" "IPH_LEN (take 20 xs) = IPH_LEN xs"
    "IPH_ID (take 20 xs) = IPH_ID xs" "IPH_OFFSET (take 20 xs) = IPH_OFFSET xs" "IPH_PROTO (take 20 xs) = IPH_PROTO xs"
    "IPH_TTL (take 20 xs) = IPH_TTL xs" "IPH_SRC (take 20 xs) = IPH_SRC xs" "IPH_DEST (take 20 xs) = IPH_DEST xs"
  using assms by (simp_all add: IPH_V_def IPH_HL_def IPH_LEN_def IPH_ID_def IPH_OFFSET_def IPH_PROTO_def IPH_TTL_def
      IPH_SRC_def IPH_DEST_def word16_def word32_def)

lemma frag_list_offset:
  assumes "0 < step" "step \<le> cap"
  shows "k < length (frag_list cap step off xs) \<Longrightarrow> length (concat (map (snd \<circ> snd) (take k (frag_list cap step off xs)))) = k * step"
proof (induction k)
  case (Suc k)
  have "length (snd (snd (frag_list cap step off xs ! k))) = step"
    using frag_list_nth [OF assms, of k off xs] Suc.prems by (auto split: prod.splits)
  then show ?case using Suc by (simp add: take_Suc_conv_app_nth)
qed simp

lemma carries_bytes:
  "list_all2 (carries n link dest m hdr omf) F L \<Longrightarrow>
    \<exists>fs. F = map (\<lambda>f. Netif_output n [link, \<lparr>btype = PBUF_REF, front = [], body = f\<rparr>] dest) fs
      \<and> list_all2 (\<lambda>f l. \<exists>pad. f = frag_bytes hdr omf l @ pad \<and> length f \<le> m) fs L"
proof (induction F L rule: list_all2_induct)
  case (Cons x F l L)
  then obtain fs pad where fs: "F = map (\<lambda>f. Netif_output n [link, \<lparr>btype = PBUF_REF, front = [], body = f\<rparr>] dest) fs"
      "list_all2 (\<lambda>f l. \<exists>pad. f = frag_bytes hdr omf l @ pad \<and> length f \<le> m) fs L"
      "x = Netif_output n [link, \<lparr>btype = PBUF_REF, front = [], body = frag_bytes hdr omf l @ pad\<rparr>] dest"
      "length (frag_bytes hdr omf l @ pad) \<le> m"
    by (auto simp: carries_def)
  then show ?case by (intro exI [of _ "(frag_bytes hdr omf l @ pad) # fs"]) auto
qed simp

lemma htons_0 [simp]: "htons 0 = 0" "ntohs 0 = 0"
  by (simp_all add: htons_def ntohs_def)

lemma ip_frag_loop:
  assumes "28 \<le> unat (mtu (netif_list s ! n))" "allocs s = []" "length (frag_buf s) = IP_FRAG_MAX_MTU"
    and "20 \<le> length (first c)" "IPH_OFFSET (first c) = 0"
  defines "hdr \<equiv> take 20 (first c)" and "cap \<equiv> unat (mtu (netif_list s ! n)) - 20"
  shows "ip_frag c n dest s = frag_loop c n dest (mtu (netif_list s ! n)) (of_nat (cap div 8)) 0 (chain_len c - 20) 0 20
    (s\<lparr>frag_buf := hdr @ drop 20 (frag_buf s)\<rparr>)"
proof -
  have o: "overwrite 0 (take IP_HLEN (first c)) (frag_buf s) = hdr @ drop 20 (frag_buf s)"
    using assms(3,4) by (simp add: overwrite_def hdr_def IP_HLEN_def)
  have "length hdr = 20" using assms(4) by (simp add: hdr_def)
  then have "IPH_OFFSET (hdr @ drop 20 (frag_buf s)) = IPH_OFFSET hdr" by (simp add: IPH_OFFSET_def word16_prefix)
  also have "\<dots> = 0" using assms(5) word16_prefix [of 6 hdr "drop 20 (first c)"] \<open>length hdr = 20\<close>
    by (simp add: IPH_OFFSET_def hdr_def)
  finally show ?thesis using assms(1,2) o
    by (simp add: ip_frag_def try_alloc_def Let_def IP_HLEN_def cap_def)
qed

text \<open>The frames of a packet that is larger than the MTU.\<close>

lemma ip_frag_frames:
  fixes s :: stack
  assumes "28 \<le> unat (mtu (netif_list s ! n))" "unat (mtu (netif_list s ! n)) \<le> IP_FRAG_MAX_MTU"
    and "allocs s = []" "length (frag_buf s) = IP_FRAG_MAX_MTU"
    and "c \<noteq> []" "20 \<le> length (first c)" "IPH_OFFSET (first c) = 0"
    and "20 < length (contents c)" "length (contents c) < 65536"
    and cap: "cap = unat (mtu (netif_list s ! n)) - 20" and step: "step = cap div 8 * 8"
  shows "\<exists>fs buf. list_all2 (\<lambda>f l. \<exists>pad. f = frag_bytes (take 20 (first c)) 0 l @ pad \<and> length f \<le> unat (mtu (netif_list s ! n))) fs
      (frag_list cap step 0 (drop 20 (contents c)))
    \<and> ip_frag c n dest s = Some (ERR_OK, s\<lparr>frag_buf := buf, answers := drop (length fs) (answers s), ip_ops := ip_ops s
        @ map (\<lambda>f. Netif_output n [ram_buf (garbage s) PBUF_LINK 0, \<lparr>btype = PBUF_REF, front = [], body = f\<rparr>] dest) fs\<rparr>)"
proof -
  let ?m = "mtu (netif_list s ! n)" and ?hdr = "take 20 (first c)" and ?xs = "drop 20 (contents c)"
  have m: "28 \<le> unat ?m" "unat ?m \<le> 1500" using assms(1,2) by (simp_all add: IP_FRAG_MAX_MTU_def)
  have hdr: "length ?hdr = 20" using assms(6) by simp
  define s0 where "s0 = s\<lparr>frag_buf := ?hdr @ drop 20 (frag_buf s)\<rparr>"
  have left: "unat (chain_len c - 20) = length ?xs"
  proof -
    have u: "unat (chain_len c) = length (contents c)" using assms(9) by (simp add: chain_len_def unat_of_nat)
    then have "(20 :: u16) \<le> chain_len c" using assms(8) by (simp add: word_le_nat_alt)
    then show ?thesis using u by (simp add: unat_sub)
  qed
  have "\<exists>buf F. length buf = length (frag_buf s0)
      \<and> list_all2 (carries n (ram_buf (garbage s0) PBUF_LINK 0) dest (unat ?m) ?hdr 0) F (frag_list cap step 0 ?xs)
      \<and> frag_loop c n dest ?m (of_nat (cap div 8)) 0 (chain_len c - 20) 0 20 s0
        = Some (ERR_OK, s0\<lparr>frag_buf := buf, answers := drop (length F) (answers s0), ip_ops := ip_ops s0 @ F\<rparr>)"
    by (rule frag_loop_frames [OF m assms(9) hdr cap step left])
      (use assms(3,4,8) hdr in \<open>simp_all add: s0_def IP_FRAG_MAX_MTU_def\<close>)
  then obtain buf F where F: "list_all2 (carries n (ram_buf (garbage s) PBUF_LINK 0) dest (unat ?m) ?hdr 0) F (frag_list cap step 0 ?xs)"
      "frag_loop c n dest ?m (of_nat (cap div 8)) 0 (chain_len c - 20) 0 20 s0
        = Some (ERR_OK, s0\<lparr>frag_buf := buf, answers := drop (length F) (answers s0), ip_ops := ip_ops s0 @ F\<rparr>)"
    by (auto simp: s0_def)
  from carries_bytes [OF F(1)] obtain fs where
    fs: "F = map (\<lambda>f. Netif_output n [ram_buf (garbage s) PBUF_LINK 0, \<lparr>btype = PBUF_REF, front = [], body = f\<rparr>] dest) fs"
      "list_all2 (\<lambda>f l. \<exists>pad. f = frag_bytes ?hdr 0 l @ pad \<and> length f \<le> unat ?m) fs (frag_list cap step 0 ?xs)" by blast
  have "ip_frag c n dest s = Some (ERR_OK, s0\<lparr>frag_buf := buf, answers := drop (length F) (answers s0), ip_ops := ip_ops s0 @ F\<rparr>)"
    unfolding ip_frag_loop [OF m(1) assms(3,4,6,7)] F(2) [symmetric] by (simp add: cap s0_def)
  then show ?thesis using fs by (intro exI [of _ fs] exI [of _ buf]) (simp add: s0_def)
qed

text \<open>
  C6: A packet that is larger than the MTU leaves as fragments, none larger than the MTU: each has the
  addresses, identification and protocol of the packet, they follow each other without gap
  or overlap, all but the last announce more, and together their data is the packet's data.
\<close>

theorem ip_frag_covers:
  fixes s :: stack
  assumes "28 \<le> unat (mtu (netif_list s ! n))" "unat (mtu (netif_list s ! n)) \<le> IP_FRAG_MAX_MTU"
    and "allocs s = []" "length (frag_buf s) = IP_FRAG_MAX_MTU"
    and "c \<noteq> []" "20 \<le> length (first c)" "IPH_OFFSET (first c) = 0"
    and "20 < length (contents c)" "length (contents c) < 65536"
  shows "\<exists>fs s'. ip_frag c n dest s = Some (ERR_OK, s')
    \<and> ip_ops s' = ip_ops s @ map (\<lambda>f. Netif_output n [ram_buf (garbage s) PBUF_LINK 0, \<lparr>btype = PBUF_REF, front = [], body = f\<rparr>] dest) fs
    \<and> concat (map frag_data fs) = drop 20 (contents c)
    \<and> (\<forall>k<length fs. let f = fs ! k in
         length f \<le> unat (mtu (netif_list s ! n))
         \<and> frag_off f = length (concat (map frag_data (take k fs)))
         \<and> (frag_more f \<longleftrightarrow> k + 1 < length fs)
         \<and> IPH_V f = IPH_V (first c) \<and> IPH_HL f = IPH_HL (first c) \<and> IPH_ID f = IPH_ID (first c) \<and> IPH_PROTO f = IPH_PROTO (first c)
         \<and> IPH_SRC f = IPH_SRC (first c) \<and> IPH_DEST f = IPH_DEST (first c))"
proof -
  let ?m = "mtu (netif_list s ! n)" and ?hdr = "take 20 (first c)" and ?xs = "drop 20 (contents c)"
  define cap step where "cap = unat ?m - 20" and "step = cap div 8 * 8"
  define L where "L = frag_list cap step 0 ?xs"
  have m: "28 \<le> unat ?m" "unat ?m \<le> 1500" using assms(1,2) by (simp_all add: IP_FRAG_MAX_MTU_def)
  have st: "0 < step" "step \<le> cap" "step mod 8 = 0" using m by (auto simp: step_def cap_def div_greater_zero_iff)
  have hdr: "length ?hdr = 20" using assms(6) by simp
  obtain fs buf where fs: "list_all2 (\<lambda>f l. \<exists>pad. f = frag_bytes ?hdr 0 l @ pad \<and> length f \<le> unat ?m) fs L"
      "ip_frag c n dest s = Some (ERR_OK, s\<lparr>frag_buf := buf, answers := drop (length fs) (answers s), ip_ops := ip_ops s
        @ map (\<lambda>f. Netif_output n [ram_buf (garbage s) PBUF_LINK 0, \<lparr>btype = PBUF_REF, front = [], body = f\<rparr>] dest) fs\<rparr>)"
    using ip_frag_frames [OF assms cap_def step_def] unfolding L_def by blast
  have len: "length fs = length L" using fs(1) by (rule list_all2_lengthD)
  have k: "frag_data (fs ! k) = snd (snd (L ! k))" "frag_off (fs ! k) = k * step" "frag_more (fs ! k) \<longleftrightarrow> k + 1 < length L"
      "IPH_V (fs ! k) = IPH_V ?hdr" "IPH_HL (fs ! k) = IPH_HL ?hdr" "IPH_ID (fs ! k) = IPH_ID ?hdr"
      "IPH_PROTO (fs ! k) = IPH_PROTO ?hdr" "IPH_SRC (fs ! k) = IPH_SRC ?hdr" "IPH_DEST (fs ! k) = IPH_DEST ?hdr"
      "length (fs ! k) \<le> unat ?m" if kl: "k < length L" for k
  proof -
    obtain off mf piece where l: "L ! k = (off, mf, piece)" by (cases "L ! k")
    have n: "off = k * step" "mf \<longleftrightarrow> k + 1 < length L" "length piece \<le> cap" "off + length piece \<le> length ?xs"
      using frag_list_nth [OF st(1,2), of k 0 ?xs] kl l by (auto simp: L_def)
    obtain pad where f: "fs ! k = frag_bytes ?hdr 0 (off, mf, piece) @ pad" "length (fs ! k) \<le> unat ?m"
      using list_all2_nthD2 [OF fs(1) kl] l by auto
    have "off mod 8 = 0" "off < 65536" "length piece + 20 < 65536" using n st(3) assms(9) m by (auto simp: cap_def)
    note r = frag_bytes_reads [OF hdr this f(1)]
    show "frag_data (fs ! k) = snd (snd (L ! k))" "frag_off (fs ! k) = k * step" "frag_more (fs ! k) \<longleftrightarrow> k + 1 < length L"
      "IPH_V (fs ! k) = IPH_V ?hdr" "IPH_HL (fs ! k) = IPH_HL ?hdr" "IPH_ID (fs ! k) = IPH_ID ?hdr"
      "IPH_PROTO (fs ! k) = IPH_PROTO ?hdr" "IPH_SRC (fs ! k) = IPH_SRC ?hdr" "IPH_DEST (fs ! k) = IPH_DEST ?hdr"
      "length (fs ! k) \<le> unat ?m"
      using r n(1,2) l f(2) by simp_all
  qed
  have "map frag_data fs = map (snd \<circ> snd) L" using len k(1) by (auto intro: nth_equalityI)
  moreover have "concat (map (snd \<circ> snd) L) = ?xs" unfolding L_def by (rule frag_list_concat [OF st(1)])
  moreover have "length (concat (map frag_data (take k fs))) = k * step" if "k < length fs" for k
    using frag_list_offset [OF st(1,2), of k 0 ?xs] that len \<open>map frag_data fs = map (snd \<circ> snd) L\<close>
    by (simp add: L_def flip: take_map)
  moreover have "IPH_V ?hdr = IPH_V (first c)" "IPH_HL ?hdr = IPH_HL (first c)" "IPH_ID ?hdr = IPH_ID (first c)"
      "IPH_PROTO ?hdr = IPH_PROTO (first c)" "IPH_SRC ?hdr = IPH_SRC (first c)" "IPH_DEST ?hdr = IPH_DEST (first c)"
    using header_take [OF assms(6)] by simp_all
  ultimately show ?thesis using k fs(2) len
    by (intro exI [of _ fs] exI [of _ "s\<lparr>frag_buf := buf, answers := drop (length fs) (answers s), ip_ops := ip_ops s
        @ map (\<lambda>f. Netif_output n [ram_buf (garbage s) PBUF_LINK 0, \<lparr>btype = PBUF_REF, front = [], body = f\<rparr>] dest) fs\<rparr>"])
      (simp add: Let_def)
qed

definition udp_zero :: udp_pcb where
  "udp_zero = \<lparr>udp_local_ip = 0, udp_remote_ip = 0, udp_tos = 0, udp_ttl = 0, udp_flags = 0, udp_local_port = 0,
     udp_remote_port = 0, udp_recv_set = False\<rparr>"

definition raw_zero :: raw_pcb where
  "raw_zero = \<lparr>raw_local_ip = 0, raw_remote_ip = 0, raw_tos = 0, raw_ttl = 0, raw_protocol = 0, raw_callback = None\<rparr>"

text \<open>A host with one interface, before it has sent or received anything.\<close>

definition host_if :: "u32 \<Rightarrow> netif" where
  "host_if a = \<lparr>ip_addr = a, netmask = IP4_ADDR 255 255 255 0, gw = 0, hwaddr_len = 6,
     hwaddr = [2, 0, 0, 0, 0, 1], mtu = 1500, flags = 0x33, dhcp_tries = None\<rparr>"

definition host :: "u32 \<Rightarrow> stack" where
  "host a = \<lparr>netif_list = [host_if a], netif_default = Some 0, dhcp_pcb = (\<lambda>_. None), ip_id = 0,
     frag_buf = replicate 1500 0, reassdatagrams = [], ip_reass_pbufcount = 0, udp_mem = (\<lambda>_. udp_zero),
     udp_pcbs = [], udp_free = [0..<6], raw_mem = (\<lambda>_. raw_zero), raw_pcbs = [], raw_free = [0..<4], allocs = [], answers = [], garbage = (\<lambda>_. 0), ip_ops = []\<rparr>"

theorem ip_frag_covers_witness:
  "\<exists>fs s'. ip_frag [\<lparr>btype = PBUF_RAM, front = [], body = ip_header 0 32 7 255 17 1 2 @ [1, 2, 3, 4, 5, 6, 7, 8, 9, 10, 11, 12]\<rparr>] 0 9
      (host 1\<lparr>netif_list := [host_if 1\<lparr>mtu := 28\<rparr>]\<rparr>) = Some (ERR_OK, s')
    \<and> concat (map frag_data fs) = [1, 2, 3, 4, 5, 6, 7, 8, 9, 10, 11, 12] \<and> length fs \<le> length (ip_ops s')"
proof -
  let ?s = "host 1\<lparr>netif_list := [host_if 1\<lparr>mtu := 28\<rparr>]\<rparr>"
  let ?c = "[\<lparr>btype = PBUF_RAM, front = [], body = ip_header 0 32 7 255 17 1 2 @ [1, 2, 3, 4, 5, 6, 7, 8, 9, 10, 11, 12 :: u8]\<rparr>]"
  have h: "28 \<le> unat (mtu (netif_list ?s ! 0))" "unat (mtu (netif_list ?s ! 0)) \<le> IP_FRAG_MAX_MTU" "allocs ?s = []"
    "length (frag_buf ?s) = IP_FRAG_MAX_MTU" "?c \<noteq> []" "20 \<le> length (first ?c)" "IPH_OFFSET (first ?c) = 0"
    "20 < length (contents ?c)" "length (contents ?c) < 65536"
    by (simp_all add: host_def host_if_def IP_FRAG_MAX_MTU_def contents_def)
  from ip_frag_covers [OF h, of 9] obtain fs s' where "ip_frag ?c 0 9 ?s = Some (ERR_OK, s')"
      "ip_ops s' = ip_ops ?s @ map (\<lambda>f. Netif_output 0 [ram_buf (garbage ?s) PBUF_LINK 0, \<lparr>btype = PBUF_REF, front = [], body = f\<rparr>] 9) fs"
      "concat (map frag_data fs) = drop 20 (contents ?c)" by blast
  then show ?thesis by (intro exI [of _ fs] exI [of _ s']) (simp add: contents_def)
qed

section \<open>Sending\<close>

lemma ip_output_if_header:
  assumes "c = b # bs" "has_room (btype b)" "20 \<le> length (front b)" "length (contents c) + 20 < 65536"
    and q_def: "q = b\<lparr>front := take (length (front b) - 20) (front b),
        body := ip_header tos (of_nat (length (contents c) + 20)) (ip_id s) ttl proto
          (if src = 0 then ip_addr (netif_list s ! n) else src) dest @ body b\<rparr> # bs"
  shows "ip_output_if c src (Some dest) ttl tos proto n s =
    (if mtu (netif_list s ! n) \<noteq> 0 \<and> unat (mtu (netif_list s ! n)) < length (contents c) + 20
     then ip_frag q n dest (s\<lparr>ip_id := ip_id s + 1\<rparr>) else Some (netif_output n q dest (s\<lparr>ip_id := ip_id s + 1\<rparr>)))"
proof -
  let ?b = "b\<lparr>front := take (length (front b) - 20) (front b), body := drop (length (front b) - 20) (front b) @ body b\<rparr>"
  have h: "chain_header (int IP_HLEN) c = Some (?b # bs)"
    using assms(1-3) by (auto simp: chain_header_def buf_header_def IP_HLEN_def Let_def)
  have l: "length (contents (?b # bs)) = length (contents c) + 20" using assms(1,3) by (simp add: contents_def)
  then have t: "chain_len (?b # bs) = of_nat (length (contents c) + 20)" by (simp add: chain_len_def del: of_nat_add)
  have w: "write_first 0 (ip_header tos x i ttl proto sr dest) (?b # bs)
      = b\<lparr>front := take (length (front b) - 20) (front b), body := ip_header tos x i ttl proto sr dest @ body b\<rparr> # bs" for x i sr
    using assms(3) by (simp add: write_first_def overwrite_def)
  have m: "mtu (netif_list s ! n) < chain_len q \<longleftrightarrow> unat (mtu (netif_list s ! n)) < length (contents c) + 20"
  proof -
    have "length (contents q) = length (contents c) + 20" using assms(1) by (simp add: q_def contents_def)
    then have "unat (chain_len q) = length (contents c) + 20" using assms(4) by (simp add: chain_len_def unat_of_nat del: of_nat_add)
    then show ?thesis by (simp add: word_less_nat_alt)
  qed
  have q: "write_first 0 (ip_header tos (chain_len (?b # bs)) (ip_id s) ttl proto
      (if ip_addr_isany src then ip_addr (netif_list s ! n) else src) dest) (?b # bs) = q"
    unfolding w t q_def by (simp add: ip_addr_isany_def del: of_nat_add)
  show ?thesis unfolding ip_output_if_def option.case h Let_def q m by simp
qed

lemma ip_output_if_fits:
  assumes "c = b # bs" "has_room (btype b)" "20 \<le> length (front b)" "length (contents c) + 20 < 65536"
    and "mtu (netif_list s ! n) = 0 \<or> length (contents c) + 20 \<le> unat (mtu (netif_list s ! n))"
  shows "ip_output_if c src (Some dest) ttl tos proto n s =
    Some (netif_output n (b\<lparr>front := take (length (front b) - 20) (front b),
        body := ip_header tos (of_nat (length (contents c) + 20)) (ip_id s) ttl proto
          (if src = 0 then ip_addr (netif_list s ! n) else src) dest @ body b\<rparr> # bs) dest (s\<lparr>ip_id := ip_id s + 1\<rparr>))"
  unfolding ip_output_if_header [OF assms(1-4) refl] using assms(5) by auto

end
