(* ===== verification/Icmp.thy ===== *)
theory Icmp
  imports Ip
begin

text \<open>
  \<open>icmp.c\<close> as this program has it: besides answering echo requests, \<open>icmp_input\<close> writes the sender's
  address to the display through a text of 20 bytes; a longer text, like every access outside
  the data of a buffer, is \<open>None\<close>.  The checksum of an answer is left to the hardware.
  The release of the received packet is recorded; that of the packets made here is not.
\<close>

definition ICMP_ER :: u8 where "ICMP_ER = 0"
definition ICMP_DUR :: u8 where "ICMP_DUR = 3"
definition ICMP_ECHO :: u8 where "ICMP_ECHO = 8"
definition ICMP_TE :: u8 where "ICMP_TE = 11"
definition ICMP_DUR_PROTO :: u8 where "ICMP_DUR_PROTO = 2"
definition ICMP_DUR_PORT :: u8 where "ICMP_DUR_PORT = 3"
definition ICMP_TE_FRAG :: u8 where "ICMP_TE_FRAG = 1"
definition ICMP_TTL :: u8 where "ICMP_TTL = 255"
definition ICMP_DEST_UNREACH_DATASIZE :: nat where "ICMP_DEST_UNREACH_DATASIZE = 8"

section \<open>Messages about a packet\<close>

definition icmp_send_response :: "chain \<Rightarrow> u8 \<Rightarrow> u8 \<Rightarrow> stack \<Rightarrow> stack option" where
  "icmp_send_response p type icode s =
     (let size = 8 + IP_HLEN + ICMP_DEST_UNREACH_DATASIZE; (ok, s) = try_alloc s in
      if \<not> ok then Some s
      else if length (first p) < IP_HLEN + ICMP_DEST_UNREACH_DATASIZE then None
      else
        let q = ram_buf (garbage s) PBUF_IP size;
            msg = [type, icode, 0, 0, 0, 0, 0, 0] @ take (IP_HLEN + ICMP_DEST_UNREACH_DATASIZE) (first p);
            msg = overwrite 2 (bytes16 (inet_chksum msg)) msg
        in map_option snd (ip_output [q\<lparr>body := msg\<rparr>] 0 (IPH_SRC (first p)) ICMP_TTL 0 IP_PROTO_ICMP s))"

definition icmp_dest_unreach :: "chain \<Rightarrow> u8 \<Rightarrow> stack \<Rightarrow> stack option" where
  "icmp_dest_unreach p t = icmp_send_response p ICMP_DUR t"

definition icmp_time_exceeded :: "chain \<Rightarrow> u8 \<Rightarrow> stack \<Rightarrow> stack option" where
  "icmp_time_exceeded p t = icmp_send_response p ICMP_TE t"

section \<open>Echo\<close>

text \<open>
  The answer is made in the request's own bytes, IP header included, which is in front of the data of
  \<open>p\<close>; then it is sent.
\<close>

definition echo_answer :: "chain \<Rightarrow> nat \<Rightarrow> nat \<Rightarrow> stack \<Rightarrow> stack option" where
  "echo_answer p hlen n s =
     (case chain_header (int hlen) p of
        None \<Rightarrow> Some s
      | Some p \<Rightarrow>
          if length (first p) < IP_HLEN \<or> length (first p) < hlen + 4 then None
          else
            let src = IPH_SRC (first p); dest = IPH_DEST (first p);
                p = write_first 12 (mem_bytes dest) p;
                p = write_first 16 (mem_bytes src) p;
                p = write_first hlen [ICMP_ER] p;
                p = write_first (hlen + 2) (bytes16 0) p;
                p = write_first 0 (IPH_TTL_SET ICMP_TTL (first p)) p;
                p = write_first 0 (IPH_CHKSUM_SET 0 (first p)) p
            in map_option snd (ip_output_if p (IPH_SRC (first p)) None ICMP_TTL 0 IP_PROTO_ICMP n s))"

definition ping_text :: "u32 \<Rightarrow> string" where
  "ping_text a = ''Ping: '' @ sprint_ip a @ ''   ''"

definition icmp_input :: "chain \<Rightarrow> nat \<Rightarrow> stack \<Rightarrow> stack option" where
  "icmp_input p n s =
     (let iphdr = first p; hlen = unat (IPH_HL iphdr) * 4; drop_it = (\<lambda>s. Some (log_op (Free_chain p) s)) in
      case chain_header (- int hlen) p of
        None \<Rightarrow> drop_it s
      | Some q \<Rightarrow>
          if chain_len q < 4 then drop_it s
          else if 20 < cstr_size (ping_text (IPH_SRC iphdr)) then None
          else
            let s = log_op (Lcd_line (ping_text (IPH_SRC iphdr))) s in
            case first q of
              [] \<Rightarrow> None
            | type # _ \<Rightarrow>
                if type \<noteq> ICMP_ECHO then drop_it s
                else if ip_addr_ismulticast (IPH_DEST iphdr) \<or> ip_addr_isbroadcast (IPH_DEST iphdr) (netif_list s ! n)
                then drop_it s
                else if chain_len q < 8 then drop_it s
                else if inet_chksum_pbuf (map body q) \<noteq> 0 then drop_it s
                else
                  case chain_header (int (PBUF_IP_HLEN + PBUF_LINK_HLEN)) q of
                    None \<Rightarrow>
                      (case chain_header (int hlen) q of
                         None \<Rightarrow> drop_it s
                       | Some q \<Rightarrow>
                           let (ok, s) = try_alloc s in
                           if \<not> ok then drop_it s
                           else
                             let r = [(ram_buf (garbage s) PBUF_LINK (length (contents q)))\<lparr>body := contents q\<rparr>] in
                             case chain_header (- int hlen) r of
                               None \<Rightarrow> drop_it s
                             | Some r \<Rightarrow> echo_answer r hlen n (log_op (Free_chain p) s))
                  | Some q \<Rightarrow>
                      (case chain_header (- int (PBUF_IP_HLEN + PBUF_LINK_HLEN)) q of
                         None \<Rightarrow> drop_it s
                       | Some q \<Rightarrow> map_option (log_op (Free_chain p)) (echo_answer q hlen n s)))"

section \<open>What an answer looks like\<close>

definition echo_bytes :: "u8 list \<Rightarrow> u8 list" where
  "echo_bytes xs = take 8 xs @ [255, xs ! 9, 0, 0] @ take 4 (drop 16 xs) @ take 4 (drop 12 xs) @ [0, xs ! 21, 0, 0] @ drop 24 xs"

lemma ntohs_word16: "ntohs (word16 xs i) = ucast (xs ! (i + 1)) OR push_bit 8 (ucast (xs ! i))"
  by (auto intro!: bit_word_eqI simp: word16_def ntohs_def htons_bit bit_simps split: if_splits dest: bit_u8_low)

lemma bytes16_htons: "bytes16 (htons w) = [ucast (drop_bit 8 w), ucast w]"
  by (auto intro!: bit_word_eqI simp: bytes16_def htons_bit bit_simps add.commute)

lemma mem_bytes_word32: "i + 4 \<le> length xs \<Longrightarrow> mem_bytes (word32 xs i) = take 4 (drop i xs)"
proof -
  assume i: "i + 4 \<le> length xs"
  then have "take 4 (drop i xs) = [xs ! i, xs ! (i + 1), xs ! (i + 2), xs ! (i + 3)]"
    by (intro nth_equalityI) (auto simp: less_Suc_eq nth_Cons numeral_eq_Suc)
  moreover have "mem_bytes (word32 xs i) = [xs ! i, xs ! (i + 1), xs ! (i + 2), xs ! (i + 3)]"
    unfolding mem_bytes_def word32_def
    by (auto intro!: bit_word_eqI simp: bit_simps dest: bit_u8_low)
  ultimately show ?thesis by simp
qed

lemma proto_byte: "ucast (IPH_PROTO hdr) = hdr ! 9"
  unfolding IPH_PROTO_def ntohs_word16 two_bytes(2) by (rule bit_word_eqI) (auto simp: bit_simps)

lemma ttl_bytes: "bytes16 (htons (IPH_PROTO hdr OR push_bit 8 (ucast (t :: u8)))) = [t, hdr ! 9]"
proof -
  have "IPH_PROTO hdr = ucast (hdr ! 9)" unfolding IPH_PROTO_def ntohs_word16 two_bytes(2) by simp
  then show ?thesis by (auto simp: bytes16_htons two_bytes intro!: bit_word_eqI simp: bit_simps)
qed

lemma take_4: "i + 4 \<le> length xs \<Longrightarrow> take 4 (drop i xs) = [xs ! i, xs ! (i + 1), xs ! (i + 2), xs ! (i + 3)]"
  by (intro nth_equalityI) (auto simp: less_Suc_eq nth_Cons numeral_eq_Suc)

lemma split_header:
  assumes "24 \<le> length h"
  obtains A t q c1 c2 S D ty co k1 k2 R where
    "h = A @ [t, q, c1, c2] @ S @ D @ [ty, co, k1, k2] @ R" "length A = 8" "length S = 4" "length D = 4"
    "A = take 8 h" "q = h ! 9" "S = take 4 (drop 12 h)" "D = take 4 (drop 16 h)" "co = h ! 21" "R = drop 24 h"
proof -
  have d: "drop i h = take 4 (drop i h) @ drop (i + 4) h" for i
    using append_take_drop_id [of 4 "drop i h"] by (simp add: add.commute)
  have "drop 8 h = [h ! 8, h ! 9, h ! 10, h ! 11] @ drop 12 h" using d [of 8] take_4 [of 8 h] assms by simp
  moreover have "drop 20 h = [h ! 20, h ! 21, h ! 22, h ! 23] @ drop 24 h" using d [of 20] take_4 [of 20 h] assms by simp
  moreover have "drop 12 h = take 4 (drop 12 h) @ drop 16 h" "drop 16 h = take 4 (drop 16 h) @ drop 20 h"
    using d [of 12] d [of 16] by simp_all
  ultimately have "h = take 8 h @ [h ! 8, h ! 9, h ! 10, h ! 11] @ take 4 (drop 12 h) @ take 4 (drop 16 h)
      @ [h ! 20, h ! 21, h ! 22, h ! 23] @ drop 24 h" by (metis append_take_drop_id)
  then show ?thesis by (rule that) (use assms in simp_all)
qed

lemma echo_edit:
  assumes "24 \<le> length h"
  shows "IPH_CHKSUM_SET 0 (IPH_TTL_SET ICMP_TTL (overwrite 22 (bytes16 0) (overwrite 20 [ICMP_ER]
    (overwrite 16 (mem_bytes (IPH_SRC h)) (overwrite 12 (mem_bytes (IPH_DEST h)) h))))) = echo_bytes h"
proof -
  have m: "mem_bytes (IPH_SRC h) = take 4 (drop 12 h)" "mem_bytes (IPH_DEST h) = take 4 (drop 16 h)"
    using assms by (simp_all add: IPH_SRC_def IPH_DEST_def mem_bytes_word32)
  from split_header [OF assms] obtain A t q c1 c2 S D ty co k1 k2 R where
    h: "h = A @ [t, q, c1, c2] @ S @ D @ [ty, co, k1, k2] @ R" "length A = 8" "length S = 4" "length D = 4"
    and r: "A = take 8 h" "q = h ! 9" "S = take 4 (drop 12 h)" "D = take 4 (drop 16 h)" "co = h ! 21" "R = drop 24 h" .
  have e: "overwrite 12 D h = A @ [t, q, c1, c2] @ D @ D @ [ty, co, k1, k2] @ R"
    "overwrite 16 S (A @ [t, q, c1, c2] @ D @ D @ [ty, co, k1, k2] @ R) = A @ [t, q, c1, c2] @ D @ S @ [ty, co, k1, k2] @ R"
    "overwrite 20 [ICMP_ER] (A @ [t, q, c1, c2] @ D @ S @ [ty, co, k1, k2] @ R) = A @ [t, q, c1, c2] @ D @ S @ [0, co, k1, k2] @ R"
    "overwrite 22 (bytes16 0) (A @ [t, q, c1, c2] @ D @ S @ [0, co, k1, k2] @ R) = A @ [t, q, c1, c2] @ D @ S @ [0, co, 0, 0] @ R"
    using h(2-4) by (simp_all add: overwrite_def h(1) ICMP_ER_def bytes16_def)
  have t: "IPH_TTL_SET ICMP_TTL (A @ [t, q, c1, c2] @ D @ S @ [0, co, 0, 0] @ R) = A @ [255, q, c1, c2] @ D @ S @ [0, co, 0, 0] @ R"
    using h(2) unfolding IPH_TTL_SET_def ttl_bytes by (simp add: overwrite_def ICMP_TTL_def nth_append)
  have c: "IPH_CHKSUM_SET 0 (A @ [255, q, c1, c2] @ D @ S @ [0, co, 0, 0] @ R) = A @ [255, q, 0, 0] @ D @ S @ [0, co, 0, 0] @ R"
    using h(2) by (simp add: IPH_CHKSUM_SET_def overwrite_def bytes16_def)
  show ?thesis unfolding m r(3,4) [symmetric] e t c by (simp add: echo_bytes_def r)
qed

lemma length_echo_bytes [simp]: "24 \<le> length h \<Longrightarrow> length (echo_bytes h) = length h"
  by (simp add: echo_bytes_def)

lemma echo_bytes_append: "24 \<le> length h \<Longrightarrow> echo_bytes (h @ xs) = echo_bytes h @ xs"
  by (simp add: echo_bytes_def nth_append)

lemma echo_bytes_dest:
  assumes "24 \<le> length h"
  shows "IPH_DEST (echo_bytes h) = IPH_SRC h"
proof -
  have "take 4 (drop 12 h) = mem_bytes (IPH_SRC h)" using assms by (simp add: IPH_SRC_def mem_bytes_word32)
  then have "echo_bytes h = (take 8 h @ [255, h ! 9, 0, 0] @ take 4 (drop 16 h)) @ mem_bytes (IPH_SRC h) @ [0, h ! 21, 0, 0] @ drop 24 h"
    by (simp add: echo_bytes_def)
  then show ?thesis using assms by (simp only: IPH_DEST_def) (rule word32_at, simp)
qed

lemma write_first_Cons: "write_first i xs (b # bs) = b\<lparr>body := overwrite i xs (body b)\<rparr> # bs"
  by (simp add: write_first_def)

lemma overwrite_all: "length ys = length xs \<Longrightarrow> overwrite 0 ys xs = ys"
  by (simp add: overwrite_def)

lemma echo_answer_sends:
  fixes s :: stack
  assumes h: "chain_header 20 q = Some (b # bs)" and l: "24 \<le> length (body b)" "length (contents (b # bs)) < 65536"
    and m: "mtu (netif_list s ! n) = 0 \<or> length (contents (b # bs)) \<le> unat (mtu (netif_list s ! n))"
  shows "echo_answer q 20 n s = Some (snd (netif_output n (b\<lparr>body := echo_bytes (body b)\<rparr> # bs) (IPH_SRC (body b)) s))"
proof -
  let ?h = "overwrite 22 (bytes16 0) (overwrite 20 [ICMP_ER] (overwrite 16 (mem_bytes (IPH_SRC (body b)))
      (overwrite 12 (mem_bytes (IPH_DEST (body b))) (body b))))"
  have len: "length ?h = length (body b)" using l(1) by simp
  have ttl: "overwrite 0 (IPH_TTL_SET ICMP_TTL ?h) ?h = IPH_TTL_SET ICMP_TTL ?h"
    by (rule overwrite_all) (use l(1) len in \<open>simp add: IPH_TTL_SET_def\<close>)
  have lt: "length (IPH_TTL_SET ICMP_TTL ?h) = length (body b)" using l(1) len by (simp add: IPH_TTL_SET_def)
  have chk: "overwrite 0 (IPH_CHKSUM_SET 0 (IPH_TTL_SET ICMP_TTL ?h)) (IPH_TTL_SET ICMP_TTL ?h) = echo_bytes (body b)"
    unfolding echo_edit [OF l(1)] by (rule overwrite_all) (use l(1) lt in simp)
  have c: "length (contents (b\<lparr>body := echo_bytes (body b)\<rparr> # bs)) = length (contents (b # bs))"
    using l(1) by (simp add: contents_def)
  have fits: "\<not> (mtu (netif_list s ! n) \<noteq> 0 \<and> mtu (netif_list s ! n) < chain_len (b\<lparr>body := echo_bytes (body b)\<rparr> # bs))"
    using m l(2) unfolding chain_len_def c by (auto simp: word_less_nat_alt unat_of_nat_u16)
  have hd20: "chain_header (int 20) q = Some (b # bs)" using h by simp
  have e22: "20 + 2 = (22 :: nat)" by simp
  have upd: "body (b\<lparr>body := x\<rparr>) = x" "b\<lparr>body := x, body := y\<rparr> = b\<lparr>body := y\<rparr>" for x y by simp_all
  show ?thesis
    unfolding echo_answer_def hd20 option.case Let_def write_first_Cons list.sel upd e22 ttl chk
    using l(1) fits by (auto simp: IP_HLEN_def ip_output_if_def Let_def echo_bytes_dest prod_eq_iff)
qed

section \<open>Answering a ping\<close>

lemma netif_output_log: "\<exists>es. snd (netif_output n p dest s) = s\<lparr>answers := es, ip_ops := ip_ops s @ [Netif_output n p dest]\<rparr>"
  by (auto simp: netif_output_def log_op_def split: list.split intro: exI [of _ "answers s"])

text \<open>The request with its IP header taken away, and the room of 34 bytes looked for in front of it.\<close>

definition stripped :: "buf \<Rightarrow> buf" where
  "stripped b = b\<lparr>front := front b @ take 20 (body b), body := drop 20 (body b)\<rparr>"

lemma stripped_header:
  assumes "has_room (btype b)" "20 \<le> length (body b)"
  shows "chain_header (- 20) (b # bs) = Some (stripped b # bs)" "chain_header 20 (stripped b # bs) = Some (b # bs)"
    "chain_header 34 (stripped b # bs) =
      (if 14 \<le> length (front b)
       then Some (b\<lparr>front := take (length (front b) - 14) (front b), body := drop (length (front b) - 14) (front b) @ body b\<rparr> # bs)
       else None)"
    "14 \<le> length (front b) \<Longrightarrow> chain_header (- 34)
      (b\<lparr>front := take (length (front b) - 14) (front b), body := drop (length (front b) - 14) (front b) @ body b\<rparr> # bs)
      = Some (stripped b # bs)"
  using assms by (auto simp: chain_header_def buf_header_def stripped_def Let_def min_absorb2 numeral_eq_Suc)

lemma icmp_input_echo:
  fixes s :: stack
  assumes b: "has_room (btype b)" "28 \<le> length (body b)" "IPH_HL (body b) = 5" "body b ! 20 = ICMP_ECHO"
    and dest: "\<not> ip_addr_ismulticast (IPH_DEST (body b))" "\<not> ip_addr_isbroadcast (IPH_DEST (body b)) (netif_list s ! n)"
    and chk: "inet_chksum_pbuf (drop 20 (body b) # map body bs) = 0"
    and len: "length (contents (b # bs)) < 65536" and short: "length (sprint_ip (IPH_SRC (body b))) \<le> 10"
  shows "icmp_input (b # bs) n s =
    (let s = log_op (Lcd_line (ping_text (IPH_SRC (body b)))) s; q = stripped b # bs in
     if 14 \<le> length (front b) then map_option (log_op (Free_chain (b # bs))) (echo_answer q 20 n s)
     else let (ok, s) = try_alloc s; r = ram_buf (garbage s) PBUF_LINK (length (contents (b # bs))) in
       if \<not> ok then Some (log_op (Free_chain (b # bs)) s)
       else echo_answer [stripped (r\<lparr>body := contents (b # bs)\<rparr>)] 20 n (log_op (Free_chain (b # bs)) s))"
proof -
  have b20: "20 \<le> length (body b)" using b(2) by simp
  note h = stripped_header [OF b(1) b20, of bs]
  have hl: "unat (IPH_HL (body b)) * 4 = 20" by (simp add: b(3))
  have "length (contents (stripped b # bs)) = length (contents (b # bs)) - 20" using b20 by (simp add: contents_def stripped_def)
  then have "unat (chain_len (stripped b # bs)) = length (contents (b # bs)) - 20" using len by (simp add: chain_len_def unat_of_nat)
  moreover have "28 \<le> length (contents (b # bs))" using b(2) by (simp add: contents_def)
  ultimately have q: "\<not> chain_len (stripped b # bs) < 4" "\<not> chain_len (stripped b # bs) < 8" by (simp_all add: word_less_nat_alt)
  have first: "drop 20 (body b) = ICMP_ECHO # drop 21 (body b)"
    using Cons_nth_drop_Suc [of 20 "body b"] b(2,4) by simp
  have t: "\<not> 20 < cstr_size (ping_text (IPH_SRC (body b)))" using short by (simp add: ping_text_def cstr_size_def)
  have sb: "body (stripped b) = drop 20 (body b)" by (simp add: stripped_def)
  have r: "chain_header (- 20) [(ram_buf g PBUF_LINK k)\<lparr>body := contents (b # bs)\<rparr>]
      = Some [stripped ((ram_buf g PBUF_LINK k)\<lparr>body := contents (b # bs)\<rparr>)]" for g k
    by (rule stripped_header(1)) (use \<open>28 \<le> length (contents (b # bs))\<close> in \<open>simp_all add: ram_buf_def Let_def\<close>)
  have n: "- int 20 = - 20" "int 20 = (20 :: int)" "int (PBUF_IP_HLEN + PBUF_LINK_HLEN) = 34"
    by (simp_all add: PBUF_IP_HLEN_def PBUF_LINK_HLEN_def)
  show ?thesis
    unfolding icmp_input_def Let_def list.sel hl n h(1) option.case sb first list.case
    using q t dest chk h(2-4) r by (auto simp: Let_def sb first split: prod.splits option.splits)
qed

lemma contents_echo: "24 \<le> length (body b) \<Longrightarrow> contents (b\<lparr>body := echo_bytes (body b)\<rparr> # bs) = echo_bytes (contents (b # bs))"
  by (simp add: contents_def echo_bytes_append)

text \<open>A sender whose address is short enough for the text of the display.\<close>

lemma echo_answered:
  fixes s :: stack
  assumes "has_room (btype b)" "28 \<le> length (body b)" "IPH_HL (body b) = 5" "body b ! 20 = ICMP_ECHO"
    and "\<not> ip_addr_ismulticast (IPH_DEST (body b))" "\<not> ip_addr_isbroadcast (IPH_DEST (body b)) (netif_list s ! n)"
    and "inet_chksum_pbuf (drop 20 (body b) # map body bs) = 0"
    and "length (contents (b # bs)) < 65536" "length (sprint_ip (IPH_SRC (body b))) \<le> 10" "allocs s = []"
    and "mtu (netif_list s ! n) = 0 \<or> length (contents (b # bs)) \<le> unat (mtu (netif_list s ! n))"
  shows "\<exists>c' s'. icmp_input (b # bs) n s = Some s'
    \<and> contents c' = echo_bytes (contents (b # bs)) \<and> 14 \<le> length (front (hd c'))
    \<and> ip_ops s' = ip_ops s @ [Lcd_line (ping_text (IPH_SRC (body b)))]
        @ (if 14 \<le> length (front b) then [Netif_output n c' (IPH_SRC (body b)), Free_chain (b # bs)]
           else [Free_chain (b # bs), Netif_output n c' (IPH_SRC (body b))])"
proof -
  let ?s = "log_op (Lcd_line (ping_text (IPH_SRC (body b)))) s"
  have b: "20 \<le> length (body b)" "24 \<le> length (body b)" using assms(2) by simp_all
  note i = icmp_input_echo [OF assms(1-9)]
  show ?thesis
  proof (cases "14 \<le> length (front b)")
    case True
    let ?c = "b\<lparr>body := echo_bytes (body b)\<rparr> # bs"
    have "echo_answer (stripped b # bs) 20 n ?s = Some (snd (netif_output n ?c (IPH_SRC (body b)) ?s))"
      by (rule echo_answer_sends [OF stripped_header(2) [OF assms(1) b(1)] b(2) assms(8)]) (use assms(11) in simp)
    then have e: "icmp_input (b # bs) n s = Some (log_op (Free_chain (b # bs)) (snd (netif_output n ?c (IPH_SRC (body b)) ?s)))"
      unfolding i Let_def using True by simp
    from netif_output_log obtain es where "snd (netif_output n ?c (IPH_SRC (body b)) ?s)
        = ?s\<lparr>answers := es, ip_ops := ip_ops ?s @ [Netif_output n ?c (IPH_SRC (body b))]\<rparr>" by blast
    then show ?thesis using e contents_echo [OF b(2), of bs] True by (intro exI [of _ ?c]) simp
  next
    case False
    let ?r = "(ram_buf (garbage s) PBUF_LINK (length (contents (b # bs))))\<lparr>body := contents (b # bs)\<rparr>"
    let ?c = "[?r\<lparr>body := echo_bytes (body ?r)\<rparr>]"
    let ?t = "log_op (Free_chain (b # bs)) ?s"
    have r: "has_room (btype ?r)" "body ?r = contents (b # bs)" "length (front ?r) = 16"
      by (simp_all add: ram_buf_def Let_def align4_def SIZEOF_STRUCT_PBUF_def header_offset_def PBUF_LINK_HLEN_def)
    have l: "28 \<le> length (body ?r)" using assms(2) by (simp add: contents_def)
    have cr: "contents [?r] = contents (b # bs)" by (simp add: contents_def)
    have src: "IPH_SRC (contents (b # bs)) = IPH_SRC (body b)" using b(1) by (simp add: contents_def IPH_SRC_def word32_prefix)
    have "chain_header 20 [stripped ?r] = Some [?r]" by (rule stripped_header(2)) (use r l in simp_all)
    then have "echo_answer [stripped ?r] 20 n ?t = Some (snd (netif_output n ?c (IPH_SRC (body ?r)) ?t))"
      by (rule echo_answer_sends) (use l cr assms(8,11) in simp_all)
    then have e: "icmp_input (b # bs) n s = Some (snd (netif_output n ?c (IPH_SRC (body b)) ?t))"
      unfolding i Let_def using False assms(10) src r(2) by (simp add: try_alloc_def)
    from netif_output_log obtain es where "snd (netif_output n ?c (IPH_SRC (body b)) ?t)
        = ?t\<lparr>answers := es, ip_ops := ip_ops ?t @ [Netif_output n ?c (IPH_SRC (body b))]\<rparr>" by blast
    then show ?thesis using e False r(3) by (intro exI [of _ ?c]) (simp add: contents_def)
  qed
qed

text \<open>
  Whatever ICMP message arrives, the text for the display overruns its 20 bytes exactly
  when the sender's address has more than ten characters.
\<close>

theorem icmp_input_overruns:
  fixes s :: stack
  assumes "has_room (btype b)" "24 \<le> length (body b)" "IPH_HL (body b) = 5" "length (contents (b # bs)) < 65536"
  shows "(10 < length (sprint_ip (IPH_SRC (body b))) \<longrightarrow> icmp_input (b # bs) n s = None)
    \<and> (length (sprint_ip (IPH_SRC (body b))) \<le> 10 \<and> body b ! 20 \<noteq> ICMP_ECHO \<longrightarrow>
        icmp_input (b # bs) n s = Some (log_op (Free_chain (b # bs)) (log_op (Lcd_line (ping_text (IPH_SRC (body b)))) s)))"
proof -
  have b20: "20 \<le> length (body b)" using assms(2) by simp
  have hl: "unat (IPH_HL (body b)) * 4 = 20" by (simp add: assms(3))
  have "length (contents (stripped b # bs)) = length (contents (b # bs)) - 20" using b20 by (simp add: contents_def stripped_def)
  then have "unat (chain_len (stripped b # bs)) = length (contents (b # bs)) - 20" using assms(4) by (simp add: chain_len_def unat_of_nat)
  moreover have "24 \<le> length (contents (b # bs))" using assms(2) by (simp add: contents_def)
  ultimately have q: "\<not> chain_len (stripped b # bs) < 4" by (simp add: word_less_nat_alt)
  have first: "drop 20 (body b) = body b ! 20 # drop 21 (body b)"
    using Cons_nth_drop_Suc [of 20 "body b"] assms(2) by simp
  have sb: "body (stripped b) = drop 20 (body b)" by (simp add: stripped_def)
  have t: "20 < cstr_size (ping_text (IPH_SRC (body b))) \<longleftrightarrow> 10 < length (sprint_ip (IPH_SRC (body b)))"
    by (auto simp: ping_text_def cstr_size_def)
  have n: "- int 20 = - 20" by simp
  show ?thesis
    unfolding icmp_input_def Let_def list.sel hl n stripped_header(1) [OF assms(1) b20] option.case sb first list.case t
    using q by simp
qed

text \<open>
  C17: A correct echo request to our address, without IP options and with its first 28 bytes in the first buffer, from a sender whose address takes at most ten characters, is answered: the reply
  is the request with the addresses exchanged, the type of a reply, the time to live renewed and the checksums cleared for the
  hardware, all other bytes unchanged; it has room for the link header, even where the request had none and had to be copied,
  and the request is released once.  From every other sender, \<open>192.168.1.100\<close> among them, the text for the display overruns
  its 20 bytes (\<open>icmp.c\<close> line 114) before an answer is made: \<open>None\<close>.  There is memory for a copy, and the reply fits the
  interface in one piece.
\<close>

theorem icmp_input_answers:
  fixes s :: stack
  assumes "has_room (btype b)" "28 \<le> length (body b)" "IPH_HL (body b) = 5" "body b ! 20 = ICMP_ECHO"
    and "\<not> ip_addr_ismulticast (IPH_DEST (body b))" "\<not> ip_addr_isbroadcast (IPH_DEST (body b)) (netif_list s ! n)"
    and "inet_chksum_pbuf (drop 20 (body b) # map body bs) = 0"
    and "length (contents (b # bs)) < 65536" "allocs s = []"
    and "mtu (netif_list s ! n) = 0 \<or> length (contents (b # bs)) \<le> unat (mtu (netif_list s ! n))"
  shows "if length (sprint_ip (IPH_SRC (body b))) \<le> 10
    then \<exists>c' s'. icmp_input (b # bs) n s = Some s'
      \<and> contents c' = echo_bytes (contents (b # bs)) \<and> 14 \<le> length (front (hd c'))
      \<and> ip_ops s' = ip_ops s @ [Lcd_line (ping_text (IPH_SRC (body b)))]
          @ (if 14 \<le> length (front b) then [Netif_output n c' (IPH_SRC (body b)), Free_chain (b # bs)]
             else [Free_chain (b # bs), Netif_output n c' (IPH_SRC (body b))])
    else icmp_input (b # bs) n s = None"
proof (cases "length (sprint_ip (IPH_SRC (body b))) \<le> 10")
  case True
  then show ?thesis using echo_answered [OF assms(1-8) True assms(9,10)] by (simp only: if_True)
next
  case False
  have "24 \<le> length (body b)" using assms(2) by simp
  from icmp_input_overruns [OF assms(1) this assms(3,8)] False show ?thesis by (simp only: if_False)
qed

section \<open>Messages about a packet that was received\<close>

text \<open>
  A message holds a type, a code, a checksum that verifies, four zeros and the first 28 bytes of the packet, its IP header and eight
  bytes more.
\<close>

definition icmp_about :: "u8 \<Rightarrow> u8 \<Rightarrow> u8 list \<Rightarrow> u8 list \<Rightarrow> bool" where
  "icmp_about ty icode packet m \<longleftrightarrow>
     (\<exists>c. m = [ty, icode] @ c @ [0, 0, 0, 0] @ take 28 packet \<and> length c = 2) \<and> inet_chksum m = 0"

text \<open>It goes to the sender of the packet, when there is memory for it; else nothing is sent.\<close>

lemma netif_output_ops: "ip_ops (snd (netif_output n p dest s)) = ip_ops s @ [Netif_output n p dest]"
  by (simp add: netif_output_def log_op_def split: list.split)

lemma icmp_send_response_sends:
  assumes "28 \<le> length (body b)" "ip_route (IPH_SRC (body b)) s = Some m"
    and "mtu (netif_list s ! m) = 0 \<or> 56 \<le> unat (mtu (netif_list s ! m))"
  shows "\<exists>s'. icmp_send_response (b # bs) ty icode s = Some s'
    \<and> (if fst (try_alloc s)
       then \<exists>q msg. ip_ops s' = ip_ops s @ [Netif_output m [q] (IPH_SRC (body b))]
         \<and> body q = ip_header 0 56 (ip_id s) ICMP_TTL IP_PROTO_ICMP (ip_addr (netif_list s ! m)) (IPH_SRC (body b)) @ msg
         \<and> icmp_about ty icode (body b) msg
       else ip_ops s' = ip_ops s)"
proof -
  obtain ok t where t: "try_alloc s = (ok, t)" by fastforce
  then have st: "ip_ops t = ip_ops s" "netif_list t = netif_list s" "ip_id t = ip_id s" "netif_default t = netif_default s" "garbage t = garbage s"
    by (auto simp: try_alloc_def split: list.splits)
  show ?thesis
  proof (cases ok)
    case False
    then show ?thesis using st(1) t by (simp add: icmp_send_response_def)
  next
    case True
    let ?xs = "take 28 (body b)"
    let ?ck = "inet_chksum ([ty, icode] @ [0, 0] @ [0, 0, 0, 0] @ ?xs)"
    let ?msg = "[ty, icode] @ bytes16 ?ck @ [0, 0, 0, 0] @ ?xs"
    let ?q = "(ram_buf (garbage s) PBUF_IP 36)\<lparr>body := ?msg\<rparr>"
    have m: "icmp_about ty icode (body b) ?msg"
      using inet_chksum_verifies [of "[ty, icode]" "[0, 0, 0, 0] @ ?xs"] by (auto simp: icmp_about_def bytes16_def u16_bytes_def)
    have r: "ip_route (IPH_SRC (body b)) t = Some m" using assms(2) unfolding ip_route_def st .
    have l: "length (contents [?q]) = 36" using assms(1) by (simp add: contents_def bytes16_def)
    have f: "20 \<le> length (front ?q)" by (simp add: ram_buf_def Let_def align4_def SIZEOF_STRUCT_PBUF_def header_offset_def PBUF_IP_HLEN_def PBUF_LINK_HLEN_def)
    have o: "icmp_send_response (b # bs) ty icode s = map_option snd (ip_output [?q] 0 (IPH_SRC (body b)) ICMP_TTL 0 IP_PROTO_ICMP t)"
      using t True assms(1) st(5)
      by (simp add: icmp_send_response_def IP_HLEN_def ICMP_DEST_UNREACH_DATASIZE_def overwrite_def bytes16_def Let_def)
    let ?p = "?q\<lparr>front := take (length (front ?q) - 20) (front ?q), body := ip_header 0 (of_nat (length (contents [?q]) + 20)) (ip_id t) ICMP_TTL IP_PROTO_ICMP
          (if 0 = (0 :: u32) then ip_addr (netif_list t ! m) else 0) (IPH_SRC (body b)) @ body ?q\<rparr>"
    have "ip_output [?q] 0 (IPH_SRC (body b)) ICMP_TTL 0 IP_PROTO_ICMP t = Some (netif_output m [?p] (IPH_SRC (body b)) (t\<lparr>ip_id := ip_id t + 1\<rparr>))"
      unfolding ip_output_def r option.case
      by (rule ip_output_if_fits [OF refl _ f]) (use l assms(3) st(2) in \<open>simp_all add: ram_buf_def Let_def\<close>)
    then have "icmp_send_response (b # bs) ty icode s = Some (snd (netif_output m [?p] (IPH_SRC (body b)) (t\<lparr>ip_id := ip_id t + 1\<rparr>)))"
      unfolding o by simp
    moreover have "ip_ops (snd (netif_output m [?p] (IPH_SRC (body b)) (t\<lparr>ip_id := ip_id t + 1\<rparr>))) = ip_ops s @ [Netif_output m [?p] (IPH_SRC (body b))]"
      unfolding netif_output_ops using st(1) by simp
    moreover have "body ?p = ip_header 0 56 (ip_id s) ICMP_TTL IP_PROTO_ICMP (ip_addr (netif_list s ! m)) (IPH_SRC (body b)) @ ?msg"
      using l st by simp
    ultimately show ?thesis unfolding t fst_conv if_P [OF True]
      by (intro exI [of _ "snd (netif_output m [?p] (IPH_SRC (body b)) (t\<lparr>ip_id := ip_id t + 1\<rparr>))"] conjI exI [of _ ?p] exI [of _ ?msg] m)
  qed
qed

text \<open>A ping of eight bytes from 10.0.0.2 to 10.0.0.1.\<close>

definition ping :: "u32 \<Rightarrow> buf" where
  "ping src = \<lparr>btype = PBUF_POOL, front = replicate 14 0,
     body = ip_header 0 28 7 64 1 src (IP4_ADDR 10 0 0 1) @ [8, 0, 0xf7, 0xff, 0, 0, 0, 0]\<rparr>"

theorem icmp_input_answers_witness:
  "(\<exists>c' s'. icmp_input [ping (IP4_ADDR 10 0 0 2)] 0 (host (IP4_ADDR 10 0 0 1)) = Some s'
      \<and> contents c' = echo_bytes (contents [ping (IP4_ADDR 10 0 0 2)]) \<and> last (butlast (ip_ops s')) = Netif_output 0 c' (IP4_ADDR 10 0 0 2))
    \<and> icmp_input [ping (IP4_ADDR 192 168 1 101)] 0 (host (IP4_ADDR 10 0 0 1)) = None"
proof
  let ?b = "ping (IP4_ADDR 10 0 0 2)" and ?d = "ping (IP4_ADDR 192 168 1 101)" and ?s = "host (IP4_ADDR 10 0 0 1)"
  have "drop 20 (body (ping a)) = [8, 0, 0xf7, 0xff, 0, 0, 0, 0]" for a by (simp add: ping_def)
  moreover have "inet_chksum_pbuf [[8, 0, 0xf7, 0xff, 0, 0, 0, 0]] = 0" by code_simp
  ultimately have chk: "inet_chksum_pbuf (drop 20 (body (ping a)) # map body []) = 0" for a by (simp only: list.map)
  have short: "length (sprint_ip (IP4_ADDR 10 0 0 2)) \<le> 10" "\<not> length (sprint_ip (IP4_ADDR 192 168 1 101)) \<le> 10" by code_simp+
  have dest: "\<not> ip_addr_ismulticast (IP4_ADDR 10 0 0 1)" "\<not> ip_addr_isbroadcast (IP4_ADDR 10 0 0 1) (host_if (IP4_ADDR 10 0 0 1))"
    by code_simp+
  have h: "has_room (btype (ping a))" "28 \<le> length (body (ping a))" "IPH_HL (body (ping a)) = 5" "body (ping a) ! 20 = ICMP_ECHO"
    "\<not> ip_addr_ismulticast (IPH_DEST (body (ping a)))" "\<not> ip_addr_isbroadcast (IPH_DEST (body (ping a))) (netif_list ?s ! 0)" for a
    using dest by (simp_all add: ping_def host_def nth_append ICMP_ECHO_def)
  have k: "length (contents [ping a]) < 65536" "allocs ?s = []"
    "mtu (netif_list ?s ! 0) = 0 \<or> length (contents [ping a]) \<le> unat (mtu (netif_list ?s ! 0))" for a
    by (simp_all add: ping_def host_def host_if_def contents_def)
  have b: "14 \<le> length (front (ping a))" "IPH_SRC (body (ping a)) = a" for a by (simp_all add: ping_def)
  note w = icmp_input_answers [OF h chk k(1,2,3), unfolded b(2)]
  from w [of "IP4_ADDR 10 0 0 2", unfolded if_P [OF short(1)] if_P [OF b(1)]]
  obtain c' s' where "icmp_input [?b] 0 ?s = Some s'" "contents c' = echo_bytes (contents [?b])"
      "ip_ops s' = ip_ops ?s @ [Lcd_line (ping_text (IP4_ADDR 10 0 0 2)), Netif_output 0 c' (IP4_ADDR 10 0 0 2), Free_chain [?b]]"
    by auto
  then show "\<exists>c' s'. icmp_input [?b] 0 ?s = Some s' \<and> contents c' = echo_bytes (contents [?b])
      \<and> last (butlast (ip_ops s')) = Netif_output 0 c' (IP4_ADDR 10 0 0 2)"
    by (intro exI [of _ c'] exI [of _ s']) (simp add: butlast_append)
  show "icmp_input [?d] 0 ?s = None" using w [of "IP4_ADDR 192 168 1 101", unfolded if_not_P [OF short(2)]] .
qed

theorem icmp_input_overruns_witness:
  "icmp_input [ping (IP4_ADDR 192 168 1 100)] 0 (host (IP4_ADDR 10 0 0 1)) = None"
proof -
  let ?b = "ping (IP4_ADDR 192 168 1 100)"
  have "10 < length (sprint_ip (IP4_ADDR 192 168 1 100))" by code_simp
  moreover have "has_room (btype ?b)" "24 \<le> length (body ?b)" "IPH_HL (body ?b) = 5" "length (contents [?b]) < 65536"
    by (simp_all add: ping_def contents_def)
  ultimately show ?thesis using icmp_input_overruns [of ?b "[]" 0 "host (IP4_ADDR 10 0 0 1)"] by (simp add: ping_def)
qed

end
