(* ===== verification/Reass.thy ===== *)
theory Reass
  imports Icmp "HOL-Library.Monad_Syntax"
begin

text \<open>
  Reassembly of IP packets, the first half of \<open>ip_frag.c\<close>.  The list of incomplete datagrams is a
  list, its newest first, and so are the fragments of each, in the order of their offsets.  The structures come
  from a pool of \<open>MEMP_NUM_REASSDATA\<close>, all of them on this list.  Taking a datagram out of the list
  through a wrong predecessor, which the code excludes by an assertion, is \<open>None\<close>.
\<close>

definition IP_REASS_MAXAGE :: u8 where "IP_REASS_MAXAGE = 3"
definition IP_REASS_MAX_PBUFS :: nat where "IP_REASS_MAX_PBUFS = 10"
definition MEMP_NUM_REASSDATA :: nat where "MEMP_NUM_REASSDATA = 5"
definition IP_REASS_FLAG_LASTFRAG :: u8 where "IP_REASS_FLAG_LASTFRAG = 1"

definition IP_ADDRESSES_AND_ID_MATCH :: "u8 list \<Rightarrow> u8 list \<Rightarrow> bool" where
  "IP_ADDRESSES_AND_ID_MATCH a b \<longleftrightarrow> IPH_SRC a = IPH_SRC b \<and> IPH_DEST a = IPH_DEST b \<and> IPH_ID a = IPH_ID b"

definition chain_clen :: "chain \<Rightarrow> u8" where
  "chain_clen p = of_nat (length p)"

definition set_ipr :: "nat \<Rightarrow> (ip_reassdata \<Rightarrow> ip_reassdata) \<Rightarrow> stack \<Rightarrow> stack" where
  "set_ipr i f s = s\<lparr>reassdatagrams := (reassdatagrams s)[i := f (reassdatagrams s ! i)]\<rparr>"

section \<open>Giving up datagrams\<close>

definition ip_reass_dequeue_datagram :: "nat \<Rightarrow> nat option \<Rightarrow> stack \<Rightarrow> stack option" where
  "ip_reass_dequeue_datagram i prev s =
     (if i = 0 \<or> prev = Some (i - 1)
      then Some (s\<lparr>reassdatagrams := take i (reassdatagrams s) @ drop (i + 1) (reassdatagrams s)\<rparr>)
      else None)"

definition ip_reass_free_complete_datagram :: "nat \<Rightarrow> nat option \<Rightarrow> stack \<Rightarrow> (nat \<times> stack) option" where
  "ip_reass_free_complete_datagram i prev s =
     (let ipr = reassdatagrams s ! i in
      case ipr_p ipr of
        [] \<Rightarrow> None
      | f # fs \<Rightarrow>
          do {
            (pbufs_freed, fs, s) \<leftarrow>
              (if frag_start f = 0
               then let p = write_first 0 (ipr_iphdr ipr) (frag_chain f) in
                 do {
                   s \<leftarrow> icmp_time_exceeded p ICMP_TE_FRAG s;
                   Some (unat (chain_clen p), fs, log_op (Free_chain p) s)
                 }
               else Some (0, f # fs, s));
            let s = fold (\<lambda>f. log_op (Free_chain (frag_chain f))) fs s;
            let pbufs_freed = pbufs_freed + (\<Sum>f\<leftarrow>fs. unat (chain_clen (frag_chain f)));
            s \<leftarrow> ip_reass_dequeue_datagram i prev s;
            Some (pbufs_freed, s\<lparr>ip_reass_pbufcount := ip_reass_pbufcount s - of_nat pbufs_freed\<rparr>)
          })"

partial_function (option) reass_tmr_loop :: "nat \<Rightarrow> nat option \<Rightarrow> stack \<Rightarrow> stack option" where
  "reass_tmr_loop i prev s =
     (if length (reassdatagrams s) \<le> i then Some s
      else if 0 < ipr_timer (reassdatagrams s ! i)
      then reass_tmr_loop (i + 1) (Some i) (set_ipr i (\<lambda>r. r\<lparr>ipr_timer := ipr_timer r - 1\<rparr>) s)
      else do { (pbufs_freed, s) \<leftarrow> ip_reass_free_complete_datagram i prev s; reass_tmr_loop i prev s })"

definition ip_reass_tmr :: "stack \<Rightarrow> stack option" where
  "ip_reass_tmr s = reass_tmr_loop 0 None s"

text \<open>
  The search for the oldest datagram other than the one of \<open>fraghdr\<close>: its position, what the code takes for
  the position of its predecessor, and the number of candidates.
\<close>

fun find_oldest ::
  "u8 list \<Rightarrow> nat \<Rightarrow> ip_reassdata list \<Rightarrow> (nat \<times> u8) option \<Rightarrow> nat option \<Rightarrow> nat \<Rightarrow> nat option \<times> nat option \<times> nat" where
  "find_oldest fraghdr i [] oldest prev other = (map_option fst oldest, prev, other)"
| "find_oldest fraghdr i (r # rs) oldest prev other =
     (let differs = \<not> IP_ADDRESSES_AND_ID_MATCH (ipr_iphdr r) fraghdr;
          older = (case oldest of None \<Rightarrow> True | Some (j, t) \<Rightarrow> ipr_timer r \<le> t)
      in find_oldest fraghdr (i + 1) rs (if differs \<and> older then Some (i, ipr_timer r) else oldest)
           (if rs \<noteq> [] then Some i else prev) (if differs then other + 1 else other))"

partial_function (option) ip_reass_remove_oldest_datagram :: "u8 list \<Rightarrow> nat \<Rightarrow> nat \<Rightarrow> stack \<Rightarrow> (nat \<times> stack) option" where
  "ip_reass_remove_oldest_datagram fraghdr pbufs_needed pbufs_freed s =
     (let (oldest, prev, other) = find_oldest fraghdr 0 (reassdatagrams s) None None 0 in
      do {
        (current, s) \<leftarrow> (case oldest of None \<Rightarrow> Some (0, s) | Some i \<Rightarrow> ip_reass_free_complete_datagram i prev s);
        if pbufs_freed + current < pbufs_needed \<and> 1 < other
        then ip_reass_remove_oldest_datagram fraghdr pbufs_needed (pbufs_freed + current) s
        else Some (pbufs_freed + current, s)
      })"

section \<open>Taking in a fragment\<close>

text \<open>The answer tells whether there is a structure for the datagram, which is the first of the list then.\<close>

definition ip_reass_enqueue_new_datagram :: "u8 list \<Rightarrow> nat \<Rightarrow> stack \<Rightarrow> (bool \<times> stack) option" where
  "ip_reass_enqueue_new_datagram fraghdr clen s =
     do {
       (ok, s) \<leftarrow>
         (if length (reassdatagrams s) < MEMP_NUM_REASSDATA then Some (True, s)
          else do {
            (freed, s) \<leftarrow> ip_reass_remove_oldest_datagram fraghdr clen 0 s;
            Some (clen \<le> freed \<and> length (reassdatagrams s) < MEMP_NUM_REASSDATA, s)
          });
       if \<not> ok then Some (False, s)
       else Some (True, s\<lparr>reassdatagrams := \<lparr>ipr_p = [], ipr_iphdr = take IP_HLEN fraghdr, datagram_len = 0, ipr_flags = 0,
              ipr_timer = IP_REASS_MAXAGE\<rparr> # reassdatagrams s\<rparr>)
     }"

text \<open>
  The place of a new fragment: whether the fragments are still valid, those before it and those
  behind it; \<open>None\<close> drops the fragment.
\<close>

fun place ::
  "fragment \<Rightarrow> fragment option \<Rightarrow> bool \<Rightarrow> fragment list \<Rightarrow> (bool \<times> fragment list \<times> fragment list) option" where
  "place new prev valid [] =
     Some (case prev of None \<Rightarrow> valid | Some pr \<Rightarrow> valid \<and> frag_end pr = frag_start new, [], [])"
| "place new prev valid (q # qs) =
     (if frag_start new < frag_start q
      then (case prev of
              None \<Rightarrow> Some (valid, [], q # qs)
            | Some pr \<Rightarrow>
                if frag_start new < frag_end pr \<or> frag_start q < frag_end new then None else Some (valid, [], q # qs))
      else if frag_start new = frag_start q \<or> frag_start new < frag_end q then None
      else map_option (\<lambda>(v, before, behind). (v, q # before, behind))
             (place new (Some q) (case prev of None \<Rightarrow> valid | Some pr \<Rightarrow> valid \<and> frag_end pr = frag_start q) qs))"

fun gapless :: "fragment list \<Rightarrow> bool" where
  "gapless (a # b # fs) \<longleftrightarrow> frag_end a = frag_start b \<and> gapless (b # fs)"
| "gapless fs \<longleftrightarrow> True"

definition frag_of :: "chain \<Rightarrow> fragment" where
  "frag_of p =
     (let fraghdr = first p;
          len = ntohs (IPH_LEN fraghdr) - IPH_HL fraghdr * 4;
          offset = (ntohs (IPH_OFFSET fraghdr) AND IP_OFFMASK) * 8
      in \<lparr>frag_start = offset, frag_end = offset + len, frag_chain = p\<rparr>)"

definition ip_reass_chain_frag_into_datagram_and_validate :: "ip_reassdata \<Rightarrow> chain \<Rightarrow> (fragment list \<times> bool) option" where
  "ip_reass_chain_frag_into_datagram_and_validate ipr p =
     (case place (frag_of p) None True (ipr_p ipr) of
        None \<Rightarrow> None
      | Some (valid, before, behind) \<Rightarrow>
          let fs = before @ frag_of p # behind in
          Some (fs, ipr_flags ipr AND IP_REASS_FLAG_LASTFRAG \<noteq> 0 \<and> valid \<and> frag_start (hd fs) = 0
                  \<and> gapless (frag_of p # behind)))"

text \<open>
  The complete packet.  A fragment whose first buffer is shorter than a header keeps the helper of the
  code in its data: \<open>None\<close>.
\<close>

definition joined :: "ip_reassdata \<Rightarrow> fragment list \<Rightarrow> chain option" where
  "joined ipr fs =
     (let fraghdr = IPH_LEN_SET (htons (datagram_len ipr + of_nat IP_HLEN)) (ipr_iphdr ipr);
          fraghdr = IPH_OFFSET_SET 0 fraghdr;
          fraghdr = IPH_CHKSUM_SET 0 fraghdr;
          fraghdr = IPH_CHKSUM_SET (inet_chksum (take IP_HLEN fraghdr)) fraghdr;
          rest = map (\<lambda>f. chain_header (- int IP_HLEN) (frag_chain f)) (tl fs)
      in if None \<in> set rest then None
         else Some (write_first 0 fraghdr (frag_chain (hd fs)) @ concat (map the rest)))"

definition reass_found :: "u8 list \<Rightarrow> stack \<Rightarrow> nat option" where
  "reass_found fraghdr s =
     List.find (\<lambda>i. IP_ADDRESSES_AND_ID_MATCH (ipr_iphdr (reassdatagrams s ! i)) fraghdr) [0..<length (reassdatagrams s)]"

text \<open>The fragment joins the datagram at a position of the list.\<close>

definition reass_insert :: "nat \<Rightarrow> chain \<Rightarrow> stack \<Rightarrow> (chain option \<times> stack) option" where
  "reass_insert i p s =
     (let fraghdr = first p;
          clen = unat (chain_clen p);
          s = s\<lparr>ip_reass_pbufcount := ip_reass_pbufcount s + of_nat clen\<rparr>;
          s = (if ntohs (IPH_OFFSET fraghdr) AND IP_MF = 0
               then set_ipr i (\<lambda>r. r\<lparr>ipr_flags := ipr_flags r OR IP_REASS_FLAG_LASTFRAG,
                      datagram_len := frag_end (frag_of p)\<rparr>) s
               else s)
      in case ip_reass_chain_frag_into_datagram_and_validate (reassdatagrams s ! i) p of
           None \<Rightarrow>
             Some (None, log_op (Free_chain p) (s\<lparr>ip_reass_pbufcount := ip_reass_pbufcount s - of_nat clen\<rparr>))
         | Some (fs, complete) \<Rightarrow>
             if \<not> complete then Some (None, set_ipr i (ipr_p_update (\<lambda>_. fs)) s)
             else do {
               q \<leftarrow> joined (reassdatagrams s ! i) fs;
               s \<leftarrow> ip_reass_dequeue_datagram i (if i = 0 then None else Some (i - 1)) s;
               Some (Some q, s\<lparr>ip_reass_pbufcount := ip_reass_pbufcount s - of_nat (unat (chain_clen q))\<rparr>)
             })"

definition ip_reass :: "chain \<Rightarrow> stack \<Rightarrow> (chain option \<times> stack) option" where
  "ip_reass p s =
     (let fraghdr = first p;
          nullreturn = (\<lambda>s. Some (None, log_op (Free_chain p) s));
          clen = unat (chain_clen p)
      in if unat (IPH_HL fraghdr) * 4 \<noteq> IP_HLEN then nullreturn s
         else do {
           (full, s) \<leftarrow>
             (if IP_REASS_MAX_PBUFS < unat (ip_reass_pbufcount s) + clen
              then do {
                (freed, s) \<leftarrow> ip_reass_remove_oldest_datagram fraghdr clen 0 s;
                Some (freed = 0 \<or> IP_REASS_MAX_PBUFS < unat (ip_reass_pbufcount s) + clen, s)
              }
              else Some (False, s));
           if full then nullreturn s
           else
             (case reass_found fraghdr s of
                Some i \<Rightarrow>
                  reass_insert i p
                    (if ntohs (IPH_OFFSET fraghdr) AND IP_OFFMASK = 0
                        \<and> ntohs (IPH_OFFSET (ipr_iphdr (reassdatagrams s ! i))) AND IP_OFFMASK \<noteq> 0
                     then set_ipr i (ipr_iphdr_update (\<lambda>_. take IP_HLEN fraghdr)) s else s)
              | None \<Rightarrow>
                  do {
                    (ok, s) \<leftarrow> ip_reass_enqueue_new_datagram fraghdr clen s;
                    if ok then reass_insert 0 p s else nullreturn s
                  })
         })"

section \<open>Two faults\<close>

text \<open>
  A fragment that fills the place between two others is compared with its successor only: with a hole
  before it, the datagram is complete for the code.
\<close>

lemma reass_accepts_hole:
  assumes "ipr_p ipr = [a, c]" "frag_start a = 0" "frag_end a < frag_start (frag_of p)" "frag_end (frag_of p) = frag_start c"
    and "frag_start (frag_of p) < frag_start c" "ipr_flags ipr AND IP_REASS_FLAG_LASTFRAG \<noteq> 0"
  shows "ip_reass_chain_frag_into_datagram_and_validate ipr p = Some ([a, frag_of p, c], True)"
  using assms by (auto simp: ip_reass_chain_frag_into_datagram_and_validate_def Let_def)

text \<open>
  When the datagram of the new fragment is the last of the list, the predecessor that is used for
  the oldest other datagram is that datagram itself.
\<close>

lemma remove_oldest_corrupts:
  assumes "reassdatagrams s = [a, b, c]" "\<not> IP_ADDRESSES_AND_ID_MATCH (ipr_iphdr a) fraghdr"
    and "\<not> IP_ADDRESSES_AND_ID_MATCH (ipr_iphdr b) fraghdr" "IP_ADDRESSES_AND_ID_MATCH (ipr_iphdr c) fraghdr"
    and "ipr_timer b \<le> ipr_timer a"
  shows "ip_reass_remove_oldest_datagram fraghdr needed freed s = None"
proof -
  have "ip_reass_free_complete_datagram 1 (Some 1) s = None"
    by (simp add: ip_reass_free_complete_datagram_def ip_reass_dequeue_datagram_def Let_def split: list.split)
  then show ?thesis using assms by (subst ip_reass_remove_oldest_datagram.simps) (simp add: Let_def)
qed

section \<open>Placing fragments by number\<close>

fun consecutive :: "nat list \<Rightarrow> bool" where
  "consecutive (a # b # ks) \<longleftrightarrow> b = a + 1 \<and> consecutive (b # ks)"
| "consecutive ks \<longleftrightarrow> True"

text \<open>Fragments \<open>F 0, F 1, \<dots>\<close> that follow each other without gap.\<close>

definition lined_up :: "nat \<Rightarrow> (nat \<Rightarrow> fragment) \<Rightarrow> bool" where
  "lined_up m F \<longleftrightarrow> frag_start (F 0) = 0 \<and> (\<forall>k<m. frag_start (F k) < frag_end (F k))
     \<and> (\<forall>k. k + 1 < m \<longrightarrow> frag_start (F (k + 1)) = frag_end (F k))"

lemma lined_up_mono:
  assumes "lined_up m F" "j < k" "k < m"
  shows "frag_end (F j) \<le> frag_start (F k)" "frag_start (F j) < frag_start (F k)"
    "frag_end (F j) = frag_start (F k) \<longleftrightarrow> k = j + 1"
proof -
  have le: "frag_end (F j) \<le> frag_start (F k)" if "j < k" "k < m" for j k
    using that
  proof (induction k)
    case (Suc k)
    show ?case
    proof (cases "j = k")
      case True
      then show ?thesis using Suc.prems assms(1) by (simp add: lined_up_def)
    next
      case False
      then have "frag_end (F j) \<le> frag_start (F k)" using Suc by simp
      also have "\<dots> \<le> frag_end (F k)" using assms(1) Suc.prems by (simp add: lined_up_def less_imp_le)
      finally show ?thesis using assms(1) Suc.prems by (simp add: lined_up_def)
    qed
  qed simp
  show "frag_end (F j) \<le> frag_start (F k)" by (rule le [OF assms(2,3)])
  moreover have "frag_start (F j) < frag_end (F j)" using assms by (simp add: lined_up_def)
  ultimately show "frag_start (F j) < frag_start (F k)" by simp
  show "frag_end (F j) = frag_start (F k) \<longleftrightarrow> k = j + 1"
  proof
    assume e: "frag_end (F j) = frag_start (F k)"
    show "k = j + 1"
    proof (rule ccontr)
      assume "k \<noteq> j + 1"
      then have "frag_end (F (j + 1)) \<le> frag_start (F k)" "j + 1 < m" using le [of "j + 1" k] assms(2,3) by auto
      moreover have "frag_start (F (j + 1)) = frag_end (F j)" "frag_start (F (j + 1)) < frag_end (F (j + 1))"
        using assms(1) \<open>j + 1 < m\<close> unfolding lined_up_def by blast+
      ultimately show False using e by simp
    qed
  qed (use assms in \<open>simp add: lined_up_def\<close>)
qed

lemma consecutive_append:
  "consecutive (xs @ ys) \<longleftrightarrow> consecutive xs \<and> consecutive ys \<and> (xs \<noteq> [] \<and> ys \<noteq> [] \<longrightarrow> hd ys = last xs + 1)"
  by (induction xs rule: consecutive.induct) (cases ys; auto)+

text \<open>The numbers below and above the new one.\<close>

abbreviation below :: "nat \<Rightarrow> nat list \<Rightarrow> nat list" where "below k ks \<equiv> filter (\<lambda>j. j < k) ks"
abbreviation above :: "nat \<Rightarrow> nat list \<Rightarrow> nat list" where "above k ks \<equiv> filter (\<lambda>j. k < j) ks"

lemma place_numbered:
  assumes F: "lined_up m F" and k: "k < m" "k \<notin> set ks" and ks: "sorted_wrt (<) ks" "\<forall>j\<in>set ks. j < m"
    and prev: "case prev of None \<Rightarrow> True | Some j \<Rightarrow> j < k \<and> (\<forall>i\<in>set ks. j < i)"
  shows "place (F k) (map_option F prev) valid (map F ks)
    = Some (valid \<and> consecutive ((case prev of None \<Rightarrow> [] | Some j \<Rightarrow> [j]) @ below k ks)
        \<and> (above k ks = [] \<and> ((case prev of None \<Rightarrow> [] | Some j \<Rightarrow> [j]) @ below k ks) \<noteq> [] \<longrightarrow>
            last ((case prev of None \<Rightarrow> [] | Some j \<Rightarrow> [j]) @ below k ks) + 1 = k),
       map F (below k ks), map F (above k ks))"
  using k(2) ks prev
proof (induction ks arbitrary: prev valid)
  case Nil
  then show ?case using lined_up_mono(3) [OF F, of _ k] k(1) by (auto split: option.split)
next
  case (Cons q qs)
  show ?case
  proof (cases "k < q")
    case True
    have q: "q < m" using Cons.prems by simp
    have "\<forall>j\<in>set qs. k < j" using True Cons.prems(2) by auto
    then have b: "below k (q # qs) = []" "above k (q # qs) = q # qs" using True by (auto simp: filter_empty_conv)
    have "frag_end (F j) \<le> frag_start (F k)" if "prev = Some j" for j
      using lined_up_mono(1) [OF F _ k(1)] Cons.prems(4) that by simp
    moreover have "frag_end (F k) \<le> frag_start (F q)" "frag_start (F k) < frag_start (F q)"
      using lined_up_mono(1,2) [OF F True q] by simp_all
    ultimately show ?thesis using b by (auto simp: not_less split: option.split)
  next
    case False
    then have "q < k" using Cons.prems(1) by auto
    note m = lined_up_mono [OF F this k(1)]
    have e: "frag_start (F q) < frag_end (F q)" using F Cons.prems(3) by (simp add: lined_up_def)
    have IH: "place (F k) (map_option F (Some q)) v (map F qs)
      = Some (v \<and> consecutive (q # below k qs) \<and> (above k qs = [] \<longrightarrow> last (q # below k qs) + 1 = k), map F (below k qs), map F (above k qs))" for v
      using Cons.IH [of "Some q" v] Cons.prems \<open>q < k\<close> by simp
    have p: "frag_end (F j) = frag_start (F q) \<longleftrightarrow> q = j + 1" if "prev = Some j" for j
      using lined_up_mono(3) [OF F, of j q] Cons.prems(3,4) that by simp
    show ?thesis
    proof (cases prev)
      case None
      then show ?thesis using \<open>q < k\<close> m e IH [of valid] by auto
    next
      case (Some j)
      then show ?thesis using \<open>q < k\<close> m e p [OF Some] IH [of "valid \<and> frag_end (F j) = frag_start (F q)"] by auto
    qed
  qed
qed

lemma gapless_numbered:
  assumes "lined_up m F"
  shows "sorted_wrt (<) ks \<Longrightarrow> \<forall>j\<in>set ks. j < m \<Longrightarrow> gapless (map F ks) \<longleftrightarrow> consecutive ks"
proof (induction ks rule: consecutive.induct)
  case (1 a b ks)
  then show ?case using lined_up_mono(3) [OF assms, of a b] by auto
qed simp_all

lemma consecutive_all:
  assumes "consecutive ks" "ks \<noteq> []" "hd ks = 0" "last ks = m - 1" "0 < m"
  shows "ks = [0..<m]"
proof -
  have "ks = [hd ks..<last ks + 1]" using assms(1,2)
  proof (induction ks rule: consecutive.induct)
    case (1 a b ks)
    have c: "consecutive (b # ks)" "b = a + 1" using 1(2) unfolding consecutive.simps(1) by blast+
    have e: "b # ks = [b..<last (b # ks) + 1]" using 1(1) [OF c(1)] unfolding list.sel by blast
    have "[b..<last (b # ks) + 1] \<noteq> []" unfolding e [symmetric] by simp
    then have "b \<le> last (b # ks)" by (simp only: upt_eq_Nil_conv) linarith
    then have "a # [b..<last (b # ks) + 1] = [a..<last (b # ks) + 1]" using c(2) by (subst (2) upt_conv_Cons) simp_all
    then have "a # b # ks = [a..<last (b # ks) + 1]" unfolding e [symmetric] .
    also have "\<dots> = [a..<last (a # b # ks) + 1]" by simp
    finally show ?case unfolding list.sel .
  qed simp_all
  then show ?thesis using assms(3-5) by simp
qed

section \<open>Fragments that arrive in turn\<close>

definition data_len :: "u8 list list \<Rightarrow> nat" where
  "data_len ds = length (concat ds)"

text \<open>The fragments of a packet with the pieces \<open>ds\<close> of data, in the order of their offsets.\<close>

definition fragments :: "u8 list list \<Rightarrow> chain list \<Rightarrow> bool" where
  "fragments ds ps \<longleftrightarrow> ps \<noteq> [] \<and> length ps = length ds \<and> data_len ds + 20 < 65536 \<and>
     (\<forall>k<length ps. let p = ps ! k; h = first p in
        p \<noteq> [] \<and> length p < 256 \<and> 20 \<le> length h \<and> drop 20 (contents p) = ds ! k \<and> ds ! k \<noteq> []
        \<and> IPH_HL h = 5 \<and> IPH_LEN h = htons (of_nat (length (ds ! k) + 20))
        \<and> frag_off h = data_len (take k ds) \<and> (frag_more h \<longleftrightarrow> k + 1 < length ps)
        \<and> IP_ADDRESSES_AND_ID_MATCH h (first (ps ! 0)))"

text \<open>
  An order of arrival that leaves no hole before an inserted fragment: each is the lowest or the highest
  so far, or follows its predecessor.
\<close>

fun orderly :: "nat set \<Rightarrow> nat list \<Rightarrow> bool" where
  "orderly seen [] \<longleftrightarrow> True"
| "orderly seen (k # ks) \<longleftrightarrow>
     ((\<forall>j\<in>seen. k \<le> j) \<or> (\<forall>j\<in>seen. j \<le> k) \<or> 0 < k \<and> k - 1 \<in> seen) \<and> orderly (insert k seen) ks"

fun feed :: "chain list \<Rightarrow> stack \<Rightarrow> (chain option list \<times> stack) option" where
  "feed [] s = Some ([], s)"
| "feed (p # ps) s = do { (r, s) \<leftarrow> ip_reass p s; (rs, s) \<leftarrow> feed ps s; Some (r # rs, s) }"

lemma data_len_take: "k < length ds \<Longrightarrow> data_len (take (k + 1) ds) = data_len (take k ds) + length (ds ! k)"
  by (simp add: data_len_def take_Suc_conv_app_nth)

lemma data_len_take_le: "data_len (take k ds) \<le> data_len ds"
  unfolding data_len_def by (metis append_take_drop_id concat_append le_add1 length_append)

lemma fragmentsD:
  assumes "fragments ds ps" "k < length ps"
  shows "ps ! k \<noteq> []" "length (ps ! k) < 256" "20 \<le> length (first (ps ! k))" "drop 20 (contents (ps ! k)) = ds ! k" "ds ! k \<noteq> []"
    "IPH_HL (first (ps ! k)) = 5" "IPH_LEN (first (ps ! k)) = htons (of_nat (length (ds ! k) + 20))"
    "frag_off (first (ps ! k)) = data_len (take k ds)" "frag_more (first (ps ! k)) \<longleftrightarrow> k + 1 < length ps"
    "IP_ADDRESSES_AND_ID_MATCH (first (ps ! k)) (first (ps ! 0))"
  using assms by (simp_all add: fragments_def Let_def)

lemma fragment_numbers:
  assumes "fragments ds ps" "k < length ps"
  shows "unat (frag_start (frag_of (ps ! k))) = data_len (take k ds)"
    "unat (frag_end (frag_of (ps ! k))) = data_len (take (k + 1) ds)"
proof -
  note f = fragmentsD [OF assms]
  have l: "length ps = length ds" "data_len ds + 20 < 65536" using assms(1) by (simp_all add: fragments_def)
  have t: "data_len (take (k + 1) ds) = data_len (take k ds) + length (ds ! k)" "data_len (take (k + 1) ds) \<le> data_len ds"
    using data_len_take [of k ds] assms(2) l(1) data_len_take_le [of "k + 1" ds] by simp_all
  let ?w = "ntohs (IPH_OFFSET (first (ps ! k))) AND IP_OFFMASK"
  have w: "unat ?w * 8 = data_len (take k ds)" using f(8) by (simp add: frag_off_def)
  then have "unat (?w * 8) = data_len (take k ds)" using t(2) l(2) t(1) by (simp add: unat_word_ariths)
  then show s: "unat (frag_start (frag_of (ps ! k))) = data_len (take k ds)" by (simp add: frag_of_def Let_def)
  have "frag_end (frag_of (ps ! k)) = frag_start (frag_of (ps ! k)) + of_nat (length (ds ! k))"
    by (simp add: frag_of_def Let_def f(6,7))
  moreover have "unat (of_nat (length (ds ! k)) :: u16) = length (ds ! k)" using t l(2) by (simp add: unat_of_nat)
  ultimately show "unat (frag_end (frag_of (ps ! k))) = data_len (take (k + 1) ds)"
    using s t l(2) by (simp add: unat_word_ariths)
qed

lemma fragments_lined_up:
  assumes "fragments ds ps"
  shows "lined_up (length ps) (\<lambda>k. frag_of (ps ! k))"
proof -
  note n = fragment_numbers [OF assms]
  have l: "length ps = length ds" "0 < length ps" using assms by (auto simp: fragments_def)
  have "frag_start (frag_of (ps ! 0)) = 0" using n(1) [OF l(2)] by (simp add: data_len_def unat_eq_zero)
  moreover have "frag_start (frag_of (ps ! k)) < frag_end (frag_of (ps ! k))" if "k < length ps" for k
    using n [OF that] data_len_take [of k ds] fragmentsD(5) [OF assms that] that l by (simp add: word_less_nat_alt)
  moreover have "frag_start (frag_of (ps ! (k + 1))) = frag_end (frag_of (ps ! k))" if "k + 1 < length ps" for k
    using n(1) [OF that] n(2) [of k] that by (simp add: word_unat_eq_iff)
  ultimately show ?thesis by (simp add: lined_up_def)
qed

text \<open>What a step leaves: the fragments that have arrived, and the header of the one that gave it.\<close>

definition pending :: "chain list \<Rightarrow> nat \<Rightarrow> nat list \<Rightarrow> ip_reassdata" where
  "pending ps h ks =
     \<lparr>ipr_p = map (\<lambda>k. frag_of (ps ! k)) ks, ipr_iphdr = take 20 (first (ps ! h)),
      datagram_len = (if length ps - 1 \<in> set ks then frag_end (frag_of (ps ! (length ps - 1))) else 0),
      ipr_flags = (if length ps - 1 \<in> set ks then IP_REASS_FLAG_LASTFRAG else 0), ipr_timer = IP_REASS_MAXAGE\<rparr>"

definition gathering :: "chain list \<Rightarrow> nat \<Rightarrow> nat list \<Rightarrow> stack \<Rightarrow> stack" where
  "gathering ps h ks s = s\<lparr>reassdatagrams := pending ps h ks # reassdatagrams s,
     ip_reass_pbufcount := ip_reass_pbufcount s + of_nat (\<Sum>k\<leftarrow>ks. length (ps ! k))\<rparr>"

lemma sorted_last: "sorted_wrt (<) (ks :: nat list) \<Longrightarrow> j \<in> set ks \<Longrightarrow> j \<le> last ks"
  by (induction ks) (auto simp: less_imp_le)

lemma placed_complete:
  assumes "sorted_wrt (<) ks" "\<forall>j\<in>set ks. j < m" "k < m" "k \<notin> set ks"
    and "below k ks = [] \<or> above k ks = [] \<or> k - 1 \<in> set (below k ks)"
  shows "(m - 1 \<in> set (k # ks) \<and> consecutive (below k ks) \<and> (above k ks = [] \<and> below k ks \<noteq> [] \<longrightarrow> last (below k ks) + 1 = k)
      \<and> hd (below k ks @ k # above k ks) = 0 \<and> consecutive (k # above k ks))
    \<longleftrightarrow> below k ks @ k # above k ks = [0..<m]"
proof -
  let ?b = "below k ks" and ?n = "below k ks @ k # above k ks"
  have set: "set ?n = set (k # ks)" using assms(4) by auto
  have b: "last ?b + 1 = k" if "above k ks \<noteq> []" "?b \<noteq> []"
  proof -
    have "k - 1 \<in> set ?b" using that assms(5) by blast
    have "sorted_wrt (<) ?b" using assms(1) by (rule sorted_wrt_filter)
    then have "k - 1 \<le> last ?b" using sorted_last \<open>k - 1 \<in> set ?b\<close> by blast
    moreover have "last ?b < k" using last_in_set [OF that(2)] by simp
    ultimately show ?thesis by simp
  qed
  show ?thesis
  proof
    assume l: "m - 1 \<in> set (k # ks) \<and> consecutive ?b \<and> (above k ks = [] \<and> ?b \<noteq> [] \<longrightarrow> last ?b + 1 = k)
      \<and> hd ?n = 0 \<and> consecutive (k # above k ks)"
    have "k = last ?b + 1" if "?b \<noteq> []" using b that l by (cases "above k ks = []") simp_all
    then have c: "consecutive ?n" using l by (simp add: consecutive_append)
    have s: "sorted_wrt (<) ?n" using assms(1) by (auto simp: sorted_wrt_append sorted_wrt_filter)
    have "last ?n = m - 1"
    proof -
      have "last ?n \<in> set (k # ks)" using set by (metis append_is_Nil_conv last_in_set list.distinct(1))
      then have "last ?n \<le> m - 1" using assms(2,3) by auto
      moreover have "m - 1 \<le> last ?n" by (rule sorted_last [OF s]) (use l set in blast)
      ultimately show ?thesis by simp
    qed
    then show "?n = [0..<m]" using consecutive_all [OF c] l assms(3) by auto
  next
    assume e: "?n = [0..<m]"
    have c: "consecutive [0..<m]" for m
    proof (induction m)
      case (Suc m)
      then show ?case by (cases m) (auto simp: consecutive_append)
    qed simp
    have "consecutive ?n" unfolding e by (rule c)
    moreover have "m - 1 \<in> set (k # ks)" unfolding set [symmetric] e using assms(3) by simp
    moreover have "hd ?n = 0" unfolding e using assms(3) by simp
    ultimately show "m - 1 \<in> set (k # ks) \<and> consecutive ?b \<and> (above k ks = [] \<and> ?b \<noteq> [] \<longrightarrow> last ?b + 1 = k)
      \<and> hd ?n = 0 \<and> consecutive (k # above k ks)" by (auto simp: consecutive_append)
  qed
qed

text \<open>The complete packet.\<close>

lemma hide_header:
  assumes "p \<noteq> []" "20 \<le> length (first p)"
  shows "\<exists>q. chain_header (- int IP_HLEN) p = Some q \<and> contents q = drop 20 (contents p) \<and> length q = length p"
  using assms by (cases p) (auto simp: chain_header_def buf_header_def contents_def IP_HLEN_def)

lemma write_header:
  assumes "p \<noteq> []" "length hdr = 20" "20 \<le> length (first p)"
  shows "contents (write_first 0 hdr p) = hdr @ drop 20 (contents p)" "length (write_first 0 hdr p) = length p"
  using assms by (cases p; auto simp: write_first_def contents_def overwrite_def)+

lemma joined_header:
  assumes "length hdr = 20"
  shows "IPH_CHKSUM_SET 0 (IPH_OFFSET_SET 0 (IPH_LEN_SET (htons len) hdr)) =
    IPH_CHKSUM_SET 0 (IPH_LEN_SET (htons len) (IPH_OFFSET_SET (htons 0) hdr))"
  by (rule nth_equalityI) (use assms in \<open>auto simp: header_sets nth_overwrite\<close>)

lemma hide_headers:
  assumes "\<forall>p\<in>set ps. p \<noteq> [] \<and> 20 \<le> length (first p)"
  shows "\<exists>qs. map (chain_header (- int IP_HLEN)) ps = map Some qs \<and> contents (concat qs) = concat (map (\<lambda>p. drop 20 (contents p)) ps)
    \<and> length (concat qs) = (\<Sum>p\<leftarrow>ps. length p)"
  using assms
proof (induction ps)
  case (Cons p ps)
  then obtain qs q where "map (chain_header (- int IP_HLEN)) ps = map Some qs" "chain_header (- int IP_HLEN) p = Some q"
    "contents (concat qs) = concat (map (\<lambda>p. drop 20 (contents p)) ps)" "length (concat qs) = (\<Sum>p\<leftarrow>ps. length p)"
    "contents q = drop 20 (contents p)" "length q = length p"
    using hide_header [of p] by auto
  then show ?case by (intro exI [of _ "q # qs"]) (auto simp: contents_def)
qed (simp add: contents_def)

text \<open>The complete packet: its first buffer is that of the first fragment.\<close>

definition whole :: "u8 list list \<Rightarrow> chain list \<Rightarrow> chain \<Rightarrow> bool" where
  "whole ds ps q \<longleftrightarrow>
     (let hdr = frag_header (take 20 (first (ps ! 0))) 0 (of_nat (data_len ds + 20)) in
      contents q = hdr @ concat ds \<and> q \<noteq> [] \<and> first q = hdr @ drop 20 (first (ps ! 0)))"

lemma first_of_whole:
  assumes "p \<noteq> []" "length hdr = 20" "20 \<le> length (first p)"
  shows "first (write_first 0 hdr p @ qs) = hdr @ drop 20 (first p)" "write_first 0 hdr p \<noteq> []"
  using assms by (cases p; auto simp: write_first_def overwrite_def)+

lemma joined_contents:
  assumes "fragments ds ps" "length ps - 1 \<in> set ks"
  shows "\<exists>q. joined (pending ps 0 ks) (map (\<lambda>k. frag_of (ps ! k)) [0..<length ps]) = Some q
    \<and> whole ds ps q
    \<and> length q = (\<Sum>p\<leftarrow>ps. length p)"
proof -
  note f = fragmentsD [OF assms(1)]
  have l: "length ps = length ds" "ps \<noteq> []" using assms(1) by (auto simp: fragments_def)
  then obtain p qs where ps: "ps = p # qs" by (cases ps) auto
  obtain d es where ds: "ds = d # es" using l ps by (cases ds) auto
  have fs: "map (\<lambda>k. frag_of (ps ! k)) [0..<length ps] = map frag_of ps" by (rule nth_equalityI) simp_all
  have "\<forall>p\<in>set ps. p \<noteq> [] \<and> 20 \<le> length (first p)" using f(1,3) by (metis in_set_conv_nth)
  then obtain rs where rs: "map (chain_header (- int IP_HLEN)) qs = map Some rs" "contents (concat rs) = concat (map (\<lambda>p. drop 20 (contents p)) qs)"
      "length (concat rs) = (\<Sum>p\<leftarrow>qs. length p)" and p: "p \<noteq> []" "20 \<le> length (first p)"
    using hide_headers [of qs] by (auto simp: ps)
  have "map (\<lambda>p. drop 20 (contents p)) ps = ds" using f(4) l by (intro nth_equalityI) simp_all
  then have d: "drop 20 (contents p) = d" "map (\<lambda>p. drop 20 (contents p)) qs = es" by (simp_all add: ps ds)
  have "frag_end (frag_of (ps ! (length ps - 1))) = of_nat (data_len ds)"
  proof -
    have "unat (frag_end (frag_of (ps ! (length ps - 1)))) = data_len ds"
      using fragment_numbers(2) [OF assms(1), of "length ps - 1"] l by (cases "length ds") simp_all
    then show ?thesis by (metis of_nat_unat ucast_id)
  qed
  then have len: "datagram_len (pending ps 0 ks) + of_nat IP_HLEN = of_nat (data_len ds + 20)"
    using assms(2) by (simp add: pending_def IP_HLEN_def)
  let ?h = "frag_header (take 20 (first p)) 0 (of_nat (data_len ds + 20))"
  have h: "length ?h = 20" using p(2) by simp
  define j where "j = IPH_CHKSUM_SET 0 (IPH_OFFSET_SET 0 (IPH_LEN_SET (htons (of_nat (data_len ds + 20))) (take 20 (first p))))"
  have "take IP_HLEN j = j" using p(2) by (simp add: j_def IP_HLEN_def header_sets)
  then have "IPH_CHKSUM_SET (inet_chksum (take IP_HLEN j)) j = ?h"
    using joined_header [of "take 20 (first p)" "of_nat (data_len ds + 20)"] p(2) by (simp add: frag_header_def Let_def j_def del: of_nat_add)
  moreover have "frag_chain (frag_of p) = p" for p by (simp add: frag_of_def Let_def)
  ultimately have "joined (pending ps 0 ks) (map frag_of ps) = Some (write_first 0 ?h p @ concat rs)"
    unfolding joined_def len Let_def using rs(1) by (simp add: pending_def ps j_def comp_def del: of_nat_add)
  moreover have "whole ds ps (write_first 0 ?h p @ concat rs)"
    using write_header(1) [OF p(1) h p(2)] rs(2) d first_of_whole [OF p(1) h p(2)]
    by (simp add: whole_def Let_def ps ds contents_def del: of_nat_add)
  moreover have "length (write_first 0 ?h p @ concat rs) = (\<Sum>p\<leftarrow>ps. length p)"
    using write_header(2) [OF p(1) h p(2)] rs(3) by (simp add: ps del: of_nat_add)
  ultimately show ?thesis unfolding fs by blast
qed

lemma frag_more_last: "frag_more x \<longleftrightarrow> \<not> ntohs (IPH_OFFSET x) AND IP_MF = 0"
  by (simp add: frag_more_def)

lemma pending_last:
  assumes "fragments ds ps" "k < length ps"
  shows "(if ntohs (IPH_OFFSET (first (ps ! k))) AND IP_MF = 0
      then (pending ps h ks)\<lparr>ipr_flags := ipr_flags (pending ps h ks) OR IP_REASS_FLAG_LASTFRAG, datagram_len := frag_end (frag_of (ps ! k))\<rparr>
      else pending ps h ks) = (pending ps h (k # ks))\<lparr>ipr_p := ipr_p (pending ps h ks)\<rparr>"
proof -
  have "ntohs (IPH_OFFSET (first (ps ! k))) AND IP_MF = 0 \<longleftrightarrow> k = length ps - 1"
    using fragmentsD(9) [OF assms] assms(2) by (auto simp: frag_more_last)
  then show ?thesis by (auto simp: pending_def)
qed

lemma pending_set: "set ks = set ks' \<Longrightarrow> (pending ps h ks)\<lparr>ipr_p := map (\<lambda>k. frag_of (ps ! k)) ks'\<rparr> = pending ps h ks'"
  by (simp add: pending_def)

lemma place_fragment:
  assumes "fragments ds ps" "sorted_wrt (<) ks" "\<forall>j\<in>set ks. j < length ps" "k < length ps" "k \<notin> set ks"
    and "below k ks = [] \<or> above k ks = [] \<or> k - 1 \<in> set (below k ks)"
  shows "ip_reass_chain_frag_into_datagram_and_validate ((pending ps h (k # ks))\<lparr>ipr_p := ipr_p (pending ps h ks)\<rparr>) (ps ! k)
    = Some (map (\<lambda>k. frag_of (ps ! k)) (below k ks @ k # above k ks), below k ks @ k # above k ks = [0..<length ps])"
proof -
  let ?F = "\<lambda>k. frag_of (ps ! k)" and ?n = "below k ks @ k # above k ks"
  note F = fragments_lined_up [OF assms(1)]
  have fl: "(if P then IP_REASS_FLAG_LASTFRAG else 0) AND IP_REASS_FLAG_LASTFRAG \<noteq> 0 \<longleftrightarrow> P" for P
    by (simp add: IP_REASS_FLAG_LASTFRAG_def)
  have n: "\<forall>j\<in>set ?n. j < length ps" using assms(3,4) by auto
  have hd: "frag_start (hd (map ?F ?n)) = 0 \<longleftrightarrow> hd ?n = 0"
  proof -
    have "hd (map ?F ?n) = ?F (hd ?n)" by (cases "below k ks") simp_all
    moreover have "hd ?n < length ps" using n by (metis append_is_Nil_conv hd_in_set list.distinct(1))
    moreover have "frag_start (?F j) = 0 \<longleftrightarrow> j = 0" if "j < length ps" for j
    proof (cases j)
      case 0
      then show ?thesis using F by (simp add: lined_up_def)
    next
      case (Suc i)
      then have "frag_start (?F 0) < frag_start (?F j)" using lined_up_mono(2) [OF F _ that] by simp
      then show ?thesis using Suc by auto
    qed
    ultimately show ?thesis by simp
  qed
  have "sorted_wrt (<) (k # above k ks)" using assms(2) by (simp add: sorted_wrt_filter)
  then have g: "gapless (map ?F (k # above k ks)) \<longleftrightarrow> consecutive (k # above k ks)"
    by (rule gapless_numbered [OF F]) (use assms(3,4) in auto)
  have p: "place (?F k) None True (map ?F ks) = Some (consecutive (below k ks) \<and> (above k ks = [] \<and> below k ks \<noteq> [] \<longrightarrow> last (below k ks) + 1 = k),
      map ?F (below k ks), map ?F (above k ks))"
    using place_numbered [OF F assms(4,5,2,3), of None True] by simp
  have fs: "map ?F (below k ks) @ map ?F (k # above k ks) = map ?F ?n" "?F k # map ?F (above k ks) = map ?F (k # above k ks)"
    by simp_all
  have i: "ipr_p ((pending ps h (k # ks))\<lparr>ipr_p := ipr_p (pending ps h ks)\<rparr>) = map ?F ks"
    "ipr_flags ((pending ps h (k # ks))\<lparr>ipr_p := ipr_p (pending ps h ks)\<rparr>) = (if length ps - 1 \<in> set (k # ks) then IP_REASS_FLAG_LASTFRAG else 0)"
    by (simp_all add: pending_def)
  show ?thesis
    unfolding ip_reass_chain_frag_into_datagram_and_validate_def i p option.case prod.case Let_def fs fl hd g
      placed_complete [OF assms(2,3,4,5,6), symmetric]
    by (simp only: conj_ac option.inject prod.inject)
qed

lemma chain_clen_small: "length p < 256 \<Longrightarrow> unat (chain_clen p) = length p"
  by (simp add: chain_clen_def unat_of_nat)

lemma sum_below_above:
  fixes f :: "nat \<Rightarrow> nat"
  shows "k \<notin> set ks \<Longrightarrow> (\<Sum>j\<leftarrow>ks. f j) = (\<Sum>j\<leftarrow>below k ks. f j) + (\<Sum>j\<leftarrow>above k ks. f j)"
  by (induction ks) auto

text \<open>A fragment that joins those that have arrived.\<close>

lemma reass_insert_waiting:
  assumes "fragments ds ps" "sorted_wrt (<) ks" "\<forall>j\<in>set ks. j < length ps" "k < length ps" "k \<notin> set ks"
    and "below k ks = [] \<or> above k ks = [] \<or> k - 1 \<in> set (below k ks)"
    and "0 \<in> set (k # ks) \<Longrightarrow> h = 0" "(\<Sum>p\<leftarrow>ps. length p) < 256"
  shows "if below k ks @ k # above k ks = [0..<length ps]
    then \<exists>q. reass_insert 0 (ps ! k) (gathering ps h ks s) = Some (Some q, s)
      \<and> whole ds ps q
    else reass_insert 0 (ps ! k) (gathering ps h ks s) = Some (None, gathering ps h (below k ks @ k # above k ks) s)"
proof -
  define n where "n = below k ks @ k # above k ks"
  define fs where "fs = map (\<lambda>k. frag_of (ps ! k)) n"
  have clen: "unat (chain_clen (ps ! k)) = length (ps ! k)"
    by (rule chain_clen_small [OF fragmentsD(2) [OF assms(1,4)]])
  let ?r = "(pending ps h (k # ks))\<lparr>ipr_p := ipr_p (pending ps h ks)\<rparr>"
  let ?s = "s\<lparr>reassdatagrams := ?r # reassdatagrams s,
    ip_reass_pbufcount := ip_reass_pbufcount s + of_nat (\<Sum>k\<leftarrow>ks. length (ps ! k)) + of_nat (length (ps ! k))\<rparr>"
  have st: "(let s = (gathering ps h ks s)\<lparr>ip_reass_pbufcount := ip_reass_pbufcount (gathering ps h ks s) + of_nat (length (ps ! k))\<rparr>
      in if ntohs (IPH_OFFSET (first (ps ! k))) AND IP_MF = 0
         then set_ipr 0 (\<lambda>r. r\<lparr>ipr_flags := ipr_flags r OR IP_REASS_FLAG_LASTFRAG, datagram_len := frag_end (frag_of (ps ! k))\<rparr>) s
         else s) = ?s"
    using pending_last [OF assms(1,4), of h ks] by (auto simp: gathering_def set_ipr_def Let_def split: if_splits)
  note place = place_fragment [OF assms(1-6), of h, folded n_def fs_def]
  have sum: "(\<Sum>k\<leftarrow>n. length (ps ! k)) = (\<Sum>k\<leftarrow>ks. length (ps ! k)) + length (ps ! k)"
    using sum_below_above [OF assms(5), of "\<lambda>k. length (ps ! k)"] by (simp add: n_def)
  have set: "set (k # ks) = set n" using assms(5) by (auto simp: n_def)
  have r: "reass_insert 0 (ps ! k) (gathering ps h ks s) =
    (if n \<noteq> [0..<length ps] then Some (None, set_ipr 0 (ipr_p_update (\<lambda>_. fs)) ?s)
     else do {
       q \<leftarrow> joined ?r fs;
       s \<leftarrow> ip_reass_dequeue_datagram 0 None ?s;
       Some (Some q, s\<lparr>ip_reass_pbufcount := ip_reass_pbufcount s - of_nat (unat (chain_clen q))\<rparr>)
     })"
    using st place unfolding reass_insert_def Let_def clen by simp
  show ?thesis
  proof (cases "n = [0..<length ps]")
    case False
    have "?r\<lparr>ipr_p := fs\<rparr> = pending ps h n" using pending_set [OF set, of ps h, folded fs_def] by simp
    then have "set_ipr 0 (ipr_p_update (\<lambda>_. fs)) ?s = gathering ps h n s"
      unfolding set_ipr_def gathering_def sum by (simp add: add.assoc)
    then have "reass_insert 0 (ps ! k) (gathering ps h ks s) = Some (None, gathering ps h n s)"
      unfolding r using False by simp
    then show ?thesis using False by (simp add: n_def)
  next
    case True
    have "ps \<noteq> []" using assms(4) by auto
    then have z: "length ps - 1 \<in> set (k # ks)" "0 \<in> set (k # ks)" unfolding set True by simp_all
    then have h: "h = 0" using assms(7) by blast
    have jr: "joined ?r xs = joined (pending ps 0 (k # ks)) xs" for xs by (simp add: joined_def h)
    obtain q where q: "joined ?r (map (\<lambda>k. frag_of (ps ! k)) [0..<length ps]) = Some q"
        "whole ds ps q" "length q = (\<Sum>p\<leftarrow>ps. length p)"
      unfolding jr using joined_contents [OF assms(1) z(1)] by blast
    have "(\<Sum>p\<leftarrow>ps. length p) = (\<Sum>k\<leftarrow>n. length (ps ! k))"
      unfolding True by (rule arg_cong [of _ _ sum_list]) (rule nth_equalityI, simp_all)
    then have c: "unat (chain_clen q) = (\<Sum>k\<leftarrow>ks. length (ps ! k)) + length (ps ! k)"
      using chain_clen_small [of q] q(3) assms(8) sum by simp
    have "reass_insert 0 (ps ! k) (gathering ps h ks s) = Some (Some q, s)"
      unfolding r fs_def using True q(1) arg_cong [OF c, of "of_nat :: nat \<Rightarrow> u16"] by (simp add: ip_reass_dequeue_datagram_def)
    then show ?thesis using q(2) True by (simp add: n_def)
  qed
qed

text \<open>The same of \<open>ip_reass\<close>, which finds the datagram at the head of the list.\<close>

lemma ip_reass_waiting:
  assumes "fragments ds ps" "sorted_wrt (<) ks" "\<forall>j\<in>set ks. j < length ps" "k < length ps" "k \<notin> set ks"
    and "below k ks = [] \<or> above k ks = [] \<or> k - 1 \<in> set (below k ks)"
    and "0 \<in> set ks \<Longrightarrow> h = 0" "h < length ps"
    and room: "unat (ip_reass_pbufcount s) + (\<Sum>p\<leftarrow>ps. length p) \<le> IP_REASS_MAX_PBUFS"
    and all: "(\<Sum>j\<leftarrow>ks. length (ps ! j)) + length (ps ! k) \<le> (\<Sum>p\<leftarrow>ps. length p)"
  defines "h' \<equiv> if k = 0 then 0 else h"
  shows "ip_reass (ps ! k) (gathering ps h ks s) = reass_insert 0 (ps ! k) (gathering ps h' ks s)"
proof -
  note f = fragmentsD [OF assms(1)]
  have clen: "unat (chain_clen (ps ! k)) = length (ps ! k)" by (rule chain_clen_small [OF f(2) [OF assms(4)]])
  have count: "unat (ip_reass_pbufcount (gathering ps h ks s)) = unat (ip_reass_pbufcount s) + (\<Sum>j\<leftarrow>ks. length (ps ! j))"
  proof -
    let ?n = "\<Sum>j\<leftarrow>ks. length (ps ! j)"
    have "unat (ip_reass_pbufcount s) + ?n < 65536" using room all by (simp add: IP_REASS_MAX_PBUFS_def)
    moreover have "unat (of_nat ?n :: u16) = ?n mod 65536" by (rule unat_of_nat_u16)
    ultimately show ?thesis by (simp add: gathering_def unat_word_ariths)
  qed
  have notfull: "\<not> IP_REASS_MAX_PBUFS < unat (ip_reass_pbufcount (gathering ps h ks s)) + length (ps ! k)"
    unfolding count using room all by simp
  have m: "IP_ADDRESSES_AND_ID_MATCH (take 20 (first (ps ! h))) (first (ps ! k))"
    using f(10) [OF assms(8)] f(10) [OF assms(4)] header_take [OF f(3) [OF assms(8)]]
    by (simp add: IP_ADDRESSES_AND_ID_MATCH_def)
  have found: "reass_found (first (ps ! k)) (gathering ps h ks s) = Some 0"
    using m by (simp add: reass_found_def gathering_def pending_def upt_conv_Cons del: upt_Suc)
  have off: "ntohs (IPH_OFFSET (first (ps ! j))) AND IP_OFFMASK = 0 \<longleftrightarrow> j = 0" if "j < length ps" for j
  proof -
    have "data_len (take j ds) = 0 \<longleftrightarrow> j = 0"
    proof (cases j)
      case (Suc i)
      then have "data_len (take j ds) = data_len (take i ds) + length (ds ! i)" "ds ! i \<noteq> []"
        using data_len_take [of i ds] f(5) [of i] that assms(1) by (simp_all add: fragments_def)
      then show ?thesis using Suc by simp
    qed (simp add: data_len_def)
    then show ?thesis using f(8) [OF that] unat_eq_zero [of "ntohs (IPH_OFFSET (first (ps ! j))) AND IP_OFFMASK"]
      unfolding frag_off_def by auto
  qed
  have hdr: "IPH_OFFSET (ipr_iphdr (reassdatagrams (gathering ps h ks s) ! 0)) = IPH_OFFSET (first (ps ! h))"
    using header_take(5) [OF f(3) [OF assms(8)]] by (simp add: gathering_def pending_def)
  have "(if k = 0 \<and> h \<noteq> 0 then set_ipr 0 (ipr_iphdr_update (\<lambda>_. take IP_HLEN (first (ps ! k)))) (gathering ps h ks s) else gathering ps h ks s)
      = gathering ps h' ks s"
    by (simp add: h'_def gathering_def set_ipr_def pending_def IP_HLEN_def)
  then show ?thesis
    unfolding ip_reass_def Let_def clen if_not_P [OF notfull] using f(6) [OF assms(4)] found off [OF assms(4)] off [OF assms(8)]
    by (simp add: hdr IP_HLEN_def)
qed

lemma orderly_place:
  assumes "orderly (set ks) (k # xs)" "k \<notin> set ks"
  shows "below k ks = [] \<or> above k ks = [] \<or> k - 1 \<in> set (below k ks)"
proof -
  have "below k ks = []" if "\<forall>j\<in>set ks. k \<le> j" using that by (auto simp: filter_empty_conv not_less)
  moreover have "above k ks = []" if "\<forall>j\<in>set ks. j \<le> k" using that by (auto simp: filter_empty_conv not_less)
  moreover have "k - 1 \<in> set (below k ks)" if "0 < k" "k - 1 \<in> set ks" using that by simp
  ultimately show ?thesis using assms(1) by auto
qed

lemma lengths_nth: "(\<Sum>p\<leftarrow>ps. length p) = (\<Sum>k\<leftarrow>[0..<length ps]. length (ps ! k))"
  by (rule arg_cong [of _ _ sum_list]) (rule nth_equalityI, simp_all)

lemma lengths_le:
  assumes "distinct ks" "set ks \<subseteq> {..<length ps}"
  shows "(\<Sum>k\<leftarrow>ks. length (ps ! k)) \<le> (\<Sum>p\<leftarrow>ps. length p)"
proof -
  have "(\<Sum>k\<leftarrow>ks. length (ps ! k)) = (\<Sum>k\<in>set ks. length (ps ! k))" using assms(1) by (simp add: sum_list_distinct_conv_sum_set)
  also have "\<dots> \<le> (\<Sum>k\<in>{..<length ps}. length (ps ! k))" using assms(2) by (intro sum_mono2) auto
  also have "\<dots> = (\<Sum>p\<leftarrow>ps. length p)"
    unfolding lengths_nth by (simp add: sum_list_distinct_conv_sum_set atLeast0LessThan)
  finally show ?thesis .
qed

lemma new_order:
  assumes "sorted_wrt (<) ks" "k \<notin> set ks"
  shows "sorted_wrt (<) (below k ks @ k # above k ks)" "set (below k ks @ k # above k ks) = insert k (set ks)"
  using assms by (auto simp: sorted_wrt_append sorted_wrt_filter)

lemma all_arrived: "sorted_wrt (<) ks \<Longrightarrow> ks = [0..<m] \<longleftrightarrow> set ks = {..<m}"
  using sorted_distinct_set_unique [of ks "[0..<m]"] by (auto simp: strict_sorted_iff atLeast0LessThan)

lemma none_left: "A \<union> set xs = B \<Longrightarrow> A \<inter> set xs = {} \<Longrightarrow> A = B \<longleftrightarrow> xs = []"
  by (cases xs) auto

text \<open>The interfaces are the same before and after each of the steps.\<close>

definition steady :: "netif list \<Rightarrow> chain list \<Rightarrow> stack \<Rightarrow> bool" where
  "steady N ps s \<longleftrightarrow> (\<forall>j\<le>length ps. \<exists>rs u. feed (take j ps) s = Some (rs, u) \<and> netif_list u = N)"

lemma steady_Nil [simp]: "steady N [] s \<longleftrightarrow> netif_list s = N"
  by (simp add: steady_def)

lemma steady_Cons:
  assumes "ip_reass p s = Some (r, u)"
  shows "steady N (p # ps) s \<longleftrightarrow> netif_list s = N \<and> steady N ps u"
proof -
  have q: "(\<forall>j\<le>length (p # ps). Q j) \<longleftrightarrow> Q 0 \<and> (\<forall>j\<le>length ps. Q (Suc j))" for Q
    by (metis Suc_le_mono length_Cons not0_implies_Suc zero_le)
  have "(\<exists>rs v. feed (take (Suc j) (p # ps)) s = Some (rs, v) \<and> netif_list v = N)
      \<longleftrightarrow> (\<exists>rs v. feed (take j ps) u = Some (rs, v) \<and> netif_list v = N)" for j
    using assms by (cases "feed (take j ps) u") auto
  then show ?thesis unfolding steady_def q by simp
qed

lemma feed_waiting:
  assumes "fragments ds ps" "unat (ip_reass_pbufcount s) + (\<Sum>p\<leftarrow>ps. length p) \<le> IP_REASS_MAX_PBUFS"
  shows "sorted_wrt (<) ks \<Longrightarrow> distinct xs \<Longrightarrow> set xs \<inter> set ks = {} \<Longrightarrow> set xs \<union> set ks = {..<length ps} \<Longrightarrow>
    orderly (set ks) xs \<Longrightarrow> xs \<noteq> [] \<Longrightarrow> (0 \<in> set ks \<Longrightarrow> h = 0) \<Longrightarrow> h < length ps \<Longrightarrow>
    steady (netif_list s) (map ((!) ps) xs) (gathering ps h ks s) \<and> (\<exists>q. feed (map ((!) ps) xs) (gathering ps h ks s) = Some (replicate (length xs - 1) None @ [Some q], s)
      \<and> whole ds ps q)"
proof (induction xs arbitrary: ks h)
  case (Cons k xs)
  let ?n = "below k ks @ k # above k ks" and ?h = "if k = 0 then 0 else h"
  have k: "k < length ps" "k \<notin> set ks" "\<forall>j\<in>set ks. j < length ps" using Cons.prems(3,4) by auto
  have place: "below k ks = [] \<or> above k ks = [] \<or> k - 1 \<in> set (below k ks)" by (rule orderly_place [OF Cons.prems(5) k(2)])
  have "(\<Sum>j\<leftarrow>k # ks. length (ps ! j)) \<le> (\<Sum>p\<leftarrow>ps. length p)"
    by (rule lengths_le) (use Cons.prems(1) k in \<open>auto simp: strict_sorted_iff\<close>)
  then have all: "(\<Sum>j\<leftarrow>ks. length (ps ! j)) + length (ps ! k) \<le> (\<Sum>p\<leftarrow>ps. length p)" by simp
  have small: "(\<Sum>p\<leftarrow>ps. length p) < 256" using assms(2) by (simp add: IP_REASS_MAX_PBUFS_def)
  have z: "0 \<in> set (k # ks) \<Longrightarrow> ?h = 0" using Cons.prems(7) by auto
  have step: "ip_reass (ps ! k) (gathering ps h ks s) = reass_insert 0 (ps ! k) (gathering ps ?h ks s)"
    by (rule ip_reass_waiting [OF assms(1) Cons.prems(1) k(3,1,2) place Cons.prems(7,8) assms(2) all])
  note ins = reass_insert_waiting [OF assms(1) Cons.prems(1) k(3,1,2) place z small, of s]
  note n = new_order [OF Cons.prems(1) k(2)]
  have "set ?n = {..<length ps} \<longleftrightarrow> xs = []"
  proof -
    have "insert k (set ks) \<union> set xs = {..<length ps}" "insert k (set ks) \<inter> set xs = {}" using Cons.prems(2-4) by auto
    then show ?thesis unfolding n(2) by (rule none_left)
  qed
  then have full: "?n = [0..<length ps] \<longleftrightarrow> xs = []" using all_arrived [OF n(1)] by simp
  show ?case
  proof (cases "xs = []")
    case True
    then obtain q where "reass_insert 0 (ps ! k) (gathering ps ?h ks s) = Some (Some q, s)"
        "whole ds ps q"
      using ins unfolding full by (simp del: of_nat_add) blast
    then show ?thesis using True step by (simp add: steady_Cons gathering_def del: of_nat_add)
  next
    case False
    then have here: "reass_insert 0 (ps ! k) (gathering ps ?h ks s) = Some (None, gathering ps ?h ?n s)"
      using ins unfolding full by (simp only: if_False)
    have "steady (netif_list s) (map ((!) ps) xs) (gathering ps ?h ?n s) \<and> (\<exists>q. feed (map ((!) ps) xs) (gathering ps ?h ?n s) = Some (replicate (length xs - 1) None @ [Some q], s)
      \<and> whole ds ps q)"
    proof (rule Cons.IH [OF n(1)])
      show "distinct xs" "xs \<noteq> []" "?h < length ps" using Cons.prems(2,8) False k(1) by auto
      show "set xs \<inter> set ?n = {}" "set xs \<union> set ?n = {..<length ps}" unfolding n(2) using Cons.prems(2-4) by auto
      show "orderly (set ?n) xs" unfolding n(2) using Cons.prems(5) by simp
      show "?h = 0" if "0 \<in> set ?n" using that z unfolding n(2) by simp
    qed
    moreover have "None # replicate (length xs - 1) None = replicate (length xs) None" using False by (cases xs) simp_all
    moreover have "netif_list (gathering ps h ks s) = netif_list s" by (simp add: gathering_def)
    ultimately show ?thesis using here step by (auto simp: steady_Cons simp del: of_nat_add)
  qed
qed simp

lemma feed_in_turn:
  assumes "fragments ds ps" "distinct xs" "set xs = {..<length ps}" "orderly {} xs"
    and "\<forall>r\<in>set (reassdatagrams s). \<not> IP_ADDRESSES_AND_ID_MATCH (ipr_iphdr r) (first (ps ! 0))"
    and "length (reassdatagrams s) < MEMP_NUM_REASSDATA"
    and "unat (ip_reass_pbufcount s) + (\<Sum>p\<leftarrow>ps. length p) \<le> IP_REASS_MAX_PBUFS"
  shows "steady (netif_list s) (map ((!) ps) xs) s \<and> (\<exists>q. feed (map ((!) ps) xs) s = Some (replicate (length ps - 1) None @ [Some q], s)
    \<and> whole ds ps q)"
proof -
  have "ps \<noteq> []" using assms(1) by (simp add: fragments_def)
  then obtain k ys where xs: "xs = k # ys" using assms(3) by (cases xs) auto
  have k: "k < length ps" using assms(3) xs by auto
  note f = fragmentsD [OF assms(1)]
  have len: "length xs = length ps" using assms(2,3) distinct_card [of xs] by simp
  have clen: "unat (chain_clen (ps ! k)) = length (ps ! k)" by (rule chain_clen_small [OF f(2) [OF k]])
  have "length (ps ! k) \<le> (\<Sum>p\<leftarrow>ps. length p)" using lengths_le [of "[k]" ps] k by simp
  then have notfull: "\<not> IP_REASS_MAX_PBUFS < unat (ip_reass_pbufcount s) + length (ps ! k)" using assms(7) by simp
  have "reass_found (first (ps ! k)) s = None"
    using assms(5) f(10) [OF k] by (auto simp: reass_found_def find_None_iff IP_ADDRESSES_AND_ID_MATCH_def)
  then have first: "ip_reass (ps ! k) s = reass_insert 0 (ps ! k) (gathering ps k [] s)"
    unfolding ip_reass_def Let_def clen if_not_P [OF notfull] using f(6) [OF k] assms(6)
    by (simp add: ip_reass_enqueue_new_datagram_def gathering_def pending_def IP_HLEN_def)
  have small: "(\<Sum>p\<leftarrow>ps. length p) < 256" using assms(7) by (simp add: IP_REASS_MAX_PBUFS_def)
  have ins: "if [k] = [0..<length ps]
    then \<exists>q. reass_insert 0 (ps ! k) (gathering ps k [] s) = Some (Some q, s)
      \<and> whole ds ps q
    else reass_insert 0 (ps ! k) (gathering ps k [] s) = Some (None, gathering ps k [k] s)"
    using reass_insert_waiting [OF assms(1), of "[]" k k s] k small by (simp del: of_nat_add)
  have full: "[k] = [0..<length ps] \<longleftrightarrow> ys = []"
    using all_arrived [of "[k]" "length ps"] none_left [of "{k}" ys "{..<length ps}"] assms(2,3) xs by simp
  show ?thesis
  proof (cases "ys = []")
    case True
    then obtain q where "reass_insert 0 (ps ! k) (gathering ps k [] s) = Some (Some q, s)"
        "whole ds ps q"
      using ins unfolding full by (simp del: of_nat_add) blast
    then show ?thesis using True first xs len by (simp add: steady_Cons del: of_nat_add)
  next
    case False
    have "steady (netif_list s) (map ((!) ps) ys) (gathering ps k [k] s)
      \<and> (\<exists>q. feed (map ((!) ps) ys) (gathering ps k [k] s) = Some (replicate (length ys - 1) None @ [Some q], s)
      \<and> whole ds ps q)"
      by (rule feed_waiting [OF assms(1,7)]) (use assms(2-4) xs False k in auto)
    moreover have "None # replicate (length ys - 1) None = replicate (length ps - 1) None"
      unfolding len [symmetric] xs using False by (cases ys) simp_all
    moreover have "reass_insert 0 (ps ! k) (gathering ps k [] s) = Some (None, gathering ps k [k] s)"
      using ins False unfolding full by (simp only: if_False)
    ultimately show ?thesis using first xs by (auto simp: steady_Cons simp del: of_nat_add)
  qed
qed

text \<open>
  C5: The fragments of a packet, arriving in any order that leaves no hole before an inserted fragment,
  are kept until the last of them, which gives the whole packet: the header of the first
  fragment with the total length, no offset and its checksum, and all the data in order.  The other
  datagrams and the count of buffers are as before.
\<close>

theorem ip_reass_in_turn:
  assumes "fragments ds ps" "distinct xs" "set xs = {..<length ps}" "orderly {} xs"
    and "\<forall>r\<in>set (reassdatagrams s). \<not> IP_ADDRESSES_AND_ID_MATCH (ipr_iphdr r) (first (ps ! 0))"
    and "length (reassdatagrams s) < MEMP_NUM_REASSDATA"
    and "unat (ip_reass_pbufcount s) + (\<Sum>p\<leftarrow>ps. length p) \<le> IP_REASS_MAX_PBUFS"
  shows "\<exists>q. feed (map ((!) ps) xs) s = Some (replicate (length ps - 1) None @ [Some q], s)
    \<and> contents q = frag_header (take 20 (first (ps ! 0))) 0 (of_nat (data_len ds + 20)) @ concat ds"
  using feed_in_turn [OF assms] unfolding whole_def Let_def by blast

text \<open>With three fragments at most there is no other order.\<close>

lemma orderly_three: "seen \<subseteq> {..<3} \<Longrightarrow> set xs \<subseteq> {..<3} \<Longrightarrow> orderly seen xs"
proof (induction xs arbitrary: seen)
  case (Cons k xs)
  have "(\<forall>j\<in>seen. k \<le> j) \<or> (\<forall>j\<in>seen. j \<le> k) \<or> 0 < k \<and> k - 1 \<in> seen"
  proof (rule ccontr)
    assume n: "\<not> ((\<forall>j\<in>seen. k \<le> j) \<or> (\<forall>j\<in>seen. j \<le> k) \<or> 0 < k \<and> k - 1 \<in> seen)"
    then obtain a b where "a \<in> seen" "a < k" "b \<in> seen" "k < b" by (auto simp: not_le)
    moreover have "b < 3" using \<open>b \<in> seen\<close> Cons.prems(1) by auto
    ultimately have "k = 1" "a = 0" by linarith+
    then show False using n \<open>a \<in> seen\<close> by simp
  qed
  then show ?case using Cons by simp
qed simp

definition two_fragments :: "chain list" where
  "two_fragments = map (\<lambda>x. [\<lparr>btype = PBUF_POOL, front = [], body = frag_bytes (ip_header 0 30 7 255 17 1 2) 0 x\<rparr>])
     [(0, True, [1, 2, 3, 4, 5, 6, 7, 8]), (8, False, [9, 10])]"

lemma two_fragments_ok: "fragments [[1, 2, 3, 4, 5, 6, 7, 8], [9, 10]] two_fragments"
proof -
  let ?h = "ip_header 0 30 7 255 17 1 2"
  note r = frag_bytes_reads [of ?h _ _ _ _ "[]", OF length_ip_header, unfolded append_Nil2]
  note a = r [of 0 "[1, 2, 3, 4, 5, 6, 7, 8]" _ True, OF _ _ _ refl, simplified]
  note b = r [of 8 "[9, 10]" _ False, OF _ _ _ refl, simplified]
  have l: "length (frag_bytes ?h 0 (o', mf, xs)) = 20 + length xs" "drop 20 (frag_bytes ?h 0 (o', mf, xs)) = xs" for o' mf xs
    by (simp_all add: frag_bytes_def Let_def)
  have h: "IPH_HL ?h = 5" using ip_header_fields(2) [of 0 30 7 255 17 1 2 "[]"] by simp
  have k: "(\<forall>k<length two_fragments. P k) \<longleftrightarrow> P 0 \<and> P 1" for P
    by (auto simp: two_fragments_def less_Suc_eq)
  show ?thesis unfolding fragments_def k
    using a b h by (simp add: two_fragments_def Let_def contents_def l data_len_def IP_ADDRESSES_AND_ID_MATCH_def)
qed

theorem ip_reass_in_turn_witness:
  "\<exists>q. feed (map ((!) two_fragments) [1, 0]) (host 1) = Some ([None, Some q], host 1)
    \<and> drop 20 (contents q) = [1, 2, 3, 4, 5, 6, 7, 8, 9, 10]"
proof -
  have n: "length two_fragments = 2" "map length two_fragments = [1, 1]" by (simp_all add: two_fragments_def)
  have h: "distinct [1, 0 :: nat]" "set [1, 0] = {..<length two_fragments}" "orderly {} [1, 0]"
    "\<forall>r\<in>set (reassdatagrams (host 1)). \<not> IP_ADDRESSES_AND_ID_MATCH (ipr_iphdr r) (first (two_fragments ! 0))"
    "length (reassdatagrams (host 1)) < MEMP_NUM_REASSDATA"
    "unat (ip_reass_pbufcount (host 1)) + (\<Sum>p\<leftarrow>two_fragments. length p) \<le> IP_REASS_MAX_PBUFS"
    using n by (auto simp: host_def MEMP_NUM_REASSDATA_def IP_REASS_MAX_PBUFS_def)
  have "20 \<le> length (first (two_fragments ! 0))" by (rule fragmentsD(3) [OF two_fragments_ok]) (simp add: n)
  then show ?thesis using ip_reass_in_turn [OF two_fragments_ok h] n by auto
qed

end
