(* ===== verification/Udp.thy ===== *)
theory Udp
  imports Reass
begin

text \<open>
  \<open>udp.c\<close> and \<open>raw.c\<close>.  A control block is an address; its fields are in \<open>udp_mem\<close> or
  \<open>raw_mem\<close>, and a new one comes from the free list of its pool.  Checksums of datagrams are left to
  the hardware.  A chain that is freed is recorded as it is at that moment; what remains of a chain after it
  was sent is not returned.
\<close>

definition UDP_HLEN :: nat where "UDP_HLEN = 8"
definition UDP_FLAGS_CONNECTED :: u8 where "UDP_FLAGS_CONNECTED = 4"
definition UDP_TTL :: u8 where "UDP_TTL = 255"
definition UDP_LOCAL_PORT_RANGE_START :: u16 where "UDP_LOCAL_PORT_RANGE_START = 4096"
definition UDP_LOCAL_PORT_RANGE_END :: u16 where "UDP_LOCAL_PORT_RANGE_END = 0x7fff"
definition DHCP_CLIENT_PORT :: u16 where "DHCP_CLIENT_PORT = 68"
definition DHCP_SERVER_PORT :: u16 where "DHCP_SERVER_PORT = 67"
definition RAW_TTL :: u8 where "RAW_TTL = 255"

definition set_udp :: "nat \<Rightarrow> (udp_pcb \<Rightarrow> udp_pcb) \<Rightarrow> stack \<Rightarrow> stack" where
  "set_udp a f s = s\<lparr>udp_mem := (udp_mem s)(a := f (udp_mem s a))\<rparr>"

definition set_raw :: "nat \<Rightarrow> (raw_pcb \<Rightarrow> raw_pcb) \<Rightarrow> stack \<Rightarrow> stack" where
  "set_raw a f s = s\<lparr>raw_mem := (raw_mem s)(a := f (raw_mem s a))\<rparr>"

section \<open>Control blocks\<close>

definition udp_new :: "stack \<Rightarrow> nat option \<times> stack" where
  "udp_new s =
     (case udp_free s of
        [] \<Rightarrow> (None, s)
      | a # as \<Rightarrow> (Some a, set_udp a (\<lambda>_. udp_zero\<lparr>udp_ttl := UDP_TTL\<rparr>) (s\<lparr>udp_free := as\<rparr>)))"

definition udp_remove :: "nat \<Rightarrow> stack \<Rightarrow> stack" where
  "udp_remove a s = s\<lparr>udp_pcbs := remove1 a (udp_pcbs s), udp_free := a # udp_free s\<rparr>"

lemma to_the_end:
  assumes "(port :: u16) \<noteq> e"
  shows "unat (e - (port + 1)) < unat (e - port)"
proof -
  have "e - port \<noteq> 0" using assms by simp
  then have "unat (e - port - 1) < unat (e - port)" by (rule measure_unat)
  then show ?thesis by (simp add: diff_diff_add)
qed

text \<open>
  The search for a port that no block uses: it starts again at the next port whenever one does.  The
  answer tells whether the list came to its end.
\<close>

function udp_scan :: "u16 list \<Rightarrow> u16 list \<Rightarrow> u16 \<Rightarrow> bool \<times> u16" where
  "udp_scan inuse [] port = (True, port)"
| "udp_scan inuse (q # qs) port =
     (if port = UDP_LOCAL_PORT_RANGE_END then (False, port)
      else if q = port then udp_scan inuse inuse (port + 1)
      else udp_scan inuse qs port)"
  by pat_completeness auto
termination
  by (relation "measures [\<lambda>(_, _, port). unat (UDP_LOCAL_PORT_RANGE_END - port), \<lambda>(_, qs, _). length qs]")
    (auto intro: to_the_end)

definition udp_bind :: "nat \<Rightarrow> u32 \<Rightarrow> u16 \<Rightarrow> stack \<Rightarrow> err_t \<times> stack" where
  "udp_bind a ipaddr port s =
     (let rebind = a \<in> set (udp_pcbs s);
          s = set_udp a (udp_local_ip_update (\<lambda>_. ipaddr)) s;
          inuse = map (\<lambda>b. udp_local_port (udp_mem s b)) (udp_pcbs s);
          (ok, port) = (if port = 0 then udp_scan inuse inuse UDP_LOCAL_PORT_RANGE_START else (True, port))
      in if \<not> ok then (ERR_USE, s)
         else
           let s = set_udp a (udp_local_port_update (\<lambda>_. port)) s in
           (ERR_OK, if rebind then s else s\<lparr>udp_pcbs := a # udp_pcbs s\<rparr>))"

definition udp_connect :: "nat \<Rightarrow> u32 \<Rightarrow> u16 \<Rightarrow> stack \<Rightarrow> err_t \<times> stack" where
  "udp_connect a ipaddr port s =
     (let pcb = udp_mem s a;
          (err, s) = (if udp_local_port pcb = 0 then udp_bind a (udp_local_ip pcb) 0 s else (ERR_OK, s))
      in if err \<noteq> ERR_OK then (err, s)
         else
           let s = set_udp a (\<lambda>pcb. pcb\<lparr>udp_remote_ip := ipaddr, udp_remote_port := port,
                     udp_flags := udp_flags pcb OR UDP_FLAGS_CONNECTED\<rparr>) s
           in (ERR_OK, if a \<in> set (udp_pcbs s) then s else s\<lparr>udp_pcbs := a # udp_pcbs s\<rparr>))"

definition udp_disconnect :: "nat \<Rightarrow> stack \<Rightarrow> stack" where
  "udp_disconnect a = set_udp a (\<lambda>pcb. pcb\<lparr>udp_remote_ip := 0, udp_remote_port := 0,
     udp_flags := udp_flags pcb AND NOT UDP_FLAGS_CONNECTED\<rparr>)"

definition udp_recv :: "nat \<Rightarrow> bool \<Rightarrow> stack \<Rightarrow> stack" where
  "udp_recv a callback = set_udp a (udp_recv_set_update (\<lambda>_. callback))"

section \<open>Sending\<close>

definition udp_header :: "u16 \<Rightarrow> u16 \<Rightarrow> u16 \<Rightarrow> u8 list" where
  "udp_header src dest len = bytes16 (htons src) @ bytes16 (htons dest) @ bytes16 (htons len) @ bytes16 0"

definition udp_sendto_if :: "nat \<Rightarrow> chain \<Rightarrow> u32 \<Rightarrow> u16 \<Rightarrow> nat \<Rightarrow> stack \<Rightarrow> (err_t \<times> stack) option" where
  "udp_sendto_if a p dst_ip dst_port n s =
     (let pcb = udp_mem s a;
          (err, s) = (if udp_local_port pcb = 0 then udp_bind a (udp_local_ip pcb) (udp_local_port pcb) s else (ERR_OK, s));
          pcb = udp_mem s a; netif = netif_list s ! n
      in if err \<noteq> ERR_OK then Some (err, s)
         else
           let (q, own, s) =
             (case chain_header (int UDP_HLEN) p of
                Some q \<Rightarrow> (Some q, [], s)
              | None \<Rightarrow>
                  let (ok, s) = try_alloc s; h = ram_buf (garbage s) PBUF_IP UDP_HLEN in
                  if ok then (Some (h # p), [Free_chain [h]], s) else (None, [], s))
           in case q of
                None \<Rightarrow> Some (ERR_MEM, s)
              | Some q \<Rightarrow>
                  if \<not> ip_addr_isany (udp_local_ip pcb) \<and> udp_local_ip pcb \<noteq> ip_addr netif
                  then Some (ERR_VAL, fold log_op own s)
                  else
                    let src_ip = (if ip_addr_isany (udp_local_ip pcb) then ip_addr netif else udp_local_ip pcb);
                        q = write_first 0 (udp_header (udp_local_port pcb) dst_port (chain_len q)) q
                    in map_option (\<lambda>(err, s). (err, fold log_op own s))
                         (ip_output_if q src_ip (Some dst_ip) (udp_ttl pcb) (udp_tos pcb) IP_PROTO_UDP n s))"

definition udp_sendto :: "nat \<Rightarrow> chain \<Rightarrow> u32 \<Rightarrow> u16 \<Rightarrow> stack \<Rightarrow> (err_t \<times> stack) option" where
  "udp_sendto a p dst_ip dst_port s =
     (case ip_route dst_ip s of
        None \<Rightarrow> Some (ERR_RTE, s)
      | Some n \<Rightarrow> udp_sendto_if a p dst_ip dst_port n s)"

definition udp_send :: "nat \<Rightarrow> chain \<Rightarrow> stack \<Rightarrow> (err_t \<times> stack) option" where
  "udp_send a p s = udp_sendto a p (udp_remote_ip (udp_mem s a)) (udp_remote_port (udp_mem s a)) s"

section \<open>Receiving\<close>

definition udp_local_match :: "bool \<Rightarrow> u32 \<Rightarrow> u16 \<Rightarrow> udp_pcb \<Rightarrow> bool" where
  "udp_local_match broadcast dst_ip dest pcb \<longleftrightarrow>
     udp_local_port pcb = dest \<and> (\<not> broadcast \<and> ip_addr_isany (udp_local_ip pcb) \<or> udp_local_ip pcb = dst_ip \<or> broadcast)"

definition udp_remote_match :: "u32 \<Rightarrow> u16 \<Rightarrow> udp_pcb \<Rightarrow> bool" where
  "udp_remote_match src_ip src pcb \<longleftrightarrow>
     udp_remote_port pcb = src \<and> (ip_addr_isany (udp_remote_ip pcb) \<or> udp_remote_ip pcb = src_ip)"

text \<open>The walk through the list: a full match, or the first unconnected local match that was seen.\<close>

fun udp_search ::
  "(udp_pcb \<Rightarrow> bool) \<Rightarrow> (udp_pcb \<Rightarrow> bool) \<Rightarrow> (nat \<Rightarrow> udp_pcb) \<Rightarrow> nat option \<Rightarrow> nat list \<Rightarrow> nat option \<times> bool" where
  "udp_search here there m uncon [] = (uncon, False)"
| "udp_search here there m uncon (a # as) =
     (let uncon = (if here (m a) \<and> uncon = None \<and> udp_flags (m a) AND UDP_FLAGS_CONNECTED = 0 then Some a else uncon)
      in if here (m a) \<and> there (m a) then (Some a, True) else udp_search here there m uncon as)"

definition udp_find :: "bool \<Rightarrow> u32 \<Rightarrow> u32 \<Rightarrow> u16 \<Rightarrow> u16 \<Rightarrow> nat \<Rightarrow> stack \<Rightarrow> nat option \<times> stack" where
  "udp_find broadcast src_ip dst_ip src dest n s =
     (if dest = DHCP_CLIENT_PORT
      then (if src = DHCP_SERVER_PORT
            then (case dhcp_pcb s n of
                    None \<Rightarrow> None
                  | Some a \<Rightarrow> if ip_addr_isany (udp_remote_ip (udp_mem s a)) \<or> udp_remote_ip (udp_mem s a) = src_ip
                              then Some a else None)
            else None, s)
      else
        case udp_search (udp_local_match broadcast dst_ip dest) (udp_remote_match src_ip src) (udp_mem s) None (udp_pcbs s) of
          (Some a, True) \<Rightarrow> (Some a, s\<lparr>udp_pcbs := a # remove1 a (udp_pcbs s)\<rparr>)
        | (r, _) \<Rightarrow> (r, s))"

text \<open>Ports outside the data of the first buffer are \<open>None\<close>.\<close>

definition udp_input :: "chain \<Rightarrow> nat \<Rightarrow> stack \<Rightarrow> stack option" where
  "udp_input p n s =
     (let iphdr = first p; hlen = unat (IPH_HL iphdr) * 4; drop_it = (\<lambda>p s. Some (log_op (Free_chain p) s)) in
      if unat (chain_len p) < hlen + UDP_HLEN then drop_it p s
      else case chain_header (- int hlen) p of
        None \<Rightarrow> drop_it p s
      | Some p \<Rightarrow>
          if length (first p) < 4 then None
          else
            let broadcast = ip_addr_isbroadcast (IPH_DEST iphdr) (netif_list s ! n);
                src = ntohs (word16 (first p) 0); dest = ntohs (word16 (first p) 2);
                (pcb, s) = udp_find broadcast (IPH_SRC iphdr) (IPH_DEST iphdr) src dest n s
            in if pcb = None \<and> ip_addr (netif_list s ! n) \<noteq> IPH_DEST iphdr then drop_it p s
               else case chain_header (- int UDP_HLEN) p of
                 None \<Rightarrow> drop_it p s
               | Some p \<Rightarrow>
                   (case pcb of
                      Some a \<Rightarrow>
                        if udp_recv_set (udp_mem s a) then Some (log_op (Udp_callback a p (IPH_SRC iphdr) src) s)
                        else drop_it p s
                    | None \<Rightarrow>
                        if \<not> broadcast \<and> \<not> ip_addr_ismulticast (IPH_DEST iphdr)
                        then
                          let p = (case chain_header (int (hlen + UDP_HLEN)) p of Some q \<Rightarrow> q | None \<Rightarrow> p) in
                          map_option (log_op (Free_chain p)) (icmp_dest_unreach p ICMP_DUR_PORT s)
                        else drop_it p s))"

section \<open>Raw packets\<close>

definition raw_new :: "u8 \<Rightarrow> stack \<Rightarrow> nat option \<times> stack" where
  "raw_new proto s =
     (case raw_free s of
        [] \<Rightarrow> (None, s)
      | a # as \<Rightarrow> (Some a, set_raw a (\<lambda>_. raw_zero\<lparr>raw_protocol := proto, raw_ttl := RAW_TTL\<rparr>)
                            (s\<lparr>raw_free := as, raw_pcbs := a # raw_pcbs s\<rparr>)))"

definition raw_remove :: "nat \<Rightarrow> stack \<Rightarrow> stack" where
  "raw_remove a s = s\<lparr>raw_pcbs := remove1 a (raw_pcbs s), raw_free := a # raw_free s\<rparr>"

definition raw_bind :: "nat \<Rightarrow> u32 \<Rightarrow> stack \<Rightarrow> err_t \<times> stack" where
  "raw_bind a ipaddr s = (ERR_OK, set_raw a (raw_local_ip_update (\<lambda>_. ipaddr)) s)"

definition raw_connect :: "nat \<Rightarrow> u32 \<Rightarrow> stack \<Rightarrow> err_t \<times> stack" where
  "raw_connect a ipaddr s = (ERR_OK, set_raw a (raw_remote_ip_update (\<lambda>_. ipaddr)) s)"

definition raw_recv :: "nat \<Rightarrow> (chain \<Rightarrow> u32 \<Rightarrow> bool) option \<Rightarrow> stack \<Rightarrow> stack" where
  "raw_recv a callback = set_raw a (raw_callback_update (\<lambda>_. callback))"

definition raw_sendto :: "nat \<Rightarrow> chain \<Rightarrow> u32 \<Rightarrow> stack \<Rightarrow> (err_t \<times> stack) option" where
  "raw_sendto a p ipaddr s =
     (let pcb = raw_mem s a;
          (q, own, s) =
            (case chain_header (int IP_HLEN) p of
               Some q \<Rightarrow> (chain_header (- int IP_HLEN) q, [], s)
             | None \<Rightarrow>
                 let (ok, s) = try_alloc s; h = ram_buf (garbage s) PBUF_IP 0 in
                 if ok then (Some (h # p), [Free_chain [h]], s) else (None, [], s))
      in case q of
           None \<Rightarrow> Some (ERR_MEM, s)
         | Some q \<Rightarrow>
             (case ip_route ipaddr s of
                None \<Rightarrow> Some (ERR_RTE, fold log_op own s)
              | Some n \<Rightarrow>
                  let src_ip = (if ip_addr_isany (raw_local_ip pcb) then ip_addr (netif_list s ! n) else raw_local_ip pcb)
                  in map_option (\<lambda>(err, s). (err, fold log_op own s))
                       (ip_output_if q src_ip (Some ipaddr) (raw_ttl pcb) (raw_tos pcb) (raw_protocol pcb) n s)))"

definition raw_send :: "nat \<Rightarrow> chain \<Rightarrow> stack \<Rightarrow> (err_t \<times> stack) option" where
  "raw_send a p s = raw_sendto a p (raw_remote_ip (raw_mem s a)) s"

text \<open>The packet goes to every block of its protocol until one eats it, and that one moves to the front.\<close>

fun raw_loop :: "chain \<Rightarrow> nat list \<Rightarrow> stack \<Rightarrow> bool \<times> stack" where
  "raw_loop p [] s = (False, s)"
| "raw_loop p (a # as) s =
     (if ucast (raw_protocol (raw_mem s a)) = IPH_PROTO (first p)
      then (case raw_callback (raw_mem s a) of
              None \<Rightarrow> raw_loop p as s
            | Some eats \<Rightarrow>
                let s = log_op (Raw_callback a p (IPH_SRC (first p))) s in
                if eats p (IPH_SRC (first p)) then (True, s\<lparr>raw_pcbs := a # remove1 a (raw_pcbs s)\<rparr>)
                else raw_loop p as s)
      else raw_loop p as s)"

definition raw_input :: "chain \<Rightarrow> nat \<Rightarrow> stack \<Rightarrow> bool \<times> stack" where
  "raw_input p n s = raw_loop p (raw_pcbs s) s"

section \<open>Ports\<close>

lemma word_less_plus_one: "(a :: u16) < b \<Longrightarrow> a < a + 1"
proof -
  assume "a < b"
  moreover have "unat b < 65536" using unsigned_less [of b] by simp
  ultimately have "unat a + 1 < 65536" unfolding word_less_nat_alt by linarith
  then show ?thesis by (simp add: word_less_nat_alt unat_word_ariths)
qed

lemma udp_scan_result:
  "inuse = pre @ qs \<Longrightarrow> port \<notin> set pre \<Longrightarrow> port = UDP_LOCAL_PORT_RANGE_END \<longrightarrow> qs \<noteq> [] \<Longrightarrow> port \<le> UDP_LOCAL_PORT_RANGE_END \<Longrightarrow>
    udp_scan inuse qs port = (ok, q) \<Longrightarrow>
    port \<le> q \<and> q \<le> UDP_LOCAL_PORT_RANGE_END \<and> (\<forall>r. port \<le> r \<and> r < q \<longrightarrow> r \<in> set inuse)
      \<and> (if ok then q < UDP_LOCAL_PORT_RANGE_END \<and> q \<notin> set inuse else q = UDP_LOCAL_PORT_RANGE_END)"
proof (induction inuse qs port arbitrary: pre rule: udp_scan.induct)
  case (1 inuse port)
  then show ?case by (auto simp: order.strict_iff_order)
next
  case (2 inuse p ps port)
  note IH = 2(1,2) and prems = 2(3-)
  consider (last) "port = UDP_LOCAL_PORT_RANGE_END" | (again) "port \<noteq> UDP_LOCAL_PORT_RANGE_END" "p = port"
    | (on) "port \<noteq> UDP_LOCAL_PORT_RANGE_END" "p \<noteq> port" by blast
  then show ?case
  proof cases
    case last
    then show ?thesis using prems(5) by auto
  next
    case again
    have le: "port + 1 \<le> UDP_LOCAL_PORT_RANGE_END" "port < port + 1"
      using again(1) prems(4) inc_le [of port UDP_LOCAL_PORT_RANGE_END] word_less_plus_one [of port UDP_LOCAL_PORT_RANGE_END] by simp_all
    have "p \<in> set inuse" "inuse \<noteq> []" using prems(1) by auto
    then have r: "port + 1 \<le> q \<and> q \<le> UDP_LOCAL_PORT_RANGE_END \<and> (\<forall>r. port + 1 \<le> r \<and> r < q \<longrightarrow> r \<in> set inuse)
        \<and> (if ok then q < UDP_LOCAL_PORT_RANGE_END \<and> q \<notin> set inuse else q = UDP_LOCAL_PORT_RANGE_END)"
      using IH(1) [OF again, of "[]"] le again prems(5) by simp
    have "r \<in> set inuse" if "port \<le> r" "r < q" for r
      using that r inc_le [of port r] \<open>p \<in> set inuse\<close> again(2) by (cases "r = port") (simp_all add: less_le)
    moreover have "port \<le> q" using r le(2) by (meson less_imp_le order.trans)
    ultimately show ?thesis using r by blast
  next
    case on
    show ?thesis by (rule IH(2) [OF on, of "pre @ [p]"]) (use prems on in auto)
  qed
qed

text \<open>
  A block that is bound to no particular port gets the lowest port of the range that no block has, and is
  in the list then; there is none only when the list has as many blocks as the range has ports.
\<close>

theorem udp_bind_unused:
  "case udp_bind a ipaddr 0 s of (e, s') \<Rightarrow>
     let port = udp_local_port (udp_mem s' a) in
     (e = ERR_OK \<and> UDP_LOCAL_PORT_RANGE_START \<le> port \<and> port < UDP_LOCAL_PORT_RANGE_END
       \<and> port \<notin> (\<lambda>b. udp_local_port (udp_mem s b)) ` set (udp_pcbs s)
       \<and> {UDP_LOCAL_PORT_RANGE_START..<port} \<subseteq> (\<lambda>b. udp_local_port (udp_mem s b)) ` set (udp_pcbs s)
       \<and> set (udp_pcbs s') = insert a (set (udp_pcbs s)) \<and> udp_local_ip (udp_mem s' a) = ipaddr)
     \<or> (e = ERR_USE \<and> 28671 \<le> length (udp_pcbs s))"
proof -
  let ?u = "map (\<lambda>b. udp_local_port (udp_mem s b)) (udp_pcbs s)"
  have u: "map (\<lambda>b. udp_local_port (udp_mem (set_udp a (udp_local_ip_update (\<lambda>_. ipaddr)) s) b)) (udp_pcbs s) = ?u"
    by (simp add: set_udp_def)
  have l: "udp_pcbs (set_udp a f s) = udp_pcbs s" for f by (simp add: set_udp_def)
  obtain ok q where q: "udp_scan ?u ?u UDP_LOCAL_PORT_RANGE_START = (ok, q)" by fastforce
  have r: "UDP_LOCAL_PORT_RANGE_START \<le> q \<and> q \<le> UDP_LOCAL_PORT_RANGE_END
      \<and> (\<forall>r. UDP_LOCAL_PORT_RANGE_START \<le> r \<and> r < q \<longrightarrow> r \<in> set ?u)
      \<and> (if ok then q < UDP_LOCAL_PORT_RANGE_END \<and> q \<notin> set ?u else q = UDP_LOCAL_PORT_RANGE_END)"
    by (rule udp_scan_result [OF _ _ _ _ q, of "[]"]) (simp_all add: UDP_LOCAL_PORT_RANGE_START_def UDP_LOCAL_PORT_RANGE_END_def)
  show ?thesis
  proof (cases ok)
    case True
    have i: "{UDP_LOCAL_PORT_RANGE_START..<q} \<subseteq> set ?u" using r by auto
    have "udp_bind a ipaddr 0 s = (ERR_OK, let s = set_udp a (udp_local_port_update (\<lambda>_. q)) (set_udp a (udp_local_ip_update (\<lambda>_. ipaddr)) s) in
        if a \<in> set (udp_pcbs s) then s else s\<lparr>udp_pcbs := a # udp_pcbs s\<rparr>)"
      using q True unfolding udp_bind_def l u Let_def by (simp add: set_udp_def)
    then show ?thesis using r i True by (simp add: Let_def set_udp_def insert_absorb)
  next
    case False
    have "unat ` {UDP_LOCAL_PORT_RANGE_START..<UDP_LOCAL_PORT_RANGE_END} = {4096..<32767}"
    proof (intro equalityI subsetI)
      fix n assume "n \<in> {4096..<32767 :: nat}"
      then have "unat (of_nat n :: u16) = n" "of_nat n \<in> {UDP_LOCAL_PORT_RANGE_START..<UDP_LOCAL_PORT_RANGE_END}"
        by (auto simp: UDP_LOCAL_PORT_RANGE_START_def UDP_LOCAL_PORT_RANGE_END_def word_le_nat_alt word_less_nat_alt unat_of_nat)
      then show "n \<in> unat ` {UDP_LOCAL_PORT_RANGE_START..<UDP_LOCAL_PORT_RANGE_END}" by (metis image_eqI)
    qed (auto simp: UDP_LOCAL_PORT_RANGE_START_def UDP_LOCAL_PORT_RANGE_END_def word_le_nat_alt word_less_nat_alt)
    then have "28671 \<le> card {UDP_LOCAL_PORT_RANGE_START..<UDP_LOCAL_PORT_RANGE_END}"
      using card_image_le [of "{UDP_LOCAL_PORT_RANGE_START..<UDP_LOCAL_PORT_RANGE_END}" unat] by simp
    also have "\<dots> \<le> card (set ?u)" using r False by (intro card_mono) auto
    also have "\<dots> \<le> length (udp_pcbs s)" using card_length [of ?u] by simp
    finally have "28671 \<le> length (udp_pcbs s)" .
    moreover have "fst (udp_bind a ipaddr 0 s) = ERR_USE" using q False unfolding udp_bind_def l u Let_def by simp
    ultimately show ?thesis by (cases "udp_bind a ipaddr 0 s") (simp add: Let_def)
  qed
qed

section \<open>Finding the block of a datagram\<close>

lemma udp_search_result:
  "udp_search here there m uncon as =
     (case List.find (\<lambda>a. here (m a) \<and> there (m a)) as of
        Some a \<Rightarrow> (Some a, True)
      | None \<Rightarrow> (case uncon of
          Some b \<Rightarrow> Some b
        | None \<Rightarrow> List.find (\<lambda>a. here (m a) \<and> udp_flags (m a) AND UDP_FLAGS_CONNECTED = 0) as, False))"
  by (induction as arbitrary: uncon) (auto simp: Let_def split: option.splits)

text \<open>The block that should get a datagram: connected to the sender, or else unconnected.\<close>

definition udp_choice :: "bool \<Rightarrow> u32 \<Rightarrow> u32 \<Rightarrow> u16 \<Rightarrow> u16 \<Rightarrow> stack \<Rightarrow> nat option" where
  "udp_choice broadcast src_ip dst_ip src dest s =
     (case List.find (\<lambda>a. udp_local_match broadcast dst_ip dest (udp_mem s a) \<and> udp_remote_match src_ip src (udp_mem s a)) (udp_pcbs s) of
        Some a \<Rightarrow> Some a
      | None \<Rightarrow> List.find (\<lambda>a. udp_local_match broadcast dst_ip dest (udp_mem s a)
                    \<and> udp_flags (udp_mem s a) AND UDP_FLAGS_CONNECTED = 0) (udp_pcbs s))"

lemma find_in: "List.find P xs = Some x \<Longrightarrow> x \<in> set xs \<and> P x"
  by (induction xs) (auto split: if_splits)

lemma udp_find_result:
  assumes "udp_find broadcast src_ip dst_ip src dest n s = (r, s')" "dest \<noteq> DHCP_CLIENT_PORT"
  shows "r = udp_choice broadcast src_ip dst_ip src dest s" "\<exists>as. s' = s\<lparr>udp_pcbs := as\<rparr> \<and> set as = set (udp_pcbs s) \<and> length as = length (udp_pcbs s)"
    "udp_choice broadcast src_ip dst_ip src dest s' = r"
proof -
  let ?P = "\<lambda>a. udp_local_match broadcast dst_ip dest (udp_mem s a) \<and> udp_remote_match src_ip src (udp_mem s a)"
  have "r = udp_choice broadcast src_ip dst_ip src dest s \<and> (\<exists>as. s' = s\<lparr>udp_pcbs := as\<rparr> \<and> set as = set (udp_pcbs s) \<and> length as = length (udp_pcbs s))
      \<and> udp_choice broadcast src_ip dst_ip src dest s' = r"
  proof (cases "List.find ?P (udp_pcbs s)")
    case None
    then have "r = udp_choice broadcast src_ip dst_ip src dest s" "s' = s"
      using assms by (auto simp: udp_find_def udp_search_result udp_choice_def split: option.splits)
    then show ?thesis by (intro conjI exI [of _ "udp_pcbs s"]) simp_all
  next
    case (Some a)
    note a = find_in [OF Some]
    have "udp_choice broadcast src_ip dst_ip src dest s = Some a" by (simp add: udp_choice_def Some)
    moreover have "r = Some a" "s' = s\<lparr>udp_pcbs := a # remove1 a (udp_pcbs s)\<rparr>"
      using assms Some by (auto simp: udp_find_def udp_search_result)
    moreover have "insert a (set (remove1 a (udp_pcbs s))) = set (udp_pcbs s)"
      using a set_remove1_subset [of a "udp_pcbs s"] by auto (metis in_set_remove1)
    moreover have "length (a # remove1 a (udp_pcbs s)) = length (udp_pcbs s)"
      using a length_pos_if_in_set [of a "udp_pcbs s"] by (simp add: length_remove1)
    ultimately show ?thesis using a by (auto simp: udp_choice_def)
  qed
  then show "r = udp_choice broadcast src_ip dst_ip src dest s" "\<exists>as. s' = s\<lparr>udp_pcbs := as\<rparr> \<and> set as = set (udp_pcbs s) \<and> length as = length (udp_pcbs s)"
    "udp_choice broadcast src_ip dst_ip src dest s' = r" by blast+
qed

text \<open>A buffer without the first bytes of its data.\<close>

definition without :: "nat \<Rightarrow> buf \<Rightarrow> buf" where
  "without n b = b\<lparr>front := (if has_room (btype b) then front b @ take n (body b) else front b), body := drop n (body b)\<rparr>"

lemma without_header:
  assumes "n \<le> length (body b)"
  shows "chain_header (- int n) (b # bs) = Some (without n b # bs)"
  using assms by (cases "n = 0") (auto simp: chain_header_def buf_header_def without_def)

lemma without_again: "without m (without n b) = without (n + m) b"
  by (simp add: without_def add.commute flip: take_add)

lemma without_body [simp]: "body (without n b) = drop n (body b)" "btype (without n b) = btype b"
  by (simp_all add: without_def)

lemma without_restored:
  assumes "has_room (btype b)" "n \<le> length (body b)"
  shows "chain_header (int n) (without n b # bs) = Some (b # bs)"
  using assms by (auto simp: chain_header_def buf_header_def without_def Let_def min_absorb2)

lemma contents_without: "n \<le> length (body b) \<Longrightarrow> contents (without n b # bs) = drop n (contents (b # bs))"
  by (simp add: contents_def)

lemma word16_drop: "n + i + 2 \<le> length xs \<Longrightarrow> word16 (drop n xs) i = word16 xs (n + i)"
  by (simp add: word16_def add.assoc)

text \<open>A datagram whose headers are in its first buffer.\<close>

lemma udp_input_headers:
  assumes "hlen = unat (IPH_HL (body b)) * 4" "hlen + 8 \<le> length (body b)" "length (contents (b # bs)) < 65536"
    and "dest = ntohs (word16 (body b) (hlen + 2))" "src = ntohs (word16 (body b) hlen)"
    and "udp_find (ip_addr_isbroadcast (IPH_DEST (body b)) (netif_list s ! n)) (IPH_SRC (body b)) (IPH_DEST (body b)) src dest n s = (pcb, s')"
  shows "udp_input (b # bs) n s =
    (if pcb = None \<and> ip_addr (netif_list s' ! n) \<noteq> IPH_DEST (body b) then Some (log_op (Free_chain (without hlen b # bs)) s')
     else let q = without (hlen + 8) b # bs in
       case pcb of
         Some a \<Rightarrow> if udp_recv_set (udp_mem s' a) then Some (log_op (Udp_callback a q (IPH_SRC (body b)) src) s') else Some (log_op (Free_chain q) s')
       | None \<Rightarrow>
           if \<not> ip_addr_isbroadcast (IPH_DEST (body b)) (netif_list s ! n) \<and> \<not> ip_addr_ismulticast (IPH_DEST (body b))
           then let p = (case chain_header (int (hlen + 8)) q of Some q \<Rightarrow> q | None \<Rightarrow> q) in
             map_option (log_op (Free_chain p)) (icmp_dest_unreach p ICMP_DUR_PORT s')
           else Some (log_op (Free_chain q) s'))"
proof -
  have l: "hlen \<le> length (body b)" "8 \<le> length (body (without hlen b))" using assms(2) by simp_all
  have "unat (chain_len (b # bs)) = length (contents (b # bs))" using assms(3) by (simp add: chain_len_def unat_of_nat)
  moreover have "length (body b) \<le> length (contents (b # bs))" by (simp add: contents_def)
  ultimately have c: "\<not> unat (chain_len (b # bs)) < hlen + 8" using assms(2) by simp
  have f: "\<not> length (body (without hlen b)) < 4" using l(2) by simp
  have w: "word16 (body (without hlen b)) 0 = word16 (body b) hlen" "word16 (body (without hlen b)) 2 = word16 (body b) (hlen + 2)"
    using assms(2) by (simp_all add: word16_drop)
  have u: "chain_header (- int 8) (without hlen b # bs) = Some (without (hlen + 8) b # bs)"
    using without_header [OF l(2), of bs] unfolding without_again .
  show ?thesis
    unfolding udp_input_def Let_def list.sel(1) assms(1) [symmetric] if_not_P [OF c] without_header [OF l(1)] option.case if_not_P [OF f]
      w assms(4,5) [symmetric] assms(6) prod.case u UDP_HLEN_def ..
qed

lemma udp_input_to:
  fixes s :: stack
  assumes "hlen = unat (IPH_HL (body b)) * 4" "hlen + 8 \<le> length (body b)" "length (contents (b # bs)) < 65536"
    and "dest = ntohs (word16 (body b) (hlen + 2))" "src = ntohs (word16 (body b) hlen)" "dest \<noteq> DHCP_CLIENT_PORT"
    and "udp_choice (ip_addr_isbroadcast (IPH_DEST (body b)) (netif_list s ! n)) (IPH_SRC (body b)) (IPH_DEST (body b)) src dest s = Some a"
  shows "\<exists>q s'. udp_input (b # bs) n s = Some s' \<and> contents q = drop (hlen + 8) (contents (b # bs))
    \<and> ip_ops s' = ip_ops s @ [if udp_recv_set (udp_mem s a) then Udp_callback a q (IPH_SRC (body b)) src else Free_chain q]
    \<and> udp_mem s' = udp_mem s \<and> set (udp_pcbs s') = set (udp_pcbs s)"
proof -
  obtain pcb t where f: "udp_find (ip_addr_isbroadcast (IPH_DEST (body b)) (netif_list s ! n)) (IPH_SRC (body b)) (IPH_DEST (body b)) src dest n s
      = (pcb, t)" by fastforce
  note r = udp_find_result [OF f assms(6)]
  then have "pcb = Some a" using assms(7) by simp
  then have i: "udp_input (b # bs) n s = Some (log_op (if udp_recv_set (udp_mem t a) then Udp_callback a (without (hlen + 8) b # bs) (IPH_SRC (body b)) src
      else Free_chain (without (hlen + 8) b # bs)) t)"
    unfolding udp_input_headers [OF assms(1-5) f] by (simp add: Let_def)
  from r(2) obtain as where "t = s\<lparr>udp_pcbs := as\<rparr>" "set as = set (udp_pcbs s)" by blast
  then show ?thesis using i contents_without [OF assms(2), of bs]
    by (intro exI [of _ "without (hlen + 8) b # bs"]) simp
qed

text \<open>
  C16: A datagram for a port other than the DHCP client's goes to the block that is connected to its sender, and
  if there is none to an unconnected one, with its data and the sender's address and
  port; without callback it is freed.  The blocks stay the same.
\<close>

theorem udp_input_delivers:
  fixes s :: stack
  assumes "hlen = unat (IPH_HL (body b)) * 4" "hlen + 8 \<le> length (body b)" "length (contents (b # bs)) < 65536"
    and "dest = ntohs (word16 (body b) (hlen + 2))" "src = ntohs (word16 (body b) hlen)" "dest \<noteq> DHCP_CLIENT_PORT"
    and "udp_choice (ip_addr_isbroadcast (IPH_DEST (body b)) (netif_list s ! n)) (IPH_SRC (body b)) (IPH_DEST (body b)) src dest s = Some a"
  shows "\<exists>q s'. udp_input (b # bs) n s = Some s' \<and> contents q = drop (hlen + 8) (contents (b # bs))
    \<and> ip_ops s' = ip_ops s @ [if udp_recv_set (udp_mem s a) then Udp_callback a q (IPH_SRC (body b)) src else Free_chain q]
    \<and> udp_mem s' = udp_mem s \<and> set (udp_pcbs s') = set (udp_pcbs s)"
  by (rule udp_input_to [OF assms])

text \<open>What no block wants is refused by ICMP, with the headers that were taken away in front of it again.\<close>

lemma udp_input_refuses:
  fixes s :: stack
  assumes "hlen = unat (IPH_HL (body b)) * 4" "hlen + 8 \<le> length (body b)" "length (contents (b # bs)) < 65536" "has_room (btype b)"
    and "dest = ntohs (word16 (body b) (hlen + 2))" "src = ntohs (word16 (body b) hlen)" "dest \<noteq> DHCP_CLIENT_PORT"
    and "udp_choice (ip_addr_isbroadcast (IPH_DEST (body b)) (netif_list s ! n)) (IPH_SRC (body b)) (IPH_DEST (body b)) src dest s = None"
    and "IPH_DEST (body b) = ip_addr (netif_list s ! n)"
    and "\<not> ip_addr_isbroadcast (IPH_DEST (body b)) (netif_list s ! n)" "\<not> ip_addr_ismulticast (IPH_DEST (body b))"
  shows "udp_input (b # bs) n s = map_option (log_op (Free_chain (b # bs))) (icmp_dest_unreach (b # bs) ICMP_DUR_PORT s)"
proof -
  obtain pcb t where f: "udp_find (ip_addr_isbroadcast (IPH_DEST (body b)) (netif_list s ! n)) (IPH_SRC (body b)) (IPH_DEST (body b)) src dest n s
      = (pcb, t)" by fastforce
  have "pcb = None" "t = s"
    using udp_find_result(1) [OF f assms(7)] f assms(7,8) by (auto simp: udp_find_def udp_search_result udp_choice_def split: option.splits)
  then show ?thesis
    unfolding udp_input_headers [OF assms(1-3,5,6) f] using without_restored [OF assms(4,2), of bs] assms(9-11) by (simp add: Let_def)
qed

text \<open>
  C33: A datagram that was sent to the address of this interface, for a port other than the DHCP client's, and that no block wants
  is answered (its headers are in the first buffer, which is not in ROM), when there is memory for the
  answer: one ICMP message, destination unreachable because of the port, with a checksum that verifies and the IP header and
  the next eight bytes of the datagram (\<open>icmp.c\<close> line 346), goes to its sender over the interface of the route there, in one
  piece.  Then the datagram is freed; without memory that is all.
\<close>

theorem udp_input_unreachable:
  fixes s :: stack
  assumes "hlen = unat (IPH_HL (body b)) * 4" "20 \<le> hlen" "hlen + 8 \<le> length (body b)" "length (contents (b # bs)) < 65536" "has_room (btype b)"
    and "dest = ntohs (word16 (body b) (hlen + 2))" "src = ntohs (word16 (body b) hlen)" "dest \<noteq> DHCP_CLIENT_PORT"
    and "udp_choice (ip_addr_isbroadcast (IPH_DEST (body b)) (netif_list s ! n)) (IPH_SRC (body b)) (IPH_DEST (body b)) src dest s = None"
    and "IPH_DEST (body b) = ip_addr (netif_list s ! n)"
    and "\<not> ip_addr_isbroadcast (IPH_DEST (body b)) (netif_list s ! n)" "\<not> ip_addr_ismulticast (IPH_DEST (body b))"
    and "ip_route (IPH_SRC (body b)) s = Some m" "mtu (netif_list s ! m) = 0 \<or> 56 \<le> unat (mtu (netif_list s ! m))"
  shows "\<exists>s'. udp_input (b # bs) n s = Some s'
    \<and> (if fst (try_alloc s)
       then \<exists>q msg. ip_ops s' = ip_ops s @ [Netif_output m [q] (IPH_SRC (body b)), Free_chain (b # bs)]
         \<and> body q = ip_header 0 56 (ip_id s) ICMP_TTL IP_PROTO_ICMP (ip_addr (netif_list s ! m)) (IPH_SRC (body b)) @ msg
         \<and> icmp_about ICMP_DUR ICMP_DUR_PORT (body b) msg
       else ip_ops s' = ip_ops s @ [Free_chain (b # bs)])"
proof -
  have l: "28 \<le> length (body b)" using assms(2,3) by simp
  from icmp_send_response_sends [OF l assms(13,14), of bs ICMP_DUR ICMP_DUR_PORT] obtain t where
    t: "icmp_dest_unreach (b # bs) ICMP_DUR_PORT s = Some t"
      "if fst (try_alloc s)
       then \<exists>q msg. ip_ops t = ip_ops s @ [Netif_output m [q] (IPH_SRC (body b))]
         \<and> body q = ip_header 0 56 (ip_id s) ICMP_TTL IP_PROTO_ICMP (ip_addr (netif_list s ! m)) (IPH_SRC (body b)) @ msg
         \<and> icmp_about ICMP_DUR ICMP_DUR_PORT (body b) msg
       else ip_ops t = ip_ops s" unfolding icmp_dest_unreach_def by blast
  have "udp_input (b # bs) n s = Some (log_op (Free_chain (b # bs)) t)"
    unfolding udp_input_refuses [OF assms(1,3-12)] t(1) by simp
  then show ?thesis using t(2) by (intro exI [of _ "log_op (Free_chain (b # bs)) t"]) (simp split: if_splits)
qed

lemma length_udp_header [simp]: "length (udp_header src dest len) = 8"
  by (simp add: udp_header_def)

lemma udp_header_fields:
  assumes "length h = hlen"
  shows "ntohs (word16 (h @ udp_header src dest len @ xs) hlen) = src"
    "ntohs (word16 (h @ udp_header src dest len @ xs) (hlen + 2)) = dest"
proof -
  have "word16 (h @ bytes16 (htons src) @ ys) hlen = htons src" for ys by (rule word16_at) (rule assms)
  then show "ntohs (word16 (h @ udp_header src dest len @ xs) hlen) = src" by (simp add: udp_header_def)
  have "word16 ((h @ bytes16 (htons src)) @ bytes16 (htons dest) @ ys) (hlen + 2) = htons dest" for ys
    by (rule word16_at) (simp add: assms)
  then show "ntohs (word16 (h @ udp_header src dest len @ xs) (hlen + 2)) = dest" by (simp add: udp_header_def)
qed

section \<open>Examples\<close>

definition greeting :: "u16 \<Rightarrow> buf" where
  "greeting port = \<lparr>btype = PBUF_POOL, front = [], body = ip_header 0 30 7 255 17 5 9 @ udp_header 1000 port 10 @ [104, 105]\<rparr>"

definition echo_host :: stack where
  "echo_host = (host 9)\<lparr>udp_mem := (\<lambda>_. udp_zero\<lparr>udp_local_port := 7, udp_recv_set := True\<rparr>), udp_pcbs := [0]\<rparr>"

lemma greeting_fields:
  "20 = unat (IPH_HL (body (greeting port))) * 4" "20 + 8 \<le> length (body (greeting port))" "length (contents [greeting port]) < 65536"
  "has_room (btype (greeting port))" "port = ntohs (word16 (body (greeting port)) (20 + 2))" "1000 = ntohs (word16 (body (greeting port)) 20)"
  "IPH_SRC (body (greeting port)) = 5" "IPH_DEST (body (greeting port)) = 9"
  using udp_header_fields [of "ip_header 0 30 7 255 17 5 9" 20 1000 port 10 "[104, 105]"]
  by (simp_all add: greeting_def contents_def)

lemma echo_host_address:
  "ip_addr (netif_list echo_host ! 0) = 9" "\<not> ip_addr_isbroadcast 9 (netif_list echo_host ! 0)" "\<not> ip_addr_ismulticast 9"
  by (simp_all add: echo_host_def host_def host_if_def ip_addr_isbroadcast_def NETIF_FLAG_BROADCAST_def ip_addr_ismulticast_def ntohl_def htonl_def)

theorem udp_input_delivers_witness:
  "\<exists>q s'. udp_input [greeting 7] 0 echo_host = Some s' \<and> contents q = [104, 105] \<and> ip_ops s' = [Udp_callback 0 q 5 1000]"
proof -
  have c: "udp_choice False 5 9 1000 7 echo_host = Some 0"
    by (simp add: udp_choice_def echo_host_def udp_local_match_def udp_remote_match_def ip_addr_isany_def udp_zero_def)
  have "udp_recv_set (udp_mem echo_host 0)" "ip_ops echo_host = []" by (simp_all add: echo_host_def host_def)
  moreover have "drop (20 + 8) (contents [greeting 7]) = [104, 105]" by (simp add: greeting_def contents_def)
  ultimately show ?thesis
    using udp_input_delivers [OF greeting_fields(1-3) [of 7] greeting_fields(5,6) [of 7], where s = echo_host and n = 0 and a = 0] c echo_host_address(2)
    by (auto simp: greeting_fields(7,8) DHCP_CLIENT_PORT_def)
qed

theorem udp_input_unreachable_witness:
  "\<exists>s' q msg. udp_input [greeting 8] 0 echo_host = Some s' \<and> ip_ops s' = [Netif_output 0 [q] 5, Free_chain [greeting 8]]
    \<and> body q = ip_header 0 56 0 255 1 9 5 @ msg \<and> take 2 msg = [3, 3] \<and> drop 8 msg = take 28 (body (greeting 8)) \<and> inet_chksum msg = 0"
proof -
  have c: "udp_choice False 5 9 1000 8 echo_host = None"
    by (simp add: udp_choice_def echo_host_def udp_local_match_def udp_zero_def)
  have r: "ip_route 5 echo_host = Some 0"
    by (simp add: ip_route_def echo_host_def host_def host_if_def netif_is_up_def NETIF_FLAG_UP_def ip_addr_netcmp_def)
  have e: "fst (try_alloc echo_host)" "ip_ops echo_host = []" "ip_id echo_host = 0" "mtu (netif_list echo_host ! 0) = 1500"
    by (simp_all add: try_alloc_def echo_host_def host_def host_if_def)
  have "\<exists>s'. udp_input [greeting 8] 0 echo_host = Some s'
    \<and> (if fst (try_alloc echo_host)
       then \<exists>q msg. ip_ops s' = ip_ops echo_host @ [Netif_output 0 [q] (IPH_SRC (body (greeting 8))), Free_chain [greeting 8]]
         \<and> body q = ip_header 0 56 (ip_id echo_host) ICMP_TTL IP_PROTO_ICMP (ip_addr (netif_list echo_host ! 0)) (IPH_SRC (body (greeting 8))) @ msg
         \<and> icmp_about ICMP_DUR ICMP_DUR_PORT (body (greeting 8)) msg
       else ip_ops s' = ip_ops echo_host @ [Free_chain [greeting 8]])"
    by (rule udp_input_unreachable [OF greeting_fields(1) _ greeting_fields(2-4) greeting_fields(5,6)])
      (use c r e echo_host_address in \<open>simp_all add: greeting_fields(7,8) DHCP_CLIENT_PORT_def\<close>)
  then show ?thesis unfolding if_P [OF e(1)] e(2,3) greeting_fields(7) echo_host_address(1)
    by (auto simp: icmp_about_def ICMP_DUR_def ICMP_DUR_PORT_def ICMP_TTL_def IP_PROTO_ICMP_def)
qed

end
