(* ===== verification/IpInput.thy ===== *)
theory IpInput
  imports Udp
begin

text \<open>
  \<open>ip_input\<close>: the way of a received packet from the network interface to the protocols.  TCP is
  the recorded operation \<open>Tcp_input\<close>.
\<close>

text \<open>\<open>pbuf_realloc\<close> on a chain: the data is cut off behind a number of bytes.\<close>

fun chain_cut :: "nat \<Rightarrow> chain \<Rightarrow> chain" where
  "chain_cut n [] = []"
| "chain_cut n (b # bs) =
     (if n \<le> length (body b) then [b\<lparr>body := take n (body b)\<rparr>] else b # chain_cut (n - length (body b)) bs)"

definition chain_realloc :: "chain \<Rightarrow> nat \<Rightarrow> chain" where
  "chain_realloc p n = (if length (contents p) \<le> n then p else chain_cut n p)"

text \<open>The interface that the packet is for: \<open>inp\<close> is asked first, then the others in the order of the list.\<close>

definition ip_accepts :: "u32 \<Rightarrow> netif \<Rightarrow> bool" where
  "ip_accepts dest n \<longleftrightarrow> netif_is_up n \<and> \<not> ip_addr_isany (ip_addr n) \<and> (dest = ip_addr n \<or> ip_addr_isbroadcast dest n)"

definition ip_input_netif :: "u32 \<Rightarrow> nat \<Rightarrow> stack \<Rightarrow> nat option" where
  "ip_input_netif dest inp s =
     List.find (\<lambda>i. ip_accepts dest (netif_list s ! i)) (inp # filter (\<lambda>i. i \<noteq> inp) [0..<length (netif_list s)])"

definition ip_deliver :: "chain \<Rightarrow> nat \<Rightarrow> stack \<Rightarrow> stack option" where
  "ip_deliver p inp s =
     (let iphdr = first p; (eaten, s) = raw_input p inp s in
      if eaten then Some s
      else if IPH_PROTO iphdr = ucast IP_PROTO_UDP then udp_input p inp s
      else if IPH_PROTO iphdr = ucast IP_PROTO_TCP then Some (log_op (Tcp_input p inp) s)
      else if IPH_PROTO iphdr = ucast IP_PROTO_ICMP then icmp_input p inp s
      else
        map_option (log_op (Free_chain p))
          (if \<not> ip_addr_isbroadcast (IPH_DEST iphdr) (netif_list s ! inp) \<and> \<not> ip_addr_ismulticast (IPH_DEST iphdr)
           then icmp_dest_unreach p ICMP_DUR_PROTO s else Some s))"

text \<open>
  The port of the DHCP test is read behind the header before anything is known of its length: outside the data of
  the buffer it is \<open>None\<close>.  So is a header that is shorter than the fields of one.
\<close>

definition ip_input :: "chain \<Rightarrow> nat \<Rightarrow> stack \<Rightarrow> (err_t \<times> stack) option" where
  "ip_input p0 inp s =
     (let iphdr = first p0; drop_it = (\<lambda>p s. Some (ERR_OK, log_op (Free_chain p) s)) in
      if length iphdr < IP_HLEN then None
      else if IPH_V iphdr \<noteq> 4 then drop_it p0 s
      else
        let hlen = unat (IPH_HL iphdr) * 4; len = ntohs (IPH_LEN iphdr) in
        if length iphdr < hlen \<or> chain_len p0 < len then drop_it p0 s
        else
          let p = chain_realloc p0 (unat len); netif = ip_input_netif (IPH_DEST iphdr) inp s in
          if netif = None \<and> IPH_PROTO iphdr = ucast IP_PROTO_UDP \<and> length iphdr < hlen + 4 then None
          else
            let dhcp = netif = None \<and> IPH_PROTO iphdr = ucast IP_PROTO_UDP \<and> ntohs (word16 iphdr (hlen + 2)) = DHCP_CLIENT_PORT in
            if \<not> dhcp \<and> (ip_addr_isbroadcast (IPH_SRC iphdr) (netif_list s ! inp) \<or> ip_addr_ismulticast (IPH_SRC iphdr))
            then drop_it p s
            else if netif = None \<and> \<not> dhcp then drop_it p s
            else if length (first p) < IP_HLEN then None
            else if IPH_OFFSET iphdr AND htons (IP_OFFMASK OR IP_MF) \<noteq> 0
            then do {
              (q, s) \<leftarrow> ip_reass p s;
              case q of
                None \<Rightarrow> Some (ERR_OK, s)
              | Some q \<Rightarrow> map_option (\<lambda>s. (ERR_OK, s)) (ip_deliver q inp s)
            }
            else map_option (\<lambda>s. (ERR_OK, s)) (ip_deliver p inp s))"

section \<open>Accepting a packet\<close>

lemma length_contents_Cons: "length (body b) \<le> length (contents (b # bs))"
  by (simp add: contents_def)

lemma contents_cut: "contents (chain_cut n p) = take n (contents p)"
  by (induction n p rule: chain_cut.induct) (auto simp: contents_def)

lemma contents_realloc [simp]: "contents (chain_realloc p n) = take n (contents p)"
  by (simp add: chain_realloc_def contents_cut)

lemma realloc_first:
  assumes "p \<noteq> []"
  shows "chain_realloc p n \<noteq> []" "first (chain_realloc p n) = take n (first p)" "length (chain_realloc p n) \<le> length p"
    "btype (hd (chain_realloc p n)) = btype (hd p)"
proof -
  have l: "length (chain_cut n p) \<le> length p" for n p by (induction n p rule: chain_cut.induct) auto
  obtain b bs where p: "p = b # bs" using assms by (cases p) auto
  have "first (chain_realloc p n) = take n (first p)"
    using length_contents_Cons [of b bs] by (auto simp: chain_realloc_def p)
  then show "chain_realloc p n \<noteq> []" "first (chain_realloc p n) = take n (first p)" "length (chain_realloc p n) \<le> length p"
    "btype (hd (chain_realloc p n)) = btype (hd p)"
    using assms l by (auto simp: chain_realloc_def p)
qed

lemma htons_and: "htons (a AND b) = htons a AND htons b"
  by (auto intro!: bit_word_eqI simp: htons_bit bit_simps)

lemma htons_or: "htons (a OR b) = htons a OR htons b"
  by (auto intro!: bit_word_eqI simp: htons_bit bit_simps)

lemma is_fragment: "IPH_OFFSET x AND htons (IP_OFFMASK OR IP_MF) \<noteq> 0 \<longleftrightarrow> frag_off x \<noteq> 0 \<or> frag_more x"
proof -
  have "IPH_OFFSET x AND htons (IP_OFFMASK OR IP_MF) = htons (ntohs (IPH_OFFSET x) AND (IP_OFFMASK OR IP_MF))" by (simp add: htons_and)
  moreover have "htons w = 0 \<longleftrightarrow> w = 0" for w by (metis htons_0(1) ntohs_htons(1))
  moreover have "w AND (IP_OFFMASK OR IP_MF) = 0 \<longleftrightarrow> w AND IP_OFFMASK = 0 \<and> w AND IP_MF = 0" for w :: u16
    unfolding bit.conj_disj_distrib by (auto simp: bit_eq_iff bit_simps)
  ultimately show ?thesis by (simp add: frag_off_def frag_more_def unat_eq_zero)
qed

text \<open>A packet that the interface takes.\<close>

definition good_packet :: "chain \<Rightarrow> netif \<Rightarrow> nat \<Rightarrow> bool" where
  "good_packet p n len \<longleftrightarrow> p \<noteq> [] \<and> 20 \<le> length (first p) \<and> 20 \<le> len \<and> len \<le> length (contents p) \<and> length (contents p) < 65536
     \<and> IPH_V (first p) = 4 \<and> IPH_HL (first p) = 5 \<and> IPH_LEN (first p) = htons (of_nat len)
     \<and> ip_accepts (IPH_DEST (first p)) n
     \<and> \<not> ip_addr_isbroadcast (IPH_SRC (first p)) n \<and> \<not> ip_addr_ismulticast (IPH_SRC (first p))"

lemma ip_input_good:
  assumes "good_packet p (netif_list s ! inp) len"
  shows "ip_input p inp s =
    (if frag_off (first p) \<noteq> 0 \<or> frag_more (first p)
     then do {
       (q, s) \<leftarrow> ip_reass (chain_realloc p len) s;
       case q of None \<Rightarrow> Some (ERR_OK, s) | Some q \<Rightarrow> map_option (\<lambda>s. (ERR_OK, s)) (ip_deliver q inp s)
     }
     else map_option (\<lambda>s. (ERR_OK, s)) (ip_deliver (chain_realloc p len) inp s))"
proof -
  note g = assms [unfolded good_packet_def]
  have len: "unat (of_nat len :: u16) = len" using g by (simp add: unat_of_nat)
  have "unat (chain_len p) = length (contents p)" using g by (simp add: chain_len_def unat_of_nat)
  then have l: "\<not> chain_len p < of_nat len" using g len by (simp add: word_less_nat_alt)
  have "ip_input_netif (IPH_DEST (first p)) inp s = Some inp" using g by (simp add: ip_input_netif_def)
  moreover have "first (chain_realloc p len) = take len (first p)" by (rule realloc_first(2)) (use g in simp)
  moreover have "\<not> min (length (first p)) len < 20" using g by (simp add: min_def)
  ultimately show ?thesis
    using g l len unfolding ip_input_def Let_def is_fragment by (simp add: IP_HLEN_def)
qed

section \<open>Receiving\<close>

fun receive :: "nat \<Rightarrow> chain list \<Rightarrow> stack \<Rightarrow> stack option" where
  "receive inp [] s = Some s"
| "receive inp (p # ps) s = do { (e, s) \<leftarrow> ip_input p inp s; receive inp ps s }"

lemma feed_length: "feed ps s = Some (rs, t) \<Longrightarrow> length rs = length ps"
  by (induction ps arbitrary: s rs) (auto simp: bind_eq_Some_conv)

lemma receive_fragments:
  "list_all2 (\<lambda>p p'. \<exists>len. good_packet p (N ! inp) len \<and> (frag_off (first p) \<noteq> 0 \<or> frag_more (first p)) \<and> p' = chain_realloc p len) qs ps \<Longrightarrow>
    feed ps s = Some (replicate n None @ [Some q], t) \<Longrightarrow> steady N ps s \<Longrightarrow> receive inp qs s = ip_deliver q inp t"
proof (induction arbitrary: s n rule: list_all2_induct)
  case (Cons p qs p' ps)
  from Cons.prems(1) obtain r u rs where r: "ip_reass p' s = Some (r, u)" "feed ps u = Some (rs, t)" "r # rs = replicate n None @ [Some q]"
    by (auto simp: bind_eq_Some_conv)
  have st: "netif_list s = N" "steady N ps u" using Cons.prems(2) by (simp_all add: steady_Cons [OF r(1)])
  have i: "ip_input p inp s = (case r of None \<Rightarrow> Some (ERR_OK, u) | Some q \<Rightarrow> map_option (\<lambda>s. (ERR_OK, s)) (ip_deliver q inp u))"
    using Cons.hyps(1) ip_input_good [of p s inp] r(1) by (auto simp: st(1))
  show ?case
  proof (cases n)
    case 0
    then have "r = Some q" "rs = []" using r(3) by simp_all
    moreover have "ps = []" using feed_length [OF r(2)] \<open>rs = []\<close> by simp
    ultimately show ?thesis using i r(2) Cons.hyps(2) by (cases "ip_deliver q inp t") auto
  next
    case (Suc m)
    then have "r = None" "rs = replicate m None @ [Some q]" using r(3) by simp_all
    then show ?thesis using i Cons.IH [of u m] r(2) st(2) by simp
  qed
qed simp

lemma raw_nobody: "raw_pcbs s = [] \<Longrightarrow> raw_input p n s = (False, s)"
  by (simp add: raw_input_def)

lemma deliver_udp:
  assumes "raw_pcbs s = []" "IPH_PROTO (first p) = ucast IP_PROTO_UDP"
  shows "ip_deliver p inp s = udp_input p inp s"
  using assms by (simp add: ip_deliver_def raw_nobody)

text \<open>What is read in a header depends on its twenty bytes alone.\<close>

lemma header_eq:
  assumes "take 20 xs = take 20 ys" "20 \<le> length xs" "20 \<le> length ys"
  shows "IPH_V xs = IPH_V ys" "IPH_HL xs = IPH_HL ys" "IPH_LEN xs = IPH_LEN ys" "IPH_ID xs = IPH_ID ys" "IPH_OFFSET xs = IPH_OFFSET ys"
    "IPH_PROTO xs = IPH_PROTO ys" "IPH_SRC xs = IPH_SRC ys" "IPH_DEST xs = IPH_DEST ys" "frag_off xs = frag_off ys" "frag_more xs = frag_more ys"
proof -
  note x = header_take [OF assms(2)] and y = header_take [OF assms(3)]
  show "IPH_V xs = IPH_V ys" "IPH_HL xs = IPH_HL ys" "IPH_LEN xs = IPH_LEN ys" "IPH_ID xs = IPH_ID ys" "IPH_OFFSET xs = IPH_OFFSET ys"
    "IPH_PROTO xs = IPH_PROTO ys" "IPH_SRC xs = IPH_SRC ys" "IPH_DEST xs = IPH_DEST ys"
    using x y assms(1) by simp_all
  then show "frag_off xs = frag_off ys" "frag_more xs = frag_more ys" by (simp_all add: frag_off_def frag_more_def)
qed

lemma first_is_prefix: "p \<noteq> [] \<Longrightarrow> k \<le> length (first p) \<Longrightarrow> take k (first p) = take k (contents p)"
  by (cases p) (auto simp: contents_def)

text \<open>
  A frame and the packet that arrives: the same bytes, perhaps padded, the headers in the first buffer.
\<close>

definition carried :: "ip_op \<Rightarrow> chain \<Rightarrow> bool" where
  "carried x q \<longleftrightarrow> (\<exists>n c d pad. x = Netif_output n c d \<and> contents q = contents c @ pad)
     \<and> q \<noteq> [] \<and> 28 \<le> length (first q) \<and> length (contents q) < 65536"

text \<open>A fragment that arrives.\<close>

lemma fragment_arrives:
  assumes "carried (Netif_output n [link, \<lparr>btype = PBUF_REF, front = [], body = frag_bytes hdr 0 (off, mf, piece) @ pad\<rparr>] d) q" "body link = []"
    and "length hdr = 20" "off mod 8 = 0" "off < 65536" "length piece + 20 < 65536"
  defines "p \<equiv> chain_realloc q (length piece + 20)"
  shows "q \<noteq> []" "20 \<le> length (first q)" "length piece + 20 \<le> length (contents q)" "length (contents q) < 65536"
    "p \<noteq> []" "length p \<le> length q" "20 \<le> length (first p)" "drop 20 (contents p) = piece" "min 28 (length piece + 20) \<le> length (first p)"
    and "x \<in> {first q, first p} \<Longrightarrow> frag_off x = off \<and> frag_more x = mf \<and> IPH_LEN x = htons (of_nat (length piece + 20))
      \<and> IPH_V x = IPH_V hdr \<and> IPH_HL x = IPH_HL hdr \<and> IPH_ID x = IPH_ID hdr \<and> IPH_PROTO x = IPH_PROTO hdr
      \<and> IPH_SRC x = IPH_SRC hdr \<and> IPH_DEST x = IPH_DEST hdr"
proof -
  let ?f = "frag_bytes hdr 0 (off, mf, piece)"
  from assms(1,2) obtain pad' where q: "contents q = ?f @ pad'" "q \<noteq> []" "28 \<le> length (first q)" "length (contents q) < 65536"
    by (auto simp: carried_def contents_def)
  have f: "length ?f = 20 + length piece" "drop 20 ?f = piece" using assms(3) by (simp_all add: frag_bytes_def Let_def)
  show "q \<noteq> []" "20 \<le> length (first q)" "length piece + 20 \<le> length (contents q)" "length (contents q) < 65536"
    using q f by simp_all
  note r = realloc_first [OF q(2), of "length piece + 20", folded p_def]
  show "p \<noteq> []" "length p \<le> length q" by (rule r)+
  show p20: "20 \<le> length (first p)" "min 28 (length piece + 20) \<le> length (first p)" unfolding r(2) using q(3) by auto
  have "contents p = ?f" using q(1) f(1) by (simp add: p_def)
  then show "drop 20 (contents p) = piece" using f(2) by simp
  note b = frag_bytes_reads [OF assms(3-6), of _ mf "[]", OF refl, unfolded append_Nil2]
  have "take 20 (first q) = take 20 ?f" using first_is_prefix [OF q(2), of 20] q(1,3) f(1) by simp
  moreover have "take 20 (first p) = take 20 ?f" using r(2) \<open>take 20 (first q) = take 20 ?f\<close> by (simp add: min_absorb1)
  ultimately have e: "take 20 x = take 20 ?f" "20 \<le> length x" if "x \<in> {first q, first p}" for x using that p20 q(3) by auto
  have l: "20 \<le> length ?f" using f(1) by simp
  show "frag_off x = off \<and> frag_more x = mf \<and> IPH_LEN x = htons (of_nat (length piece + 20))
      \<and> IPH_V x = IPH_V hdr \<and> IPH_HL x = IPH_HL hdr \<and> IPH_ID x = IPH_ID hdr \<and> IPH_PROTO x = IPH_PROTO hdr
      \<and> IPH_SRC x = IPH_SRC hdr \<and> IPH_DEST x = IPH_DEST hdr" if "x \<in> {first q, first p}"
    using header_eq [OF e [OF that] l] b by simp
qed

text \<open>All the fragments of a packet.\<close>

lemma fragments_arrive:
  assumes hdr: "length hdr = 20" "IPH_HL hdr = 5" "IPH_V hdr = 4"
    and step: "8 \<le> step" "step \<le> cap" "step mod 8 = 0" and xs: "length xs + 20 < 65536" "cap < length xs" "L = frag_list cap step 0 xs"
    and fs: "list_all2 (\<lambda>f l. (\<exists>pad. f = frag_bytes hdr 0 l @ pad) \<and> Q f) fs L"
    and qs: "list_all2 carried (map (\<lambda>f. Netif_output n [link, \<lparr>btype = PBUF_REF, front = [], body = f\<rparr>] d) fs) qs" "body link = []"
    and small: "(\<Sum>q\<leftarrow>qs. length q) \<le> IP_REASS_MAX_PBUFS"
    and N: "ip_accepts (IPH_DEST hdr) N" "\<not> ip_addr_isbroadcast (IPH_SRC hdr) N" "\<not> ip_addr_ismulticast (IPH_SRC hdr)"
  defines "ds \<equiv> map (snd \<circ> snd) L" and "ps \<equiv> map2 (\<lambda>q l. chain_realloc q (length (snd (snd l)) + 20)) qs L"
  shows "fragments ds ps" "concat ds = xs" "length ps = length qs" "(\<Sum>p\<leftarrow>ps. length p) \<le> (\<Sum>q\<leftarrow>qs. length q)"
    "28 \<le> length (first (ps ! 0))"
    "IPH_ID (first (ps ! 0)) = IPH_ID hdr \<and> IPH_PROTO (first (ps ! 0)) = IPH_PROTO hdr \<and> IPH_SRC (first (ps ! 0)) = IPH_SRC hdr
      \<and> IPH_DEST (first (ps ! 0)) = IPH_DEST hdr \<and> IPH_HL (first (ps ! 0)) = 5"
    "k < length qs \<Longrightarrow> \<exists>len. good_packet (qs ! k) N len \<and> (frag_off (first (qs ! k)) \<noteq> 0 \<or> frag_more (first (qs ! k))) \<and> ps ! k = chain_realloc (qs ! k) len"
proof -
  have st: "0 < step" using step(1) by simp
  have len: "length fs = length L" "length qs = length L" using list_all2_lengthD [OF fs] list_all2_lengthD [OF qs(1)] by simp_all
  then show lp: "length ps = length qs" by (simp add: ps_def)
  have two: "2 \<le> length L"
  proof -
    have "frag_list cap step 0 xs = (0, True, take step xs) # frag_list cap step (0 + step) (drop step xs)"
      using xs(2) st by (subst frag_list.simps) simp
    moreover have "frag_list cap step (0 + step) (drop step xs) \<noteq> []" using xs(2) step(2) by (subst frag_list.simps) simp
    ultimately show ?thesis unfolding xs(3) by (cases "frag_list cap step (0 + step) (drop step xs)") simp_all
  qed
  show "concat ds = xs" unfolding ds_def xs(3) by (rule frag_list_concat [OF st])
  then have total: "data_len ds = length xs" by (simp add: data_len_def)
  have p: "ps ! k = chain_realloc (qs ! k) (length (ds ! k) + 20)" if "k < length L" for k
    using that len by (simp add: ps_def ds_def)
  have k: "qs ! k \<noteq> []" "20 \<le> length (first (qs ! k))" "length (ds ! k) + 20 \<le> length (contents (qs ! k))" "length (contents (qs ! k)) < 65536"
    "ps ! k \<noteq> []" "length (ps ! k) \<le> length (qs ! k)" "20 \<le> length (first (ps ! k))" "drop 20 (contents (ps ! k)) = ds ! k"
    "min 28 (length (ds ! k) + 20) \<le> length (first (ps ! k))" "ds ! k \<noteq> []" "k + 1 < length L \<Longrightarrow> length (ds ! k) = step"
    "\<And>x. x \<in> {first (qs ! k), first (ps ! k)} \<Longrightarrow> frag_off x = k * step \<and> (frag_more x \<longleftrightarrow> k + 1 < length L) \<and> IPH_LEN x = htons (of_nat (length (ds ! k) + 20))
      \<and> IPH_V x = IPH_V hdr \<and> IPH_HL x = IPH_HL hdr \<and> IPH_ID x = IPH_ID hdr \<and> IPH_PROTO x = IPH_PROTO hdr
      \<and> IPH_SRC x = IPH_SRC hdr \<and> IPH_DEST x = IPH_DEST hdr"
    if kl: "k < length L" for k
  proof -
    obtain off mf piece where l: "L ! k = (off, mf, piece)" by (cases "L ! k")
    have n: "off = k * step" "mf \<longleftrightarrow> k + 1 < length L" "piece \<noteq> []" "off + length piece \<le> length xs" "mf \<longrightarrow> length piece = step"
      using frag_list_nth [OF st step(2), of k 0 xs] kl l by (auto simp: xs(3))
    obtain pad where f: "fs ! k = frag_bytes hdr 0 (off, mf, piece) @ pad" using list_all2_nthD2 [OF fs kl] l by auto
    have c: "carried (Netif_output n [link, \<lparr>btype = PBUF_REF, front = [], body = frag_bytes hdr 0 (off, mf, piece) @ pad\<rparr>] d) (qs ! k)"
      using list_all2_nthD [OF qs(1), of k] kl len f by simp
    have b: "off mod 8 = 0" "off < 65536" "length piece + 20 < 65536" using n step(3) xs(1) by auto
    have d: "ds ! k = piece" using kl l by (simp add: ds_def)
    note a = fragment_arrives [OF c qs(2) hdr(1) b]
    show "qs ! k \<noteq> []" "20 \<le> length (first (qs ! k))" "length (ds ! k) + 20 \<le> length (contents (qs ! k))" "length (contents (qs ! k)) < 65536"
      "ps ! k \<noteq> []" "length (ps ! k) \<le> length (qs ! k)" "20 \<le> length (first (ps ! k))" "drop 20 (contents (ps ! k)) = ds ! k"
      "min 28 (length (ds ! k) + 20) \<le> length (first (ps ! k))" "ds ! k \<noteq> []" "k + 1 < length L \<Longrightarrow> length (ds ! k) = step"
      using a(1-9) n(2,3,5) unfolding p [OF kl] d by simp_all
    fix x assume "x \<in> {first (qs ! k), first (ps ! k)}"
    then show "frag_off x = k * step \<and> (frag_more x \<longleftrightarrow> k + 1 < length L) \<and> IPH_LEN x = htons (of_nat (length (ds ! k) + 20))
      \<and> IPH_V x = IPH_V hdr \<and> IPH_HL x = IPH_HL hdr \<and> IPH_ID x = IPH_ID hdr \<and> IPH_PROTO x = IPH_PROTO hdr
      \<and> IPH_SRC x = IPH_SRC hdr \<and> IPH_DEST x = IPH_DEST hdr"
      using a(10) [of x] n(1,2) unfolding p [OF kl] d by simp
  qed
  have le: "length (qs ! k) \<le> IP_REASS_MAX_PBUFS" if "k < length L" for k
    using member_le_sum_list [of "length (qs ! k)" "map length qs"] that len small by simp
  have off: "k * step = data_len (take k ds)" if "k < length L" for k
    using frag_list_offset [OF st step(2), of k 0 xs] that unfolding data_len_def ds_def take_map xs(3) by simp
  have z: "0 < length L" using two by linarith
  show "fragments ds ps"
    unfolding fragments_def Let_def
  proof (intro conjI allI impI)
    show "ps \<noteq> []" "length ps = length ds" using lp len two by (auto simp: ds_def)
    show "data_len ds + 20 < 65536" using total xs(1) by simp
    fix k assume "k < length ps"
    then have kl: "k < length L" using lp len by simp
    show "ps ! k \<noteq> []" "20 \<le> length (first (ps ! k))" "drop 20 (contents (ps ! k)) = ds ! k" "ds ! k \<noteq> []" using k [OF kl] by simp_all
    show "length (ps ! k) < 256" using k(6) [OF kl] le [OF kl] by (simp add: IP_REASS_MAX_PBUFS_def)
    show "IPH_HL (first (ps ! k)) = 5" "IPH_LEN (first (ps ! k)) = htons (of_nat (length (ds ! k) + 20))"
      "frag_off (first (ps ! k)) = data_len (take k ds)" "frag_more (first (ps ! k)) \<longleftrightarrow> k + 1 < length ps"
      using k(12) [OF kl, of "first (ps ! k)"] hdr(2) off [OF kl] lp len by simp_all
    show "IP_ADDRESSES_AND_ID_MATCH (first (ps ! k)) (first (ps ! 0))"
      using k(12) [OF kl, of "first (ps ! k)"] k(12) [OF z, of "first (ps ! 0)"] by (simp add: IP_ADDRESSES_AND_ID_MATCH_def)
  qed
  show "(\<Sum>p\<leftarrow>ps. length p) \<le> (\<Sum>q\<leftarrow>qs. length q)"
    unfolding lengths_nth lp using k(6) len by (intro sum_list_mono) simp
  show "28 \<le> length (first (ps ! 0))" using k(9,11) [OF z] two step(1) by simp
  show "IPH_ID (first (ps ! 0)) = IPH_ID hdr \<and> IPH_PROTO (first (ps ! 0)) = IPH_PROTO hdr \<and> IPH_SRC (first (ps ! 0)) = IPH_SRC hdr
      \<and> IPH_DEST (first (ps ! 0)) = IPH_DEST hdr \<and> IPH_HL (first (ps ! 0)) = 5"
    using k(12) [OF z, of "first (ps ! 0)"] hdr(2) by simp
  show "\<exists>len. good_packet (qs ! k) N len \<and> (frag_off (first (qs ! k)) \<noteq> 0 \<or> frag_more (first (qs ! k))) \<and> ps ! k = chain_realloc (qs ! k) len"
    if "k < length qs" for k
  proof (intro exI conjI)
    have kl: "k < length L" using that len by simp
    note x = k(12) [OF kl, of "first (qs ! k)", simplified]
    show "good_packet (qs ! k) N (length (ds ! k) + 20)"
      using k(1-4) [OF kl] x hdr(2,3) N by (simp add: good_packet_def)
    show "ps ! k = chain_realloc (qs ! k) (length (ds ! k) + 20)" by (rule p [OF kl])
    show "frag_off (first (qs ! k)) \<noteq> 0 \<or> frag_more (first (qs ! k))" using x two st by (cases k) auto
  qed
qed

section \<open>From one program to the other\<close>

lemma udp_sendto_if_packet:
  fixes s :: stack
  assumes "has_room (btype b)" "28 \<le> length (front b)" "length (contents (b # bs)) + 28 < 65536"
    and "udp_local_port (udp_mem s a) = sp" "sp \<noteq> 0" "udp_local_ip (udp_mem s a) = 0"
    and P: "P = ip_header (udp_tos (udp_mem s a)) (of_nat (length (contents (b # bs)) + 28)) (ip_id s) (udp_ttl (udp_mem s a)) IP_PROTO_UDP
      (ip_addr (netif_list s ! n)) dst @ udp_header sp dp (of_nat (length (contents (b # bs)) + 8)) @ contents (b # bs)"
  shows "\<exists>q. q \<noteq> [] \<and> contents q = P \<and> first q = take 28 P @ body b
    \<and> udp_sendto_if a (b # bs) dst dp n s =
      (if mtu (netif_list s ! n) \<noteq> 0 \<and> unat (mtu (netif_list s ! n)) < length (contents (b # bs)) + 28
       then ip_frag q n dst (s\<lparr>ip_id := ip_id s + 1\<rparr>) else Some (netif_output n q dst (s\<lparr>ip_id := ip_id s + 1\<rparr>)))"
proof -
  let ?b = "b\<lparr>front := take (length (front b) - 8) (front b), body := drop (length (front b) - 8) (front b) @ body b\<rparr>"
  let ?u = "udp_header sp dp (of_nat (length (contents (b # bs)) + 8))"
  let ?c = "b\<lparr>front := take (length (front b) - 8) (front b), body := ?u @ body b\<rparr>"
  have h: "chain_header (int UDP_HLEN) (b # bs) = Some (?b # bs)"
    using assms(1,2) by (auto simp: chain_header_def buf_header_def UDP_HLEN_def Let_def)
  have "length (contents (?b # bs)) = length (contents (b # bs)) + 8" using assms(2) by (simp add: contents_def)
  then have w: "write_first 0 (udp_header sp dp (chain_len (?b # bs))) (?b # bs) = ?c # bs"
    using assms(2) by (simp add: chain_len_def write_first_def overwrite_def del: of_nat_add)
  have lc: "length (contents (?c # bs)) = length (contents (b # bs)) + 8" by (simp add: contents_def)
  define q where "q = ?c\<lparr>front := take (length (front ?c) - 20) (front ?c),
      body := ip_header (udp_tos (udp_mem s a)) (of_nat (length (contents (?c # bs)) + 20)) (ip_id s) (udp_ttl (udp_mem s a)) IP_PROTO_UDP
        (if ip_addr (netif_list s ! n) = 0 then ip_addr (netif_list s ! n) else ip_addr (netif_list s ! n)) dst @ body ?c\<rparr> # bs"
  have "udp_sendto_if a (b # bs) dst dp n s =
      ip_output_if (?c # bs) (ip_addr (netif_list s ! n)) (Some dst) (udp_ttl (udp_mem s a)) (udp_tos (udp_mem s a)) IP_PROTO_UDP n s"
    unfolding udp_sendto_if_def h using assms(4-6) w by (simp add: Let_def ip_addr_isany_def option.map_ident cong: map_option_cong)
  also have "\<dots> = (if mtu (netif_list s ! n) \<noteq> 0 \<and> unat (mtu (netif_list s ! n)) < length (contents (?c # bs)) + 20
       then ip_frag q n dst (s\<lparr>ip_id := ip_id s + 1\<rparr>) else Some (netif_output n q dst (s\<lparr>ip_id := ip_id s + 1\<rparr>)))"
    by (rule ip_output_if_header [OF refl _ _ _ q_def]) (use assms(1-3) lc in simp_all)
  finally have s: "udp_sendto_if a (b # bs) dst dp n s =
      (if mtu (netif_list s ! n) \<noteq> 0 \<and> unat (mtu (netif_list s ! n)) < length (contents (b # bs)) + 28
       then ip_frag q n dst (s\<lparr>ip_id := ip_id s + 1\<rparr>) else Some (netif_output n q dst (s\<lparr>ip_id := ip_id s + 1\<rparr>)))"
    unfolding lc add.assoc by simp
  have "of_nat (length (contents (?c # bs)) + 20) = (of_nat (length (contents (b # bs)) + 28) :: u16)" unfolding lc by simp
  then have "contents q = P" "first q = take 28 P @ body b"
    unfolding q_def P by (simp_all add: contents_def del: of_nat_add)
  then show ?thesis using s by (intro exI [of _ q]) (simp add: q_def)
qed

lemma datagram_arrives:
  fixes t :: stack
  assumes "q \<noteq> []" "28 \<le> length (first q)" "length (contents q) < 65536" "contents q = h @ udp_header sp dp u @ xs" "length h = 20"
    and "IPH_HL h = 5" "IPH_PROTO h = ucast IP_PROTO_UDP" "IPH_SRC h = src" "IPH_DEST h = dst"
    and "raw_pcbs t = []" "udp_choice (ip_addr_isbroadcast dst (netif_list t ! inp)) src dst sp dp t = Some d"
    and "udp_recv_set (udp_mem t d)" "dp \<noteq> DHCP_CLIENT_PORT"
  shows "\<exists>p t'. ip_deliver q inp t = Some t' \<and> ip_ops t' = ip_ops t @ [Udp_callback d p src sp] \<and> contents p = xs"
proof -
  obtain b bs where q: "q = b # bs" using assms(1) by (cases q) auto
  have b: "28 \<le> length (body b)" using assms(2) q by simp
  have t28: "take 28 (body b) = h @ udp_header sp dp u"
    using first_is_prefix [OF assms(1,2)] assms(4,5) q by simp
  have "take 20 (take 28 (body b)) = h" unfolding t28 using assms(5) by simp
  then have e: "take 20 (body b) = take 20 h" using assms(5) by simp
  have l: "20 \<le> length (body b)" "20 \<le> length h" using b assms(5) by simp_all
  note f = header_eq [OF e l]
  have body: "body b = h @ udp_header sp dp u @ drop 28 (body b)" using t28 append_take_drop_id [of 28 "body b"] by simp
  have hl: "20 = unat (IPH_HL (body b)) * 4" using f(2) assms(6) by simp
  have port: "dp = ntohs (word16 (body b) (20 + 2))" "sp = ntohs (word16 (body b) 20)"
    using udp_header_fields [OF assms(5), of sp dp u "drop 28 (body b)"] unfolding body [symmetric] by simp_all
  have d: "drop (20 + 8) (contents q) = xs" using assms(4,5) by simp
  have "ip_deliver q inp t = udp_input q inp t"
    by (rule deliver_udp [OF assms(10)]) (use f(6) assms(7) q in simp)
  moreover have "\<exists>p s'. udp_input (b # bs) inp t = Some s' \<and> contents p = drop (20 + 8) (contents (b # bs))
    \<and> ip_ops s' = ip_ops t @ [if udp_recv_set (udp_mem t d) then Udp_callback d p (IPH_SRC (body b)) sp else Free_chain p]
    \<and> udp_mem s' = udp_mem t \<and> set (udp_pcbs s') = set (udp_pcbs t)"
    by (rule udp_input_to [OF hl _ _ port assms(13)]) (use b assms(3,8,9,11) q f(7,8) in simp_all)
  ultimately show ?thesis using d assms(12) f(7) assms(8) unfolding q by auto
qed

lemma packet_received:
  fixes t :: stack
  assumes "carried (Netif_output n q d) p" "contents q = hdr @ udp_header sp dp u @ xs" "length xs + 28 < 65536"
    and hdr: "length hdr = 20" "IPH_HL hdr = 5" "IPH_V hdr = 4" "IPH_LEN hdr = htons (of_nat (length xs + 28))" "IPH_OFFSET hdr = 0"
      "IPH_PROTO hdr = ucast IP_PROTO_UDP" "IPH_SRC hdr = src" "IPH_DEST hdr = dst"
    and t: "ip_accepts dst (netif_list t ! inp)" "\<not> ip_addr_isbroadcast src (netif_list t ! inp)" "\<not> ip_addr_ismulticast src"
    and udp: "raw_pcbs t = []" "udp_choice (ip_addr_isbroadcast dst (netif_list t ! inp)) src dst sp dp t = Some a"
      "udp_recv_set (udp_mem t a)" "dp \<noteq> DHCP_CLIENT_PORT"
  shows "\<exists>r t'. receive inp [p] t = Some t' \<and> ip_ops t' = ip_ops t @ [Udp_callback a r src sp] \<and> contents r = xs"
proof -
  let ?P = "hdr @ udp_header sp dp u @ xs" and ?n = "length xs + 28"
  obtain pad where p: "contents p = ?P @ pad" "p \<noteq> []" "28 \<le> length (first p)" "length (contents p) < 65536"
    using assms(1,2) by (auto simp: carried_def)
  have lP: "length ?P = ?n" using hdr(1) by simp
  have "take 20 (first p) = take 20 hdr" using first_is_prefix [OF p(2), of 20] p(1,3) hdr(1) by simp
  moreover have "20 \<le> length (first p)" "20 \<le> length hdr" using p(3) hdr(1) by simp_all
  ultimately have f: "IPH_V (first p) = 4" "IPH_HL (first p) = 5" "IPH_LEN (first p) = htons (of_nat ?n)" "IPH_SRC (first p) = src"
      "IPH_DEST (first p) = dst" "frag_off (first p) = frag_off hdr" "frag_more (first p) = frag_more hdr"
    using header_eq [of "first p" hdr] hdr by simp_all
  have g: "good_packet p (netif_list t ! inp) ?n" using f p lP t by (simp add: good_packet_def)
  have nf: "\<not> (frag_off (first p) \<noteq> 0 \<or> frag_more (first p))" using f(6,7) hdr(5) by (simp add: frag_off_def frag_more_def)
  note r = realloc_first [OF p(2), of ?n]
  have c: "contents (chain_realloc p ?n) = ?P" using p(1) lP by simp
  have l: "28 \<le> length (first (chain_realloc p ?n))" "length (contents (chain_realloc p ?n)) < 65536"
    using r(2) p(3) c lP assms(3) by simp_all
  obtain q' t' where d: "ip_deliver (chain_realloc p ?n) inp t = Some t'" "ip_ops t' = ip_ops t @ [Udp_callback a q' src sp]" "contents q' = xs"
    using datagram_arrives [OF r(1) l c hdr(1,2,6-8) udp] by blast
  have "ip_input p inp t = Some (ERR_OK, t')" unfolding ip_input_good [OF g] if_not_P [OF nf] using d(1) by simp
  then show ?thesis using d(2,3) by (intro exI [of _ q'] exI [of _ t']) simp
qed

lemma list_all2_order: "list_all2 R qs ps \<Longrightarrow> set xs \<subseteq> {..<length qs} \<Longrightarrow> list_all2 R (map ((!) qs) xs) (map ((!) ps) xs)"
  by (induction xs) (auto simp: list_all2_nthD)

lemma fragments_received:
  fixes t :: stack
  assumes fs: "list_all2 (\<lambda>f l. (\<exists>pad. f = frag_bytes hdr 0 l @ pad) \<and> Q f) fs (frag_list cap step 0 (udp_header sp dp u @ ys))"
    and qs: "list_all2 carried (map (\<lambda>f. Netif_output n [link, \<lparr>btype = PBUF_REF, front = [], body = f\<rparr>] d) fs) qs" "body link = []"
    and step: "8 \<le> step" "step \<le> cap" "step mod 8 = 0" "length ys + 28 < 65536" "cap < length ys + 8"
    and hdr: "length hdr = 20" "IPH_HL hdr = 5" "IPH_V hdr = 4" "IPH_ID hdr = ident"
      "IPH_PROTO hdr = ucast IP_PROTO_UDP" "IPH_SRC hdr = src" "IPH_DEST hdr = dst"
    and t: "ip_accepts dst (netif_list t ! inp)" "\<not> ip_addr_isbroadcast src (netif_list t ! inp)" "\<not> ip_addr_ismulticast src"
    and udp: "raw_pcbs t = []" "udp_choice (ip_addr_isbroadcast dst (netif_list t ! inp)) src dst sp dp t = Some a"
      "udp_recv_set (udp_mem t a)" "dp \<noteq> DHCP_CLIENT_PORT"
    and room: "\<forall>r\<in>set (reassdatagrams t). \<not> (IPH_SRC (ipr_iphdr r) = src \<and> IPH_DEST (ipr_iphdr r) = dst \<and> IPH_ID (ipr_iphdr r) = ident)"
      "length (reassdatagrams t) < MEMP_NUM_REASSDATA" "unat (ip_reass_pbufcount t) + (\<Sum>q\<leftarrow>qs. length q) \<le> IP_REASS_MAX_PBUFS"
    and xs: "distinct xs" "set xs = {..<length qs}" "orderly {} xs"
  shows "\<exists>r t'. receive inp (map ((!) qs) xs) t = Some t' \<and> ip_ops t' = ip_ops t @ [Udp_callback a r src sp] \<and> contents r = ys"
proof -
  let ?d = "udp_header sp dp u @ ys" and ?N = "netif_list t ! inp"
  define ds where "ds = map (snd \<circ> snd) (frag_list cap step 0 ?d)"
  define ps where "ps = map2 (\<lambda>q l. chain_realloc q (length (snd (snd l)) + 20)) qs (frag_list cap step 0 ?d)"
  have l: "length ?d + 20 < 65536" "cap < length ?d" using step(4,5) by simp_all
  have small: "(\<Sum>q\<leftarrow>qs. length q) \<le> IP_REASS_MAX_PBUFS" using room(3) by simp
  have N: "ip_accepts (IPH_DEST hdr) ?N" "\<not> ip_addr_isbroadcast (IPH_SRC hdr) ?N" "\<not> ip_addr_ismulticast (IPH_SRC hdr)"
    using t hdr(6,7) by simp_all
  note a = fragments_arrive [OF hdr(1-3) step(1-3) l refl fs qs small N, folded ds_def ps_def]
  have first: "IP_ADDRESSES_AND_ID_MATCH x (first (ps ! 0)) \<longleftrightarrow> IPH_SRC x = src \<and> IPH_DEST x = dst \<and> IPH_ID x = ident" for x
    using a(6) hdr(4,6,7) by (simp add: IP_ADDRESSES_AND_ID_MATCH_def)
  have "set xs = {..<length ps}" "unat (ip_reass_pbufcount t) + (\<Sum>p\<leftarrow>ps. length p) \<le> IP_REASS_MAX_PBUFS"
    using xs(2) a(3,4) room(3) by simp_all
  from feed_in_turn [OF a(1) xs(1) this(1) xs(3) _ room(2) this(2)] room(1) obtain q where
    q: "steady (netif_list t) (map ((!) ps) xs) t" "feed (map ((!) ps) xs) t = Some (replicate (length ps - 1) None @ [Some q], t)" "whole ds ps q"
    by (auto simp: first)
  have "list_all2 (\<lambda>p p'. \<exists>len. good_packet p ?N len \<and> (frag_off (first p) \<noteq> 0 \<or> frag_more (first p)) \<and> p' = chain_realloc p len) qs ps"
    using a(3,7) by (intro list_all2_all_nthI) simp_all
  then have r: "receive inp (map ((!) qs) xs) t = ip_deliver q inp t"
    using receive_fragments [OF list_all2_order q(2,1)] xs(2) by simp
  let ?h = "take 20 (first (ps ! 0))"
  have lh: "length ?h = 20" using a(5) by simp
  then have g: "length (frag_header ?h 0 v) = 20" for v by simp
  have "length (concat ds) + 20 < 65536" using l(1) a(2) by simp
  then have w: "q \<noteq> []" "28 \<le> length (first q)" "length (contents q) < 65536" "contents q = frag_header ?h 0 (of_nat (data_len ds + 20)) @ udp_header sp dp u @ ys"
    using q(3) a(2,5) lh by (simp_all add: whole_def Let_def)
  have h: "IPH_HL (frag_header ?h 0 v) = 5" "IPH_PROTO (frag_header ?h 0 v) = ucast IP_PROTO_UDP" "IPH_SRC (frag_header ?h 0 v) = src" "IPH_DEST (frag_header ?h 0 v) = dst" for v
    using frag_header_fields(4,6,8,9) [of ?h 0 v "[]"] lh header_take [of "first (ps ! 0)"] a(5,6) hdr(5-7) by simp_all
  show ?thesis unfolding r by (rule datagram_arrives [OF w g h udp])
qed

text \<open>
  C4: What a program sends with \<open>udp_sendto_if\<close>, as one packet or as fragments, the program on the other
  host gets through its callback, byte by byte and with the sender's address and port, when the frames
  arrive, possibly padded, in an order that leaves no hole before an inserted fragment and the
  host has room for them.
\<close>

theorem udp_end_to_end:
  fixes s t :: stack
  assumes b: "has_room (btype b)" "28 \<le> length (front b)" "length (contents (b # bs)) + 28 < 65536"
    and pcb: "udp_local_port (udp_mem s a) = sp" "sp \<noteq> 0" "udp_local_ip (udp_mem s a) = 0"
    and m: "28 \<le> unat (mtu (netif_list s ! n))" "unat (mtu (netif_list s ! n)) \<le> IP_FRAG_MAX_MTU"
      "allocs s = []" "length (frag_buf s) = IP_FRAG_MAX_MTU"
    and src: "ip_addr (netif_list s ! n) = src"
    and t: "ip_accepts dst (netif_list t ! inp)" "\<not> ip_addr_isbroadcast src (netif_list t ! inp)" "\<not> ip_addr_ismulticast src"
    and udp: "raw_pcbs t = []" "udp_choice (ip_addr_isbroadcast dst (netif_list t ! inp)) src dst sp dp t = Some d"
      "udp_recv_set (udp_mem t d)" "dp \<noteq> DHCP_CLIENT_PORT"
    and room: "\<forall>r\<in>set (reassdatagrams t). \<not> (IPH_SRC (ipr_iphdr r) = src \<and> IPH_DEST (ipr_iphdr r) = dst \<and> IPH_ID (ipr_iphdr r) = htons (ip_id s))"
      "length (reassdatagrams t) < MEMP_NUM_REASSDATA"
  shows "\<exists>e s' out. udp_sendto_if a (b # bs) dst dp n s = Some (e, s') \<and> ip_ops s' = ip_ops s @ out
    \<and> (\<forall>qs xs. list_all2 carried out qs \<and> unat (ip_reass_pbufcount t) + (\<Sum>q\<leftarrow>qs. length q) \<le> IP_REASS_MAX_PBUFS
        \<and> distinct xs \<and> set xs = {..<length qs} \<and> orderly {} xs \<longrightarrow>
        (\<exists>q t'. receive inp (map ((!) qs) xs) t = Some t' \<and> ip_ops t' = ip_ops t @ [Udp_callback d q src sp]
          \<and> contents q = contents (b # bs)))"
proof -
  let ?n = "length (contents (b # bs))" and ?m = "mtu (netif_list s ! n)" and ?N = "netif_list t ! inp"
  define hdr where "hdr = ip_header (udp_tos (udp_mem s a)) (of_nat (?n + 28)) (ip_id s) (udp_ttl (udp_mem s a)) IP_PROTO_UDP src dst"
  define P where "P = hdr @ udp_header sp dp (of_nat (?n + 8)) @ contents (b # bs)"
  have hdr: "length hdr = 20" "IPH_HL hdr = 5" "IPH_V hdr = 4" "IPH_LEN hdr = htons (of_nat (?n + 28))" "IPH_ID hdr = htons (ip_id s)" "IPH_OFFSET hdr = 0"
    "IPH_PROTO hdr = ucast IP_PROTO_UDP" "IPH_SRC hdr = src" "IPH_DEST hdr = dst"
    using ip_header_fields(1-9) [where xs = "[]"] by (simp_all add: hdr_def)
  have P: "length P = ?n + 28" "take 20 P = hdr" "drop 20 P = udp_header sp dp (of_nat (?n + 8)) @ contents (b # bs)"
    using hdr(1) by (simp_all add: P_def)
  let ?s = "s\<lparr>ip_id := ip_id s + 1\<rparr>"
  obtain q where q: "q \<noteq> []" "contents q = P" "first q = take 28 P @ body b"
    and send: "udp_sendto_if a (b # bs) dst dp n s = (if ?m \<noteq> 0 \<and> unat ?m < ?n + 28 then ip_frag q n dst ?s else Some (netif_output n q dst ?s))"
    using udp_sendto_if_packet [OF b pcb P_def [unfolded hdr_def src [symmetric]]] by blast
  show ?thesis
  proof (cases "unat ?m < ?n + 28")
    case False
    obtain es where "snd (netif_output n q dst ?s) = ?s\<lparr>answers := es, ip_ops := ip_ops s @ [Netif_output n q dst]\<rparr>"
      using netif_output_log [of n q dst ?s] by auto
    then obtain e s' where s': "udp_sendto_if a (b # bs) dst dp n s = Some (e, s')" "ip_ops s' = ip_ops s @ [Netif_output n q dst]"
      unfolding send using False by (cases "netif_output n q dst ?s") auto
    have "\<exists>q t'. receive inp (map ((!) qs) xs) t = Some t' \<and> ip_ops t' = ip_ops t @ [Udp_callback d q src sp] \<and> contents q = contents (b # bs)"
      if h: "list_all2 carried [Netif_output n q dst] qs" "distinct xs" "set xs = {..<length qs}" for qs xs
    proof -
      obtain p where p: "qs = [p]" "carried (Netif_output n q dst) p" using h(1) by (auto simp: list_all2_Cons1)
      have "length xs = 1" using distinct_card [OF h(2)] h(3) p(1) by simp
      then have "xs = [0]" using h(3) p(1) by (cases xs) auto
      then have m: "map ((!) qs) xs = [p]" using p(1) by simp
      show ?thesis unfolding m
        by (rule packet_received [OF p(2) q(2) [unfolded P_def] b(3) hdr(1-4,6-9) t udp])
    qed
    then show ?thesis using s' by blast
  next
    case True
    let ?cap = "unat ?m - 20" and ?link = "ram_buf (garbage ?s) PBUF_LINK 0"
    have c: "28 \<le> unat (mtu (netif_list ?s ! n))" "unat (mtu (netif_list ?s ! n)) \<le> IP_FRAG_MAX_MTU" "allocs ?s = []"
      "length (frag_buf ?s) = IP_FRAG_MAX_MTU" "20 \<le> length (first q)" "20 < length (contents q)" "length (contents q) < 65536"
      "?cap = unat (mtu (netif_list ?s ! n)) - 20"
      using m q P(1) b(3) by simp_all
    have tq: "take 20 (first q) = hdr" using first_is_prefix [OF q(1), of 20] c(5) q(2) P(2) by simp
    then have "IPH_OFFSET (first q) = 0" using header_take(5) [OF c(5)] hdr(6) by simp
    from ip_frag_frames [OF c(1-4) q(1) c(5) this c(6-8) refl, of dst] obtain fs buf where
      fs: "list_all2 (\<lambda>f l. (\<exists>pad. f = frag_bytes hdr 0 l @ pad) \<and> length f \<le> unat ?m) fs (frag_list ?cap (?cap div 8 * 8) 0 (drop 20 P))"
        "ip_frag q n dst ?s = Some (ERR_OK, ?s\<lparr>frag_buf := buf, answers := drop (length fs) (answers ?s), ip_ops := ip_ops ?s
          @ map (\<lambda>f. Netif_output n [?link, \<lparr>btype = PBUF_REF, front = [], body = f\<rparr>] dst) fs\<rparr>)"
      unfolding tq q(2) by auto
    have link: "body ?link = []" by (simp add: ram_buf_def Let_def)
    have st: "8 \<le> ?cap div 8 * 8" "?cap div 8 * 8 \<le> ?cap" "?cap div 8 * 8 mod 8 = 0" "?cap < ?n + 8" using m(1) True by (simp_all add: div_greater_zero_iff)
    have "?m \<noteq> 0" using m(1) by auto
    then have "udp_sendto_if a (b # bs) dst dp n s = ip_frag q n dst ?s" unfolding send using True by simp
    moreover have "\<exists>q t'. receive inp (map ((!) qs) xs) t = Some t' \<and> ip_ops t' = ip_ops t @ [Udp_callback d q src sp] \<and> contents q = contents (b # bs)"
      if "list_all2 carried (map (\<lambda>f. Netif_output n [?link, \<lparr>btype = PBUF_REF, front = [], body = f\<rparr>] dst) fs) qs"
        "unat (ip_reass_pbufcount t) + (\<Sum>q\<leftarrow>qs. length q) \<le> IP_REASS_MAX_PBUFS" "distinct xs" "set xs = {..<length qs}" "orderly {} xs" for qs xs
      by (rule fragments_received [OF fs(1) [unfolded P(3)] that(1) link st(1-3) b(3) st(4) hdr(1-3,5,7-9) t udp room that(2-5)])
    ultimately show ?thesis unfolding fs(2)
      by (intro exI [of _ ERR_OK] exI [of _ "?s\<lparr>frag_buf := buf, answers := drop (length fs) (answers ?s), ip_ops := ip_ops ?s
          @ map (\<lambda>f. Netif_output n [?link, \<lparr>btype = PBUF_REF, front = [], body = f\<rparr>] dst) fs\<rparr>"]
          exI [of _ "map (\<lambda>f. Netif_output n [?link, \<lparr>btype = PBUF_REF, front = [], body = f\<rparr>] dst) fs"]) auto
  qed
qed

definition client :: stack where
  "client = (host 5)\<lparr>udp_mem := (\<lambda>_. udp_zero\<lparr>udp_local_port := 1000, udp_ttl := 255\<rparr>), udp_pcbs := [0]\<rparr>"

definition hello :: buf where
  "hello = \<lparr>btype = PBUF_RAM, front = replicate 28 0, body = [104, 105]\<rparr>"

theorem udp_end_to_end_witness:
  "\<exists>e s' p q t'. udp_sendto_if 0 [hello] 9 7 0 client = Some (e, s') \<and> list_all2 carried (ip_ops s') [p]
    \<and> receive 0 [p] echo_host = Some t' \<and> ip_ops t' = [Udp_callback 0 q 5 1000] \<and> contents q = [104, 105]"
proof -
  have b: "has_room (btype hello)" "28 \<le> length (front hello)" "length (contents [hello]) + 28 < 65536"
    by (simp_all add: hello_def contents_def)
  have pcb: "udp_local_port (udp_mem client 0) = 1000" "(1000 :: u16) \<noteq> 0" "udp_local_ip (udp_mem client 0) = 0"
    by (simp_all add: client_def udp_zero_def)
  have m: "28 \<le> unat (mtu (netif_list client ! 0))" "unat (mtu (netif_list client ! 0)) \<le> IP_FRAG_MAX_MTU" "allocs client = []"
    "length (frag_buf client) = IP_FRAG_MAX_MTU" "ip_addr (netif_list client ! 0) = 5" "ip_ops client = []" "mtu (netif_list client ! 0) = 1500"
    by (simp_all add: client_def host_def host_if_def IP_FRAG_MAX_MTU_def)
  have t: "ip_accepts 9 (netif_list echo_host ! 0)" "\<not> ip_addr_isbroadcast 5 (netif_list echo_host ! 0)" "\<not> ip_addr_ismulticast 5"
    by (simp_all add: echo_host_def host_def host_if_def ip_accepts_def netif_is_up_def NETIF_FLAG_UP_def ip_addr_isany_def
        ip_addr_isbroadcast_def ip_addr_netcmp_def IP4_ADDR_def NETIF_FLAG_BROADCAST_def ip_addr_ismulticast_def ntohl_def htonl_def)
  have udp: "raw_pcbs echo_host = []" "udp_choice (ip_addr_isbroadcast 9 (netif_list echo_host ! 0)) 5 9 1000 7 echo_host = Some 0"
      "udp_recv_set (udp_mem echo_host 0)" "(7 :: u16) \<noteq> DHCP_CLIENT_PORT"
    using echo_host_address(2)
    by (simp_all add: udp_choice_def udp_local_match_def udp_remote_match_def ip_addr_isany_def echo_host_def host_def udp_zero_def DHCP_CLIENT_PORT_def)
  have room: "\<forall>r\<in>set (reassdatagrams echo_host). \<not> (IPH_SRC (ipr_iphdr r) = 5 \<and> IPH_DEST (ipr_iphdr r) = 9 \<and> IPH_ID (ipr_iphdr r) = htons (ip_id client))"
      "length (reassdatagrams echo_host) < MEMP_NUM_REASSDATA"
    by (simp_all add: echo_host_def host_def MEMP_NUM_REASSDATA_def)
  from udp_end_to_end [OF b pcb m(1-5) t udp room] obtain e s' out where
    s': "udp_sendto_if 0 [hello] 9 7 0 client = Some (e, s')" "ip_ops s' = ip_ops client @ out"
    and all: "\<And>qs xs. list_all2 carried out qs \<Longrightarrow> unat (ip_reass_pbufcount echo_host) + (\<Sum>q\<leftarrow>qs. length q) \<le> IP_REASS_MAX_PBUFS \<Longrightarrow>
      distinct xs \<Longrightarrow> set xs = {..<length qs} \<Longrightarrow> orderly {} xs \<Longrightarrow>
      \<exists>q t'. receive 0 (map ((!) qs) xs) echo_host = Some t' \<and> ip_ops t' = ip_ops echo_host @ [Udp_callback 0 q 5 1000] \<and> contents q = contents [hello]"
    by blast
  have len: "length (contents [hello]) = 2" by (simp add: contents_def hello_def)
  define P where "P = ip_header (udp_tos (udp_mem client 0)) (of_nat (length (contents [hello]) + 28)) (ip_id client) (udp_ttl (udp_mem client 0))
    IP_PROTO_UDP (ip_addr (netif_list client ! 0)) 9 @ udp_header 1000 7 (of_nat (length (contents [hello]) + 8)) @ contents [hello]"
  have "\<not> unat (mtu (netif_list client ! 0)) < length (contents [hello]) + 28" by (simp add: len m(7))
  with udp_sendto_if_packet [OF b pcb P_def] obtain q where
    "contents q = P" "udp_sendto_if 0 [hello] 9 7 0 client = Some (netif_output 0 q 9 (client\<lparr>ip_id := ip_id client + 1\<rparr>))" by auto
  then have q: "length (contents q) = 30" "udp_sendto_if 0 [hello] 9 7 0 client = Some (netif_output 0 q 9 (client\<lparr>ip_id := ip_id client + 1\<rparr>))"
    by (simp_all add: P_def len)
  have "answers client = []" by (simp add: client_def host_def)
  then have out: "out = [Netif_output 0 q 9]" using s' q(2) by (auto simp: netif_output_def)
  let ?p = "[\<lparr>btype = PBUF_POOL, front = [], body = contents q\<rparr>]"
  have c: "list_all2 carried out [?p]" using q(1) by (auto simp: out carried_def contents_def)
  have "ip_reass_pbufcount echo_host = 0" "ip_ops echo_host = []" by (simp_all add: echo_host_def host_def)
  with all [OF c, of "[0]"] have "\<exists>q t'. receive 0 [?p] echo_host = Some t' \<and> ip_ops t' = [Udp_callback 0 q 5 1000] \<and> contents q = [104, 105]"
    by (auto simp: IP_REASS_MAX_PBUFS_def contents_def hello_def)
  then show ?thesis using s' c m(6) by auto
qed

end
