(* ===== verification/Tcp.thy ===== *)
theory Tcp
  imports Ip TcpListen "HOL-Library.Monad_Syntax"
begin

text \<open>
  The data of TCP, \<open>include/lwip/tcp.h\<close>: sequence numbers, headers, segments, control blocks and the
  module's variables, and the calls to the application's callbacks.  A segment's header is
  the record \<open>tcphdr\<close>, and its chain \<open>seg_p\<close> begins behind the header, at the options: the layers
  below only write in front of the header, and \<open>tcp_output_segment\<close> moves the payload back.  Control
  blocks are named by their address; those on no list and not free are the application's.
\<close>

section \<open>Sequence numbers\<close>

definition TCP_SEQ_LT :: "u32 \<Rightarrow> u32 \<Rightarrow> bool" where "TCP_SEQ_LT a b \<longleftrightarrow> sint (a - b) < 0"
definition TCP_SEQ_LEQ :: "u32 \<Rightarrow> u32 \<Rightarrow> bool" where "TCP_SEQ_LEQ a b \<longleftrightarrow> sint (a - b) \<le> 0"
definition TCP_SEQ_GT :: "u32 \<Rightarrow> u32 \<Rightarrow> bool" where "TCP_SEQ_GT a b \<longleftrightarrow> sint (a - b) > 0"
definition TCP_SEQ_GEQ :: "u32 \<Rightarrow> u32 \<Rightarrow> bool" where "TCP_SEQ_GEQ a b \<longleftrightarrow> sint (a - b) \<ge> 0"
definition TCP_SEQ_BETWEEN :: "u32 \<Rightarrow> u32 \<Rightarrow> u32 \<Rightarrow> bool" where
  "TCP_SEQ_BETWEEN a b c \<longleftrightarrow> TCP_SEQ_GEQ a b \<and> TCP_SEQ_LEQ a c"

section \<open>Constants\<close>

type_synonym s16 = "16 word"

definition TCP_FIN :: u8 where "TCP_FIN = 0x01"
definition TCP_SYN :: u8 where "TCP_SYN = 0x02"
definition TCP_RST :: u8 where "TCP_RST = 0x04"
definition TCP_PSH :: u8 where "TCP_PSH = 0x08"
definition TCP_ACK :: u8 where "TCP_ACK = 0x10"
definition TCP_FLAGS :: u16 where "TCP_FLAGS = 0x3f"

definition TCP_HLEN :: nat where "TCP_HLEN = 20"
definition TCP_TTL :: u8 where "TCP_TTL = 255"
definition TCP_MSS :: u16 where "TCP_MSS = 1500 - 40"
definition TCP_WND :: u16 where "TCP_WND = 2 * 1460"
definition TCP_SND_BUF :: u16 where "TCP_SND_BUF = 2 * 1460"
definition TCP_SND_QUEUELEN :: nat where "TCP_SND_QUEUELEN = 12"
definition TCP_WND_UPDATE_THRESHOLD :: int where "TCP_WND_UPDATE_THRESHOLD = 730"
definition TCP_MAXRTX :: u8 where "TCP_MAXRTX = 12"
definition TCP_SYNMAXRTX :: u8 where "TCP_SYNMAXRTX = 6"
definition TCP_SLOW_INTERVAL :: u32 where "TCP_SLOW_INTERVAL = 2 * 250"
definition TCP_FIN_WAIT_TIMEOUT :: u32 where "TCP_FIN_WAIT_TIMEOUT = 20000"
definition TCP_SYN_RCVD_TIMEOUT :: u32 where "TCP_SYN_RCVD_TIMEOUT = 20000"
definition TCP_MSL :: u32 where "TCP_MSL = 60000"
definition TCP_KEEPIDLE_DEFAULT :: u32 where "TCP_KEEPIDLE_DEFAULT = 7200000"
definition TCP_KEEPINTVL_DEFAULT :: u32 where "TCP_KEEPINTVL_DEFAULT = 75000"
definition TCP_MAXIDLE :: u32 where "TCP_MAXIDLE = 9 * 75000"
definition TCP_PRIO_NORMAL :: u8 where "TCP_PRIO_NORMAL = 64"
definition TCP_PRIO_MAX :: u8 where "TCP_PRIO_MAX = 127"

definition TCP_WRITE_FLAG_COPY :: u8 where "TCP_WRITE_FLAG_COPY = 0x01"
definition TCP_WRITE_FLAG_MORE :: u8 where "TCP_WRITE_FLAG_MORE = 0x02"
definition TF_SEG_OPTS_MSS :: u8 where "TF_SEG_OPTS_MSS = 0x01"

text \<open>The flags of a control block.\<close>

definition TF_ACK_DELAY :: u8 where "TF_ACK_DELAY = 0x01"
definition TF_ACK_NOW :: u8 where "TF_ACK_NOW = 0x02"
definition TF_INFR :: u8 where "TF_INFR = 0x04"
definition TF_FIN :: u8 where "TF_FIN = 0x20"
definition TF_NODELAY :: u8 where "TF_NODELAY = 0x40"
definition TF_NAGLEMEMERR :: u8 where "TF_NAGLEMEMERR = 0x80"

text \<open>The flags of the input processing.\<close>

definition TF_RESET :: u8 where "TF_RESET = 0x08"
definition TF_CLOSED :: u8 where "TF_CLOSED = 0x10"
definition TF_GOT_FIN :: u8 where "TF_GOT_FIN = 0x20"

definition SOF_ACCEPTCONN :: u16 where "SOF_ACCEPTCONN = 0x0002"
definition SOF_KEEPALIVE :: u16 where "SOF_KEEPALIVE = 0x0008"
definition SOF_INHERITED :: u16 where "SOF_INHERITED = 0x0001 OR 0x0010 OR 0x0008 OR 0x0100 OR 0x0080"

definition tcp_backoff :: "nat list" where "tcp_backoff = [1, 2, 3, 4, 5, 6, 7, 7, 7, 7, 7, 7, 7]"
definition tcp_persist_backoff :: "u32 list" where "tcp_persist_backoff = [3, 6, 12, 24, 48, 96, 120]"

section \<open>Headers\<close>

text \<open>The fields in host byte order; the checksum is left to the hardware and \<open>urgp\<close> is always 0.\<close>

record tcp_hdr =
  th_src :: u16
  th_dest :: u16
  th_seqno :: u32
  th_ackno :: u32
  th_hdrlen :: u16
  th_flags :: u8
  th_wnd :: u16

definition tcp_bytes :: "tcp_hdr \<Rightarrow> u8 list" where
  "tcp_bytes h =
     bytes16 (htons (th_src h)) @ bytes16 (htons (th_dest h)) @ mem_bytes (htonl (th_seqno h)) @ mem_bytes (htonl (th_ackno h))
       @ bytes16 (htons (push_bit 12 (th_hdrlen h) OR ucast (th_flags h))) @ bytes16 (htons (th_wnd h)) @ bytes16 0 @ bytes16 0"

definition tcp_hdr_of :: "u8 list \<Rightarrow> tcp_hdr" where
  "tcp_hdr_of xs =
     \<lparr>th_src = ntohs (word16 xs 0), th_dest = ntohs (word16 xs 2), th_seqno = ntohl (word32 xs 4), th_ackno = ntohl (word32 xs 8),
      th_hdrlen = drop_bit 12 (ntohs (word16 xs 12)), th_flags = ucast (ntohs (word16 xs 12) AND TCP_FLAGS),
      th_wnd = ntohs (word16 xs 14)\<rparr>"

section \<open>Segments\<close>

record tcp_seg =
  seg_p :: chain
  seg_len :: u16
  seg_flags :: u8
  tcphdr :: tcp_hdr

definition TCP_TCPLEN :: "tcp_seg \<Rightarrow> u32" where
  "TCP_TCPLEN sg = ucast (seg_len sg) + (if th_flags (tcphdr sg) AND (TCP_FIN OR TCP_SYN) \<noteq> 0 then 1 else 0)"

definition LWIP_TCP_OPT_LENGTH :: "u8 \<Rightarrow> nat" where
  "LWIP_TCP_OPT_LENGTH fl = (if fl AND TF_SEG_OPTS_MSS \<noteq> 0 then 4 else 0)"

abbreviation seg_seqno :: "tcp_seg \<Rightarrow> u32" where
  "seg_seqno sg \<equiv> th_seqno (tcphdr sg)"

text \<open>The header is written into the room in front of the first buffer's data.\<close>

definition with_tcphdr :: "tcp_hdr \<Rightarrow> chain \<Rightarrow> chain" where
  "with_tcphdr h p =
     (case p of [] \<Rightarrow> []
      | b # bs \<Rightarrow> b\<lparr>front := take (length (front b) - TCP_HLEN) (front b), body := tcp_bytes h @ body b\<rparr> # bs)"

definition TCP_BUILD_MSS_OPTION :: "u8 list" where
  "TCP_BUILD_MSS_OPTION = mem_bytes (htonl (push_bit 24 2 OR push_bit 16 4 OR push_bit 8 (ucast TCP_MSS div 256) OR (ucast TCP_MSS AND 255)))"

section \<open>Control blocks\<close>

datatype tcp_state =
    CLOSED | LISTEN | SYN_SENT | SYN_RCVD | ESTABLISHED | FIN_WAIT_1 | FIN_WAIT_2 | CLOSE_WAIT | CLOSING | LAST_ACK | TIME_WAIT

primrec state_code :: "tcp_state \<Rightarrow> nat" where
  "state_code CLOSED = 0" | "state_code LISTEN = 1" | "state_code SYN_SENT = 2" | "state_code SYN_RCVD = 3"
| "state_code ESTABLISHED = 4" | "state_code FIN_WAIT_1 = 5" | "state_code FIN_WAIT_2 = 6" | "state_code CLOSE_WAIT = 7"
| "state_code CLOSING = 8" | "state_code LAST_ACK = 9" | "state_code TIME_WAIT = 10"

text \<open>A callback is not set, the default function of \<open>tcp.c\<close>, or a function of the application.\<close>

datatype tcp_callback = Cb_null | Cb_default | Cb nat

record tcb =
  t_local_ip :: u32
  t_remote_ip :: u32
  so_options :: u16
  t_tos :: u8
  t_ttl :: u8
  t_state :: tcp_state
  t_prio :: u8
  callback_arg :: nat
  t_local_port :: u16
  t_remote_port :: u16
  t_flags :: u8
  rcv_nxt :: u32
  rcv_wnd :: u16
  rcv_ann_wnd :: u16
  rcv_ann_right_edge :: u32
  t_tmr :: u32
  polltmr :: u8
  pollinterval :: u8
  rtime :: s16
  t_mss :: u16
  rttest :: u32
  rtseq :: u32
  t_sa :: s16
  t_sv :: s16
  rto :: s16
  nrtx :: u8
  lastack :: u32
  dupacks :: u8
  cwnd :: u16
  ssthresh :: u16
  snd_nxt :: u32
  snd_wnd :: u16
  snd_wl1 :: u32
  snd_wl2 :: u32
  snd_lbb :: u32
  acked :: u16
  snd_buf :: u16
  snd_queuelen :: u16
  unsent :: "tcp_seg list"
  unacked :: "tcp_seg list"
  refused_data :: "chain option"
  sent_cb :: tcp_callback
  recv_cb :: tcp_callback
  connected_cb :: tcp_callback
  poll_cb :: tcp_callback
  errf_cb :: tcp_callback
  accept_cb :: tcp_callback
  keep_idle :: u32
  persist_cnt :: u32
  persist_backoff :: u8
  keep_cnt_sent :: u8

record tcp_pcb_listen =
  l_local_ip :: u32
  l_so_options :: u16
  l_prio :: u8
  l_callback_arg :: nat
  l_local_port :: u16
  l_accept :: tcp_callback

text \<open>
  The variables of the module, the stack below it and the state of the application.  \<open>tcp_free\<close> and
  \<open>listen_free\<close> are the free elements of the two pools.
\<close>

record 'a tcp =
  tcp_ip :: stack
  tcp_mem :: "nat \<Rightarrow> tcb"
  listen_mem :: "nat \<Rightarrow> tcp_pcb_listen"
  tcp_active_pcbs :: "nat list"
  tcp_tw_pcbs :: "nat list"
  tcp_bound_pcbs :: "nat list"
  tcp_listen_pcbs :: "nat list"
  tcp_free :: "nat list"
  listen_free :: "nat list"
  tcp_port :: u16
  tcp_ticks :: u32
  tcp_timer :: u8
  tcp_iss :: u32
  tcp_input_pcb :: "nat option"
  app_state :: 'a

definition set_tcb :: "nat \<Rightarrow> (tcb \<Rightarrow> tcb) \<Rightarrow> 'a tcp \<Rightarrow> 'a tcp" where
  "set_tcb a f s = s\<lparr>tcp_mem := (tcp_mem s)(a := f (tcp_mem s a))\<rparr>"

definition tcp_log :: "ip_op \<Rightarrow> 'a tcp \<Rightarrow> 'a tcp" where
  "tcp_log x s = s\<lparr>tcp_ip := log_op x (tcp_ip s)\<rparr>"

definition tcp_try_alloc :: "'a tcp \<Rightarrow> bool \<times> 'a tcp" where
  "tcp_try_alloc s = (let (ok, k) = try_alloc (tcp_ip s) in (ok, s\<lparr>tcp_ip := k\<rparr>))"

section \<open>Callbacks\<close>

text \<open>
  The application is a function from the call it gets to its answer; in it it may
  call every operation of the interface, so it works on the whole state.  \<open>None\<close> is a step
  that leaves its objects.
\<close>

datatype tcp_event =
    Ev_accept nat nat nat err_t
  | Ev_recv nat nat nat "chain option" err_t
  | Ev_sent nat nat nat u16
  | Ev_connected nat nat nat err_t
  | Ev_poll nat nat nat
  | Ev_err nat nat err_t

type_synonym 'a tcp_app = "tcp_event \<Rightarrow> 'a tcp \<Rightarrow> (err_t \<times> 'a tcp) option"

section \<open>Sequence numbers in a window\<close>

lemma u32_bounds: "unat (w :: u32) < 2 ^ 32" "uint w < 2 ^ 32"
  by (rule order.strict_trans2 [OF unsigned_less], simp)+

lemma sint_u32: "sint (w :: u32) = (if unat w < 2 ^ 31 then int (unat w) else int (unat w) - 2 ^ 32)"
proof -
  have "sint w = signed_take_bit 31 (uint w)" by (simp add: sint_uint)
  also have "\<dots> = (if uint w < 2 ^ 31 then uint w else uint w - 2 ^ 32)"
  proof (cases "uint w < 2 ^ 31")
    case False
    then have "uint w div 2 ^ 31 = 1" using u32_bounds(2) [of w] by simp
    then have "bit (uint w) 31" by (simp add: bit_iff_odd)
    then show ?thesis using False by (simp add: signed_take_bit_eq_take_bit_minus take_bit_int_eq_self u32_bounds(2) [simplified])
  next
    case True
    then have "\<not> bit (uint w) 31" by (simp add: bit_iff_odd)
    then show ?thesis using True by (simp add: signed_take_bit_eq_take_bit_minus take_bit_int_eq_self unsigned_less)
  qed
  finally have s: "sint w = (if uint w < 2 ^ 31 then uint w else uint w - 2 ^ 32)" .
  have u: "int (unat w) = uint w" by simp
  have "unat w < 2 ^ 31 \<longleftrightarrow> nat (uint w) < 2 ^ 31" by (simp only: unat_eq_nat_uint)
  also have "\<dots> \<longleftrightarrow> uint w < int (2 ^ 31)" by (rule nat_less_iff) simp
  finally have "unat w < 2 ^ 31 \<longleftrightarrow> uint w < 2 ^ 31" by simp
  then show ?thesis unfolding u by (simp only: s)
qed

lemma sint_signs: "sint (w :: u32) < 0 \<longleftrightarrow> 2 ^ 31 \<le> unat w" "0 < sint w \<longleftrightarrow> w \<noteq> 0 \<and> unat w < 2 ^ 31"
proof -
  have "sint w = int (unat w) \<and> unat w < 2 ^ 31 \<or> sint w = int (unat w) - 2 ^ 32 \<and> 2 ^ 31 \<le> unat w"
    by (auto simp: sint_u32)
  moreover have "int (unat w) < 2 ^ 32" by (simp add: u32_bounds(2) [simplified])
  ultimately have "sint w < 0 \<longleftrightarrow> 2 ^ 31 \<le> unat w" "0 < sint w \<longleftrightarrow> 0 < unat w \<and> unat w < 2 ^ 31" by linarith+
  then show "sint w < 0 \<longleftrightarrow> 2 ^ 31 \<le> unat w" "0 < sint w \<longleftrightarrow> w \<noteq> 0 \<and> unat w < 2 ^ 31" by (simp_all add: unat_gt_0)
qed

lemma TCP_SEQ_LT_unat: "TCP_SEQ_LT a b \<longleftrightarrow> 2 ^ 31 \<le> unat (a - b)"
  by (simp only: TCP_SEQ_LT_def sint_signs)

lemma TCP_SEQ_GEQ_unat: "TCP_SEQ_GEQ a b \<longleftrightarrow> unat (a - b) < 2 ^ 31"
  by (simp only: TCP_SEQ_GEQ_def not_less [symmetric] sint_signs) (simp only: not_less not_le)

lemma TCP_SEQ_GT_unat: "TCP_SEQ_GT a b \<longleftrightarrow> a \<noteq> b \<and> unat (a - b) < 2 ^ 31"
  by (simp only: TCP_SEQ_GT_def sint_signs) simp

lemma TCP_SEQ_LEQ_unat: "TCP_SEQ_LEQ a b \<longleftrightarrow> a = b \<or> 2 ^ 31 \<le> unat (a - b)"
  by (simp only: TCP_SEQ_LEQ_def not_less [symmetric] sint_signs) auto

lemma unat_diff_u32: "unat (x - y :: u32) = (if y \<le> x then unat x - unat y else unat x + 2 ^ 32 - unat y)"
  by (simp add: unat_sub_if_size word_size word_le_nat_alt)

text \<open>
  The comparisons of sequence numbers are right across the wrap around of the numbers: a number lies between the
  two borders of a window of less than half the space exactly when its distance from the left border is at
  most the size of the window.
\<close>

theorem tcp_seq_between_window:
  assumes "unat (c - b) < 2 ^ 31"
  shows "TCP_SEQ_BETWEEN a b c \<longleftrightarrow> unat (a - b) \<le> unat (c - b)"
proof -
  define x w where "x = a - b" and "w = c - b"
  have "a - c = x - w" by (simp add: x_def w_def)
  moreover have "x - w = 0 \<longleftrightarrow> unat x = unat w" by (simp add: word_unat_eq_iff [symmetric])
  ultimately show ?thesis
    using assms u32_bounds(1) [of x] unfolding TCP_SEQ_BETWEEN_def TCP_SEQ_GEQ_unat TCP_SEQ_LEQ_unat x_def [symmetric] w_def [symmetric]
    by (auto simp: unat_diff_u32 word_le_nat_alt split: if_splits)
qed

text \<open>A window of 2920 bytes at the end of the numbers.\<close>

theorem tcp_seq_between_window_witness: "TCP_SEQ_BETWEEN 5 0xfffffff0 (0xfffffff0 + 2919)"
  using tcp_seq_between_window [of "0xfffffff0 + 2919" "0xfffffff0" 5] by simp

section \<open>Reading a header back\<close>

lemma bit_below:
  assumes "unat w < 2 ^ n" "bit w k"
  shows "k < n"
proof (rule ccontr)
  assume "\<not> k < n"
  then have "unat w < 2 ^ k" using assms(1) power_increasing [of n k "2 :: nat"] by (simp add: not_less order.strict_trans2)
  then have "\<not> bit (unat w) k" by (simp add: bit_iff_odd)
  then show False using assms(2) by (simp add: bit_unsigned_iff)
qed

lemma bit_TCP_FLAGS: "bit TCP_FLAGS k \<longleftrightarrow> k < 6"
proof -
  have T: "TCP_FLAGS = mask 6" by (simp add: TCP_FLAGS_def mask_eq_exp_minus_1)
  show ?thesis unfolding T bit_mask_iff by auto
qed

text \<open>A header is read back as it was written.\<close>

lemma tcp_hdr_of_bytes:
  assumes "unat (th_hdrlen h) < 16" "unat (th_flags h) < 64"
  shows "tcp_hdr_of (tcp_bytes h @ xs) = h"
proof -
  let ?o = "push_bit 12 (th_hdrlen h) OR ucast (th_flags h) :: u16"
  have lt: "bit (th_hdrlen h) k \<Longrightarrow> k < 4" "bit (th_flags h) k \<Longrightarrow> k < 6" for k
    using assms by (auto intro: bit_below [where n = 4, simplified] bit_below [where n = 6, simplified])
  have len: "drop_bit 12 ?o = th_hdrlen h"
    by (rule bit_word_eqI) (use lt in \<open>fastforce simp: bit_simps\<close>)
  have fl: "(ucast (?o AND TCP_FLAGS) :: u8) = th_flags h"
    by (rule bit_word_eqI) (use lt in \<open>auto simp: bit_simps bit_TCP_FLAGS\<close>)
  have at: "word16 (tcp_bytes h @ xs) 0 = htons (th_src h)" "word16 (tcp_bytes h @ xs) 2 = htons (th_dest h)"
    "word32 (tcp_bytes h @ xs) 4 = htonl (th_seqno h)" "word32 (tcp_bytes h @ xs) 8 = htonl (th_ackno h)"
    "word16 (tcp_bytes h @ xs) 12 = htons ?o" "word16 (tcp_bytes h @ xs) 14 = htons (th_wnd h)"
    using word16_at [of "[]" 0 "htons (th_src h)"] word16_at [of "bytes16 (htons (th_src h))" 2 "htons (th_dest h)"]
      word32_at [of "bytes16 (htons (th_src h)) @ bytes16 (htons (th_dest h))" 4 "htonl (th_seqno h)"]
      word32_at [of "bytes16 (htons (th_src h)) @ bytes16 (htons (th_dest h)) @ mem_bytes (htonl (th_seqno h))" 8 "htonl (th_ackno h)"]
      word16_at [of "bytes16 (htons (th_src h)) @ bytes16 (htons (th_dest h)) @ mem_bytes (htonl (th_seqno h)) @ mem_bytes (htonl (th_ackno h))"
        12 "htons ?o"]
      word16_at [of "bytes16 (htons (th_src h)) @ bytes16 (htons (th_dest h)) @ mem_bytes (htonl (th_seqno h)) @ mem_bytes (htonl (th_ackno h))
        @ bytes16 (htons ?o)" 14 "htons (th_wnd h)"]
    by (simp_all add: tcp_bytes_def length_mem_bytes)
  have "ntohl (htonl w) = w" for w by (simp add: ntohl_def)
  then show ?thesis
    unfolding tcp_hdr_of_def at ntohs_htons len fl by simp
qed

lemma length_tcp_bytes [simp]: "length (tcp_bytes h) = 20"
  by (simp add: tcp_bytes_def length_mem_bytes)

end
