(* ===== verification/TcpOut.thy ===== *)
theory TcpOut
  imports Tcp
begin

text \<open>
  \<open>tcp_out.c\<close>: queueing data and control segments, sending what the windows allow, retransmission and
  the probes.
\<close>

lemma set_tcb_simps [simp]:
  "tcp_ip (set_tcb a f s) = tcp_ip s" "tcp_mem (set_tcb a f s) = (tcp_mem s)(a := f (tcp_mem s a))"
  "listen_mem (set_tcb a f s) = listen_mem s" "tcp_active_pcbs (set_tcb a f s) = tcp_active_pcbs s"
  "tcp_tw_pcbs (set_tcb a f s) = tcp_tw_pcbs s" "tcp_bound_pcbs (set_tcb a f s) = tcp_bound_pcbs s"
  "tcp_listen_pcbs (set_tcb a f s) = tcp_listen_pcbs s" "tcp_free (set_tcb a f s) = tcp_free s"
  "listen_free (set_tcb a f s) = listen_free s" "tcp_port (set_tcb a f s) = tcp_port s" "tcp_ticks (set_tcb a f s) = tcp_ticks s"
  "tcp_timer (set_tcb a f s) = tcp_timer s" "tcp_iss (set_tcb a f s) = tcp_iss s"
  "tcp_input_pcb (set_tcb a f s) = tcp_input_pcb s" "app_state (set_tcb a f s) = app_state s"
  by (simp_all add: set_tcb_def)

lemma set_tcb_twice: "set_tcb a f (set_tcb a g s) = set_tcb a (f \<circ> g) s"
  by (simp add: set_tcb_def)

section \<open>Sending a packet\<close>

definition tcp_ip_output :: "chain \<Rightarrow> u32 \<Rightarrow> u32 \<Rightarrow> u8 \<Rightarrow> u8 \<Rightarrow> 'a tcp \<Rightarrow> 'a tcp option" where
  "tcp_ip_output p src dest ttl tos s =
     map_option (\<lambda>(_, k). s\<lparr>tcp_ip := k\<rparr>) (ip_output p src dest ttl tos IP_PROTO_TCP (tcp_ip s))"

definition tcp_output_set_header :: "nat \<Rightarrow> nat \<Rightarrow> u32 \<Rightarrow> 'a tcp \<Rightarrow> tcp_hdr \<times> 'a tcp" where
  "tcp_output_set_header a optlen seqno s =
     (let pcb = tcp_mem s a in
      (\<lparr>th_src = t_local_port pcb, th_dest = t_remote_port pcb, th_seqno = seqno, th_ackno = rcv_nxt pcb,
        th_hdrlen = of_nat (5 + optlen div 4), th_flags = TCP_ACK, th_wnd = rcv_ann_wnd pcb\<rparr>,
       set_tcb a (\<lambda>t. t\<lparr>rcv_ann_right_edge := rcv_nxt t + ucast (rcv_ann_wnd t)\<rparr>) s))"

text \<open>A header that is alone in its buffer, or followed by some bytes: it is sent and released.\<close>

definition send_header :: "tcp_hdr \<Rightarrow> u8 list \<Rightarrow> u32 \<Rightarrow> u32 \<Rightarrow> u8 \<Rightarrow> u8 \<Rightarrow> 'a tcp \<Rightarrow> 'a tcp option" where
  "send_header h xs src dest ttl tos s =
     (let p = [(ram_buf (garbage (tcp_ip s)) PBUF_IP (TCP_HLEN + length xs))\<lparr>body := tcp_bytes h @ xs\<rparr>]
      in map_option (tcp_log (Free_chain p)) (tcp_ip_output p src dest ttl tos s))"

definition tcp_rst :: "u32 \<Rightarrow> u32 \<Rightarrow> u32 \<Rightarrow> u32 \<Rightarrow> u16 \<Rightarrow> u16 \<Rightarrow> 'a tcp \<Rightarrow> 'a tcp option" where
  "tcp_rst seqno ackno src_ip dest_ip src_port dest_port s =
     (let (ok, s) = tcp_try_alloc s in
      if \<not> ok then Some s
      else send_header
             \<lparr>th_src = src_port, th_dest = dest_port, th_seqno = seqno, th_ackno = ackno, th_hdrlen = 5,
              th_flags = TCP_RST OR TCP_ACK, th_wnd = TCP_WND\<rparr> [] src_ip dest_ip TCP_TTL 0 s)"

section \<open>Output\<close>

text \<open>\<open>tcp_output_segment\<close> answers the segment with what it changes in it.\<close>

definition tcp_output_segment :: "tcp_seg \<Rightarrow> nat \<Rightarrow> 'a tcp \<Rightarrow> (tcp_seg \<times> 'a tcp) option" where
  "tcp_output_segment sg a s =
     (let pcb = tcp_mem s a;
          sg = sg\<lparr>tcphdr := (tcphdr sg)\<lparr>th_ackno := rcv_nxt pcb, th_wnd := rcv_ann_wnd pcb\<rparr>\<rparr>;
          sg = (if seg_flags sg AND TF_SEG_OPTS_MSS \<noteq> 0 then sg\<lparr>seg_p := write_first 0 TCP_BUILD_MSS_OPTION (seg_p sg)\<rparr> else sg);
          s = set_tcb a (\<lambda>t. t\<lparr>rcv_ann_right_edge := rcv_nxt t + ucast (rcv_ann_wnd t)\<rparr>) s
      in case (if ip_addr_isany (t_local_ip pcb)
               then map_option (\<lambda>n. ip_addr (netif_list (tcp_ip s) ! n)) (ip_route (t_remote_ip pcb) (tcp_ip s))
               else Some (t_local_ip pcb)) of
        None \<Rightarrow> Some (sg, s)
      | Some src \<Rightarrow>
          let s = set_tcb a (\<lambda>t. t\<lparr>t_local_ip := src\<rparr>) s;
              s = set_tcb a (\<lambda>t. if rtime t = -1 then t\<lparr>rtime := 0\<rparr> else t) s;
              s = set_tcb a (\<lambda>t. if rttest t = 0 then t\<lparr>rttest := tcp_ticks s, rtseq := seg_seqno sg\<rparr> else t) s
          in map_option (\<lambda>s. (sg, s))
               (tcp_ip_output (with_tcphdr (tcphdr sg) (seg_p sg)) src (t_remote_ip pcb) (t_ttl pcb) (t_tos pcb) s))"

definition insert_seg :: "tcp_seg \<Rightarrow> tcp_seg list \<Rightarrow> tcp_seg list" where
  "insert_seg sg q =
     takeWhile (\<lambda>x. TCP_SEQ_LT (seg_seqno x) (seg_seqno sg)) q @ sg # dropWhile (\<lambda>x. TCP_SEQ_LT (seg_seqno x) (seg_seqno sg)) q"

definition add_unacked :: "tcp_seg \<Rightarrow> tcp_seg list \<Rightarrow> tcp_seg list" where
  "add_unacked sg q =
     (if q = [] then [sg]
      else if TCP_SEQ_LT (seg_seqno sg) (seg_seqno (last q)) then insert_seg sg q
      else q @ [sg])"

definition tcp_do_output_nagle :: "tcb \<Rightarrow> bool" where
  "tcp_do_output_nagle pcb \<longleftrightarrow> unacked pcb = [] \<or> t_flags pcb AND TF_NODELAY \<noteq> 0
     \<or> (case unsent pcb of [] \<Rightarrow> False | sg # sgs \<Rightarrow> sgs \<noteq> [] \<or> t_mss pcb \<le> seg_len sg)"

text \<open>The last byte of the segment, counted from the last acknowledged one.\<close>

definition seg_reach :: "tcb \<Rightarrow> tcp_seg \<Rightarrow> u32" where
  "seg_reach pcb sg = seg_seqno sg - lastack pcb + ucast (seg_len sg)"

definition TCPH_SET_FLAG :: "u8 \<Rightarrow> tcp_seg \<Rightarrow> tcp_seg" where
  "TCPH_SET_FLAG f sg = sg\<lparr>tcphdr := (tcphdr sg)\<lparr>th_flags := th_flags (tcphdr sg) OR f\<rparr>\<rparr>"

definition tcp_seg_free :: "tcp_seg \<Rightarrow> 'a tcp \<Rightarrow> 'a tcp" where
  "tcp_seg_free sg s = tcp_log (Free_chain (seg_p sg)) s"

text \<open>The list is the queue \<open>unsent\<close> of the block.\<close>

fun output_loop :: "nat \<Rightarrow> u32 \<Rightarrow> tcp_seg list \<Rightarrow> 'a tcp \<Rightarrow> 'a tcp option" where
  "output_loop a wnd [] s = Some s"
| "output_loop a wnd (sg # sgs) s =
     (if \<not> seg_reach (tcp_mem s a) sg \<le> wnd then Some s
      else if \<not> tcp_do_output_nagle (tcp_mem s a) \<and> t_flags (tcp_mem s a) AND (TF_NAGLEMEMERR OR TF_FIN) = 0 then Some s
      else
        let s = set_tcb a (\<lambda>t. t\<lparr>unsent := sgs\<rparr>) s;
            syn_sent = t_state (tcp_mem s a) = SYN_SENT;
            sg = (if syn_sent then sg else TCPH_SET_FLAG TCP_ACK sg);
            s = (if syn_sent then s else set_tcb a (\<lambda>t. t\<lparr>t_flags := t_flags t AND NOT (TF_ACK_DELAY OR TF_ACK_NOW)\<rparr>) s)
        in do {
          (sg, s) \<leftarrow> tcp_output_segment sg a s;
          let nxt = seg_seqno sg + TCP_TCPLEN sg;
          let s = set_tcb a (\<lambda>t. if TCP_SEQ_LT (snd_nxt t) nxt then t\<lparr>snd_nxt := nxt\<rparr> else t) s;
          output_loop a wnd sgs
            (if 0 < TCP_TCPLEN sg then set_tcb a (\<lambda>t. t\<lparr>unacked := add_unacked sg (unacked t)\<rparr>) s
             else tcp_seg_free sg s)
        })"

definition start_persist :: "tcb \<Rightarrow> tcb" where
  "start_persist t =
     (case unsent t of
        [] \<Rightarrow> t
      | sg # _ \<Rightarrow> if persist_backoff t = 0 \<and> ucast (snd_wnd t) < seg_reach t sg
                   then t\<lparr>persist_cnt := 0, persist_backoff := 1\<rparr> else t)"

definition tcp_output :: "nat \<Rightarrow> 'a tcp \<Rightarrow> (err_t \<times> 'a tcp) option" where
  "tcp_output a s =
     (if tcp_input_pcb s = Some a then Some (ERR_OK, s)
      else
        let pcb = tcp_mem s a; wnd = ucast (min (snd_wnd pcb) (cwnd pcb)) in
        if t_flags pcb AND TF_ACK_NOW \<noteq> 0
           \<and> (case unsent pcb of [] \<Rightarrow> True | sg # _ \<Rightarrow> wnd < seg_reach pcb sg)
        then
          let (ok, s) = tcp_try_alloc s in
          if \<not> ok then Some (ERR_BUF, s)
          else
            let s = set_tcb a (\<lambda>t. t\<lparr>t_flags := t_flags t AND NOT (TF_ACK_DELAY OR TF_ACK_NOW)\<rparr>) s;
                (h, s) = tcp_output_set_header a 0 (snd_nxt pcb) s
            in map_option (\<lambda>s. (ERR_OK, s)) (send_header h [] (t_local_ip pcb) (t_remote_ip pcb) (t_ttl pcb) (t_tos pcb) s)
        else do {
          s \<leftarrow> output_loop a wnd (unsent pcb) s;
          Some (ERR_OK, set_tcb a (\<lambda>t. t\<lparr>t_flags := t_flags t AND NOT TF_NAGLEMEMERR\<rparr>) (set_tcb a start_persist s))
        })"

definition tcp_ack_now :: "nat \<Rightarrow> 'a tcp \<Rightarrow> 'a tcp option" where
  "tcp_ack_now a s = map_option snd (tcp_output a (set_tcb a (\<lambda>t. t\<lparr>t_flags := t_flags t OR TF_ACK_NOW\<rparr>) s))"

definition tcp_ack :: "nat \<Rightarrow> 'a tcp \<Rightarrow> 'a tcp option" where
  "tcp_ack a s =
     (if t_flags (tcp_mem s a) AND TF_ACK_DELAY \<noteq> 0
      then map_option snd
             (tcp_output a (set_tcb a (\<lambda>t. t\<lparr>t_flags := (t_flags t AND NOT TF_ACK_DELAY) OR TF_ACK_NOW\<rparr>) s))
      else Some (set_tcb a (\<lambda>t. t\<lparr>t_flags := t_flags t OR TF_ACK_DELAY\<rparr>) s))"

section \<open>Queueing\<close>

definition tcp_segs_free :: "tcp_seg list \<Rightarrow> 'a tcp \<Rightarrow> 'a tcp" where
  "tcp_segs_free = fold tcp_seg_free"

definition seg_length :: "u16 \<Rightarrow> nat \<Rightarrow> u16 \<Rightarrow> u16" where
  "seg_length mss optlen left =
     (if uint mss - int optlen < uint left then word_of_int (uint mss - int optlen) else left)"

text \<open>
  One segment: its memory, its buffers and its header.  The answer counts the buffers.  A buffer for the transport
  layer has room for the header, so \<open>pbuf_header\<close> does not fail here; the fields for the
  acknowledgement and the window are set when the segment is sent.
\<close>

definition enqueue_seg :: "tcb \<Rightarrow> u8 \<Rightarrow> u8 \<Rightarrow> u8 \<Rightarrow> u8 list option \<Rightarrow> u16 \<Rightarrow> u16 \<Rightarrow> u32 \<Rightarrow> 'a tcp \<Rightarrow> (tcp_seg \<times> nat) option \<times> 'a tcp" where
  "enqueue_seg pcb fl apiflags optflags arg left seglen seqno s =
     (let optlen = LWIP_TCP_OPT_LENGTH optflags;
          g = garbage (tcp_ip s);
          h = \<lparr>th_src = t_local_port pcb, th_dest = t_remote_port pcb, th_seqno = seqno, th_ackno = 0,
               th_hdrlen = of_nat (5 + optlen div 4), th_flags = fl, th_wnd = 0\<rparr>;
          mk = (\<lambda>p. \<lparr>seg_p = p, seg_len = seglen, seg_flags = optflags, tcphdr = h\<rparr>);
          (ok, s) = tcp_try_alloc s
      in if \<not> ok then (None, s)
         else
           let (ok, s) = tcp_try_alloc s in
           if \<not> ok then (None, s)
           else if apiflags AND TCP_WRITE_FLAG_COPY \<noteq> 0
           then let b = ram_buf g PBUF_TRANSPORT (unat seglen + optlen);
                    b = (case arg of None \<Rightarrow> b | Some xs \<Rightarrow> b\<lparr>body := take optlen (body b) @ take (unat seglen) xs\<rparr>)
                in (Some (mk [b], 1), s)
           else
             let b = ram_buf g PBUF_TRANSPORT optlen in
             if left = 0 then (Some (mk [b], 1), s)
             else
               let (ok, s) = tcp_try_alloc s;
                   xs = (case arg of None \<Rightarrow> [] | Some xs \<Rightarrow> take (unat seglen) xs)
               in if \<not> ok then (None, tcp_log (Free_chain [b]) s)
                  else (Some (mk [b, \<lparr>btype = PBUF_ROM, front = [], body = xs\<rparr>], 2), s))"

lemma enqueue_seg_count: "enqueue_seg pcb fl api opt arg left seglen seqno s = (Some (sg, k), s') \<Longrightarrow> 0 < k"
  by (auto simp: enqueue_seg_def Let_def split: if_splits prod.splits)

text \<open>The queue has room for twelve buffers, and each segment takes at least one, so the loop ends.\<close>

function enqueue_loop ::
  "tcb \<Rightarrow> u8 \<Rightarrow> u8 \<Rightarrow> u8 \<Rightarrow> u8 list option \<Rightarrow> u16 \<Rightarrow> u32 \<Rightarrow> nat \<Rightarrow> tcp_seg list \<Rightarrow> 'a tcp \<Rightarrow> (tcp_seg list \<times> nat) option \<times> 'a tcp" where
  "enqueue_loop pcb fl apiflags optflags arg left seqno queuelen queue s =
     (if queue \<noteq> [] \<and> left = 0 then (Some (queue, queuelen), s)
      else
        let seglen = seg_length (t_mss pcb) (LWIP_TCP_OPT_LENGTH optflags) left in
        case enqueue_seg pcb fl apiflags optflags arg left seglen seqno s of
          (None, s) \<Rightarrow> (None, tcp_segs_free queue s)
        | (Some (sg, k), s) \<Rightarrow>
            if TCP_SND_QUEUELEN < queuelen + k then (None, tcp_segs_free (queue @ [sg]) s)
            else enqueue_loop pcb fl apiflags optflags (map_option (drop (unat seglen)) arg) (left - seglen)
                   (seqno + ucast seglen) (queuelen + k) (queue @ [sg]) s)"
  by pat_completeness auto
termination
  by (relation "measure (\<lambda>(_, _, _, _, _, _, _, queuelen, _). Suc TCP_SND_QUEUELEN - queuelen)")
    (auto dest!: enqueue_seg_count [OF sym])

text \<open>The first of the new segments is joined to the last one of the queue when there is room in it.\<close>

definition joins :: "tcb \<Rightarrow> u8 \<Rightarrow> tcp_seg \<Rightarrow> tcp_seg \<Rightarrow> bool" where
  "joins pcb fl useg new \<longleftrightarrow> TCP_TCPLEN useg \<noteq> 0 \<and> th_flags (tcphdr useg) AND (TCP_SYN OR TCP_FIN) = 0
     \<and> fl AND (TCP_SYN OR TCP_FIN) = 0 \<and> unat (seg_len useg) + unat (seg_len new) \<le> unat (t_mss pcb)
     \<and> seg_flags useg = seg_flags new"

definition strip_header :: "nat \<Rightarrow> buf \<Rightarrow> buf" where
  "strip_header optlen b = b\<lparr>front := front b @ take optlen (body b), body := drop optlen (body b)\<rparr>"

definition append_queue :: "tcb \<Rightarrow> u8 \<Rightarrow> nat \<Rightarrow> tcp_seg list \<Rightarrow> nat \<Rightarrow> 'a tcp \<Rightarrow> tcp_seg list \<times> nat \<times> 'a tcp" where
  "append_queue pcb fl optlen queue queuelen s =
     (let q = hd queue; useg = last (unsent pcb) in
      if unsent pcb \<noteq> [] \<and> joins pcb fl useg q
      then
        let b = strip_header optlen (hd (seg_p q));
            emptied = body b = [];
            p = (if emptied then tl (seg_p q) else b # tl (seg_p q))
        in (butlast (unsent pcb) @ [useg\<lparr>seg_p := seg_p useg @ p, seg_len := seg_len useg + seg_len q\<rparr>] @ tl queue,
            if emptied then queuelen - 1 else queuelen,
            if emptied then tcp_log (Free_chain [b]) s else s)
      else (unsent pcb @ queue, queuelen, s))"

definition push_last :: "u8 \<Rightarrow> tcp_seg list \<Rightarrow> tcp_seg list" where
  "push_last apiflags q =
     (if 0 < seg_len (last q) \<and> apiflags AND TCP_WRITE_FLAG_MORE = 0 then butlast q @ [TCPH_SET_FLAG TCP_PSH (last q)] else q)"

definition tcp_enqueue :: "nat \<Rightarrow> u8 list option \<Rightarrow> u16 \<Rightarrow> u8 \<Rightarrow> u8 \<Rightarrow> u8 \<Rightarrow> 'a tcp \<Rightarrow> err_t \<times> 'a tcp" where
  "tcp_enqueue a arg len fl apiflags optflags s =
     (let pcb = tcp_mem s a; optlen = LWIP_TCP_OPT_LENGTH optflags;
          fail = set_tcb a (\<lambda>t. t\<lparr>t_flags := t_flags t OR TF_NAGLEMEMERR\<rparr>)
      in if len = 0 \<and> optflags = 0 \<and> fl AND (TCP_SYN OR TCP_FIN) = 0 then (ERR_ARG, s)
         else if len = 0 \<and> arg \<noteq> None then (ERR_ARG, s)
         else if snd_buf pcb < len then (ERR_MEM, fail s)
         else if TCP_SND_QUEUELEN \<le> unat (snd_queuelen pcb) then (ERR_MEM, fail s)
         else
           case enqueue_loop pcb fl apiflags optflags arg len (snd_lbb pcb) (unat (snd_queuelen pcb)) [] s of
             (None, s) \<Rightarrow> (ERR_MEM, fail s)
           | (Some (queue, queuelen), s) \<Rightarrow>
               let (q, queuelen, s) = append_queue pcb fl optlen queue queuelen s;
                   n = (if fl AND (TCP_SYN OR TCP_FIN) \<noteq> 0 then len + 1 else len)
               in (ERR_OK,
                   set_tcb a (\<lambda>t. t\<lparr>unsent := push_last apiflags q,
                                    t_flags := (if fl AND TCP_FIN \<noteq> 0 then t_flags t OR TF_FIN else t_flags t),
                                    snd_lbb := snd_lbb t + ucast n, snd_buf := snd_buf t - n,
                                    snd_queuelen := of_nat queuelen\<rparr>) s))"

definition tcp_send_ctrl :: "nat \<Rightarrow> u8 \<Rightarrow> 'a tcp \<Rightarrow> err_t \<times> 'a tcp" where
  "tcp_send_ctrl a fl s = tcp_enqueue a None 0 fl TCP_WRITE_FLAG_COPY 0 s"

definition tcp_write :: "nat \<Rightarrow> u8 list \<Rightarrow> u8 \<Rightarrow> 'a tcp \<Rightarrow> err_t \<times> 'a tcp" where
  "tcp_write a xs apiflags s =
     (if t_state (tcp_mem s a) \<in> {ESTABLISHED, CLOSE_WAIT, SYN_SENT, SYN_RCVD}
      then (if xs \<noteq> [] then tcp_enqueue a (Some xs) (of_nat (length xs)) 0 apiflags 0 s else (ERR_OK, s))
      else (ERR_CONN, s))"

section \<open>Retransmission and probes\<close>

definition tcp_rexmit_rto :: "nat \<Rightarrow> 'a tcp \<Rightarrow> 'a tcp option" where
  "tcp_rexmit_rto a s =
     (if unacked (tcp_mem s a) = [] then Some s
      else map_option snd (tcp_output a
             (set_tcb a (\<lambda>t. t\<lparr>unsent := unacked t @ unsent t, unacked := [], nrtx := nrtx t + 1, rttest := 0\<rparr>) s)))"

definition tcp_rexmit :: "nat \<Rightarrow> 'a tcp \<Rightarrow> 'a tcp option" where
  "tcp_rexmit a s =
     (case unacked (tcp_mem s a) of
        [] \<Rightarrow> Some s
      | sg # sgs \<Rightarrow>
          map_option snd (tcp_output a
            (set_tcb a (\<lambda>t. t\<lparr>unacked := sgs, unsent := insert_seg sg (unsent t), nrtx := nrtx t + 1, rttest := 0\<rparr>) s)))"

definition tcp_keepalive :: "nat \<Rightarrow> 'a tcp \<Rightarrow> 'a tcp option" where
  "tcp_keepalive a s =
     (let (ok, s) = tcp_try_alloc s; pcb = tcp_mem s a in
      if \<not> ok then Some s
      else let (h, s) = tcp_output_set_header a 0 (snd_nxt pcb - 1) s
           in send_header h [] (t_local_ip pcb) (t_remote_ip pcb) (t_ttl pcb) 0 s)"

text \<open>A segment without data has no first byte; what is read then is behind its buffer.\<close>

definition tcp_zero_window_probe :: "nat \<Rightarrow> 'a tcp \<Rightarrow> 'a tcp option" where
  "tcp_zero_window_probe a s =
     (let pcb = tcp_mem s a in
      case unacked pcb @ unsent pcb of
        [] \<Rightarrow> Some s
      | sg # _ \<Rightarrow>
          let (ok, s) = tcp_try_alloc s in
          if \<not> ok then Some s
          else
            let (h, s) = tcp_output_set_header a 0 (seg_seqno sg) s;
                xs = drop (LWIP_TCP_OPT_LENGTH (seg_flags sg)) (contents (seg_p sg));
                x = (case xs of [] \<Rightarrow> garbage (tcp_ip s) 0 | x # _ \<Rightarrow> x)
            in send_header h [x] (t_local_ip pcb) (t_remote_ip pcb) (t_ttl pcb) 0 s)"

end
