(* ===== verification/TcpConn.thy ===== *)
theory TcpConn
  imports TcpOut
begin

text \<open>
  \<open>tcp.c\<close>: control blocks from the pool to the lists and back, the calls of the application, and the two
  timers.  Binding and the choice of a port are those of \<open>TcpListen\<close>, on the view of the
  blocks that they use.  After a callback the code goes on with the block it was about; when
  the callback has freed it, that is \<open>None\<close>.
\<close>

section \<open>The lists\<close>

text \<open>
  \<open>TCP_RMV\<close> clears the link of the block also when it is not in the given list: a list that it is
  in then ends with it.
\<close>

definition cut_after :: "nat \<Rightarrow> nat list \<Rightarrow> nat list" where
  "cut_after a xs = (if a \<in> set xs then takeWhile (\<lambda>x. x \<noteq> a) xs @ [a] else xs)"

definition rmv_active :: "nat \<Rightarrow> 'a tcp \<Rightarrow> 'a tcp" where
  "rmv_active a s =
     (if a \<in> set (tcp_active_pcbs s) then s\<lparr>tcp_active_pcbs := remove1 a (tcp_active_pcbs s)\<rparr>
      else s\<lparr>tcp_bound_pcbs := cut_after a (tcp_bound_pcbs s), tcp_tw_pcbs := cut_after a (tcp_tw_pcbs s)\<rparr>)"

definition rmv_bound :: "nat \<Rightarrow> 'a tcp \<Rightarrow> 'a tcp" where
  "rmv_bound a s =
     (if a \<in> set (tcp_bound_pcbs s) then s\<lparr>tcp_bound_pcbs := remove1 a (tcp_bound_pcbs s)\<rparr>
      else s\<lparr>tcp_active_pcbs := cut_after a (tcp_active_pcbs s), tcp_tw_pcbs := cut_after a (tcp_tw_pcbs s)\<rparr>)"

definition rmv_tw :: "nat \<Rightarrow> 'a tcp \<Rightarrow> 'a tcp" where
  "rmv_tw a s =
     (if a \<in> set (tcp_tw_pcbs s) then s\<lparr>tcp_tw_pcbs := remove1 a (tcp_tw_pcbs s)\<rparr>
      else s\<lparr>tcp_bound_pcbs := cut_after a (tcp_bound_pcbs s), tcp_active_pcbs := cut_after a (tcp_active_pcbs s)\<rparr>)"

definition reg_active :: "nat \<Rightarrow> 'a tcp \<Rightarrow> 'a tcp" where
  "reg_active a s = s\<lparr>tcp_active_pcbs := a # tcp_active_pcbs s\<rparr>"

definition free_tcb :: "nat \<Rightarrow> 'a tcp \<Rightarrow> 'a tcp" where
  "free_tcb a s = s\<lparr>tcp_free := a # tcp_free s\<rparr>"

definition freed :: "nat \<Rightarrow> 'a tcp \<Rightarrow> bool" where
  "freed a s \<longleftrightarrow> a \<in> set (tcp_free s)"

definition set_state :: "tcp_state \<Rightarrow> nat \<Rightarrow> 'a tcp \<Rightarrow> 'a tcp" where
  "set_state x a = set_tcb a (\<lambda>t. t\<lparr>t_state := x\<rparr>)"

section \<open>Closing\<close>

definition free_refused :: "chain option \<Rightarrow> 'a tcp \<Rightarrow> 'a tcp" where
  "free_refused r s = (case r of None \<Rightarrow> s | Some p \<Rightarrow> tcp_log (Free_chain p) s)"

definition tcp_pcb_purge :: "nat \<Rightarrow> 'a tcp \<Rightarrow> 'a tcp" where
  "tcp_pcb_purge a s =
     (let pcb = tcp_mem s a in
      if t_state pcb \<in> {CLOSED, TIME_WAIT, LISTEN} then s
      else tcp_segs_free (unacked pcb) (tcp_segs_free (unsent pcb) (free_refused (refused_data pcb)
             (set_tcb a (\<lambda>t. t\<lparr>refused_data := None, unsent := [], unacked := []\<rparr>) s))))"

definition tcp_pcb_remove :: "(nat \<Rightarrow> 'a tcp \<Rightarrow> 'a tcp) \<Rightarrow> nat \<Rightarrow> 'a tcp \<Rightarrow> 'a tcp option" where
  "tcp_pcb_remove rmv a s =
     (let s = tcp_pcb_purge a (rmv a s); pcb = tcp_mem s a in
      map_option (set_state CLOSED a)
        (if t_state pcb \<noteq> TIME_WAIT \<and> t_state pcb \<noteq> LISTEN \<and> t_flags pcb AND TF_ACK_DELAY \<noteq> 0
         then map_option snd (tcp_output a (set_tcb a (\<lambda>t. t\<lparr>t_flags := t_flags t OR TF_ACK_NOW\<rparr>) s))
         else Some s))"

text \<open>A FIN is queued, then the state changes, then what can be sent is sent; its result is ignored.\<close>

definition close_with_fin :: "tcp_state \<Rightarrow> nat \<Rightarrow> 'a tcp \<Rightarrow> (err_t \<times> 'a tcp) option" where
  "close_with_fin x a s =
     (let (err, s) = tcp_send_ctrl a TCP_FIN s in
      if err \<noteq> ERR_OK then Some (err, s)
      else map_option (\<lambda>(_, s). (ERR_OK, s)) (tcp_output a (set_state x a s)))"

definition tcp_close :: "nat \<Rightarrow> 'a tcp \<Rightarrow> (err_t \<times> 'a tcp) option" where
  "tcp_close a s =
     (case t_state (tcp_mem s a) of
        CLOSED \<Rightarrow> Some (ERR_OK, free_tcb a (rmv_bound a s))
      | SYN_SENT \<Rightarrow> map_option (\<lambda>s. (ERR_OK, free_tcb a s)) (tcp_pcb_remove rmv_active a s)
      | SYN_RCVD \<Rightarrow> close_with_fin FIN_WAIT_1 a s
      | ESTABLISHED \<Rightarrow> close_with_fin FIN_WAIT_1 a s
      | CLOSE_WAIT \<Rightarrow> close_with_fin LAST_ACK a s
      | _ \<Rightarrow> Some (ERR_OK, s))"

text \<open>A listening block.\<close>

definition tcp_close_listen :: "nat \<Rightarrow> 'a tcp \<Rightarrow> err_t \<times> 'a tcp" where
  "tcp_close_listen l s = (ERR_OK, s\<lparr>tcp_listen_pcbs := remove1 l (tcp_listen_pcbs s), listen_free := l # listen_free s\<rparr>)"

definition tcp_recv_null :: "nat \<Rightarrow> chain option \<Rightarrow> err_t \<Rightarrow> 'a tcp \<Rightarrow> (err_t \<times> 'a tcp) option" where
  "tcp_recv_null a p err s =
     (case p of
        Some p \<Rightarrow> Some (ERR_OK, tcp_log (Free_chain p) s)
      | None \<Rightarrow> if err = ERR_OK then tcp_close a s else Some (ERR_OK, s))"

section \<open>The callbacks\<close>

definition TCP_EVENT_ACCEPT :: "'a tcp_app \<Rightarrow> nat \<Rightarrow> err_t \<Rightarrow> 'a tcp \<Rightarrow> (err_t \<times> 'a tcp) option" where
  "TCP_EVENT_ACCEPT app a err s =
     (case accept_cb (tcp_mem s a) of
        Cb_null \<Rightarrow> Some (ERR_OK, s)
      | Cb_default \<Rightarrow> Some (ERR_ABRT, s)
      | Cb c \<Rightarrow> app (Ev_accept c (callback_arg (tcp_mem s a)) a err) s)"

definition TCP_EVENT_RECV :: "'a tcp_app \<Rightarrow> nat \<Rightarrow> chain option \<Rightarrow> err_t \<Rightarrow> 'a tcp \<Rightarrow> (err_t \<times> 'a tcp) option" where
  "TCP_EVENT_RECV app a p err s =
     (case recv_cb (tcp_mem s a) of
        Cb_null \<Rightarrow> Some (ERR_OK, free_refused p s)
      | Cb_default \<Rightarrow> tcp_recv_null a p err s
      | Cb c \<Rightarrow> app (Ev_recv c (callback_arg (tcp_mem s a)) a p err) s)"

definition TCP_EVENT_SENT :: "'a tcp_app \<Rightarrow> nat \<Rightarrow> u16 \<Rightarrow> 'a tcp \<Rightarrow> (err_t \<times> 'a tcp) option" where
  "TCP_EVENT_SENT app a space s =
     (case sent_cb (tcp_mem s a) of Cb c \<Rightarrow> app (Ev_sent c (callback_arg (tcp_mem s a)) a space) s | _ \<Rightarrow> Some (ERR_OK, s))"

definition TCP_EVENT_CONNECTED :: "'a tcp_app \<Rightarrow> nat \<Rightarrow> err_t \<Rightarrow> 'a tcp \<Rightarrow> (err_t \<times> 'a tcp) option" where
  "TCP_EVENT_CONNECTED app a err s =
     (case connected_cb (tcp_mem s a) of Cb c \<Rightarrow> app (Ev_connected c (callback_arg (tcp_mem s a)) a err) s | _ \<Rightarrow> Some (ERR_OK, s))"

definition TCP_EVENT_POLL :: "'a tcp_app \<Rightarrow> nat \<Rightarrow> 'a tcp \<Rightarrow> (err_t \<times> 'a tcp) option" where
  "TCP_EVENT_POLL app a s =
     (case poll_cb (tcp_mem s a) of Cb c \<Rightarrow> app (Ev_poll c (callback_arg (tcp_mem s a)) a) s | _ \<Rightarrow> Some (ERR_OK, s))"

definition TCP_EVENT_ERR :: "'a tcp_app \<Rightarrow> tcp_callback \<Rightarrow> nat \<Rightarrow> err_t \<Rightarrow> 'a tcp \<Rightarrow> 'a tcp option" where
  "TCP_EVENT_ERR app errf arg err s =
     (case errf of Cb c \<Rightarrow> map_option snd (app (Ev_err c arg err) s) | _ \<Rightarrow> Some s)"

section \<open>Aborting and allocation\<close>

definition tcp_abandon :: "'a tcp_app \<Rightarrow> nat \<Rightarrow> bool \<Rightarrow> 'a tcp \<Rightarrow> 'a tcp option" where
  "tcp_abandon app a reset s =
     (let pcb = tcp_mem s a in
      if t_state pcb = TIME_WAIT then map_option (free_tcb a) (tcp_pcb_remove rmv_tw a s)
      else do {
        s \<leftarrow> tcp_pcb_remove rmv_active a s;
        let s = free_tcb a (tcp_segs_free (unsent (tcp_mem s a)) (tcp_segs_free (unacked (tcp_mem s a)) s));
        s \<leftarrow> TCP_EVENT_ERR app (errf_cb pcb) (callback_arg pcb) ERR_ABRT s;
        if reset
        then tcp_rst (snd_nxt pcb) (rcv_nxt pcb) (t_local_ip pcb) (t_remote_ip pcb) (t_local_port pcb) (t_remote_port pcb) s
        else Some s
      })"

abbreviation tcp_abort :: "'a tcp_app \<Rightarrow> nat \<Rightarrow> 'a tcp \<Rightarrow> 'a tcp option" where
  "tcp_abort app a \<equiv> tcp_abandon app a True"

text \<open>The search for the block to be killed: the idle time, the block and its priority so far.\<close>

definition inactive_for :: "'a tcp \<Rightarrow> nat \<Rightarrow> u32" where
  "inactive_for s a = tcp_ticks s - t_tmr (tcp_mem s a)"

definition kill_prio_step :: "u8 \<Rightarrow> 'a tcp \<Rightarrow> nat \<Rightarrow> u32 \<times> nat option \<times> u8 \<Rightarrow> u32 \<times> nat option \<times> u8" where
  "kill_prio_step prio s a = (\<lambda>(inactivity, inactive, mprio).
     let p = t_prio (tcp_mem s a) in
     if p \<le> prio \<and> p \<le> mprio \<and> inactivity \<le> inactive_for s a then (inactive_for s a, Some a, p) else (inactivity, inactive, mprio))"

definition tcp_kill_prio :: "'a tcp_app \<Rightarrow> u8 \<Rightarrow> 'a tcp \<Rightarrow> 'a tcp option" where
  "tcp_kill_prio app prio s =
     (case fold (kill_prio_step prio s) (tcp_active_pcbs s) (0, None, TCP_PRIO_MAX) of
        (_, Some a, _) \<Rightarrow> tcp_abort app a s
      | (_, None, _) \<Rightarrow> Some s)"

definition kill_tw_step :: "'a tcp \<Rightarrow> nat \<Rightarrow> u32 \<times> nat option \<Rightarrow> u32 \<times> nat option" where
  "kill_tw_step s a = (\<lambda>(inactivity, inactive).
     if inactivity \<le> inactive_for s a then (inactive_for s a, Some a) else (inactivity, inactive))"

definition tcp_kill_timewait :: "'a tcp_app \<Rightarrow> 'a tcp \<Rightarrow> 'a tcp option" where
  "tcp_kill_timewait app s =
     (case fold (kill_tw_step s) (tcp_tw_pcbs s) (0, None) of
        (_, Some a) \<Rightarrow> tcp_abort app a s
      | (_, None) \<Rightarrow> Some s)"

definition tcp_next_iss :: "'a tcp \<Rightarrow> u32 \<times> 'a tcp" where
  "tcp_next_iss s = (tcp_iss s + tcp_ticks s, s\<lparr>tcp_iss := tcp_iss s + tcp_ticks s\<rparr>)"

definition tcb_zero :: tcb where
  "tcb_zero =
     \<lparr>t_local_ip = 0, t_remote_ip = 0, so_options = 0, t_tos = 0, t_ttl = 0, t_state = CLOSED, t_prio = 0, callback_arg = 0,
      t_local_port = 0, t_remote_port = 0, t_flags = 0, rcv_nxt = 0, rcv_wnd = 0, rcv_ann_wnd = 0, rcv_ann_right_edge = 0,
      t_tmr = 0, polltmr = 0, pollinterval = 0, rtime = 0, t_mss = 0, rttest = 0, rtseq = 0, t_sa = 0, t_sv = 0, rto = 0,
      nrtx = 0, lastack = 0, dupacks = 0, cwnd = 0, ssthresh = 0, snd_nxt = 0, snd_wnd = 0, snd_wl1 = 0, snd_wl2 = 0,
      snd_lbb = 0, acked = 0, snd_buf = 0, snd_queuelen = 0, unsent = [], unacked = [], refused_data = None,
      sent_cb = Cb_null, recv_cb = Cb_null, connected_cb = Cb_null, poll_cb = Cb_null, errf_cb = Cb_null, accept_cb = Cb_null,
      keep_idle = 0, persist_cnt = 0, persist_backoff = 0, keep_cnt_sent = 0\<rparr>"

definition tcb_init :: "u32 \<Rightarrow> u32 \<Rightarrow> tcb" where
  "tcb_init iss ticks = tcb_zero
     \<lparr>t_prio := TCP_PRIO_NORMAL, snd_buf := TCP_SND_BUF, rcv_wnd := TCP_WND, rcv_ann_wnd := TCP_WND, t_ttl := TCP_TTL,
      t_mss := (if 536 < TCP_MSS then 536 else TCP_MSS), rto := 3000 div 500, t_sv := 3000 div 500, rtime := -1, cwnd := 1,
      snd_wl2 := iss, snd_nxt := iss, lastack := iss, snd_lbb := iss, t_tmr := ticks, recv_cb := Cb_default,
      keep_idle := TCP_KEEPIDLE_DEFAULT\<rparr>"

definition init_tcb :: "nat \<Rightarrow> 'a tcp \<Rightarrow> 'a tcp" where
  "init_tcb a s =
     (let (iss, s) = tcp_next_iss (s\<lparr>tcp_free := tl (tcp_free s)\<rparr>) in set_tcb a (\<lambda>_. tcb_init iss (tcp_ticks s)) s)"

definition tcp_alloc :: "'a tcp_app \<Rightarrow> u8 \<Rightarrow> 'a tcp \<Rightarrow> (nat option \<times> 'a tcp) option" where
  "tcp_alloc app prio s = do {
     s \<leftarrow> (if tcp_free s = [] then tcp_kill_timewait app s else Some s);
     s \<leftarrow> (if tcp_free s = [] then tcp_kill_prio app prio s else Some s);
     Some (case tcp_free s of [] \<Rightarrow> (None, s) | a # _ \<Rightarrow> (Some a, init_tcb a s))
   }"

definition tcp_new :: "'a tcp_app \<Rightarrow> 'a tcp \<Rightarrow> (nat option \<times> 'a tcp) option" where
  "tcp_new app = tcp_alloc app TCP_PRIO_NORMAL"

definition tcp_setprio :: "nat \<Rightarrow> u8 \<Rightarrow> 'a tcp \<Rightarrow> 'a tcp" where
  "tcp_setprio a prio = set_tcb a (\<lambda>t. t\<lparr>t_prio := prio\<rparr>)"

definition tcp_arg :: "nat \<Rightarrow> nat \<Rightarrow> 'a tcp \<Rightarrow> 'a tcp" where
  "tcp_arg a arg = set_tcb a (\<lambda>t. t\<lparr>callback_arg := arg\<rparr>)"

definition tcp_recv :: "nat \<Rightarrow> tcp_callback \<Rightarrow> 'a tcp \<Rightarrow> 'a tcp" where
  "tcp_recv a c = set_tcb a (\<lambda>t. t\<lparr>recv_cb := c\<rparr>)"

definition tcp_sent :: "nat \<Rightarrow> tcp_callback \<Rightarrow> 'a tcp \<Rightarrow> 'a tcp" where
  "tcp_sent a c = set_tcb a (\<lambda>t. t\<lparr>sent_cb := c\<rparr>)"

definition tcp_err :: "nat \<Rightarrow> tcp_callback \<Rightarrow> 'a tcp \<Rightarrow> 'a tcp" where
  "tcp_err a c = set_tcb a (\<lambda>t. t\<lparr>errf_cb := c\<rparr>)"

definition tcp_poll :: "nat \<Rightarrow> tcp_callback \<Rightarrow> u8 \<Rightarrow> 'a tcp \<Rightarrow> 'a tcp" where
  "tcp_poll a c interval = set_tcb a (\<lambda>t. t\<lparr>poll_cb := c, pollinterval := interval\<rparr>)"

text \<open>\<open>tcp_accept\<close> on a listening block.\<close>

definition tcp_accept :: "nat \<Rightarrow> tcp_callback \<Rightarrow> 'a tcp \<Rightarrow> 'a tcp" where
  "tcp_accept l c s = s\<lparr>listen_mem := (listen_mem s)(l := (listen_mem s l)\<lparr>l_accept := c\<rparr>)\<rparr>"

section \<open>Binding, listening and connecting\<close>

definition block_view :: "'a tcp \<Rightarrow> nat \<Rightarrow> tcp_pcb" where
  "block_view s a = \<lparr>pcb_at = a, local_ip = t_local_ip (tcp_mem s a), local_port = t_local_port (tcp_mem s a)\<rparr>"

definition listen_view :: "'a tcp \<Rightarrow> nat \<Rightarrow> tcp_pcb" where
  "listen_view s l = \<lparr>pcb_at = l, local_ip = l_local_ip (listen_mem s l), local_port = l_local_port (listen_mem s l)\<rparr>"

definition ports_view :: "'a tcp \<Rightarrow> tcp_pcbs" where
  "ports_view s =
     \<lparr>listen_pcbs = map (listen_view s) (tcp_listen_pcbs s), active_pcbs = map (block_view s) (tcp_active_pcbs s),
      bound_pcbs = map (block_view s) (tcp_bound_pcbs s), tw_pcbs = map (block_view s) (tcp_tw_pcbs s), last_port = tcp_port s\<rparr>"

definition tcb_bind :: "nat \<Rightarrow> u32 \<Rightarrow> u16 \<Rightarrow> 'a tcp \<Rightarrow> (err_t \<times> 'a tcp) option" where
  "tcb_bind a ipaddr port s = do {
     (err, pcb, v) \<leftarrow> tcp_bind (t_state (tcp_mem s a) = CLOSED) (block_view s a) ipaddr port (ports_view s);
     let s = s\<lparr>tcp_port := last_port v\<rparr>;
     Some (err, if err \<noteq> ERR_OK then s
                else (set_tcb a (\<lambda>t. t\<lparr>t_local_ip := local_ip pcb, t_local_port := local_port pcb\<rparr>) s)
                       \<lparr>tcp_bound_pcbs := a # tcp_bound_pcbs s\<rparr>)
   }"

text \<open>The element of the pool keeps the priority that its memory holds: it is not set.\<close>

definition tcb_listen :: "nat \<Rightarrow> 'a tcp \<Rightarrow> nat option \<times> 'a tcp" where
  "tcb_listen a s =
     (let pcb = tcp_mem s a in
      if t_state pcb \<noteq> CLOSED then (None, s)
      else case listen_free s of
        [] \<Rightarrow> (None, s)
      | l # ls \<Rightarrow>
          let lpcb = (listen_mem s l)\<lparr>l_callback_arg := callback_arg pcb, l_local_port := t_local_port pcb,
                        l_so_options := so_options pcb OR SOF_ACCEPTCONN, l_local_ip := t_local_ip pcb, l_accept := Cb_default\<rparr>;
              s = free_tcb a (rmv_bound a s)
          in (Some l, s\<lparr>listen_mem := (listen_mem s)(l := lpcb), listen_free := ls, tcp_listen_pcbs := l # tcp_listen_pcbs s\<rparr>))"

definition tcp_eff_send_mss :: "u16 \<Rightarrow> u32 \<Rightarrow> 'a tcp \<Rightarrow> u16" where
  "tcp_eff_send_mss sendmss addr s =
     (case ip_route addr (tcp_ip s) of
        None \<Rightarrow> sendmss
      | Some n \<Rightarrow> let m = mtu (netif_list (tcp_ip s) ! n) in if m \<noteq> 0 then min sendmss (m - 20 - 20) else sendmss)"

definition connect_tcb :: "u32 \<Rightarrow> u16 \<Rightarrow> u16 \<Rightarrow> tcp_callback \<Rightarrow> u32 \<Rightarrow> u16 \<Rightarrow> tcb \<Rightarrow> tcb" where
  "connect_tcb ipaddr port local connected iss mss t = t
     \<lparr>t_remote_ip := ipaddr, t_remote_port := port, t_local_port := local, rcv_nxt := 0, snd_nxt := iss, lastack := iss - 1,
      snd_lbb := iss - 1, rcv_wnd := TCP_WND, rcv_ann_wnd := TCP_WND, rcv_ann_right_edge := 0, snd_wnd := TCP_WND,
      t_mss := mss, cwnd := 1, ssthresh := mss * 10, t_state := SYN_SENT, connected_cb := connected\<rparr>"

definition tcp_connect :: "nat \<Rightarrow> u32 option \<Rightarrow> u16 \<Rightarrow> tcp_callback \<Rightarrow> 'a tcp \<Rightarrow> (err_t \<times> 'a tcp) option" where
  "tcp_connect a ipaddr port connected s =
     (if t_state (tcp_mem s a) \<noteq> CLOSED then Some (ERR_ISCONN, s)
      else case ipaddr of
        None \<Rightarrow> Some (ERR_VAL, s)
      | Some ipaddr \<Rightarrow> do {
          (local, v) \<leftarrow> (if t_local_port (tcp_mem s a) = 0 then tcp_new_port port_count (ports_view s)
                          else Some (t_local_port (tcp_mem s a), ports_view s));
          let (iss, s) = tcp_next_iss (s\<lparr>tcp_port := last_port v\<rparr>);
          let mss = tcp_eff_send_mss (if 536 < TCP_MSS then 536 else TCP_MSS) ipaddr s;
          let s = reg_active a (rmv_bound a (set_tcb a (connect_tcb ipaddr port local connected iss mss) s));
          let (ret, s) = tcp_enqueue a None 0 TCP_SYN 0 TF_SEG_OPTS_MSS s;
          if ret \<noteq> ERR_OK then Some (ret, s) else map_option (\<lambda>(_, s). (ret, s)) (tcp_output a s)
        })"

section \<open>The receive window\<close>

definition tcp_update_rcv_ann_wnd :: "nat \<Rightarrow> 'a tcp \<Rightarrow> u32 \<times> 'a tcp" where
  "tcp_update_rcv_ann_wnd a s =
     (let pcb = tcp_mem s a; new_right_edge = rcv_nxt pcb + ucast (rcv_wnd pcb) in
      if TCP_SEQ_GEQ new_right_edge (rcv_ann_right_edge pcb + ucast (t_mss pcb))
      then (new_right_edge - rcv_ann_right_edge pcb, set_tcb a (\<lambda>t. t\<lparr>rcv_ann_wnd := rcv_wnd pcb\<rparr>) s)
      else if TCP_SEQ_GT (rcv_nxt pcb) (rcv_ann_right_edge pcb)
      then (0, set_tcb a (\<lambda>t. t\<lparr>rcv_ann_wnd := 0\<rparr>) s)
      else (0, set_tcb a (\<lambda>t. t\<lparr>rcv_ann_wnd := ucast (rcv_ann_right_edge pcb - rcv_nxt pcb)\<rparr>) s))"

definition tcp_recved :: "nat \<Rightarrow> u16 \<Rightarrow> 'a tcp \<Rightarrow> 'a tcp option" where
  "tcp_recved a len s =
     (let s = set_tcb a (\<lambda>t. t\<lparr>rcv_wnd := rcv_wnd t + len\<rparr>) s;
          s = set_tcb a (\<lambda>t. if TCP_WND < rcv_wnd t then t\<lparr>rcv_wnd := TCP_WND\<rparr> else t) s;
          (wnd_inflation, s) = tcp_update_rcv_ann_wnd a s
      in if TCP_WND_UPDATE_THRESHOLD \<le> sint wnd_inflation then tcp_ack_now a s else Some s)"

section \<open>The slow timer\<close>

text \<open>The new time-out: the shift is by the number of retransmissions, and only thirteen have an entry.\<close>

definition rto_again :: "tcb \<Rightarrow> s16 option" where
  "rto_again t =
     (if t_state t = SYN_SENT then Some (rto t)
      else if unat (nrtx t) < length tcp_backoff
      then Some (word_of_int ((sint (t_sa t) div 8 + sint (t_sv t)) * 2 ^ (tcp_backoff ! unat (nrtx t))))
      else None)"

definition back_off :: "tcb \<Rightarrow> tcb" where
  "back_off t =
     (let eff_wnd = min (cwnd t) (snd_wnd t); thresh = drop_bit 1 eff_wnd in
      t\<lparr>rtime := 0, ssthresh := (if thresh < t_mss t then t_mss t * 2 else thresh), cwnd := t_mss t\<rparr>)"

definition slow_persist :: "nat \<Rightarrow> 'a tcp \<Rightarrow> 'a tcp option" where
  "slow_persist a s =
     (let s = set_tcb a (\<lambda>t. t\<lparr>persist_cnt := persist_cnt t + 1\<rparr>) s; t = tcp_mem s a in
      if length tcp_persist_backoff < unat (persist_backoff t) then None
      else if tcp_persist_backoff ! (unat (persist_backoff t) - 1) \<le> persist_cnt t
      then tcp_zero_window_probe a
             (set_tcb a (\<lambda>t. t\<lparr>persist_cnt := 0, persist_backoff := (if persist_backoff t < 7 then persist_backoff t + 1 else persist_backoff t)\<rparr>) s)
      else Some s)"

definition slow_rexmit :: "nat \<Rightarrow> 'a tcp \<Rightarrow> 'a tcp option" where
  "slow_rexmit a s =
     (let s = set_tcb a (\<lambda>t. if 0 \<le> sint (rtime t) then t\<lparr>rtime := rtime t + 1\<rparr> else t) s; t = tcp_mem s a in
      if unacked t \<noteq> [] \<and> sint (rto t) \<le> sint (rtime t)
      then do {
        r \<leftarrow> rto_again t;
        tcp_rexmit_rto a (set_tcb a (\<lambda>t. back_off (t\<lparr>rto := r\<rparr>)) s)
      }
      else Some s)"

definition exceeds :: "'a tcp \<Rightarrow> nat \<Rightarrow> u32 \<Rightarrow> bool" where
  "exceeds s a n \<longleftrightarrow> n < inactive_for s a"

definition slow_keepalive :: "'a tcp_app \<Rightarrow> nat \<Rightarrow> 'a tcp \<Rightarrow> 'a tcp option" where
  "slow_keepalive app a s =
     (let t = tcp_mem s a in
      if so_options t AND SOF_KEEPALIVE \<noteq> 0 \<and> t_state t \<in> {ESTABLISHED, CLOSE_WAIT}
      then if exceeds s a ((keep_idle t + TCP_MAXIDLE) div TCP_SLOW_INTERVAL) then tcp_abort app a s
           else if exceeds s a ((keep_idle t + ucast (keep_cnt_sent t) * TCP_KEEPINTVL_DEFAULT) div TCP_SLOW_INTERVAL)
           then map_option (set_tcb a (\<lambda>t. t\<lparr>keep_cnt_sent := keep_cnt_sent t + 1\<rparr>)) (tcp_keepalive a s)
           else Some s
      else Some s)"

definition stays_too_long :: "'a tcp \<Rightarrow> nat \<Rightarrow> tcp_state \<Rightarrow> bool" where
  "stays_too_long s a x \<longleftrightarrow>
     (case x of
        FIN_WAIT_2 \<Rightarrow> exceeds s a (TCP_FIN_WAIT_TIMEOUT div TCP_SLOW_INTERVAL)
      | SYN_RCVD \<Rightarrow> exceeds s a (TCP_SYN_RCVD_TIMEOUT div TCP_SLOW_INTERVAL)
      | LAST_ACK \<Rightarrow> exceeds s a (2 * TCP_MSL div TCP_SLOW_INTERVAL)
      | TIME_WAIT \<Rightarrow> exceeds s a (2 * TCP_MSL div TCP_SLOW_INTERVAL)
      | _ \<Rightarrow> False)"

text \<open>The work on an active block, and whether it has to go.\<close>

definition slow_check :: "'a tcp_app \<Rightarrow> nat \<Rightarrow> 'a tcp \<Rightarrow> (bool \<times> 'a tcp) option" where
  "slow_check app a s = do {
     let t = tcp_mem s a;
     (gone, s) \<leftarrow>
       (if t_state t = SYN_SENT \<and> nrtx t = TCP_SYNMAXRTX then Some (True, s)
        else if nrtx t = TCP_MAXRTX then Some (True, s)
        else if 0 < persist_backoff t then map_option (\<lambda>s. (False, s)) (slow_persist a s)
        else map_option (\<lambda>s. (False, s)) (slow_rexmit a s));
     s \<leftarrow> slow_keepalive app a s;
     if freed a s then None
     else Some (gone \<or> stays_too_long s a (t_state (tcp_mem s a)), s)
   }"

definition successor :: "nat \<Rightarrow> nat list \<Rightarrow> nat option" where
  "successor a xs = (case dropWhile (\<lambda>x. x \<noteq> a) xs of _ # b # _ \<Rightarrow> Some b | _ \<Rightarrow> None)"

definition slow_remove :: "'a tcp_app \<Rightarrow> nat \<Rightarrow> 'a tcp \<Rightarrow> (nat option \<times> 'a tcp) option" where
  "slow_remove app a s = do {
     let s = tcp_pcb_purge a s;
     let pcb = tcp_mem s a;
     let n = successor a (tcp_active_pcbs s);
     s \<leftarrow> TCP_EVENT_ERR app (errf_cb pcb) (callback_arg pcb) ERR_ABRT (s\<lparr>tcp_active_pcbs := remove1 a (tcp_active_pcbs s)\<rparr>);
     Some (n, free_tcb a s)
   }"

definition slow_poll :: "'a tcp_app \<Rightarrow> nat \<Rightarrow> 'a tcp \<Rightarrow> (nat option \<times> 'a tcp) option" where
  "slow_poll app a s = do {
     let s = set_tcb a (\<lambda>t. t\<lparr>polltmr := polltmr t + 1\<rparr>) s;
     s \<leftarrow>
       (if pollinterval (tcp_mem s a) \<le> polltmr (tcp_mem s a)
        then do {
          (err, s) \<leftarrow> TCP_EVENT_POLL app a (set_tcb a (\<lambda>t. t\<lparr>polltmr := 0\<rparr>) s);
          if freed a s then None
          else if err = ERR_OK then map_option snd (tcp_output a s) else Some s
        }
        else Some s);
     Some (successor a (tcp_active_pcbs s), s)
   }"

partial_function (option) slow_loop :: "'a tcp_app \<Rightarrow> nat option \<Rightarrow> 'a tcp \<Rightarrow> 'a tcp option" where
  "slow_loop app here s =
     (case here of
        None \<Rightarrow> Some s
      | Some a \<Rightarrow>
          if freed a s then None
          else do {
            (gone, s) \<leftarrow> slow_check app a s;
            (n, s) \<leftarrow> (if gone then slow_remove app a s else slow_poll app a s);
            slow_loop app n s
          })"

fun tw_loop :: "nat list \<Rightarrow> 'a tcp \<Rightarrow> 'a tcp" where
  "tw_loop [] s = s"
| "tw_loop (a # as) s =
     tw_loop as (if stays_too_long s a TIME_WAIT
                 then free_tcb a ((tcp_pcb_purge a s)\<lparr>tcp_tw_pcbs := remove1 a (tcp_tw_pcbs s)\<rparr>) else s)"

abbreviation first_of :: "nat list \<Rightarrow> nat option" where
  "first_of xs \<equiv> (case xs of [] \<Rightarrow> None | a # _ \<Rightarrow> Some a)"

definition tcp_slowtmr :: "'a tcp_app \<Rightarrow> 'a tcp \<Rightarrow> 'a tcp option" where
  "tcp_slowtmr app s = do {
     let s = s\<lparr>tcp_ticks := tcp_ticks s + 1\<rparr>;
     s \<leftarrow> slow_loop app (first_of (tcp_active_pcbs s)) s;
     Some (tw_loop (tcp_tw_pcbs s) s)
   }"

section \<open>The fast timer\<close>

definition fast_step :: "'a tcp_app \<Rightarrow> nat \<Rightarrow> 'a tcp \<Rightarrow> 'a tcp option" where
  "fast_step app a s = do {
     s \<leftarrow>
       (case refused_data (tcp_mem s a) of
          None \<Rightarrow> Some s
        | Some p \<Rightarrow> do {
            (err, s) \<leftarrow> TCP_EVENT_RECV app a (Some p) ERR_OK s;
            if freed a s then None
            else Some (if err = ERR_OK then set_tcb a (\<lambda>t. t\<lparr>refused_data := None\<rparr>) s else s)
          });
     if t_flags (tcp_mem s a) AND TF_ACK_DELAY \<noteq> 0
     then map_option (set_tcb a (\<lambda>t. t\<lparr>t_flags := t_flags t AND NOT (TF_ACK_DELAY OR TF_ACK_NOW)\<rparr>)) (tcp_ack_now a s)
     else Some s
   }"

partial_function (option) fast_loop :: "'a tcp_app \<Rightarrow> nat option \<Rightarrow> 'a tcp \<Rightarrow> 'a tcp option" where
  "fast_loop app here s =
     (case here of
        None \<Rightarrow> Some s
      | Some a \<Rightarrow>
          if freed a s then None
          else do {
            s \<leftarrow> fast_step app a s;
            fast_loop app (successor a (tcp_active_pcbs s)) s
          })"

definition tcp_fasttmr :: "'a tcp_app \<Rightarrow> 'a tcp \<Rightarrow> 'a tcp option" where
  "tcp_fasttmr app s = fast_loop app (first_of (tcp_active_pcbs s)) s"

definition tcp_tmr :: "'a tcp_app \<Rightarrow> 'a tcp \<Rightarrow> 'a tcp option" where
  "tcp_tmr app s = do {
     s \<leftarrow> tcp_fasttmr app s;
     let s = s\<lparr>tcp_timer := tcp_timer s + 1\<rparr>;
     if tcp_timer s AND 1 \<noteq> 0 then tcp_slowtmr app s else Some s
   }"

end
