(* ===== verification/TcpIn.thy ===== *)
theory TcpIn
  imports TcpConn IpInput
begin

text \<open>
  \<open>tcp_in.c\<close>: the way of a received segment to its block, the state machine, the receiver and the options.
  The static variables about the segment being processed are the record \<open>segment_in\<close>.
\<close>

text \<open>
  \<open>in_p\<close> and \<open>in_len\<close> are the buffers and the length of \<open>inseg\<close>, without buffers once they belong to the
  application.  \<open>in_hdr\<close> is the header in the packet, in which the FIN can be erased, while
  \<open>in_flags\<close>, \<open>in_seqno\<close> and \<open>in_ackno\<close> are the variables \<open>flags\<close>, \<open>seqno\<close> and \<open>ackno\<close>.  \<open>in_opts\<close> is
  what follows the fixed part of the header in the first buffer.
\<close>

record segment_in =
  in_src :: u32
  in_dest :: u32
  in_hdr :: tcp_hdr
  in_opts :: "u8 list"
  in_p :: "chain option"
  in_len :: u16
  in_flags :: u8
  in_seqno :: u32
  in_ackno :: u32
  in_tcplen :: u16
  in_recv_flags :: u8
  in_recv_data :: "chain option"

section \<open>Options\<close>

text \<open>A length or a value is read without a test that it is inside the options: outside of the buffer it is \<open>None\<close>.\<close>

function parse_options :: "u8 list \<Rightarrow> nat \<Rightarrow> nat \<Rightarrow> u16 \<Rightarrow> u16 option" where
  "parse_options opts max_c c mss =
     (if max_c \<le> c then Some mss
      else if length opts \<le> c then None
      else if opts ! c = 0 then Some mss
      else if opts ! c = 1 then parse_options opts max_c (c + 1) mss
      else if length opts \<le> c + 1 then None
      else if opts ! c = 2
      then if opts ! (c + 1) \<noteq> 4 \<or> max_c < c + 4 then Some mss
           else if length opts < c + 4 then None
           else let m = push_bit 8 (ucast (opts ! (c + 2))) OR ucast (opts ! (c + 3))
                in parse_options opts max_c (c + 4) (if TCP_MSS < m \<or> m = 0 then TCP_MSS else m)
      else if opts ! (c + 1) = 0 then Some mss
      else parse_options opts max_c (c + unat (opts ! (c + 1))) mss)"
  by pat_completeness auto
termination
  by (relation "measure (\<lambda>(_, max_c, c, _). max_c - c)") (auto simp: unat_gt_0 intro!: diff_less_mono2)

definition tcp_parseopt :: "segment_in \<Rightarrow> u16 \<Rightarrow> u16 option" where
  "tcp_parseopt i mss =
     (if 5 < th_hdrlen (in_hdr i) then parse_options (in_opts i) (4 * (unat (th_hdrlen (in_hdr i)) - 5)) 0 mss else Some mss)"

section \<open>Receiving\<close>

text \<open>What an acknowledgement does: the send window, the queues and the round trip time.\<close>

definition window_update :: "segment_in \<Rightarrow> tcb \<Rightarrow> tcb" where
  "window_update i t =
     (if TCP_SEQ_LT (snd_wl1 t) (in_seqno i)
         \<or> snd_wl1 t = in_seqno i \<and> TCP_SEQ_LT (snd_wl2 t) (in_ackno i)
         \<or> snd_wl2 t = in_ackno i \<and> snd_wnd t < th_wnd (in_hdr i)
      then let t = t\<lparr>snd_wnd := th_wnd (in_hdr i), snd_wl1 := in_seqno i, snd_wl2 := in_ackno i\<rparr>
           in if 0 < snd_wnd t \<and> 0 < persist_backoff t then t\<lparr>persist_backoff := 0\<rparr> else t
      else t)"

definition enter_fast_recovery :: "tcb \<Rightarrow> tcb" where
  "enter_fast_recovery t =
     (let thresh = (if snd_wnd t < cwnd t then snd_wnd t div 2 else cwnd t div 2);
          thresh = (if unat thresh < 2 * unat (t_mss t) then 2 * t_mss t else thresh)
      in t\<lparr>ssthresh := thresh, cwnd := thresh + 3 * t_mss t, t_flags := t_flags t OR TF_INFR\<rparr>)"

definition inflate :: "tcb \<Rightarrow> tcb" where
  "inflate t = (if cwnd t < cwnd t + t_mss t then t\<lparr>cwnd := cwnd t + t_mss t\<rparr> else t)"

text \<open>\<open>edge\<close> is the right edge of the send window before it was updated.\<close>

definition duplicate_ack :: "u32 \<Rightarrow> nat \<Rightarrow> 'a tcp \<Rightarrow> 'a tcp option" where
  "duplicate_ack edge a s =
     (let s = set_tcb a (\<lambda>t. t\<lparr>acked := 0\<rparr>) s; t = tcp_mem s a in
      if snd_wl2 t + ucast (snd_wnd t) \<noteq> edge then Some s
      else
        let s = set_tcb a (\<lambda>t. t\<lparr>dupacks := dupacks t + 1\<rparr>) s; t = tcp_mem s a in
        if 3 \<le> dupacks t \<and> unacked t \<noteq> []
        then if t_flags t AND TF_INFR = 0 then map_option (set_tcb a enter_fast_recovery) (tcp_rexmit a s)
             else Some (set_tcb a inflate s)
        else Some s)"

definition open_window :: "tcb \<Rightarrow> tcb option" where
  "open_window t =
     (if state_code ESTABLISHED \<le> state_code (t_state t)
      then if cwnd t < ssthresh t then Some (inflate t)
           else if cwnd t = 0 then None
           else let new_cwnd = word_of_int (uint (cwnd t) + uint (t_mss t) * uint (t_mss t) div uint (cwnd t))
                in Some (if cwnd t < new_cwnd then t\<lparr>cwnd := new_cwnd\<rparr> else t)
      else Some t)"

definition ack_counters :: "u32 \<Rightarrow> tcb \<Rightarrow> tcb" where
  "ack_counters ackno t =
     (let t = (if t_flags t AND TF_INFR \<noteq> 0 then t\<lparr>t_flags := t_flags t AND NOT TF_INFR, cwnd := ssthresh t\<rparr> else t) in
      t\<lparr>nrtx := 0, rto := word_of_int (sint (t_sa t) div 8 + sint (t_sv t)), acked := ucast (ackno - lastack t),
        snd_buf := snd_buf t + ucast (ackno - lastack t), dupacks := 0, lastack := ackno\<rparr>)"

text \<open>A segment leaves its queue: its buffers are no longer counted, and are released.\<close>

definition drop_seg :: "nat \<Rightarrow> tcp_seg \<Rightarrow> 'a tcp \<Rightarrow> 'a tcp" where
  "drop_seg a sg s = tcp_seg_free sg (set_tcb a (\<lambda>t. t\<lparr>snd_queuelen := snd_queuelen t - ucast (chain_clen (seg_p sg))\<rparr>) s)"

definition drop_unacked :: "u32 \<Rightarrow> nat \<Rightarrow> 'a tcp \<Rightarrow> 'a tcp" where
  "drop_unacked ackno a s =
     (let done = (\<lambda>x. TCP_SEQ_LEQ (seg_seqno x + TCP_TCPLEN x) ackno); q = unacked (tcp_mem s a) in
      set_tcb a (\<lambda>t. t\<lparr>unacked := dropWhile done q\<rparr>) (fold (drop_seg a) (takeWhile done q) s))"

definition drop_unsent :: "u32 \<Rightarrow> nat \<Rightarrow> 'a tcp \<Rightarrow> 'a tcp" where
  "drop_unsent ackno a s =
     (let done = (\<lambda>x. TCP_SEQ_BETWEEN ackno (seg_seqno x + TCP_TCPLEN x) (snd_nxt (tcp_mem s a))); q = unsent (tcp_mem s a) in
      set_tcb a (\<lambda>t. t\<lparr>unsent := dropWhile done q\<rparr>) (fold (drop_seg a) (takeWhile done q) s))"

definition new_ack :: "u32 \<Rightarrow> nat \<Rightarrow> 'a tcp \<Rightarrow> 'a tcp option" where
  "new_ack ackno a s = do {
     t \<leftarrow> open_window (ack_counters ackno (tcp_mem s a));
     let s = drop_unacked ackno a (set_tcb a (\<lambda>_. t) s);
     Some (set_tcb a (\<lambda>t. t\<lparr>rtime := (if unacked t = [] then - 1 else 0), polltmr := 0\<rparr>) s)
   }"

definition round_trip :: "u32 \<Rightarrow> u32 \<Rightarrow> tcb \<Rightarrow> tcb" where
  "round_trip ticks ackno t =
     (if rttest t \<noteq> 0 \<and> TCP_SEQ_LT (rtseq t) ackno
      then let m :: s16 = ucast (ticks - rttest t);
               m = word_of_int (sint m - sint (t_sa t) div 8);
               sa = t_sa t + m;
               m = (if sint m < 0 then - m else m);
               m = word_of_int (sint m - sint (t_sv t) div 4);
               sv = t_sv t + m
           in t\<lparr>t_sa := sa, t_sv := sv, rto := word_of_int (sint sa div 8 + sint sv), rttest := 0\<rparr>
      else t)"

definition receive_ack :: "segment_in \<Rightarrow> nat \<Rightarrow> 'a tcp \<Rightarrow> 'a tcp option" where
  "receive_ack i a s = do {
     let ackno = in_ackno i;
     let edge = ucast (snd_wnd (tcp_mem s a)) + snd_wl2 (tcp_mem s a);
     let s = set_tcb a (window_update i) s;
     let t = tcp_mem s a;
     s \<leftarrow> (if lastack t = ackno then duplicate_ack edge a s
           else if TCP_SEQ_BETWEEN ackno (lastack t + 1) (snd_nxt t) then new_ack ackno a s
           else Some (set_tcb a (\<lambda>t. t\<lparr>acked := 0\<rparr>) s));
     let s = drop_unsent ackno a s;
     Some (set_tcb a (round_trip (tcp_ticks s) ackno) s)
   }"

text \<open>
  What comes before the next byte that is expected is cut off: buffers in front are emptied, and the payload of
  the buffer with that byte moves.
\<close>

fun skip_front :: "nat \<Rightarrow> chain \<Rightarrow> chain option" where
  "skip_front off [] = None"
| "skip_front off (b # bs) =
     (if length (body b) < off then map_option (\<lambda>bs. b\<lparr>body := []\<rparr> # bs) (skip_front (off - length (body b)) bs)
      else Some (case buf_header (sint (- of_nat off :: s16)) b of None \<Rightarrow> b # bs | Some b \<Rightarrow> b # bs))"

definition trim_front :: "u32 \<Rightarrow> segment_in \<Rightarrow> segment_in option" where
  "trim_front nxt i = do {
     p \<leftarrow> in_p i;
     p \<leftarrow> skip_front (unat (nxt - in_seqno i)) p;
     Some (i\<lparr>in_p := Some p, in_len := in_len i - ucast (nxt - in_seqno i), in_hdr := (in_hdr i)\<lparr>th_seqno := nxt\<rparr>, in_seqno := nxt\<rparr>)
   }"

definition inseg_tcplen :: "segment_in \<Rightarrow> u16" where
  "inseg_tcplen i = in_len i + (if th_flags (in_hdr i) AND (TCP_FIN OR TCP_SYN) \<noteq> 0 then 1 else 0)"

text \<open>What does not fit into the window is cut off, and the FIN with it.\<close>

definition trim_end :: "u16 \<Rightarrow> segment_in \<Rightarrow> segment_in" where
  "trim_end wnd i =
     (let i = i\<lparr>in_tcplen := inseg_tcplen i\<rparr> in
      if in_tcplen i \<le> wnd then i
      else
        let fl = th_flags (in_hdr i) AND NOT TCP_FIN;
            len = (if fl AND TCP_SYN \<noteq> 0 then wnd - 1 else wnd);
            i = i\<lparr>in_hdr := (in_hdr i)\<lparr>th_flags := fl\<rparr>, in_len := len, in_p := map_option (\<lambda>p. chain_realloc p (unat len)) (in_p i)\<rparr>
        in i\<lparr>in_tcplen := inseg_tcplen i\<rparr>)"

text \<open>The segment is the next one: it goes to the application, a FIN is noted, and it is acknowledged.\<close>

definition accept_seg :: "segment_in \<Rightarrow> nat \<Rightarrow> 'a tcp \<Rightarrow> (segment_in \<times> 'a tcp) option" where
  "accept_seg i a s = do {
     let i = trim_end (rcv_wnd (tcp_mem s a)) i;
     let s = set_tcb a (\<lambda>t. t\<lparr>rcv_nxt := in_seqno i + ucast (in_tcplen i), rcv_wnd := rcv_wnd t - in_tcplen i\<rparr>) s;
     let s = snd (tcp_update_rcv_ann_wnd a s);
     p \<leftarrow> in_p i;
     let i = (if 0 < chain_len p then i\<lparr>in_recv_data := Some p, in_p := None\<rparr> else i);
     let i = (if th_flags (in_hdr i) AND TCP_FIN \<noteq> 0 then i\<lparr>in_recv_flags := in_recv_flags i OR TF_GOT_FIN\<rparr> else i);
     s \<leftarrow> tcp_ack a s;
     Some (i, s)
   }"

definition in_window :: "segment_in \<Rightarrow> tcb \<Rightarrow> bool" where
  "in_window i t \<longleftrightarrow> TCP_SEQ_BETWEEN (in_seqno i) (rcv_nxt t) (rcv_nxt t + ucast (rcv_wnd t) - 1)"

definition receive_data :: "segment_in \<Rightarrow> nat \<Rightarrow> 'a tcp \<Rightarrow> (segment_in \<times> 'a tcp) option" where
  "receive_data i a s =
     (if in_tcplen i = 0
      then if in_window i (tcp_mem s a) then Some (i, s) else map_option (\<lambda>s. (i, s)) (tcp_ack_now a s)
      else do {
        let nxt = rcv_nxt (tcp_mem s a);
        (i, s) \<leftarrow>
          (if TCP_SEQ_BETWEEN nxt (in_seqno i + 1) (in_seqno i + ucast (in_tcplen i) - 1)
           then map_option (\<lambda>i. (i, s)) (trim_front nxt i)
           else if TCP_SEQ_LT (in_seqno i) nxt then map_option (\<lambda>s. (i, s)) (tcp_ack_now a s)
           else Some (i, s));
        if in_window i (tcp_mem s a) \<and> rcv_nxt (tcp_mem s a) = in_seqno i then accept_seg i a s
        else map_option (\<lambda>s. (i, s)) (tcp_ack_now a s)
      })"

definition tcp_receive :: "segment_in \<Rightarrow> nat \<Rightarrow> 'a tcp \<Rightarrow> (segment_in \<times> 'a tcp) option" where
  "tcp_receive i a s = do {
     s \<leftarrow> (if in_flags i AND TCP_ACK \<noteq> 0 then receive_ack i a s else Some s);
     receive_data i a s
   }"

section \<open>The state machine\<close>

definition rst_back :: "u32 \<Rightarrow> segment_in \<Rightarrow> 'a tcp \<Rightarrow> 'a tcp option" where
  "rst_back seqno i s =
     tcp_rst seqno (in_seqno i + ucast (in_tcplen i)) (in_dest i) (in_src i) (th_dest (in_hdr i)) (th_src (in_hdr i)) s"

definition to_time_wait :: "nat \<Rightarrow> 'a tcp \<Rightarrow> 'a tcp" where
  "to_time_wait a s =
     (let s = set_state TIME_WAIT a (rmv_active a (tcp_pcb_purge a s)) in s\<lparr>tcp_tw_pcbs := a # tcp_tw_pcbs s\<rparr>)"

abbreviation got_fin :: "segment_in \<Rightarrow> bool" where
  "got_fin i \<equiv> in_recv_flags i AND TF_GOT_FIN \<noteq> 0"

definition acks_all :: "segment_in \<Rightarrow> nat \<Rightarrow> 'a tcp \<Rightarrow> bool" where
  "acks_all i a s \<longleftrightarrow> in_flags i AND TCP_ACK \<noteq> 0 \<and> in_ackno i = snd_nxt (tcp_mem s a)"

definition process_reset :: "segment_in \<Rightarrow> nat \<Rightarrow> 'a tcp \<Rightarrow> err_t \<times> segment_in \<times> 'a tcp" where
  "process_reset i a s =
     (let t = tcp_mem s a in
      if (if t_state t = SYN_SENT then in_ackno i = snd_nxt t
          else TCP_SEQ_BETWEEN (in_seqno i) (rcv_nxt t) (rcv_nxt t + ucast (rcv_wnd t)))
      then (ERR_RST, i\<lparr>in_recv_flags := in_recv_flags i OR TF_RESET\<rparr>, set_tcb a (\<lambda>t. t\<lparr>t_flags := t_flags t AND NOT TF_ACK_DELAY\<rparr>) s)
      else (ERR_OK, i, s))"

definition connected_tcb :: "segment_in \<Rightarrow> u16 \<Rightarrow> tcp_seg list \<Rightarrow> tcb \<Rightarrow> tcb" where
  "connected_tcb i mss rest t =
     t\<lparr>snd_buf := snd_buf t + 1, rcv_nxt := in_seqno i + 1, rcv_ann_right_edge := in_seqno i + 1, lastack := in_ackno i,
       snd_wnd := th_wnd (in_hdr i), snd_wl1 := in_seqno i - 1, t_state := ESTABLISHED, t_mss := mss, ssthresh := mss * 10,
       cwnd := (if cwnd t = 1 then mss * 2 else mss), snd_queuelen := snd_queuelen t - 1, unacked := rest,
       rtime := (if rest = [] then - 1 else 0), nrtx := (if rest = [] then nrtx t else 0)\<rparr>"

definition process_syn_sent :: "'a tcp_app \<Rightarrow> segment_in \<Rightarrow> nat \<Rightarrow> 'a tcp \<Rightarrow> 'a tcp option" where
  "process_syn_sent app i a s =
     (if in_flags i AND TCP_ACK \<noteq> 0 \<and> in_flags i AND TCP_SYN \<noteq> 0
      then case unacked (tcp_mem s a) of
        [] \<Rightarrow> None
      | rseg # rest \<Rightarrow>
          if in_ackno i = seg_seqno rseg + 1
          then do {
            let mss = tcp_eff_send_mss (t_mss (tcp_mem s a)) (t_remote_ip (tcp_mem s a)) s;
            let s = tcp_seg_free rseg (set_tcb a (connected_tcb i mss rest) s);
            (_, s) \<leftarrow> TCP_EVENT_CONNECTED app a ERR_OK s;
            if freed a s then None else tcp_ack_now a s
          }
          else rst_back (in_ackno i) i s
      else if in_flags i AND TCP_ACK \<noteq> 0 then rst_back (in_ackno i) i s
      else Some s)"

definition process_syn_rcvd :: "'a tcp_app \<Rightarrow> segment_in \<Rightarrow> nat \<Rightarrow> 'a tcp \<Rightarrow> (err_t \<times> segment_in \<times> 'a tcp) option" where
  "process_syn_rcvd app i a s =
     (let t = tcp_mem s a; ok = (\<lambda>s. (ERR_OK, i, s)) in
      if in_flags i AND TCP_ACK \<noteq> 0
      then if TCP_SEQ_BETWEEN (in_ackno i) (lastack t + 1) (snd_nxt t)
           then do {
             (err, s) \<leftarrow> TCP_EVENT_ACCEPT app a ERR_OK (set_state ESTABLISHED a s);
             if freed a s then None
             else if err \<noteq> ERR_OK then map_option (\<lambda>s. (ERR_ABRT, i, s)) (tcp_abort app a s)
             else do {
               let old_cwnd = cwnd (tcp_mem s a);
               (i, s) \<leftarrow> tcp_receive i a s;
               let s = set_tcb a (\<lambda>t. t\<lparr>cwnd := (if old_cwnd = 1 then t_mss t * 2 else t_mss t)\<rparr>) s;
               if got_fin i
               then map_option (\<lambda>s. (ERR_OK, i, set_state CLOSE_WAIT a s)) (tcp_ack_now a s)
               else Some (ERR_OK, i, s)
             }
           }
           else map_option ok (rst_back (in_ackno i) i s)
      else if in_flags i AND TCP_SYN \<noteq> 0 \<and> in_seqno i = rcv_nxt t - 1 then map_option ok (tcp_rexmit a s)
      else Some (ok s))"

text \<open>The states behind the handshake.\<close>

definition process_open :: "segment_in \<Rightarrow> nat \<Rightarrow> 'a tcp \<Rightarrow> (err_t \<times> segment_in \<times> 'a tcp) option" where
  "process_open i a s = do {
     (i, s) \<leftarrow> tcp_receive i a s;
     let ok = (\<lambda>s. (ERR_OK, i, s));
     case t_state (tcp_mem s a) of
       ESTABLISHED \<Rightarrow> if got_fin i then map_option (\<lambda>s. ok (set_state CLOSE_WAIT a s)) (tcp_ack_now a s) else Some (ok s)
     | CLOSE_WAIT \<Rightarrow> if got_fin i then map_option (\<lambda>s. ok (set_state CLOSE_WAIT a s)) (tcp_ack_now a s) else Some (ok s)
     | FIN_WAIT_1 \<Rightarrow>
         if got_fin i
         then map_option (\<lambda>s'. ok (if acks_all i a s then to_time_wait a s' else set_state CLOSING a s')) (tcp_ack_now a s)
         else Some (ok (if acks_all i a s then set_state FIN_WAIT_2 a s else s))
     | FIN_WAIT_2 \<Rightarrow> if got_fin i then map_option (\<lambda>s. ok (to_time_wait a s)) (tcp_ack_now a s) else Some (ok s)
     | CLOSING \<Rightarrow> Some (ok (if acks_all i a s then to_time_wait a s else s))
     | LAST_ACK \<Rightarrow> Some (ERR_OK, if acks_all i a s then i\<lparr>in_recv_flags := in_recv_flags i OR TF_CLOSED\<rparr> else i, s)
     | _ \<Rightarrow> Some (ok s)
   }"

definition tcp_process :: "'a tcp_app \<Rightarrow> segment_in \<Rightarrow> nat \<Rightarrow> 'a tcp \<Rightarrow> (err_t \<times> segment_in \<times> 'a tcp) option" where
  "tcp_process app i a s =
     (let x = t_state (tcp_mem s a); ok = (\<lambda>s. (ERR_OK, i, s)) in
      if in_flags i AND TCP_RST \<noteq> 0 then Some (process_reset i a s)
      else if in_flags i AND TCP_SYN \<noteq> 0 \<and> x \<noteq> SYN_SENT \<and> x \<noteq> SYN_RCVD then map_option ok (tcp_ack_now a s)
      else do {
        let s = set_tcb a (\<lambda>t. t\<lparr>t_tmr := tcp_ticks s, keep_cnt_sent := 0\<rparr>) s;
        mss \<leftarrow> tcp_parseopt i (t_mss (tcp_mem s a));
        let s = set_tcb a (\<lambda>t. t\<lparr>t_mss := mss\<rparr>) s;
        case x of
          SYN_SENT \<Rightarrow> map_option ok (process_syn_sent app i a s)
        | SYN_RCVD \<Rightarrow> process_syn_rcvd app i a s
        | CLOSED \<Rightarrow> Some (ok s)
        | LISTEN \<Rightarrow> Some (ok s)
        | TIME_WAIT \<Rightarrow> Some (ok s)
        | _ \<Rightarrow> process_open i a s
      })"

section \<open>Listening blocks and TIME-WAIT\<close>

definition passive_tcb :: "segment_in \<Rightarrow> tcp_pcb_listen \<Rightarrow> tcb \<Rightarrow> tcb" where
  "passive_tcb i l t =
     t\<lparr>t_local_ip := in_dest i, t_local_port := l_local_port l, t_remote_ip := in_src i, t_remote_port := th_src (in_hdr i),
       t_state := SYN_RCVD, rcv_nxt := in_seqno i + 1, rcv_ann_right_edge := in_seqno i + 1, snd_wnd := th_wnd (in_hdr i),
       ssthresh := th_wnd (in_hdr i), snd_wl1 := in_seqno i - 1, callback_arg := l_callback_arg l, accept_cb := l_accept l,
       so_options := l_so_options l AND SOF_INHERITED\<rparr>"

definition tcp_listen_input :: "'a tcp_app \<Rightarrow> segment_in \<Rightarrow> nat \<Rightarrow> 'a tcp \<Rightarrow> 'a tcp option" where
  "tcp_listen_input app i l s =
     (if in_flags i AND TCP_ACK \<noteq> 0 then rst_back (in_ackno i + 1) i s
      else if in_flags i AND TCP_SYN \<noteq> 0
      then do {
        (npcb, s) \<leftarrow> tcp_alloc app (l_prio (listen_mem s l)) s;
        case npcb of
          None \<Rightarrow> Some s
        | Some a \<Rightarrow> do {
            let s = reg_active a (set_tcb a (passive_tcb i (listen_mem s l)) s);
            mss \<leftarrow> tcp_parseopt i (t_mss (tcp_mem s a));
            let s = set_tcb a (\<lambda>t. t\<lparr>t_mss := tcp_eff_send_mss mss (t_remote_ip t) s\<rparr>) s;
            let (rc, s) = tcp_enqueue a None 0 (TCP_SYN OR TCP_ACK) 0 TF_SEG_OPTS_MSS s;
            if rc \<noteq> ERR_OK then tcp_abandon app a False s else map_option snd (tcp_output a s)
          }
      }
      else Some s)"

definition tcp_timewait_input :: "segment_in \<Rightarrow> nat \<Rightarrow> 'a tcp \<Rightarrow> 'a tcp option" where
  "tcp_timewait_input i a s = do {
     let edge = in_seqno i + ucast (in_tcplen i);
     let s = set_tcb a (\<lambda>t. if TCP_SEQ_GT edge (rcv_nxt t) then t\<lparr>rcv_nxt := edge\<rparr> else t) s;
     s \<leftarrow> (if 0 < in_tcplen i then tcp_ack_now a s else Some s);
     map_option snd (tcp_output a s)
   }"

section \<open>Input\<close>

definition for_block :: "segment_in \<Rightarrow> tcb \<Rightarrow> bool" where
  "for_block i t \<longleftrightarrow> t_remote_port t = th_src (in_hdr i) \<and> t_local_port t = th_dest (in_hdr i)
     \<and> t_remote_ip t = in_src i \<and> t_local_ip t = in_dest i"

definition for_listener :: "segment_in \<Rightarrow> tcp_pcb_listen \<Rightarrow> bool" where
  "for_listener i l \<longleftrightarrow> (ip_addr_isany (l_local_ip l) \<or> l_local_ip l = in_dest i) \<and> l_local_port l = th_dest (in_hdr i)"

definition free_inseg :: "segment_in \<Rightarrow> 'a tcp \<Rightarrow> 'a tcp" where
  "free_inseg i = free_refused (in_p i)"

text \<open>
  The calls of the application after the processing: the space, the data (kept when it is not taken) and the
  end of the data, and then what the block has to send.
\<close>

definition tell_application :: "'a tcp_app \<Rightarrow> segment_in \<Rightarrow> nat \<Rightarrow> 'a tcp \<Rightarrow> 'a tcp option" where
  "tell_application app i a s = do {
     (err, s) \<leftarrow> (if 0 < acked (tcp_mem s a) then TCP_EVENT_SENT app a (acked (tcp_mem s a)) s else Some (ERR_OK, s));
     (err, s) \<leftarrow>
       (case in_recv_data i of
          None \<Rightarrow> Some (err, s)
        | Some p \<Rightarrow>
            if freed a s then None
            else do {
              (err, s) \<leftarrow> TCP_EVENT_RECV app a (Some p) ERR_OK s;
              if err = ERR_OK then Some (err, s)
              else if freed a s then None else Some (err, set_tcb a (\<lambda>t. t\<lparr>refused_data := Some p\<rparr>) s)
            });
     (err, s) \<leftarrow>
       (if \<not> got_fin i then Some (err, s) else if freed a s then None else TCP_EVENT_RECV app a None ERR_OK s);
     if err \<noteq> ERR_OK then Some s else if freed a s then None else map_option snd (tcp_output a s)
   }"

definition after_process :: "'a tcp_app \<Rightarrow> err_t \<Rightarrow> segment_in \<Rightarrow> nat \<Rightarrow> 'a tcp \<Rightarrow> 'a tcp option" where
  "after_process app err i a s =
     (if err = ERR_ABRT then Some s
      else if in_recv_flags i AND TF_RESET \<noteq> 0
      then do {
        s \<leftarrow> TCP_EVENT_ERR app (errf_cb (tcp_mem s a)) (callback_arg (tcp_mem s a)) ERR_RST s;
        if freed a s then None else map_option (free_tcb a) (tcp_pcb_remove rmv_active a s)
      }
      else if in_recv_flags i AND TF_CLOSED \<noteq> 0 then map_option (free_tcb a) (tcp_pcb_remove rmv_active a s)
      else tell_application app i a s)"

text \<open>A segment for an active block; data that the application refused before is offered again first.\<close>

definition tcp_input_active :: "'a tcp_app \<Rightarrow> segment_in \<Rightarrow> nat \<Rightarrow> 'a tcp \<Rightarrow> 'a tcp option" where
  "tcp_input_active app i a s = do {
     (full, s) \<leftarrow>
       (case refused_data (tcp_mem s a) of
          None \<Rightarrow> Some (False, s)
        | Some p \<Rightarrow> do {
            (err, s) \<leftarrow> TCP_EVENT_RECV app a (Some p) ERR_OK s;
            if err \<noteq> ERR_OK then Some (True, s)
            else if freed a s then None else Some (False, set_tcb a (\<lambda>t. t\<lparr>refused_data := None\<rparr>) s)
          });
     if full then Some (free_inseg i s)
     else do {
       (err, i, s) \<leftarrow> tcp_process app i a (s\<lparr>tcp_input_pcb := Some a\<rparr>);
       s \<leftarrow> after_process app err i a (s\<lparr>tcp_input_pcb := None\<rparr>);
       Some (free_inseg i s)
     }
   }"

definition tcp_demux :: "'a tcp_app \<Rightarrow> segment_in \<Rightarrow> 'a tcp \<Rightarrow> 'a tcp option" where
  "tcp_demux app i s =
     (case List.find (\<lambda>a. for_block i (tcp_mem s a)) (tcp_active_pcbs s) of
        Some a \<Rightarrow> tcp_input_active app i a (s\<lparr>tcp_active_pcbs := a # remove1 a (tcp_active_pcbs s)\<rparr>)
      | None \<Rightarrow>
        (case List.find (\<lambda>a. for_block i (tcp_mem s a)) (tcp_tw_pcbs s) of
           Some a \<Rightarrow> map_option (free_inseg i) (tcp_timewait_input i a s)
         | None \<Rightarrow>
           (case List.find (\<lambda>l. for_listener i (listen_mem s l)) (tcp_listen_pcbs s) of
              Some l \<Rightarrow> map_option (free_inseg i)
                          (tcp_listen_input app i l (s\<lparr>tcp_listen_pcbs := l # remove1 l (tcp_listen_pcbs s)\<rparr>))
            | None \<Rightarrow>
                map_option (free_inseg i)
                  (if in_flags i AND TCP_RST = 0 then rst_back (in_ackno i) i s else Some s))))"

definition segment_of :: "chain \<Rightarrow> chain \<Rightarrow> u8 list \<Rightarrow> segment_in" where
  "segment_of q p iphdr =
     (let h = tcp_hdr_of (first q) in
      \<lparr>in_src = IPH_SRC iphdr, in_dest = IPH_DEST iphdr, in_hdr = h, in_opts = drop TCP_HLEN (first q), in_p = Some p,
       in_len = chain_len p, in_flags = th_flags h, in_seqno = th_seqno h, in_ackno = th_ackno h,
       in_tcplen = chain_len p + (if th_flags h AND (TCP_FIN OR TCP_SYN) \<noteq> 0 then 1 else 0),
       in_recv_flags = 0, in_recv_data = None\<rparr>)"

definition tcp_input :: "'a tcp_app \<Rightarrow> chain \<Rightarrow> nat \<Rightarrow> 'a tcp \<Rightarrow> 'a tcp option" where
  "tcp_input app p inp s =
     (let iphdr = first p; drop_it = (\<lambda>p. Some (tcp_log (Free_chain p) s)) in
      case chain_header (- (int (unat (IPH_HL iphdr)) * 4)) p of
        None \<Rightarrow> drop_it p
      | Some q \<Rightarrow>
          if unat (chain_len q) < TCP_HLEN then drop_it q
          else if ip_addr_isbroadcast (IPH_DEST iphdr) (netif_list (tcp_ip s) ! inp) \<or> ip_addr_ismulticast (IPH_DEST iphdr) then drop_it q
          else if length (first q) < TCP_HLEN then None
          else case chain_header (- (int (unat (th_hdrlen (tcp_hdr_of (first q)))) * 4)) q of
            None \<Rightarrow> drop_it q
          | Some r \<Rightarrow> tcp_demux app (segment_of q r iphdr) s)"

end
