(* ===== verification/TcpRecv.thy ===== *)
theory TcpRecv
  imports TcpIn
begin

text \<open>
  The receiver: what the segments of a stream, arriving in any order, again and again and
  overlapping, make the application read.
\<close>

section \<open>Positions of a stream\<close>

text \<open>Positions below half the numbers compare as the sequence numbers do.\<close>

lemma seq_diff: "(irs + of_nat x) - (irs + of_nat y) = (of_nat x - of_nat y :: u32)"
  by simp

lemma unat_seq_diff:
  assumes "x < 2 ^ 31" "y < 2 ^ 31"
  shows "unat (of_nat x - of_nat y :: u32) = (if y \<le> x then x - y else 2 ^ 32 - (y - x))"
proof -
  have u: "unat (of_nat x :: u32) = x" "unat (of_nat y :: u32) = y" using assms by (simp_all add: unat_of_nat_u32)
  show ?thesis unfolding unat_diff_u32 word_le_nat_alt u using assms by auto
qed

lemma seq_cmp:
  assumes "x < 2 ^ 31" "y < 2 ^ 31"
  shows "TCP_SEQ_GEQ (irs + of_nat x) (irs + of_nat y) \<longleftrightarrow> y \<le> x"
    and "TCP_SEQ_LT (irs + of_nat x) (irs + of_nat y) \<longleftrightarrow> x < y"
    and "TCP_SEQ_GT (irs + of_nat x) (irs + of_nat y) \<longleftrightarrow> y < x"
    and "TCP_SEQ_LEQ (irs + of_nat x) (irs + of_nat y) \<longleftrightarrow> x \<le> y"
proof -
  have e: "irs + of_nat x = irs + of_nat y \<longleftrightarrow> x = y"
  proof
    assume "irs + of_nat x = irs + of_nat y"
    then have "unat (of_nat x :: u32) = unat (of_nat y :: u32)" by simp
    then show "x = y" using assms by (simp add: unat_of_nat_u32)
  qed simp
  show "TCP_SEQ_GEQ (irs + of_nat x) (irs + of_nat y) \<longleftrightarrow> y \<le> x"
    "TCP_SEQ_LT (irs + of_nat x) (irs + of_nat y) \<longleftrightarrow> x < y"
    "TCP_SEQ_GT (irs + of_nat x) (irs + of_nat y) \<longleftrightarrow> y < x"
    "TCP_SEQ_LEQ (irs + of_nat x) (irs + of_nat y) \<longleftrightarrow> x \<le> y"
    unfolding TCP_SEQ_GEQ_unat TCP_SEQ_LT_unat TCP_SEQ_GT_unat TCP_SEQ_LEQ_unat e seq_diff unat_seq_diff [OF assms]
    using assms by auto
qed

section \<open>Cutting off the front\<close>

lemma buf_header_cut:
  assumes "off \<le> length (body b)" "off < 32768"
  shows "\<exists>b'. buf_header (sint (- of_nat off :: s16)) b = Some b' \<and> body b' = drop off (body b)"
proof -
  have "sint (of_nat off :: s16) = int off" using assms(2) by (simp add: signed_of_nat signed_take_bit_int_eq_self)
  then have "sint (- of_nat off :: s16) = - int off" using assms(2) by (simp add: sint_word_minus signed_take_bit_int_eq_self)
  then show ?thesis using assms(1) by (auto simp: buf_header_def)
qed

lemma skip_front_contents:
  "p \<noteq> [] \<Longrightarrow> off \<le> length (contents p) \<Longrightarrow> off < 32768 \<Longrightarrow> \<exists>q. skip_front off p = Some q \<and> contents q = drop off (contents p)"
proof (induction off p rule: skip_front.induct)
  case (2 off b bs)
  show ?case
  proof (cases "length (body b) < off")
    case True
    with 2 have "bs \<noteq> []" by (auto simp: contents_def)
    moreover have "off - length (body b) \<le> length (contents bs)" "off - length (body b) < 32768"
      using 2(3,4) by (simp_all add: contents_def)
    ultimately obtain q where "skip_front (off - length (body b)) bs = Some q" "contents q = drop (off - length (body b)) (contents bs)"
      using 2(1) [OF True] by blast
    then show ?thesis using True by (auto simp: contents_def)
  next
    case False
    then obtain b' where "buf_header (sint (- of_nat off :: s16)) b = Some b'" "body b' = drop off (body b)"
      using buf_header_cut 2(4) by (meson not_le)
    then show ?thesis using False by (auto simp: contents_def)
  qed
qed simp

section \<open>While a segment is processed\<close>

lemma tcp_output_input [simp]: "tcp_input_pcb s = Some a \<Longrightarrow> tcp_output a s = Some (ERR_OK, s)"
  by (simp add: tcp_output_def)

lemma tcp_ack_now_input [simp]:
  "tcp_input_pcb s = Some a \<Longrightarrow> tcp_ack_now a s = Some (set_tcb a (\<lambda>t. t\<lparr>t_flags := t_flags t OR TF_ACK_NOW\<rparr>) s)"
  by (simp add: tcp_ack_now_def)

lemma tcp_ack_input:
  assumes "tcp_input_pcb s = Some a"
  obtains f where "tcp_ack a s = Some (set_tcb a (\<lambda>t. t\<lparr>t_flags := f\<rparr>) s)"
proof (cases "t_flags (tcp_mem s a) AND TF_ACK_DELAY = 0")
  case True
  then have "tcp_ack a s = Some (set_tcb a (\<lambda>t. t\<lparr>t_flags := t_flags (tcp_mem s a) OR TF_ACK_DELAY\<rparr>) s)"
    by (simp add: tcp_ack_def set_tcb_def)
  then show ?thesis by (rule that)
next
  case False
  then have "tcp_ack a s = Some (set_tcb a (\<lambda>t. t\<lparr>t_flags := (t_flags (tcp_mem s a) AND NOT TF_ACK_DELAY) OR TF_ACK_NOW\<rparr>) s)"
    using assms by (simp add: tcp_ack_def set_tcb_def)
  then show ?thesis by (rule that)
qed

section \<open>A segment of the stream\<close>

text \<open>
  The segment has \<open>n\<close> bytes of the stream from position \<open>pos\<close> on, and the FIN if it has the last one and
  \<open>fin\<close> holds.  The number of the first byte is \<open>irs\<close>.
\<close>

definition slice_in :: "u8 list \<Rightarrow> u32 \<Rightarrow> nat \<Rightarrow> nat \<Rightarrow> bool \<Rightarrow> segment_in \<Rightarrow> bool" where
  "slice_in st irs pos n fin i \<longleftrightarrow>
     (\<exists>p. in_p i = Some p \<and> p \<noteq> [] \<and> contents p = take n (drop pos st)) \<and> pos + n \<le> length st \<and> (fin \<longrightarrow> pos + n = length st)
     \<and> in_len i = of_nat n \<and> in_tcplen i = of_nat (n + of_bool fin) \<and> in_seqno i = irs + of_nat pos
     \<and> (th_flags (in_hdr i) AND TCP_FIN \<noteq> 0 \<longleftrightarrow> fin) \<and> th_flags (in_hdr i) AND TCP_SYN = 0 \<and> in_flags i = th_flags (in_hdr i)
     \<and> in_recv_flags i = 0 \<and> in_recv_data i = None"

text \<open>The position that is expected next is one more behind the FIN.\<close>

definition reached :: "nat \<Rightarrow> nat \<Rightarrow> bool \<Rightarrow> nat \<Rightarrow> nat" where
  "reached pos n fin k = (if pos \<le> k \<and> k < pos + n + of_bool fin then pos + n + of_bool fin else k)"

lemma fin_or_syn: "(f :: u8) AND TCP_SYN = 0 \<Longrightarrow> f AND (TCP_FIN OR TCP_SYN) \<noteq> 0 \<longleftrightarrow> f AND TCP_FIN \<noteq> 0"
  by (simp add: bit.conj_disj_distrib)

lemma update_ann_wnd: obtains x where "snd (tcp_update_rcv_ann_wnd a s) = set_tcb a (\<lambda>t. t\<lparr>rcv_ann_wnd := x\<rparr>) s"
  by (cases "tcp_update_rcv_ann_wnd a s") (auto simp: tcp_update_rcv_ann_wnd_def Let_def split: if_splits)

lemma inseg_tcplen_slice:
  assumes "in_len i = of_nat n" "th_flags (in_hdr i) AND TCP_FIN \<noteq> 0 \<longleftrightarrow> fin" "th_flags (in_hdr i) AND TCP_SYN = 0"
  shows "inseg_tcplen i = of_nat (n + of_bool fin)"
  using assms by (auto simp: inseg_tcplen_def fin_or_syn)

lemma accept_slice:
  assumes i: "in_p i = Some p" "in_len i = of_nat (length (contents p))" "in_recv_data i = None" "in_recv_flags i = 0"
    "th_flags (in_hdr i) AND TCP_FIN \<noteq> 0 \<longleftrightarrow> fin" "th_flags (in_hdr i) AND TCP_SYN = 0"
    and m: "m = length (contents p) + of_bool fin" "m \<le> unat (rcv_wnd (tcp_mem s a))"
    and input: "tcp_input_pcb s = Some a"
  shows "\<exists>i' x f. accept_seg i a s = Some (i', set_tcb a (\<lambda>t. t\<lparr>rcv_nxt := in_seqno i + of_nat m, rcv_wnd := rcv_wnd t - of_nat m,
        rcv_ann_wnd := x, t_flags := f\<rparr>) s)
    \<and> in_recv_data i' = (if contents p = [] then None else Some p) \<and> in_p i' = (if contents p = [] then Some p else None)
    \<and> in_recv_flags i' = (if fin then TF_GOT_FIN else 0) \<and> in_flags i' = in_flags i \<and> in_ackno i' = in_ackno i"
proof -
  let ?i = "i\<lparr>in_tcplen := of_nat m\<rparr>"
  have m16: "m < 65536" using m(2) unsigned_less [of "rcv_wnd (tcp_mem s a)"] by (simp add: order.strict_trans1)
  have "of_nat m \<le> rcv_wnd (tcp_mem s a)" using m m16 by (simp add: word_le_nat_alt unat_of_nat_u16 del: of_nat_add)
  then have t: "trim_end (rcv_wnd (tcp_mem s a)) i = ?i"
    using inseg_tcplen_slice [OF i(2,5,6)] by (simp add: trim_end_def m(1) del: of_nat_add)
  have u: "(ucast (of_nat m :: u16) :: u32) = of_nat m" using m16 by (simp add: unsigned_of_nat take_bit_nat_eq_self)
  have l: "0 < chain_len p \<longleftrightarrow> contents p \<noteq> []"
    using m m16 by (auto simp: chain_len_def word_gt_0 unat_of_nat_u16 simp flip: unat_eq_zero)
  let ?s = "set_tcb a (\<lambda>t. t\<lparr>rcv_nxt := in_seqno i + of_nat m, rcv_wnd := rcv_wnd t - of_nat m\<rparr>) s"
  obtain x where x: "snd (tcp_update_rcv_ann_wnd a ?s) = set_tcb a (\<lambda>t. t\<lparr>rcv_ann_wnd := x\<rparr>) ?s" by (rule update_ann_wnd)
  have "tcp_input_pcb (set_tcb a (\<lambda>t. t\<lparr>rcv_ann_wnd := x\<rparr>) ?s) = Some a" using input by simp
  then obtain f where f: "tcp_ack a (set_tcb a (\<lambda>t. t\<lparr>rcv_ann_wnd := x\<rparr>) ?s)
      = Some (set_tcb a (\<lambda>t. t\<lparr>t_flags := f\<rparr>) (set_tcb a (\<lambda>t. t\<lparr>rcv_ann_wnd := x\<rparr>) ?s))" by (rule tcp_ack_input)
  have g: "set_tcb a (\<lambda>t. t\<lparr>t_flags := f\<rparr>) (set_tcb a (\<lambda>t. t\<lparr>rcv_ann_wnd := x\<rparr>) ?s)
      = set_tcb a (\<lambda>t. t\<lparr>rcv_nxt := in_seqno i + of_nat m, rcv_wnd := rcv_wnd t - of_nat m, rcv_ann_wnd := x, t_flags := f\<rparr>) s"
    by (simp add: set_tcb_def)
  show ?thesis
    unfolding accept_seg_def t Let_def segment_in.select_convs segment_in.update_convs
    by (simp add: u x f g l i) blast
qed

lemma in_window_pos:
  assumes "rcv_nxt t = irs + of_nat k" "in_seqno i = irs + of_nat pos" "pos < 2 ^ 31" "k + 65536 < 2 ^ 31" "0 < rcv_wnd t"
  shows "in_window i t \<longleftrightarrow> k \<le> pos \<and> pos < k + unat (rcv_wnd t)"
proof -
  let ?e = "k + unat (rcv_wnd t) - 1"
  have w: "0 < unat (rcv_wnd t)" "unat (rcv_wnd t) < 65536" using assms(5) by (simp_all add: unat_gt_0 unat_less_65536)
  then have "(of_nat ?e :: u32) = of_nat k + ucast (rcv_wnd t) - 1" by (simp add: of_nat_diff)
  then have e: "rcv_nxt t + ucast (rcv_wnd t) - 1 = irs + of_nat ?e" by (simp add: assms(1) algebra_simps)
  have lo: "TCP_SEQ_GEQ (irs + of_nat pos) (irs + of_nat k) \<longleftrightarrow> k \<le> pos" by (rule seq_cmp) (use assms in simp_all)
  have hi: "TCP_SEQ_LEQ (irs + of_nat pos) (irs + of_nat ?e) \<longleftrightarrow> pos \<le> ?e"
    by (rule seq_cmp) (use assms w(2) unat_less_65536 [of "rcv_wnd t"] in linarith)+
  show ?thesis unfolding in_window_def TCP_SEQ_BETWEEN_def e unfolding assms(1,2) lo hi using w by auto
qed

lemma before_next:
  assumes "rcv_nxt t = irs + of_nat k" "in_seqno i = irs + of_nat pos" "in_tcplen i = of_nat m"
    and "pos + 65536 < 2 ^ 31" "k + 65536 < 2 ^ 31" "0 < m" "m < 65536"
  shows "TCP_SEQ_BETWEEN (rcv_nxt t) (in_seqno i + 1) (in_seqno i + ucast (in_tcplen i) - 1) \<longleftrightarrow> pos < k \<and> k < pos + m"
proof -
  have "(ucast (in_tcplen i) :: u32) = of_nat m" using assms(3,7) by (simp add: unsigned_of_nat take_bit_nat_eq_self)
  then have e: "in_seqno i + 1 = irs + of_nat (pos + 1)" "in_seqno i + ucast (in_tcplen i) - 1 = irs + of_nat (pos + m - 1)"
    using assms(6) by (simp_all add: assms(2) of_nat_diff algebra_simps)
  have lo: "TCP_SEQ_GEQ (irs + of_nat k) (irs + of_nat (pos + 1)) \<longleftrightarrow> pos + 1 \<le> k" by (rule seq_cmp) (use assms in simp_all)
  have hi: "TCP_SEQ_LEQ (irs + of_nat k) (irs + of_nat (pos + m - 1)) \<longleftrightarrow> k \<le> pos + m - 1" by (rule seq_cmp) (use assms in simp_all)
  show ?thesis unfolding TCP_SEQ_BETWEEN_def e unfolding assms(1) lo hi using assms(6) by auto
qed

lemma skip_front_length: "skip_front n p = Some q \<Longrightarrow> length q = length p"
  by (induction n p arbitrary: q rule: skip_front.induct) (auto split: if_splits option.splits)

lemma trim_front_slice:
  assumes "in_p i = Some p" "p \<noteq> []" "in_len i = of_nat (length (contents p))" "in_seqno i = irs + of_nat pos"
    and "pos \<le> k" "k - pos \<le> length (contents p)" "length (contents p) < 32768"
  shows "\<exists>q. trim_front (irs + of_nat k) i = Some (i\<lparr>in_p := Some q, in_len := of_nat (length (contents q)),
      in_hdr := (in_hdr i)\<lparr>th_seqno := irs + of_nat k\<rparr>, in_seqno := irs + of_nat k\<rparr>) \<and> contents q = drop (k - pos) (contents p) \<and> length q = length p"
proof -
  have d: "irs + of_nat k - in_seqno i = of_nat (k - pos)" using assms(4,5) by (simp add: of_nat_diff)
  have u: "unat (of_nat (k - pos) :: u32) = k - pos" using assms(6,7) by (simp add: unat_of_nat_u32)
  have c: "(ucast (of_nat (k - pos) :: u32) :: u16) = of_nat (k - pos)"
    using assms(6,7) by (simp add: unsigned_of_nat take_bit_nat_eq_self)
  obtain q where "skip_front (k - pos) p = Some q" "contents q = drop (k - pos) (contents p)"
    using skip_front_contents [of p "k - pos"] assms by auto
  then show ?thesis
    using assms(1,3,6) skip_front_length [of "k - pos" p q] unfolding trim_front_def d u c by (intro exI [of _ q]) (simp add: of_nat_diff)
qed

text \<open>
  What the receiver does with the segment: it takes it if it begins at or before the position that is expected
  and ends behind it, and then what is new in it; otherwise it only has it acknowledged.
\<close>

lemma receive_data_slice:
  assumes i: "slice_in st irs pos n fin i"
    and k: "rcv_nxt (tcp_mem s a) = irs + of_nat k" "k \<le> length st + 1" "length st + 70000 < 2 ^ 31"
    and w: "n + of_bool fin \<le> unat (rcv_wnd (tcp_mem s a))" "unat (rcv_wnd (tcp_mem s a)) \<le> 32767" "0 < rcv_wnd (tcp_mem s a)"
    and input: "tcp_input_pcb s = Some a"
  defines "new \<equiv> pos \<le> k \<and> k < pos + n + of_bool fin"
  shows "\<exists>i' w x f. receive_data i a s = Some (i', set_tcb a (\<lambda>t. t\<lparr>rcv_nxt := irs + of_nat (reached pos n fin k), rcv_wnd := w,
        rcv_ann_wnd := x, t_flags := f\<rparr>) s)
    \<and> w = rcv_wnd (tcp_mem s a) - of_nat (reached pos n fin k - k)
    \<and> map_option contents (in_recv_data i') = (if new \<and> k < pos + n then Some (drop (k - pos) (take n (drop pos st))) else None)
    \<and> in_recv_flags i' = (if new \<and> fin then TF_GOT_FIN else 0) \<and> in_flags i' = in_flags i \<and> in_ackno i' = in_ackno i
    \<and> (\<forall>q. in_recv_data i' = Some q \<longrightarrow> length q = length (the (in_p i)))"
proof -
  let ?t = "tcp_mem s a" and ?seq = "in_seqno i"
  obtain p where p: "in_p i = Some p" "p \<noteq> []" "contents p = take n (drop pos st)" using i by (auto simp: slice_in_def)
  have len: "pos + n \<le> length st" "length (contents p) = n" using i p by (auto simp: slice_in_def)
  have n: "n + of_bool fin \<le> 32767" using w by simp
  have f: "in_len i = of_nat n" "in_tcplen i = of_nat (n + of_bool fin)" "?seq = irs + of_nat pos"
      "th_flags (in_hdr i) AND TCP_FIN \<noteq> 0 \<longleftrightarrow> fin" "th_flags (in_hdr i) AND TCP_SYN = 0" "in_recv_flags i = 0" "in_recv_data i = None"
    using i by (simp_all add: slice_in_def)
  have small: "pos + 65536 < 2 ^ 31" "k + 65536 < 2 ^ 31" "pos < 2 ^ 31" using len(1) k by simp_all
  have acc: "\<exists>i' x f. accept_seg j a s = Some (i', set_tcb a (\<lambda>t. t\<lparr>rcv_nxt := irs + of_nat (k + m), rcv_wnd := rcv_wnd ?t - of_nat m,
        rcv_ann_wnd := x, t_flags := f\<rparr>) s)
      \<and> in_recv_data i' = (if contents q = [] then None else Some q) \<and> in_p i' = (if contents q = [] then Some q else None)
      \<and> in_recv_flags i' = (if fin then TF_GOT_FIN else 0) \<and> in_flags i' = in_flags i \<and> in_ackno i' = in_ackno i"
    if "in_p j = Some q" "in_len j = of_nat (length (contents q))" "in_recv_data j = None" "in_recv_flags j = 0"
      "th_flags (in_hdr j) = th_flags (in_hdr i)" "in_seqno j = irs + of_nat k" "in_flags j = in_flags i" "in_ackno j = in_ackno i"
      and m: "m = length (contents q) + of_bool fin" "m \<le> n + of_bool fin" for j q m
  proof -
    have "m \<le> unat (rcv_wnd ?t)" using m w(1) by simp
    from accept_slice [OF that(1-4) _ _ m(1) this input] show ?thesis
      using f(4,5) that(5-8) by (simp add: set_tcb_def algebra_simps)
  qed
  have ack: "tcp_ack_now a (set_tcb a (\<lambda>t. t\<lparr>t_flags := f\<rparr>) s) = Some (set_tcb a (\<lambda>t. t\<lparr>t_flags := f OR TF_ACK_NOW\<rparr>) s)" for f
    using input by (simp add: set_tcb_def)
  have stay: "set_tcb a (\<lambda>t. t\<lparr>t_flags := f\<rparr>) s = set_tcb a (\<lambda>t. t\<lparr>rcv_nxt := irs + of_nat k, rcv_wnd := rcv_wnd ?t,
      rcv_ann_wnd := rcv_ann_wnd ?t, t_flags := f\<rparr>) s" for f
    unfolding k(1) [symmetric] by (simp add: set_tcb_def)
  have same: "s = set_tcb a (\<lambda>t. t\<lparr>t_flags := t_flags ?t\<rparr>) s" by (simp add: set_tcb_def)
  have win: "in_window i ?t \<longleftrightarrow> k \<le> pos \<and> pos < k + unat (rcv_wnd ?t)"
    using in_window_pos [OF k(1) f(3) small(3,2) w(3)] .
  have tl: "unat (in_tcplen i) = n + of_bool fin" using n unfolding f(2) by (simp add: unat_of_nat_u16 del: of_nat_add)
  have idle: ?thesis if "receive_data i a s = Some (i, set_tcb a (\<lambda>t. t\<lparr>t_flags := fl\<rparr>) s)" "\<not> new" for fl
  proof -
    have "reached pos n fin k = k" using that(2) by (simp add: reached_def new_def)
    then show ?thesis using that p(1) f(6,7) unfolding stay by (intro exI [of _ i] exI [of _ "rcv_wnd ?t"] exI) simp
  qed
  have take: ?thesis if e: "receive_data i a s = accept_seg j a s" "new" and q: "in_p j = Some q" "contents q = drop (k - pos) (contents p)"
      "in_len j = of_nat (length (contents q))" "in_recv_data j = None" "in_recv_flags j = 0"
      "th_flags (in_hdr j) = th_flags (in_hdr i)" "in_seqno j = irs + of_nat k" "in_flags j = in_flags i" "in_ackno j = in_ackno i" "length q = length p" for j q
  proof -
    let ?m = "length (contents q) + of_bool fin"
    have m: "k + ?m = pos + n + of_bool fin" using e(2) len(2) q(2) by (cases fin) (auto simp: new_def)
    then have r: "reached pos n fin k = k + ?m" using e(2) by (simp add: reached_def new_def)
    have q0: "contents q = [] \<longleftrightarrow> \<not> k < pos + n" using e(2) len(2) q(2) by (auto simp: new_def)
    have "?m \<le> n + of_bool fin" using m e(2) by (auto simp: new_def)
    from acc [OF q(1,3-9) refl this] obtain i' x f where A: "accept_seg j a s = Some (i', set_tcb a (\<lambda>t. t\<lparr>rcv_nxt := irs + of_nat (k + ?m),
        rcv_wnd := rcv_wnd ?t - of_nat ?m, rcv_ann_wnd := x, t_flags := f\<rparr>) s)" "in_recv_data i' = (if contents q = [] then None else Some q)"
      "in_recv_flags i' = (if fin then TF_GOT_FIN else 0)" "in_flags i' = in_flags i" "in_ackno i' = in_ackno i" by metis
    have d: "map_option contents (in_recv_data i') = (if new \<and> k < pos + n then Some (drop (k - pos) (take n (drop pos st))) else None)"
      using A(2) q0 q(2) p(3) e(2) by simp
    have l: "\<forall>q. in_recv_data i' = Some q \<longrightarrow> length q = length (the (in_p i))" using A(2) q(10) p(1) by simp
    have km: "k + ?m - k = ?m" by simp
    have g: "in_recv_flags i' = (if new \<and> fin then TF_GOT_FIN else 0)" using A(3) e(2) by simp
    show ?thesis unfolding r e(1) km
      by (rule exI [of _ i'], rule exI [of _ "rcv_wnd ?t - of_nat ?m"], rule exI [of _ x], rule exI [of _ f])
        (intro conjI A(1,4,5) refl d l g)
  qed
  show ?thesis
  proof (cases "n + of_bool fin = 0")
    case True
    then have z: "\<not> new" "in_tcplen i = 0" using tl by (auto simp: new_def unat_eq_zero)
    show ?thesis
    proof (cases "in_window i ?t")
      case True
      then have "receive_data i a s = Some (i, set_tcb a (\<lambda>t. t\<lparr>t_flags := t_flags ?t\<rparr>) s)"
        unfolding same [symmetric] using z by (simp add: receive_data_def)
      then show ?thesis using z(1) by (rule idle)
    next
      case False
      then have "receive_data i a s = Some (i, set_tcb a (\<lambda>t. t\<lparr>t_flags := t_flags ?t OR TF_ACK_NOW\<rparr>) s)"
        using z input by (simp add: receive_data_def set_tcb_def)
      then show ?thesis using z(1) by (rule idle)
    qed
  next
    case False
    then have nz: "in_tcplen i \<noteq> 0" using tl by auto
    have m: "0 < n + of_bool fin" "n + of_bool fin < 65536" using False n by simp_all
    note between = before_next [OF k(1) f(3,2) small(1,2) m]
    have lt: "TCP_SEQ_LT ?seq (rcv_nxt ?t) \<longleftrightarrow> pos < k" using seq_cmp(2) small unfolding f(3) k(1) by simp
    consider "pos < k" "k < pos + (n + of_bool fin)" | "pos = k" | "pos < k" "pos + (n + of_bool fin) \<le> k" | "k < pos" by linarith
    then show ?thesis
    proof cases
      case 1
      have o: "pos \<le> k" "k - pos \<le> length (contents p)" "length (contents p) < 32768" "in_len i = of_nat (length (contents p))"
        using 1 len n f(1) by (cases fin; simp)+
      obtain q where q: "trim_front (irs + of_nat k) i = Some (i\<lparr>in_p := Some q, in_len := of_nat (length (contents q)),
          in_hdr := (in_hdr i)\<lparr>th_seqno := irs + of_nat k\<rparr>, in_seqno := irs + of_nat k\<rparr>)" "contents q = drop (k - pos) (contents p)" "length q = length p"
        using trim_front_slice [OF p(1,2) o(4) f(3) o(1-3)] by blast
      let ?j = "i\<lparr>in_p := Some q, in_len := of_nat (length (contents q)),
          in_hdr := (in_hdr i)\<lparr>th_seqno := irs + of_nat k\<rparr>, in_seqno := irs + of_nat k\<rparr>"
      have "in_window ?j ?t"
        using in_window_pos [OF k(1) _ _ small(2) w(3), of ?j k] small w(3) by (simp add: unat_gt_0)
      then have "receive_data i a s = accept_seg ?j a s"
        using 1 nz q(1) between k(1) by (simp add: receive_data_def Let_def)
      then show ?thesis by (rule take [of ?j q]) (use 1 q(2,3) f in \<open>simp_all add: new_def\<close>)
    next
      case 2
      then have "receive_data i a s = accept_seg i a s"
        using nz between lt win k(1) f(3) w(3) by (auto simp: receive_data_def unat_gt_0 Let_def)
      then show ?thesis by (rule take [of i p]) (use 2 False f p len in \<open>simp_all add: new_def\<close>)
    next
      case 3
      then have "receive_data i a s = Some (i, set_tcb a (\<lambda>t. t\<lparr>t_flags := (t_flags ?t OR TF_ACK_NOW) OR TF_ACK_NOW\<rparr>) s)"
        using nz between lt input k(1) f(3) w(3) win by (simp add: receive_data_def set_tcb_def in_window_def Let_def)
      then show ?thesis by (rule idle) (use 3 in \<open>simp add: new_def\<close>)
    next
      case 4
      have "rcv_nxt ?t \<noteq> ?seq" using seq_cmp(1) [of k pos irs] seq_cmp(1) [of pos k irs] small 4 unfolding k(1) f(3) by force
      then have "receive_data i a s = Some (i, set_tcb a (\<lambda>t. t\<lparr>t_flags := t_flags ?t OR TF_ACK_NOW\<rparr>) s)"
        using 4 nz between lt input by (simp add: receive_data_def set_tcb_def Let_def)
      then show ?thesis by (rule idle) (use 4 in \<open>simp add: new_def\<close>)
    qed
  qed
qed

section \<open>Sending acknowledgements\<close>

text \<open>
  Every interface takes a packet of a bare header.  What is sent changes nothing but the stack
  below; \<open>only_below s s'\<close> says that only this has changed, and there not the interfaces.
\<close>

definition wide :: "'a tcp \<Rightarrow> bool" where
  "wide s \<longleftrightarrow> (\<forall>dest n. ip_route dest (tcp_ip s) = Some n
     \<longrightarrow> mtu (netif_list (tcp_ip s) ! n) = 0 \<or> 41 \<le> unat (mtu (netif_list (tcp_ip s) ! n)))"

definition only_below :: "'a tcp \<Rightarrow> 'a tcp \<Rightarrow> bool" where
  "only_below s s' \<longleftrightarrow> s' = s\<lparr>tcp_ip := tcp_ip s'\<rparr>
     \<and> netif_list (tcp_ip s') = netif_list (tcp_ip s) \<and> netif_default (tcp_ip s') = netif_default (tcp_ip s)"

lemma only_below_refl [simp]: "only_below s s"
  by (simp add: only_below_def)

lemma ip_route_cong: "netif_list k = netif_list l \<Longrightarrow> netif_default k = netif_default l \<Longrightarrow> ip_route dest k = ip_route dest l"
  by (simp add: ip_route_def cong: option.case_cong)

lemma only_below_iff: "only_below s s' \<longleftrightarrow> (\<exists>k. s' = s\<lparr>tcp_ip := k\<rparr>
    \<and> netif_list k = netif_list (tcp_ip s) \<and> netif_default k = netif_default (tcp_ip s))"
  by (auto simp: only_below_def)

lemma only_below_trans: "only_below s s' \<Longrightarrow> only_below s' s'' \<Longrightarrow> only_below s s''"
  unfolding only_below_iff by auto

lemma only_below_fields:
  assumes "only_below s s'"
  shows "tcp_mem s' = tcp_mem s" "tcp_active_pcbs s' = tcp_active_pcbs s" "tcp_tw_pcbs s' = tcp_tw_pcbs s"
    "tcp_bound_pcbs s' = tcp_bound_pcbs s" "tcp_free s' = tcp_free s" "tcp_input_pcb s' = tcp_input_pcb s"
    "app_state s' = app_state s" "tcp_ticks s' = tcp_ticks s" "wide s' \<longleftrightarrow> wide s"
proof -
  obtain k where k: "s' = s\<lparr>tcp_ip := k\<rparr>" "netif_list k = netif_list (tcp_ip s)" "netif_default k = netif_default (tcp_ip s)"
    using assms by (auto simp: only_below_def)
  show "wide s' \<longleftrightarrow> wide s" using k ip_route_cong [OF k(2,3)] by (simp add: wide_def)
qed (subst assms [unfolded only_below_def, THEN conjunct1], simp)+

lemma only_below_set: "only_below s s' \<Longrightarrow> only_below (set_tcb a f s) (set_tcb a f s')"
proof -
  assume b: "only_below s s'"
  have "set_tcb a f s' = (set_tcb a f s)\<lparr>tcp_ip := tcp_ip (set_tcb a f s')\<rparr>"
    by (rule tcp.equality) (subst b [unfolded only_below_def, THEN conjunct1], simp)+
  then show ?thesis using b by (simp add: only_below_def)
qed

lemma only_below_log [simp]: "only_below s (tcp_log x s)"
  by (auto simp: only_below_def tcp_log_def)

lemma only_below_alloc: "tcp_try_alloc s = (ok, s') \<Longrightarrow> only_below s s'"
  by (auto simp: only_below_def tcp_try_alloc_def try_alloc_def split: prod.splits list.splits)

lemma only_below_app: "only_below s s' \<Longrightarrow> only_below (s\<lparr>app_state := x\<rparr>) (s'\<lparr>app_state := x\<rparr>)"
  unfolding only_below_iff by (elim exE conjE, rule_tac x = k in exI, simp)

lemma wide_set_tcb [simp]: "wide (set_tcb a f s) \<longleftrightarrow> wide s"
  by (simp add: wide_def)

lemma tcp_ip_output_small:
  assumes "wide s" "has_room (btype b)" "20 \<le> length (front b)" "length (body b) \<le> 21"
  shows "\<exists>s'. tcp_ip_output [b] src dest ttl tos s = Some s' \<and> only_below s s'"
proof (cases "ip_route dest (tcp_ip s)")
  case None
  then show ?thesis by (auto simp: tcp_ip_output_def ip_output_def only_below_def)
next
  case (Some n)
  have c: "contents [b] = body b" by (simp add: contents_def)
  have "mtu (netif_list (tcp_ip s) ! n) = 0 \<or> length (contents [b]) + 20 \<le> unat (mtu (netif_list (tcp_ip s) ! n))"
    using assms(1,4) Some c order_trans by (fastforce simp: wide_def)
  from ip_output_if_fits [OF refl assms(2,3) _ this] show ?thesis
    using Some assms(4) c
    by (auto simp: tcp_ip_output_def ip_output_def only_below_def netif_output_def split: list.splits)
qed

lemma length_ram_front: "20 \<le> length (front (ram_buf g PBUF_IP n))"
  by (simp add: ram_buf_def header_offset_def PBUF_LINK_HLEN_def PBUF_IP_HLEN_def SIZEOF_STRUCT_PBUF_def align4_def Let_def)

lemma send_header_small:
  assumes "wide s" "length xs \<le> 1"
  shows "\<exists>s'. send_header h xs src dest ttl tos s = Some s' \<and> only_below s s'"
proof -
  let ?b = "(ram_buf (garbage (tcp_ip s)) PBUF_IP (TCP_HLEN + length xs))\<lparr>body := tcp_bytes h @ xs\<rparr>"
  have "has_room (btype ?b)" "20 \<le> length (front ?b)" "length (body ?b) \<le> 21"
    using length_ram_front assms(2) by (simp_all add: ram_buf_def Let_def)
  from tcp_ip_output_small [OF assms(1) this] show ?thesis
    unfolding send_header_def Let_def by (metis (no_types, lifting) only_below_log only_below_trans option.simps(9))
qed

text \<open>A block that has nothing to send: only acknowledgements leave.\<close>

lemma tcp_output_idle:
  assumes "wide s" "unsent (tcp_mem s a) = []"
  shows "\<exists>e f r s'. tcp_output a s = Some (e, s') \<and> only_below (set_tcb a (\<lambda>t. t\<lparr>t_flags := f, rcv_ann_right_edge := r\<rparr>) s) s'"
proof -
  let ?t = "tcp_mem s a"
  have id: "set_tcb a (\<lambda>t. t\<lparr>t_flags := t_flags ?t, rcv_ann_right_edge := rcv_ann_right_edge ?t\<rparr>) s = s" by (simp add: set_tcb_def)
  show ?thesis
  proof (cases "tcp_input_pcb s = Some a \<or> t_flags ?t AND TF_ACK_NOW = 0")
    case True
    then show ?thesis
    proof
      assume "tcp_input_pcb s = Some a"
      then show ?thesis using id only_below_refl by (metis tcp_output_input)
    next
      assume f: "t_flags ?t AND TF_ACK_NOW = 0"
      let ?f = "t_flags ?t AND NOT TF_NAGLEMEMERR"
      have e: "set_tcb a (\<lambda>t. t\<lparr>t_flags := t_flags t AND NOT TF_NAGLEMEMERR\<rparr>) (set_tcb a start_persist s)
          = set_tcb a (\<lambda>t. t\<lparr>t_flags := ?f, rcv_ann_right_edge := rcv_ann_right_edge ?t\<rparr>) s"
        using assms(2) by (simp add: set_tcb_def start_persist_def)
      show ?thesis
      proof (cases "tcp_input_pcb s = Some a")
        case True
        then show ?thesis using id only_below_refl by (metis tcp_output_input)
      next
        case False
        then have "tcp_output a s = Some (ERR_OK, set_tcb a (\<lambda>t. t\<lparr>t_flags := ?f, rcv_ann_right_edge := rcv_ann_right_edge ?t\<rparr>) s)"
          using f assms(2) e by (simp add: tcp_output_def Let_def)
        then show ?thesis using only_below_refl by blast
      qed
    qed
  next
    case False
    obtain ok s1 where al: "tcp_try_alloc s = (ok, s1)" by fastforce
    note b1 = only_below_alloc [OF al]
    show ?thesis
    proof (cases ok)
      case False
      then have "tcp_output a s = Some (ERR_BUF, s1)" using \<open>\<not> (_ \<or> _)\<close> assms(2) al by (simp add: tcp_output_def Let_def)
      then show ?thesis using b1 id by metis
    next
      case True
      let ?f = "t_flags ?t AND NOT (TF_ACK_DELAY OR TF_ACK_NOW)" and ?r = "rcv_nxt ?t + ucast (rcv_ann_wnd ?t)"
      let ?s2 = "set_tcb a (\<lambda>t. t\<lparr>rcv_ann_right_edge := rcv_nxt t + ucast (rcv_ann_wnd t)\<rparr>)
        (set_tcb a (\<lambda>t. t\<lparr>t_flags := t_flags t AND NOT (TF_ACK_DELAY OR TF_ACK_NOW)\<rparr>) s1)"
      have w: "wide ?s2" using assms(1) only_below_fields(9) [OF b1] by simp
      have s2: "only_below (set_tcb a (\<lambda>t. t\<lparr>t_flags := ?f, rcv_ann_right_edge := ?r\<rparr>) s) ?s2"
      proof -
        have "?s2 = set_tcb a (\<lambda>t. t\<lparr>t_flags := ?f, rcv_ann_right_edge := ?r\<rparr>) s1"
          using only_below_fields(1) [OF b1] by (simp add: set_tcb_def)
        then show ?thesis by (simp only: only_below_set [OF b1])
      qed
      obtain h where "tcp_output a s = map_option (\<lambda>s. (ERR_OK, s))
          (send_header h [] (t_local_ip ?t) (t_remote_ip ?t) (t_ttl ?t) (t_tos ?t) ?s2)"
        using \<open>\<not> (_ \<or> _)\<close> assms(2) al True by (simp add: tcp_output_def Let_def tcp_output_set_header_def)
      then show ?thesis using send_header_small [OF w, of "[]"] s2 only_below_trans by fastforce
    qed
  qed
qed

section \<open>A block that only receives\<close>

text \<open>What stays the same while segments arrive for a block that sends nothing.\<close>

definition same_conn :: "tcb \<Rightarrow> tcb \<Rightarrow> bool" where
  "same_conn t u \<longleftrightarrow> t_state u = t_state t \<and> t_local_ip u = t_local_ip t \<and> t_remote_ip u = t_remote_ip t
     \<and> t_local_port u = t_local_port t \<and> t_remote_port u = t_remote_port t \<and> unsent u = unsent t \<and> unacked u = unacked t
     \<and> refused_data u = refused_data t \<and> recv_cb u = recv_cb t \<and> callback_arg u = callback_arg t
     \<and> lastack u = lastack t \<and> snd_nxt u = snd_nxt t"

lemma same_conn_refl [simp]: "same_conn t t"
  by (simp add: same_conn_def)

lemma same_conn_trans: "same_conn t u \<Longrightarrow> same_conn u v \<Longrightarrow> same_conn t v"
  by (simp add: same_conn_def)

lemma tcp_recved_idle:
  fixes len :: u16
  assumes "wide s" "unsent (tcp_mem s a) = []"
  defines "w \<equiv> rcv_wnd (tcp_mem s a) + len"
  shows "\<exists>u s'. tcp_recved a len s = Some s' \<and> only_below (set_tcb a (\<lambda>_. u) s) s' \<and> same_conn (tcp_mem s a) u
    \<and> rcv_wnd u = (if TCP_WND < w then TCP_WND else w) \<and> rcv_nxt u = rcv_nxt (tcp_mem s a)"
proof -
  let ?t = "tcp_mem s a" and ?w = "if TCP_WND < w then TCP_WND else w"
  define s1 where "s1 = set_tcb a (\<lambda>t. if TCP_WND < rcv_wnd t then t\<lparr>rcv_wnd := TCP_WND\<rparr> else t) (set_tcb a (\<lambda>t. t\<lparr>rcv_wnd := rcv_wnd t + len\<rparr>) s)"
  have s1: "s1 = set_tcb a (\<lambda>t. t\<lparr>rcv_wnd := ?w\<rparr>) s" by (simp add: s1_def set_tcb_def w_def)
  obtain inf s2 where up: "tcp_update_rcv_ann_wnd a s1 = (inf, s2)" by fastforce
  then obtain x where "s2 = set_tcb a (\<lambda>t. t\<lparr>rcv_ann_wnd := x\<rparr>) s1" using update_ann_wnd [of a s1] by (metis snd_conv)
  then have s2: "s2 = set_tcb a (\<lambda>t. t\<lparr>rcv_wnd := ?w, rcv_ann_wnd := x\<rparr>) s" by (simp add: s1 set_tcb_def)
  have rec: "tcp_recved a len s = (if TCP_WND_UPDATE_THRESHOLD \<le> sint inf then tcp_ack_now a s2 else Some s2)"
    using up by (simp add: tcp_recved_def s1_def [symmetric])
  show ?thesis
  proof (cases "TCP_WND_UPDATE_THRESHOLD \<le> sint inf")
    case False
    have "same_conn ?t (?t\<lparr>rcv_wnd := ?w, rcv_ann_wnd := x\<rparr>)" by (simp add: same_conn_def)
    moreover have "set_tcb a (\<lambda>_. ?t\<lparr>rcv_wnd := ?w, rcv_ann_wnd := x\<rparr>) s = s2" by (simp add: s2 set_tcb_def)
    ultimately show ?thesis using False rec by (intro exI [of _ "?t\<lparr>rcv_wnd := ?w, rcv_ann_wnd := x\<rparr>"] exI [of _ s2]) simp
  next
    case True
    let ?s3 = "set_tcb a (\<lambda>t. t\<lparr>t_flags := t_flags t OR TF_ACK_NOW\<rparr>) s2"
    have "wide ?s3" "unsent (tcp_mem ?s3 a) = []" using assms(1,2) by (simp_all add: s2)
    from tcp_output_idle [OF this] obtain e f r s' where out: "tcp_output a ?s3 = Some (e, s')"
      "only_below (set_tcb a (\<lambda>t. t\<lparr>t_flags := f, rcv_ann_right_edge := r\<rparr>) ?s3) s'" by blast
    let ?u = "?t\<lparr>rcv_wnd := ?w, rcv_ann_wnd := x, t_flags := f, rcv_ann_right_edge := r\<rparr>"
    have "set_tcb a (\<lambda>t. t\<lparr>t_flags := f, rcv_ann_right_edge := r\<rparr>) ?s3 = set_tcb a (\<lambda>_. ?u) s" by (simp add: s2 set_tcb_def)
    then show ?thesis using True rec out
      by (intro exI [of _ ?u] exI [of _ s']) (simp add: tcp_ack_now_def same_conn_def)
  qed
qed

lemma drop_unsent_nil:
  assumes "unsent (tcp_mem s a) = []"
  shows "drop_unsent ackno a s = s"
proof -
  have e: "tcp_mem s a\<lparr>unsent := []\<rparr> = tcp_mem s a" unfolding assms [symmetric] by simp
  show ?thesis unfolding drop_unsent_def Let_def assms by (simp add: set_tcb_def e)
qed

lemma receive_ack_idle:
  assumes "unsent (tcp_mem s a) = []" "unacked (tcp_mem s a) = []" "in_ackno i = lastack (tcp_mem s a)"
  shows "\<exists>u. receive_ack i a s = Some (set_tcb a (\<lambda>_. u) s) \<and> same_conn (tcp_mem s a) u \<and> acked u = 0
    \<and> rcv_nxt u = rcv_nxt (tcp_mem s a) \<and> rcv_wnd u = rcv_wnd (tcp_mem s a) \<and> t_mss u = t_mss (tcp_mem s a)"
proof -
  let ?t = "tcp_mem s a" and ?edge = "ucast (snd_wnd (tcp_mem s a)) + snd_wl2 (tcp_mem s a)"
  define v where "v = window_update i ?t"
  have v: "same_conn ?t v" "rcv_nxt v = rcv_nxt ?t" "rcv_wnd v = rcv_wnd ?t" "t_mss v = t_mss ?t"
    by (simp_all add: v_def window_update_def same_conn_def Let_def)
  then have q: "unsent v = []" "unacked v = []" "lastack v = in_ackno i" using assms by (simp_all add: same_conn_def)
  obtain d where d: "duplicate_ack ?edge a (set_tcb a (\<lambda>_. v) s) = Some (set_tcb a (\<lambda>_. v\<lparr>acked := 0, dupacks := d\<rparr>) s)"
  proof (cases "snd_wl2 v + ucast (snd_wnd v) = ?edge")
    case True
    then show ?thesis using q by (intro that [of "dupacks v + 1"]) (simp add: duplicate_ack_def set_tcb_def)
  next
    case False
    then show ?thesis using q by (intro that [of "dupacks v"]) (simp add: duplicate_ack_def set_tcb_def)
  qed
  let ?u = "round_trip (tcp_ticks s) (in_ackno i) (v\<lparr>acked := 0, dupacks := d\<rparr>)"
  have w: "set_tcb a (window_update i) s = set_tcb a (\<lambda>_. v) s" by (simp add: v_def set_tcb_def)
  have "receive_ack i a s = Some (set_tcb a (\<lambda>_. ?u) s)"
  proof -
    let ?s1 = "set_tcb a (\<lambda>_. v) s" and ?s2 = "set_tcb a (\<lambda>_. v\<lparr>acked := 0, dupacks := d\<rparr>) s"
    have "unsent (tcp_mem ?s2 a) = []" using q by simp
    note n = drop_unsent_nil [OF this]
    have "receive_ack i a s = Some (set_tcb a (round_trip (tcp_ticks ?s2) (in_ackno i)) ?s2)"
      unfolding receive_ack_def Let_def w using q(3) d n by simp
    then show ?thesis by (simp add: set_tcb_def)
  qed
  moreover have "same_conn ?t ?u \<and> acked ?u = 0 \<and> rcv_nxt ?u = rcv_nxt ?t \<and> rcv_wnd ?u = rcv_wnd ?t \<and> t_mss ?u = t_mss ?t"
    using v by (simp add: round_trip_def same_conn_def Let_def)
  ultimately show ?thesis by blast
qed

text \<open>A segment with data and without options, that acknowledges nothing new.\<close>

definition data_in :: "u8 list \<Rightarrow> u32 \<Rightarrow> u32 \<Rightarrow> nat \<Rightarrow> nat \<Rightarrow> segment_in \<Rightarrow> bool" where
  "data_in st irs ack pos n i \<longleftrightarrow> slice_in st irs pos n False i \<and> in_flags i AND TCP_RST = 0 \<and> in_flags i AND TCP_ACK \<noteq> 0
     \<and> in_ackno i = ack \<and> th_hdrlen (in_hdr i) \<le> 5"

lemma set_tcb_input: "(set_tcb a f s)\<lparr>tcp_input_pcb := x\<rparr> = set_tcb a f (s\<lparr>tcp_input_pcb := x\<rparr>)"
  by (simp add: set_tcb_def)

text \<open>In \<open>ESTABLISHED\<close> the segment goes through the processing of its acknowledgement, and then to the receiver.\<close>

lemma process_established:
  assumes t: "t_state (tcp_mem s a) = ESTABLISHED" "unsent (tcp_mem s a) = []" "unacked (tcp_mem s a) = []"
    and i: "data_in st irs (lastack (tcp_mem s a)) pos n i"
  obtains u where "same_conn (tcp_mem s a) u" "acked u = 0" "rcv_nxt u = rcv_nxt (tcp_mem s a)" "rcv_wnd u = rcv_wnd (tcp_mem s a)"
    "\<And>j v. receive_data i a (set_tcb a (\<lambda>_. u) s) = Some (j, set_tcb a (\<lambda>_. v) s) \<Longrightarrow> t_state v = ESTABLISHED \<Longrightarrow> in_recv_flags j = 0
      \<Longrightarrow> tcp_process app i a s = Some (ERR_OK, j, set_tcb a (\<lambda>_. v) s)"
proof -
  let ?t = "tcp_mem s a"
  have fl: "in_flags i AND TCP_RST = 0" "in_flags i AND TCP_ACK \<noteq> 0" "in_ackno i = lastack ?t" "\<not> 5 < th_hdrlen (in_hdr i)"
      "in_flags i AND TCP_SYN = 0"
    using i by (auto simp: data_in_def slice_in_def)
  define u1 where "u1 = ?t\<lparr>t_tmr := tcp_ticks s, keep_cnt_sent := 0\<rparr>"
  have u1: "same_conn ?t u1" "rcv_nxt u1 = rcv_nxt ?t" "rcv_wnd u1 = rcv_wnd ?t" by (simp_all add: u1_def same_conn_def)
  let ?s1 = "set_tcb a (\<lambda>_. u1) s"
  have "unsent (tcp_mem ?s1 a) = []" "unacked (tcp_mem ?s1 a) = []" "in_ackno i = lastack (tcp_mem ?s1 a)"
    using u1(1) t fl(3) by (simp_all add: same_conn_def)
  from receive_ack_idle [OF this] obtain u where ack: "receive_ack i a ?s1 = Some (set_tcb a (\<lambda>_. u) ?s1)"
      "same_conn u1 u" "acked u = 0" "rcv_nxt u = rcv_nxt u1" "rcv_wnd u = rcv_wnd u1" by auto
  have e: "set_tcb a (\<lambda>_. u) ?s1 = set_tcb a (\<lambda>_. u) s" "set_tcb a (\<lambda>t. t\<lparr>t_mss := t_mss u1\<rparr>) ?s1 = ?s1"
      "set_tcb a (\<lambda>t. t\<lparr>t_tmr := tcp_ticks s, keep_cnt_sent := 0\<rparr>) s = ?s1" by (simp_all add: set_tcb_def u1_def)
  have opt: "tcp_parseopt i m = Some m" for m using fl(4) by (simp add: tcp_parseopt_def)
  have "tcp_process app i a s = Some (ERR_OK, j, set_tcb a (\<lambda>_. v) s)"
    if r: "receive_data i a (set_tcb a (\<lambda>_. u) s) = Some (j, set_tcb a (\<lambda>_. v) s)" "t_state v = ESTABLISHED" "in_recv_flags j = 0" for j v
  proof -
    have "tcp_receive i a ?s1 = Some (j, set_tcb a (\<lambda>_. v) s)" using fl(2) ack(1) r(1) by (simp add: tcp_receive_def e(1))
    then have "process_open i a ?s1 = Some (ERR_OK, j, set_tcb a (\<lambda>_. v) s)" using r by (simp add: process_open_def)
    then show ?thesis unfolding tcp_process_def Let_def e(3) opt using fl(1,5) t(1) by (simp add: e(2))
  qed
  then show ?thesis using that [of u] same_conn_trans [OF u1(1) ack(2)] ack u1 by simp
qed

lemma process_data:
  assumes t: "t_state (tcp_mem s a) = ESTABLISHED" "unsent (tcp_mem s a) = []" "unacked (tcp_mem s a) = []"
    and i: "data_in st irs (lastack (tcp_mem s a)) pos n i"
    and k: "rcv_nxt (tcp_mem s a) = irs + of_nat k" "k \<le> length st" "length st + 70000 < 2 ^ 31"
    and w: "n \<le> unat (rcv_wnd (tcp_mem s a))" "unat (rcv_wnd (tcp_mem s a)) \<le> 32767" "0 < rcv_wnd (tcp_mem s a)"
    and input: "tcp_input_pcb s = Some a"
  shows "\<exists>i' u. tcp_process app i a s = Some (ERR_OK, i', set_tcb a (\<lambda>_. u) s) \<and> same_conn (tcp_mem s a) u \<and> acked u = 0
    \<and> rcv_nxt u = irs + of_nat (reached pos n False k) \<and> rcv_wnd u = rcv_wnd (tcp_mem s a) - of_nat (reached pos n False k - k)
    \<and> map_option contents (in_recv_data i') = (if reached pos n False k \<noteq> k then Some (take (reached pos n False k - k) (drop k st)) else None)
    \<and> in_recv_flags i' = 0 \<and> (\<forall>q. in_recv_data i' = Some q \<longrightarrow> length q = length (the (in_p i)))"
proof -
  let ?t = "tcp_mem s a" and ?r = "reached pos n False k"
  have sl: "slice_in st irs pos n False i" using i by (simp add: data_in_def)
  obtain u2 where u2: "same_conn ?t u2" "acked u2 = 0" "rcv_nxt u2 = rcv_nxt ?t" "rcv_wnd u2 = rcv_wnd ?t"
    and run: "\<And>j v. receive_data i a (set_tcb a (\<lambda>_. u2) s) = Some (j, set_tcb a (\<lambda>_. v) s) \<Longrightarrow> t_state v = ESTABLISHED \<Longrightarrow> in_recv_flags j = 0
      \<Longrightarrow> tcp_process app i a s = Some (ERR_OK, j, set_tcb a (\<lambda>_. v) s)"
    using process_established [OF t i] by metis
  let ?s2 = "set_tcb a (\<lambda>_. u2) s"
  have m2: "tcp_mem ?s2 a = u2" "tcp_input_pcb ?s2 = Some a" using input by simp_all
  have k2: "rcv_nxt (tcp_mem ?s2 a) = irs + of_nat k" "k \<le> length st + 1"
    "n + of_bool False \<le> unat (rcv_wnd (tcp_mem ?s2 a))" "unat (rcv_wnd (tcp_mem ?s2 a)) \<le> 32767" "0 < rcv_wnd (tcp_mem ?s2 a)"
    unfolding m2 using u2 k w by simp_all
  from receive_data_slice [OF sl k2(1,2) k(3) k2(3-5) m2(2)] obtain i' x f where
    dat: "receive_data i a ?s2 = Some (i', set_tcb a (\<lambda>t. t\<lparr>rcv_nxt := irs + of_nat ?r, rcv_wnd := rcv_wnd u2 - of_nat (?r - k),
        rcv_ann_wnd := x, t_flags := f\<rparr>) ?s2)"
    "map_option contents (in_recv_data i') = (if pos \<le> k \<and> k < pos + n then Some (drop (k - pos) (take n (drop pos st))) else None)"
    "in_recv_flags i' = 0" "\<forall>q. in_recv_data i' = Some q \<longrightarrow> length q = length (the (in_p i))" unfolding m2 by auto
  define u3 where "u3 = u2\<lparr>rcv_nxt := irs + of_nat ?r, rcv_wnd := rcv_wnd u2 - of_nat (?r - k), rcv_ann_wnd := x, t_flags := f\<rparr>"
  have e3: "set_tcb a (\<lambda>t. t\<lparr>rcv_nxt := irs + of_nat ?r, rcv_wnd := rcv_wnd u2 - of_nat (?r - k), rcv_ann_wnd := x, t_flags := f\<rparr>) ?s2
      = set_tcb a (\<lambda>_. u3) s" by (simp add: set_tcb_def u3_def)
  have c3: "same_conn ?t u3" "acked u3 = 0" using u2 by (simp_all add: u3_def same_conn_def)
  then have "t_state u3 = ESTABLISHED" using t by (simp add: same_conn_def)
  from run [OF dat(1) [unfolded e3] this dat(3)] have "tcp_process app i a s = Some (ERR_OK, i', set_tcb a (\<lambda>_. u3) s)" .
  moreover have "drop (k - pos) (take n (drop pos st)) = take (pos + n - k) (drop k st)" if "pos \<le> k"
    using that by (simp add: drop_take add.commute)
  then have "map_option contents (in_recv_data i') = (if ?r \<noteq> k then Some (take (?r - k) (drop k st)) else None)"
    using dat(2) by (simp add: reached_def)
  ultimately show ?thesis
    using c3 dat(3,4) u2(4) by (intro exI [of _ i'] exI [of _ u3]) (simp add: u3_def)
qed

text \<open>With a closed window nothing is taken.\<close>

lemma receive_data_closed:
  assumes i: "slice_in st irs pos n False i" "n \<le> 32767"
    and k: "rcv_nxt (tcp_mem s a) = irs + of_nat k" "k \<le> length st" "length st + 70000 < 2 ^ 31"
    and w: "rcv_wnd (tcp_mem s a) = 0" and input: "tcp_input_pcb s = Some a"
  shows "\<exists>j f. receive_data i a s = Some (j, set_tcb a (\<lambda>t. t\<lparr>t_flags := f\<rparr>) s) \<and> in_recv_data j = None \<and> in_recv_flags j = 0"
proof -
  let ?t = "tcp_mem s a"
  have "\<not> TCP_SEQ_LEQ x (x - 1)" for x :: u32
    using unat_1 by (simp add: TCP_SEQ_LEQ_def)
  then have closed: "\<not> (in_window j ?t \<and> rcv_nxt ?t = in_seqno j)" for j
    unfolding in_window_def TCP_SEQ_BETWEEN_def w by (metis add_0_right unsigned_0)
  have flags: "set_tcb a (\<lambda>t. t\<lparr>t_flags := f\<rparr>) (set_tcb a (\<lambda>t. t\<lparr>t_flags := g\<rparr>) s) = set_tcb a (\<lambda>t. t\<lparr>t_flags := f\<rparr>) s" for f g
    by (simp add: set_tcb_def)
  have ack: "tcp_ack_now a (set_tcb a (\<lambda>t. t\<lparr>t_flags := f\<rparr>) s) = Some (set_tcb a (\<lambda>t. t\<lparr>t_flags := f OR TF_ACK_NOW\<rparr>) s)"
    "tcp_ack_now a s = Some (set_tcb a (\<lambda>t. t\<lparr>t_flags := t_flags ?t OR TF_ACK_NOW\<rparr>) s)" for f
    using input by (simp_all add: set_tcb_def)
  have same: "s = set_tcb a (\<lambda>t. t\<lparr>t_flags := t_flags ?t\<rparr>) s" by (simp add: set_tcb_def)
  have f: "in_len i = of_nat n" "in_tcplen i = of_nat n" "in_seqno i = irs + of_nat pos" "in_recv_flags i = 0" "in_recv_data i = None"
    using i(1) by (simp_all add: slice_in_def)
  obtain p where p: "in_p i = Some p" "p \<noteq> []" "length (contents p) = n" "pos + n \<le> length st" using i(1) by (auto simp: slice_in_def)
  show ?thesis
  proof (cases "in_tcplen i = 0")
    case True
    have "receive_data i a s = Some (i, set_tcb a (\<lambda>t. t\<lparr>t_flags := (if in_window i ?t then t_flags ?t else t_flags ?t OR TF_ACK_NOW)\<rparr>) s)"
      unfolding receive_data_def ack(2) using True by (simp flip: same)
    then show ?thesis using f by blast
  next
    case False
    then have n0: "0 < n" using f(2) by (cases n) simp_all
    have "TCP_SEQ_BETWEEN (rcv_nxt ?t) (in_seqno i + 1) (in_seqno i + ucast (in_tcplen i) - 1) \<longleftrightarrow> pos < k \<and> k < pos + n"
      by (rule before_next [OF k(1) f(3) f(2)]) (use n0 i(2) p(4) k in linarith)+
    then have "\<exists>j g. (if TCP_SEQ_BETWEEN (rcv_nxt ?t) (in_seqno i + 1) (in_seqno i + ucast (in_tcplen i) - 1)
           then map_option (\<lambda>i. (i, s)) (trim_front (rcv_nxt ?t) i)
           else if TCP_SEQ_LT (in_seqno i) (rcv_nxt ?t) then map_option (\<lambda>s. (i, s)) (tcp_ack_now a s)
           else Some (i, s)) = Some (j, set_tcb a (\<lambda>t. t\<lparr>t_flags := g\<rparr>) s) \<and> in_recv_data j = None \<and> in_recv_flags j = 0"
    proof (cases "pos < k \<and> k < pos + n")
      case True
      then have "pos \<le> k" "k - pos \<le> length (contents p)" "length (contents p) < 32768" "in_len i = of_nat (length (contents p))"
        using p(3) i(2) f(1) True by auto
      from trim_front_slice [OF p(1,2) this(4) f(3) this(1-3)] obtain j where
        "trim_front (irs + of_nat k) i = Some j" "in_recv_data j = None" "in_recv_flags j = 0" using f(4,5) by fastforce
      then show ?thesis
        using \<open>_ \<longleftrightarrow> pos < k \<and> k < pos + n\<close> True unfolding k(1)
        by (intro exI [of _ j] exI [of _ "t_flags ?t"]) (simp flip: same)
    next
      case False
      then show ?thesis
        using \<open>_ \<longleftrightarrow> pos < k \<and> k < pos + n\<close> f(4,5) unfolding ack(2)
        by (intro exI [of _ i] exI [of _ "if TCP_SEQ_LT (in_seqno i) (rcv_nxt ?t) then t_flags ?t OR TF_ACK_NOW else t_flags ?t"])
          (auto simp flip: same)
    qed
    then obtain j g where j: "(if TCP_SEQ_BETWEEN (rcv_nxt ?t) (in_seqno i + 1) (in_seqno i + ucast (in_tcplen i) - 1)
           then map_option (\<lambda>i. (i, s)) (trim_front (rcv_nxt ?t) i)
           else if TCP_SEQ_LT (in_seqno i) (rcv_nxt ?t) then map_option (\<lambda>s. (i, s)) (tcp_ack_now a s)
           else Some (i, s)) = Some (j, set_tcb a (\<lambda>t. t\<lparr>t_flags := g\<rparr>) s)" "in_recv_data j = None" "in_recv_flags j = 0" by blast
    have "\<not> (in_window j (?t\<lparr>t_flags := g\<rparr>) \<and> rcv_nxt ?t = in_seqno j)" using closed [of j] by (simp add: in_window_def)
    then have "receive_data i a s = Some (j, set_tcb a (\<lambda>t. t\<lparr>t_flags := g OR TF_ACK_NOW\<rparr>) s)"
      unfolding receive_data_def Let_def j(1) using False ack(1) [of g] by auto
    then show ?thesis using j(2,3) by blast
  qed
qed

lemma process_closed:
  assumes t: "t_state (tcp_mem s a) = ESTABLISHED" "unsent (tcp_mem s a) = []" "unacked (tcp_mem s a) = []"
    and i: "data_in st irs (lastack (tcp_mem s a)) pos n i" "n \<le> 32767"
    and k: "rcv_nxt (tcp_mem s a) = irs + of_nat k" "k \<le> length st" "length st + 70000 < 2 ^ 31"
    and w: "rcv_wnd (tcp_mem s a) = 0" and input: "tcp_input_pcb s = Some a"
  shows "\<exists>i' u. tcp_process app i a s = Some (ERR_OK, i', set_tcb a (\<lambda>_. u) s) \<and> same_conn (tcp_mem s a) u \<and> acked u = 0
    \<and> rcv_nxt u = rcv_nxt (tcp_mem s a) \<and> rcv_wnd u = 0 \<and> in_recv_data i' = None \<and> in_recv_flags i' = 0"
proof -
  let ?t = "tcp_mem s a"
  have sl: "slice_in st irs pos n False i" using i by (simp add: data_in_def)
  obtain u2 where u2: "same_conn ?t u2" "acked u2 = 0" "rcv_nxt u2 = rcv_nxt ?t" "rcv_wnd u2 = rcv_wnd ?t"
    and run: "\<And>j v. receive_data i a (set_tcb a (\<lambda>_. u2) s) = Some (j, set_tcb a (\<lambda>_. v) s) \<Longrightarrow> t_state v = ESTABLISHED \<Longrightarrow> in_recv_flags j = 0
      \<Longrightarrow> tcp_process app i a s = Some (ERR_OK, j, set_tcb a (\<lambda>_. v) s)"
    using process_established [OF t i(1)] by metis
  let ?s2 = "set_tcb a (\<lambda>_. u2) s"
  have "rcv_nxt (tcp_mem ?s2 a) = irs + of_nat k" "rcv_wnd (tcp_mem ?s2 a) = 0" "tcp_input_pcb ?s2 = Some a" using u2 k(1) w input by simp_all
  from receive_data_closed [OF sl i(2) this(1) k(2,3) this(2,3)] obtain j f where
    dat: "receive_data i a ?s2 = Some (j, set_tcb a (\<lambda>t. t\<lparr>t_flags := f\<rparr>) ?s2)" "in_recv_data j = None" "in_recv_flags j = 0" by blast
  have e: "set_tcb a (\<lambda>t. t\<lparr>t_flags := f\<rparr>) ?s2 = set_tcb a (\<lambda>_. u2\<lparr>t_flags := f\<rparr>) s" by (simp add: set_tcb_def)
  have c: "same_conn ?t (u2\<lparr>t_flags := f\<rparr>)" using u2 by (simp add: same_conn_def)
  then have "t_state (u2\<lparr>t_flags := f\<rparr>) = ESTABLISHED" using t by (simp add: same_conn_def)
  from run [OF dat(1) [unfolded e] this dat(3)] show ?thesis
    using c u2 w dat(2,3) by (intro exI [of _ j] exI [of _ "u2\<lparr>t_flags := f\<rparr>"]) simp
qed

section \<open>An application that reads\<close>

definition receiving :: "nat \<Rightarrow> nat \<Rightarrow> nat \<Rightarrow> 'a tcp \<Rightarrow> bool" where
  "receiving c arg a s \<longleftrightarrow> t_state (tcp_mem s a) = ESTABLISHED \<and> unsent (tcp_mem s a) = [] \<and> unacked (tcp_mem s a) = []
     \<and> refused_data (tcp_mem s a) = None \<and> recv_cb (tcp_mem s a) = Cb c \<and> callback_arg (tcp_mem s a) = arg
     \<and> \<not> freed a s \<and> wide s \<and> tcp_input_pcb s = None"

lemma freed_set_tcb [simp]: "freed b (set_tcb a f s) \<longleftrightarrow> freed b s"
  by (simp add: freed_def)

lemma receiving_conn: "receiving c arg a s \<Longrightarrow> same_conn (tcp_mem s a) u \<Longrightarrow> receiving c arg a (set_tcb a (\<lambda>_. u) s)"
  by (simp add: receiving_def same_conn_def)

lemma receiving_below: "receiving c arg a s \<Longrightarrow> only_below s s' \<Longrightarrow> receiving c arg a s'"
  using only_below_fields [of s s'] by (simp add: receiving_def freed_def)

lemma take_slice: "k + m \<le> r \<Longrightarrow> take m (drop k xs) @ take (r - (k + m)) (drop (k + m) xs) = take (r - k) (drop k xs)"
  using take_add [of m "r - (k + m)" "drop k xs"] by (simp add: add.commute)

text \<open>Segments that arrive one after the other for the block.\<close>

fun input_all :: "'a tcp_app \<Rightarrow> segment_in list \<Rightarrow> nat \<Rightarrow> 'a tcp \<Rightarrow> 'a tcp option" where
  "input_all app [] a s = Some s"
| "input_all app (i # is) a s = tcp_input_active app i a s \<bind> input_all app is a"

text \<open>
  The interface of the receiver to an application: for chains that fit the application, with bytes it only reads,
  its callback takes all data and says so, and reads it with \<open>read\<close>; and if \<open>reopens\<close> it tells TCP with
  \<open>tcp_recved\<close> that there is room again.
\<close>

definition window_after :: "bool \<Rightarrow> u16 \<Rightarrow> u16 \<Rightarrow> u16" where
  "window_after reopens w m = (if reopens then if TCP_WND < w then TCP_WND else w else w - m)"

locale stream_reader =
  fixes app :: "'a tcp_app" and c arg :: nat and fits :: "nat \<Rightarrow> bool" and quiet :: "u8 \<Rightarrow> bool" and ready :: "'a \<Rightarrow> bool"
    and read :: "u8 list \<Rightarrow> 'a \<Rightarrow> 'a" and reopens :: bool
  assumes data: "fits (length p) \<Longrightarrow> contents p \<noteq> [] \<Longrightarrow> \<forall>x\<in>set (contents p). quiet x \<Longrightarrow> ready (app_state s) \<Longrightarrow>
      app (Ev_recv c arg a (Some p) ERR_OK) s =
        map_option (\<lambda>s'. (ERR_OK, tcp_log (Free_chain p) (s'\<lparr>app_state := read (contents p) (app_state s)\<rparr>)))
          (if reopens then tcp_recved a (chain_len p) s else Some s)"
    and stays: "ready x \<Longrightarrow> \<forall>b\<in>set d. quiet b \<Longrightarrow> ready (read d x)"
begin

lemma event_data:
  assumes r: "receiving c arg a s" and p: "fits (length p)" "contents p \<noteq> []" "\<forall>x\<in>set (contents p). quiet x" "ready (app_state s)"
    and w: "rcv_wnd (tcp_mem s a) = w - of_nat (length (contents p))"
  shows "\<exists>u s'. TCP_EVENT_RECV app a (Some p) ERR_OK s = Some (ERR_OK, s') \<and> receiving c arg a s'
    \<and> app_state s' = read (contents p) (app_state s) \<and> tcp_mem s' a = u \<and> same_conn (tcp_mem s a) u
    \<and> rcv_wnd u = window_after reopens w (of_nat (length (contents p))) \<and> rcv_nxt u = rcv_nxt (tcp_mem s a)"
proof -
  let ?t = "tcp_mem s a" and ?m = "of_nat (length (contents p)) :: u16"
  have ev: "TCP_EVENT_RECV app a (Some p) ERR_OK s = map_option (\<lambda>s'. (ERR_OK, tcp_log (Free_chain p) (s'\<lparr>app_state := read (contents p) (app_state s)\<rparr>)))
      (if reopens then tcp_recved a (chain_len p) s else Some s)"
    using r data [OF p] by (simp add: TCP_EVENT_RECV_def receiving_def)
  have "\<exists>u s1. (if reopens then tcp_recved a (chain_len p) s else Some s) = Some s1 \<and> only_below (set_tcb a (\<lambda>_. u) s) s1
      \<and> same_conn ?t u \<and> rcv_wnd u = window_after reopens w ?m \<and> rcv_nxt u = rcv_nxt ?t"
  proof (cases reopens)
    case False
    have "set_tcb a (\<lambda>_. ?t) s = s" by (simp add: set_tcb_def)
    then have "only_below (set_tcb a (\<lambda>_. ?t) s) s" by (metis only_below_refl)
    then show ?thesis using False w by (intro exI [of _ ?t] exI [of _ s]) (simp only: window_after_def if_False same_conn_refl simp_thms)
  next
    case True
    have "rcv_wnd ?t + chain_len p = w" using w by (simp add: chain_len_def)
    note e = tcp_recved_idle [of s a "chain_len p", unfolded this]
    show ?thesis using e r True by (simp add: receiving_def window_after_def split del: if_split)
  qed
  then obtain u s1 where s1: "(if reopens then tcp_recved a (chain_len p) s else Some s) = Some s1"
      "only_below (set_tcb a (\<lambda>_. u) s) s1" "same_conn ?t u" "rcv_wnd u = window_after reopens w ?m" "rcv_nxt u = rcv_nxt ?t" by blast
  let ?s' = "tcp_log (Free_chain p) (s1\<lparr>app_state := read (contents p) (app_state s)\<rparr>)"
  have b: "receiving c arg a s1" using receiving_below [OF receiving_conn [OF r s1(3)] s1(2)] .
  then have "receiving c arg a (s1\<lparr>app_state := read (contents p) (app_state s)\<rparr>)" by (simp add: receiving_def freed_def wide_def)
  then have "receiving c arg a ?s'" using only_below_log by (rule receiving_below)
  moreover have "tcp_mem ?s' a = u" "app_state ?s' = read (contents p) (app_state s)"
    using only_below_fields(1) [OF s1(2)] by (simp_all add: tcp_log_def)
  ultimately show ?thesis using ev s1 by (intro exI [of _ u] exI [of _ ?s']) simp
qed

lemma told:
  assumes r: "receiving c arg a s" and i: "acked (tcp_mem s a) = 0" "in_recv_flags i = 0"
    and d: "map_option contents (in_recv_data i) = (if d = [] then None else Some d)" "\<forall>q. in_recv_data i = Some q \<longrightarrow> fits (length q)"
      "\<forall>x\<in>set d. quiet x" "ready (app_state s)"
    and w: "rcv_wnd (tcp_mem s a) = w - of_nat (length d)"
  shows "\<exists>u s'. tell_application app i a s = Some s' \<and> receiving c arg a s' \<and> app_state s' = (if d = [] then id else read d) (app_state s)
    \<and> tcp_mem s' a = u \<and> same_conn (tcp_mem s a) u \<and> rcv_nxt u = rcv_nxt (tcp_mem s a)
    \<and> rcv_wnd u = (if d = [] then w else window_after reopens w (of_nat (length d)))"
proof -
  have ev: "\<exists>u s1. (case in_recv_data i of None \<Rightarrow> Some (ERR_OK, s)
        | Some p \<Rightarrow> if freed a s then None else do {
            (err, s) \<leftarrow> TCP_EVENT_RECV app a (Some p) ERR_OK s;
            if err = ERR_OK then Some (err, s)
            else if freed a s then None else Some (err, set_tcb a (\<lambda>t. t\<lparr>refused_data := Some p\<rparr>) s)
          }) = Some (ERR_OK, s1) \<and> receiving c arg a s1 \<and> app_state s1 = (if d = [] then id else read d) (app_state s)
      \<and> tcp_mem s1 a = u \<and> same_conn (tcp_mem s a) u \<and> rcv_nxt u = rcv_nxt (tcp_mem s a)
      \<and> rcv_wnd u = (if d = [] then w else window_after reopens w (of_nat (length d)))"
  proof (cases "in_recv_data i")
    case None
    then have "d = []" using d(1) by (simp split: if_splits)
    then show ?thesis using None r w by simp
  next
    case (Some p)
    then have p: "contents p = d" "d \<noteq> []" "fits (length p)" using d by (auto split: if_splits)
    obtain u s1 where s1: "TCP_EVENT_RECV app a (Some p) ERR_OK s = Some (ERR_OK, s1)" "receiving c arg a s1"
      "app_state s1 = read d (app_state s)" "tcp_mem s1 a = u" "same_conn (tcp_mem s a) u"
      "rcv_wnd u = window_after reopens w (of_nat (length d))" "rcv_nxt u = rcv_nxt (tcp_mem s a)"
      using event_data [OF r p(3), of w] p(1,2) w d(3,4) by auto
    then show ?thesis using Some p(2) r by (simp add: receiving_def)
  qed
  then obtain u s1 where e: "tell_application app i a s = (if freed a s1 then None else map_option snd (tcp_output a s1))"
      and s1: "receiving c arg a s1" "app_state s1 = (if d = [] then id else read d) (app_state s)" "tcp_mem s1 a = u"
      "same_conn (tcp_mem s a) u" "rcv_nxt u = rcv_nxt (tcp_mem s a)" "rcv_wnd u = (if d = [] then w else window_after reopens w (of_nat (length d)))"
    using that unfolding tell_application_def by (elim exE conjE) (simp add: i)
  obtain e f x s2 where out: "tcp_output a s1 = Some (e, s2)" "only_below (set_tcb a (\<lambda>t. t\<lparr>t_flags := f, rcv_ann_right_edge := x\<rparr>) s1) s2"
    using tcp_output_idle [of s1 a] s1(1) by (auto simp: receiving_def)
  note b = only_below_fields [OF out(2)]
  have c: "same_conn u (tcp_mem s2 a)" using s1(3) by (simp add: b same_conn_def)
  have "receiving c arg a s2" using s1(1,3) b by (simp add: receiving_def freed_def)
  then show ?thesis
    using e s1 out(1) b same_conn_trans [OF s1(4) c] by (simp add: receiving_def)
qed

text \<open>A segment that the processing leaves with the data \<open>d\<close>, of which the window has been reduced.\<close>

lemma input_told:
  assumes r: "receiving c arg a s" and pr: "tcp_process app i a (s\<lparr>tcp_input_pcb := Some a\<rparr>) = Some (ERR_OK, j, set_tcb a (\<lambda>_. u) (s\<lparr>tcp_input_pcb := Some a\<rparr>))"
    and u: "same_conn (tcp_mem s a) u" "acked u = 0" "rcv_wnd u = w - of_nat (length d)"
    and j: "in_recv_flags j = 0" "map_option contents (in_recv_data j) = (if d = [] then None else Some d)"
      "\<forall>q. in_recv_data j = Some q \<longrightarrow> fits (length q)" "\<forall>x\<in>set d. quiet x" "ready (app_state s)"
  shows "\<exists>s'. tcp_input_active app i a s = Some s' \<and> receiving c arg a s' \<and> lastack (tcp_mem s' a) = lastack (tcp_mem s a)
    \<and> rcv_nxt (tcp_mem s' a) = rcv_nxt u \<and> app_state s' = (if d = [] then id else read d) (app_state s)
    \<and> rcv_wnd (tcp_mem s' a) = (if d = [] then w else window_after reopens w (of_nat (length d)))"
proof -
  let ?s0 = "s\<lparr>tcp_input_pcb := Some a\<rparr>" and ?s1 = "set_tcb a (\<lambda>_. u) s"
  have "s\<lparr>tcp_input_pcb := Some a, tcp_input_pcb := None\<rparr> = s" using r by (simp add: receiving_def)
  then have undo: "(set_tcb a (\<lambda>_. u) ?s0)\<lparr>tcp_input_pcb := None\<rparr> = ?s1" by (simp add: set_tcb_input)
  have s1: "receiving c arg a ?s1" using r u(1) by (rule receiving_conn)
  have "acked (tcp_mem ?s1 a) = 0" "rcv_wnd (tcp_mem ?s1 a) = w - of_nat (length d)" "ready (app_state ?s1)" using u j by simp_all
  then obtain v s2 where tell: "tell_application app j a ?s1 = Some s2" "receiving c arg a s2"
      "app_state s2 = (if d = [] then id else read d) (app_state s)" "tcp_mem s2 a = v" "same_conn u v" "rcv_nxt v = rcv_nxt u"
      "rcv_wnd v = (if d = [] then w else window_after reopens w (of_nat (length d)))"
    using told [OF s1 _ j(1,2,3,4)] by auto
  have f: "only_below s2 (free_inseg j s2)" by (simp add: free_inseg_def free_refused_def split: option.split)
  note b = only_below_fields [OF f]
  have "tcp_input_active app i a s = Some (free_inseg j s2)"
    using r pr tell(1) j(1) by (simp add: tcp_input_active_def after_process_def receiving_def undo)
  then show ?thesis using tell u(1) b same_conn_trans [OF u(1) tell(5)] receiving_below [OF tell(2) f] by (simp add: same_conn_def)
qed

lemma reads_segment:
  assumes r: "receiving c arg a s" "ready (app_state s)"
    and i: "data_in st irs (lastack (tcp_mem s a)) pos n i" "fits (length (the (in_p i)))" "\<forall>x\<in>set st. quiet x"
    and k: "rcv_nxt (tcp_mem s a) = irs + of_nat k" "k \<le> length st" "length st + 70000 < 2 ^ 31"
    and w: "n \<le> unat (rcv_wnd (tcp_mem s a))" "unat (rcv_wnd (tcp_mem s a)) \<le> 32767" "0 < rcv_wnd (tcp_mem s a)"
  defines "m \<equiv> reached pos n False k - k"
  shows "\<exists>s'. tcp_input_active app i a s = Some s' \<and> receiving c arg a s' \<and> lastack (tcp_mem s' a) = lastack (tcp_mem s a)
    \<and> rcv_nxt (tcp_mem s' a) = irs + of_nat (k + m)
    \<and> app_state s' = (if m = 0 then id else read (take m (drop k st))) (app_state s)
    \<and> rcv_wnd (tcp_mem s' a) = (if m = 0 then rcv_wnd (tcp_mem s a) else window_after reopens (rcv_wnd (tcp_mem s a)) (of_nat m))"
proof -
  let ?r = "reached pos n False k"
  have km: "?r = k + m" "k + m \<le> length st" using i k(2) by (auto simp: m_def reached_def data_in_def slice_in_def)
  let ?s0 = "s\<lparr>tcp_input_pcb := Some a\<rparr>"
  have t: "t_state (tcp_mem ?s0 a) = ESTABLISHED" "unsent (tcp_mem ?s0 a) = []" "unacked (tcp_mem ?s0 a) = []"
    "data_in st irs (lastack (tcp_mem ?s0 a)) pos n i" "rcv_nxt (tcp_mem ?s0 a) = irs + of_nat k"
    "n \<le> unat (rcv_wnd (tcp_mem ?s0 a))" "unat (rcv_wnd (tcp_mem ?s0 a)) \<le> 32767" "0 < rcv_wnd (tcp_mem ?s0 a)" "tcp_input_pcb ?s0 = Some a"
    using assms by (simp_all add: receiving_def)
  from process_data [OF t(1-5) k(2,3) t(6-9), of app] obtain j u where
    pr: "tcp_process app i a ?s0 = Some (ERR_OK, j, set_tcb a (\<lambda>_. u) ?s0)" and u: "same_conn (tcp_mem s a) u" "acked u = 0"
      "rcv_nxt u = irs + of_nat (k + m)" "rcv_wnd u = rcv_wnd (tcp_mem s a) - of_nat m"
      "map_option contents (in_recv_data j) = (if m \<noteq> 0 then Some (take m (drop k st)) else None)" "in_recv_flags j = 0"
      "\<forall>q. in_recv_data j = Some q \<longrightarrow> fits (length q)"
    using i(2) unfolding km(1) by auto
  let ?d = "take m (drop k st)"
  have len: "length ?d = m" using km(2) by simp
  then have d0: "?d = [] \<longleftrightarrow> m = 0" by (metis length_0_conv)
  have "\<forall>x\<in>set ?d. quiet x" using i(3) by (meson in_set_dropD in_set_takeD)
  then show ?thesis
    using input_told [OF r(1) pr u(1,2), of "rcv_wnd (tcp_mem s a)" ?d] u r(2) unfolding len d0 by auto
qed

lemma closed_segment:
  assumes r: "receiving c arg a s" "ready (app_state s)"
    and i: "data_in st irs (lastack (tcp_mem s a)) pos n i" "n \<le> 32767"
    and k: "rcv_nxt (tcp_mem s a) = irs + of_nat k" "k \<le> length st" "length st + 70000 < 2 ^ 31" and w: "rcv_wnd (tcp_mem s a) = 0"
  shows "\<exists>s'. tcp_input_active app i a s = Some s' \<and> receiving c arg a s' \<and> lastack (tcp_mem s' a) = lastack (tcp_mem s a)
    \<and> rcv_nxt (tcp_mem s' a) = rcv_nxt (tcp_mem s a) \<and> app_state s' = app_state s \<and> rcv_wnd (tcp_mem s' a) = 0"
proof -
  let ?s0 = "s\<lparr>tcp_input_pcb := Some a\<rparr>"
  have t: "t_state (tcp_mem ?s0 a) = ESTABLISHED" "unsent (tcp_mem ?s0 a) = []" "unacked (tcp_mem ?s0 a) = []"
    "data_in st irs (lastack (tcp_mem ?s0 a)) pos n i" "rcv_nxt (tcp_mem ?s0 a) = irs + of_nat k"
    "rcv_wnd (tcp_mem ?s0 a) = 0" "tcp_input_pcb ?s0 = Some a"
    using assms by (simp_all add: receiving_def)
  from process_closed [OF t(1-4) i(2) t(5) k(2,3) t(6,7), of app] obtain j u where
    pr: "tcp_process app i a ?s0 = Some (ERR_OK, j, set_tcb a (\<lambda>_. u) ?s0)" and u: "same_conn (tcp_mem s a) u" "acked u = 0"
      "rcv_nxt u = rcv_nxt (tcp_mem s a)" "rcv_wnd u = 0" "in_recv_data j = None" "in_recv_flags j = 0" by auto
  then show ?thesis
    using input_told [OF r(1) pr u(1,2), of 0 "[]"] r(2) by auto
qed

text \<open>
  Segments in any order, doubled and overlapping: the application reads the pieces of the stream that
  follow each other.  It is told nothing twice and nothing out of order.
\<close>

lemma reads_stream:
  assumes "receiving c arg a s" "ready (app_state s)" "reopens" "\<forall>x\<in>set st. quiet x"
    and "rcv_nxt (tcp_mem s a) = irs + of_nat k" "k \<le> length st" "length st + 70000 < 2 ^ 31" "rcv_wnd (tcp_mem s a) = TCP_WND"
    and "list_all2 (\<lambda>(pos, n) i. data_in st irs (lastack (tcp_mem s a)) pos n i \<and> n \<le> unat TCP_WND \<and> fits (length (the (in_p i)))) ps is"
  shows "\<exists>s' ds. input_all app is a s = Some s' \<and> receiving c arg a s' \<and> ready (app_state s')
    \<and> rcv_nxt (tcp_mem s' a) = irs + of_nat (foldl (\<lambda>k (pos, n). reached pos n False k) k ps) \<and> rcv_wnd (tcp_mem s' a) = TCP_WND
    \<and> app_state s' = fold read ds (app_state s) \<and> [] \<notin> set ds \<and> k \<le> foldl (\<lambda>k (pos, n). reached pos n False k) k ps
    \<and> concat ds = take (foldl (\<lambda>k (pos, n). reached pos n False k) k ps - k) (drop k st)"
  using assms(1,2,5,6,8,9)
proof (induction "is" arbitrary: ps s k)
  case Nil
  then have "ps = []" by simp
  then show ?case using Nil.prems by (intro exI [of _ s] exI [of _ "[]"]) simp
next
  case (Cons i "is")
  from Cons.prems(6) obtain x ps' where x: "ps = x # ps'" by (cases ps) auto
  obtain pos n where pn: "x = (pos, n)" by fastforce
  define m where "m = reached pos n False k - k"
  let ?f = "foldl (\<lambda>k (pos, n). reached pos n False k)"
  have i: "data_in st irs (lastack (tcp_mem s a)) pos n i" "n \<le> unat TCP_WND" "fits (length (the (in_p i)))"
    and "is": "list_all2 (\<lambda>(pos, n) i. data_in st irs (lastack (tcp_mem s a)) pos n i \<and> n \<le> unat TCP_WND \<and> fits (length (the (in_p i)))) ps' is"
    using Cons.prems(6) by (simp_all add: x pn)
  have km: "reached pos n False k = k + m" "k + m \<le> length st" using i Cons.prems(4) by (auto simp: m_def reached_def data_in_def slice_in_def)
  have w: "n \<le> unat (rcv_wnd (tcp_mem s a))" "unat (rcv_wnd (tcp_mem s a)) \<le> 32767" "0 < rcv_wnd (tcp_mem s a)"
    using i(2) Cons.prems(5) by (simp_all add: TCP_WND_def)
  from reads_segment [OF Cons.prems(1,2) i(1,3) assms(4) Cons.prems(3,4) assms(7) w, folded m_def] obtain s1 where
    s1: "tcp_input_active app i a s = Some s1" "receiving c arg a s1" "lastack (tcp_mem s1 a) = lastack (tcp_mem s a)"
      "rcv_nxt (tcp_mem s1 a) = irs + of_nat (k + m)" "app_state s1 = (if m = 0 then id else read (take m (drop k st))) (app_state s)"
      "rcv_wnd (tcp_mem s1 a) = TCP_WND"
    using assms(3) Cons.prems(5) by (auto simp: window_after_def)
  have d: "\<forall>x\<in>set (take m (drop k st)). quiet x" using assms(4) by (meson in_set_dropD in_set_takeD)
  have "ready (app_state s1)" using s1(5) Cons.prems(2) stays [OF _ d] by simp
  from Cons.IH [OF s1(2) this s1(4) km(2) s1(6) "is" [folded s1(3)]] obtain s' ds where
    s': "input_all app is a s1 = Some s'" "receiving c arg a s'" "ready (app_state s')"
      "rcv_nxt (tcp_mem s' a) = irs + of_nat (?f (k + m) ps')" "rcv_wnd (tcp_mem s' a) = TCP_WND"
      "app_state s' = fold read ds (app_state s1)" "[] \<notin> set ds" "k + m \<le> ?f (k + m) ps'"
      "concat ds = take (?f (k + m) ps' - (k + m)) (drop (k + m) st)" by blast
  let ?ds = "(if m = 0 then [] else [take m (drop k st)]) @ ds"
  have f: "?f k ps = ?f (k + m) ps'" by (simp add: x pn km(1) [symmetric])
  have c: "concat ?ds = take (?f (k + m) ps' - k) (drop k st)"
    using s'(9) take_slice [OF s'(8), of st] by simp
  have n: "[] \<notin> set ?ds" using s'(7) km(2) by auto
  have "app_state s' = fold read ?ds (app_state s)" using s'(6) s1(5) by simp
  then show ?case
    using s' s1(1) c n unfolding f by (intro exI [of _ s'] exI [of _ ?ds]) simp
qed

text \<open>
  One byte at a time, and no \<open>tcp_recved\<close>: after as many bytes as the window had room for the application
  is told nothing more, whatever arrives.
\<close>

lemma reads_until_closed:
  assumes "receiving c arg a s" "ready (app_state s)" "\<not> reopens" "\<forall>x\<in>set st. quiet x"
    and "rcv_nxt (tcp_mem s a) = irs + of_nat k" "k \<le> length st" "length st + 70000 < 2 ^ 31"
    and "rcv_wnd (tcp_mem s a) = of_nat (lim - k)" "k \<le> lim" "lim \<le> 32767"
    and "list_all2 (\<lambda>pos i. data_in st irs (lastack (tcp_mem s a)) pos 1 i \<and> fits (length (the (in_p i)))) ps is"
  shows "\<exists>s'. input_all app is a s = Some s' \<and> receiving c arg a s' \<and> ready (app_state s')
    \<and> rcv_wnd (tcp_mem s' a) = of_nat (lim - foldl (\<lambda>k pos. if pos = k \<and> k < lim then k + 1 else k) k ps)
    \<and> k \<le> foldl (\<lambda>k pos. if pos = k \<and> k < lim then k + 1 else k) k ps
    \<and> app_state s' = fold (\<lambda>x. read [x]) (take (foldl (\<lambda>k pos. if pos = k \<and> k < lim then k + 1 else k) k ps - k) (drop k st)) (app_state s)"
  using assms(1,2,5,6,8,9,11)
proof (induction "is" arbitrary: ps s k)
  case Nil
  then have "ps = []" by simp
  then show ?case using Nil.prems by (intro exI [of _ s]) simp
next
  case (Cons i "is")
  from Cons.prems(7) obtain pos ps' where x: "ps = pos # ps'" by (cases ps) auto
  let ?f = "foldl (\<lambda>k pos. if pos = k \<and> k < lim then k + 1 else k)"
  define m where "m = (if pos = k \<and> k < lim then 1 else 0 :: nat)"
  have i: "data_in st irs (lastack (tcp_mem s a)) pos 1 i" "fits (length (the (in_p i)))"
    and "is": "list_all2 (\<lambda>pos i. data_in st irs (lastack (tcp_mem s a)) pos 1 i \<and> fits (length (the (in_p i)))) ps' is"
    using Cons.prems(7) by (simp_all add: x)
  have km: "k + m \<le> length st" "k + m \<le> lim" using i Cons.prems(4,6) by (auto simp: m_def data_in_def slice_in_def)
  have w: "unat (rcv_wnd (tcp_mem s a)) = lim - k" using Cons.prems(5) assms(10) by (simp add: unat_of_nat_u16 del: of_nat_diff)
  have "\<exists>s1. tcp_input_active app i a s = Some s1 \<and> receiving c arg a s1 \<and> lastack (tcp_mem s1 a) = lastack (tcp_mem s a)
      \<and> rcv_nxt (tcp_mem s1 a) = irs + of_nat (k + m) \<and> app_state s1 = (if m = 0 then id else read (take m (drop k st))) (app_state s)
      \<and> rcv_wnd (tcp_mem s1 a) = of_nat (lim - (k + m))"
  proof (cases "k < lim")
    case True
    then have w1: "1 \<le> unat (rcv_wnd (tcp_mem s a))" "unat (rcv_wnd (tcp_mem s a)) \<le> 32767" "0 < rcv_wnd (tcp_mem s a)"
      using w assms(10) by (simp, simp) (simp add: word_gt_0_no word_greater_zero_iff, metis True unat_0 w zero_less_diff less_irrefl)
    have m: "reached pos 1 False k - k = m" "m \<le> 1" using True by (auto simp: m_def reached_def)
    have "(of_nat (lim - k) :: u16) - of_nat m = of_nat (lim - (k + m))" using True m(2) by (simp add: of_nat_diff)
    then show ?thesis
      using reads_segment [OF Cons.prems(1,2) i assms(4) Cons.prems(3,4) assms(7) w1] assms(3) Cons.prems(5) m(2) unfolding m(1)
      by (cases "m = 0") (auto simp: window_after_def)
  next
    case False
    then have "rcv_wnd (tcp_mem s a) = 0" using w by (simp flip: unat_eq_zero)
    from closed_segment [OF Cons.prems(1,2) i(1) _ Cons.prems(3,4) assms(7) this] show ?thesis
      using False Cons.prems(3) by (simp add: m_def)
  qed
  then obtain s1 where s1: "tcp_input_active app i a s = Some s1" "receiving c arg a s1" "lastack (tcp_mem s1 a) = lastack (tcp_mem s a)"
      "rcv_nxt (tcp_mem s1 a) = irs + of_nat (k + m)" "app_state s1 = (if m = 0 then id else read (take m (drop k st))) (app_state s)"
      "rcv_wnd (tcp_mem s1 a) = of_nat (lim - (k + m))" by blast
  have d: "\<forall>x\<in>set (take m (drop k st)). quiet x" using assms(4) by (meson in_set_dropD in_set_takeD)
  have "ready (app_state s1)" using s1(5) Cons.prems(2) stays [OF _ d] by simp
  from Cons.IH [OF s1(2) this s1(4) km(1) s1(6) km(2) "is" [folded s1(3)]] obtain s' where
    s': "input_all app is a s1 = Some s'" "receiving c arg a s'" "ready (app_state s')"
      "rcv_wnd (tcp_mem s' a) = of_nat (lim - ?f (k + m) ps')" "k + m \<le> ?f (k + m) ps'"
      "app_state s' = fold (\<lambda>x. read [x]) (take (?f (k + m) ps' - (k + m)) (drop (k + m) st)) (app_state s1)" by blast
  have f: "?f k ps = ?f (k + m) ps'" by (simp add: x m_def)
  have "take (?f (k + m) ps' - k) (drop k st) = take m (drop k st) @ take (?f (k + m) ps' - (k + m)) (drop (k + m) st)"
    using take_slice [OF s'(5), of st] by simp
  moreover have "m = 0 \<or> m = 1 \<and> take m (drop k st) = [st ! k]" using km(1) by (auto simp: m_def take_Suc hd_drop_conv_nth)
  ultimately have "app_state s' = fold (\<lambda>x. read [x]) (take (?f (k + m) ps' - k) (drop k st)) (app_state s)"
    using s'(6) s1(5) by auto
  then show ?case using s' s1(1) unfolding f by (intro exI [of _ s']) simp
qed

end

section \<open>A connection\<close>

text \<open>A host on one Ethernet with one open connection, and a segment of its peer.\<close>

definition open_conn :: "'a \<Rightarrow> 'a tcp" where
  "open_conn x =
     \<lparr>tcp_ip = host 5, tcp_mem = (\<lambda>_. tcb_zero\<lparr>t_state := ESTABLISHED, rcv_wnd := TCP_WND, rcv_nxt := 1000, recv_cb := Cb 0, callback_arg := 1\<rparr>),
      listen_mem = (\<lambda>_. \<lparr>l_local_ip = 0, l_so_options = 0, l_prio = 0, l_callback_arg = 0, l_local_port = 0, l_accept = Cb_null\<rparr>),
      tcp_active_pcbs = [0], tcp_tw_pcbs = [], tcp_bound_pcbs = [], tcp_listen_pcbs = [], tcp_free = [1, 2], listen_free = [0],
      tcp_port = 4096, tcp_ticks = 0, tcp_timer = 0, tcp_iss = 6510, tcp_input_pcb = None, app_state = x\<rparr>"

definition data_segment :: "u8 list \<Rightarrow> nat \<Rightarrow> nat \<Rightarrow> segment_in" where
  "data_segment st pos n =
     (let h = \<lparr>th_src = 9, th_dest = 8, th_seqno = 1000 + of_nat pos, th_ackno = 0, th_hdrlen = 5, th_flags = TCP_ACK, th_wnd = 500\<rparr> in
      \<lparr>in_src = 9, in_dest = 5, in_hdr = h, in_opts = [], in_p = Some [\<lparr>btype = PBUF_POOL, front = [], body = take n (drop pos st)\<rparr>],
       in_len = of_nat n, in_flags = TCP_ACK, in_seqno = 1000 + of_nat pos, in_ackno = 0, in_tcplen = of_nat n, in_recv_flags = 0,
       in_recv_data = None\<rparr>)"

lemma receiving_open_conn: "receiving c 1 0 (open_conn x) \<longleftrightarrow> c = 0"
  "rcv_nxt (tcp_mem (open_conn x) 0) = 1000" "rcv_wnd (tcp_mem (open_conn x) 0) = TCP_WND" "lastack (tcp_mem (open_conn x) 0) = 0"
  "app_state (open_conn x) = x"
proof -
  have "ip_route dest (host 5) = Some n \<Longrightarrow> n = 0" for dest n
    by (auto simp: ip_route_def host_def split: option.splits if_splits)
  moreover have "mtu (netif_list (host 5) ! 0) = 1500" by (simp add: host_def host_if_def)
  moreover have "tcp_ip (open_conn x) = host 5" by (simp add: open_conn_def)
  ultimately have "wide (open_conn x)" unfolding wide_def by fastforce
  then show "receiving c 1 0 (open_conn x) \<longleftrightarrow> c = 0" by (auto simp: receiving_def open_conn_def tcb_zero_def freed_def)
qed (simp_all add: open_conn_def tcb_zero_def)

lemma data_segment_in:
  assumes "pos + n \<le> length st"
  shows "data_in st 1000 0 pos n (data_segment st pos n)" "length (the (in_p (data_segment st pos n))) = 1"
  using assms by (auto simp: data_in_def slice_in_def data_segment_def contents_def Let_def TCP_ACK_def TCP_FIN_def TCP_SYN_def TCP_RST_def)

end
