(* ===== verification/LedServer.thy ===== *)
theory LedServer
  imports TcpRecv LedApp
begin

text \<open>
  The LED server of \<open>port/server.c\<close> on top of TCP: its callbacks are the functions of \<open>LedApp\<close>, and what
  they do with the control block and the buffers is done by the operations of \<open>TcpConn\<close>.  The state of the
  application is what it has done so far; there is one function for all connections.
\<close>

definition led_server :: "app_op list tcp_app" where
  "led_server ev s =
     (case ev of
        Ev_recv c arg a p err \<Rightarrow>
          map_option (\<lambda>(e, ops). (e, free_refused p (s\<lparr>app_state := app_state s @ ops\<rparr>))) (tcp_server_recv (map_option first p))
      | Ev_accept c arg a err \<Rightarrow>
          Some (fst tcp_server_accept, tcp_recv a (Cb 0) (s\<lparr>app_state := app_state s @ snd tcp_server_accept\<rparr>))
      | _ \<Rightarrow> Some (ERR_OK, s))"

definition led_ops :: "u8 \<Rightarrow> app_op list" where
  "led_ops x = (if unat x < 4 then [LEDToggle (unat x)] else []) @ [Pbuf_free]"

interpretation led: stream_reader led_server c arg "\<lambda>n. n = 1" "\<lambda>_. True" "\<lambda>_. True" "\<lambda>d st. st @ led_ops (hd d)" False
  for c arg
proof unfold_locales
  fix p :: chain and a and s :: "app_op list tcp"
  assume p: "length p = 1" "contents p \<noteq> []"
  then obtain b where "p = [b]" by (cases p) auto
  then have "first p = contents p" by (simp add: contents_def)
  then have "tcp_server_recv (Some (first p)) = Some (ERR_OK, led_ops (hd (contents p)))"
    using p(2) by (cases "contents p") (simp_all add: tcp_server_recv_def led_ops_def)
  then show "led_server (Ev_recv c arg a (Some p) ERR_OK) s
    = map_option (\<lambda>s'. (ERR_OK, tcp_log (Free_chain p) (s'\<lparr>app_state := app_state s @ led_ops (hd (contents p))\<rparr>)))
        (if False then tcp_recved a (chain_len p) s else Some s)"
    by (simp add: led_server_def free_refused_def)
qed simp

lemma fold_append_ops: "fold (\<lambda>x ops. ops @ f x) xs ops = ops @ concat (map f xs)"
  by (induction xs arbitrary: ops) simp_all

lemma commands_bounded: "(k :: nat) \<le> lim \<Longrightarrow> foldl (\<lambda>k pos. if pos = k \<and> k < lim then k + 1 else k) k ps \<le> lim"
proof (induction ps arbitrary: k)
  case (Cons pos ps)
  then show ?case using Cons.IH [of k] Cons.IH [of "k + 1"] by simp
qed simp

text \<open>
  C3: The LED server obeys the commands of a connection, one byte in each segment, in their order and each one once,
  however the segments are lost, doubled and reordered; but since it never calls \<open>tcp_recved\<close> it obeys only
  the first 2920 of them, and then the window of the connection stays closed.
\<close>

theorem led_server_commands:
  assumes "receiving c arg a s" "rcv_nxt (tcp_mem s a) = irs" "rcv_wnd (tcp_mem s a) = TCP_WND" "length cmds + 70000 < 2 ^ 31"
    and "list_all2 (\<lambda>pos i. data_in cmds irs (lastack (tcp_mem s a)) pos 1 i \<and> length (the (in_p i)) = 1) ps is"
  defines "n \<equiv> foldl (\<lambda>k pos. if pos = k \<and> k < 2920 then k + 1 else k) 0 ps"
  shows "\<exists>s'. input_all led_server is a s = Some s' \<and> app_state s' = app_state s @ concat (map led_ops (take n cmds))
    \<and> n \<le> 2920 \<and> unat (rcv_wnd (tcp_mem s' a)) = 2920 - n"
proof -
  have n: "n \<le> 2920" unfolding n_def by (rule commands_bounded) simp
  have 0: "rcv_nxt (tcp_mem s a) = irs + of_nat 0" "rcv_wnd (tcp_mem s a) = of_nat (2920 - 0)"
    using assms(2,3) by (simp_all add: TCP_WND_def)
  have "\<exists>s'. input_all led_server is a s = Some s' \<and> rcv_wnd (tcp_mem s' a) = of_nat (2920 - n)
      \<and> app_state s' = fold (\<lambda>x st. st @ led_ops (hd [x])) (take n cmds) (app_state s)"
    using led.reads_until_closed [OF assms(1) _ _ _ 0(1) _ assms(4) 0(2) _ _ assms(5)] by (simp add: n_def [symmetric]) blast
  then show ?thesis using n by (auto simp: fold_append_ops unat_of_nat_u16 simp del: of_nat_diff)
qed

text \<open>The second command is sent twice, and the third arrives before it.\<close>

theorem led_server_commands_witness:
  "\<exists>s'. input_all led_server (map (\<lambda>pos. data_segment [1, 7, 3] pos 1) [0, 2, 1, 1, 2]) 0 (open_conn []) = Some s'
    \<and> app_state s' = [LEDToggle 1, Pbuf_free, Pbuf_free, LEDToggle 3, Pbuf_free] \<and> unat (rcv_wnd (tcp_mem s' 0)) = 2917"
proof -
  let ?cmds = "[1, 7, 3] :: u8 list" and ?ps = "[0, 2, 1, 1, 2] :: nat list" and ?s = "open_conn [] :: app_op list tcp"
  have "list_all2 (\<lambda>pos i. data_in ?cmds 1000 (lastack (tcp_mem ?s 0)) pos 1 i \<and> length (the (in_p i)) = 1)
      ?ps (map (\<lambda>pos. data_segment ?cmds pos 1) ?ps)"
    using data_segment_in [of _ 1 ?cmds] by (simp add: receiving_open_conn del: One_nat_def)
  moreover have "receiving 0 1 0 ?s" "length ?cmds + 70000 < 2 ^ 31" by (simp_all add: receiving_open_conn del: One_nat_def)
  ultimately show ?thesis
    using led_server_commands [of 0 1 0 ?s 1000 ?cmds ?ps "map (\<lambda>pos. data_segment ?cmds pos 1) ?ps"]
    by (simp add: receiving_open_conn led_ops_def)
qed

end
