(* ===== verification/TcpSend.thy ===== *)
theory TcpSend
  imports TcpRecv
begin

text \<open>
  The sender: its queues hold the stream that the application has written, from the last acknowledged octet
  on.  The stream counts the SYN and the FIN as octets, as the sequence numbers do.  Output, acknowledgements and
  retransmissions are shown to keep that in any order, and so is a write, unless the code joins it to a segment that was queued
  again and is not the last of the stream: then data is changed, and the end of the theory shows it.
\<close>

declare enqueue_loop.simps [simp del]

section \<open>Segments and the stream\<close>

datatype octet = Octet_syn | Octet u8 | Octet_fin

definition seg_data :: "tcp_seg \<Rightarrow> u8 list" where
  "seg_data sg = drop (LWIP_TCP_OPT_LENGTH (seg_flags sg)) (contents (seg_p sg))"

definition framed :: "u8 \<Rightarrow> u8 list \<Rightarrow> octet list" where
  "framed fl xs = (if fl AND TCP_SYN \<noteq> 0 then [Octet_syn] else []) @ map Octet xs @ (if fl AND TCP_FIN \<noteq> 0 then [Octet_fin] else [])"

definition seg_octets :: "tcp_seg \<Rightarrow> octet list" where
  "seg_octets sg = framed (th_flags (tcphdr sg)) (seg_data sg)"

text \<open>Only a SYN has options; and no segment of a queue resets the connection.\<close>

definition sound_hdr :: "tcp_seg \<Rightarrow> bool" where
  "sound_hdr sg \<longleftrightarrow> th_hdrlen (tcphdr sg) = of_nat (5 + LWIP_TCP_OPT_LENGTH (seg_flags sg) div 4) \<and> unat (th_flags (tcphdr sg)) < 64
     \<and> th_flags (tcphdr sg) AND TCP_RST = 0 \<and> (seg_flags sg AND TF_SEG_OPTS_MSS \<noteq> 0 \<longrightarrow> th_flags (tcphdr sg) AND TCP_SYN \<noteq> 0)"

definition ctrl_flags :: "u8 \<Rightarrow> u8 \<Rightarrow> bool" where
  "ctrl_flags fl opt \<longleftrightarrow> \<not> (fl AND TCP_SYN \<noteq> 0 \<and> fl AND TCP_FIN \<noteq> 0) \<and> unat fl < 64 \<and> fl AND TCP_RST = 0
     \<and> (opt AND TF_SEG_OPTS_MSS \<noteq> 0 \<longrightarrow> fl AND TCP_SYN \<noteq> 0)"

definition sound_seg :: "tcp_seg \<Rightarrow> bool" where
  "sound_seg sg \<longleftrightarrow> seg_p sg \<noteq> [] \<and> LWIP_TCP_OPT_LENGTH (seg_flags sg) \<le> length (first (seg_p sg))
     \<and> length (contents (seg_p sg)) = LWIP_TCP_OPT_LENGTH (seg_flags sg) + unat (seg_len sg)
     \<and> (th_flags (tcphdr sg) AND TCP_SYN = 0 \<or> th_flags (tcphdr sg) AND TCP_FIN = 0) \<and> sound_hdr sg"

text \<open>The segment holds the octets of the stream \<open>W\<close> from \<open>pos\<close> on; \<open>iss\<close> is the number of the first octet.\<close>

definition slice_at :: "octet list \<Rightarrow> u32 \<Rightarrow> tcp_seg \<Rightarrow> nat \<Rightarrow> bool" where
  "slice_at W iss sg pos \<longleftrightarrow> sound_seg sg \<and> seg_seqno sg = iss + of_nat pos \<and> pos + length (seg_octets sg) \<le> length W
     \<and> seg_octets sg = take (length (seg_octets sg)) (drop pos W)"

fun placed :: "u32 \<Rightarrow> tcp_seg list \<Rightarrow> bool" where
  "placed x [] \<longleftrightarrow> True"
| "placed x (sg # sgs) \<longleftrightarrow> seg_seqno sg = x \<and> sound_seg sg \<and> placed (x + TCP_TCPLEN sg) sgs"

abbreviation octets :: "tcp_seg list \<Rightarrow> octet list" where
  "octets q \<equiv> concat (map seg_octets q)"

lemma length_seg_data: "sound_seg sg \<Longrightarrow> length (seg_data sg) = unat (seg_len sg)"
  by (simp add: sound_seg_def seg_data_def)

lemma TCPLEN_octets: "sound_seg sg \<Longrightarrow> TCP_TCPLEN sg = of_nat (length (seg_octets sg))"
proof -
  assume s: "sound_seg sg"
  have "(ucast (seg_len sg) :: u32) = of_nat (unat (seg_len sg))" by simp
  moreover have "th_flags (tcphdr sg) AND (TCP_FIN OR TCP_SYN) \<noteq> 0
      \<longleftrightarrow> th_flags (tcphdr sg) AND TCP_SYN \<noteq> 0 \<or> th_flags (tcphdr sg) AND TCP_FIN \<noteq> 0"
    by (auto simp: bit.conj_disj_distrib or_eq_0_iff)
  ultimately show ?thesis
    using s length_seg_data [OF s] by (auto simp: TCP_TCPLEN_def seg_octets_def framed_def sound_seg_def)
qed

lemma slice_at_append: "slice_at W iss sg pos \<Longrightarrow> slice_at (W @ V) iss sg pos"
  by (auto simp: slice_at_def)

text \<open>Segments that follow each other hold the part of the stream that begins with the first of them.\<close>

lemma placed_Cons:
  assumes "placed (iss + of_nat (length V)) (x # q)"
  shows "placed (iss + of_nat (length (V @ seg_octets x))) q" "slice_at (V @ octets (x # q) @ U) iss x (length V)"
proof -
  have x: "seg_seqno x = iss + of_nat (length V)" "sound_seg x" "placed (iss + of_nat (length V) + TCP_TCPLEN x) q" using assms by simp_all
  show "placed (iss + of_nat (length (V @ seg_octets x))) q"
    using x(3) unfolding TCPLEN_octets [OF x(2)] by (simp add: add.assoc)
  show "slice_at (V @ octets (x # q) @ U) iss x (length V)" using x(1,2) by (simp add: slice_at_def)
qed

lemma placed_slices:
  assumes "placed (iss + of_nat (length V)) q" "sg \<in> set q"
  shows "\<exists>pos. slice_at (V @ octets q @ U) iss sg pos"
  using assms
proof (induction q arbitrary: V)
  case (Cons x q)
  show ?case
  proof (cases "sg = x")
    case True
    then show ?thesis using placed_Cons(2) [OF Cons.prems(1), of U] by blast
  next
    case False
    then show ?thesis using Cons.IH [OF placed_Cons(1) [OF Cons.prems(1)]] Cons.prems(2) by simp
  qed
qed simp

lemma placed_covers:
  assumes "placed (iss + of_nat (length V)) q" "length V \<le> p" "p < length V + length (octets q)"
  shows "\<exists>sg\<in>set q. \<exists>pos. slice_at (V @ octets q @ U) iss sg pos \<and> pos \<le> p \<and> p < pos + length (seg_octets sg)"
  using assms
proof (induction q arbitrary: V)
  case (Cons x q)
  show ?case
  proof (cases "p < length V + length (seg_octets x)")
    case True
    then show ?thesis using placed_Cons(2) [OF Cons.prems(1), of U] Cons.prems(2) by auto
  next
    case False
    then show ?thesis using Cons.IH [OF placed_Cons(1) [OF Cons.prems(1)]] Cons.prems(3) by auto
  qed
qed simp

section \<open>Queueing\<close>

lemma length_ram_body [simp]: "length (body (ram_buf g layer n)) = n"
  by (simp add: ram_buf_def Let_def)

definition arg_bytes :: "u8 list option \<Rightarrow> u8 list" where
  "arg_bytes arg = (case arg of None \<Rightarrow> [] | Some xs \<Rightarrow> xs)"

lemma arg_bytes_drop [simp]: "arg_bytes (map_option (drop n) arg) = drop n (arg_bytes arg)"
  by (simp add: arg_bytes_def split: option.split)

lemma enqueue_seg_makes:
  assumes "enqueue_seg pcb fl api opt arg left seglen seqno s = (Some (sg, k), s')"
    and "unat seglen \<le> length (arg_bytes arg)" "left = 0 \<Longrightarrow> seglen = 0" "ctrl_flags fl opt"
  shows "only_below s s' \<and> sound_seg sg \<and> seg_seqno sg = seqno \<and> seg_len sg = seglen \<and> seg_flags sg = opt \<and> th_flags (tcphdr sg) = fl
    \<and> seg_data sg = take (unat seglen) (arg_bytes arg)"
proof -
  let ?opt = "LWIP_TCP_OPT_LENGTH opt" and ?xs = "arg_bytes arg"
  obtain ok1 s1 where a1: "tcp_try_alloc s = (ok1, s1)" by fastforce
  obtain ok2 s2 where a2: "tcp_try_alloc s1 = (ok2, s2)" by fastforce
  obtain ok3 s3 where a3: "tcp_try_alloc s2 = (ok3, s3)" by fastforce
  note below = only_below_trans [OF only_below_alloc [OF a1] only_below_alloc [OF a2]]
  let ?mk = "\<lambda>p. \<lparr>seg_p = p, seg_len = seglen, seg_flags = opt, tcphdr = \<lparr>th_src = t_local_port pcb, th_dest = t_remote_port pcb,
    th_seqno = seqno, th_ackno = 0, th_hdrlen = of_nat (5 + ?opt div 4), th_flags = fl, th_wnd = 0\<rparr>\<rparr>"
  have ok: ok1 ok2 using assms(1) by (auto simp: enqueue_seg_def Let_def a1 a2 split: if_splits)
  have "only_below s s' \<and> (\<exists>p. sg = ?mk p \<and> p \<noteq> [] \<and> ?opt \<le> length (first p) \<and> length (contents p) = ?opt + unat seglen
      \<and> drop ?opt (contents p) = take (unat seglen) ?xs)"
  proof (cases "api AND TCP_WRITE_FLAG_COPY \<noteq> 0")
    case True
    let ?b = "ram_buf (garbage (tcp_ip s)) PBUF_TRANSPORT (unat seglen + ?opt)"
    define b where "b = (case arg of None \<Rightarrow> ?b | Some xs \<Rightarrow> ?b\<lparr>body := take ?opt (body ?b) @ take (unat seglen) xs\<rparr>)"
    have "sg = ?mk [b] \<and> s' = s2"
      using assms(1) True ok by (simp add: enqueue_seg_def Let_def a1 a2 b_def)
    moreover have "length (body b) = ?opt + unat seglen \<and> drop ?opt (body b) = take (unat seglen) ?xs"
      using assms(2) by (cases arg) (simp_all add: b_def arg_bytes_def min_def)
    ultimately show ?thesis using below by (simp add: contents_def)
  next
    case False
    let ?b = "ram_buf (garbage (tcp_ip s)) PBUF_TRANSPORT ?opt"
    show ?thesis
    proof (cases "left = 0")
      case True
      then have "sg = ?mk [?b] \<and> s' = s2" using assms(1) False ok by (simp add: enqueue_seg_def Let_def a1 a2)
      then show ?thesis using below True assms(3) by (simp add: contents_def)
    next
      case l: False
      have xs: "(case arg of None \<Rightarrow> [] | Some xs \<Rightarrow> take (unat seglen) xs) = take (unat seglen) ?xs"
        by (simp add: arg_bytes_def split: option.split)
      have "sg = ?mk [?b, \<lparr>btype = PBUF_ROM, front = [], body = take (unat seglen) ?xs\<rparr>] \<and> s' = s3"
        using assms(1) False ok l xs by (simp add: enqueue_seg_def Let_def a1 a2 a3 split: if_splits)
      then show ?thesis using only_below_trans [OF below only_below_alloc [OF a3]] assms(2) by (simp add: contents_def)
    qed
  qed
  then show ?thesis using assms(4) by (auto simp: sound_seg_def seg_data_def sound_hdr_def ctrl_flags_def)
qed

lemma seg_length_le:
  assumes "optlen \<le> unat mss"
  shows "seg_length mss optlen left \<le> left"
proof -
  have m: "int optlen \<le> uint mss" using assms of_nat_le_iff [where 'a = int, of optlen "unat mss"] by simp
  show ?thesis
  proof (cases "uint mss - int optlen < uint left")
    case True
    have "uint (word_of_int (uint mss - int optlen) :: u16) = uint mss - int optlen"
      by (subst uint_word_of_int, rule mod_pos_pos_trivial) (use m True uint_lt2p [of left] in simp_all)
    then show ?thesis using True by (simp add: seg_length_def word_le_def)
  qed (simp add: seg_length_def)
qed

text \<open>The new segments follow each other from the given number on, and hold the data.\<close>

lemma enqueue_loop_places:
  assumes "enqueue_loop pcb fl api opt arg left seqno n queue s = (Some (queue', n'), s')"
    and "length (arg_bytes arg) = unat left" "LWIP_TCP_OPT_LENGTH opt \<le> unat (t_mss pcb)"
    and "fl AND TCP_SYN \<noteq> 0 \<or> fl AND TCP_FIN \<noteq> 0 \<Longrightarrow> left = 0" "ctrl_flags fl opt"
  shows "\<exists>new. queue' = queue @ new \<and> placed seqno new \<and> only_below s s' \<and> (\<forall>sg\<in>set new. th_flags (tcphdr sg) = fl \<and> seg_flags sg = opt)
    \<and> queue' \<noteq> []
    \<and> octets new = (if queue \<noteq> [] \<and> left = 0 then [] else framed fl (arg_bytes arg))"
  using assms
proof (induction pcb fl api opt arg left seqno n queue s rule: enqueue_loop.induct)
  case (1 pcb fl api opt arg left seqno n queue s)
  let ?len = "seg_length (t_mss pcb) (LWIP_TCP_OPT_LENGTH opt) left" and ?xs = "arg_bytes arg"
  show ?case
  proof (cases "queue \<noteq> [] \<and> left = 0")
    case True
    then show ?thesis using "1.prems"(1) by (subst (asm) enqueue_loop.simps) simp
  next
    case False
    obtain r s1 where mk: "enqueue_seg pcb fl api opt arg left ?len seqno s = (r, s1)" by fastforce
    with False "1.prems"(1) obtain sg k where r: "r = Some (sg, k)" "\<not> TCP_SND_QUEUELEN < n + k"
      and rest: "enqueue_loop pcb fl api opt (map_option (drop (unat ?len)) arg) (left - ?len) (seqno + ucast ?len) (n + k) (queue @ [sg]) s1
        = (Some (queue', n'), s')"
      by (subst (asm) enqueue_loop.simps) (auto simp: Let_def split: option.splits prod.splits if_splits)
    have le: "?len \<le> left" using "1.prems"(3) by (rule seg_length_le)
    then have ule: "unat ?len \<le> unat left" "unat (left - ?len) = unat left - unat ?len" by (simp_all add: word_le_nat_alt unat_sub)
    have arg: "unat ?len \<le> length ?xs" "left = 0 \<Longrightarrow> ?len = 0" using "1.prems"(2) le ule by auto
    from enqueue_seg_makes [OF mk [unfolded r(1)] arg "1.prems"(5)] have sg: "only_below s s1" "sound_seg sg" "seg_seqno sg = seqno"
      "seg_len sg = ?len" "seg_flags sg = opt" "th_flags (tcphdr sg) = fl" "seg_data sg = take (unat ?len) ?xs" by auto
    have flags: "fl AND TCP_SYN \<noteq> 0 \<or> fl AND TCP_FIN \<noteq> 0 \<Longrightarrow> left - ?len = 0"
      using "1.prems"(4) arg(2) by auto
    have arg': "length (arg_bytes (map_option (drop (unat ?len)) arg)) = unat (left - ?len)" using "1.prems"(2) ule by simp
    from "1.IH" [OF False refl mk [unfolded r(1), symmetric] refl refl r(2) rest arg' "1.prems"(3) flags "1.prems"(5), unfolded arg_bytes_drop]
    obtain new where new: "queue' = (queue @ [sg]) @ new" "placed (seqno + ucast ?len) new" "only_below s1 s'"
      "\<forall>sg\<in>set new. th_flags (tcphdr sg) = fl \<and> seg_flags sg = opt" "queue' \<noteq> []"
      "octets new = (if left - ?len = 0 then [] else framed fl (drop (unat ?len) ?xs))" by auto
    show ?thesis
    proof (cases "fl AND TCP_SYN \<noteq> 0 \<or> fl AND TCP_FIN \<noteq> 0")
      case True
      then have z: "left = 0" "?len = 0" using "1.prems"(4) arg(2) by auto
      have "new = []"
        using rest z new(1) by (subst (asm) enqueue_loop.simps) simp
      moreover have "?xs = []" using "1.prems"(2) z by simp
      ultimately show ?thesis
        using new sg only_below_trans [OF sg(1)] False z by (intro exI [of _ "[sg]"]) (simp add: seg_octets_def)
    next
      case plain: False
      have t: "TCP_TCPLEN sg = ucast ?len" using plain sg(4,6) by (simp add: TCP_TCPLEN_def bit.conj_disj_distrib)
      have "seg_octets sg @ octets new = framed fl ?xs"
      proof (cases "left - ?len = 0")
        case True
        then have "length ?xs = unat ?len" using "1.prems"(2) by (simp add: right_minus_eq)
        then show ?thesis using True new(6) sg(6,7) by (simp add: seg_octets_def)
      next
        case False
        then show ?thesis
          using new(6) sg(6,7) plain by (simp add: seg_octets_def framed_def flip: map_append)
      qed
      then show ?thesis
        using new(1-5) sg t only_below_trans [OF sg(1)] False by (intro exI [of _ "sg # new"]) auto
    qed
  qed
qed

text \<open>The segment holds the octet at \<open>p\<close> of the stream.\<close>

definition covers :: "octet list \<Rightarrow> u32 \<Rightarrow> nat \<Rightarrow> tcp_seg \<Rightarrow> bool" where
  "covers W iss p sg \<longleftrightarrow> (\<exists>pos. slice_at W iss sg pos \<and> pos \<le> p \<and> p < pos + length (seg_octets sg))"

definition slices :: "octet list \<Rightarrow> u32 \<Rightarrow> tcp_seg list \<Rightarrow> bool" where
  "slices W iss q \<longleftrightarrow> (\<forall>sg\<in>set q. \<exists>pos. slice_at W iss sg pos)"

definition ends_at :: "tcp_seg list \<Rightarrow> u32 \<Rightarrow> bool" where
  "ends_at q x \<longleftrightarrow> (q \<noteq> [] \<longrightarrow> seg_seqno (last q) + TCP_TCPLEN (last q) = x)"

lemma covers_append: "covers W iss p sg \<Longrightarrow> covers (W @ V) iss p sg"
  unfolding covers_def using slice_at_append by fast

lemma slices_append: "slices W iss q \<Longrightarrow> slices (W @ V) iss q"
  unfolding slices_def using slice_at_append by fast

lemma slices_Cons [simp]: "slices W iss [] " "slices W iss (sg # q) \<longleftrightarrow> (\<exists>pos. slice_at W iss sg pos) \<and> slices W iss q"
  "slices W iss (q @ q') \<longleftrightarrow> slices W iss q \<and> slices W iss q'"
  by (auto simp: slices_def)

lemma placed_ends: "placed x q \<Longrightarrow> ends_at q (x + of_nat (length (octets q)))"
proof (induction q arbitrary: x)
  case (Cons sg q)
  have "sound_seg sg" using Cons.prems by simp
  then show ?case using Cons.IH [of "x + TCP_TCPLEN sg"] Cons.prems by (auto simp: ends_at_def TCPLEN_octets add.assoc)
qed (simp add: ends_at_def)

lemma seq_eq: "x < 2 ^ 31 \<Longrightarrow> y < 2 ^ 31 \<Longrightarrow> iss + of_nat x = iss + (of_nat y :: u32) \<longleftrightarrow> x = y"
proof
  assume b: "x < 2 ^ 31" "y < 2 ^ 31" and e: "iss + of_nat x = iss + (of_nat y :: u32)"
  show "x = y"
    using seq_cmp(1) [OF b, of iss] seq_cmp(1) [OF b(2,1), of iss] seq_cmp(1) [OF b(1) b(1), of iss] seq_cmp(1) [OF b(2) b(2), of iss]
    unfolding e by simp
qed simp

lemma slice_ends: "slice_at W iss sg pos \<Longrightarrow> seg_seqno sg + TCP_TCPLEN sg = iss + of_nat (pos + length (seg_octets sg))"
  using TCPLEN_octets by (auto simp: slice_at_def add.assoc)

text \<open>Joining the first new segment to the last one of the queue.\<close>

lemma joined_slice:
  assumes u: "slice_at W iss u pos" "seg_seqno u + TCP_TCPLEN u = iss + of_nat (length W)" "length (W @ V) < 2 ^ 31"
    and q: "sound_seg q" "th_flags (tcphdr q) = fl" "seg_flags q = opt" "joins pcb fl u q" "seg_octets q = take (length (seg_octets q)) V"
      "length (seg_octets q) \<le> length V"
    and b: "seg_p q = b # bs"
  defines "u' \<equiv> u\<lparr>seg_p := seg_p u @ (if body (strip_header (LWIP_TCP_OPT_LENGTH opt) b) = [] then bs
    else strip_header (LWIP_TCP_OPT_LENGTH opt) b # bs), seg_len := seg_len u + seg_len q\<rparr>"
  shows "slice_at (W @ V) iss u' pos" "seg_octets u' = seg_octets u @ seg_octets q" "pos + length (seg_octets u) = length W"
proof -
  let ?o = "LWIP_TCP_OPT_LENGTH opt"
  have j: "th_flags (tcphdr u) AND TCP_SYN = 0" "th_flags (tcphdr u) AND TCP_FIN = 0" "fl AND TCP_SYN = 0" "fl AND TCP_FIN = 0"
    "seg_flags u = opt" "unat (seg_len u) + unat (seg_len q) \<le> unat (t_mss pcb)"
    using q(2-4) by (auto simp: joins_def bit.conj_disj_distrib or_eq_0_iff)
  have su: "sound_seg u" "seg_seqno u = iss + of_nat pos" "pos + length (seg_octets u) \<le> length W"
    "seg_octets u = take (length (seg_octets u)) (drop pos W)" using u(1) by (simp_all add: slice_at_def)
  have "iss + of_nat (pos + length (seg_octets u)) = iss + of_nat (length W)"
    using u(2) su(2) TCPLEN_octets [OF su(1)] by (simp add: add.assoc)
  then show p: "pos + length (seg_octets u) = length W"
    using su(3) u(3) by (subst (asm) seq_eq) auto
  have len: "unat (seg_len u + seg_len q) = unat (seg_len u) + unat (seg_len q)"
    by (rule unat_add_lem [THEN iffD1]) (use order.strict_trans1 [OF j(6) unsigned_less] in simp)
  have ob: "?o \<le> length (body b)" "length (concat (map body (b # bs))) = ?o + unat (seg_len q)"
    using q(1,3) b by (simp_all add: sound_seg_def contents_def)
  have rest: "concat (map body (if body (strip_header ?o b) = [] then bs else strip_header ?o b # bs)) = drop ?o (contents (seg_p q))"
    using ob(1) by (simp add: strip_header_def b contents_def)
  have cu: "contents (seg_p u') = contents (seg_p u) @ seg_data q"
    unfolding u'_def seg_data_def q(3) rest [symmetric] by (simp add: contents_def)
  have fu: "?o \<le> length (first (seg_p u))" "seg_p u \<noteq> []" "length (contents (seg_p u)) = ?o + unat (seg_len u)"
    using su(1) j(5) by (simp_all add: sound_seg_def)
  then have "?o \<le> length (contents (seg_p u))" by simp
  then have data: "seg_data u' = seg_data u @ seg_data q" using cu j(5) by (simp add: seg_data_def u'_def)
  then show o: "seg_octets u' = seg_octets u @ seg_octets q"
    using j q(2) by (simp add: seg_octets_def framed_def u'_def)
  have "sound_hdr u'" using su(1) by (simp add: sound_seg_def sound_hdr_def u'_def)
  then have "sound_seg u'"
    using su(1) fu cu length_seg_data [OF q(1)] len j(5) by (simp add: sound_seg_def u'_def hd_append)
  moreover have "take (length (seg_octets u') ) (drop pos (W @ V)) = seg_octets u'"
    using su(4) q(5,6) p by (simp add: o)
  ultimately show "slice_at (W @ V) iss u' pos"
    using su(2) q(6) p by (simp add: slice_at_def o) (simp add: u'_def)
qed

text \<open>The queue holds the octet at \<open>p\<close>.\<close>

definition holds_octet :: "octet list \<Rightarrow> u32 \<Rightarrow> tcp_seg list \<Rightarrow> nat \<Rightarrow> bool" where
  "holds_octet W iss q p \<longleftrightarrow> (\<exists>sg\<in>set q. covers W iss p sg)"

lemma holds_octet_simps [simp]: "\<not> holds_octet W iss [] p"
  "holds_octet W iss (sg # q) p \<longleftrightarrow> covers W iss p sg \<or> holds_octet W iss q p"
  "holds_octet W iss (q @ q') p \<longleftrightarrow> holds_octet W iss q p \<or> holds_octet W iss q' p"
  by (auto simp: holds_octet_def)

lemma holds_octet_append: "holds_octet W iss q p \<Longrightarrow> holds_octet (W @ V) iss q p"
  unfolding holds_octet_def using covers_append by fast

lemma placed_holds:
  assumes "placed (iss + of_nat (length W)) new"
  shows "slices (W @ octets new) iss new"
    "length W \<le> p \<Longrightarrow> p < length (W @ octets new) \<Longrightarrow> holds_octet (W @ octets new) iss new p"
    "ends_at new (iss + of_nat (length (W @ octets new)))"
  using placed_slices [OF assms, where U = "[]"] placed_covers [OF assms, where U = "[]", of p] placed_ends [OF assms]
  by (auto simp: slices_def holds_octet_def covers_def add.assoc)

text \<open>What the queue holds after the new segments are put behind it.\<close>

definition extends :: "octet list \<Rightarrow> octet list \<Rightarrow> u32 \<Rightarrow> tcp_seg list \<Rightarrow> tcp_seg list \<Rightarrow> bool" where
  "extends W V iss q q' \<longleftrightarrow> slices (W @ V) iss q' \<and> ends_at q' (iss + of_nat (length (W @ V))) \<and> q' \<noteq> []
     \<and> (\<forall>p < length (W @ V). length W \<le> p \<or> holds_octet W iss q p \<longrightarrow> holds_octet (W @ V) iss q' p)"

lemma append_plain:
  assumes "slices W iss q" "placed (iss + of_nat (length W)) new" "new \<noteq> []"
  shows "extends W (octets new) iss q (q @ new)"
  using assms placed_holds [OF assms(2)] holds_octet_append [of W iss q] slices_append [OF assms(1)]
  by (auto simp: extends_def ends_at_def simp del: length_append)

lemma append_joined:
  assumes old: "slices W iss (us @ [u])" "ends_at (us @ [u]) (iss + of_nat (length W))"
    and new: "placed (iss + of_nat (length W)) (x # xs)" "th_flags (tcphdr x) = fl" "seg_flags x = opt" "seg_p x = b # bs"
    and len: "length (W @ octets (x # xs)) < 2 ^ 31" and j: "joins pcb fl u x"
  shows "extends W (octets (x # xs)) iss (us @ [u])
    (us @ u\<lparr>seg_p := seg_p u @ (if body (strip_header (LWIP_TCP_OPT_LENGTH opt) b) = [] then bs
      else strip_header (LWIP_TCP_OPT_LENGTH opt) b # bs), seg_len := seg_len u + seg_len x\<rparr> # xs)"
    (is "extends _ ?V _ _ (us @ ?u # xs)")
proof -
  have sx: "sound_seg x" using new(1) by simp
  have at: "slice_at (W @ ?V) iss ?u pos \<and> seg_octets ?u = seg_octets u @ seg_octets x \<and> pos + length (seg_octets u) = length W"
    if "slice_at W iss u pos" for pos
    using joined_slice [OF that _ len sx new(2,3) j _ _ new(4)] old(2) by (simp add: ends_at_def)
  obtain pos where pos: "slice_at W iss u pos" using old(1) by auto
  note rest = placed_holds [OF placed_Cons(1) [OF new(1)], unfolded append_assoc]
  have V: "W @ seg_octets x @ octets xs = W @ ?V" by simp
  have "covers W iss p u \<or> length W \<le> p \<Longrightarrow> p < length (W @ ?V) \<Longrightarrow> covers (W @ ?V) iss p ?u \<or> holds_octet (W @ ?V) iss xs p" for p
  proof -
    assume p: "covers W iss p u \<or> length W \<le> p" "p < length (W @ ?V)"
    show ?thesis
    proof (cases "p < length W + length (seg_octets x)")
      case True
      then show ?thesis using p(1) at pos by (fastforce simp: covers_def)
    next
      case False
      then show ?thesis using rest(2) [of p, unfolded V] p(2) by simp
    qed
  qed
  moreover have "ends_at (us @ ?u # xs) (iss + of_nat (length (W @ ?V)))"
  proof (cases "xs = []")
    case True
    then have "pos + length (seg_octets ?u) = length (W @ ?V)" using at [OF pos] by simp
    then show ?thesis using at [OF pos] slice_ends [of "W @ ?V" iss ?u pos] True by (simp only: ends_at_def last_snoc simp_thms)
  next
    case False
    then show ?thesis using rest(3) by (simp add: ends_at_def)
  qed
  ultimately show ?thesis
    using old(1) at [OF pos] rest(1) slices_append [of W iss us ?V] holds_octet_append [of W iss us _ ?V]
    by (auto simp: extends_def simp del: length_append)
qed

lemma append_queue_extends:
  assumes "append_queue pcb fl (LWIP_TCP_OPT_LENGTH opt) new n s = (q, n', s')"
    and "slices W iss (unsent pcb)"
    and "unsent pcb \<noteq> [] \<Longrightarrow> joins pcb fl (last (unsent pcb)) (hd new) \<Longrightarrow> ends_at (unsent pcb) (iss + of_nat (length W))"
    and "placed (iss + of_nat (length W)) new" "new \<noteq> []" "\<forall>sg\<in>set new. th_flags (tcphdr sg) = fl \<and> seg_flags sg = opt"
    and "length (W @ octets new) < 2 ^ 31"
  shows "extends W (octets new) iss (unsent pcb) q \<and> only_below s s'"
proof (cases "unsent pcb \<noteq> [] \<and> joins pcb fl (last (unsent pcb)) (hd new)")
  case False
  then show ?thesis using assms append_plain [of W iss "unsent pcb" new] by (auto simp: append_queue_def Let_def)
next
  case True
  obtain us u x xs where us: "unsent pcb = us @ [u]" "new = x # xs" using True assms(5) by (metis append_butlast_last_id neq_Nil_conv)
  obtain b bs where b: "seg_p x = b # bs" using assms(4) us(2) by (cases "seg_p x") (auto simp: sound_seg_def)
  show ?thesis
    using append_joined [of W iss us u x xs fl opt b bs pcb] assms True us b
    by (auto simp: append_queue_def Let_def split: if_splits)
qed

section \<open>The sender's invariant\<close>

text \<open>
  \<open>W\<close> is all that the application has written so far, with the SYN and the FIN.  The first \<open>A\<close> octets are
  acknowledged, \<open>N\<close> is the next one to be sent.
\<close>

definition window_ok :: "octet list \<Rightarrow> u32 \<Rightarrow> tcb \<Rightarrow> nat \<Rightarrow> nat \<Rightarrow> bool" where
  "window_ok W iss t A N \<longleftrightarrow> A \<le> N \<and> N \<le> length W \<and> lastack t = iss + of_nat A \<and> snd_nxt t = iss + of_nat N
     \<and> snd_buf t = TCP_SND_BUF - of_nat (length W - A)
     \<and> (\<forall>p. A \<le> p \<longrightarrow> p < length W \<longrightarrow> holds_octet W iss (unacked t @ unsent t) p)"

definition sender_ok :: "octet list \<Rightarrow> u32 \<Rightarrow> tcb \<Rightarrow> bool" where
  "sender_ok W iss t \<longleftrightarrow> length W < 2 ^ 31 \<and> snd_lbb t = iss + of_nat (length W) \<and> slices W iss (unacked t @ unsent t)
     \<and> (\<exists>A N. window_ok W iss t A N)"

text \<open>The fields of a block that these statements are about.\<close>

definition sender_view :: "tcb \<Rightarrow> u32 \<times> u32 \<times> u32 \<times> u16 \<times> tcp_seg list \<times> tcp_seg list" where
  "sender_view t = (snd_nxt t, lastack t, snd_lbb t, snd_buf t, unsent t, unacked t)"

lemma sender_ok_view: "sender_view t = sender_view u \<Longrightarrow> sender_ok W iss t \<Longrightarrow> sender_ok W iss u"
  by (simp add: sender_view_def sender_ok_def window_ok_def)

text \<open>Segments that hold the same octets at the same place.\<close>

definition same_slice :: "tcp_seg \<Rightarrow> tcp_seg \<Rightarrow> bool" where
  "same_slice sg sg' \<longleftrightarrow> sound_seg sg' \<and> seg_octets sg' = seg_octets sg \<and> seg_seqno sg' = seg_seqno sg"

lemma same_slice_at: "same_slice sg sg' \<Longrightarrow> slice_at W iss sg pos \<Longrightarrow> slice_at W iss sg' pos"
  by (simp add: same_slice_def slice_at_def)

lemma same_slice_covers: "same_slice sg sg' \<Longrightarrow> covers W iss p sg \<Longrightarrow> covers W iss p sg'"
  unfolding covers_def using same_slice_at [of sg sg'] by (metis same_slice_def)

lemma same_slice_len: "same_slice sg sg' \<Longrightarrow> sound_seg sg \<Longrightarrow> TCP_TCPLEN sg' = TCP_TCPLEN sg"
  by (simp add: same_slice_def TCPLEN_octets)

lemma or_below_64:
  assumes "unat x < 64" "unat y < 64"
  shows "unat (x OR y :: u8) < 64"
proof -
  have t: "take_bit 6 w = w" if "unat w < 64" for w :: u8
    using that by (simp add: word_unat_eq_iff unsigned_take_bit_eq take_bit_nat_eq_self)
  have "take_bit 6 (x OR y) = x OR y" using t [OF assms(1)] t [OF assms(2)] by simp
  then have "unat (x OR y) = take_bit 6 (unat (x OR y))" by (metis unsigned_take_bit_eq)
  then show ?thesis using take_bit_nat_less_exp [of 6 "unat (x OR y)"] by simp
qed

lemma same_slice_flag:
  assumes "sound_seg sg" "f AND TCP_SYN = 0" "f AND TCP_FIN = 0" "f AND TCP_RST = 0" "unat f < 64"
  shows "same_slice sg (TCPH_SET_FLAG f sg)"
proof -
  have "(th_flags (tcphdr sg) OR f) AND TCP_SYN = th_flags (tcphdr sg) AND TCP_SYN"
    "(th_flags (tcphdr sg) OR f) AND TCP_FIN = th_flags (tcphdr sg) AND TCP_FIN"
    using assms(2,3) by (simp_all add: bit.conj_disj_distrib2)
  moreover have "(th_flags (tcphdr sg) OR f) AND TCP_RST = th_flags (tcphdr sg) AND TCP_RST"
    using assms(4) by (simp add: bit.conj_disj_distrib2)
  moreover have "unat (th_flags (tcphdr sg) OR f) < 64"
    using assms(1,5) or_below_64 by (simp add: sound_seg_def sound_hdr_def)
  ultimately show ?thesis
    using assms(1) unfolding sound_seg_def sound_hdr_def by (simp add: same_slice_def TCPH_SET_FLAG_def seg_octets_def framed_def seg_data_def sound_seg_def sound_hdr_def)
qed

lemma extends_push_last: "extends W V iss q q' \<Longrightarrow> extends W V iss q (push_last api q')"
proof -
  assume e: "extends W V iss q q'"
  then have "q' \<noteq> []" by (simp add: extends_def)
  then obtain us u where q': "q' = us @ [u]" by (metis append_butlast_last_id)
  have s: "sound_seg u" using e q' by (auto simp: extends_def slice_at_def)
  have "same_slice u (TCPH_SET_FLAG TCP_PSH u)" by (rule same_slice_flag [OF s]) (simp_all add: TCP_PSH_def TCP_SYN_def TCP_FIN_def TCP_RST_def)
  then show ?thesis
    using e q' same_slice_at same_slice_covers same_slice_len [OF _ s]
    by (fastforce simp: extends_def push_last_def ends_at_def same_slice_def)
qed

lemma extends_ok:
  assumes "sender_ok W iss t" "extends W V iss (unsent t) q" "length (W @ V) < 2 ^ 31"
  shows "sender_ok (W @ V) iss
    (t\<lparr>unsent := q, t_flags := f, snd_lbb := snd_lbb t + of_nat (length V), snd_buf := snd_buf t - of_nat (length V), snd_queuelen := n\<rparr>)"
    (is "sender_ok _ _ ?t")
proof -
  obtain A N where w: "window_ok W iss t A N" using assms(1) by (auto simp: sender_ok_def)
  have "length (W @ V) - A = length W - A + length V" using w by (simp add: window_ok_def)
  moreover have "holds_octet (W @ V) iss (unacked t @ q) p" if p: "A \<le> p" "p < length (W @ V)" for p
  proof (cases "length W \<le> p")
    case True
    then show ?thesis using assms(2) p(2) by (simp add: extends_def)
  next
    case False
    then have "holds_octet W iss (unacked t @ unsent t) p" using w p(1) by (simp add: window_ok_def)
    then show ?thesis using assms(2) p(2) holds_octet_append [of W iss "unacked t" p V] by (auto simp: extends_def)
  qed
  ultimately have "window_ok (W @ V) iss ?t A N"
    using w by (simp add: window_ok_def)
  moreover have "slices (W @ V) iss (unacked t)" using assms(1) slices_append by (simp add: sender_ok_def)
  ultimately show ?thesis
    using assms by (auto simp: sender_ok_def extends_def)
qed

text \<open>Queueing data or a control segment: on success it is the next part of the stream.\<close>

text \<open>
  The code joins the first bytes of a write to the last unsent segment when they fit into it, whatever place of the stream that
  segment has.
\<close>

definition joins_last :: "tcb \<Rightarrow> u8 \<Rightarrow> u8 \<Rightarrow> u16 \<Rightarrow> bool" where
  "joins_last t fl opt len \<longleftrightarrow> unsent t \<noteq> [] \<and> TCP_TCPLEN (last (unsent t)) \<noteq> 0
     \<and> th_flags (tcphdr (last (unsent t))) AND (TCP_SYN OR TCP_FIN) = 0 \<and> fl AND (TCP_SYN OR TCP_FIN) = 0
     \<and> unat (seg_len (last (unsent t))) + unat (seg_length (t_mss t) (LWIP_TCP_OPT_LENGTH opt) len) \<le> unat (t_mss t)
     \<and> seg_flags (last (unsent t)) = opt"

lemma control_not_joined: "fl AND (TCP_SYN OR TCP_FIN) \<noteq> 0 \<Longrightarrow> \<not> joins_last t fl opt len"
  by (simp add: joins_last_def)

lemma enqueue_seg_len: "enqueue_seg pcb fl api opt arg left seglen seqno s = (Some (sg, k), s') \<Longrightarrow> seg_len sg = seglen \<and> seg_flags sg = opt"
  by (auto simp: enqueue_seg_def Let_def split: if_splits prod.splits)

lemma enqueue_loop_prefix:
  "enqueue_loop pcb fl api opt arg left seqno n queue s = (Some (queue', n'), s') \<Longrightarrow> \<exists>new. queue' = queue @ new"
proof (induction pcb fl api opt arg left seqno n queue s rule: enqueue_loop.induct)
  case (1 pcb fl api opt arg left seqno n queue s)
  show ?case
  proof (cases "queue \<noteq> [] \<and> left = 0")
    case False
    let ?len = "seg_length (t_mss pcb) (LWIP_TCP_OPT_LENGTH opt) left"
    obtain x s1 where mk: "enqueue_seg pcb fl api opt arg left ?len seqno s = (x, s1)" by fastforce
    with False "1.prems" obtain sg k where x: "x = Some (sg, k)" "\<not> TCP_SND_QUEUELEN < n + k"
      and rest: "enqueue_loop pcb fl api opt (map_option (drop (unat ?len)) arg) (left - ?len) (seqno + ucast ?len) (n + k) (queue @ [sg]) s1
        = (Some (queue', n'), s')"
      by (subst (asm) enqueue_loop.simps) (auto simp: Let_def split: option.splits prod.splits if_splits)
    from "1.IH" [OF False refl mk [unfolded x(1), symmetric] refl refl x(2) rest] show ?thesis by auto
  qed (use "1.prems" in \<open>subst (asm) enqueue_loop.simps, simp\<close>)
qed

lemma enqueue_loop_first:
  assumes "enqueue_loop pcb fl api opt arg left seqno n [] s = (Some (queue, n'), s')"
  shows "seg_len (hd queue) = seg_length (t_mss pcb) (LWIP_TCP_OPT_LENGTH opt) left \<and> seg_flags (hd queue) = opt"
proof -
  let ?len = "seg_length (t_mss pcb) (LWIP_TCP_OPT_LENGTH opt) left"
  obtain x s1 where mk: "enqueue_seg pcb fl api opt arg left ?len seqno s = (x, s1)" by fastforce
  with assms obtain sg k where x: "x = Some (sg, k)"
    and rest: "enqueue_loop pcb fl api opt (map_option (drop (unat ?len)) arg) (left - ?len) (seqno + ucast ?len) (n + k) [sg] s1 = (Some (queue, n'), s')"
    by (subst (asm) enqueue_loop.simps) (auto simp: Let_def split: option.splits prod.splits if_splits)
  from enqueue_loop_prefix [OF rest] enqueue_seg_len [OF mk [unfolded x]] show ?thesis by auto
qed

lemma enqueue_extends:
  assumes ok: "sender_ok W iss (tcp_mem s a)" "joins_last (tcp_mem s a) fl opt len \<Longrightarrow> ends_at (unsent (tcp_mem s a)) (snd_lbb (tcp_mem s a))"
    and enq: "tcp_enqueue a arg len fl api opt s = (ERR_OK, s')"
    and args: "length (arg_bytes arg) = unat len" "LWIP_TCP_OPT_LENGTH opt \<le> unat (t_mss (tcp_mem s a))"
      "fl AND TCP_SYN \<noteq> 0 \<or> fl AND TCP_FIN \<noteq> 0 \<Longrightarrow> len = 0" "ctrl_flags fl opt"
      "length W + length (framed fl (arg_bytes arg)) < 2 ^ 31"
  shows "sender_ok (W @ framed fl (arg_bytes arg)) iss (tcp_mem s' a)"
    "ends_at (unsent (tcp_mem s' a)) (snd_lbb (tcp_mem s' a))"
proof -
  let ?t = "tcp_mem s a" and ?V = "framed fl (arg_bytes arg)"
  obtain queue m s1 where loop: "enqueue_loop ?t fl api opt arg len (snd_lbb ?t) (unat (snd_queuelen ?t)) [] s = (Some (queue, m), s1)"
    using enq by (auto simp: tcp_enqueue_def Let_def split: if_splits prod.splits option.splits)
  obtain q n s2 where app: "append_queue ?t fl (LWIP_TCP_OPT_LENGTH opt) queue m s1 = (q, n, s2)" by (metis prod_cases3)
  define k where "k = (if fl AND (TCP_SYN OR TCP_FIN) \<noteq> 0 then len + 1 else len)"
  have s': "s' = set_tcb a (\<lambda>t. t\<lparr>unsent := push_last api q, t_flags := (if fl AND TCP_FIN \<noteq> 0 then t_flags t OR TF_FIN else t_flags t),
      snd_lbb := snd_lbb t + ucast k, snd_buf := snd_buf t - k, snd_queuelen := of_nat n\<rparr>) s2"
    using enq loop app by (auto simp: tcp_enqueue_def Let_def k_def split: if_splits)
  have lbb: "snd_lbb ?t = iss + of_nat (length W)" and sl: "slices W iss (unsent ?t)" using ok(1) by (simp_all add: sender_ok_def)
  have new: "placed (iss + of_nat (length W)) queue" "only_below s s1" "queue \<noteq> []" "octets queue = ?V"
    "\<forall>sg\<in>set queue. th_flags (tcphdr sg) = fl \<and> seg_flags sg = opt"
    using enqueue_loop_places [OF loop args(1-4)] lbb by auto
  have j: "ends_at (unsent ?t) (iss + of_nat (length W))" if "unsent ?t \<noteq> []" "joins ?t fl (last (unsent ?t)) (hd queue)"
    by (rule ok(2) [unfolded lbb]) (use that enqueue_loop_first [OF loop] in \<open>simp add: joins_def joins_last_def\<close>)
  have x: "extends W ?V iss (unsent ?t) q" "only_below s1 s2"
    using append_queue_extends [OF app sl j new(1,3,5)] new(4) args(5) by simp_all
  have mem: "tcp_mem s2 = tcp_mem s" using only_below_fields(1) [OF only_below_trans [OF new(2) x(2)]] by simp
  have V: "length ?V = unat len + (if fl AND (TCP_SYN OR TCP_FIN) \<noteq> 0 then 1 else 0)"
    using args(1,4) by (auto simp: framed_def ctrl_flags_def bit.conj_disj_distrib or_eq_0_iff)
  have k: "k = of_nat (length ?V)" "ucast k = (of_nat (length ?V) :: u32)"
    using args(3) unfolding V by (auto simp: k_def bit.conj_disj_distrib or_eq_0_iff)
  have r: "extends W ?V iss (unsent ?t) (push_last api q)" using x(1) by (rule extends_push_last)
  show "sender_ok (W @ ?V) iss (tcp_mem s' a)"
    by (rule sender_ok_view [OF _ extends_ok [OF ok(1) r, folded k, where f = 0 and n = 0]])
      (use args(5) in \<open>simp_all add: s' mem sender_view_def\<close>)
  show "ends_at (unsent (tcp_mem s' a)) (snd_lbb (tcp_mem s' a))"
    using r unfolding s' by (simp add: mem k(2) extends_def lbb add.assoc)
qed

text \<open>When it fails, nothing is queued.\<close>

lemma segs_free_mem [simp]: "tcp_mem (tcp_segs_free q s) = tcp_mem s"
  by (induction q arbitrary: s) (simp_all add: tcp_segs_free_def tcp_seg_free_def tcp_log_def)

lemma try_alloc_mem: "tcp_try_alloc s = (ok, s') \<Longrightarrow> tcp_mem s' = tcp_mem s"
  by (rule only_below_fields(1) [OF only_below_alloc])

lemma enqueue_seg_mem: "enqueue_seg pcb fl api opt arg left seglen seqno s = (r, s') \<Longrightarrow> tcp_mem s' = tcp_mem s"
  by (auto simp: enqueue_seg_def Let_def tcp_log_def dest!: try_alloc_mem split: prod.splits if_splits)

lemma enqueue_loop_mem: "enqueue_loop pcb fl api opt arg left seqno n queue s = (r, s') \<Longrightarrow> tcp_mem s' = tcp_mem s"
proof (induction pcb fl api opt arg left seqno n queue s rule: enqueue_loop.induct)
  case (1 pcb fl api opt arg left seqno n queue s)
  show ?case
  proof (cases "queue \<noteq> [] \<and> left = 0")
    case False
    let ?len = "seg_length (t_mss pcb) (LWIP_TCP_OPT_LENGTH opt) left"
    obtain x s1 where mk: "enqueue_seg pcb fl api opt arg left ?len seqno s = (x, s1)" by fastforce
    note m = enqueue_seg_mem [OF mk]
    show ?thesis
    proof (cases "\<exists>sg k. x = Some (sg, k) \<and> \<not> TCP_SND_QUEUELEN < n + k")
      case True
      then obtain sg k where x: "x = Some (sg, k)" "\<not> TCP_SND_QUEUELEN < n + k" by blast
      from "1.prems" mk x False have "enqueue_loop pcb fl api opt (map_option (drop (unat ?len)) arg) (left - ?len)
          (seqno + ucast ?len) (n + k) (queue @ [sg]) s1 = (r, s')"
        by (subst (asm) enqueue_loop.simps) (simp add: Let_def)
      from "1.IH" [OF False refl mk [unfolded x(1), symmetric] refl refl x(2) this] show ?thesis using m by simp
    qed (use "1.prems" mk m False in \<open>subst (asm) enqueue_loop.simps, auto simp: Let_def split: option.splits if_splits\<close>)
  qed (use "1.prems" in \<open>subst (asm) enqueue_loop.simps, simp\<close>)
qed

lemma enqueue_fails:
  assumes "tcp_enqueue a arg len fl api opt s = (e, s')" "e \<noteq> ERR_OK"
  shows "sender_view (tcp_mem s' a) = sender_view (tcp_mem s a)"
proof -
  obtain r s1 where loop: "enqueue_loop (tcp_mem s a) fl api opt arg len (snd_lbb (tcp_mem s a)) (unat (snd_queuelen (tcp_mem s a))) [] s = (r, s1)"
    by fastforce
  have "tcp_mem s1 = tcp_mem s" using loop by (rule enqueue_loop_mem)
  then show ?thesis
    using assms loop by (auto simp: tcp_enqueue_def Let_def sender_view_def split: if_splits option.splits prod.splits)
qed

section \<open>Sending\<close>

lemma ip_output_mem: "tcp_ip_output p src dest ttl tos s = Some s' \<Longrightarrow> tcp_mem s' = tcp_mem s"
  by (auto simp: tcp_ip_output_def)

lemma send_header_mem: "send_header h xs src dest ttl tos s = Some s' \<Longrightarrow> tcp_mem s' = tcp_mem s"
  by (auto simp: send_header_def Let_def tcp_log_def dest: ip_output_mem)

lemma output_segment_same:
  assumes "tcp_output_segment sg a s = Some (sg', s')" "sound_seg sg"
  shows "same_slice sg sg' \<and> sender_view (tcp_mem s' a) = sender_view (tcp_mem s a)"
proof
  show "sender_view (tcp_mem s' a) = sender_view (tcp_mem s a)"
    using assms(1) by (auto simp: tcp_output_segment_def Let_def sender_view_def dest!: ip_output_mem split: option.splits if_splits)
  let ?h = "(tcphdr sg)\<lparr>th_ackno := rcv_nxt (tcp_mem s a), th_wnd := rcv_ann_wnd (tcp_mem s a)\<rparr>"
  have "sg' = sg\<lparr>tcphdr := ?h\<rparr> \<or> seg_flags sg AND TF_SEG_OPTS_MSS \<noteq> 0 \<and> sg' = sg\<lparr>tcphdr := ?h, seg_p := write_first 0 TCP_BUILD_MSS_OPTION (seg_p sg)\<rparr>"
    using assms(1) by (auto simp: tcp_output_segment_def Let_def split: option.splits if_splits)
  then show "same_slice sg sg'"
  proof
    assume sg': "seg_flags sg AND TF_SEG_OPTS_MSS \<noteq> 0 \<and> sg' = sg\<lparr>tcphdr := ?h, seg_p := write_first 0 TCP_BUILD_MSS_OPTION (seg_p sg)\<rparr>"
    obtain b bs where b: "seg_p sg = b # bs" using assms(2) by (cases "seg_p sg") (auto simp: sound_seg_def)
    have "length TCP_BUILD_MSS_OPTION = 4" by (simp add: TCP_BUILD_MSS_OPTION_def length_mem_bytes)
    then show ?thesis
      using assms(2) sg' b
      by (auto simp: same_slice_def sound_seg_def sound_hdr_def seg_octets_def seg_data_def LWIP_TCP_OPT_LENGTH_def contents_def write_first_def overwrite_def)
  qed (use assms(2) in \<open>simp add: same_slice_def sound_seg_def sound_hdr_def seg_octets_def seg_data_def\<close>)
qed

lemma set_insert_seg: "set (insert_seg sg q) = insert sg (set q)"
  by (simp add: insert_seg_def flip: set_append [of "takeWhile _ _"])

lemma set_add_unacked: "set (add_unacked sg q) = insert sg (set q)"
  by (simp add: add_unacked_def set_insert_seg)

text \<open>The first segment of the queue is sent.\<close>

definition sent_tcb :: "tcp_seg \<Rightarrow> tcp_seg list \<Rightarrow> tcb \<Rightarrow> tcb" where
  "sent_tcb sg sgs t =
     (let nxt = seg_seqno sg + TCP_TCPLEN sg in
      t\<lparr>unsent := sgs, snd_nxt := (if TCP_SEQ_LT (snd_nxt t) nxt then nxt else snd_nxt t),
        unacked := (if 0 < TCP_TCPLEN sg then add_unacked sg (unacked t) else unacked t)\<rparr>)"

lemma sent_ok:
  assumes "sender_ok W iss t" "unsent t = sg # sgs" "same_slice sg sg'"
  shows "sender_ok W iss (sent_tcb sg' sgs t)"
proof -
  obtain A N where w: "window_ok W iss t A N" and W: "length W < 2 ^ 31" using assms(1) by (auto simp: sender_ok_def)
  obtain pos where pos: "slice_at W iss sg pos" using assms(1,2) by (auto simp: sender_ok_def)
  let ?e = "pos + length (seg_octets sg')"
  have s': "slice_at W iss sg' pos" using assms(3) pos by (rule same_slice_at)
  then have e: "?e \<le> length W" "seg_seqno sg' + TCP_TCPLEN sg' = iss + of_nat ?e" using slice_ends by (auto simp: slice_at_def)
  have nxt: "(if TCP_SEQ_LT (snd_nxt t) (iss + of_nat ?e) then iss + of_nat ?e else snd_nxt t) = iss + of_nat (max N ?e)"
    using seq_cmp(2) [of N ?e iss] w W e(1) by (simp add: window_ok_def max_def)
  have empty: "covers W iss p sg \<Longrightarrow> 0 < TCP_TCPLEN sg'" for p
  proof -
    assume "covers W iss p sg"
    then have "0 < length (seg_octets sg')" using assms(3) by (auto simp: covers_def same_slice_def)
    moreover have "sound_seg sg'" "length (seg_octets sg') < 2 ^ 31" using s' W by (simp_all add: slice_at_def)
    ultimately show ?thesis by (simp add: TCPLEN_octets word_less_nat_alt unat_of_nat_u32)
  qed
  have "holds_octet W iss (unacked (sent_tcb sg' sgs t) @ unsent (sent_tcb sg' sgs t)) p" if "holds_octet W iss (unacked t @ unsent t) p" for p
    using that assms(2) empty [of p] same_slice_covers [OF assms(3), of W iss p]
    by (auto simp: holds_octet_def sent_tcb_def Let_def set_add_unacked)
  moreover have "snd_nxt (sent_tcb sg' sgs t) = iss + of_nat (max N ?e)"
    using nxt by (simp add: sent_tcb_def Let_def e(2) del: of_nat_add)
  moreover have "lastack (sent_tcb sg' sgs t) = lastack t" "snd_buf (sent_tcb sg' sgs t) = snd_buf t"
    by (simp_all add: sent_tcb_def Let_def)
  ultimately have "window_ok W iss (sent_tcb sg' sgs t) A (max N ?e)"
    using w e(1) by (simp add: window_ok_def le_max_iff_disj del: holds_octet_simps)
  moreover have "slices W iss (unacked (sent_tcb sg' sgs t) @ unsent (sent_tcb sg' sgs t))"
    using assms(1,2) s' by (auto simp: sender_ok_def slices_def sent_tcb_def Let_def set_add_unacked)
  moreover have "snd_lbb (sent_tcb sg' sgs t) = snd_lbb t" by (simp add: sent_tcb_def Let_def)
  ultimately show ?thesis using assms(1) by (auto simp: sender_ok_def)
qed

text \<open>\<open>sender_fits\<close>: moreover the last segment that is not sent ends where the next write begins.\<close>

definition sender_fits :: "octet list \<Rightarrow> u32 \<Rightarrow> tcb \<Rightarrow> bool" where
  "sender_fits W iss t \<longleftrightarrow> sender_ok W iss t \<and> ends_at (unsent t) (snd_lbb t)"

lemma ends_at_Cons: "ends_at (sg # q) x \<Longrightarrow> ends_at q x"
  by (simp add: ends_at_def split: if_splits)

lemma ends_at_dropWhile: "ends_at q x \<Longrightarrow> ends_at (dropWhile P q) x"
  by (induction q) (auto dest: ends_at_Cons)

lemma view_fields:
  "sender_view t = sender_view u \<Longrightarrow> snd_nxt t = snd_nxt u \<and> lastack t = lastack u \<and> snd_lbb t = snd_lbb u \<and> snd_buf t = snd_buf u
     \<and> unsent t = unsent u \<and> unacked t = unacked u"
  by (simp add: sender_view_def)

text \<open>One round of the loop.\<close>

definition to_send :: "nat \<Rightarrow> tcp_seg \<Rightarrow> 'a tcp \<Rightarrow> tcp_seg" where
  "to_send a sg s = (if t_state (tcp_mem s a) = SYN_SENT then sg else TCPH_SET_FLAG TCP_ACK sg)"

definition before_send :: "nat \<Rightarrow> tcp_seg list \<Rightarrow> 'a tcp \<Rightarrow> 'a tcp" where
  "before_send a sgs s =
     set_tcb a (\<lambda>t. if t_state t = SYN_SENT then t\<lparr>unsent := sgs\<rparr>
                    else t\<lparr>unsent := sgs, t_flags := t_flags t AND NOT (TF_ACK_DELAY OR TF_ACK_NOW)\<rparr>) s"

definition after_send :: "nat \<Rightarrow> tcp_seg \<Rightarrow> 'a tcp \<Rightarrow> 'a tcp" where
  "after_send a sg s =
     (let nxt = seg_seqno sg + TCP_TCPLEN sg;
          s = set_tcb a (\<lambda>t. if TCP_SEQ_LT (snd_nxt t) nxt then t\<lparr>snd_nxt := nxt\<rparr> else t) s
      in if 0 < TCP_TCPLEN sg then set_tcb a (\<lambda>t. t\<lparr>unacked := add_unacked sg (unacked t)\<rparr>) s else tcp_seg_free sg s)"

lemma output_loop_Cons:
  "output_loop a wnd (sg # sgs) s =
     (let t = tcp_mem s a in
      if \<not> seg_reach t sg \<le> wnd \<or> \<not> tcp_do_output_nagle t \<and> t_flags t AND (TF_NAGLEMEMERR OR TF_FIN) = 0 then Some s
      else do { (sg, s) \<leftarrow> tcp_output_segment (to_send a sg s) a (before_send a sgs s); output_loop a wnd sgs (after_send a sg s) })"
proof -
  have st: "before_send a sgs s = (let s1 = set_tcb a (\<lambda>t. t\<lparr>unsent := sgs\<rparr>) s in
      if t_state (tcp_mem s a) = SYN_SENT then s1 else set_tcb a (\<lambda>t. t\<lparr>t_flags := t_flags t AND NOT (TF_ACK_DELAY OR TF_ACK_NOW)\<rparr>) s1)"
    by (simp add: before_send_def set_tcb_def)
  show ?thesis
    unfolding output_loop.simps(2) [of a wnd sg] st by (simp add: to_send_def after_send_def Let_def)
qed

lemma send_keeps:
  assumes "tcp_output_segment (to_send a sg s) a (before_send a sgs s) = Some (sg1, s1)" "sender_ok W iss (tcp_mem s a)"
    and "unsent (tcp_mem s a) = sg # sgs"
  shows "sender_ok W iss (tcp_mem (after_send a sg1 s1) a) \<and> unsent (tcp_mem (after_send a sg1 s1) a) = sgs
    \<and> snd_lbb (tcp_mem (after_send a sg1 s1) a) = snd_lbb (tcp_mem s a) \<and> lastack (tcp_mem (after_send a sg1 s1) a) = lastack (tcp_mem s a)"
proof -
  have s: "sound_seg sg" using assms(2,3) by (auto simp: sender_ok_def slice_at_def)
  have f: "same_slice sg (to_send a sg s)"
    using same_slice_flag [OF s, of TCP_ACK] s by (simp add: to_send_def TCP_ACK_def TCP_SYN_def TCP_FIN_def TCP_RST_def same_slice_def)
  from output_segment_same [OF assms(1)] f have g: "same_slice sg sg1" "sender_view (tcp_mem s1 a) = sender_view (tcp_mem (before_send a sgs s) a)"
    by (auto simp: same_slice_def)
  have v: "sender_view (tcp_mem (after_send a sg1 s1) a) = sender_view (sent_tcb sg1 sgs (tcp_mem s a))"
    using view_fields [OF g(2)]
    by (auto simp: after_send_def before_send_def sender_view_def sent_tcb_def Let_def tcp_seg_free_def tcp_log_def split: if_splits)
  show ?thesis
    using sender_ok_view [OF v [symmetric] sent_ok [OF assms(2,3) g(1)]] view_fields [OF v] by (simp add: sent_tcb_def Let_def)
qed

lemma output_loop_keeps:
  fixes s :: "'a tcp"
  assumes "output_loop a wnd q s = Some s'" "sender_ok W iss (tcp_mem s a)" "unsent (tcp_mem s a) = q"
  shows "sender_ok W iss (tcp_mem s' a) \<and> snd_lbb (tcp_mem s' a) = snd_lbb (tcp_mem s a) \<and> lastack (tcp_mem s' a) = lastack (tcp_mem s a)
    \<and> (ends_at q x \<longrightarrow> ends_at (unsent (tcp_mem s' a)) x)"
  using assms
proof (induction q arbitrary: s)
  case (Cons sg sgs)
  note IH = Cons.IH and prems = Cons.prems
  let ?t = "tcp_mem s a"
  let ?stop = "\<not> seg_reach ?t sg \<le> wnd \<or> \<not> tcp_do_output_nagle ?t \<and> t_flags ?t AND (TF_NAGLEMEMERR OR TF_FIN) = 0"
  let ?sg = "to_send a sg s" and ?s = "before_send a sgs s"
  show ?case
  proof (cases ?stop)
    case True
    then have "s' = s" using prems(1) unfolding output_loop_Cons Let_def by auto
    then show ?thesis using prems by simp
  next
    case False
    then obtain sg1 s1 where seg1: "tcp_output_segment ?sg a ?s = Some (sg1, s1)" "output_loop a wnd sgs (after_send a sg1 s1) = Some s'"
      using prems(1) unfolding output_loop_Cons Let_def by (auto simp: bind_eq_Some_conv)
    note k = send_keeps [OF seg1(1) prems(2,3)]
    have "sender_ok W iss (tcp_mem s' a) \<and> snd_lbb (tcp_mem s' a) = snd_lbb (tcp_mem (after_send a sg1 s1) a)
        \<and> lastack (tcp_mem s' a) = lastack (tcp_mem (after_send a sg1 s1) a) \<and> (ends_at sgs x \<longrightarrow> ends_at (unsent (tcp_mem s' a)) x)"
      using IH seg1(2) k by blast
    then show ?thesis using k ends_at_Cons by auto
  qed
qed simp

text \<open>An operation on a block that keeps what its sender has to do.\<close>

definition keeps_sender :: "nat \<Rightarrow> 'a tcp \<Rightarrow> 'a tcp \<Rightarrow> bool" where
  "keeps_sender a s s' \<longleftrightarrow> (\<forall>W iss. (sender_ok W iss (tcp_mem s a)
       \<longrightarrow> sender_ok W iss (tcp_mem s' a) \<and> lastack (tcp_mem s' a) = lastack (tcp_mem s a))
     \<and> (sender_fits W iss (tcp_mem s a) \<longrightarrow> sender_fits W iss (tcp_mem s' a)))"

lemma keeps_refl [simp]: "keeps_sender a s s"
  by (simp add: keeps_sender_def)

lemma keeps_ok: "keeps_sender a s s' \<Longrightarrow> sender_ok W iss (tcp_mem s a)
    \<Longrightarrow> sender_ok W iss (tcp_mem s' a) \<and> lastack (tcp_mem s' a) = lastack (tcp_mem s a)"
  by (auto simp: keeps_sender_def)

lemma keeps_trans: "keeps_sender a s s' \<Longrightarrow> keeps_sender a s' s'' \<Longrightarrow> keeps_sender a s s''"
  unfolding keeps_sender_def by fastforce

lemma keeps_view: "sender_view (tcp_mem s' a) = sender_view (tcp_mem s a) \<Longrightarrow> keeps_sender a s s'"
  using sender_ok_view [of "tcp_mem s a" "tcp_mem s' a"] view_fields [of "tcp_mem s' a" "tcp_mem s a"]
  by (simp add: keeps_sender_def sender_fits_def)

lemma keeps_same: "tcp_mem s a = tcp_mem s' a \<Longrightarrow> keeps_sender a s s'"
  by (rule keeps_view) simp

lemma output_loop_sender: "output_loop a wnd (unsent (tcp_mem s a)) s = Some s' \<Longrightarrow> keeps_sender a s s'"
  using output_loop_keeps by (fastforce simp: keeps_sender_def sender_fits_def)

lemma output_keeps:
  assumes "tcp_output a s = Some (e, s')"
  shows "keeps_sender a s s'"
proof (cases "tcp_input_pcb s = Some a")
  case False
  let ?pcb = "tcp_mem s a" and ?wnd = "ucast (min (snd_wnd (tcp_mem s a)) (cwnd (tcp_mem s a))) :: u32"
  show ?thesis
  proof (cases "t_flags ?pcb AND TF_ACK_NOW \<noteq> 0 \<and> (case unsent ?pcb of [] \<Rightarrow> True | sg # _ \<Rightarrow> ?wnd < seg_reach ?pcb sg)")
    case True
    obtain ok s1 where al: "tcp_try_alloc s = (ok, s1)" by fastforce
    from assms False True al show ?thesis
      by (intro keeps_view)
        (auto simp: tcp_output_def Let_def tcp_output_set_header_def sender_view_def try_alloc_mem split: if_splits dest!: send_header_mem)
  next
    case nt: False
    from assms False nt obtain s1 where s1: "output_loop a ?wnd (unsent ?pcb) s = Some s1"
      "s' = set_tcb a (\<lambda>t. t\<lparr>t_flags := t_flags t AND NOT TF_NAGLEMEMERR\<rparr>) (set_tcb a start_persist s1)"
      unfolding tcp_output_def Let_def by (auto simp: bind_eq_Some_conv)
    have "keeps_sender a s1 s'"
      unfolding s1(2) by (rule keeps_view) (simp add: sender_view_def start_persist_def split: list.split)
    then show ?thesis using output_loop_sender [OF s1(1)] keeps_trans by blast
  qed
qed (use assms in simp)

section \<open>Retransmission\<close>

text \<open>The same segments in other queues.\<close>

lemma requeue_ok:
  assumes "sender_ok W iss t" "set (unacked u @ unsent u) = set (unacked t @ unsent t)"
    and "snd_nxt u = snd_nxt t" "lastack u = lastack t" "snd_lbb u = snd_lbb t" "snd_buf u = snd_buf t"
  shows "sender_ok W iss u"
  using assms by (simp add: sender_ok_def window_ok_def holds_octet_def slices_def del: set_append)

lemma rexmit_rto_keeps:
  assumes "tcp_rexmit_rto a s = Some s'" "sender_ok W iss (tcp_mem s a)"
  shows "sender_ok W iss (tcp_mem s' a)"
proof (cases "unacked (tcp_mem s a) = []")
  case False
  let ?s = "set_tcb a (\<lambda>t. t\<lparr>unsent := unacked t @ unsent t, unacked := [], nrtx := nrtx t + 1, rttest := 0\<rparr>) s"
  obtain e where "tcp_output a ?s = Some (e, s')" using assms(1) False by (auto simp: tcp_rexmit_rto_def)
  moreover have "sender_ok W iss (tcp_mem ?s a)" by (rule requeue_ok [OF assms(2)]) simp_all
  ultimately show ?thesis using output_keeps unfolding keeps_sender_def by blast
qed (use assms in \<open>simp add: tcp_rexmit_rto_def\<close>)

lemma rexmit_keeps:
  assumes "tcp_rexmit a s = Some s'" "sender_ok W iss (tcp_mem s a)"
  shows "sender_ok W iss (tcp_mem s' a) \<and> lastack (tcp_mem s' a) = lastack (tcp_mem s a)"
proof (cases "unacked (tcp_mem s a)")
  case (Cons sg sgs)
  let ?s = "set_tcb a (\<lambda>t. t\<lparr>unacked := sgs, unsent := insert_seg sg (unsent t), nrtx := nrtx t + 1, rttest := 0\<rparr>) s"
  obtain e where "tcp_output a ?s = Some (e, s')" using assms(1) Cons by (auto simp: tcp_rexmit_def)
  moreover have "sender_ok W iss (tcp_mem ?s a)" by (rule requeue_ok [OF assms(2)]) (simp_all add: Cons set_insert_seg Un_commute insert_commute)
  ultimately show ?thesis using keeps_ok [OF output_keeps, of a ?s e s' W iss] by simp
qed (use assms in \<open>simp add: tcp_rexmit_def\<close>)

section \<open>Acknowledgements\<close>

text \<open>Segments that end at or before \<open>M\<close> can go: nothing behind \<open>M\<close> is lost.\<close>

lemma drop_holds:
  assumes "holds_octet W iss q p" "M \<le> p" "length W < 2 ^ 31"
    and "\<And>x e. D x \<Longrightarrow> seg_seqno x + TCP_TCPLEN x = iss + of_nat e \<Longrightarrow> e < 2 ^ 31 \<Longrightarrow> e \<le> M"
  shows "holds_octet W iss (dropWhile D q) p"
  using assms(1)
proof (induction q)
  case (Cons sg q)
  have "\<not> D sg" if c: "covers W iss p sg"
  proof
    assume "D sg"
    obtain pos where pos: "slice_at W iss sg pos" "p < pos + length (seg_octets sg)" using c by (auto simp: covers_def)
    have "pos + length (seg_octets sg) < 2 ^ 31" using pos(1) assms(3) by (simp add: slice_at_def)
    then have "pos + length (seg_octets sg) \<le> M" using assms(4) [OF \<open>D sg\<close> slice_ends [OF pos(1)]] by simp
    then show False using pos(2) assms(2) by simp
  qed
  then show ?case using Cons by auto
qed simp

lemma slices_dropWhile: "slices W iss q \<Longrightarrow> slices W iss (dropWhile D q)"
  by (auto simp: slices_def dest: set_dropWhileD)

lemma fold_drop_view: "sender_view (tcp_mem (fold (drop_seg a) q s) a) = sender_view (tcp_mem s a)"
  by (induction q arbitrary: s) (simp_all add: drop_seg_def tcp_seg_free_def tcp_log_def sender_view_def)

lemma seq_end:
  assumes "M < 2 ^ 31" "e < 2 ^ 31"
  shows "TCP_SEQ_LEQ (iss + of_nat e) (iss + of_nat M) \<longleftrightarrow> e \<le> M" "TCP_SEQ_GEQ (iss + of_nat M) (iss + of_nat e) \<longleftrightarrow> e \<le> M"
  using seq_cmp(4) [OF assms(2,1)] seq_cmp(1) [OF assms] by blast+

text \<open>An acknowledgement inside of what was sent.\<close>

lemma ucast_down_of_nat: "(ucast (of_nat n :: u32) :: u16) = of_nat n"
  by (rule bit_word_eqI) (simp add: bit_simps)

lemma new_ack_keeps:
  assumes ok: "sender_ok W iss (tcp_mem s a)" and w: "window_ok W iss (tcp_mem s a) A N" and M: "A \<le> M" "M \<le> N"
    and ack: "new_ack (iss + of_nat M) a s = Some s'"
  shows "sender_ok W iss (tcp_mem s' a)" "window_ok W iss (tcp_mem s' a) M N" "unsent (tcp_mem s' a) = unsent (tcp_mem s a)"
    "snd_lbb (tcp_mem s' a) = snd_lbb (tcp_mem s a)"
proof -
  let ?t = "tcp_mem s a" and ?a = "iss + of_nat M"
  define D where "D = (\<lambda>x. TCP_SEQ_LEQ (seg_seqno x + TCP_TCPLEN x) ?a)"
  obtain t where t: "open_window (ack_counters ?a ?t) = Some t"
    and s': "s' = set_tcb a (\<lambda>t. t\<lparr>rtime := (if unacked t = [] then - 1 else 0), polltmr := 0\<rparr>) (drop_unacked ?a a (set_tcb a (\<lambda>_. t) s))"
    using ack unfolding new_ack_def Let_def by (auto simp: bind_eq_Some_conv)
  have vt: "sender_view t = sender_view (ack_counters ?a ?t)"
    using t by (auto simp: open_window_def inflate_def Let_def sender_view_def split: if_splits)
  have v: "sender_view (tcp_mem s' a) = (snd_nxt ?t, ?a, snd_lbb ?t, snd_buf ?t + ucast (?a - lastack ?t), unsent ?t, dropWhile D (unacked ?t))"
    using vt view_fields [OF fold_drop_view [of a "takeWhile D (unacked t)" "set_tcb a (\<lambda>_. t) s"]]
    unfolding s' drop_unacked_def D_def [symmetric] Let_def
    by (simp add: sender_view_def ack_counters_def Let_def)
  have W: "length W < 2 ^ 31" using ok by (simp add: sender_ok_def)
  have N: "N \<le> length W" "lastack ?t = iss + of_nat A" using w by (simp_all add: window_ok_def)
  have D: "e \<le> M" if "D x" "seg_seqno x + TCP_TCPLEN x = iss + of_nat e" "e < 2 ^ 31" for x e
    using that seq_end(1) [of M e iss] M N W unfolding D_def that(2) by simp
  have "holds_octet W iss (dropWhile D (unacked ?t) @ unsent ?t) p" if "M \<le> p" "p < length W" for p
  proof -
    have "holds_octet W iss (unacked ?t @ unsent ?t) p" using w that M by (simp add: window_ok_def)
    then show ?thesis using drop_holds [where D = D, OF _ that(1) W D] by auto
  qed
  moreover have "snd_buf ?t + ucast (?a - lastack ?t) = TCP_SND_BUF - of_nat (length W - M)"
  proof -
    have "?a - lastack ?t = of_nat (M - A)" using M N by simp
    moreover have "length W - A = (length W - M) + (M - A)" using M N by simp
    ultimately show ?thesis using w by (simp add: window_ok_def ucast_down_of_nat)
  qed
  ultimately show x: "window_ok W iss (tcp_mem s' a) M N"
    using v w M by (simp add: window_ok_def sender_view_def)
  show "sender_ok W iss (tcp_mem s' a)"
    using ok v x slices_dropWhile [of W iss "unacked ?t" D] by (auto simp: sender_ok_def sender_view_def)
  show "unsent (tcp_mem s' a) = unsent ?t" "snd_lbb (tcp_mem s' a) = snd_lbb ?t" using v by (simp_all add: sender_view_def)
qed

text \<open>What was queued again and is acknowledged does not have to be sent again.\<close>

lemma drop_unsent_keeps:
  assumes ok: "sender_ok W iss (tcp_mem s a)" and A: "lastack (tcp_mem s a) = iss + of_nat A" "A \<le> length W" 
    and M: "M < 2 ^ 31" "M \<le> A \<or> \<not> TCP_SEQ_LEQ (iss + of_nat M) (snd_nxt (tcp_mem s a))"
  shows "sender_ok W iss (tcp_mem (drop_unsent (iss + of_nat M) a s) a)"
proof -
  let ?t = "tcp_mem s a" and ?s = "drop_unsent (iss + of_nat M) a s"
  define D where "D = (\<lambda>x. TCP_SEQ_BETWEEN (iss + of_nat M) (seg_seqno x + TCP_TCPLEN x) (snd_nxt ?t))"
  have v: "sender_view (tcp_mem ?s a) = (snd_nxt ?t, lastack ?t, snd_lbb ?t, snd_buf ?t, dropWhile D (unsent ?t), unacked ?t)"
    using view_fields [OF fold_drop_view [of a "takeWhile D (unsent ?t)" s]]
    unfolding drop_unsent_def D_def [symmetric] Let_def by (simp add: sender_view_def)
  have W: "length W < 2 ^ 31" using ok by (simp add: sender_ok_def)
  obtain A' N where w: "window_ok W iss ?t A' N" using ok by (auto simp: sender_ok_def)
  have "A' = A" using w A W seq_eq [of A' A iss] by (auto simp: window_ok_def)
  note w = w [unfolded this]
  have D: "e \<le> A" if "D x" "seg_seqno x + TCP_TCPLEN x = iss + of_nat e" "e < 2 ^ 31" for x e
    using that seq_end(2) [OF M(1) that(3), of iss] M(2) unfolding D_def TCP_SEQ_BETWEEN_def that(2) by auto
  have "holds_octet W iss (unacked ?t @ dropWhile D (unsent ?t)) p" if "A \<le> p" "p < length W" for p
  proof -
    have "holds_octet W iss (unacked ?t @ unsent ?t) p" using w that by (simp add: window_ok_def)
    then show ?thesis using drop_holds [where D = D, OF _ that(1) W D] by auto
  qed
  then have "window_ok W iss (tcp_mem ?s a) A N" using v w by (simp add: window_ok_def sender_view_def)
  then show ?thesis
    using ok v slices_dropWhile [of W iss "unsent ?t" D] by (auto simp: sender_ok_def sender_view_def)
qed

lemma window_update_view: "sender_view (window_update i t) = sender_view t"
  by (simp add: window_update_def Let_def sender_view_def)

lemma inflate_view: "sender_view (inflate t) = sender_view t"
  by (simp add: inflate_def sender_view_def)

lemma enter_fast_recovery_view: "sender_view (enter_fast_recovery t) = sender_view t"
  by (simp add: enter_fast_recovery_def Let_def sender_view_def)

lemma duplicate_ack_keeps:
  assumes "duplicate_ack edge a s = Some s'" "sender_ok W iss (tcp_mem s a)"
  shows "sender_ok W iss (tcp_mem s' a) \<and> lastack (tcp_mem s' a) = lastack (tcp_mem s a)"
proof -
  let ?s = "set_tcb a (\<lambda>t. t\<lparr>acked := 0\<rparr>) s" and ?s2 = "set_tcb a (\<lambda>t. t\<lparr>dupacks := dupacks t + 1\<rparr>) (set_tcb a (\<lambda>t. t\<lparr>acked := 0\<rparr>) s)"
  have v: "sender_view (tcp_mem ?s a) = sender_view (tcp_mem s a)" "sender_view (tcp_mem ?s2 a) = sender_view (tcp_mem s a)"
    by (simp_all add: sender_view_def)
  have ok2: "sender_ok W iss (tcp_mem ?s2 a)" by (rule sender_ok_view [OF v(2) [symmetric] assms(2)])
  from assms(1) have "s' = ?s \<or> s' = ?s2 \<or> s' = set_tcb a inflate ?s2 \<or> (\<exists>s3. tcp_rexmit a ?s2 = Some s3 \<and> s' = set_tcb a enter_fast_recovery s3)"
    unfolding duplicate_ack_def Let_def by (simp split: if_splits; blast)
  then show ?thesis
  proof (elim disjE exE conjE)
    fix s3 assume r: "tcp_rexmit a ?s2 = Some s3" and s': "s' = set_tcb a enter_fast_recovery s3"
    have "sender_view (tcp_mem s' a) = sender_view (tcp_mem s3 a)" by (simp add: s' enter_fast_recovery_view)
    then show ?thesis
      using rexmit_keeps [OF r ok2] sender_ok_view [of "tcp_mem s3 a" "tcp_mem s' a" W iss] view_fields [of "tcp_mem s' a"] view_fields [OF v(2)] by metis
  qed (use assms(2) ok2 v sender_ok_view [OF v(1) [symmetric] assms(2)] sender_ok_view [OF inflate_view [symmetric] ok2] view_fields [OF inflate_view, of "tcp_mem ?s2 a"] in simp_all)
qed

lemma bind_SomeE:
  assumes "X \<bind> (\<lambda>x. Some (f x)) = Some y"
  obtains x where "X = Some x" "y = f x"
  using assms by (cases X) simp_all

lemma receive_ack_keeps:
  assumes ok: "sender_ok W iss (tcp_mem s a)" and M: "in_ackno i = iss + of_nat M" "M < 2 ^ 31"
    and ack: "receive_ack i a s = Some s'"
  shows "sender_ok W iss (tcp_mem s' a)"
proof -
  let ?s = "set_tcb a (window_update i) s"
  have v: "sender_view (tcp_mem ?s a) = sender_view (tcp_mem s a)" by (simp add: window_update_view)
  have ok1: "sender_ok W iss (tcp_mem ?s a)" by (rule sender_ok_view [OF v [symmetric] ok])
  then obtain A N where w: "window_ok W iss (tcp_mem ?s a) A N" and W: "length W < 2 ^ 31" by (auto simp: sender_ok_def)
  then have A: "A \<le> N" "N \<le> length W" "lastack (tcp_mem ?s a) = iss + of_nat A" "snd_nxt (tcp_mem ?s a) = iss + of_nat N"
    by (simp_all add: window_ok_def)
  let ?a = "iss + of_nat M" and ?edge = "ucast (snd_wnd (tcp_mem s a)) + snd_wl2 (tcp_mem s a)"
  let ?X = "if lastack (tcp_mem ?s a) = ?a then duplicate_ack ?edge a ?s
      else if TCP_SEQ_BETWEEN ?a (lastack (tcp_mem ?s a) + 1) (snd_nxt (tcp_mem ?s a)) then new_ack ?a a ?s
      else Some (set_tcb a (\<lambda>t. t\<lparr>acked := 0\<rparr>) ?s)"
  have "?X \<bind> (\<lambda>s1. Some (set_tcb a (round_trip (tcp_ticks (drop_unsent ?a a s1)) ?a) (drop_unsent ?a a s1))) = Some s'"
    using ack by (simp only: receive_ack_def Let_def M(1))
  then obtain s1 where s1: "?X = Some s1" and s': "s' = set_tcb a (round_trip (tcp_ticks (drop_unsent ?a a s1)) ?a) (drop_unsent ?a a s1)"
    by (rule bind_SomeE)
  have "sender_ok W iss (tcp_mem s1 a) \<and> (\<exists>B \<le> length W. lastack (tcp_mem s1 a) = iss + of_nat B
      \<and> (M \<le> B \<or> \<not> TCP_SEQ_LEQ ?a (snd_nxt (tcp_mem s1 a))))"
  proof (cases "lastack (tcp_mem ?s a) = ?a")
    case True
    have "iss + of_nat A = iss + (of_nat M :: u32)" using A(3) True by (simp only:)
    then have m: "M = A" using seq_eq [of A M iss] A(1,2) M(2) W by linarith
    have "duplicate_ack ?edge a ?s = Some s1" using s1 by (simp only: True if_True simp_thms)
    then show ?thesis using duplicate_ack_keeps [OF _ ok1] A m by (metis order.trans order.refl)
  next
    case False
    have suc: "iss + of_nat A + 1 = iss + of_nat (Suc A)" by (simp add: add.assoc add.commute [of 1])
    have "Suc A < 2 ^ 31 \<or> Suc A = 2 ^ 31" using A(1,2) W by linarith
    then have btw: "TCP_SEQ_BETWEEN ?a (iss + of_nat A + 1) (iss + of_nat N) \<longleftrightarrow> A < M \<and> M \<le> N"
    proof
      assume "Suc A < 2 ^ 31"
      then show ?thesis
        using seq_cmp(1) [of M "Suc A" iss] seq_cmp(4) [of M N iss] A(1,2) W M(2) unfolding TCP_SEQ_BETWEEN_def suc by linarith
    next
      assume e: "Suc A = 2 ^ 31"
      have "unat (of_nat M :: u32) = M" "unat (of_nat (Suc A) :: u32) = 2 ^ 31" using M(2) unfolding e by (simp_all add: unat_of_nat_u32)
      then have "\<not> TCP_SEQ_GEQ ?a (iss + of_nat (Suc A))"
        using M(2) by (simp only: TCP_SEQ_GEQ_unat seq_diff unat_diff_u32 word_le_nat_alt) simp
      moreover have "\<not> A < M" using e M(2) by simp
      ultimately show ?thesis unfolding TCP_SEQ_BETWEEN_def suc by simp
    qed
    show ?thesis
    proof (cases "A < M \<and> M \<le> N")
      case True
      then have "new_ack ?a a ?s = Some s1" using s1 unfolding A(3,4) btw by (simp only: False [unfolded A(3)] if_False if_True simp_thms)
      from new_ack_keeps [OF ok1 w _ _ this] True A show ?thesis by (intro conjI exI [of _ M]) (simp_all add: window_ok_def)
    next
      case nb: False
      then have "s1 = set_tcb a (\<lambda>t. t\<lparr>acked := 0\<rparr>) ?s"
        using s1 unfolding A(3,4) btw by (simp only: False [unfolded A(3)] if_False simp_thms option.inject)
      then have v1: "sender_view (tcp_mem s1 a) = sender_view (tcp_mem ?s a)" by (simp add: sender_view_def)
      have "M \<le> A \<or> \<not> TCP_SEQ_LEQ ?a (snd_nxt (tcp_mem s1 a))"
        using nb seq_cmp(4) [of M N iss] A W M(2) view_fields [OF v1] by auto
      then show ?thesis using sender_ok_view [OF v1 [symmetric] ok1] view_fields [OF v1] A by (intro conjI exI [of _ A]) auto
    qed
  qed
  then obtain B where B: "sender_ok W iss (tcp_mem s1 a)" "B \<le> length W" "lastack (tcp_mem s1 a) = iss + of_nat B"
    "M \<le> B \<or> \<not> TCP_SEQ_LEQ ?a (snd_nxt (tcp_mem s1 a))" by blast
  have "sender_view (tcp_mem s' a) = sender_view (tcp_mem (drop_unsent ?a a s1) a)"
    unfolding s' by (simp add: round_trip_def Let_def sender_view_def)
  then show ?thesis using sender_ok_view [OF _ drop_unsent_keeps [OF B(1,3,2) M(2) B(4)]] by metis
qed

section \<open>A connection that sends\<close>

text \<open>
  What can happen to the sender of the block \<open>a\<close>, in any order, beginning with empty queues: the application
  writes or is refused, a SYN or a FIN is queued, segments are sent, acknowledgements arrive, segments
  are sent again by the timer or after duplicate acknowledgements, and all that leaves the sender alone.  One thing is left
  out, because it does change data (\<open>rexmit_joins_wrong\<close>; \<open>tcp_out.c\<close> line 838): a write whose first bytes the code joins to a
  last unsent segment (\<open>joins_last\<close>) that does not end where the stream ends, but is one that a retransmission has queued
  again and that could not be sent.  A SYN or a FIN is never joined (\<open>control_not_joined\<close>), nor is a write that does not fit into the segment.
\<close>

inductive sending :: "octet list \<Rightarrow> u32 \<Rightarrow> nat \<Rightarrow> 'a tcp \<Rightarrow> bool" where
  sends_start: "sender_view (tcp_mem s a) = (iss, iss, iss, TCP_SND_BUF, [], []) \<Longrightarrow> sending [] iss a s"
| sends_write: "sending W iss a s \<Longrightarrow>
    (joins_last (tcp_mem s a) 0 0 (of_nat (length xs)) \<Longrightarrow> ends_at (unsent (tcp_mem s a)) (snd_lbb (tcp_mem s a))) \<Longrightarrow> length xs < 2 ^ 16
    \<Longrightarrow> length W + length xs < 2 ^ 31 \<Longrightarrow> tcp_write a xs api s = (ERR_OK, s') \<Longrightarrow> sending (W @ map Octet xs) iss a s'"
| sends_ctrl: "sending W iss a s \<Longrightarrow>
    (joins_last (tcp_mem s a) fl opt 0 \<Longrightarrow> ends_at (unsent (tcp_mem s a)) (snd_lbb (tcp_mem s a))) \<Longrightarrow> ctrl_flags fl opt
    \<Longrightarrow> LWIP_TCP_OPT_LENGTH opt \<le> unat (t_mss (tcp_mem s a)) \<Longrightarrow> Suc (length W) < 2 ^ 31
    \<Longrightarrow> tcp_enqueue a None 0 fl api opt s = (ERR_OK, s') \<Longrightarrow> sending (W @ framed fl []) iss a s'"
| sends_refused: "sending W iss a s \<Longrightarrow> tcp_enqueue a arg len fl api opt s = (e, s') \<Longrightarrow> e \<noteq> ERR_OK \<Longrightarrow> sending W iss a s'"
| sends_output: "sending W iss a s \<Longrightarrow> tcp_output a s = Some (e, s') \<Longrightarrow> sending W iss a s'"
| sends_ack: "sending W iss a s \<Longrightarrow> in_ackno i = iss + of_nat M \<Longrightarrow> M < 2 ^ 31 \<Longrightarrow> receive_ack i a s = Some s' \<Longrightarrow> sending W iss a s'"
| sends_timeout: "sending W iss a s \<Longrightarrow> tcp_rexmit_rto a s = Some s' \<Longrightarrow> sending W iss a s'"
| sends_rexmit: "sending W iss a s \<Longrightarrow> tcp_rexmit a s = Some s' \<Longrightarrow> sending W iss a s'"
| sends_other: "sending W iss a s \<Longrightarrow> sender_view (tcp_mem s' a) = sender_view (tcp_mem s a) \<Longrightarrow> sending W iss a s'"

lemma write_extends:
  assumes "sender_ok W iss (tcp_mem s a)"
    and "joins_last (tcp_mem s a) 0 0 (of_nat (length xs)) \<Longrightarrow> ends_at (unsent (tcp_mem s a)) (snd_lbb (tcp_mem s a))" "length xs < 2 ^ 16"
    and "length W + length xs < 2 ^ 31" "tcp_write a xs api s = (ERR_OK, s')"
  shows "sender_ok (W @ map Octet xs) iss (tcp_mem s' a)"
proof (cases "xs = []")
  case True
  then show ?thesis using assms(1,5) by (auto simp: tcp_write_def split: if_splits)
next
  case False
  then have enq: "tcp_enqueue a (Some xs) (of_nat (length xs)) 0 api 0 s = (ERR_OK, s')"
    using assms(5) by (auto simp: tcp_write_def split: if_splits)
  have "length (arg_bytes (Some xs)) = unat (of_nat (length xs) :: u16)" using assms(3) by (simp add: arg_bytes_def unat_of_nat_u16)
  then show ?thesis
    using enqueue_extends(1) [OF assms(1,2) enq] assms(4) by (simp add: framed_def arg_bytes_def LWIP_TCP_OPT_LENGTH_def ctrl_flags_def)
qed

lemma sending_ok: "sending W iss a s \<Longrightarrow> sender_ok W iss (tcp_mem s a)"
proof (induction rule: sending.induct)
  case (sends_start s a iss)
  then show ?case by (simp add: sender_view_def sender_ok_def window_ok_def)
next
  case (sends_write W iss a s xs api s')
  then show ?case using write_extends by blast
next
  case (sends_ctrl W iss a s fl opt api s')
  have L: "length W + length (framed fl (arg_bytes None)) < 2 ^ 31" using sends_ctrl(3,5) by (auto simp: framed_def arg_bytes_def ctrl_flags_def)
  show ?case using enqueue_extends(1) [OF sends_ctrl.IH sends_ctrl(2,6)] sends_ctrl(3,4) L by (simp add: arg_bytes_def)
next
  case (sends_refused W iss a s arg len fl api opt e s')
  then show ?case using sender_ok_view enqueue_fails by metis
next
  case (sends_output W iss a s e s')
  then show ?case using output_keeps keeps_ok by blast
next
  case (sends_ack W iss a s i M s')
  then show ?case using receive_ack_keeps by blast
next
  case (sends_timeout W iss a s s')
  then show ?case using rexmit_rto_keeps by blast
next
  case (sends_rexmit W iss a s s')
  then show ?case using rexmit_keeps by blast
next
  case (sends_other W iss a s s')
  then show ?case using sender_ok_view by metis
qed

text \<open>
  C2: Nothing that was written is lost or changed before it is acknowledged, as long as no write is joined to a segment that is
  not the last of the stream.  In any order of writes that keep to that (the guard of \<open>sending\<close>), output, acknowledgements and
  retransmissions, every queued segment holds what the stream has at its sequence number, every octet from the last acknowledged
  one to the end of the stream is in a queued segment, and the free space of the send buffer is what is left beside these octets.
  Without the guard it is false: after a fast retransmission whose segment stays unsent, the code joins the next write to it
  (\<open>rexmit_joins_wrong\<close>; \<open>tcp_out.c\<close> line 838).
\<close>

theorem sender_stream:
  assumes "sending W iss a s"
  shows "\<exists>A \<le> length W. lastack (tcp_mem s a) = iss + of_nat A \<and> snd_lbb (tcp_mem s a) = iss + of_nat (length W)
    \<and> snd_buf (tcp_mem s a) = TCP_SND_BUF - of_nat (length W - A)
    \<and> (\<forall>sg \<in> set (unacked (tcp_mem s a) @ unsent (tcp_mem s a)). \<exists>pos. slice_at W iss sg pos)
    \<and> (\<forall>p \<in> {A..<length W}. \<exists>sg \<in> set (unacked (tcp_mem s a) @ unsent (tcp_mem s a)).
         \<exists>pos. slice_at W iss sg pos \<and> p \<in> {pos..<pos + length (seg_octets sg)})"
proof -
  have ok: "sender_ok W iss (tcp_mem s a)" using assms by (rule sending_ok)
  then obtain A N where "window_ok W iss (tcp_mem s a) A N" by (auto simp: sender_ok_def)
  then show ?thesis
    using ok by (intro exI [of _ A] conjI) (auto simp: sender_ok_def window_ok_def slices_def holds_octet_def covers_def)
qed

text \<open>A connection that writes three bytes.\<close>

definition sender_conn :: "unit tcp" where
  "sender_conn = set_tcb 0 (\<lambda>_. (tcb_init 7 0)\<lparr>t_state := ESTABLISHED\<rparr>) (open_conn ())"

lemma sender_conn_writes:
  "\<exists>s. tcp_write 0 [1, 2, 3] TCP_WRITE_FLAG_COPY sender_conn = (ERR_OK, s)"
  by (simp add: tcp_write_def sender_conn_def open_conn_def set_tcb_def tcb_init_def tcb_zero_def tcp_enqueue_def enqueue_loop.simps
    enqueue_seg_def tcp_try_alloc_def try_alloc_def host_def Let_def LWIP_TCP_OPT_LENGTH_def seg_length_def TCP_MSS_def TCP_SND_BUF_def
    TCP_SND_QUEUELEN_def TCP_WRITE_FLAG_COPY_def append_queue_def)

theorem sender_stream_witness:
  "\<exists>s A. tcp_write 0 [1, 2, 3] TCP_WRITE_FLAG_COPY sender_conn = (ERR_OK, s) \<and> A \<le> 3 \<and> lastack (tcp_mem s 0) = 7 + of_nat A
     \<and> snd_buf (tcp_mem s 0) = TCP_SND_BUF - of_nat (3 - A)"
proof -
  obtain s where s: "tcp_write 0 [1, 2, 3] TCP_WRITE_FLAG_COPY sender_conn = (ERR_OK, s)" using sender_conn_writes by blast
  have "sending [] 7 0 sender_conn"
    by (rule sends_start) (simp add: sender_conn_def sender_view_def tcb_init_def tcb_zero_def)
  then have "sending ([] @ map Octet [1, 2, 3]) 7 0 s"
    by (rule sends_write [OF _ _ _ _ s]) (simp_all add: sender_conn_def ends_at_def tcb_init_def tcb_zero_def)
  from sender_stream [OF this] obtain A where A: "A \<le> length ([] @ map Octet [1, 2, 3])" "lastack (tcp_mem s 0) = 7 + of_nat A"
    "snd_buf (tcp_mem s 0) = TCP_SND_BUF - of_nat (length ([] @ map Octet [1, 2, 3]) - A)" by blast
  show ?thesis by (rule exI [of _ s], rule exI [of _ A]) (use s A in simp)
qed

text \<open>
  The third duplicate acknowledgement queues the first of two segments again, while its packet is processed.  What
  the application writes in the call for the packet's data is then joined to that segment: the
  byte 9 gets the number of the byte 2.
\<close>

definition two_sent :: "unit tcp" where
  "two_sent = (let b = (\<lambda>x. [\<lparr>btype = PBUF_RAM, front = replicate 54 0, body = [x]\<rparr>]);
       sg = (\<lambda>n x. \<lparr>seg_p = b x, seg_len = 1, seg_flags = 0, tcphdr = \<lparr>th_src = 0, th_dest = 0, th_seqno = n, th_ackno = 0, th_hdrlen = 5,
         th_flags = TCP_ACK, th_wnd = 0\<rparr>\<rparr>)
     in set_tcb 0 (\<lambda>t. t\<lparr>unacked := [sg 7 1, sg 8 2], snd_nxt := 9, snd_lbb := 9, snd_buf := TCP_SND_BUF - 2, snd_queuelen := 2, dupacks := 2\<rparr>)
          (sender_conn\<lparr>tcp_input_pcb := Some 0\<rparr>))"

lemma rexmit_joins_wrong:
  "\<exists>s1 s2. duplicate_ack 7 0 two_sent = Some s1 \<and> tcp_write 0 [9] TCP_WRITE_FLAG_COPY s1 = (ERR_OK, s2)
     \<and> map (\<lambda>sg. (seg_seqno sg, seg_octets sg)) (unsent (tcp_mem s2 0)) = [(7, [Octet 1, Octet 9])]"
  by (simp add: tcp_write_def two_sent_def sender_conn_def open_conn_def set_tcb_def tcb_init_def tcb_zero_def tcp_enqueue_def enqueue_loop.simps
    enqueue_seg_def tcp_try_alloc_def try_alloc_def host_def Let_def LWIP_TCP_OPT_LENGTH_def seg_length_def TCP_MSS_def TCP_SND_BUF_def
    TCP_SND_QUEUELEN_def TCP_WRITE_FLAG_COPY_def append_queue_def duplicate_ack_def tcp_rexmit_def insert_seg_def joins_def TCP_TCPLEN_def
    enter_fast_recovery_def push_last_def TCPH_SET_FLAG_def strip_header_def seg_octets_def framed_def seg_data_def contents_def
    TCP_SYN_def TCP_FIN_def TCP_ACK_def TCP_PSH_def TCP_WRITE_FLAG_MORE_def TF_INFR_def ram_buf_def)

end
