(* ===== verification/GreetServer.thy ===== *)
theory GreetServer
  imports TcpRecv Telnet
begin

text \<open>
  The greeting server of \<open>port/helloworld.c\<close> on top of TCP: its callbacks are the functions of \<open>Telnet\<close>, and
  what they do with the control block and the buffers is done by the operations of \<open>TcpConn\<close> and \<open>TcpOut\<close>.
  The state of the application is the structures with the names; the argument of a
  connection is 0 or the number of its structure, counted from 1.
\<close>

definition name_at :: "nat \<Rightarrow> name option list \<Rightarrow> name option" where
  "name_at arg st = (if arg = 0 \<or> length st < arg then None else st ! (arg - 1))"

definition put_name :: "nat \<Rightarrow> name option \<Rightarrow> name option list \<Rightarrow> name option list" where
  "put_name arg n st = (if arg = 0 then st else st[arg - 1 := n])"

definition run_telnet_op :: "nat \<Rightarrow> nat \<Rightarrow> chain option \<Rightarrow> telnet_op \<Rightarrow> name option list tcp \<Rightarrow> name option list tcp option" where
  "run_telnet_op a arg p x s =
     (case x of
        Tcp_recved n \<Rightarrow> tcp_recved a (of_nat n) s
      | Pbuf_free \<Rightarrow> Some (free_refused p s)
      | Tcp_write xs \<Rightarrow> Some (snd (tcp_write a xs TCP_WRITE_FLAG_COPY s))
      | Mem_free_name \<Rightarrow> Some (s\<lparr>app_state := put_name arg None (app_state s)\<rparr>)
      | Tcp_close \<Rightarrow> map_option snd (tcp_close a s)
      | LCD_Line5 _ \<Rightarrow> Some s
      | Set_arg None \<Rightarrow> Some (tcp_arg a 0 s)
      | Set_arg (Some n) \<Rightarrow> Some (tcp_arg a (length (app_state s) + 1) (s\<lparr>app_state := app_state s @ [Some n]\<rparr>))
      | Set_err \<Rightarrow> Some (tcp_err a (Cb 0) s)
      | Set_recv \<Rightarrow> Some (tcp_recv a (Cb 0) s))"

fun run_telnet_ops :: "nat \<Rightarrow> nat \<Rightarrow> chain option \<Rightarrow> telnet_op list \<Rightarrow> name option list tcp \<Rightarrow> name option list tcp option" where
  "run_telnet_ops a arg p [] s = Some s"
| "run_telnet_ops a arg p (x # xs) s = run_telnet_op a arg p x s \<bind> run_telnet_ops a arg p xs"

text \<open>\<open>answer\<close>, \<open>title\<close>, \<open>login\<close> and \<open>prompt\<close> are the texts of the server.\<close>

definition greeting_server :: "u8 list \<Rightarrow> u8 list \<Rightarrow> string \<Rightarrow> u8 list \<Rightarrow> name option list tcp_app" where
  "greeting_server answer title login prompt ev s =
     (case ev of
        Ev_recv c arg a p err \<Rightarrow>
          (let close_err = (case tcp_close a s of None \<Rightarrow> ERR_OK | Some (e, _) \<Rightarrow> e);
               (e, n, ops) = HelloWorld_recv answer close_err (name_at arg (app_state s)) (map_option (map body) p) err
           in map_option (\<lambda>s'. (e, s'\<lparr>app_state := put_name arg n (app_state s)\<rparr>)) (run_telnet_ops a arg p ops s))
      | Ev_accept c arg a err \<Rightarrow>
          (let (ok, s) = tcp_try_alloc s in
           case HelloWorld_accept title login prompt (t_remote_ip (tcp_mem s a)) ok of
             None \<Rightarrow> None
           | Some ops \<Rightarrow> map_option (\<lambda>s. (ERR_OK, s)) (run_telnet_ops a arg None ops s))
      | Ev_err c arg err \<Rightarrow> map_option (\<lambda>s. (ERR_OK, s)) (run_telnet_ops 0 arg None HelloWorld_conn_err s)
      | _ \<Rightarrow> Some (ERR_OK, s))"

text \<open>Bytes that end no line are only collected.\<close>

definition collects :: "nat \<Rightarrow> u8 list \<Rightarrow> name option list \<Rightarrow> name option list" where
  "collects arg d st = put_name arg (map_option (\<lambda>n. fst (collect d n False)) (name_at arg st)) st"

lemma name_at_put: "name_at arg st \<noteq> None \<Longrightarrow> name_at arg (put_name arg n st) = n"
  by (auto simp: name_at_def put_name_def split: if_splits)

lemma collect_quiet: "\<forall>x\<in>set d. x \<noteq> CR \<and> x \<noteq> LF \<Longrightarrow> \<not> snd (collect d n False)"
  by (induction d arbitrary: n) (auto simp: Let_def)

interpretation greet: stream_reader "greeting_server answer title login prompt" c arg "\<lambda>_. True" "\<lambda>x. x \<noteq> CR \<and> x \<noteq> LF"
    "\<lambda>st. name_at arg st \<noteq> None" "collects arg" True
  for answer title login prompt c arg
proof unfold_locales
  fix p :: chain and a and s :: "name option list tcp"
  assume q: "\<forall>x\<in>set (contents p). x \<noteq> CR \<and> x \<noteq> LF" "name_at arg (app_state s) \<noteq> None"
  then obtain n where n: "name_at arg (app_state s) = Some n" by blast
  have "concat (map body p) = contents p" by (simp add: contents_def)
  moreover obtain n' where n': "collect (contents p) n False = (n', False)" using collect_quiet [OF q(1)] by (metis prod.collapse)
  moreover have len: "of_nat (length (contents p)) = chain_len p" by (simp add: chain_len_def)
  ultimately have "HelloWorld_recv answer ce (Some n) (Some (map body p)) ERR_OK
      = (ERR_OK, Some n', [Tcp_recved (length (contents p)), Pbuf_free])" for ce
    by (simp add: HelloWorld_recv_def collect_chain_concat)
  then show "greeting_server answer title login prompt (Ev_recv c arg a (Some p) ERR_OK) s
    = map_option (\<lambda>s'. (ERR_OK, tcp_log (Free_chain p) (s'\<lparr>app_state := collects arg (contents p) (app_state s)\<rparr>)))
        (if True then tcp_recved a (chain_len p) s else Some s)"
    using n n' by (cases "tcp_recved a (chain_len p) s")
      (simp_all add: greeting_server_def run_telnet_op_def len free_refused_def tcp_log_def collects_def)
next
  fix st :: "name option list" and d
  assume "name_at arg st \<noteq> None"
  then show "name_at arg (collects arg d st) \<noteq> None" by (simp add: collects_def name_at_put)
qed

lemma fold_collects:
  assumes "name_at arg st = Some n" "holding cs n" "no_eol (concat ds)"
  shows "\<exists>n'. name_at arg (fold (collects arg) ds st) = Some n' \<and> holding (cs @ concat ds) n'"
  using assms
proof (induction ds arbitrary: st n cs)
  case (Cons d ds)
  have e: "no_eol d" "no_eol (concat ds)" using Cons.prems(3) by (simp_all add: no_eol_def)
  have "name_at arg (collects arg d st) = Some (fst (collect d n False))"
    using Cons.prems(1) name_at_put [of arg st] by (simp add: collects_def)
  from Cons.IH [OF this _ e(2)] show ?case using collect_no_eol [OF Cons.prems(2) e(1)] by fastforce
qed simp

text \<open>
  While a client types a line, its segments lost, doubled, cut differently and out of order, the
  structure of the connection holds exactly the part of the line that has arrived without a gap (the
  first 32 bytes of it), the window is wide open again after each segment, and nothing is answered.
\<close>

theorem greeting_collects:
  assumes "receiving c arg a s" "rcv_nxt (tcp_mem s a) = irs" "rcv_wnd (tcp_mem s a) = TCP_WND" "length line + 70000 < 2 ^ 31"
    and "name_at arg (app_state s) = Some n" "holding [] n" "no_eol line"
    and "list_all2 (\<lambda>(pos, n) i. data_in line irs (lastack (tcp_mem s a)) pos n i \<and> n \<le> unat TCP_WND) ps is"
  defines "k \<equiv> foldl (\<lambda>k (pos, n). reached pos n False k) 0 ps"
  shows "\<exists>s' n'. input_all (greeting_server answer title login prompt) is a s = Some s' \<and> receiving c arg a s'
    \<and> name_at arg (app_state s') = Some n' \<and> holding (take k line) n'
    \<and> rcv_nxt (tcp_mem s' a) = irs + of_nat k \<and> rcv_wnd (tcp_mem s' a) = TCP_WND"
proof -
  have q: "name_at arg (app_state s) \<noteq> None" "\<forall>x\<in>set line. x \<noteq> CR \<and> x \<noteq> LF" using assms(5,7) by (auto simp: no_eol_def)
  have 0: "rcv_nxt (tcp_mem s a) = irs + of_nat 0" using assms(2) by simp
  have "list_all2 (\<lambda>(pos, n) i. data_in line irs (lastack (tcp_mem s a)) pos n i \<and> n \<le> unat TCP_WND \<and> True) ps is" using assms(8) by simp
  from greet.reads_stream [OF assms(1) q(1) TrueI q(2) 0 _ assms(4,3) this, of answer title login prompt] obtain s' ds where
    s': "input_all (greeting_server answer title login prompt) is a s = Some s'" "receiving c arg a s'" "rcv_nxt (tcp_mem s' a) = irs + of_nat k"
      "rcv_wnd (tcp_mem s' a) = TCP_WND" "app_state s' = fold (collects arg) ds (app_state s)" "concat ds = take k line"
    by (auto simp: k_def)
  have "no_eol (concat ds)" using assms(7) unfolding s'(6) no_eol_def by (meson in_set_takeD)
  from fold_collects [OF assms(5,6) this] show ?thesis using s' by auto
qed

text \<open>Two overlapping segments of a line, the second one first.\<close>

theorem greeting_collects_witness:
  "\<exists>s' n'. input_all (greeting_server [1] [2] ''abc'' [3]) (map (\<lambda>(pos, n). data_segment [65, 66, 67, 68] pos n) [(1, 3), (0, 2), (1, 3)]) 0
      (open_conn [Some \<lparr>name_length = 0, bytes = replicate 32 0\<rparr>]) = Some s'
    \<and> name_at 1 (app_state s') = Some n' \<and> holding [65, 66, 67, 68] n'"
proof -
  let ?n = "\<lparr>name_length = 0, bytes = replicate 32 0\<rparr>" and ?l = "[65, 66, 67, 68] :: u8 list"
  let ?s = "open_conn [Some ?n] :: name option list tcp" and ?ps = "[(1, 3), (0, 2), (1, 3)] :: (nat \<times> nat) list"
  have "list_all2 (\<lambda>(pos, n) i. data_in ?l 1000 (lastack (tcp_mem ?s 0)) pos n i \<and> n \<le> unat TCP_WND) ?ps
      (map (\<lambda>(pos, n). data_segment ?l pos n) ?ps)"
    using data_segment_in [of 1 3 ?l] data_segment_in [of 0 2 ?l] by (simp add: receiving_open_conn TCP_WND_def)
  moreover have "receiving 0 1 0 ?s" "rcv_nxt (tcp_mem ?s 0) = 1000" "rcv_wnd (tcp_mem ?s 0) = TCP_WND" "length ?l + 70000 < 2 ^ 31"
    by (simp_all add: receiving_open_conn del: One_nat_def)
  moreover have "name_at 1 (app_state ?s) = Some ?n" "holding [] ?n" "no_eol ?l"
    by (simp_all add: receiving_open_conn name_at_def holding_def no_eol_def MAX_NAME_SIZE_def CR_def LF_def)
  ultimately show ?thesis
    using greeting_collects [of 0 1 0 ?s 1000 ?l ?n ?ps "map (\<lambda>(pos, n). data_segment ?l pos n) ?ps" "[1]" "[2]" "''abc''" "[3]"]
    by (auto simp: reached_def)
qed

end
