(* ===== verification/TcpEnd.thy ===== *)
theory TcpEnd
  imports TcpSend GreetServer
begin

text \<open>
  Both ends of a connection together: a host that sends with the operations of \<open>TcpSend\<close>, the packets on
  their way, and the server that reads them.
\<close>

section \<open>From the queue to the other end\<close>

text \<open>The block \<open>b\<close> of the state \<open>t\<close> sends \<open>sg\<close>: a segment of its queue, as \<open>tcp_output\<close> completes it.\<close>

definition transmits :: "nat \<Rightarrow> 'a tcp \<Rightarrow> tcp_seg \<Rightarrow> bool" where
  "transmits b t sg \<longleftrightarrow> t_state (tcp_mem t b) \<noteq> SYN_SENT
     \<and> (\<exists>x \<in> set (unsent (tcp_mem t b)). \<exists>xs t'. tcp_output_segment (to_send b x t) b (before_send b xs t) = Some (sg, t'))"

text \<open>
  What \<open>tcp_input\<close> makes of the packet of \<open>sg\<close> at the other end, where it is in other buffers, the first of
  which has the header.
\<close>

definition arrives :: "tcp_seg \<Rightarrow> segment_in \<Rightarrow> bool" where
  "arrives sg i \<longleftrightarrow> (\<exists>q r iphdr. q \<noteq> [] \<and> TCP_HLEN \<le> length (first q) \<and> contents q = contents (with_tcphdr (tcphdr sg) (seg_p sg))
     \<and> chain_header (- (int (unat (th_hdrlen (tcp_hdr_of (first q)))) * 4)) q = Some r \<and> i = segment_of q r iphdr)"

lemma transmits_slice:
  assumes "transmits b t sg" "sending W iss b t"
  shows "(\<exists>pos. slice_at W iss sg pos) \<and> th_flags (tcphdr sg) AND TCP_ACK \<noteq> 0 \<and> th_ackno (tcphdr sg) = rcv_nxt (tcp_mem t b)"
proof -
  obtain x xs t' where x: "x \<in> set (unsent (tcp_mem t b))"
    "tcp_output_segment (to_send b x t) b (before_send b xs t) = Some (sg, t')" and st: "t_state (tcp_mem t b) \<noteq> SYN_SENT"
    using assms(1) by (auto simp: transmits_def)
  obtain pos where pos: "slice_at W iss x pos" using sending_ok [OF assms(2)] x(1) by (auto simp: sender_ok_def slices_def)
  have s: "sound_seg x" using pos by (simp add: slice_at_def)
  have f: "same_slice x (to_send b x t)"
    using same_slice_flag [OF s, of TCP_ACK] st by (simp add: to_send_def TCP_ACK_def TCP_SYN_def TCP_FIN_def TCP_RST_def)
  have "same_slice (to_send b x t) sg" using output_segment_same [OF x(2)] f by (simp add: same_slice_def)
  then have "slice_at W iss sg pos" using same_slice_at [OF _ same_slice_at [OF f pos]] by simp
  moreover have "th_flags (tcphdr sg) = th_flags (tcphdr x) OR TCP_ACK \<and> th_ackno (tcphdr sg) = rcv_nxt (tcp_mem t b)"
    using x(2) st by (auto simp: tcp_output_segment_def Let_def to_send_def before_send_def TCPH_SET_FLAG_def split: option.splits if_splits)
  moreover have "(th_flags (tcphdr x) OR TCP_ACK) AND TCP_ACK = TCP_ACK" by (simp add: bit.conj_disj_distrib2)
  ultimately show ?thesis by (auto simp: TCP_ACK_def)
qed

text \<open>A slice of data is read back as data at the same place of the bytes that were written.\<close>

lemma slice_of_data:
  assumes "slice_at (Octet_syn # map Octet xs) iss sg pos" "seg_octets sg \<noteq> []" "th_flags (tcphdr sg) AND TCP_SYN = 0"
  shows "0 < pos" "seg_data sg = take (unat (seg_len sg)) (drop (pos - 1) xs)" "pos - 1 + unat (seg_len sg) \<le> length xs"
    "th_flags (tcphdr sg) AND TCP_FIN = 0"
proof -
  let ?W = "Octet_syn # map Octet xs"
  have s: "sound_seg sg" and e: "seg_octets sg = take (length (seg_octets sg)) (drop pos ?W)" and l: "pos + length (seg_octets sg) \<le> length ?W"
    using assms(1) by (simp_all add: slice_at_def)
  have syn: "Octet_syn \<notin> set (seg_octets sg)" using assms(3) by (auto simp: seg_octets_def framed_def)
  show p: "0 < pos"
  proof (rule ccontr)
    assume "\<not> 0 < pos"
    then have "seg_octets sg = take (length (seg_octets sg)) ?W" using e by simp
    then have "hd (seg_octets sg) = Octet_syn" using assms(2) by (metis hd_take length_greater_0_conv list.sel(1))
    then show False using syn assms(2) hd_in_set by metis
  qed
  then have d: "drop pos ?W = map Octet (drop (pos - 1) xs)" by (cases pos) (simp_all add: drop_map)
  have e: "seg_octets sg = take (length (seg_octets sg)) (map Octet (drop (pos - 1) xs))" using e unfolding d .
  have "Octet_fin \<notin> set (take n (map Octet ys))" for n ys by (auto dest!: in_set_takeD)
  then have "Octet_fin \<notin> set (seg_octets sg)" by (subst e)
  then show f: "th_flags (tcphdr sg) AND TCP_FIN = 0" by (auto simp: seg_octets_def framed_def split: if_splits)
  have o: "seg_octets sg = map Octet (seg_data sg)" using f assms(3) by (simp add: seg_octets_def framed_def)
  have "map Octet (seg_data sg) = map Octet (take (length (seg_data sg)) (drop (pos - 1) xs))"
    using e unfolding o by (simp add: take_map)
  moreover have "inj Octet" by (simp add: inj_def)
  ultimately have "seg_data sg = take (length (seg_data sg)) (drop (pos - 1) xs)" by (simp add: inj_map_eq_map)
  then show "seg_data sg = take (unat (seg_len sg)) (drop (pos - 1) xs)" using length_seg_data [OF s] by simp
  show "pos - 1 + unat (seg_len sg) \<le> length xs" using l p o length_seg_data [OF s] by simp
qed

lemma contents_Cons: "q \<noteq> [] \<Longrightarrow> contents q = first q @ contents (tl q)"
  by (cases q) (simp_all add: contents_def)

lemma arrives_data:
  assumes "slice_at (Octet_syn # map Octet xs) iss sg pos" "seg_octets sg \<noteq> []" "th_flags (tcphdr sg) AND TCP_SYN = 0"
    and "th_flags (tcphdr sg) AND TCP_ACK \<noteq> 0" "arrives sg i"
  shows "data_in xs (iss + 1) (th_ackno (tcphdr sg)) (pos - 1) (unat (seg_len sg)) i"
proof -
  note sl = slice_of_data [OF assms(1-3)]
  let ?h = "tcphdr sg"
  have s: "sound_seg sg" "seg_seqno sg = iss + of_nat pos" using assms(1) by (simp_all add: slice_at_def)
  then have opt: "LWIP_TCP_OPT_LENGTH (seg_flags sg) = 0" and h: "th_hdrlen ?h = 5" "unat (th_flags ?h) < 64" "th_flags ?h AND TCP_RST = 0"
    using assms(3) by (auto simp: sound_seg_def sound_hdr_def LWIP_TCP_OPT_LENGTH_def)
  obtain q r iphdr where q: "q \<noteq> []" "20 \<le> length (first q)" "contents q = contents (with_tcphdr ?h (seg_p sg))"
    "chain_header (- (int (unat (th_hdrlen (tcp_hdr_of (first q)))) * 4)) q = Some r" "i = segment_of q r iphdr"
    using assms(5) by (auto simp: arrives_def TCP_HLEN_def)
  have "contents (with_tcphdr ?h (seg_p sg)) = tcp_bytes ?h @ contents (seg_p sg)"
    using s(1) by (cases "seg_p sg") (simp_all add: with_tcphdr_def contents_def sound_seg_def)
  moreover have "contents (seg_p sg) = seg_data sg" by (simp add: seg_data_def opt)
  ultimately have c: "first q @ contents (tl q) = tcp_bytes ?h @ seg_data sg" using q(3) contents_Cons [OF q(1)] by simp
  then have "take 20 (first q) = tcp_bytes ?h" using q(2) by (metis append_eq_append_conv_if length_tcp_bytes)
  then obtain ys where f: "first q = tcp_bytes ?h @ ys" by (metis append_take_drop_id)
  have hdr: "tcp_hdr_of (first q) = ?h" unfolding f using h by (intro tcp_hdr_of_bytes) simp_all
  obtain b bs where b: "q = b # bs" using q(1) by (cases q) auto
  have "unat (th_hdrlen (tcp_hdr_of (first q))) = 5" unfolding hdr h(1) by simp
  from q(4) [unfolded this] have r: "r \<noteq> [] \<and> contents r = ys @ contents (tl q)"
    using f unfolding b by (auto simp: chain_header_def buf_header_def contents_def split: if_splits)
  have data: "contents r = seg_data sg" using r c f by simp
  have len: "length (seg_data sg) = unat (seg_len sg)" using s(1) by (rule length_seg_data)
  have "iss + of_nat pos = iss + 1 + of_nat (pos - 1)" using sl(1) by (cases pos) simp_all
  then show ?thesis
    using sl r data len h assms(3,4) s(2) unfolding q(5)
    by (simp add: data_in_def slice_in_def segment_of_def hdr chain_len_def Let_def fin_or_syn)
qed

section \<open>A line that is typed\<close>

text \<open>
  How far the packets have brought the reader of a stream that begins at the number \<open>irs\<close>: each one is at
  the position its number says.
\<close>

definition brought :: "u32 \<Rightarrow> segment_in list \<Rightarrow> nat" where
  "brought irs is = foldl (\<lambda>k i. reached (unat (in_seqno i - irs)) (unat (in_len i)) False k) 0 is"

lemma data_in_position:
  assumes "data_in st irs la pos n i" "length st < 2 ^ 31"
  shows "unat (in_seqno i - irs) = pos"
  using assms by (simp add: data_in_def slice_in_def unat_of_nat_u32)

lemma brought_le:
  assumes "\<forall>i\<in>set is. data_in st irs la (unat (in_seqno i - irs)) (unat (in_len i)) i" "k \<le> length st"
  shows "foldl (\<lambda>k i. reached (unat (in_seqno i - irs)) (unat (in_len i)) False k) k is \<le> length st"
  using assms
proof (induction "is" arbitrary: k)
  case (Cons i "is")
  have "reached (unat (in_seqno i - irs)) (unat (in_len i)) False k \<le> length st"
    using Cons.prems by (auto simp: reached_def data_in_def slice_in_def)
  then show ?case using Cons by simp
qed simp

text \<open>A packet of the client: it carries data, no more than the server's window.\<close>

definition data_packet :: "octet list \<Rightarrow> u32 \<Rightarrow> nat \<Rightarrow> 'b tcp \<Rightarrow> segment_in \<Rightarrow> bool" where
  "data_packet W iss b t i \<longleftrightarrow> sending W iss b t
     \<and> (\<exists>sg. transmits b t sg \<and> arrives sg i \<and> seg_octets sg \<noteq> [] \<and> th_flags (tcphdr sg) AND TCP_SYN = 0 \<and> seg_len sg \<le> TCP_WND)"

lemma data_packet_in:
  assumes "data_packet W iss b t i" "W @ V = Octet_syn # map Octet xs" "length xs < 2 ^ 31"
  shows "data_in xs (iss + 1) (rcv_nxt (tcp_mem t b)) (unat (in_seqno i - (iss + 1))) (unat (in_len i)) i \<and> unat (in_len i) \<le> unat TCP_WND"
proof -
  obtain sg where sg: "sending W iss b t" "transmits b t sg" "arrives sg i" "seg_octets sg \<noteq> []"
    "th_flags (tcphdr sg) AND TCP_SYN = 0" "seg_len sg \<le> TCP_WND" using assms(1) by (auto simp: data_packet_def)
  from transmits_slice [OF sg(2,1)] obtain pos where pos: "slice_at W iss sg pos" and fl: "th_flags (tcphdr sg) AND TCP_ACK \<noteq> 0"
    and ack: "th_ackno (tcphdr sg) = rcv_nxt (tcp_mem t b)" by blast
  have "slice_at (Octet_syn # map Octet xs) iss sg pos" using slice_at_append [OF pos, of V] assms(2) by simp
  from arrives_data [OF this sg(4,5) fl sg(3)] have d: "data_in xs (iss + 1) (rcv_nxt (tcp_mem t b)) (pos - 1) (unat (seg_len sg)) i"
    unfolding ack .
  moreover have "unat (in_len i) = unat (seg_len sg)" using d by (simp add: data_in_def slice_in_def)
  ultimately show ?thesis using data_in_position [OF d assms(3)] sg(6) by (simp add: word_le_nat_alt)
qed

text \<open>
  C1: From one end to the other: a client runs this TCP by the steps of \<open>sending\<close>, in any order (writes, output,
  acknowledgements, time-outs, retransmissions, but no write that the code joins to a segment that is not the last of the stream,
  which changes data: \<open>rexmit_joins_wrong\<close>, \<open>tcp_out.c\<close> line 838).  It sends a line without its end to the greeting server, which
  holds nothing of a line yet and whose answers it has acknowledged, and the packets of its data are lost, doubled, reordered and cut
  into buffers on their way.  Then the server has counted every octet of the part of the line that has arrived without a gap
  (\<open>rcv_nxt\<close>), the name it holds is the first 32 bytes of that part, in order and unchanged (all of it while it fits its
  buffer: \<open>holding\<close>), and its window is open.
\<close>

theorem tcp_line_end_to_end:
  assumes server: "receiving c arg a s" "rcv_nxt (tcp_mem s a) = iss + 1" "rcv_wnd (tcp_mem s a) = TCP_WND"
      "name_at arg (app_state s) = Some n" "holding [] n"
    and line: "no_eol line" "length line + 70000 < 2 ^ 31"
    and packets: "\<forall>i\<in>set is. \<exists>W V b t. W @ V = Octet_syn # map Octet line \<and> data_packet W iss b (t :: 'b tcp) i
      \<and> rcv_nxt (tcp_mem t b) = lastack (tcp_mem s a)"
  shows "\<exists>s' n'. input_all (greeting_server answer title login prompt) is a s = Some s' \<and> brought (iss + 1) is \<le> length line
    \<and> name_at arg (app_state s') = Some n' \<and> holding (take (brought (iss + 1) is) line) n'
    \<and> rcv_nxt (tcp_mem s' a) = iss + 1 + of_nat (brought (iss + 1) is) \<and> rcv_wnd (tcp_mem s' a) = TCP_WND"
proof -
  let ?p = "\<lambda>i. (unat (in_seqno i - (iss + 1)), unat (in_len i))"
  have d: "\<forall>i\<in>set is. data_in line (iss + 1) (lastack (tcp_mem s a)) (unat (in_seqno i - (iss + 1))) (unat (in_len i)) i
      \<and> unat (in_len i) \<le> unat TCP_WND"
    using packets data_packet_in line(2) by (metis add_lessD1)
  then have all: "list_all2 (\<lambda>(pos, n) i. data_in line (iss + 1) (lastack (tcp_mem s a)) pos n i \<and> n \<le> unat TCP_WND) (map ?p is) is"
    by (simp add: list.rel_map list_all2_same)
  have k: "foldl (\<lambda>k (pos, n). reached pos n False k) 0 (map ?p is) = brought (iss + 1) is"
    by (simp add: brought_def foldl_map)
  have "brought (iss + 1) is \<le> length line" unfolding brought_def using d by (intro brought_le [of _ _ _ "lastack (tcp_mem s a)"]) auto
  then show ?thesis
    using greeting_collects [OF server(1-3) line(2) server(4,5) line(1) all, of answer title login prompt] unfolding k by blast
qed

text \<open>A client that has opened a connection and has typed one byte.\<close>

definition client_conn :: "unit tcp" where
  "client_conn = set_tcb 0 (\<lambda>_. (tcb_init 999 0)\<lparr>t_state := ESTABLISHED, t_local_ip := 9\<rparr>) (open_conn ())"

definition typed_seg :: "chain \<Rightarrow> tcp_seg" where
  "typed_seg p = \<lparr>seg_p = p, seg_len = 1, seg_flags = 0, tcphdr = \<lparr>th_src = 0, th_dest = 0, th_seqno = 1000, th_ackno = 0, th_hdrlen = 5,
     th_flags = TCP_PSH, th_wnd = 0\<rparr>\<rparr>"

lemma client_types:
  "\<exists>s1 s2 b. tcp_enqueue 0 None 0 TCP_SYN TCP_WRITE_FLAG_COPY 0 client_conn = (ERR_OK, s1)
     \<and> ends_at (unsent (tcp_mem s1 0)) (snd_lbb (tcp_mem s1 0))
     \<and> tcp_write 0 [65] TCP_WRITE_FLAG_COPY s1 = (ERR_OK, s2)
     \<and> t_state (tcp_mem s2 0) = ESTABLISHED \<and> rcv_nxt (tcp_mem s2 0) = 0 \<and> t_local_ip (tcp_mem s2 0) = 9
     \<and> typed_seg [b] \<in> set (unsent (tcp_mem s2 0)) \<and> btype b = PBUF_RAM \<and> 40 \<le> length (front b) \<and> body b = [65]
     \<and> netif_list (tcp_ip s2) = netif_list (tcp_ip client_conn) \<and> netif_default (tcp_ip s2) = netif_default (tcp_ip client_conn)"
  by (simp add: tcp_write_def client_conn_def open_conn_def set_tcb_def tcb_init_def tcb_zero_def tcp_enqueue_def enqueue_loop.simps
    enqueue_seg_def tcp_try_alloc_def try_alloc_def host_def Let_def LWIP_TCP_OPT_LENGTH_def seg_length_def TCP_MSS_def TCP_SND_BUF_def
    TCP_SND_QUEUELEN_def TCP_WRITE_FLAG_COPY_def append_queue_def joins_def TCP_TCPLEN_def TCP_SYN_def TCP_FIN_def ends_at_def push_last_def
    TCP_WRITE_FLAG_MORE_def TCPH_SET_FLAG_def typed_seg_def TCP_PSH_def ram_buf_def header_offset_def align4_def SIZEOF_STRUCT_PBUF_def
    PBUF_TRANSPORT_HLEN_def PBUF_IP_HLEN_def PBUF_LINK_HLEN_def)

lemma client_sends:
  "\<exists>t sg i. sending [Octet_syn, Octet 65] 999 0 t \<and> transmits 0 (t :: unit tcp) sg \<and> arrives sg i \<and> seg_octets sg = [Octet 65]
     \<and> th_flags (tcphdr sg) AND TCP_SYN = 0 \<and> seg_len sg = 1 \<and> rcv_nxt (tcp_mem t 0) = 0"
proof -
  from client_types obtain s1 s2 b where s1: "tcp_enqueue 0 None 0 TCP_SYN TCP_WRITE_FLAG_COPY 0 client_conn = (ERR_OK, s1)"
      "ends_at (unsent (tcp_mem s1 0)) (snd_lbb (tcp_mem s1 0))" "tcp_write 0 [65] TCP_WRITE_FLAG_COPY s1 = (ERR_OK, s2)"
    and s2: "t_state (tcp_mem s2 0) = ESTABLISHED" "rcv_nxt (tcp_mem s2 0) = 0" "t_local_ip (tcp_mem s2 0) = 9"
      "typed_seg [b] \<in> set (unsent (tcp_mem s2 0))" and b: "btype b = PBUF_RAM" "40 \<le> length (front b)" "body b = [65]"
    and ip: "netif_list (tcp_ip s2) = netif_list (tcp_ip client_conn)" "netif_default (tcp_ip s2) = netif_default (tcp_ip client_conn)"
    by blast
  have "sending [] 999 0 client_conn"
    by (rule sends_start) (simp add: client_conn_def sender_view_def tcb_init_def tcb_zero_def)
  then have "sending ([] @ framed TCP_SYN []) 999 0 s1"
    by (rule sends_ctrl [OF _ _ _ _ _ s1(1)])
      (simp_all add: client_conn_def ends_at_def tcb_init_def tcb_zero_def ctrl_flags_def TCP_SYN_def TCP_FIN_def TCP_RST_def LWIP_TCP_OPT_LENGTH_def)
  then have "sending (([] @ framed TCP_SYN []) @ map Octet [65]) 999 0 s2"
    by (rule sends_write [OF _ s1(2) _ _ s1(3)]) (simp_all add: framed_def TCP_SYN_def TCP_FIN_def)
  then have snd: "sending [Octet_syn, Octet 65] 999 0 s2" by (simp add: framed_def TCP_SYN_def TCP_FIN_def)
  let ?x = "typed_seg [b]" and ?s = "before_send 0 [] s2"
  let ?h = "\<lparr>th_src = 0, th_dest = 0, th_seqno = 1000, th_ackno = 0, th_hdrlen = 5, th_flags = TCP_PSH OR TCP_ACK, th_wnd = rcv_ann_wnd (tcp_mem s2 0)\<rparr>"
  let ?sg = "\<lparr>seg_p = [b], seg_len = 1, seg_flags = 0, tcphdr = ?h\<rparr>" and ?p = "with_tcphdr ?h [b]"
  have wide: "wide client_conn" using receiving_open_conn(1) [of 0 "()"] by (simp add: client_conn_def receiving_def)
  let ?b = "b\<lparr>front := take (length (front b) - TCP_HLEN) (front b), body := tcp_bytes ?h @ body b\<rparr>"
  have p: "?p = [?b]" by (simp add: with_tcphdr_def)
  have out: "\<exists>s'. tcp_ip_output ?p src dest ttl tos u = Some s'"
    if "netif_list (tcp_ip u) = netif_list (tcp_ip s2)" "netif_default (tcp_ip u) = netif_default (tcp_ip s2)" for u :: "unit tcp" and src dest ttl tos
  proof -
    have "wide u" using that ip wide ip_route_cong [of "tcp_ip u" "tcp_ip client_conn"] by (simp add: wide_def)
    moreover have "has_room (btype ?b)" "20 \<le> length (front ?b)" "length (body ?b) \<le> 21" using b by (simp_all add: TCP_HLEN_def)
    ultimately show ?thesis unfolding p using tcp_ip_output_small by blast
  qed
  have "\<exists>t'. tcp_output_segment (to_send 0 ?x s2) 0 ?s = Some (?sg, t')"
    using s2 out by (simp add: tcp_output_segment_def to_send_def before_send_def TCPH_SET_FLAG_def typed_seg_def Let_def ip_addr_isany_def)
  then have "transmits 0 s2 ?sg" using s2 unfolding transmits_def by fastforce
  moreover have "\<exists>i. arrives ?sg i"
  proof -
    have "unat (th_flags ?h) < 64" by (simp add: TCP_PSH_def TCP_ACK_def)
    then have "tcp_hdr_of (first ?p) = ?h" unfolding p using tcp_hdr_of_bytes [of ?h "body b"] by simp
    then obtain r where r: "chain_header (- (int (unat (th_hdrlen (tcp_hdr_of (first ?p)))) * 4)) ?p = Some r"
      using b(1) unfolding p by (auto simp: chain_header_def buf_header_def)
    have "?p \<noteq> []" "TCP_HLEN \<le> length (first ?p)" by (simp_all add: p TCP_HLEN_def)
    then have "arrives ?sg (segment_of ?p r [])"
      unfolding arrives_def using r by (intro exI [of _ ?p] exI [of _ r] exI [of _ "[]"]) simp
    then show ?thesis by blast
  qed
  moreover have "seg_octets ?sg = [Octet 65]" "(TCP_PSH OR TCP_ACK) AND TCP_SYN = 0"
    using b by (simp_all add: seg_octets_def framed_def seg_data_def LWIP_TCP_OPT_LENGTH_def contents_def TCP_PSH_def TCP_ACK_def TCP_SYN_def TCP_FIN_def)
  ultimately show ?thesis using snd s2(2) by (metis tcp_hdr.select_convs(3,6) tcp_seg.select_convs(2,4))
qed

text \<open>The packet comes twice.\<close>

theorem tcp_line_end_to_end_witness:
  "\<exists>i s' n'. input_all (greeting_server [1] [2] ''abc'' [3]) [i, i] 0 (open_conn [Some \<lparr>name_length = 0, bytes = replicate 32 0\<rparr>]) = Some s'
    \<and> name_at 1 (app_state s') = Some n' \<and> holding [65] n'"
proof -
  let ?n = "\<lparr>name_length = 0, bytes = replicate 32 0\<rparr>"
  let ?s = "open_conn [Some ?n] :: name option list tcp"
  obtain t :: "unit tcp" and sg i where t: "sending [Octet_syn, Octet 65] 999 0 t" "transmits 0 t sg" "arrives sg i" "seg_octets sg = [Octet 65]"
    "th_flags (tcphdr sg) AND TCP_SYN = 0" "seg_len sg = 1" "rcv_nxt (tcp_mem t 0) = 0"
    using client_sends by blast
  have "seg_len sg \<le> TCP_WND" using t(6) by (simp add: TCP_WND_def)
  then have pk: "data_packet [Octet_syn, Octet 65] 999 0 t i" unfolding data_packet_def using t(1-5) by (intro conjI exI [of _ sg]) simp_all
  have "[Octet_syn, Octet 65] @ [] = Octet_syn # map Octet [65] \<and> data_packet [Octet_syn, Octet 65] 999 0 t i
      \<and> rcv_nxt (tcp_mem t 0) = lastack (tcp_mem ?s 0)"
    using pk t(7) by (simp add: receiving_open_conn)
  then have "\<forall>i\<in>set [i, i]. \<exists>W V b t. W @ V = Octet_syn # map Octet [65] \<and> data_packet W 999 b (t :: unit tcp) i
      \<and> rcv_nxt (tcp_mem t b) = lastack (tcp_mem ?s 0)" by (metis empty_iff insert_iff list.simps(15) list.set(1))
  moreover have "receiving 0 1 0 ?s" "rcv_nxt (tcp_mem ?s 0) = 999 + 1" "rcv_wnd (tcp_mem ?s 0) = TCP_WND" "length [65 :: u8] + 70000 < 2 ^ 31"
    by (simp_all add: receiving_open_conn del: One_nat_def)
  moreover have "name_at 1 (app_state ?s) = Some ?n" "holding [] ?n" "no_eol [65]"
    by (simp_all add: receiving_open_conn name_at_def holding_def no_eol_def MAX_NAME_SIZE_def CR_def LF_def)
  ultimately obtain s' n' where s': "input_all (greeting_server [1] [2] ''abc'' [3]) [i, i] 0 ?s = Some s'"
    "name_at 1 (app_state s') = Some n'" "holding (take (brought (999 + 1) [i, i]) [65]) n'"
    using tcp_line_end_to_end [of 0 1 0 ?s 999 ?n "[65]" "[i, i]" "[1]" "[2]" "''abc''" "[3]"] by blast
  obtain pos where pos: "slice_at (Octet_syn # map Octet [65]) 999 sg pos" and ack: "th_flags (tcphdr sg) AND TCP_ACK \<noteq> 0"
    using transmits_slice [OF t(2,1)] by auto
  have "seg_octets sg \<noteq> []" using t(4) by simp
  moreover have "pos \<le> 1" using pos t(4) by (simp add: slice_at_def)
  ultimately have "pos = 1" using slice_of_data(1) [OF pos _ t(5)] by simp
  then have "data_in [65] (999 + 1) (th_ackno (tcphdr sg)) 0 1 i"
    using arrives_data [OF pos \<open>seg_octets sg \<noteq> []\<close> t(5) ack t(3)] t(6) by simp
  then have "brought (999 + 1) [i, i] = 1" by (simp add: brought_def data_in_def slice_in_def reached_def)
  then show ?thesis using s' by auto
qed

end
