(* ===== verification/Netif.thy ===== *)
theory Netif
  imports TcpConn
begin

text \<open>
  The interfaces of the stack, \<open>netif.c\<close>, and the data of the DHCP client that an interface
  points to, \<open>dhcp.h\<close>.  An interface is named by its position in \<open>netif_list\<close>, so adding one in front and
  removing one rename the others.  The pointer \<open>netif->dhcp\<close> is null when \<open>dhcp_tries\<close> of the interface is
  \<open>None\<close>; the fields \<open>tries\<close> and \<open>pcb\<close> of the client are \<open>dhcp_tries\<close> and \<open>dhcp_pcb\<close>, the other ones are
  the record \<open>dhcp\<close>.  Changing an address aborts connections of TCP, so the operations work on the state
  of TCP and get the application's callbacks.
\<close>

section \<open>Data\<close>

text \<open>The state 0, which a cleared structure has, has no name in the code.\<close>

datatype dhcp_state =
    DHCP_CLEARED | DHCP_REQUESTING | DHCP_INIT | DHCP_REBOOTING | DHCP_REBINDING | DHCP_RENEWING | DHCP_SELECTING
  | DHCP_INFORMING | DHCP_CHECKING | DHCP_PERMANENT | DHCP_BOUND | DHCP_BACKING_OFF | DHCP_OFF

record dhcp =
  dstate :: dhcp_state
  xid :: u32
  dhcp_p :: "chain option"
  msg_in :: "u8 list option"
  options_in :: "u8 list option"
  options_in_len :: u16
  p_out :: "chain option"
  options_out_len :: u16
  request_timeout :: u16
  t1_timeout :: u16
  t2_timeout :: u16
  server_ip_addr :: u32
  offered_ip_addr :: u32
  offered_sn_mask :: u32
  offered_gw_addr :: u32
  offered_bc_addr :: u32
  dns_count :: u32
  offered_dns_addr :: "u32 list"
  offered_t0_lease :: u32
  offered_t1_renew :: u32
  offered_t2_rebind :: u32

text \<open>The name of an interface: two letters and a number.\<close>

record netif_id =
  name0 :: u8
  name1 :: u8
  num :: u8

record 'a nets =
  net_tcp :: "'a tcp"
  netif_ids :: "netif_id list"
  netifnum :: u8
  dhcps :: "nat \<Rightarrow> dhcp"
  global_xid :: u32

abbreviation net_ip :: "'a nets \<Rightarrow> stack" where
  "net_ip s \<equiv> tcp_ip (net_tcp s)"

abbreviation netif_at :: "'a nets \<Rightarrow> nat \<Rightarrow> netif" where
  "netif_at s n \<equiv> netif_list (net_ip s) ! n"

definition on_stack :: "(stack \<Rightarrow> stack) \<Rightarrow> 'a nets \<Rightarrow> 'a nets" where
  "on_stack f s = s\<lparr>net_tcp := (net_tcp s)\<lparr>tcp_ip := f (net_ip s)\<rparr>\<rparr>"

definition set_netif :: "nat \<Rightarrow> (netif \<Rightarrow> netif) \<Rightarrow> 'a nets \<Rightarrow> 'a nets" where
  "set_netif n f = on_stack (\<lambda>k. k\<lparr>netif_list := (netif_list k)[n := f (netif_list k ! n)]\<rparr>)"

definition set_dhcp :: "nat \<Rightarrow> (dhcp \<Rightarrow> dhcp) \<Rightarrow> 'a nets \<Rightarrow> 'a nets" where
  "set_dhcp n f s = s\<lparr>dhcps := (dhcps s)(n := f (dhcps s n))\<rparr>"

section \<open>Addresses\<close>

text \<open>
  A walk over the active connections that aborts those of an address.  The next element is
  read before the callback of the aborted one runs; when the callback frees it, the walk leaves its objects.
\<close>

partial_function (option) abort_loop :: "'a tcp_app \<Rightarrow> u32 \<Rightarrow> nat option \<Rightarrow> 'a tcp \<Rightarrow> 'a tcp option" where
  "abort_loop app ip here s =
     (case here of
        None \<Rightarrow> Some s
      | Some a \<Rightarrow>
          if freed a s then None
          else
            let n = successor a (tcp_active_pcbs s) in
            if t_local_ip (tcp_mem s a) = ip
            then Option.bind (tcp_abort app a s) (abort_loop app ip n)
            else abort_loop app ip n s)"

definition move_listener :: "u32 \<Rightarrow> u32 \<Rightarrow> nat \<Rightarrow> 'a tcp \<Rightarrow> 'a tcp" where
  "move_listener old new a s =
     (if \<not> ip_addr_isany (l_local_ip (listen_mem s a)) \<and> l_local_ip (listen_mem s a) = old
      then s\<lparr>listen_mem := (listen_mem s)(a := (listen_mem s a)\<lparr>l_local_ip := new\<rparr>)\<rparr> else s)"

definition new_address :: "'a tcp_app \<Rightarrow> u32 \<Rightarrow> u32 \<Rightarrow> 'a tcp \<Rightarrow> 'a tcp option" where
  "new_address app old new s =
     (if new = old then Some s
      else map_option (\<lambda>s. fold (move_listener old new) (tcp_listen_pcbs s) s)
             (abort_loop app old (first_of (tcp_active_pcbs s)) s))"

definition netif_set_ipaddr :: "'a tcp_app \<Rightarrow> nat \<Rightarrow> u32 \<Rightarrow> 'a nets \<Rightarrow> 'a nets option" where
  "netif_set_ipaddr app n ipaddr s =
     map_option (\<lambda>t. set_netif n (ip_addr_update (\<lambda>_. ipaddr)) (s\<lparr>net_tcp := t\<rparr>))
       (new_address app (ip_addr (netif_at s n)) ipaddr (net_tcp s))"

definition netif_set_gw :: "nat \<Rightarrow> u32 \<Rightarrow> 'a nets \<Rightarrow> 'a nets" where
  "netif_set_gw n gateway = set_netif n (gw_update (\<lambda>_. gateway))"

definition netif_set_netmask :: "nat \<Rightarrow> u32 \<Rightarrow> 'a nets \<Rightarrow> 'a nets" where
  "netif_set_netmask n subnet = set_netif n (netmask_update (\<lambda>_. subnet))"

definition netif_set_addr :: "'a tcp_app \<Rightarrow> nat \<Rightarrow> u32 \<Rightarrow> u32 \<Rightarrow> u32 \<Rightarrow> 'a nets \<Rightarrow> 'a nets option" where
  "netif_set_addr app n ipaddr subnet gateway s =
     map_option (\<lambda>s. netif_set_gw n gateway (netif_set_netmask n subnet s)) (netif_set_ipaddr app n ipaddr s)"

section \<open>The list of interfaces\<close>

text \<open>
  \<open>netif_add\<close> gets a structure that is not in the list yet.  The driver's \<open>init\<close> answers an error, the
  structure with what it sets in it and the two letters of its name.  The answer tells whether the interface was added.
\<close>

definition netif_add ::
  "'a tcp_app \<Rightarrow> netif \<Rightarrow> u32 \<Rightarrow> u32 \<Rightarrow> u32 \<Rightarrow> (netif \<Rightarrow> err_t \<times> netif \<times> u8 \<times> u8) \<Rightarrow> 'a nets \<Rightarrow> (bool \<times> 'a nets) option" where
  "netif_add app nif ipaddr subnet gateway init s =
     (let nif = nif\<lparr>ip_addr := 0, netmask := 0, gw := 0, flags := 0, dhcp_tries := None\<rparr>;
          i = netifnum s
      in map_option
           (\<lambda>t.
             let nif = nif\<lparr>ip_addr := ipaddr, netmask := subnet, gw := gateway\<rparr>;
                 s = s\<lparr>net_tcp := t, netifnum := i + 1\<rparr>;
                 (err, nif, a, b) = init nif
             in if err \<noteq> ERR_OK then (False, s)
                else (True,
                  (on_stack
                    (\<lambda>k. k\<lparr>netif_list := nif # netif_list k, netif_default := map_option Suc (netif_default k),
                            dhcp_pcb := (\<lambda>j. case j of 0 \<Rightarrow> None | Suc j \<Rightarrow> dhcp_pcb k j)\<rparr>) s)
                    \<lparr>netif_ids := \<lparr>name0 = a, name1 = b, num = i\<rparr> # netif_ids s,
                     dhcps := (\<lambda>j. dhcps s (j - 1))\<rparr>))
           (new_address app 0 ipaddr (net_tcp s)))"

definition netif_set_default :: "nat option \<Rightarrow> 'a nets \<Rightarrow> 'a nets" where
  "netif_set_default n = on_stack (netif_default_update (\<lambda>_. n))"

text \<open>The positions behind the removed one move up; the default is reset when it is the removed one.\<close>

definition netif_remove :: "nat \<Rightarrow> 'a nets \<Rightarrow> 'a nets" where
  "netif_remove n s =
     (if n < length (netif_list (net_ip s))
      then
        let up = (\<lambda>j. if j < n then j else Suc j);
            s = (on_stack (\<lambda>k. k\<lparr>netif_list := take n (netif_list k) @ drop (Suc n) (netif_list k), dhcp_pcb := dhcp_pcb k \<circ> up\<rparr>) s)
                  \<lparr>netif_ids := take n (netif_ids s) @ drop (Suc n) (netif_ids s), dhcps := dhcps s \<circ> up\<rparr>;
            d = netif_default (net_ip s)
        in if d = Some n then netif_set_default None s
           else on_stack (netif_default_update (map_option (\<lambda>j. if j < n then j else j - 1))) s
      else s)"

text \<open>The name is a pointer to three bytes at least, the third one a digit: outside it, \<open>None\<close>.\<close>

definition netif_find :: "u8 list option \<Rightarrow> 'a nets \<Rightarrow> nat option option" where
  "netif_find name s =
     (case name of
        None \<Rightarrow> Some None
      | Some cs \<Rightarrow>
          if length cs < 3 then None
          else Some (List.find (\<lambda>j. let d = netif_ids s ! j in cs ! 2 - 0x30 = num d \<and> cs ! 0 = name0 d \<and> cs ! 1 = name1 d)
                       [0..<length (netif_list (net_ip s))]))"

section \<open>Up and down\<close>

definition netif_set_up :: "nat \<Rightarrow> 'a nets \<Rightarrow> 'a nets" where
  "netif_set_up n s =
     (if flags (netif_at s n) AND NETIF_FLAG_UP = 0
      then
        let s = set_netif n (\<lambda>i. i\<lparr>flags := flags i OR NETIF_FLAG_UP\<rparr>) s in
        if flags (netif_at s n) AND NETIF_FLAG_ETHARP \<noteq> 0
        then on_stack (log_op (Arp_gratuitous n (ip_addr (netif_at s n)))) s else s
      else s)"

definition netif_set_down :: "nat \<Rightarrow> 'a nets \<Rightarrow> 'a nets" where
  "netif_set_down n s =
     (if flags (netif_at s n) AND NETIF_FLAG_UP \<noteq> 0
      then set_netif n (\<lambda>i. i\<lparr>flags := flags i AND NOT NETIF_FLAG_UP\<rparr>) s else s)"

end
