(* ===== verification/Dhcp.thy ===== *)
theory Dhcp
  imports Netif IpInput Netconf
begin

text \<open>
  The DHCP client of lwIP, \<open>dhcp.c\<close>: the messages it writes and reads, its state machine and its timers.  ARP
  queries and what is sent are recorded by the stack below.  \<open>None\<close> is a null pointer, a read outside the first buffer of a
  reply or outside the copy of its options, a write outside the options of a message, and a search for an option that does not end.
\<close>

section \<open>Constants\<close>

definition DHCP_MAX_MSG_LEN_MIN_REQUIRED :: u16 where "DHCP_MAX_MSG_LEN_MIN_REQUIRED = 576"
definition DHCP_COARSE_TIMER_SECS :: u32 where "DHCP_COARSE_TIMER_SECS = 60"
definition DHCP_OPTIONS_LEN :: nat where "DHCP_OPTIONS_LEN = 68"
definition DHCP_MIN_OPTIONS_LEN :: u16 where "DHCP_MIN_OPTIONS_LEN = 68"
definition DHCP_CHADDR_LEN :: nat where "DHCP_CHADDR_LEN = 16"
definition DHCP_SNAME_LEN :: nat where "DHCP_SNAME_LEN = 64"
definition DHCP_FILE_LEN :: nat where "DHCP_FILE_LEN = 128"

text \<open>\<open>sizeof(struct dhcp_msg) - DHCP_OPTIONS_LEN\<close>, and the places of \<open>sname\<close> and \<open>file\<close> in it.\<close>

definition MSG_LEN :: nat where "MSG_LEN = 240"
definition SNAME_OFS :: nat where "SNAME_OFS = 44"
definition FILE_OFS :: nat where "FILE_OFS = 108"
definition DHCP_MAX_DNS :: u32 where "DHCP_MAX_DNS = 2"

definition DHCP_BOOTREQUEST :: u8 where "DHCP_BOOTREQUEST = 1"
definition DHCP_BOOTREPLY :: u8 where "DHCP_BOOTREPLY = 2"
definition DHCP_DISCOVER :: u8 where "DHCP_DISCOVER = 1"
definition DHCP_OFFER :: u8 where "DHCP_OFFER = 2"
definition DHCP_REQUEST :: u8 where "DHCP_REQUEST = 3"
definition DHCP_DECLINE :: u8 where "DHCP_DECLINE = 4"
definition DHCP_ACK :: u8 where "DHCP_ACK = 5"
definition DHCP_NAK :: u8 where "DHCP_NAK = 6"
definition DHCP_RELEASE :: u8 where "DHCP_RELEASE = 7"
definition DHCP_INFORM :: u8 where "DHCP_INFORM = 8"
definition DHCP_HTYPE_ETH :: u8 where "DHCP_HTYPE_ETH = 1"
definition DHCP_HLEN_ETH :: u8 where "DHCP_HLEN_ETH = 6"
definition DHCP_OPTION_SUBNET_MASK :: u8 where "DHCP_OPTION_SUBNET_MASK = 1"
definition DHCP_OPTION_ROUTER :: u8 where "DHCP_OPTION_ROUTER = 3"
definition DHCP_OPTION_DNS_SERVER :: u8 where "DHCP_OPTION_DNS_SERVER = 6"
definition DHCP_OPTION_BROADCAST :: u8 where "DHCP_OPTION_BROADCAST = 28"
definition DHCP_OPTION_END :: u8 where "DHCP_OPTION_END = 255"
definition DHCP_OPTION_REQUESTED_IP :: u8 where "DHCP_OPTION_REQUESTED_IP = 50"
definition DHCP_OPTION_LEASE_TIME :: u8 where "DHCP_OPTION_LEASE_TIME = 51"
definition DHCP_OPTION_OVERLOAD :: u8 where "DHCP_OPTION_OVERLOAD = 52"
definition DHCP_OPTION_MESSAGE_TYPE :: u8 where "DHCP_OPTION_MESSAGE_TYPE = 53"
definition DHCP_OPTION_SERVER_ID :: u8 where "DHCP_OPTION_SERVER_ID = 54"
definition DHCP_OPTION_PARAMETER_REQUEST_LIST :: u8 where "DHCP_OPTION_PARAMETER_REQUEST_LIST = 55"
definition DHCP_OPTION_MAX_MSG_SIZE :: u8 where "DHCP_OPTION_MAX_MSG_SIZE = 57"
definition DHCP_OPTION_T1 :: u8 where "DHCP_OPTION_T1 = 58"
definition DHCP_OPTION_T2 :: u8 where "DHCP_OPTION_T2 = 59"
definition DHCP_OVERLOAD_NONE :: u8 where "DHCP_OVERLOAD_NONE = 0"
definition DHCP_OVERLOAD_FILE :: u8 where "DHCP_OVERLOAD_FILE = 1"
definition DHCP_OVERLOAD_SNAME :: u8 where "DHCP_OVERLOAD_SNAME = 2"
definition IP_ADDR_BROADCAST :: u32 where "IP_ADDR_BROADCAST = 0xffffffff"

definition dhcp_zero :: dhcp where
  "dhcp_zero = \<lparr>dstate = DHCP_CLEARED, xid = 0, dhcp_p = None, msg_in = None, options_in = None, options_in_len = 0, p_out = None,
     options_out_len = 0, request_timeout = 0, t1_timeout = 0, t2_timeout = 0, server_ip_addr = 0, offered_ip_addr = 0,
     offered_sn_mask = 0, offered_gw_addr = 0, offered_bc_addr = 0, dns_count = 0, offered_dns_addr = [0, 0],
     offered_t0_lease = 0, offered_t1_renew = 0, offered_t2_rebind = 0\<rparr>"

section \<open>The fields that the interface and the stack hold\<close>

definition has_client :: "'a nets \<Rightarrow> nat \<Rightarrow> bool" where
  "has_client s n \<longleftrightarrow> dhcp_tries (netif_at s n) \<noteq> None"

definition tries :: "'a nets \<Rightarrow> nat \<Rightarrow> u8" where
  "tries s n = (case dhcp_tries (netif_at s n) of None \<Rightarrow> 0 | Some t \<Rightarrow> t)"

definition set_client :: "nat \<Rightarrow> u8 option \<Rightarrow> 'a nets \<Rightarrow> 'a nets" where
  "set_client n t = set_netif n (dhcp_tries_update (\<lambda>_. t))"

definition set_pcb :: "nat \<Rightarrow> nat option \<Rightarrow> 'a nets \<Rightarrow> 'a nets" where
  "set_pcb n a = on_stack (\<lambda>k. k\<lparr>dhcp_pcb := (dhcp_pcb k)(n := a)\<rparr>)"

definition mem_malloc_ok :: "'a nets \<Rightarrow> bool \<times> 'a nets" where
  "mem_malloc_ok s = (let (ok, k) = try_alloc (net_ip s) in (ok, on_stack (\<lambda>_. k) s))"

definition dhcp_set_state :: "nat \<Rightarrow> dhcp_state \<Rightarrow> 'a nets \<Rightarrow> 'a nets" where
  "dhcp_set_state n new_state s =
     (if new_state \<noteq> dstate (dhcps s n) then set_client n (Some 0) (set_dhcp n (dstate_update (\<lambda>_. new_state)) s) else s)"

text \<open>The end of every request: one more try, and the time until the next one.\<close>

definition one_more_try :: "nat \<Rightarrow> 'a nets \<Rightarrow> 'a nets" where
  "one_more_try n s = set_client n (Some (tries s n + 1)) s"

definition fine_ticks :: "u16 \<Rightarrow> u16" where
  "fine_ticks msecs = ucast ((ucast msecs + DHCP_FINE_TIMER_MSECS - 1) div DHCP_FINE_TIMER_MSECS)"

definition set_request_timeout :: "nat \<Rightarrow> u16 \<Rightarrow> 'a nets \<Rightarrow> 'a nets" where
  "set_request_timeout n msecs = set_dhcp n (request_timeout_update (\<lambda>_. fine_ticks msecs))"

definition doubling_msecs :: "u8 \<Rightarrow> u16" where
  "doubling_msecs t = (if t < 6 then push_bit (unat t) 1 else 60) * 1000"

definition renew_msecs :: "u8 \<Rightarrow> u16" where
  "renew_msecs t = (if t < 10 then ucast t * 2000 else 20 * 1000)"

definition rebind_msecs :: "u8 \<Rightarrow> u16" where
  "rebind_msecs t = (if t < 10 then ucast t * 1000 else 10 * 1000)"

section \<open>Outgoing messages\<close>

text \<open>\<open>msg_out\<close> is the payload of \<open>p_out\<close>; its options start behind \<open>MSG_LEN\<close> bytes.\<close>

definition dhcp_option_byte :: "u8 \<Rightarrow> dhcp \<Rightarrow> dhcp option" where
  "dhcp_option_byte v d =
     (let i = unat (options_out_len d) in
      case p_out d of
        None \<Rightarrow> None
      | Some p \<Rightarrow>
          if DHCP_OPTIONS_LEN \<le> i then None
          else Some (d\<lparr>p_out := Some (write_first (MSG_LEN + i) [v] p), options_out_len := options_out_len d + 1\<rparr>))"

definition dhcp_option :: "u8 \<Rightarrow> u8 \<Rightarrow> dhcp \<Rightarrow> dhcp option" where
  "dhcp_option ty len d = Option.bind (dhcp_option_byte ty d) (dhcp_option_byte len)"

definition dhcp_option_short :: "u16 \<Rightarrow> dhcp \<Rightarrow> dhcp option" where
  "dhcp_option_short v d = Option.bind (dhcp_option_byte (ucast (drop_bit 8 v)) d) (dhcp_option_byte (ucast v))"

definition dhcp_option_long :: "u32 \<Rightarrow> dhcp \<Rightarrow> dhcp option" where
  "dhcp_option_long v d = do {
     d \<leftarrow> dhcp_option_byte (ucast (drop_bit 24 v)) d;
     d \<leftarrow> dhcp_option_byte (ucast (drop_bit 16 v)) d;
     d \<leftarrow> dhcp_option_byte (ucast (drop_bit 8 v)) d;
     dhcp_option_byte (ucast v) d
   }"

lemma dhcp_option_byte_len:
  "dhcp_option_byte v d = Some e \<Longrightarrow> unat (options_out_len d) < 68 \<and> unat (options_out_len e) = Suc (unat (options_out_len d))"
  by (auto simp: dhcp_option_byte_def DHCP_OPTIONS_LEN_def Let_def unat_word_ariths split: option.splits if_splits)

text \<open>The padding: the array ends where enough has been written.\<close>

function dhcp_pad :: "dhcp \<Rightarrow> dhcp option" where
  "dhcp_pad d =
     (if options_out_len d < DHCP_MIN_OPTIONS_LEN \<or> options_out_len d AND 3 \<noteq> 0
      then case dhcp_option_byte 0 d of None \<Rightarrow> None | Some d \<Rightarrow> dhcp_pad d
      else Some d)"
  by pat_completeness auto
termination
  by (relation "measure (\<lambda>d. 68 - unat (options_out_len d))") (auto dest: dhcp_option_byte_len)

declare dhcp_pad.simps [simp del]

definition dhcp_option_trailer :: "dhcp \<Rightarrow> dhcp option" where
  "dhcp_option_trailer d = Option.bind (dhcp_option_byte DHCP_OPTION_END d) dhcp_pad"

text \<open>\<open>pbuf_realloc\<close> of the message to what was written.\<close>

definition shrink_out :: "dhcp \<Rightarrow> dhcp" where
  "shrink_out d = d\<lparr>p_out := map_option (\<lambda>p. chain_realloc p (MSG_LEN + unat (options_out_len d))) (p_out d)\<rparr>"

definition dhcp_header :: "u32 \<Rightarrow> u32 \<Rightarrow> u8 list \<Rightarrow> u8 list" where
  "dhcp_header ident ciaddr chaddr =
     [DHCP_BOOTREQUEST, DHCP_HTYPE_ETH, DHCP_HLEN_ETH, 0] @ mem_bytes (htonl ident) @ bytes16 0 @ bytes16 0 @ mem_bytes ciaddr
       @ mem_bytes 0 @ mem_bytes 0 @ mem_bytes 0 @ chaddr @ replicate DHCP_SNAME_LEN 0 @ replicate DHCP_FILE_LEN 0
       @ mem_bytes (htonl 0x63825363)"

text \<open>The hardware address, padded with zeroes; the array of the interface must have the bytes that are read.\<close>

definition chaddr_of :: "netif \<Rightarrow> u8 list option" where
  "chaddr_of i =
     (if length (hwaddr i) < min DHCP_CHADDR_LEN (unat (hwaddr_len i)) then None
      else Some (map (\<lambda>j. if j < unat (hwaddr_len i) then hwaddr i ! j else 0) [0..<DHCP_CHADDR_LEN]))"

definition dhcp_create_request :: "nat \<Rightarrow> 'a nets \<Rightarrow> (err_t \<times> 'a nets) option" where
  "dhcp_create_request n s =
     (if \<not> has_client s n then Some (ERR_VAL, s)
      else
        let (ok, s) = mem_malloc_ok s in
        if \<not> ok then Some (ERR_MEM, s)
        else
          let s = (if tries s n = 0 then s\<lparr>global_xid := global_xid s + 1\<rparr> else s);
              ciaddr = (if dstate (dhcps s n) \<in> {DHCP_BOUND, DHCP_RENEWING, DHCP_REBINDING} then ip_addr (netif_at s n) else 0)
          in map_option
               (\<lambda>chaddr.
                  let b = (ram_buf (garbage (net_ip s)) PBUF_TRANSPORT (MSG_LEN + DHCP_OPTIONS_LEN))
                            \<lparr>body := dhcp_header (global_xid s) ciaddr chaddr @ map of_nat [0..<DHCP_OPTIONS_LEN]\<rparr>
                  in (ERR_OK, set_dhcp n (\<lambda>d. d\<lparr>xid := global_xid s, p_out := Some [b], options_out_len := 0\<rparr>) s))
               (chaddr_of (netif_at s n)))"

text \<open>The message is released as it was before the headers were put in front of it.\<close>

definition dhcp_delete_request :: "nat \<Rightarrow> 'a nets \<Rightarrow> 'a nets" where
  "dhcp_delete_request n s =
     set_dhcp n (p_out_update (\<lambda>_. None))
       (case p_out (dhcps s n) of None \<Rightarrow> s | Some p \<Rightarrow> on_stack (log_op (Free_chain p)) s)"

definition dhcp_connect :: "nat \<Rightarrow> u32 \<Rightarrow> 'a nets \<Rightarrow> 'a nets option" where
  "dhcp_connect n addr s =
     map_option (\<lambda>a. on_stack (\<lambda>k. snd (udp_connect a addr DHCP_SERVER_PORT k)) s) (dhcp_pcb (net_ip s) n)"

definition dhcp_sendto :: "nat \<Rightarrow> u32 \<Rightarrow> 'a nets \<Rightarrow> 'a nets option" where
  "dhcp_sendto n addr s = do {
     a \<leftarrow> dhcp_pcb (net_ip s) n;
     p \<leftarrow> p_out (dhcps s n);
     (_, k) \<leftarrow> udp_sendto_if a p addr DHCP_SERVER_PORT n (net_ip s);
     Some (on_stack (\<lambda>_. k) s)
   }"

text \<open>What every request does with its message once its options are written.\<close>

definition put_message :: "nat \<Rightarrow> (dhcp \<Rightarrow> dhcp option) \<Rightarrow> 'a nets \<Rightarrow> 'a nets option" where
  "put_message n f s = do {
     d \<leftarrow> f (dhcps s n);
     d \<leftarrow> dhcp_option_trailer d;
     Some (set_dhcp n (\<lambda>_. shrink_out d) s)
   }"

section \<open>Requests\<close>

definition param_list :: "dhcp \<Rightarrow> dhcp option" where
  "param_list d = do {
     d \<leftarrow> dhcp_option DHCP_OPTION_PARAMETER_REQUEST_LIST 4 d;
     d \<leftarrow> dhcp_option_byte DHCP_OPTION_SUBNET_MASK d;
     d \<leftarrow> dhcp_option_byte DHCP_OPTION_ROUTER d;
     d \<leftarrow> dhcp_option_byte DHCP_OPTION_BROADCAST d;
     dhcp_option_byte DHCP_OPTION_DNS_SERVER d
   }"

definition discover_options :: "u16 \<Rightarrow> dhcp \<Rightarrow> dhcp option" where
  "discover_options max_len d = do {
     d \<leftarrow> dhcp_option DHCP_OPTION_MESSAGE_TYPE 1 d;
     d \<leftarrow> dhcp_option_byte DHCP_DISCOVER d;
     d \<leftarrow> dhcp_option DHCP_OPTION_MAX_MSG_SIZE 2 d;
     d \<leftarrow> dhcp_option_short max_len d;
     param_list d
   }"

definition dhcp_discover :: "nat \<Rightarrow> 'a nets \<Rightarrow> (err_t \<times> 'a nets) option" where
  "dhcp_discover n s = do {
     let s = dhcp_set_state n DHCP_SELECTING (set_dhcp n (offered_ip_addr_update (\<lambda>_. 0)) s);
     (result, s) \<leftarrow> dhcp_create_request n s;
     s \<leftarrow> (if result = ERR_OK then do {
            s \<leftarrow> put_message n (discover_options (mtu (netif_at s n))) s;
            s \<leftarrow> dhcp_connect n 0 s;
            s \<leftarrow> dhcp_sendto n IP_ADDR_BROADCAST s;
            Some (dhcp_delete_request n s)
          } else Some s);
     let s = one_more_try n s;
     Some (result, set_request_timeout n (doubling_msecs (tries s n)) s)
   }"

definition select_options :: "u16 \<Rightarrow> dhcp \<Rightarrow> dhcp option" where
  "select_options max_len d = do {
     d \<leftarrow> dhcp_option DHCP_OPTION_MESSAGE_TYPE 1 d;
     d \<leftarrow> dhcp_option_byte DHCP_REQUEST d;
     d \<leftarrow> dhcp_option DHCP_OPTION_MAX_MSG_SIZE 2 d;
     d \<leftarrow> dhcp_option_short max_len d;
     d \<leftarrow> dhcp_option DHCP_OPTION_REQUESTED_IP 4 d;
     d \<leftarrow> dhcp_option_long (ntohl (offered_ip_addr d)) d;
     d \<leftarrow> dhcp_option DHCP_OPTION_SERVER_ID 4 d;
     d \<leftarrow> dhcp_option_long (ntohl (server_ip_addr d)) d;
     param_list d
   }"

definition dhcp_select :: "nat \<Rightarrow> 'a nets \<Rightarrow> (err_t \<times> 'a nets) option" where
  "dhcp_select n s = do {
     let s = dhcp_set_state n DHCP_REQUESTING s;
     (result, s) \<leftarrow> dhcp_create_request n s;
     s \<leftarrow> (if result = ERR_OK then do {
            s \<leftarrow> put_message n (select_options (mtu (netif_at s n))) s;
            s \<leftarrow> dhcp_sendto n IP_ADDR_BROADCAST s;
            s \<leftarrow> dhcp_connect n 0 s;
            Some (dhcp_delete_request n s)
          } else Some s);
     let s = one_more_try n s;
     Some (result, set_request_timeout n (doubling_msecs (tries s n)) s)
   }"

text \<open>Renewing and rebinding ask with the same options, and differ in whom they ask.\<close>

definition renew_options :: "u16 \<Rightarrow> dhcp \<Rightarrow> dhcp option" where
  "renew_options max_len d = do {
     d \<leftarrow> dhcp_option DHCP_OPTION_MESSAGE_TYPE 1 d;
     d \<leftarrow> dhcp_option_byte DHCP_REQUEST d;
     d \<leftarrow> dhcp_option DHCP_OPTION_MAX_MSG_SIZE 2 d;
     dhcp_option_short max_len d
   }"

definition dhcp_renew :: "nat \<Rightarrow> 'a nets \<Rightarrow> (err_t \<times> 'a nets) option" where
  "dhcp_renew n s =
     (if \<not> has_client s n then None
      else do {
        let s = dhcp_set_state n DHCP_RENEWING s;
        (result, s) \<leftarrow> dhcp_create_request n s;
        s \<leftarrow> (if result = ERR_OK then do {
               s \<leftarrow> put_message n (renew_options (mtu (netif_at s n))) s;
               s \<leftarrow> dhcp_connect n (server_ip_addr (dhcps s n)) s;
               s \<leftarrow> dhcp_sendto n (server_ip_addr (dhcps s n)) s;
               Some (dhcp_delete_request n s)
             } else Some s);
        let s = one_more_try n s;
        Some (result, set_request_timeout n (renew_msecs (tries s n)) s)
      })"

definition dhcp_rebind :: "nat \<Rightarrow> 'a nets \<Rightarrow> (err_t \<times> 'a nets) option" where
  "dhcp_rebind n s = do {
     let s = dhcp_set_state n DHCP_REBINDING s;
     (result, s) \<leftarrow> dhcp_create_request n s;
     s \<leftarrow> (if result = ERR_OK then do {
            s \<leftarrow> put_message n (renew_options (mtu (netif_at s n))) s;
            s \<leftarrow> dhcp_connect n 0 s;
            s \<leftarrow> dhcp_sendto n IP_ADDR_BROADCAST s;
            Some (dhcp_delete_request n s)
          } else Some s);
     let s = one_more_try n s;
     Some (result, set_request_timeout n (rebind_msecs (tries s n)) s)
   }"

definition decline_options :: "dhcp \<Rightarrow> dhcp option" where
  "decline_options d = do {
     d \<leftarrow> dhcp_option DHCP_OPTION_MESSAGE_TYPE 1 d;
     d \<leftarrow> dhcp_option_byte DHCP_DECLINE d;
     d \<leftarrow> dhcp_option DHCP_OPTION_REQUESTED_IP 4 d;
     dhcp_option_long (ntohl (offered_ip_addr d)) d
   }"

definition dhcp_decline :: "nat \<Rightarrow> 'a nets \<Rightarrow> (err_t \<times> 'a nets) option" where
  "dhcp_decline n s = do {
     let s = dhcp_set_state n DHCP_BACKING_OFF s;
     (result, s) \<leftarrow> dhcp_create_request n s;
     s \<leftarrow> (if result = ERR_OK then do {
            s \<leftarrow> put_message n decline_options s;
            s \<leftarrow> dhcp_connect n 0 s;
            s \<leftarrow> dhcp_sendto n IP_ADDR_BROADCAST s;
            Some (dhcp_delete_request n s)
          } else Some s);
     let s = one_more_try n s;
     Some (result, set_request_timeout n (10 * 1000) s)
   }"

definition release_options :: "dhcp \<Rightarrow> dhcp option" where
  "release_options d = Option.bind (dhcp_option DHCP_OPTION_MESSAGE_TYPE 1 d) (dhcp_option_byte DHCP_RELEASE)"

definition without_address :: "'a tcp_app \<Rightarrow> nat \<Rightarrow> 'a nets \<Rightarrow> 'a nets option" where
  "without_address app n s =
     map_option (\<lambda>s. netif_set_netmask n 0 (netif_set_gw n 0 s)) (netif_set_ipaddr app n 0 (netif_set_down n s))"

definition dhcp_release :: "'a tcp_app \<Rightarrow> nat \<Rightarrow> 'a nets \<Rightarrow> (err_t \<times> 'a nets) option" where
  "dhcp_release app n s =
     (if \<not> has_client s n then None
      else do {
        let s = dhcp_set_state n DHCP_OFF s;
        let s = set_dhcp n (\<lambda>d. d\<lparr>server_ip_addr := 0, offered_ip_addr := 0, offered_sn_mask := 0, offered_gw_addr := 0,
                   offered_bc_addr := 0, offered_t0_lease := 0, offered_t1_renew := 0, offered_t2_rebind := 0, dns_count := 0\<rparr>) s;
        (result, s) \<leftarrow> dhcp_create_request n s;
        s \<leftarrow> (if result = ERR_OK then do {
               s \<leftarrow> put_message n release_options s;
               s \<leftarrow> dhcp_connect n (server_ip_addr (dhcps s n)) s;
               s \<leftarrow> dhcp_sendto n (server_ip_addr (dhcps s n)) s;
               Some (dhcp_delete_request n s)
             } else Some s);
        let s = one_more_try n s;
        let s = set_request_timeout n (rebind_msecs (tries s n)) s;
        s \<leftarrow> without_address app n s;
        Some (result, s)
      })"

section \<open>Checking and binding\<close>

text \<open>The answer of \<open>etharp_query\<close> is not used.\<close>

definition dhcp_check :: "nat \<Rightarrow> 'a nets \<Rightarrow> 'a nets" where
  "dhcp_check n s =
     (let s = dhcp_set_state n DHCP_CHECKING s;
          s = on_stack (log_op (Arp_query n (offered_ip_addr (dhcps s n)))) s
      in set_request_timeout n 500 (one_more_try n s))"

text \<open>The seconds of a lease in ticks of the coarse timer, at least one; the sum is of 32 bits.\<close>

definition coarse_ticks :: "u32 \<Rightarrow> u16" where
  "coarse_ticks secs =
     (let timeout = (secs + DHCP_COARSE_TIMER_SECS div 2) div DHCP_COARSE_TIMER_SECS;
          t = ucast (if timeout > 0xffff then 0xffff else timeout) :: u16
      in if t = 0 then 1 else t)"

definition class_mask :: "u32 \<Rightarrow> u32" where
  "class_mask a =
     (let first_octet = ucast (drop_bit 24 (ntohl a)) :: u8 in
      if first_octet \<le> 127 then htonl 0xff000000 else if first_octet \<ge> 192 then htonl 0xffffff00 else htonl 0xffff0000)"

text \<open>The timers of a lease: an infinite one leaves the timer as it is.\<close>

definition lease_timers :: "dhcp \<Rightarrow> dhcp" where
  "lease_timers d =
     (let d = (if offered_t1_renew d \<noteq> 0xffffffff then d\<lparr>t1_timeout := coarse_ticks (offered_t1_renew d)\<rparr> else d)
      in if offered_t2_rebind d \<noteq> 0xffffffff then d\<lparr>t2_timeout := coarse_ticks (offered_t2_rebind d)\<rparr> else d)"

definition dhcp_bind :: "'a tcp_app \<Rightarrow> nat \<Rightarrow> 'a nets \<Rightarrow> 'a nets option" where
  "dhcp_bind app n s =
     (if \<not> has_client s n then Some s
      else
        let d = lease_timers (dhcps s n);
            sn_mask = offered_sn_mask d;
            sn_mask = (if sn_mask = 0 then class_mask sn_mask else sn_mask);
            gw_addr = offered_gw_addr d;
            gw_addr = (if gw_addr = 0 then (offered_ip_addr d AND sn_mask) OR htonl 1 else gw_addr)
        in map_option
             (\<lambda>s. dhcp_set_state n DHCP_BOUND (netif_set_up n (netif_set_gw n gw_addr (netif_set_netmask n sn_mask s))))
             (netif_set_ipaddr app n (offered_ip_addr d) (set_dhcp n (\<lambda>_. d) s)))"

definition dhcp_handle_nak :: "'a tcp_app \<Rightarrow> nat \<Rightarrow> 'a nets \<Rightarrow> 'a nets option" where
  "dhcp_handle_nak app n s = do {
     s \<leftarrow> without_address app n s;
     map_option snd (dhcp_discover n (dhcp_set_state n DHCP_BACKING_OFF s))
   }"

section \<open>Timers\<close>

definition dhcp_timeout :: "'a tcp_app \<Rightarrow> nat \<Rightarrow> 'a nets \<Rightarrow> 'a nets option" where
  "dhcp_timeout app n s =
     (let st = dstate (dhcps s n) in
      if st = DHCP_BACKING_OFF \<or> st = DHCP_SELECTING then map_option snd (dhcp_discover n s)
      else if st = DHCP_REQUESTING
      then (if tries s n \<le> 5 then map_option snd (dhcp_select n s)
            else do { (_, s) \<leftarrow> dhcp_release app n s; map_option snd (dhcp_discover n s) })
      else if st = DHCP_CHECKING
      then (if tries s n \<le> 1 then Some (dhcp_check n s) else dhcp_bind app n s)
      else if st = DHCP_RENEWING then map_option snd (dhcp_renew n s)
      else if st = DHCP_REBINDING
      then (if tries s n \<le> 8 then map_option snd (dhcp_rebind n s)
            else do { (_, s) \<leftarrow> dhcp_release app n s; map_option snd (dhcp_discover n s) })
      else Some s)"

definition dhcp_t1_timeout :: "nat \<Rightarrow> 'a nets \<Rightarrow> 'a nets option" where
  "dhcp_t1_timeout n s =
     (if dstate (dhcps s n) \<in> {DHCP_REQUESTING, DHCP_BOUND, DHCP_RENEWING} then map_option snd (dhcp_renew n s) else Some s)"

definition dhcp_t2_timeout :: "nat \<Rightarrow> 'a nets \<Rightarrow> 'a nets option" where
  "dhcp_t2_timeout n s =
     (if dstate (dhcps s n) \<in> {DHCP_REQUESTING, DHCP_BOUND, DHCP_RENEWING} then map_option snd (dhcp_rebind n s) else Some s)"

text \<open>One interface in the loop of each timer; the counters of the coarse one also run below zero.\<close>

definition coarse_step :: "nat \<Rightarrow> 'a nets \<Rightarrow> 'a nets option" where
  "coarse_step n s =
     (if \<not> has_client s n then Some s
      else
        let t2 = t2_timeout (dhcps s n); s = set_dhcp n (\<lambda>d. d\<lparr>t2_timeout := t2 - 1\<rparr>) s in
        if t2 = 1 then dhcp_t2_timeout n s
        else
          let t1 = t1_timeout (dhcps s n); s = set_dhcp n (\<lambda>d. d\<lparr>t1_timeout := t1 - 1\<rparr>) s in
          if t1 = 1 then dhcp_t1_timeout n s else Some s)"

definition fine_step :: "'a tcp_app \<Rightarrow> nat \<Rightarrow> 'a nets \<Rightarrow> 'a nets option" where
  "fine_step app n s =
     (if \<not> has_client s n then Some s
      else
        let t = request_timeout (dhcps s n) in
        if 1 < t then Some (set_dhcp n (\<lambda>d. d\<lparr>request_timeout := t - 1\<rparr>) s)
        else if t = 1 then dhcp_timeout app n (set_dhcp n (\<lambda>d. d\<lparr>request_timeout := 0\<rparr>) s)
        else Some s)"

fun each_netif :: "(nat \<Rightarrow> 'a nets \<Rightarrow> 'a nets option) \<Rightarrow> nat list \<Rightarrow> 'a nets \<Rightarrow> 'a nets option" where
  "each_netif f [] s = Some s"
| "each_netif f (n # ns) s = Option.bind (f n s) (each_netif f ns)"

definition dhcp_coarse_tmr :: "'a nets \<Rightarrow> 'a nets option" where
  "dhcp_coarse_tmr s = each_netif coarse_step [0..<length (netif_list (net_ip s))] s"

definition dhcp_fine_tmr :: "'a tcp_app \<Rightarrow> 'a nets \<Rightarrow> 'a nets option" where
  "dhcp_fine_tmr app s = each_netif (fine_step app) [0..<length (netif_list (net_ip s))] s"

section \<open>Replies\<close>

definition dhcp_free_reply :: "dhcp \<Rightarrow> dhcp" where
  "dhcp_free_reply d =
     (let d = d\<lparr>msg_in := None\<rparr> in if options_in d \<noteq> None then d\<lparr>options_in := None, options_in_len := 0\<rparr> else d)"

text \<open>
  The copies of the fixed part and of the options.  Of a message that is shorter than the fixed part the rest of the memory
  stays as it was.
\<close>

definition dhcp_unfold_reply :: "nat \<Rightarrow> 'a nets \<Rightarrow> err_t \<times> 'a nets" where
  "dhcp_unfold_reply n s =
     (case dhcp_p (dhcps s n) of
        None \<Rightarrow> (ERR_VAL, s)
      | Some p \<Rightarrow>
          let s = set_dhcp n dhcp_free_reply s;
              present = of_nat MSG_LEN < chain_len p;
              len = chain_len p - of_nat MSG_LEN;
              s = (if present then set_dhcp n (\<lambda>d. d\<lparr>options_in_len := len\<rparr>) s else s);
              (ok, s) = (if present then mem_malloc_ok s else (True, s))
          in if \<not> ok then (ERR_MEM, s)
             else
               let (ok, s) = mem_malloc_ok s; fixed = take MSG_LEN (contents p) in
               if \<not> ok then (ERR_MEM, s)
               else (ERR_OK, set_dhcp n (\<lambda>d. d
                       \<lparr>msg_in := Some (fixed @ map (garbage (net_ip s)) [length fixed..<MSG_LEN]),
                        options_in := (if present then Some (take (unat len) (drop MSG_LEN (contents p))) else None)\<rparr>) s))"

text \<open>
  The search in one field: \<open>m\<close> is the memory from the start of the field to the end of its block.  The answer is the memory
  from the option on, and the overloading that was seen, which only the first field can have.
\<close>

partial_function (option) scan_options ::
  "bool \<Rightarrow> u8 list \<Rightarrow> u16 \<Rightarrow> u8 \<Rightarrow> u16 \<Rightarrow> u8 \<Rightarrow> (u8 list option \<times> u8) option" where
  "scan_options outer m len ty off overload =
     (if \<not> off < len then Some (None, overload)
      else if length m \<le> unat off then None
      else if m ! unat off = DHCP_OPTION_END then Some (None, overload)
      else if outer \<and> m ! unat off = DHCP_OPTION_OVERLOAD
      then (if length m \<le> unat (off + 2) then None
            else scan_options outer m len ty (off + 2 + 1) (m ! unat (off + 2)))
      else if m ! unat off = ty then Some (Some (drop (unat off) m), overload)
      else if length m \<le> unat (off + 1) then None
      else scan_options outer m len ty (off + 1 + (1 + ucast (m ! unat (off + 1)))) overload)"

definition dhcp_get_option_ptr :: "dhcp \<Rightarrow> u8 \<Rightarrow> u8 list option option" where
  "dhcp_get_option_ptr d ty =
     (case options_in d of
        None \<Rightarrow> Some None
      | Some m \<Rightarrow>
          if options_in_len d = 0 then Some None
          else do {
            (r, overload) \<leftarrow> scan_options True m (options_in_len d) ty 0 DHCP_OVERLOAD_NONE;
            if r \<noteq> None \<or> overload = DHCP_OVERLOAD_NONE then Some r
            else do {
              msg \<leftarrow> msg_in d;
              let (start, field_len) =
                (if overload = DHCP_OVERLOAD_FILE then (FILE_OFS, DHCP_FILE_LEN)
                 else if overload = DHCP_OVERLOAD_SNAME then (SNAME_OFS, DHCP_SNAME_LEN)
                 else (SNAME_OFS, DHCP_FILE_LEN + DHCP_SNAME_LEN));
              map_option fst (scan_options False (drop start msg) (of_nat field_len) ty 0 overload)
            }
          })"

definition dhcp_get_option_byte :: "u8 list \<Rightarrow> u8 option" where
  "dhcp_get_option_byte q = (case q of [] \<Rightarrow> None | b # _ \<Rightarrow> Some b)"

definition dhcp_get_option_long :: "u8 list \<Rightarrow> u32 option" where
  "dhcp_get_option_long q =
     (case q of
        a # b # c # d # _ \<Rightarrow> Some (push_bit 24 (ucast a) OR push_bit 16 (ucast b) OR push_bit 8 (ucast c) OR ucast d)
      | _ \<Rightarrow> None)"

text \<open>The 32 bit value of an option, when there is one.\<close>

definition long_option :: "dhcp \<Rightarrow> u8 \<Rightarrow> u32 option option" where
  "long_option d ty = do {
     q \<leftarrow> dhcp_get_option_ptr d ty;
     case q of None \<Rightarrow> Some None | Some q \<Rightarrow> map_option Some (dhcp_get_option_long (drop 2 q))
   }"

text \<open>The address in \<open>yiaddr\<close> of the copied message.\<close>

definition yiaddr :: "dhcp \<Rightarrow> u32 option" where
  "yiaddr d = map_option (\<lambda>m. word32 m 16) (msg_in d)"

definition dns_addresses :: "u8 list \<Rightarrow> dhcp \<Rightarrow> dhcp option" where
  "dns_addresses q d = do {
     b \<leftarrow> dhcp_get_option_byte (drop 1 q);
     let c = min (ucast (b div 4)) DHCP_MAX_DNS;
     as \<leftarrow> those (map (\<lambda>j. map_option htonl (dhcp_get_option_long (drop (2 + j * 4) q))) [0..<unat c]);
     Some (d\<lparr>dns_count := c, offered_dns_addr := as @ drop (unat c) (offered_dns_addr d)\<rparr>)
   }"

definition given :: "'v option \<Rightarrow> ('v \<Rightarrow> dhcp \<Rightarrow> dhcp) \<Rightarrow> dhcp \<Rightarrow> dhcp" where
  "given v f d = (case v of None \<Rightarrow> d | Some x \<Rightarrow> f x d)"

definition dhcp_handle_ack :: "dhcp \<Rightarrow> dhcp option" where
  "dhcp_handle_ack d = do {
     let d = d\<lparr>offered_sn_mask := 0, offered_gw_addr := 0, offered_bc_addr := 0\<rparr>;
     v \<leftarrow> long_option d DHCP_OPTION_LEASE_TIME;
     let d = given v (\<lambda>t. offered_t0_lease_update (\<lambda>_. t)) d;
     v \<leftarrow> long_option d DHCP_OPTION_T1;
     let d = d\<lparr>offered_t1_renew := (case v of None \<Rightarrow> offered_t0_lease d div 2 | Some t \<Rightarrow> t)\<rparr>;
     v \<leftarrow> long_option d DHCP_OPTION_T2;
     let d = d\<lparr>offered_t2_rebind := (case v of None \<Rightarrow> offered_t0_lease d | Some t \<Rightarrow> t)\<rparr>;
     a \<leftarrow> yiaddr d;
     let d = d\<lparr>offered_ip_addr := a\<rparr>;
     v \<leftarrow> long_option d DHCP_OPTION_SUBNET_MASK;
     let d = given v (\<lambda>a. offered_sn_mask_update (\<lambda>_. htonl a)) d;
     v \<leftarrow> long_option d DHCP_OPTION_ROUTER;
     let d = given v (\<lambda>a. offered_gw_addr_update (\<lambda>_. htonl a)) d;
     v \<leftarrow> long_option d DHCP_OPTION_BROADCAST;
     let d = given v (\<lambda>a. offered_bc_addr_update (\<lambda>_. htonl a)) d;
     q \<leftarrow> dhcp_get_option_ptr d DHCP_OPTION_DNS_SERVER;
     case q of None \<Rightarrow> Some d | Some q \<Rightarrow> dns_addresses q d
   }"

definition dhcp_handle_offer :: "nat \<Rightarrow> 'a nets \<Rightarrow> 'a nets option" where
  "dhcp_handle_offer n s = do {
     v \<leftarrow> long_option (dhcps s n) DHCP_OPTION_SERVER_ID;
     case v of
       None \<Rightarrow> Some s
     | Some server \<Rightarrow> do {
         a \<leftarrow> yiaddr (dhcps s n);
         map_option snd (dhcp_select n (set_dhcp n (\<lambda>d. d\<lparr>server_ip_addr := htonl server, offered_ip_addr := a\<rparr>) s))
       }
   }"

section \<open>dhcp_recv\<close>

text \<open>Is the reply for this interface and this transaction?  Its header is read in the first buffer, without a look at its length.\<close>

fun chaddr_match :: "netif \<Rightarrow> u8 list \<Rightarrow> nat list \<Rightarrow> bool option" where
  "chaddr_match i xs [] = Some True"
| "chaddr_match i xs (j # js) =
     (if length (hwaddr i) \<le> j \<or> length xs \<le> 28 + j then None
      else if hwaddr i ! j \<noteq> xs ! (28 + j) then Some False else chaddr_match i xs js)"

definition reply_matches :: "netif \<Rightarrow> u32 \<Rightarrow> u8 list \<Rightarrow> bool option" where
  "reply_matches i ident xs =
     (if xs = [] then None
      else if xs ! 0 \<noteq> DHCP_BOOTREPLY then Some False
      else do {
        ok \<leftarrow> chaddr_match i xs [0..<unat (hwaddr_len i)];
        if \<not> ok then Some False
        else if length xs < 8 then None
        else Some (ntohl (word32 xs 4) = ident)
      })"

definition stop_request_timer :: "nat \<Rightarrow> 'a nets \<Rightarrow> 'a nets" where
  "stop_request_timer n = set_dhcp n (request_timeout_update (\<lambda>_. 0))"

definition dhcp_dispatch :: "'a tcp_app \<Rightarrow> nat \<Rightarrow> u8 \<Rightarrow> 'a nets \<Rightarrow> 'a nets option" where
  "dhcp_dispatch app n msg_type s =
     (let st = dstate (dhcps s n) in
      if msg_type = DHCP_ACK
      then (if st = DHCP_REQUESTING
            then map_option (\<lambda>d. dhcp_check n (stop_request_timer n (set_dhcp n (\<lambda>_. d) s))) (dhcp_handle_ack (dhcps s n))
            else if st = DHCP_REBOOTING \<or> st = DHCP_REBINDING \<or> st = DHCP_RENEWING
            then dhcp_bind app n (stop_request_timer n s)
            else Some s)
      else if msg_type = DHCP_NAK \<and> st \<in> {DHCP_REBOOTING, DHCP_REQUESTING, DHCP_REBINDING, DHCP_RENEWING}
      then dhcp_handle_nak app n (stop_request_timer n s)
      else if msg_type = DHCP_OFFER \<and> st = DHCP_SELECTING then dhcp_handle_offer n (stop_request_timer n s)
      else Some s)"

definition dhcp_recv :: "'a tcp_app \<Rightarrow> nat \<Rightarrow> chain \<Rightarrow> 'a nets \<Rightarrow> 'a nets option" where
  "dhcp_recv app n p s =
     (if \<not> has_client s n then None
      else do {
        let s = set_dhcp n (dhcp_p_update (\<lambda>_. Some p)) s;
        ok \<leftarrow> reply_matches (netif_at s n) (xid (dhcps s n)) (first p);
        s \<leftarrow> (if \<not> ok then Some s
              else
                let (err, s) = dhcp_unfold_reply n s in
                if err \<noteq> ERR_OK then Some s
                else do {
                  q \<leftarrow> dhcp_get_option_ptr (dhcps s n) DHCP_OPTION_MESSAGE_TYPE;
                  case q of
                    None \<Rightarrow> Some s
                  | Some q \<Rightarrow> do {
                      msg_type \<leftarrow> dhcp_get_option_byte (drop 2 q);
                      dhcp_dispatch app n msg_type s
                    }
                });
        let s = on_stack (log_op (Free_chain p)) (set_dhcp n dhcp_free_reply s);
        Some (set_dhcp n (dhcp_p_update (\<lambda>_. None)) s)
      })"

section \<open>Starting and stopping\<close>

definition dhcp_stop :: "nat \<Rightarrow> 'a nets \<Rightarrow> 'a nets" where
  "dhcp_stop n s =
     (let s = set_netif n (\<lambda>i. i\<lparr>flags := flags i AND NOT NETIF_FLAG_DHCP\<rparr>) s in
      if \<not> has_client s n then s
      else
        let s = (case dhcp_pcb (net_ip s) n of None \<Rightarrow> s | Some a \<Rightarrow> set_pcb n None (on_stack (udp_remove a) s));
            s = (case dhcp_p (dhcps s n) of None \<Rightarrow> s
                 | Some p \<Rightarrow> set_dhcp n (dhcp_p_update (\<lambda>_. None)) (on_stack (log_op (Free_chain p)) s))
        in set_client n None (set_dhcp n dhcp_free_reply s))"

definition udp_open :: "nat \<Rightarrow> 'a nets \<Rightarrow> bool \<times> 'a nets" where
  "udp_open n s =
     (case udp_new (net_ip s) of (a, k) \<Rightarrow> (a \<noteq> None, set_pcb n a (on_stack (\<lambda>_. k) s)))"

definition dhcp_bind_pcb :: "nat \<Rightarrow> u32 \<Rightarrow> 'a nets \<Rightarrow> 'a nets option" where
  "dhcp_bind_pcb n addr s = do {
     a \<leftarrow> dhcp_pcb (net_ip s) n;
     dhcp_connect n addr (on_stack (\<lambda>k. snd (udp_bind a 0 DHCP_CLIENT_PORT k)) s)
   }"

text \<open>The memory of a client: a new one, or that of the running one, which gives up its control block and packet.\<close>

definition dhcp_memory :: "nat \<Rightarrow> 'a nets \<Rightarrow> bool \<times> 'a nets" where
  "dhcp_memory n s =
     (if \<not> has_client s n then mem_malloc_ok s
      else
        let s = (case dhcp_pcb (net_ip s) n of None \<Rightarrow> s | Some a \<Rightarrow> on_stack (udp_remove a) s)
        in (True, case dhcp_p (dhcps s n) of None \<Rightarrow> s | Some p \<Rightarrow> on_stack (log_op (Free_chain p)) s))"

definition dhcp_open_pcb :: "nat \<Rightarrow> 'a nets \<Rightarrow> 'a nets option" where
  "dhcp_open_pcb n s =
     map_option (\<lambda>s. case dhcp_pcb (net_ip s) n of None \<Rightarrow> s | Some a \<Rightarrow> on_stack (udp_recv a True) s) (dhcp_bind_pcb n 0 s)"

definition dhcp_start :: "nat \<Rightarrow> 'a nets \<Rightarrow> (err_t \<times> 'a nets) option" where
  "dhcp_start n s =
     (let s = set_netif n (\<lambda>i. i\<lparr>flags := flags i AND NOT NETIF_FLAG_DHCP\<rparr>) s in
      if mtu (netif_at s n) < DHCP_MAX_MSG_LEN_MIN_REQUIRED then Some (ERR_MEM, s)
      else
        let (ok, s) = dhcp_memory n s in
        if \<not> ok then Some (ERR_MEM, s)
        else
          let s = set_pcb n None (set_client n (Some 0) (set_dhcp n (\<lambda>_. dhcp_zero) s));
              (ok, s) = udp_open n s
          in if \<not> ok then Some (ERR_MEM, set_client n None s)
             else do {
               s \<leftarrow> dhcp_open_pcb n s;
               (result, s) \<leftarrow> dhcp_discover n s;
               if result \<noteq> ERR_OK then Some (ERR_MEM, dhcp_stop n s)
               else Some (result, set_netif n (\<lambda>i. i\<lparr>flags := flags i OR NETIF_FLAG_DHCP\<rparr>) s)
             })"

section \<open>Informing\<close>

definition inform_options :: "u16 \<Rightarrow> dhcp \<Rightarrow> dhcp option" where
  "inform_options max_len d = do {
     d \<leftarrow> dhcp_option DHCP_OPTION_MESSAGE_TYPE 1 d;
     d \<leftarrow> dhcp_option_byte DHCP_INFORM d;
     d \<leftarrow> dhcp_option DHCP_OPTION_MAX_MSG_SIZE 2 d;
     dhcp_option_short max_len d
   }"

text \<open>
  A second client takes the place of the one of the interface, which comes back at the end; without a control block for
  it the interface is left with the freed structure, which is \<open>None\<close> here.
\<close>

definition dhcp_inform :: "nat \<Rightarrow> 'a nets \<Rightarrow> 'a nets option" where
  "dhcp_inform n s =
     (let old_dhcp = dhcps s n; old_tries = dhcp_tries (netif_at s n); old_pcb = dhcp_pcb (net_ip s) n;
          (ok, s) = mem_malloc_ok s
      in if \<not> ok then Some s
         else
           let s = set_pcb n None (set_client n (Some 0) (set_dhcp n (\<lambda>_. dhcp_zero) s)); (ok, s) = udp_open n s in
           if \<not> ok then None
           else do {
             (result, s) \<leftarrow> dhcp_create_request n s;
             s \<leftarrow> (if result = ERR_OK then do {
                    s \<leftarrow> put_message n (inform_options (mtu (netif_at s n))) s;
                    s \<leftarrow> dhcp_bind_pcb n IP_ADDR_BROADCAST s;
                    s \<leftarrow> dhcp_sendto n IP_ADDR_BROADCAST s;
                    s \<leftarrow> dhcp_connect n 0 s;
                    Some (dhcp_delete_request n s)
                  } else Some s);
             let s = (case dhcp_pcb (net_ip s) n of None \<Rightarrow> s | Some a \<Rightarrow> on_stack (udp_remove a) s);
             Some (set_pcb n old_pcb (set_client n old_tries (set_dhcp n (\<lambda>_. old_dhcp) s)))
           })"

section \<open>Address resolution\<close>

definition dhcp_arp_reply :: "nat \<Rightarrow> u32 \<Rightarrow> 'a nets \<Rightarrow> 'a nets option" where
  "dhcp_arp_reply n addr s =
     (if has_client s n \<and> dstate (dhcps s n) = DHCP_CHECKING \<and> addr = offered_ip_addr (dhcps s n)
      then map_option snd (dhcp_decline n s) else Some s)"

end
