(* ===== verification/DhcpLease.thy ===== *)
theory DhcpLease
  imports Dhcp
begin

text \<open>
  What the DHCP client does: its messages, the search for options, and the way from the first message to an
  address.
\<close>

section \<open>Writing a message\<close>

text \<open>The message under construction: the fixed part, what has been written of the options, and the rest of their array.\<close>

definition with_out :: "dhcp \<Rightarrow> buf \<Rightarrow> u8 list \<Rightarrow> u8 list \<Rightarrow> u8 list \<Rightarrow> dhcp" where
  "with_out d b h w r = d\<lparr>p_out := Some [b\<lparr>body := h @ w @ r\<rparr>], options_out_len := of_nat (length w)\<rparr>"

lemma with_out_fields [simp]:
  "dstate (with_out d b h w r) = dstate d" "xid (with_out d b h w r) = xid d" "dhcp_p (with_out d b h w r) = dhcp_p d"
  "offered_ip_addr (with_out d b h w r) = offered_ip_addr d" "server_ip_addr (with_out d b h w r) = server_ip_addr d"
  by (simp_all add: with_out_def)

lemma option_byte_out:
  assumes "length h = MSG_LEN" "length w < DHCP_OPTIONS_LEN"
  shows "dhcp_option_byte v (with_out d b h w (x # r)) = Some (with_out d b h (w @ [v]) r)"
  using assms
  by (simp add: dhcp_option_byte_def with_out_def MSG_LEN_def DHCP_OPTIONS_LEN_def write_first_def overwrite_def
      unat_of_nat_u16 del: of_nat_Suc) (simp add: add.commute)

fun emit :: "u8 list \<Rightarrow> dhcp \<Rightarrow> dhcp option" where
  "emit [] d = Some d"
| "emit (v # vs) d = Option.bind (dhcp_option_byte v d) (emit vs)"

lemma emit_out:
  "length h = MSG_LEN \<Longrightarrow> length w + length r = DHCP_OPTIONS_LEN \<Longrightarrow> length vs \<le> length r \<Longrightarrow>
    emit vs (with_out d b h w r) = Some (with_out d b h (w @ vs) (drop (length vs) r))"
proof (induction vs arbitrary: w r)
  case (Cons v vs)
  then obtain x q where r: "r = x # q" by (cases r) auto
  then show ?case using Cons by (simp add: option_byte_out)
qed simp

lemma emits:
  "dhcp_option_byte v = emit [v]" "dhcp_option ty len = emit [ty, len]"
  "dhcp_option_short m = emit [ucast (drop_bit 8 m), ucast m]"
  "dhcp_option_long x = emit [ucast (drop_bit 24 x), ucast (drop_bit 16 x), ucast (drop_bit 8 x), ucast x]"
  by (auto simp: fun_eq_iff dhcp_option_def dhcp_option_short_def dhcp_option_long_def Option.bind_eq_Some_conv
      cong: Option.bind_cong split: Option.bind_splits)

definition long_bytes :: "u32 \<Rightarrow> u8 list" where
  "long_bytes x = [ucast (drop_bit 24 x), ucast (drop_bit 16 x), ucast (drop_bit 8 x), ucast x]"

abbreviation param_bytes :: "u8 list" where
  "param_bytes \<equiv> [DHCP_OPTION_PARAMETER_REQUEST_LIST, 4, DHCP_OPTION_SUBNET_MASK, DHCP_OPTION_ROUTER, DHCP_OPTION_BROADCAST, DHCP_OPTION_DNS_SERVER]"

definition size_bytes :: "u16 \<Rightarrow> u8 list" where
  "size_bytes m = [DHCP_OPTION_MAX_MSG_SIZE, 2, ucast (drop_bit 8 m), ucast m]"

text \<open>The options of each message.\<close>

definition discover_bytes :: "u16 \<Rightarrow> u8 list" where
  "discover_bytes m = [DHCP_OPTION_MESSAGE_TYPE, 1, DHCP_DISCOVER] @ size_bytes m @ param_bytes"

definition select_bytes :: "u16 \<Rightarrow> u32 \<Rightarrow> u32 \<Rightarrow> u8 list" where
  "select_bytes m offered server =
     [DHCP_OPTION_MESSAGE_TYPE, 1, DHCP_REQUEST] @ size_bytes m @ [DHCP_OPTION_REQUESTED_IP, 4] @ long_bytes (ntohl offered)
       @ [DHCP_OPTION_SERVER_ID, 4] @ long_bytes (ntohl server) @ param_bytes"

definition renew_bytes :: "u16 \<Rightarrow> u8 list" where
  "renew_bytes m = [DHCP_OPTION_MESSAGE_TYPE, 1, DHCP_REQUEST] @ size_bytes m"

definition decline_bytes :: "u32 \<Rightarrow> u8 list" where
  "decline_bytes offered = [DHCP_OPTION_MESSAGE_TYPE, 1, DHCP_DECLINE, DHCP_OPTION_REQUESTED_IP, 4] @ long_bytes (ntohl offered)"

definition release_bytes :: "u8 list" where
  "release_bytes = [DHCP_OPTION_MESSAGE_TYPE, 1, DHCP_RELEASE]"

lemmas option_bytes = discover_bytes_def select_bytes_def renew_bytes_def decline_bytes_def release_bytes_def size_bytes_def long_bytes_def

text \<open>\<open>writes f ws\<close>: on a new message of the client, \<open>f\<close> writes the options \<open>ws\<close>.\<close>

definition writes :: "(dhcp \<Rightarrow> dhcp option) \<Rightarrow> dhcp \<Rightarrow> u8 list \<Rightarrow> bool" where
  "writes f d ws \<longleftrightarrow> length ws < DHCP_OPTIONS_LEN
     \<and> (\<forall>b h r. length h = MSG_LEN \<longrightarrow> length r = DHCP_OPTIONS_LEN \<longrightarrow> f (with_out d b h [] r) = Some (with_out d b h ws (drop (length ws) r)))"

lemma options_written:
  "writes (discover_options m) d (discover_bytes m)"
  "writes (select_options m) d (select_bytes m (offered_ip_addr d) (server_ip_addr d))"
  "writes (renew_options m) d (renew_bytes m)"
  "writes decline_options d (decline_bytes (offered_ip_addr d))"
  "writes release_options d release_bytes"
  by (simp_all add: writes_def discover_options_def select_options_def renew_options_def decline_options_def release_options_def
      param_list_def emits emit_out option_bytes DHCP_OPTIONS_LEN_def del: emit.simps)

text \<open>The trailer fills the array.\<close>

definition option_array :: "u8 list \<Rightarrow> u8 list" where
  "option_array ws = ws @ [DHCP_OPTION_END] @ replicate (DHCP_OPTIONS_LEN - Suc (length ws)) 0"

lemma length_option_array [simp]: "length ws < DHCP_OPTIONS_LEN \<Longrightarrow> length (option_array ws) = DHCP_OPTIONS_LEN"
  by (simp add: option_array_def)

lemma pad_out:
  "length h = MSG_LEN \<Longrightarrow> length w + length r = DHCP_OPTIONS_LEN \<Longrightarrow>
    dhcp_pad (with_out d b h w r) = Some (with_out d b h (w @ replicate (length r) 0) [])"
proof (induction r arbitrary: w)
  case Nil
  then have "options_out_len (with_out d b h w []) = 68" by (simp add: with_out_def DHCP_OPTIONS_LEN_def)
  then show ?case by (subst dhcp_pad.simps) (simp add: DHCP_MIN_OPTIONS_LEN_def)
next
  case (Cons x r)
  have "options_out_len (with_out d b h w (x # r)) < DHCP_MIN_OPTIONS_LEN"
    using Cons.prems by (simp add: with_out_def DHCP_MIN_OPTIONS_LEN_def DHCP_OPTIONS_LEN_def word_less_nat_alt unat_of_nat_u16)
  then show ?case
    using Cons.IH [of "w @ [0]"] Cons.prems by (subst dhcp_pad.simps) (simp add: option_byte_out)
qed

lemma trailer_out:
  assumes "length h = MSG_LEN" "length w + length r = DHCP_OPTIONS_LEN" "length w < DHCP_OPTIONS_LEN"
  shows "dhcp_option_trailer (with_out d b h w r) = Some (with_out d b h (option_array w) [])"
proof -
  obtain x q where r: "r = x # q" using assms by (cases r) auto
  then have "length q = DHCP_OPTIONS_LEN - Suc (length w)" using assms(2) by simp
  then show ?thesis using assms r by (simp add: dhcp_option_trailer_def option_byte_out pad_out option_array_def)
qed

lemma shrink_with_out: "shrink_out (with_out d b h w []) = with_out d b h w []" if "length h = MSG_LEN" "length w < 65536"
  using that by (simp add: shrink_out_def with_out_def chain_realloc_def contents_def unat_of_nat_u16)

lemma put_message_out:
  assumes "writes f d ws" "dhcps s n = with_out d b h [] r" "length h = MSG_LEN" "length r = DHCP_OPTIONS_LEN"
  shows "put_message n f s = Some (set_dhcp n (\<lambda>_. with_out d b h (option_array ws) []) s)"
proof -
  have l: "length ws < DHCP_OPTIONS_LEN" "length (option_array ws) < 65536" using assms(1) by (auto simp: writes_def DHCP_OPTIONS_LEN_def)
  have "f (with_out d b h [] r) = Some (with_out d b h ws (drop (length ws) r))" using assms by (simp add: writes_def)
  then show ?thesis
    using l assms(3,4) by (simp add: put_message_def assms(2) trailer_out shrink_with_out)
qed

section \<open>What a request leaves as it was\<close>

text \<open>The interfaces, and the control blocks of UDP up to the other end they are connected to.\<close>

definition same_stack :: "stack \<Rightarrow> stack \<Rightarrow> bool" where
  "same_stack k l \<longleftrightarrow> netif_list l = netif_list k \<and> netif_default l = netif_default k \<and> dhcp_pcb l = dhcp_pcb k
     \<and> udp_pcbs l = udp_pcbs k \<and> udp_free l = udp_free k
     \<and> (\<forall>a. udp_local_port (udp_mem l a) = udp_local_port (udp_mem k a) \<and> udp_local_ip (udp_mem l a) = udp_local_ip (udp_mem k a)
          \<and> udp_recv_set (udp_mem l a) = udp_recv_set (udp_mem k a))"

lemma same_stack_refl [simp]: "same_stack k k"
  by (simp add: same_stack_def)

lemma same_stack_trans [trans]: "same_stack k l \<Longrightarrow> same_stack l m \<Longrightarrow> same_stack k m"
  by (simp add: same_stack_def)

lemma same_stack_log [simp]: "same_stack k (log_op x l) = same_stack k l" "same_stack (log_op x k) l = same_stack k l"
  by (simp_all add: same_stack_def)

lemma try_alloc_same: "try_alloc k = (ok, l) \<Longrightarrow> same_stack k l"
  by (auto simp: try_alloc_def same_stack_def split: list.splits)

lemma netif_output_same: "netif_output n p dest k = (e, l) \<Longrightarrow> same_stack k l"
  by (auto simp: netif_output_def same_stack_def split: list.splits)

lemma same_stack_update [simp]:
  "same_stack k (l\<lparr>frag_buf := x\<rparr>) = same_stack k l" "same_stack (k\<lparr>frag_buf := x\<rparr>) l = same_stack k l"
  "same_stack k (l\<lparr>ip_id := i\<rparr>) = same_stack k l" "same_stack (k\<lparr>ip_id := i\<rparr>) l = same_stack k l"
  by (simp_all add: same_stack_def)

lemma frag_loop_same:
  assumes "frag_loop p n dest m nfb omf left ofo poff k = Some (e, l)"
  shows "same_stack k l"
proof -
  have "same_stack k (snd (e, l))"
  proof (rule frag_loop.raw_induct [where P = "\<lambda>p n dest m nfb omf left ofo poff k y. same_stack k (snd y)", OF _ assms], goal_cases)
    case (1 rec p n dest m nfb omf left ofo poff k y)
    show ?case
      using 1(2) by (simp add: Let_def split: if_splits prod.splits)
        (auto dest!: 1(1) try_alloc_same netif_output_same intro: same_stack_trans)
  qed
  then show ?thesis by simp
qed

lemma ip_frag_same: "ip_frag p n dest k = Some (e, l) \<Longrightarrow> same_stack k l"
  by (auto simp: ip_frag_def Let_def split: if_splits prod.splits dest!: frag_loop_same try_alloc_same intro: same_stack_trans)

lemma ip_output_if_same: "ip_output_if p src dest ttl tos proto n k = Some (e, l) \<Longrightarrow> same_stack k l"
  by (auto simp: ip_output_if_def Let_def split: if_splits option.splits dest!: ip_frag_same netif_output_same)

lemma ip_output_same: "ip_output p src dest ttl tos proto k = Some (e, l) \<Longrightarrow> same_stack k l"
  using ip_output_if_same by (auto simp: ip_output_def split: option.splits)

text \<open>TCP: what it sends goes the same way, and the callbacks for an error of an application are polite.\<close>

definition polite :: "'a tcp_app \<Rightarrow> bool" where
  "polite app \<longleftrightarrow> (\<forall>c arg e s r t. app (Ev_err c arg e) s = Some (r, t) \<longrightarrow> same_stack (tcp_ip s) (tcp_ip t))"

lemma tcp_ip_output_same: "tcp_ip_output p src dest ttl tos s = Some t \<Longrightarrow> same_stack (tcp_ip s) (tcp_ip t)"
  by (auto simp: tcp_ip_output_def dest!: ip_output_same)

lemma send_header_same: "send_header h xs src dest ttl tos s = Some t \<Longrightarrow> same_stack (tcp_ip s) (tcp_ip t)"
  by (auto simp: send_header_def Let_def tcp_log_def dest!: tcp_ip_output_same)

lemma tcp_try_alloc_same: "tcp_try_alloc s = (ok, t) \<Longrightarrow> same_stack (tcp_ip s) (tcp_ip t)"
  by (auto simp: tcp_try_alloc_def dest!: try_alloc_same split: prod.splits)

lemma tcp_rst_same: "tcp_rst sq ack src dest sp dp s = Some t \<Longrightarrow> same_stack (tcp_ip s) (tcp_ip t)"
  by (auto simp: tcp_rst_def Let_def dest!: tcp_try_alloc_same send_header_same intro: same_stack_trans split: prod.splits if_splits)

lemma tcp_output_segment_same: "tcp_output_segment sg a s = Some (sg', t) \<Longrightarrow> same_stack (tcp_ip s) (tcp_ip t)"
  by (auto simp: tcp_output_segment_def Let_def dest!: tcp_ip_output_same split: option.splits)

lemma output_loop_same: "output_loop a wnd sgs s = Some t \<Longrightarrow> same_stack (tcp_ip s) (tcp_ip t)"
proof (induction sgs arbitrary: s)
  case (Cons sg sgs)
  from Cons.prems show ?case
    by (auto simp: Let_def tcp_seg_free_def tcp_log_def Option.bind_eq_Some_conv
        dest!: Cons.IH tcp_output_segment_same intro: same_stack_trans split: if_splits)
qed simp

lemma tcp_output_same: "tcp_output a s = Some (e, t) \<Longrightarrow> same_stack (tcp_ip s) (tcp_ip t)"
  by (auto simp: tcp_output_def Let_def tcp_output_set_header_def Option.bind_eq_Some_conv
      dest!: output_loop_same tcp_try_alloc_same send_header_same intro: same_stack_trans split: if_splits prod.splits option.splits)

lemma tcp_segs_free_same [simp]: "same_stack k (tcp_ip (tcp_segs_free sgs s)) = same_stack k (tcp_ip s)"
proof -
  have "same_stack k (tcp_ip (fold tcp_seg_free sgs s)) = same_stack k (tcp_ip s)" for s :: "'a tcp"
    by (induction sgs arbitrary: s) (simp_all add: tcp_seg_free_def tcp_log_def)
  then show ?thesis by (simp add: tcp_segs_free_def)
qed

lemma tcp_pcb_purge_same [simp]: "same_stack k (tcp_ip (tcp_pcb_purge a s)) = same_stack k (tcp_ip s)"
  by (simp add: tcp_pcb_purge_def Let_def free_refused_def tcp_log_def split: option.splits)

lemma rmv_same [simp]: "tcp_ip (rmv_active a s) = tcp_ip s" "tcp_ip (rmv_tw a s) = tcp_ip s"
  by (simp_all add: rmv_active_def rmv_tw_def)

lemma tcp_pcb_remove_same:
  assumes "tcp_pcb_remove rmv a s = Some t" "\<And>s :: 'a tcp. tcp_ip (rmv a s) = tcp_ip s"
  shows "same_stack (tcp_ip s) (tcp_ip t)"
proof -
  have p: "same_stack (tcp_ip s) (tcp_ip (tcp_pcb_purge a (rmv a s)))" by (simp add: assms(2))
  show ?thesis
    using assms(1) p
    by (auto simp: tcp_pcb_remove_def Let_def set_state_def dest!: tcp_output_same intro: same_stack_trans [OF p] split: if_splits)
qed

lemma tcp_abort_same:
  assumes "polite app" "tcp_abort app a s = Some t"
  shows "same_stack (tcp_ip s) (tcp_ip t)"
proof (cases "t_state (tcp_mem s a) = TIME_WAIT")
  case True
  then show ?thesis using assms(2)
    by (auto simp: tcp_abandon_def Let_def free_tcb_def dest!: tcp_pcb_remove_same)
next
  case False
  let ?p = "tcp_mem s a"
  from False assms(2) obtain u v where
    u: "tcp_pcb_remove rmv_active a s = Some u"
      "TCP_EVENT_ERR app (errf_cb ?p) (callback_arg ?p) ERR_ABRT
        (free_tcb a (tcp_segs_free (unsent (tcp_mem u a)) (tcp_segs_free (unacked (tcp_mem u a)) u))) = Some v"
      "tcp_rst (snd_nxt ?p) (rcv_nxt ?p) (t_local_ip ?p) (t_remote_ip ?p) (t_local_port ?p) (t_remote_port ?p) v = Some t"
    by (auto simp: tcp_abandon_def Let_def Option.bind_eq_Some_conv)
  have "same_stack (tcp_ip s) (tcp_ip u)" using u(1) by (rule tcp_pcb_remove_same) simp
  also have "same_stack (tcp_ip u) (tcp_ip v)"
  proof -
    have "same_stack (tcp_ip u) (tcp_ip (free_tcb a (tcp_segs_free (unsent (tcp_mem u a)) (tcp_segs_free (unacked (tcp_mem u a)) u))))"
      by (simp add: free_tcb_def)
    then show ?thesis using u(2) assms(1)
      by (auto simp: TCP_EVENT_ERR_def polite_def intro: same_stack_trans split: tcp_callback.splits)
  qed
  also have "same_stack (tcp_ip v) (tcp_ip t)" using u(3) by (rule tcp_rst_same)
  finally show ?thesis .
qed

lemma abort_loop_same:
  assumes "polite app" "abort_loop app ip here s = Some t"
  shows "same_stack (tcp_ip s) (tcp_ip t)"
proof -
  have "polite app \<longrightarrow> same_stack (tcp_ip s) (tcp_ip t)"
  proof (rule abort_loop.raw_induct [where P = "\<lambda>app ip here s t. polite app \<longrightarrow> same_stack (tcp_ip s) (tcp_ip t)", OF _ assms(2)], goal_cases)
    case (1 rec app ip here s t)
    show ?case
      using 1(2) by (auto simp: Let_def Option.bind_eq_Some_conv dest!: 1(1) tcp_abort_same intro: same_stack_trans split: option.splits if_splits)
  qed
  then show ?thesis using assms(1) by simp
qed

lemma move_listener_ip [simp]: "tcp_ip (fold (move_listener old new) as s) = tcp_ip s"
  by (induction as arbitrary: s) (simp_all add: move_listener_def)

lemma new_address_same:
  assumes "polite app" "new_address app old new s = Some t"
  shows "same_stack (tcp_ip s) (tcp_ip t)"
  using assms(2) by (auto simp: new_address_def dest!: abort_loop_same [OF assms(1)] split: if_splits)

section \<open>Sending a request\<close>

lemma on_stack_simps [simp]:
  "net_ip (on_stack f s) = f (net_ip s)" "netif_ids (on_stack f s) = netif_ids s" "netifnum (on_stack f s) = netifnum s"
  "dhcps (on_stack f s) = dhcps s" "global_xid (on_stack f s) = global_xid s"
  "tcp_ip_update g (net_tcp (on_stack f s)) = (net_tcp s)\<lparr>tcp_ip := g (f (net_ip s))\<rparr>"
  by (simp_all add: on_stack_def)

lemma set_dhcp_simps [simp]:
  "net_tcp (set_dhcp n f s) = net_tcp s" "netif_ids (set_dhcp n f s) = netif_ids s" "netifnum (set_dhcp n f s) = netifnum s"
  "dhcps (set_dhcp n f s) = (dhcps s)(n := f (dhcps s n))" "global_xid (set_dhcp n f s) = global_xid s"
  by (simp_all add: set_dhcp_def)

lemma set_netif_simps [simp]:
  "net_ip (set_netif n f s) = (net_ip s)\<lparr>netif_list := (netif_list (net_ip s))[n := f (netif_at s n)]\<rparr>"
  "netif_ids (set_netif n f s) = netif_ids s" "netifnum (set_netif n f s) = netifnum s"
  "dhcps (set_netif n f s) = dhcps s" "global_xid (set_netif n f s) = global_xid s"
  "tcp_ip_update g (net_tcp (set_netif n f s))
     = (net_tcp s)\<lparr>tcp_ip := g ((net_ip s)\<lparr>netif_list := (netif_list (net_ip s))[n := f (netif_at s n)]\<rparr>)\<rparr>"
  by (simp_all add: set_netif_def)

text \<open>A client that can send: the interface and the control block of \<open>dhcp_start\<close>.\<close>

definition ready :: "'a nets \<Rightarrow> nat \<Rightarrow> bool" where
  "ready s n \<longleftrightarrow> n < length (netif_list (net_ip s)) \<and> has_client s n \<and> 576 \<le> unat (mtu (netif_at s n)) \<and> chaddr_of (netif_at s n) \<noteq> None
     \<and> (\<exists>a. dhcp_pcb (net_ip s) n = Some a \<and> a \<in> set (udp_pcbs (net_ip s)) \<and> udp_local_port (udp_mem (net_ip s) a) = DHCP_CLIENT_PORT
          \<and> udp_local_ip (udp_mem (net_ip s) a) = 0)"

definition same_net :: "nat \<Rightarrow> 'a nets \<Rightarrow> 'a nets \<Rightarrow> bool" where
  "same_net n s t \<longleftrightarrow> same_stack (net_ip s) (net_ip t) \<and> (\<forall>k. (net_tcp t)\<lparr>tcp_ip := k\<rparr> = (net_tcp s)\<lparr>tcp_ip := k\<rparr>)
     \<and> netif_ids t = netif_ids s \<and> netifnum t = netifnum s \<and> (\<forall>m. m \<noteq> n \<longrightarrow> dhcps t m = dhcps s m)"

lemma same_net_refl [simp]: "same_net n s s"
  by (simp add: same_net_def)

lemma same_net_trans [trans]: "same_net n s t \<Longrightarrow> same_net n t u \<Longrightarrow> same_net n s u"
  unfolding same_net_def using same_stack_trans by metis

lemma same_net_netifs: "same_net n s t \<Longrightarrow> netif_list (net_ip t) = netif_list (net_ip s)"
  by (simp add: same_net_def same_stack_def)

lemma ready_same: "same_net n s t \<Longrightarrow> ready t m = ready s m"
  by (simp add: same_net_def same_stack_def ready_def has_client_def)

text \<open>A packet that carries a message.\<close>

definition dhcp_packet :: "u32 \<Rightarrow> u32 \<Rightarrow> u8 list \<Rightarrow> chain \<Rightarrow> bool" where
  "dhcp_packet src dest msg q \<longleftrightarrow> (\<exists>tos ident ttl. contents q = ip_header tos 336 ident ttl IP_PROTO_UDP src dest
     @ udp_header DHCP_CLIENT_PORT DHCP_SERVER_PORT 316 @ msg)"

text \<open>What is known after a message was sent: the frame and the release of the message are what the stack has done.\<close>

definition sent :: "nat \<Rightarrow> u32 \<Rightarrow> u8 list \<Rightarrow> 'a nets \<Rightarrow> 'a nets \<Rightarrow> bool" where
  "sent n dest msg s t \<longleftrightarrow> same_net n s t \<and> dhcps t n = (dhcps s n)\<lparr>p_out := None\<rparr> \<and> global_xid t = global_xid s
     \<and> allocs (net_ip t) = allocs (net_ip s)
     \<and> (\<exists>q b. dhcp_packet (ip_addr (netif_at s n)) dest msg q \<and> body b = msg
          \<and> ip_ops (net_ip t) = ip_ops (net_ip s) @ [Netif_output n q dest, Free_chain [b]])"

lemma dhcp_connect_ok:
  assumes "ready s n"
  shows "\<exists>t. dhcp_connect n addr s = Some t \<and> same_net n s t \<and> dhcps t = dhcps s \<and> global_xid t = global_xid s
    \<and> allocs (net_ip t) = allocs (net_ip s) \<and> ip_ops (net_ip t) = ip_ops (net_ip s)"
proof -
  obtain a where a: "dhcp_pcb (net_ip s) n = Some a" "a \<in> set (udp_pcbs (net_ip s))" "udp_local_port (udp_mem (net_ip s) a) \<noteq> 0"
    using assms by (auto simp: ready_def DHCP_CLIENT_PORT_def)
  then show ?thesis
    by (auto simp: dhcp_connect_def udp_connect_def set_udp_def same_net_def same_stack_def Let_def)
qed

lemma dhcp_sendto_ok:
  assumes r: "ready s n" and p: "p_out (dhcps s n) = Some [b]" "btype b = PBUF_RAM" "28 \<le> length (front b)" "length (body b) = 308"
  shows "\<exists>t. dhcp_sendto n addr s = Some t \<and> same_net n s t \<and> dhcps t = dhcps s \<and> global_xid t = global_xid s
    \<and> allocs (net_ip t) = allocs (net_ip s)
    \<and> (\<exists>q. dhcp_packet (ip_addr (netif_at s n)) addr (body b) q \<and> ip_ops (net_ip t) = ip_ops (net_ip s) @ [Netif_output n q addr])"
proof -
  let ?k = "net_ip s"
  obtain a where a: "dhcp_pcb ?k n = Some a" "udp_local_port (udp_mem ?k a) = DHCP_CLIENT_PORT" "udp_local_ip (udp_mem ?k a) = 0"
    using r by (auto simp: ready_def)
  have l: "length (contents [b]) = 308" "contents [b] = body b" using p(4) by (simp_all add: contents_def)
  have b: "has_room (btype b)" "28 \<le> length (front b)" "length (contents [b]) + 28 < 65536" using p l by simp_all
  have port: "DHCP_CLIENT_PORT \<noteq> 0" by (simp add: DHCP_CLIENT_PORT_def)
  obtain q where q: "contents q = ip_header (udp_tos (udp_mem ?k a)) 336 (ip_id ?k) (udp_ttl (udp_mem ?k a)) IP_PROTO_UDP
        (ip_addr (netif_list ?k ! n)) addr @ udp_header DHCP_CLIENT_PORT DHCP_SERVER_PORT 316 @ body b"
      "udp_sendto_if a [b] addr DHCP_SERVER_PORT n ?k = Some (netif_output n q addr (?k\<lparr>ip_id := ip_id ?k + 1\<rparr>))"
    using udp_sendto_if_packet [OF b a(2) port a(3) refl, of n addr DHCP_SERVER_PORT] r l by (auto simp: ready_def)
  have "dhcp_packet (ip_addr (netif_at s n)) addr (body b) q" using q(1) by (auto simp: dhcp_packet_def)
  then show ?thesis
    by (auto simp: dhcp_sendto_def a(1) p(1) q(2) drop_Suc_answers same_net_def same_stack_def intro!: exI [of _ q])
qed

lemma ready_dhcp [simp]: "ready (set_dhcp m f s) n = ready s n" "ready (s\<lparr>global_xid := x\<rparr>) n = ready s n"
  by (simp_all add: ready_def has_client_def)

lemma send_tail:
  assumes r: "ready s n" and p: "dhcps s n = with_out d b h w []" "btype b = PBUF_RAM" "28 \<le> length (front b)" "length (h @ w) = 308"
  shows "\<exists>t. dhcp_connect n c s \<bind> (\<lambda>s. dhcp_sendto n addr s \<bind> (\<lambda>s. Some (dhcp_delete_request n s))) = Some t \<and> sent n addr (h @ w) s t"
    "\<exists>t. dhcp_sendto n addr s \<bind> (\<lambda>s. dhcp_connect n c s \<bind> (\<lambda>s. Some (dhcp_delete_request n s))) = Some t \<and> sent n addr (h @ w) s t"
proof -
  let ?b = "b\<lparr>body := h @ w\<rparr>"
  have p': "p_out (dhcps s n) = Some [?b]" "btype ?b = PBUF_RAM" "28 \<le> length (front ?b)" "length (body ?b) = 308"
    using p by (simp_all add: with_out_def)
  have del: "sent n addr (h @ w) s (dhcp_delete_request n t)"
    if "same_net n s t" "dhcps t = dhcps s" "global_xid t = global_xid s" "allocs (net_ip t) = allocs (net_ip s)"
      "dhcp_packet (ip_addr (netif_at s n)) addr (h @ w) q" "ip_ops (net_ip t) = ip_ops (net_ip s) @ [Netif_output n q addr]" for t q
    using that p'(1) by (auto simp: sent_def dhcp_delete_request_def same_net_def intro!: exI [of _ q] exI [of _ ?b])
  obtain t where t: "dhcp_connect n c s = Some t" "same_net n s t" "dhcps t = dhcps s" "global_xid t = global_xid s"
      "allocs (net_ip t) = allocs (net_ip s)" "ip_ops (net_ip t) = ip_ops (net_ip s)"
    using dhcp_connect_ok [OF r] by blast
  obtain u q where u: "dhcp_sendto n addr t = Some u" "same_net n t u" "dhcps u = dhcps t" "global_xid u = global_xid t"
      "allocs (net_ip u) = allocs (net_ip t)" "dhcp_packet (ip_addr (netif_at t n)) addr (body ?b) q"
      "ip_ops (net_ip u) = ip_ops (net_ip t) @ [Netif_output n q addr]"
    using dhcp_sendto_ok [of t n ?b addr] ready_same [OF t(2)] r p' t(3) by auto
  have "sent n addr (h @ w) s (dhcp_delete_request n u)"
    by (rule del [of u q]) (use t u same_net_netifs [OF t(2)] same_net_trans [OF t(2) u(2)] in simp_all)
  then show "\<exists>t. dhcp_connect n c s \<bind> (\<lambda>s. dhcp_sendto n addr s \<bind> (\<lambda>s. Some (dhcp_delete_request n s))) = Some t \<and> sent n addr (h @ w) s t"
    by (simp add: t(1) u(1))
  obtain v q where v: "dhcp_sendto n addr s = Some v" "same_net n s v" "dhcps v = dhcps s" "global_xid v = global_xid s"
      "allocs (net_ip v) = allocs (net_ip s)" "dhcp_packet (ip_addr (netif_at s n)) addr (body ?b) q"
      "ip_ops (net_ip v) = ip_ops (net_ip s) @ [Netif_output n q addr]"
    using dhcp_sendto_ok [OF r p'] by blast
  obtain w' where w: "dhcp_connect n c v = Some w'" "same_net n v w'" "dhcps w' = dhcps v" "global_xid w' = global_xid v"
      "allocs (net_ip w') = allocs (net_ip v)" "ip_ops (net_ip w') = ip_ops (net_ip v)"
    using dhcp_connect_ok [of v n c] ready_same [OF v(2)] r by auto
  have "sent n addr (h @ w) s (dhcp_delete_request n w')"
    by (rule del [of w' q]) (use v w same_net_trans [OF v(2) w(2)] in simp_all)
  then show "\<exists>t. dhcp_sendto n addr s \<bind> (\<lambda>s. dhcp_connect n c s \<bind> (\<lambda>s. Some (dhcp_delete_request n s))) = Some t \<and> sent n addr (h @ w) s t"
    by (simp add: v(1) w(1))
qed

text \<open>A new transaction starts with the first try.\<close>

definition next_xid :: "'a nets \<Rightarrow> nat \<Rightarrow> u32" where
  "next_xid s n = (if tries s n = 0 then global_xid s + 1 else global_xid s)"

definition message_head :: "'a nets \<Rightarrow> nat \<Rightarrow> u8 list" where
  "message_head s n = dhcp_header (next_xid s n)
     (if dstate (dhcps s n) \<in> {DHCP_BOUND, DHCP_RENEWING, DHCP_REBINDING} then ip_addr (netif_at s n) else 0) (the (chaddr_of (netif_at s n)))"

lemma length_dhcp_header: "length chaddr = 16 \<Longrightarrow> length (dhcp_header ident c chaddr) = MSG_LEN"
  by (simp add: dhcp_header_def MSG_LEN_def DHCP_SNAME_LEN_def DHCP_FILE_LEN_def)

lemma length_chaddr_of: "chaddr_of i = Some c \<Longrightarrow> length c = 16"
  by (auto simp: chaddr_of_def DHCP_CHADDR_LEN_def split: if_splits)

lemma length_message_head: "ready s n \<Longrightarrow> length (message_head s n) = MSG_LEN"
  unfolding message_head_def by (rule length_dhcp_header) (auto simp: ready_def intro: length_chaddr_of)

lemma create_request_result:
  assumes r: "ready s n"
  shows "(\<exists>bs t. allocs (net_ip s) = False # bs \<and> dhcp_create_request n s = Some (ERR_MEM, t) \<and> same_net n s t \<and> dhcps t = dhcps s
      \<and> global_xid t = global_xid s \<and> ip_ops (net_ip t) = ip_ops (net_ip s) \<and> allocs (net_ip t) = bs)
    \<or> ((\<forall>bs. allocs (net_ip s) \<noteq> False # bs) \<and> (\<exists>t b r. dhcp_create_request n s = Some (ERR_OK, t) \<and> same_net n s t
      \<and> dhcps t n = with_out ((dhcps s n)\<lparr>xid := next_xid s n\<rparr>) b (message_head s n) [] r \<and> length r = DHCP_OPTIONS_LEN
      \<and> btype b = PBUF_RAM \<and> 28 \<le> length (front b) \<and> global_xid t = next_xid s n
      \<and> ip_ops (net_ip t) = ip_ops (net_ip s) \<and> allocs (net_ip t) = tl (allocs (net_ip s))))"
proof (cases "\<exists>bs. allocs (net_ip s) = False # bs")
  case True
  then obtain bs where bs: "allocs (net_ip s) = False # bs" by blast
  then have "dhcp_create_request n s = Some (ERR_MEM, on_stack (\<lambda>_. (net_ip s)\<lparr>allocs := bs\<rparr>) s)"
    using r by (simp add: dhcp_create_request_def ready_def mem_malloc_ok_def try_alloc_def)
  then show ?thesis using bs by (intro disjI1) (auto simp: same_net_def same_stack_def)
next
  case False
  let ?k = "(net_ip s)\<lparr>allocs := tl (allocs (net_ip s))\<rparr>"
  have "try_alloc (net_ip s) = (True, ?k)"
    using False by (cases "net_ip s") (auto simp: try_alloc_def split: list.splits bool.splits)
  then have m: "mem_malloc_ok s = (True, on_stack (\<lambda>_. ?k) s)" by (simp add: mem_malloc_ok_def)
  obtain c where c: "chaddr_of (netif_at s n) = Some c" using r by (auto simp: ready_def)
  let ?g = "garbage (net_ip s)" and ?x = "next_xid s n"
  let ?b = "ram_buf ?g PBUF_TRANSPORT (MSG_LEN + DHCP_OPTIONS_LEN)" and ?r = "map of_nat [0..<DHCP_OPTIONS_LEN] :: u8 list"
  let ?t = "set_dhcp n (\<lambda>d. with_out (d\<lparr>xid := ?x\<rparr>) ?b (message_head s n) [] ?r) ((on_stack (\<lambda>_. ?k) s)\<lparr>global_xid := ?x\<rparr>)"
  have "dhcp_create_request n s = Some (ERR_OK, ?t)"
    using r c by (simp add: dhcp_create_request_def m ready_def has_client_def tries_def next_xid_def message_head_def with_out_def Let_def)
  moreover have "btype ?b = PBUF_RAM" "28 \<le> length (front ?b)"
    by (simp_all add: ram_buf_def Let_def header_offset_def SIZEOF_STRUCT_PBUF_def align4_def PBUF_TRANSPORT_HLEN_def PBUF_IP_HLEN_def PBUF_LINK_HLEN_def)
  ultimately show ?thesis using False
    by (intro disjI2 conjI exI [of _ ?t] exI [of _ ?b] exI [of _ ?r]) (auto simp: same_net_def same_stack_def)
qed

text \<open>The two outcomes of a request: the message was sent, or there was no memory for it.\<close>

definition asked :: "nat \<Rightarrow> u32 \<Rightarrow> u8 list \<Rightarrow> 'a nets \<Rightarrow> 'a nets \<Rightarrow> bool" where
  "asked n dest ws s t \<longleftrightarrow> same_net n s t \<and> dhcps t n = (dhcps s n)\<lparr>xid := next_xid s n, p_out := None, options_out_len := 68\<rparr>
     \<and> global_xid t = next_xid s n \<and> (\<forall>bs. allocs (net_ip s) \<noteq> False # bs) \<and> allocs (net_ip t) = tl (allocs (net_ip s))
     \<and> (\<exists>q b. dhcp_packet (ip_addr (netif_at s n)) dest (message_head s n @ option_array ws) q \<and> body b = message_head s n @ option_array ws
          \<and> ip_ops (net_ip t) = ip_ops (net_ip s) @ [Netif_output n q dest, Free_chain [b]])"

definition no_memory :: "nat \<Rightarrow> 'a nets \<Rightarrow> 'a nets \<Rightarrow> bool" where
  "no_memory n s t \<longleftrightarrow> same_net n s t \<and> dhcps t = dhcps s \<and> global_xid t = global_xid s \<and> ip_ops (net_ip t) = ip_ops (net_ip s)
     \<and> allocs (net_ip s) = False # allocs (net_ip t)"

text \<open>\<open>tail\<close>, the last part of a request, sends the message of a client that has the given server to \<open>dest\<close>.\<close>

definition delivers :: "nat \<Rightarrow> u32 \<Rightarrow> u32 \<Rightarrow> ('a nets \<Rightarrow> 'a nets option) \<Rightarrow> bool" where
  "delivers n server dest tail \<longleftrightarrow>
     (\<forall>u d b h w. ready u n \<and> dhcps u n = with_out d b h w [] \<and> server_ip_addr d = server \<and> btype b = PBUF_RAM
        \<and> 28 \<le> length (front b) \<and> length (h @ w) = 308 \<longrightarrow> (\<exists>t. tail u = Some t \<and> sent n dest (h @ w) u t))"

lemma delivers_connect_send:
  "delivers n server dest (\<lambda>s. dhcp_connect n c s \<bind> (\<lambda>s. dhcp_sendto n dest s \<bind> (\<lambda>s. Some (dhcp_delete_request n s))))"
  unfolding delivers_def by (blast intro: send_tail(1))

lemma delivers_send_connect:
  "delivers n server dest (\<lambda>s. dhcp_sendto n dest s \<bind> (\<lambda>s. dhcp_connect n c s \<bind> (\<lambda>s. Some (dhcp_delete_request n s))))"
  unfolding delivers_def by (blast intro: send_tail(2))

lemma delivers_server:
  "delivers n server server (\<lambda>s. dhcp_connect n (server_ip_addr (dhcps s n)) s
     \<bind> (\<lambda>s. dhcp_sendto n (server_ip_addr (dhcps s n)) s \<bind> (\<lambda>s. Some (dhcp_delete_request n s))))"
proof -
  have "dhcp_connect n c s \<bind> (\<lambda>s. dhcp_sendto n (server_ip_addr (dhcps s n)) s \<bind> (\<lambda>s. Some (dhcp_delete_request n s)))
      = dhcp_connect n c s \<bind> (\<lambda>t. dhcp_sendto n (server_ip_addr (dhcps s n)) t \<bind> (\<lambda>s. Some (dhcp_delete_request n s)))" for c and s :: "'a nets"
    by (cases "dhcp_pcb (net_ip s) n") (simp_all add: dhcp_connect_def)
  then show ?thesis unfolding delivers_def using send_tail(1) [where addr = server] by auto
qed

lemma request_result:
  assumes r: "ready s n" and w: "writes (F (mtu (netif_at s n))) ((dhcps s n)\<lparr>xid := next_xid s n\<rparr>) ws"
    and tail: "delivers n (server_ip_addr (dhcps s n)) dest tail"
  shows "\<exists>e t. dhcp_create_request n s
      \<bind> (\<lambda>(result, s). (if result = ERR_OK then put_message n (F (mtu (netif_at s n))) s \<bind> tail else Some s) \<bind> (\<lambda>s. K result s)) = K e t
    \<and> (e = ERR_OK \<and> asked n dest ws s t \<or> e = ERR_MEM \<and> no_memory n s t)"
  using create_request_result [OF r]
proof (elim disjE exE conjE)
  fix bs t
  assume "allocs (net_ip s) = False # bs" "dhcp_create_request n s = Some (ERR_MEM, t)" "same_net n s t" "dhcps t = dhcps s"
    "global_xid t = global_xid s" "ip_ops (net_ip t) = ip_ops (net_ip s)" "allocs (net_ip t) = bs"
  then show ?thesis by (intro exI [of _ ERR_MEM] exI [of _ t]) (simp add: no_memory_def)
next
  fix t b r'
  assume t: "\<forall>bs. allocs (net_ip s) \<noteq> False # bs" "dhcp_create_request n s = Some (ERR_OK, t)" "same_net n s t"
    "dhcps t n = with_out ((dhcps s n)\<lparr>xid := next_xid s n\<rparr>) b (message_head s n) [] r'" "length r' = DHCP_OPTIONS_LEN"
    "btype b = PBUF_RAM" "28 \<le> length (front b)" "global_xid t = next_xid s n" "ip_ops (net_ip t) = ip_ops (net_ip s)"
    "allocs (net_ip t) = tl (allocs (net_ip s))"
  let ?d = "(dhcps s n)\<lparr>xid := next_xid s n\<rparr>" and ?w = "option_array ws"
  let ?u = "set_dhcp n (\<lambda>_. with_out ?d b (message_head s n) ?w []) t"
  note l = length_message_head [OF r]
  have lw: "length ?w = 68" using w by (simp add: writes_def DHCP_OPTIONS_LEN_def)
  have m: "netif_at t n = netif_at s n" using same_net_netifs [OF t(3)] by simp
  have put: "put_message n (F (mtu (netif_at t n))) t = Some ?u" unfolding m by (rule put_message_out [OF w t(4) l t(5)])
  have "ready ?u n" "dhcps ?u n = with_out ?d b (message_head s n) ?w []" "server_ip_addr ?d = server_ip_addr (dhcps s n)"
    "length (message_head s n @ ?w) = 308"
    using ready_same [OF t(3)] r l lw by (simp_all add: MSG_LEN_def)
  then obtain v where v: "tail ?u = Some v" "sent n dest (message_head s n @ ?w) ?u v"
    using tail t(6,7) unfolding delivers_def by blast
  have "same_net n t ?u" by (simp add: same_net_def)
  then have "same_net n s v" using v(2) t(3) by (auto simp: sent_def intro: same_net_trans)
  moreover have "dhcps v n = (dhcps s n)\<lparr>xid := next_xid s n, p_out := None, options_out_len := 68\<rparr>"
    using v(2) lw by (simp add: sent_def with_out_def)
  ultimately have "asked n dest ws s v"
    using v(2) t(1,8-10) m unfolding asked_def by (auto simp: sent_def)
  then show ?thesis
    by (intro exI [of _ ERR_OK] exI [of _ v]) (simp add: t(2) put v(1))
qed

section \<open>The requests\<close>

lemma netif_at_set: "netif_at (set_netif n f s) m = (if m = n \<and> n < length (netif_list (net_ip s)) then f (netif_at s n) else netif_at s m)"
  by (cases "n < length (netif_list (net_ip s))") (auto simp: list_update_beyond not_less)

lemma set_client_simps [simp]:
  "netif_ids (set_client n t s) = netif_ids s" "netifnum (set_client n t s) = netifnum s"
  "dhcps (set_client n t s) = dhcps s" "global_xid (set_client n t s) = global_xid s"
  "allocs (net_ip (set_client n t s)) = allocs (net_ip s)" "ip_ops (net_ip (set_client n t s)) = ip_ops (net_ip s)"
  "length (netif_list (net_ip (set_client n t s))) = length (netif_list (net_ip s))"
  "dhcp_pcb (net_ip (set_client n t s)) = dhcp_pcb (net_ip s)" "udp_pcbs (net_ip (set_client n t s)) = udp_pcbs (net_ip s)"
  "udp_mem (net_ip (set_client n t s)) = udp_mem (net_ip s)"
  by (simp_all add: set_client_def)

lemma netif_at_set_client:
  "netif_at (set_client n t s) m = (if m = n \<and> n < length (netif_list (net_ip s)) then (netif_at s n)\<lparr>dhcp_tries := t\<rparr> else netif_at s m)"
  unfolding set_client_def by (rule netif_at_set)

lemma ready_set_client: "has_client s n \<Longrightarrow> ready (set_client n (Some t) s) m = ready s m"
  by (auto simp: ready_def has_client_def netif_at_set_client chaddr_of_def)

lemma tries_set_client [simp]: "n < length (netif_list (net_ip s)) \<Longrightarrow> tries (set_client n (Some t) s) n = t"
  by (simp add: tries_def netif_at_set_client)

lemma ready_client: "ready s n \<Longrightarrow> has_client s n" "ready s n \<Longrightarrow> n < length (netif_list (net_ip s))"
  by (simp_all add: ready_def)

lemma ready_set_state [simp]: "ready s n \<Longrightarrow> ready (dhcp_set_state n st s) n"
  by (simp add: dhcp_set_state_def ready_set_client has_client_def ready_def [of s])

lemma dstate_set_state [simp]: "dhcps (dhcp_set_state n st s) = (dhcps s)(n := (dhcps s n)\<lparr>dstate := st\<rparr>)"
  by (auto simp: dhcp_set_state_def)

lemma set_state_simps [simp]:
  "netif_ids (dhcp_set_state n st s) = netif_ids s" "global_xid (dhcp_set_state n st s) = global_xid s"
  "allocs (net_ip (dhcp_set_state n st s)) = allocs (net_ip s)" "ip_ops (net_ip (dhcp_set_state n st s)) = ip_ops (net_ip s)"
  by (simp_all add: dhcp_set_state_def)

text \<open>The end of a request: the next try waits for \<open>ms\<close> milliseconds of the number of tries.\<close>

definition wait_more :: "nat \<Rightarrow> (u8 \<Rightarrow> u16) \<Rightarrow> 'a nets \<Rightarrow> 'a nets" where
  "wait_more n ms s = set_request_timeout n (ms (tries (one_more_try n s) n)) (one_more_try n s)"

definition asks :: "nat \<Rightarrow> u32 \<Rightarrow> u8 list \<Rightarrow> 'a nets \<Rightarrow> err_t \<Rightarrow> 'a nets \<Rightarrow> bool" where
  "asks n dest ws s e t \<longleftrightarrow> e = ERR_OK \<and> asked n dest ws s t \<or> e = ERR_MEM \<and> no_memory n s t"

lemma discover_result:
  assumes "ready s n" "s0 = dhcp_set_state n DHCP_SELECTING (set_dhcp n (offered_ip_addr_update (\<lambda>_. 0)) s)"
  shows "\<exists>e u. dhcp_discover n s = Some (e, wait_more n doubling_msecs u)
    \<and> asks n IP_ADDR_BROADCAST (discover_bytes (mtu (netif_at s0 n))) s0 e u"
proof -
  have "ready s0 n" by (simp add: assms)
  from request_result [where F = discover_options and K = "\<lambda>e s. Some (e, wait_more n doubling_msecs s)", OF this options_written(1)
      delivers_connect_send] assms(2)
  show ?thesis by (auto simp: dhcp_discover_def wait_more_def Let_def asks_def)
qed

lemma select_result:
  assumes "ready s n" "s0 = dhcp_set_state n DHCP_REQUESTING s"
  shows "\<exists>e u. dhcp_select n s = Some (e, wait_more n doubling_msecs u)
    \<and> asks n IP_ADDR_BROADCAST (select_bytes (mtu (netif_at s0 n)) (offered_ip_addr (dhcps s n)) (server_ip_addr (dhcps s n))) s0 e u"
proof -
  have "ready s0 n" by (simp add: assms)
  from request_result [where F = select_options and K = "\<lambda>e s. Some (e, wait_more n doubling_msecs s)", OF this options_written(2)
      delivers_send_connect] assms(2)
  show ?thesis by (auto simp: dhcp_select_def wait_more_def Let_def asks_def)
qed

lemma renew_result:
  assumes "ready s n" "s0 = dhcp_set_state n DHCP_RENEWING s"
  shows "\<exists>e u. dhcp_renew n s = Some (e, wait_more n renew_msecs u)
    \<and> asks n (server_ip_addr (dhcps s n)) (renew_bytes (mtu (netif_at s0 n))) s0 e u"
proof -
  have r: "ready s0 n" by (simp add: assms)
  from request_result [where F = renew_options and K = "\<lambda>e s. Some (e, wait_more n renew_msecs s)", OF r options_written(3) delivers_server]
    ready_client(1) [OF assms(1)] assms(2)
  show ?thesis by (auto simp: dhcp_renew_def wait_more_def Let_def asks_def)
qed

lemma rebind_result:
  assumes "ready s n" "s0 = dhcp_set_state n DHCP_REBINDING s"
  shows "\<exists>e u. dhcp_rebind n s = Some (e, wait_more n rebind_msecs u)
    \<and> asks n IP_ADDR_BROADCAST (renew_bytes (mtu (netif_at s0 n))) s0 e u"
proof -
  have "ready s0 n" by (simp add: assms)
  from request_result [where F = renew_options and K = "\<lambda>e s. Some (e, wait_more n rebind_msecs s)", OF this options_written(3)
      delivers_connect_send] assms(2)
  show ?thesis by (auto simp: dhcp_rebind_def wait_more_def Let_def asks_def)
qed

lemma decline_result:
  assumes "ready s n" "s0 = dhcp_set_state n DHCP_BACKING_OFF s"
  shows "\<exists>e u. dhcp_decline n s = Some (e, wait_more n (\<lambda>_. 10 * 1000) u)
    \<and> asks n IP_ADDR_BROADCAST (decline_bytes (offered_ip_addr (dhcps s n))) s0 e u"
proof -
  have "ready s0 n" by (simp add: assms)
  from request_result [where F = "\<lambda>_. decline_options" and K = "\<lambda>e s. Some (e, wait_more n (\<lambda>_. 10 * 1000) s)", OF this options_written(4)
      delivers_connect_send] assms(2)
  show ?thesis by (auto simp: dhcp_decline_def wait_more_def Let_def asks_def)
qed

text \<open>The release is sent when the server is forgotten already.\<close>

definition no_offer :: "dhcp \<Rightarrow> dhcp" where
  "no_offer d = d\<lparr>server_ip_addr := 0, offered_ip_addr := 0, offered_sn_mask := 0, offered_gw_addr := 0,
     offered_bc_addr := 0, offered_t0_lease := 0, offered_t1_renew := 0, offered_t2_rebind := 0, dns_count := 0\<rparr>"

lemma release_result:
  assumes "ready s n" "s0 = set_dhcp n no_offer (dhcp_set_state n DHCP_OFF s)"
  shows "\<exists>e u. dhcp_release app n s = map_option (Pair e) (without_address app n (wait_more n rebind_msecs u))
    \<and> asks n 0 release_bytes s0 e u"
proof -
  have r: "ready s0 n" by (simp add: assms)
  from request_result [where F = "\<lambda>_. release_options"
      and K = "\<lambda>e s. without_address app n (wait_more n rebind_msecs s) \<bind> (\<lambda>s. Some (e, s))", OF r options_written(5) delivers_server]
    ready_client(1) [OF assms(1)] assms(2)
  obtain e u where "dhcp_release app n s = without_address app n (wait_more n rebind_msecs u) \<bind> (\<lambda>s. Some (e, s))"
    "asks n 0 release_bytes s0 e u"
    by (auto simp: dhcp_release_def wait_more_def Let_def asks_def no_offer_def [abs_def])
  then show ?thesis by (intro exI [of _ e] exI [of _ u]) (simp add: map_conv_bind_option comp_def)
qed

end
