(* ===== verification/DhcpOthers.thy ===== *)
theory DhcpOthers
  imports DhcpLease LedApp
begin

text \<open>
  What the rest of the program does beside the DHCP clients: it may take control blocks of UDP, bind, connect and
  give them back, send through them, and receive packets.  \<open>udp_others\<close> is what the clients rely on, and every
  operation on a block that is not a client's keeps it.
\<close>

section \<open>What the clients rely on\<close>

text \<open>
  The interfaces and the blocks the clients have stay; while no block is listed twice, none is afterwards, and a
  client's block stays in the list of those in use, with its port, its address and its receiving function.
\<close>

definition udp_others :: "stack \<Rightarrow> stack \<Rightarrow> bool" where
  "udp_others k l \<longleftrightarrow> netif_list l = netif_list k \<and> dhcp_pcb l = dhcp_pcb k
     \<and> (distinct (udp_pcbs k @ udp_free k) \<longrightarrow>
          distinct (udp_pcbs l @ udp_free l)
          \<and> (\<forall>n < length (netif_list k). \<forall>a. dhcp_pcb k n = Some a \<longrightarrow> a \<in> set (udp_pcbs k) \<longrightarrow>
               a \<in> set (udp_pcbs l) \<and> udp_local_port (udp_mem l a) = udp_local_port (udp_mem k a)
               \<and> udp_local_ip (udp_mem l a) = udp_local_ip (udp_mem k a) \<and> udp_recv_set (udp_mem l a) = udp_recv_set (udp_mem k a)))"

text \<open>A block the program may use: it was taken from the pool and is no client's.\<close>

definition own_block :: "nat \<Rightarrow> stack \<Rightarrow> bool" where
  "own_block a k \<longleftrightarrow> a \<notin> set (udp_free k) \<and> (\<forall>n < length (netif_list k). dhcp_pcb k n \<noteq> Some a)"

lemma udp_others_refl [simp]: "udp_others k k"
  by (simp add: udp_others_def)

lemma udp_others_trans [trans]: "udp_others k l \<Longrightarrow> udp_others l m \<Longrightarrow> udp_others k m"
  unfolding udp_others_def by simp

lemma udp_others_log [simp]: "udp_others k (log_op x l) = udp_others k l" "udp_others (log_op x k) l = udp_others k l"
  by (simp_all add: udp_others_def)

lemma same_stack_others: "same_stack k l \<Longrightarrow> udp_others k l"
  by (simp add: same_stack_def udp_others_def)

lemma own_block_same: "same_stack k l \<Longrightarrow> own_block a k \<Longrightarrow> own_block a l"
  by (simp add: same_stack_def own_block_def)

section \<open>The operations of UDP\<close>

lemma set_udp_others: "own_block a k \<Longrightarrow> udp_others k (set_udp a f k)" "own_block a k \<Longrightarrow> own_block a (set_udp a f k)"
  by (auto simp: udp_others_def own_block_def set_udp_def)

lemma udp_recv_others: "own_block a k \<Longrightarrow> udp_others k (udp_recv a cb k)" "own_block a k \<Longrightarrow> own_block a (udp_recv a cb k)"
  unfolding udp_recv_def by (rule set_udp_others; assumption)+

lemma udp_disconnect_others: "own_block a k \<Longrightarrow> udp_others k (udp_disconnect a k)" "own_block a k \<Longrightarrow> own_block a (udp_disconnect a k)"
  unfolding udp_disconnect_def by (rule set_udp_others; assumption)+

lemma put_in_use_others:
  assumes "own_block a k" "a \<notin> set (udp_pcbs k)"
  shows "udp_others k (k\<lparr>udp_pcbs := a # udp_pcbs k\<rparr>)"
  using assms by (auto simp: udp_others_def own_block_def)

lemma own_block_in_use [simp]: "own_block a (k\<lparr>udp_pcbs := as\<rparr>) = own_block a k"
  by (simp add: own_block_def)

lemma udp_bind_others:
  assumes "own_block a k"
  shows "udp_others k (snd (udp_bind a ip port k))" "own_block a (snd (udp_bind a ip port k))"
proof -
  let ?k = "set_udp a (udp_local_ip_update (\<lambda>_. ip)) k"
  have k: "udp_others k ?k" "own_block a ?k" using set_udp_others assms by blast+
  have s: "udp_others k (set_udp a f ?k)" "own_block a (set_udp a f ?k)" for f
    using udp_others_trans [OF k(1)] set_udp_others [OF k(2)] by blast+
  have u: "udp_others k (set_udp a f ?k\<lparr>udp_pcbs := a # udp_pcbs ?k\<rparr>)" if "a \<notin> set (udp_pcbs k)" for f
    using udp_others_trans [OF s(1) put_in_use_others [OF s(2)]] that by (simp add: set_udp_def)
  show "udp_others k (snd (udp_bind a ip port k))" "own_block a (snd (udp_bind a ip port k))"
    using k s u by (simp_all add: udp_bind_def Let_def case_prod_beta) (auto simp: set_udp_def)
qed

lemma udp_connect_others:
  assumes "own_block a k"
  shows "udp_others k (snd (udp_connect a ip port k))" "own_block a (snd (udp_connect a ip port k))"
proof -
  obtain e l where l: "(if udp_local_port (udp_mem k a) = 0 then udp_bind a (udp_local_ip (udp_mem k a)) 0 k else (ERR_OK, k)) = (e, l)"
    by fastforce
  then have k: "udp_others k l" "own_block a l" using udp_bind_others [OF assms] assms by (auto split: if_split_asm dest!: arg_cong [where f = snd])
  have s: "udp_others k (set_udp a f l)" "own_block a (set_udp a f l)" for f
    using udp_others_trans [OF k(1)] set_udp_others [OF k(2)] by blast+
  have u: "udp_others k (set_udp a f l\<lparr>udp_pcbs := a # udp_pcbs (set_udp a f l)\<rparr>)" if "a \<notin> set (udp_pcbs (set_udp a f l))" for f
    using udp_others_trans [OF s(1) put_in_use_others [OF s(2) that]] .
  show "udp_others k (snd (udp_connect a ip port k))" "own_block a (snd (udp_connect a ip port k))"
    using k s u by (simp_all add: udp_connect_def Let_def l)
qed

lemma udp_new_others:
  assumes "udp_new k = (r, l)"
  shows "udp_others k l"
proof (cases "udp_free k")
  case (Cons b bs)
  have "a \<noteq> b" if "distinct (udp_pcbs k @ udp_free k)" "a \<in> set (udp_pcbs k)" for a using that Cons by auto
  then show ?thesis using assms Cons by (auto simp: udp_new_def udp_others_def set_udp_def)
qed (use assms in \<open>simp add: udp_new_def\<close>)

text \<open>A new block is the program's when every client has one that is in use.\<close>

lemma udp_new_own:
  assumes "udp_new k = (Some a, l)" "distinct (udp_pcbs k @ udp_free k)"
    "\<forall>n < length (netif_list k). \<forall>b. dhcp_pcb k n = Some b \<longrightarrow> b \<in> set (udp_pcbs k)"
  shows "own_block a l"
  using assms by (auto simp: udp_new_def own_block_def set_udp_def split: list.splits)

lemma udp_remove_others: "own_block a k \<Longrightarrow> udp_others k (udp_remove a k)"
  by (auto simp: udp_others_def own_block_def udp_remove_def dest: notin_set_remove1)

section \<open>Sending and receiving\<close>

lemma udp_sendto_if_others:
  assumes "own_block a k" "udp_sendto_if a p ip port n k = Some (e, l)"
  shows "udp_others k l"
proof -
  obtain e' m where m: "(if udp_local_port (udp_mem k a) = 0 then udp_bind a (udp_local_ip (udp_mem k a)) (udp_local_port (udp_mem k a)) k
      else (ERR_OK, k)) = (e', m)" by fastforce
  then have k: "udp_others k m" using udp_bind_others [OF assms(1)] by (auto split: if_split_asm dest!: arg_cong [where f = snd])
  have f: "udp_others k (fold log_op xs l) = udp_others k l" for xs l by (induction xs arbitrary: l) simp_all
  have i: "udp_others k l'" if "same_stack m l'" for l' by (rule udp_others_trans [OF k same_stack_others [OF that]])
  have j: "udp_others k l'" if "same_stack m m'" "same_stack m' l'" for m' l' by (rule i [OF same_stack_trans [OF that]])
  show ?thesis
    using assms(2) k unfolding udp_sendto_if_def Let_def m
    by (auto simp: f split: if_splits option.splits prod.splits dest!: ip_output_if_same try_alloc_same intro: i j)
qed

lemma udp_sendto_others: "own_block a k \<Longrightarrow> udp_sendto a p ip port k = Some (e, l) \<Longrightarrow> udp_others k l"
  using udp_sendto_if_others by (auto simp: udp_sendto_def split: option.splits)

lemma udp_send_others: "own_block a k \<Longrightarrow> udp_send a p k = Some (e, l) \<Longrightarrow> udp_others k l"
  unfolding udp_send_def by (rule udp_sendto_others)


lemma icmp_send_response_others: "icmp_send_response p ty c k = Some l \<Longrightarrow> udp_others k l"
  by (auto simp: icmp_send_response_def Let_def split: if_splits prod.splits
      dest!: try_alloc_same ip_output_same intro: same_stack_others same_stack_trans)

lemma icmp_dest_unreach_others: "icmp_dest_unreach p c k = Some l \<Longrightarrow> udp_others k l"
  unfolding icmp_dest_unreach_def by (rule icmp_send_response_others)

lemma move_to_front_others: "a \<in> set (udp_pcbs k) \<Longrightarrow> udp_others k (k\<lparr>udp_pcbs := a # remove1 a (udp_pcbs k)\<rparr>)"
  by (auto simp: udp_others_def)

lemma udp_find_others: "udp_others k (snd (udp_find broadcast src dst sp dp n k))"
  unfolding udp_find_def udp_search_result
  by (auto simp: find_Some_iff split: option.splits intro: move_to_front_others)

lemma udp_input_others:
  assumes "udp_input p n k = Some l"
  shows "udp_others k l"
proof -
  have f: "udp_others k m" if "udp_find broadcast src dst sp dp n k = (r, m)" for broadcast src dst sp dp r m
    using udp_find_others [of k broadcast src dst sp dp n] that by simp
  show ?thesis
    using assms unfolding udp_input_def Let_def
    by (auto split: if_splits option.splits prod.splits dest!: f icmp_dest_unreach_others intro: udp_others_trans)
qed

lemma echo_answer_others: "echo_answer p hlen n k = Some l \<Longrightarrow> udp_others k l"
  by (auto simp: echo_answer_def Let_def split: if_splits option.splits prod.splits dest!: ip_output_if_same intro: same_stack_others)

lemma icmp_input_others: "icmp_input p n k = Some l \<Longrightarrow> udp_others k l"
  unfolding icmp_input_def Let_def
  by (auto split: if_splits option.splits prod.splits list.splits dest!: try_alloc_same [THEN same_stack_others] echo_answer_others
      intro: udp_others_trans)

lemma raw_loop_others: "udp_others k (snd (raw_loop p as k))"
  by (induction p as k rule: raw_loop.induct)
    (auto simp: Let_def udp_others_def split: option.splits)

lemma ip_deliver_others: "ip_deliver p n k = Some l \<Longrightarrow> udp_others k l"
  using raw_loop_others [of k p "raw_pcbs k"]
  by (auto simp: ip_deliver_def raw_input_def Let_def split: if_splits prod.splits
      dest!: udp_input_others icmp_input_others icmp_dest_unreach_others intro: udp_others_trans)


section \<open>Reassembly\<close>

lemma set_ipr_others [simp]: "udp_others k (set_ipr i f l) = udp_others k l" "udp_others (set_ipr i f k) l = udp_others k l"
  by (simp_all add: set_ipr_def udp_others_def)

lemma reass_fields_others [simp]:
  "udp_others k (l\<lparr>reassdatagrams := ds\<rparr>) = udp_others k l" "udp_others k (l\<lparr>ip_reass_pbufcount := c\<rparr>) = udp_others k l"
  "udp_others (k\<lparr>ip_reass_pbufcount := c\<rparr>) l = udp_others k l"
  by (simp_all add: udp_others_def)

lemma ip_reass_free_others:
  assumes "ip_reass_free_complete_datagram i prev k = Some (c, l)"
  shows "udp_others k l"
proof -
  have f: "udp_others k (fold log_op xs l) = udp_others k l" for xs l by (induction xs arbitrary: l) simp_all
  have g: "udp_others k (fold (\<lambda>x. log_op (h x)) xs l) = udp_others k l" for h xs l by (induction xs arbitrary: l) simp_all
  show ?thesis
    using assms unfolding ip_reass_free_complete_datagram_def Let_def
    by (auto simp: f g ip_reass_dequeue_datagram_def icmp_time_exceeded_def Option.bind_eq_Some_conv
        split: list.splits if_split_asm dest!: icmp_send_response_others)
qed

lemma ip_reass_remove_others:
  assumes "ip_reass_remove_oldest_datagram h need got k = Some (c, l)"
  shows "udp_others k l"
proof -
  have "udp_others k (snd (c, l))"
    by (rule ip_reass_remove_oldest_datagram.raw_induct [where P = "\<lambda>h need got k y. udp_others k (snd y)", OF _ assms], goal_cases)
      (auto simp: Let_def Option.bind_eq_Some_conv split: prod.splits option.splits if_splits
        dest!: ip_reass_free_others intro: udp_others_trans)
  then show ?thesis by simp
qed


lemma reass_insert_others: "reass_insert i p k = Some (q, l) \<Longrightarrow> udp_others k l"
  unfolding reass_insert_def Let_def
  by (auto simp: ip_reass_dequeue_datagram_def Option.bind_eq_Some_conv split: option.splits prod.splits if_split_asm)

lemma ip_reass_enqueue_others: "ip_reass_enqueue_new_datagram h c k = Some (ok, l) \<Longrightarrow> udp_others k l"
  by (auto simp: ip_reass_enqueue_new_datagram_def Option.bind_eq_Some_conv split: if_split_asm dest!: ip_reass_remove_others)

lemma ip_reass_others:
  assumes "ip_reass p k = Some (q, l)"
  shows "udp_others k l"
proof (cases "unat (IPH_HL (first p)) * 4 \<noteq> IP_HLEN")
  case False
  then obtain full m where m: "(if IP_REASS_MAX_PBUFS < unat (ip_reass_pbufcount k) + unat (chain_clen p)
        then do { (freed, s) \<leftarrow> ip_reass_remove_oldest_datagram (first p) (unat (chain_clen p)) 0 k;
                  Some (freed = 0 \<or> IP_REASS_MAX_PBUFS < unat (ip_reass_pbufcount s) + unat (chain_clen p), s) }
        else Some (False, k)) = Some (full, m)"
    using assms by (auto simp: ip_reass_def Let_def Option.bind_eq_Some_conv)
  then have k: "udp_others k m" by (auto simp: Option.bind_eq_Some_conv split: if_split_asm dest!: ip_reass_remove_others)
  have "udp_others m l"
    using assms False m unfolding ip_reass_def Let_def
    by (auto simp: Option.bind_eq_Some_conv split: if_split_asm option.splits dest!: ip_reass_enqueue_others reass_insert_others intro: udp_others_trans)
  then show ?thesis by (rule udp_others_trans [OF k])
qed (use assms in \<open>auto simp: ip_reass_def Let_def\<close>)

text \<open>Every packet that is received.\<close>

lemma ip_input_others: "ip_input p n k = Some (e, l) \<Longrightarrow> udp_others k l"
  unfolding ip_input_def Let_def
  by (auto simp: Option.bind_eq_Some_conv split: if_split_asm option.splits prod.splits
      dest!: ip_deliver_others ip_reass_others intro: udp_others_trans)

section \<open>The servers of the program\<close>

text \<open>
  What the LED application does with its block, call by call (\<open>server_init\<close>, \<open>udp_server_callback\<close>,
  \<open>client_init\<close>); \<open>packet\<close> is the packet it makes of what it sends.  Its calls of TCP and of the display are
  no calls of UDP.
\<close>

fun udp_call :: "(u8 list \<Rightarrow> chain) \<Rightarrow> nat \<Rightarrow> app_op \<Rightarrow> stack \<Rightarrow> stack option" where
  "udp_call packet a (Udp_bind ip port) k = Some (snd (udp_bind a ip port k))"
| "udp_call packet a Udp_recv k = Some (udp_recv a True k)"
| "udp_call packet a (Udp_connect ip port) k = Some (snd (udp_connect a ip port k))"
| "udp_call packet a (Udp_send xs) k = map_option snd (udp_send a (packet xs) k)"
| "udp_call packet a Udp_disconnect k = Some (udp_disconnect a k)"
| "udp_call packet a _ k = Some k"

fun udp_calls :: "(u8 list \<Rightarrow> chain) \<Rightarrow> nat \<Rightarrow> app_op list \<Rightarrow> stack \<Rightarrow> stack option" where
  "udp_calls packet a [] k = Some k"
| "udp_calls packet a (x # xs) k = Option.bind (udp_call packet a x k) (udp_calls packet a xs)"

lemma own_block_others: "own_block a k \<Longrightarrow> netif_list l = netif_list k \<Longrightarrow> dhcp_pcb l = dhcp_pcb k \<Longrightarrow> udp_free l = udp_free k \<Longrightarrow> own_block a l"
  by (simp add: own_block_def)

lemma udp_bind_free [simp]: "udp_free (snd (udp_bind a ip port k)) = udp_free k"
  by (simp add: udp_bind_def Let_def set_udp_def case_prod_beta)

lemma udp_send_free: "udp_send a p k = Some (e, l) \<Longrightarrow> udp_free l = udp_free k"
proof -
  assume "udp_send a p k = Some (e, l)"
  then obtain n ip port where n: "udp_sendto_if a p ip port n k = Some (e, l) \<or> l = k"
    by (auto simp: udp_send_def udp_sendto_def split: option.splits)
  have f: "udp_free (fold log_op xs l) = udp_free l" for xs l by (induction xs arbitrary: l) simp_all
  obtain e' m where m: "(if udp_local_port (udp_mem k a) = 0 then udp_bind a (udp_local_ip (udp_mem k a)) (udp_local_port (udp_mem k a)) k
      else (ERR_OK, k)) = (e', m)" by fastforce
  then have "udp_free m = udp_free k" by (auto split: if_split_asm dest!: arg_cong [where f = "\<lambda>x. udp_free (snd x)"])
  with n show ?thesis unfolding udp_sendto_if_def Let_def m
    by (auto simp: f same_stack_def split: if_splits option.splits prod.splits dest!: ip_output_if_same try_alloc_same)
qed

lemma udp_call_others: "own_block a k \<Longrightarrow> udp_call packet a x k = Some l \<Longrightarrow> udp_others k l \<and> own_block a l"
proof (cases x)
  case (Udp_send xs)
  assume "own_block a k" "udp_call packet a x k = Some l"
  moreover from this obtain e where "udp_send a (packet xs) k = Some (e, l)" using Udp_send by auto
  moreover from calculation have "udp_others k l" "udp_free l = udp_free k" using udp_send_others udp_send_free by blast+
  ultimately show ?thesis using own_block_others [of a k l] by (simp add: udp_others_def)
qed (auto simp: udp_bind_others udp_connect_others udp_recv_others udp_disconnect_others)

lemma udp_calls_others: "own_block a k \<Longrightarrow> udp_calls packet a xs k = Some l \<Longrightarrow> udp_others k l \<and> own_block a l"
proof (induction xs arbitrary: k)
  case (Cons x xs)
  then obtain m where m: "udp_call packet a x k = Some m" "udp_calls packet a xs m = Some l" by (auto simp: Option.bind_eq_Some_conv)
  then have k: "udp_others k m" "own_block a m" using udp_call_others [OF Cons.prems(1)] by blast+
  then show ?case using Cons.IH [OF k(2) m(2)] udp_others_trans by blast
qed simp


text \<open>
  \<open>server_init\<close> and \<open>client_init\<close> from the call of \<open>udp_new\<close> on; the client's block gets its local port before
  the first call.
\<close>

lemma server_init_others:
  assumes "udp_new k = (Some a, m)" "distinct (udp_pcbs k @ udp_free k)"
    "\<forall>n < length (netif_list k). \<forall>b. dhcp_pcb k n = Some b \<longrightarrow> b \<in> set (udp_pcbs k)"
    "server_init True = Some xs" "udp_calls packet a xs m = Some l"
  shows "udp_others k l"
  using udp_calls_others [OF udp_new_own [OF assms(1-3)] assms(5)] udp_others_trans [OF udp_new_others [OF assms(1)]] by blast

lemma client_init_others:
  assumes "udp_new k = (Some a, m)" "distinct (udp_pcbs k @ udp_free k)"
    "\<forall>n < length (netif_list k). \<forall>b. dhcp_pcb k n = Some b \<longrightarrow> b \<in> set (udp_pcbs k)"
    "client_init True True = Some xs" "udp_calls packet a xs (set_udp a (udp_local_port_update (\<lambda>_. 5)) m) = Some l"
  shows "udp_others k l"
proof -
  have o: "own_block a m" by (rule udp_new_own [OF assms(1-3)])
  have "udp_others (set_udp a (udp_local_port_update (\<lambda>_. 5)) m) l"
    using udp_calls_others [OF set_udp_others(2) [OF o] assms(5)] by blast
  then show ?thesis using udp_others_trans [OF udp_new_others [OF assms(1)] udp_others_trans [OF set_udp_others(1) [OF o]]] by blast
qed

end
