(* ===== verification/DhcpClient.thy ===== *)
theory DhcpClient
  imports DhcpOthers
begin

text \<open>
  The state machine of the DHCP client: what every operation keeps of the client of an interface and of the others.
\<close>

declare set_netif_simps(1) [simp del]

lemma set_netif_stack [simp]:
  "length (netif_list (net_ip (set_netif n f s))) = length (netif_list (net_ip s))" "netif_default (net_ip (set_netif n f s)) = netif_default (net_ip s)"
  "dhcp_pcb (net_ip (set_netif n f s)) = dhcp_pcb (net_ip s)" "udp_pcbs (net_ip (set_netif n f s)) = udp_pcbs (net_ip s)"
  "udp_free (net_ip (set_netif n f s)) = udp_free (net_ip s)" "udp_mem (net_ip (set_netif n f s)) = udp_mem (net_ip s)"
  "allocs (net_ip (set_netif n f s)) = allocs (net_ip s)" "ip_ops (net_ip (set_netif n f s)) = ip_ops (net_ip s)"
  by (simp_all add: set_netif_simps(1))

declare netif_at_set [simp]

section \<open>What an operation leaves alone\<close>

definition only :: "nat \<Rightarrow> 'a nets \<Rightarrow> 'a nets \<Rightarrow> bool" where
  "only n s t \<longleftrightarrow> length (netif_list (net_ip t)) = length (netif_list (net_ip s))
     \<and> (\<forall>m. m \<noteq> n \<longrightarrow> netif_at t m = netif_at s m \<and> dhcps t m = dhcps s m)
     \<and> mtu (netif_at t n) = mtu (netif_at s n) \<and> hwaddr (netif_at t n) = hwaddr (netif_at s n) \<and> hwaddr_len (netif_at t n) = hwaddr_len (netif_at s n)
     \<and> dhcp_pcb (net_ip t) = dhcp_pcb (net_ip s) \<and> udp_pcbs (net_ip t) = udp_pcbs (net_ip s) \<and> udp_free (net_ip t) = udp_free (net_ip s)
     \<and> (\<forall>a. udp_local_port (udp_mem (net_ip t) a) = udp_local_port (udp_mem (net_ip s) a)
          \<and> udp_local_ip (udp_mem (net_ip t) a) = udp_local_ip (udp_mem (net_ip s) a)
          \<and> udp_recv_set (udp_mem (net_ip t) a) = udp_recv_set (udp_mem (net_ip s) a))"

lemma only_refl [simp]: "only n s s"
  by (simp add: only_def)

lemma only_trans [trans]: "only n s t \<Longrightarrow> only n t u \<Longrightarrow> only n s u"
  by (simp add: only_def)

lemma only_same_net: "same_net n s t \<Longrightarrow> only n s t"
  by (simp add: only_def same_net_def same_stack_def)

lemma only_set_netif:
  "(\<And>i. mtu (f i) = mtu i \<and> hwaddr (f i) = hwaddr i \<and> hwaddr_len (f i) = hwaddr_len i) \<Longrightarrow> only n s (set_netif n f s)"
  by (simp add: only_def)

lemma only_set_dhcp [simp]: "only n s (set_dhcp n f t) = only n s t"
  by (auto simp: only_def)

lemma only_set_client [simp]: "only n s (set_client n t s)"
  by (simp add: set_client_def only_set_netif)

lemma only_set_state [simp]: "only n s (dhcp_set_state n st s)"
  using only_trans [OF _ only_set_client, of n s "set_dhcp n (dstate_update (\<lambda>_. st)) s" "Some 0"] by (simp add: dhcp_set_state_def)

lemma only_ready: "only n s t \<Longrightarrow> has_client t n \<Longrightarrow> ready s n \<Longrightarrow> ready t n"
  by (auto simp: only_def ready_def chaddr_of_def)

section \<open>The states of a client\<close>

text \<open>
  The states it can be in, the tries it can have made in them, and what they mean: in the states that wait for an
  answer the request timer runs, and a bound client has its interface up with the offered address.
\<close>

definition typed :: "'a nets \<Rightarrow> nat \<Rightarrow> bool" where
  "typed s n \<longleftrightarrow>
     (let d = dhcps s n; st = dstate d; t = unat (tries s n) in
      st \<in> {DHCP_SELECTING, DHCP_REQUESTING, DHCP_CHECKING, DHCP_BOUND, DHCP_RENEWING, DHCP_REBINDING, DHCP_BACKING_OFF, DHCP_OFF}
      \<and> (st = DHCP_REQUESTING \<longrightarrow> 1 \<le> t \<and> t \<le> 6) \<and> (st = DHCP_CHECKING \<longrightarrow> 1 \<le> t \<and> t \<le> 2) \<and> (st = DHCP_REBINDING \<longrightarrow> 1 \<le> t \<and> t \<le> 9)
      \<and> (st \<in> {DHCP_REQUESTING, DHCP_CHECKING, DHCP_REBINDING, DHCP_BACKING_OFF} \<longrightarrow> 0 < request_timeout d)
      \<and> (st = DHCP_BOUND \<longrightarrow> ip_addr (netif_at s n) = offered_ip_addr d \<and> netif_is_up (netif_at s n)))"

definition in_place :: "nat \<Rightarrow> 'a nets \<Rightarrow> 'a nets \<Rightarrow> bool" where
  "in_place n s t \<longleftrightarrow> only n s t \<and> has_client t n \<and> typed t n \<and> p_out (dhcps t n) = None \<and> dhcp_p (dhcps t n) = dhcp_p (dhcps s n)
     \<and> msg_in (dhcps t n) = msg_in (dhcps s n) \<and> options_in (dhcps t n) = options_in (dhcps s n)"

section \<open>Times\<close>

lemma unat_fine_ticks: "unat (fine_ticks m) = (unat m + 499) div 500"
proof -
  have m: "unat m < 65536" by simp
  then have "unat m + 499 < 4294967296" by linarith
  then have u: "unat (ucast m + 499 :: u32) = unat m + 499" by (simp add: unat_word_ariths unat_ucast_u16)
  have "ucast m + DHCP_FINE_TIMER_MSECS - 1 = (ucast m + 499 :: u32)" "unat (500 :: u32) = 500" by (simp_all add: DHCP_FINE_TIMER_MSECS_def)
  then have "unat ((ucast m + DHCP_FINE_TIMER_MSECS - 1) div DHCP_FINE_TIMER_MSECS) = (unat m + 499) div 500"
    using u by (simp only: unat_div DHCP_FINE_TIMER_MSECS_def)
  moreover have "(unat m + 499) div 500 < 65536"
  proof -
    have "unat m + 499 < 65536 * 500" using unat_less_65536 [of m] by linarith
    then show ?thesis by (simp only: div_less_iff_less_mult)
  qed
  ultimately show ?thesis by (simp add: fine_ticks_def unsigned_ucast_eq take_bit_nat_eq_self)
qed

lemma fine_ticks_pos: "0 < fine_ticks m \<longleftrightarrow> m \<noteq> 0"
proof -
  have "0 < fine_ticks m \<longleftrightarrow> 0 < (unat m + 499) div 500" by (simp add: word_less_nat_alt unat_fine_ticks)
  also have "\<dots> \<longleftrightarrow> 0 < unat m" by (auto simp: div_greater_zero_iff)
  finally show ?thesis by (simp add: unat_gt_0)
qed

lemma doubling_msecs_pos: "doubling_msecs t \<noteq> 0"
proof (cases "t < 6")
  case True
  then have "unat t \<le> 5" by (simp add: word_less_nat_alt)
  then have "unat t \<in> {0, 1, 2, 3, 4, 5}" by auto
  then show ?thesis using True by (auto simp: doubling_msecs_def)
qed (simp add: doubling_msecs_def)

lemma rebind_msecs_pos: "t \<noteq> 0 \<Longrightarrow> rebind_msecs t \<noteq> 0"
proof (cases "t < 10")
  case True
  assume "t \<noteq> 0"
  then have "0 < unat t" "unat t < 10" using True by (simp_all add: word_less_nat_alt unat_gt_0)
  then have "unat (ucast t * 1000 :: u16) = unat t * 1000" by (simp add: unat_word_ariths unat_ucast_u8_u16)
  then show ?thesis using \<open>0 < unat t\<close> True by (auto simp: rebind_msecs_def)
qed (simp add: rebind_msecs_def)

lemma u16_cases: "1 < (t :: u16) \<or> t = 1 \<or> t = 0"
proof (cases "unat t \<le> 1")
  case True
  then have "unat t = unat (0 :: u16) \<or> unat t = unat (1 :: u16)" by auto
  then show ?thesis by (metis unsigned_word_eqI)
qed (simp add: word_less_nat_alt)

section \<open>Requests\<close>

lemma wait_more_simps:
  "dhcps (wait_more n ms u) = (dhcps u)(n := (dhcps u n)\<lparr>request_timeout := fine_ticks (ms (tries (one_more_try n u) n))\<rparr>)"
  "netif_list (net_ip (wait_more n ms u)) = netif_list (net_ip (one_more_try n u))"
  by (simp_all add: wait_more_def set_request_timeout_def one_more_try_def)

lemma tries_more: "n < length (netif_list (net_ip u)) \<Longrightarrow> tries (one_more_try n u) n = tries u n + 1"
  by (simp add: one_more_try_def)

lemma wait_more_client:
  assumes "n < length (netif_list (net_ip u))"
  shows "only n u (wait_more n ms u)" "has_client (wait_more n ms u) n" "tries (wait_more n ms u) n = tries u n + 1"
    "request_timeout (dhcps (wait_more n ms u) n) = fine_ticks (ms (tries u n + 1))"
    "ip_addr (netif_at (wait_more n ms u) n) = ip_addr (netif_at u n)" "flags (netif_at (wait_more n ms u) n) = flags (netif_at u n)"
  using assms by (simp_all add: wait_more_def set_request_timeout_def one_more_try_def has_client_def tries_def netif_at_set_client)

lemma asks_client:
  assumes "asks n dest ws s e u"
  shows "only n s u" "netif_list (net_ip u) = netif_list (net_ip s)"
    "\<exists>x l. dhcps u n = (dhcps s n)\<lparr>xid := x, p_out := if e = ERR_OK then None else p_out (dhcps s n), options_out_len := l\<rparr>"
proof -
  have sn: "same_net n s u" using assms by (auto simp: asks_def asked_def no_memory_def)
  then show "only n s u" "netif_list (net_ip u) = netif_list (net_ip s)" by (simp_all add: only_same_net same_net_netifs)
  show "\<exists>x l. dhcps u n = (dhcps s n)\<lparr>xid := x, p_out := if e = ERR_OK then None else p_out (dhcps s n), options_out_len := l\<rparr>"
  proof (cases "e = ERR_OK")
    case True
    then show ?thesis using assms by (auto simp: asks_def asked_def)
  next
    case False
    then show ?thesis using assms
      by (intro exI [of _ "xid (dhcps s n)"] exI [of _ "options_out_len (dhcps s n)"]) (simp add: asks_def no_memory_def)
  qed
qed

lemma state_client:
  assumes "n < length (netif_list (net_ip s))" "has_client s n"
  shows "has_client (dhcp_set_state n st s) n" "tries (dhcp_set_state n st s) n = (if dstate (dhcps s n) = st then tries s n else 0)"
    "ip_addr (netif_at (dhcp_set_state n st s) n) = ip_addr (netif_at s n)" "flags (netif_at (dhcp_set_state n st s) n) = flags (netif_at s n)"
  using assms by (auto simp: dhcp_set_state_def has_client_def tries_def netif_at_set_client)

lemma request_client:
  assumes "asks n dest ws s e u" "n < length (netif_list (net_ip s))"
    and t_def: "t = wait_more n ms u"
  shows "only n s t" "has_client t n" "tries t n = tries s n + 1"
    "ip_addr (netif_at t n) = ip_addr (netif_at s n)" "flags (netif_at t n) = flags (netif_at s n)"
    "request_timeout (dhcps t n) = fine_ticks (ms (tries s n + 1))"
    "dstate (dhcps t n) = dstate (dhcps s n)" "dhcp_p (dhcps t n) = dhcp_p (dhcps s n)" "msg_in (dhcps t n) = msg_in (dhcps s n)"
    "options_in (dhcps t n) = options_in (dhcps s n)" "p_out (dhcps s n) = None \<Longrightarrow> p_out (dhcps t n) = None"
    "offered_ip_addr (dhcps t n) = offered_ip_addr (dhcps s n)"
proof -
  note a = asks_client [OF assms(1)]
  have n: "n < length (netif_list (net_ip u))" using a(2) assms(2) by simp
  note w = wait_more_client [OF n, of ms, folded t_def]
  have tr: "tries u n = tries s n" using a(2) by (simp add: tries_def)
  show "only n s t" using a(1) w(1) by (rule only_trans)
  show "has_client t n" "tries t n = tries s n + 1" "ip_addr (netif_at t n) = ip_addr (netif_at s n)" "flags (netif_at t n) = flags (netif_at s n)"
    "request_timeout (dhcps t n) = fine_ticks (ms (tries s n + 1))"
    using w(2-6) a(2) tr by simp_all
  obtain x l where "dhcps u n = (dhcps s n)\<lparr>xid := x, p_out := if e = ERR_OK then None else p_out (dhcps s n), options_out_len := l\<rparr>"
    using a(3) by blast
  then show "dstate (dhcps t n) = dstate (dhcps s n)" "dhcp_p (dhcps t n) = dhcp_p (dhcps s n)" "msg_in (dhcps t n) = msg_in (dhcps s n)"
    "options_in (dhcps t n) = options_in (dhcps s n)" "p_out (dhcps s n) = None \<Longrightarrow> p_out (dhcps t n) = None"
    "offered_ip_addr (dhcps t n) = offered_ip_addr (dhcps s n)"
    by (simp_all add: t_def wait_more_simps)
qed

text \<open>A request from the state \<open>st\<close>, after a change of the client's other fields.\<close>

lemma request_in_place:
  assumes a: "asks n dest ws (dhcp_set_state n st s0) e u" and s0: "s0 = set_dhcp n f s"
    and r: "ready s n" "p_out (dhcps s n) = None"
    and f: "\<And>d. dstate (f d) = dstate d \<and> p_out (f d) = p_out d \<and> dhcp_p (f d) = dhcp_p d \<and> msg_in (f d) = msg_in d \<and> options_in (f d) = options_in d"
    and st: "st \<in> {DHCP_SELECTING, DHCP_REQUESTING, DHCP_RENEWING, DHCP_REBINDING, DHCP_BACKING_OFF, DHCP_OFF}"
      "st = DHCP_REQUESTING \<Longrightarrow> dstate (dhcps s n) = st \<Longrightarrow> unat (tries s n) \<le> 5"
      "st = DHCP_REBINDING \<Longrightarrow> dstate (dhcps s n) = st \<Longrightarrow> unat (tries s n) \<le> 8"
    and ms: "\<And>t. st = DHCP_BACKING_OFF \<or> st \<in> {DHCP_REQUESTING, DHCP_REBINDING} \<and> t \<noteq> 0 \<Longrightarrow> ms t \<noteq> 0"
  shows "in_place n s (wait_more n ms u)"
proof -
  let ?s = "dhcp_set_state n st s0" and ?t = "wait_more n ms u"
  have n: "n < length (netif_list (net_ip s0))" "has_client s0 n" using r s0 by (auto simp: ready_def has_client_def)
  have tr: "tries ?s n = (if dstate (dhcps s n) = st then tries s n else 0)"
    using state_client(2) [OF n, of st] s0 f by (simp add: tries_def)
  have o: "only n s ?s" using only_trans [of n s s0 ?s] s0 by simp
  have "n < length (netif_list (net_ip ?s))" using o n s0 by (simp add: only_def)
  note q = request_client [OF a this refl, of ms]
  have d: "dstate (dhcps ?t n) = st" "p_out (dhcps ?t n) = None" "dhcp_p (dhcps ?t n) = dhcp_p (dhcps s n)" "msg_in (dhcps ?t n) = msg_in (dhcps s n)"
    "options_in (dhcps ?t n) = options_in (dhcps s n)"
    using q(7-11) r(2) s0 f by simp_all
  have t: "tries ?t n = (if dstate (dhcps s n) = st then tries s n else 0) + 1" using q(3) tr by simp
  have u: "unat (tries ?t n) = (if dstate (dhcps s n) = st then unat (tries s n) else 0) + 1"
    if "st = DHCP_REQUESTING \<or> st = DHCP_REBINDING"
  proof -
    have "(if dstate (dhcps s n) = st then unat (tries s n) else 0) \<le> 8" using that st(2,3) by fastforce
    then show ?thesis unfolding t by (auto simp: unat_word_ariths split: if_splits)
  qed
  have "0 < request_timeout (dhcps ?t n)" if "st \<in> {DHCP_REQUESTING, DHCP_REBINDING, DHCP_BACKING_OFF}"
  proof -
    have "tries ?t n \<noteq> 0" if "st \<noteq> DHCP_BACKING_OFF" using u that \<open>st \<in> {DHCP_REQUESTING, DHCP_REBINDING, DHCP_BACKING_OFF}\<close> by auto
    then show ?thesis using q(6) tr t ms that by (auto simp: fine_ticks_pos)
  qed
  then have "typed ?t n" using st d(1) u by (auto simp: typed_def Let_def)
  moreover have "only n s ?t" using o q(1) by (rule only_trans)
  ultimately show ?thesis using q(2) d by (simp add: in_place_def)
qed

lemma discover_in_place:
  assumes "ready s n" "p_out (dhcps s n) = None"
  shows "\<exists>e t. dhcp_discover n s = Some (e, t) \<and> in_place n s t \<and> dstate (dhcps t n) = DHCP_SELECTING \<and> 0 < request_timeout (dhcps t n)"
proof -
  obtain e u where u: "dhcp_discover n s = Some (e, wait_more n doubling_msecs u)"
    "asks n IP_ADDR_BROADCAST (discover_bytes (mtu (netif_at (dhcp_set_state n DHCP_SELECTING (set_dhcp n (offered_ip_addr_update (\<lambda>_. 0)) s)) n)))
       (dhcp_set_state n DHCP_SELECTING (set_dhcp n (offered_ip_addr_update (\<lambda>_. 0)) s)) e u"
    using discover_result [OF assms(1) refl] by blast
  have "in_place n s (wait_more n doubling_msecs u)"
    by (rule request_in_place [OF u(2) refl assms]) (simp_all add: doubling_msecs_pos)
  moreover have "n < length (netif_list (net_ip (dhcp_set_state n DHCP_SELECTING (set_dhcp n (offered_ip_addr_update (\<lambda>_. 0)) s))))"
    using assms(1) by (simp add: ready_client)
  note q = request_client [OF u(2) this refl, of doubling_msecs]
  ultimately show ?thesis using u(1) q(6,7) by (simp add: fine_ticks_pos doubling_msecs_pos)
qed

lemma no_change: "s = set_dhcp n (\<lambda>d. d) s"
  by (simp add: set_dhcp_def)

lemma select_in_place:
  assumes "ready s n" "p_out (dhcps s n) = None" "dstate (dhcps s n) = DHCP_REQUESTING \<Longrightarrow> unat (tries s n) \<le> 5"
  shows "\<exists>e t. dhcp_select n s = Some (e, t) \<and> in_place n s t"
proof -
  from select_result [OF assms(1) refl] obtain e u ws where u: "dhcp_select n s = Some (e, wait_more n doubling_msecs u)"
    "asks n IP_ADDR_BROADCAST ws (dhcp_set_state n DHCP_REQUESTING s) e u" by blast
  have "in_place n s (wait_more n doubling_msecs u)"
    by (rule request_in_place [OF u(2) no_change assms(1,2)]) (use assms(3) in \<open>simp_all add: doubling_msecs_pos\<close>)
  then show ?thesis using u(1) by blast
qed

lemma renew_in_place:
  assumes "ready s n" "p_out (dhcps s n) = None"
  shows "\<exists>e t. dhcp_renew n s = Some (e, t) \<and> in_place n s t"
proof -
  from renew_result [OF assms(1) refl] obtain e u dest ws where u: "dhcp_renew n s = Some (e, wait_more n renew_msecs u)"
    "asks n dest ws (dhcp_set_state n DHCP_RENEWING s) e u" by blast
  have "in_place n s (wait_more n renew_msecs u)"
    by (rule request_in_place [OF u(2) no_change assms(1,2)]) simp_all
  then show ?thesis using u(1) by blast
qed

lemma rebind_in_place:
  assumes "ready s n" "p_out (dhcps s n) = None" "dstate (dhcps s n) = DHCP_REBINDING \<Longrightarrow> unat (tries s n) \<le> 8"
  shows "\<exists>e t. dhcp_rebind n s = Some (e, t) \<and> in_place n s t"
proof -
  from rebind_result [OF assms(1) refl] obtain e u ws where u: "dhcp_rebind n s = Some (e, wait_more n rebind_msecs u)"
    "asks n IP_ADDR_BROADCAST ws (dhcp_set_state n DHCP_REBINDING s) e u" by blast
  have "in_place n s (wait_more n rebind_msecs u)"
    by (rule request_in_place [OF u(2) no_change assms(1,2)]) (use assms(3) in \<open>simp_all add: rebind_msecs_pos\<close>)
  then show ?thesis using u(1) by blast
qed

lemma decline_in_place:
  assumes "ready s n" "p_out (dhcps s n) = None"
  shows "\<exists>e t. dhcp_decline n s = Some (e, t) \<and> in_place n s t"
proof -
  from decline_result [OF assms(1) refl] obtain e u ws where u: "dhcp_decline n s = Some (e, wait_more n (\<lambda>_. 10 * 1000) u)"
    "asks n IP_ADDR_BROADCAST ws (dhcp_set_state n DHCP_BACKING_OFF s) e u" by blast
  have "in_place n s (wait_more n (\<lambda>_. 10 * 1000) u)"
    by (rule request_in_place [OF u(2) no_change assms(1,2)]) simp_all
  then show ?thesis using u(1) by blast
qed

section \<open>The address of the interface\<close>

lemma set_down_client:
  "only n s (netif_set_down n s)" "has_client (netif_set_down n s) n = has_client s n" "tries (netif_set_down n s) n = tries s n"
  "dhcps (netif_set_down n s) = dhcps s"
  by (simp_all add: netif_set_down_def only_set_netif has_client_def tries_def)

lemma set_ipaddr_client:
  assumes "polite app" "netif_set_ipaddr app n addr s = Some t"
  shows "only n s t" "has_client t n = has_client s n" "tries t n = tries s n" "dhcps t = dhcps s"
    "n < length (netif_list (net_ip s)) \<Longrightarrow> ip_addr (netif_at t n) = addr" "flags (netif_at t n) = flags (netif_at s n)"
proof -
  obtain v where v: "new_address app (ip_addr (netif_at s n)) addr (net_tcp s) = Some v"
    "t = set_netif n (ip_addr_update (\<lambda>_. addr)) (s\<lparr>net_tcp := v\<rparr>)"
    using assms(2) by (auto simp: netif_set_ipaddr_def)
  let ?u = "s\<lparr>net_tcp := v\<rparr>"
  have ss: "same_stack (net_ip s) (tcp_ip v)" by (rule new_address_same [OF assms(1) v(1)])
  then have l: "netif_list (net_ip ?u) = netif_list (net_ip s)" by (simp add: same_stack_def)
  have "only n s ?u" using ss by (simp add: only_def same_stack_def)
  also have "only n ?u t" unfolding v(2) by (rule only_set_netif) simp
  finally show "only n s t" .
  have nt: "netif_at t m = (if m = n \<and> n < length (netif_list (net_ip s)) then (netif_at s n)\<lparr>ip_addr := addr\<rparr> else netif_at s m)" for m
    unfolding v(2) netif_at_set l by simp
  then show "has_client t n = has_client s n" "tries t n = tries s n" "flags (netif_at t n) = flags (netif_at s n)"
    by (simp_all add: has_client_def tries_def)
  show "dhcps t = dhcps s" by (simp add: v(2))
  show "n < length (netif_list (net_ip s)) \<Longrightarrow> ip_addr (netif_at t n) = addr" using nt by simp
qed

lemma set_gw_client:
  "only n s (netif_set_gw n g s)" "has_client (netif_set_gw n g s) n = has_client s n" "tries (netif_set_gw n g s) n = tries s n"
  "dhcps (netif_set_gw n g s) = dhcps s" "ip_addr (netif_at (netif_set_gw n g s) n) = ip_addr (netif_at s n)"
  "flags (netif_at (netif_set_gw n g s) n) = flags (netif_at s n)"
  by (simp_all add: netif_set_gw_def has_client_def tries_def only_set_netif)

lemma set_netmask_client:
  "only n s (netif_set_netmask n g s)" "has_client (netif_set_netmask n g s) n = has_client s n" "tries (netif_set_netmask n g s) n = tries s n"
  "dhcps (netif_set_netmask n g s) = dhcps s" "ip_addr (netif_at (netif_set_netmask n g s) n) = ip_addr (netif_at s n)"
  "flags (netif_at (netif_set_netmask n g s) n) = flags (netif_at s n)"
  by (simp_all add: netif_set_netmask_def has_client_def tries_def only_set_netif)

lemma set_up_client:
  "only n s (netif_set_up n s)" "has_client (netif_set_up n s) n = has_client s n" "tries (netif_set_up n s) n = tries s n"
  "dhcps (netif_set_up n s) = dhcps s" "ip_addr (netif_at (netif_set_up n s) n) = ip_addr (netif_at s n)"
  "n < length (netif_list (net_ip s)) \<Longrightarrow> netif_is_up (netif_at (netif_set_up n s) n)"
proof -
  have up: "(f OR NETIF_FLAG_UP) AND NETIF_FLAG_UP \<noteq> 0" for f :: u8
    by (simp add: NETIF_FLAG_UP_def bit.conj_disj_distrib2)
  have "only n s (set_netif n (\<lambda>i. i\<lparr>flags := flags i OR NETIF_FLAG_UP\<rparr>) s)" by (rule only_set_netif) simp
  then show "only n s (netif_set_up n s)"
    by (simp add: netif_set_up_def Let_def only_def)
  show "n < length (netif_list (net_ip s)) \<Longrightarrow> netif_is_up (netif_at (netif_set_up n s) n)"
    using up by (simp add: netif_set_up_def Let_def netif_is_up_def)
qed (simp_all add: netif_set_up_def Let_def has_client_def tries_def)

lemma without_address_client:
  assumes "polite app" "without_address app n s = Some t"
  shows "only n s t" "has_client t n = has_client s n" "tries t n = tries s n" "dhcps t = dhcps s"
    "n < length (netif_list (net_ip s)) \<Longrightarrow> ip_addr (netif_at t n) = 0"
proof -
  obtain u where u: "netif_set_ipaddr app n 0 (netif_set_down n s) = Some u"
    "t = netif_set_netmask n 0 (netif_set_gw n 0 u)"
    using assms(2) by (auto simp: without_address_def)
  note a = set_ipaddr_client [OF assms(1) u(1)] and d = set_down_client [of n s] and g = set_gw_client [where n = n and s = u and g = 0]
    and m = set_netmask_client [where n = n and s = "netif_set_gw n 0 u" and g = 0, folded u(2)]
  show "only n s t" using only_trans [OF only_trans [OF only_trans [OF d(1) a(1)] g(1)] m(1)] .
  show "has_client t n = has_client s n" "tries t n = tries s n" "dhcps t = dhcps s" using a d g m by simp_all
  show "n < length (netif_list (net_ip s)) \<Longrightarrow> ip_addr (netif_at t n) = 0" using a(5) d(1) g(5) m(5) by (simp add: only_def)
qed

lemma release_in_place:
  assumes "polite app" "ready s n" "p_out (dhcps s n) = None" "dhcp_release app n s = Some (e, t)"
  shows "in_place n s t" "dstate (dhcps t n) = DHCP_OFF"
proof -
  let ?s0 = "set_dhcp n no_offer (dhcp_set_state n DHCP_OFF s)"
  from release_result [OF assms(2) refl, of app] obtain e' u where u:
    "dhcp_release app n s = map_option (Pair e') (without_address app n (wait_more n rebind_msecs u))" "asks n 0 release_bytes ?s0 e' u" by blast
  let ?w = "wait_more n rebind_msecs u"
  have w: "without_address app n ?w = Some t" using assms(4) unfolding u(1) by auto
  have n: "n < length (netif_list (net_ip ?s0))" using assms(2) only_set_state [of n s] by (simp add: only_def ready_client)
  note q = request_client [OF u(2) n refl, of rebind_msecs] and a = without_address_client [OF assms(1) w]
  have "only n s ?s0" by simp
  then have o: "only n s t" using q(1) a(1) by (blast intro: only_trans)
  show st: "dstate (dhcps t n) = DHCP_OFF" using q(7) a(4) by (simp add: no_offer_def)
  then have "typed t n" by (simp add: typed_def Let_def)
  then show "in_place n s t" using o q(2) a(2,4) q(8-11) assms(3) by (simp add: in_place_def no_offer_def)
qed

lemma lease_timers_fields: "\<exists>a b. lease_timers d = d\<lparr>t1_timeout := a, t2_timeout := b\<rparr>"
  by (rule exI [of _ "t1_timeout (lease_timers d)"], rule exI [of _ "t2_timeout (lease_timers d)"], cases d) (simp add: lease_timers_def Let_def)

lemma bind_in_place:
  assumes "polite app" "ready s n" "p_out (dhcps s n) = None" "dhcp_bind app n s = Some t"
  shows "in_place n s t" "dstate (dhcps t n) = DHCP_BOUND"
proof -
  have c: "has_client s n" "n < length (netif_list (net_ip s))" using assms(2) by (simp_all add: ready_client)
  obtain a b where ab: "lease_timers (dhcps s n) = (dhcps s n)\<lparr>t1_timeout := a, t2_timeout := b\<rparr>" using lease_timers_fields by blast
  define f where "f = (\<lambda>_ :: dhcp. (dhcps s n)\<lparr>t1_timeout := a, t2_timeout := b\<rparr>)"
  obtain sm g u where u: "netif_set_ipaddr app n (offered_ip_addr (dhcps s n)) (set_dhcp n f s) = Some u"
    "t = dhcp_set_state n DHCP_BOUND (netif_set_up n (netif_set_gw n g (netif_set_netmask n sm u)))"
    using assms(4) c(1) unfolding dhcp_bind_def ab Let_def f_def by auto
  note f = f_def
  note i = set_ipaddr_client [OF assms(1) u(1)]
  let ?m = "netif_set_netmask n sm u" and ?v = "netif_set_gw n g (netif_set_netmask n sm u)"
  note m = set_netmask_client [where n = n and s = u and g = sm] and g = set_gw_client [where n = n and s = ?m and g = g] and w = set_up_client [of n ?v]
  have o: "only n s (netif_set_up n ?v)"
    using only_trans [OF only_trans [OF only_trans [OF i(1) m(1)] g(1)] w(1)] by (simp add: only_def)
  have l: "n < length (netif_list (net_ip ?v))" "n < length (netif_list (net_ip (netif_set_up n ?v)))" using o w(1) c(2) by (simp_all add: only_def)
  have h: "has_client (netif_set_up n ?v) n" using i(2) m(2) g(2) w(2) c(1) by (simp add: has_client_def)
  note q = state_client [OF l(2) h, of DHCP_BOUND, folded u(2)]
  have d: "dhcps t n = (dhcps s n)\<lparr>t1_timeout := a, t2_timeout := b, dstate := DHCP_BOUND\<rparr>" using u(2) w(4) m(4) g(4) i(4) f by simp
  show st: "dstate (dhcps t n) = DHCP_BOUND" by (simp add: d)
  have "ip_addr (netif_at t n) = offered_ip_addr (dhcps t n)" using q(3) w(5) m(5) g(5) i(5) c(2) d by simp
  moreover have "netif_is_up (netif_at t n)" using q(4) w(6) [OF l(1)] by (simp add: netif_is_up_def)
  ultimately have "typed t n" using st by (simp add: typed_def Let_def)
  moreover have "only n s t" unfolding u(2) by (rule only_trans [OF o]) simp
  ultimately show "in_place n s t" using q(1) d assms(3) by (simp add: in_place_def)
qed

section \<open>The steps of the state machine\<close>

lemma in_place_trans:
  "only n s t \<Longrightarrow> dhcp_p (dhcps t n) = dhcp_p (dhcps s n) \<Longrightarrow> msg_in (dhcps t n) = msg_in (dhcps s n) \<Longrightarrow> options_in (dhcps t n) = options_in (dhcps s n) \<Longrightarrow>
    in_place n t u \<Longrightarrow> in_place n s u"
  by (auto simp: in_place_def intro: only_trans)

lemma in_place_ready: "in_place n s t \<Longrightarrow> ready s n \<Longrightarrow> ready t n" "in_place n s t \<Longrightarrow> p_out (dhcps t n) = None"
  by (auto simp: in_place_def intro: only_ready)

lemma in_place_twice: "in_place n s t \<Longrightarrow> in_place n t u \<Longrightarrow> in_place n s u"
  by (auto simp: in_place_def intro: only_trans)

lemma check_in_place:
  assumes "ready s n" "p_out (dhcps s n) = None" "dstate (dhcps s n) = DHCP_CHECKING \<Longrightarrow> unat (tries s n) \<le> 1"
  shows "in_place n s (dhcp_check n s)"
proof -
  let ?s = "dhcp_set_state n DHCP_CHECKING s"
  let ?l = "on_stack (log_op (Arp_query n (offered_ip_addr (dhcps ?s n)))) ?s"
  have t: "dhcp_check n s = wait_more n (\<lambda>_. 500) ?l" by (simp add: dhcp_check_def wait_more_def Let_def)
  have c: "has_client s n" "n < length (netif_list (net_ip s))" using assms(1) by (simp_all add: ready_client)
  have "n < length (netif_list (net_ip ?l))" using c(2) only_set_state [of n s] by (simp add: only_def)
  note w = wait_more_client [OF this, of "\<lambda>_. 500", folded t]
  have tr: "tries ?l n = (if dstate (dhcps s n) = DHCP_CHECKING then tries s n else 0)"
    using state_client(2) [OF c(2,1), of DHCP_CHECKING] by (simp add: tries_def)
  then have "unat (tries ?l n) \<le> 1" using assms(3) by auto
  then have "unat (tries (dhcp_check n s) n) = unat (tries ?l n) + 1" unfolding w(3) by (simp add: unat_word_ariths)
  moreover have "0 < request_timeout (dhcps (dhcp_check n s) n)" unfolding w(4) by (simp add: fine_ticks_pos)
  moreover have st: "dstate (dhcps (dhcp_check n s) n) = DHCP_CHECKING" unfolding t by (simp add: wait_more_simps)
  ultimately have "typed (dhcp_check n s) n" using \<open>unat (tries ?l n) \<le> 1\<close> by (simp add: typed_def Let_def)
  moreover have "only n ?s ?l" by (simp add: only_def)
  then have "only n s (dhcp_check n s)" using only_trans [OF only_trans [OF only_set_state] w(1)] by blast
  ultimately show ?thesis using w(2) assms(2) by (simp add: in_place_def) (simp add: t wait_more_simps)
qed

lemma nak_in_place:
  assumes "polite app" "ready s n" "p_out (dhcps s n) = None" "dhcp_handle_nak app n s = Some t"
  shows "in_place n s t"
proof -
  obtain u where u: "without_address app n s = Some u" "map_option snd (dhcp_discover n (dhcp_set_state n DHCP_BACKING_OFF u)) = Some t"
    using assms(4) by (auto simp: dhcp_handle_nak_def Option.bind_eq_Some_conv)
  let ?v = "dhcp_set_state n DHCP_BACKING_OFF u"
  note a = without_address_client [OF assms(1) u(1)]
  have r: "ready u n" using only_ready [OF a(1)] a(2) assms(2) by (simp add: ready_client)
  obtain e w where "dhcp_discover n ?v = Some (e, w)" "in_place n ?v w"
    using discover_in_place [of ?v n] r a(4) assms(3) by auto
  then have "in_place n ?v t" using u(2) by simp
  moreover have "only n s ?v" using a(1) only_set_state by (blast intro: only_trans)
  ultimately show ?thesis using a(4) by (auto intro: in_place_trans)
qed

lemma release_discover_in_place:
  assumes "polite app" "ready s n" "p_out (dhcps s n) = None"
    and "Option.bind (dhcp_release app n s) (\<lambda>(_, s). map_option snd (dhcp_discover n s)) = Some t"
  shows "in_place n s t"
proof -
  obtain e u where u: "dhcp_release app n s = Some (e, u)" "map_option snd (dhcp_discover n u) = Some t"
    using assms(4) by (auto simp: Option.bind_eq_Some_conv)
  have i: "in_place n s u" by (rule release_in_place [OF assms(1-3) u(1)])
  obtain e' w where "dhcp_discover n u = Some (e', w)" "in_place n u w"
    using discover_in_place in_place_ready [OF i] assms(2) by blast
  then show ?thesis using u(2) in_place_twice [OF i] by simp
qed

text \<open>When the request timer runs out it is zero, so the state may be one that asks for a running timer.\<close>

definition almost_typed :: "'a nets \<Rightarrow> nat \<Rightarrow> bool" where
  "almost_typed s n \<longleftrightarrow> typed (set_dhcp n (\<lambda>d. d\<lparr>request_timeout := 1\<rparr>) s) n"

lemma timeout_in_place:
  assumes "polite app" "ready s n" "p_out (dhcps s n) = None" "almost_typed s n" "dhcp_timeout app n s = Some t"
  shows "in_place n s t"
proof -
  let ?st = "dstate (dhcps s n)"
  consider "?st = DHCP_BACKING_OFF \<or> ?st = DHCP_SELECTING" | "?st = DHCP_REQUESTING" "tries s n \<le> 5" | "?st = DHCP_REQUESTING" "\<not> tries s n \<le> 5"
    | "?st = DHCP_CHECKING" "tries s n \<le> 1" | "?st = DHCP_CHECKING" "\<not> tries s n \<le> 1" | "?st = DHCP_RENEWING"
    | "?st = DHCP_REBINDING" "tries s n \<le> 8" | "?st = DHCP_REBINDING" "\<not> tries s n \<le> 8" | "?st = DHCP_BOUND \<or> ?st = DHCP_OFF"
    using assms(4) by (auto simp: almost_typed_def typed_def Let_def)
  then show ?thesis
  proof cases
    case 1
    then have "map_option snd (dhcp_discover n s) = Some t" using assms(5) by (auto simp: dhcp_timeout_def)
    then show ?thesis using discover_in_place [OF assms(2,3)] by auto
  next
    case 2
    then have "map_option snd (dhcp_select n s) = Some t" using assms(5) by (simp add: dhcp_timeout_def)
    then show ?thesis using select_in_place [OF assms(2,3)] 2 by (auto simp: word_le_nat_alt)
  next
    case 3
    then have "Option.bind (dhcp_release app n s) (\<lambda>(_, s). map_option snd (dhcp_discover n s)) = Some t" using assms(5) by (simp add: dhcp_timeout_def)
    then show ?thesis by (rule release_discover_in_place [OF assms(1-3)])
  next
    case 4
    then have "t = dhcp_check n s" using assms(5) by (simp add: dhcp_timeout_def)
    then show ?thesis using check_in_place [OF assms(2,3)] 4 by (simp add: word_le_nat_alt)
  next
    case 5
    then have "dhcp_bind app n s = Some t" using assms(5) by (simp add: dhcp_timeout_def)
    then show ?thesis by (rule bind_in_place [OF assms(1-3)])
  next
    case 6
    then have "map_option snd (dhcp_renew n s) = Some t" using assms(5) by (simp add: dhcp_timeout_def)
    then show ?thesis using renew_in_place [OF assms(2,3)] by auto
  next
    case 7
    then have "map_option snd (dhcp_rebind n s) = Some t" using assms(5) by (simp add: dhcp_timeout_def)
    then show ?thesis using rebind_in_place [OF assms(2,3)] 7 by (auto simp: word_le_nat_alt)
  next
    case 8
    then have "Option.bind (dhcp_release app n s) (\<lambda>(_, s). map_option snd (dhcp_discover n s)) = Some t" using assms(5) by (simp add: dhcp_timeout_def)
    then show ?thesis by (rule release_discover_in_place [OF assms(1-3)])
  next
    case 9
    then have "t = s" using assms(5) by (auto simp: dhcp_timeout_def)
    moreover have "typed s n" using 9 assms(4) by (elim disjE) (simp_all add: almost_typed_def typed_def Let_def tries_def)
    ultimately show ?thesis using assms(2,3) by (simp add: in_place_def ready_client)
  qed
qed

lemma typed_set_dhcp:
  "(\<And>d. dstate (f d) = dstate d \<and> request_timeout (f d) = request_timeout d \<and> offered_ip_addr (f d) = offered_ip_addr d) \<Longrightarrow> typed (set_dhcp n f s) n = typed s n"
  by (simp add: typed_def tries_def Let_def)

text \<open>Between two messages a client holds none.\<close>

definition idle :: "'a nets \<Rightarrow> nat \<Rightarrow> bool" where
  "idle s n \<longleftrightarrow> p_out (dhcps s n) = None \<and> dhcp_p (dhcps s n) = None \<and> msg_in (dhcps s n) = None \<and> options_in (dhcps s n) = None"

lemma fine_step_in_place:
  assumes "polite app" "ready s n" "idle s n" "typed s n" "fine_step app n s = Some t"
  shows "in_place n s t"
proof -
  let ?u = "set_dhcp n (\<lambda>d. d\<lparr>request_timeout := 0\<rparr>) s" and ?t = "request_timeout (dhcps s n)"
  have c: "has_client s n" using assms(2) by (simp add: ready_client)
  consider "1 < ?t" | "?t = 1" | "?t = 0" using u16_cases by blast
  then show ?thesis
  proof cases
    case 1
    then have t: "t = set_dhcp n (\<lambda>d. d\<lparr>request_timeout := ?t - 1\<rparr>) s" using assms(5) c by (simp add: fine_step_def Let_def)
    have "?t - 1 \<noteq> 0" using 1 by auto
    then have "0 < ?t - 1" by (simp add: word_gt_0)
    then have "typed t n" using assms(4) by (simp add: t typed_def tries_def Let_def)
    then show ?thesis using assms(3) c by (simp add: t in_place_def idle_def has_client_def)
  next
    case 2
    then have "dhcp_timeout app n ?u = Some t" using assms(5) c by (simp add: fine_step_def Let_def)
    moreover have "almost_typed ?u n" using assms(4) by (simp add: almost_typed_def typed_def tries_def Let_def)
    ultimately have "in_place n ?u t" using timeout_in_place [OF assms(1)] assms(2,3) by (simp add: idle_def)
    then show ?thesis by (rule in_place_trans [rotated 4]) simp_all
  next
    case 3
    then have "t = s" using assms(5) c by (simp add: fine_step_def Let_def)
    then show ?thesis using assms(3,4) c by (simp add: in_place_def idle_def)
  qed
qed

lemma coarse_step_in_place:
  assumes "ready s n" "idle s n" "typed s n" "coarse_step n s = Some t"
  shows "in_place n s t"
proof -
  have c: "has_client s n" using assms(1) by (simp add: ready_client)
  let ?u = "set_dhcp n (\<lambda>d. d\<lparr>t2_timeout := t2_timeout (dhcps s n) - 1\<rparr>) s"
  let ?v = "set_dhcp n (\<lambda>d. d\<lparr>t1_timeout := t1_timeout (dhcps s n) - 1\<rparr>) ?u"
  have u: "ready ?u n" "p_out (dhcps ?u n) = None" "typed ?u n" "ready ?v n" "p_out (dhcps ?v n) = None" "typed ?v n"
    using assms(1-3) by (simp_all add: idle_def typed_set_dhcp)
  have i: "in_place n ?u t" if "t2_timeout (dhcps s n) = 1"
  proof -
    have "dhcp_t2_timeout n ?u = Some t" using assms(4) c that by (simp add: coarse_step_def Let_def)
    then show ?thesis
    proof (cases "dstate (dhcps ?u n) \<in> {DHCP_REQUESTING, DHCP_BOUND, DHCP_RENEWING}")
      case True
      then have "map_option snd (dhcp_rebind n ?u) = Some t" using \<open>dhcp_t2_timeout n ?u = Some t\<close> by (simp add: dhcp_t2_timeout_def)
      moreover have "dstate (dhcps ?u n) \<noteq> DHCP_REBINDING" using True by auto
      ultimately show ?thesis using rebind_in_place [OF u(1,2)] by auto
    next
      case False
      then have "t = ?u" using \<open>dhcp_t2_timeout n ?u = Some t\<close> by (simp add: dhcp_t2_timeout_def split: if_splits)
      then show ?thesis using u c by (simp add: in_place_def has_client_def)
    qed
  qed
  have j: "in_place n ?v t" if "t2_timeout (dhcps s n) \<noteq> 1"
  proof (cases "t1_timeout (dhcps s n) = 1 \<and> dstate (dhcps ?v n) \<in> {DHCP_REQUESTING, DHCP_BOUND, DHCP_RENEWING}")
    case True
    then have "map_option snd (dhcp_renew n ?v) = Some t"
      using assms(4) c that by (auto simp: coarse_step_def Let_def dhcp_t1_timeout_def)
    then show ?thesis using renew_in_place [OF u(4,5)] by auto
  next
    case False
    then have "t = ?v" using assms(4) c that by (auto simp: coarse_step_def Let_def dhcp_t1_timeout_def split: if_splits)
    then show ?thesis using u c by (simp add: in_place_def has_client_def)
  qed
  show ?thesis
  proof (cases "t2_timeout (dhcps s n) = 1")
    case True
    then show ?thesis using i by (auto intro: in_place_trans [rotated 4])
  next
    case False
    show ?thesis by (rule in_place_trans [OF _ _ _ _ j [OF False]]) simp_all
  qed
qed

section \<open>Replies\<close>

lemma dns_addresses_fields:
  "dns_addresses q d = Some e \<Longrightarrow> \<exists>c as. e = d\<lparr>dns_count := c, offered_dns_addr := as\<rparr>"
  by (auto simp: dns_addresses_def Option.bind_eq_Some_conv Let_def)

definition same_session :: "dhcp \<Rightarrow> dhcp \<Rightarrow> bool" where
  "same_session d e \<longleftrightarrow> dstate e = dstate d \<and> xid e = xid d \<and> dhcp_p e = dhcp_p d \<and> msg_in e = msg_in d \<and> options_in e = options_in d
     \<and> options_in_len e = options_in_len d \<and> p_out e = p_out d \<and> request_timeout e = request_timeout d \<and> server_ip_addr e = server_ip_addr d"

lemma given_field: "(\<And>x. g (f x d) = g d) \<Longrightarrow> g (given v f d) = g d"
  by (simp add: given_def split: option.splits)

lemmas given_fields = given_field [of dstate] given_field [of xid] given_field [of dhcp_p] given_field [of msg_in] given_field [of options_in]
  given_field [of options_in_len] given_field [of p_out] given_field [of request_timeout] given_field [of server_ip_addr]

lemma same_session_trans: "same_session d e \<Longrightarrow> same_session e f \<Longrightarrow> same_session d f"
  by (simp add: same_session_def)

lemma dns_session: "(case q of None \<Rightarrow> Some d | Some q \<Rightarrow> dns_addresses q d) = Some e \<Longrightarrow> same_session d e"
  by (auto simp: same_session_def split: option.splits dest!: dns_addresses_fields)

lemma handle_ack_session: "dhcp_handle_ack d = Some e \<Longrightarrow> same_session d e"
  unfolding dhcp_handle_ack_def Let_def Option.bind_eq_Some_conv
  by (elim exE conjE, drule dns_session, erule same_session_trans [rotated]) (simp add: same_session_def given_fields)

lemma dispatch_in_place:
  assumes "polite app" "ready s n" "p_out (dhcps s n) = None" "typed s n" "dhcp_dispatch app n ty s = Some t"
  shows "in_place n s t"
proof -
  let ?st = "dstate (dhcps s n)" and ?u = "stop_request_timer n s"
  have c: "has_client s n" using assms(2) by (simp add: ready_client)
  have u: "ready ?u n" "p_out (dhcps ?u n) = None" "dstate (dhcps ?u n) = ?st" "tries ?u n = tries s n" using assms(2,3) by (simp_all add: stop_request_timer_def tries_def)
  have return: "in_place n s t" if "in_place n ?u t"
    using that by (rule in_place_trans [rotated 4]) (simp_all add: stop_request_timer_def)
  have other: "dhcp_dispatch app n ty s = Some s"
    if "\<not> (ty = DHCP_ACK \<and> ?st = DHCP_REQUESTING)" "\<not> (ty = DHCP_ACK \<and> ?st \<in> {DHCP_REBOOTING, DHCP_REBINDING, DHCP_RENEWING})"
      "\<not> (ty = DHCP_NAK \<and> ?st \<in> {DHCP_REBOOTING, DHCP_REQUESTING, DHCP_REBINDING, DHCP_RENEWING})" "\<not> (ty = DHCP_OFFER \<and> ?st = DHCP_SELECTING)"
    using that by (auto simp: dhcp_dispatch_def Let_def)
  consider "ty = DHCP_ACK" "?st = DHCP_REQUESTING" | "ty = DHCP_ACK" "?st \<in> {DHCP_REBOOTING, DHCP_REBINDING, DHCP_RENEWING}"
    | "ty = DHCP_NAK" "?st \<in> {DHCP_REBOOTING, DHCP_REQUESTING, DHCP_REBINDING, DHCP_RENEWING}" | "ty = DHCP_OFFER" "?st = DHCP_SELECTING"
    | "dhcp_dispatch app n ty s = Some s"
    using other by blast
  then show ?thesis
  proof cases
    case 1
    then obtain d where d: "dhcp_handle_ack (dhcps s n) = Some d" "t = dhcp_check n (stop_request_timer n (set_dhcp n (\<lambda>_. d) s))"
      using assms(5) by (auto simp: dhcp_dispatch_def)
    let ?v = "stop_request_timer n (set_dhcp n (\<lambda>_. d) s)"
    have s: "same_session (dhcps s n) d" by (rule handle_ack_session [OF d(1)])
    have "in_place n ?v (dhcp_check n ?v)"
      by (rule check_in_place) (use assms(2,3) s 1(2) in \<open>simp_all add: stop_request_timer_def same_session_def\<close>)
    then show ?thesis unfolding d(2)
      by (rule in_place_trans [rotated 4]) (use s in \<open>simp_all add: stop_request_timer_def same_session_def\<close>)
  next
    case 2
    then have "dhcp_bind app n ?u = Some t" using assms(5) by (auto simp: dhcp_dispatch_def)
    then show ?thesis using bind_in_place(1) [OF assms(1) u(1,2)] return by blast
  next
    case 3
    then have "dhcp_handle_nak app n ?u = Some t" using assms(5) by (auto simp: dhcp_dispatch_def DHCP_NAK_def DHCP_ACK_def)
    then show ?thesis using nak_in_place [OF assms(1) u(1,2)] return by blast
  next
    case 4
    then have h: "dhcp_handle_offer n ?u = Some t" using assms(5) by (auto simp: dhcp_dispatch_def DHCP_OFFER_def DHCP_ACK_def DHCP_NAK_def)
    have ty: "typed ?u n" using assms(4) 4 by (simp add: typed_def tries_def Let_def stop_request_timer_def)
    show ?thesis
    proof (cases "t = ?u")
      case True
      then show ?thesis using u ty c by (intro return) (simp add: in_place_def has_client_def stop_request_timer_def)
    next
      case False
      then obtain a b where ab: "map_option snd (dhcp_select n (set_dhcp n (\<lambda>d. d\<lparr>server_ip_addr := a, offered_ip_addr := b\<rparr>) ?u)) = Some t"
        using h by (auto simp: dhcp_handle_offer_def Option.bind_eq_Some_conv split: option.splits) blast
      let ?w = "set_dhcp n (\<lambda>d. d\<lparr>server_ip_addr := a, offered_ip_addr := b\<rparr>) ?u"
      obtain e v where "dhcp_select n ?w = Some (e, v)" "in_place n ?w v"
        using select_in_place [of ?w n] u 4 by auto
      then have "in_place n ?w t" using ab by simp
      then have "in_place n ?u t" by (rule in_place_trans [rotated 4]) simp_all
      then show ?thesis by (rule return)
    qed
  next
    case 5
    then show ?thesis using assms c by (simp add: in_place_def)
  qed
qed

lemma free_reply_fields:
  "msg_in (dhcp_free_reply d) = None" "options_in (dhcp_free_reply d) = None" "p_out (dhcp_free_reply d) = p_out d" "dstate (dhcp_free_reply d) = dstate d"
  "request_timeout (dhcp_free_reply d) = request_timeout d" "offered_ip_addr (dhcp_free_reply d) = offered_ip_addr d" "dhcp_p (dhcp_free_reply d) = dhcp_p d"
  "xid (dhcp_free_reply d) = xid d"
  by (simp_all add: dhcp_free_reply_def Let_def)

lemma same_net_set_dhcp [simp]: "same_net n s (set_dhcp n f t) = same_net n s t" "same_net n (set_dhcp n f s) t = same_net n s t"
  by (auto simp: same_net_def)

lemma mem_malloc_same: "mem_malloc_ok s = (ok, t) \<Longrightarrow> same_net n s t \<and> dhcps t = dhcps s"
  by (auto simp: mem_malloc_ok_def same_net_def dest!: try_alloc_same split: prod.splits)

lemma unfold_reply_same:
  assumes "dhcp_unfold_reply n s = (e, t)"
  shows "same_net n s t" "dstate (dhcps t n) = dstate (dhcps s n) \<and> request_timeout (dhcps t n) = request_timeout (dhcps s n) \<and> p_out (dhcps t n) = p_out (dhcps s n)
    \<and> dhcp_p (dhcps t n) = dhcp_p (dhcps s n) \<and> offered_ip_addr (dhcps t n) = offered_ip_addr (dhcps s n)"
  using assms
  by (auto simp: dhcp_unfold_reply_def Let_def free_reply_fields dest!: mem_malloc_same [of _ _ _ n] split: option.splits if_splits prod.splits
      intro: same_net_trans)

lemma typed_same_net: "same_net n s t \<Longrightarrow> dstate (dhcps t n) = dstate (dhcps s n) \<Longrightarrow> request_timeout (dhcps t n) = request_timeout (dhcps s n) \<Longrightarrow>
    offered_ip_addr (dhcps t n) = offered_ip_addr (dhcps s n) \<Longrightarrow> typed t n = typed s n"
  by (simp add: typed_def tries_def Let_def same_net_netifs)

lemma recv_in_place:
  assumes "polite app" "ready s n" "idle s n" "typed s n" "dhcp_recv app n p s = Some t"
  shows "in_place n s t"
proof -
  let ?u = "set_dhcp n (dhcp_p_update (\<lambda>_. Some p)) s"
  let ?finish = "\<lambda>s. set_dhcp n (dhcp_p_update (\<lambda>_. None)) (on_stack (log_op (Free_chain p)) (set_dhcp n dhcp_free_reply s))"
  have c: "has_client s n" using assms(2) by (simp add: ready_client)
  have fin: "in_place n s (?finish v)" if "only n s v" "has_client v n" "typed v n" "p_out (dhcps v n) = None" for v
    using that assms(3)
    by (simp add: in_place_def idle_def free_reply_fields typed_def tries_def Let_def has_client_def only_def)
  let ?in = "\<lambda>ok. if \<not> ok then Some ?u
      else let (err, s) = dhcp_unfold_reply n ?u in
        if err \<noteq> ERR_OK then Some s
        else dhcp_get_option_ptr (dhcps s n) DHCP_OPTION_MESSAGE_TYPE \<bind>
          (\<lambda>q. case q of None \<Rightarrow> Some s
             | Some q \<Rightarrow> dhcp_get_option_byte (drop 2 q) \<bind> (\<lambda>msg_type. dhcp_dispatch app n msg_type s))"
  have "reply_matches (netif_at ?u n) (xid (dhcps ?u n)) (first p) \<bind> (\<lambda>ok. ?in ok \<bind> (\<lambda>s. Some (?finish s))) = Some t"
    using assms(5) c by (simp add: dhcp_recv_def Let_def)
  then obtain ok v where v: "?in ok = Some v" "t = ?finish v" by (auto simp only: Option.bind_eq_Some_conv option.inject)
  obtain e w where w: "dhcp_unfold_reply n ?u = (e, w)" by fastforce
  note same = unfold_reply_same [OF w]
  have wu: "only n s w" "ready w n" "typed w n" "p_out (dhcps w n) = None"
    using only_same_net [OF same(1)] only_trans [of n s ?u w] ready_same [OF same(1)] typed_same_net [OF same(1)] same(2) assms(2-4)
    by (simp_all add: idle_def typed_set_dhcp)
  have uu: "only n s ?u" "has_client ?u n" "typed ?u n" "p_out (dhcps ?u n) = None"
    using assms(3,4) c by (simp_all add: idle_def typed_set_dhcp has_client_def)
  have "v = ?u \<or> v = w \<or> (\<exists>ty. dhcp_dispatch app n ty w = Some v)"
    using v(1) unfolding w Let_def prod.case
    by (auto simp only: Option.bind_eq_Some_conv option.inject split: if_split_asm option.split_asm) (metis not_None_eq)
  then consider "v = ?u" | "v = w" | ty where "dhcp_dispatch app n ty w = Some v" by blast
  then show ?thesis
  proof cases
    case 1
    then show ?thesis unfolding v(2) using fin uu by blast
  next
    case 2
    then show ?thesis unfolding v(2) using fin wu ready_client(1) by blast
  next
    case 3
    from dispatch_in_place [OF assms(1) wu(2,4,3) 3] have "in_place n w v" .
    then show ?thesis unfolding v(2) using fin [of v] only_trans [OF wu(1)] by (simp add: in_place_def)
  qed
qed

section \<open>The control blocks of the clients\<close>

text \<open>Every client has a control block of its own, bound to the client's port, in the list of those in use.\<close>

definition pcb_ok :: "'a nets \<Rightarrow> nat \<Rightarrow> bool" where
  "pcb_ok s n \<longleftrightarrow>
     (if has_client s n
      then ready s n \<and> idle s n \<and> (\<forall>a. dhcp_pcb (net_ip s) n = Some a \<longrightarrow> udp_recv_set (udp_mem (net_ip s) a))
      else dhcp_pcb (net_ip s) n = None)"

definition udp_ok :: "'a nets \<Rightarrow> bool" where
  "udp_ok s \<longleftrightarrow> distinct (udp_pcbs (net_ip s) @ udp_free (net_ip s))
     \<and> (\<forall>m n a. m < length (netif_list (net_ip s)) \<longrightarrow> n < length (netif_list (net_ip s)) \<longrightarrow>
          dhcp_pcb (net_ip s) m = Some a \<longrightarrow> dhcp_pcb (net_ip s) n = Some a \<longrightarrow> m = n)
     \<and> (\<forall>m < length (netif_list (net_ip s)). chaddr_of (netif_at s m) \<noteq> None)"

definition wired :: "'a nets \<Rightarrow> bool" where
  "wired s \<longleftrightarrow> udp_ok s \<and> (\<forall>m < length (netif_list (net_ip s)). pcb_ok s m)"

definition clients_ok :: "'a nets \<Rightarrow> bool" where
  "clients_ok s \<longleftrightarrow> wired s \<and> (\<forall>m < length (netif_list (net_ip s)). has_client s m \<longrightarrow> typed s m)"

lemma only_eqs:
  assumes "only n s t"
  shows "length (netif_list (net_ip t)) = length (netif_list (net_ip s))" "dhcp_pcb (net_ip t) = dhcp_pcb (net_ip s)"
    "udp_pcbs (net_ip t) = udp_pcbs (net_ip s)" "udp_free (net_ip t) = udp_free (net_ip s)"
    "udp_local_port (udp_mem (net_ip t) a) = udp_local_port (udp_mem (net_ip s) a)" "udp_local_ip (udp_mem (net_ip t) a) = udp_local_ip (udp_mem (net_ip s) a)"
    "udp_recv_set (udp_mem (net_ip t) a) = udp_recv_set (udp_mem (net_ip s) a)" "chaddr_of (netif_at t m) = chaddr_of (netif_at s m)"
proof -
  show "length (netif_list (net_ip t)) = length (netif_list (net_ip s))" "dhcp_pcb (net_ip t) = dhcp_pcb (net_ip s)"
    "udp_pcbs (net_ip t) = udp_pcbs (net_ip s)" "udp_free (net_ip t) = udp_free (net_ip s)"
    "udp_local_port (udp_mem (net_ip t) a) = udp_local_port (udp_mem (net_ip s) a)" "udp_local_ip (udp_mem (net_ip t) a) = udp_local_ip (udp_mem (net_ip s) a)"
    "udp_recv_set (udp_mem (net_ip t) a) = udp_recv_set (udp_mem (net_ip s) a)"
    using assms unfolding only_def by blast+
  show "chaddr_of (netif_at t m) = chaddr_of (netif_at s m)"
  proof (cases "m = n")
    case True
    have "hwaddr (netif_at t n) = hwaddr (netif_at s n)" "hwaddr_len (netif_at t n) = hwaddr_len (netif_at s n)"
      using assms unfolding only_def by blast+
    then show ?thesis unfolding chaddr_of_def True by (simp only:)
  next
    case False
    then have "netif_at t m = netif_at s m" using assms unfolding only_def by blast
    then show ?thesis by (simp only:)
  qed
qed

lemma only_other:
  assumes "only n s t" "m \<noteq> n"
  shows "has_client t m = has_client s m" "ready t m = ready s m" "idle t m = idle s m" "typed t m = typed s m" "pcb_ok t m = pcb_ok s m"
proof -
  have o: "netif_at t m = netif_at s m" "dhcps t m = dhcps s m" using assms by (simp_all add: only_def)
  show c: "has_client t m = has_client s m" "idle t m = idle s m" "typed t m = typed s m" using o by (simp_all add: has_client_def idle_def typed_def tries_def)
  note e = only_eqs [OF assms(1)]
  show r: "ready t m = ready s m" unfolding ready_def e o c(1) ..
  show "pcb_ok t m = pcb_ok s m" unfolding pcb_ok_def e c(1,2) r ..
qed

lemma only_udp_ok:
  assumes "only n s t" "udp_ok s"
  shows "udp_ok t"
  using assms(2) unfolding udp_ok_def only_eqs [OF assms(1)] .

lemma only_wired:
  assumes "only n s t" "wired s" "pcb_ok t n"
  shows "wired t"
  unfolding wired_def
proof (intro conjI allI impI)
  show "udp_ok t" using only_udp_ok [OF assms(1)] assms(2) by (simp add: wired_def)
  fix m assume "m < length (netif_list (net_ip t))"
  then show "pcb_ok t m" using assms(2,3) only_other(5) [OF assms(1)] by (cases "m = n") (simp_all add: wired_def only_eqs(1) [OF assms(1)])
qed

lemma only_clients_ok:
  assumes "only n s t" "clients_ok s" "pcb_ok t n" "has_client t n \<Longrightarrow> typed t n"
  shows "clients_ok t"
  unfolding clients_ok_def
proof (intro conjI allI impI)
  show "wired t" using only_wired [OF assms(1) _ assms(3)] assms(2) by (simp add: clients_ok_def)
  fix m assume "m < length (netif_list (net_ip t))" "has_client t m"
  then show "typed t m"
    using assms(2,4) only_other(1,4) [OF assms(1)] by (cases "m = n") (simp_all add: clients_ok_def only_eqs(1) [OF assms(1)])
qed

lemma in_place_pcb_ok: "in_place n s t \<Longrightarrow> pcb_ok s n \<Longrightarrow> has_client s n \<Longrightarrow> pcb_ok t n"
  using only_ready [of n s t] only_eqs [of n s t] by (simp add: in_place_def pcb_ok_def idle_def)

lemma in_place_clients_ok:
  assumes "in_place n s t" "clients_ok s" "has_client s n" "n < length (netif_list (net_ip s))"
  shows "clients_ok t" "length (netif_list (net_ip t)) = length (netif_list (net_ip s))"
proof -
  have "pcb_ok t n" using in_place_pcb_ok [OF assms(1) _ assms(3)] assms(2,4) by (simp add: clients_ok_def wired_def)
  then show "clients_ok t" using only_clients_ok assms(1,2) by (auto simp: in_place_def)
  show "length (netif_list (net_ip t)) = length (netif_list (net_ip s))" using assms(1) only_eqs(1) by (auto simp: in_place_def)
qed

lemma clients_ok_at:
  assumes "clients_ok s" "has_client s n" "n < length (netif_list (net_ip s))"
  shows "ready s n" "idle s n" "typed s n" "p_out (dhcps s n) = None"
  using assms by (auto simp: clients_ok_def wired_def pcb_ok_def idle_def)

lemma each_netif_ok:
  assumes "\<And>n s t. n < k \<Longrightarrow> clients_ok s \<Longrightarrow> length (netif_list (net_ip s)) = k \<Longrightarrow> f n s = Some t \<Longrightarrow>
      clients_ok t \<and> length (netif_list (net_ip t)) = k"
  shows "each_netif f ns s = Some t \<Longrightarrow> set ns \<subseteq> {..<k} \<Longrightarrow> clients_ok s \<Longrightarrow> length (netif_list (net_ip s)) = k \<Longrightarrow> clients_ok t"
  by (induction ns arbitrary: s) (use assms in \<open>auto simp: Option.bind_eq_Some_conv\<close>)

lemma fine_tmr_ok:
  assumes "polite app" "clients_ok s" "dhcp_fine_tmr app s = Some t"
  shows "clients_ok t"
proof (rule each_netif_ok [OF _ assms(3) [unfolded dhcp_fine_tmr_def] _ assms(2) refl])
  fix n and u v :: "'a nets"
  assume u: "n < length (netif_list (net_ip s))" "clients_ok u" "length (netif_list (net_ip u)) = length (netif_list (net_ip s))" "fine_step app n u = Some v"
  show "clients_ok v \<and> length (netif_list (net_ip v)) = length (netif_list (net_ip s))"
  proof (cases "has_client u n")
    case True
    note c = clients_ok_at [OF u(2) True, unfolded u(3), OF u(1)]
    show ?thesis using in_place_clients_ok [OF fine_step_in_place [OF assms(1) c(1-3) u(4)] u(2) True] u(1,3) by simp
  next
    case False
    then show ?thesis using u by (simp add: fine_step_def)
  qed
qed auto

lemma coarse_tmr_ok:
  assumes "clients_ok s" "dhcp_coarse_tmr s = Some t"
  shows "clients_ok t"
proof (rule each_netif_ok [OF _ assms(2) [unfolded dhcp_coarse_tmr_def] _ assms(1) refl])
  fix n and u v :: "'a nets"
  assume u: "n < length (netif_list (net_ip s))" "clients_ok u" "length (netif_list (net_ip u)) = length (netif_list (net_ip s))" "coarse_step n u = Some v"
  show "clients_ok v \<and> length (netif_list (net_ip v)) = length (netif_list (net_ip s))"
  proof (cases "has_client u n")
    case True
    note c = clients_ok_at [OF u(2) True, unfolded u(3), OF u(1)]
    show ?thesis using in_place_clients_ok [OF coarse_step_in_place [OF c(1-3) u(4)] u(2) True] u(1,3) by simp
  next
    case False
    then show ?thesis using u by (simp add: coarse_step_def)
  qed
qed auto

section \<open>Starting and stopping\<close>

lemma dhcp_flag_up: "(f AND NOT NETIF_FLAG_DHCP) AND NETIF_FLAG_UP = f AND NETIF_FLAG_UP" "(f OR NETIF_FLAG_DHCP) AND NETIF_FLAG_UP = f AND NETIF_FLAG_UP"
  by (simp_all add: NETIF_FLAG_DHCP_def NETIF_FLAG_UP_def and.assoc bit.conj_disj_distrib2)

text \<open>The flag that \<open>dhcp_start\<close> and \<open>dhcp_stop\<close> change says nothing about the client.\<close>

lemma flag_client:
  assumes "t = set_netif n (\<lambda>i. i\<lparr>flags := g (flags i)\<rparr>) s" "\<And>f. g f AND NETIF_FLAG_UP = f AND NETIF_FLAG_UP"
  shows "only n s t" "has_client t m = has_client s m" "dhcps t = dhcps s" "typed t m = typed s m" "pcb_ok t m = pcb_ok s m"
    "mtu (netif_at t m) = mtu (netif_at s m)" "length (netif_list (net_ip t)) = length (netif_list (net_ip s))"
proof -
  show o: "only n s t" unfolding assms(1) by (rule only_set_netif) simp
  have n: "netif_at t m = (if m = n \<and> n < length (netif_list (net_ip s)) then (netif_at s n)\<lparr>flags := g (flags (netif_at s n))\<rparr> else netif_at s m)"
    unfolding assms(1) by simp
  show c: "has_client t m = has_client s m" and d: "dhcps t = dhcps s" and "mtu (netif_at t m) = mtu (netif_at s m)"
    unfolding has_client_def n by (simp_all add: assms(1))
  show "typed t m = typed s m" unfolding typed_def tries_def n d by (simp add: netif_is_up_def assms(2))
  have "ready t m = ready s m" using n c unfolding ready_def only_eqs [OF o] by simp
  then show "pcb_ok t m = pcb_ok s m" unfolding pcb_ok_def c idle_def d only_eqs [OF o] by simp
  show "length (netif_list (net_ip t)) = length (netif_list (net_ip s))" by (rule only_eqs(1) [OF o])
qed

lemma flag_clients_ok:
  assumes "t = set_netif n (\<lambda>i. i\<lparr>flags := g (flags i)\<rparr>) s" "\<And>f. g f AND NETIF_FLAG_UP = f AND NETIF_FLAG_UP"
  shows "clients_ok t = clients_ok s" "wired t = wired s" "udp_ok t = udp_ok s"
proof -
  note f = flag_client [OF assms]
  show u: "udp_ok t = udp_ok s" unfolding udp_ok_def only_eqs [OF f(1)] ..
  show w: "wired t = wired s" unfolding wired_def u f(5,7) ..
  show "clients_ok t = clients_ok s" unfolding clients_ok_def w f(2,4,7) ..
qed

text \<open>All but the client of one interface.\<close>

definition ok_but :: "nat \<Rightarrow> 'a nets \<Rightarrow> bool" where
  "ok_but n s \<longleftrightarrow> udp_ok s \<and> (\<forall>m < length (netif_list (net_ip s)). m \<noteq> n \<longrightarrow> pcb_ok s m \<and> (has_client s m \<longrightarrow> typed s m))"

lemma clients_ok_split:
  assumes "n < length (netif_list (net_ip s))"
  shows "clients_ok s \<longleftrightarrow> ok_but n s \<and> pcb_ok s n \<and> (has_client s n \<longrightarrow> typed s n)"
  using assms by (auto simp: clients_ok_def wired_def ok_but_def)

lemma only_ok_but: "only n s t \<Longrightarrow> ok_but n s \<Longrightarrow> ok_but n t"
  by (simp add: ok_but_def only_udp_ok only_eqs(1) only_other)

text \<open>A control block goes back to the pool, or comes from it, while the interfaces and the clients stay as they are.\<close>

definition moved_pcb :: "nat \<Rightarrow> 'a nets \<Rightarrow> 'a nets \<Rightarrow> bool" where
  "moved_pcb n s t \<longleftrightarrow> netif_list (net_ip t) = netif_list (net_ip s) \<and> dhcps t = dhcps s
     \<and> (\<forall>m. m \<noteq> n \<longrightarrow> dhcp_pcb (net_ip t) m = dhcp_pcb (net_ip s) m)
     \<and> (\<forall>m < length (netif_list (net_ip s)). \<forall>a. m \<noteq> n \<longrightarrow> dhcp_pcb (net_ip s) m = Some a \<longrightarrow>
          udp_mem (net_ip t) a = udp_mem (net_ip s) a \<and> (a \<in> set (udp_pcbs (net_ip s)) \<longrightarrow> a \<in> set (udp_pcbs (net_ip t))))"

lemma moved_pcb_ok_but:
  assumes "moved_pcb n s t" "ok_but n s" "udp_ok t"
  shows "ok_but n t"
  unfolding ok_but_def
proof (intro conjI allI impI)
  show "udp_ok t" by (rule assms(3))
  fix m assume m: "m < length (netif_list (net_ip t))" "m \<noteq> n"
  have e: "netif_list (net_ip t) = netif_list (net_ip s)" "dhcps t = dhcps s" "dhcp_pcb (net_ip t) m = dhcp_pcb (net_ip s) m"
    using assms(1) m(2) by (simp_all add: moved_pcb_def)
  have s: "pcb_ok s m" "has_client s m \<longrightarrow> typed s m" using assms(2) m e(1) by (simp_all add: ok_but_def)
  have a: "udp_mem (net_ip t) a = udp_mem (net_ip s) a \<and> (a \<in> set (udp_pcbs (net_ip s)) \<longrightarrow> a \<in> set (udp_pcbs (net_ip t)))"
    if "dhcp_pcb (net_ip s) m = Some a" for a
    using assms(1) m e(1) that by (simp add: moved_pcb_def)
  have c: "has_client t m = has_client s m" "idle t m = idle s m" "typed t m = typed s m"
    by (simp_all add: has_client_def idle_def typed_def tries_def e(1,2))
  have "ready t m" if "ready s m" using that a unfolding ready_def c(1) e by auto
  then show "pcb_ok t m" using s(1) a unfolding pcb_ok_def c(1,2) e by auto
  assume "has_client t m"
  then show "typed t m" using s(2) c(1,3) by simp
qed

lemma stop_ok:
  assumes "clients_ok s \<or> n < length (netif_list (net_ip s)) \<and> ok_but n s \<and> pcb_ok s n" "n < length (netif_list (net_ip s))"
  shows "clients_ok (dhcp_stop n s)"
proof -
  let ?u = "set_netif n (\<lambda>i. i\<lparr>flags := flags i AND NOT NETIF_FLAG_DHCP\<rparr>) s"
  note f = flag_client [OF refl dhcp_flag_up(1), of n s] and g = flag_clients_ok [OF refl dhcp_flag_up(1), of n s]
  have s: "ok_but n s" "pcb_ok s n" using assms clients_ok_split by blast+
  have u: "ok_but n ?u" "pcb_ok ?u n" using only_ok_but [OF f(1) s(1)] s(2) f(5) by simp_all
  have n: "n < length (netif_list (net_ip ?u))" using assms(2) f(7) by simp
  show ?thesis
  proof (cases "has_client ?u n")
    case False
    then have "clients_ok ?u" using clients_ok_split [OF n] u by simp
    then show ?thesis using False by (simp add: dhcp_stop_def Let_def)
  next
    case True
    then obtain a where a: "dhcp_pcb (net_ip ?u) n = Some a" "a \<in> set (udp_pcbs (net_ip ?u))" "idle ?u n"
      using u(2) by (auto simp: pcb_ok_def ready_def)
    let ?v = "set_pcb n None (on_stack (udp_remove a) ?u)"
    have "moved_pcb n ?u ?v"
      using u(1) a(1) n by (auto simp: moved_pcb_def set_pcb_def udp_remove_def ok_but_def udp_ok_def)
    moreover have "udp_ok ?v"
      using u(1) a(2) by (auto simp: ok_but_def udp_ok_def set_pcb_def udp_remove_def split: if_splits)
    ultimately have v: "ok_but n ?v" using u(1) moved_pcb_ok_but by blast
    have "dhcp_p (dhcps ?v n) = None" using a(3) by (simp add: set_pcb_def idle_def)
    then have t: "dhcp_stop n s = set_client n None (set_dhcp n dhcp_free_reply ?v)"
      using True a(1) by (simp add: dhcp_stop_def Let_def)
    have "only n ?v (dhcp_stop n s)" unfolding t by (rule only_trans [of n ?v "set_dhcp n dhcp_free_reply ?v"]) simp_all
    then have "ok_but n (dhcp_stop n s)" using v by (rule only_ok_but)
    moreover have "\<not> has_client (dhcp_stop n s) n" "dhcp_pcb (net_ip (dhcp_stop n s)) n = None" "n < length (netif_list (net_ip (dhcp_stop n s)))"
      using n unfolding t by (simp_all add: has_client_def netif_at_set_client set_pcb_def udp_remove_def)
    ultimately show ?thesis using clients_ok_split [of n "dhcp_stop n s"] by (simp add: pcb_ok_def)
  qed
qed

lemma open_pcb_result:
  assumes "udp_open n s = (True, u)" "distinct (udp_pcbs (net_ip s) @ udp_free (net_ip s))"
  shows "\<exists>a as X w. udp_free (net_ip s) = a # as \<and> dhcp_open_pcb n u = Some w \<and> dhcps w = dhcps s
    \<and> net_ip w = (net_ip s)\<lparr>dhcp_pcb := (dhcp_pcb (net_ip s))(n := Some a), udp_free := as, udp_pcbs := a # udp_pcbs (net_ip s),
        udp_mem := (udp_mem (net_ip s))(a := X)\<rparr>
    \<and> udp_local_port X = DHCP_CLIENT_PORT \<and> udp_local_ip X = 0 \<and> udp_recv_set X"
proof -
  let ?k = "net_ip s"
  obtain a as where a: "udp_free ?k = a # as" using assms(1) by (auto simp: udp_open_def udp_new_def split: list.splits)
  have na: "a \<notin> set (udp_pcbs ?k)" using assms(2) a by auto
  let ?z = "udp_zero\<lparr>udp_ttl := UDP_TTL\<rparr>"
  have u: "u = set_pcb n (Some a) (on_stack (\<lambda>_. ?k\<lparr>udp_free := as, udp_mem := (udp_mem ?k)(a := ?z)\<rparr>) s)"
    using assms(1) a by (simp add: udp_open_def udp_new_def set_udp_def)
  define X where "X = ?z\<lparr>udp_local_ip := 0, udp_local_port := DHCP_CLIENT_PORT, udp_remote_ip := 0, udp_remote_port := DHCP_SERVER_PORT,
    udp_flags := udp_flags ?z OR UDP_FLAGS_CONNECTED, udp_recv_set := True\<rparr>"
  have port: "DHCP_CLIENT_PORT \<noteq> 0" by (simp add: DHCP_CLIENT_PORT_def)
  have "\<exists>w. dhcp_open_pcb n u = Some w \<and> dhcps w = dhcps s
    \<and> net_ip w = ?k\<lparr>dhcp_pcb := (dhcp_pcb ?k)(n := Some a), udp_free := as, udp_pcbs := a # udp_pcbs ?k, udp_mem := (udp_mem ?k)(a := X)\<rparr>"
    using na port
    by (simp add: dhcp_open_pcb_def dhcp_bind_pcb_def u set_pcb_def udp_bind_def set_udp_def dhcp_connect_def udp_connect_def udp_recv_def X_def Let_def)
  then show ?thesis using a by (intro exI [of _ a] exI [of _ as] exI [of _ X]) (auto simp: X_def)
qed

lemma open_ok:
  assumes "ok_but n s" "n < length (netif_list (net_ip s))" "has_client s n" "idle s n" "576 \<le> unat (mtu (netif_at s n))"
    "udp_open n s = (True, u)"
  shows "\<exists>w. dhcp_open_pcb n u = Some w \<and> ok_but n w \<and> pcb_ok w n \<and> has_client w n \<and> netif_list (net_ip w) = netif_list (net_ip s) \<and> dhcps w = dhcps s"
proof -
  have d: "distinct (udp_pcbs (net_ip s) @ udp_free (net_ip s))" using assms(1) by (simp add: ok_but_def udp_ok_def)
  from open_pcb_result [OF assms(6) d] obtain a as X w where w: "udp_free (net_ip s) = a # as" "dhcp_open_pcb n u = Some w" "dhcps w = dhcps s"
    "net_ip w = (net_ip s)\<lparr>dhcp_pcb := (dhcp_pcb (net_ip s))(n := Some a), udp_free := as, udp_pcbs := a # udp_pcbs (net_ip s), udp_mem := (udp_mem (net_ip s))(a := X)\<rparr>"
    "udp_local_port X = DHCP_CLIENT_PORT" "udp_local_ip X = 0" "udp_recv_set X" by blast
  have other: "b \<noteq> a" if "m < length (netif_list (net_ip s))" "m \<noteq> n" "dhcp_pcb (net_ip s) m = Some b" for m b
  proof -
    have "pcb_ok s m" using assms(1) that by (simp add: ok_but_def)
    then have "b \<in> set (udp_pcbs (net_ip s))" using that(3) by (auto simp: pcb_ok_def ready_def split: if_splits)
    then show ?thesis using d w(1) by auto
  qed
  have "moved_pcb n s w" using other by (auto simp: moved_pcb_def w(3,4))
  moreover have "udp_ok w"
    using assms(1) d w(1) other by (auto simp: ok_but_def udp_ok_def w(4) split: if_splits)
  ultimately have "ok_but n w" using moved_pcb_ok_but assms(1) by blast
  moreover have c: "has_client w n" "netif_list (net_ip w) = netif_list (net_ip s)" using assms(3) by (simp_all add: has_client_def w(4))
  moreover have "pcb_ok w n"
    using c assms(1,2,4,5) w(5-7) by (simp add: pcb_ok_def ready_def idle_def w(3) ok_but_def udp_ok_def) (simp add: w(4))
  ultimately show ?thesis using w(2,3) by blast
qed

lemma memory_moved:
  assumes "clients_ok s" "n < length (netif_list (net_ip s))" "dhcp_memory n s = (ok, t)"
  shows "moved_pcb n s t" "udp_ok t"
proof -
  have "moved_pcb n s t \<and> udp_ok t"
  proof (cases "has_client s n")
    case True
    have "pcb_ok s n" using assms(1,2) by (simp add: clients_ok_def wired_def)
    with True obtain a where a: "dhcp_pcb (net_ip s) n = Some a" "a \<in> set (udp_pcbs (net_ip s))" "dhcp_p (dhcps s n) = None"
      by (auto simp: pcb_ok_def ready_def idle_def)
    then have "t = on_stack (udp_remove a) s" using assms(3) True by (simp add: dhcp_memory_def Let_def)
    then show ?thesis using assms(1,2) a
      by (auto simp: moved_pcb_def udp_remove_def clients_ok_def wired_def udp_ok_def)
  next
    case False
    then have "same_net n s t" "dhcps t = dhcps s" using mem_malloc_same [of s ok t n] assms(3) by (simp_all add: dhcp_memory_def)
    then show ?thesis using assms(1) False assms(3)
      by (auto simp: dhcp_memory_def mem_malloc_ok_def moved_pcb_def same_net_def same_stack_def clients_ok_def wired_def udp_ok_def try_alloc_def
          split: prod.splits list.splits)
  qed
  then show "moved_pcb n s t" "udp_ok t" by simp_all
qed

lemma start_ok:
  assumes "clients_ok s" "n < length (netif_list (net_ip s))"
  shows "\<exists>e t. dhcp_start n s = Some (e, t) \<and> clients_ok t"
proof -
  let ?u = "set_netif n (\<lambda>i. i\<lparr>flags := flags i AND NOT NETIF_FLAG_DHCP\<rparr>) s"
  note f = flag_client [OF refl dhcp_flag_up(1), of n s] and g = flag_clients_ok [OF refl dhcp_flag_up(1), of n s]
  have u: "clients_ok ?u" using assms(1) g(1) by simp
  have n: "n < length (netif_list (net_ip ?u))" using assms(2) f(7) by simp
  show ?thesis
  proof (cases "mtu (netif_at ?u n) < DHCP_MAX_MSG_LEN_MIN_REQUIRED")
    case True
    then show ?thesis using u by (simp add: dhcp_start_def Let_def)
  next
    case False
    then have m: "576 \<le> unat (mtu (netif_at ?u n))" by (simp add: DHCP_MAX_MSG_LEN_MIN_REQUIRED_def word_less_nat_alt)
    obtain ok v where v: "dhcp_memory n ?u = (ok, v)" by fastforce
    note mv = memory_moved [OF u n v]
    have vl: "netif_list (net_ip v) = netif_list (net_ip ?u)" "dhcps v = dhcps ?u" using mv(1) by (simp_all add: moved_pcb_def)
    have v': "ok_but n v" using moved_pcb_ok_but [OF mv(1) _ mv(2)] clients_ok_split [OF n] u by blast
    show ?thesis
    proof (cases ok)
      case False
      then have nc: "\<not> has_client ?u n" using v by (auto simp: dhcp_memory_def Let_def split: if_splits)
      then have "v = snd (mem_malloc_ok ?u)" using v by (simp add: dhcp_memory_def)
      then have "dhcp_pcb (net_ip v) n = dhcp_pcb (net_ip ?u) n"
        by (auto simp: mem_malloc_ok_def try_alloc_def split: list.splits)
      then have "pcb_ok v n" "\<not> has_client v n" using nc u n vl by (auto simp: pcb_ok_def clients_ok_def wired_def has_client_def)
      then have "clients_ok v" using clients_ok_split [of n v] v' n vl(1) by simp
      then show ?thesis using False \<open>\<not> mtu (netif_at ?u n) < DHCP_MAX_MSG_LEN_MIN_REQUIRED\<close> v by (simp add: dhcp_start_def Let_def)
    next
      case True
      let ?w = "set_pcb n None (set_client n (Some 0) (set_dhcp n (\<lambda>_. dhcp_zero) v))"
      have "only n v (set_client n (Some 0) (set_dhcp n (\<lambda>_. dhcp_zero) v))"
        by (rule only_trans [of n v "set_dhcp n (\<lambda>_. dhcp_zero) v"]) simp_all
      then have w1: "ok_but n (set_client n (Some 0) (set_dhcp n (\<lambda>_. dhcp_zero) v))" using v' by (rule only_ok_but)
      have wn: "n < length (netif_list (net_ip ?w))" using n vl(1) by (simp add: set_pcb_def)
      have "moved_pcb n (set_client n (Some 0) (set_dhcp n (\<lambda>_. dhcp_zero) v)) ?w" by (simp add: moved_pcb_def set_pcb_def)
      moreover have "udp_ok ?w" using w1 by (auto simp: ok_but_def udp_ok_def set_pcb_def split: if_splits)
      ultimately have w2: "ok_but n ?w" using w1 moved_pcb_ok_but by blast
      have w3: "has_client ?w n" "idle ?w n" "576 \<le> unat (mtu (netif_at ?w n))" "dhcp_pcb (net_ip ?w) n = None"
        using n vl(1) m by (simp_all add: has_client_def netif_at_set_client set_pcb_def idle_def dhcp_zero_def)
      obtain ok' x where x: "udp_open n ?w = (ok', x)" by fastforce
      note start = \<open>\<not> mtu (netif_at ?u n) < DHCP_MAX_MSG_LEN_MIN_REQUIRED\<close> v True x
      show ?thesis
      proof (cases ok')
        case False
        then have "x = ?w" using x w3(4) by (auto simp: udp_open_def udp_new_def set_pcb_def on_stack_def split: list.splits)
        then have "only n ?w (set_client n None x)" by simp
        then have "ok_but n (set_client n None x)" using w2 by (rule only_ok_but)
        moreover have "\<not> has_client (set_client n None x) n" "dhcp_pcb (net_ip (set_client n None x)) n = None"
          "n < length (netif_list (net_ip (set_client n None x)))"
          using w3(4) wn \<open>x = ?w\<close> by (auto simp: has_client_def netif_at_set_client)
        ultimately have "clients_ok (set_client n None x)" using clients_ok_split [of n "set_client n None x"] by (simp add: pcb_ok_def)
        then show ?thesis using False start by (simp add: dhcp_start_def Let_def)
      next
        case True
        have "udp_open n ?w = (True, x)" using x \<open>ok'\<close> by simp
        from open_ok [OF w2 wn w3(1-3) this] obtain y where y: "dhcp_open_pcb n x = Some y" "ok_but n y" "pcb_ok y n" "has_client y n"
          "netif_list (net_ip y) = netif_list (net_ip ?w)" "dhcps y = dhcps ?w" by blast
        have yn: "n < length (netif_list (net_ip y))" using y(5) wn by simp
        have "ready y n" "p_out (dhcps y n) = None" using y(3,4) by (simp_all add: pcb_ok_def idle_def)
        from discover_in_place [OF this] obtain e z where z: "dhcp_discover n y = Some (e, z)" "in_place n y z" by blast
        have zo: "ok_but n z" "pcb_ok z n" "typed z n" "n < length (netif_list (net_ip z))"
          using z(2) only_ok_but [of n y z] y(2) in_place_pcb_ok [OF z(2) y(3,4)] only_eqs(1) [of n y z] yn by (simp_all add: in_place_def)
        have "clients_ok z" using clients_ok_split [OF zo(4)] zo by simp
        then show ?thesis
          using start True y(1) z(1) stop_ok [of z n] zo flag_clients_ok(1) [OF refl dhcp_flag_up(2), of n z]
          by (simp add: dhcp_start_def Let_def)
      qed
    qed
  qed
qed

section \<open>Every run of the clients\<close>

lemma kept_clients_ok:
  assumes "only n s t" "dhcps t = dhcps s" "has_client t n = has_client s n" "has_client s n \<Longrightarrow> typed s n \<Longrightarrow> typed t n" "clients_ok s"
    "n < length (netif_list (net_ip s))"
  shows "clients_ok t"
proof -
  have s: "pcb_ok s n" "has_client s n \<longrightarrow> typed s n" using assms(5,6) by (simp_all add: clients_ok_def wired_def)
  note e = only_eqs [OF assms(1)]
  have "ready t n" if "has_client s n" using that s(1) only_ready [OF assms(1)] assms(3) by (simp add: pcb_ok_def)
  then have "pcb_ok t n" using s(1) unfolding pcb_ok_def assms(2,3) idle_def e by (simp split: if_split_asm)
  then show ?thesis using only_clients_ok [OF assms(1,5)] s(2) assms(3,4) by simp
qed

lemma set_up_ok:
  assumes "clients_ok s" "n < length (netif_list (net_ip s))"
  shows "clients_ok (netif_set_up n s)"
  by (rule kept_clients_ok [OF set_up_client(1,4,2) _ assms])
    (use assms(2) in \<open>simp add: typed_def Let_def set_up_client(3-6)\<close>)

lemma set_addr_ok:
  assumes "polite app" "\<not> has_client s n" "netif_set_addr app n ipaddr subnet gateway s = Some t" "clients_ok s"
    "n < length (netif_list (net_ip s))"
  shows "clients_ok t"
proof -
  obtain u where u: "netif_set_ipaddr app n ipaddr s = Some u" "t = netif_set_gw n gateway (netif_set_netmask n subnet u)"
    using assms(3) by (auto simp: netif_set_addr_def)
  note i = set_ipaddr_client [OF assms(1) u(1)] and m = set_netmask_client [where n = n and g = subnet and s = u]
    and g = set_gw_client [where n = n and g = gateway and s = "netif_set_netmask n subnet u"]
  have "only n s t" unfolding u(2) by (rule only_trans [OF i(1) only_trans [OF m(1) g(1)]])
  then show ?thesis
    by (rule kept_clients_ok) (use assms(2,4,5) i(2,4) m(2,4) g(2,4) u(2) in simp_all)
qed

lemma elsewhere_ok:
  assumes "udp_others (net_ip s) (net_ip t)" "dhcps t = dhcps s" "clients_ok s"
  shows "clients_ok t"
proof -
  have n: "netif_list (net_ip t) = netif_list (net_ip s)" "dhcp_pcb (net_ip t) = dhcp_pcb (net_ip s)" using assms(1) by (simp_all add: udp_others_def)
  then have c: "has_client t m = has_client s m" "typed t m = typed s m" "idle t m = idle s m" for m
    using assms(2) by (simp_all add: has_client_def typed_def tries_def idle_def)
  have u: "udp_ok s" using assms(3) by (simp add: clients_ok_def wired_def)
  then have o: "distinct (udp_pcbs (net_ip t) @ udp_free (net_ip t))"
    "\<And>m a. m < length (netif_list (net_ip s)) \<Longrightarrow> dhcp_pcb (net_ip s) m = Some a \<Longrightarrow> a \<in> set (udp_pcbs (net_ip s)) \<Longrightarrow>
       a \<in> set (udp_pcbs (net_ip t)) \<and> udp_local_port (udp_mem (net_ip t) a) = udp_local_port (udp_mem (net_ip s) a)
       \<and> udp_local_ip (udp_mem (net_ip t) a) = udp_local_ip (udp_mem (net_ip s) a) \<and> udp_recv_set (udp_mem (net_ip t) a) = udp_recv_set (udp_mem (net_ip s) a)"
    using assms(1) unfolding udp_others_def udp_ok_def by blast+
  have "udp_ok t" using u o(1) unfolding udp_ok_def n by blast
  moreover have "pcb_ok t m" if "m < length (netif_list (net_ip s))" for m
  proof -
    have "pcb_ok s m" using assms(3) that by (simp add: clients_ok_def wired_def)
    then show ?thesis using o(2) [OF that] unfolding pcb_ok_def ready_def c n by (auto split: if_split_asm)
  qed
  ultimately show ?thesis using assms(3) unfolding clients_ok_def wired_def c n by simp
qed

text \<open>
  One step: a call of the program or of the stack, or a step of the rest of the program, which leaves
  the interfaces as they are and the control blocks of the clients to them.
\<close>

inductive dhcp_step :: "'a tcp_app \<Rightarrow> 'a nets \<Rightarrow> 'a nets \<Rightarrow> bool" for app where
  Start: "n < length (netif_list (net_ip s)) \<Longrightarrow> dhcp_start n s = Some (e, t) \<Longrightarrow> dhcp_step app s t"
| Stop: "n < length (netif_list (net_ip s)) \<Longrightarrow> dhcp_step app s (dhcp_stop n s)"
| Fine: "dhcp_fine_tmr app s = Some t \<Longrightarrow> dhcp_step app s t"
| Coarse: "dhcp_coarse_tmr s = Some t \<Longrightarrow> dhcp_step app s t"
| Reply: "n < length (netif_list (net_ip s)) \<Longrightarrow> dhcp_recv app n p s = Some t \<Longrightarrow> dhcp_step app s t"
| Arp: "n < length (netif_list (net_ip s)) \<Longrightarrow> dhcp_arp_reply n addr s = Some t \<Longrightarrow> dhcp_step app s t"
| Renew: "n < length (netif_list (net_ip s)) \<Longrightarrow> dhcp_renew n s = Some (e, t) \<Longrightarrow> dhcp_step app s t"
| Release: "n < length (netif_list (net_ip s)) \<Longrightarrow> dhcp_release app n s = Some (e, t) \<Longrightarrow> dhcp_step app s t"
| Up: "n < length (netif_list (net_ip s)) \<Longrightarrow> dhcp_step app s (netif_set_up n s)"
| Static: "n < length (netif_list (net_ip s)) \<Longrightarrow> \<not> has_client s n \<Longrightarrow>
    netif_set_addr app n ipaddr subnet gateway s = Some t \<Longrightarrow> dhcp_step app s t"
| Elsewhere: "udp_others (net_ip s) (net_ip t) \<Longrightarrow> dhcps t = dhcps s \<Longrightarrow> dhcp_step app s t"

lemma in_place_step:
  assumes "clients_ok s" "n < length (netif_list (net_ip s))" "has_client s n"
    "ready s n \<Longrightarrow> p_out (dhcps s n) = None \<Longrightarrow> idle s n \<Longrightarrow> typed s n \<Longrightarrow> in_place n s t"
  shows "clients_ok t"
  using clients_ok_at [OF assms(1,3,2)] in_place_clients_ok(1) assms by blast

lemma step_ok:
  assumes "polite app" "dhcp_step app s t" "clients_ok s"
  shows "clients_ok t"
  using assms(2,3)
proof cases
  case (Start n e)
  then show ?thesis using start_ok [OF assms(3) Start(1)] by auto
next
  case (Stop n)
  then show ?thesis using stop_ok assms(3) by blast
next
  case Fine
  then show ?thesis using fine_tmr_ok assms(1,3) by blast
next
  case Coarse
  then show ?thesis using coarse_tmr_ok assms(3) by blast
next
  case (Reply n p)
  then have "has_client s n" by (simp add: dhcp_recv_def split: if_split_asm)
  then show ?thesis by (rule in_place_step [OF assms(3) Reply(1)]) (use recv_in_place [OF assms(1)] Reply(2) in blast)
next
  case (Arp n addr)
  show ?thesis
  proof (cases "t = s")
    case False
    then have "has_client s n" "map_option snd (dhcp_decline n s) = Some t" using Arp(2) by (auto simp: dhcp_arp_reply_def split: if_split_asm)
    then show ?thesis by (intro in_place_step [OF assms(3) Arp(1)]) (auto dest: decline_in_place)
  qed (use assms(3) in simp)
next
  case (Renew n e)
  then have "has_client s n" by (simp add: dhcp_renew_def split: if_split_asm)
  then show ?thesis by (rule in_place_step [OF assms(3) Renew(1)]) (use Renew(2) in \<open>auto dest: renew_in_place\<close>)
next
  case (Release n e)
  then have "has_client s n" by (simp add: dhcp_release_def split: if_split_asm)
  then show ?thesis by (rule in_place_step [OF assms(3) Release(1)]) (use release_in_place(1) [OF assms(1)] Release(2) in blast)
next
  case (Up n)
  then show ?thesis using set_up_ok assms(3) by blast
next
  case (Static n ipaddr subnet gateway)
  then show ?thesis using set_addr_ok assms(1,3) by blast
next
  case Elsewhere
  then show ?thesis using elsewhere_ok assms(3) by blast
qed

text \<open>The states that can be reached from one in which no interface has a client.\<close>

definition no_clients :: "'a nets \<Rightarrow> bool" where
  "no_clients s \<longleftrightarrow> udp_ok s \<and> (\<forall>n < length (netif_list (net_ip s)). \<not> has_client s n \<and> dhcp_pcb (net_ip s) n = None)"

inductive dhcp_reach :: "'a tcp_app \<Rightarrow> 'a nets \<Rightarrow> bool" for app where
  Initial: "no_clients s \<Longrightarrow> dhcp_reach app s"
| Next: "dhcp_reach app s \<Longrightarrow> dhcp_step app s t \<Longrightarrow> dhcp_reach app t"

lemma no_clients_ok: "no_clients s \<Longrightarrow> clients_ok s"
  by (auto simp: no_clients_def clients_ok_def wired_def pcb_ok_def)

lemma reach_ok:
  assumes "polite app" "dhcp_reach app s"
  shows "clients_ok s"
  using assms(2) by induction (use no_clients_ok step_ok [OF assms(1)] in blast)+

text \<open>
  The steps of the rest of the program: every packet that is received, every call of UDP on a block of its own
  (\<open>udp_bind_others\<close>, \<open>udp_sendto_others\<close>, \<open>udp_remove_others\<close> and the rest), and the start of the LED application,
  which takes two more blocks once there is an address.
\<close>

lemma others_reach: "dhcp_reach app s \<Longrightarrow> udp_others (net_ip s) k \<Longrightarrow> dhcp_reach app (on_stack (\<lambda>_. k) s)"
  by (erule dhcp_reach.Next) (rule dhcp_step.Elsewhere; simp)

lemma packet_reach: "dhcp_reach app s \<Longrightarrow> ip_input p n (net_ip s) = Some (e, k) \<Longrightarrow> dhcp_reach app (on_stack (\<lambda>_. k) s)"
  by (rule others_reach) (simp_all add: ip_input_others)

lemma clients_in_use:
  assumes "polite app" "dhcp_reach app s"
  shows "distinct (udp_pcbs (net_ip s) @ udp_free (net_ip s))"
    "\<forall>n < length (netif_list (net_ip s)). \<forall>b. dhcp_pcb (net_ip s) n = Some b \<longrightarrow> b \<in> set (udp_pcbs (net_ip s))"
proof -
  have "clients_ok s" by (rule reach_ok [OF assms])
  then show "distinct (udp_pcbs (net_ip s) @ udp_free (net_ip s))"
    "\<forall>n < length (netif_list (net_ip s)). \<forall>b. dhcp_pcb (net_ip s) n = Some b \<longrightarrow> b \<in> set (udp_pcbs (net_ip s))"
    by (auto simp: clients_ok_def wired_def udp_ok_def pcb_ok_def ready_def split: if_split_asm)
qed

lemma servers_reach:
  assumes "polite app" "dhcp_reach app s" "udp_new (net_ip s) = (Some a, m)"
    "(server_init True = Some xs \<and> v = m) \<or> (client_init True True = Some xs \<and> v = set_udp a (udp_local_port_update (\<lambda>_. 5)) m)"
    "udp_calls packet a xs v = Some k"
  shows "dhcp_reach app (on_stack (\<lambda>_. k) s)"
  using others_reach [OF assms(2)] server_init_others [OF assms(3) clients_in_use [OF assms(1,2)]]
    client_init_others [OF assms(3) clients_in_use [OF assms(1,2)]] assms(4,5) by blast

end
