(* ===== verification/DhcpReply.thy ===== *)
theory DhcpReply
  imports DhcpClient
begin

text \<open>
  The replies of servers: what the search for an option finds in a list of options, and the message that \<open>dhcp_recv\<close> hands to
  the state machine.
\<close>

section \<open>Options\<close>

lemma octet_of_nat: "k < 256 \<Longrightarrow> (ucast (of_nat k :: u8) :: u16) = of_nat k"
  by (simp add: unsigned_of_nat take_bit_nat_eq_self)

lemma octet_and: "(ucast (x :: u8) :: u32) AND 255 = ucast x"
proof -
  have "(ucast x :: u32) AND mask 8 = ucast x" by (rule bit_word_eqI) (auto simp: bit_simps dest: bit_imp_le_length)
  then show ?thesis by (simp add: mask_eq_exp_minus_1)
qed

text \<open>A list of options as bytes: type, length and value of each.\<close>

fun options_bytes :: "(u8 \<times> u8 list) list \<Rightarrow> u8 list" where
  "options_bytes [] = []"
| "options_bytes ((t, v) # os) = t # of_nat (length v) # v @ options_bytes os"

definition plain_options :: "(u8 \<times> u8 list) list \<Rightarrow> bool" where
  "plain_options os \<longleftrightarrow> (\<forall>(t, v) \<in> set os. t \<noteq> DHCP_OPTION_END \<and> t \<noteq> DHCP_OPTION_OVERLOAD \<and> length v < 256)"

lemma scan_options_bytes:
  assumes "plain_options os" "length (pre @ options_bytes os) < unat len" "length (pre @ options_bytes os @ DHCP_OPTION_END # post) \<ge> unat len"
  shows "\<exists>r. scan_options outer (pre @ options_bytes os @ DHCP_OPTION_END # post) len ty (of_nat (length pre)) ov
    = Some (map_option (\<lambda>v. ty # of_nat (length v) # v @ r) (map_of os ty), ov)"
  using assms
proof (induction os arbitrary: pre)
  case Nil
  have "length pre < 65536" by (rule less_trans [OF _ unat_less_65536 [of len]]) (use Nil.prems(2) in simp)
  then have "of_nat (length pre) < len" "unat (of_nat (length pre) :: u16) = length pre"
    using Nil.prems(2) by (simp_all add: word_less_nat_alt unat_of_nat_u16)
  then show ?case by (subst scan_options.simps) (simp add: nth_append)
next
  case (Cons o' os)
  obtain t v where o: "o' = (t, v)" by (cases o')
  let ?m = "pre @ options_bytes (o' # os) @ DHCP_OPTION_END # post"
  have t: "t \<noteq> DHCP_OPTION_END" "t \<noteq> DHCP_OPTION_OVERLOAD" "length v < 256" "plain_options os"
    using Cons.prems(1) by (simp_all add: plain_options_def o)
  have l: "length pre + 2 + length v < 65536" by (rule less_trans [OF _ unat_less_65536 [of len]]) (use Cons.prems(2) o in simp)
  then have u: "of_nat (length pre) < len" "unat (of_nat (length pre) :: u16) = length pre" "unat (of_nat (length pre) + 1 :: u16) = Suc (length pre)"
    using Cons.prems(2) by (simp_all add: o word_less_nat_alt unat_of_nat_u16 unat_word_ariths)
  have m: "?m ! length pre = t" "?m ! Suc (length pre) = of_nat (length v)" "Suc (length pre) < length ?m"
    "drop (length pre) ?m = t # of_nat (length v) # v @ (options_bytes os @ DHCP_OPTION_END # post)"
    by (simp_all add: o nth_append)
  show ?case
  proof (cases "t = ty")
    case True
    have "scan_options outer ?m len ty (of_nat (length pre)) ov
        = Some (Some (t # of_nat (length v) # v @ (options_bytes os @ DHCP_OPTION_END # post)), ov)"
      using u m t True by (subst scan_options.simps) simp
    then show ?thesis using True o by (intro exI [of _ "options_bytes os @ DHCP_OPTION_END # post"]) simp
  next
    case False
    have n: "of_nat (length pre) + 1 + (1 + ucast (of_nat (length v) :: u8)) = (of_nat (length (pre @ t # of_nat (length v) # v)) :: u16)"
      using octet_of_nat [OF t(3)] by simp
    have "scan_options outer ?m len ty (of_nat (length pre)) ov
        = scan_options outer ?m len ty (of_nat (length pre) + 1 + (1 + ucast (of_nat (length v) :: u8))) ov"
      using u m t False by (subst scan_options.simps) simp
    also have "\<dots> = scan_options outer ((pre @ t # of_nat (length v) # v) @ options_bytes os @ DHCP_OPTION_END # post) len ty
        (of_nat (length (pre @ t # of_nat (length v) # v))) ov"
      unfolding n by (simp add: o)
    finally show ?thesis using Cons.IH [of "pre @ t # of_nat (length v) # v"] t(4) Cons.prems(2,3) False o by auto
  qed
qed

text \<open>A reply's options, as \<open>dhcp_unfold_reply\<close> leaves them.\<close>

definition has_options :: "(u8 \<times> u8 list) list \<Rightarrow> dhcp \<Rightarrow> bool" where
  "has_options os d \<longleftrightarrow> plain_options os
     \<and> (\<exists>post. options_in d = Some (options_bytes os @ DHCP_OPTION_END # post) \<and> length (options_bytes os @ DHCP_OPTION_END # post) < 65536
          \<and> options_in_len d = of_nat (length (options_bytes os @ DHCP_OPTION_END # post)))"

lemma option_ptr_found:
  assumes "has_options os d"
  shows "\<exists>r. dhcp_get_option_ptr d ty = Some (map_option (\<lambda>v. ty # of_nat (length v) # v @ r) (map_of os ty))"
proof -
  obtain post where p: "plain_options os" "options_in d = Some (options_bytes os @ DHCP_OPTION_END # post)"
    "length (options_bytes os @ DHCP_OPTION_END # post) < 65536"
    "options_in_len d = of_nat (length (options_bytes os @ DHCP_OPTION_END # post))"
    using assms by (auto simp: has_options_def)
  then have l: "unat (options_in_len d) = length (options_bytes os @ DHCP_OPTION_END # post)" by (simp add: unat_of_nat_u16 del: of_nat_Suc)
  then have "options_in_len d \<noteq> 0" by auto
  moreover from scan_options_bytes [OF p(1), of "[]" "options_in_len d" post True ty DHCP_OVERLOAD_NONE] l obtain r where
    "scan_options True (options_bytes os @ DHCP_OPTION_END # post) (options_in_len d) ty 0 DHCP_OVERLOAD_NONE
      = Some (map_option (\<lambda>v. ty # of_nat (length v) # v @ r) (map_of os ty), DHCP_OVERLOAD_NONE)" by auto
  ultimately show ?thesis using p(2) by (auto simp: dhcp_get_option_ptr_def)
qed

lemma get_option_long: "4 \<le> length v \<Longrightarrow> dhcp_get_option_long (v @ r) = Some (htonl (word32 v 0))"
proof -
  assume "4 \<le> length v"
  then obtain a b c d w where v: "v = a # b # c # d # w" by (auto simp: numeral_eq_Suc Suc_le_length_iff)
  have "word32 [a, b, c, d] 0 = IP4_ADDR a b c d" using word32_mem_bytes [of "IP4_ADDR a b c d"] by (simp only: mem_bytes_IP4_ADDR)
  then have "word32 v 0 = IP4_ADDR a b c d" using word32_prefix [of 0 "[a, b, c, d]" w] v by simp
  then show ?thesis using v by (simp only: IP4_ADDR_def octet_and htonl_htonl) (simp add: dhcp_get_option_long_def)
qed

lemma long_option_found:
  assumes "has_options os d" "\<And>v. map_of os ty = Some v \<Longrightarrow> 4 \<le> length v"
  shows "long_option d ty = Some (map_option (\<lambda>v. htonl (word32 v 0)) (map_of os ty))"
proof -
  from option_ptr_found [OF assms(1)] obtain r where
    "dhcp_get_option_ptr d ty = Some (map_option (\<lambda>v. ty # of_nat (length v) # v @ r) (map_of os ty))" by blast
  then show ?thesis using assms(2) by (cases "map_of os ty") (simp_all add: long_option_def get_option_long)
qed

section \<open>What the client writes, a reader finds\<close>

lemma select_bytes_options:
  "option_array (select_bytes m yi server) = options_bytes
     [(DHCP_OPTION_MESSAGE_TYPE, [DHCP_REQUEST]), (DHCP_OPTION_MAX_MSG_SIZE, [ucast (drop_bit 8 m), ucast m]),
      (DHCP_OPTION_REQUESTED_IP, long_bytes (ntohl yi)), (DHCP_OPTION_SERVER_ID, long_bytes (ntohl server)),
      (DHCP_OPTION_PARAMETER_REQUEST_LIST, [DHCP_OPTION_SUBNET_MASK, DHCP_OPTION_ROUTER, DHCP_OPTION_BROADCAST, DHCP_OPTION_DNS_SERVER])]
     @ DHCP_OPTION_END # replicate 42 0"
  by (simp add: option_array_def option_bytes DHCP_OPTIONS_LEN_def)

lemma discover_bytes_options:
  "option_array (discover_bytes m) = options_bytes
     [(DHCP_OPTION_MESSAGE_TYPE, [DHCP_DISCOVER]), (DHCP_OPTION_MAX_MSG_SIZE, [ucast (drop_bit 8 m), ucast m]),
      (DHCP_OPTION_PARAMETER_REQUEST_LIST, [DHCP_OPTION_SUBNET_MASK, DHCP_OPTION_ROUTER, DHCP_OPTION_BROADCAST, DHCP_OPTION_DNS_SERVER])]
     @ DHCP_OPTION_END # replicate 54 0"
  by (simp add: option_array_def option_bytes DHCP_OPTIONS_LEN_def)

lemma long_bytes_read: "htonl (word32 (long_bytes x) 0) = x"
proof -
  have "dhcp_get_option_long (long_bytes x @ []) = Some (word32 (mem_bytes x) 0)"
    by (simp add: dhcp_get_option_long_def long_bytes_def word32_def mem_bytes_def or.assoc or.commute or.left_commute)
  then show ?thesis using get_option_long [of "long_bytes x" "[]"] by (simp add: long_bytes_def word32_mem_bytes)
qed

section \<open>The message for the state machine\<close>

lemma no_memory_trouble: "allocs (net_ip s) = [] \<Longrightarrow> mem_malloc_ok s = (True, s)"
  by (simp add: mem_malloc_ok_def try_alloc_def on_stack_def)

text \<open>
  A reply for the client: its header lies in the first buffer, names the interface and the transaction, and its options are plain.
\<close>

definition reply_for :: "netif \<Rightarrow> u32 \<Rightarrow> u32 \<Rightarrow> (u8 \<times> u8 list) list \<Rightarrow> chain \<Rightarrow> bool" where
  "reply_for i ident yi os p \<longleftrightarrow>
     p \<noteq> [] \<and> 44 \<le> length (first p) \<and> length (contents p) < 65536 \<and> MSG_LEN < length (contents p)
     \<and> contents p ! 0 = DHCP_BOOTREPLY \<and> unat (hwaddr_len i) \<le> DHCP_CHADDR_LEN \<and> unat (hwaddr_len i) \<le> length (hwaddr i)
     \<and> (\<forall>j < unat (hwaddr_len i). contents p ! (28 + j) = hwaddr i ! j)
     \<and> ntohl (word32 (contents p) 4) = ident \<and> word32 (contents p) 16 = yi
     \<and> plain_options os \<and> (\<exists>post. drop MSG_LEN (contents p) = options_bytes os @ DHCP_OPTION_END # post)"

lemma first_nth: "p \<noteq> [] \<Longrightarrow> j < length (first p) \<Longrightarrow> first p ! j = contents p ! j"
  by (cases p) (simp_all add: contents_def nth_append)

lemma first_word: "p \<noteq> [] \<Longrightarrow> j + 3 < length (first p) \<Longrightarrow> word32 (first p) j = word32 (contents p) j"
  by (simp add: word32_def first_nth)

lemma chaddr_matches:
  "(\<And>j. j \<in> set js \<Longrightarrow> j < length (hwaddr i) \<and> 28 + j < length xs \<and> hwaddr i ! j = xs ! (28 + j)) \<Longrightarrow> chaddr_match i xs js = Some True"
  by (induction js) (auto simp: not_le)

lemma reply_matches_for:
  assumes "reply_for i ident yi os p"
  shows "reply_matches i ident (first p) = Some True"
proof -
  have p: "p \<noteq> []" "44 \<le> length (first p)" using assms by (simp_all add: reply_for_def)
  have f: "first p ! j = contents p ! j" if "j < 44" for j using first_nth [OF p(1)] p(2) that by simp
  have "chaddr_match i (first p) [0..<unat (hwaddr_len i)] = Some True"
    using assms p(2) f by (intro chaddr_matches) (auto simp: reply_for_def DHCP_CHADDR_LEN_def)
  moreover have "ntohl (word32 (first p) 4) = ident" "first p ! 0 = DHCP_BOOTREPLY"
    using assms first_word [OF p(1), of 4] p f [of 0] by (simp_all add: reply_for_def)
  ultimately show ?thesis using p(2) by (auto simp: reply_matches_def)
qed

definition unfolded_reply :: "chain \<Rightarrow> dhcp \<Rightarrow> dhcp" where
  "unfolded_reply p d = d\<lparr>dhcp_p := Some p, msg_in := Some (take MSG_LEN (contents p)), options_in := Some (drop MSG_LEN (contents p)),
     options_in_len := of_nat (length (contents p) - MSG_LEN)\<rparr>"

definition reply_done :: "nat \<Rightarrow> chain \<Rightarrow> 'a nets \<Rightarrow> 'a nets" where
  "reply_done n p s = set_dhcp n (dhcp_p_update (\<lambda>_. None)) (on_stack (log_op (Free_chain p)) (set_dhcp n dhcp_free_reply s))"

lemma unfolded_options:
  assumes "reply_for i ident yi os p"
  shows "has_options os (unfolded_reply p d)" "yiaddr (unfolded_reply p d) = Some yi"
proof -
  obtain post where post: "drop MSG_LEN (contents p) = options_bytes os @ DHCP_OPTION_END # post" using assms by (auto simp: reply_for_def)
  then have l: "length (options_bytes os @ DHCP_OPTION_END # post) = length (contents p) - MSG_LEN" by (metis length_drop)
  have "plain_options os" "length (options_bytes os @ DHCP_OPTION_END # post) < 65536" using assms unfolding l by (auto simp: reply_for_def)
  moreover have "options_in (unfolded_reply p d) = Some (drop MSG_LEN (contents p))"
    "options_in_len (unfolded_reply p d) = of_nat (length (contents p) - MSG_LEN)" by (simp_all add: unfolded_reply_def)
  ultimately show "has_options os (unfolded_reply p d)" unfolding has_options_def by (intro conjI exI [of _ post]) (simp_all only: post l)
  have "word32 (take MSG_LEN (contents p)) 16 = word32 (contents p) 16" by (simp add: word32_def MSG_LEN_def)
  then show "yiaddr (unfolded_reply p d) = Some yi" using assms by (simp add: yiaddr_def unfolded_reply_def reply_for_def)
qed

lemma unfold_reply_for:
  assumes "reply_for i ident yi os p" "allocs (net_ip s) = []" "dhcp_p (dhcps s n) = Some p"
  shows "dhcp_unfold_reply n s = (ERR_OK, set_dhcp n (unfolded_reply p \<circ> dhcp_free_reply) s)"
proof -
  have l: "length (contents p) < 65536" "MSG_LEN < length (contents p)" using assms(1) by (simp_all add: reply_for_def)
  then have "of_nat MSG_LEN < chain_len p" "chain_len p - of_nat MSG_LEN = of_nat (length (contents p) - MSG_LEN)"
    by (simp_all add: chain_len_def word_less_nat_alt unat_of_nat_u16 of_nat_diff MSG_LEN_def)
  moreover have "unat (of_nat (length (contents p) - MSG_LEN) :: u16) = length (contents p) - MSG_LEN"
    using l(1) by (simp only: unat_of_nat_u16 mod_less less_imp_diff_less)
  moreover have "dhcp_p (dhcp_free_reply (dhcps s n)) = Some p" using assms(3) by (simp add: dhcp_free_reply_def Let_def)
  ultimately show ?thesis using l assms(2,3)
    by (cases "dhcp_free_reply (dhcps s n)") (simp add: dhcp_unfold_reply_def Let_def set_dhcp_def unfolded_reply_def no_memory_trouble)
qed

lemma recv_message:
  assumes r: "reply_for (netif_at s n) (xid (dhcps s n)) yi os p" and c: "has_client s n" "allocs (net_ip s) = []"
    and ty: "map_of os DHCP_OPTION_MESSAGE_TYPE = Some (msg_type # v)"
  shows "dhcp_recv app n p s
    = map_option (reply_done n p) (dhcp_dispatch app n msg_type (set_dhcp n (unfolded_reply p \<circ> dhcp_free_reply) s))"
proof -
  let ?s = "set_dhcp n (dhcp_p_update (\<lambda>_. Some p)) s"
  let ?w = "set_dhcp n (unfolded_reply p \<circ> dhcp_free_reply) s"
  have "reply_for (netif_at ?s n) (xid (dhcps ?s n)) yi os p" using r by simp
  then have m: "reply_matches (netif_at ?s n) (xid (dhcps ?s n)) (first p) = Some True" by (rule reply_matches_for)
  have "dhcp_unfold_reply n ?s = (ERR_OK, set_dhcp n (unfolded_reply p \<circ> dhcp_free_reply) ?s)"
    by (rule unfold_reply_for [OF r]) (simp_all add: c(2))
  moreover have "set_dhcp n (unfolded_reply p \<circ> dhcp_free_reply) ?s = ?w"
    by (simp add: set_dhcp_def unfolded_reply_def dhcp_free_reply_def Let_def)
  ultimately have u: "dhcp_unfold_reply n ?s = (ERR_OK, ?w)" by simp
  obtain q where "dhcp_get_option_ptr (dhcps ?w n) DHCP_OPTION_MESSAGE_TYPE
      = Some (Some (DHCP_OPTION_MESSAGE_TYPE # of_nat (length (msg_type # v)) # (msg_type # v) @ q))"
    using option_ptr_found [OF unfolded_options(1) [OF r], of _ DHCP_OPTION_MESSAGE_TYPE] ty by fastforce
  then show ?thesis using m u c(1)
    by (simp add: dhcp_recv_def Let_def dhcp_get_option_byte_def reply_done_def map_option_case bind_map_option split: option.splits)
qed

end
