(* ===== verification/DhcpRuns.thy ===== *)
theory DhcpRuns
  imports DhcpReply TcpRecv
begin

text \<open>
  What the DHCP client does for the program that started it: its state in every run, and the exchange with a server.
\<close>

section \<open>The state of every client\<close>

text \<open>
  C7: whatever the servers, the timers, the packets and the rest of the program do from a state without clients on, the client of an
  interface is in one of the eight states the program uses, with a number of tries that fits: at most six in
  REQUESTING, two in CHECKING, nine in REBINDING; in the states that wait for an answer or an end of the wait, its request
  timer runs; a bound client has its interface up with the address that was offered; no reply and no
  request is held between two calls; and the client has a control block of its own, in the list of those in use, bound to port 68
  with the receiving function installed.  The rest of the program may take, bind, connect, use and give back control blocks of
  UDP that are no client's (\<open>udp_others\<close>; among them those of \<open>server_init\<close> and \<open>client_init\<close>, lemma \<open>servers_reach\<close>), and receive
  packets (\<open>packet_reach\<close>); the list of the interfaces and their settings change only by the calls of \<open>dhcp_step\<close>.  The callbacks for
  errors of the TCP application may do anything to TCP, but leave interfaces and UDP as they are (\<open>polite\<close>).
\<close>

theorem dhcp_client_typed:
  assumes "polite app" "dhcp_reach app s" "n < length (netif_list (net_ip s))" "has_client s n"
  shows "typed s n \<and> idle s n
    \<and> (\<exists>a. dhcp_pcb (net_ip s) n = Some a \<and> a \<in> set (udp_pcbs (net_ip s)) \<and> udp_local_port (udp_mem (net_ip s) a) = DHCP_CLIENT_PORT
         \<and> udp_recv_set (udp_mem (net_ip s) a)
         \<and> (\<forall>m < length (netif_list (net_ip s)). dhcp_pcb (net_ip s) m = Some a \<longrightarrow> m = n))"
proof -
  have ok: "clients_ok s" by (rule reach_ok [OF assms(1,2)])
  then have "pcb_ok s n" "udp_ok s" using assms(3) by (simp_all add: clients_ok_def wired_def)
  moreover from this(1) obtain a where "dhcp_pcb (net_ip s) n = Some a" "a \<in> set (udp_pcbs (net_ip s))"
    "udp_local_port (udp_mem (net_ip s) a) = DHCP_CLIENT_PORT" "udp_recv_set (udp_mem (net_ip s) a)"
    using assms(4) by (auto simp: pcb_ok_def ready_def)
  ultimately show ?thesis using clients_ok_at [OF ok assms(4,3)] assms(3) unfolding udp_ok_def by blast
qed

section \<open>The first message\<close>

lemma asks_ok: "asks n dest ws s e t \<Longrightarrow> allocs (net_ip s) = [] \<Longrightarrow> e = ERR_OK \<and> asked n dest ws s t"
  by (auto simp: asks_def no_memory_def)

lemma chaddr_tries [simp]: "chaddr_of (i\<lparr>dhcp_tries := t\<rparr>) = chaddr_of i"
  by (simp add: chaddr_of_def)

text \<open>What a request leaves when there is memory for its message.\<close>

definition requested :: "nat \<Rightarrow> u32 \<Rightarrow> u8 list \<Rightarrow> (u8 \<Rightarrow> u16) \<Rightarrow> dhcp_state \<Rightarrow> dhcp \<Rightarrow> 'a nets \<Rightarrow> 'a nets \<Rightarrow> bool" where
  "requested n dest ws ms st d s t \<longleftrightarrow>
     only n s t \<and> has_client t n \<and> allocs (net_ip t) = []
     \<and> tries t n = (if dstate (dhcps s n) = st then tries s n else 0) + 1
     \<and> ip_addr (netif_at t n) = ip_addr (netif_at s n) \<and> flags (netif_at t n) = flags (netif_at s n)
     \<and> (\<exists>x. dhcps t n = d\<lparr>dstate := st, xid := x, p_out := None, options_out_len := 68, request_timeout := fine_ticks (ms (tries t n))\<rparr>)
     \<and> (\<exists>q b. ip_ops (net_ip t) = ip_ops (net_ip s) @ [Netif_output n q dest, Free_chain [b]]
          \<and> dhcp_packet (ip_addr (netif_at s n)) dest
              (dhcp_header (xid (dhcps t n)) (if st \<in> {DHCP_BOUND, DHCP_RENEWING, DHCP_REBINDING} then ip_addr (netif_at s n) else 0)
                 (the (chaddr_of (netif_at s n))) @ option_array ws) q)"

lemma request_sends:
  assumes a: "asks n dest ws (dhcp_set_state n st (set_dhcp n f s)) e u" and r: "ready s n" "allocs (net_ip s) = []"
    and f: "\<And>d. dstate (f d) = dstate d"
  shows "e = ERR_OK" "requested n dest ws ms st (f (dhcps s n)) s (wait_more n ms u)"
proof -
  let ?s0 = "dhcp_set_state n st (set_dhcp n f s)" and ?t = "wait_more n ms u"
  have n: "n < length (netif_list (net_ip s))" "has_client s n" using r(1) by (simp_all add: ready_client)
  have i: "ip_addr (netif_at ?s0 n) = ip_addr (netif_at s n)" "flags (netif_at ?s0 n) = flags (netif_at s n)"
    "chaddr_of (netif_at ?s0 n) = chaddr_of (netif_at s n)" "tries ?s0 n = (if dstate (dhcps s n) = st then tries s n else 0)"
    "n < length (netif_list (net_ip ?s0))" "allocs (net_ip ?s0) = []" "ip_ops (net_ip ?s0) = ip_ops (net_ip s)"
    "dhcps ?s0 n = (f (dhcps s n))\<lparr>dstate := st\<rparr>"
    using n r(2) f by (auto simp: dhcp_set_state_def netif_at_set_client tries_def set_client_def)
  have a': "e = ERR_OK \<and> asked n dest ws ?s0 u" by (rule asks_ok [OF a i(6)])
  then show "e = ERR_OK" ..
  note q = request_client [OF a i(5) refl, of ms]
  have o: "only n s ?t" using only_trans [of n s ?s0 ?t] only_trans [of n s "set_dhcp n f s" ?s0] q(1) by simp
  have d: "dhcps ?t n = (f (dhcps s n))\<lparr>dstate := st, xid := next_xid ?s0 n, p_out := None, options_out_len := 68,
      request_timeout := fine_ticks (ms (tries ?t n))\<rparr>"
    using a' i(8) q(6) by (simp add: wait_more_simps asked_def q(3))
  have h: "message_head ?s0 n = dhcp_header (xid (dhcps ?t n))
      (if st \<in> {DHCP_BOUND, DHCP_RENEWING, DHCP_REBINDING} then ip_addr (netif_at s n) else 0) (the (chaddr_of (netif_at s n)))"
    unfolding message_head_def i(1,3) d by (simp add: i(8))
  have ops: "ip_ops (net_ip ?t) = ip_ops (net_ip u)" "allocs (net_ip ?t) = allocs (net_ip u)"
    by (simp_all add: wait_more_def set_request_timeout_def one_more_try_def set_client_def)
  from a' obtain p b where "dhcp_packet (ip_addr (netif_at s n)) dest (message_head ?s0 n @ option_array ws) p"
    "ip_ops (net_ip u) = ip_ops (net_ip s) @ [Netif_output n p dest, Free_chain [b]]" "allocs (net_ip u) = []"
    unfolding asked_def i(1,6,7) by auto
  then show "requested n dest ws ms st (f (dhcps s n)) s ?t"
    unfolding requested_def ops h
    by (intro conjI exI [of _ "next_xid ?s0 n"] exI [of _ p] exI [of _ b]) (simp_all add: o q(2-5) i(1,2,4) d del: only_set_client only_set_state only_set_dhcp)
qed

lemma discover_sends:
  assumes "ready s n" "allocs (net_ip s) = []"
  shows "\<exists>t. dhcp_discover n s = Some (ERR_OK, t)
    \<and> requested n IP_ADDR_BROADCAST (discover_bytes (mtu (netif_at s n))) doubling_msecs DHCP_SELECTING ((dhcps s n)\<lparr>offered_ip_addr := 0\<rparr>) s t"
proof -
  let ?s0 = "dhcp_set_state n DHCP_SELECTING (set_dhcp n (offered_ip_addr_update (\<lambda>_. 0)) s)"
  obtain e u where u: "dhcp_discover n s = Some (e, wait_more n doubling_msecs u)"
    "asks n IP_ADDR_BROADCAST (discover_bytes (mtu (netif_at ?s0 n))) ?s0 e u"
    using discover_result [OF assms(1) refl] by blast
  have "mtu (netif_at ?s0 n) = mtu (netif_at s n)" using assms(1) by (simp add: dhcp_set_state_def netif_at_set_client)
  then show ?thesis using request_sends [OF u(2) assms] u(1) by auto
qed

lemma select_sends:
  assumes "ready s n" "allocs (net_ip s) = []"
  shows "\<exists>t. dhcp_select n s = Some (ERR_OK, t)
    \<and> requested n IP_ADDR_BROADCAST (select_bytes (mtu (netif_at s n)) (offered_ip_addr (dhcps s n)) (server_ip_addr (dhcps s n)))
        doubling_msecs DHCP_REQUESTING (dhcps s n) s t"
proof -
  let ?s0 = "dhcp_set_state n DHCP_REQUESTING s"
  obtain e u where u: "dhcp_select n s = Some (e, wait_more n doubling_msecs u)"
    "asks n IP_ADDR_BROADCAST (select_bytes (mtu (netif_at ?s0 n)) (offered_ip_addr (dhcps s n)) (server_ip_addr (dhcps s n))) ?s0 e u"
    using select_result [OF assms(1) refl] by blast
  have "mtu (netif_at ?s0 n) = mtu (netif_at s n)" using assms(1) by (simp add: dhcp_set_state_def netif_at_set_client)
  moreover have "asks n IP_ADDR_BROADCAST (select_bytes (mtu (netif_at ?s0 n)) (offered_ip_addr (dhcps s n)) (server_ip_addr (dhcps s n)))
      (dhcp_set_state n DHCP_REQUESTING (set_dhcp n (\<lambda>d. d) s)) e u"
    using u(2) by (simp only: no_change [symmetric])
  note request_sends [OF this assms]
  ultimately show ?thesis using u(1) by auto
qed

lemma udp_open_some: "udp_free (net_ip s) \<noteq> [] \<Longrightarrow> \<exists>x. udp_open n s = (True, x)"
  by (cases "udp_free (net_ip s)") (simp_all add: udp_open_def udp_new_def)

text \<open>The state of a new client just before its first message.\<close>

lemma fresh_client:
  assumes ok: "clients_ok s" and n: "n < length (netif_list (net_ip s))" "\<not> has_client s n" "576 \<le> unat (mtu (netif_at s n))"
    and free: "allocs (net_ip s) = []" "udp_free (net_ip s) \<noteq> []"
  shows "\<exists>y. ready y n \<and> ok_but n y \<and> pcb_ok y n \<and> dhcps y n = dhcp_zero \<and> tries y n = 0 \<and> allocs (net_ip y) = [] \<and> ip_ops (net_ip y) = ip_ops (net_ip s)
    \<and> ip_addr (netif_at y n) = ip_addr (netif_at s n) \<and> chaddr_of (netif_at y n) = chaddr_of (netif_at s n) \<and> mtu (netif_at y n) = mtu (netif_at s n)
    \<and> hwaddr (netif_at y n) = hwaddr (netif_at s n) \<and> hwaddr_len (netif_at y n) = hwaddr_len (netif_at s n)
    \<and> length (netif_list (net_ip y)) = length (netif_list (net_ip s)) \<and> udp_free (net_ip y) = tl (udp_free (net_ip s))
    \<and> dhcp_start n s = Option.bind (dhcp_discover n y) (\<lambda>(result, z).
        if result \<noteq> ERR_OK then Some (ERR_MEM, dhcp_stop n z) else Some (result, set_netif n (\<lambda>i. i\<lparr>flags := flags i OR NETIF_FLAG_DHCP\<rparr>) z))"
proof -
  let ?u = "set_netif n (\<lambda>i. i\<lparr>flags := flags i AND NOT NETIF_FLAG_DHCP\<rparr>) s"
  let ?v = "set_client n (Some 0) (set_dhcp n (\<lambda>_. dhcp_zero) ?u)"
  let ?w = "set_pcb n None ?v"
  note f = flag_client [OF refl dhcp_flag_up(1), of n s]
  have u: "clients_ok ?u" using ok flag_clients_ok(1) [OF refl dhcp_flag_up(1), of n s] by simp
  have nu: "n < length (netif_list (net_ip ?u))" "\<not> has_client ?u n" using n f(2,7) by simp_all
  have m: "\<not> mtu (netif_at ?u n) < DHCP_MAX_MSG_LEN_MIN_REQUIRED" using n(3) f(6) by (simp add: DHCP_MAX_MSG_LEN_MIN_REQUIRED_def word_less_nat_alt)
  have mem: "dhcp_memory n ?u = (True, ?u)" using nu(2) free(1) by (simp add: dhcp_memory_def no_memory_trouble)
  have "ok_but n ?u" using u clients_ok_split [OF nu(1)] by blast
  moreover have "only n ?u ?v" by (rule only_trans [of n ?u "set_dhcp n (\<lambda>_. dhcp_zero) ?u"]) simp_all
  ultimately have v: "ok_but n ?v" by (blast intro: only_ok_but)
  have "moved_pcb n ?v ?w" by (simp add: moved_pcb_def set_pcb_def)
  moreover have "udp_ok ?w" using v by (auto simp: ok_but_def udp_ok_def set_pcb_def split: if_splits)
  ultimately have w: "ok_but n ?w" using v moved_pcb_ok_but by blast
  have wn: "n < length (netif_list (net_ip ?w))" "has_client ?w n" "idle ?w n" "576 \<le> unat (mtu (netif_at ?w n))" "dhcps ?w n = dhcp_zero"
    "tries ?w n = 0" "allocs (net_ip ?w) = []" "ip_ops (net_ip ?w) = ip_ops (net_ip s)" "ip_addr (netif_at ?w n) = ip_addr (netif_at s n)"
    "chaddr_of (netif_at ?w n) = chaddr_of (netif_at s n)" "mtu (netif_at ?w n) = mtu (netif_at s n)" "udp_free (net_ip ?w) = udp_free (net_ip s)"
    "hwaddr (netif_at ?w n) = hwaddr (netif_at s n)" "hwaddr_len (netif_at ?w n) = hwaddr_len (netif_at s n)"
    "length (netif_list (net_ip ?w)) = length (netif_list (net_ip s))"
    using n free by (simp_all add: has_client_def tries_def netif_at_set_client set_pcb_def idle_def dhcp_zero_def set_client_def chaddr_of_def)
  have "udp_free (net_ip ?w) \<noteq> []" unfolding wn(12) by (rule free(2))
  from udp_open_some [OF this] obtain x where x: "udp_open n ?w = (True, x)" by blast
  have d: "distinct (udp_pcbs (net_ip ?w) @ udp_free (net_ip ?w))" using w by (simp add: ok_but_def udp_ok_def)
  from open_ok [OF w wn(1-4) x] obtain y where y: "dhcp_open_pcb n x = Some y" "ok_but n y" "pcb_ok y n" "has_client y n"
    "netif_list (net_ip y) = netif_list (net_ip ?w)" "dhcps y = dhcps ?w" by blast
  from open_pcb_result [OF x d] y(1) obtain a as X where ip: "udp_free (net_ip ?w) = a # as" "net_ip y = (net_ip ?w)\<lparr>dhcp_pcb := (dhcp_pcb (net_ip ?w))(n := Some a), udp_free := as,
        udp_pcbs := a # udp_pcbs (net_ip ?w), udp_mem := (udp_mem (net_ip ?w))(a := X)\<rparr>" by auto
  have "ready y n" using y(3,4) by (simp add: pcb_ok_def)
  moreover have "allocs (net_ip y) = []" "ip_ops (net_ip y) = ip_ops (net_ip s)" unfolding ip(2) using wn(7,8) by simp_all
  moreover have "udp_free (net_ip y) = tl (udp_free (net_ip s))" by (simp add: ip(2) ip(1) [unfolded wn(12)])
  moreover have "tries y n = 0" using wn(6) y(5) by (simp add: tries_def)
  moreover have "dhcp_start n s = Option.bind (dhcp_discover n y) (\<lambda>(result, z).
        if result \<noteq> ERR_OK then Some (ERR_MEM, dhcp_stop n z) else Some (result, set_netif n (\<lambda>i. i\<lparr>flags := flags i OR NETIF_FLAG_DHCP\<rparr>) z))"
    using m mem x y(1) by (simp add: dhcp_start_def Let_def)
  ultimately show ?thesis using y(2,3,5,6) wn(5,9-11,13-15) by (intro exI [of _ y]) simp
qed

lemma start_sends:
  assumes ok: "clients_ok s" and n: "n < length (netif_list (net_ip s))" "\<not> has_client s n" "576 \<le> unat (mtu (netif_at s n))"
    and free: "allocs (net_ip s) = []" "udp_free (net_ip s) \<noteq> []"
  shows "\<exists>z. dhcp_start n s = Some (ERR_OK, set_netif n (\<lambda>i. i\<lparr>flags := flags i OR NETIF_FLAG_DHCP\<rparr>) z) \<and> has_client z n \<and> tries z n = 1
    \<and> dstate (dhcps z n) = DHCP_SELECTING \<and> request_timeout (dhcps z n) = 4 \<and> allocs (net_ip z) = []
    \<and> length (netif_list (net_ip z)) = length (netif_list (net_ip s)) \<and> hwaddr (netif_at z n) = hwaddr (netif_at s n)
    \<and> hwaddr_len (netif_at z n) = hwaddr_len (netif_at s n) \<and> udp_free (net_ip z) = tl (udp_free (net_ip s))
    \<and> (\<exists>q b. ip_ops (net_ip z) = ip_ops (net_ip s) @ [Netif_output n q IP_ADDR_BROADCAST, Free_chain [b]]
         \<and> dhcp_packet (ip_addr (netif_at s n)) IP_ADDR_BROADCAST
             (dhcp_header (xid (dhcps z n)) 0 (the (chaddr_of (netif_at s n))) @ option_array (discover_bytes (mtu (netif_at s n)))) q)"
proof -
  from fresh_client [OF assms] obtain y where y: "ready y n" "dhcps y n = dhcp_zero" "tries y n = 0"
    "allocs (net_ip y) = []" "ip_ops (net_ip y) = ip_ops (net_ip s)" "ip_addr (netif_at y n) = ip_addr (netif_at s n)"
    "chaddr_of (netif_at y n) = chaddr_of (netif_at s n)" "mtu (netif_at y n) = mtu (netif_at s n)"
    "hwaddr (netif_at y n) = hwaddr (netif_at s n)" "hwaddr_len (netif_at y n) = hwaddr_len (netif_at s n)"
    "length (netif_list (net_ip y)) = length (netif_list (net_ip s))" "udp_free (net_ip y) = tl (udp_free (net_ip s))"
    "dhcp_start n s = Option.bind (dhcp_discover n y) (\<lambda>(result, z).
        if result \<noteq> ERR_OK then Some (ERR_MEM, dhcp_stop n z) else Some (result, set_netif n (\<lambda>i. i\<lparr>flags := flags i OR NETIF_FLAG_DHCP\<rparr>) z))"
    by blast
  from discover_sends [OF y(1,4)] obtain z where z: "dhcp_discover n y = Some (ERR_OK, z)"
    "requested n IP_ADDR_BROADCAST (discover_bytes (mtu (netif_at y n))) doubling_msecs DHCP_SELECTING ((dhcps y n)\<lparr>offered_ip_addr := 0\<rparr>) y z" by blast
  have "tries z n = 1" "dstate (dhcps z n) = DHCP_SELECTING" "request_timeout (dhcps z n) = fine_ticks (doubling_msecs 1)" "has_client z n" "allocs (net_ip z) = []"
    using z(2) y(2,3) by (auto simp: requested_def dhcp_zero_def)
  moreover have "fine_ticks (doubling_msecs 1) = 4" by (simp add: fine_ticks_def doubling_msecs_def DHCP_FINE_TIMER_MSECS_def)
  moreover obtain q b where "ip_ops (net_ip z) = ip_ops (net_ip s) @ [Netif_output n q IP_ADDR_BROADCAST, Free_chain [b]]"
    "dhcp_packet (ip_addr (netif_at s n)) IP_ADDR_BROADCAST
        (dhcp_header (xid (dhcps z n)) 0 (the (chaddr_of (netif_at s n))) @ option_array (discover_bytes (mtu (netif_at s n)))) q"
    using z(2) y(5-8) by (auto simp: requested_def)
  moreover have "length (netif_list (net_ip z)) = length (netif_list (net_ip s))" "hwaddr (netif_at z n) = hwaddr (netif_at s n)"
    "hwaddr_len (netif_at z n) = hwaddr_len (netif_at s n)" "udp_free (net_ip z) = tl (udp_free (net_ip s))"
    using z(2) y(9-12) by (simp_all add: requested_def only_def)
  ultimately show ?thesis using y(13) z(1) by (intro exI [of _ z]) auto
qed

text \<open>
  C10: starting the client of an interface that has none: with an MTU of at least 576, memory and a control block of UDP left, the
  answer is OK, and one datagram has been broadcast from port 68 to port 67, whose bytes are a BOOTREQUEST with a new
  transaction identifier and the hardware address, and the options of a DISCOVER: message type, maximum size, requested parameters,
  end and padding.  The client is in SELECTING with one try made and will ask again in four ticks, two seconds.
\<close>

theorem dhcp_start_discovers:
  assumes "polite app" "dhcp_reach app s" "n < length (netif_list (net_ip s))" "\<not> has_client s n" "576 \<le> unat (mtu (netif_at s n))"
    "allocs (net_ip s) = []" "udp_free (net_ip s) \<noteq> []"
  shows "\<exists>t q b. dhcp_start n s = Some (ERR_OK, t) \<and> has_client t n \<and> dstate (dhcps t n) = DHCP_SELECTING \<and> tries t n = 1
    \<and> request_timeout (dhcps t n) = 4
    \<and> ip_ops (net_ip t) = ip_ops (net_ip s) @ [Netif_output n q IP_ADDR_BROADCAST, Free_chain [b]]
    \<and> dhcp_packet (ip_addr (netif_at s n)) IP_ADDR_BROADCAST
        (dhcp_header (xid (dhcps t n)) 0 (the (chaddr_of (netif_at s n))) @ option_array (discover_bytes (mtu (netif_at s n)))) q"
proof -
  from start_sends [OF reach_ok [OF assms(1,2)] assms(3-7)] obtain z q b where
    z: "dhcp_start n s = Some (ERR_OK, set_netif n (\<lambda>i. i\<lparr>flags := flags i OR NETIF_FLAG_DHCP\<rparr>) z)" "has_client z n" "tries z n = 1"
    "dstate (dhcps z n) = DHCP_SELECTING" "request_timeout (dhcps z n) = 4"
    "ip_ops (net_ip z) = ip_ops (net_ip s) @ [Netif_output n q IP_ADDR_BROADCAST, Free_chain [b]]"
    "dhcp_packet (ip_addr (netif_at s n)) IP_ADDR_BROADCAST
        (dhcp_header (xid (dhcps z n)) 0 (the (chaddr_of (netif_at s n))) @ option_array (discover_bytes (mtu (netif_at s n)))) q"
    by blast
  let ?t = "set_netif n (\<lambda>i. i\<lparr>flags := flags i OR NETIF_FLAG_DHCP\<rparr>) z"
  note f = flag_client [OF refl dhcp_flag_up(2), of n z]
  have "has_client ?t n" "tries ?t n = tries z n" using z(2) f(2) by (simp_all add: tries_def)
  then show ?thesis using z f(3) by (intro exI [of _ ?t] exI [of _ q] exI [of _ b]) simp
qed

section \<open>A board at the start\<close>

definition home :: "unit nets" where
  "home = \<lparr>net_tcp = (open_conn ())\<lparr>tcp_ip := host 0\<rparr>, netif_ids = [\<lparr>name0 = 115, name1 = 116, num = 0\<rparr>], netifnum = 1,
     dhcps = (\<lambda>_. dhcp_zero), global_xid = 0xABCD0000\<rparr>"

definition quiet :: "unit tcp_app" where
  "quiet _ s = Some (ERR_OK, s)"

lemma quiet_polite: "polite quiet"
  by (simp add: polite_def quiet_def)

lemma home_reach: "dhcp_reach quiet home"
  by (rule dhcp_reach.Initial)
    (simp add: no_clients_def home_def udp_ok_def host_def host_if_def chaddr_of_def has_client_def DHCP_CHADDR_LEN_def)

lemma home_facts: "length (netif_list (net_ip home)) = 1" "\<not> has_client home 0" "576 \<le> unat (mtu (netif_at home 0))" "allocs (net_ip home) = []"
    "udp_free (net_ip home) \<noteq> []"
  by (simp_all add: home_def host_def host_if_def has_client_def)

theorem dhcp_start_discovers_witness:
  "\<exists>t. dhcp_start 0 home = Some (ERR_OK, t) \<and> dstate (dhcps t 0) = DHCP_SELECTING \<and> tries t 0 = 1"
  using dhcp_start_discovers [OF quiet_polite home_reach, of 0] home_facts by auto

theorem dhcp_client_typed_witness:
  "\<exists>t a m k. dhcp_start 0 home = Some (ERR_OK, t) \<and> udp_new (net_ip t) = (Some a, m)
     \<and> udp_calls (\<lambda>_. []) a (the (server_init True)) m = Some k
     \<and> has_client (on_stack (\<lambda>_. k) t) 0 \<and> typed (on_stack (\<lambda>_. k) t) 0 \<and> idle (on_stack (\<lambda>_. k) t) 0"
proof -
  from start_sends [OF reach_ok [OF quiet_polite home_reach], of 0] home_facts obtain z where
    z: "dhcp_start 0 home = Some (ERR_OK, set_netif 0 (\<lambda>i. i\<lparr>flags := flags i OR NETIF_FLAG_DHCP\<rparr>) z)" "has_client z 0"
      "length (netif_list (net_ip z)) = 1" "udp_free (net_ip z) = tl (udp_free (net_ip home))" by auto
  let ?t = "set_netif 0 (\<lambda>i. i\<lparr>flags := flags i OR NETIF_FLAG_DHCP\<rparr>) z"
  have r: "dhcp_reach quiet ?t" by (rule dhcp_reach.Next [OF home_reach dhcp_step.Start [OF _ z(1)]]) (simp add: home_facts)
  have "udp_free (net_ip ?t) = [1..<6]" using z(4) by (simp add: home_def host_def upt_conv_Cons)
  then obtain m where m: "udp_new (net_ip ?t) = (Some 1, m)" by (simp add: udp_new_def upt_conv_Cons)
  obtain k where k: "udp_calls (\<lambda>_. []) 1 (the (server_init True)) m = Some k" by (simp add: server_init_def)
  have o: "udp_others (net_ip ?t) k"
    by (rule server_init_others [OF m clients_in_use [OF quiet_polite r] _ k]) (simp add: server_init_def)
  have "has_client ?t 0" using z(2) flag_client(2) [OF refl dhcp_flag_up(2), of 0 z 0] by simp
  then have "has_client (on_stack (\<lambda>_. k) ?t) 0" "0 < length (netif_list (net_ip (on_stack (\<lambda>_. k) ?t)))"
    using o z(3) by (simp_all add: has_client_def udp_others_def)
  then show ?thesis using dhcp_client_typed [OF quiet_polite others_reach [OF r o]] z(1) m k by blast
qed

end
