(* ===== verification/DhcpBound.thy ===== *)
theory DhcpBound
  imports DhcpRuns
begin

text \<open>
  The exchange with a server: an offer is requested, an acknowledged lease is checked and the interface is bound to it.
\<close>

section \<open>An offer\<close>

lemma has_options_fields [simp]: "has_options os (d\<lparr>request_timeout := x\<rparr>) = has_options os d"
  by (simp add: has_options_def)

lemma yiaddr_timeout [simp]: "yiaddr (d\<lparr>request_timeout := x\<rparr>) = yiaddr d"
  by (simp add: yiaddr_def)

lemma unfolded_same [simp]:
  "dstate (unfolded_reply p (dhcp_free_reply d)) = dstate d" "xid (unfolded_reply p (dhcp_free_reply d)) = xid d"
  "p_out (unfolded_reply p (dhcp_free_reply d)) = p_out d" "offered_t0_lease (unfolded_reply p (dhcp_free_reply d)) = offered_t0_lease d"
  by (simp_all add: unfolded_reply_def dhcp_free_reply_def Let_def)

lemma done_client:
  "dhcps (reply_done n p s) n = (dhcp_free_reply (dhcps s n))\<lparr>dhcp_p := None\<rparr>" "tries (reply_done n p s) m = tries s m"
  "netif_list (net_ip (reply_done n p s)) = netif_list (net_ip s)" "ip_ops (net_ip (reply_done n p s)) = ip_ops (net_ip s) @ [Free_chain p]"
  "allocs (net_ip (reply_done n p s)) = allocs (net_ip s)"
  by (simp_all add: reply_done_def tries_def)

lemma free_reply_same [simp]:
  "dstate (dhcp_free_reply d) = dstate d" "request_timeout (dhcp_free_reply d) = request_timeout d" "xid (dhcp_free_reply d) = xid d"
  "offered_ip_addr (dhcp_free_reply d) = offered_ip_addr d" "server_ip_addr (dhcp_free_reply d) = server_ip_addr d"
  "offered_sn_mask (dhcp_free_reply d) = offered_sn_mask d" "offered_gw_addr (dhcp_free_reply d) = offered_gw_addr d"
  "offered_t0_lease (dhcp_free_reply d) = offered_t0_lease d" "offered_t1_renew (dhcp_free_reply d) = offered_t1_renew d"
  "offered_t2_rebind (dhcp_free_reply d) = offered_t2_rebind d" "p_out (dhcp_free_reply d) = p_out d"
  by (simp_all add: dhcp_free_reply_def Let_def)

lemma offer_requested:
  assumes ok: "ready s n" "allocs (net_ip s) = []" "dstate (dhcps s n) = DHCP_SELECTING"
    and r: "reply_for (netif_at s n) (xid (dhcps s n)) yi os p"
    and os: "map_of os DHCP_OPTION_MESSAGE_TYPE = Some (DHCP_OFFER # v)" "map_of os DHCP_OPTION_SERVER_ID = Some server" "4 \<le> length server"
  shows "\<exists>t. dhcp_recv app n p s = Some (reply_done n p t)
    \<and> requested n IP_ADDR_BROADCAST (select_bytes (mtu (netif_at s n)) yi (word32 server 0)) doubling_msecs DHCP_REQUESTING
        ((unfolded_reply p (dhcp_free_reply (dhcps s n)))\<lparr>request_timeout := 0, server_ip_addr := word32 server 0, offered_ip_addr := yi\<rparr>) s t"
proof -
  let ?d = "(unfolded_reply p (dhcp_free_reply (dhcps s n)))\<lparr>request_timeout := 0\<rparr>"
  let ?w = "set_dhcp n (unfolded_reply p \<circ> dhcp_free_reply) s"
  let ?u = "set_dhcp n (\<lambda>_. ?d\<lparr>server_ip_addr := word32 server 0, offered_ip_addr := yi\<rparr>) s"
  have m: "dhcp_recv app n p s = map_option (reply_done n p) (dhcp_dispatch app n DHCP_OFFER ?w)"
    by (rule recv_message [OF r ready_client(1) [OF ok(1)] ok(2) os(1)])
  have d: "has_options os ?d" "yiaddr ?d = Some yi" using unfolded_options [OF r] by simp_all
  have "long_option ?d DHCP_OPTION_SERVER_ID = Some (Some (htonl (word32 server 0)))"
    using long_option_found [OF d(1), of DHCP_OPTION_SERVER_ID] os(2,3) by simp
  moreover have "dhcps (stop_request_timer n ?w) n = ?d" by (simp add: stop_request_timer_def)
  moreover have "set_dhcp n (\<lambda>d. d\<lparr>server_ip_addr := word32 server 0, offered_ip_addr := yi\<rparr>) (stop_request_timer n ?w) = ?u"
    by (simp add: stop_request_timer_def set_dhcp_def)
  ultimately have "dhcp_dispatch app n DHCP_OFFER ?w = map_option snd (dhcp_select n ?u)"
    using ok(3) d(2) by (simp add: dhcp_dispatch_def Let_def DHCP_OFFER_def DHCP_ACK_def DHCP_NAK_def dhcp_handle_offer_def)
  moreover from select_sends [of ?u n] ok obtain t where t: "dhcp_select n ?u = Some (ERR_OK, t)"
    "requested n IP_ADDR_BROADCAST (select_bytes (mtu (netif_at ?u n)) (offered_ip_addr (dhcps ?u n)) (server_ip_addr (dhcps ?u n)))
        doubling_msecs DHCP_REQUESTING (dhcps ?u n) ?u t" by auto
  moreover have "requested n dest ws ms st d ?u t \<Longrightarrow> dstate (dhcps s n) \<noteq> st \<Longrightarrow> dstate (dhcps ?u n) \<noteq> st \<Longrightarrow> requested n dest ws ms st d s t" for dest ws ms st d
    by (auto simp: requested_def tries_def only_def)
  ultimately show ?thesis using m ok(3) by (intro exI [of _ t]) simp
qed

text \<open>
  C9: a client in SELECTING that gets an offer for its interface and transaction, with options in any order, takes the
  address and the server of the offer and broadcasts one REQUEST that names both; the reply is released once, and the
  client waits two seconds in REQUESTING.
\<close>

theorem dhcp_offer_requested:
  assumes "polite app" "dhcp_reach app s" "n < length (netif_list (net_ip s))" "has_client s n" "allocs (net_ip s) = []"
    "dstate (dhcps s n) = DHCP_SELECTING" "reply_for (netif_at s n) (xid (dhcps s n)) yi os p"
    "map_of os DHCP_OPTION_MESSAGE_TYPE = Some (DHCP_OFFER # v)" "map_of os DHCP_OPTION_SERVER_ID = Some server" "4 \<le> length server"
  shows "\<exists>t q b. dhcp_recv app n p s = Some t \<and> dstate (dhcps t n) = DHCP_REQUESTING \<and> tries t n = 1 \<and> request_timeout (dhcps t n) = 4
    \<and> offered_ip_addr (dhcps t n) = yi \<and> server_ip_addr (dhcps t n) = word32 server 0
    \<and> ip_ops (net_ip t) = ip_ops (net_ip s) @ [Netif_output n q IP_ADDR_BROADCAST, Free_chain [b], Free_chain p]
    \<and> dhcp_packet (ip_addr (netif_at s n)) IP_ADDR_BROADCAST
        (dhcp_header (xid (dhcps t n)) 0 (the (chaddr_of (netif_at s n))) @ option_array (select_bytes (mtu (netif_at s n)) yi (word32 server 0))) q"
proof -
  have "ready s n" by (rule clients_ok_at(1) [OF reach_ok [OF assms(1,2)] assms(4,3)])
  from offer_requested [OF this assms(5-10)] obtain t where t: "dhcp_recv app n p s = Some (reply_done n p t)"
    "requested n IP_ADDR_BROADCAST (select_bytes (mtu (netif_at s n)) yi (word32 server 0)) doubling_msecs DHCP_REQUESTING
        ((unfolded_reply p (dhcp_free_reply (dhcps s n)))\<lparr>request_timeout := 0, server_ip_addr := word32 server 0, offered_ip_addr := yi\<rparr>) s t"
    by blast
  let ?t = "reply_done n p t"
  have "tries t n = 1" using t(2) assms(6) by (simp add: requested_def)
  moreover have "fine_ticks (doubling_msecs 1) = 4" by (simp add: fine_ticks_def doubling_msecs_def DHCP_FINE_TIMER_MSECS_def)
  ultimately have "tries ?t n = 1" "dstate (dhcps ?t n) = DHCP_REQUESTING" "request_timeout (dhcps ?t n) = 4" "offered_ip_addr (dhcps ?t n) = yi"
    "server_ip_addr (dhcps ?t n) = word32 server 0" "xid (dhcps ?t n) = xid (dhcps t n)"
    using t(2) by (auto simp: requested_def done_client)
  moreover obtain q b where "ip_ops (net_ip t) = ip_ops (net_ip s) @ [Netif_output n q IP_ADDR_BROADCAST, Free_chain [b]]"
    "dhcp_packet (ip_addr (netif_at s n)) IP_ADDR_BROADCAST
        (dhcp_header (xid (dhcps t n)) 0 (the (chaddr_of (netif_at s n))) @ option_array (select_bytes (mtu (netif_at s n)) yi (word32 server 0))) q"
    using t(2) by (auto simp: requested_def)
  ultimately show ?thesis using t(1) by (intro exI [of _ ?t] exI [of _ q] exI [of _ b]) (simp add: done_client)
qed

text \<open>A message of a server, in one buffer.\<close>

definition server_message :: "u32 \<Rightarrow> u32 \<Rightarrow> u8 list \<Rightarrow> (u8 \<times> u8 list) list \<Rightarrow> chain" where
  "server_message ident yi hw os =
     [\<lparr>btype = PBUF_POOL, front = [],
       body = ([DHCP_BOOTREPLY, DHCP_HTYPE_ETH, DHCP_HLEN_ETH, 0] @ mem_bytes (htonl ident) @ replicate 8 0 @ mem_bytes yi @ replicate 8 0
         @ hw @ replicate (212 - length hw) 0) @ options_bytes os @ [DHCP_OPTION_END]\<rparr>]"

lemma server_message_for:
  assumes "length hw = 6" "hwaddr i = hw" "hwaddr_len i = 6" "plain_options os" "length (options_bytes os) < 60000"
  shows "reply_for i ident yi os (server_message ident yi hw os)"
proof -
  have "word32 (([DHCP_BOOTREPLY, DHCP_HTYPE_ETH, DHCP_HLEN_ETH, 0] @ mem_bytes (htonl ident) @ ys)) 4 = htonl ident" for ys
    by (rule word32_at) simp
  moreover have "word32 (([DHCP_BOOTREPLY, DHCP_HTYPE_ETH, DHCP_HLEN_ETH, 0] @ mem_bytes (htonl ident) @ replicate 8 0) @ mem_bytes yi @ ys) 16 = yi" for ys
    by (rule word32_at) simp
  moreover have "([DHCP_BOOTREPLY, DHCP_HTYPE_ETH, DHCP_HLEN_ETH, 0] @ mem_bytes (htonl ident) @ replicate 8 0 @ mem_bytes yi @ replicate 8 0) @ xs = ys \<Longrightarrow>
      ys ! (28 + j) = xs ! j" for xs ys j
    by (auto simp: nth_append)
  ultimately show ?thesis using assms
    by (auto simp: reply_for_def server_message_def contents_def MSG_LEN_def DHCP_CHADDR_LEN_def ntohl_def nth_append)
qed

lemma home_asks:
  "\<exists>t. dhcp_start 0 home = Some (ERR_OK, t) \<and> dhcp_reach quiet t \<and> has_client t 0 \<and> length (netif_list (net_ip t)) = 1 \<and> allocs (net_ip t) = []
    \<and> dstate (dhcps t 0) = DHCP_SELECTING \<and> hwaddr (netif_at t 0) = [2, 0, 0, 0, 0, 1] \<and> hwaddr_len (netif_at t 0) = 6
    \<and> tries t 0 = 1 \<and> request_timeout (dhcps t 0) = 4"
proof -
  from start_sends [OF reach_ok [OF quiet_polite home_reach], of 0] home_facts obtain z where
    z: "dhcp_start 0 home = Some (ERR_OK, set_netif 0 (\<lambda>i. i\<lparr>flags := flags i OR NETIF_FLAG_DHCP\<rparr>) z)" "has_client z 0" "tries z 0 = 1"
      "dstate (dhcps z 0) = DHCP_SELECTING" "request_timeout (dhcps z 0) = 4" "allocs (net_ip z) = []" "length (netif_list (net_ip z)) = 1"
      "hwaddr (netif_at z 0) = hwaddr (netif_at home 0)" "hwaddr_len (netif_at z 0) = hwaddr_len (netif_at home 0)" by auto
  let ?t = "set_netif 0 (\<lambda>i. i\<lparr>flags := flags i OR NETIF_FLAG_DHCP\<rparr>) z"
  have "dhcp_reach quiet ?t" by (rule dhcp_reach.Next [OF home_reach dhcp_step.Start [OF _ z(1)]]) (simp add: home_facts)
  then show ?thesis using z flag_client(2) [OF refl dhcp_flag_up(2), of 0 z 0]
    by (intro exI [of _ ?t]) (simp add: tries_def home_def host_def host_if_def)
qed

theorem dhcp_offer_requested_witness:
  "\<exists>s p t. dhcp_start 0 home = Some (ERR_OK, s) \<and> dhcp_recv quiet 0 p s = Some t \<and> dstate (dhcps t 0) = DHCP_REQUESTING
    \<and> offered_ip_addr (dhcps t 0) = IP4_ADDR 192 168 1 50"
proof -
  from home_asks obtain s where s: "dhcp_start 0 home = Some (ERR_OK, s)" "dhcp_reach quiet s" "has_client s 0" "length (netif_list (net_ip s)) = 1"
    "allocs (net_ip s) = []" "dstate (dhcps s 0) = DHCP_SELECTING" "hwaddr (netif_at s 0) = [2, 0, 0, 0, 0, 1]" "hwaddr_len (netif_at s 0) = 6" by blast
  let ?os = "[(DHCP_OPTION_MESSAGE_TYPE, [DHCP_OFFER]), (DHCP_OPTION_SERVER_ID, [192, 168, 1, 1])]"
  let ?p = "server_message (xid (dhcps s 0)) (IP4_ADDR 192 168 1 50) [2, 0, 0, 0, 0, 1] ?os"
  have o: "plain_options ?os" "length (options_bytes ?os) < 60000" "map_of ?os DHCP_OPTION_MESSAGE_TYPE = Some (DHCP_OFFER # [])"
    "map_of ?os DHCP_OPTION_SERVER_ID = Some [192, 168, 1, 1]" "4 \<le> length [192, 168, 1, 1 :: u8]"
    by (simp_all add: plain_options_def DHCP_OPTION_MESSAGE_TYPE_def DHCP_OPTION_SERVER_ID_def DHCP_OPTION_END_def DHCP_OPTION_OVERLOAD_def)
  have p: "reply_for (netif_at s 0) (xid (dhcps s 0)) (IP4_ADDR 192 168 1 50) ?os ?p"
    using s(7,8) o(1,2) by (intro server_message_for) simp_all
  have "0 < length (netif_list (net_ip s))" using s(4) by simp
  from dhcp_offer_requested [OF quiet_polite s(2) this s(3,5,6) p o(3,4,5)] s(1) show ?thesis by blast
qed

text \<open>
  C11: what the writing functions put into a REQUEST, the reading functions find again.  After \<open>dhcp_create_request\<close> and the
  options, trailer and shrinking of \<open>dhcp_select\<close>, a reader that is given the bytes behind the fixed part of the message
  finds the type REQUEST, the offered address and the server's address of the client, and no lease time.
\<close>

theorem dhcp_options_roundtrip:
  assumes "ready s n" "dhcp_create_request n s = Some (ERR_OK, u)" "put_message n (select_options (mtu (netif_at s n))) u = Some t"
    "p_out (dhcps t n) = Some q" "options_in e = Some (drop MSG_LEN (contents q))" "options_in_len e = of_nat (length (drop MSG_LEN (contents q)))"
  shows "(\<exists>r. dhcp_get_option_ptr e DHCP_OPTION_MESSAGE_TYPE = Some (Some (DHCP_OPTION_MESSAGE_TYPE # 1 # DHCP_REQUEST # r)))
    \<and> long_option e DHCP_OPTION_REQUESTED_IP = Some (Some (ntohl (offered_ip_addr (dhcps s n))))
    \<and> long_option e DHCP_OPTION_SERVER_ID = Some (Some (ntohl (server_ip_addr (dhcps s n))))
    \<and> long_option e DHCP_OPTION_LEASE_TIME = Some None"
proof -
  from create_request_result [OF assms(1)] assms(2) obtain b r where
    u: "dhcps u n = with_out ((dhcps s n)\<lparr>xid := next_xid s n\<rparr>) b (message_head s n) [] r" "length r = DHCP_OPTIONS_LEN" by (auto simp: err_code_def)
  let ?d = "(dhcps s n)\<lparr>xid := next_xid s n\<rparr>"
  let ?w = "option_array (select_bytes (mtu (netif_at s n)) (offered_ip_addr (dhcps s n)) (server_ip_addr (dhcps s n)))"
  have "put_message n (select_options (mtu (netif_at s n))) u = Some (set_dhcp n (\<lambda>_. with_out ?d b (message_head s n) ?w []) u)"
    using put_message_out [OF options_written(2) u(1) length_message_head [OF assms(1)] u(2)] by simp
  then have "q = [b\<lparr>body := message_head s n @ ?w\<rparr>]" using assms(3,4) by (auto simp: with_out_def)
  then have o: "drop MSG_LEN (contents q) = ?w" using length_message_head [OF assms(1)] by (simp add: contents_def)
  define os where "os = [(DHCP_OPTION_MESSAGE_TYPE, [DHCP_REQUEST]), (DHCP_OPTION_MAX_MSG_SIZE, [ucast (drop_bit 8 (mtu (netif_at s n))), ucast (mtu (netif_at s n))]),
      (DHCP_OPTION_REQUESTED_IP, long_bytes (ntohl (offered_ip_addr (dhcps s n)))), (DHCP_OPTION_SERVER_ID, long_bytes (ntohl (server_ip_addr (dhcps s n)))),
      (DHCP_OPTION_PARAMETER_REQUEST_LIST, [DHCP_OPTION_SUBNET_MASK, DHCP_OPTION_ROUTER, DHCP_OPTION_BROADCAST, DHCP_OPTION_DNS_SERVER])]"
  have w: "?w = options_bytes os @ DHCP_OPTION_END # replicate 42 0" unfolding os_def by (rule select_bytes_options)
  have "length ?w = 68" by (simp add: option_array_def option_bytes DHCP_OPTIONS_LEN_def)
  moreover have types: "DHCP_OPTION_MESSAGE_TYPE = 53" "DHCP_OPTION_MAX_MSG_SIZE = 57" "DHCP_OPTION_REQUESTED_IP = 50" "DHCP_OPTION_SERVER_ID = 54"
    "DHCP_OPTION_PARAMETER_REQUEST_LIST = 55" "DHCP_OPTION_END = 255" "DHCP_OPTION_OVERLOAD = 52" "DHCP_OPTION_LEASE_TIME = 51"
    by (simp_all add: DHCP_OPTION_MESSAGE_TYPE_def DHCP_OPTION_MAX_MSG_SIZE_def DHCP_OPTION_REQUESTED_IP_def DHCP_OPTION_SERVER_ID_def
        DHCP_OPTION_PARAMETER_REQUEST_LIST_def DHCP_OPTION_END_def DHCP_OPTION_OVERLOAD_def DHCP_OPTION_LEASE_TIME_def)
  moreover have "plain_options os" by (simp add: os_def plain_options_def types long_bytes_def)
  ultimately have h: "has_options os e"
    unfolding has_options_def using assms(5,6) o w by (intro conjI exI [of _ "replicate 42 0"]) (simp_all del: of_nat_Suc of_nat_add)
  have m: "map_of os DHCP_OPTION_MESSAGE_TYPE = Some [DHCP_REQUEST]" "map_of os DHCP_OPTION_LEASE_TIME = None"
    "map_of os DHCP_OPTION_REQUESTED_IP = Some (long_bytes (ntohl (offered_ip_addr (dhcps s n))))"
    "map_of os DHCP_OPTION_SERVER_ID = Some (long_bytes (ntohl (server_ip_addr (dhcps s n))))"
    by (simp_all add: os_def types)
  have l: "4 \<le> length (long_bytes x)" for x by (simp add: long_bytes_def)
  have "\<exists>r. dhcp_get_option_ptr e DHCP_OPTION_MESSAGE_TYPE = Some (Some (DHCP_OPTION_MESSAGE_TYPE # 1 # DHCP_REQUEST # r))"
    using option_ptr_found [OF h, of DHCP_OPTION_MESSAGE_TYPE] m(1) by auto
  moreover have "long_option e DHCP_OPTION_REQUESTED_IP = Some (Some (ntohl (offered_ip_addr (dhcps s n))))"
    using long_option_found [OF h, of DHCP_OPTION_REQUESTED_IP] m(3) l by (simp add: long_bytes_read)
  moreover have "long_option e DHCP_OPTION_SERVER_ID = Some (Some (ntohl (server_ip_addr (dhcps s n))))"
    using long_option_found [OF h, of DHCP_OPTION_SERVER_ID] m(4) l by (simp add: long_bytes_read)
  moreover have "long_option e DHCP_OPTION_LEASE_TIME = Some None"
    using long_option_found [OF h, of DHCP_OPTION_LEASE_TIME] m(2) by simp
  ultimately show ?thesis by blast
qed

theorem dhcp_options_roundtrip_witness:
  "\<exists>s u t q. dhcp_start 0 home = Some (ERR_OK, s) \<and> dhcp_create_request 0 s = Some (ERR_OK, u)
    \<and> put_message 0 (select_options (mtu (netif_at s 0))) u = Some t \<and> p_out (dhcps t 0) = Some q
    \<and> long_option (dhcp_zero\<lparr>options_in := Some (drop MSG_LEN (contents q)), options_in_len := of_nat (length (drop MSG_LEN (contents q)))\<rparr>)
        DHCP_OPTION_REQUESTED_IP = Some (Some (ntohl (offered_ip_addr (dhcps s 0))))"
proof -
  from home_asks obtain s where s: "dhcp_start 0 home = Some (ERR_OK, s)" "dhcp_reach quiet s" "has_client s 0" "length (netif_list (net_ip s)) = 1"
    "allocs (net_ip s) = []" by blast
  have n: "0 < length (netif_list (net_ip s))" using s(4) by simp
  have r: "ready s 0" by (rule clients_ok_at(1) [OF reach_ok [OF quiet_polite s(2)] s(3) n])
  from create_request_result [OF this] s(5) obtain u b x where
    u: "dhcp_create_request 0 s = Some (ERR_OK, u)" "dhcps u 0 = with_out ((dhcps s 0)\<lparr>xid := next_xid s 0\<rparr>) b (message_head s 0) [] x"
      "length x = DHCP_OPTIONS_LEN" by auto
  let ?w = "with_out ((dhcps s 0)\<lparr>xid := next_xid s 0\<rparr>) b (message_head s 0)
      (option_array (select_bytes (mtu (netif_at s 0)) (offered_ip_addr ((dhcps s 0)\<lparr>xid := next_xid s 0\<rparr>)) (server_ip_addr ((dhcps s 0)\<lparr>xid := next_xid s 0\<rparr>)))) []"
  have p: "put_message 0 (select_options (mtu (netif_at s 0))) u = Some (set_dhcp 0 (\<lambda>_. ?w) u)"
    by (rule put_message_out [OF options_written(2) u(2) length_message_head [OF r] u(3)])
  obtain q where "p_out (dhcps (set_dhcp 0 (\<lambda>_. ?w) u) 0) = Some q" by (simp add: with_out_def)
  then show ?thesis using dhcp_options_roundtrip [OF r u(1) p, of q] s(1) u(1) p by fastforce
qed

section \<open>An acknowledgement\<close>

text \<open>What a list of options says: an address, and seconds, with what holds without the option.\<close>

definition option_addr :: "(u8 \<times> u8 list) list \<Rightarrow> u8 \<Rightarrow> u32" where
  "option_addr os ty = (case map_of os ty of None \<Rightarrow> 0 | Some v \<Rightarrow> word32 v 0)"

definition option_secs :: "(u8 \<times> u8 list) list \<Rightarrow> u8 \<Rightarrow> u32 \<Rightarrow> u32" where
  "option_secs os ty x = (case map_of os ty of None \<Rightarrow> x | Some v \<Rightarrow> htonl (word32 v 0))"

definition lease_types :: "u8 list" where
  "lease_types = [DHCP_OPTION_LEASE_TIME, DHCP_OPTION_T1, DHCP_OPTION_T2, DHCP_OPTION_SUBNET_MASK, DHCP_OPTION_ROUTER, DHCP_OPTION_BROADCAST]"

definition four_bytes :: "(u8 \<times> u8 list) list \<Rightarrow> bool" where
  "four_bytes os \<longleftrightarrow> (\<forall>ty \<in> set lease_types. \<forall>v. map_of os ty = Some v \<longrightarrow> 4 \<le> length v)"

lemma has_options_more [simp]:
  "has_options os (d\<lparr>offered_sn_mask := x\<rparr>) = has_options os d" "has_options os (d\<lparr>offered_gw_addr := x\<rparr>) = has_options os d"
  "has_options os (d\<lparr>offered_bc_addr := x\<rparr>) = has_options os d" "has_options os (d\<lparr>offered_t0_lease := x\<rparr>) = has_options os d"
  "has_options os (d\<lparr>offered_t1_renew := x\<rparr>) = has_options os d" "has_options os (d\<lparr>offered_t2_rebind := x\<rparr>) = has_options os d"
  "has_options os (d\<lparr>offered_ip_addr := x\<rparr>) = has_options os d"
  by (simp_all add: has_options_def)

lemma those_some: "(\<And>x. x \<in> set xs \<Longrightarrow> f x \<noteq> None) \<Longrightarrow> \<exists>ys. those (map f xs) = Some ys"
  by (induction xs) fastforce+

lemma dns_found:
  assumes "length v < 256"
  shows "\<exists>k as. dns_addresses (ty # of_nat (length v) # v @ r) d = Some (d\<lparr>dns_count := k, offered_dns_addr := as\<rparr>)"
proof -
  let ?c = "min (ucast ((of_nat (length v) :: u8) div 4)) DHCP_MAX_DNS :: u32"
  have "unat (ucast ((of_nat (length v) :: u8) div 4) :: u32) = length v div 4"
    using assms by (simp add: unat_div unat_of_nat_u8 unsigned_ucast_eq take_bit_nat_eq_self)
  then have c: "unat ?c \<le> length v div 4" by (metis min.cobounded1 word_le_nat_alt)
  have "\<exists>as. those (map (\<lambda>j. map_option htonl (dhcp_get_option_long (drop (2 + j * 4) (ty # of_nat (length v) # v @ r)))) [0..<unat ?c]) = Some as"
  proof (rule those_some)
    fix j assume "j \<in> set [0..<unat ?c]"
    then have j: "4 + j * 4 \<le> length v" using c by auto
    then have "drop (2 + j * 4) (ty # of_nat (length v) # v @ r) = drop (j * 4) v @ r" by simp
    then show "map_option htonl (dhcp_get_option_long (drop (2 + j * 4) (ty # of_nat (length v) # v @ r))) \<noteq> None"
      using get_option_long [of "drop (j * 4) v" r] j by (simp del: drop_append)
  qed
  then obtain as where "those (map (\<lambda>j. map_option htonl (dhcp_get_option_long (drop (2 + j * 4) (ty # of_nat (length v) # v @ r)))) [0..<unat ?c]) = Some as"
    by blast
  then have "dns_addresses (ty # of_nat (length v) # v @ r) d = Some (d\<lparr>dns_count := ?c, offered_dns_addr := as @ drop (unat ?c) (offered_dns_addr d)\<rparr>)"
    unfolding dns_addresses_def Let_def by (simp only: dhcp_get_option_byte_def drop_Suc_Cons One_nat_def drop_0 list.case Option.bind.bind_lunit)
  then show ?thesis by blast
qed

lemma ack_taken:
  assumes d: "has_options os d" "yiaddr d = Some yi" and l: "four_bytes os"
  shows "\<exists>k as. dhcp_handle_ack d = Some (d\<lparr>offered_t0_lease := option_secs os DHCP_OPTION_LEASE_TIME (offered_t0_lease d),
      offered_t1_renew := option_secs os DHCP_OPTION_T1 (option_secs os DHCP_OPTION_LEASE_TIME (offered_t0_lease d) div 2),
      offered_t2_rebind := option_secs os DHCP_OPTION_T2 (option_secs os DHCP_OPTION_LEASE_TIME (offered_t0_lease d)), offered_ip_addr := yi,
      offered_sn_mask := option_addr os DHCP_OPTION_SUBNET_MASK, offered_gw_addr := option_addr os DHCP_OPTION_ROUTER,
      offered_bc_addr := option_addr os DHCP_OPTION_BROADCAST, dns_count := k, offered_dns_addr := as\<rparr>)"
proof -
  have o: "long_option e ty = Some (map_option (\<lambda>v. htonl (word32 v 0)) (map_of os ty))" if "has_options os e" "ty \<in> set lease_types" for e ty
    using long_option_found [OF that(1)] l that(2) unfolding four_bytes_def by blast
  have secs: "given (map_option (\<lambda>v. htonl (word32 v 0)) (map_of os ty)) (\<lambda>t. offered_t0_lease_update (\<lambda>_. t)) e
      = e\<lparr>offered_t0_lease := option_secs os ty (offered_t0_lease e)\<rparr>" for ty and e :: dhcp
    by (cases e) (simp add: given_def option_secs_def split: option.split)
  have mask: "given (map_option (\<lambda>v. htonl (word32 v 0)) (map_of os ty)) (\<lambda>a. offered_sn_mask_update (\<lambda>_. htonl a)) e
      = e\<lparr>offered_sn_mask := option_addr os ty\<rparr>" if "offered_sn_mask e = 0" for ty and e :: dhcp
    using that by (cases e) (simp add: given_def option_addr_def split: option.split)
  have gate: "given (map_option (\<lambda>v. htonl (word32 v 0)) (map_of os ty)) (\<lambda>a. offered_gw_addr_update (\<lambda>_. htonl a)) e
      = e\<lparr>offered_gw_addr := option_addr os ty\<rparr>" if "offered_gw_addr e = 0" for ty and e :: dhcp
    using that by (cases e) (simp add: given_def option_addr_def split: option.split)
  have bc: "given (map_option (\<lambda>v. htonl (word32 v 0)) (map_of os ty)) (\<lambda>a. offered_bc_addr_update (\<lambda>_. htonl a)) e
      = e\<lparr>offered_bc_addr := option_addr os ty\<rparr>" if "offered_bc_addr e = 0" for ty and e :: dhcp
    using that by (cases e) (simp add: given_def option_addr_def split: option.split)
  have t12: "(case map_option (\<lambda>v. htonl (word32 v 0)) (map_of os ty) of None \<Rightarrow> x | Some t \<Rightarrow> t) = option_secs os ty x" for ty x
    by (simp add: option_secs_def split: option.split)
  obtain m where m: "msg_in d = Some m" "word32 m 16 = yi" using d(2) by (auto simp: yiaddr_def)
  define e where "e = d\<lparr>offered_t0_lease := option_secs os DHCP_OPTION_LEASE_TIME (offered_t0_lease d),
      offered_t1_renew := option_secs os DHCP_OPTION_T1 (option_secs os DHCP_OPTION_LEASE_TIME (offered_t0_lease d) div 2),
      offered_t2_rebind := option_secs os DHCP_OPTION_T2 (option_secs os DHCP_OPTION_LEASE_TIME (offered_t0_lease d)), offered_ip_addr := yi,
      offered_sn_mask := option_addr os DHCP_OPTION_SUBNET_MASK, offered_gw_addr := option_addr os DHCP_OPTION_ROUTER,
      offered_bc_addr := option_addr os DHCP_OPTION_BROADCAST\<rparr>"
  have "has_options os e" using d(1) by (simp add: e_def)
  from option_ptr_found [OF this] obtain r where
    r: "dhcp_get_option_ptr e DHCP_OPTION_DNS_SERVER = Some (map_option (\<lambda>v. DHCP_OPTION_DNS_SERVER # of_nat (length v) # v @ r) (map_of os DHCP_OPTION_DNS_SERVER))" by blast
  have "dhcp_handle_ack d = Option.bind (dhcp_get_option_ptr e DHCP_OPTION_DNS_SERVER) (\<lambda>q. case q of None \<Rightarrow> Some e | Some q \<Rightarrow> dns_addresses q e)"
    unfolding e_def using d(1) m by (simp add: dhcp_handle_ack_def Let_def o lease_types_def secs mask gate bc t12 yiaddr_def del: case_map_option)
  also have "\<exists>k as. \<dots> = Some (e\<lparr>dns_count := k, offered_dns_addr := as\<rparr>)"
  proof (cases "map_of os DHCP_OPTION_DNS_SERVER")
    case None
    then have "\<exists>k as. Some e = Some (e\<lparr>dns_count := k, offered_dns_addr := as\<rparr>)"
      by (intro exI [of _ "dns_count e"] exI [of _ "offered_dns_addr e"]) simp
    then show ?thesis using r None by simp
  next
    case (Some v)
    then have "length v < 256" using d(1) by (auto simp: has_options_def plain_options_def dest!: map_of_SomeD)
    then show ?thesis using r Some dns_found [of v DHCP_OPTION_DNS_SERVER r e] by auto
  qed
  finally show ?thesis by (simp add: e_def)
qed

lemma ack_checked:
  assumes ok: "ready s n" "allocs (net_ip s) = []" "dstate (dhcps s n) = DHCP_REQUESTING"
    and r: "reply_for (netif_at s n) (xid (dhcps s n)) yi os p"
    and os: "map_of os DHCP_OPTION_MESSAGE_TYPE = Some (DHCP_ACK # v)" "four_bytes os"
  shows "\<exists>d. dhcp_recv app n p s = Some (reply_done n p (dhcp_check n (set_dhcp n (\<lambda>_. d) s)))
    \<and> dstate d = DHCP_REQUESTING \<and> offered_ip_addr d = yi \<and> offered_sn_mask d = option_addr os DHCP_OPTION_SUBNET_MASK
    \<and> offered_gw_addr d = option_addr os DHCP_OPTION_ROUTER
    \<and> offered_t1_renew d = option_secs os DHCP_OPTION_T1 (option_secs os DHCP_OPTION_LEASE_TIME (offered_t0_lease (dhcps s n)) div 2)
    \<and> offered_t2_rebind d = option_secs os DHCP_OPTION_T2 (option_secs os DHCP_OPTION_LEASE_TIME (offered_t0_lease (dhcps s n)))"
proof -
  let ?d = "unfolded_reply p (dhcp_free_reply (dhcps s n))" and ?w = "set_dhcp n (unfolded_reply p \<circ> dhcp_free_reply) s"
  have m: "dhcp_recv app n p s = map_option (reply_done n p) (dhcp_dispatch app n DHCP_ACK ?w)"
    by (rule recv_message [OF r ready_client(1) [OF ok(1)] ok(2) os(1)])
  from ack_taken [OF unfolded_options [OF r, of "dhcp_free_reply (dhcps s n)"] os(2)] obtain k as where
    a: "dhcp_handle_ack ?d = Some (?d\<lparr>offered_t0_lease := option_secs os DHCP_OPTION_LEASE_TIME (offered_t0_lease ?d),
      offered_t1_renew := option_secs os DHCP_OPTION_T1 (option_secs os DHCP_OPTION_LEASE_TIME (offered_t0_lease ?d) div 2),
      offered_t2_rebind := option_secs os DHCP_OPTION_T2 (option_secs os DHCP_OPTION_LEASE_TIME (offered_t0_lease ?d)), offered_ip_addr := yi,
      offered_sn_mask := option_addr os DHCP_OPTION_SUBNET_MASK, offered_gw_addr := option_addr os DHCP_OPTION_ROUTER,
      offered_bc_addr := option_addr os DHCP_OPTION_BROADCAST, dns_count := k, offered_dns_addr := as\<rparr>)" (is "_ = Some ?e")
    by blast
  have "dhcp_dispatch app n DHCP_ACK ?w = Some (dhcp_check n (stop_request_timer n (set_dhcp n (\<lambda>_. ?e) ?w)))"
    using a ok(3) by (simp add: dhcp_dispatch_def Let_def)
  moreover have "stop_request_timer n (set_dhcp n (\<lambda>_. ?e) ?w) = set_dhcp n (\<lambda>_. ?e\<lparr>request_timeout := 0\<rparr>) s"
    by (simp add: stop_request_timer_def set_dhcp_def)
  ultimately show ?thesis using m ok(3) by (intro exI [of _ "?e\<lparr>request_timeout := 0\<rparr>"]) simp
qed

section \<open>Checking and binding\<close>

lemma check_client:
  assumes "n < length (netif_list (net_ip s))" "has_client s n"
  shows "dhcps (dhcp_check n s) n = (dhcps s n)\<lparr>dstate := DHCP_CHECKING, request_timeout := 1\<rparr>"
    "tries (dhcp_check n s) n = (if dstate (dhcps s n) = DHCP_CHECKING then tries s n else 0) + 1"
    "ip_ops (net_ip (dhcp_check n s)) = ip_ops (net_ip s) @ [Arp_query n (offered_ip_addr (dhcps s n))]"
    "ip_addr (netif_at (dhcp_check n s) n) = ip_addr (netif_at s n)" "has_client (dhcp_check n s) n"
    "length (netif_list (net_ip (dhcp_check n s))) = length (netif_list (net_ip s))"
    "tcp_active_pcbs (net_tcp (dhcp_check n s)) = tcp_active_pcbs (net_tcp s)" "tcp_mem (net_tcp (dhcp_check n s)) = tcp_mem (net_tcp s)"
    "tcp_free (net_tcp (dhcp_check n s)) = tcp_free (net_tcp s)"
proof -
  have one: "fine_ticks 500 = 1" by (simp add: fine_ticks_def DHCP_FINE_TIMER_MSECS_def)
  show "dhcps (dhcp_check n s) n = (dhcps s n)\<lparr>dstate := DHCP_CHECKING, request_timeout := 1\<rparr>"
    by (simp add: dhcp_check_def Let_def set_request_timeout_def one_more_try_def one)
  show "ip_ops (net_ip (dhcp_check n s)) = ip_ops (net_ip s) @ [Arp_query n (offered_ip_addr (dhcps s n))]"
    by (simp add: dhcp_check_def Let_def set_request_timeout_def one_more_try_def dhcp_set_state_def set_client_def)
  show "tcp_active_pcbs (net_tcp (dhcp_check n s)) = tcp_active_pcbs (net_tcp s)" "tcp_mem (net_tcp (dhcp_check n s)) = tcp_mem (net_tcp s)"
    "tcp_free (net_tcp (dhcp_check n s)) = tcp_free (net_tcp s)"
    by (simp_all add: dhcp_check_def Let_def set_request_timeout_def one_more_try_def dhcp_set_state_def set_client_def set_netif_def on_stack_def set_dhcp_def)
qed (use assms in \<open>auto simp: dhcp_check_def Let_def set_request_timeout_def one_more_try_def dhcp_set_state_def has_client_def tries_def netif_at_set_client\<close>)

text \<open>No connection uses an address.\<close>

definition address_unused :: "u32 \<Rightarrow> 'a tcp \<Rightarrow> bool" where
  "address_unused ip s \<longleftrightarrow> distinct (tcp_active_pcbs s) \<and> (\<forall>a \<in> set (tcp_active_pcbs s). \<not> freed a s \<and> t_local_ip (tcp_mem s a) \<noteq> ip)"

lemma dropWhile_suffix: "a \<notin> set xs \<Longrightarrow> dropWhile (\<lambda>x. x \<noteq> a) (xs @ a # ys) = a # ys"
  by (induction xs) auto

lemma successor_suffix: "a \<notin> set xs \<Longrightarrow> successor a (xs @ a # ys) = first_of ys"
  by (simp add: successor_def dropWhile_suffix split: list.split)

lemma abort_loop_unused:
  "address_unused ip s \<Longrightarrow> tcp_active_pcbs s = xs @ ys \<Longrightarrow> abort_loop app ip (first_of ys) s = Some s"
proof (induction ys arbitrary: xs)
  case Nil
  show ?case by (simp add: abort_loop.simps)
next
  case (Cons a ys)
  have "abort_loop app ip (first_of ys) s = Some s" by (rule Cons.IH [of "xs @ [a]"]) (use Cons.prems in auto)
  moreover have "successor a (tcp_active_pcbs s) = first_of ys"
    unfolding Cons.prems(2) by (rule successor_suffix) (use Cons.prems in \<open>auto simp: address_unused_def\<close>)
  ultimately show ?case using Cons.prems by (subst abort_loop.simps) (simp add: address_unused_def Let_def)
qed

lemma unused_address_changes:
  assumes "address_unused (ip_addr (netif_at s n)) (net_tcp s)"
  shows "\<exists>t. netif_set_ipaddr app n ipaddr s = Some t \<and> net_ip t = net_ip (set_netif n (ip_addr_update (\<lambda>_. ipaddr)) s) \<and> dhcps t = dhcps s"
proof -
  have "abort_loop app (ip_addr (netif_at s n)) (first_of (tcp_active_pcbs (net_tcp s))) (net_tcp s) = Some (net_tcp s)"
    by (rule abort_loop_unused [OF assms, of "[]"]) simp
  then show ?thesis by (auto simp: netif_set_ipaddr_def new_address_def set_netif_simps(1))
qed

lemma set_up_fields:
  "netmask (netif_at (netif_set_up n s) m) = netmask (netif_at s m)" "gw (netif_at (netif_set_up n s) m) = gw (netif_at s m)"
  "\<exists>g. ip_ops (net_ip (netif_set_up n s)) = ip_ops (net_ip s) @ g \<and> set g \<subseteq> {Arp_gratuitous n (ip_addr (netif_at s n))}"
  by (auto simp: netif_set_up_def Let_def)

lemma bind_result:
  assumes "ready s n" "address_unused (ip_addr (netif_at s n)) (net_tcp s)"
  defines "sm \<equiv> (if offered_sn_mask (dhcps s n) = 0 then htonl 0xff000000 else offered_sn_mask (dhcps s n))"
  shows "\<exists>t g. dhcp_bind app n s = Some t \<and> dhcps t n = (lease_timers (dhcps s n))\<lparr>dstate := DHCP_BOUND\<rparr>
    \<and> ip_addr (netif_at t n) = offered_ip_addr (dhcps s n) \<and> netmask (netif_at t n) = sm
    \<and> gw (netif_at t n) = (if offered_gw_addr (dhcps s n) = 0 then (offered_ip_addr (dhcps s n) AND sm) OR htonl 1 else offered_gw_addr (dhcps s n))
    \<and> netif_is_up (netif_at t n)
    \<and> ip_ops (net_ip t) = ip_ops (net_ip s) @ g \<and> set g \<subseteq> {Arp_gratuitous n (offered_ip_addr (dhcps s n))}"
proof -
  let ?d = "lease_timers (dhcps s n)" and ?s = "set_dhcp n (\<lambda>_. lease_timers (dhcps s n)) s"
  define route where "route = (if offered_gw_addr (dhcps s n) = 0 then (offered_ip_addr (dhcps s n) AND sm) OR htonl 1 else offered_gw_addr (dhcps s n))"
  have c: "has_client s n" "n < length (netif_list (net_ip s))" using assms(1) by (simp_all add: ready_client)
  have d: "offered_ip_addr ?d = offered_ip_addr (dhcps s n)" "offered_sn_mask ?d = offered_sn_mask (dhcps s n)" "offered_gw_addr ?d = offered_gw_addr (dhcps s n)"
    using lease_timers_fields [of "dhcps s n"] by auto
  have m: "class_mask 0 = htonl 0xff000000" by (simp add: class_mask_def ntohl_def htonl_def)
  from unused_address_changes [of ?s n app "offered_ip_addr (dhcps s n)"] assms(2) obtain u where
    u: "netif_set_ipaddr app n (offered_ip_addr (dhcps s n)) ?s = Some u" "net_ip u = net_ip (set_netif n (ip_addr_update (\<lambda>_. offered_ip_addr (dhcps s n))) ?s)"
      "dhcps u = dhcps ?s" by auto
  let ?v = "netif_set_gw n route (netif_set_netmask n sm u)"
  let ?t = "dhcp_set_state n DHCP_BOUND (netif_set_up n ?v)"
  have "dhcp_bind app n s = Some ?t" using c(1) u(1) by (simp add: dhcp_bind_def Let_def d m sm_def route_def)
  moreover have v: "netif_at ?v n = (netif_at s n)\<lparr>ip_addr := offered_ip_addr (dhcps s n), netmask := sm, gw := route\<rparr>" "n < length (netif_list (net_ip ?v))"
    using c(2) u(2) by (simp_all add: netif_set_gw_def netif_set_netmask_def)
  moreover have "dhcps ?t n = ?d\<lparr>dstate := DHCP_BOUND\<rparr>" by (simp add: set_up_client(4) netif_set_gw_def netif_set_netmask_def u(3))
  moreover have l: "n < length (netif_list (net_ip (netif_set_up n ?v)))" using v(2) only_eqs(1) [OF set_up_client(1) [of n ?v]] by linarith
  have "ip_addr (netif_at ?t n) = offered_ip_addr (dhcps s n)" "netmask (netif_at ?t n) = sm" "gw (netif_at ?t n) = route" "netif_is_up (netif_at ?t n)"
    using l v set_up_client(6) [OF v(2)] set_up_client(5) [of n ?v]
    by (simp_all add: dhcp_set_state_def netif_at_set_client set_up_fields netif_is_up_def)
  moreover obtain g where "ip_ops (net_ip (netif_set_up n ?v)) = ip_ops (net_ip ?v) @ g" "set g \<subseteq> {Arp_gratuitous n (offered_ip_addr (dhcps s n))}"
    using set_up_fields(3) [of n ?v] v(1) by auto
  then have "ip_ops (net_ip ?t) = ip_ops (net_ip s) @ g" "set g \<subseteq> {Arp_gratuitous n (offered_ip_addr (dhcps s n))}"
    by (simp_all add: dhcp_set_state_def set_client_def netif_set_gw_def netif_set_netmask_def u(2))
  ultimately show ?thesis unfolding route_def [symmetric] by (intro exI [of _ ?t] exI [of _ g]) simp
qed

lemma one_interface: "length (netif_list (net_ip s)) = 1 \<Longrightarrow> dhcp_fine_tmr app s = fine_step app 0 s"
  by (cases "fine_step app 0 s") (simp_all add: dhcp_fine_tmr_def)

lemma check_again:
  assumes "length (netif_list (net_ip s)) = 1" "has_client s 0" "dstate (dhcps s 0) = DHCP_CHECKING" "request_timeout (dhcps s 0) = 1" "tries s 0 = 1"
  shows "dhcp_fine_tmr app s = Some (dhcp_check 0 (set_dhcp 0 (\<lambda>d. d\<lparr>request_timeout := 0\<rparr>) s))"
  using assms by (simp add: one_interface fine_step_def dhcp_timeout_def tries_def Let_def)

lemma check_over:
  assumes "length (netif_list (net_ip s)) = 1" "has_client s 0" "dstate (dhcps s 0) = DHCP_CHECKING" "request_timeout (dhcps s 0) = 1" "tries s 0 = 2"
  shows "dhcp_fine_tmr app s = dhcp_bind app 0 (set_dhcp 0 (\<lambda>d. d\<lparr>request_timeout := 0\<rparr>) s)"
proof -
  have "\<not> (2 :: u8) \<le> 1" by (simp add: word_le_nat_alt)
  then show ?thesis using assms by (simp add: one_interface fine_step_def dhcp_timeout_def tries_def Let_def)
qed

lemma lease_timers_set:
  "offered_t1_renew d \<noteq> 0xffffffff \<Longrightarrow> t1_timeout (lease_timers d) = coarse_ticks (offered_t1_renew d)"
  "offered_t2_rebind d \<noteq> 0xffffffff \<Longrightarrow> t2_timeout (lease_timers d) = coarse_ticks (offered_t2_rebind d)"
  by (simp_all add: lease_timers_def Let_def)

text \<open>
  C8: on a board with one interface, a client in REQUESTING that gets the acknowledgement for its transaction asks by ARP for the
  address it was given; when no host answers, it asks a second time after half a second, and after another one the
  interface is up and has that address, the mask of the reply (without one, 255.0.0.0) and its router (without one, the first host
  of the network); the renewal and rebinding timers hold the times of the reply in minutes, where half of the lease and the
  lease are taken without one.  No connection may have the old address of the interface.
\<close>

theorem dhcp_lease_bound:
  assumes "polite app" "dhcp_reach app s" "length (netif_list (net_ip s)) = 1" "has_client s 0" "allocs (net_ip s) = []"
    "dstate (dhcps s 0) = DHCP_REQUESTING" "reply_for (netif_at s 0) (xid (dhcps s 0)) yi os p"
    "map_of os DHCP_OPTION_MESSAGE_TYPE = Some (DHCP_ACK # v)" "four_bytes os" "address_unused (ip_addr (netif_at s 0)) (net_tcp s)"
  defines "sm \<equiv> (if option_addr os DHCP_OPTION_SUBNET_MASK = 0 then htonl 0xff000000 else option_addr os DHCP_OPTION_SUBNET_MASK)"
    and "lease \<equiv> option_secs os DHCP_OPTION_LEASE_TIME (offered_t0_lease (dhcps s 0))"
  shows "\<exists>t u w g. dhcp_recv app 0 p s = Some t \<and> dstate (dhcps t 0) = DHCP_CHECKING \<and> dhcp_fine_tmr app t = Some u
    \<and> dstate (dhcps u 0) = DHCP_CHECKING \<and> dhcp_fine_tmr app u = Some w \<and> dstate (dhcps w 0) = DHCP_BOUND
    \<and> netif_is_up (netif_at w 0) \<and> ip_addr (netif_at w 0) = yi \<and> netmask (netif_at w 0) = sm
    \<and> gw (netif_at w 0) = (if option_addr os DHCP_OPTION_ROUTER = 0 then (yi AND sm) OR htonl 1 else option_addr os DHCP_OPTION_ROUTER)
    \<and> (option_secs os DHCP_OPTION_T1 (lease div 2) \<noteq> 0xffffffff \<longrightarrow> t1_timeout (dhcps w 0) = coarse_ticks (option_secs os DHCP_OPTION_T1 (lease div 2)))
    \<and> (option_secs os DHCP_OPTION_T2 lease \<noteq> 0xffffffff \<longrightarrow> t2_timeout (dhcps w 0) = coarse_ticks (option_secs os DHCP_OPTION_T2 lease))
    \<and> ip_ops (net_ip w) = ip_ops (net_ip s) @ [Arp_query 0 yi, Free_chain p, Arp_query 0 yi] @ g \<and> set g \<subseteq> {Arp_gratuitous 0 yi}"
proof -
  have n: "0 < length (netif_list (net_ip s))" using assms(3) by simp
  have "ready s 0" by (rule clients_ok_at(1) [OF reach_ok [OF assms(1,2)] assms(4) n])
  from ack_checked [OF this assms(5-9)] obtain d where
    d: "dhcp_recv app 0 p s = Some (reply_done 0 p (dhcp_check 0 (set_dhcp 0 (\<lambda>_. d) s)))" "dstate d = DHCP_REQUESTING" "offered_ip_addr d = yi"
      "offered_sn_mask d = option_addr os DHCP_OPTION_SUBNET_MASK" "offered_gw_addr d = option_addr os DHCP_OPTION_ROUTER"
      "offered_t1_renew d = option_secs os DHCP_OPTION_T1 (lease div 2)" "offered_t2_rebind d = option_secs os DHCP_OPTION_T2 lease"
    unfolding lease_def by blast
  let ?c = "dhcp_check 0 (set_dhcp 0 (\<lambda>_. d) s)" and ?zero = "set_dhcp 0 (\<lambda>d. d\<lparr>request_timeout := 0\<rparr>)"
  let ?t = "reply_done 0 p ?c"
  let ?u = "dhcp_check 0 (?zero ?t)"
  have sc: "has_client (set_dhcp 0 (\<lambda>_. d) s) 0" "0 < length (netif_list (net_ip (set_dhcp 0 (\<lambda>_. d) s)))" using assms(4) n by (simp_all add: has_client_def)
  note c = check_client [OF sc(2,1)]
  have t: "length (netif_list (net_ip ?t)) = 1" "has_client ?t 0" "dstate (dhcps ?t 0) = DHCP_CHECKING" "request_timeout (dhcps ?t 0) = 1" "tries ?t 0 = 1"
    using c assms(3) d(2) by (simp_all add: done_client has_client_def)
  have tc: "has_client (?zero ?t) 0" "0 < length (netif_list (net_ip (?zero ?t)))" using t(1,2) by (simp_all add: has_client_def)
  note cu = check_client [OF tc(2,1)]
  have u: "dhcp_fine_tmr app ?t = Some ?u" "length (netif_list (net_ip ?u)) = 1" "has_client ?u 0" "dstate (dhcps ?u 0) = DHCP_CHECKING"
    "request_timeout (dhcps ?u 0) = 1" "tries ?u 0 = 2"
    using check_again [OF t] cu t by (simp_all add: tries_def)
  have "dhcp_reach app ?u" using dhcp_reach.Next [OF dhcp_reach.Next [OF assms(2) dhcp_step.Reply [OF n d(1)]] dhcp_step.Fine [OF u(1)]] .
  then have ready: "ready (?zero ?u) 0" using clients_ok_at(1) [OF reach_ok [OF assms(1)]] u(2,3) by simp
  have "address_unused (ip_addr (netif_at (?zero ?u) 0)) (net_tcp (?zero ?u))"
    using assms(10) c cu by (simp add: address_unused_def freed_def done_client reply_done_def on_stack_def)
  note b = bind_result [OF ready this, of app]
  define r where "r = dhcps (?zero ?u) 0"
  have e: "offered_ip_addr r = yi" "offered_sn_mask r = option_addr os DHCP_OPTION_SUBNET_MASK"
    "offered_gw_addr r = option_addr os DHCP_OPTION_ROUTER" "offered_t1_renew r = option_secs os DHCP_OPTION_T1 (lease div 2)"
    "offered_t2_rebind r = option_secs os DHCP_OPTION_T2 lease"
    using c(1) cu(1) d(3-7) by (simp_all add: done_client r_def)
  have ops: "ip_ops (net_ip ?u) = ip_ops (net_ip s) @ [Arp_query 0 yi, Free_chain p, Arp_query 0 yi]"
    using c(1,3) cu(3) d(3) by (simp add: done_client)
  from b [folded r_def, unfolded e] obtain w g where w: "dhcp_bind app 0 (?zero ?u) = Some w" "dhcps w 0 = (lease_timers r)\<lparr>dstate := DHCP_BOUND\<rparr>"
    "ip_addr (netif_at w 0) = yi" "netmask (netif_at w 0) = sm"
    "gw (netif_at w 0) = (if option_addr os DHCP_OPTION_ROUTER = 0 then (yi AND sm) OR htonl 1 else option_addr os DHCP_OPTION_ROUTER)"
    "netif_is_up (netif_at w 0)" "ip_ops (net_ip w) = ip_ops (net_ip (?zero ?u)) @ g" "set g \<subseteq> {Arp_gratuitous 0 yi}"
    unfolding sm_def by blast
  have "dhcp_fine_tmr app ?u = Some w" using check_over [OF u(2-6)] w(1) by simp
  moreover have "ip_ops (net_ip w) = ip_ops (net_ip s) @ [Arp_query 0 yi, Free_chain p, Arp_query 0 yi] @ g" using w(7) ops by simp
  ultimately show ?thesis using d(1) t(3) u(1,4) w(3-6,8) lease_timers_set [of r, unfolded e] w(2)
    by (intro exI [of _ ?t] exI [of _ ?u] exI [of _ w] exI [of _ g]) simp
qed

text \<open>A board whose client has requested an offer, and whose connections are closed.\<close>

lemma home_requests:
  "\<exists>s. dhcp_reach quiet s \<and> length (netif_list (net_ip s)) = 1 \<and> has_client s 0 \<and> allocs (net_ip s) = [] \<and> dstate (dhcps s 0) = DHCP_REQUESTING
    \<and> hwaddr (netif_at s 0) = [2, 0, 0, 0, 0, 1] \<and> hwaddr_len (netif_at s 0) = 6 \<and> tcp_active_pcbs (net_tcp s) = []"
proof -
  from home_asks obtain s where s: "dhcp_reach quiet s" "has_client s 0" "length (netif_list (net_ip s)) = 1"
    "allocs (net_ip s) = []" "dstate (dhcps s 0) = DHCP_SELECTING" "hwaddr (netif_at s 0) = [2, 0, 0, 0, 0, 1]" "hwaddr_len (netif_at s 0) = 6" by blast
  let ?os = "[(DHCP_OPTION_MESSAGE_TYPE, [DHCP_OFFER]), (DHCP_OPTION_SERVER_ID, [192, 168, 1, 1])]"
  let ?p = "server_message (xid (dhcps s 0)) (IP4_ADDR 192 168 1 50) [2, 0, 0, 0, 0, 1] ?os"
  have o: "plain_options ?os" "length (options_bytes ?os) < 60000" "map_of ?os DHCP_OPTION_MESSAGE_TYPE = Some (DHCP_OFFER # [])"
    "map_of ?os DHCP_OPTION_SERVER_ID = Some [192, 168, 1, 1]" "4 \<le> length [192, 168, 1, 1 :: u8]"
    by (simp_all add: plain_options_def DHCP_OPTION_MESSAGE_TYPE_def DHCP_OPTION_SERVER_ID_def DHCP_OPTION_END_def DHCP_OPTION_OVERLOAD_def)
  have p: "reply_for (netif_at s 0) (xid (dhcps s 0)) (IP4_ADDR 192 168 1 50) ?os ?p"
    using s(6,7) o(1,2) by (intro server_message_for) simp_all
  have n: "0 < length (netif_list (net_ip s))" using s(3) by simp
  have "ready s 0" by (rule clients_ok_at(1) [OF reach_ok [OF quiet_polite s(1)] s(2) n])
  from offer_requested [OF this s(4,5) p o(3-5), of quiet] obtain t ws d where t: "dhcp_recv quiet 0 ?p s = Some (reply_done 0 ?p t)"
    "requested 0 IP_ADDR_BROADCAST ws doubling_msecs DHCP_REQUESTING d s t" by blast
  let ?t = "reply_done 0 ?p t"
  let ?u = "?t\<lparr>net_tcp := (net_tcp ?t)\<lparr>tcp_active_pcbs := []\<rparr>\<rparr>"
  have "dhcp_reach quiet ?t" by (rule dhcp_reach.Next [OF s(1) dhcp_step.Reply [OF n t(1)]])
  then have "dhcp_reach quiet ?u" by (rule dhcp_reach.Next) (rule dhcp_step.Elsewhere; simp)
  moreover have "only 0 s t" "dstate (dhcps t 0) = DHCP_REQUESTING" "has_client t 0" "allocs (net_ip t) = []" using t(2) by (auto simp: requested_def)
  moreover have "net_ip ?u = net_ip ?t" "dhcps ?u = dhcps ?t" by simp_all
  ultimately show ?thesis using s(3,6,7) by (intro exI [of _ ?u]) (simp add: done_client has_client_def only_def)
qed

theorem dhcp_lease_bound_witness:
  "\<exists>s p t u w. dhcp_reach quiet s \<and> dstate (dhcps s 0) = DHCP_REQUESTING \<and> dhcp_recv quiet 0 p s = Some t \<and> dhcp_fine_tmr quiet t = Some u
    \<and> dhcp_fine_tmr quiet u = Some w \<and> dstate (dhcps w 0) = DHCP_BOUND \<and> ip_addr (netif_at w 0) = IP4_ADDR 192 168 1 50 \<and> t1_timeout (dhcps w 0) = 30"
proof -
  from home_requests obtain s where s: "dhcp_reach quiet s" "length (netif_list (net_ip s)) = 1" "has_client s 0" "allocs (net_ip s) = []"
    "dstate (dhcps s 0) = DHCP_REQUESTING" "hwaddr (netif_at s 0) = [2, 0, 0, 0, 0, 1]" "hwaddr_len (netif_at s 0) = 6" "tcp_active_pcbs (net_tcp s) = []" by blast
  let ?os = "[(DHCP_OPTION_MESSAGE_TYPE, [DHCP_ACK]), (DHCP_OPTION_LEASE_TIME, [0, 0, 14, 16])]"
  let ?p = "server_message (xid (dhcps s 0)) (IP4_ADDR 192 168 1 50) [2, 0, 0, 0, 0, 1] ?os"
  have o: "plain_options ?os" "length (options_bytes ?os) < 60000" "map_of ?os DHCP_OPTION_MESSAGE_TYPE = Some (DHCP_ACK # [])" "four_bytes ?os"
    by (simp_all add: plain_options_def four_bytes_def lease_types_def DHCP_OPTION_MESSAGE_TYPE_def DHCP_OPTION_LEASE_TIME_def DHCP_OPTION_END_def
        DHCP_OPTION_OVERLOAD_def DHCP_OPTION_T1_def DHCP_OPTION_T2_def DHCP_OPTION_SUBNET_MASK_def DHCP_OPTION_ROUTER_def DHCP_OPTION_BROADCAST_def)
  have p: "reply_for (netif_at s 0) (xid (dhcps s 0)) (IP4_ADDR 192 168 1 50) ?os ?p"
    using s(6,7) o(1,2) by (intro server_message_for) simp_all
  have a: "address_unused (ip_addr (netif_at s 0)) (net_tcp s)" using s(8) by (simp add: address_unused_def)
  have t1: "option_secs ?os DHCP_OPTION_T1 (option_secs ?os DHCP_OPTION_LEASE_TIME (offered_t0_lease (dhcps s 0)) div 2) = 1800"
    by (simp add: option_secs_def DHCP_OPTION_MESSAGE_TYPE_def DHCP_OPTION_LEASE_TIME_def DHCP_OPTION_T1_def word32_def htonl_def)
  have c: "coarse_ticks 1800 = 30" "(1800 :: u32) \<noteq> 0xffffffff" by (simp_all add: coarse_ticks_def DHCP_COARSE_TIMER_SECS_def Let_def)
  from dhcp_lease_bound [OF quiet_polite s(1-5) p o(3,4) a, unfolded t1 c(1)] obtain t u w where
    "dhcp_recv quiet 0 ?p s = Some t" "dhcp_fine_tmr quiet t = Some u" "dhcp_fine_tmr quiet u = Some w" "dstate (dhcps w 0) = DHCP_BOUND"
    "ip_addr (netif_at w 0) = IP4_ADDR 192 168 1 50" "(1800 :: u32) \<noteq> 0xffffffff \<longrightarrow> t1_timeout (dhcps w 0) = 30" by blast
  then show ?thesis using s(1,5) c(2) by blast
qed

end
