(* ===== verification/DhcpRetry.thy ===== *)
theory DhcpRetry
  imports DhcpBound
begin

text \<open>
  A client that gets no answer: how it goes on asking, and when the program gives the search up.
\<close>

section \<open>Runs of the fine timer\<close>

primrec fine_runs :: "'a tcp_app \<Rightarrow> nat \<Rightarrow> 'a nets \<Rightarrow> 'a nets option" where
  "fine_runs app 0 s = Some s"
| "fine_runs app (Suc k) s = Option.bind (dhcp_fine_tmr app s) (fine_runs app k)"

lemma fine_runs_add: "fine_runs app (j + k) s = Option.bind (fine_runs app j s) (fine_runs app k)"
  by (induction j arbitrary: s) (auto split: Option.bind_split)

text \<open>The state of a client of the only interface that searches for a server, with some tries made and some ticks to wait.\<close>

definition searching :: "'a tcp_app \<Rightarrow> u8 \<Rightarrow> u16 \<Rightarrow> 'a nets \<Rightarrow> bool" where
  "searching app made wait s \<longleftrightarrow> dhcp_reach app s \<and> length (netif_list (net_ip s)) = 1 \<and> has_client s 0 \<and> allocs (net_ip s) = []
     \<and> dstate (dhcps s 0) = DHCP_SELECTING \<and> tries s 0 = made \<and> request_timeout (dhcps s 0) = wait"

lemma tick_waits:
  assumes "searching app made wait s" "1 < wait"
  shows "\<exists>t. dhcp_fine_tmr app s = Some t \<and> searching app made (wait - 1) t \<and> ip_ops (net_ip t) = ip_ops (net_ip s)"
proof -
  let ?t = "set_dhcp 0 (\<lambda>d. d\<lparr>request_timeout := wait - 1\<rparr>) s"
  have t: "dhcp_fine_tmr app s = Some ?t" using assms by (simp add: searching_def one_interface fine_step_def Let_def)
  have "dhcp_reach app ?t" using assms(1) dhcp_reach.Next [OF _ dhcp_step.Fine [OF t]] by (simp add: searching_def)
  then show ?thesis using t assms(1) by (intro exI [of _ ?t]) (simp add: searching_def has_client_def tries_def)
qed

lemma tick_asks:
  assumes "polite app" "searching app made 1 s"
  shows "\<exists>t q b. dhcp_fine_tmr app s = Some t \<and> searching app (made + 1) (fine_ticks (doubling_msecs (made + 1))) t
    \<and> ip_ops (net_ip t) = ip_ops (net_ip s) @ [Netif_output 0 q IP_ADDR_BROADCAST, Free_chain [b]]"
proof -
  let ?s = "set_dhcp 0 (\<lambda>d. d\<lparr>request_timeout := 0\<rparr>) s"
  have s: "dhcp_reach app s" "length (netif_list (net_ip s)) = 1" "has_client s 0" "allocs (net_ip s) = []"
     "dstate (dhcps s 0) = DHCP_SELECTING" "tries s 0 = made" "request_timeout (dhcps s 0) = 1"
    using assms(2) by (simp_all add: searching_def)
  have "ready s 0" by (rule clients_ok_at(1) [OF reach_ok [OF assms(1) s(1)] s(3)]) (simp add: s(2))
  then obtain t where t: "dhcp_discover 0 ?s = Some (ERR_OK, t)"
    "requested 0 IP_ADDR_BROADCAST (discover_bytes (mtu (netif_at ?s 0))) doubling_msecs DHCP_SELECTING ((dhcps ?s 0)\<lparr>offered_ip_addr := 0\<rparr>) ?s t"
    using discover_sends [of ?s 0] s(4) by auto
  have f: "dhcp_fine_tmr app s = Some t" using s t(1) by (simp add: one_interface fine_step_def Let_def dhcp_timeout_def)
  have "dhcp_reach app t" using dhcp_reach.Next [OF s(1) dhcp_step.Fine [OF f]] .
  moreover have "tries t 0 = made + 1" using t(2) s(5,6) by (simp add: requested_def tries_def)
  moreover have "only 0 ?s t" using t(2) by (simp add: requested_def)
  then have "length (netif_list (net_ip t)) = 1" using s(2) by (simp add: only_def)
  ultimately have "searching app (made + 1) (fine_ticks (doubling_msecs (made + 1))) t"
    using t(2) by (auto simp: searching_def requested_def)
  moreover obtain q b where "ip_ops (net_ip t) = ip_ops (net_ip s) @ [Netif_output 0 q IP_ADDR_BROADCAST, Free_chain [b]]"
    using t(2) by (auto simp: requested_def)
  ultimately show ?thesis using f by blast
qed

lemma round:
  assumes "polite app" "searching app made wait s" "0 < wait"
  shows "(\<exists>t q b. fine_runs app (unat wait) s = Some t \<and> searching app (made + 1) (fine_ticks (doubling_msecs (made + 1))) t
      \<and> ip_ops (net_ip t) = ip_ops (net_ip s) @ [Netif_output 0 q IP_ADDR_BROADCAST, Free_chain [b]])
    \<and> (\<forall>j < unat wait. \<exists>u w. fine_runs app j s = Some u \<and> searching app made w u)"
  using assms(2,3)
proof (induction "unat wait" arbitrary: s wait)
  case 0
  then show ?case by (simp add: unat_eq_zero)
next
  case (Suc k)
  show ?case
  proof (cases "wait = 1")
    case True
    then show ?thesis using tick_asks [OF assms(1)] Suc.prems(1) by (fastforce simp: less_Suc_eq)
  next
    case False
    then have w: "1 < wait" using Suc.prems(2) u16_cases [of wait] by auto
    have "unat (wait - 1) = unat wait - 1" by (rule unat_minus_one) (use Suc.prems(2) in auto)
    then have k: "unat (wait - 1) = k" "0 < wait - 1" using Suc.hyps(2) w by (simp_all add: word_less_nat_alt)
    from tick_waits [OF Suc.prems(1) w] obtain t where t: "dhcp_fine_tmr app s = Some t" "searching app made (wait - 1) t" "ip_ops (net_ip t) = ip_ops (net_ip s)" by blast
    from Suc.hyps(1) [OF k(1) [symmetric] t(2) k(2)] have r: "\<exists>u q b. fine_runs app k t = Some u \<and> searching app (made + 1) (fine_ticks (doubling_msecs (made + 1))) u
        \<and> ip_ops (net_ip u) = ip_ops (net_ip s) @ [Netif_output 0 q IP_ADDR_BROADCAST, Free_chain [b]]"
      "\<forall>j < k. \<exists>u w. fine_runs app j t = Some u \<and> searching app made w u" unfolding k(1) t(3) by blast+
    have "\<exists>u w. fine_runs app j s = Some u \<and> searching app made w u" if "j < Suc k" for j
      using that r(2) t(1) Suc.prems(1) by (cases j) auto
    then show ?thesis unfolding Suc.hyps(2) [symmetric] using r(1) t(1) by simp
  qed
qed

section \<open>Asking for ever, and giving up\<close>

lemma wait_bound: "0 < fine_ticks (doubling_msecs t)" "unat (fine_ticks (doubling_msecs t)) \<le> 120"
proof -
  show "0 < fine_ticks (doubling_msecs t)" by (simp add: fine_ticks_pos doubling_msecs_pos)
  have "unat (doubling_msecs t) \<le> 60000"
  proof (cases "t < 6")
    case True
    then have "unat t \<in> {0, 1, 2, 3, 4, 5}" by (auto simp: word_less_nat_alt)
    then show ?thesis using True by (auto simp: doubling_msecs_def)
  qed (simp add: doubling_msecs_def)
  then show "unat (fine_ticks (doubling_msecs t)) \<le> 120" by (simp add: unat_fine_ticks)
qed

definition discovers :: "stack \<Rightarrow> nat" where
  "discovers k = length (filter (\<lambda>x. case x of Netif_output n q dest \<Rightarrow> dest = IP_ADDR_BROADCAST | _ \<Rightarrow> False) (ip_ops k))"

text \<open>
  C13: on a board with one interface, a client that gets no answer never stops asking: within 120 ticks of the fine
  timer, a minute, it has broadcast one more DISCOVER, whatever the number of tries, also when the eight bits of
  the counter wrap, and it still searches.
\<close>

theorem dhcp_asks_for_ever:
  assumes "polite app" "searching app made wait s" "0 < wait" "unat wait \<le> 120"
  shows "\<exists>k t. k \<le> 120 * m \<and> fine_runs app k s = Some t \<and> discovers (net_ip t) = discovers (net_ip s) + m \<and> dstate (dhcps t 0) = DHCP_SELECTING"
  using assms(2-4)
proof (induction m arbitrary: made wait s)
  case 0
  then show ?case by (intro exI [of _ 0] exI [of _ s]) (simp add: searching_def)
next
  case (Suc m)
  from round [OF assms(1) Suc.prems(1,2)] obtain u q b where u: "fine_runs app (unat wait) s = Some u"
    "searching app (made + 1) (fine_ticks (doubling_msecs (made + 1))) u"
    "ip_ops (net_ip u) = ip_ops (net_ip s) @ [Netif_output 0 q IP_ADDR_BROADCAST, Free_chain [b]]" by blast
  from Suc.IH [OF u(2) wait_bound] obtain k t where t: "k \<le> 120 * m" "fine_runs app k u = Some t"
    "discovers (net_ip t) = discovers (net_ip u) + m" "dstate (dhcps t 0) = DHCP_SELECTING" by blast
  have "discovers (net_ip u) = Suc (discovers (net_ip s))" by (simp add: discovers_def u(3))
  then show ?case using t u(1) Suc.prems(3)
    by (intro exI [of _ "unat wait + k"] exI [of _ t]) (simp add: fine_runs_add)
qed

text \<open>
  C12: after the first DISCOVER of \<open>dhcp_start\<close>, without an answer, the number of tries that the main loop looks at exceeds
  \<open>MAX_DHCP_TRIES\<close> with the 60th tick of the fine timer, thirty seconds later, and not before: by then four more DISCOVERs
  have been sent, after waits of 2, 4, 8 and 16 seconds.
\<close>

theorem dhcp_gives_up:
  assumes "polite app" "searching app 1 4 s"
  shows "\<exists>t. fine_runs app 60 s = Some t \<and> tries t 0 > MAX_DHCP_TRIES \<and> discovers (net_ip t) = discovers (net_ip s) + 4
    \<and> (\<forall>j < 60. \<exists>u. fine_runs app j s = Some u \<and> tries u 0 \<le> MAX_DHCP_TRIES \<and> dstate (dhcps u 0) = DHCP_SELECTING)"
proof -
  let ?few = "\<lambda>k. \<forall>j < k. \<exists>u. fine_runs app j s = Some u \<and> tries u 0 \<le> MAX_DHCP_TRIES \<and> dstate (dhcps u 0) = DHCP_SELECTING"
  have step: "\<exists>t. fine_runs app (k + unat wait) s = Some t \<and> searching app (made + 1) (fine_ticks (doubling_msecs (made + 1))) t
      \<and> discovers (net_ip t) = Suc (discovers (net_ip u)) \<and> ?few (k + unat wait)"
    if u: "fine_runs app k s = Some u" "searching app made wait u" "0 < wait" "made \<le> MAX_DHCP_TRIES" "?few k" for k u made wait
  proof -
    from round [OF assms(1) u(2,3)] obtain t q b where t: "fine_runs app (unat wait) u = Some t"
      "searching app (made + 1) (fine_ticks (doubling_msecs (made + 1))) t"
      "ip_ops (net_ip t) = ip_ops (net_ip u) @ [Netif_output 0 q IP_ADDR_BROADCAST, Free_chain [b]]"
      and early: "\<forall>j < unat wait. \<exists>v w. fine_runs app j u = Some v \<and> searching app made w v" by blast
    have "\<exists>v. fine_runs app j s = Some v \<and> tries v 0 \<le> MAX_DHCP_TRIES \<and> dstate (dhcps v 0) = DHCP_SELECTING" if j: "j < k + unat wait" for j
    proof (cases "j < k")
      case False
      then have "j - k < unat wait" using j by simp
      with early obtain v w where "fine_runs app (j - k) u = Some v" "searching app made w v" by blast
      then show ?thesis using fine_runs_add [of app k "j - k" s] u(1,4) False by (intro exI [of _ v]) (simp add: searching_def)
    qed (use u(5) in blast)
    then show ?thesis using t u(1) by (simp add: fine_runs_add discovers_def)
  qed
  have w: "fine_ticks (doubling_msecs 2) = 8" "fine_ticks (doubling_msecs 3) = 16" "fine_ticks (doubling_msecs 4) = 32"
    by (simp_all add: fine_ticks_def doubling_msecs_def DHCP_FINE_TIMER_MSECS_def)
  have m: "1 \<le> MAX_DHCP_TRIES" "2 \<le> MAX_DHCP_TRIES" "3 \<le> MAX_DHCP_TRIES" "4 \<le> MAX_DHCP_TRIES" "5 > MAX_DHCP_TRIES"
    by (simp_all add: MAX_DHCP_TRIES_def word_le_nat_alt word_less_nat_alt)
  from step [of 0 s 1 4] assms(2) m(1) obtain a where a: "fine_runs app 4 s = Some a" "searching app 2 8 a"
    "discovers (net_ip a) = Suc (discovers (net_ip s))" "?few 4" by (auto simp: w)
  from step [OF a(1,2) _ m(2) a(4)] obtain b where b: "fine_runs app 12 s = Some b" "searching app 3 16 b"
    "discovers (net_ip b) = Suc (discovers (net_ip a))" "?few 12" by (auto simp: w)
  from step [OF b(1,2) _ m(3) b(4)] obtain c where c: "fine_runs app 28 s = Some c" "searching app 4 32 c"
    "discovers (net_ip c) = Suc (discovers (net_ip b))" "?few 28" by (auto simp: w)
  from step [OF c(1,2) _ m(4) c(4)] obtain d x where d: "fine_runs app 60 s = Some d" "searching app 5 x d"
    "discovers (net_ip d) = Suc (discovers (net_ip c))" "?few 60" by auto
  have "tries d 0 > MAX_DHCP_TRIES" using d(2) m(5) by (simp add: searching_def)
  moreover have "discovers (net_ip d) = discovers (net_ip s) + 4" using a(3) b(3) c(3) d(3) by simp
  ultimately show ?thesis using d(1,4) by blast
qed

lemma home_searches: "\<exists>s. dhcp_start 0 home = Some (ERR_OK, s) \<and> searching quiet 1 4 s"
  using home_asks by (auto simp: searching_def)

theorem dhcp_asks_for_ever_witness:
  "\<exists>s k t. dhcp_start 0 home = Some (ERR_OK, s) \<and> fine_runs quiet k s = Some t \<and> discovers (net_ip t) = discovers (net_ip s) + 1000"
proof -
  from home_searches obtain s where s: "dhcp_start 0 home = Some (ERR_OK, s)" "searching quiet 1 4 s" by blast
  from dhcp_asks_for_ever [OF quiet_polite s(2), of 1000] s(1) show ?thesis by auto
qed

theorem dhcp_gives_up_witness:
  "\<exists>s t. dhcp_start 0 home = Some (ERR_OK, s) \<and> fine_runs quiet 60 s = Some t \<and> tries t 0 > MAX_DHCP_TRIES"
proof -
  from home_searches obtain s where s: "dhcp_start 0 home = Some (ERR_OK, s)" "searching quiet 1 4 s" by blast
  from dhcp_gives_up [OF quiet_polite s(2)] s(1) show ?thesis by blast
qed

section \<open>Where the client goes wrong\<close>

text \<open>An offer without the server's identifier stops the request timer, and nothing starts it again: the client searches no more.\<close>

lemma offer_without_server_stalls:
  assumes "ready s n" "allocs (net_ip s) = []" "dstate (dhcps s n) = DHCP_SELECTING"
    and r: "reply_for (netif_at s n) (xid (dhcps s n)) yi os p"
    and os: "map_of os DHCP_OPTION_MESSAGE_TYPE = Some (DHCP_OFFER # v)" "map_of os DHCP_OPTION_SERVER_ID = None"
  shows "\<exists>t. dhcp_recv app n p s = Some t \<and> dstate (dhcps t n) = DHCP_SELECTING \<and> request_timeout (dhcps t n) = 0 \<and> fine_step app n t = Some t"
proof -
  let ?w = "set_dhcp n (unfolded_reply p \<circ> dhcp_free_reply) s"
  have m: "dhcp_recv app n p s = map_option (reply_done n p) (dhcp_dispatch app n DHCP_OFFER ?w)"
    by (rule recv_message [OF r ready_client(1) [OF assms(1)] assms(2) os(1)])
  have "has_options os (dhcps (stop_request_timer n ?w) n)" using unfolded_options(1) [OF r] by (simp add: stop_request_timer_def)
  then have "long_option (dhcps (stop_request_timer n ?w) n) DHCP_OPTION_SERVER_ID = Some None"
    using long_option_found os(2) by fastforce
  then have "dhcp_dispatch app n DHCP_OFFER ?w = Some (stop_request_timer n ?w)"
    using assms(3) by (simp add: dhcp_dispatch_def Let_def DHCP_OFFER_def DHCP_ACK_def DHCP_NAK_def dhcp_handle_offer_def)
  then show ?thesis using m assms(3)
    by (intro exI [of _ "reply_done n p (stop_request_timer n ?w)"]) (simp add: done_client stop_request_timer_def fine_step_def Let_def)
qed

text \<open>A RELEASE is sent when the server's address has been cleared: it goes to 0.0.0.0.\<close>

lemma release_goes_nowhere:
  assumes "ready s n" "allocs (net_ip s) = []" "dhcp_release app n s = Some (e, t)"
  shows "\<exists>u q b. e = ERR_OK \<and> without_address app n u = Some t
    \<and> ip_ops (net_ip u) = ip_ops (net_ip s) @ [Netif_output n q 0, Free_chain [b]]"
proof -
  let ?s0 = "set_dhcp n no_offer (dhcp_set_state n DHCP_OFF s)"
  from release_result [OF assms(1) refl, of app] obtain e' u where u:
    "dhcp_release app n s = map_option (Pair e') (without_address app n (wait_more n rebind_msecs u))" "asks n 0 release_bytes ?s0 e' u" by blast
  have "allocs (net_ip ?s0) = []" "ip_ops (net_ip ?s0) = ip_ops (net_ip s)" using assms(2) by (simp_all add: dhcp_set_state_def set_client_def)
  then have a: "e' = ERR_OK" "\<exists>q b. ip_ops (net_ip u) = ip_ops (net_ip s) @ [Netif_output n q 0, Free_chain [b]]"
    using asks_ok [OF u(2)] by (auto simp: asked_def)
  moreover have "ip_ops (net_ip (wait_more n rebind_msecs u)) = ip_ops (net_ip u)"
    by (simp add: wait_more_def set_request_timeout_def one_more_try_def set_client_def)
  ultimately show ?thesis using assms(3) u(1) by auto
qed

text \<open>The sum for the rounding wraps for leases near the largest one, and after 256 tries a renewal waits for nothing more.\<close>

lemma long_lease_wraps: "coarse_ticks 0xfffffff0 = 1"
  by (simp add: coarse_ticks_def DHCP_COARSE_TIMER_SECS_def Let_def)

lemma renewing_stops: "fine_ticks (renew_msecs 0) = 0"
  by (simp add: fine_ticks_def renew_msecs_def DHCP_FINE_TIMER_MSECS_def)

text \<open>A timer of the lease that is not set counts on below zero, and goes off 65536 minutes later.\<close>

lemma unset_timer_counts:
  assumes "has_client s n" "t1_timeout (dhcps s n) = 0" "t2_timeout (dhcps s n) = 0"
  shows "\<exists>t. coarse_step n s = Some t \<and> t1_timeout (dhcps t n) = 65535 \<and> t2_timeout (dhcps t n) = 65535"
  using assms by (simp add: coarse_step_def Let_def)

end
