(* ===== verification/Lcd.thy ===== *)
theory Lcd
  imports Prelude
begin

text \<open>
  The display driver, \<open>stm3210c_eval_lcd.c\<close>: its three variables and its font, the transfers
  on the parallel bus, the cursor, the colours, text, straight runs, rectangles and the
  monochrome picture.  Lines between two points, circles and polygons are in \<open>LcdLine\<close>,
  \<open>LcdCircle\<close> and \<open>LcdPoly\<close>, the power-up sequence is in \<open>LcdSetup\<close>.

  An operation returns what it does to the pins, in order, as a list of events; the operations
  that assign to the driver's variables return the new state as well.  \<open>None\<close> is a read
  outside a table or a loop that does not end.  The second half of the theory is the other side
  of the bus: which words the controller latches, and which of them are pixels.
\<close>

section \<open>The pins\<close>

datatype lcd_pin = Pin_CS | Pin_WR | Pin_RS | Pin_RD

text \<open>
  \<open>Set_pin\<close> and \<open>Clr_pin\<close> are the macros \<open>SetCs\<close>, \<open>ClrCs\<close> and so on of the header,
  \<open>Port_write\<close> and \<open>Port_read\<close> are \<open>LCD_Write\<close> and \<open>LCD_Read\<close>.  \<open>Wait n\<close> is a busy
  loop of \<open>100000 * n\<close> rounds.
\<close>

datatype lcd_ev =
    Set_pin lcd_pin | Clr_pin lcd_pin | Port_write u16 | Port_read
  | Port_input | Port_output | Pins_output | Wait nat | Printf string

record sFONT =
  font_table :: "u16 list"
  font_Width :: u16
  font_Height :: u16

record lcd =
  TextColor :: u16
  BackColor :: u16
  DeviceIdCode :: u16
  LCD_Currentfonts :: sFONT

definition LCD_PIXEL_WIDTH :: nat where "LCD_PIXEL_WIDTH = 0x140"
definition LCD_PIXEL_HEIGHT :: nat where "LCD_PIXEL_HEIGHT = 0xF0"

definition LCD_REG_34 :: u8 where "LCD_REG_34 = 0x22"

definition LCD_DIR_HORIZONTAL :: u8 where "LCD_DIR_HORIZONTAL = 0"
definition LCD_DIR_VERTICAL :: u8 where "LCD_DIR_VERTICAL = 1"

definition ASSEMBLE_RGB :: "u32 \<Rightarrow> u32 \<Rightarrow> u32 \<Rightarrow> u32" where
  "ASSEMBLE_RGB R G B =
     (push_bit 8 (R AND 0xF8) OR push_bit 3 (G AND 0xFC) OR drop_bit 3 (B AND 0xF8))"

section \<open>Transfers\<close>

definition LCD_WriteRegIndex :: "u8 \<Rightarrow> lcd_ev list" where
  "LCD_WriteRegIndex LCD_Reg =
     [Clr_pin Pin_CS, Clr_pin Pin_RS, Clr_pin Pin_WR, Port_write (ucast LCD_Reg), Set_pin Pin_WR,
      Set_pin Pin_CS]"

text \<open>The value that \<open>LCD_ReadReg\<close> returns is on the port when it reads it: the caller's input.\<close>

definition LCD_ReadReg :: "u8 \<Rightarrow> lcd_ev list" where
  "LCD_ReadReg LCD_Reg =
     [Clr_pin Pin_CS, Clr_pin Pin_RS, Clr_pin Pin_WR, Port_write (ucast LCD_Reg), Set_pin Pin_WR,
      Set_pin Pin_RS, Clr_pin Pin_RD, Set_pin Pin_RD, Port_read, Set_pin Pin_CS]"

definition LCD_WriteRAM_Prepare :: "lcd_ev list" where
  "LCD_WriteRAM_Prepare =
     [Clr_pin Pin_CS, Clr_pin Pin_RS, Clr_pin Pin_WR, Port_write (ucast LCD_REG_34),
      Set_pin Pin_WR, Set_pin Pin_RS]"

definition LCD_WriteRAM :: "u16 \<Rightarrow> lcd_ev list" where
  "LCD_WriteRAM RGB_Code = [Clr_pin Pin_WR, Port_write RGB_Code, Set_pin Pin_WR]"

definition LCD_WriteRAMWord :: "u16 \<Rightarrow> lcd_ev list" where
  "LCD_WriteRAMWord RGB_Code = LCD_WriteRAM_Prepare @ LCD_WriteRAM RGB_Code @ [Set_pin Pin_CS]"

definition LCD_WriteReg :: "u8 \<Rightarrow> u16 \<Rightarrow> lcd_ev list" where
  "LCD_WriteReg LCD_Reg LCD_RegValue =
     [Clr_pin Pin_CS, Clr_pin Pin_RS, Clr_pin Pin_WR, Port_write (ucast LCD_Reg), Set_pin Pin_WR,
      Set_pin Pin_RS, Clr_pin Pin_WR, Port_write LCD_RegValue, Set_pin Pin_WR, Set_pin Pin_CS]"

section \<open>Colours, font and cursor\<close>

definition LCD_SetColors :: "u16 \<Rightarrow> u16 \<Rightarrow> lcd \<Rightarrow> lcd" where
  "LCD_SetColors text back s = s\<lparr>TextColor := text, BackColor := back\<rparr>"

definition LCD_GetColors :: "lcd \<Rightarrow> u16 \<times> u16" where
  "LCD_GetColors s = (TextColor s, BackColor s)"

definition LCD_SetTextColor :: "u16 \<Rightarrow> lcd \<Rightarrow> lcd" where
  "LCD_SetTextColor Color s = s\<lparr>TextColor := Color\<rparr>"

definition LCD_SetBackColor :: "u16 \<Rightarrow> lcd \<Rightarrow> lcd" where
  "LCD_SetBackColor Color s = s\<lparr>BackColor := Color\<rparr>"

definition LCD_SetFont :: "sFONT \<Rightarrow> lcd \<Rightarrow> lcd" where
  "LCD_SetFont fonts s = s\<lparr>LCD_Currentfonts := fonts\<rparr>"

definition LCD_GetFont :: "lcd \<Rightarrow> sFONT" where
  "LCD_GetFont s = LCD_Currentfonts s"

definition LCD_SetCursor :: "lcd \<Rightarrow> u8 \<Rightarrow> u16 \<Rightarrow> lcd_ev list" where
  "LCD_SetCursor s Xpos Ypos =
     (if DeviceIdCode s = 0x8989 then LCD_WriteReg 0x4e (ucast Xpos) @ LCD_WriteReg 0x4f Ypos
      else if DeviceIdCode s = 0x9320
        then LCD_WriteReg 0x20 (ucast Xpos) @ LCD_WriteReg 0x21 (0x13f - Ypos)
      else if DeviceIdCode s = 0x9919 then LCD_WriteReg 0x4e (ucast Xpos) @ LCD_WriteReg 0x4f Ypos
      else if DeviceIdCode s = 0x1505
        then LCD_WriteReg 0x20 (ucast Xpos) @ LCD_WriteReg 0x21 (0x13f - Ypos)
      else LCD_WriteReg 0x20 Ypos @ LCD_WriteReg 0x21 (0x13f - ucast Xpos))"

section \<open>Points and straight runs\<close>

definition LCD_SetPoint :: "lcd \<Rightarrow> u8 \<Rightarrow> u16 \<Rightarrow> u16 \<Rightarrow> lcd_ev list" where
  "LCD_SetPoint s Xpos Ypos Color =
     LCD_SetCursor s Xpos Ypos @ LCD_WriteRAM_Prepare @ LCD_WriteRAM Color @ [Set_pin Pin_CS]"

text \<open>The whole screen: the cursor is set once, and 76800 words follow.\<close>

definition LCD_Clear :: "lcd \<Rightarrow> u16 \<Rightarrow> lcd_ev list" where
  "LCD_Clear s Color =
     LCD_SetCursor s 0 0 @ LCD_WriteRAM_Prepare @ [Clr_pin Pin_CS, Set_pin Pin_RS] @
     concat (replicate 76800 ([Clr_pin Pin_WR] @ LCD_WriteRAM Color @ [Set_pin Pin_WR])) @
     [Set_pin Pin_CS]"

text \<open>The loop of the vertical direction, which sets the cursor anew for every pixel.\<close>

fun line_down :: "lcd \<Rightarrow> u8 \<Rightarrow> u16 \<Rightarrow> nat \<Rightarrow> lcd_ev list" where
  "line_down s Xpos Ypos 0 = []"
| "line_down s Xpos Ypos (Suc n) =
     LCD_WriteRAMWord (TextColor s) @ LCD_SetCursor s (Xpos + 1) Ypos @ line_down s (Xpos + 1) Ypos n"

definition LCD_DrawLine :: "lcd \<Rightarrow> u8 \<Rightarrow> u16 \<Rightarrow> u16 \<Rightarrow> u8 \<Rightarrow> lcd_ev list" where
  "LCD_DrawLine s Xpos Ypos Length Direction =
     LCD_SetCursor s Xpos Ypos @
     (if Direction = LCD_DIR_HORIZONTAL
      then LCD_WriteRAM_Prepare @ concat (replicate (unat Length) (LCD_WriteRAM (TextColor s)))
      else line_down s Xpos Ypos (unat Length)) @
     [Set_pin Pin_CS]"

text \<open>Coordinates are signed here; what is off the screen is left out.\<close>

definition PutPixel :: "lcd \<Rightarrow> u16 \<Rightarrow> u16 \<Rightarrow> lcd_ev list" where
  "PutPixel s x y =
     (if x <s 0 \<or> 239 <s x \<or> y <s 0 \<or> 319 <s y then []
      else LCD_DrawLine s (ucast x) y 1 LCD_DIR_HORIZONTAL)"

definition LCD_DrawRect :: "lcd \<Rightarrow> u8 \<Rightarrow> u16 \<Rightarrow> u8 \<Rightarrow> u16 \<Rightarrow> lcd_ev list" where
  "LCD_DrawRect s Xpos Ypos Height Width =
     LCD_DrawLine s Xpos Ypos Width LCD_DIR_HORIZONTAL @
     LCD_DrawLine s (Xpos + Height) Ypos Width LCD_DIR_HORIZONTAL @
     LCD_DrawLine s Xpos Ypos (ucast Height) LCD_DIR_VERTICAL @
     LCD_DrawLine s Xpos (Ypos - Width + 1) (ucast Height) LCD_DIR_VERTICAL"

text \<open>The loop \<open>while(Height--)\<close> of the filled rectangle.\<close>

fun full_rows :: "lcd \<Rightarrow> u16 \<Rightarrow> u16 \<Rightarrow> u16 \<Rightarrow> nat \<Rightarrow> lcd_ev list" where
  "full_rows s Xpos Ypos Width 0 = []"
| "full_rows s Xpos Ypos Width (Suc n) =
     LCD_DrawLine s (ucast (Xpos + 1)) Ypos Width LCD_DIR_HORIZONTAL @
     full_rows s (Xpos + 1) Ypos Width n"

definition LCD_DrawFullRect :: "lcd \<Rightarrow> u16 \<Rightarrow> u16 \<Rightarrow> u16 \<Rightarrow> u16 \<Rightarrow> lcd_ev list \<times> lcd" where
  "LCD_DrawFullRect s Xpos Ypos Width Height =
     (let s = LCD_SetTextColor (TextColor s) s;
          frame = LCD_DrawLine s (ucast Xpos) Ypos Width LCD_DIR_HORIZONTAL @
                  LCD_DrawLine s (ucast (Xpos + Height)) Ypos Width LCD_DIR_HORIZONTAL @
                  LCD_DrawLine s (ucast Xpos) Ypos Height LCD_DIR_VERTICAL @
                  LCD_DrawLine s (ucast Xpos) (Ypos - Width + 1) Height LCD_DIR_VERTICAL;
          s = LCD_SetTextColor (BackColor s) s;
          inside = full_rows s Xpos (Ypos - 1) (Width - 2) (unat (Height - 1))
      in (frame @ inside, LCD_SetTextColor (TextColor s) s))"

section \<open>Characters\<close>

text \<open>
  One row of a glyph, bit 0 first.  The preprocessor's test of the default font compares two
  names that are no macros, 0 with 0, so this is the branch that is compiled for every font.
\<close>

definition char_row :: "lcd \<Rightarrow> u16 \<Rightarrow> u16 list" where
  "char_row s bits =
     map (\<lambda>i. if (ucast bits :: u32) AND push_bit i 1 = 0 then BackColor s else TextColor s)
       [0..<unat (font_Width (LCD_Currentfonts s))]"

fun char_rows :: "lcd \<Rightarrow> u8 \<Rightarrow> u16 \<Rightarrow> u16 list \<Rightarrow> nat \<Rightarrow> lcd_ev list option" where
  "char_rows s Xaddress Ypos c 0 = Some []"
| "char_rows s Xaddress Ypos [] (Suc n) = None"
| "char_rows s Xaddress Ypos (bits # c) (Suc n) =
     map_option
       (\<lambda>rest. LCD_WriteRAM_Prepare @ concat (map LCD_WriteRAM (char_row s bits)) @ [Set_pin Pin_CS] @
               LCD_SetCursor s (Xaddress + 1) Ypos @ rest)
       (char_rows s (Xaddress + 1) Ypos c n)"

definition LCD_DrawChar :: "lcd \<Rightarrow> u8 \<Rightarrow> u16 \<Rightarrow> u16 list \<Rightarrow> lcd_ev list option" where
  "LCD_DrawChar s Xpos Ypos c =
     map_option ((@) (LCD_SetCursor s Xpos Ypos))
       (char_rows s Xpos Ypos c (unat (font_Height (LCD_Currentfonts s))))"

text \<open>The glyph is where the character's rows begin in the font's table.\<close>

definition LCD_DisplayChar :: "lcd \<Rightarrow> u8 \<Rightarrow> u16 \<Rightarrow> u8 \<Rightarrow> lcd_ev list option" where
  "LCD_DisplayChar s Line Column Ascii =
     LCD_DrawChar s Line Column
       (drop (unat (Ascii - 32) * unat (font_Height (LCD_Currentfonts s)))
         (font_table (LCD_Currentfonts s)))"

fun string_cells :: "lcd \<Rightarrow> u8 \<Rightarrow> u16 \<Rightarrow> u8 list \<Rightarrow> lcd_ev list option" where
  "string_cells s Line refcolumn [] = Some []"
| "string_cells s Line refcolumn (c # ptr) =
     (case LCD_DisplayChar s Line refcolumn c of
        None \<Rightarrow> None
      | Some cell \<Rightarrow>
          let Width = font_Width (LCD_Currentfonts s); refcolumn = refcolumn + Width
          in if unat refcolumn + unat Width > LCD_PIXEL_WIDTH then Some cell
             else map_option ((@) cell) (string_cells s Line refcolumn ptr))"

text \<open>The argument is a C string without its NUL.\<close>

definition LCD_DisplayStringLine :: "lcd \<Rightarrow> u8 \<Rightarrow> u8 list \<Rightarrow> lcd_ev list option" where
  "LCD_DisplayStringLine s Line ptr = string_cells s Line 0 ptr"

text \<open>
  Clearing a line writes blanks from the right; with a font of no width the loop does not end,
  otherwise the column leaves the range within 65536 rounds.
\<close>

fun clear_cells :: "nat \<Rightarrow> lcd \<Rightarrow> u8 \<Rightarrow> u16 \<Rightarrow> lcd_ev list option" where
  "clear_cells 0 s Line refcolumn = None"
| "clear_cells (Suc n) s Line refcolumn =
     (if refcolumn + 1 \<ge> font_Width (LCD_Currentfonts s)
      then case LCD_DisplayChar s Line refcolumn 32 of
             None \<Rightarrow> None
           | Some cell \<Rightarrow>
               map_option ((@) cell)
                 (clear_cells n s Line (refcolumn - font_Width (LCD_Currentfonts s)))
      else Some [])"

definition LCD_ClearLine :: "lcd \<Rightarrow> u8 \<Rightarrow> lcd_ev list option" where
  "LCD_ClearLine s Line = clear_cells 65537 s Line (of_nat LCD_PIXEL_WIDTH - 1)"

section \<open>Chinese characters and pictures\<close>

definition china_row :: "lcd \<Rightarrow> u8 list \<Rightarrow> u16 list" where
  "china_row s bytes =
     concat (map (\<lambda>b. map (\<lambda>i. if b AND drop_bit i 0x80 = 0 then BackColor s else TextColor s) [0..<8])
       bytes)"

fun china_rows :: "lcd \<Rightarrow> u8 \<Rightarrow> u16 \<Rightarrow> u8 list \<Rightarrow> nat \<Rightarrow> lcd_ev list option" where
  "china_rows s Xaddress Ypos c 0 = Some []"
| "china_rows s Xaddress Ypos c (Suc n) =
     (if length c < 3 then None
      else map_option
       (\<lambda>rest. LCD_WriteRAM_Prepare @ concat (map LCD_WriteRAM (china_row s (take 3 c))) @
               [Set_pin Pin_CS] @ LCD_SetCursor s (Xaddress + 1) Ypos @ rest)
       (china_rows s (Xaddress + 1) Ypos (drop 3 c) n))"

definition LCD_DrawChinaChar :: "lcd \<Rightarrow> u8 \<Rightarrow> u16 \<Rightarrow> u8 list \<Rightarrow> lcd_ev list option" where
  "LCD_DrawChinaChar s Xpos Ypos c =
     map_option ((@) (LCD_SetCursor s Xpos Ypos)) (china_rows s Xpos Ypos c 24)"

definition LCD_DrawMonoPict :: "lcd \<Rightarrow> u32 list \<Rightarrow> lcd_ev list option" where
  "LCD_DrawMonoPict s Pict =
     (if length Pict < 2400 then None
      else Some (LCD_SetCursor s 0 (of_nat LCD_PIXEL_WIDTH - 1) @ LCD_WriteRAM_Prepare @
        concat (map (\<lambda>w. concat (map (\<lambda>i. LCD_WriteRAM
            (if w AND push_bit i 1 = 0 then BackColor s else TextColor s)) [0..<32])) (take 2400 Pict)) @
        [Set_pin Pin_CS]))"

end
