(* ===== verification/LcdPanel.thy ===== *)
theory LcdPanel
  imports Lcd
begin

text \<open>
  What the driver's events write to the controller.  The controllers have the parallel interface of
  their data sheets: while CS is low, the rising edge of WR latches the port, as the number of a
  register when RS is low, as that register's value when it is high.  Values for register 0x22
  are pixels.  A pixel is recorded with the cursor that was set last, the number of pixels
  written since, and its colour; the order of the screen's addresses is the controller's.
  The window the controller may have been given for them (its registers 0x50 to 0x53) is not interpreted: that a place is inside
  it is a statement about the cursor, which \<open>LcdSetup\<close> makes where the window is known.

  The lemmas reduce each drawing operation of \<open>Lcd\<close> to the pixels it makes.
\<close>

section \<open>The bus seen from the controller\<close>

type_synonym mark = "(u16 \<times> u16) \<times> nat \<times> u16"

record panel =
  cs_high :: bool
  wr_high :: bool
  rs_high :: bool
  port_val :: u16
  reg_index :: u16
  cursor_a :: u16
  cursor_b :: u16
  run_pos :: nat
  marks :: "mark list"

text \<open>The registers of the cursor depend on the controller.\<close>

definition cursor_regs :: "u16 \<Rightarrow> u16 \<times> u16" where
  "cursor_regs dev = (if dev = 0x8989 \<or> dev = 0x9919 then (0x4e, 0x4f) else (0x20, 0x21))"

definition latch :: "u16 \<times> u16 \<Rightarrow> panel \<Rightarrow> panel" where
  "latch regs p =
     (if \<not> rs_high p then p\<lparr>reg_index := port_val p\<rparr>
      else if reg_index p = ucast LCD_REG_34
        then p\<lparr>marks := marks p @ [((cursor_a p, cursor_b p), run_pos p, port_val p)],
               run_pos := Suc (run_pos p)\<rparr>
      else if reg_index p = fst regs then p\<lparr>cursor_a := port_val p, run_pos := 0\<rparr>
      else if reg_index p = snd regs then p\<lparr>cursor_b := port_val p, run_pos := 0\<rparr>
      else p)"

fun panel_step :: "u16 \<times> u16 \<Rightarrow> lcd_ev \<Rightarrow> panel \<Rightarrow> panel" where
  "panel_step regs (Clr_pin Pin_CS) p = p\<lparr>cs_high := False\<rparr>"
| "panel_step regs (Set_pin Pin_CS) p = p\<lparr>cs_high := True\<rparr>"
| "panel_step regs (Clr_pin Pin_RS) p = p\<lparr>rs_high := False\<rparr>"
| "panel_step regs (Set_pin Pin_RS) p = p\<lparr>rs_high := True\<rparr>"
| "panel_step regs (Clr_pin Pin_WR) p = p\<lparr>wr_high := False\<rparr>"
| "panel_step regs (Set_pin Pin_WR) p =
     (if \<not> wr_high p \<and> \<not> cs_high p then latch regs p else p)\<lparr>wr_high := True\<rparr>"
| "panel_step regs (Port_write w) p = p\<lparr>port_val := w\<rparr>"
| "panel_step regs _ p = p"

definition panel_run :: "u16 \<times> u16 \<Rightarrow> lcd_ev list \<Rightarrow> panel \<Rightarrow> panel" where
  "panel_run regs evs p = fold (panel_step regs) evs p"

lemma panel_run_Nil [simp]: "panel_run regs [] p = p"
  by (simp add: panel_run_def)

lemma panel_run_Cons: "panel_run regs (e # evs) p = panel_run regs evs (panel_step regs e p)"
  by (simp add: panel_run_def)

lemma panel_run_append [simp]:
  "panel_run regs (evs @ evs') p = panel_run regs evs' (panel_run regs evs p)"
  by (simp add: panel_run_def)

definition idle :: "panel \<Rightarrow> bool" where
  "idle p \<longleftrightarrow> cs_high p \<and> wr_high p"

text \<open>Ready for pixels: between \<open>LCD_WriteRAM_Prepare\<close> and the rise of CS.\<close>

definition open_ram :: "panel \<Rightarrow> bool" where
  "open_ram p \<longleftrightarrow> \<not> cs_high p \<and> wr_high p \<and> rs_high p \<and> reg_index p = ucast LCD_REG_34"

text \<open>From idle back to idle, with exactly these pixels.\<close>

definition paints :: "u16 \<Rightarrow> lcd_ev list \<Rightarrow> mark list \<Rightarrow> bool" where
  "paints dev evs ms \<longleftrightarrow> (\<forall>p. idle p \<longrightarrow>
     idle (panel_run (cursor_regs dev) evs p) \<and>
     marks (panel_run (cursor_regs dev) evs p) = marks p @ ms)"

lemma paints_Nil [simp]: "paints dev [] []"
  by (simp add: paints_def)

lemma paints_append: "paints dev e1 m1 \<Longrightarrow> paints dev e2 m2 \<Longrightarrow> paints dev (e1 @ e2) (m1 @ m2)"
  by (simp add: paints_def)

text \<open>
  The interface of whoever draws point by point: what each point does, and that the effects
  follow one another.
\<close>

locale plotter =
  fixes plot :: "'p \<Rightarrow> 'e list"
    and dots :: "'p \<Rightarrow> 'm list"
    and effect :: "'e list \<Rightarrow> 'm list \<Rightarrow> bool"
  assumes effect_Nil: "effect [] []"
    and effect_append: "effect e1 m1 \<Longrightarrow> effect e2 m2 \<Longrightarrow> effect (e1 @ e2) (m1 @ m2)"
    and effect_plot: "effect (plot q) (dots q)"
begin

lemma plot_all: "effect (concat (map plot ps)) (concat (map dots ps))"
  by (induction ps) (auto intro: effect_Nil effect_append effect_plot)

lemma plot_twice:
  "effect (concat (map plot ps) @ concat (map plot qs)) (concat (map dots (ps @ qs)))"
  using effect_append [OF plot_all plot_all] by simp

end

section \<open>Transfers\<close>

lemmas bus_simps = panel_run_Cons latch_def idle_def open_ram_def LCD_REG_34_def

definition cursor_at :: "u16 \<Rightarrow> u8 \<Rightarrow> u16 \<Rightarrow> u16 \<times> u16" where
  "cursor_at dev Xpos Ypos =
     (if dev = 0x8989 \<or> dev = 0x9919 then (ucast Xpos, Ypos)
      else if dev = 0x9320 \<or> dev = 0x1505 then (ucast Xpos, 0x13f - Ypos)
      else (Ypos, 0x13f - ucast Xpos))"

text \<open>On the screen, different places are different cursors.\<close>

lemma cursor_at_inject:
  "cursor_at dev x y = cursor_at dev x' y' \<longleftrightarrow> x = x' \<and> y = y'"
proof -
  have "(ucast x :: u16) = ucast x' \<longleftrightarrow> x = x'"
    by (metis unat_ucast_u8_u16 word_unat_eq_iff)
  then show ?thesis by (auto simp: cursor_at_def)
qed

lemma SetCursor_panel:
  fixes s :: lcd and x :: u8 and y :: u16
  assumes "idle p"
  defines "q \<equiv> panel_run (cursor_regs (DeviceIdCode s)) (LCD_SetCursor s x y) p"
  shows "idle q" and "marks q = marks p"
    and "(cursor_a q, cursor_b q) = cursor_at (DeviceIdCode s) x y" and "run_pos q = 0"
  using assms
  by (auto simp: q_def LCD_SetCursor_def LCD_WriteReg_def bus_simps cursor_regs_def cursor_at_def)

lemma Prepare_panel:
  fixes regs :: "u16 \<times> u16"
  assumes "idle p"
  defines "q \<equiv> panel_run regs LCD_WriteRAM_Prepare p"
  shows "open_ram q" and "marks q = marks p" and "cursor_a q = cursor_a p"
    and "cursor_b q = cursor_b p" and "run_pos q = run_pos p"
  using assms by (simp_all add: q_def LCD_WriteRAM_Prepare_def bus_simps)

lemma WriteRAM_panel:
  fixes regs :: "u16 \<times> u16" and c :: u16
  assumes "open_ram p"
  defines "q \<equiv> panel_run regs (LCD_WriteRAM c) p"
  shows "open_ram q" and "marks q = marks p @ [((cursor_a p, cursor_b p), run_pos p, c)]"
    and "cursor_a q = cursor_a p" and "cursor_b q = cursor_b p" and "run_pos q = Suc (run_pos p)"
  using assms by (simp_all add: q_def LCD_WriteRAM_def bus_simps)

definition run_marks :: "u16 \<times> u16 \<Rightarrow> nat \<Rightarrow> u16 list \<Rightarrow> mark list" where
  "run_marks ab n cs = map (\<lambda>(k, c). (ab, k, c)) (enumerate n cs)"

lemma run_marks_simps [simp]:
  "run_marks ab n [] = []" "run_marks ab n (c # cs) = (ab, n, c) # run_marks ab (Suc n) cs"
  by (simp_all add: run_marks_def)

lemma length_run_marks [simp]: "length (run_marks ab n cs) = length cs"
  by (simp add: run_marks_def)

lemma WriteRAMs_panel:
  fixes regs :: "u16 \<times> u16" and cs :: "u16 list"
  assumes "open_ram p"
  defines "q \<equiv> panel_run regs (concat (map LCD_WriteRAM cs)) p"
  shows "open_ram q \<and> marks q = marks p @ run_marks (cursor_a p, cursor_b p) (run_pos p) cs"
  using assms(1) unfolding q_def
proof (induction cs arbitrary: p)
  case (Cons c cs)
  note w = WriteRAM_panel [OF Cons.prems, of regs c]
  show ?case using Cons.IH [OF w(1)] w by simp
qed simp

text \<open>A run: the cursor, then words, then the rise of CS.\<close>

definition lcd_run :: "lcd \<Rightarrow> u8 \<Rightarrow> u16 \<Rightarrow> u16 list \<Rightarrow> lcd_ev list" where
  "lcd_run s x y cs =
     LCD_SetCursor s x y @ LCD_WriteRAM_Prepare @ concat (map LCD_WriteRAM cs) @ [Set_pin Pin_CS]"

lemma CS_panel:
  "open_ram p \<Longrightarrow> idle (panel_run regs [Set_pin Pin_CS] p) \<and>
     marks (panel_run regs [Set_pin Pin_CS] p) = marks p"
  by (simp add: bus_simps)

lemma paints_run:
  "paints (DeviceIdCode s) (lcd_run s x y cs) (run_marks (cursor_at (DeviceIdCode s) x y) 0 cs)"
  unfolding paints_def
proof (intro allI impI)
  fix p assume p: "idle p"
  let ?r = "cursor_regs (DeviceIdCode s)"
  let ?q = "panel_run ?r LCD_WriteRAM_Prepare (panel_run ?r (LCD_SetCursor s x y) p)"
  note c = SetCursor_panel [OF p, of s x y]
  note q = Prepare_panel [OF c(1), of ?r]
  have "marks ?q = marks p" and ab: "(cursor_a ?q, cursor_b ?q) = cursor_at (DeviceIdCode s) x y"
    and "run_pos ?q = 0"
    using c q by simp_all
  then show "idle (panel_run ?r (lcd_run s x y cs) p) \<and>
      marks (panel_run ?r (lcd_run s x y cs) p) = marks p @ run_marks (cursor_at (DeviceIdCode s) x y) 0 cs"
    using WriteRAMs_panel [OF q(1), of ?r cs] CS_panel [of _ ?r] by (simp add: lcd_run_def)
qed

lemma paints_cursor: "paints (DeviceIdCode s) (LCD_SetCursor s x y) []"
  using SetCursor_panel(1,2) by (simp add: paints_def)

lemma paints_CS: "paints dev [Set_pin Pin_CS] []"
  by (simp add: paints_def idle_def panel_run_Cons)

section \<open>Points, runs and rectangles\<close>

definition dot :: "lcd \<Rightarrow> u16 \<Rightarrow> u8 \<times> u16 \<Rightarrow> mark" where
  "dot s c q = (cursor_at (DeviceIdCode s) (fst q) (snd q), 0, c)"

lemma SetPoint_run: "LCD_SetPoint s x y c = lcd_run s x y [c]"
  by (simp add: LCD_SetPoint_def lcd_run_def)

lemma paints_SetPoint: "paints (DeviceIdCode s) (LCD_SetPoint s x y c) [dot s c (x, y)]"
  using paints_run [of s x y "[c]"] by (simp add: SetPoint_run dot_def)

lemma WriteRAMWord_run: "LCD_SetCursor s x y @ LCD_WriteRAMWord c = lcd_run s x y [c]"
  by (simp add: LCD_WriteRAMWord_def lcd_run_def)

lemma DrawLine_across:
  "LCD_DrawLine s x y len LCD_DIR_HORIZONTAL = lcd_run s x y (replicate (unat len) (TextColor s))"
  by (simp add: LCD_DrawLine_def lcd_run_def)

definition down_dots :: "u8 \<Rightarrow> u16 \<Rightarrow> nat \<Rightarrow> (u8 \<times> u16) list" where
  "down_dots x y n = map (\<lambda>k. (x + of_nat k, y)) [0..<n]"

lemma down_dots_Suc: "down_dots x y (Suc n) = (x, y) # down_dots (x + 1) y n"
proof -
  have "[0..<Suc n] = 0 # map Suc [0..<n]"
    by (metis map_Suc_upt upt_conv_Cons zero_less_Suc)
  then show ?thesis by (simp add: down_dots_def add.assoc del: upt_Suc)
qed

lemma line_down_dots:
  "paints (DeviceIdCode s) (LCD_SetCursor s x y @ line_down s x y n)
     (map (dot s (TextColor s)) (down_dots x y n))"
proof (induction n arbitrary: x)
  case 0
  then show ?case using paints_cursor by (simp add: down_dots_def)
next
  case (Suc n)
  have "paints (DeviceIdCode s) (lcd_run s x y [TextColor s]) [dot s (TextColor s) (x, y)]"
    using paints_run [of s x y "[TextColor s]"] by (simp add: dot_def)
  from paints_append [OF this Suc.IH [of "x + 1"]] show ?case
    by (simp add: down_dots_Suc WriteRAMWord_run [symmetric])
qed

lemma paints_DrawLine_down:
  assumes "dir \<noteq> LCD_DIR_HORIZONTAL"
  shows "paints (DeviceIdCode s) (LCD_DrawLine s x y len dir)
           (map (dot s (TextColor s)) (down_dots x y (unat len)))"
  using paints_append [OF line_down_dots paints_CS] assms by (simp add: LCD_DrawLine_def)

lemma paints_DrawLine_across:
  "paints (DeviceIdCode s) (LCD_DrawLine s x y len LCD_DIR_HORIZONTAL)
     (run_marks (cursor_at (DeviceIdCode s) x y) 0 (replicate (unat len) (TextColor s)))"
  by (simp add: DrawLine_across paints_run)

definition on_screen :: "u16 \<Rightarrow> u16 \<Rightarrow> bool" where
  "on_screen x y \<longleftrightarrow> unat x < LCD_PIXEL_HEIGHT \<and> unat y < LCD_PIXEL_WIDTH"

lemma sint_u16: "sint (w :: u16) = (if unat w < 2 ^ 15 then int (unat w) else int (unat w) - 2 ^ 16)"
proof -
  have u: "int (unat w) = uint w" by simp
  have b: "uint w < 2 ^ 16" using uint_bounded [of w] by simp
  have "sint w = signed_take_bit 15 (uint w)" by (simp add: sint_uint)
  also have "\<dots> = (if uint w < 2 ^ 15 then uint w else uint w - 2 ^ 16)"
  proof (cases "uint w < 2 ^ 15")
    case False
    then have "uint w div 2 ^ 15 = 1" using b by simp
    then have "bit (uint w) 15" by (simp add: bit_iff_odd)
    then show ?thesis using False b by (simp add: signed_take_bit_eq_take_bit_minus take_bit_int_eq_self)
  next
    case True
    then have "\<not> bit (uint w) 15" by (simp add: bit_iff_odd)
    then show ?thesis using True b by (simp add: signed_take_bit_eq_take_bit_minus take_bit_int_eq_self)
  qed
  finally have s: "sint w = (if uint w < 2 ^ 15 then uint w else uint w - 2 ^ 16)" .
  have "unat w < 2 ^ 15 \<longleftrightarrow> int (unat w) < int (2 ^ 15)" by (simp only: of_nat_less_iff)
  then have "unat w < 2 ^ 15 \<longleftrightarrow> uint w < 2 ^ 15" unfolding u by simp
  then show ?thesis unfolding u by (simp only: s)
qed

lemma sless_small:
  assumes "b < 32768"
  shows "(of_nat b :: u16) <s x \<longleftrightarrow> b < unat x \<and> unat x < 32768"
    and "x <s (0 :: u16) \<longleftrightarrow> \<not> unat x < 32768"
  using assms unat_less_65536 [of x]
  by (auto simp: word_sless_alt sint_u16 unat_of_nat simp del: of_nat_unat unat_less_65536)

lemma PutPixel_on_screen:
  "PutPixel s x y = (if on_screen x y then LCD_SetPoint s (ucast x) y (TextColor s) else [])"
proof -
  have "(x <s 0 \<or> 239 <s x \<or> y <s 0 \<or> 319 <s y) \<longleftrightarrow> \<not> on_screen x y"
    using sless_small [of 239 x] sless_small [of 319 y]
    by (auto simp: on_screen_def LCD_PIXEL_HEIGHT_def LCD_PIXEL_WIDTH_def)
  then show ?thesis
    by (simp add: PutPixel_def DrawLine_across SetPoint_run)
qed

lemma paints_PutPixel:
  "paints (DeviceIdCode s) (PutPixel s x y)
     (if on_screen x y then [dot s (TextColor s) (ucast x, y)] else [])"
  using paints_SetPoint by (simp add: PutPixel_on_screen)

text \<open>The driver as a plotter: single points, and the guarded points of lines.\<close>

interpretation point_plotter:
  plotter "\<lambda>q. LCD_SetPoint s (fst q) (snd q) c" "\<lambda>q. [dot s c q]" "paints (DeviceIdCode s)"
  for s c
  using paints_SetPoint by unfold_locales (auto intro: paints_append)

interpretation pixel_plotter:
  plotter "\<lambda>q. PutPixel s (fst q) (snd q)"
    "\<lambda>q. if on_screen (fst q) (snd q) then [dot s (TextColor s) (ucast (fst q), snd q)] else []"
    "paints (DeviceIdCode s)"
  for s
  using paints_PutPixel by unfold_locales (auto intro: paints_append simp del: if_split)

text \<open>The whole screen in one colour, from the first cursor.\<close>

lemma clear_word_panel:
  assumes "open_ram p"
  shows "panel_run regs (Clr_pin Pin_WR # LCD_WriteRAM c @ [Set_pin Pin_WR]) p
    = panel_run regs (LCD_WriteRAM c) p"
  using assms by (simp add: LCD_WriteRAM_def bus_simps)

lemma clear_words_panel:
  "open_ram p \<Longrightarrow> panel_run regs (concat (replicate n ([Clr_pin Pin_WR] @ LCD_WriteRAM c @ [Set_pin Pin_WR]))) p
    = panel_run regs (concat (map LCD_WriteRAM (replicate n c))) p"
proof (induction n arbitrary: p)
  case (Suc n)
  then show ?case
    using WriteRAM_panel(1) [OF Suc.prems, of regs c] clear_word_panel [OF Suc.prems, of regs c]
    by (simp add: panel_run_Cons)
qed simp

lemma open_again: "open_ram p \<Longrightarrow> panel_run regs [Clr_pin Pin_CS, Set_pin Pin_RS] p = p"
  by (simp add: bus_simps)

lemma paints_Clear:
  "paints (DeviceIdCode s) (LCD_Clear s c)
     (run_marks (cursor_at (DeviceIdCode s) 0 0) 0 (replicate 76800 c))"
proof -
  let ?r = "cursor_regs (DeviceIdCode s)"
  have "panel_run ?r (LCD_Clear s c) p = panel_run ?r (lcd_run s 0 0 (replicate 76800 c)) p"
    if p: "idle p" for p
  proof -
    let ?q = "panel_run ?r LCD_WriteRAM_Prepare (panel_run ?r (LCD_SetCursor s 0 0) p)"
    have q: "open_ram ?q" using Prepare_panel(1) [OF SetCursor_panel(1) [OF p]] .
    show ?thesis
      unfolding LCD_Clear_def lcd_run_def panel_run_append open_again [OF q] clear_words_panel [OF q] ..
  qed
  then show ?thesis using paints_run [of s 0 0 "replicate 76800 c"] by (simp add: paints_def)
qed

text \<open>Rows of a character, one run under the other.\<close>

definition row_marks :: "lcd \<Rightarrow> u8 \<Rightarrow> u16 \<Rightarrow> u16 list list \<Rightarrow> mark list" where
  "row_marks s x y rows =
     concat (map (\<lambda>(k, cs). run_marks (cursor_at (DeviceIdCode s) (x + of_nat k) y) 0 cs) (enumerate 0 rows))"

lemma row_marks_Nil [simp]: "row_marks s x y [] = []"
  by (simp add: row_marks_def)

lemma row_marks_Cons [simp]:
  "row_marks s x y (cs # rows) =
     run_marks (cursor_at (DeviceIdCode s) x y) 0 cs @ row_marks s (x + 1) y rows"
proof -
  have "enumerate (Suc 0) rows = map (\<lambda>(k, cs). (Suc k, cs)) (enumerate 0 rows)"
    by (simp add: enumerate_eq_zip zip_map1 map_Suc_upt [symmetric] del: map_Suc_upt upt_Suc)
  then show ?thesis
    by (simp add: row_marks_def split_def comp_def add.assoc)
qed

lemma run_then:
  assumes "paints (DeviceIdCode s) (LCD_SetCursor s (x + 1) y @ rest) ms"
  shows "paints (DeviceIdCode s)
     (LCD_SetCursor s x y @ LCD_WriteRAM_Prepare @ concat (map LCD_WriteRAM cs) @ [Set_pin Pin_CS] @
      LCD_SetCursor s (x + 1) y @ rest)
     (run_marks (cursor_at (DeviceIdCode s) x y) 0 cs @ ms)"
  using paints_append [OF paints_run assms, of x y cs] by (simp add: lcd_run_def)

lemma char_rows_paint:
  "n \<le> length c \<Longrightarrow> \<exists>e. char_rows s x y c n = Some e \<and>
     paints (DeviceIdCode s) (LCD_SetCursor s x y @ e) (row_marks s x y (map (char_row s) (take n c)))"
proof (induction s x y c n rule: char_rows.induct)
  case (1 s x y c)
  then show ?case using paints_cursor by simp
next
  case (3 s x y bits c n)
  then obtain e where "char_rows s (x + 1) y c n = Some e"
    and "paints (DeviceIdCode s) (LCD_SetCursor s (x + 1) y @ e)
      (row_marks s (x + 1) y (map (char_row s) (take n c)))"
    by auto
  then show ?case using run_then [of s x y e _ "char_row s bits"] by simp
qed simp

lemma char_rows_short: "length c < n \<Longrightarrow> char_rows s x y c n = None"
  by (induction s x y c n rule: char_rows.induct) simp_all

lemma china_rows_paint:
  "3 * n \<le> length c \<Longrightarrow> \<exists>e. china_rows s x y c n = Some e \<and>
     paints (DeviceIdCode s) (LCD_SetCursor s x y @ e)
       (row_marks s x y (map (\<lambda>k. china_row s (take 3 (drop (3 * k) c))) [0..<n]))"
proof (induction s x y c n rule: china_rows.induct)
  case (1 s x y c)
  then show ?case using paints_cursor by simp
next
  case (2 s x y c n)
  then obtain e where "china_rows s (x + 1) y (drop 3 c) n = Some e"
    and p: "paints (DeviceIdCode s) (LCD_SetCursor s (x + 1) y @ e)
      (row_marks s (x + 1) y (map (\<lambda>k. china_row s (take 3 (drop (3 * k) (drop 3 c)))) [0..<n]))"
    by fastforce
  moreover have "[0..<Suc n] = 0 # map Suc [0..<n]"
    by (metis map_Suc_upt upt_conv_Cons zero_less_Suc)
  ultimately show ?case
    using run_then [OF p, of "china_row s (take 3 c)"] "2.prems"
    by (simp add: comp_def add.commute del: upt_Suc)
qed

section \<open>Text\<close>

text \<open>The rows of a character's glyph.\<close>

definition glyph :: "sFONT \<Rightarrow> u8 \<Rightarrow> u16 list" where
  "glyph f c = take (unat (font_Height f)) (drop (unat (c - 32) * unat (font_Height f)) (font_table f))"

definition in_font :: "sFONT \<Rightarrow> u8 \<Rightarrow> bool" where
  "in_font f c \<longleftrightarrow> (unat (c - 32) + 1) * unat (font_Height f) \<le> length (font_table f)"

definition cell_marks :: "lcd \<Rightarrow> u8 \<Rightarrow> u16 \<Rightarrow> u8 \<Rightarrow> mark list" where
  "cell_marks s x y c = row_marks s x y (map (char_row s) (glyph (LCD_Currentfonts s) c))"

lemma DisplayChar_paints:
  assumes "in_font (LCD_Currentfonts s) c"
  shows "\<exists>e. LCD_DisplayChar s line col c = Some e \<and> paints (DeviceIdCode s) e (cell_marks s line col c)"
proof -
  let ?f = "LCD_Currentfonts s"
  have "unat (font_Height ?f) \<le> length (drop (unat (c - 32) * unat (font_Height ?f)) (font_table ?f))"
    using assms by (simp add: in_font_def)
  from char_rows_paint [OF this, of s line col] show ?thesis
    by (auto simp: LCD_DisplayChar_def LCD_DrawChar_def cell_marks_def glyph_def)
qed

text \<open>Outside the table there is no glyph to read.\<close>

lemma DisplayChar_outside:
  assumes "\<not> in_font (LCD_Currentfonts s) c"
  shows "LCD_DisplayChar s line col c = None"
proof -
  let ?f = "LCD_Currentfonts s"
  have "length (drop (unat (c - 32) * unat (font_Height ?f)) (font_table ?f)) < unat (font_Height ?f)"
    using assms by (cases "unat (font_Height ?f)") (auto simp: in_font_def)
  then show ?thesis by (simp add: LCD_DisplayChar_def LCD_DrawChar_def char_rows_short)
qed

text \<open>The characters that fit, each in the cell of its place.\<close>

definition string_marks :: "lcd \<Rightarrow> u8 \<Rightarrow> u16 \<Rightarrow> u8 list \<Rightarrow> mark list" where
  "string_marks s line col cs =
     concat (map (\<lambda>(k, c). cell_marks s line (col + of_nat k * font_Width (LCD_Currentfonts s)) c)
       (enumerate 0 cs))"

lemma string_marks_Nil [simp]: "string_marks s line col [] = []"
  by (simp add: string_marks_def)

lemma string_marks_Cons [simp]:
  "string_marks s line col (c # cs) =
     cell_marks s line col c @ string_marks s line (col + font_Width (LCD_Currentfonts s)) cs"
proof -
  have "enumerate (Suc 0) cs = map (\<lambda>(k, c). (Suc k, c)) (enumerate 0 cs)"
    by (simp add: enumerate_eq_zip zip_map1 map_Suc_upt [symmetric] del: map_Suc_upt upt_Suc)
  then show ?thesis
    by (simp add: string_marks_def split_def comp_def algebra_simps)
qed

lemma string_cells_paint:
  fixes s defines "W \<equiv> unat (font_Width (LCD_Currentfonts s))"
  assumes "(k + 1) * W \<le> LCD_PIXEL_WIDTH" "0 < W"
    and "\<forall>c \<in> set (take (LCD_PIXEL_WIDTH div W - k) cs). in_font (LCD_Currentfonts s) c"
  shows "\<exists>e. string_cells s line (of_nat (k * W)) cs = Some e \<and> paints (DeviceIdCode s) e
    (string_marks s line (of_nat (k * W)) (take (LCD_PIXEL_WIDTH div W - k) cs))"
  using assms(2-)
proof (induction cs arbitrary: k)
  case (Cons c cs)
  let ?w = "font_Width (LCD_Currentfonts s)"
  have w: "?w = of_nat W" by (simp add: W_def)
  have k: "k + 1 \<le> LCD_PIXEL_WIDTH div W"
    using Cons.prems(1,2) by (simp add: less_eq_div_iff_mult_less_eq)
  define m where "m = LCD_PIXEL_WIDTH div W - (k + 1)"
  have m: "LCD_PIXEL_WIDTH div W - k = Suc m" "LCD_PIXEL_WIDTH div W - (k + 1) = m"
    using k by (simp_all add: m_def)
  define col col' :: u16 where c: "col = of_nat (k * W)" "col' = of_nat ((k + 1) * W)"
  obtain cell where cell: "LCD_DisplayChar s line col c = Some cell"
    "paints (DeviceIdCode s) cell (cell_marks s line col c)"
    using DisplayChar_paints [of s c line col] Cons.prems(3) by (auto simp: m)
  have after: "col + ?w = col'"
    by (simp add: c w algebra_simps)
  have "(k + 1) * W < 65536" using Cons.prems(1) by (simp add: LCD_PIXEL_WIDTH_def)
  then have u: "unat col' = (k + 1) * W"
    by (simp only: c unat_of_nat_u16 mod_less)
  show ?case
  proof (cases "(k + 1) * W + W > LCD_PIXEL_WIDTH")
    case True
    then have "\<not> k + 2 \<le> LCD_PIXEL_WIDTH div W"
      using Cons.prems(2) by (simp add: less_eq_div_iff_mult_less_eq)
    then have "m = 0" using m(2) by simp
    then show ?thesis
      unfolding c(1) [symmetric] using cell True u m(1) by (simp add: after W_def [symmetric])
  next
    case False
    then have "(k + 1 + 1) * W \<le> LCD_PIXEL_WIDTH" by simp
    from Cons.IH [OF this Cons.prems(2)] Cons.prems(3)
    obtain e where e: "string_cells s line col' cs = Some e"
      "paints (DeviceIdCode s) e (string_marks s line col' (take m cs))"
      by (auto simp only: m c set_simps take_Suc_Cons insert_iff)
    have "string_cells s line col (c # cs) = Some (cell @ e)"
      using cell(1) e(1) False u by (simp add: after W_def [symmetric])
    moreover have "paints (DeviceIdCode s) (cell @ e)
        (string_marks s line col (take (LCD_PIXEL_WIDTH div W - k) (c # cs)))"
      using paints_append [OF cell(2) e(2)] by (simp add: m(1) after)
    ultimately show ?thesis unfolding c(1) [symmetric] by blast
  qed
qed simp

text \<open>A character that the table does not hold ends the program's defined behaviour.\<close>

lemma string_line_outside:
  assumes "\<not> in_font (LCD_Currentfonts s) c"
  shows "LCD_DisplayStringLine s line (c # cs) = None"
  using DisplayChar_outside [OF assms] by (simp add: LCD_DisplayStringLine_def)

text \<open>
  A text line is drawn from the left edge, one cell per character, as many as fit into the
  320 columns, in the glyphs of the font and the two colours; the rest of the string is left
  out.
\<close>

theorem lcd_string_cells:
  assumes "0 < unat (font_Width (LCD_Currentfonts s))"
    and "unat (font_Width (LCD_Currentfonts s)) \<le> LCD_PIXEL_WIDTH"
    and "\<forall>c \<in> set (take (LCD_PIXEL_WIDTH div unat (font_Width (LCD_Currentfonts s))) cs).
      in_font (LCD_Currentfonts s) c"
  shows "\<exists>e. LCD_DisplayStringLine s line cs = Some e \<and> paints (DeviceIdCode s) e
    (string_marks s line 0 (take (LCD_PIXEL_WIDTH div unat (font_Width (LCD_Currentfonts s))) cs))"
  using string_cells_paint [of 0 s cs line] assms by (simp add: LCD_DisplayStringLine_def)

text \<open>
  Clearing a line in the 16 column font writes its blanks at columns 319, 303 and so on down to
  15, where the text itself begins its cells at 0, 16 and so on: the columns 0 to 14 keep what
  was there.
\<close>

lemma clear_cells_16:
  assumes "font_Width (LCD_Currentfonts s) = 16" "in_font (LCD_Currentfonts s) 32" "j < 20" "j + 2 \<le> n"
  shows "\<exists>e. clear_cells n s line (of_nat (16 * j + 15)) = Some e \<and> paints (DeviceIdCode s) e
    (concat (map (\<lambda>k. cell_marks s line (of_nat (16 * k + 15)) 32) (rev [0..<Suc j])))"
  using assms(3,4)
proof (induction j arbitrary: n)
  case 0
  then obtain m where n: "n = Suc (Suc m)" by (metis add_2_eq_Suc le_Suc_ex add_0)
  obtain cell where "LCD_DisplayChar s line 15 32 = Some cell"
    "paints (DeviceIdCode s) cell (cell_marks s line 15 32)"
    using DisplayChar_paints [OF assms(2)] by blast
  then show ?case by (simp add: n assms(1))
next
  case (Suc j)
  then obtain m where n: "n = Suc m" "j + 2 \<le> m" by (metis Suc_le_D Suc_le_mono add_Suc)
  define col col' :: u16 where c: "col = of_nat (16 * Suc j + 15)" "col' = of_nat (16 * j + 15)"
  obtain cell where cell: "LCD_DisplayChar s line col 32 = Some cell"
    "paints (DeviceIdCode s) cell (cell_marks s line col 32)"
    using DisplayChar_paints [OF assms(2)] by blast
  have "col + 1 = of_nat (16 * j + 32)" by (simp add: c algebra_simps)
  then have "unat (col + 1) = 16 * j + 32"
    using Suc.prems(1) by (simp only: unat_of_nat_u16 mod_less)
  then have "col + 1 \<ge> 16" by (simp add: word_le_nat_alt)
  moreover have "col - 16 = col'" by (simp add: c algebra_simps)
  moreover obtain e where e: "clear_cells m s line col' = Some e" "paints (DeviceIdCode s) e
      (concat (map (\<lambda>k. cell_marks s line (of_nat (16 * k + 15)) 32) (rev [0..<Suc j])))"
    using Suc.IH [OF _ n(2)] Suc.prems(1) unfolding c by (meson Suc_lessD)
  ultimately have "clear_cells n s line col = Some (cell @ e)"
    using cell(1) by (simp add: n(1) assms(1))
  moreover have "rev [0..<Suc (Suc j)] = Suc j # rev [0..<Suc j]" by simp
  ultimately show ?case
    using paints_append [OF cell(2) e(2)] unfolding c(1) [symmetric]
    by (simp only: list.map concat.simps option.inject ex_simps simp_thms c(1))
qed

lemma clear_line_cells:
  assumes "font_Width (LCD_Currentfonts s) = 16" "in_font (LCD_Currentfonts s) 32"
  shows "\<exists>e. LCD_ClearLine s line = Some e \<and> paints (DeviceIdCode s) e
    (concat (map (\<lambda>k. cell_marks s line (of_nat (16 * k + 15)) 32) (rev [0..<20])))"
proof -
  have w: "of_nat LCD_PIXEL_WIDTH - 1 = (of_nat (16 * 19 + 15) :: u16)"
    by (simp add: LCD_PIXEL_WIDTH_def)
  have b: "(19 :: nat) < 20" "19 + 2 \<le> (65537 :: nat)" and n: "Suc 19 = 20"
    by simp_all
  show ?thesis
    using clear_cells_16 [OF assms b, of line] unfolding LCD_ClearLine_def w n .
qed

end
