(* ===== verification/LcdLine.thy ===== *)
theory LcdLine
  imports LcdPanel "HOL-Library.Signed_Division"
begin

text \<open>
  Lines between two points and the open and closed polygons made of them.  The loop of
  \<open>LCD_DrawUniLine\<close> works on 16 bit signed variables and draws a pixel in every round; the
  main result is that on the screen its pixels are the closest ones to the straight line, from
  the one end to the other, without a gap.
\<close>

section \<open>The loop\<close>

record uni_line =
  ul_x :: u16
  ul_y :: u16
  ul_num :: u16
  ul_curpixel :: u16
  ul_xinc1 :: u16
  ul_xinc2 :: u16
  ul_yinc1 :: u16
  ul_yinc2 :: u16
  ul_den :: u16
  ul_numadd :: u16
  ul_numpixels :: u16

text \<open>The macro \<open>ABS\<close> on the difference, which is computed as an \<open>int\<close>.\<close>

definition abs_diff :: "u16 \<Rightarrow> u16 \<Rightarrow> u16" where
  "abs_diff a b = of_int (let d = uint a - uint b in if 0 < d then d else - d)"

definition uni_line_start :: "u16 \<Rightarrow> u16 \<Rightarrow> u16 \<Rightarrow> u16 \<Rightarrow> uni_line" where
  "uni_line_start x1 y1 x2 y2 =
     (let deltax = abs_diff x2 x1;
          deltay = abs_diff y2 y1;
          xinc = (if x2 \<ge> x1 then 1 else - 1);
          yinc = (if y2 \<ge> y1 then 1 else - 1)
      in if deltay \<le>s deltax
         then \<lparr>ul_x = x1, ul_y = y1, ul_num = of_int (sint deltax sdiv 2), ul_curpixel = 0,
               ul_xinc1 = 0, ul_xinc2 = xinc, ul_yinc1 = yinc, ul_yinc2 = 0,
               ul_den = deltax, ul_numadd = deltay, ul_numpixels = deltax\<rparr>
         else \<lparr>ul_x = x1, ul_y = y1, ul_num = of_int (sint deltay sdiv 2), ul_curpixel = 0,
               ul_xinc1 = xinc, ul_xinc2 = 0, ul_yinc1 = 0, ul_yinc2 = yinc,
               ul_den = deltay, ul_numadd = deltax, ul_numpixels = deltay\<rparr>)"

definition uni_line_step :: "uni_line \<Rightarrow> uni_line" where
  "uni_line_step l =
     (let l = l\<lparr>ul_num := ul_num l + ul_numadd l\<rparr>;
          l = (if ul_den l \<le>s ul_num l
               then l\<lparr>ul_num := ul_num l - ul_den l, ul_x := ul_x l + ul_xinc1 l,
                      ul_y := ul_y l + ul_yinc1 l\<rparr>
               else l)
      in l\<lparr>ul_x := ul_x l + ul_xinc2 l, ul_y := ul_y l + ul_yinc2 l,
           ul_curpixel := ul_curpixel l + 1\<rparr>)"

text \<open>
  \<open>curpixel\<close> is compared with \<open>numpixels\<close>, which stays; a run that has not ended when the 16
  bit counter comes round again never ends.
\<close>

fun uni_line_loop :: "nat \<Rightarrow> lcd \<Rightarrow> uni_line \<Rightarrow> lcd_ev list option" where
  "uni_line_loop 0 s l = None"
| "uni_line_loop (Suc n) s l =
     (if ul_curpixel l \<le>s ul_numpixels l
      then map_option ((@) (PutPixel s (ul_x l) (ul_y l))) (uni_line_loop n s (uni_line_step l))
      else Some [])"

definition LCD_DrawUniLine :: "lcd \<Rightarrow> u16 \<Rightarrow> u16 \<Rightarrow> u16 \<Rightarrow> u16 \<Rightarrow> lcd_ev list option" where
  "LCD_DrawUniLine s x1 y1 x2 y2 = uni_line_loop 65537 s (uni_line_start x1 y1 x2 y2)"

section \<open>Polygons\<close>

text \<open>\<open>Point\<close>: the components are signed, here as their 16 bits.\<close>

type_synonym point = "u16 \<times> u16"

definition seq_ev :: "lcd_ev list option \<Rightarrow> lcd_ev list option \<Rightarrow> lcd_ev list option" where
  "seq_ev a b = (case a of None \<Rightarrow> None | Some e \<Rightarrow> map_option ((@) e) b)"

fun poly_from :: "lcd \<Rightarrow> point list \<Rightarrow> nat \<Rightarrow> lcd_ev list option" where
  "poly_from s Points 0 = Some []"
| "poly_from s (p # q # Points) (Suc n) =
     seq_ev (LCD_DrawUniLine s (fst p) (snd p) (fst q) (snd q)) (poly_from s (q # Points) n)"
| "poly_from s _ (Suc n) = None"

definition LCD_PolyLine :: "lcd \<Rightarrow> point list \<Rightarrow> u16 \<Rightarrow> lcd_ev list option" where
  "LCD_PolyLine s Points PointCount =
     (if PointCount < 2 then Some [] else poly_from s Points (unat PointCount - 1))"

text \<open>The relative loop returns the last absolute place as well.\<close>

fun relative_from :: "lcd \<Rightarrow> u16 \<Rightarrow> u16 \<Rightarrow> point list \<Rightarrow> nat \<Rightarrow> (lcd_ev list \<times> u16 \<times> u16) option" where
  "relative_from s X Y Points 0 = Some ([], X, Y)"
| "relative_from s X Y [] (Suc n) = None"
| "relative_from s X Y (q # Points) (Suc n) =
     (case LCD_DrawUniLine s X Y (X + fst q) (Y + snd q) of
        None \<Rightarrow> None
      | Some e \<Rightarrow> map_option (\<lambda>(e', xy). (e @ e', xy))
          (relative_from s (X + fst q) (Y + snd q) Points n))"

definition LCD_PolyLineRelativeClosed :: "lcd \<Rightarrow> point list \<Rightarrow> u16 \<Rightarrow> u16 \<Rightarrow> lcd_ev list option" where
  "LCD_PolyLineRelativeClosed s Points PointCount Closed =
     (if PointCount < 2 then Some []
      else case Points of
        [] \<Rightarrow> None
      | First # Points \<Rightarrow>
          (case relative_from s (fst First) (snd First) Points (unat PointCount - 1) of
             None \<Rightarrow> None
           | Some (e, X, Y) \<Rightarrow>
               if Closed \<noteq> 0 then map_option ((@) e) (LCD_DrawUniLine s (fst First) (snd First) X Y)
               else Some e))"

text \<open>With no point the last one is the one before the array.\<close>

definition LCD_ClosedPolyLine :: "lcd \<Rightarrow> point list \<Rightarrow> u16 \<Rightarrow> lcd_ev list option" where
  "LCD_ClosedPolyLine s Points PointCount =
     seq_ev (LCD_PolyLine s Points PointCount)
       (if PointCount = 0 \<or> length Points < unat PointCount then None
        else let First = Points ! 0; Last = Points ! (unat PointCount - 1)
             in LCD_DrawUniLine s (fst First) (snd First) (fst Last) (snd Last))"

definition LCD_PolyLineRelative :: "lcd \<Rightarrow> point list \<Rightarrow> u16 \<Rightarrow> lcd_ev list option" where
  "LCD_PolyLineRelative s Points PointCount = LCD_PolyLineRelativeClosed s Points PointCount 0"

definition LCD_ClosedPolyLineRelative :: "lcd \<Rightarrow> point list \<Rightarrow> u16 \<Rightarrow> lcd_ev list option" where
  "LCD_ClosedPolyLineRelative s Points PointCount = LCD_PolyLineRelativeClosed s Points PointCount 1"

section \<open>The pixels of a line\<close>

text \<open>
  Along the longer axis, \<open>d\<close> pixels away, the shorter one has gone \<open>a\<close>: after \<open>k\<close> rounds the
  line is \<open>minor_steps d a k\<close> off, the rounded quotient.
\<close>

definition minor_steps :: "nat \<Rightarrow> nat \<Rightarrow> nat \<Rightarrow> nat" where
  "minor_steps d a k = (d div 2 + k * a) div d"

lemma minor_steps_0: "0 < d \<Longrightarrow> minor_steps d a 0 = 0"
  by (simp add: minor_steps_def)

lemma minor_steps_end: "0 < d \<Longrightarrow> minor_steps d a d = a"
  by (simp add: minor_steps_def)

lemma minor_steps_Suc:
  assumes "0 < d" "a \<le> d"
  shows "minor_steps d a (Suc k) =
      minor_steps d a k + (if d \<le> (d div 2 + k * a) mod d + a then 1 else 0)"
    and "(d div 2 + Suc k * a) mod d =
      (if d \<le> (d div 2 + k * a) mod d + a then (d div 2 + k * a) mod d + a - d
       else (d div 2 + k * a) mod d + a)"
proof -
  let ?n = "d div 2 + k * a"
  have n: "?n = d * (?n div d) + ?n mod d" by simp
  have r: "?n mod d < d" using assms(1) by simp
  have e: "d div 2 + Suc k * a = d * (?n div d) + (?n mod d + a)"
    using n by simp
  have "(d * (?n div d) + (?n mod d + a)) div d = ?n div d + (?n mod d + a) div d"
    by (rule div_mult_self4) (use assms(1) in simp)
  moreover have "(?n mod d + a) div d = (if d \<le> ?n mod d + a then 1 else 0)"
    using assms r by (auto simp: div_nat_eqI)
  ultimately show "minor_steps d a (Suc k) =
      minor_steps d a k + (if d \<le> ?n mod d + a then 1 else 0)"
    by (simp only: minor_steps_def e)
  have "(d * (?n div d) + (?n mod d + a)) mod d = (?n mod d + a) mod d"
    by (rule mod_mult_self4)
  then show "(d div 2 + Suc k * a) mod d = (if d \<le> ?n mod d + a then ?n mod d + a - d else ?n mod d + a)"
    using assms r by (simp only: e) (auto simp: le_mod_geq)
qed

text \<open>No pixel is further than half a step from the ideal line.\<close>

lemma minor_steps_close:
  assumes "0 < d"
  shows "2 * \<bar>int k * int a - int (minor_steps d a k) * int d\<bar> \<le> int d"
proof -
  let ?n = "d div 2 + k * a"
  have "?n = minor_steps d a k * d + ?n mod d"
    by (simp add: minor_steps_def)
  then have "int (d div 2) + int k * int a = int (minor_steps d a k) * int d + int (?n mod d)"
    by (metis of_nat_add of_nat_mult)
  then have e: "int k * int a - int (minor_steps d a k) * int d = int (?n mod d) - int (d div 2)"
    by linarith
  have "2 * \<bar>int m - int (d div 2)\<bar> \<le> int d" if "m < d" for m
  proof -
    have "d = 2 * (d div 2) + d mod 2" by simp
    from arg_cong [OF this, of int] have "int d = 2 * int (d div 2) + int (d mod 2)"
      by (simp only: of_nat_add of_nat_mult of_nat_numeral)
    moreover have "2 * \<bar>M - H\<bar> \<le> D" if "D = 2 * H + E" "0 \<le> E" "E \<le> 1" "0 \<le> M" "M < D"
      for M H D E :: int
      using that by (cases "H \<le> M") simp_all
    moreover have "0 \<le> int (d mod 2)" "int (d mod 2) \<le> 1" "0 \<le> int m" "int m < int d"
      using that by simp_all
    ultimately show ?thesis by blast
  qed
  then show ?thesis unfolding e using assms by simp
qed

lemma minor_steps_le: "0 < d \<Longrightarrow> k \<le> d \<Longrightarrow> minor_steps d a k \<le> a"
  using minor_steps_end [of d a] by (metis minor_steps_def add_le_cancel_left div_le_mono mult_le_mono1)

section \<open>The loop follows the rounded quotient\<close>

lemma sle_small:
  assumes "m < 32768" "n < 32768"
  shows "(of_nat m :: u16) \<le>s of_nat n \<longleftrightarrow> m \<le> n"
  using assms by (simp add: word_sle_eq sint_u16 unat_of_nat del: of_nat_unat)

text \<open>After \<open>k\<close> rounds, \<open>m\<close> of them with a step of the shorter axis.\<close>

definition line_put :: "uni_line \<Rightarrow> nat \<Rightarrow> nat \<Rightarrow> nat \<Rightarrow> uni_line" where
  "line_put l k m r = l\<lparr>
     ul_x := ul_x l + of_nat k * ul_xinc2 l + of_nat m * ul_xinc1 l,
     ul_y := ul_y l + of_nat k * ul_yinc2 l + of_nat m * ul_yinc1 l,
     ul_num := of_nat r, ul_curpixel := of_nat k\<rparr>"

definition line_at :: "uni_line \<Rightarrow> nat \<Rightarrow> nat \<Rightarrow> nat \<Rightarrow> uni_line" where
  "line_at l d a k = line_put l k (minor_steps d a k) ((d div 2 + k * a) mod d)"

lemma uni_line_step_put:
  assumes "ul_den l = of_nat d" "ul_numadd l = of_nat a" "r < d" "a \<le> d" "d < 16384"
  shows "uni_line_step (line_put l k m r) =
    (if d \<le> r + a then line_put l (Suc k) (Suc m) (r + a - d) else line_put l (Suc k) m (r + a))"
proof -
  have c: "(of_nat d :: u16) \<le>s of_nat r + of_nat a \<longleftrightarrow> d \<le> r + a"
    using sle_small [of d "r + a"] assms(3-) by simp
  show ?thesis
    using assms(1,2) c by (auto simp: uni_line_step_def line_put_def algebra_simps of_nat_diff)
qed

lemma uni_line_step_at:
  assumes "ul_den l = of_nat d" "ul_numadd l = of_nat a" "0 < d" "a \<le> d" "d < 16384"
  shows "uni_line_step (line_at l d a k) = line_at l d a (Suc k)"
  using uni_line_step_put [OF assms(1,2) _ assms(4,5), of "(d div 2 + k * a) mod d" k "minor_steps d a k"]
    assms(3)
  unfolding line_at_def minor_steps_Suc [OF assms(3,4)] by simp

lemma uni_line_step_kept:
  "ul_curpixel (uni_line_step l) = ul_curpixel l + 1" "ul_numpixels (uni_line_step l) = ul_numpixels l"
  by (simp_all add: uni_line_step_def Let_def)

definition line_pixels :: "uni_line \<Rightarrow> nat \<Rightarrow> nat \<Rightarrow> point list" where
  "line_pixels l d a =
     map (\<lambda>k. (ul_x (line_at l d a k), ul_y (line_at l d a k))) [0..<Suc d]"

lemma uni_line_loop_pixels:
  assumes "ul_den l = of_nat d" "ul_numadd l = of_nat a" "ul_numpixels l = of_nat d"
    and "a \<le> d" "d < 16384" "k \<le> d" "d + 2 \<le> n + k"
  shows "uni_line_loop n s (line_at l d a k) =
    Some (concat (map (\<lambda>q. PutPixel s (fst q) (snd q)) (drop k (line_pixels l d a))))"
  using assms(6,7)
proof (induction n arbitrary: k)
  case (Suc n)
  let ?l = "line_at l d a k"
  have kept: "ul_curpixel ?l = of_nat k" "ul_numpixels ?l = of_nat d"
    using assms(3) by (simp_all add: line_at_def line_put_def)
  then have go: "ul_curpixel ?l \<le>s ul_numpixels ?l"
    using sle_small [of k d] Suc.prems assms(5) by simp
  have len: "k < length (line_pixels l d a)"
    using Suc.prems by (simp add: line_pixels_def)
  have px: "drop k (line_pixels l d a) = (ul_x ?l, ul_y ?l) # drop (Suc k) (line_pixels l d a)"
    using Cons_nth_drop_Suc [OF len, symmetric] Suc.prems by (simp add: line_pixels_def del: upt_Suc)
  show ?case
  proof (cases "k = d")
    case True
    then obtain m where m: "n = Suc m" using Suc.prems by (cases n) auto
    have "\<not> (of_nat (Suc d) :: u16) \<le>s of_nat d"
      using sle_small [of "Suc d" d] assms(5) by simp
    then have "uni_line_loop n s (uni_line_step ?l) = Some []"
      using kept True by (simp add: m uni_line_step_kept add.commute)
    moreover have "drop (Suc k) (line_pixels l d a) = []"
      using True by (simp add: line_pixels_def)
    ultimately show ?thesis using go by (simp add: px)
  next
    case False
    then have "uni_line_step ?l = line_at l d a (Suc k)"
      using uni_line_step_at [of l d a k] assms Suc.prems by simp
    moreover have "uni_line_loop n s (line_at l d a (Suc k)) =
        Some (concat (map (\<lambda>q. PutPixel s (fst q) (snd q)) (drop (Suc k) (line_pixels l d a))))"
      using Suc.IH [of "Suc k"] False Suc.prems by simp
    ultimately show ?thesis using go by (simp add: px)
  qed
qed simp

section \<open>Straightness\<close>

definition coord :: "u16 \<Rightarrow> int" where
  "coord x = int (unat x)"

lemma coord_bounds: "0 \<le> coord x" "coord x < 65536"
  using unat_less_65536 [of x] by (auto simp: coord_def simp del: of_nat_unat unat_less_65536)

definition step_dir :: "u16 \<Rightarrow> u16 \<Rightarrow> int" where
  "step_dir a b = (if b \<ge> a then 1 else - 1)"

definition far :: "u16 \<Rightarrow> u16 \<Rightarrow> nat" where
  "far a b = nat \<bar>coord b - coord a\<bar>"

lemma far_dir: "coord b - coord a = int (far a b) * step_dir a b"
proof -
  have "b \<ge> a \<longleftrightarrow> coord a \<le> coord b" by (simp add: word_le_nat_alt coord_def del: of_nat_unat)
  then show ?thesis by (auto simp: far_def step_dir_def)
qed

lemma abs_diff_far: "abs_diff b a = of_nat (far a b)"
proof -
  have "uint b - uint a = coord b - coord a" by (simp add: coord_def)
  then have "(let d = uint b - uint a in if 0 < d then d else - d) = int (far a b)"
    by (simp add: far_def Let_def)
  then show ?thesis by (simp add: abs_diff_def)
qed

lemma half_small:
  assumes "d < 32768"
  shows "(of_int (sint (of_nat d :: u16) sdiv 2) :: u16) = of_nat (d div 2)"
proof -
  have "sint (of_nat d :: u16) = int d"
    using assms by (simp add: sint_u16 unat_of_nat del: of_nat_unat)
  moreover have "int d sdiv 2 = int (d div 2)"
    by (simp add: signed_divide_int_def sgn_if zdiv_int)
  ultimately show ?thesis by simp
qed

text \<open>Walking \<open>t\<close> pixels towards the other end stays between the ends.\<close>

lemma walk:
  assumes "t \<le> far a b"
  shows "coord (a + of_nat t * of_int (step_dir a b)) = coord a + int t * step_dir a b"
proof -
  have "coord b = coord a + int (far a b) * step_dir a b"
    using far_dir [of b a] by simp
  then have "0 \<le> coord a + int t * step_dir a b \<and> coord a + int t * step_dir a b < 65536"
    using assms coord_bounds [of a] coord_bounds [of b] by (auto simp: step_dir_def)
  moreover have "coord (a + of_nat t * of_int (step_dir a b)) =
      (coord a + int t * step_dir a b) mod 65536"
  proof -
    have "a + of_nat t * of_int (step_dir a b) = of_int (coord a + int t * step_dir a b)"
      by (simp add: coord_def)
    then show ?thesis by (simp add: coord_def unsigned_of_int take_bit_eq_mod del: of_int_add of_int_mult)
  qed
  ultimately show ?thesis by simp
qed

definition near_line :: "point \<Rightarrow> point \<Rightarrow> point \<Rightarrow> bool" where
  "near_line p1 p2 q \<longleftrightarrow>
     2 * \<bar>(coord (fst q) - coord (fst p1)) * (coord (snd p2) - coord (snd p1)) -
         (coord (snd q) - coord (snd p1)) * (coord (fst p2) - coord (fst p1))\<bar>
     \<le> max \<bar>coord (fst p2) - coord (fst p1)\<bar> \<bar>coord (snd p2) - coord (snd p1)\<bar>"

definition adjacent :: "point \<Rightarrow> point \<Rightarrow> bool" where
  "adjacent p q \<longleftrightarrow>
     max \<bar>coord (fst q) - coord (fst p)\<bar> \<bar>coord (snd q) - coord (snd p)\<bar> = 1"

lemma minor_steps_bounds:
  assumes "a \<le> d" "k \<le> d"
  shows "minor_steps d a k \<le> a"
    and "2 * \<bar>int k * int a - int (minor_steps d a k) * int d\<bar> \<le> int d"
  using assms minor_steps_le [of d k a] minor_steps_close [of d k a]
  by (cases "d = 0"; simp add: minor_steps_def)+

text \<open>
  A point of the walk: \<open>k\<close> pixels along the long axis from \<open>u1\<close> to \<open>u2\<close>, and the rounded share of
  them along the short one from \<open>v1\<close> to \<open>v2\<close>.
\<close>

definition walk_long :: "u16 \<Rightarrow> u16 \<Rightarrow> nat \<Rightarrow> u16" where
  "walk_long u1 u2 k = u1 + of_nat k * of_int (step_dir u1 u2)"

definition walk_short :: "u16 \<Rightarrow> u16 \<Rightarrow> u16 \<Rightarrow> u16 \<Rightarrow> nat \<Rightarrow> u16" where
  "walk_short u1 u2 v1 v2 k =
     v1 + of_nat (minor_steps (far u1 u2) (far v1 v2) k) * of_int (step_dir v1 v2)"

lemma walk_coords:
  assumes "far v1 v2 \<le> far u1 u2" "k \<le> far u1 u2"
  shows "coord (walk_long u1 u2 k) = coord u1 + int k * step_dir u1 u2"
    and "coord (walk_short u1 u2 v1 v2 k) =
      coord v1 + int (minor_steps (far u1 u2) (far v1 v2) k) * step_dir v1 v2"
  using walk [OF assms(2)] walk [OF minor_steps_bounds(1) [OF assms]]
  by (simp_all add: walk_long_def walk_short_def)

lemma coord_inject: "coord a = coord b \<longleftrightarrow> a = b"
  by (simp add: coord_def word_unat_eq_iff del: of_nat_unat)

lemma walk_ends:
  assumes "far v1 v2 \<le> far u1 u2"
  shows "walk_long u1 u2 0 = u1" "walk_short u1 u2 v1 v2 0 = v1"
    and "walk_long u1 u2 (far u1 u2) = u2" "walk_short u1 u2 v1 v2 (far u1 u2) = v2"
proof -
  note 0 = walk_coords [OF assms, of 0] and d = walk_coords [OF assms order_refl]
  have m: "minor_steps (far u1 u2) (far v1 v2) 0 = 0"
    by (cases "far u1 u2 = 0") (simp_all add: minor_steps_0, simp add: minor_steps_def)
  have e: "minor_steps (far u1 u2) (far v1 v2) (far u1 u2) = far v1 v2"
    using assms by (cases "far u1 u2 = 0") (simp_all add: minor_steps_end, simp add: minor_steps_def)
  show "walk_long u1 u2 0 = u1" "walk_short u1 u2 v1 v2 0 = v1"
    using 0 m by (simp_all add: coord_inject [symmetric])
  show "walk_long u1 u2 (far u1 u2) = u2" "walk_short u1 u2 v1 v2 (far u1 u2) = v2"
    using d e far_dir [of u2 u1] far_dir [of v2 v1] by (simp_all add: coord_inject [symmetric])
qed

lemma walk_between:
  assumes "far v1 v2 \<le> far u1 u2" "k \<le> far u1 u2"
  shows "min (coord u1) (coord u2) \<le> coord (walk_long u1 u2 k) \<and>
      coord (walk_long u1 u2 k) \<le> max (coord u1) (coord u2)"
    and "min (coord v1) (coord v2) \<le> coord (walk_short u1 u2 v1 v2 k) \<and>
      coord (walk_short u1 u2 v1 v2 k) \<le> max (coord v1) (coord v2)"
proof -
  have b: "int t \<le> int (far a b) \<Longrightarrow> min (coord a) (coord b) \<le> coord a + int t * step_dir a b \<and>
      coord a + int t * step_dir a b \<le> max (coord a) (coord b)" for t a b
    using far_dir [of b a] by (auto simp: step_dir_def)
  show "min (coord u1) (coord u2) \<le> coord (walk_long u1 u2 k) \<and>
      coord (walk_long u1 u2 k) \<le> max (coord u1) (coord u2)"
    using b [of k u1 u2] assms(2) by (simp add: walk_coords [OF assms])
  show "min (coord v1) (coord v2) \<le> coord (walk_short u1 u2 v1 v2 k) \<and>
      coord (walk_short u1 u2 v1 v2 k) \<le> max (coord v1) (coord v2)"
    using b [of _ v1 v2] minor_steps_bounds(1) [OF assms] by (simp add: walk_coords [OF assms])
qed

lemma walk_near:
  assumes "far v1 v2 \<le> far u1 u2" "k \<le> far u1 u2"
  shows "2 * \<bar>(coord (walk_long u1 u2 k) - coord u1) * (coord v2 - coord v1) -
      (coord (walk_short u1 u2 v1 v2 k) - coord v1) * (coord u2 - coord u1)\<bar> \<le> int (far u1 u2)"
proof -
  let ?m = "minor_steps (far u1 u2) (far v1 v2) k"
  have "(coord (walk_long u1 u2 k) - coord u1) * (coord v2 - coord v1) -
      (coord (walk_short u1 u2 v1 v2 k) - coord v1) * (coord u2 - coord u1) =
      (int k * int (far v1 v2) - int ?m * int (far u1 u2)) * (step_dir u1 u2 * step_dir v1 v2)"
    by (simp add: walk_coords [OF assms] far_dir [of v2 v1] far_dir [of u2 u1] algebra_simps)
  moreover have "\<bar>step_dir u1 u2 * step_dir v1 v2\<bar> = 1"
    by (simp add: step_dir_def)
  ultimately show ?thesis
    using minor_steps_bounds(2) [OF assms] by (simp only: abs_mult mult_1_right)
qed

lemma walk_adjacent:
  assumes "far v1 v2 \<le> far u1 u2" "Suc k \<le> far u1 u2"
  shows "\<bar>coord (walk_long u1 u2 (Suc k)) - coord (walk_long u1 u2 k)\<bar> = 1"
    and "\<bar>coord (walk_short u1 u2 v1 v2 (Suc k)) - coord (walk_short u1 u2 v1 v2 k)\<bar> \<le> 1"
proof -
  have k: "k \<le> far u1 u2" "0 < far u1 u2" using assms(2) by simp_all
  show "\<bar>coord (walk_long u1 u2 (Suc k)) - coord (walk_long u1 u2 k)\<bar> = 1"
    using walk_coords(1) [OF assms] walk_coords(1) [OF assms(1) k(1)]
    by (simp add: step_dir_def)
  show "\<bar>coord (walk_short u1 u2 v1 v2 (Suc k)) - coord (walk_short u1 u2 v1 v2 k)\<bar> \<le> 1"
    using walk_coords(2) [OF assms] walk_coords(2) [OF assms(1) k(1)]
      minor_steps_Suc(1) [OF k(2) assms(1), of k]
    by (auto simp: step_dir_def)
qed

section \<open>The line on the screen\<close>

definition straight_points :: "u16 \<Rightarrow> u16 \<Rightarrow> u16 \<Rightarrow> u16 \<Rightarrow> point list" where
  "straight_points x1 y1 x2 y2 =
     (if far y1 y2 \<le> far x1 x2
      then map (\<lambda>k. (walk_long x1 x2 k, walk_short x1 x2 y1 y2 k)) [0..<Suc (far x1 x2)]
      else map (\<lambda>k. (walk_short y1 y2 x1 x2 k, walk_long y1 y2 k)) [0..<Suc (far y1 y2)])"

lemma line_at_0: "minor_steps d a 0 = 0 \<Longrightarrow> (d div 2) mod d = d div 2 \<Longrightarrow> ul_curpixel l = 0 \<Longrightarrow>
    ul_num l = of_nat (d div 2) \<Longrightarrow> line_at l d a 0 = l"
  by (simp add: line_at_def line_put_def)

lemma uni_line_run:
  assumes "ul_den l = of_nat d" "ul_numadd l = of_nat a" "ul_numpixels l = of_nat d"
    and "ul_num l = of_nat (d div 2)" "ul_curpixel l = 0" "a \<le> d" "d < 16384"
  shows "uni_line_loop 65537 s l =
    Some (concat (map (\<lambda>q. PutPixel s (fst q) (snd q)) (line_pixels l d a)))"
proof -
  have "minor_steps d a 0 = 0" "(d div 2) mod d = d div 2"
    by (cases "d = 0"; simp add: minor_steps_def)+
  then have "line_at l d a 0 = l" using assms by (simp add: line_at_0)
  then show ?thesis
    using uni_line_loop_pixels [OF assms(1-3,6,7), of 0 65537 s] assms(7) by simp
qed

lemma DrawUniLine_pixels:
  assumes "far x1 x2 < 16384" "far y1 y2 < 16384"
  shows "LCD_DrawUniLine s x1 y1 x2 y2 =
    Some (concat (map (\<lambda>q. PutPixel s (fst q) (snd q)) (straight_points x1 y1 x2 y2)))"
proof -
  let ?l = "uni_line_start x1 y1 x2 y2"
  have c: "abs_diff y2 y1 \<le>s abs_diff x2 x1 \<longleftrightarrow> far y1 y2 \<le> far x1 x2"
    using assms sle_small [of "far y1 y2" "far x1 x2"] by (simp add: abs_diff_far)
  have dir: "of_int (step_dir a b) = (if b \<ge> a then 1 else - 1 :: u16)" for a b
    by (simp add: step_dir_def)
  note start = uni_line_start_def Let_def abs_diff_far half_small
  show ?thesis
  proof (cases "far y1 y2 \<le> far x1 x2")
    case True
    then have "line_pixels ?l (far x1 x2) (far y1 y2) = straight_points x1 y1 x2 y2"
      using c assms by (simp add: line_pixels_def line_at_def line_put_def straight_points_def start
          walk_long_def walk_short_def dir)
    moreover have "uni_line_loop 65537 s ?l = Some (concat (map (\<lambda>q. PutPixel s (fst q) (snd q))
        (line_pixels ?l (far x1 x2) (far y1 y2))))"
      by (rule uni_line_run) (use True c assms in \<open>simp_all add: start\<close>)
    ultimately show ?thesis by (simp add: LCD_DrawUniLine_def)
  next
    case False
    then have "line_pixels ?l (far y1 y2) (far x1 x2) = straight_points x1 y1 x2 y2"
      using c assms by (simp add: line_pixels_def line_at_def line_put_def straight_points_def start
          walk_long_def walk_short_def dir)
    moreover have "uni_line_loop 65537 s ?l = Some (concat (map (\<lambda>q. PutPixel s (fst q) (snd q))
        (line_pixels ?l (far y1 y2) (far x1 x2))))"
      by (rule uni_line_run) (use False c assms in \<open>simp_all add: start\<close>)
    ultimately show ?thesis by (simp add: LCD_DrawUniLine_def)
  qed
qed

lemma straight_points_shape:
  fixes x1 y1 x2 y2 :: u16
  defines "ps \<equiv> straight_points x1 y1 x2 y2"
  shows "length ps = max (far x1 x2) (far y1 y2) + 1"
    and "hd ps = (x1, y1)" and "last ps = (x2, y2)"
    and "q \<in> set ps \<Longrightarrow> near_line (x1, y1) (x2, y2) q"
    and "Suc i < length ps \<Longrightarrow> adjacent (ps ! i) (ps ! Suc i)"
proof -
  have c: "far y1 y2 \<le> far x1 x2 \<or> far x1 x2 \<le> far y1 y2" by linarith
  have f: "int (far a b) = \<bar>coord b - coord a\<bar>" for a b by (simp add: far_def)
  show "length ps = max (far x1 x2) (far y1 y2) + 1"
    by (simp add: ps_def straight_points_def)
  show "hd ps = (x1, y1)"
    using c walk_ends(1,2) [of y1 y2 x1 x2] walk_ends(1,2) [of x1 x2 y1 y2]
    by (auto simp: ps_def straight_points_def hd_map simp del: upt_Suc)
  show "last ps = (x2, y2)"
    using c walk_ends(3,4) [of y1 y2 x1 x2] walk_ends(3,4) [of x1 x2 y1 y2]
    by (auto simp: ps_def straight_points_def)
  show "near_line (x1, y1) (x2, y2) q" if "q \<in> set ps"
  proof (cases "far y1 y2 \<le> far x1 x2")
    case True
    then obtain k where "k \<le> far x1 x2" "q = (walk_long x1 x2 k, walk_short x1 x2 y1 y2 k)"
      using \<open>q \<in> set ps\<close> by (auto simp: ps_def straight_points_def less_Suc_eq_le simp del: upt_Suc)
    then show ?thesis
      using walk_near [OF True, of k] True by (simp add: near_line_def f le_max_iff_disj)
  next
    case False
    then obtain k where k: "k \<le> far y1 y2" "q = (walk_short y1 y2 x1 x2 k, walk_long y1 y2 k)"
      using \<open>q \<in> set ps\<close> by (auto simp: ps_def straight_points_def less_Suc_eq_le simp del: upt_Suc)
    have "far x1 x2 \<le> far y1 y2" using False by simp
    from walk_near [OF this k(1)] show ?thesis
      by (simp add: near_line_def f k(2) le_max_iff_disj abs_minus_commute mult.commute)
  qed
  show "adjacent (ps ! i) (ps ! Suc i)" if i: "Suc i < length ps"
  proof (cases "far y1 y2 \<le> far x1 x2")
    case True
    then have "Suc i \<le> far x1 x2" using i by (simp add: ps_def straight_points_def)
    from walk_adjacent [OF True this] show ?thesis
      using True i by (simp add: ps_def straight_points_def adjacent_def del: upt_Suc)
  next
    case False
    then have "Suc i \<le> far y1 y2" using i by (simp add: ps_def straight_points_def)
    moreover have "far x1 x2 \<le> far y1 y2" using False by simp
    ultimately show ?thesis
      using walk_adjacent [of x1 x2 y1 y2 i] False i
      by (simp add: ps_def straight_points_def adjacent_def del: upt_Suc)
  qed
qed

lemma on_screen_coord: "on_screen x y \<longleftrightarrow> coord x < 240 \<and> coord y < 320"
  by (simp add: on_screen_def coord_def LCD_PIXEL_HEIGHT_def LCD_PIXEL_WIDTH_def del: of_nat_unat)

lemma straight_points_on_screen:
  assumes "on_screen x1 y1" "on_screen x2 y2" "q \<in> set (straight_points x1 y1 x2 y2)"
  shows "on_screen (fst q) (snd q)"
proof (cases "far y1 y2 \<le> far x1 x2")
  case True
  then obtain k where "k \<le> far x1 x2" "q = (walk_long x1 x2 k, walk_short x1 x2 y1 y2 k)"
    using assms(3) by (auto simp: straight_points_def less_Suc_eq_le simp del: upt_Suc)
  then show ?thesis
    using walk_between [OF True, of k] assms(1,2) unfolding on_screen_coord by auto
next
  case False
  then obtain k where k: "k \<le> far y1 y2" "q = (walk_short y1 y2 x1 x2 k, walk_long y1 y2 k)"
    using assms(3) by (auto simp: straight_points_def less_Suc_eq_le simp del: upt_Suc)
  have "far x1 x2 \<le> far y1 y2" using False by simp
  from walk_between [OF this k(1)] assms(1,2) show ?thesis
    unfolding on_screen_coord k(2) by auto
qed

lemma far_on_screen: "on_screen x1 y1 \<Longrightarrow> on_screen x2 y2 \<Longrightarrow> far x1 x2 < 240 \<and> far y1 y2 < 320"
  using coord_bounds(1) [of x1] coord_bounds(1) [of x2] coord_bounds(1) [of y1] coord_bounds(1) [of y2]
  by (auto simp: far_def on_screen_coord)

text \<open>The marks of a list of pixels in the text colour.\<close>

definition pixel_marks :: "lcd \<Rightarrow> point list \<Rightarrow> mark list" where
  "pixel_marks s ps = map (\<lambda>q. dot s (TextColor s) (ucast (fst q), snd q)) ps"

lemma paints_pixels:
  assumes "\<forall>q \<in> set ps. on_screen (fst q) (snd q)"
  shows "paints (DeviceIdCode s) (concat (map (\<lambda>q. PutPixel s (fst q) (snd q)) ps)) (pixel_marks s ps)"
proof -
  have "concat (map (\<lambda>q. if on_screen (fst q) (snd q) then [dot s (TextColor s) (ucast (fst q), snd q)]
      else []) ps) = pixel_marks s ps"
    using assms by (induction ps) (simp_all add: pixel_marks_def)
  then show ?thesis using pixel_plotter.plot_all [of s ps] by simp
qed

text \<open>
  C18: Between two points of the screen the line routine returns, and what it makes are single
  pixels in the text colour: as many as the longer of the two distances and one more, the first
  and the last of them the two ends, each next to the one before, and none further than half a
  pixel from the straight line.
\<close>

theorem lcd_line_straight:
  assumes "on_screen x1 y1" "on_screen x2 y2"
  shows "\<exists>e ps. LCD_DrawUniLine s x1 y1 x2 y2 = Some e \<and>
     paints (DeviceIdCode s) e (pixel_marks s ps) \<and>
     length ps = max (far x1 x2) (far y1 y2) + 1 \<and> hd ps = (x1, y1) \<and> last ps = (x2, y2) \<and>
     (\<forall>q \<in> set ps. on_screen (fst q) (snd q) \<and> near_line (x1, y1) (x2, y2) q) \<and>
     (\<forall>i. Suc i < length ps \<longrightarrow> adjacent (ps ! i) (ps ! Suc i))"
proof (intro exI conjI)
  have "far x1 x2 < 16384" "far y1 y2 < 16384" using far_on_screen [OF assms] by simp_all
  then show "LCD_DrawUniLine s x1 y1 x2 y2 =
      Some (concat (map (\<lambda>q. PutPixel s (fst q) (snd q)) (straight_points x1 y1 x2 y2)))"
    by (rule DrawUniLine_pixels)
qed (use straight_points_on_screen [OF assms] in \<open>auto simp: straight_points_shape(1) intro: paints_pixels straight_points_shape(2-)\<close>)

definition some_lcd :: lcd where
  "some_lcd = \<lparr>TextColor = 0xFFE0, BackColor = 0xF800, DeviceIdCode = 0x9320,
     LCD_Currentfonts = \<lparr>font_table = [], font_Width = 16, font_Height = 24\<rparr>\<rparr>"

lemma lcd_line_straight_witness:
  "\<exists>e ps. LCD_DrawUniLine some_lcd 10 20 230 300 = Some e \<and>
     paints (DeviceIdCode some_lcd) e (pixel_marks some_lcd ps) \<and>
     length ps = max (far 10 230) (far 20 300) + 1 \<and> hd ps = (10, 20) \<and> last ps = (230, 300) \<and>
     (\<forall>q \<in> set ps. on_screen (fst q) (snd q) \<and> near_line (10, 20) (230, 300) q) \<and>
     (\<forall>i. Suc i < length ps \<longrightarrow> adjacent (ps ! i) (ps ! Suc i))"
  by (rule lcd_line_straight) (simp_all add: on_screen_def LCD_PIXEL_HEIGHT_def LCD_PIXEL_WIDTH_def)

end
