(* ===== verification/LcdCircle.thy ===== *)
theory LcdCircle
  imports LcdLine
begin

text \<open>
  Circles.  The loop keeps a decision variable \<open>D\<close> and walks one eighth of the circle, eight
  pixels a round; its variables are 32 bits wide.  The main results: on the screen the pixels of a circle
  of radius 1 or more are within half a pixel of it, and the circle of radius 0 does not come to its end in two
  thousand million rounds.
\<close>

section \<open>The loops\<close>

text \<open>The two instructions that the body of the loop consists of; the sums are computed in 32
  bits and cut to the parameters of \<open>LCD_SetCursor\<close>.\<close>

definition circle_spot :: "lcd \<Rightarrow> u32 \<Rightarrow> u32 \<Rightarrow> lcd_ev list" where
  "circle_spot s x y = LCD_SetCursor s (ucast x) (ucast y) @ LCD_WriteRAMWord (TextColor s)"

definition circle_round :: "lcd \<Rightarrow> u8 \<Rightarrow> u16 \<Rightarrow> u32 \<Rightarrow> u32 \<Rightarrow> lcd_ev list" where
  "circle_round s Xpos Ypos CurX CurY =
     (let X = ucast Xpos; Y = ucast Ypos
      in circle_spot s (X + CurX) (Y + CurY) @ circle_spot s (X + CurX) (Y - CurY) @
         circle_spot s (X - CurX) (Y + CurY) @ circle_spot s (X - CurX) (Y - CurY) @
         circle_spot s (X + CurY) (Y + CurX) @ circle_spot s (X + CurY) (Y - CurX) @
         circle_spot s (X - CurY) (Y + CurX) @ circle_spot s (X - CurY) (Y - CurX))"

text \<open>What both kinds of circles do to their variables.\<close>

definition circle_next :: "u32 \<times> u32 \<times> u32 \<Rightarrow> u32 \<times> u32 \<times> u32" where
  "circle_next = (\<lambda>(D, CurX, CurY).
     if D <s 0 then (D + (push_bit 2 CurX + 6), CurX + 1, CurY)
     else (D + (push_bit 2 (CurX - CurY) + 10), CurX + 1, CurY - 1))"

definition circle_start :: "u16 \<Rightarrow> u32 \<times> u32 \<times> u32" where
  "circle_start Radius = (3 - push_bit 1 (ucast Radius), 0, ucast Radius)"

fun circle_loop :: "nat \<Rightarrow> (u32 \<Rightarrow> u32 \<Rightarrow> lcd_ev list) \<Rightarrow> u32 \<times> u32 \<times> u32 \<Rightarrow> lcd_ev list option" where
  "circle_loop 0 body v = None"
| "circle_loop (Suc n) body (D, CurX, CurY) =
     (if CurX \<le> CurY
      then map_option ((@) (body CurX CurY)) (circle_loop n body (circle_next (D, CurX, CurY)))
      else Some [])"

definition LCD_DrawCircle :: "nat \<Rightarrow> lcd \<Rightarrow> u8 \<Rightarrow> u16 \<Rightarrow> u16 \<Rightarrow> lcd_ev list option" where
  "LCD_DrawCircle fuel s Xpos Ypos Radius =
     circle_loop fuel (circle_round s Xpos Ypos) (circle_start Radius)"

definition full_round :: "lcd \<Rightarrow> u16 \<Rightarrow> u16 \<Rightarrow> u32 \<Rightarrow> u32 \<Rightarrow> lcd_ev list" where
  "full_round s Xpos Ypos CurX CurY =
     (let X = ucast Xpos; Y = ucast Ypos
      in (if CurY > 0
          then LCD_DrawLine s (ucast (X - CurX)) (ucast (Y + CurY)) (ucast (2 * CurY)) LCD_DIR_HORIZONTAL @
               LCD_DrawLine s (ucast (X + CurX)) (ucast (Y + CurY)) (ucast (2 * CurY)) LCD_DIR_HORIZONTAL
          else []) @
         (if CurX > 0
          then LCD_DrawLine s (ucast (X - CurY)) (ucast (Y + CurX)) (ucast (2 * CurX)) LCD_DIR_HORIZONTAL @
               LCD_DrawLine s (ucast (X + CurY)) (ucast (Y + CurX)) (ucast (2 * CurX)) LCD_DIR_HORIZONTAL
          else []))"

definition LCD_DrawFullCircle :: "nat \<Rightarrow> lcd \<Rightarrow> u16 \<Rightarrow> u16 \<Rightarrow> u16 \<Rightarrow> (lcd_ev list \<times> lcd) option" where
  "LCD_DrawFullCircle fuel s Xpos Ypos Radius =
     (let s = LCD_SetTextColor (BackColor s) s
      in case circle_loop fuel (full_round s Xpos Ypos) (circle_start Radius) of
           None \<Rightarrow> None
         | Some e \<Rightarrow>
             let s = LCD_SetTextColor (TextColor s) s
             in map_option (\<lambda>e'. (e @ e', s)) (LCD_DrawCircle fuel s (ucast Xpos) Ypos Radius))"

section \<open>The decision variable\<close>

text \<open>
  \<open>D\<close> is the sum of the distances, in squares, of the two pixels the next round chooses from:
  \<open>2 (x + 1)^2 + y^2 + (y - 1)^2 - 2 r^2\<close>.  The error of a pixel is between \<open>- y\<close> and \<open>y - 1\<close>.
\<close>

definition circle_err :: "nat \<Rightarrow> nat \<times> nat \<Rightarrow> int" where
  "circle_err r q = (int (fst q))\<^sup>2 + (int (snd q))\<^sup>2 - (int r)\<^sup>2"

definition decision :: "nat \<Rightarrow> nat \<Rightarrow> nat \<Rightarrow> int" where
  "decision r x y = 2 * circle_err r (x, y) + 4 * int x - 2 * int y + 3"

definition circle_inv :: "nat \<Rightarrow> nat \<Rightarrow> nat \<Rightarrow> bool" where
  "circle_inv r x y \<longleftrightarrow> y \<le> r \<and> - int y \<le> circle_err r (x, y) \<and>
     (x \<le> y \<longrightarrow> 1 \<le> y \<and> circle_err r (x, y) \<le> int y - 1)"

lemma circle_inv_start: "1 \<le> r \<Longrightarrow> circle_inv r 0 r"
  by (simp add: circle_inv_def circle_err_def)

lemma circle_err_right: "circle_err r (Suc x, y) = circle_err r (x, y) + 2 * int x + 1"
  by (simp add: circle_err_def power2_eq_square algebra_simps)

lemma circle_err_down:
  "1 \<le> y \<Longrightarrow> circle_err r (Suc x, y - 1) = circle_err r (x, y) + 2 * int x - 2 * int y + 2"
  by (simp add: circle_err_def power2_eq_square algebra_simps of_nat_diff)

lemma circle_inv_next:
  assumes "circle_inv r x y" "x \<le> y"
  shows "decision r x y < 0 \<Longrightarrow> circle_inv r (Suc x) y"
    and "\<not> decision r x y < 0 \<Longrightarrow> circle_inv r (Suc x) (y - 1)"
    and "decision r (Suc x) y = decision r x y + 4 * int x + 6"
    and "decision r (Suc x) (y - 1) = decision r x y + 4 * (int x - int y) + 10"
    and "\<bar>decision r x y\<bar> \<le> 4 * int r + 3"
proof -
  have b: "y \<le> r" "1 \<le> y" "- int y \<le> circle_err r (x, y)" "circle_err r (x, y) \<le> int y - 1"
    using assms by (simp_all add: circle_inv_def)
  show "circle_inv r (Suc x) y" if "decision r x y < 0"
    using that b assms(2) by (simp add: circle_inv_def circle_err_right decision_def)
  show "circle_inv r (Suc x) (y - 1)" if "\<not> decision r x y < 0"
    using that b assms(2) circle_err_down [OF b(2), of r x]
    by (auto simp: circle_inv_def decision_def of_nat_diff)
  show "decision r (Suc x) y = decision r x y + 4 * int x + 6"
    by (simp add: decision_def circle_err_right)
  show "decision r (Suc x) (y - 1) = decision r x y + 4 * (int x - int y) + 10"
    using b(2) circle_err_down [OF b(2), of r x] by (simp add: decision_def of_nat_diff)
  show "\<bar>decision r x y\<bar> \<le> 4 * int r + 3"
    using b assms(2) by (simp add: decision_def)
qed

section \<open>The loop on words\<close>

lemma sint_u32_of_int:
  assumes "\<bar>d\<bar> < 2 ^ 31"
  shows "(of_int d :: u32) <s 0 \<longleftrightarrow> d < 0"
proof -
  have "sint (of_int d :: u32) = signed_take_bit 31 d"
    by (simp add: signed_of_int)
  also have "\<dots> = d"
    using assms by (intro signed_take_bit_int_eq_self) auto
  finally show ?thesis by (simp add: word_sless_alt)
qed

definition circle_words :: "nat \<Rightarrow> nat \<Rightarrow> nat \<Rightarrow> u32 \<times> u32 \<times> u32" where
  "circle_words r x y = (of_int (decision r x y), of_nat x, of_nat y)"

lemma circle_start_words: "circle_start Radius = circle_words (unat Radius) 0 (unat Radius)"
proof -
  have "(ucast Radius :: u32) = of_nat (unat Radius)"
    by simp
  then show ?thesis
    by (simp add: circle_start_def circle_words_def decision_def circle_err_def push_bit_eq_mult)
qed

lemma circle_next_words:
  assumes "circle_inv r x y" "x \<le> y" "r < 65536"
  shows "circle_next (circle_words r x y) =
    (if decision r x y < 0 then circle_words r (Suc x) y else circle_words r (Suc x) (y - 1))"
proof -
  have y: "1 \<le> y" using assms by (simp add: circle_inv_def)
  have "\<bar>decision r x y\<bar> < 2 ^ 31"
    using circle_inv_next(5) [OF assms(1,2)] assms(3) by simp
  note neg = sint_u32_of_int [OF this]
  have "(of_nat (y - 1) :: u32) = of_nat y - 1" using y by (simp add: of_nat_diff)
  moreover have "(of_int (decision r (Suc x) y) :: u32) = of_int (decision r x y) + (4 * of_nat x + 6)"
    unfolding circle_inv_next(3) [OF assms(1,2)] by simp
  moreover have "(of_int (decision r (Suc x) (y - 1)) :: u32) =
      of_int (decision r x y) + (4 * (of_nat x - of_nat y) + 10)"
    unfolding circle_inv_next(4) [OF assms(1,2)] by simp
  ultimately show ?thesis
    by (simp add: circle_next_def circle_words_def neg push_bit_eq_mult mult.commute add.commute
        del: One_nat_def)
qed

text \<open>
  One eighth of the circle as the list of its pixels: a step to the right every time, downwards
  now and then, to the diagonal.
\<close>

definition down_one :: "nat \<times> nat \<Rightarrow> nat \<times> nat \<Rightarrow> bool" where
  "down_one p q \<longleftrightarrow> snd q = snd p \<or> snd q + 1 = snd p"

definition eighth :: "nat \<Rightarrow> nat \<Rightarrow> nat \<Rightarrow> (nat \<times> nat) list \<Rightarrow> bool" where
  "eighth r x y ps \<longleftrightarrow>
     (if x \<le> y
      then ps \<noteq> [] \<and> hd ps = (x, y) \<and> map fst ps = [x..<x + length ps] \<and>
        successively down_one ps \<and> snd (last ps) \<le> fst (last ps) + 1 \<and>
        (\<forall>q \<in> set ps. fst q \<le> snd q \<and> snd q \<le> r \<and>
           - int (snd q) \<le> circle_err r q \<and> circle_err r q < int (snd q))
      else ps = [])"

lemma eighth_Cons:
  assumes "eighth r (Suc x) y' ps" "down_one (x, y) (Suc x, y')" "x \<le> y" "circle_inv r x y"
  shows "eighth r x y ((x, y) # ps)"
proof -
  have q: "y \<le> r" "- int y \<le> circle_err r (x, y)" "circle_err r (x, y) < int y"
    using assms(3,4) by (auto simp: circle_inv_def)
  show ?thesis
  proof (cases "Suc x \<le> y'")
    case True
    then obtain ps' where ps: "ps = (Suc x, y') # ps'"
      using assms(1) by (cases ps) (auto simp: eighth_def)
    have "[x..<x + length ((x, y) # ps)] = x # [Suc x..<Suc x + length ps]"
      by (simp add: upt_conv_Cons del: upt_Suc)
    then show ?thesis
      using assms(1-3) q True by (auto simp: eighth_def ps)
  next
    case False
    then show ?thesis using assms(1-3) q by (auto simp: eighth_def down_one_def)
  qed
qed

lemma circle_loop_eighth:
  assumes "circle_inv r x y" "r < 65536" "r + 2 \<le> n + x" "x \<le> r + 1"
  shows "\<exists>ps. circle_loop n body (circle_words r x y) =
      Some (concat (map (\<lambda>q. body (of_nat (fst q)) (of_nat (snd q))) ps)) \<and> eighth r x y ps"
  using assms(1,3,4)
proof (induction n arbitrary: x y)
  case (Suc n)
  have y: "y \<le> r" using Suc.prems(1) by (simp add: circle_inv_def)
  have le: "(of_nat x :: u32) \<le> of_nat y \<longleftrightarrow> x \<le> y"
    using Suc.prems(3) y assms(2) by (simp add: word_le_nat_alt unat_of_nat)
  show ?case
  proof (cases "x \<le> y")
    case True
    define y' where "y' = (if decision r x y < 0 then y else y - 1)"
    have step: "circle_next (circle_words r x y) = circle_words r (Suc x) y'"
      using circle_next_words [OF Suc.prems(1) True assms(2)] by (simp add: y'_def)
    have inv: "circle_inv r (Suc x) y'"
      using circle_inv_next(1,2) [OF Suc.prems(1) True] by (simp add: y'_def)
    have down: "down_one (x, y) (Suc x, y')"
      using True Suc.prems(1) by (auto simp: down_one_def y'_def circle_inv_def)
    obtain ps where ps: "circle_loop n body (circle_words r (Suc x) y') =
        Some (concat (map (\<lambda>q. body (of_nat (fst q)) (of_nat (snd q))) ps))" "eighth r (Suc x) y' ps"
      using Suc.IH [OF inv] Suc.prems(2,3) True y by auto
    have "circle_loop (Suc n) body (circle_words r x y) =
        Some (concat (map (\<lambda>q. body (of_nat (fst q)) (of_nat (snd q))) ((x, y) # ps)))"
      using ps(1) True le step by (simp add: circle_words_def)
    then show ?thesis using eighth_Cons [OF ps(2) down True Suc.prems(1)] by blast
  next
    case False
    then show ?thesis using le by (auto simp: circle_words_def eighth_def)
  qed
qed simp

section \<open>The pixels of a circle\<close>

lemma ucast_of_int: "(ucast (of_int k :: u32) :: u8) = of_int k" "(ucast (of_int k :: u32) :: u16) = of_int k"
  by (transfer; simp)+

lemma ucast_cut:
  "(ucast (a + b :: u32) :: u8) = ucast a + ucast b" "(ucast (a - b :: u32) :: u8) = ucast a - ucast b"
  "(ucast (a + b :: u32) :: u16) = ucast a + ucast b" "(ucast (a - b :: u32) :: u16) = ucast a - ucast b"
proof -
  have c: "(ucast w :: u8) = of_int (uint w)" "(ucast w :: u16) = of_int (uint w)" for w :: u32
    using ucast_of_int [of "uint w"] by simp_all
  have sum: "a + b = of_int (uint a + uint b)" "a - b = of_int (uint a - uint b)" by simp_all
  show "(ucast (a + b) :: u8) = ucast a + ucast b" "(ucast (a - b) :: u8) = ucast a - ucast b"
    "(ucast (a + b) :: u16) = ucast a + ucast b" "(ucast (a - b) :: u16) = ucast a - ucast b"
    unfolding sum ucast_of_int by (simp_all only: c of_int_add of_int_diff)
qed

lemma ucast_back:
  "(ucast (of_nat n :: u32) :: u8) = of_nat n" "(ucast (ucast (c :: u8) :: u32) :: u8) = c"
  "(ucast (of_nat n :: u32) :: u16) = of_nat n" "(ucast (ucast (d :: u16) :: u32) :: u16) = d"
  by (transfer; simp)+

definition octant_dots :: "u8 \<Rightarrow> u16 \<Rightarrow> nat \<times> nat \<Rightarrow> (u8 \<times> u16) list" where
  "octant_dots X Y = (\<lambda>(x, y).
     [(X + of_nat x, Y + of_nat y), (X + of_nat x, Y - of_nat y),
      (X - of_nat x, Y + of_nat y), (X - of_nat x, Y - of_nat y),
      (X + of_nat y, Y + of_nat x), (X + of_nat y, Y - of_nat x),
      (X - of_nat y, Y + of_nat x), (X - of_nat y, Y - of_nat x)])"

lemma paints_spot: "paints (DeviceIdCode s) (circle_spot s x y) [dot s (TextColor s) (ucast x, ucast y)]"
  using paints_run [of s "ucast x" "ucast y" "[TextColor s]"]
  by (simp add: circle_spot_def WriteRAMWord_run dot_def)

lemma paints_round:
  "paints (DeviceIdCode s) (circle_round s X Y (of_nat (fst q)) (of_nat (snd q)))
     (map (dot s (TextColor s)) (octant_dots X Y q))"
proof -
  obtain x y where q: "q = (x, y)" by force
  have app: "paints (DeviceIdCode s) (circle_spot s a b @ e) (dot s (TextColor s) (ucast a, ucast b) # ms)"
    if "paints (DeviceIdCode s) e ms" for a b e ms
    using paints_append [OF paints_spot that] by simp
  have "octant_dots X Y q = map (\<lambda>(a, b). (ucast (a :: u32), ucast (b :: u32)))
      (let X = ucast X; Y = ucast Y; x = of_nat x; y = of_nat y
       in [(X + x, Y + y), (X + x, Y - y), (X - x, Y + y), (X - x, Y - y),
           (X + y, Y + x), (X + y, Y - x), (X - y, Y + x), (X - y, Y - x)])"
    by (simp add: octant_dots_def q Let_def ucast_cut ucast_back)
  then show ?thesis
    unfolding circle_round_def Let_def q fst_conv snd_conv
    by (simp only: list.map prod.case) (intro app paints_spot)
qed

interpretation circle_plotter:
  plotter "\<lambda>q. circle_round s X Y (of_nat (fst q)) (of_nat (snd q))"
    "\<lambda>q. map (dot s (TextColor s)) (octant_dots X Y q)" "paints (DeviceIdCode s)"
  for s X Y
  by unfold_locales (simp_all add: paints_append paints_round)

text \<open>On the screen a place off the centre by no more than the radius is what the words say.\<close>

lemma unat_offsets:
  assumes "n \<le> unat r" "unat r \<le> unat X" "unat X + unat r < 240"
  shows "int (unat ((X :: u8) + of_nat n)) = int (unat X) + int n"
    and "int (unat (X - of_nat n)) = int (unat X) - int n"
proof -
  have n: "unat (of_nat n :: u8) = n" using assms by (simp add: unat_of_nat)
  have "unat (X + of_nat n) = unat X + n"
    using unat_add_lem [of X "of_nat n"] n assms by simp
  then show "int (unat (X + of_nat n)) = int (unat X) + int n" by simp
  have "of_nat n \<le> X" using n assms by (simp add: word_le_nat_alt)
  then have "unat (X - of_nat n) = unat X - n" using n by (simp add: unat_sub)
  then show "int (unat (X - of_nat n)) = int (unat X) - int n" using assms by (simp add: of_nat_diff)
qed

lemma unat_offsets_u16:
  assumes "n \<le> unat (r :: u16)" "unat r \<le> unat Y" "unat Y + unat r < 320"
  shows "int (unat ((Y :: u16) + of_nat n)) = int (unat Y) + int n"
    and "int (unat (Y - of_nat n)) = int (unat Y) - int n"
proof -
  have n: "unat (of_nat n :: u16) = n" using assms by (simp add: unat_of_nat)
  have "unat (Y + of_nat n) = unat Y + n"
    using unat_add_lem [of Y "of_nat n"] n assms by simp
  then show "int (unat (Y + of_nat n)) = int (unat Y) + int n" by simp
  have "of_nat n \<le> Y" using n assms by (simp add: word_le_nat_alt)
  then have "unat (Y - of_nat n) = unat Y - n" using n by (simp add: unat_sub)
  then show "int (unat (Y - of_nat n)) = int (unat Y) - int n" using assms by (simp add: of_nat_diff)
qed

definition disc_err :: "u8 \<Rightarrow> u16 \<Rightarrow> u16 \<Rightarrow> u8 \<times> u16 \<Rightarrow> int" where
  "disc_err Xpos Ypos Radius q =
     (int (unat (fst q)) - int (unat Xpos))\<^sup>2 + (int (unat (snd q)) - int (unat Ypos))\<^sup>2
       - (int (unat Radius))\<^sup>2"

lemma octant_dots_err:
  assumes "unat r \<le> unat X" "unat X + unat r < 240" "unat r \<le> unat Y" "unat Y + unat r < 320"
    and "fst p \<le> snd p" "snd p \<le> unat r" "q \<in> set (octant_dots X Y p)"
  shows "disc_err X Y r q = circle_err (unat r) p" and "unat (fst q) < 240" "unat (snd q) < 320"
proof -
  obtain x y where p: "p = (x, y)" by force
  have xy: "x \<le> unat r" "y \<le> unat r" using assms(5,6) by (simp_all add: p)
  note u = unat_offsets [OF xy(1) assms(1,2)] unat_offsets [OF xy(2) assms(1,2)]
    unat_offsets_u16 [OF xy(1) assms(3,4)] unat_offsets_u16 [OF xy(2) assms(3,4)]
  show "disc_err X Y r q = circle_err (unat r) p"
    using assms(7) by (auto simp: octant_dots_def p disc_err_def circle_err_def u simp del: of_nat_unat)
  have "int (unat (fst q)) \<le> int (unat X) + int (unat r)" "int (unat (snd q)) \<le> int (unat Y) + int (unat r)"
    using assms(7) xy by (auto simp: octant_dots_def p u simp del: of_nat_unat)
  then show "unat (fst q) < 240" "unat (snd q) < 320" using assms(2,4) by linarith+
qed

text \<open>What the error of a pixel says of its distance to the centre: less than half a pixel off the radius.\<close>

lemma half_a_pixel:
  assumes "\<bar>e\<bar> < (r :: int)"
  shows "(2 * r - 1)\<^sup>2 < 4 * (e + r\<^sup>2) \<and> 4 * (e + r\<^sup>2) < (2 * r + 1)\<^sup>2"
  using assms by (auto simp: power2_eq_square algebra_simps abs_less_iff)

lemma circle_err_strict:
  assumes "1 \<le> r" "snd q \<le> r" "- int (snd q) \<le> circle_err r q" "circle_err r q < int (snd q)"
  shows "\<bar>circle_err r q\<bar> < int r"
proof (cases "snd q = r")
  case True
  then have "0 \<le> circle_err r q" by (simp add: circle_err_def)
  then show ?thesis using True assms(4) by simp
qed (use assms in linarith)

text \<open>
  C19: A circle of radius 1 or more with its centre and its edge on the screen is drawn in as many rounds as its radius
  and two more at most: single pixels in the text colour, eight for every place of an unbroken
  eighth of the circle that begins at the top and goes on to the diagonal, all of them on
  the screen.  The distance of each to the centre differs from the radius by less than half a pixel, stated in squares:
  four times its square is between those of twice the radius less one and twice the radius and one.  With radius 0 the
  loop runs through \<open>2^31\<close> rounds and more (\<open>circle_radius_0\<close>; \<open>stm3210c_eval_lcd.c\<close> line 1179).
\<close>

theorem lcd_circle_round:
  assumes "1 \<le> unat Radius" "unat Radius \<le> unat Xpos" "unat Xpos + unat Radius < 240"
    and "unat Radius \<le> unat Ypos" "unat Ypos + unat Radius < 320" "unat Radius + 2 \<le> fuel"
  shows "\<exists>e ps. LCD_DrawCircle fuel s Xpos Ypos Radius = Some e \<and>
     paints (DeviceIdCode s) e (map (dot s (TextColor s)) (concat (map (octant_dots Xpos Ypos) ps))) \<and>
     map fst ps = [0..<length ps] \<and> hd ps = (0, unat Radius) \<and> successively down_one ps \<and>
     snd (last ps) \<le> fst (last ps) + 1 \<and>
     (\<forall>q \<in> set (concat (map (octant_dots Xpos Ypos) ps)).
        unat (fst q) < 240 \<and> unat (snd q) < 320 \<and>
        \<bar>disc_err Xpos Ypos Radius q\<bar> < int (unat Radius) \<and>
        (2 * int (unat Radius) - 1)\<^sup>2 < 4 * ((int (unat (fst q)) - int (unat Xpos))\<^sup>2 + (int (unat (snd q)) - int (unat Ypos))\<^sup>2) \<and>
        4 * ((int (unat (fst q)) - int (unat Xpos))\<^sup>2 + (int (unat (snd q)) - int (unat Ypos))\<^sup>2) < (2 * int (unat Radius) + 1)\<^sup>2)"
proof -
  let ?r = "unat Radius"
  obtain ps where loop: "LCD_DrawCircle fuel s Xpos Ypos Radius =
      Some (concat (map (\<lambda>q. circle_round s Xpos Ypos (of_nat (fst q)) (of_nat (snd q))) ps))"
    and ps: "eighth ?r 0 ?r ps"
    using circle_loop_eighth [OF circle_inv_start [OF assms(1)], of fuel "circle_round s Xpos Ypos"] assms(6)
    by (auto simp: LCD_DrawCircle_def circle_start_words)
  have "paints (DeviceIdCode s)
      (concat (map (\<lambda>q. circle_round s Xpos Ypos (of_nat (fst q)) (of_nat (snd q))) ps))
      (map (dot s (TextColor s)) (concat (map (octant_dots Xpos Ypos) ps)))"
    using circle_plotter.plot_all [of s Xpos Ypos ps] by (simp add: map_concat comp_def)
  moreover have "unat (fst q) < 240 \<and> unat (snd q) < 320 \<and> \<bar>disc_err Xpos Ypos Radius q\<bar> < int ?r \<and>
      (2 * int ?r - 1)\<^sup>2 < 4 * ((int (unat (fst q)) - int (unat Xpos))\<^sup>2 + (int (unat (snd q)) - int (unat Ypos))\<^sup>2) \<and>
      4 * ((int (unat (fst q)) - int (unat Xpos))\<^sup>2 + (int (unat (snd q)) - int (unat Ypos))\<^sup>2) < (2 * int ?r + 1)\<^sup>2"
    if q: "q \<in> set (concat (map (octant_dots Xpos Ypos) ps))" for q
  proof -
    obtain p where p: "p \<in> set ps" "q \<in> set (octant_dots Xpos Ypos p)" using q by auto
    then have b: "fst p \<le> snd p" "snd p \<le> ?r" "- int (snd p) \<le> circle_err ?r p" "circle_err ?r p < int (snd p)"
      using ps by (simp_all add: eighth_def)
    note d = octant_dots_err [OF assms(2-5) b(1,2) p(2)]
    have e: "\<bar>disc_err Xpos Ypos Radius q\<bar> < int ?r" unfolding d(1) by (rule circle_err_strict [OF assms(1) b(2-4)])
    have "disc_err Xpos Ypos Radius q + (int ?r)\<^sup>2 = (int (unat (fst q)) - int (unat Xpos))\<^sup>2 + (int (unat (snd q)) - int (unat Ypos))\<^sup>2"
      by (simp add: disc_err_def)
    then show ?thesis using half_a_pixel [OF e] e d(2,3) by metis
  qed
  ultimately show ?thesis using loop ps by (intro exI [of _ ps] exI conjI) (auto simp: eighth_def)
qed

lemma lcd_circle_round_witness:
  "\<exists>e ps. LCD_DrawCircle 52 some_lcd 100 160 50 = Some e \<and>
     paints (DeviceIdCode some_lcd) e
       (map (dot some_lcd (TextColor some_lcd)) (concat (map (octant_dots 100 160) ps))) \<and>
     map fst ps = [0..<length ps] \<and> hd ps = (0, unat (50 :: u16)) \<and> successively down_one ps \<and>
     snd (last ps) \<le> fst (last ps) + 1 \<and>
     (\<forall>q \<in> set (concat (map (octant_dots 100 160) ps)).
        unat (fst q) < 240 \<and> unat (snd q) < 320 \<and>
        \<bar>disc_err 100 160 50 q\<bar> < int (unat (50 :: u16)) \<and>
        (2 * int (unat (50 :: u16)) - 1)\<^sup>2 < 4 * ((int (unat (fst q)) - int (unat (100 :: u8)))\<^sup>2 + (int (unat (snd q)) - int (unat (160 :: u16)))\<^sup>2) \<and>
        4 * ((int (unat (fst q)) - int (unat (100 :: u8)))\<^sup>2 + (int (unat (snd q)) - int (unat (160 :: u16)))\<^sup>2) < (2 * int (unat (50 :: u16)) + 1)\<^sup>2)"
  by (rule lcd_circle_round) simp_all

section \<open>Radius 0\<close>

text \<open>
  With radius 0 the first round counts \<open>CurY\<close> down from 0, to \<open>2^32 - 1\<close>, and \<open>CurX\<close> has to
  climb until it meets it half way: \<open>2^31\<close> rounds are not enough.
\<close>

lemma circle_loop_apart:
  "x + 2 * n \<le> y + 1 \<Longrightarrow> y < 2 ^ 32 \<Longrightarrow> circle_loop n body (D, of_nat x, of_nat y) = None"
proof (induction n arbitrary: x y D)
  case (Suc n)
  have le: "(of_nat x :: u32) \<le> of_nat y"
    using Suc.prems by (simp add: word_le_nat_alt unat_of_nat)
  define D' where "D' = fst (circle_next (D, of_nat x, of_nat y))"
  have "circle_next (D, of_nat x, of_nat y) = (D', of_nat (Suc x), of_nat y) \<or>
      (0 < y \<and> circle_next (D, of_nat x, of_nat y) = (D', of_nat (Suc x), of_nat (y - 1))) \<or> y = 0"
    by (cases y) (auto simp: circle_next_def D'_def)
  then show ?case
  proof (elim disjE)
    assume "circle_next (D, of_nat x, of_nat y) = (D', of_nat (Suc x), of_nat y)"
    then show ?thesis using Suc.IH [of "Suc x" y D'] Suc.prems le by simp
  next
    assume "0 < y \<and> circle_next (D, of_nat x, of_nat y) = (D', of_nat (Suc x), of_nat (y - 1))"
    then show ?thesis using Suc.IH [of "Suc x" "y - 1" D'] Suc.prems le by simp
  next
    assume "y = 0"
    then have "n = 0" using Suc.prems(1) by simp
    then show ?thesis using le by simp
  qed
qed simp

lemma circle_radius_0:
  assumes "fuel \<le> 2 ^ 31"
  shows "LCD_DrawCircle fuel s Xpos Ypos 0 = None"
proof (cases fuel)
  case (Suc n)
  have "\<not> (3 :: u32) <s 0" using sint_u32_of_int [of 3] by simp
  then have "circle_next (circle_start 0) = (13, 1, - 1)"
    by (simp add: circle_next_def circle_start_def)
  moreover have "(1 :: u32) = of_nat 1" "(- 1 :: u32) = of_nat (2 ^ 32 - 1)"
    by simp_all
  ultimately have "circle_loop n (circle_round s Xpos Ypos) (circle_next (circle_start 0)) = None"
    using circle_loop_apart [of 1 n "2 ^ 32 - 1"] assms Suc by simp
  then show ?thesis by (simp add: LCD_DrawCircle_def Suc circle_start_def)
qed (simp add: LCD_DrawCircle_def)

section \<open>The text colour after the filled shapes\<close>

text \<open>
  Both filled shapes set the text colour to the background colour and then to itself: what is
  drawn afterwards, the outline of the circle first of all, is invisible.
\<close>

lemma DrawFullRect_colours:
  "TextColor (snd (LCD_DrawFullRect s x y w h)) = BackColor s"
  by (simp add: LCD_DrawFullRect_def LCD_SetTextColor_def Let_def)

lemma DrawFullCircle_colours:
  "LCD_DrawFullCircle fuel s x y r = Some (e, s') \<Longrightarrow> TextColor s' = BackColor s"
  by (auto simp: LCD_DrawFullCircle_def LCD_SetTextColor_def Let_def split: option.splits)

text \<open>A height of 0 is counted down to 65535 rows.\<close>

lemma DrawFullRect_height_0:
  "\<exists>frame. LCD_DrawFullRect s x y w 0 =
     (frame @ full_rows (s\<lparr>TextColor := BackColor s\<rparr>) x (y - 1) (w - 2) 65535,
      s\<lparr>TextColor := BackColor s\<rparr>)"
proof -
  have "unat (0 - 1 :: u16) = 65535" by (simp add: unsigned_minus_1_eq_mask mask_eq_exp_minus_1)
  then show ?thesis unfolding LCD_DrawFullRect_def LCD_SetTextColor_def Let_def by auto
qed

end
