(* ===== verification/LcdPoly.thy ===== *)
theory LcdPoly
  imports LcdCircle "HOL-Library.Multiset"
begin

text \<open>
  The filled polygon, \<open>LCD_FillPolyLine\<close>: for every row of the bounding box the columns where
  the row meets an edge, sorted and taken in pairs.  The main results: the nodes of a row are
  an even number, the sort ends and sorts, and with at most 200 corners the routine stays in its
  array; with more it need not.
\<close>

section \<open>Nodes\<close>

text \<open>The macros: the rows are the points' first components, the columns the second ones.\<close>

definition POLY_Y :: "point \<Rightarrow> u32" where
  "POLY_Y p = scast (fst p)"

definition POLY_X :: "point \<Rightarrow> u32" where
  "POLY_X p = scast (snd p)"

text \<open>The comparisons are made in \<open>double\<close>, which holds every \<open>int\<close> exactly.\<close>

definition crosses :: "u16 \<Rightarrow> point \<Rightarrow> point \<Rightarrow> bool" where
  "crosses pixelY i j \<longleftrightarrow>
     POLY_Y i <s ucast pixelY \<and> ucast pixelY \<le>s POLY_Y j \<or>
     POLY_Y j <s ucast pixelY \<and> ucast pixelY \<le>s POLY_Y i"

text \<open>
  The column of a node, in 32 bit arithmetic with the division of C, which rounds towards 0.  Only
  products of differences beyond 46340 leave the range of an \<open>int\<close>.
\<close>

definition node_at :: "u16 \<Rightarrow> point \<Rightarrow> point \<Rightarrow> u16" where
  "node_at pixelY i j =
     ucast (POLY_X i +
       of_int (sint ((ucast pixelY - POLY_Y i) * (POLY_X j - POLY_X i)) sdiv sint (POLY_Y j - POLY_Y i)))"

fun nodes_from :: "u16 \<Rightarrow> point \<Rightarrow> point list \<Rightarrow> u16 list" where
  "nodes_from pixelY j [] = []"
| "nodes_from pixelY j (i # ps) =
     (if crosses pixelY i j then node_at pixelY i j # nodes_from pixelY i ps else nodes_from pixelY i ps)"

definition row_nodes :: "u16 \<Rightarrow> point list \<Rightarrow> u16 list" where
  "row_nodes pixelY ps = nodes_from pixelY (last ps) ps"

section \<open>The sort\<close>

definition swap_next :: "nat \<Rightarrow> u16 list \<Rightarrow> u16 list" where
  "swap_next i a = a[i := a ! Suc i, Suc i := a ! i]"

text \<open>An exchange lowers the sum of the elements weighted by their distance to the end.\<close>

primrec weight :: "u16 list \<Rightarrow> nat" where
  "weight [] = 0"
| "weight (x # xs) = Suc (length xs) * unat x + weight xs"

lemma length_swap_next [simp]: "length (swap_next i a) = length a"
  by (simp add: swap_next_def)

lemma weight_swap:
  "Suc i < length a \<Longrightarrow> a ! i > a ! Suc i \<Longrightarrow> weight (swap_next i a) < weight a"
proof (induction i arbitrary: a)
  case 0
  then obtain x y r where "a = x # y # r" by (cases a; cases "tl a") auto
  then show ?case using 0 by (simp add: swap_next_def word_less_nat_alt)
next
  case (Suc i)
  then obtain x r where "a = x # r" by (cases a) auto
  then show ?case using Suc by (auto simp: swap_next_def)
qed

function sort_nodes :: "nat \<Rightarrow> u16 list \<Rightarrow> u16 list" where
  "sort_nodes i nodeX =
     (if Suc i < length nodeX
      then if nodeX ! i > nodeX ! Suc i
           then sort_nodes (i - 1) (swap_next i nodeX)
           else sort_nodes (Suc i) nodeX
      else nodeX)"
  by pat_completeness auto

termination
proof (relation "measure (\<lambda>(i, a). 2 * weight a + (length a - i))")
  show "((i - 1, swap_next i a), (i, a)) \<in> measure (\<lambda>(i, a). 2 * weight a + (length a - i))"
    if "Suc i < length a" "a ! i > a ! Suc i" for i a
    using weight_swap [OF that] that(1) by (simp split: nat_diff_split)
qed auto

declare sort_nodes.simps [simp del]

lemma sorted_take_Suc:
  assumes "sorted (take (Suc i) a)" "Suc i < length a" "a ! i \<le> a ! Suc i"
  shows "sorted (take (Suc (Suc i)) (a :: u16 list))"
proof -
  have "\<forall>x \<in> set (take (Suc i) a). x \<le> a ! i"
    using assms(1,2) by (auto simp: take_Suc_conv_app_nth sorted_append)
  then have "\<forall>x \<in> set (take (Suc i) a). x \<le> a ! Suc i"
    using assms(3) order_trans by blast
  then show ?thesis
    using assms(1,2) by (simp add: take_Suc_conv_app_nth [of "Suc i"] sorted_append)
qed

lemma sort_nodes_sorts:
  "sorted (take (Suc i) a) \<Longrightarrow> sorted (sort_nodes i a) \<and> mset (sort_nodes i a) = mset a"
proof (induction i a rule: sort_nodes.induct)
  case (1 i a)
  show ?case
  proof (cases "Suc i < length a")
    case more: True
    show ?thesis
    proof (cases "a ! i > a ! Suc i")
      case True
      have "take i (swap_next i a) = take i a"
        by (simp add: swap_next_def)
      moreover have "sorted (take i a)"
        using "1.prems" more by (simp add: take_Suc_conv_app_nth sorted_append)
      ultimately have "sorted (take (Suc (i - 1)) (swap_next i a))"
        by (cases i) (simp_all add: sorted_wrt01)
      moreover have "mset (swap_next i a) = mset a"
        using mset_swap [of "Suc i" a i] more by (simp add: swap_next_def)
      ultimately show ?thesis
        using "1.IH"(1) [OF more True] more True by (simp add: sort_nodes.simps [of i])
    next
      case False
      then show ?thesis
        using "1.IH"(2) [OF more False] sorted_take_Suc [OF "1.prems" more] more
        by (simp add: sort_nodes.simps [of i])
    qed
  next
    case False
    then show ?thesis using "1.prems" by (simp add: sort_nodes.simps [of i])
  qed
qed

lemma sort_nodes_sort: "sort_nodes 0 a = sort a"
proof -
  have "sorted (take (Suc 0) a)" by (cases a) simp_all
  from sort_nodes_sorts [OF this] show ?thesis
    by (metis properties_for_sort)
qed

section \<open>Filling\<close>

text \<open>Left, right, top and bottom, from the first point on, which gives its components the other way round.\<close>

definition bound_step :: "u16 \<times> u16 \<times> u16 \<times> u16 \<Rightarrow> point \<Rightarrow> u16 \<times> u16 \<times> u16 \<times> u16" where
  "bound_step = (\<lambda>(L, R, T, B) p.
     let x = snd p; y = fst p
     in (if x < L then x else L, if x > R then x else R, if y < T then y else T, if y > B then y else B))"

definition poly_bounds :: "point \<Rightarrow> point list \<Rightarrow> u16 \<times> u16 \<times> u16 \<times> u16" where
  "poly_bounds p ps = foldl bound_step (fst p, fst p, snd p, snd p) ps"

text \<open>
  The pairs of a row.  The colour is set to the background's before a run and to itself behind
  it.  A last node without a partner would read behind the nodes: \<open>None\<close>.
\<close>

fun fill_pairs :: "lcd \<Rightarrow> u16 \<Rightarrow> u16 \<Rightarrow> u16 \<Rightarrow> u16 list \<Rightarrow> (lcd_ev list \<times> lcd) option" where
  "fill_pairs s pixelY L R [] = Some ([], s)"
| "fill_pairs s pixelY L R [a] = (if a \<ge> R then Some ([], s) else None)"
| "fill_pairs s pixelY L R (a # b # nodeX) =
     (if a \<ge> R then Some ([], s)
      else if b > L
      then let a = (if a < L then L else a); b = (if b > R then R else b);
               s = LCD_SetTextColor (BackColor s) s;
               e = LCD_DrawLine s (ucast pixelY) b (b - a) LCD_DIR_HORIZONTAL;
               s = LCD_SetTextColor (TextColor s) s;
               e' = PutPixel s pixelY b @ PutPixel s pixelY a
           in map_option (\<lambda>(e'', s). (e @ e' @ e'', s)) (fill_pairs s pixelY L R nodeX)
      else fill_pairs s pixelY L R nodeX)"

definition MAX_POLY_CORNERS :: nat where "MAX_POLY_CORNERS = 200"

fun fill_rows :: "lcd \<Rightarrow> u16 \<Rightarrow> u16 \<Rightarrow> point list \<Rightarrow> u16 \<Rightarrow> nat \<Rightarrow> (lcd_ev list \<times> lcd) option" where
  "fill_rows s L R ps pixelY 0 = Some ([], s)"
| "fill_rows s L R ps pixelY (Suc n) =
     (let nodeX = row_nodes pixelY ps
      in if length nodeX > MAX_POLY_CORNERS then None
         else case fill_pairs s pixelY L R (sort_nodes 0 nodeX) of
           None \<Rightarrow> None
         | Some (e, s) \<Rightarrow>
             map_option (\<lambda>(e', s). (e @ e', s)) (fill_rows s L R ps (pixelY + 1) n))"

definition LCD_FillPolyLine :: "lcd \<Rightarrow> point list \<Rightarrow> u16 \<Rightarrow> (lcd_ev list \<times> lcd) option" where
  "LCD_FillPolyLine s Points PointCount =
     (if Points = [] \<or> length Points < unat PointCount then None
      else let ps = take (unat PointCount) Points;
               (L, R, T, B) = poly_bounds (hd Points) (tl ps);
               s = LCD_SetTextColor (BackColor s) s
           in map_option (\<lambda>(e, s). (e, LCD_SetTextColor (TextColor s) s))
                (fill_rows s L R ps T (unat B - unat T)))"

section \<open>Nodes come in pairs\<close>

definition over_row :: "u16 \<Rightarrow> point \<Rightarrow> bool" where
  "over_row pixelY p \<longleftrightarrow> POLY_Y p <s ucast pixelY"

lemma crosses_sides: "crosses pixelY i j \<longleftrightarrow> over_row pixelY i \<noteq> over_row pixelY j"
  by (auto simp: crosses_def over_row_def word_sless_alt word_sle_eq)

lemma nodes_parity:
  "even (length (nodes_from pixelY j ps)) \<longleftrightarrow> over_row pixelY j = over_row pixelY (last (j # ps))"
  by (induction pixelY j ps rule: nodes_from.induct) (auto simp: crosses_sides)

lemma row_nodes_even: "even (length (row_nodes pixelY ps))"
  by (cases "ps = []") (simp_all add: row_nodes_def nodes_parity)

lemma row_nodes_length: "length (row_nodes pixelY ps) \<le> length ps"
proof -
  have "length (nodes_from pixelY j ps) \<le> length ps" for j
    by (induction pixelY j ps rule: nodes_from.induct) auto
  then show ?thesis by (simp add: row_nodes_def)
qed

section \<open>The routine returns\<close>

lemma fill_pairs_returns:
  "even (length nodeX) \<Longrightarrow> TextColor s = BackColor s \<Longrightarrow>
   \<exists>e. fill_pairs s pixelY L R nodeX = Some (e, s)"
proof (induction s pixelY L R nodeX rule: fill_pairs.induct)
  case (3 s pixelY L R a b nodeX)
  have s: "s\<lparr>TextColor := BackColor s\<rparr> = s" using "3.prems"(2) by simp
  then have "LCD_SetTextColor (BackColor s) s = s" "LCD_SetTextColor (TextColor s) s = s"
    using "3.prems"(2) by (simp_all add: LCD_SetTextColor_def)
  moreover have "\<exists>e. fill_pairs s pixelY L R nodeX = Some (e, s)" if "\<not> a \<ge> R"
    using "3.IH" "3.prems" that s by (cases "b > L") (auto simp: LCD_SetTextColor_def)
  ultimately show ?case by (auto simp: Let_def)
qed simp_all

lemma fill_rows_returns:
  assumes "length ps \<le> MAX_POLY_CORNERS" "TextColor s = BackColor s"
  shows "\<exists>e. fill_rows s L R ps pixelY n = Some (e, s)"
proof (induction n arbitrary: pixelY)
  case (Suc n)
  let ?nodes = "row_nodes pixelY ps"
  have "even (length (sort_nodes 0 ?nodes))"
    by (simp add: sort_nodes_sort row_nodes_even)
  then obtain e where "fill_pairs s pixelY L R (sort_nodes 0 ?nodes) = Some (e, s)"
    using fill_pairs_returns assms(2) by blast
  moreover have "\<not> length ?nodes > MAX_POLY_CORNERS"
    using row_nodes_length [of pixelY ps] assms(1) by simp
  moreover obtain e' where "fill_rows s L R ps (pixelY + 1) n = Some (e', s)" using Suc by blast
  ultimately show ?case by simp
qed simp

text \<open>
  C21: With at most 200 corners the filled polygon stays inside its array of nodes and returns.  In
  every row the nodes are an even number, no more than the corners, and the exchange sort puts
  them into order, so that the pairs are the parts of the row inside the polygon.  The text
  colour is lost on the way: afterwards it is the background's.
\<close>

theorem lcd_fill_returns:
  assumes "Points \<noteq> []" "unat PointCount \<le> length Points" "unat PointCount \<le> MAX_POLY_CORNERS"
  shows "(\<exists>e. LCD_FillPolyLine s Points PointCount = Some (e, s\<lparr>TextColor := BackColor s\<rparr>)) \<and>
      even (length (row_nodes pixelY (take (unat PointCount) Points))) \<and>
      length (row_nodes pixelY (take (unat PointCount) Points)) \<le> unat PointCount \<and>
      sort_nodes 0 (row_nodes pixelY (take (unat PointCount) Points)) =
        sort (row_nodes pixelY (take (unat PointCount) Points))"
proof -
  let ?ps = "take (unat PointCount) Points" and ?s = "s\<lparr>TextColor := BackColor s\<rparr>"
  obtain L R T B where b: "poly_bounds (hd Points) (tl ?ps) = (L, R, T, B)"
    by (metis prod_cases4)
  have "length ?ps \<le> MAX_POLY_CORNERS" using assms(2,3) by simp
  then obtain e where "fill_rows ?s L R ?ps T (unat B - unat T) = Some (e, ?s)"
    using fill_rows_returns [of ?ps ?s L R T "unat B - unat T"] by auto
  then have "\<exists>e. LCD_FillPolyLine s Points PointCount = Some (e, ?s)"
    using assms(1,2) b by (simp add: LCD_FillPolyLine_def LCD_SetTextColor_def)
  then show ?thesis
    using row_nodes_length [of pixelY ?ps] assms(2) by (simp add: row_nodes_even sort_nodes_sort)
qed

lemma lcd_fill_returns_witness:
  "(\<exists>e. LCD_FillPolyLine some_lcd [(10, 200), (20, 210), (30, 205)] 3 =
       Some (e, some_lcd\<lparr>TextColor := BackColor some_lcd\<rparr>)) \<and>
   even (length (row_nodes 25 (take (unat (3 :: u16)) [(10, 200), (20, 210), (30, 205)]))) \<and>
   length (row_nodes 25 (take (unat (3 :: u16)) [(10, 200), (20, 210), (30, 205)])) \<le> unat (3 :: u16) \<and>
   sort_nodes 0 (row_nodes 25 (take (unat (3 :: u16)) [(10, 200), (20, 210), (30, 205)])) =
     sort (row_nodes 25 (take (unat (3 :: u16)) [(10, 200), (20, 210), (30, 205)]))"
  by (rule lcd_fill_returns) (simp_all add: MAX_POLY_CORNERS_def)

text \<open>With 202 corners a row can have 202 nodes: two more than the array holds.\<close>

lemma nodes_zigzag:
  assumes "over_row pixelY a \<noteq> over_row pixelY b"
  shows "length (nodes_from pixelY b (concat (replicate k [a, b]))) = 2 * k"
  using assms by (induction k) (auto simp: crosses_sides)

lemma nodes_none:
  "\<forall>p \<in> set (j # ps). \<not> over_row pixelY p \<Longrightarrow> nodes_from pixelY j ps = []"
  by (induction pixelY j ps rule: nodes_from.induct) (simp_all add: crosses_sides)

lemma bounds_zigzag:
  "foldl bound_step (0, 0, 0, 2) (concat (replicate k [(0, 0), (2, 0)])) = (0, 0, 0, 2)"
  by (induction k) (simp_all add: bound_step_def)

lemma fill_overruns:
  "LCD_FillPolyLine s (concat (replicate 101 [(0, 0), (2, 0)])) 202 = None"
proof -
  let ?zig = "\<lambda>k. concat (replicate k [(0, 0), (2, 0)]) :: point list"
  have ps: "?zig 101 = (0, 0) # (2, 0) # ?zig 100"
    using replicate_Suc [of 100 "[(0, 0), (2, 0)] :: point list"] by (simp del: replicate_Suc)
  have len: "length (?zig 101) = 202" by (simp add: length_concat sum_list_replicate)
  have "poly_bounds (hd (?zig 101)) (tl (?zig 101)) = (0, 0, 0, 2)"
    using bounds_zigzag [of 100] unfolding ps by (simp add: poly_bounds_def bound_step_def)
  note b = this
  have "last (?zig (Suc k)) = (2, 0)" for k by (induction k) auto
  from this [of 100] have last: "last (?zig 101) = (2, 0)" by simp
  have side: "over_row 1 (0, 0) \<noteq> over_row 1 (2, 0)" "\<not> over_row 0 (0, 0)" "\<not> over_row 0 (2, 0)"
    by (simp_all add: over_row_def POLY_Y_def word_sless_alt)
  have row0: "row_nodes 0 (?zig 101) = []"
    unfolding row_nodes_def last using side by (intro nodes_none) auto
  have row1: "length (row_nodes 1 (?zig 101)) = 202"
    unfolding row_nodes_def last nodes_zigzag [OF side(1)] by simp
  have "fill_rows s' 0 0 (?zig 101) 0 (Suc (Suc 0)) = None" for s'
    using row0 row1 by (simp add: MAX_POLY_CORNERS_def sort_nodes.simps)
  moreover have "unat (2 :: u16) - unat (0 :: u16) = Suc (Suc 0)" "unat (202 :: u16) = 202" by simp_all
  moreover have "take 202 (?zig 101) = ?zig 101" "?zig 101 \<noteq> []" using len by auto
  ultimately show ?thesis
    using len b unfolding LCD_FillPolyLine_def by (simp only: if_False Let_def prod.case option.map) simp
qed

text \<open>
  A triangle with the corners (10, 200), (20, 210) and (30, 205), rows first: the box begins at
  row 20 and ends at row 200.  Rows 10 to 19 are not looked at.
\<close>

lemma poly_bounds_mixed:
  "poly_bounds (10, 200) [(20, 210), (30, 205)] = (10, 210, 20, 200)"
  by (simp add: poly_bounds_def bound_step_def)

end
