(* ===== verification/LcdSetup.thy ===== *)
theory LcdSetup
  imports LcdPoly
begin

text \<open>
  Power-up of the display: the pins, the controller's identification, the sequence of register
  writes for each of the controllers the driver knows, and the first screen, with the font of
  16 by 24 dots and the Chinese characters of the welcome line.  The main result is the list of the pixel words that
  were written in the end and of the cursors they were written at, whatever controller answers, and for which controllers those
  cursors are inside the window.
\<close>

section \<open>The tables\<close>

text \<open>Nineteen characters in each of the parts.\<close>

definition ASCII16x24_part1 :: "u16 list" where
  "ASCII16x24_part1 = [
     0x0000, 0x0000, 0x0000, 0x0000, 0x0000, 0x0000, 0x0000, 0x0000, 0x0000, 0x0000, 0x0000, 0x0000,
     0x0000, 0x0000, 0x0000, 0x0000, 0x0000, 0x0000, 0x0000, 0x0000, 0x0000, 0x0000, 0x0000, 0x0000,
     0x0000, 0x0180, 0x0180, 0x0180, 0x0180, 0x0180, 0x0180, 0x0180, 0x0180, 0x0180, 0x0180, 0x0180,
     0x0180, 0x0180, 0x0000, 0x0000, 0x0180, 0x0180, 0x0000, 0x0000, 0x0000, 0x0000, 0x0000, 0x0000,
     0x0000, 0x0000, 0x00CC, 0x00CC, 0x00CC, 0x00CC, 0x00CC, 0x00CC, 0x0000, 0x0000, 0x0000, 0x0000,
     0x0000, 0x0000, 0x0000, 0x0000, 0x0000, 0x0000, 0x0000, 0x0000, 0x0000, 0x0000, 0x0000, 0x0000,
     0x0000, 0x0000, 0x0000, 0x0000, 0x0000, 0x0000, 0x0C60, 0x0C60, 0x0C60, 0x0630, 0x0630, 0x1FFE,
     0x1FFE, 0x0630, 0x0738, 0x0318, 0x1FFE, 0x1FFE, 0x0318, 0x0318, 0x018C, 0x018C, 0x018C, 0x0000,
     0x0000, 0x0080, 0x03E0, 0x0FF8, 0x0E9C, 0x1C8C, 0x188C, 0x008C, 0x0098, 0x01F8, 0x07E0, 0x0E80,
     0x1C80, 0x188C, 0x188C, 0x189C, 0x0CB8, 0x0FF0, 0x03E0, 0x0080, 0x0080, 0x0000, 0x0000, 0x0000,
     0x0000, 0x0000, 0x0000, 0x180E, 0x0C1B, 0x0C11, 0x0611, 0x0611, 0x0311, 0x0311, 0x019B, 0x018E,
     0x38C0, 0x6CC0, 0x4460, 0x4460, 0x4430, 0x4430, 0x4418, 0x6C18, 0x380C, 0x0000, 0x0000, 0x0000,
     0x0000, 0x01E0, 0x03F0, 0x0738, 0x0618, 0x0618, 0x0330, 0x01F0, 0x00F0, 0x00F8, 0x319C, 0x330E,
     0x1E06, 0x1C06, 0x1C06, 0x3F06, 0x73FC, 0x21F0, 0x0000, 0x0000, 0x0000, 0x0000, 0x0000, 0x0000,
     0x0000, 0x0000, 0x000C, 0x000C, 0x000C, 0x000C, 0x000C, 0x000C, 0x0000, 0x0000, 0x0000, 0x0000,
     0x0000, 0x0000, 0x0000, 0x0000, 0x0000, 0x0000, 0x0000, 0x0000, 0x0000, 0x0000, 0x0000, 0x0000,
     0x0000, 0x0200, 0x0300, 0x0180, 0x00C0, 0x00C0, 0x0060, 0x0060, 0x0030, 0x0030, 0x0030, 0x0030,
     0x0030, 0x0030, 0x0030, 0x0030, 0x0060, 0x0060, 0x00C0, 0x00C0, 0x0180, 0x0300, 0x0200, 0x0000,
     0x0000, 0x0020, 0x0060, 0x00C0, 0x0180, 0x0180, 0x0300, 0x0300, 0x0600, 0x0600, 0x0600, 0x0600,
     0x0600, 0x0600, 0x0600, 0x0600, 0x0300, 0x0300, 0x0180, 0x0180, 0x00C0, 0x0060, 0x0020, 0x0000,
     0x0000, 0x0000, 0x0000, 0x0000, 0x0000, 0x0000, 0x00C0, 0x00C0, 0x06D8, 0x07F8, 0x01E0, 0x0330,
     0x0738, 0x0000, 0x0000, 0x0000, 0x0000, 0x0000, 0x0000, 0x0000, 0x0000, 0x0000, 0x0000, 0x0000,
     0x0000, 0x0000, 0x0000, 0x0000, 0x0000, 0x0000, 0x0180, 0x0180, 0x0180, 0x0180, 0x0180, 0x3FFC,
     0x3FFC, 0x0180, 0x0180, 0x0180, 0x0180, 0x0180, 0x0000, 0x0000, 0x0000, 0x0000, 0x0000, 0x0000,
     0x0000, 0x0000, 0x0000, 0x0000, 0x0000, 0x0000, 0x0000, 0x0000, 0x0000, 0x0000, 0x0000, 0x0000,
     0x0000, 0x0000, 0x0000, 0x0000, 0x0000, 0x0180, 0x0180, 0x0100, 0x0100, 0x0080, 0x0000, 0x0000,
     0x0000, 0x0000, 0x0000, 0x0000, 0x0000, 0x0000, 0x0000, 0x0000, 0x0000, 0x0000, 0x0000, 0x0000,
     0x07E0, 0x07E0, 0x0000, 0x0000, 0x0000, 0x0000, 0x0000, 0x0000, 0x0000, 0x0000, 0x0000, 0x0000,
     0x0000, 0x0000, 0x0000, 0x0000, 0x0000, 0x0000, 0x0000, 0x0000, 0x0000, 0x0000, 0x0000, 0x0000,
     0x0000, 0x0000, 0x0000, 0x0000, 0x0000, 0x00C0, 0x00C0, 0x0000, 0x0000, 0x0000, 0x0000, 0x0000,
     0x0000, 0x0C00, 0x0C00, 0x0600, 0x0600, 0x0600, 0x0300, 0x0300, 0x0300, 0x0380, 0x0180, 0x0180,
     0x0180, 0x00C0, 0x00C0, 0x00C0, 0x0060, 0x0060, 0x0000, 0x0000, 0x0000, 0x0000, 0x0000, 0x0000,
     0x0000, 0x03E0, 0x07F0, 0x0E38, 0x0C18, 0x180C, 0x180C, 0x180C, 0x180C, 0x180C, 0x180C, 0x180C,
     0x180C, 0x180C, 0x0C18, 0x0E38, 0x07F0, 0x03E0, 0x0000, 0x0000, 0x0000, 0x0000, 0x0000, 0x0000,
     0x0000, 0x0100, 0x0180, 0x01C0, 0x01F0, 0x0198, 0x0188, 0x0180, 0x0180, 0x0180, 0x0180, 0x0180,
     0x0180, 0x0180, 0x0180, 0x0180, 0x0180, 0x0180, 0x0000, 0x0000, 0x0000, 0x0000, 0x0000, 0x0000,
     0x0000, 0x03E0, 0x0FF8, 0x0C18, 0x180C, 0x180C, 0x1800, 0x1800, 0x0C00, 0x0600, 0x0300, 0x0180,
     0x00C0, 0x0060, 0x0030, 0x0018, 0x1FFC, 0x1FFC, 0x0000, 0x0000, 0x0000, 0x0000, 0x0000, 0x0000]"

definition ASCII16x24_part2 :: "u16 list" where
  "ASCII16x24_part2 = [
     0x0000, 0x01E0, 0x07F8, 0x0E18, 0x0C0C, 0x0C0C, 0x0C00, 0x0600, 0x03C0, 0x07C0, 0x0C00, 0x1800,
     0x1800, 0x180C, 0x180C, 0x0C18, 0x07F8, 0x03E0, 0x0000, 0x0000, 0x0000, 0x0000, 0x0000, 0x0000,
     0x0000, 0x0C00, 0x0E00, 0x0F00, 0x0F00, 0x0D80, 0x0CC0, 0x0C60, 0x0C60, 0x0C30, 0x0C18, 0x0C0C,
     0x3FFC, 0x3FFC, 0x0C00, 0x0C00, 0x0C00, 0x0C00, 0x0000, 0x0000, 0x0000, 0x0000, 0x0000, 0x0000,
     0x0000, 0x0FF8, 0x0FF8, 0x0018, 0x0018, 0x000C, 0x03EC, 0x07FC, 0x0E1C, 0x1C00, 0x1800, 0x1800,
     0x1800, 0x180C, 0x0C1C, 0x0E18, 0x07F8, 0x03E0, 0x0000, 0x0000, 0x0000, 0x0000, 0x0000, 0x0000,
     0x0000, 0x07C0, 0x0FF0, 0x1C38, 0x1818, 0x0018, 0x000C, 0x03CC, 0x0FEC, 0x0E3C, 0x1C1C, 0x180C,
     0x180C, 0x180C, 0x1C18, 0x0E38, 0x07F0, 0x03E0, 0x0000, 0x0000, 0x0000, 0x0000, 0x0000, 0x0000,
     0x0000, 0x1FFC, 0x1FFC, 0x0C00, 0x0600, 0x0600, 0x0300, 0x0380, 0x0180, 0x01C0, 0x00C0, 0x00E0,
     0x0060, 0x0060, 0x0070, 0x0030, 0x0030, 0x0030, 0x0000, 0x0000, 0x0000, 0x0000, 0x0000, 0x0000,
     0x0000, 0x03E0, 0x07F0, 0x0E38, 0x0C18, 0x0C18, 0x0C18, 0x0638, 0x07F0, 0x07F0, 0x0C18, 0x180C,
     0x180C, 0x180C, 0x180C, 0x0C38, 0x0FF8, 0x03E0, 0x0000, 0x0000, 0x0000, 0x0000, 0x0000, 0x0000,
     0x0000, 0x03E0, 0x07F0, 0x0E38, 0x0C1C, 0x180C, 0x180C, 0x180C, 0x1C1C, 0x1E38, 0x1BF8, 0x19E0,
     0x1800, 0x0C00, 0x0C00, 0x0E1C, 0x07F8, 0x01F0, 0x0000, 0x0000, 0x0000, 0x0000, 0x0000, 0x0000,
     0x0000, 0x0000, 0x0000, 0x0000, 0x0000, 0x0000, 0x0180, 0x0180, 0x0000, 0x0000, 0x0000, 0x0000,
     0x0000, 0x0000, 0x0000, 0x0000, 0x0180, 0x0180, 0x0000, 0x0000, 0x0000, 0x0000, 0x0000, 0x0000,
     0x0000, 0x0000, 0x0000, 0x0000, 0x0000, 0x0000, 0x0180, 0x0180, 0x0000, 0x0000, 0x0000, 0x0000,
     0x0000, 0x0000, 0x0000, 0x0000, 0x0180, 0x0180, 0x0100, 0x0100, 0x0080, 0x0000, 0x0000, 0x0000,
     0x0000, 0x0000, 0x0000, 0x0000, 0x0000, 0x0000, 0x0000, 0x0000, 0x1000, 0x1C00, 0x0F80, 0x03E0,
     0x00F8, 0x0018, 0x00F8, 0x03E0, 0x0F80, 0x1C00, 0x1000, 0x0000, 0x0000, 0x0000, 0x0000, 0x0000,
     0x0000, 0x0000, 0x0000, 0x0000, 0x0000, 0x0000, 0x0000, 0x0000, 0x1FF8, 0x0000, 0x0000, 0x0000,
     0x1FF8, 0x0000, 0x0000, 0x0000, 0x0000, 0x0000, 0x0000, 0x0000, 0x0000, 0x0000, 0x0000, 0x0000,
     0x0000, 0x0000, 0x0000, 0x0000, 0x0000, 0x0000, 0x0000, 0x0000, 0x0008, 0x0038, 0x01F0, 0x07C0,
     0x1F00, 0x1800, 0x1F00, 0x07C0, 0x01F0, 0x0038, 0x0008, 0x0000, 0x0000, 0x0000, 0x0000, 0x0000,
     0x0000, 0x03E0, 0x0FF8, 0x0C18, 0x180C, 0x180C, 0x1800, 0x0C00, 0x0600, 0x0300, 0x0180, 0x00C0,
     0x00C0, 0x00C0, 0x0000, 0x0000, 0x00C0, 0x00C0, 0x0000, 0x0000, 0x0000, 0x0000, 0x0000, 0x0000,
     0x0000, 0x0000, 0x07E0, 0x1818, 0x2004, 0x29C2, 0x4A22, 0x4411, 0x4409, 0x4409, 0x4409, 0x2209,
     0x1311, 0x0CE2, 0x4002, 0x2004, 0x1818, 0x07E0, 0x0000, 0x0000, 0x0000, 0x0000, 0x0000, 0x0000,
     0x0000, 0x0380, 0x0380, 0x06C0, 0x06C0, 0x06C0, 0x0C60, 0x0C60, 0x1830, 0x1830, 0x1830, 0x3FF8,
     0x3FF8, 0x701C, 0x600C, 0x600C, 0xC006, 0xC006, 0x0000, 0x0000, 0x0000, 0x0000, 0x0000, 0x0000,
     0x0000, 0x03FC, 0x0FFC, 0x0C0C, 0x180C, 0x180C, 0x180C, 0x0C0C, 0x07FC, 0x0FFC, 0x180C, 0x300C,
     0x300C, 0x300C, 0x300C, 0x180C, 0x1FFC, 0x07FC, 0x0000, 0x0000, 0x0000, 0x0000, 0x0000, 0x0000,
     0x0000, 0x07C0, 0x1FF0, 0x3838, 0x301C, 0x700C, 0x6006, 0x0006, 0x0006, 0x0006, 0x0006, 0x0006,
     0x0006, 0x6006, 0x700C, 0x301C, 0x1FF0, 0x07E0, 0x0000, 0x0000, 0x0000, 0x0000, 0x0000, 0x0000,
     0x0000, 0x03FE, 0x0FFE, 0x0E06, 0x1806, 0x1806, 0x3006, 0x3006, 0x3006, 0x3006, 0x3006, 0x3006,
     0x3006, 0x1806, 0x1806, 0x0E06, 0x0FFE, 0x03FE, 0x0000, 0x0000, 0x0000, 0x0000, 0x0000, 0x0000,
     0x0000, 0x3FFC, 0x3FFC, 0x000C, 0x000C, 0x000C, 0x000C, 0x000C, 0x1FFC, 0x1FFC, 0x000C, 0x000C,
     0x000C, 0x000C, 0x000C, 0x000C, 0x3FFC, 0x3FFC, 0x0000, 0x0000, 0x0000, 0x0000, 0x0000, 0x0000]"

definition ASCII16x24_part3 :: "u16 list" where
  "ASCII16x24_part3 = [
     0x0000, 0x3FF8, 0x3FF8, 0x0018, 0x0018, 0x0018, 0x0018, 0x0018, 0x1FF8, 0x1FF8, 0x0018, 0x0018,
     0x0018, 0x0018, 0x0018, 0x0018, 0x0018, 0x0018, 0x0000, 0x0000, 0x0000, 0x0000, 0x0000, 0x0000,
     0x0000, 0x0FE0, 0x3FF8, 0x783C, 0x600E, 0xE006, 0xC007, 0x0003, 0x0003, 0xFE03, 0xFE03, 0xC003,
     0xC007, 0xC006, 0xC00E, 0xF03C, 0x3FF8, 0x0FE0, 0x0000, 0x0000, 0x0000, 0x0000, 0x0000, 0x0000,
     0x0000, 0x300C, 0x300C, 0x300C, 0x300C, 0x300C, 0x300C, 0x300C, 0x3FFC, 0x3FFC, 0x300C, 0x300C,
     0x300C, 0x300C, 0x300C, 0x300C, 0x300C, 0x300C, 0x0000, 0x0000, 0x0000, 0x0000, 0x0000, 0x0000,
     0x0000, 0x0180, 0x0180, 0x0180, 0x0180, 0x0180, 0x0180, 0x0180, 0x0180, 0x0180, 0x0180, 0x0180,
     0x0180, 0x0180, 0x0180, 0x0180, 0x0180, 0x0180, 0x0000, 0x0000, 0x0000, 0x0000, 0x0000, 0x0000,
     0x0000, 0x0600, 0x0600, 0x0600, 0x0600, 0x0600, 0x0600, 0x0600, 0x0600, 0x0600, 0x0600, 0x0600,
     0x0600, 0x0618, 0x0618, 0x0738, 0x03F0, 0x01E0, 0x0000, 0x0000, 0x0000, 0x0000, 0x0000, 0x0000,
     0x0000, 0x3006, 0x1806, 0x0C06, 0x0606, 0x0306, 0x0186, 0x00C6, 0x0066, 0x0076, 0x00DE, 0x018E,
     0x0306, 0x0606, 0x0C06, 0x1806, 0x3006, 0x6006, 0x0000, 0x0000, 0x0000, 0x0000, 0x0000, 0x0000,
     0x0000, 0x0018, 0x0018, 0x0018, 0x0018, 0x0018, 0x0018, 0x0018, 0x0018, 0x0018, 0x0018, 0x0018,
     0x0018, 0x0018, 0x0018, 0x0018, 0x1FF8, 0x1FF8, 0x0000, 0x0000, 0x0000, 0x0000, 0x0000, 0x0000,
     0x0000, 0xE00E, 0xF01E, 0xF01E, 0xF01E, 0xD836, 0xD836, 0xD836, 0xD836, 0xCC66, 0xCC66, 0xCC66,
     0xC6C6, 0xC6C6, 0xC6C6, 0xC6C6, 0xC386, 0xC386, 0x0000, 0x0000, 0x0000, 0x0000, 0x0000, 0x0000,
     0x0000, 0x300C, 0x301C, 0x303C, 0x303C, 0x306C, 0x306C, 0x30CC, 0x30CC, 0x318C, 0x330C, 0x330C,
     0x360C, 0x360C, 0x3C0C, 0x3C0C, 0x380C, 0x300C, 0x0000, 0x0000, 0x0000, 0x0000, 0x0000, 0x0000,
     0x0000, 0x07E0, 0x1FF8, 0x381C, 0x700E, 0x6006, 0xC003, 0xC003, 0xC003, 0xC003, 0xC003, 0xC003,
     0xC003, 0x6006, 0x700E, 0x381C, 0x1FF8, 0x07E0, 0x0000, 0x0000, 0x0000, 0x0000, 0x0000, 0x0000,
     0x0000, 0x0FFC, 0x1FFC, 0x380C, 0x300C, 0x300C, 0x300C, 0x300C, 0x180C, 0x1FFC, 0x07FC, 0x000C,
     0x000C, 0x000C, 0x000C, 0x000C, 0x000C, 0x000C, 0x0000, 0x0000, 0x0000, 0x0000, 0x0000, 0x0000,
     0x0000, 0x07E0, 0x1FF8, 0x381C, 0x700E, 0x6006, 0xE003, 0xC003, 0xC003, 0xC003, 0xC003, 0xC003,
     0xE007, 0x6306, 0x3F0E, 0x3C1C, 0x3FF8, 0xF7E0, 0xC000, 0x0000, 0x0000, 0x0000, 0x0000, 0x0000,
     0x0000, 0x0FFE, 0x1FFE, 0x3806, 0x3006, 0x3006, 0x3006, 0x3806, 0x1FFE, 0x07FE, 0x0306, 0x0606,
     0x0C06, 0x1806, 0x1806, 0x3006, 0x3006, 0x6006, 0x0000, 0x0000, 0x0000, 0x0000, 0x0000, 0x0000,
     0x0000, 0x03E0, 0x0FF8, 0x0C1C, 0x180C, 0x180C, 0x000C, 0x001C, 0x03F8, 0x0FE0, 0x1E00, 0x3800,
     0x3006, 0x3006, 0x300E, 0x1C1C, 0x0FF8, 0x07E0, 0x0000, 0x0000, 0x0000, 0x0000, 0x0000, 0x0000,
     0x0000, 0x7FFE, 0x7FFE, 0x0180, 0x0180, 0x0180, 0x0180, 0x0180, 0x0180, 0x0180, 0x0180, 0x0180,
     0x0180, 0x0180, 0x0180, 0x0180, 0x0180, 0x0180, 0x0000, 0x0000, 0x0000, 0x0000, 0x0000, 0x0000,
     0x0000, 0x300C, 0x300C, 0x300C, 0x300C, 0x300C, 0x300C, 0x300C, 0x300C, 0x300C, 0x300C, 0x300C,
     0x300C, 0x300C, 0x300C, 0x1818, 0x1FF8, 0x07E0, 0x0000, 0x0000, 0x0000, 0x0000, 0x0000, 0x0000,
     0x0000, 0x6003, 0x3006, 0x3006, 0x3006, 0x180C, 0x180C, 0x180C, 0x0C18, 0x0C18, 0x0E38, 0x0630,
     0x0630, 0x0770, 0x0360, 0x0360, 0x01C0, 0x01C0, 0x0000, 0x0000, 0x0000, 0x0000, 0x0000, 0x0000,
     0x0000, 0x6003, 0x61C3, 0x61C3, 0x61C3, 0x3366, 0x3366, 0x3366, 0x3366, 0x3366, 0x3366, 0x1B6C,
     0x1B6C, 0x1B6C, 0x1A2C, 0x1E3C, 0x0E38, 0x0E38, 0x0000, 0x0000, 0x0000, 0x0000, 0x0000, 0x0000,
     0x0000, 0xE00F, 0x700C, 0x3018, 0x1830, 0x0C70, 0x0E60, 0x07C0, 0x0380, 0x0380, 0x03C0, 0x06E0,
     0x0C70, 0x1C30, 0x1818, 0x300C, 0x600E, 0xE007, 0x0000, 0x0000, 0x0000, 0x0000, 0x0000, 0x0000]"

definition ASCII16x24_part4 :: "u16 list" where
  "ASCII16x24_part4 = [
     0x0000, 0xC003, 0x6006, 0x300C, 0x381C, 0x1838, 0x0C30, 0x0660, 0x07E0, 0x03C0, 0x0180, 0x0180,
     0x0180, 0x0180, 0x0180, 0x0180, 0x0180, 0x0180, 0x0000, 0x0000, 0x0000, 0x0000, 0x0000, 0x0000,
     0x0000, 0x7FFC, 0x7FFC, 0x6000, 0x3000, 0x1800, 0x0C00, 0x0600, 0x0300, 0x0180, 0x00C0, 0x0060,
     0x0030, 0x0018, 0x000C, 0x0006, 0x7FFE, 0x7FFE, 0x0000, 0x0000, 0x0000, 0x0000, 0x0000, 0x0000,
     0x0000, 0x03E0, 0x03E0, 0x0060, 0x0060, 0x0060, 0x0060, 0x0060, 0x0060, 0x0060, 0x0060, 0x0060,
     0x0060, 0x0060, 0x0060, 0x0060, 0x0060, 0x0060, 0x0060, 0x0060, 0x0060, 0x03E0, 0x03E0, 0x0000,
     0x0000, 0x0030, 0x0030, 0x0060, 0x0060, 0x0060, 0x00C0, 0x00C0, 0x00C0, 0x01C0, 0x0180, 0x0180,
     0x0180, 0x0300, 0x0300, 0x0300, 0x0600, 0x0600, 0x0000, 0x0000, 0x0000, 0x0000, 0x0000, 0x0000,
     0x0000, 0x03E0, 0x03E0, 0x0300, 0x0300, 0x0300, 0x0300, 0x0300, 0x0300, 0x0300, 0x0300, 0x0300,
     0x0300, 0x0300, 0x0300, 0x0300, 0x0300, 0x0300, 0x0300, 0x0300, 0x0300, 0x03E0, 0x03E0, 0x0000,
     0x0000, 0x0000, 0x01C0, 0x01C0, 0x0360, 0x0360, 0x0360, 0x0630, 0x0630, 0x0C18, 0x0C18, 0x0000,
     0x0000, 0x0000, 0x0000, 0x0000, 0x0000, 0x0000, 0x0000, 0x0000, 0x0000, 0x0000, 0x0000, 0x0000,
     0x0000, 0x0000, 0x0000, 0x0000, 0x0000, 0x0000, 0x0000, 0x0000, 0x0000, 0x0000, 0x0000, 0x0000,
     0x0000, 0x0000, 0x0000, 0x0000, 0x0000, 0xFFFF, 0xFFFF, 0x0000, 0x0000, 0x0000, 0x0000, 0x0000,
     0x0000, 0x000C, 0x000C, 0x000C, 0x000C, 0x000C, 0x000C, 0x0000, 0x0000, 0x0000, 0x0000, 0x0000,
     0x0000, 0x0000, 0x0000, 0x0000, 0x0000, 0x0000, 0x0000, 0x0000, 0x0000, 0x0000, 0x0000, 0x0000,
     0x0000, 0x0000, 0x0000, 0x0000, 0x0000, 0x0000, 0x03F0, 0x07F8, 0x0C1C, 0x0C0C, 0x0F00, 0x0FF0,
     0x0CF8, 0x0C0C, 0x0C0C, 0x0F1C, 0x0FF8, 0x18F0, 0x0000, 0x0000, 0x0000, 0x0000, 0x0000, 0x0000,
     0x0000, 0x0018, 0x0018, 0x0018, 0x0018, 0x0018, 0x03D8, 0x0FF8, 0x0C38, 0x1818, 0x1818, 0x1818,
     0x1818, 0x1818, 0x1818, 0x0C38, 0x0FF8, 0x03D8, 0x0000, 0x0000, 0x0000, 0x0000, 0x0000, 0x0000,
     0x0000, 0x0000, 0x0000, 0x0000, 0x0000, 0x0000, 0x03C0, 0x07F0, 0x0E30, 0x0C18, 0x0018, 0x0018,
     0x0018, 0x0018, 0x0C18, 0x0E30, 0x07F0, 0x03C0, 0x0000, 0x0000, 0x0000, 0x0000, 0x0000, 0x0000,
     0x0000, 0x1800, 0x1800, 0x1800, 0x1800, 0x1800, 0x1BC0, 0x1FF0, 0x1C30, 0x1818, 0x1818, 0x1818,
     0x1818, 0x1818, 0x1818, 0x1C30, 0x1FF0, 0x1BC0, 0x0000, 0x0000, 0x0000, 0x0000, 0x0000, 0x0000,
     0x0000, 0x0000, 0x0000, 0x0000, 0x0000, 0x0000, 0x03C0, 0x0FF0, 0x0C30, 0x1818, 0x1FF8, 0x1FF8,
     0x0018, 0x0018, 0x1838, 0x1C30, 0x0FF0, 0x07C0, 0x0000, 0x0000, 0x0000, 0x0000, 0x0000, 0x0000,
     0x0000, 0x0F80, 0x0FC0, 0x00C0, 0x00C0, 0x00C0, 0x07F0, 0x07F0, 0x00C0, 0x00C0, 0x00C0, 0x00C0,
     0x00C0, 0x00C0, 0x00C0, 0x00C0, 0x00C0, 0x00C0, 0x0000, 0x0000, 0x0000, 0x0000, 0x0000, 0x0000,
     0x0000, 0x0000, 0x0000, 0x0000, 0x0000, 0x0000, 0x0DE0, 0x0FF8, 0x0E18, 0x0C0C, 0x0C0C, 0x0C0C,
     0x0C0C, 0x0C0C, 0x0C0C, 0x0E18, 0x0FF8, 0x0DE0, 0x0C00, 0x0C0C, 0x061C, 0x07F8, 0x01F0, 0x0000,
     0x0000, 0x0018, 0x0018, 0x0018, 0x0018, 0x0018, 0x07D8, 0x0FF8, 0x1C38, 0x1818, 0x1818, 0x1818,
     0x1818, 0x1818, 0x1818, 0x1818, 0x1818, 0x1818, 0x0000, 0x0000, 0x0000, 0x0000, 0x0000, 0x0000,
     0x0000, 0x00C0, 0x00C0, 0x0000, 0x0000, 0x0000, 0x00C0, 0x00C0, 0x00C0, 0x00C0, 0x00C0, 0x00C0,
     0x00C0, 0x00C0, 0x00C0, 0x00C0, 0x00C0, 0x00C0, 0x0000, 0x0000, 0x0000, 0x0000, 0x0000, 0x0000,
     0x0000, 0x00C0, 0x00C0, 0x0000, 0x0000, 0x0000, 0x00C0, 0x00C0, 0x00C0, 0x00C0, 0x00C0, 0x00C0,
     0x00C0, 0x00C0, 0x00C0, 0x00C0, 0x00C0, 0x00C0, 0x00C0, 0x00C0, 0x00C0, 0x00F8, 0x0078, 0x0000,
     0x0000, 0x000C, 0x000C, 0x000C, 0x000C, 0x000C, 0x0C0C, 0x060C, 0x030C, 0x018C, 0x00CC, 0x006C,
     0x00FC, 0x019C, 0x038C, 0x030C, 0x060C, 0x0C0C, 0x0000, 0x0000, 0x0000, 0x0000, 0x0000, 0x0000]"

definition ASCII16x24_part5 :: "u16 list" where
  "ASCII16x24_part5 = [
     0x0000, 0x00C0, 0x00C0, 0x00C0, 0x00C0, 0x00C0, 0x00C0, 0x00C0, 0x00C0, 0x00C0, 0x00C0, 0x00C0,
     0x00C0, 0x00C0, 0x00C0, 0x00C0, 0x00C0, 0x00C0, 0x0000, 0x0000, 0x0000, 0x0000, 0x0000, 0x0000,
     0x0000, 0x0000, 0x0000, 0x0000, 0x0000, 0x0000, 0x3C7C, 0x7EFF, 0xE3C7, 0xC183, 0xC183, 0xC183,
     0xC183, 0xC183, 0xC183, 0xC183, 0xC183, 0xC183, 0x0000, 0x0000, 0x0000, 0x0000, 0x0000, 0x0000,
     0x0000, 0x0000, 0x0000, 0x0000, 0x0000, 0x0000, 0x0798, 0x0FF8, 0x1C38, 0x1818, 0x1818, 0x1818,
     0x1818, 0x1818, 0x1818, 0x1818, 0x1818, 0x1818, 0x0000, 0x0000, 0x0000, 0x0000, 0x0000, 0x0000,
     0x0000, 0x0000, 0x0000, 0x0000, 0x0000, 0x0000, 0x03C0, 0x0FF0, 0x0C30, 0x1818, 0x1818, 0x1818,
     0x1818, 0x1818, 0x1818, 0x0C30, 0x0FF0, 0x03C0, 0x0000, 0x0000, 0x0000, 0x0000, 0x0000, 0x0000,
     0x0000, 0x0000, 0x0000, 0x0000, 0x0000, 0x0000, 0x03D8, 0x0FF8, 0x0C38, 0x1818, 0x1818, 0x1818,
     0x1818, 0x1818, 0x1818, 0x0C38, 0x0FF8, 0x03D8, 0x0018, 0x0018, 0x0018, 0x0018, 0x0018, 0x0000,
     0x0000, 0x0000, 0x0000, 0x0000, 0x0000, 0x0000, 0x1BC0, 0x1FF0, 0x1C30, 0x1818, 0x1818, 0x1818,
     0x1818, 0x1818, 0x1818, 0x1C30, 0x1FF0, 0x1BC0, 0x1800, 0x1800, 0x1800, 0x1800, 0x1800, 0x0000,
     0x0000, 0x0000, 0x0000, 0x0000, 0x0000, 0x0000, 0x07B0, 0x03F0, 0x0070, 0x0030, 0x0030, 0x0030,
     0x0030, 0x0030, 0x0030, 0x0030, 0x0030, 0x0030, 0x0000, 0x0000, 0x0000, 0x0000, 0x0000, 0x0000,
     0x0000, 0x0000, 0x0000, 0x0000, 0x0000, 0x0000, 0x03E0, 0x03F0, 0x0E38, 0x0C18, 0x0038, 0x03F0,
     0x07C0, 0x0C00, 0x0C18, 0x0E38, 0x07F0, 0x03E0, 0x0000, 0x0000, 0x0000, 0x0000, 0x0000, 0x0000,
     0x0000, 0x0000, 0x0080, 0x00C0, 0x00C0, 0x00C0, 0x07F0, 0x07F0, 0x00C0, 0x00C0, 0x00C0, 0x00C0,
     0x00C0, 0x00C0, 0x00C0, 0x00C0, 0x07C0, 0x0780, 0x0000, 0x0000, 0x0000, 0x0000, 0x0000, 0x0000,
     0x0000, 0x0000, 0x0000, 0x0000, 0x0000, 0x0000, 0x1818, 0x1818, 0x1818, 0x1818, 0x1818, 0x1818,
     0x1818, 0x1818, 0x1818, 0x1C38, 0x1FF0, 0x19E0, 0x0000, 0x0000, 0x0000, 0x0000, 0x0000, 0x0000,
     0x0000, 0x0000, 0x0000, 0x0000, 0x0000, 0x0000, 0x180C, 0x0C18, 0x0C18, 0x0C18, 0x0630, 0x0630,
     0x0630, 0x0360, 0x0360, 0x0360, 0x01C0, 0x01C0, 0x0000, 0x0000, 0x0000, 0x0000, 0x0000, 0x0000,
     0x0000, 0x0000, 0x0000, 0x0000, 0x0000, 0x0000, 0x41C1, 0x41C1, 0x61C3, 0x6363, 0x6363, 0x6363,
     0x3636, 0x3636, 0x3636, 0x1C1C, 0x1C1C, 0x1C1C, 0x0000, 0x0000, 0x0000, 0x0000, 0x0000, 0x0000,
     0x0000, 0x0000, 0x0000, 0x0000, 0x0000, 0x0000, 0x381C, 0x1C38, 0x0C30, 0x0660, 0x0360, 0x0360,
     0x0360, 0x0360, 0x0660, 0x0C30, 0x1C38, 0x381C, 0x0000, 0x0000, 0x0000, 0x0000, 0x0000, 0x0000,
     0x0000, 0x0000, 0x0000, 0x0000, 0x0000, 0x0000, 0x3018, 0x1830, 0x1830, 0x1870, 0x0C60, 0x0C60,
     0x0CE0, 0x06C0, 0x06C0, 0x0380, 0x0380, 0x0380, 0x0180, 0x0180, 0x01C0, 0x00F0, 0x0070, 0x0000,
     0x0000, 0x0000, 0x0000, 0x0000, 0x0000, 0x0000, 0x1FFC, 0x1FFC, 0x0C00, 0x0600, 0x0300, 0x0180,
     0x00C0, 0x0060, 0x0030, 0x0018, 0x1FFC, 0x1FFC, 0x0000, 0x0000, 0x0000, 0x0000, 0x0000, 0x0000,
     0x0000, 0x0300, 0x0180, 0x00C0, 0x00C0, 0x00C0, 0x00C0, 0x00C0, 0x00C0, 0x0060, 0x0060, 0x0030,
     0x0060, 0x0040, 0x00C0, 0x00C0, 0x00C0, 0x00C0, 0x00C0, 0x00C0, 0x0180, 0x0300, 0x0000, 0x0000,
     0x0000, 0x0180, 0x0180, 0x0180, 0x0180, 0x0180, 0x0180, 0x0180, 0x0180, 0x0180, 0x0180, 0x0180,
     0x0180, 0x0180, 0x0180, 0x0180, 0x0180, 0x0180, 0x0180, 0x0180, 0x0180, 0x0180, 0x0180, 0x0000,
     0x0000, 0x0060, 0x00C0, 0x01C0, 0x0180, 0x0180, 0x0180, 0x0180, 0x0180, 0x0300, 0x0300, 0x0600,
     0x0300, 0x0100, 0x0180, 0x0180, 0x0180, 0x0180, 0x0180, 0x0180, 0x00C0, 0x0060, 0x0000, 0x0000,
     0x0000, 0x0000, 0x0000, 0x0000, 0x0000, 0x0000, 0x0000, 0x0000, 0x10F0, 0x1FF8, 0x0F08, 0x0000,
     0x0000, 0x0000, 0x0000, 0x0000, 0x0000, 0x0000, 0x0000, 0x0000, 0x0000, 0x0000, 0x0000, 0x0000]"

definition ASCII16x24_Table :: "u16 list" where
  "ASCII16x24_Table = ASCII16x24_part1 @ ASCII16x24_part2 @ ASCII16x24_part3 @ ASCII16x24_part4 @ ASCII16x24_part5"

definition Font16x24 :: sFONT where
  "Font16x24 = \<lparr>font_table = ASCII16x24_Table, font_Width = 16, font_Height = 24\<rparr>"

definition WelcomeStr :: "u8 list list" where
  "WelcomeStr = [
   [0x00, 0x00, 0x00, 0x00, 0x00, 0x00, 0x00, 0x00, 0x00, 0x00, 0x10, 0x00, 0x00, 0x18, 0x00, 0x00, 0x18, 0x00, 0x00, 0x18, 0x00, 0x00, 0x3C, 0x00,
    0x00, 0x3C, 0x00, 0x00, 0x7C, 0x00, 0x3F, 0xFF, 0xFC, 0x1F, 0xFF, 0xF8, 0x07, 0xFF, 0xE0, 0x03, 0xFF, 0xC0, 0x01, 0xFF, 0x80, 0x01, 0xFF, 0x80,
    0x01, 0xFF, 0x80, 0x01, 0xFF, 0x80, 0x03, 0xE7, 0xC0, 0x03, 0x81, 0xC0, 0x03, 0x00, 0xC0, 0x04, 0x00, 0x60, 0x00, 0x00, 0x00, 0x00, 0x00, 0x00],
   [0x00, 0x00, 0x00, 0x00, 0x00, 0x00, 0x00, 0x02, 0x00, 0x00, 0x06, 0x00, 0x00, 0x46, 0x00, 0x3F, 0xC4, 0x00, 0x00, 0xC4, 0x04, 0x00, 0x8F, 0xFE,
    0x20, 0x88, 0x08, 0x11, 0x89, 0x90, 0x09, 0x11, 0x80, 0x05, 0x21, 0x80, 0x02, 0x21, 0x80, 0x03, 0x03, 0x80, 0x05, 0x82, 0x80, 0x05, 0x82, 0x40,
    0x08, 0xC2, 0x40, 0x08, 0xC4, 0x60, 0x10, 0x4C, 0x20, 0x20, 0x08, 0x30, 0x40, 0x10, 0x18, 0x00, 0x60, 0x0E, 0x00, 0x80, 0x00, 0x00, 0x00, 0x00],
   [0x00, 0x00, 0x00, 0x00, 0x00, 0x00, 0x18, 0x02, 0x00, 0x0C, 0x0E, 0x00, 0x06, 0x72, 0x08, 0x04, 0x41, 0xFC, 0x00, 0x41, 0x08, 0x00, 0x41, 0x08,
    0x04, 0x41, 0x08, 0x7E, 0x41, 0x08, 0x04, 0x41, 0x08, 0x04, 0x41, 0x08, 0x04, 0x41, 0x08, 0x04, 0x45, 0x08, 0x04, 0x59, 0x08, 0x04, 0x61, 0x78,
    0x04, 0x41, 0x18, 0x04, 0x01, 0x00, 0x1A, 0x01, 0x00, 0x71, 0x00, 0x00, 0x60, 0xE0, 0x02, 0x00, 0x3F, 0xFC, 0x00, 0x00, 0x00, 0x00, 0x00, 0x00],
   [0x00, 0x00, 0x00, 0x00, 0x00, 0x00, 0x03, 0x18, 0x00, 0x06, 0x18, 0x00, 0x04, 0x30, 0x00, 0x0C, 0x3F, 0xFC, 0x0C, 0x44, 0x10, 0x14, 0x43, 0x20,
    0x24, 0x82, 0x00, 0x44, 0x32, 0x40, 0x04, 0x22, 0x20, 0x04, 0x42, 0x18, 0x04, 0x82, 0x18, 0x05, 0x1E, 0x08, 0x04, 0x06, 0x00, 0x00, 0x20, 0x00,
    0x01, 0x98, 0x20, 0x09, 0x8C, 0x10, 0x09, 0x88, 0x4C, 0x19, 0x80, 0x4C, 0x31, 0x80, 0x44, 0x01, 0x80, 0xE0, 0x00, 0xFF, 0xC0, 0x00, 0x00, 0x00],
   [0x00, 0x00, 0x00, 0x00, 0x00, 0x00, 0x01, 0x81, 0x00, 0x03, 0x01, 0x00, 0x03, 0x01, 0x04, 0x02, 0xFF, 0xFE, 0x06, 0x01, 0x00, 0x04, 0x01, 0x00,
    0x0E, 0x21, 0x18, 0x0E, 0x3F, 0xE8, 0x16, 0x21, 0x08, 0x26, 0x21, 0x08, 0x26, 0x21, 0x08, 0x46, 0x3F, 0xF8, 0x06, 0x21, 0x00, 0x06, 0x13, 0x00,
    0x06, 0x12, 0x00, 0x06, 0x0A, 0x00, 0x06, 0x06, 0x00, 0x06, 0x06, 0x00, 0x06, 0x0F, 0x00, 0x06, 0x10, 0xE0, 0x06, 0x60, 0x3C, 0x01, 0x80, 0x00],
   [0x00, 0x00, 0x00, 0x00, 0x00, 0x00, 0x08, 0x00, 0x10, 0x0F, 0xFF, 0xF8, 0x0C, 0x08, 0x10, 0x0C, 0x08, 0x10, 0x0C, 0x08, 0x10, 0x0C, 0x08, 0x10,
    0x0C, 0x08, 0x10, 0x0F, 0xFF, 0xF0, 0x08, 0x08, 0x10, 0x08, 0x08, 0x10, 0x08, 0x08, 0x10, 0x08, 0x08, 0x10, 0x0F, 0xFF, 0xF0, 0x08, 0x08, 0x10,
    0x08, 0x08, 0x10, 0x08, 0x08, 0x10, 0x10, 0x18, 0x10, 0x10, 0x18, 0x10, 0x20, 0x18, 0x10, 0x20, 0x18, 0xF0, 0x40, 0x00, 0x30, 0x00, 0x00, 0x00],
   [0x00, 0x00, 0x00, 0x00, 0x01, 0x00, 0x04, 0x00, 0x80, 0x02, 0x00, 0x80, 0x02, 0x00, 0x80, 0x00, 0x00, 0x88, 0x00, 0x9F, 0xFC, 0x3F, 0x90, 0x88,
    0x01, 0x10, 0x88, 0x03, 0x10, 0x88, 0x02, 0x1F, 0xF8, 0x06, 0x10, 0x88, 0x0D, 0x90, 0x88, 0x0C, 0xD0, 0x88, 0x14, 0x50, 0x8C, 0x24, 0x1F, 0xFC,
    0x44, 0x10, 0x88, 0x04, 0x00, 0x80, 0x04, 0x00, 0x80, 0x04, 0x00, 0x80, 0x04, 0x00, 0x80, 0x04, 0x00, 0x80, 0x04, 0x01, 0x80, 0x00, 0x01, 0x00],
   [0x00, 0x00, 0x00, 0x00, 0x00, 0x00, 0x00, 0x18, 0x00, 0x00, 0x10, 0x00, 0x00, 0x20, 0x00, 0x03, 0xFF, 0xE0, 0x02, 0x00, 0x40, 0x02, 0x20, 0x40,
    0x02, 0x10, 0x40, 0x02, 0x18, 0x40, 0x02, 0x08, 0x40, 0x02, 0x00, 0x40, 0x02, 0x00, 0x4E, 0x3F, 0xFF, 0xF0, 0x02, 0x00, 0x40, 0x02, 0x20, 0x40,
    0x02, 0x10, 0x40, 0x06, 0x18, 0x40, 0x06, 0x18, 0x40, 0x04, 0x00, 0x40, 0x08, 0x00, 0x40, 0x10, 0x07, 0xC0, 0x20, 0x01, 0x80, 0x40, 0x00, 0x00],
   [0x00, 0x00, 0x00, 0x00, 0x00, 0x00, 0x00, 0x00, 0xF8, 0x00, 0x7F, 0x00, 0x1F, 0x98, 0x00, 0x00, 0x30, 0x00, 0x00, 0x40, 0x40, 0x00, 0x80, 0xC0,
    0x07, 0x3F, 0x00, 0x07, 0xC4, 0x00, 0x00, 0x18, 0x00, 0x00, 0x60, 0x40, 0x00, 0x80, 0x20, 0x07, 0x7F, 0xF8, 0x07, 0x88, 0x18, 0x01, 0x08, 0x00,
    0x00, 0xC8, 0x80, 0x01, 0x88, 0x60, 0x02, 0x08, 0x38, 0x04, 0x08, 0x1C, 0x18, 0x08, 0x0C, 0x20, 0xF8, 0x0C, 0x00, 0x18, 0x00, 0x00, 0x00, 0x00],
   [0x00, 0x00, 0x00, 0x00, 0x00, 0x00, 0x00, 0x00, 0x0C, 0x00, 0x0C, 0x08, 0x3F, 0xF0, 0x08, 0x01, 0x00, 0x08, 0x03, 0x01, 0x88, 0x02, 0x00, 0x88,
    0x02, 0x18, 0x88, 0x07, 0xF8, 0x88, 0x04, 0x10, 0x88, 0x0C, 0x30, 0x88, 0x0A, 0x20, 0x88, 0x13, 0x20, 0x88, 0x21, 0x60, 0x88, 0x01, 0x40, 0x88,
    0x00, 0xC0, 0x88, 0x00, 0x81, 0x88, 0x01, 0x01, 0x08, 0x02, 0x00, 0x08, 0x04, 0x00, 0x08, 0x18, 0x00, 0x78, 0x20, 0x00, 0x18, 0x00, 0x00, 0x00],
   [0x00, 0x00, 0x00, 0x00, 0x00, 0x00, 0x00, 0x00, 0x00, 0x00, 0x00, 0x18, 0x1F, 0xFF, 0xE0, 0x00, 0x81, 0x80, 0x00, 0x81, 0x80, 0x00, 0x81, 0x80,
    0x00, 0x81, 0x80, 0x00, 0x81, 0x80, 0x00, 0x81, 0x84, 0x00, 0x81, 0x8C, 0x1F, 0xFF, 0xF0, 0x00, 0x81, 0x80, 0x00, 0x81, 0x80, 0x00, 0x81, 0x80,
    0x01, 0x81, 0x80, 0x01, 0x01, 0x80, 0x01, 0x01, 0x80, 0x02, 0x01, 0x80, 0x04, 0x01, 0x80, 0x08, 0x01, 0x80, 0x30, 0x01, 0x80, 0x00, 0x00, 0x00],
   [0x00, 0x00, 0x00, 0x00, 0x00, 0x00, 0x00, 0x31, 0x00, 0x04, 0x60, 0xC0, 0x0C, 0x60, 0x60, 0x0C, 0x60, 0x60, 0x08, 0x40, 0x00, 0x18, 0x40, 0x0C,
    0x17, 0xFF, 0xF0, 0x00, 0xC0, 0x00, 0x00, 0xC0, 0x00, 0x00, 0xFF, 0xE0, 0x00, 0xA0, 0x60, 0x01, 0xA0, 0x40, 0x01, 0x10, 0x80, 0x03, 0x09, 0x80,
    0x02, 0x09, 0x00, 0x06, 0x06, 0x00, 0x04, 0x06, 0x00, 0x08, 0x0D, 0x80, 0x10, 0x30, 0xE0, 0x20, 0x40, 0x3E, 0x43, 0x80, 0x08, 0x00, 0x00, 0x00],
   [0x00, 0x00, 0x00, 0x00, 0x00, 0x00, 0x06, 0x00, 0x30, 0x04, 0x00, 0xF8, 0x04, 0x1F, 0x00, 0x04, 0x10, 0x00, 0x04, 0x90, 0x00, 0x3F, 0x10, 0x00,
    0x0C, 0x10, 0x10, 0x0C, 0x1F, 0xF0, 0x0E, 0x14, 0x30, 0x0D, 0x14, 0x20, 0x1C, 0x94, 0x20, 0x14, 0xB2, 0x60, 0x14, 0x32, 0x40, 0x24, 0x23, 0xC0,
    0x44, 0x21, 0x80, 0x44, 0x21, 0x80, 0x04, 0x23, 0xC0, 0x04, 0x46, 0x60, 0x04, 0x88, 0x38, 0x04, 0xB0, 0x1C, 0x05, 0xC0, 0x00, 0x00, 0x00, 0x00]]"

section \<open>The sequences\<close>

text \<open>A write to a register, or a delay.  Values that the code computes from shifts are written out.\<close>

datatype lcd_init = W u8 u16 | D nat

primrec init_ev :: "lcd_init \<Rightarrow> lcd_ev list" where
  "init_ev (W r v) = LCD_WriteReg r v"
| "init_ev (D n) = [Wait n]"

definition init_9325 :: "u16 \<Rightarrow> lcd_init list" where
  "init_9325 dev = [
   W 0xe3 0x3008, W 0xe7 0x0012, W 0xef 0x1231, W 0x00 0x0001, W 0x01 0x0100, W 0x02 0x0700,
   W 0x03 0x1030, W 0x04 0x0000, W 0x08 0x0207, W 0x09 0x0000, W 0x0a 0x0000, W 0x0c 0x0001,
   W 0x0d 0x0000, W 0x0f 0x0000, W 0x10 0x0000, W 0x11 0x0007, W 0x12 0x0000, W 0x13 0x0000,
   D 5, D 5, W 0x10 0x1590, W 0x11 0x0227, D 5, D 5,
   W 0x12 0x009c, D 5, D 5, W 0x13 0x1900, W 0x29 0x0023, W 0x2b 0x000e,
   D 5, D 5, W 0x20 0x0000, W 0x21 0x0000, D 5, D 5,
   W 0x30 0x0007, W 0x31 0x0707, W 0x32 0x0006, W 0x35 0x0704, W 0x36 0x1f04, W 0x37 0x0004,
   W 0x38 0x0000, W 0x39 0x0706, W 0x3c 0x0701, W 0x3d 0x000f, D 5, D 5,
   W 0x50 0x0000, W 0x51 0x00ef, W 0x52 0x0000, W 0x53 0x013f, W 0x60 0xa700, W 0x61 0x0001,
   W 0x6a 0x0000, W 0x80 0x0000, W 0x81 0x0000, W 0x82 0x0000, W 0x83 0x0000, W 0x84 0x0000,
   W 0x85 0x0000, W 0x90 0x0010, W 0x92 0x0600] @
   (if dev = 0x9328 then [
   W 0x93 0x0003, W 0x95 0x0110, W 0x97 0x0000, W 0x98 0x0000] else []) @ [
   W 0x07 0x0133, W 0x20 0x0000, W 0x21 0x0000]"

definition init_9320 :: "lcd_init list" where
  "init_9320 = [
   W 0x00 0x0001, W 0x01 0x0100, W 0x02 0x0700, W 0x03 0x1018, D 2, W 0x04 0x0000,
   W 0x08 0x0202, W 0x09 0x0000, W 0x0a 0x0000, W 0x0c 0x0001, W 0x0d 0x0000, W 0x0f 0x0000,
   D 5, W 0x07 0x0101, D 5, W 0x10 0x10c0, W 0x11 0x0007, W 0x12 0x0110,
   W 0x13 0x0b00, W 0x29 0x0000, W 0x2b 0x4010, W 0x50 0x0000, W 0x51 0x00ef, W 0x52 0x0000,
   W 0x53 0x013f, W 0x60 0x2700, W 0x61 0x0001, W 0x6a 0x0000, W 0x80 0x0000, W 0x81 0x0000,
   W 0x82 0x0000, W 0x83 0x0000, W 0x84 0x0000, W 0x85 0x0000, W 0x90 0x0010, W 0x92 0x0000,
   W 0x93 0x0001, W 0x95 0x0110, W 0x97 0x0000, W 0x98 0x0000, D 5, W 0x07 0x0173,
   D 5]"

definition init_9331 :: "lcd_init list" where
  "init_9331 = [
   W 0xe7 0x1014, W 0x01 0x0100, W 0x02 0x0200, W 0x03 0x1030, W 0x08 0x0202, W 0x09 0x0000,
   W 0x0a 0x0000, W 0x0c 0x0000, W 0x0d 0x0000, W 0x0f 0x0000, W 0x10 0x0000, W 0x11 0x0007,
   W 0x12 0x0000, W 0x13 0x0000, D 5, W 0x10 0x1690, W 0x11 0x0227, D 2,
   W 0x12 0x000c, D 2, W 0x13 0x0800, W 0x29 0x0011, W 0x2b 0x000b, D 2,
   W 0x20 0x0000, W 0x21 0x0000, W 0x30 0x0000, W 0x31 0x0106, W 0x32 0x0000, W 0x35 0x0204,
   W 0x36 0x160a, W 0x37 0x0707, W 0x38 0x0106, W 0x39 0x0707, W 0x3c 0x0402, W 0x3d 0x0c0f,
   W 0x50 0x0000, W 0x51 0x00ef, W 0x52 0x0000, W 0x53 0x013f, W 0x60 0x2700, W 0x61 0x0001,
   W 0x6a 0x0000, W 0x80 0x0000, W 0x81 0x0000, W 0x82 0x0000, W 0x83 0x0000, W 0x84 0x0000,
   W 0x85 0x0000, W 0x90 0x0010, W 0x92 0x0600, W 0x07 0x0021, D 2, W 0x07 0x0061,
   D 2, W 0x07 0x0133, D 2]"

definition init_9919 :: "lcd_init list" where
  "init_9919 = [
   W 0x28 0x0006, W 0x00 0x0001, W 0x10 0x0000, W 0x01 0x72ef, W 0x02 0x0600, W 0x03 0x6a38,
   W 0x11 0x6874, W 0x0f 0x0000, W 0x0b 0x5308, W 0x0c 0x0003, W 0x0d 0x000a, W 0x0e 0x2e00,
   W 0x1e 0x00be, W 0x25 0x8000, W 0x26 0x7800, W 0x27 0x0078, W 0x4e 0x0000, W 0x4f 0x0000,
   W 0x12 0x08d9, W 0x30 0x0000, W 0x31 0x0104, W 0x32 0x0100, W 0x33 0x0305, W 0x34 0x0505,
   W 0x35 0x0305, W 0x36 0x0707, W 0x37 0x0300, W 0x3a 0x1200, W 0x3b 0x0800, W 0x07 0x0033]"

definition init_1505 :: "lcd_init list" where
  "init_1505 = [
   W 0x07 0x0000, D 2, W 0x12 0x011c, W 0xa4 0x0001, W 0x08 0x000f, W 0x0a 0x0008,
   W 0x0d 0x0008, W 0x30 0x0707, W 0x31 0x0007, W 0x32 0x0603, W 0x33 0x0700, W 0x34 0x0202,
   W 0x35 0x0002, W 0x36 0x1f0f, W 0x37 0x0707, W 0x38 0x0000, W 0x39 0x0000, W 0x3a 0x0707,
   W 0x3b 0x0000, W 0x3c 0x0007, W 0x3d 0x0000, D 2, W 0x07 0x0001, W 0x17 0x0001,
   D 2, W 0x10 0x17a0, W 0x11 0x0217, W 0x12 0x011e, W 0x13 0x0f00, W 0x2a 0x0000,
   W 0x29 0x000a, W 0x12 0x013e, W 0x50 0x0000, W 0x51 0x00ef, W 0x52 0x0000, W 0x53 0x013f,
   W 0x60 0x2700, W 0x61 0x0001, W 0x6a 0x0000, W 0x80 0x0000, W 0x81 0x0000, W 0x82 0x0000,
   W 0x83 0x0000, W 0x84 0x0000, W 0x85 0x0000, W 0x90 0x0013, W 0x92 0x0300, W 0x93 0x0005,
   W 0x95 0x0000, W 0x97 0x0000, W 0x98 0x0000, W 0x01 0x0100, W 0x02 0x0700, W 0x03 0x1018,
   W 0x04 0x0000, W 0x0c 0x0000, W 0x0f 0x0000, W 0x20 0x0000, W 0x21 0x0000, W 0x07 0x0021,
   D 2, W 0x07 0x0061, D 2, W 0x07 0x0173, D 2]"

definition init_8989 :: "lcd_init list" where
  "init_8989 = [
   W 0x00 0x0001, W 0x03 0xa8a4, W 0x0c 0x0000, W 0x0d 0x080c, W 0x0e 0x2b00, W 0x1e 0x00b0,
   W 0x01 0x293f, W 0x02 0x0600, W 0x10 0x0000, W 0x11 0x6078, W 0x05 0x0000, W 0x06 0x0000,
   W 0x16 0xef1c, W 0x17 0x0003, W 0x07 0x0233, W 0x0b 0x0000, W 0x0f 0x0000, W 0x41 0x0000,
   W 0x42 0x0000, W 0x48 0x0000, W 0x49 0x013f, W 0x4a 0x0000, W 0x4b 0x0000, W 0x44 0xef00,
   W 0x45 0x0000, W 0x46 0x013f, W 0x30 0x0707, W 0x31 0x0204, W 0x32 0x0204, W 0x33 0x0502,
   W 0x34 0x0507, W 0x35 0x0204, W 0x36 0x0204, W 0x37 0x0502, W 0x3a 0x0302, W 0x3b 0x0302,
   W 0x23 0x0000, W 0x24 0x0000, W 0x25 0x8000, W 0x4e 0x0000, W 0x4f 0x0000]"

section \<open>The set-up\<close>

definition LCD_DB_AS_InPut :: "lcd_ev list" where
  "LCD_DB_AS_InPut = [Port_input]"

definition LCD_DB_AS_OutPut :: "lcd_ev list" where
  "LCD_DB_AS_OutPut = [Port_output]"

definition LCD_Pins_Config :: "lcd_ev list" where
  "LCD_Pins_Config =
     [Pins_output, Set_pin Pin_CS, Set_pin Pin_WR, Set_pin Pin_RD, Set_pin Pin_RS]"

text \<open>The conversion \<open>%x\<close>.\<close>

fun hex :: "nat \<Rightarrow> string" where
  "hex n = (if n < 16 then [if n < 10 then char_of (48 + n) else char_of (87 + n)]
            else hex (n div 16) @ hex (n mod 16))"

declare hex.simps [simp del]

definition newline :: string where
  "newline = [CHR 0x0A, CHR 0x0D]"

definition chars :: "string \<Rightarrow> u8 list" where
  "chars = map of_char"

text \<open>The macro \<open>LINE\<close>: the row at which a line of text begins, for the font in use.\<close>

definition LCD_LINE :: "lcd \<Rightarrow> nat \<Rightarrow> u8" where
  "LCD_LINE s x = of_nat (x * unat (font_Height (LCD_GetFont s)))"

fun welcome_cells :: "lcd \<Rightarrow> u8 \<Rightarrow> nat \<Rightarrow> u8 list list \<Rightarrow> lcd_ev list option" where
  "welcome_cells s Line num [] = Some []"
| "welcome_cells s Line num (c # cs) =
     seq_ev (LCD_DrawChinaChar s Line (of_nat (num * 24 + 4)) c) (welcome_cells s Line (Suc num) cs)"

definition LCD_DisplayWelcomeStr :: "lcd \<Rightarrow> u8 \<Rightarrow> lcd_ev list option" where
  "LCD_DisplayWelcomeStr s Line = welcome_cells s Line 0 WelcomeStr"

text \<open>The digits of the identification in the text of the second line.\<close>

definition Devicestr :: "u16 \<Rightarrow> u8 list" where
  "Devicestr dev = (chars '' LCD Driver ID:9320 '')
     [15 := ucast (drop_bit 12 dev AND 0xF) + 0x30, 16 := ucast (drop_bit 8 dev AND 0xF) + 0x30,
      17 := ucast (drop_bit 4 dev AND 0xF) + 0x30, 18 := ucast (drop_bit 0 dev AND 0xF) + 0x30]"

definition init_controller :: "u16 \<Rightarrow> lcd_ev list" where
  "init_controller dev =
     (if dev = 0x9325 \<or> dev = 0x9328 then concat (map init_ev (init_9325 dev))
      else if dev = 0x9320 \<or> dev = 0x9300
        then Printf (newline @ '' This LCD is ili'' @ hex (unat dev) @ ''.'') # concat (map init_ev init_9320)
      else if dev = 0x9331 then concat (map init_ev init_9331)
      else if dev = 0x9919 then concat (map init_ev init_9919)
      else if dev = 0x1505 then concat (map init_ev init_1505)
      else if dev = 0x8989 then concat (map init_ev init_8989)
      else [Printf (newline @ '' ###### Err: Unknow DeviceIdCode 0x'' @ hex (unat dev) @ '' ###### '')])"

definition controller_id :: "u16 \<Rightarrow> u16 \<Rightarrow> u16" where
  "controller_id id1 id2 = (if id1 = 0 then id2 else id1)"

text \<open>
  \<open>id1\<close> and \<open>id2\<close> are what the port shows when the identification is read; it is read again when
  the first answer is 0.
\<close>

definition LCD_Setup :: "u16 \<Rightarrow> u16 \<Rightarrow> lcd \<Rightarrow> (lcd_ev list \<times> lcd) option" where
  "LCD_Setup id1 id2 s =
     (let start = LCD_Pins_Config @ [Wait 1] @ LCD_WriteReg 0 1 @ [Wait 3] @ LCD_DB_AS_InPut @ [Wait 2] @
                  LCD_ReadReg 0 @ (if id1 = 0 then LCD_ReadReg 0 else []);
          dev = controller_id id1 id2;
          s = s\<lparr>DeviceIdCode := dev\<rparr>;
          named = [Printf (newline @ '' ###### www.armjishu.com DeviceIdCode = 0x'' @ hex (unat dev) @ '' ###### '')] @
                  LCD_DB_AS_OutPut @ [Wait 2] @
                  (if dev = 0x8989 then [Printf (newline @ '' This LCD is SSD1289 '')] else []) @
                  (if dev = 0x9325 then [Printf (newline @ '' This LCD is ili9325 '')] else []);
          clear = LCD_Clear s 0x07E0;
          s = LCD_SetBackColor 0xF800 (LCD_SetTextColor 0xFFE0 s)
      in map_option (\<lambda>e. (start @ named @ init_controller dev @ [Wait 1] @ clear @ e @ [Wait 80], s))
           (seq_ev (LCD_DisplayStringLine s (LCD_LINE s 5) (chars ''  www.armjishu.com  ''))
             (seq_ev (LCD_DisplayStringLine s (LCD_LINE s 6) (Devicestr dev))
               (LCD_DisplayWelcomeStr s (LCD_LINE s 2)))))"

definition STM3210C_LCD_Init :: "u16 \<Rightarrow> u16 \<Rightarrow> lcd \<Rightarrow> (lcd_ev list \<times> lcd) option" where
  "STM3210C_LCD_Init id1 id2 s = LCD_Setup id1 id2 (LCD_SetFont Font16x24 s)"

section \<open>What the start leaves on the bus\<close>

lemma paints_quiet:
  "paints dev [Wait n] []" "paints dev [Printf t] []" "paints dev LCD_DB_AS_InPut []"
  "paints dev LCD_DB_AS_OutPut []"
  by (simp_all add: paints_def panel_run_Cons LCD_DB_AS_InPut_def LCD_DB_AS_OutPut_def)

lemma paints_none: "paints dev e [] \<Longrightarrow> paints dev e' [] \<Longrightarrow> paints dev (e @ e') []"
  using paints_append [of dev e "[]" e' "[]"] by simp

lemma paints_WriteReg:
  assumes "r \<noteq> LCD_REG_34"
  shows "paints dev (LCD_WriteReg r v) []"
proof -
  have "(ucast r :: u16) \<noteq> ucast LCD_REG_34"
    using assms by (metis unat_ucast_u8_u16 word_unat_eq_iff)
  then show ?thesis
    by (auto simp: paints_def LCD_WriteReg_def panel_run_Cons latch_def idle_def)
qed

lemma paints_ReadReg: "paints dev (LCD_ReadReg r) []"
  by (simp add: paints_def LCD_ReadReg_def panel_run_Cons latch_def idle_def)

primrec no_pixel :: "lcd_init \<Rightarrow> bool" where
  "no_pixel (W r v) \<longleftrightarrow> r \<noteq> 0x22"
| "no_pixel (D n) \<longleftrightarrow> True"

lemma paints_inits: "list_all no_pixel xs \<Longrightarrow> paints dev (concat (map init_ev xs)) []"
proof (induction xs)
  case (Cons x xs)
  then have "paints dev (init_ev x) []"
    by (cases x) (auto intro: paints_WriteReg paints_quiet simp: LCD_REG_34_def)
  then show ?case using Cons by (simp add: paints_none)
qed simp

lemma init_9325_plain: "list_all no_pixel (init_9325 dev)"
  unfolding init_9325_def by simp

lemma init_9320_plain: "list_all no_pixel init_9320"
  unfolding init_9320_def by simp

lemma init_9331_plain: "list_all no_pixel init_9331"
  unfolding init_9331_def by simp

lemma init_9919_plain: "list_all no_pixel init_9919"
  unfolding init_9919_def by simp

lemma init_1505_plain: "list_all no_pixel init_1505"
  unfolding init_1505_def by simp

lemma init_8989_plain: "list_all no_pixel init_8989"
  unfolding init_8989_def by simp

lemmas init_sequences_plain = init_9325_plain init_9320_plain init_9331_plain init_9919_plain
  init_1505_plain init_8989_plain

lemma paints_controller: "paints dev (init_controller d) []"
  using paints_none [OF paints_quiet(2) paints_inits [OF init_sequences_plain(2)]]
  by (simp add: init_controller_def paints_inits init_sequences_plain paints_quiet)

text \<open>Raising CS first, the set-up of the pins writes nothing, whatever state they were in.\<close>

lemma Pins_Config_panel:
  "idle (panel_run regs LCD_Pins_Config p)" "marks (panel_run regs LCD_Pins_Config p) = marks p"
  by (simp_all add: LCD_Pins_Config_def panel_run_Cons idle_def)

section \<open>The first screen\<close>

lemma length_ASCII16x24: "length ASCII16x24_Table = 2280"
  by (simp add: ASCII16x24_Table_def ASCII16x24_part1_def ASCII16x24_part2_def ASCII16x24_part3_def
      ASCII16x24_part4_def ASCII16x24_part5_def)

lemma in_Font16x24: "in_font Font16x24 c \<longleftrightarrow> unat (c - 32) < 95"
  by (auto simp: in_font_def Font16x24_def length_ASCII16x24)

lemma digit_in_Font16x24: "in_font Font16x24 (ucast (d AND 0xF :: u16) + 0x30)"
proof -
  have "d AND 0xF = take_bit 4 d" by (simp add: take_bit_eq_mask mask_eq_exp_minus_1)
  then have k: "unat (d AND 0xF) < 16" by (simp add: unsigned_take_bit_eq take_bit_nat_less_exp [of 4, simplified])
  have "(ucast (d AND 0xF) :: u8) = of_nat (unat (d AND 0xF))"
    by (simp add: unsigned_ucast_eq)
  then have "(ucast (d AND 0xF) + 0x30 - 32 :: u8) = of_nat (unat (d AND 0xF) + 16)"
    by simp
  then have "unat (ucast (d AND 0xF) + 0x30 - 32 :: u8) = unat (d AND 0xF) + 16"
    using k by (simp only: unat_of_nat_u8) simp
  then show ?thesis using k by (simp add: in_Font16x24)
qed

definition welcome_marks :: "lcd \<Rightarrow> u8 \<Rightarrow> nat \<Rightarrow> u8 list list \<Rightarrow> mark list" where
  "welcome_marks s line num cs =
     concat (map (\<lambda>(k, c). row_marks s line (of_nat (k * 24 + 4))
       (map (\<lambda>r. china_row s (take 3 (drop (3 * r) c))) [0..<24])) (enumerate num cs))"

lemma welcome_cells_paint:
  "list_all (\<lambda>c. length c = 72) cs \<Longrightarrow> \<exists>e. welcome_cells s line num cs = Some e \<and>
     paints (DeviceIdCode s) e (welcome_marks s line num cs)"
proof (induction cs arbitrary: num)
  case (Cons c cs)
  obtain e where e: "LCD_DrawChinaChar s line (of_nat (num * 24 + 4)) c = Some e"
    "paints (DeviceIdCode s) e (row_marks s line (of_nat (num * 24 + 4))
       (map (\<lambda>r. china_row s (take 3 (drop (3 * r) c))) [0..<24]))"
    using china_rows_paint [of 24 c s line "of_nat (num * 24 + 4)"] Cons.prems
    by (auto simp: LCD_DrawChinaChar_def simp del: upt_Suc of_nat_add of_nat_mult)
  obtain e' where "welcome_cells s line (Suc num) cs = Some e'"
    "paints (DeviceIdCode s) e' (welcome_marks s line (Suc num) cs)"
    using Cons by auto
  then show ?case
    using e paints_append [OF e(2)] by (auto simp: seq_ev_def welcome_marks_def simp del: upt_Suc of_nat_add of_nat_mult)
qed (simp add: welcome_marks_def)

lemma WelcomeStr_cells: "list_all (\<lambda>c. length c = 72) WelcomeStr"
  unfolding WelcomeStr_def by simp

definition first_screen :: "u16 \<Rightarrow> lcd" where
  "first_screen dev = \<lparr>TextColor = 0xFFE0, BackColor = 0xF800, DeviceIdCode = dev,
     LCD_Currentfonts = Font16x24\<rparr>"

lemma line_in_font:
  assumes "\<forall>c \<in> set cs. in_font Font16x24 c" "length cs \<le> 20"
  shows "\<exists>e. LCD_DisplayStringLine (first_screen dev) line cs = Some e \<and>
    paints dev e (string_marks (first_screen dev) line 0 cs)"
proof -
  have w: "unat (font_Width (LCD_Currentfonts (first_screen dev))) = 16"
    by (simp add: first_screen_def Font16x24_def)
  have "LCD_PIXEL_WIDTH div 16 = 20" by (simp add: LCD_PIXEL_WIDTH_def)
  then show ?thesis
    using lcd_string_cells [of "first_screen dev" cs line] assms unfolding w
    by (simp add: first_screen_def LCD_PIXEL_WIDTH_def)
qed

lemma title_in_font: "\<forall>c \<in> set (chars ''  www.armjishu.com  ''). in_font Font16x24 c"
  by (simp add: chars_def in_Font16x24)

lemma Devicestr_in_font: "\<forall>c \<in> set (Devicestr dev). in_font Font16x24 c"
  using digit_in_Font16x24
  by (simp add: Devicestr_def chars_def in_Font16x24)

lemma text_lengths: "length (chars ''  www.armjishu.com  '') = 20" "length (Devicestr dev) = 20"
  by (simp_all add: chars_def Devicestr_def)

section \<open>Where the text is written\<close>

text \<open>A pixel word whose cursor stands for a place of the panel as the driver counts, 240 lines of 320 pixels.\<close>

definition on_panel :: "u16 \<Rightarrow> mark \<Rightarrow> bool" where
  "on_panel dev m \<longleftrightarrow> (\<exists>x y. unat x < 240 \<and> unat y + fst (snd m) < 320 \<and> fst m = cursor_at dev x y)"

lemma in_run_marks: "m \<in> set (run_marks ab n cs) \<Longrightarrow> fst m = ab \<and> fst (snd m) < n + length cs"
  by (auto simp: run_marks_def in_set_enumerate_eq)

lemma row_marks_on_panel:
  assumes "unat x + length rows \<le> 240" "\<forall>cs \<in> set rows. unat y + length cs \<le> 320" "m \<in> set (row_marks s x y rows)"
  shows "on_panel (DeviceIdCode s) m"
proof -
  obtain k cs where k: "(k, cs) \<in> set (enumerate 0 rows)" "m \<in> set (run_marks (cursor_at (DeviceIdCode s) (x + of_nat k) y) 0 cs)"
    using assms(3) by (auto simp: row_marks_def)
  have l: "k < length rows" "cs \<in> set rows" using k(1) by (auto simp: in_set_enumerate_eq)
  have "unat (x + of_nat k) = unat x + k" using assms(1) l(1) by (simp add: unat_word_ariths unat_of_nat)
  then have "unat (x + of_nat k) < 240" using assms(1) l(1) by simp
  moreover have "fst m = cursor_at (DeviceIdCode s) (x + of_nat k) y" "fst (snd m) < length cs" using in_run_marks [OF k(2)] by simp_all
  moreover have "unat y + fst (snd m) < 320" using assms(2) l(2) calculation(3) by fastforce
  ultimately show ?thesis unfolding on_panel_def by blast
qed

lemma string_marks_on_panel:
  assumes "unat line + 24 \<le> 240" "length cs \<le> 20"
  shows "list_all (on_panel dev) (string_marks (first_screen dev) line 0 cs)"
proof -
  have "on_panel dev m" if m: "m \<in> set (string_marks (first_screen dev) line 0 cs)" for m
  proof -
    obtain k c where k: "(k, c) \<in> set (enumerate 0 cs)" "m \<in> set (row_marks (first_screen dev) line (of_nat k * 16)
        (map (char_row (first_screen dev)) (glyph Font16x24 c)))"
      using m by (auto simp: string_marks_def cell_marks_def first_screen_def Font16x24_def)
    have "k < 20" using k(1) assms(2) by (auto simp: in_set_enumerate_eq)
    then have "unat (of_nat k * 16 :: u16) = k * 16" by (simp add: unat_word_ariths unat_of_nat)
    then have "\<forall>cs \<in> set (map (char_row (first_screen dev)) (glyph Font16x24 c)). unat (of_nat k * 16 :: u16) + length cs \<le> 320"
      using \<open>k < 20\<close> by (simp add: char_row_def first_screen_def Font16x24_def)
    moreover have "unat line + length (map (char_row (first_screen dev)) (glyph Font16x24 c)) \<le> 240"
      using assms(1) by (simp add: glyph_def Font16x24_def)
    ultimately have "on_panel (DeviceIdCode (first_screen dev)) m" by (rule row_marks_on_panel [OF _ _ k(2), rotated])
    then show ?thesis by (simp add: first_screen_def)
  qed
  then show ?thesis by (simp add: list_all_iff)
qed

lemma welcome_marks_on_panel: "list_all (on_panel dev) (welcome_marks (first_screen dev) 48 0 WelcomeStr)"
proof -
  have w: "length WelcomeStr = 13" by (simp add: WelcomeStr_def)
  have "on_panel dev m" if m: "m \<in> set (welcome_marks (first_screen dev) 48 0 WelcomeStr)" for m
  proof -
    obtain k c where k: "(k, c) \<in> set (enumerate 0 WelcomeStr)" "m \<in> set (row_marks (first_screen dev) 48 (of_nat (k * 24 + 4))
        (map (\<lambda>r. china_row (first_screen dev) (take 3 (drop (3 * r) c))) [0..<24]))"
      using m unfolding welcome_marks_def by (auto simp del: of_nat_add of_nat_mult)
    have "k < 13" using k(1) w by (auto simp: in_set_enumerate_eq)
    then have y: "unat (of_nat (k * 24 + 4) :: u16) \<le> 292" by (simp add: unat_of_nat del: of_nat_add of_nat_mult)
    have "length (china_row t (take 3 xs)) \<le> 24" for t xs
      by (simp add: china_row_def length_concat comp_def sum_list_triv)
    then have "unat (of_nat (k * 24 + 4) :: u16) + length (china_row t (take 3 xs)) \<le> 320" for t xs
      using add_mono [OF y, of "length (china_row t (take 3 xs))" 24] by (simp del: of_nat_add of_nat_mult)
    then have "\<forall>cs \<in> set (map (\<lambda>r. china_row (first_screen dev) (take 3 (drop (3 * r) c))) [0..<24]). unat (of_nat (k * 24 + 4) :: u16) + length cs \<le> 320"
      by (auto simp del: of_nat_add of_nat_mult)
    then have "on_panel (DeviceIdCode (first_screen dev)) m" by (intro row_marks_on_panel [OF _ _ k(2)]) (simp_all del: of_nat_add of_nat_mult)
    then show ?thesis by (simp add: first_screen_def)
  qed
  then show ?thesis by (simp add: list_all_iff)
qed

text \<open>The four controllers the cursor knows have their cursor inside 240 columns and 320 rows; the others do not.\<close>

definition cursor_known :: "u16 \<Rightarrow> bool" where
  "cursor_known dev \<longleftrightarrow> dev \<in> {0x8989, 0x9919, 0x9320, 0x1505}"

lemma on_panel_window:
  assumes "cursor_known dev" "on_panel dev m"
  shows "unat (fst (fst m)) < 240 \<and> unat (snd (fst m)) < 320"
proof -
  obtain x y where p: "unat x < 240" "unat y + fst (snd m) < 320" "fst m = cursor_at dev x y" using assms(2) by (auto simp: on_panel_def)
  then have m: "unat x < 240" "unat y < 320" "fst m = cursor_at dev x y" by simp_all
  have "(0x13f :: u16) - y \<le> 0x13f" by (rule word_sub_le) (use m(2) in \<open>simp add: word_le_nat_alt\<close>)
  then have "unat (0x13f - y) \<le> 319" by (simp add: word_le_nat_alt)
  then show ?thesis using assms(1) m unfolding cursor_known_def cursor_at_def by (auto simp: unat_ucast_u8_u16)
qed

lemma text_leaves_window:
  assumes "\<not> cursor_known dev" "length cs = 20" "\<forall>c \<in> set cs. in_font Font16x24 c"
  shows "list_ex (\<lambda>m. 240 \<le> unat (fst (fst m))) (string_marks (first_screen dev) line 0 cs)"
proof -
  let ?s = "first_screen dev" and ?c = "cs ! 19"
  have c: "(19, ?c) \<in> set (enumerate 0 cs)" "?c \<in> set cs" using assms(2) by (simp_all add: in_set_enumerate_eq)
  have "in_font Font16x24 ?c" using assms(3) c(2) by blast
  then have "glyph Font16x24 ?c \<noteq> []"
    by (auto simp: in_font_def glyph_def Font16x24_def take_eq_Nil)
  then obtain g gs where g: "glyph Font16x24 ?c = g # gs" by (cases "glyph Font16x24 ?c") auto
  have "char_row ?s g \<noteq> []" by (simp add: char_row_def first_screen_def Font16x24_def)
  then obtain w ws where w: "char_row ?s g = w # ws" by (cases "char_row ?s g") auto
  let ?m = "(cursor_at dev line 304, 0, w)"
  have "?m \<in> set (cell_marks ?s line (of_nat 19 * 16) ?c)"
    using g w by (simp add: cell_marks_def first_screen_def)
  then have "?m \<in> set (string_marks ?s line 0 cs)"
    using c(1) unfolding string_marks_def by (force simp: first_screen_def Font16x24_def)
  moreover have "fst (cursor_at dev line 304) = 304" using assms(1) by (auto simp: cursor_known_def cursor_at_def)
  ultimately show ?thesis unfolding list_ex_iff by (intro bexI [of _ ?m]) simp_all
qed

text \<open>
  C20: Whatever state the pins were in and whichever controller answers, the start of the display
  returns, leaves the bus idle and the colours, the controller and the font set, and has written
  exactly these pixel words, each after the cursor it is listed with: 76800 green ones from the first place on, then in yellow on
  red the name in text line 5, the identification in line 6 and the thirteen characters of the welcome text in line 2.  None of
  the registers written before is the one for pixels.  All of the text stands on the 240 by 320 places of the driver.  What the
  controller makes of it rests on its window: for the four controllers \<open>LCD_SetCursor\<close> knows every cursor of the text is
  inside 240 columns and 320 rows, and for every other one, 0x9325 among them, whose window \<open>LCD_Setup\<close> makes 240 columns wide
  (\<open>cursor_leaves_window\<close>), the name goes beyond 240 columns (\<open>stm3210c_eval_lcd.c\<close> line 815).
\<close>

theorem lcd_setup_screen:
  "\<exists>e ts. ts = string_marks (first_screen (controller_id id1 id2)) 120 0 (chars ''  www.armjishu.com  '') @
       string_marks (first_screen (controller_id id1 id2)) 144 0 (Devicestr (controller_id id1 id2)) @
       welcome_marks (first_screen (controller_id id1 id2)) 48 0 WelcomeStr \<and>
     STM3210C_LCD_Init id1 id2 s = Some (e, first_screen (controller_id id1 id2)) \<and>
     idle (panel_run (cursor_regs (controller_id id1 id2)) e p) \<and>
     marks (panel_run (cursor_regs (controller_id id1 id2)) e p) = marks p @
       run_marks (cursor_at (controller_id id1 id2) 0 0) 0 (replicate 76800 0x07E0) @ ts \<and>
     list_all (on_panel (controller_id id1 id2)) ts \<and>
     (if cursor_known (controller_id id1 id2)
      then list_all (\<lambda>m. unat (fst (fst m)) < 240 \<and> unat (snd (fst m)) < 320) ts
      else list_ex (\<lambda>m. 240 \<le> unat (fst (fst m))) ts)"
proof -
  define dev where "dev = controller_id id1 id2"
  let ?s = "first_screen dev"
  obtain e5 where e5: "LCD_DisplayStringLine ?s 120 (chars ''  www.armjishu.com  '') = Some e5"
    "paints dev e5 (string_marks ?s 120 0 (chars ''  www.armjishu.com  ''))"
    using line_in_font [OF title_in_font, of dev 120] text_lengths(1) by auto
  obtain e6 where e6: "LCD_DisplayStringLine ?s 144 (Devicestr dev) = Some e6"
    "paints dev e6 (string_marks ?s 144 0 (Devicestr dev))"
    using line_in_font [of "Devicestr dev" dev 144] Devicestr_in_font text_lengths(2) by auto
  obtain e2 where e2: "LCD_DisplayWelcomeStr ?s 48 = Some e2"
    "paints dev e2 (welcome_marks ?s 48 0 WelcomeStr)"
    using welcome_cells_paint [OF WelcomeStr_cells, of ?s 48 0]
    by (auto simp: LCD_DisplayWelcomeStr_def first_screen_def)
  let ?before = "s\<lparr>LCD_Currentfonts := Font16x24, DeviceIdCode := dev\<rparr>"
  define quiet where "quiet = [Wait 1] @ LCD_WriteReg 0 1 @ [Wait 3] @ LCD_DB_AS_InPut @ [Wait 2] @
      LCD_ReadReg 0 @ (if id1 = 0 then LCD_ReadReg 0 else []) @
      [Printf (newline @ '' ###### www.armjishu.com DeviceIdCode = 0x'' @ hex (unat dev) @ '' ###### '')] @
      LCD_DB_AS_OutPut @ [Wait 2] @
      (if dev = 0x8989 then [Printf (newline @ '' This LCD is SSD1289 '')] else []) @
      (if dev = 0x9325 then [Printf (newline @ '' This LCD is ili9325 '')] else []) @
      init_controller dev @ [Wait 1]"
  have opt: "paints dev e [] \<Longrightarrow> paints dev (if b then e else []) []" for b e by simp
  have "paints dev quiet []"
    unfolding quiet_def
    by (intro paints_none opt paints_quiet paints_ReadReg paints_controller paints_WriteReg)
      (simp_all add: LCD_REG_34_def)
  moreover have "paints dev (LCD_Clear ?before 0x07E0) (run_marks (cursor_at dev 0 0) 0 (replicate 76800 0x07E0))"
    using paints_Clear [of ?before "0x07E0"] by simp
  ultimately have rest: "paints dev (quiet @ LCD_Clear ?before 0x07E0 @ e5 @ e6 @ e2 @ [Wait 80])
      ([] @ run_marks (cursor_at dev 0 0) 0 (replicate 76800 0x07E0) @
       string_marks ?s 120 0 (chars ''  www.armjishu.com  '') @
       string_marks ?s 144 0 (Devicestr dev) @ welcome_marks ?s 48 0 WelcomeStr @ [])"
    using e5(2) e6(2) e2(2) by (intro paints_append paints_quiet)
  have "LCD_LINE ?s 5 = 120" "LCD_LINE ?s 6 = 144" "LCD_LINE ?s 2 = 48"
    by (simp_all add: LCD_LINE_def LCD_GetFont_def first_screen_def Font16x24_def)
  moreover have "LCD_SetBackColor 0xF800 (LCD_SetTextColor 0xFFE0 ?before) = ?s"
    by (simp add: LCD_SetBackColor_def LCD_SetTextColor_def first_screen_def)
  ultimately have "STM3210C_LCD_Init id1 id2 s =
      Some (LCD_Pins_Config @ quiet @ LCD_Clear ?before 0x07E0 @ e5 @ e6 @ e2 @ [Wait 80], ?s)"
    using e5(1) e6(1) e2(1) unfolding STM3210C_LCD_Init_def LCD_Setup_def LCD_SetFont_def dev_def [symmetric]
    by (simp add: Let_def seq_ev_def quiet_def)
  then have run: "\<exists>e. STM3210C_LCD_Init id1 id2 s = Some (e, ?s) \<and> idle (panel_run (cursor_regs dev) e p) \<and>
     marks (panel_run (cursor_regs dev) e p) = marks p @ run_marks (cursor_at dev 0 0) 0 (replicate 76800 0x07E0) @
       string_marks ?s 120 0 (chars ''  www.armjishu.com  '') @ string_marks ?s 144 0 (Devicestr dev) @ welcome_marks ?s 48 0 WelcomeStr"
    using rest Pins_Config_panel [of "cursor_regs dev" p] by (auto simp: paints_def)
  define ts where "ts = string_marks ?s 120 0 (chars ''  www.armjishu.com  '') @ string_marks ?s 144 0 (Devicestr dev) @
    welcome_marks ?s 48 0 WelcomeStr"
  have all: "list_all (on_panel dev) ts"
    unfolding ts_def list_all_append by (intro conjI string_marks_on_panel welcome_marks_on_panel) (simp_all add: text_lengths)
  moreover have "list_all (\<lambda>m. unat (fst (fst m)) < 240 \<and> unat (snd (fst m)) < 320) ts" if "cursor_known dev"
    using all on_panel_window [OF that] unfolding list_all_iff by blast
  moreover have "list_ex (\<lambda>m. 240 \<le> unat (fst (fst m))) ts" if "\<not> cursor_known dev"
    using text_leaves_window [OF that text_lengths(1) title_in_font, of 120] unfolding ts_def by simp
  ultimately show ?thesis
    unfolding dev_def [symmetric] ts_def [symmetric] using run [folded ts_def] by (cases "cursor_known dev") auto
qed

section \<open>Two slips\<close>

text \<open>A digit beyond 9 of the identification is shown as the character that many places behind the 0.\<close>

lemma Devicestr_letters: "Devicestr 0xC505 ! 15 = of_char CHR ''<''"
  by (simp add: Devicestr_def chars_def)

text \<open>
  The controllers 0x9325 and 0x9328 get a window of 240 columns, but \<open>LCD_SetCursor\<close> does not know
  them and gives their column register the place along the side of 320.
\<close>

lemma cursor_leaves_window:
  "W 0x51 0x00ef \<in> set (init_9325 0x9325)" "fst (cursor_at 0x9325 x 300) = 300"
  by (simp_all add: init_9325_def cursor_at_def)

end
