(* ===== verification/Spec2Isabelle.thy ===== *)
theory Spec2Isabelle
  imports Chksum Eeprom Touch Netconf Httpd Telnet Tftp LedApp Ethernet Etharp IpInput LedServer TcpEnd DhcpRetry LcdSetup
begin

text \<open>
  The program is the firmware of a development board with an STM32F107: the TCP/IP stack lwIP 1.3.1 without an
  operating system (\<open>src/Utilities/lwip-1.3.1\<close>), the driver of the Ethernet controller below it, servers over
  it (web pages, a TFTP server, greeting servers, LEDs switched over TCP or UDP), and beside it the
  EEPROM, the touch screen, the keys and the display (\<open>src/Project\<close>).  The main loop polls the driver and calls
  the timers of the stack; frames come in by the receive interrupt.

  A packet's way in: \<open>ETH_IRQHandler\<close> and \<open>low_level_input\<close> (theory \<open>Ethernet\<close>) make a chain of buffers
  of a frame; \<open>ethernet_input\<close> (\<open>Etharp\<close>) learns addresses and passes IP packets on; \<open>ip_input\<close> (\<open>IpInput\<close>)
  reassembles fragments (\<open>Reass\<close>) and calls \<open>icmp_input\<close> (\<open>Icmp\<close>), \<open>udp_input\<close> (\<open>Udp\<close>) or
  \<open>tcp_input\<close> (\<open>TcpIn\<close>), which call the applications.  Its way out: \<open>udp_sendto_if\<close> or \<open>tcp_output\<close>,
  \<open>ip_output_if\<close> with \<open>ip_frag\<close> (\<open>Ip\<close>), \<open>etharp_output\<close>, \<open>low_level_output\<close>.

  \<^bold>\<open>The theories and the code they model.\<close>

  \<^item> \<open>Prelude\<close>: lists, words and options; no code.  \<open>Inet\<close>: byte order and addresses (\<open>inet.c\<close>, \<open>ip_addr.h\<close>, \<open>ip_addr.c\<close>) and the
    error codes (\<open>err.h\<close>).  \<open>Wire\<close>: the fields of headers in memory.  \<open>Chksum\<close>: \<open>inet_chksum.c\<close>.
  \<^item> \<open>Allocator\<close>: the interface that both allocators offer; \<open>Heap\<close>: \<open>mem.c\<close>; \<open>Memp\<close>: \<open>memp.c\<close>.
  \<^item> \<open>Pbuf\<close> and \<open>PbufPool\<close>: \<open>pbuf.c\<close>, the buffers as structures in memory.  \<open>Packet\<close>: chains as values, the view
    of a packet that the protocols above have.
  \<^item> \<open>Etharp\<close>: \<open>etharp.c\<close>.  \<open>Ethernet\<close>: \<open>port/ethernetif.c\<close>, the part of \<open>stm32_eth.c\<close> it calls and the receive
    interrupt.
  \<^item> \<open>Ip\<close>, \<open>Reass\<close>, \<open>IpInput\<close>: \<open>ip.c\<close> and \<open>ip_frag.c\<close>; \<open>Icmp\<close>: \<open>icmp.c\<close>; \<open>Udp\<close>: \<open>udp.c\<close> and \<open>raw.c\<close>.
  \<^item> \<open>TcpListen\<close>: the ports and listeners of \<open>tcp.c\<close>.  \<open>Tcp\<close>: the data of \<open>tcp.h\<close>; \<open>TcpOut\<close>: \<open>tcp_out.c\<close>; \<open>TcpConn\<close>: \<open>tcp.c\<close>;
    \<open>TcpIn\<close>: \<open>tcp_in.c\<close>.  \<open>TcpRecv\<close>, \<open>TcpSend\<close> and \<open>TcpEnd\<close> have no code of their own: they prove what
    the receiver, the sender and both ends together do.
  \<^item> \<open>Netif\<close>: \<open>netif.c\<close>; \<open>Dhcp\<close>: \<open>dhcp.c\<close>.  \<open>DhcpLease\<close> (the bytes of the requests, and what sending them leaves alone),
    \<open>DhcpOthers\<close> (what the rest of the program does with UDP beside the clients), \<open>DhcpClient\<close> (the invariant of the clients), \<open>DhcpReply\<close> (reading replies), \<open>DhcpRuns\<close>, \<open>DhcpBound\<close> and \<open>DhcpRetry\<close>
    (the start, the exchange, the search without an answer) have no code of their own.
  \<^item> \<open>Httpd\<close>: \<open>port/httpd.c\<close>; \<open>Telnet\<close>: \<open>port/helloworld.c\<close> and \<open>port/helloarmjishu.c\<close>; \<open>Tftp\<close>: \<open>port/tftpserver.c\<close> and
    \<open>port/tftputils.c\<close>; \<open>LedApp\<close>: \<open>port/server.c\<close>, \<open>port/client.c\<close> and the start of the servers.  \<open>LedServer\<close> and
    \<open>GreetServer\<close> run the callbacks of two of them over the model of TCP.
  \<^item> \<open>Board\<close>: the keys and the clock (\<open>stm32f107.c\<close>, \<open>main.c\<close>); \<open>Netconf\<close>: \<open>netconf.c\<close> and the main loop; \<open>Eeprom\<close>: \<open>i2c_ee.c\<close>;
    \<open>Touch\<close>: \<open>ARMJISHU_TouchScreen.c\<close>.
  \<^item> \<open>Lcd\<close>: \<open>stm3210c_eval_lcd.c\<close>, with \<open>LcdLine\<close> for its lines and open polygons \<open>LcdCircle\<close> for its circles, \<open>LcdPoly\<close> for the filled
    polygon and \<open>LcdSetup\<close> for its start, with the font of \<open>fonts.c\<close>.
    \<open>LcdPanel\<close> has no code of its own: it is the other side of the bus, which words become pixels where.

  \<^bold>\<open>State and effects.\<close>  A module's static variables are a record, which its operations take and return: \<open>heap\<close>, \<open>memps\<close>,
  \<open>pstate\<close> (the structures and the bytes of all packet buffers, with both allocators), \<open>arp\<close>, \<open>stack\<close> (IP, UDP and
  raw together), \<open>tcp\<close> (TCP above a \<open>stack\<close>) and \<open>nets\<close> (the interfaces and their DHCP clients above \<open>tcp\<close>, because a
  change of an address aborts connections).  Control blocks are named by their address, and
  the lists of the code are lists of addresses.  Below \<open>Packet\<close> a buffer is a structure in memory, above it a value
  with the room in front of its data; \<open>pbuf_header_refines\<close> connects the two.  Errors are the
  constructors of \<open>err_t\<close>.  \<open>None\<close> is a step that the language leaves undefined: a null pointer, memory that was
  freed, an access outside an array, or a loop that never ends.  A callback of an application is a function on
  the whole state of TCP, because it may call every operation of TCP.  What hardware, a user or code that is not
  modelled does is an argument, or a list of outcomes that the state holds (\<open>allocs\<close>, \<open>outcomes\<close>).

  \<^bold>\<open>What is shown.\<close>

  \<^item> TCP: the comparison of sequence numbers is right across their wrap around; a sender loses nothing it was given and
    changes nothing, except where the code joins a write to a segment that was queued again (\<open>sender_stream\<close>, over the relation
    \<open>sending\<close>, whose guard leaves that case out; \<open>rexmit_joins_wrong\<close> is the case itself); a receiver reads the pieces of the stream in
    order and once (the locale \<open>stream_reader\<close>, interpreted for the LED server and the greeting server); and
    both together with the format of the packets between them, up to the 32 bytes of the server's buffer (\<open>tcp_line_end_to_end\<close>).  A port is found for a connection and a
    segment has one listener at most.
  \<^item> UDP and IP: what is sent, in fragments or whole, is what the other end's callback gets; the fragments cover the packet, any order of
    them in which each one extends what was there is put together again; datagrams go to the right block, or an
    error message with their first 28 bytes goes back (\<open>udp_input_unreachable\<close>); echo requests are answered when the sender's
    address has at most ten characters, and overrun a buffer otherwise (\<open>icmp_input_answers\<close>).
  \<^item> Address resolution: the table never has two entries for an address, learns, ages and lets waiting packets go.
  \<^item> Memory: blocks of the heap are apart, and one free block in the end; elements of pools are
    handed out once.  Both rest on \<open>Allocator\<close>.  Chains are freed up to the first shared buffer, and data that is
    put into one comes out again.
  \<^item> Checksums: the optimised sum is that of RFC 1071, over chains too.  Addresses are printed and read back.
  \<^item> Driver: a frame becomes a chain with its bytes and its descriptors go back; the interrupt takes the frames that are ready and
    returns; what is sent is queued, or overwrites a frame when the ring is full.
  \<^item> DHCP: in every run of the relation \<open>dhcp_step\<close> (the calls of the program, both timers, replies, ARP replies, and steps of the rest of
    the program, which may take, use and give back control blocks of UDP as \<open>server_init\<close> and \<open>client_init\<close> do, but leaves the interfaces
    and the clients' blocks alone: \<open>udp_others\<close>) every client is typed: state, tries, timers, address and control block fit.  A start broadcasts a DISCOVER, an
    offer is requested, an acknowledged lease is checked and bound (\<open>dhcp_lease_bound\<close>); without an answer the client asks for
    ever, and the main loop gives up after 30 seconds.  What is written into a request can be read from it.
  \<^item> Servers: a page is sent completely, a file is read and written block by block, a line is answered, commands are obeyed.
  \<^item> Board: EEPROM writes (but an unaligned short one over a page boundary) and reads, pixels inside the screen, a key is shown once, timers are called on time.
  \<^item> Display: which pixel words the events on the pins write, at which cursor (\<open>paints\<close>; the window registers of the controllers are not
    interpreted); a text is a row of cells (\<open>lcd_string_cells\<close>), a
    line is the rounded straight line (\<open>lcd_line_straight\<close>), a circle of radius 1 or more is round within half a pixel (\<open>lcd_circle_round\<close>), a polygon's
    nodes come in sorted pairs (\<open>lcd_fill_returns\<close>), and the start writes the first screen, inside the window for the four
    controllers the cursor knows and out of it for the others (\<open>lcd_setup_screen\<close>).  Line and
    circle rest on the locale \<open>plotter\<close>, interpreted for the points of both.

  \<^bold>\<open>Bounds.\<close>  Three searches have a number of rounds: \<open>find_block\<close> and \<open>next_free\<close> have one for every byte of the
  heap, more than it can have blocks; \<open>tcp_new_port\<close> has one for every port of its range, after which
  it has seen all.  The loop of a line has one for every value of its 16 bit counter, and that of a circle takes
  the number as an argument: the radius and two are enough, and for the radius 0 not \<open>2^31\<close>.  \<open>read_loop\<close> of the EEPROM takes one answer of the bus in each round, which its list of answers bounds.  Loops that
  can run for ever are partial functions (\<open>copy_in\<close>, \<open>copy_out\<close>, \<open>cat_loop\<close>, \<open>reass_tmr_loop\<close>,
  \<open>ip_reass_remove_oldest_datagram\<close>, \<open>slow_loop\<close>, \<open>fast_loop\<close>, \<open>abort_loop\<close>, \<open>scan_options\<close>), whose results the theorems about them establish.  The statements
  about TCP streams hold for streams shorter than half the sequence numbers.

  \<^bold>\<open>Not modelled.\<close>  The I/O expander, the
  vendor's peripheral library and the set-up of the Ethernet controller only write registers.  The pages of the web server
  are generated arrays, the FAT file system is a library of another project; both are arguments.  The sequential interface,
  PPP, SNMP, DNS, IGMP, AutoIP and IPv6 are not compiled or switched off.  Options of the build that are off are left out of
  the functions that have them: out of order queueing, timestamps and backlogs in TCP, forwarding in IP.
  Assertions, statistics and debug output are empty in the build.
\<close>

end
